(* ===== verification/Prelude.thy ===== *)
theory Prelude
  imports Main "HOL-Library.Word" "HOL-Library.Signed_Division" "HOL-Library.Multiset"
    "HOL-Library.Code_Target_Numeral"
begin

text \<open>
  Shared vocabulary of the development: the outcome type of fallible C++ code, the
  fixed-width conversions the program relies on, decimal printing, the byte-wise string
  order of \<^verbatim>\<open>strcmp\<close>, and the comparator contract (strict weak order) that
  \<^verbatim>\<open>std::less\<close>-style arguments promise, with \<^verbatim>\<open>std::lower_bound\<close> and
  \<^verbatim>\<open>std::sort\<close> over it.
\<close>

named_theorems width_simps \<open>conversions to a fixed width that are the identity in range\<close>

section \<open>Outcomes of C++ code\<close>

text \<open>
  Exceptions are values. \<open>Undefined\<close> is the outcome of code whose behaviour the
  language leaves undefined (an uninitialised read, an index outside an array).
\<close>

datatype cxx_error =
    Invalid_argument | Runtime_error | Container_is_empty
  | Index_out_of_bound | Invalid_iterator | Std_exception | Undefined

type_synonym 'a result = "cxx_error + 'a"

fun rbind :: "'a result \<Rightarrow> ('a \<Rightarrow> 'b result) \<Rightarrow> 'b result" where
  "rbind (Inl e) f = Inl e"
| "rbind (Inr x) f = f x"

definition of_option :: "cxx_error \<Rightarrow> 'a option \<Rightarrow> 'a result" where
  "of_option e v = (case v of None \<Rightarrow> Inl e | Some x \<Rightarrow> Inr x)"

lemma of_option_simps [simp]:
  "of_option e None = Inl e" "of_option e (Some x) = Inr x"
  by (simp_all add: of_option_def)

lemma of_option_Inr [simp]: "of_option e v = Inr x \<longleftrightarrow> v = Some x"
  by (cases v) simp_all

lemma rbind_Inr: "rbind m f = Inr y \<longleftrightarrow> (\<exists>x. m = Inr x \<and> f x = Inr y)"
  by (cases m) simp_all

section \<open>Fixed widths\<close>

text \<open>
  \<open>to_u w\<close> is the conversion of an integer to an unsigned type (or bit field) of
  \<open>w\<close> bits; \<open>i32\<close> is the conversion to a two's complement \<^verbatim>\<open>int\<close>.
\<close>

definition to_u :: "nat \<Rightarrow> int \<Rightarrow> nat" where
  "to_u w x = nat (x mod 2 ^ w)"

definition i32 :: "int \<Rightarrow> int" where
  "i32 x = (x + 2147483648) mod 4294967296 - 2147483648"

lemma to_u_less [simp]: "to_u w x < 2 ^ w"
  by (simp add: to_u_def nat_less_iff)

lemma to_u_id [width_simps]: "0 \<le> x \<Longrightarrow> x < 2 ^ w \<Longrightarrow> to_u w x = nat x"
  by (simp add: to_u_def)

lemma to_u_nat [width_simps]: "n < 2 ^ w \<Longrightarrow> to_u w (int n) = n"
  by (simp add: to_u_id)

lemma i32_id [width_simps]: "- 2147483648 \<le> x \<Longrightarrow> x < 2147483648 \<Longrightarrow> i32 x = x"
  by (simp add: i32_def)

lemma i32_range: "- 2147483648 \<le> i32 x \<and> i32 x < 2147483648"
  by (simp add: i32_def)

section \<open>Decimal printing and strings\<close>

fun show_nat :: "nat \<Rightarrow> string" where
  "show_nat n = (if n < 10 then [char_of (48 + n)]
     else show_nat (n div 10) @ [char_of (48 + n mod 10)])"

declare show_nat.simps [simp del]

definition show_int :: "int \<Rightarrow> string" where
  "show_int x = (if x < 0 then ''-'' @ show_nat (nat (- x)) else show_nat (nat x))"

text \<open>\<^verbatim>\<open>std::setw(2) << std::setfill('0')\<close>.\<close>

definition pad2 :: "int \<Rightarrow> string" where
  "pad2 x = (let s = show_int x in replicate (2 - length s) (CHR ''0'') @ s)"

text \<open>\<^verbatim>\<open>strcmp(a, b) < 0\<close>: bytes compare unsigned.\<close>

fun str_less :: "string \<Rightarrow> string \<Rightarrow> bool" where
  "str_less [] [] = False"
| "str_less [] (b # bs) = True"
| "str_less (a # as) [] = False"
| "str_less (a # as) (b # bs) =
     (if a = b then str_less as bs else (of_char a :: nat) < of_char b)"

lemma str_less_irrefl [simp]: "\<not> str_less a a"
  by (induction a) auto

lemma str_less_trans: "str_less a b \<Longrightarrow> str_less b c \<Longrightarrow> str_less a c"
proof (induction a b arbitrary: c rule: str_less.induct)
  case (2 b bs)
  then show ?case by (cases c) auto
next
  case (4 a as b bs)
  then show ?case by (cases c) (auto split: if_splits)
qed auto

lemma str_less_total: "a \<noteq> b \<Longrightarrow> str_less a b \<or> str_less b a"
proof (induction a b rule: str_less.induct)
  case (4 a as b bs)
  consider "a = b" | "(of_char a :: nat) < of_char b" "a \<noteq> b"
    | "(of_char b :: nat) < of_char a" "a \<noteq> b"
    using linorder_less_linear [of "of_char a :: nat" "of_char b"] by auto
  then show ?case using 4 by cases auto
qed auto

lemma str_less_asym: "str_less a b \<Longrightarrow> \<not> str_less b a"
  using str_less_trans str_less_irrefl by blast

section \<open>Comparators\<close>

text \<open>
  The contract of every comparator handed to the index, to \<^verbatim>\<open>std::lower_bound\<close> and
  to \<^verbatim>\<open>std::sort\<close>: a strict weak order.
\<close>

definition lower_pos :: "('a \<Rightarrow> 'k \<Rightarrow> bool) \<Rightarrow> 'a list \<Rightarrow> 'k \<Rightarrow> nat" where
  "lower_pos lt xs k = length (takeWhile (\<lambda>x. lt x k) xs)"

fun insert_by :: "('a \<Rightarrow> 'a \<Rightarrow> bool) \<Rightarrow> 'a \<Rightarrow> 'a list \<Rightarrow> 'a list" where
  "insert_by lt x [] = [x]"
| "insert_by lt x (y # ys) = (if lt y x then y # insert_by lt x ys else x # y # ys)"

fun sort_by :: "('a \<Rightarrow> 'a \<Rightarrow> bool) \<Rightarrow> 'a list \<Rightarrow> 'a list" where
  "sort_by lt [] = []"
| "sort_by lt (x # xs) = insert_by lt x (sort_by lt xs)"

lemma mset_insert_by [simp]: "mset (insert_by lt x xs) = add_mset x (mset xs)"
  by (induction xs) auto

lemma mset_sort_by [simp]: "mset (sort_by lt xs) = mset xs"
  by (induction xs) auto

lemma set_insert_by [simp]: "set (insert_by lt x xs) = insert x (set xs)"
  by (metis mset_insert_by set_mset_add_mset_insert set_mset_mset)

lemma set_sort_by [simp]: "set (sort_by lt xs) = set xs"
  by (metis mset_sort_by set_mset_mset)

lemma length_sort_by [simp]: "length (sort_by lt xs) = length xs"
  by (metis mset_sort_by size_mset)

locale strict_weak_order =
  fixes lt :: "'a \<Rightarrow> 'a \<Rightarrow> bool"
  assumes irrefl: "\<not> lt x x"
    and trans: "lt x y \<Longrightarrow> lt y z \<Longrightarrow> lt x z"
    and negtrans: "\<not> lt x y \<Longrightarrow> \<not> lt y z \<Longrightarrow> \<not> lt x z"
begin

lemma asym: "lt x y \<Longrightarrow> \<not> lt y x"
  using irrefl trans by blast

lemma lt_ge_trans: "lt x y \<Longrightarrow> \<not> lt z y \<Longrightarrow> lt x z"
  using asym negtrans by blast

lemma ge_lt_trans: "\<not> lt y x \<Longrightarrow> lt y z \<Longrightarrow> lt x z"
  using asym negtrans by blast

lemma sorted_insert_by:
  "sorted_wrt (\<lambda>a b. \<not> lt b a) xs \<Longrightarrow> sorted_wrt (\<lambda>a b. \<not> lt b a) (insert_by lt x xs)"
  by (induction xs) (auto dest: asym negtrans)

lemma sorted_sort_by: "sorted_wrt (\<lambda>a b. \<not> lt b a) (sort_by lt xs)"
  by (induction xs) (auto intro: sorted_insert_by)

end

locale strict_total_order = strict_weak_order +
  assumes total: "x \<noteq> y \<Longrightarrow> lt x y \<or> lt y x"
begin

lemma not_less_iff_eq: "\<not> lt x y \<and> \<not> lt y x \<longleftrightarrow> x = y"
  using total irrefl by blast

end

section \<open>Lists updated by index\<close>

lemma sum_list_update_nat:
  "i < length xs \<Longrightarrow> sum_list (xs[i := v]) + xs ! i = sum_list xs + (v :: nat)"
  by (induction xs arbitrary: i) (auto split: nat.splits)

lemma map_of_le_dom: "map_of xs k = Some v \<Longrightarrow> k \<in> fst ` set xs"
  by (auto dest: map_of_SomeD intro: rev_image_eqI)

end
