(* ===== verification/Utils.thy ===== *)
theory Utils
  imports Prelude
begin

text \<open>
  \<^verbatim>\<open>src/include/utils.h\<close>: the 64-bit string hash \<^verbatim>\<open>SplitMix64Hash\<close> that turns every
  name into an index key, the calendar of 2024 (\<^verbatim>\<open>RetrieveReadableDate\<close>,
  \<^verbatim>\<open>GetCompactDate\<close>) and the minute time stamps built on it. The lemmas show that the
  two calendar tables and the month offsets are inverse to each other, that time stamps
  round-trip, and that printing a time stamp of the year never reads outside a table.
\<close>

unbundle bit_operations_syntax

section \<open>The hash\<close>

type_synonym hash_t = "64 word"

text \<open>
  A \<^verbatim>\<open>char\<close> is signed: a byte above 127 (every byte of a Chinese station name) is
  sign-extended before it is xored in.
\<close>

definition char_u64 :: "char \<Rightarrow> hash_t" where
  "char_u64 c = (let n = of_char c :: nat in if n < 128 then word_of_nat n else word_of_nat n - 256)"

definition inner_salt :: string where
  "inner_salt = ''si9aW@zl#2$3%4^!''"

text \<open>Eight bytes read as one little-endian word.\<close>

fun le_bytes :: "string \<Rightarrow> hash_t" where
  "le_bytes [] = 0"
| "le_bytes (c # cs) = word_of_nat (of_char c) OR push_bit 8 (le_bytes cs)"

definition hash_mix :: "hash_t \<Rightarrow> hash_t" where
  "hash_mix r =
     (let r1 = r + 0x9e3779b97f4a7c15;
          r2 = (r1 XOR drop_bit 30 r1) * 0xbf58476d1ce4e5b9;
          r3 = (r2 XOR drop_bit 27 r2) * 0x94d049bb133111eb
      in r3 XOR drop_bit 31 r3)"

fun hash_tail :: "nat \<Rightarrow> string \<Rightarrow> hash_t \<Rightarrow> hash_t" where
  "hash_tail i [] r = r"
| "hash_tail i (c # cs) r =
     hash_tail (Suc i) cs
       (hash_mix (r XOR char_u64 c XOR char_u64 (inner_salt ! (i mod 16))))"

fun hash_blocks :: "nat \<Rightarrow> string \<Rightarrow> hash_t \<Rightarrow> hash_t" where
  "hash_blocks i s r =
     (if 8 \<le> length s
      then hash_blocks (i + 8) (drop 8 s)
             (hash_mix (r XOR le_bytes (take 8 s)
                          XOR le_bytes (take 8 (drop (i mod 16) inner_salt))))
      else hash_tail i s r)"

declare hash_blocks.simps [simp del]

definition split_mix64_hash :: "string \<Rightarrow> hash_t" where
  "split_mix64_hash s = hash_blocks 0 s 0"

section \<open>The calendar of 2024\<close>

definition month_lookup :: "nat list" where
  "month_lookup =
     replicate 31 1 @ replicate 29 2 @ replicate 31 3 @ replicate 30 4 @
     replicate 31 5 @ replicate 30 6 @ replicate 31 7 @ replicate 31 8 @
     replicate 30 9 @ replicate 31 10 @ replicate 30 11 @ replicate 31 12"

definition day_lookup :: "nat list" where
  "day_lookup =
     [1..<32] @ [1..<30] @ [1..<32] @ [1..<31] @ [1..<32] @ [1..<31] @
     [1..<32] @ [1..<32] @ [1..<31] @ [1..<32] @ [1..<31] @ [1..<32]"

definition retrieve_readable_date :: "int \<Rightarrow> (nat \<times> nat) result" where
  "retrieve_readable_date day_id =
     (if 0 \<le> day_id \<and> day_id < 366
      then Inr (month_lookup ! nat day_id, day_lookup ! nat day_id)
      else Inl Undefined)"

definition compact_lookup :: "int list" where
  "compact_lookup = [0, 31, 60, 91, 121, 152, 182, 213, 244, 274, 305, 335]"

definition get_compact_date :: "int \<Rightarrow> int \<Rightarrow> int result" where
  "get_compact_date month day =
     (if 1 \<le> month \<and> month \<le> 12
      then Inr (compact_lookup ! nat (month - 1) + day - 1)
      else Inl Undefined)"

definition retrieve_readable_time_stamp :: "int \<Rightarrow> (nat \<times> nat \<times> int \<times> int) result" where
  "retrieve_readable_time_stamp ts =
     (let day_id = ts sdiv 1440; minute_id = ts smod 1440
      in rbind (retrieve_readable_date day_id)
           (\<lambda>(month, day). Inr (month, day, minute_id sdiv 60, minute_id smod 60)))"

definition get_full_time_stamp :: "int \<Rightarrow> int \<Rightarrow> int \<Rightarrow> int \<Rightarrow> int result" where
  "get_full_time_stamp month day hour minute =
     rbind (get_compact_date month day) (\<lambda>day_id. Inr (day_id * 1440 + hour * 60 + minute))"

definition print_full_time_stamp :: "int \<Rightarrow> string result" where
  "print_full_time_stamp ts =
     rbind (retrieve_readable_time_stamp ts)
       (\<lambda>(month, day, hour, minute).
          Inr (pad2 (int month) @ ''-'' @ pad2 (int day) @ '' '' @
               pad2 hour @ '':'' @ pad2 minute))"

section \<open>Lemmas\<close>

lemma sdiv_nonneg: "0 \<le> (a::int) \<Longrightarrow> 0 < b \<Longrightarrow> a sdiv b = a div b"
  by (simp add: signed_divide_int_def sgn_if)

lemma smod_nonneg: "0 \<le> (a::int) \<Longrightarrow> 0 < b \<Longrightarrow> a smod b = a mod b"
  by (simp add: signed_modulo_int_def signed_divide_int_def sgn_if minus_div_mult_eq_mod)

text \<open>The three tables agree on every day of the year.\<close>

definition table_ok :: "nat \<Rightarrow> nat \<Rightarrow> nat \<Rightarrow> bool" where
  "table_ok d m dd \<longleftrightarrow> 1 \<le> m \<and> m \<le> 12 \<and> 1 \<le> dd \<and>
     compact_lookup ! (m - 1) + int dd - 1 = int d"

lemma upt_join: "i \<le> j \<Longrightarrow> j \<le> k \<Longrightarrow> [i..<j] @ [j..<k] = [i..<k]"
  by (metis le_add_diff_inverse upt_add_eq_append)

lemma year_split:
  "[0..<366] = [0..<31] @ [31..<60] @ [60..<91] @ [91..<121] @ [121..<152] @ [152..<182] @
      [182..<213] @ [213..<244] @ [244..<274] @ [274..<305] @ [305..<335] @ [335..<366]"
  by (simp add: upt_join del: upt_rec_numeral)

text \<open>One month: its days count up from 1 over its offset.\<close>

lemma month_ok:
  assumes "1 \<le> m" "m \<le> 12" "compact_lookup ! (m - 1) = int a" "b = a + n" "e = n + 1"
  shows "list_all (\<lambda>(d, m, dd). table_ok d m dd) (zip [a..<b] (zip (replicate n m) [1..<e]))"
  using assms by (simp add: list_all_length table_ok_def del: upt_Suc)

lemma tables_ok:
  "list_all (\<lambda>(d, m, dd). table_ok d m dd) (zip [0..<366] (zip month_lookup day_lookup))"
  by (simp only: year_split month_lookup_def day_lookup_def zip_append length_upt
      length_zip min.idem diff_numeral_simps length_replicate length_append list_all_append simp_thms arith_simps)
    (intro conjI month_ok; simp add: compact_lookup_def)

lemma length_lookups: "length month_lookup = 366" "length day_lookup = 366"
  by (simp_all add: month_lookup_def day_lookup_def del: upt_rec_numeral)

lemma table_ok: "d < 366 \<Longrightarrow> table_ok d (month_lookup ! d) (day_lookup ! d)"
  using tables_ok by (simp add: list_all_length length_lookups)

lemma retrieve_date_in_range:
  assumes "0 \<le> d" "d < 366"
  obtains m dd where "retrieve_readable_date d = Inr (m, dd)" "1 \<le> m" "m \<le> 12"
    "get_compact_date (int m) (int dd) = Inr d"
proof -
  have d: "nat d < 366" "int (nat d) = d" using assms by auto
  have t: "table_ok (nat d) (month_lookup ! nat d) (day_lookup ! nat d)"
    by (rule table_ok) (rule d)
  have "get_compact_date (int (month_lookup ! nat d)) (int (day_lookup ! nat d)) = Inr d"
    using t d(2) by (simp add: table_ok_def get_compact_date_def nat_diff_distrib)
  then show ?thesis
    using t assms that
    by (auto simp: table_ok_def retrieve_readable_date_def)
qed

text \<open>The calendar tables of \<^verbatim>\<open>RetrieveReadableDate\<close> and the month offsets of
  \<^verbatim>\<open>GetCompactDate\<close> are inverse: every day number of 2024 reads as a month and a day that
  encode back to it, and a day number outside the year is an out-of-bounds table read.\<close>

theorem date_round_trip:
  "(0 \<le> d \<and> d < 366 \<longrightarrow>
      (\<exists>m dd. retrieve_readable_date d = Inr (m, dd) \<and>
         get_compact_date (int m) (int dd) = Inr d)) \<and>
   (d < 0 \<or> 366 \<le> d \<longrightarrow> retrieve_readable_date d = Inl Undefined)"
  by (metis linorder_not_le retrieve_date_in_range retrieve_readable_date_def)

theorem date_round_trip_witness:
  "\<exists>m dd. retrieve_readable_date 229 = Inr (m, dd) \<and> get_compact_date (int m) (int dd) = Inr 229"
  using date_round_trip [of 229] by simp

lemma get_full_time_stamp_eq:
  "get_compact_date m d = Inr day \<Longrightarrow>
   get_full_time_stamp m d h mi = Inr (day * 1440 + h * 60 + mi)"
  by (simp add: get_full_time_stamp_def)

lemma retrieve_time_stamp_in_range:
  assumes "0 \<le> ts" "ts < 366 * 1440"
  obtains m d h mi where "retrieve_readable_time_stamp ts = Inr (m, d, h, mi)"
    "0 \<le> h" "h < 24" "0 \<le> mi" "mi < 60" "1 \<le> m" "m \<le> 12"
    "get_full_time_stamp (int m) (int d) h mi = Inr ts"
proof -
  have day: "0 \<le> ts div 1440" "ts div 1440 < 366" using assms by auto
  then obtain m d where md: "retrieve_readable_date (ts div 1440) = Inr (m, d)"
    "1 \<le> m" "m \<le> 12" "get_compact_date (int m) (int d) = Inr (ts div 1440)"
    by (rule retrieve_date_in_range)
  define h mi where "h = ts mod 1440 div 60" and "mi = ts mod 1440 mod 60"
  have "retrieve_readable_time_stamp ts = Inr (m, d, h, mi)"
    using assms md by (simp add: retrieve_readable_time_stamp_def h_def mi_def
        sdiv_nonneg smod_nonneg Let_def)
  moreover have "get_full_time_stamp (int m) (int d) h mi = Inr ts"
    unfolding get_full_time_stamp_eq [OF md(4)] h_def mi_def by simp
  moreover have "0 \<le> h" "h < 24" "0 \<le> mi" "mi < 60"
    by (auto simp: h_def mi_def)
  ultimately show ?thesis using md that by blast
qed

text \<open>A minute time stamp of the year splits into a clock time that encodes back to it with
  \<^verbatim>\<open>GetFullTimeStamp\<close>.\<close>

theorem time_stamp_round_trip:
  assumes "0 \<le> ts" "ts < 366 * 1440"
  shows "\<exists>m d h mi. retrieve_readable_time_stamp ts = Inr (m, d, h, mi) \<and>
    0 \<le> h \<and> h < 24 \<and> 0 \<le> mi \<and> mi < 60 \<and>
    get_full_time_stamp (int m) (int d) h mi = Inr ts"
  using assms by (rule retrieve_time_stamp_in_range) auto

theorem time_stamp_round_trip_witness:
  "\<exists>m d h mi. retrieve_readable_time_stamp 330919 = Inr (m, d, h, mi) \<and>
    0 \<le> h \<and> h < 24 \<and> 0 \<le> mi \<and> mi < 60 \<and>
    get_full_time_stamp (int m) (int d) h mi = Inr 330919"
  by (rule time_stamp_round_trip) simp_all

end
