(* ===== verification/Priority_Queue.thy ===== *)
theory Priority_Queue
  imports Prelude
begin

text \<open>
  \<^verbatim>\<open>stlite/priority_queue.hpp\<close>: \<^verbatim>\<open>sjtu::priority_queue\<close>, a skew heap with a
  comparator. The pointer tree is a datatype (\<open>Null\<close> is \<^verbatim>\<open>nullptr\<close>); the object is its
  root and its element counter. The lemmas show that every operation keeps the heap order and
  the counter, that the elements are exactly those pushed and not yet popped, and that
  \<^verbatim>\<open>top\<close> is a maximal element; an empty queue throws \<^verbatim>\<open>container_is_empty\<close>.
\<close>

section \<open>The skew heap\<close>

datatype 'a heap_node = Null | Node (val: 'a) (lft: "'a heap_node") (rgt: "'a heap_node")

function skew_merge :: "('a \<Rightarrow> 'a \<Rightarrow> bool) \<Rightarrow> 'a heap_node \<Rightarrow> 'a heap_node \<Rightarrow> 'a heap_node" where
  "skew_merge cmp Null b = b"
| "skew_merge cmp (Node v l r) Null = Node v l r"
| "skew_merge cmp (Node v l r) (Node w l' r') =
     (if cmp v w
      then Node w (skew_merge cmp r' (Node v l r)) l'
      else Node v (skew_merge cmp r (Node w l' r')) l)"
  by pat_completeness auto
termination
  by (relation "measure (\<lambda>(_, a, b). size a + size b)") auto

fun copy_all :: "'a heap_node \<Rightarrow> 'a heap_node" where
  "copy_all Null = Null"
| "copy_all (Node v l r) = Node v (copy_all l) (copy_all r)"

section \<open>The queue object\<close>

record 'a priority_queue =
  root :: "'a heap_node"
  node_count :: nat

definition pq_new :: "'a priority_queue" where
  "pq_new = \<lparr>root = Null, node_count = 0\<rparr>"

definition pq_copy :: "'a priority_queue \<Rightarrow> 'a priority_queue" where
  "pq_copy other = \<lparr>root = copy_all (root other), node_count = node_count other\<rparr>"

definition pq_empty :: "'a priority_queue \<Rightarrow> bool" where
  "pq_empty q \<longleftrightarrow> node_count q = 0"

definition pq_top :: "'a priority_queue \<Rightarrow> 'a result" where
  "pq_top q =
     (if pq_empty q then Inl Container_is_empty
      else case root q of Null \<Rightarrow> Inl Undefined | Node v l r \<Rightarrow> Inr v)"

definition pq_push :: "('a \<Rightarrow> 'a \<Rightarrow> bool) \<Rightarrow> 'a \<Rightarrow> 'a priority_queue \<Rightarrow> 'a priority_queue" where
  "pq_push cmp e q =
     q\<lparr>root := skew_merge cmp (root q) (Node e Null Null), node_count := node_count q + 1\<rparr>"

definition pq_pop :: "('a \<Rightarrow> 'a \<Rightarrow> bool) \<Rightarrow> 'a priority_queue \<Rightarrow> 'a priority_queue result" where
  "pq_pop cmp q =
     (if pq_empty q then Inl Container_is_empty
      else case root q of Null \<Rightarrow> Inl Undefined
           | Node v l r \<Rightarrow> Inr (q\<lparr>root := skew_merge cmp l r, node_count := node_count q - 1\<rparr>))"

text \<open>
  \<^verbatim>\<open>merge\<close> of two distinct objects: their roots are the same pointer only when both are null.
\<close>

definition pq_merge ::
  "('a \<Rightarrow> 'a \<Rightarrow> bool) \<Rightarrow> 'a priority_queue \<Rightarrow> 'a priority_queue
   \<Rightarrow> 'a priority_queue \<times> 'a priority_queue" where
  "pq_merge cmp q other =
     (if root other = Null \<and> root q = Null then (q, other)
      else (q\<lparr>root := skew_merge cmp (root q) (root other),
             node_count := node_count q + node_count other\<rparr>,
            other\<lparr>root := Null, node_count := 0\<rparr>))"

section \<open>Contents and order\<close>

fun heap_mset :: "'a heap_node \<Rightarrow> 'a multiset" where
  "heap_mset Null = {#}"
| "heap_mset (Node v l r) = add_mset v (heap_mset l + heap_mset r)"

fun heap_ordered :: "('a \<Rightarrow> 'a \<Rightarrow> bool) \<Rightarrow> 'a heap_node \<Rightarrow> bool" where
  "heap_ordered cmp Null = True"
| "heap_ordered cmp (Node v l r) \<longleftrightarrow>
     (\<forall>x \<in># heap_mset l + heap_mset r. \<not> cmp v x) \<and> heap_ordered cmp l \<and> heap_ordered cmp r"

definition pq_inv :: "('a \<Rightarrow> 'a \<Rightarrow> bool) \<Rightarrow> 'a priority_queue \<Rightarrow> bool" where
  "pq_inv cmp q \<longleftrightarrow> heap_ordered cmp (root q) \<and> node_count q = size (heap_mset (root q))"

definition pq_elems :: "'a priority_queue \<Rightarrow> 'a multiset" where
  "pq_elems q = heap_mset (root q)"

lemma heap_mset_empty [simp]: "heap_mset t = {#} \<longleftrightarrow> t = Null"
  by (cases t) auto

lemma mset_skew_merge [simp]: "heap_mset (skew_merge cmp a b) = heap_mset a + heap_mset b"
  by (induction cmp a b rule: skew_merge.induct) auto

lemma copy_all [simp]: "copy_all t = t"
  by (induction t) auto

lemmas pq_defs = pq_new_def pq_empty_def pq_top_def pq_push_def pq_pop_def pq_merge_def
  pq_inv_def pq_elems_def

context strict_weak_order
begin

lemma skew_merge_ordered_aux:
  "c = lt \<Longrightarrow> heap_ordered lt a \<Longrightarrow> heap_ordered lt b \<Longrightarrow> heap_ordered lt (skew_merge c a b)"
proof (induction c a b rule: skew_merge.induct)
  case (3 c v l r w l' r')
  then show ?case by (auto dest: asym negtrans)
qed auto

lemmas skew_merge_ordered = skew_merge_ordered_aux [OF refl]

lemma top_maximal: "heap_ordered lt (Node v l r) \<Longrightarrow> x \<in># heap_mset (Node v l r) \<Longrightarrow> \<not> lt v x"
  using irrefl by auto

end

section \<open>The interface\<close>

text \<open>Taking the top and popping it \<open>n\<close> times.\<close>

fun drain :: "('q \<Rightarrow> 'a result) \<Rightarrow> ('q \<Rightarrow> 'q result) \<Rightarrow> nat \<Rightarrow> 'q \<Rightarrow> 'a list result" where
  "drain get del 0 q = Inr []"
| "drain get del (Suc n) q =
     rbind (get q) (\<lambda>v. rbind (del q) (\<lambda>q'. rbind (drain get del n q') (\<lambda>vs. Inr (v # vs))))"

locale max_queue =
  fixes less :: "'a \<Rightarrow> 'a \<Rightarrow> bool"
    and new :: 'q
    and push :: "'a \<Rightarrow> 'q \<Rightarrow> 'q"
    and get :: "'q \<Rightarrow> 'a result"
    and del :: "'q \<Rightarrow> 'q result"
    and invar :: "'q \<Rightarrow> bool"
    and elems :: "'q \<Rightarrow> 'a multiset"
  assumes new: "invar new" "elems new = {#}"
    and push: "invar q \<Longrightarrow> invar (push x q)" "invar q \<Longrightarrow> elems (push x q) = add_mset x (elems q)"
    and get_empty: "invar q \<Longrightarrow> elems q = {#} \<Longrightarrow> get q = Inl Container_is_empty"
    and del_empty: "invar q \<Longrightarrow> elems q = {#} \<Longrightarrow> del q = Inl Container_is_empty"
    and pop: "invar q \<Longrightarrow> elems q \<noteq> {#} \<Longrightarrow>
      \<exists>v q'. get q = Inr v \<and> del q = Inr q' \<and> invar q' \<and> elems q = add_mset v (elems q') \<and>
        (\<forall>x \<in># elems q. \<not> less v x)"
begin

lemma drain_sorts:
  "invar q \<Longrightarrow> size (elems q) = n \<Longrightarrow>
   \<exists>xs. drain get del n q = Inr xs \<and> mset xs = elems q \<and> sorted_wrt (\<lambda>a b. \<not> less a b) xs"
proof (induction n arbitrary: q)
  case 0
  then show ?case by simp
next
  case (Suc n)
  then obtain v q' where q': "get q = Inr v" "del q = Inr q'" "invar q'"
    "elems q = add_mset v (elems q')" "\<forall>x \<in># elems q. \<not> less v x"
    using pop [of q] by fastforce
  with Suc.prems Suc.IH [of q'] obtain xs where
    "drain get del n q' = Inr xs" "mset xs = elems q'" "sorted_wrt (\<lambda>a b. \<not> less a b) xs"
    by auto
  with q' show ?case by (intro exI [of _ "v # xs"]) (auto simp flip: set_mset_mset)
qed

lemma drain_pushed:
  "\<exists>xs. drain get del (length ys) (fold push ys new) = Inr xs \<and>
     mset xs = mset ys \<and> sorted_wrt (\<lambda>a b. \<not> less a b) xs"
proof -
  have "invar (fold push ys q) \<and> elems (fold push ys q) = elems q + mset ys" if "invar q" for q
    using that by (induction ys arbitrary: q) (auto simp: push)
  from this [OF new(1)] drain_sorts [of "fold push ys new" "length ys"] show ?thesis
    by (auto simp: new)
qed

end

sublocale strict_weak_order \<subseteq> pq: max_queue lt pq_new "pq_push lt" pq_top "pq_pop lt" "pq_inv lt" pq_elems
proof (unfold_locales, goal_cases)
  case (7 q)
  then show ?case
    by (cases "root q") (auto simp: pq_defs skew_merge_ordered irrefl)
qed (auto simp: pq_defs skew_merge_ordered)

context strict_weak_order
begin

lemma pq_drain:
  "\<exists>xs. drain pq_top (pq_pop lt) (length ys) (fold (pq_push lt) ys pq_new) = Inr xs \<and>
    mset xs = mset ys \<and> sorted_wrt (\<lambda>a b. \<not> lt a b) xs"
  by (rule pq.drain_pushed)

lemma pq_operations_inv:
  assumes "pq_inv lt q" "pq_inv lt other"
  shows "pq_inv lt (pq_push lt e q)" "pq_inv lt (pq_copy q)"
    "pq_pop lt q = Inr q' \<Longrightarrow> pq_inv lt q'"
    "pq_merge lt q other = (r, r') \<Longrightarrow> pq_inv lt r \<and> pq_inv lt r' \<and>
       pq_elems r = pq_elems q + pq_elems other \<and> pq_elems r' = {#}"
proof -
  show "pq_inv lt (pq_push lt e q)" by (rule pq.push) fact
  show "pq_inv lt (pq_copy q)" using assms by (simp add: pq_defs pq_copy_def)
  show "pq_pop lt q = Inr q' \<Longrightarrow> pq_inv lt q'"
    using assms by (cases "root q") (auto simp: pq_defs skew_merge_ordered split: if_splits)
  show "pq_merge lt q other = (r, r') \<Longrightarrow> pq_inv lt r \<and> pq_inv lt r' \<and>
      pq_elems r = pq_elems q + pq_elems other \<and> pq_elems r' = {#}"
    using assms by (auto simp: pq_defs skew_merge_ordered split: if_splits)
qed

end

interpretation std_less: strict_weak_order "(<) :: 'a::linorder \<Rightarrow> 'a \<Rightarrow> bool"
  by unfold_locales auto

section \<open>Properties\<close>

text \<open>C20: pushing any sequence into an empty queue and then taking and popping the top until the
  queue is empty succeeds at every step and returns the pushed elements, each exactly once, from
  the greatest to the least in the comparator's order.\<close>

theorem priority_queue_drains_sorted:
  assumes "strict_weak_order cmp"
  shows "\<exists>xs. drain pq_top (pq_pop cmp) (length ys) (fold (pq_push cmp) ys pq_new) = Inr xs \<and>
    mset xs = mset ys \<and> sorted_wrt (\<lambda>a b. \<not> cmp a b) xs"
  using assms by (rule strict_weak_order.pq_drain)

theorem priority_queue_drains_sorted_witness:
  "\<exists>xs. drain pq_top (pq_pop (<)) 3 (fold (pq_push (<)) [4, 9, 2] pq_new) = Inr xs \<and>
    mset xs = {#4, 9, 2 :: nat#} \<and> sorted_wrt (\<lambda>a b. \<not> a < b) xs"
  using priority_queue_drains_sorted [of "(<) :: nat \<Rightarrow> nat \<Rightarrow> bool" "[4, 9, 2]"]
    std_less.strict_weak_order_axioms
  by (simp del: drain.simps add: numeral_3_eq_3 add_mset_commute)

text \<open>The invariant of the queue object (heap order and element counter) is kept by push, pop,
  copy and merge; merge moves all elements of the other queue into this one and empties it.\<close>

theorem priority_queue_operations:
  assumes "strict_weak_order cmp" "pq_inv cmp q" "pq_inv cmp other"
  shows "pq_inv cmp (pq_push cmp e q) \<and> pq_inv cmp (pq_copy q) \<and>
    (\<forall>q'. pq_pop cmp q = Inr q' \<longrightarrow> pq_inv cmp q') \<and>
    (\<forall>r r'. pq_merge cmp q other = (r, r') \<longrightarrow> pq_inv cmp r \<and> pq_inv cmp r' \<and>
       pq_elems r = pq_elems q + pq_elems other \<and> pq_elems r' = {#})"
  using strict_weak_order.pq_operations_inv [OF assms] by blast

theorem priority_queue_operations_witness:
  "pq_inv (<) (pq_push (<) (3 :: nat) (pq_push (<) 5 pq_new))"
  using priority_queue_operations [of "(<) :: nat \<Rightarrow> nat \<Rightarrow> bool" "pq_push (<) 5 pq_new" pq_new 3]
    std_less.strict_weak_order_axioms std_less.pq.new std_less.pq.push by blast

end
