(* ===== verification/Merge_Sort.thy ===== *)
theory Merge_Sort
  imports Priority_Queue
begin

text \<open>
  \<^verbatim>\<open>stlite/algorithm.hpp\<close>: \<^verbatim>\<open>ZYM::MergeSort\<close> over the array segment \<^verbatim>\<open>[beg, end)\<close>, here
  the list of its elements, and \<^verbatim>\<open>ZYM::min\<close> and \<^verbatim>\<open>ZYM::max\<close>. The lemmas show that the
  segment is permuted into the comparator's order for any strict weak order.
\<close>

text \<open>The three copying loops of the merge into \<^verbatim>\<open>tmp\<close>: the left element goes first only if the
  comparator says so.\<close>

fun merge_loop :: "('a \<Rightarrow> 'a \<Rightarrow> bool) \<Rightarrow> 'a list \<Rightarrow> 'a list \<Rightarrow> 'a list" where
  "merge_loop cmp [] rs = rs"
| "merge_loop cmp ls [] = ls"
| "merge_loop cmp (l # ls) (r # rs) =
     (if cmp l r then l # merge_loop cmp ls (r # rs) else r # merge_loop cmp (l # ls) rs)"

function merge_sort :: "('a \<Rightarrow> 'a \<Rightarrow> bool) \<Rightarrow> 'a list \<Rightarrow> 'a list" where
  "merge_sort cmp xs =
     (if length xs \<le> 1 then xs
      else let mid = length xs div 2
           in merge_loop cmp (merge_sort cmp (take mid xs)) (merge_sort cmp (drop mid xs)))"
  by pat_completeness auto
termination
  by (relation "measure (\<lambda>(_, xs). length xs)") auto

declare merge_sort.simps [simp del]

definition min_by :: "('a \<Rightarrow> 'a \<Rightarrow> bool) \<Rightarrow> 'a \<Rightarrow> 'a \<Rightarrow> 'a" where
  "min_by lt a b = (if lt a b then a else b)"

definition max_by :: "('a \<Rightarrow> 'a \<Rightarrow> bool) \<Rightarrow> 'a \<Rightarrow> 'a \<Rightarrow> 'a" where
  "max_by lt a b = (if lt b a then a else b)"

lemma mset_merge_loop [simp]: "mset (merge_loop cmp ls rs) = mset ls + mset rs"
  by (induction cmp ls rs rule: merge_loop.induct) auto

lemma set_merge_loop [simp]: "set (merge_loop cmp ls rs) = set ls \<union> set rs"
  by (metis mset_merge_loop set_mset_mset set_mset_union)

lemma mset_merge_sort [simp]: "mset (merge_sort cmp xs) = mset xs"
proof (induction cmp xs rule: merge_sort.induct)
  case (1 cmp xs)
  then show ?case
    by (cases "length xs \<le> 1")
      (simp_all add: merge_sort.simps [of cmp xs] Let_def flip: mset_append)
qed

context strict_weak_order
begin

lemma merge_loop_sorted:
  "c = lt \<Longrightarrow> sorted_wrt (\<lambda>a b. \<not> lt b a) ls \<Longrightarrow> sorted_wrt (\<lambda>a b. \<not> lt b a) rs \<Longrightarrow>
   sorted_wrt (\<lambda>a b. \<not> lt b a) (merge_loop c ls rs)"
  by (induction c ls rs rule: merge_loop.induct) (auto dest: asym negtrans)

lemma merge_sort_sorted: "c = lt \<Longrightarrow> sorted_wrt (\<lambda>a b. \<not> lt b a) (merge_sort c xs)"
proof (induction c xs rule: merge_sort.induct)
  case (1 c xs)
  show ?case
  proof (cases "length xs \<le> 1")
    case True
    then show ?thesis
      by (cases xs) (auto simp: merge_sort.simps [of c "[]"] merge_sort.simps [of c "[a]" for a])
  next
    case False
    with 1 show ?thesis
      by (simp add: merge_sort.simps [of lt xs] Let_def merge_loop_sorted)
  qed
qed

end

text \<open>C21: \<^verbatim>\<open>MergeSort\<close> rearranges the segment into the order of any strict comparator: the
  result holds the same elements, and no later element compares less than an earlier one.\<close>

theorem merge_sort_correct:
  assumes "strict_weak_order cmp"
  shows "mset (merge_sort cmp xs) = mset xs \<and> sorted_wrt (\<lambda>a b. \<not> cmp b a) (merge_sort cmp xs)"
  using strict_weak_order.merge_sort_sorted [OF assms refl] by simp

theorem merge_sort_correct_witness:
  "mset (merge_sort (<) [3, 1, 2 :: int]) = {#3, 1, 2#} \<and>
   sorted_wrt (\<lambda>a b. \<not> b < a) (merge_sort (<) [3, 1, 2 :: int])"
  using merge_sort_correct [of "(<) :: int \<Rightarrow> int \<Rightarrow> bool" "[3, 1, 2]"]
    std_less.strict_weak_order_axioms by simp

end
