(* ===== verification/Key_Index.thy ===== *)
theory Key_Index
  imports Prelude
begin

text \<open>
  The contract of \<^verbatim>\<open>BPlusTreeIndexer\<close> (\<^verbatim>\<open>storage/bpt.hpp\<close>) as its clients see it: the leaf
  chain read from left to right is a list of key and value pairs, sorted by the comparator, and
  \<^verbatim>\<open>siz\<close> counts them. \<^verbatim>\<open>lower_bound\<close> gives a position in the chain, an iterator; a position
  past the last entry is \<^verbatim>\<open>end()\<close>. The pages that hold the chain and the tree above them are
  not part of this theory. The interface is the locale \<open>key_index\<close>, interpreted by the chain for
  every strict weak order.
\<close>

section \<open>The leaf chain\<close>

record ('k, 'v) index =
  chain :: "('k \<times> 'v) list"
  siz :: nat

definition idx_new :: "('k, 'v) index" where
  "idx_new = \<lparr>chain = [], siz = 0\<rparr>"

definition idx_lower :: "('k \<Rightarrow> 'k \<Rightarrow> bool) \<Rightarrow> 'k \<Rightarrow> ('k, 'v) index \<Rightarrow> nat" where
  "idx_lower lt k ix = lower_pos (\<lambda>e k. lt (fst e) k) (chain ix) k"

definition idx_entry :: "nat \<Rightarrow> ('k, 'v) index \<Rightarrow> ('k \<times> 'v) option" where
  "idx_entry i ix = (if i < length (chain ix) then Some (chain ix ! i) else None)"

definition idx_get :: "('k \<Rightarrow> 'k \<Rightarrow> bool) \<Rightarrow> 'k \<Rightarrow> ('k, 'v) index \<Rightarrow> 'v option" where
  "idx_get lt k ix =
     (case idx_entry (idx_lower lt k ix) ix of None \<Rightarrow> None
      | Some (k', v) \<Rightarrow> if lt k k' then None else Some v)"

definition idx_put :: "('k \<Rightarrow> 'k \<Rightarrow> bool) \<Rightarrow> 'k \<Rightarrow> 'v \<Rightarrow> ('k, 'v) index \<Rightarrow> ('k, 'v) index" where
  "idx_put lt k v ix =
     (let i = idx_lower lt k ix; c = chain ix
      in if i < length c \<and> \<not> lt k (fst (c ! i))
         then ix\<lparr>chain := c[i := (fst (c ! i), v)]\<rparr>
         else ix\<lparr>chain := take i c @ (k, v) # drop i c, siz := siz ix + 1\<rparr>)"

definition idx_remove :: "('k \<Rightarrow> 'k \<Rightarrow> bool) \<Rightarrow> 'k \<Rightarrow> ('k, 'v) index \<Rightarrow> ('k, 'v) index" where
  "idx_remove lt k ix =
     (let i = idx_lower lt k ix; c = chain ix
      in if i < length c \<and> \<not> lt k (fst (c ! i))
         then ix\<lparr>chain := take i c @ drop (Suc i) c, siz := siz ix - 1\<rparr>
         else ix)"

text \<open>\<^verbatim>\<open>iterator::SetValue\<close>.\<close>

definition idx_set_value :: "nat \<Rightarrow> 'v \<Rightarrow> ('k, 'v) index \<Rightarrow> ('k, 'v) index" where
  "idx_set_value i v ix = ix\<lparr>chain := (chain ix)[i := (fst (chain ix ! i), v)]\<rparr>"

definition idx_inv :: "('k \<Rightarrow> 'k \<Rightarrow> bool) \<Rightarrow> ('k, 'v) index \<Rightarrow> bool" where
  "idx_inv lt ix \<longleftrightarrow>
     sorted_wrt (\<lambda>a b. lt (fst a) (fst b)) (chain ix) \<and> siz ix = length (chain ix)"

section \<open>The interface\<close>

locale key_index = strict_weak_order lt for lt :: "'k \<Rightarrow> 'k \<Rightarrow> bool" +
  fixes new :: 'ix
    and get :: "'k \<Rightarrow> 'ix \<Rightarrow> 'v option"
    and put :: "'k \<Rightarrow> 'v \<Rightarrow> 'ix \<Rightarrow> 'ix"
    and remove :: "'k \<Rightarrow> 'ix \<Rightarrow> 'ix"
    and sz :: "'ix \<Rightarrow> nat"
    and invar :: "'ix \<Rightarrow> bool"
  assumes new: "invar new" "get k new = None"
    and put_inv: "invar ix \<Longrightarrow> invar (put k v ix)"
    and remove_inv: "invar ix \<Longrightarrow> invar (remove k ix)"
    and get_put: "invar ix \<Longrightarrow>
      get k' (put k v ix) = (if \<not> lt k k' \<and> \<not> lt k' k then Some v else get k' ix)"
    and get_remove: "invar ix \<Longrightarrow>
      get k' (remove k ix) = (if \<not> lt k k' \<and> \<not> lt k' k then None else get k' ix)"
    and get_cong: "invar ix \<Longrightarrow> \<not> lt k k' \<Longrightarrow> \<not> lt k' k \<Longrightarrow> get k ix = get k' ix"
    and sz_zero: "invar ix \<Longrightarrow> sz ix = 0 \<longleftrightarrow> (\<forall>k. get k ix = None)"
begin

lemma get_put_same: "invar ix \<Longrightarrow> get k (put k v ix) = Some v"
  by (simp add: get_put irrefl)

lemma put_put: "invar ix \<Longrightarrow> get k' (put k v (put k w ix)) = get k' (put k v ix)"
  by (simp add: get_put put_inv)

lemma remove_put: "invar ix \<Longrightarrow> get k' (remove k (put k v ix)) = get k' (remove k ix)"
  by (simp add: get_put get_remove put_inv)

end

section \<open>Iterating from a position\<close>

lemma drop_lower_pos: "drop (lower_pos lt xs k) xs = dropWhile (\<lambda>x. lt x k) xs"
  by (simp add: lower_pos_def dropWhile_eq_drop)

lemma dropWhile_filter:
  "sorted_wrt R xs \<Longrightarrow> (\<And>x y. R x y \<Longrightarrow> P y \<Longrightarrow> P x) \<Longrightarrow> dropWhile P xs = filter (\<lambda>x. \<not> P x) xs"
  by (induction xs) (auto intro!: filter_True [symmetric])

section \<open>The chain implements the interface\<close>

context strict_weak_order
begin

text \<open>Where a key stands in a sorted chain: between two entries, or at an equivalent one.\<close>

lemma sorted_position:
  assumes "sorted_wrt (\<lambda>a b. lt (fst a) (fst b)) xs"
  obtains (absent) pre post where "xs = pre @ post" "lower_pos (\<lambda>e k. lt (fst e) k) xs k = length pre"
    "\<forall>a b. (a, b) \<in> set pre \<longrightarrow> lt a k" "\<forall>a b. (a, b) \<in> set post \<longrightarrow> lt k a"
  | (present) pre k' v' post where "xs = pre @ (k', v') # post"
    "lower_pos (\<lambda>e k. lt (fst e) k) xs k = length pre" "\<not> lt k k'" "\<not> lt k' k"
    "\<forall>a b. (a, b) \<in> set pre \<longrightarrow> lt a k" "\<forall>a b. (a, b) \<in> set post \<longrightarrow> lt k a"
proof -
  let ?P = "\<lambda>e. lt (fst e) k"
  let ?pre = "takeWhile ?P xs" and ?post = "dropWhile ?P xs"
  have xs: "xs = ?pre @ ?post" by simp
  have pos: "lower_pos (\<lambda>e k. lt (fst e) k) xs k = length ?pre"
    by (simp add: lower_pos_def)
  have pre: "\<forall>a b. (a, b) \<in> set ?pre \<longrightarrow> lt a k"
    by (auto dest: set_takeWhileD)
  have sorted: "sorted_wrt (\<lambda>a b. lt (fst a) (fst b)) ?post"
    using assms xs by (metis sorted_wrt_append)
  show ?thesis
  proof (cases ?post)
    case Nil
    with xs pos pre show ?thesis by (intro absent [of xs "[]"]) auto
  next
    case (Cons e rest)
    obtain k' v' where e: "e = (k', v')" by force
    have k': "\<not> lt k' k" using Cons e hd_dropWhile [of ?P xs] by auto
    have rest: "\<forall>a b. (a, b) \<in> set rest \<longrightarrow> lt k' a" using sorted Cons e by auto
    show ?thesis
    proof (cases "lt k k'")
      case True
      with rest trans have "\<forall>a b. (a, b) \<in> set ?post \<longrightarrow> lt k a" using Cons e by auto
      with xs pos pre show ?thesis by (rule absent)
    next
      case False
      have "xs = ?pre @ (k', v') # rest" using xs Cons e by simp
      moreover have "\<forall>a b. (a, b) \<in> set rest \<longrightarrow> lt k a"
        using rest k' ge_lt_trans by blast
      ultimately show ?thesis using pos False k' pre by (intro present) auto
    qed
  qed
qed

lemma chain_position:
  assumes "idx_inv lt ix"
  obtains (absent) pre post where "chain ix = pre @ post" "idx_lower lt k ix = length pre"
    "\<forall>a b. (a, b) \<in> set pre \<longrightarrow> lt a k" "\<forall>a b. (a, b) \<in> set post \<longrightarrow> lt k a"
  | (present) pre k' v' post where "chain ix = pre @ (k', v') # post"
    "idx_lower lt k ix = length pre" "\<not> lt k k'" "\<not> lt k' k"
    "\<forall>a b. (a, b) \<in> set pre \<longrightarrow> lt a k" "\<forall>a b. (a, b) \<in> set post \<longrightarrow> lt k a"
proof (rule sorted_position [of "chain ix" k])
  show "sorted_wrt (\<lambda>a b. lt (fst a) (fst b)) (chain ix)"
    using assms by (simp add: idx_inv_def)
qed (auto simp: idx_lower_def intro: absent present)

lemma chain_unique:
  assumes "idx_inv lt ix" "e \<in> set (chain ix)" "e' \<in> set (chain ix)"
    "\<not> lt (fst e) (fst e')" "\<not> lt (fst e') (fst e)"
  shows "e = e'"
proof -
  have "sorted_wrt (\<lambda>a b. lt (fst a) (fst b)) xs \<Longrightarrow> e \<in> set xs \<Longrightarrow> e' \<in> set xs \<Longrightarrow> e = e'" for xs
    using assms(4,5) by (induction xs) auto
  with assms(1-3) show ?thesis unfolding idx_inv_def by blast
qed

text \<open>What \<^verbatim>\<open>Get\<close> finds, as membership in the chain.\<close>

lemma idx_get_Some:
  assumes "idx_inv lt ix"
  shows "idx_get lt k ix = Some v \<longleftrightarrow>
    (\<exists>k'. (k', v) \<in> set (chain ix) \<and> \<not> lt k k' \<and> \<not> lt k' k)"
  using assms
proof (cases rule: chain_position [of _ k])
  case (absent pre post)
  then show ?thesis
    by (cases post) (auto simp: idx_get_def idx_entry_def)
next
  case (present pre k' v' post)
  then show ?thesis by (auto simp: idx_get_def idx_entry_def)
qed

lemma idx_get_eqI:
  assumes "idx_inv lt ix" "idx_inv lt ix'"
    and "\<And>v. (\<exists>k'. (k', v) \<in> set (chain ix) \<and> \<not> lt k k' \<and> \<not> lt k' k) \<longleftrightarrow>
             (\<exists>k'. (k', v) \<in> set (chain ix') \<and> \<not> lt k k' \<and> \<not> lt k' k)"
  shows "idx_get lt k ix = idx_get lt k ix'"
  using assms by (metis idx_get_Some not_None_eq)

text \<open>The chain after \<^verbatim>\<open>Put\<close> and \<^verbatim>\<open>Remove\<close>.\<close>

lemma idx_remove_inv_set:
  assumes "idx_inv lt ix"
  shows "idx_inv lt (idx_remove lt k ix) \<and>
    set (chain (idx_remove lt k ix)) = {(a, b). (a, b) \<in> set (chain ix) \<and> (lt a k \<or> lt k a)}"
  using assms
proof (cases rule: chain_position [of _ k])
  case (absent pre post)
  then have "idx_remove lt k ix = ix" by (cases post) (auto simp: idx_remove_def)
  with absent assms show ?thesis by auto
next
  case (present pre k' v' post)
  then have r: "idx_remove lt k ix = ix\<lparr>chain := pre @ post, siz := siz ix - 1\<rparr>"
    by (simp add: idx_remove_def)
  show ?thesis
    using present assms unfolding r by (auto simp: idx_inv_def sorted_wrt_append)
qed

lemmas idx_remove_inv = idx_remove_inv_set [THEN conjunct1]
  and chain_remove_set = idx_remove_inv_set [THEN conjunct2]

lemma idx_put_inv_set:
  assumes "idx_inv lt ix"
  obtains k' where "\<not> lt k k'" "\<not> lt k' k" "idx_inv lt (idx_put lt k v ix)"
    "set (chain (idx_put lt k v ix)) =
       insert (k', v) {(a, b). (a, b) \<in> set (chain ix) \<and> (lt a k \<or> lt k a)}"
  using assms
proof (cases rule: chain_position [of _ k])
  case (absent pre post)
  then have p: "idx_put lt k v ix = ix\<lparr>chain := pre @ (k, v) # post, siz := siz ix + 1\<rparr>"
    by (cases post) (auto simp: idx_put_def)
  have "idx_inv lt (idx_put lt k v ix)"
    using absent assms unfolding p by (auto simp: idx_inv_def sorted_wrt_append)
  moreover have "set (chain (idx_put lt k v ix)) =
      insert (k, v) {(a, b). (a, b) \<in> set (chain ix) \<and> (lt a k \<or> lt k a)}"
    using absent unfolding p by auto
  ultimately show ?thesis using irrefl that by blast
next
  case (present pre k' v' post)
  then have p: "idx_put lt k v ix = ix\<lparr>chain := pre @ (k', v) # post\<rparr>"
    by (simp add: idx_put_def list_update_append)
  have "idx_inv lt (idx_put lt k v ix)"
    using present assms unfolding p by (auto simp: idx_inv_def sorted_wrt_append)
  moreover have "set (chain (idx_put lt k v ix)) =
      insert (k', v) {(a, b). (a, b) \<in> set (chain ix) \<and> (lt a k \<or> lt k a)}"
    using present unfolding p by auto
  ultimately show ?thesis using present that by blast
qed

lemma idx_put_inv: "idx_inv lt ix \<Longrightarrow> idx_inv lt (idx_put lt k v ix)"
  by (rule idx_put_inv_set)

end

sublocale strict_weak_order \<subseteq>
  ix: key_index lt idx_new "idx_get lt" "idx_put lt" "idx_remove lt" siz "idx_inv lt"
proof (unfold_locales, goal_cases)
  case 1 show ?case by (simp add: idx_inv_def idx_new_def)
next
  case 2 show ?case by (simp add: idx_get_def idx_entry_def idx_new_def)
next
  case 3 then show ?case by (rule idx_put_inv)
next
  case 4 then show ?case by (rule idx_remove_inv)
next
  case (5 ix k' k v)
  obtain k'' where k: "\<not> lt k k''" "\<not> lt k'' k"
    "set (chain (idx_put lt k v ix)) =
      insert (k'', v) {(a, b). (a, b) \<in> set (chain ix) \<and> (lt a k \<or> lt k a)}"
    using 5 by (rule idx_put_inv_set)
  show ?case
  proof (cases "\<not> lt k k' \<and> \<not> lt k' k")
    case True
    then have "\<not> lt k' k''" "\<not> lt k'' k'" using k negtrans by blast+
    with k have "idx_get lt k' (idx_put lt k v ix) = Some v"
      unfolding idx_get_Some [OF idx_put_inv [OF 5]] by auto
    with True show ?thesis by simp
  next
    case False
    have "lt k' k'' \<or> lt k'' k'" using False k negtrans by blast
    moreover have "lt x k \<or> lt k x" if "\<not> lt k' x" "\<not> lt x k'" for x
      using that False negtrans by blast
    ultimately have "idx_get lt k' (idx_put lt k v ix) = idx_get lt k' ix"
      by (intro idx_get_eqI [OF idx_put_inv [OF 5] 5]) (auto simp: k(3))
    with False show ?thesis by auto
  qed
next
  case (6 ix k' k)
  show ?case
  proof (cases "\<not> lt k k' \<and> \<not> lt k' k")
    case True
    then have "idx_get lt k' (idx_remove lt k ix) \<noteq> Some v" for v
      using negtrans unfolding idx_get_Some [OF idx_remove_inv [OF 6]] chain_remove_set [OF 6] by auto
    with True show ?thesis by (metis not_None_eq)
  next
    case False
    have "lt x k \<or> lt k x" if "\<not> lt k' x" "\<not> lt x k'" for x
      using that False negtrans by blast
    then have "idx_get lt k' (idx_remove lt k ix) = idx_get lt k' ix"
      by (intro idx_get_eqI [OF idx_remove_inv [OF 6] 6]) (auto simp: chain_remove_set [OF 6])
    with False show ?thesis by auto
  qed
next
  case (7 ix k k')
  then have "(\<not> lt k x \<and> \<not> lt x k) = (\<not> lt k' x \<and> \<not> lt x k')" for x
    using negtrans by blast
  then have "idx_get lt k ix = Some v \<longleftrightarrow> idx_get lt k' ix = Some v" for v
    using idx_get_Some [OF 7(1)] by simp
  then show ?case by (metis not_None_eq)
next
  case (8 ix)
  show ?case
  proof (cases "chain ix")
    case Nil
    then show ?thesis using 8 by (simp add: idx_inv_def idx_get_def idx_entry_def)
  next
    case (Cons e rest)
    then have "idx_get lt (fst e) ix = Some (snd e)"
      using 8 irrefl by (auto simp: idx_get_Some intro!: exI [of _ "fst e"])
    with Cons 8 show ?thesis by (auto simp: idx_inv_def)
  qed
qed

section \<open>Indexes over linearly ordered keys\<close>

interpretation total: strict_total_order "(<) :: 'a::linorder \<Rightarrow> 'a \<Rightarrow> bool"
  by unfold_locales auto

lemma total_get_Some:
  "idx_inv (<) ix \<Longrightarrow> idx_get (<) k ix = Some v \<longleftrightarrow> (k, v) \<in> set (chain ix)"
  for k :: "'k::linorder"
  by (simp add: total.idx_get_Some) (metis linorder_neq_iff)

lemma total_get_put:
  "idx_inv (<) ix \<Longrightarrow> idx_get (<) k' (idx_put (<) k v ix) = (if k' = k then Some v else idx_get (<) k' ix)"
  for k :: "'k::linorder"
  by (auto simp: total.ix.get_put)

lemma total_get_remove:
  "idx_inv (<) ix \<Longrightarrow> idx_get (<) k' (idx_remove (<) k ix) = (if k' = k then None else idx_get (<) k' ix)"
  for k :: "'k::linorder"
  by (auto simp: total.ix.get_remove)

lemmas total_index_simps = total_get_put total_get_remove total.idx_put_inv total.idx_remove_inv

text \<open>Where a key is present, its position holds it, and setting the value there is a \<^verbatim>\<open>Put\<close>.\<close>

lemma idx_get_entry:
  assumes "idx_get lt k ix = Some v"
  shows "map_option snd (idx_entry (idx_lower lt k ix) ix) = Some v"
    and "idx_set_value (idx_lower lt k ix) w ix = idx_put lt k w ix"
  using assms by (auto simp: idx_get_def idx_set_value_def idx_put_def idx_entry_def Let_def
      split: option.splits if_splits prod.splits)

text \<open>A run of keys that are all present, with no other key between the first and the last, is read
  off by an iterator from the first.\<close>

lemma run_of_entries:
  fixes ix :: "('k::linorder, 'v) index"
  assumes inv: "idx_inv (<) ix" and ks: "sorted_wrt (<) (k0 # kr)"
    and present: "\<forall>k \<in> set (k0 # kr). idx_get (<) k ix = Some (f k)"
    and closed: "\<forall>k v. idx_get (<) k ix = Some v \<longrightarrow> k0 \<le> k \<longrightarrow>
      k \<in> set (k0 # kr) \<or> (\<forall>k' \<in> set (k0 # kr). k' < k)"
  shows "\<exists>es. drop (idx_lower (<) k0 ix) (chain ix) = map (\<lambda>k. (k, f k)) (k0 # kr) @ es \<and>
    (\<forall>e \<in> set es. \<forall>k \<in> set (k0 # kr). k < fst e)"
proof -
  define c where "c = drop (idx_lower (<) k0 ix) (chain ix)"
  define P where "P e \<longleftrightarrow> fst e \<in> set (k0 # kr)" for e :: "'k \<times> 'v"
  have sorted: "sorted_wrt (\<lambda>a b. fst a < fst b) (chain ix)" using inv by (simp add: idx_inv_def)
  have c: "c = filter (\<lambda>e. k0 \<le> fst e) (chain ix)"
    unfolding c_def idx_lower_def drop_lower_pos
    by (subst dropWhile_filter [OF sorted]) (auto simp: not_less intro: less_trans)
  have get: "(a, b) \<in> set c \<longleftrightarrow> k0 \<le> a \<and> idx_get (<) a ix = Some b" for a b
    by (auto simp: c total_get_Some [OF inv])
  have csorted: "sorted_wrt (\<lambda>a b. fst a < fst b) c" unfolding c by (rule sorted_wrt_filter [OF sorted])
  have out: "\<forall>k' \<in> set (k0 # kr). k' < fst e" if "e \<in> set c" "\<not> P e" for e
    using that closed get [of "fst e" "snd e"] by (auto simp: P_def)
  have "sorted_wrt (\<lambda>a b. P b \<longrightarrow> P a) c"
  proof (rule sorted_wrt_mono_rel [OF _ csorted])
    show "P b \<longrightarrow> P a" if "a \<in> set c" "fst a < fst b" for a b
      using that out [of a] unfolding P_def by (meson less_asym)
  qed
  then have drop: "dropWhile P c = filter (\<lambda>e. \<not> P e) c"
    by (rule dropWhile_filter) blast
  have "takeWhile P c = filter P c"
  proof -
    have "filter P (dropWhile P c) = []" unfolding drop by (simp add: filter_empty_conv)
    then have "filter P c = filter P (takeWhile P c)"
      by (metis append_Nil2 filter_append takeWhile_dropWhile_id)
    also have "\<dots> = takeWhile P c" by (auto simp: filter_id_conv dest: set_takeWhileD)
    finally show ?thesis by simp
  qed
  with drop have split: "c = filter P c @ filter (\<lambda>e. \<not> P e) c"
    by (metis takeWhile_dropWhile_id)
  have "map fst (filter P c) = k0 # kr"
  proof (rule strict_sorted_equal)
    show "sorted_wrt (<) (map fst (filter P c))"
      unfolding sorted_wrt_map by (rule sorted_wrt_filter [OF csorted])
    have "k0 \<le> k" if "k \<in> set (k0 # kr)" for k using ks that by auto
    then have "\<exists>v. (k, v) \<in> set c" if "k \<in> set (k0 # kr)" for k
      using that present get by blast
    then show "set (map fst (filter P c)) = set (k0 # kr)"
      unfolding P_def by force
  qed (use ks in simp)
  moreover have "map (\<lambda>k. (k, f k)) (map fst (filter P c)) = filter P c"
    unfolding map_map
  proof (rule map_idI)
    fix e assume "e \<in> set (filter P c)"
    then have "idx_get (<) (fst e) ix = Some (snd e)" "idx_get (<) (fst e) ix = Some (f (fst e))"
      using get [of "fst e" "snd e"] present by (auto simp: P_def)
    then show "((\<lambda>k. (k, f k)) \<circ> fst) e = e" by (cases e) simp
  qed
  ultimately have "c = map (\<lambda>k. (k, f k)) (k0 # kr) @ filter (\<lambda>e. \<not> P e) c" using split by simp
  moreover have "\<forall>e \<in> set (filter (\<lambda>e. \<not> P e) c). \<forall>k \<in> set (k0 # kr). k < fst e"
    using out by simp
  ultimately show ?thesis unfolding c_def by blast
qed

end
