(* ===== verification/Value_Storage.thy ===== *)
theory Value_Storage
  imports Prelude
begin

text \<open>
  \<^verbatim>\<open>storage/single_value_storage.hpp\<close>: \<^verbatim>\<open>SingleValueStorage<T>\<close>, records of one type kept
  in pages of \<open>per_page\<close> cells (\<^verbatim>\<open>max_element_in_page\<close>), with a chain of blank cells threaded
  through \<^verbatim>\<open>nxt_blank\<close>. A cell is addressed by \<^verbatim>\<open>frame_id * max_element_in_page + element_id\<close>;
  \<open>cells\<close> and \<open>nxt_blank\<close> are the two fields of the cells, \<open>None\<close> where nothing was stored
  yet. Pages come from \<^verbatim>\<open>NewPageGuarded\<close>, which numbers them from 1 in a fresh file; the
  storage never gives a page back. The lemmas show that the blank chain never meets a live cell,
  so a write never overwrites a live record and every live index reads back what was written
  there last.
\<close>

section \<open>The storage\<close>

record 'v storage =
  per_page :: nat
  first_blank :: nat
  page_count :: nat
  cells :: "nat \<Rightarrow> 'v option"
  nxt_blank :: "nat \<Rightarrow> nat option"
  elements_count :: "nat \<Rightarrow> nat"

definition svs_new :: "nat \<Rightarrow> (nat \<Rightarrow> 'v option) \<Rightarrow> 'v storage" where
  "svs_new m page0 = \<lparr>per_page = m, first_blank = 0, page_count = 0, cells = page0,
     nxt_blank = (\<lambda>_. None), elements_count = (\<lambda>_. 0)\<rparr>"

text \<open>The links a new page starts with: cell 0 is used at once, the others are chained.\<close>

definition fresh_links :: "nat \<Rightarrow> nat \<Rightarrow> (nat \<Rightarrow> nat option) \<Rightarrow> nat \<Rightarrow> nat option" where
  "fresh_links m base links j =
     (if j = base + (m - 1) then Some 0
      else if base + 1 \<le> j \<and> j < base + (m - 1) then Some (j + 1)
      else links j)"

definition svs_write :: "'v \<Rightarrow> 'v storage \<Rightarrow> (nat \<times> 'v storage) result" where
  "svs_write t s =
     (let m = per_page s; el = first_blank s
      in if el \<noteq> 0
         then (let fr = el div m
               in case nxt_blank s el of
                    None \<Rightarrow> Inl Undefined
                  | Some nb \<Rightarrow>
                      Inr (el, s\<lparr>first_blank := nb, cells := (cells s)(el := Some t),
                                 elements_count := (elements_count s)(fr := elements_count s fr + 1)\<rparr>))
         else (let fr = page_count s + 1; base = fr * m
               in Inr (base,
                    s\<lparr>page_count := fr,
                      cells := (cells s)(base := Some t),
                      first_blank := (if 1 < m then base + 1 else first_blank s),
                      nxt_blank := fresh_links m base (nxt_blank s),
                      elements_count := (elements_count s)(fr := 1)\<rparr>)))"

definition svs_update :: "'v \<Rightarrow> nat \<Rightarrow> 'v storage \<Rightarrow> 'v storage" where
  "svs_update t i s = s\<lparr>cells := (cells s)(i := Some t)\<rparr>"

definition svs_read :: "nat \<Rightarrow> 'v storage \<Rightarrow> 'v result" where
  "svs_read i s = of_option Undefined (cells s i)"

definition svs_delete :: "nat \<Rightarrow> 'v storage \<Rightarrow> 'v storage" where
  "svs_delete i s =
     (let fr = i div per_page s
      in s\<lparr>nxt_blank := (nxt_blank s)(i := Some (first_blank s)), first_blank := i,
           elements_count := (elements_count s)(fr := elements_count s fr - 1)\<rparr>)"

section \<open>The blank chain\<close>

fun blank_chain :: "(nat \<Rightarrow> nat option) \<Rightarrow> nat \<Rightarrow> nat list \<Rightarrow> bool" where
  "blank_chain links b [] \<longleftrightarrow> b = 0"
| "blank_chain links b (x # xs) \<longleftrightarrow>
     b = x \<and> x \<noteq> 0 \<and> (\<exists>y. links x = Some y \<and> blank_chain links y xs)"

text \<open>
  \<open>live\<close> is the set of indexes handed out and not deleted. The chain and the live cells are
  disjoint and lie in the pages allocated so far.
\<close>

definition svs_inv :: "nat set \<Rightarrow> 'v storage \<Rightarrow> bool" where
  "svs_inv live s \<longleftrightarrow>
     0 < per_page s \<and> (\<forall>i \<in> live. cells s i \<noteq> None) \<and>
     (\<exists>bs. blank_chain (nxt_blank s) (first_blank s) bs \<and> distinct bs \<and> set bs \<inter> live = {} \<and>
        (\<forall>i \<in> set bs \<union> live. per_page s \<le> i \<and> i < (page_count s + 1) * per_page s))"

lemma blank_chain_cong:
  "(\<And>x. x \<in> set bs \<Longrightarrow> links x = links' x) \<Longrightarrow>
   blank_chain links b bs = blank_chain links' b bs"
  by (induction bs arbitrary: b) auto

lemma blank_chain_run:
  "0 < a \<Longrightarrow> (\<And>j. a \<le> j \<Longrightarrow> j < a + n \<Longrightarrow> links j = Some (j + 1)) \<Longrightarrow>
   links (a + n) = Some 0 \<Longrightarrow> blank_chain links a [a..<Suc (a + n)]"
proof (induction n arbitrary: a)
  case (Suc n)
  have "blank_chain links (Suc a) [Suc a..<Suc (Suc a + n)]"
    using Suc.prems by (intro Suc.IH) auto
  moreover have "[a..<Suc (a + Suc n)] = a # [Suc a..<Suc (Suc a + n)]"
    by (simp add: upt_rec del: upt_Suc)
  ultimately show ?case using Suc.prems by auto
qed auto

lemma svs_live_pos: "svs_inv live s \<Longrightarrow> i \<in> live \<Longrightarrow> i \<noteq> 0"
  unfolding svs_inv_def by fastforce

section \<open>The interface\<close>

locale value_store =
  fixes store :: "'v \<Rightarrow> 's \<Rightarrow> (nat \<times> 's) result"
    and overwrite :: "'v \<Rightarrow> nat \<Rightarrow> 's \<Rightarrow> 's"
    and read :: "nat \<Rightarrow> 's \<Rightarrow> 'v result"
    and delete :: "nat \<Rightarrow> 's \<Rightarrow> 's"
    and invar :: "nat set \<Rightarrow> 's \<Rightarrow> bool"
  assumes store: "invar L s \<Longrightarrow> \<exists>i s'. store v s = Inr (i, s') \<and> i \<notin> L \<and> i \<noteq> 0 \<and>
      invar (insert i L) s' \<and> read i s' = Inr v \<and> (\<forall>j. j \<noteq> i \<longrightarrow> read j s' = read j s)"
    and overwrite: "invar L s \<Longrightarrow> i \<in> L \<Longrightarrow> invar L (overwrite v i s)"
    and read_update: "read j (overwrite v i s) = (if j = i then Inr v else read j s)"
    and delete: "invar L s \<Longrightarrow> i \<in> L \<Longrightarrow> invar (L - {i}) (delete i s)"
    and read_delete: "read j (delete i s) = read j s"
    and read_live: "invar L s \<Longrightarrow> i \<in> L \<Longrightarrow> \<exists>v. read i s = Inr v"
begin

text \<open>A run of writes hands out distinct indexes and reads them all back.\<close>

lemma write_then_read:
  assumes "invar L s" "store v s = Inr (i, s')"
  shows "read i s' = Inr v" "i \<notin> L" "invar (insert i L) s'"
    "j \<in> L \<Longrightarrow> read j s' = read j s"
  using assms store [OF assms(1), of v] by auto

lemma write_write_distinct:
  assumes "invar L s" "store v s = Inr (i, s')" "store w s' = Inr (j, s'')"
  shows "i \<noteq> j" "read i s'' = Inr v" "read j s'' = Inr w"
  using write_then_read [OF assms(1,2)] write_then_read [OF _ assms(3)]
  by (metis insertI1)+

end

section \<open>The page chain implements the interface\<close>

lemma svs_write_blank:
  assumes inv: "svs_inv L s" and f: "first_blank s \<noteq> 0"
  shows "\<exists>i s'. svs_write v s = Inr (i, s') \<and> i \<notin> L \<and> i \<noteq> 0 \<and>
    svs_inv (insert i L) s' \<and> svs_read i s' = Inr v \<and> (\<forall>j. j \<noteq> i \<longrightarrow> svs_read j s' = svs_read j s)"
proof -
  obtain x xs nb where c: "first_blank s = x" "nxt_blank s x = Some nb"
    "blank_chain (nxt_blank s) nb xs" "distinct (x # xs)" "set (x # xs) \<inter> L = {}"
    "\<forall>i \<in> set (x # xs) \<union> L. per_page s \<le> i \<and> i < (page_count s + 1) * per_page s"
    using inv f unfolding svs_inv_def by (metis blank_chain.elims(2))
  let ?s' = "s\<lparr>first_blank := nb, cells := (cells s)(x := Some v),
    elements_count := (elements_count s)(x div per_page s := elements_count s (x div per_page s) + 1)\<rparr>"
  have "svs_write v s = Inr (x, ?s')"
    using c f by (simp add: svs_write_def Let_def)
  moreover have "svs_inv (insert x L) ?s'"
    unfolding svs_inv_def using inv c
    by (auto simp: svs_inv_def intro!: exI [of _ xs])
  ultimately show ?thesis using c f by (auto simp: svs_read_def)
qed

lemma svs_write_page:
  assumes inv: "svs_inv L s" and f: "first_blank s = 0"
  shows "\<exists>i s'. svs_write v s = Inr (i, s') \<and> i \<notin> L \<and> i \<noteq> 0 \<and>
    svs_inv (insert i L) s' \<and> svs_read i s' = Inr v \<and> (\<forall>j. j \<noteq> i \<longrightarrow> svs_read j s' = svs_read j s)"
proof -
  define m base where "m = per_page s" and "base = (page_count s + 1) * per_page s"
  define bs where "bs = (if 1 < m then [base + 1..<base + m] else [])"
  let ?links = "fresh_links m base (nxt_blank s)"
  have m: "0 < m" and base: "m \<le> base" "0 < base"
    using inv by (auto simp: svs_inv_def m_def base_def)
  have old: "\<forall>i \<in> L. m \<le> i \<and> i < base"
    using inv by (auto simp: svs_inv_def m_def base_def)
  obtain s' where w: "svs_write v s = Inr (base, s')" and
    s': "per_page s' = m" "page_count s' = page_count s + 1"
      "cells s' = (cells s)(base := Some v)" "nxt_blank s' = ?links"
      "first_blank s' = (if 1 < m then base + 1 else 0)"
    using f by (simp add: svs_write_def Let_def m_def base_def)
  have "blank_chain ?links (first_blank s') bs"
  proof (cases "1 < m")
    case True
    then have "[base + 1..<base + m] = [base + 1..<Suc ((base + 1) + (m - 2))]"
      by (intro arg_cong2 [of _ _ _ _ upt]) auto
    moreover have "blank_chain ?links (base + 1) [base + 1..<Suc ((base + 1) + (m - 2))]"
      using True by (intro blank_chain_run) (auto simp: fresh_links_def)
    ultimately show ?thesis
      using True by (simp only: bs_def s' if_True)
  qed (simp add: bs_def s')
  moreover have "(page_count s' + 1) * per_page s' = base + m"
    by (simp add: s' base_def m_def)
  ultimately have "svs_inv (insert base L) s'"
    using inv m base old unfolding svs_inv_def s'
    by (intro conjI exI [of _ bs]) (auto simp: bs_def svs_inv_def)
  then show ?thesis
    using w s'(3) base old by (intro exI [of _ base] exI [of _ s']) (auto simp: svs_read_def)
qed

interpretation svs: value_store svs_write svs_update svs_read svs_delete svs_inv
proof (unfold_locales, goal_cases)
  case (1 L s v)
  then show ?case
    by (cases "first_blank s = 0") (blast intro: svs_write_blank svs_write_page)+
next
  case (2 L s i v)
  then show ?case by (auto simp: svs_inv_def svs_update_def)
next
  case (4 L s i)
  then obtain bs where b: "blank_chain (nxt_blank s) (first_blank s) bs" "distinct bs"
    "set bs \<inter> L = {}"
    "\<forall>i \<in> set bs \<union> L. per_page s \<le> i \<and> i < (page_count s + 1) * per_page s"
    by (auto simp: svs_inv_def)
  have "blank_chain ((nxt_blank s)(i := Some (first_blank s))) (first_blank s) bs"
    using b 4 by (subst blank_chain_cong [of _ _ "nxt_blank s"]) auto
  moreover have "0 < i" using svs_live_pos [OF 4] by simp
  ultimately show ?case
    using 4 b unfolding svs_inv_def
    by (auto simp: svs_delete_def Let_def svs_inv_def intro!: exI [of _ "i # bs"])
next
  case (6 L s i)
  then show ?case by (auto simp: svs_inv_def svs_read_def)
qed (auto simp: svs_update_def svs_read_def svs_delete_def Let_def)

lemma svs_inv_new: "0 < m \<Longrightarrow> svs_inv {} (svs_new m page0)"
  by (auto simp: svs_inv_def svs_new_def intro!: exI [of _ "[]"])

section \<open>Properties\<close>

text \<open>C27: a write into a well-formed storage always succeeds, hands out an index that is not live,
  and leaves every live record as it was; the new record reads back.\<close>

theorem storage_write_fresh:
  assumes "svs_inv live s"
  shows "\<exists>i s'. svs_write v s = Inr (i, s') \<and> i \<notin> live \<and> i \<noteq> 0 \<and> svs_inv (insert i live) s' \<and>
    svs_read i s' = Inr v \<and> (\<forall>j \<in> live. svs_read j s' = svs_read j s)"
  using svs.store [OF assms] by metis

theorem storage_write_fresh_witness:
  "\<exists>i s'. svs_write CHR ''x'' (svs_new 3 (\<lambda>_. None)) = Inr (i, s') \<and> i \<notin> {} \<and> i \<noteq> 0 \<and>
    svs_inv (insert i {}) s' \<and> svs_read i s' = Inr CHR ''x'' \<and>
    (\<forall>j \<in> {}. svs_read j s' = svs_read j (svs_new 3 (\<lambda>_. None)))"
  by (rule storage_write_fresh) (rule svs_inv_new, simp)

text \<open>The space of a deleted record is reclaimed: the next write takes exactly that cell and
  allocates no page.\<close>

theorem storage_reuses_deleted:
  assumes "svs_inv live s" "i \<in> live"
  shows "\<exists>s'. svs_write v (svs_delete i s) = Inr (i, s') \<and> page_count s' = page_count s \<and>
    svs_inv live s' \<and> first_blank s' = first_blank s"
proof -
  have "i \<noteq> 0" using assms by (rule svs_live_pos)
  then obtain s' where w: "svs_write v (svs_delete i s) = Inr (i, s')"
    "page_count s' = page_count s" "first_blank s' = first_blank s"
    by (simp add: svs_write_def svs_delete_def Let_def)
  with svs.store [OF svs.delete [OF assms], of v] assms(2) show ?thesis
    by (auto simp: insert_absorb)
qed

definition one_record :: "char storage" where
  "one_record = \<lparr>per_page = 3, first_blank = 4, page_count = 1, cells = [3 \<mapsto> CHR ''a''],
     nxt_blank = [4 \<mapsto> 5, 5 \<mapsto> 0], elements_count = (\<lambda>_. 1)\<rparr>"

lemma one_record_inv: "svs_inv {3} one_record"
  by (auto simp: svs_inv_def one_record_def intro!: exI [of _ "[4, 5]"])

theorem storage_reuses_deleted_witness:
  "\<exists>s'. svs_write CHR ''b'' (svs_delete 3 one_record) = Inr (3, s') \<and>
    page_count s' = page_count one_record \<and> svs_inv {3} s' \<and>
    first_blank s' = first_blank one_record"
  by (rule storage_reuses_deleted) (simp_all add: one_record_inv)

end
