(* ===== verification/Disk_Map.thy ===== *)
theory Disk_Map
  imports Key_Index Value_Storage
begin

text \<open>
  \<^verbatim>\<open>storage/disk_map.hpp\<close>: \<^verbatim>\<open>DiskMap<Key, Value, Compare>\<close>, an index from keys to record
  numbers over a value storage. The lemmas show that, for a comparator that is a strict total
  order, a disk map is a finite map: \<open>dm_abs\<close> reads it as one, and \<^verbatim>\<open>Put\<close>, \<^verbatim>\<open>Remove\<close>,
  \<^verbatim>\<open>Get\<close>, \<^verbatim>\<open>HasKey\<close> and \<^verbatim>\<open>size\<close> are update, deletion, lookup and emptiness. The interface
  is the locale \<open>kv_store\<close>.
\<close>

section \<open>The map\<close>

record ('k, 'v) disk_map =
  indexer :: "('k, nat) index"
  data_storage :: "'v storage"

definition dm_new :: "nat \<Rightarrow> ('k, 'v) disk_map" where
  "dm_new m = \<lparr>indexer = idx_new, data_storage = svs_new m (\<lambda>_. None)\<rparr>"

definition dm_has_key :: "('k \<Rightarrow> 'k \<Rightarrow> bool) \<Rightarrow> 'k \<Rightarrow> ('k, 'v) disk_map \<Rightarrow> bool" where
  "dm_has_key lt k dm \<longleftrightarrow> idx_get lt k (indexer dm) \<noteq> None"

definition dm_get :: "('k \<Rightarrow> 'k \<Rightarrow> bool) \<Rightarrow> 'k \<Rightarrow> ('k, 'v) disk_map \<Rightarrow> 'v result" where
  "dm_get lt k dm =
     (case idx_get lt k (indexer dm) of
        None \<Rightarrow> Inl Runtime_error
      | Some i \<Rightarrow> svs_read i (data_storage dm))"

definition dm_size :: "('k, 'v) disk_map \<Rightarrow> nat" where
  "dm_size dm = siz (indexer dm)"

definition dm_remove ::
  "('k \<Rightarrow> 'k \<Rightarrow> bool) \<Rightarrow> 'k \<Rightarrow> ('k, 'v) disk_map \<Rightarrow> bool \<times> ('k, 'v) disk_map" where
  "dm_remove lt k dm =
     (case idx_get lt k (indexer dm) of
        None \<Rightarrow> (False, dm)
      | Some i \<Rightarrow> (True, dm\<lparr>indexer := idx_remove lt k (indexer dm),
                            data_storage := svs_delete i (data_storage dm)\<rparr>))"

definition dm_put ::
  "('k \<Rightarrow> 'k \<Rightarrow> bool) \<Rightarrow> 'k \<Rightarrow> 'v \<Rightarrow> ('k, 'v) disk_map \<Rightarrow> (bool \<times> ('k, 'v) disk_map) result" where
  "dm_put lt k v dm =
     (case idx_get lt k (indexer dm) of
        Some i \<Rightarrow> Inr (False, dm\<lparr>data_storage := svs_update v i (data_storage dm)\<rparr>)
      | None \<Rightarrow>
          rbind (svs_write v (data_storage dm))
            (\<lambda>(i, ds). Inr (True, dm\<lparr>indexer := idx_put lt k i (indexer dm), data_storage := ds\<rparr>)))"

section \<open>The map it represents\<close>

definition dm_abs :: "('k \<Rightarrow> 'k \<Rightarrow> bool) \<Rightarrow> ('k, 'v) disk_map \<Rightarrow> 'k \<Rightarrow> 'v option" where
  "dm_abs lt dm k = (case dm_get lt k dm of Inl _ \<Rightarrow> None | Inr v \<Rightarrow> Some v)"

text \<open>Index sorted, record numbers distinct, exactly the indexed records live.\<close>

definition dm_inv :: "('k \<Rightarrow> 'k \<Rightarrow> bool) \<Rightarrow> ('k, 'v) disk_map \<Rightarrow> bool" where
  "dm_inv lt dm \<longleftrightarrow>
     idx_inv lt (indexer dm) \<and>
     svs_inv (ran (\<lambda>k. idx_get lt k (indexer dm))) (data_storage dm) \<and>
     (\<forall>k k' i. idx_get lt k (indexer dm) = Some i \<longrightarrow> idx_get lt k' (indexer dm) = Some i \<longrightarrow> k = k')"

section \<open>The interface\<close>

locale kv_store =
  fixes put :: "'k \<Rightarrow> 'v \<Rightarrow> 'm \<Rightarrow> (bool \<times> 'm) result"
    and get :: "'k \<Rightarrow> 'm \<Rightarrow> 'v result"
    and has :: "'k \<Rightarrow> 'm \<Rightarrow> bool"
    and remove :: "'k \<Rightarrow> 'm \<Rightarrow> bool \<times> 'm"
    and sz :: "'m \<Rightarrow> nat"
    and invar :: "'m \<Rightarrow> bool"
    and abs :: "'m \<Rightarrow> 'k \<Rightarrow> 'v option"
  assumes put: "invar m \<Longrightarrow>
      \<exists>m'. put k v m = Inr (abs m k = None, m') \<and> invar m' \<and> abs m' = (abs m)(k := Some v)"
    and get: "invar m \<Longrightarrow> get k m = of_option Runtime_error (abs m k)"
    and has: "invar m \<Longrightarrow> has k m \<longleftrightarrow> abs m k \<noteq> None"
    and remove: "invar m \<Longrightarrow>
      \<exists>m'. remove k m = (abs m k \<noteq> None, m') \<and> invar m' \<and> abs m' = (abs m)(k := None)"
    and sz: "invar m \<Longrightarrow> sz m = 0 \<longleftrightarrow> abs m = (\<lambda>_. None)"
begin

lemma put_elim:
  assumes "invar m"
  obtains m' where "put k v m = Inr (abs m k = None, m')" "invar m'" "abs m' = (abs m)(k := Some v)"
  using put [OF assms] by blast

lemma put_Inr:
  assumes "invar m" "put k v m = Inr (b, m')"
  shows "invar m'" "abs m' = (abs m)(k := Some v)" "b \<longleftrightarrow> abs m k = None"
  using put [OF assms(1), of k v] assms(2) by auto

lemma remove_eq:
  assumes "invar m" "remove k m = (b, m')"
  shows "invar m'" "abs m' = (abs m)(k := None)" "b \<longleftrightarrow> abs m k \<noteq> None"
  using remove [OF assms(1), of k] assms(2) by auto

lemma get_Inr: "invar m \<Longrightarrow> get k m = Inr v \<longleftrightarrow> abs m k = Some v"
  by (simp add: get)

lemma get_Inl: "invar m \<Longrightarrow> get k m = Inl e \<longleftrightarrow> abs m k = None \<and> e = Runtime_error"
  by (auto simp: get of_option_def split: option.splits)

end

section \<open>The disk map implements the interface\<close>

context strict_total_order
begin

lemma ix_put_total:
  "idx_inv lt ix \<Longrightarrow> (\<lambda>k'. idx_get lt k' (idx_put lt k v ix)) = (\<lambda>k'. idx_get lt k' ix)(k := Some v)"
  by (rule ext) (use not_less_iff_eq [of k] in \<open>auto simp: ix.get_put\<close>)

lemma ix_remove_total:
  "idx_inv lt ix \<Longrightarrow> (\<lambda>k'. idx_get lt k' (idx_remove lt k ix)) = (\<lambda>k'. idx_get lt k' ix)(k := None)"
  by (rule ext) (use not_less_iff_eq [of k] in \<open>auto simp: ix.get_remove\<close>)

lemma dm_abs_eq:
  "dm_abs lt dm k = (case idx_get lt k (indexer dm) of None \<Rightarrow> None
     | Some i \<Rightarrow> (case svs_read i (data_storage dm) of Inl _ \<Rightarrow> None | Inr v \<Rightarrow> Some v))"
  by (simp add: dm_abs_def dm_get_def split: option.splits)

lemma dm_live_read:
  assumes "dm_inv lt dm" "idx_get lt k (indexer dm) = Some i"
  obtains v where "svs_read i (data_storage dm) = Inr v"
  using assms svs.read_live unfolding dm_inv_def by (metis ranI)

lemma dm_abs_None: "dm_inv lt dm \<Longrightarrow> dm_abs lt dm k = None \<longleftrightarrow> idx_get lt k (indexer dm) = None"
  by (auto simp: dm_abs_eq split: option.splits elim: dm_live_read)

lemma dm_put_correct:
  assumes inv: "dm_inv lt dm"
  shows "\<exists>dm'. dm_put lt k v dm = Inr (dm_abs lt dm k = None, dm') \<and> dm_inv lt dm' \<and>
    dm_abs lt dm' = (dm_abs lt dm)(k := Some v)"
proof (cases "idx_get lt k (indexer dm)")
  case (Some i)
  let ?dm' = "dm\<lparr>data_storage := svs_update v i (data_storage dm)\<rparr>"
  have "dm_put lt k v dm = Inr (dm_abs lt dm k = None, ?dm')"
    using Some inv by (simp add: dm_put_def dm_abs_None)
  moreover have "dm_inv lt ?dm'"
    using inv Some by (auto simp: dm_inv_def intro: svs.overwrite ranI)
  moreover have "dm_abs lt ?dm' = (dm_abs lt dm)(k := Some v)"
    using inv Some by (auto simp: dm_inv_def dm_abs_eq fun_eq_iff svs.read_update
        split: option.splits)
  ultimately show ?thesis by blast
next
  case None
  let ?L = "ran (\<lambda>k. idx_get lt k (indexer dm))"
  have ix: "idx_inv lt (indexer dm)" using inv by (simp add: dm_inv_def)
  obtain i s' where w: "svs_write v (data_storage dm) = Inr (i, s')" "i \<notin> ?L"
    "svs_inv (insert i ?L) s'" "svs_read i s' = Inr v"
    "\<forall>j. j \<noteq> i \<longrightarrow> svs_read j s' = svs_read j (data_storage dm)"
    using inv svs.store unfolding dm_inv_def by metis
  let ?dm' = "dm\<lparr>indexer := idx_put lt k i (indexer dm), data_storage := s'\<rparr>"
  note get' = ix_put_total [OF ix, of k i]
  have "dm_put lt k v dm = Inr (dm_abs lt dm k = None, ?dm')"
    using None inv w by (simp add: dm_put_def dm_abs_None)
  moreover have "svs_inv (ran (\<lambda>k'. idx_get lt k' (indexer ?dm'))) (data_storage ?dm')"
    using None w(3) by (simp add: get' ran_map_upd)
  then have "dm_inv lt ?dm'"
    using inv None w(2) ix.put_inv [OF ix] unfolding dm_inv_def
    by (auto simp: fun_cong [OF get'] intro: ranI split: if_splits)
  moreover have "dm_abs lt ?dm' = (dm_abs lt dm)(k := Some v)"
  proof (rule ext)
    fix x
    have "idx_get lt x (indexer dm) \<noteq> Some i" using w(2) by (auto simp: ran_def)
    then show "dm_abs lt ?dm' x = ((dm_abs lt dm)(k := Some v)) x"
      using w(4,5) by (auto simp: dm_abs_eq fun_cong [OF get'] split: option.splits)
  qed
  ultimately show ?thesis by blast
qed

lemma dm_remove_correct:
  assumes inv: "dm_inv lt dm"
  shows "\<exists>dm'. dm_remove lt k dm = (dm_abs lt dm k \<noteq> None, dm') \<and> dm_inv lt dm' \<and>
    dm_abs lt dm' = (dm_abs lt dm)(k := None)"
proof (cases "idx_get lt k (indexer dm)")
  case None
  with inv show ?thesis
    by (auto simp: dm_remove_def dm_abs_None fun_upd_idem)
next
  case (Some i)
  let ?L = "ran (\<lambda>k. idx_get lt k (indexer dm))"
  let ?dm' = "dm\<lparr>indexer := idx_remove lt k (indexer dm),
    data_storage := svs_delete i (data_storage dm)\<rparr>"
  have ix: "idx_inv lt (indexer dm)" and inj: "\<And>k' j. idx_get lt k' (indexer dm) = Some j \<Longrightarrow> j = i \<longleftrightarrow> k' = k"
    using inv Some by (auto simp: dm_inv_def)
  note get' = ix_remove_total [OF ix, of k]
  have "ran ((\<lambda>k'. idx_get lt k' (indexer dm))(k := None)) = ?L - {i}"
    using inj Some by (auto simp: ran_def)
  then have "svs_inv (ran (\<lambda>k'. idx_get lt k' (indexer ?dm'))) (data_storage ?dm')"
    using inv Some by (simp add: get' dm_inv_def svs.delete ranI)
  then have "dm_inv lt ?dm'"
    using inv ix.remove_inv [OF ix] unfolding dm_inv_def
    by (auto simp: fun_cong [OF get'] split: if_splits)
  moreover have "dm_abs lt ?dm' = (dm_abs lt dm)(k := None)"
    using inv Some by (auto simp: dm_abs_eq fun_cong [OF get'] fun_eq_iff svs.read_delete dm_inv_def
        split: option.splits)
  ultimately show ?thesis
    using Some inv by (auto simp: dm_remove_def dm_abs_None)
qed

end

sublocale strict_total_order \<subseteq>
  dm: kv_store "dm_put lt" "dm_get lt" "dm_has_key lt" "dm_remove lt" dm_size "dm_inv lt" "dm_abs lt"
proof (unfold_locales, goal_cases)
  case (1 m k v)
  then show ?case by (rule dm_put_correct)
next
  case (2 m k)
  then show ?case
    by (auto simp: dm_abs_eq dm_get_def split: option.splits elim: dm_live_read)
next
  case (3 m k)
  then show ?case by (simp add: dm_has_key_def dm_abs_None)
next
  case (4 m k)
  then show ?case by (rule dm_remove_correct)
next
  case (5 m)
  then show ?case
    using ix.sz_zero [of "indexer m"] by (auto simp: dm_size_def fun_eq_iff dm_abs_None dm_inv_def)
qed

context strict_total_order
begin

lemma dm_new_inv: "0 < m \<Longrightarrow> dm_inv lt (dm_new m)"
  by (simp add: dm_inv_def dm_new_def ran_def ix.new svs_inv_new)

lemma dm_laws:
  assumes "dm_inv lt dm"
  shows "(\<exists>dm'. dm_put lt k v dm = Inr (dm_abs lt dm k = None, dm') \<and> dm_inv lt dm' \<and>
      dm_abs lt dm' = (dm_abs lt dm)(k := Some v))"
    "(\<exists>dm'. dm_remove lt k dm = (dm_abs lt dm k \<noteq> None, dm') \<and> dm_inv lt dm' \<and>
      dm_abs lt dm' = (dm_abs lt dm)(k := None))"
    "dm_get lt k dm = of_option Runtime_error (dm_abs lt dm k)"
    "dm_has_key lt k dm \<longleftrightarrow> dm_abs lt dm k \<noteq> None"
    "dm_size dm = 0 \<longleftrightarrow> dm_abs lt dm = (\<lambda>_. None)"
  using assms by (rule dm.put dm.remove dm.get dm.has dm.sz)+

lemma dm_new_abs: "dm_abs lt (dm_new m) k = None"
  by (simp add: dm_abs_def dm_get_def dm_new_def ix.new)

end

section \<open>Properties\<close>

text \<open>C28: a disk map keyed by any strict total order is a finite map. \<^verbatim>\<open>Put\<close> always succeeds,
  reports whether the key is new and changes the represented map at that key only;
  \<^verbatim>\<open>Remove\<close> reports whether the key was there and deletes it only; \<^verbatim>\<open>Get\<close> returns the stored
  value or throws. All of them keep the invariant that ties the index to the record storage.\<close>

theorem disk_map_refines_map:
  assumes "strict_total_order lt" "dm_inv lt dm"
  shows "(\<exists>dm'. dm_put lt k v dm = Inr (dm_abs lt dm k = None, dm') \<and> dm_inv lt dm' \<and>
      dm_abs lt dm' = (dm_abs lt dm)(k := Some v)) \<and>
    (\<exists>dm'. dm_remove lt k dm = (dm_abs lt dm k \<noteq> None, dm') \<and> dm_inv lt dm' \<and>
      dm_abs lt dm' = (dm_abs lt dm)(k := None)) \<and>
    dm_get lt k dm = of_option Runtime_error (dm_abs lt dm k) \<and>
    (dm_has_key lt k dm \<longleftrightarrow> dm_abs lt dm k \<noteq> None) \<and>
    (dm_size dm = 0 \<longleftrightarrow> dm_abs lt dm = (\<lambda>_. None))"
  using strict_total_order.dm_laws [OF assms] by blast

theorem disk_map_refines_map_witness:
  "\<exists>dm'. dm_put (<) (5 :: nat) CHR ''v'' (dm_new 4) = Inr (True, dm') \<and> dm_inv (<) dm' \<and>
    dm_abs (<) dm' = [5 \<mapsto> CHR ''v'']"
  using disk_map_refines_map [OF total.strict_total_order_axioms total.dm_new_inv [of 4],
      of "5 :: nat" "CHR ''v''"]
  by (auto simp: total.dm_new_abs fun_eq_iff)

end
