(* ===== verification/Text_Input.thy ===== *)
theory Text_Input
  imports Prelude
begin

text \<open>
  What the command handlers use of the C++ library to read text: \<^verbatim>\<open>std::stringstream\<close> with
  \<^verbatim>\<open>operator>>\<close> into strings, integers and a \<^verbatim>\<open>char[2]\<close>, \<^verbatim>\<open>std::getline\<close> with a
  separator, and \<^verbatim>\<open>sscanf\<close> with the formats \<^verbatim>\<open>[%llu]\<close>, \<^verbatim>\<open>%d\<close>, \<^verbatim>\<open>%d-%d\<close>,
  \<^verbatim>\<open>%d:%d\<close>, \<^verbatim>\<open>%d-%d|%d-%d\<close> and \<^verbatim>\<open>%*s %s\<close>; and the loop over \<^verbatim>\<open>-x value\<close>
  pairs that every handler of \<^verbatim>\<open>src/\<close> repeats. A read that leaves its variable untouched
  gives \<open>None\<close>. The lemmas show that printed numbers read back and that the argument loop ends.
\<close>

section \<open>Characters\<close>

definition is_space :: "char \<Rightarrow> bool" where
  "is_space c \<longleftrightarrow> c = CHR '' '' \<or> (let n = of_char c :: nat in 9 \<le> n \<and> n \<le> 13)"

definition is_digit :: "char \<Rightarrow> bool" where
  "is_digit c \<longleftrightarrow> (let n = of_char c :: nat in 48 \<le> n \<and> n \<le> 57)"

definition digits_val :: "string \<Rightarrow> nat" where
  "digits_val ds = foldl (\<lambda>v c. 10 * v + (of_char c - 48)) 0 ds"

text \<open>\<^verbatim>\<open>std::string::c_str\<close> read as a C string.\<close>

definition c_str :: "string \<Rightarrow> string" where
  "c_str s = takeWhile (\<lambda>c. c \<noteq> CHR 0x00) s"

text \<open>\<^verbatim>\<open>strcpy\<close> into a \<^verbatim>\<open>char[n]\<close>.\<close>

definition strcpy :: "nat \<Rightarrow> string \<Rightarrow> string result" where
  "strcpy n s = (if length (c_str s) < n then Inr (c_str s) else Inl Undefined)"

section \<open>Streams\<close>

record istream =
  rest :: string
  failed :: bool

definition open_stream :: "string \<Rightarrow> istream" where
  "open_stream s = \<lparr>rest = s, failed = False\<rparr>"

definition read_word :: "istream \<Rightarrow> string option \<times> istream" where
  "read_word st =
     (if failed st then (None, st)
      else let s = dropWhile is_space (rest st)
           in if s = [] then (None, \<lparr>rest = [], failed = True\<rparr>)
              else (Some (takeWhile (\<lambda>c. \<not> is_space c) s),
                    \<lparr>rest = dropWhile (\<lambda>c. \<not> is_space c) s, failed = False\<rparr>))"

text \<open>The sign of a number and the text after it.\<close>

definition split_sign :: "string \<Rightarrow> bool \<times> string" where
  "split_sign s =
     (case s of [] \<Rightarrow> (False, [])
      | c # cs \<Rightarrow> if c = CHR ''-'' then (True, cs) else if c = CHR ''+'' then (False, cs)
                  else (False, s))"

definition read_int :: "istream \<Rightarrow> int option \<times> istream" where
  "read_int st =
     (if failed st then (None, st)
      else let s = dropWhile is_space (rest st)
           in if s = [] then (None, \<lparr>rest = [], failed = True\<rparr>)
              else let (neg, s1) = split_sign s; ds = takeWhile is_digit s1;
                       r = dropWhile is_digit s1;
                       v = (if neg then - int (digits_val ds) else int (digits_val ds))
                   in if ds = [] then (Some 0, \<lparr>rest = r, failed = True\<rparr>)
                      else if 2147483647 < v then (Some 2147483647, \<lparr>rest = r, failed = True\<rparr>)
                      else if v < -2147483648 then (Some (-2147483648), \<lparr>rest = r, failed = True\<rparr>)
                      else (Some v, \<lparr>rest = r, failed = False\<rparr>))"

text \<open>\<^verbatim>\<open>stream >> char[2]\<close>: one character and the terminator.\<close>

definition read_char2 :: "istream \<Rightarrow> char option \<times> istream" where
  "read_char2 st =
     (if failed st then (None, st)
      else case dropWhile is_space (rest st) of
             [] \<Rightarrow> (None, \<lparr>rest = [], failed = True\<rparr>)
           | c # cs \<Rightarrow> (Some c, \<lparr>rest = cs, failed = False\<rparr>))"

text \<open>
  The pieces a loop over \<^verbatim>\<open>std::getline(s, piece, sep)\<close> sees on a fresh stream, and whether
  the failing call clears its string (it does unless the last piece ran into the end).
\<close>

function getline_pieces :: "char \<Rightarrow> string \<Rightarrow> string list \<times> bool" where
  "getline_pieces sep s =
     (if s = [] then ([], True)
      else let p = takeWhile (\<lambda>c. c \<noteq> sep) s; r = dropWhile (\<lambda>c. c \<noteq> sep) s
           in case r of [] \<Rightarrow> ([p], False)
              | _ # r' \<Rightarrow> (case getline_pieces sep r' of (ps, b) \<Rightarrow> (p # ps, b)))"
  by pat_completeness auto
termination
proof (relation "measure (\<lambda>(_, s). length s)")
  fix sep s p r c r'
  assume "s \<noteq> []" "r = dropWhile (\<lambda>c. c \<noteq> sep) s" "r = c # (r' :: char list)"
  then have "length (c # r') \<le> length s" by (metis length_dropWhile_le)
  then show "((sep, r'), sep, s) \<in> measure (\<lambda>(_, s). length s)" by simp
qed simp

declare getline_pieces.simps [simp del]

section \<open>sscanf\<close>

text \<open>\<^verbatim>\<open>%d\<close>: the value of \<^verbatim>\<open>strtol\<close>, narrowed to \<^verbatim>\<open>int\<close>, and the text after it.\<close>

definition scan_int :: "string \<Rightarrow> (int \<times> string) option" where
  "scan_int s =
     (let (neg, s1) = split_sign (dropWhile is_space s); ds = takeWhile is_digit s1;
          n = int (digits_val ds);
          v = (if neg then max (- n) (- 9223372036854775808) else min n 9223372036854775807)
      in if ds = [] then None else Some (i32 v, dropWhile is_digit s1))"

text \<open>\<^verbatim>\<open>%d\<close> fields between single-character separators; a field that is not reached is \<open>None\<close>.\<close>

fun scan_ints :: "string \<Rightarrow> string \<Rightarrow> int option list" where
  "scan_ints [] s = [map_option fst (scan_int s)]"
| "scan_ints (sep # seps) s =
     (case scan_int s of
        None \<Rightarrow> replicate (length seps + 2) None
      | Some (v, r) \<Rightarrow>
          Some v # (case r of [] \<Rightarrow> replicate (length seps + 1) None
                    | c # r' \<Rightarrow> if c = sep then scan_ints seps r'
                                else replicate (length seps + 1) None))"

text \<open>\<^verbatim>\<open>[%llu]\<close>.\<close>

definition scan_command_id :: "string \<Rightarrow> nat option" where
  "scan_command_id s =
     (case c_str s of [] \<Rightarrow> None
      | c # cs \<Rightarrow>
          if c \<noteq> CHR ''['' then None
          else let (neg, s1) = split_sign (dropWhile is_space cs); ds = takeWhile is_digit s1;
                   n = digits_val ds
               in if ds = [] then None
                  else if 2 ^ 64 \<le> n then Some (2 ^ 64 - 1)
                  else Some (if neg then to_u 64 (- int n) else n))"

text \<open>\<^verbatim>\<open>%*s %s\<close> into a \<^verbatim>\<open>char[20]\<close>.\<close>

definition scan_command_name :: "string \<Rightarrow> string result" where
  "scan_command_name s =
     (case fst (read_word (snd (read_word (open_stream (c_str s))))) of
        None \<Rightarrow> Inl Undefined
      | Some w \<Rightarrow> if length w < 20 then Inr w else Inl Undefined)"

section \<open>The argument loop\<close>

text \<open>\<^verbatim>\<open>token[1]\<close>; a one-character token has its terminator there.\<close>

definition option_letter :: "string \<Rightarrow> char" where
  "option_letter tok = (case tok of _ # c # _ \<Rightarrow> c | _ \<Rightarrow> CHR 0x00)"

type_synonym 'a arg_action = "char \<Rightarrow> 'a \<Rightarrow> istream \<Rightarrow> ('a \<times> istream) result"

text \<open>\<^verbatim>\<open>while (command_stream >> token) switch (token[1]) ...\<close> with the switch as a parameter. The
  fuel counts iterations; each of them reads at least one character.\<close>

fun parse_loop :: "nat \<Rightarrow> 'a arg_action \<Rightarrow> 'a \<Rightarrow> istream \<Rightarrow> 'a result" where
  "parse_loop 0 act a st = Inl Undefined"
| "parse_loop (Suc n) act a st =
     (case read_word st of
        (None, st') \<Rightarrow> Inr a
      | (Some tok, st') \<Rightarrow>
          rbind (act (option_letter tok) a st') (\<lambda>(a', st''). parse_loop n act a' st''))"

text \<open>\<^verbatim>\<open>command_stream >> token >> token\<close> skips the time stamp and the command name.\<close>

definition parse_args :: "'a arg_action \<Rightarrow> 'a \<Rightarrow> string \<Rightarrow> 'a result" where
  "parse_args act a cmd =
     parse_loop (Suc (length cmd)) act a (snd (read_word (snd (read_word (open_stream cmd)))))"

text \<open>
  The local variables of a handler, by the letter of the option that sets them. An \<^verbatim>\<open>int\<close> that
  was never assigned is \<open>None\<close>.
\<close>

record args =
  word_arg :: "char \<Rightarrow> string"
  int_arg :: "char \<Rightarrow> int option"

definition no_args :: args where
  "no_args = \<lparr>word_arg = (\<lambda>_. []), int_arg = (\<lambda>_. None)\<rparr>"

definition take_word :: "args arg_action" where
  "take_word c a st =
     (case read_word st of
        (None, st') \<Rightarrow> Inr (a, st')
      | (Some w, st') \<Rightarrow> Inr (a\<lparr>word_arg := (word_arg a)(c := w)\<rparr>, st'))"

definition take_int :: "args arg_action" where
  "take_int c a st =
     (case read_int st of
        (None, st') \<Rightarrow> Inr (a, st')
      | (Some v, st') \<Rightarrow> Inr (a\<lparr>int_arg := (int_arg a)(c := Some v)\<rparr>, st'))"

text \<open>\<^verbatim>\<open>int tmp; command_stream >> tmp; privilege = tmp;\<close> into a \<^verbatim>\<open>uint8_t\<close>.\<close>

definition take_byte :: "args arg_action" where
  "take_byte c a st =
     (case read_int st of (v, st') \<Rightarrow>
        Inr (a\<lparr>int_arg := (int_arg a)(c := map_option (\<lambda>x. int (to_u 8 x)) v)\<rparr>, st'))"

section \<open>The argument loop ends\<close>

text \<open>The contract of a switch: it never puts text back.\<close>

locale arg_reader =
  fixes act :: "'a arg_action"
  assumes shrinks: "act c a st = Inr (a', st') \<Longrightarrow> length (rest st') \<le> length (rest st)"
begin

lemma read_word_shrinks: "read_word st = (Some w, st') \<Longrightarrow> length (rest st') < length (rest st)"
proof -
  assume r: "read_word st = (Some w, st')"
  define s where "s = dropWhile is_space (rest st)"
  have "s \<noteq> []" "rest st' = dropWhile (\<lambda>c. \<not> is_space c) s"
    using r by (auto simp: read_word_def s_def Let_def split: if_splits)
  moreover have "length s \<le> length (rest st)"
    by (simp add: s_def length_dropWhile_le)
  moreover have "\<not> is_space (hd s)" if "s \<noteq> []"
    using that unfolding s_def by (rule hd_dropWhile)
  ultimately show ?thesis
    by (cases s) (auto intro: le_less_trans [OF length_dropWhile_le])
qed

text \<open>Any fuel above the length of the text gives the same result, so the loop itself returns.\<close>

lemma enough_fuel:
  "length (rest st) < n \<Longrightarrow> length (rest st) < m \<Longrightarrow> parse_loop n act a st = parse_loop m act a st"
proof (induction n arbitrary: m a st)
  case (Suc n)
  then obtain m' where m: "m = Suc m'" by (cases m) auto
  show ?case
  proof (cases "read_word st")
    case (Pair w st1)
    show ?thesis
    proof (cases w)
      case (Some tok)
      then have l: "length (rest st1) < length (rest st)" using Pair read_word_shrinks by simp
      show ?thesis
      proof (cases "act (option_letter tok) a st1")
        case (Inr p)
        obtain a' st2 where p: "p = (a', st2)" by force
        then have "length (rest st2) \<le> length (rest st1)" using Inr shrinks by simp
        then show ?thesis
          using Suc.prems l m Some Pair Inr p by (simp add: Suc.IH [of st2 m'])
      qed (simp add: m Some Pair)
    qed (simp add: m Pair)
  qed
qed simp

end

lemma read_word_le: "read_word st = (w, st') \<Longrightarrow> length (rest st') \<le> length (rest st)"
  by (auto simp: read_word_def Let_def split: if_splits
      intro: order_trans [OF length_dropWhile_le length_dropWhile_le])

lemma split_sign_le: "split_sign s = (neg, s1) \<Longrightarrow> length s1 \<le> length s"
  by (auto simp: split_sign_def split: list.splits if_splits)

lemma read_int_le: "read_int st = (v, st') \<Longrightarrow> length (rest st') \<le> length (rest st)"
  using split_sign_le [of "dropWhile is_space (rest st)"] length_dropWhile_le [of is_space "rest st"]
  by (force simp: read_int_def Let_def split: if_splits prod.splits
      intro: order_trans [OF length_dropWhile_le])

lemma read_char2_le: "read_char2 st = (v, st') \<Longrightarrow> length (rest st') \<le> length (rest st)"
  using length_dropWhile_le [of is_space "rest st"]
  by (auto simp: read_char2_def split: if_splits list.splits)

lemma take_word_le: "take_word c a st = Inr (a', st') \<Longrightarrow> length (rest st') \<le> length (rest st)"
  by (auto simp: take_word_def split: option.splits prod.splits dest: read_word_le)

lemma take_int_le: "take_int c a st = Inr (a', st') \<Longrightarrow> length (rest st') \<le> length (rest st)"
  by (auto simp: take_int_def split: option.splits prod.splits dest: read_int_le)

lemma take_byte_le: "take_byte c a st = Inr (a', st') \<Longrightarrow> length (rest st') \<le> length (rest st)"
  by (auto simp: take_byte_def split: option.splits prod.splits dest: read_int_le)

lemmas take_le = take_word_le take_int_le take_byte_le

section \<open>Numbers read back\<close>

lemma is_digit_char [simp]: "d < 10 \<Longrightarrow> is_digit (char_of (48 + d :: nat))"
  by (simp add: is_digit_def)

lemma is_digit_zero [simp]: "is_digit (CHR ''0'')"
  by (simp add: is_digit_def)

lemma digits_val_snoc: "digits_val (ds @ [c]) = 10 * digits_val ds + (of_char c - 48)"
  by (simp add: digits_val_def)

lemma show_nat_digits: "\<forall>c \<in> set (show_nat n). is_digit c"
proof (induction n rule: show_nat.induct)
  case (1 n)
  then show ?case by (subst show_nat.simps) auto
qed

lemma show_nat_val: "digits_val (show_nat n) = n"
proof (induction n rule: show_nat.induct)
  case (1 n)
  show ?case
  proof (cases "n < 10")
    case True
    then show ?thesis by (subst show_nat.simps) (simp add: digits_val_def)
  next
    case False
    with 1 show ?thesis by (subst show_nat.simps) (simp add: digits_val_snoc)
  qed
qed

lemma show_nat_nonempty [simp]: "show_nat n \<noteq> []"
  by (subst show_nat.simps) simp

lemma digit_not_sign: "is_digit c \<Longrightarrow> \<not> is_space c \<and> c \<noteq> CHR ''-'' \<and> c \<noteq> CHR ''+''"
  by (auto simp: is_digit_def is_space_def Let_def)

text \<open>A run of digits is read whole, up to a character that is not a digit.\<close>

lemma scan_digits:
  assumes "\<forall>c \<in> set ds. is_digit c" "ds \<noteq> []" "r = [] \<or> \<not> is_digit (hd r)" "digits_val ds < 2147483648"
  shows "scan_int (ds @ r) = Some (int (digits_val ds), r)"
proof -
  obtain d ds' where ds: "ds = d # ds'" using assms(2) by (cases ds) auto
  then have d: "\<not> is_space d" "d \<noteq> CHR ''-''" "d \<noteq> CHR ''+''"
    using assms(1) digit_not_sign [of d] by auto
  have "takeWhile is_digit (ds @ r) = ds" "dropWhile is_digit (ds @ r) = r"
    using assms(1,3) by (cases r; simp add: takeWhile_append dropWhile_append)+
  then show ?thesis
    using assms(4) d unfolding ds scan_int_def split_sign_def
    by (simp add: width_simps)
qed

lemma scan_negative_digits:
  assumes "\<forall>c \<in> set ds. is_digit c" "ds \<noteq> []" "digits_val ds \<le> 2147483648"
  shows "scan_int (CHR ''-'' # ds) = Some (- int (digits_val ds), [])"
proof -
  have run: "takeWhile is_digit ds = ds" "dropWhile is_digit ds = []" using assms(1) by auto
  show ?thesis
    using assms(2,3) unfolding scan_int_def split_sign_def
    by (simp add: width_simps is_space_def run)
qed

lemma digits_val_zeros: "digits_val (replicate n (CHR ''0'') @ ds) = digits_val ds"
  by (induction n) (simp_all add: digits_val_def)

lemma pad2_digits: "0 \<le> x \<Longrightarrow> (\<forall>c \<in> set (pad2 x). is_digit c) \<and> pad2 x \<noteq> [] \<and> digits_val (pad2 x) = nat x"
  using show_nat_digits [of "nat x"]
  by (auto simp: pad2_def show_int_def Let_def digits_val_zeros show_nat_val)

section \<open>Properties\<close>

text \<open>A decimal number printed with \<^verbatim>\<open><<\<close> reads back through \<^verbatim>\<open>sscanf("%d")\<close>, and two
  numbers printed as in a date (\<^verbatim>\<open>setw(2)\<close>, filled with zeros, \<^verbatim>\<open>-\<close> between) read back
  through \<^verbatim>\<open>sscanf("%d-%d")\<close>.\<close>

theorem printed_numbers_scan_back:
  assumes "- 2147483648 \<le> x" "x < 2147483648" "0 \<le> m" "m < 2147483648" "0 \<le> d" "d < 2147483648"
  shows "scan_int (show_int x) = Some (x, []) \<and>
    scan_ints ''-'' (pad2 m @ ''-'' @ pad2 d) = [Some m, Some d]"
proof
  show "scan_int (show_int x) = Some (x, [])"
  proof (cases "x < 0")
    case True
    then show ?thesis
      using assms(1) scan_negative_digits [of "show_nat (nat (- x))"] show_nat_digits
      by (simp add: show_int_def show_nat_val)
  next
    case False
    then show ?thesis
      using assms(2) scan_digits [of "show_nat (nat x)" "[]"] show_nat_digits
      by (simp add: show_int_def show_nat_val)
  qed
  show "scan_ints ''-'' (pad2 m @ ''-'' @ pad2 d) = [Some m, Some d]"
    using assms(3-6) pad2_digits [of m] pad2_digits [of d]
      scan_digits [of "pad2 m" "''-'' @ pad2 d"] scan_digits [of "pad2 d" "[]"]
    by (simp add: is_digit_def)
qed

theorem printed_numbers_scan_back_witness:
  "scan_int (show_int (- 120)) = Some (- 120, []) \<and>
   scan_ints ''-'' (pad2 8 @ ''-'' @ pad2 17) = [Some 8, Some 17]"
  by (rule printed_numbers_scan_back) simp_all

end
