(* ===== verification/Stop_Register.thy ===== *)
theory Stop_Register
  imports Key_Index Utils
begin

text \<open>
  \<^verbatim>\<open>src/include/stop_register.hpp\<close>: the register of the stops of released trains, an index
  from (station, train, arrive or leave, start time) to the packed sale dates and the minute
  offset of the stop. \<^verbatim>\<open>QueryDirectTrains\<close> joins the stops of two stations with two iterators
  that only move forward; the lemmas show that it finds the same trains as the nested loop over
  all pairs of stops, and that \<^verbatim>\<open>RequestSingleTrain\<close>, which serves ticket purchases, accepts
  the trains that query lists.
\<close>

section \<open>Keys and records\<close>

record stop_key =
  station_ID_hash :: hash_t
  train_ID_hash :: hash_t
  stop_type :: nat
  sk_startTime :: nat
  stop_id :: nat

text \<open>\<^verbatim>\<open>operator<\<close>, which leaves \<^verbatim>\<open>stop_id\<close> out.\<close>

definition stop_less :: "stop_key \<Rightarrow> stop_key \<Rightarrow> bool" where
  "stop_less A B =
     (if station_ID_hash A \<noteq> station_ID_hash B then station_ID_hash A < station_ID_hash B
      else if train_ID_hash A \<noteq> train_ID_hash B then train_ID_hash A < train_ID_hash B
      else if stop_type A \<noteq> stop_type B then stop_type A < stop_type B
      else sk_startTime A < sk_startTime B)"

record minimal_train_record =
  mr_saleDate_beg :: nat
  mr_saleDate_end :: nat
  vis_time_offset :: nat

record direct_train_info =
  di_train_ID_hash :: hash_t
  actual_start_date :: int
  di_leave_time_stamp :: int
  di_arrive_time_stamp :: int
  di_from_stop_id :: nat
  di_to_stop_id :: nat
  di_saleDate_beg :: int

type_synonym register = "(stop_key, minimal_train_record) index"
type_synonym stop_entry = "stop_key \<times> minimal_train_record"

definition june_1st_2024 :: int where
  "june_1st_2024 = 152"

definition no_offset :: nat where
  "no_offset = 65535"

section \<open>Operations\<close>

definition pack_record :: "nat \<Rightarrow> nat \<Rightarrow> nat \<Rightarrow> minimal_train_record" where
  "pack_record sale_beg sale_end offset =
     \<lparr>mr_saleDate_beg = to_u 8 (int sale_beg - june_1st_2024),
      mr_saleDate_end = to_u 8 (int sale_end - june_1st_2024),
      vis_time_offset = to_u 14 (int offset)\<rparr>"

definition add_stop_info ::
  "hash_t \<Rightarrow> hash_t \<Rightarrow> nat \<Rightarrow> nat \<Rightarrow> nat \<Rightarrow> nat \<Rightarrow> nat \<Rightarrow> nat \<Rightarrow> register \<Rightarrow> register" where
  "add_stop_info station train sale_beg sale_end start arrive_offset leave_offset stop reg =
     (let key = (\<lambda>t. \<lparr>station_ID_hash = station, train_ID_hash = train, stop_type = t,
                    sk_startTime = to_u 12 (int start), stop_id = stop\<rparr>);
          reg1 = (if arrive_offset \<noteq> no_offset
                  then idx_put stop_less (key 0) (pack_record sale_beg sale_end arrive_offset) reg
                  else reg)
      in if leave_offset \<noteq> no_offset
         then idx_put stop_less (key 1) (pack_record sale_beg sale_end leave_offset) reg1
         else reg1)"

text \<open>The key of a \<^verbatim>\<open>lower_bound_const\<close> call; the fields left out are zero.\<close>

definition probe :: "hash_t \<Rightarrow> hash_t \<Rightarrow> nat \<Rightarrow> stop_key" where
  "probe station train t =
     \<lparr>station_ID_hash = station, train_ID_hash = train, stop_type = t, sk_startTime = 0, stop_id = 0\<rparr>"

text \<open>The entries an iterator from \<^verbatim>\<open>lower_bound_const\<close> sees before \<^verbatim>\<open>end_const()\<close>.\<close>

definition entries_from :: "stop_key \<Rightarrow> register \<Rightarrow> stop_entry list" where
  "entries_from k reg = drop (idx_lower stop_less k reg) (chain reg)"

definition true_sale_beg :: "minimal_train_record \<Rightarrow> int" where
  "true_sale_beg r = int (mr_saleDate_beg r) + june_1st_2024"

definition true_sale_end :: "minimal_train_record \<Rightarrow> int" where
  "true_sale_end r = int (mr_saleDate_end r) + june_1st_2024"

definition actual_time :: "stop_entry \<Rightarrow> nat" where
  "actual_time e = sk_startTime (fst e) + vis_time_offset (snd e)"

text \<open>The day the train starts when it leaves this stop on \<open>date\<close>: unsigned 32-bit arithmetic, as
  \<^verbatim>\<open>date\<close> is a \<^verbatim>\<open>uint32_t\<close> in the queries over many trains.\<close>

definition start_day_u32 :: "nat \<Rightarrow> stop_entry \<Rightarrow> nat" where
  "start_day_u32 date e = to_u 32 (int date - int (actual_time e div 1440))"

definition on_sale_u32 :: "nat \<Rightarrow> stop_entry \<Rightarrow> bool" where
  "on_sale_u32 date e \<longleftrightarrow>
     \<not> (int (start_day_u32 date e) < true_sale_beg (snd e) \<or>
        int (start_day_u32 date e) > true_sale_end (snd e))"

text \<open>The entry of the result, with the arrival at the stop \<open>t\<close> of the same train.\<close>

definition direct_entry :: "int \<Rightarrow> stop_entry \<Rightarrow> stop_entry \<Rightarrow> direct_train_info" where
  "direct_entry day f t =
     \<lparr>di_train_ID_hash = train_ID_hash (fst f),
      actual_start_date = day,
      di_leave_time_stamp = day * 1440 + int (actual_time f),
      di_arrive_time_stamp = day * 1440 + int (sk_startTime (fst f)) + int (vis_time_offset (snd t)),
      di_from_stop_id = stop_id (fst f),
      di_to_stop_id = stop_id (fst t),
      di_saleDate_beg = true_sale_beg (snd f)\<rparr>"

text \<open>The inner loop of \<^verbatim>\<open>QueryDirectTrains\<close>: the train found, if any, and where \<^verbatim>\<open>it_to\<close>
  stops.\<close>

fun scan_to :: "hash_t \<Rightarrow> int \<Rightarrow> stop_entry \<Rightarrow> stop_entry list
    \<Rightarrow> direct_train_info list \<times> stop_entry list" where
  "scan_to to_station day f [] = ([], [])"
| "scan_to to_station day f (t # ts) =
     (if station_ID_hash (fst t) \<noteq> to_station then ([], t # ts)
      else if stop_type (fst t) \<noteq> 0 then scan_to to_station day f ts
      else if train_ID_hash (fst f) < train_ID_hash (fst t) then ([], t # ts)
      else if train_ID_hash (fst t) = train_ID_hash (fst f) then
        (let entry = direct_entry day f t
         in if di_leave_time_stamp entry < di_arrive_time_stamp entry then ([entry], ts) else ([], ts))
      else scan_to to_station day f ts)"

fun join_stops :: "nat \<Rightarrow> hash_t \<Rightarrow> hash_t \<Rightarrow> stop_entry list \<Rightarrow> stop_entry list
    \<Rightarrow> direct_train_info list" where
  "join_stops date from_station to_station [] ts = []"
| "join_stops date from_station to_station (f # fs) ts =
     (if station_ID_hash (fst f) \<noteq> from_station then []
      else if stop_type (fst f) \<noteq> 1 then join_stops date from_station to_station fs ts
      else if \<not> on_sale_u32 date f then join_stops date from_station to_station fs ts
      else case scan_to to_station (int (start_day_u32 date f)) f ts of
             (found, ts') \<Rightarrow> found @ join_stops date from_station to_station fs ts')"

definition query_direct_trains :: "nat \<Rightarrow> hash_t \<Rightarrow> hash_t \<Rightarrow> register \<Rightarrow> direct_train_info list" where
  "query_direct_trains date from_station to_station reg =
     join_stops date from_station to_station
       (entries_from (probe from_station 0 0) reg) (entries_from (probe to_station 0 0) reg)"

text \<open>\<^verbatim>\<open>None\<close> is \<^verbatim>\<open>success = false\<close>. Here \<^verbatim>\<open>date\<close> is an \<^verbatim>\<open>int\<close>.\<close>

definition request_single_train ::
  "hash_t \<Rightarrow> int \<Rightarrow> hash_t \<Rightarrow> hash_t \<Rightarrow> register \<Rightarrow> direct_train_info option" where
  "request_single_train train date from_station to_station reg =
     (case (entries_from (probe from_station train 1) reg, entries_from (probe to_station train 0) reg) of
        (f # _, t # _) \<Rightarrow>
          if train_ID_hash (fst f) \<noteq> train \<or> train_ID_hash (fst t) \<noteq> train \<or>
             station_ID_hash (fst f) \<noteq> from_station \<or> station_ID_hash (fst t) \<noteq> to_station \<or>
             stop_type (fst f) \<noteq> 1 \<or> stop_type (fst t) \<noteq> 0
          then None
          else if vis_time_offset (snd f) > vis_time_offset (snd t) then None
          else let day = date - int (actual_time f div 1440)
               in if day < true_sale_beg (snd f) \<or> day > true_sale_end (snd f) then None
                  else Some (direct_entry day f t)
      | _ \<Rightarrow> None)"

fun leaving_trains :: "nat \<Rightarrow> hash_t \<Rightarrow> stop_entry list \<Rightarrow> hash_t list" where
  "leaving_trains date from_station [] = []"
| "leaving_trains date from_station (f # fs) =
     (if station_ID_hash (fst f) \<noteq> from_station then []
      else if stop_type (fst f) \<noteq> 1 then leaving_trains date from_station fs
      else if \<not> on_sale_u32 date f then leaving_trains date from_station fs
      else train_ID_hash (fst f) # leaving_trains date from_station fs)"

definition fetch_train_leaving_from :: "nat \<Rightarrow> hash_t \<Rightarrow> register \<Rightarrow> hash_t list" where
  "fetch_train_leaving_from date from_station reg =
     leaving_trains date from_station (entries_from (probe from_station 0 0) reg)"

fun arriving_trains :: "hash_t \<Rightarrow> stop_entry list \<Rightarrow> hash_t list" where
  "arriving_trains to_station [] = []"
| "arriving_trains to_station (t # ts) =
     (if station_ID_hash (fst t) \<noteq> to_station then []
      else if stop_type (fst t) \<noteq> 0 then arriving_trains to_station ts
      else train_ID_hash (fst t) # arriving_trains to_station ts)"

text \<open>The date argument is not used.\<close>

definition fetch_train_arriaving_at :: "nat \<Rightarrow> hash_t \<Rightarrow> register \<Rightarrow> hash_t list" where
  "fetch_train_arriaving_at date to_station reg =
     arriving_trains to_station (entries_from (probe to_station 0 0) reg)"

section \<open>The order of the register\<close>

interpretation stop: strict_weak_order stop_less
  by unfold_locales (auto simp: stop_less_def split: if_splits)


text \<open>A train stops once at a station: the register is then sorted by station, train and type
  alone.\<close>

definition coarse_less :: "stop_entry \<Rightarrow> stop_entry \<Rightarrow> bool" where
  "coarse_less a b =
     (let A = fst a; B = fst b
      in if station_ID_hash A \<noteq> station_ID_hash B then station_ID_hash A < station_ID_hash B
         else if train_ID_hash A \<noteq> train_ID_hash B then train_ID_hash A < train_ID_hash B
         else stop_type A < stop_type B)"

definition stops_once :: "register \<Rightarrow> bool" where
  "stops_once reg \<longleftrightarrow> sorted_wrt coarse_less (chain reg)"

lemma coarse_stop_less: "coarse_less a b \<Longrightarrow> stop_less (fst a) (fst b)"
  by (auto simp: coarse_less_def stop_less_def Let_def split: if_splits)

lemma coarse_order:
  assumes "coarse_less a b"
  shows "station_ID_hash (fst a) \<le> station_ID_hash (fst b)"
    and "station_ID_hash (fst a) = station_ID_hash (fst b) \<Longrightarrow> train_ID_hash (fst a) \<le> train_ID_hash (fst b)"
    and "station_ID_hash (fst a) = station_ID_hash (fst b) \<Longrightarrow> train_ID_hash (fst a) = train_ID_hash (fst b) \<Longrightarrow>
      stop_type (fst a) < stop_type (fst b)"
  using assms by (auto simp: coarse_less_def Let_def split: if_splits)

lemma stops_once_sorted: "stops_once reg \<Longrightarrow> sorted_wrt (\<lambda>a b. stop_less (fst a) (fst b)) (chain reg)"
  unfolding stops_once_def by (erule sorted_wrt_mono_rel [rotated]) (simp add: coarse_stop_less)

lemma entries_from_filter:
  assumes "stops_once reg"
  shows "entries_from k reg = filter (\<lambda>e. \<not> stop_less (fst e) k) (chain reg)"
  unfolding entries_from_def idx_lower_def drop_lower_pos
  by (rule dropWhile_filter [OF stops_once_sorted [OF assms]]) (rule stop.trans)

lemma before_station: "stop_less K (probe s 0 0) \<longleftrightarrow> station_ID_hash K < s"
  by (auto simp: stop_less_def probe_def)

lemma entries_from_sorted: "stops_once reg \<Longrightarrow> sorted_wrt coarse_less (entries_from k reg)"
  unfolding entries_from_filter by (simp add: stops_once_def sorted_wrt_filter)

section \<open>The join against the nested loop\<close>

definition leaves_from :: "nat \<Rightarrow> hash_t \<Rightarrow> stop_entry \<Rightarrow> bool" where
  "leaves_from date s f \<longleftrightarrow> station_ID_hash (fst f) = s \<and> stop_type (fst f) = 1 \<and> on_sale_u32 date f"

definition arrives_later :: "hash_t \<Rightarrow> int \<Rightarrow> stop_entry \<Rightarrow> stop_entry \<Rightarrow> bool" where
  "arrives_later s day f t \<longleftrightarrow>
     station_ID_hash (fst t) = s \<and> stop_type (fst t) = 0 \<and> train_ID_hash (fst t) = train_ID_hash (fst f) \<and>
     di_leave_time_stamp (direct_entry day f t) < di_arrive_time_stamp (direct_entry day f t)"

definition row :: "hash_t \<Rightarrow> int \<Rightarrow> stop_entry \<Rightarrow> stop_entry list \<Rightarrow> direct_train_info list" where
  "row s day f ts = map (direct_entry day f) (filter (arrives_later s day f) ts)"

text \<open>The nested loop over all pairs of entries.\<close>

definition direct_trains_nested :: "nat \<Rightarrow> hash_t \<Rightarrow> hash_t \<Rightarrow> register \<Rightarrow> direct_train_info list" where
  "direct_trains_nested date from_station to_station reg =
     concat (map (\<lambda>f. row to_station (int (start_day_u32 date f)) f (chain reg))
       (filter (leaves_from date from_station) (chain reg)))"

lemma row_Nil: "(\<And>t. t \<in> set ts \<Longrightarrow> \<not> arrives_later s day f t) \<Longrightarrow> row s day f ts = []"
  by (simp add: row_def filter_empty_conv)

lemma row_Cons: "row s day f (t # ts) =
    (if arrives_later s day f t then [direct_entry day f t] else []) @ row s day f ts"
  by (simp add: row_def)

lemma scan_to_row:
  assumes "sorted_wrt coarse_less ts" "\<forall>t \<in> set ts. s \<le> station_ID_hash (fst t)"
    "scan_to s day f ts = (found, ts')"
  shows "found = row s day f ts \<and> sorted_wrt coarse_less ts' \<and> set ts' \<subseteq> set ts \<and>
    (\<forall>g day'. train_ID_hash (fst f) < train_ID_hash (fst g) \<longrightarrow> row s day' g ts' = row s day' g ts)"
  using assms
proof (induction s day f ts arbitrary: found ts' rule: scan_to.induct)
  case (1 s day f)
  then show ?case by (simp add: row_def)
next
  case (2 s day f t ts)
  let ?st = "\<lambda>e :: stop_entry. station_ID_hash (fst e)" and ?tr = "\<lambda>e :: stop_entry. train_ID_hash (fst e)"
  have sorted: "\<forall>u \<in> set ts. coarse_less t u" "sorted_wrt coarse_less ts"
    and ge: "s \<le> ?st t" "\<forall>u \<in> set ts. s \<le> ?st u"
    using 2(3,4) by auto
  consider (past) "?st t \<noteq> s" | (leave) "?st t = s" "stop_type (fst t) \<noteq> 0"
    | (after) "?st t = s" "stop_type (fst t) = 0" "?tr f < ?tr t"
    | (found) "?st t = s" "stop_type (fst t) = 0" "?tr t = ?tr f"
    | (before) "?st t = s" "stop_type (fst t) = 0" "?tr t < ?tr f"
    by (metis linorder_neqE)
  then show ?case
  proof cases
    case past
    have "?st u \<noteq> s" if "u \<in> set (t # ts)" for u
      using that sorted(1) ge(1) past coarse_order(1) by fastforce
    then have "row s day f (t # ts) = []" by (intro row_Nil) (auto simp: arrives_later_def)
    then show ?thesis using past 2(3,5) by auto
  next
    case leave
    then have "row s d g (t # ts) = row s d g ts" for d g by (simp add: row_Cons arrives_later_def)
    then show ?thesis using 2(1) [of found ts'] leave 2(5) sorted ge by auto
  next
    case after
    have "?tr f < ?tr u" if "u \<in> set (t # ts)" "?st u = s" for u
      using that sorted(1) after coarse_order(2) by fastforce
    then have "\<not> arrives_later s day f u" if "u \<in> set (t # ts)" for u
      using that unfolding arrives_later_def by (metis order_less_irrefl)
    then have "row s day f (t # ts) = []" by (rule row_Nil)
    then show ?thesis using after 2(3,5) by auto
  next
    case found
    have "?tr f < ?tr u" if "u \<in> set ts" "?st u = s" "stop_type (fst u) = 0" for u
    proof -
      have "coarse_less t u" using that(1) sorted(1) by blast
      then show ?thesis using coarse_order(2,3) [of t u] that found by force
    qed
    then have "\<not> arrives_later s day f u" if "u \<in> set ts" for u
      using that unfolding arrives_later_def by (metis order_less_irrefl)
    then have "row s day f ts = []" by (rule row_Nil)
    moreover have "row s d g (t # ts) = row s d g ts" if "?tr f < ?tr g" for d g
      using that found by (auto simp: row_Cons arrives_later_def)
    ultimately show ?thesis using found 2(5) sorted
      by (auto simp: Let_def row_Cons arrives_later_def split: if_splits)
  next
    case before
    then have "row s d g (t # ts) = row s d g ts" if "?tr f \<le> ?tr g" for d g
      using that by (auto simp: row_Cons arrives_later_def)
    moreover have "\<not> ?tr f < ?tr t" "?tr t \<noteq> ?tr f" using before by auto
    ultimately show ?thesis using 2(2) [of found ts'] before 2(5) sorted ge
      by (simp add: order_less_imp_le) blast
  qed
qed

lemma join_stops_nested:
  assumes "sorted_wrt coarse_less fs" "sorted_wrt coarse_less ts"
    "\<forall>f \<in> set fs. a \<le> station_ID_hash (fst f)" "\<forall>t \<in> set ts. b \<le> station_ID_hash (fst t)"
  shows "join_stops date a b fs ts =
    concat (map (\<lambda>f. row b (int (start_day_u32 date f)) f ts) (filter (leaves_from date a) fs))"
  using assms
proof (induction fs arbitrary: ts)
  case (Cons f fs)
  let ?st = "\<lambda>e :: stop_entry. station_ID_hash (fst e)"
  show ?case
  proof (cases "?st f = a \<and> stop_type (fst f) = 1 \<and> on_sale_u32 date f")
    case True
    obtain found ts' where sc: "scan_to b (int (start_day_u32 date f)) f ts = (found, ts')" by force
    have r: "found = row b (int (start_day_u32 date f)) f ts" "sorted_wrt coarse_less ts'" "set ts' \<subseteq> set ts"
      "\<And>g d. train_ID_hash (fst f) < train_ID_hash (fst g) \<Longrightarrow> row b d g ts' = row b d g ts"
      using scan_to_row [OF Cons.prems(2,4) sc] by blast+
    have "train_ID_hash (fst f) < train_ID_hash (fst g)" if "g \<in> set fs" "leaves_from date a g" for g
    proof -
      have "coarse_less f g" using that(1) Cons.prems(1) by simp
      then show ?thesis using coarse_order(2,3) [of f g] that(2) True by (force simp: leaves_from_def)
    qed
    with r(4) have "map (\<lambda>g. row b (int (start_day_u32 date g)) g ts') (filter (leaves_from date a) fs) =
        map (\<lambda>g. row b (int (start_day_u32 date g)) g ts) (filter (leaves_from date a) fs)"
      by (intro map_cong) auto
    moreover have "join_stops date a b fs ts' =
        concat (map (\<lambda>g. row b (int (start_day_u32 date g)) g ts') (filter (leaves_from date a) fs))"
      using r(2,3) Cons.prems by (intro Cons.IH) auto
    moreover have "leaves_from date a f" using True by (simp add: leaves_from_def)
    ultimately show ?thesis
      using True sc r(1) by (simp del: map_eq_conv)
  next
    case False
    show ?thesis
    proof (cases "?st f = a")
      case True
      with False Cons show ?thesis by (auto simp: leaves_from_def)
    next
      case other: False
      have "?st g \<noteq> a" if "g \<in> set fs" for g
        using that Cons.prems(1,3) other coarse_order(1) [of f g] by fastforce
      then have "filter (leaves_from date a) (f # fs) = []"
        using other by (auto simp: filter_empty_conv leaves_from_def)
      then show ?thesis using other by simp
    qed
  qed
qed simp

lemma query_direct_nested:
  assumes "stops_once reg"
  shows "query_direct_trains date a b reg = direct_trains_nested date a b reg"
proof -
  have e: "entries_from (probe s 0 0) reg = filter (\<lambda>e. s \<le> station_ID_hash (fst e)) (chain reg)" for s
    by (simp add: entries_from_filter [OF assms] before_station not_less)
  have "row b d f (filter (\<lambda>e. b \<le> station_ID_hash (fst e)) es) = row b d f es" for d f es
    by (auto simp: row_def arrives_later_def intro!: arg_cong [where f = "map (direct_entry d f)"] filter_cong)
  moreover have "filter (leaves_from date a) (filter (\<lambda>e. a \<le> station_ID_hash (fst e)) es) =
      filter (leaves_from date a) es" for es
    by (auto simp: leaves_from_def intro!: filter_cong)
  moreover have "sorted_wrt coarse_less (filter (\<lambda>e. s \<le> station_ID_hash (fst e)) (chain reg))" for s
    using assms by (simp add: stops_once_def sorted_wrt_filter)
  ultimately show ?thesis
    unfolding query_direct_trains_def direct_trains_nested_def e
    by (subst join_stops_nested) simp_all
qed

section \<open>The register keeps its order\<close>

text \<open>Fields fit their bit fields, and no train is at a station with two start times.\<close>

definition packed :: "stop_entry \<Rightarrow> bool" where
  "packed e \<longleftrightarrow> sk_startTime (fst e) < 4096 \<and> vis_time_offset (snd e) < 16384 \<and>
     mr_saleDate_beg (snd e) < 256 \<and> mr_saleDate_end (snd e) < 256"

definition same_stop :: "stop_key \<Rightarrow> stop_key \<Rightarrow> bool" where
  "same_stop A B \<longleftrightarrow> station_ID_hash A = station_ID_hash B \<and> train_ID_hash A = train_ID_hash B \<and>
     stop_type A = stop_type B"

definition register_inv :: "register \<Rightarrow> bool" where
  "register_inv reg \<longleftrightarrow> idx_inv stop_less reg \<and> (\<forall>e \<in> set (chain reg). packed e) \<and>
     (\<forall>a \<in> set (chain reg). \<forall>b \<in> set (chain reg).
        same_stop (fst a) (fst b) \<longrightarrow> sk_startTime (fst a) = sk_startTime (fst b))"

lemma stop_coarse_less:
  "stop_less (fst a) (fst b) \<Longrightarrow>
   (same_stop (fst a) (fst b) \<longrightarrow> sk_startTime (fst a) = sk_startTime (fst b)) \<Longrightarrow> coarse_less a b"
  by (simp add: stop_less_def coarse_less_def same_stop_def Let_def split: if_splits)

lemma register_stops_once:
  assumes "register_inv reg"
  shows "stops_once reg"
  unfolding stops_once_def
proof (rule sorted_wrt_mono_rel)
  show "sorted_wrt (\<lambda>a b. stop_less (fst a) (fst b)) (chain reg)"
    using assms by (simp add: register_inv_def idx_inv_def)
  show "coarse_less a b" if "a \<in> set (chain reg)" "b \<in> set (chain reg)" "stop_less (fst a) (fst b)" for a b
    using that assms by (intro stop_coarse_less) (simp_all add: register_inv_def)
qed

lemma equivalent_keys: "\<not> stop_less A B \<Longrightarrow> \<not> stop_less B A \<Longrightarrow>
    same_stop A B \<and> sk_startTime A = sk_startTime B"
  by (auto simp: stop_less_def same_stop_def split: if_splits)

lemma put_register_inv:
  assumes "register_inv reg" "packed (k, v)"
    and once: "\<And>a. a \<in> set (chain reg) \<Longrightarrow> same_stop (fst a) k \<Longrightarrow> sk_startTime (fst a) = sk_startTime k"
  shows "register_inv (idx_put stop_less k v reg)"
    and "set (chain (idx_put stop_less k v reg)) \<subseteq>
      {(k', v) | k'. same_stop k' k \<and> sk_startTime k' = sk_startTime k} \<union> set (chain reg)"
proof -
  have "idx_inv stop_less reg" using assms(1) by (simp add: register_inv_def)
  then obtain k' where k': "\<not> stop_less k k'" "\<not> stop_less k' k"
    "idx_inv stop_less (idx_put stop_less k v reg)"
    "set (chain (idx_put stop_less k v reg)) =
       insert (k', v) {(a, b). (a, b) \<in> set (chain reg) \<and> (stop_less a k \<or> stop_less k a)}"
    by (rule stop.idx_put_inv_set)
  have eq: "same_stop k k'" "sk_startTime k = sk_startTime k'" using equivalent_keys k'(1,2) by blast+
  show "register_inv (idx_put stop_less k v reg)"
    unfolding register_inv_def
  proof (intro conjI ballI impI)
    show "idx_inv stop_less (idx_put stop_less k v reg)" by (rule k'(3))
  next
    fix e assume "e \<in> set (chain (idx_put stop_less k v reg))"
    then consider "e = (k', v)" | "e \<in> set (chain reg)" unfolding k'(4) by blast
    then show "packed e"
      using assms(1,2) eq(2) by cases (simp_all add: packed_def register_inv_def)
  next
    fix a b
    assume ab: "a \<in> set (chain (idx_put stop_less k v reg))"
      "b \<in> set (chain (idx_put stop_less k v reg))" "same_stop (fst a) (fst b)"
    have start: "sk_startTime (fst e) = sk_startTime k"
      if "e = (k', v) \<or> e \<in> set (chain reg)" "same_stop (fst e) k" for e
      using that once [of e] eq by auto
    have "a = (k', v) \<or> a \<in> set (chain reg)" "b = (k', v) \<or> b \<in> set (chain reg)"
      using ab(1,2) unfolding k'(4) by blast+
    moreover have "same_stop (fst a) k \<longleftrightarrow> same_stop (fst b) k" "same_stop k' k"
      using ab(3) eq by (simp_all add: same_stop_def)
    moreover have "sk_startTime (fst a) = sk_startTime (fst b)"
      if "a \<in> set (chain reg)" "b \<in> set (chain reg)"
      using that ab(3) assms(1) by (simp add: register_inv_def)
    ultimately show "sk_startTime (fst a) = sk_startTime (fst b)"
      using start by (metis fst_conv)
  qed
  show "set (chain (idx_put stop_less k v reg)) \<subseteq>
      {(k', v) | k'. same_stop k' k \<and> sk_startTime k' = sk_startTime k} \<union> set (chain reg)"
    using eq unfolding k'(4) same_stop_def by auto
qed

text \<open>The premise of \<open>put_register_inv\<close> in the form a run of \<^verbatim>\<open>AddStopInfo\<close> calls for one train
  keeps: every entry of the train has the same start time.\<close>

definition one_start :: "hash_t \<Rightarrow> nat \<Rightarrow> register \<Rightarrow> bool" where
  "one_start train start reg \<longleftrightarrow>
     (\<forall>a \<in> set (chain reg). train_ID_hash (fst a) = train \<longrightarrow> sk_startTime (fst a) = to_u 12 (int start))"

lemma put_one_start:
  assumes "register_inv reg" "one_start train start reg" "train_ID_hash k = train"
    "sk_startTime k = to_u 12 (int start)" "packed (k, v)"
  shows "register_inv (idx_put stop_less k v reg) \<and> one_start train start (idx_put stop_less k v reg)"
proof
  have once: "sk_startTime (fst a) = sk_startTime k" if "a \<in> set (chain reg)" "same_stop (fst a) k" for a
    using that assms(2-4) by (simp add: one_start_def same_stop_def)
  note put = put_register_inv [OF assms(1,5) once, simplified]
  show "register_inv (idx_put stop_less k v reg)" by (rule put(1))
  show "one_start train start (idx_put stop_less k v reg)"
    unfolding one_start_def
  proof (intro ballI impI)
    fix a assume "a \<in> set (chain (idx_put stop_less k v reg))" "train_ID_hash (fst a) = train"
    then show "sk_startTime (fst a) = to_u 12 (int start)"
      using put(2) assms(2,4) unfolding one_start_def by fastforce
  qed
qed

lemma packed_record: "packed (\<lparr>station_ID_hash = s, train_ID_hash = t, stop_type = ty,
    sk_startTime = to_u 12 st, stop_id = i\<rparr>, pack_record b e off)"
  using to_u_less [of 12 st] to_u_less [of 14 "int off"] to_u_less [of 8]
  by (simp add: packed_def pack_record_def del: to_u_less)

lemma add_stop_keeps:
  assumes "register_inv reg" "one_start train start reg"
  shows "register_inv (add_stop_info station train b e start ao lo stop reg) \<and>
    one_start train start (add_stop_info station train b e start ao lo stop reg)"
proof -
  have put: "register_inv r \<and> one_start train start r \<Longrightarrow>
      register_inv (idx_put stop_less \<lparr>station_ID_hash = station, train_ID_hash = train, stop_type = t,
        sk_startTime = to_u 12 (int start), stop_id = stop\<rparr> (pack_record b e off) r) \<and>
      one_start train start (idx_put stop_less \<lparr>station_ID_hash = station, train_ID_hash = train, stop_type = t,
        sk_startTime = to_u 12 (int start), stop_id = stop\<rparr> (pack_record b e off) r)" for r t off
    by (rule put_one_start) (auto simp: packed_record)
  show ?thesis
    using assms unfolding add_stop_info_def Let_def
    by (cases "ao \<noteq> no_offset"; cases "lo \<noteq> no_offset") (simp_all add: put)
qed

section \<open>A single train\<close>

text \<open>\<^verbatim>\<open>lower_bound_const\<close> at a stop that is registered points to it.\<close>

lemma entries_from_head:
  assumes "stops_once reg" "e \<in> set (chain reg)" "same_stop (fst e) (probe s tr ty)"
  shows "\<exists>es. entries_from (probe s tr ty) reg = e # es"
proof -
  have not_before: "\<not> stop_less (fst e) (probe s tr ty)"
    using assms(3) by (simp add: same_stop_def stop_less_def probe_def)
  then have "e \<in> set (entries_from (probe s tr ty) reg)"
    using assms(2) by (simp add: entries_from_filter [OF assms(1)])
  then obtain h es where h: "entries_from (probe s tr ty) reg = h # es" "e = h \<or> e \<in> set es"
    by (cases "entries_from (probe s tr ty) reg") auto
  have "e = h"
  proof (rule ccontr)
    assume "e \<noteq> h"
    then have "coarse_less h e"
      using h entries_from_sorted [OF assms(1), of "probe s tr ty"] by simp
    then have "stop_less (fst h) (probe s tr ty)"
      using assms(3) by (simp add: coarse_less_def stop_less_def same_stop_def probe_def Let_def split: if_splits)
    moreover have "\<not> stop_less (fst h) (probe s tr ty)"
    proof -
      have "h \<in> set (entries_from (probe s tr ty) reg)" using h(1) by simp
      then show ?thesis by (simp add: entries_from_filter [OF assms(1)])
    qed
    ultimately show False by simp
  qed
  with h show ?thesis by blast
qed

lemma request_single_train_Some:
  assumes "stops_once reg"
  shows "request_single_train train date a b reg = Some info \<longleftrightarrow>
    (\<exists>f t. f \<in> set (chain reg) \<and> t \<in> set (chain reg) \<and> same_stop (fst f) (probe a train 1) \<and>
       same_stop (fst t) (probe b train 0) \<and> vis_time_offset (snd f) \<le> vis_time_offset (snd t) \<and>
       true_sale_beg (snd f) \<le> date - int (actual_time f div 1440) \<and>
       date - int (actual_time f div 1440) \<le> true_sale_end (snd f) \<and>
       info = direct_entry (date - int (actual_time f div 1440)) f t)"
    (is "?l \<longleftrightarrow> (\<exists>f t. ?r f t)")
proof
  assume l: ?l
  then obtain f fs t ts where e: "entries_from (probe a train 1) reg = f # fs"
    "entries_from (probe b train 0) reg = t # ts"
    unfolding request_single_train_def by (auto split: list.splits)
  then have "f \<in> set (entries_from (probe a train 1) reg)" "t \<in> set (entries_from (probe b train 0) reg)"
    by simp_all
  then have "f \<in> set (chain reg)" "t \<in> set (chain reg)"
    by (simp_all add: entries_from_filter [OF assms])
  moreover have "same_stop (fst f) (probe a train 1) \<and> same_stop (fst t) (probe b train 0) \<and>
      vis_time_offset (snd f) \<le> vis_time_offset (snd t) \<and>
       true_sale_beg (snd f) \<le> date - int (actual_time f div 1440) \<and>
       date - int (actual_time f div 1440) \<le> true_sale_end (snd f) \<and>
       info = direct_entry (date - int (actual_time f div 1440)) f t"
    using l e by (simp add: request_single_train_def same_stop_def probe_def Let_def not_less split: if_splits)
  ultimately show "\<exists>f t. ?r f t" by blast
next
  assume "\<exists>f t. ?r f t"
  then obtain f t where r: "?r f t" by blast
  obtain fs ts where "entries_from (probe a train 1) reg = f # fs" "entries_from (probe b train 0) reg = t # ts"
    using r entries_from_head [OF assms] by meson
  then show ?l
    using r by (simp add: request_single_train_def same_stop_def probe_def Let_def)
qed

text \<open>Unsigned and signed day arithmetic agree on the sale window.\<close>

lemma on_sale_signed:
  assumes "packed f" "date < 2147483648"
  shows "on_sale_u32 date f \<and> int (start_day_u32 date f) = day \<longleftrightarrow>
    day = int date - int (actual_time f div 1440) \<and> true_sale_beg (snd f) \<le> day \<and> day \<le> true_sale_end (snd f)"
proof -
  let ?d = "int (actual_time f div 1440)"
  have "actual_time f < 20480" using assms(1) by (simp add: packed_def actual_time_def)
  then have d: "0 \<le> ?d" "?d < 15" by simp_all
  have s: "152 \<le> true_sale_beg (snd f)" "true_sale_end (snd f) < 408"
    using assms(1) by (simp_all add: packed_def true_sale_beg_def true_sale_end_def june_1st_2024_def)
  show ?thesis
  proof (cases "?d \<le> int date")
    case True
    then have "int (start_day_u32 date f) = int date - ?d"
      using assms(2) d by (simp add: start_day_u32_def width_simps)
    then show ?thesis by (auto simp: on_sale_u32_def)
  next
    case False
    have "(int date - ?d + 4294967296) mod 4294967296 = int date - ?d + 4294967296"
      by (rule mod_pos_pos_trivial) (use False d in linarith)+
    then have m: "(int date - ?d) mod 2 ^ 32 = int date - ?d + 4294967296"
      by (simp only: mod_add_self2) simp
    have "int (start_day_u32 date f) = int date - ?d + 4294967296"
      unfolding start_day_u32_def to_u_def m using False d by linarith
    then show ?thesis
      using False d s unfolding on_sale_u32_def by linarith
  qed
qed

lemma set_nested:
  "info \<in> set (direct_trains_nested date a b reg) \<longleftrightarrow>
    (\<exists>f t. f \<in> set (chain reg) \<and> t \<in> set (chain reg) \<and> leaves_from date a f \<and>
       arrives_later b (int (start_day_u32 date f)) f t \<and>
       info = direct_entry (int (start_day_u32 date f)) f t)"
  unfolding direct_trains_nested_def row_def by force

lemma later_offset:
  "di_leave_time_stamp (direct_entry d f t) < di_arrive_time_stamp (direct_entry d f t) \<longleftrightarrow>
   vis_time_offset (snd f) < vis_time_offset (snd t)"
  by (simp add: direct_entry_def actual_time_def)

lemma direct_entry_train: "di_train_ID_hash (direct_entry d f t) = train_ID_hash (fst f)"
  by (simp add: direct_entry_def)

lemma listed_iff_accepted:
  assumes "register_inv reg" "date < 2147483648"
  shows "info \<in> set (query_direct_trains date a b reg) \<longleftrightarrow>
    request_single_train (di_train_ID_hash info) (int date) a b reg = Some info \<and>
    di_leave_time_stamp info < di_arrive_time_stamp info"
proof -
  note once = register_stops_once [OF assms(1)]
  have packed: "packed f" if "f \<in> set (chain reg)" for f
    using assms(1) that by (simp add: register_inv_def)
  have step: "(leaves_from date a f \<and> arrives_later b (int (start_day_u32 date f)) f t \<and>
       info = direct_entry (int (start_day_u32 date f)) f t) \<longleftrightarrow>
    (same_stop (fst f) (probe a (di_train_ID_hash info) 1) \<and>
       same_stop (fst t) (probe b (di_train_ID_hash info) 0) \<and>
       vis_time_offset (snd f) \<le> vis_time_offset (snd t) \<and>
       true_sale_beg (snd f) \<le> int date - int (actual_time f div 1440) \<and>
       int date - int (actual_time f div 1440) \<le> true_sale_end (snd f) \<and>
       info = direct_entry (int date - int (actual_time f div 1440)) f t) \<and>
     di_leave_time_stamp info < di_arrive_time_stamp info"
    if f: "f \<in> set (chain reg)" for f t
  proof -
    let ?D = "int date - int (actual_time f div 1440)"
    have sale: "on_sale_u32 date f \<longleftrightarrow> true_sale_beg (snd f) \<le> ?D \<and> ?D \<le> true_sale_end (snd f)"
      and day: "on_sale_u32 date f \<Longrightarrow> int (start_day_u32 date f) = ?D"
      using on_sale_signed [OF packed [OF f] assms(2), of "int (start_day_u32 date f)"]
        on_sale_signed [OF packed [OF f] assms(2), of ?D] by blast+
    show ?thesis
    proof (cases "on_sale_u32 date f \<and> info = direct_entry ?D f t")
      case True
      then have train: "di_train_ID_hash info = train_ID_hash (fst f)" by (simp add: direct_entry_train)
      have later: "di_leave_time_stamp info < di_arrive_time_stamp info \<longleftrightarrow>
          vis_time_offset (snd f) < vis_time_offset (snd t)"
        using True later_offset by simp
      have info: "direct_entry ?D f t = info" "int (start_day_u32 date f) = ?D" using True day by simp_all
      show ?thesis
        unfolding leaves_from_def arrives_later_def same_stop_def probe_def train info(2)
        using True sale later by (simp add: info(1)) auto
    next
      case False
      then show ?thesis using sale day by (auto simp: leaves_from_def)
    qed
  qed
  define L where "L f t \<longleftrightarrow> leaves_from date a f \<and> arrives_later b (int (start_day_u32 date f)) f t \<and>
      info = direct_entry (int (start_day_u32 date f)) f t" for f t
  define R where "R f t \<longleftrightarrow> same_stop (fst f) (probe a (di_train_ID_hash info) 1) \<and>
       same_stop (fst t) (probe b (di_train_ID_hash info) 0) \<and>
       vis_time_offset (snd f) \<le> vis_time_offset (snd t) \<and>
       true_sale_beg (snd f) \<le> int date - int (actual_time f div 1440) \<and>
       int date - int (actual_time f div 1440) \<le> true_sale_end (snd f) \<and>
       info = direct_entry (int date - int (actual_time f div 1440)) f t" for f t
  have LR: "L f t \<longleftrightarrow> R f t \<and> di_leave_time_stamp info < di_arrive_time_stamp info"
    if "f \<in> set (chain reg)" for f t
    unfolding L_def R_def by (rule step [OF that])
  show ?thesis
    unfolding query_direct_nested [OF once] set_nested request_single_train_Some [OF once]
      L_def [symmetric] R_def [symmetric]
    using LR by blast
qed

lemma leaving_trains_eq:
  assumes "sorted_wrt coarse_less fs" "\<forall>f \<in> set fs. a \<le> station_ID_hash (fst f)"
  shows "leaving_trains date a fs = map (\<lambda>f. train_ID_hash (fst f)) (filter (leaves_from date a) fs)"
  using assms
proof (induction fs)
  case (Cons f fs)
  have "station_ID_hash (fst f) \<noteq> a \<Longrightarrow> g \<in> set fs \<Longrightarrow> station_ID_hash (fst g) \<noteq> a" for g
    using Cons.prems coarse_order(1) [of f g] by fastforce
  then have none: "station_ID_hash (fst f) \<noteq> a \<Longrightarrow> filter (leaves_from date a) (f # fs) = []"
    by (auto simp: filter_empty_conv leaves_from_def)
  show ?case
  proof (cases "station_ID_hash (fst f) = a")
    case True
    with Cons show ?thesis by (simp add: leaves_from_def)
  next
    case False
    with none show ?thesis by simp
  qed
qed simp

lemma arriving_trains_eq:
  assumes "sorted_wrt coarse_less ts" "\<forall>t \<in> set ts. b \<le> station_ID_hash (fst t)"
  shows "arriving_trains b ts = map (\<lambda>t. train_ID_hash (fst t))
    (filter (\<lambda>t. station_ID_hash (fst t) = b \<and> stop_type (fst t) = 0) ts)"
  using assms
proof (induction ts)
  case (Cons t ts)
  have "station_ID_hash (fst t) \<noteq> b \<Longrightarrow> u \<in> set ts \<Longrightarrow> station_ID_hash (fst u) \<noteq> b" for u
    using Cons.prems coarse_order(1) [of t u] by fastforce
  then have "station_ID_hash (fst t) \<noteq> b \<Longrightarrow>
      filter (\<lambda>t. station_ID_hash (fst t) = b \<and> stop_type (fst t) = 0) ts = []"
    by (simp add: filter_empty_conv)
  then show ?case using Cons by simp
qed simp

lemma fetch_trains_eq:
  assumes "stops_once reg"
  shows "fetch_train_leaving_from date a reg =
      map (\<lambda>f. train_ID_hash (fst f)) (filter (leaves_from date a) (chain reg))"
    and "fetch_train_arriaving_at date b reg = map (\<lambda>t. train_ID_hash (fst t))
      (filter (\<lambda>t. station_ID_hash (fst t) = b \<and> stop_type (fst t) = 0) (chain reg))"
proof -
  have e: "entries_from (probe s 0 0) reg = filter (\<lambda>e. s \<le> station_ID_hash (fst e)) (chain reg)" for s
    by (simp add: entries_from_filter [OF assms] before_station not_less)
  have s: "sorted_wrt coarse_less (filter P (chain reg))" for P
    using assms by (simp add: stops_once_def sorted_wrt_filter)
  show "fetch_train_leaving_from date a reg =
      map (\<lambda>f. train_ID_hash (fst f)) (filter (leaves_from date a) (chain reg))"
    unfolding fetch_train_leaving_from_def e
    by (subst leaving_trains_eq) (auto simp: s leaves_from_def intro!: arg_cong [where f = "map _"] filter_cong)
  show "fetch_train_arriaving_at date b reg = map (\<lambda>t. train_ID_hash (fst t))
      (filter (\<lambda>t. station_ID_hash (fst t) = b \<and> stop_type (fst t) = 0) (chain reg))"
    unfolding fetch_train_arriaving_at_def e
    by (subst arriving_trains_eq) (auto simp: s intro!: arg_cong [where f = "map _"] filter_cong)
qed

section \<open>Properties\<close>

text \<open>C18: the two forward-only iterators of \<^verbatim>\<open>QueryDirectTrains\<close> find exactly the trains, in
  the same order, that the nested loop over all pairs of register entries finds, provided no train
  is registered twice at a station.\<close>

theorem query_direct_trains_is_nested_loop:
  assumes "stops_once reg"
  shows "query_direct_trains date a b reg = direct_trains_nested date a b reg"
  using assms by (rule query_direct_nested)

definition register_example :: register where
  "register_example =
     add_stop_info 7 3 152 154 600 90 65535 2
      (add_stop_info 5 3 152 154 600 30 40 1
        (add_stop_info 9 3 152 154 600 65535 0 0
          (add_stop_info 7 1 152 152 480 65535 0 0
            (add_stop_info 5 1 152 152 480 20 65535 1 idx_new))))"

lemmas register_eval = stops_once_def coarse_less_def add_stop_info_def idx_put_def idx_lower_def
  lower_pos_def stop_less_def idx_new_def pack_record_def no_offset_def june_1st_2024_def to_u_def Let_def
  query_direct_trains_def entries_from_def probe_def on_sale_u32_def start_day_u32_def actual_time_def
  true_sale_beg_def true_sale_end_def direct_entry_def register_inv_def idx_inv_def packed_def
  same_stop_def one_start_def register_example_def

theorem query_direct_trains_is_nested_loop_witness:
  "stops_once register_example \<and>
   query_direct_trains 153 9 7 register_example = direct_trains_nested 153 9 7 register_example \<and>
   length (query_direct_trains 153 9 7 register_example) = 1"
proof -
  have "stops_once register_example" by (simp add: register_eval)
  moreover have "length (query_direct_trains 153 9 7 register_example) = 1" by (simp add: register_eval)
  ultimately show ?thesis by (simp add: query_direct_trains_is_nested_loop)
qed

text \<open>C19: \<^verbatim>\<open>QueryDirectTrains\<close> (what \<^verbatim>\<open>query_ticket\<close> lists) and \<^verbatim>\<open>RequestSingleTrain\<close>
  (what \<^verbatim>\<open>buy_ticket\<close> sells) agree: an entry is listed for a date and two stations exactly
  when the single request for its train succeeds with that same entry and the train arrives later
  than it leaves.\<close>

theorem buy_request_agrees_with_query:
  assumes "register_inv reg" "date < 2147483648"
  shows "info \<in> set (query_direct_trains date a b reg) \<longleftrightarrow>
    request_single_train (di_train_ID_hash info) (int date) a b reg = Some info \<and>
    di_leave_time_stamp info < di_arrive_time_stamp info"
  using assms by (rule listed_iff_accepted)

lemma register_example_inv: "register_inv register_example"
  by (simp add: register_eval)

theorem buy_request_agrees_with_query_witness:
  "\<exists>info. request_single_train 3 153 9 7 register_example = Some info \<and>
     info \<in> set (query_direct_trains 153 9 7 register_example)"
proof -
  let ?info = "hd (query_direct_trains 153 9 7 register_example)"
  have "query_direct_trains 153 9 7 register_example \<noteq> []" by (simp add: register_eval)
  then have "?info \<in> set (query_direct_trains 153 9 7 register_example)" by simp
  moreover have "di_train_ID_hash ?info = 3" by (simp add: register_eval)
  moreover have "(153 :: nat) < 2147483648" by simp
  ultimately show ?thesis
    using buy_request_agrees_with_query [OF register_example_inv, of 153 ?info 9 7] by auto
qed

text \<open>\<^verbatim>\<open>AddStopInfo\<close> keeps the register sorted, its fields within their bit fields and
  one start time per train and station, as long as the train has no entries with another start
  time; so the stops of a train can be added one after the other.\<close>

theorem add_stop_info_keeps_register:
  assumes "register_inv reg" "one_start train start reg"
  shows "register_inv (add_stop_info station train b e start ao lo stop reg) \<and>
    one_start train start (add_stop_info station train b e start ao lo stop reg)"
  using assms by (rule add_stop_keeps)

theorem add_stop_info_keeps_register_witness:
  "register_inv (add_stop_info 9 3 152 154 600 65535 0 0 idx_new) \<and>
   one_start 3 600 (add_stop_info 9 3 152 154 600 65535 0 0 idx_new)"
proof (rule add_stop_info_keeps_register)
  show "register_inv idx_new" "one_start 3 600 idx_new" by (simp_all add: register_eval)
qed

end
