(* ===== verification/Transactions.thy ===== *)
theory Transactions
  imports Disk_Map Text_Input Utils
begin

text \<open>
  \<^verbatim>\<open>src/include/transaction_mainenance.hpp\<close>: \<^verbatim>\<open>TransactionManager\<close>, the orders with two
  indexes over them. The queue index holds, for a train and a running day, a counter under id 0
  and the waiting orders under the ids 1, 2, ...; the history index holds, for a user, a counter
  under the id \<^verbatim>\<open>-1\<close> and the orders under the ids 1, 2, ..., largest id first. The lemmas show
  that the history of a user is a stack (\<^verbatim>\<open>AddOrder\<close> pushes, \<^verbatim>\<open>FetchFullUserOrderHistory\<close>
  lists it, \<^verbatim>\<open>FetchSingleUserOrderHistory\<close> picks from the top) and that a queue to which
  orders were only added is read back first in, first out.
\<close>

section \<open>Data\<close>

record txn_data =
  tx_trainID :: string
  tx_from_station_name :: string
  tx_to_station_name :: string
  tx_status :: nat
  tx_leave_time_stamp :: nat
  tx_arrive_time_stamp :: nat
  tx_num :: nat
  tx_total_price :: nat
  tx_running_date_offset :: nat
  tx_from_stop_id :: nat
  tx_to_stop_id :: nat

datatype queue_index = Queue_index (qi_train: hash_t) (qi_offset: nat) (qi_id: nat)

datatype order_index = Order_index (oi_user: hash_t) (oi_id: nat)

instantiation queue_index :: linorder
begin

definition less_queue_index :: "queue_index \<Rightarrow> queue_index \<Rightarrow> bool" where
  "less_queue_index a b =
     (if qi_train a \<noteq> qi_train b then qi_train a < qi_train b
      else if qi_offset a \<noteq> qi_offset b then qi_offset a < qi_offset b
      else qi_id a < qi_id b)"

definition less_eq_queue_index :: "queue_index \<Rightarrow> queue_index \<Rightarrow> bool" where
  "less_eq_queue_index a b \<longleftrightarrow> a < b \<or> a = b"

instance
proof
  fix x y z :: queue_index
  show "x < y \<longleftrightarrow> x \<le> y \<and> \<not> y \<le> x" "x \<le> x"
    by (auto simp: less_queue_index_def less_eq_queue_index_def split: if_splits)
  show "x \<le> y \<Longrightarrow> y \<le> z \<Longrightarrow> x \<le> z" "x \<le> y \<Longrightarrow> y \<le> x \<Longrightarrow> x = y"
    by (auto simp: less_queue_index_def less_eq_queue_index_def split: if_splits)
  show "x \<le> y \<or> y \<le> x"
    by (cases x; cases y) (auto simp: less_queue_index_def less_eq_queue_index_def)
qed

end

text \<open>The history index sorts the ids of a user downwards.\<close>

instantiation order_index :: linorder
begin

definition less_order_index :: "order_index \<Rightarrow> order_index \<Rightarrow> bool" where
  "less_order_index a b =
     (if oi_user a \<noteq> oi_user b then oi_user a < oi_user b else oi_id b < oi_id a)"

definition less_eq_order_index :: "order_index \<Rightarrow> order_index \<Rightarrow> bool" where
  "less_eq_order_index a b \<longleftrightarrow> a < b \<or> a = b"

instance
proof
  fix x y z :: order_index
  show "x < y \<longleftrightarrow> x \<le> y \<and> \<not> y \<le> x" "x \<le> x"
    by (auto simp: less_order_index_def less_eq_order_index_def split: if_splits)
  show "x \<le> y \<Longrightarrow> y \<le> z \<Longrightarrow> x \<le> z" "x \<le> y \<Longrightarrow> y \<le> x \<Longrightarrow> x = y"
    by (auto simp: less_order_index_def less_eq_order_index_def split: if_splits)
  show "x \<le> y \<or> y \<le> x"
    by (cases x; cases y) (auto simp: less_order_index_def less_eq_order_index_def)
qed

end

definition queue_special_id :: nat where
  "queue_special_id = 0"

definition order_special_id :: nat where
  "order_special_id = 4294967295"

record txn_manager =
  txn_storage :: "txn_data storage"
  queue_indexer :: "(queue_index, nat) index"
  order_indexer :: "(order_index, nat) index"

text \<open>The cells of page 0 of a new file, which no \<^verbatim>\<open>write\<close> hands out, read as zero bytes.\<close>

definition zero_txn :: txn_data where
  "zero_txn = \<lparr>tx_trainID = [], tx_from_station_name = [], tx_to_station_name = [], tx_status = 0,
     tx_leave_time_stamp = 0, tx_arrive_time_stamp = 0, tx_num = 0, tx_total_price = 0,
     tx_running_date_offset = 0, tx_from_stop_id = 0, tx_to_stop_id = 0\<rparr>"

definition txns_per_page :: nat where
  "txns_per_page = 28"

definition tm_new :: txn_manager where
  "tm_new = \<lparr>txn_storage = svs_new txns_per_page (\<lambda>i. if i < txns_per_page then Some zero_txn else None),
     queue_indexer = idx_new, order_indexer = idx_new\<rparr>"

section \<open>Operations\<close>

primrec prepare_days :: "hash_t \<Rightarrow> nat \<Rightarrow> (queue_index, nat) index \<Rightarrow> (queue_index, nat) index" where
  "prepare_days train 0 ix = ix"
| "prepare_days train (Suc i) ix =
     idx_put (<) (Queue_index train (to_u 8 (int i)) queue_special_id) 0 (prepare_days train i ix)"

definition prepare_train_info :: "hash_t \<Rightarrow> nat \<Rightarrow> txn_manager \<Rightarrow> txn_manager" where
  "prepare_train_info train total_days tm =
     tm\<lparr>queue_indexer := prepare_days train total_days (queue_indexer tm)\<rparr>"

definition prepare_user_info :: "hash_t \<Rightarrow> txn_manager \<Rightarrow> txn_manager" where
  "prepare_user_info user tm =
     tm\<lparr>order_indexer := idx_put (<) (Order_index user order_special_id) 0 (order_indexer tm)\<rparr>"

text \<open>\<^verbatim>\<open>GetValue\<close> of the iterator at \<^verbatim>\<open>lower_bound(k)\<close>; at \<^verbatim>\<open>end()\<close> there is none.\<close>

definition value_at :: "('k::linorder) \<Rightarrow> ('k, nat) index \<Rightarrow> nat result" where
  "value_at k ix = of_option Undefined (map_option snd (idx_entry (idx_lower (<) k ix) ix))"

text \<open>The counter is raised in place and the order stored under its new value.\<close>

definition count_and_put :: "('k::linorder) \<Rightarrow> (nat \<Rightarrow> 'k) \<Rightarrow> nat \<Rightarrow> ('k, nat) index \<Rightarrow> ('k, nat) index result" where
  "count_and_put special key data_id ix =
     rbind (value_at special ix)
       (\<lambda>v. let new_id = to_u 32 (int v + 1);
                ix1 = idx_set_value (idx_lower (<) special ix) new_id ix
            in Inr (idx_put (<) (key new_id) data_id ix1))"

definition make_txn :: "string \<Rightarrow> string \<Rightarrow> string \<Rightarrow> nat \<Rightarrow> nat \<Rightarrow> nat \<Rightarrow> nat \<Rightarrow> nat \<Rightarrow> nat \<Rightarrow> nat \<Rightarrow> nat
    \<Rightarrow> txn_data result" where
  "make_txn trainID from_name to_name status leave arrive num price offset from_stop to_stop =
     rbind (strcpy 21 trainID) (\<lambda>tr. rbind (strcpy 41 from_name) (\<lambda>fr. rbind (strcpy 41 to_name) (\<lambda>t.
       Inr \<lparr>tx_trainID = tr, tx_from_station_name = fr, tx_to_station_name = t, tx_status = status,
         tx_leave_time_stamp = leave, tx_arrive_time_stamp = arrive, tx_num = num,
         tx_total_price = price, tx_running_date_offset = offset, tx_from_stop_id = from_stop,
         tx_to_stop_id = to_stop\<rparr>)))"

definition add_order :: "string \<Rightarrow> string \<Rightarrow> string \<Rightarrow> nat \<Rightarrow> nat \<Rightarrow> nat \<Rightarrow> nat \<Rightarrow> nat \<Rightarrow> nat \<Rightarrow> string
    \<Rightarrow> nat \<Rightarrow> nat \<Rightarrow> txn_manager \<Rightarrow> txn_manager result" where
  "add_order trainID from_name to_name status leave arrive num price offset username from_stop to_stop tm =
     rbind (make_txn trainID from_name to_name status leave arrive num price offset from_stop to_stop)
       (\<lambda>tmp. rbind (svs_write tmp (txn_storage tm)) (\<lambda>(data_id, st).
          let train = split_mix64_hash trainID; user = split_mix64_hash username
          in rbind (if status = 0
                    then count_and_put (Queue_index train offset queue_special_id)
                           (Queue_index train offset) data_id (queue_indexer tm)
                    else Inr (queue_indexer tm))
               (\<lambda>qi. rbind (count_and_put (Order_index user order_special_id) (Order_index user) data_id
                              (order_indexer tm))
                  (\<lambda>oi. Inr (tm\<lparr>txn_storage := st, queue_indexer := qi, order_indexer := oi\<rparr>)))))"

text \<open>The loop of \<^verbatim>\<open>FetchQueue\<close> over the entries after the counter; the slots it does not reach
  keep the value-initialised pair.\<close>

fun fill_queue :: "nat \<Rightarrow> hash_t \<Rightarrow> nat \<Rightarrow> (queue_index \<times> nat) list \<Rightarrow> (nat \<times> nat) list" where
  "fill_queue 0 train offset es = []"
| "fill_queue (Suc n) train offset [] = replicate (Suc n) (0, 0)"
| "fill_queue (Suc n) train offset ((k, v) # es) =
     (if qi_train k \<noteq> train \<or> qi_offset k \<noteq> offset then replicate (Suc n) (0, 0)
      else (v, qi_id k) # fill_queue n train offset es)"

text \<open>The iterator of \<^verbatim>\<open>lower_bound_const(k)\<close>: the entries from there on.\<close>

definition entries_at :: "('k::linorder) \<Rightarrow> ('k, nat) index \<Rightarrow> ('k \<times> nat) list" where
  "entries_at k ix = drop (idx_lower (<) k ix) (chain ix)"

text \<open>A counter that does not fit an \<^verbatim>\<open>int\<close> makes \<^verbatim>\<open>resize\<close> fail.\<close>

definition fetch_queue :: "hash_t \<Rightarrow> nat \<Rightarrow> txn_manager \<Rightarrow> (nat \<times> nat) list result" where
  "fetch_queue train offset tm =
     (case entries_at (Queue_index train offset queue_special_id) (queue_indexer tm) of
        [] \<Rightarrow> Inl Undefined
      | (k, total_num) # es \<Rightarrow>
          if 2147483648 \<le> total_num then Inl Undefined
          else Inr (fill_queue total_num train offset es))"

definition remove_order_from_queue :: "hash_t \<Rightarrow> nat \<Rightarrow> nat \<Rightarrow> txn_manager \<Rightarrow> txn_manager" where
  "remove_order_from_queue train offset i tm =
     tm\<lparr>queue_indexer := idx_remove (<) (Queue_index train offset i) (queue_indexer tm)\<rparr>"

text \<open>\<^verbatim>\<open>FetchFullUserOrderHistory\<close> does not look for the end of the index.\<close>

definition fetch_full_user_order_history :: "hash_t \<Rightarrow> txn_manager \<Rightarrow> nat list result" where
  "fetch_full_user_order_history user tm =
     (case entries_at (Order_index user order_special_id) (order_indexer tm) of
        [] \<Rightarrow> Inl Undefined
      | (k, total_num) # es \<Rightarrow>
          if 2147483648 \<le> total_num \<or> length es < total_num then Inl Undefined
          else Inr (map snd (take total_num es)))"

text \<open>\<^verbatim>\<open>None\<close> is \<^verbatim>\<open>success = false\<close>.\<close>

definition fetch_single_user_order_history :: "hash_t \<Rightarrow> int \<Rightarrow> txn_manager \<Rightarrow> nat option result" where
  "fetch_single_user_order_history user n tm =
     rbind (value_at (Order_index user order_special_id) (order_indexer tm))
       (\<lambda>v. let total_num = i32 (int v)
            in if n > total_num then Inr None
               else rbind (value_at (Order_index user (to_u 32 (total_num - n + 1))) (order_indexer tm))
                      (\<lambda>d. Inr (Some d)))"

definition fetch_transaction_data :: "nat \<Rightarrow> txn_manager \<Rightarrow> txn_data result" where
  "fetch_transaction_data i tm = svs_read i (txn_storage tm)"

definition update_transaction_data :: "nat \<Rightarrow> txn_data \<Rightarrow> txn_manager \<Rightarrow> txn_manager" where
  "update_transaction_data i d tm = tm\<lparr>txn_storage := svs_update d i (txn_storage tm)\<rparr>"

section \<open>Counted runs\<close>

text \<open>
  The shape both indexes share: under \<open>special\<close> the number of entries ever added, under
  \<open>key 1\<close>, \<open>key 2\<close>, ... the data ids in the order they were added, and no other key of the same
  owner (\<open>mine\<close>). \<open>counted\<close> is the abstraction relation to the list of data ids.
\<close>

definition counted :: "('k::linorder) \<Rightarrow> (nat \<Rightarrow> 'k) \<Rightarrow> ('k \<Rightarrow> bool) \<Rightarrow> nat list \<Rightarrow> ('k, nat) index \<Rightarrow> bool" where
  "counted special key mine ds ix \<longleftrightarrow>
     idx_inv (<) ix \<and> length ds < 2147483648 \<and> idx_get (<) special ix = Some (length ds) \<and>
     (\<forall>i < length ds. idx_get (<) (key (Suc i)) ix = Some (ds ! i)) \<and>
     (\<forall>k v. idx_get (<) k ix = Some v \<longrightarrow> mine k \<longrightarrow> k = special \<or> (\<exists>i < length ds. k = key (Suc i)))"

lemma value_at_present: "idx_get (<) k ix = Some v \<Longrightarrow> value_at k ix = Inr v"
  by (simp add: value_at_def idx_get_entry)

locale counted_run =
  fixes special :: "'k::linorder" and key :: "nat \<Rightarrow> 'k" and mine :: "'k \<Rightarrow> bool"
  assumes mine_special: "mine special"
    and mine_key: "mine (key i)"
    and key_inj: "key i = key j \<longleftrightarrow> i = j"
    and special_first: "0 < i \<Longrightarrow> i < 2147483648 \<Longrightarrow> special < key i"
    and convex: "mine a \<Longrightarrow> mine b \<Longrightarrow> a \<le> c \<Longrightarrow> c \<le> b \<Longrightarrow> mine c"
begin

lemma start:
  assumes "idx_inv (<) ix" "\<And>k. mine k \<Longrightarrow> idx_get (<) k ix = None"
  shows "counted special key mine [] (idx_put (<) special 0 ix)"
  using assms mine_special by (auto simp: counted_def total_index_simps)

lemma value_special: "counted special key mine ds ix \<Longrightarrow> value_at special ix = Inr (length ds)"
  by (simp add: counted_def value_at_present)

lemma push:
  assumes "counted special key mine ds ix" "length ds + 1 < 2147483648"
  shows "\<exists>ix'. count_and_put special key d ix = Inr ix' \<and> counted special key mine (ds @ [d]) ix' \<and>
    (\<forall>k. \<not> mine k \<longrightarrow> idx_get (<) k ix' = idx_get (<) k ix)"
proof -
  let ?n = "Suc (length ds)"
  let ?ix1 = "idx_put (<) special ?n ix"
  let ?ix' = "idx_put (<) (key ?n) d ?ix1"
  have inv: "idx_inv (<) ix" and sp: "idx_get (<) special ix = Some (length ds)"
    using assms(1) by (simp_all add: counted_def)
  have n: "to_u 32 (int (length ds) + 1) = ?n"
    using assms(2) by (simp add: to_u_id)
  have "count_and_put special key d ix = Inr ?ix'"
    by (simp add: count_and_put_def value_special [OF assms(1)] Let_def n idx_get_entry(2) [OF sp])
  moreover have "counted special key mine (ds @ [d]) ?ix'"
  proof -
    have ne: "special \<noteq> key (Suc i)" if "i \<le> length ds" for i
      using special_first [of "Suc i"] that assms(2) by auto
    have ne': "key (Suc i) \<noteq> special" if "i \<le> length ds" for i using ne [OF that] by simp
    have closed: "k = special \<or> (\<exists>i < length ds. k = key (Suc i))"
      if "idx_get (<) k ix = Some v" "mine k" for k v
      using assms(1) that by (simp add: counted_def)
    show ?thesis
      unfolding counted_def
    proof (intro conjI allI impI)
      show "idx_inv (<) ?ix'" "idx_get (<) special ?ix' = Some (length (ds @ [d]))"
        using inv ne [of "length ds"] by (simp_all add: total_index_simps)
      show "idx_get (<) (key (Suc i)) ?ix' = Some ((ds @ [d]) ! i)" if "i < length (ds @ [d])" for i
        using that assms(1) inv ne' [of i]
        by (cases "i = length ds") (simp_all add: total_index_simps key_inj nth_append counted_def)
      show "k = special \<or> (\<exists>i < length (ds @ [d]). k = key (Suc i))"
        if "idx_get (<) k ?ix' = Some v" "mine k" for k v
        using that closed [of k v] inv by (auto simp: total_index_simps less_Suc_eq split: if_splits)
    qed (use assms(2) in simp)
  qed
  moreover have "idx_get (<) k ?ix' = idx_get (<) k ix" if "\<not> mine k" for k
    using that mine_special mine_key [of ?n] inv by (auto simp: total_index_simps)
  ultimately show ?thesis by blast
qed

text \<open>The entries an iterator from the special key reads, when \<open>is\<close> are the ids still present.\<close>

lemma entries:
  assumes inv: "idx_inv (<) ix" and sp: "idx_get (<) special ix = Some n"
    and sorted: "sorted_wrt (<) (special # map key is)"
    and present: "\<And>i. i \<in> set is \<Longrightarrow> idx_get (<) (key i) ix = Some (f i)"
    and closed: "\<And>k v. idx_get (<) k ix = Some v \<Longrightarrow> mine k \<Longrightarrow> k = special \<or> k \<in> key ` set is"
  shows "\<exists>es. entries_at special ix = (special, n) # map (\<lambda>i. (key i, f i)) is @ es \<and>
    (\<forall>e \<in> set es. \<not> mine (fst e))"
proof -
  let ?g = "\<lambda>k. the (idx_get (<) k ix)" and ?ks = "special # map key is"
  have "k \<in> set ?ks \<or> (\<forall>k' \<in> set ?ks. k' < k)" if "idx_get (<) k ix = Some v" "special \<le> k" for k v
  proof (cases "mine k")
    case True
    with closed that show ?thesis by auto
  next
    case False
    have "k' < k" if "k' \<in> set ?ks" for k'
    proof (rule ccontr)
      assume "\<not> k' < k"
      moreover have "mine k'" using that mine_special mine_key by auto
      ultimately show False
        using convex [of special k' k] mine_special \<open>special \<le> k\<close> False by (meson not_less)
    qed
    then show ?thesis by blast
  qed
  then have cl: "\<forall>k v. idx_get (<) k ix = Some v \<longrightarrow> special \<le> k \<longrightarrow>
      k \<in> set ?ks \<or> (\<forall>k' \<in> set ?ks. k' < k)" by blast
  have pr: "\<forall>k \<in> set ?ks. idx_get (<) k ix = Some (?g k)" using sp present by auto
  obtain es where es: "entries_at special ix = map (\<lambda>k. (k, ?g k)) ?ks @ es"
    "\<forall>e \<in> set es. \<forall>k \<in> set ?ks. k < fst e"
    using run_of_entries [OF inv sorted pr cl] unfolding entries_at_def by blast
  have "\<not> mine (fst e)" if "e \<in> set es" for e
  proof
    assume m: "mine (fst e)"
    have "e \<in> set (chain ix)" using that es(1) unfolding entries_at_def
      by (metis UnCI in_set_dropD set_append)
    then have "idx_get (<) (fst e) ix = Some (snd e)"
      using total_get_Some [OF inv, of "fst e" "snd e"] by simp
    then have "fst e \<in> set ?ks" using closed m by auto
    then show False using es(2) that by blast
  qed
  moreover have "map (\<lambda>k. (k, ?g k)) ?ks = (special, n) # map (\<lambda>i. (key i, f i)) is"
    using sp present by simp
  ultimately show ?thesis using es(1) by (intro exI [of _ es]) simp
qed

end

lemma less_keys [simp]:
  "Queue_index t o' i < Queue_index t o' j \<longleftrightarrow> i < j"
  "Order_index u i < Order_index u j \<longleftrightarrow> j < i"
  by (simp_all add: less_queue_index_def less_order_index_def)

interpretation queue: counted_run "Queue_index t d queue_special_id" "Queue_index t d"
  "\<lambda>k. qi_train k = t \<and> qi_offset k = d" for t d
  by unfold_locales
    (auto simp: queue_special_id_def less_queue_index_def less_eq_queue_index_def split: if_splits)

interpretation history: counted_run "Order_index u order_special_id" "Order_index u"
  "\<lambda>k. oi_user k = u" for u
  by unfold_locales
    (auto simp: order_special_id_def less_order_index_def less_eq_order_index_def split: if_splits)

section \<open>Queues and histories\<close>

definition queue_of :: "hash_t \<Rightarrow> nat \<Rightarrow> nat list \<Rightarrow> txn_manager \<Rightarrow> bool" where
  "queue_of t d ds tm \<longleftrightarrow> counted (Queue_index t d queue_special_id) (Queue_index t d)
     (\<lambda>k. qi_train k = t \<and> qi_offset k = d) ds (queue_indexer tm)"

definition history_of :: "hash_t \<Rightarrow> nat list \<Rightarrow> txn_manager \<Rightarrow> bool" where
  "history_of u ds tm \<longleftrightarrow> counted (Order_index u order_special_id) (Order_index u)
     (\<lambda>k. oi_user k = u) ds (order_indexer tm)"

lemma fill_queue_run:
  assumes "\<forall>e \<in> set es. \<not> (qi_train (fst e) = t \<and> qi_offset (fst e) = d)" "length is \<le> n"
  shows "fill_queue n t d (map (\<lambda>i. (Queue_index t d i, f i)) is @ es) =
    map (\<lambda>i. (f i, i)) is @ replicate (n - length is) (0, 0)"
  using assms(2)
proof (induction "is" arbitrary: n)
  case Nil
  show ?case
    using assms(1) by (cases n; cases es) auto
next
  case (Cons i "is")
  then obtain m where "n = Suc m" by (cases n) auto
  then show ?case using Cons by simp
qed

lemma fetch_queue_run:
  assumes "idx_inv (<) (queue_indexer tm)"
    and "idx_get (<) (Queue_index t d queue_special_id) (queue_indexer tm) = Some n" "n < 2147483648"
    and "sorted_wrt (<) is" "\<forall>i \<in> set is. 0 < i" "length is \<le> n"
    and "\<And>i. i \<in> set is \<Longrightarrow> idx_get (<) (Queue_index t d i) (queue_indexer tm) = Some (f i)"
    and "\<And>i v. idx_get (<) (Queue_index t d i) (queue_indexer tm) = Some v \<Longrightarrow> i = 0 \<or> i \<in> set is"
  shows "fetch_queue t d tm = Inr (map (\<lambda>i. (f i, i)) is @ replicate (n - length is) (0, 0))"
proof -
  have sorted: "sorted_wrt (<) (Queue_index t d queue_special_id # map (Queue_index t d) is)"
    using assms(4,5) by (auto simp: sorted_wrt_map queue_special_id_def)
  have closed: "k = Queue_index t d queue_special_id \<or> k \<in> Queue_index t d ` set is"
    if "idx_get (<) k (queue_indexer tm) = Some v" "qi_train k = t \<and> qi_offset k = d" for k v
    using that assms(8) by (cases k) (auto simp: queue_special_id_def)
  have "\<exists>es. entries_at (Queue_index t d queue_special_id) (queue_indexer tm) =
      (Queue_index t d queue_special_id, n) # map (\<lambda>i. (Queue_index t d i, f i)) is @ es \<and>
    (\<forall>e \<in> set es. \<not> (qi_train (fst e) = t \<and> qi_offset (fst e) = d))"
    by (rule queue.entries [OF assms(1,2) sorted]) (blast intro: assms(7), rule closed)
  then obtain es where es: "entries_at (Queue_index t d queue_special_id) (queue_indexer tm) =
      (Queue_index t d queue_special_id, n) # map (\<lambda>i. (Queue_index t d i, f i)) is @ es"
    "\<forall>e \<in> set es. \<not> (qi_train (fst e) = t \<and> qi_offset (fst e) = d)"
    by blast
  show ?thesis
    using assms(3,6) by (simp add: fetch_queue_def es(1) fill_queue_run [OF es(2)])
qed

lemma fetch_queue_of:
  assumes "queue_of t d ds tm"
  shows "fetch_queue t d tm = Inr (map (\<lambda>i. (ds ! (i - 1), i)) [1..<Suc (length ds)])"
proof -
  have q: "idx_inv (<) (queue_indexer tm)" "length ds < 2147483648"
    "idx_get (<) (Queue_index t d queue_special_id) (queue_indexer tm) = Some (length ds)"
    "\<And>i. i < length ds \<Longrightarrow> idx_get (<) (Queue_index t d (Suc i)) (queue_indexer tm) = Some (ds ! i)"
    "\<And>i v. idx_get (<) (Queue_index t d i) (queue_indexer tm) = Some v \<Longrightarrow> i = 0 \<or> (\<exists>j < length ds. i = Suc j)"
    using assms by (auto simp: queue_of_def counted_def queue_special_id_def)
  have "idx_get (<) (Queue_index t d i) (queue_indexer tm) = Some (ds ! (i - 1))"
    if "i \<in> set [1..<Suc (length ds)]" for i
  proof -
    have "i = Suc (i - 1)" "i - 1 < length ds" using that by auto
    then show ?thesis using q(4) [of "i - 1"] by metis
  qed
  moreover have "i = 0 \<or> i \<in> set [1..<Suc (length ds)]"
    if "idx_get (<) (Queue_index t d i) (queue_indexer tm) = Some v" for i v
    using q(5) [OF that] by auto
  ultimately show ?thesis
    using fetch_queue_run [OF q(1,3,2), of "[1..<Suc (length ds)]" "\<lambda>i. ds ! (i - 1)"]
    by (simp del: upt_Suc)
qed

lemma fetch_full_of:
  assumes "history_of u ds tm"
  shows "fetch_full_user_order_history u tm = Inr (rev ds)"
proof -
  let ?is = "rev [1..<Suc (length ds)]"
  have h: "idx_inv (<) (order_indexer tm)" "length ds < 2147483648"
    "idx_get (<) (Order_index u order_special_id) (order_indexer tm) = Some (length ds)"
    "\<And>i. i < length ds \<Longrightarrow> idx_get (<) (Order_index u (Suc i)) (order_indexer tm) = Some (ds ! i)"
    using assms by (auto simp: history_of_def counted_def)
  have closed: "k = Order_index u order_special_id \<or> k \<in> Order_index u ` set ?is"
    if "idx_get (<) k (order_indexer tm) = Some v" "oi_user k = u" for k v
  proof -
    have "k = Order_index u order_special_id \<or> (\<exists>i < length ds. k = Order_index u (Suc i))"
      using that assms by (simp add: history_of_def counted_def)
    then show ?thesis by (force simp del: upt_Suc)
  qed
  have present: "idx_get (<) (Order_index u i) (order_indexer tm) = Some (ds ! (i - 1))"
    if "i \<in> set ?is" for i
  proof -
    have "i = Suc (i - 1)" "i - 1 < length ds" using that by auto
    then show ?thesis using h(4) [of "i - 1"] by metis
  qed
  have sorted: "sorted_wrt (<) (Order_index u order_special_id # map (Order_index u) ?is)"
    using h(2) by (auto simp: sorted_wrt_map sorted_wrt_rev order_special_id_def simp del: upt_Suc)
  have "\<exists>es. entries_at (Order_index u order_special_id) (order_indexer tm) =
      (Order_index u order_special_id, length ds) # map (\<lambda>i. (Order_index u i, ds ! (i - 1))) ?is @ es \<and>
    (\<forall>e \<in> set es. \<not> oi_user (fst e) = u)"
    by (rule history.entries [OF h(1,3) sorted]) (blast intro: present, rule closed)
  then obtain es where es: "entries_at (Order_index u order_special_id) (order_indexer tm) =
      (Order_index u order_special_id, length ds) # map (\<lambda>i. (Order_index u i, ds ! (i - 1))) ?is @ es"
    by blast
  have "map (\<lambda>i. ds ! (i - 1)) [1..<Suc (length ds)] = ds"
    by (rule nth_equalityI) (simp_all del: upt_Suc)
  then have "map (\<lambda>i. ds ! (i - 1)) ?is = rev ds" by (simp only: rev_map [symmetric])
  then show ?thesis
    using h(2) by (simp add: fetch_full_user_order_history_def es comp_def del: upt_Suc)
qed

lemma fetch_single_of:
  assumes "history_of u ds tm" "1 \<le> n"
  shows "fetch_single_user_order_history u n tm =
    Inr (if n \<le> int (length ds) then Some (rev ds ! nat (n - 1)) else None)"
proof -
  have l: "length ds < 2147483648" using assms by (simp add: history_of_def counted_def)
  have v: "value_at (Order_index u order_special_id) (order_indexer tm) = Inr (length ds)"
    using assms(1) history.value_special by (simp add: history_of_def)
  have t: "i32 (int (length ds)) = int (length ds)" using l by (simp add: i32_id)
  show ?thesis
  proof (cases "n \<le> int (length ds)")
    case True
    define i where "i = length ds - nat n"
    have i: "i < length ds" "int (length ds) - n + 1 = int (Suc i)"
      using True assms(2) by (auto simp: i_def)
    then have "to_u 32 (int (length ds) - n + 1) = Suc i" 
      using l i(1) by (simp only: i(2)) (simp add: to_u_nat del: of_nat_Suc)
    moreover have "idx_get (<) (Order_index u (Suc i)) (order_indexer tm) = Some (ds ! i)"
      using assms(1) i(1) by (simp add: history_of_def counted_def)
    moreover have "rev ds ! nat (n - 1) = ds ! i"
      using True assms(2) by (simp add: rev_nth i_def nat_diff_distrib)
    ultimately show ?thesis
      using True by (simp add: fetch_single_user_order_history_def v t value_at_present)
  qed (simp add: fetch_single_user_order_history_def v t)
qed

text \<open>What \<^verbatim>\<open>AddOrder\<close> does to the histories, the queues and the orders.\<close>

lemma add_order_effect:
  assumes "svs_inv L (txn_storage tm)" "make_txn tr fr t status lv ar num pr off fs ts = Inr txn"
    and "history_of (split_mix64_hash user) ds tm" "length ds + 1 < 2147483648"
    and "status = 0 \<Longrightarrow> queue_of (split_mix64_hash tr) off qs tm \<and> length qs + 1 < 2147483648"
  shows "\<exists>i tm'. add_order tr fr t status lv ar num pr off user fs ts tm = Inr tm' \<and>
    i \<notin> L \<and> svs_inv (insert i L) (txn_storage tm') \<and>
    fetch_transaction_data i tm' = Inr txn \<and>
    (\<forall>j. j \<noteq> i \<longrightarrow> fetch_transaction_data j tm' = fetch_transaction_data j tm) \<and>
    history_of (split_mix64_hash user) (ds @ [i]) tm' \<and>
    (status = 0 \<longrightarrow> queue_of (split_mix64_hash tr) off (qs @ [i]) tm') \<and>
    (status \<noteq> 0 \<longrightarrow> queue_indexer tm' = queue_indexer tm)"
proof -
  obtain i st where w: "svs_write txn (txn_storage tm) = Inr (i, st)" "i \<notin> L" "svs_inv (insert i L) st"
    "svs_read i st = Inr txn" "\<forall>j. j \<noteq> i \<longrightarrow> svs_read j st = svs_read j (txn_storage tm)"
    using svs.store [OF assms(1), of txn] by blast
  obtain oi where oi: "count_and_put (Order_index (split_mix64_hash user) order_special_id)
      (Order_index (split_mix64_hash user)) i (order_indexer tm) = Inr oi"
    "counted (Order_index (split_mix64_hash user) order_special_id) (Order_index (split_mix64_hash user))
      (\<lambda>k. oi_user k = split_mix64_hash user) (ds @ [i]) oi"
    using history.push assms(3,4) unfolding history_of_def by blast
  show ?thesis
  proof (cases "status = 0")
    case True
    then obtain qi where qi: "count_and_put (Queue_index (split_mix64_hash tr) off queue_special_id)
        (Queue_index (split_mix64_hash tr) off) i (queue_indexer tm) = Inr qi"
      "counted (Queue_index (split_mix64_hash tr) off queue_special_id) (Queue_index (split_mix64_hash tr) off)
        (\<lambda>k. qi_train k = split_mix64_hash tr \<and> qi_offset k = off) (qs @ [i]) qi"
      using queue.push assms(5) unfolding queue_of_def by blast
    show ?thesis
      using True assms(2) w oi qi
      by (intro exI [of _ i] exI [of _ "tm\<lparr>txn_storage := st, queue_indexer := qi, order_indexer := oi\<rparr>"])
        (simp add: add_order_def fetch_transaction_data_def history_of_def queue_of_def)
  next
    case False
    then show ?thesis
      using assms(2) w oi
      by (intro exI [of _ i] exI [of _ "tm\<lparr>txn_storage := st, queue_indexer := queue_indexer tm, order_indexer := oi\<rparr>"])
        (simp add: add_order_def fetch_transaction_data_def history_of_def)
  qed
qed

section \<open>Properties\<close>

text \<open>The order history of a user is a stack. After \<^verbatim>\<open>AddOrder\<close> the full history is the new
  order followed by the old history, the n-th newest order is its n-th entry (none past its end),
  and the new order reads back as it was given, with all other orders unchanged.\<close>

theorem add_order_pushes_history:
  assumes "svs_inv L (txn_storage tm)" "make_txn tr fr t 1 lv ar num pr off fs ts = Inr txn"
    and "history_of (split_mix64_hash user) ds tm" "length ds + 1 < 2147483648"
  shows "\<exists>i tm'. add_order tr fr t 1 lv ar num pr off user fs ts tm = Inr tm' \<and>
    fetch_full_user_order_history (split_mix64_hash user) tm' = Inr (i # rev ds) \<and>
    (\<forall>n \<ge> 1. fetch_single_user_order_history (split_mix64_hash user) n tm' =
       Inr (if n \<le> int (length ds) + 1 then Some ((i # rev ds) ! nat (n - 1)) else None)) \<and>
    fetch_transaction_data i tm' = Inr txn \<and>
    (\<forall>j. j \<noteq> i \<longrightarrow> fetch_transaction_data j tm' = fetch_transaction_data j tm)"
proof -
  obtain i tm' where a: "add_order tr fr t 1 lv ar num pr off user fs ts tm = Inr tm'"
    "fetch_transaction_data i tm' = Inr txn"
    "\<forall>j. j \<noteq> i \<longrightarrow> fetch_transaction_data j tm' = fetch_transaction_data j tm"
    "history_of (split_mix64_hash user) (ds @ [i]) tm'"
    using add_order_effect [OF assms] by auto
  then show ?thesis
    using fetch_full_of [OF a(4)] fetch_single_of [OF a(4)] by (intro exI [of _ i] exI [of _ tm']) simp
qed

definition tm_example :: txn_manager where
  "tm_example = prepare_train_info (split_mix64_hash ''G1'') 2 (prepare_user_info (split_mix64_hash ''ann'') tm_new)"

lemma tm_example_ok:
  "svs_inv {} (txn_storage tm_example)" "history_of (split_mix64_hash ''ann'') [] tm_example"
  "queue_of (split_mix64_hash ''G1'') 1 [] tm_example"
proof -
  show "svs_inv {} (txn_storage tm_example)"
    by (simp add: tm_example_def prepare_train_info_def prepare_user_info_def tm_new_def svs_inv_new txns_per_page_def)
  show "history_of (split_mix64_hash ''ann'') [] tm_example"
    unfolding history_of_def tm_example_def prepare_train_info_def prepare_user_info_def
    by (simp add: tm_new_def history.start total.ix.new)
  show "queue_of (split_mix64_hash ''G1'') 1 [] tm_example"
    unfolding queue_of_def counted_def tm_example_def prepare_train_info_def prepare_user_info_def
    by (auto simp: tm_new_def total_index_simps total.ix.new numeral_2_eq_2 to_u_def split: if_splits)
qed

theorem add_order_pushes_history_witness:
  "\<exists>i tm'. add_order ''G1'' ''A'' ''B'' 1 5 9 2 20 0 ''ann'' 0 1 tm_example = Inr tm' \<and>
    fetch_full_user_order_history (split_mix64_hash ''ann'') tm' = Inr [i]"
proof -
  obtain txn where "make_txn ''G1'' ''A'' ''B'' 1 5 9 2 20 0 0 1 = Inr txn"
    by (simp add: make_txn_def strcpy_def c_str_def)
  from add_order_pushes_history [OF tm_example_ok(1) this tm_example_ok(2)] show ?thesis by auto
qed

text \<open>C17: orders that were only added to a queue are read back by \<^verbatim>\<open>FetchQueue\<close> in the order
  they came, with the ids 1, 2, ...\<close>

theorem queue_is_first_in_first_out:
  assumes "svs_inv L (txn_storage tm)" "make_txn tr fr t 0 lv ar num pr off fs ts = Inr txn"
    and "history_of (split_mix64_hash user) ds tm" "length ds + 1 < 2147483648"
    and "queue_of (split_mix64_hash tr) off qs tm" "length qs + 1 < 2147483648"
  shows "\<exists>i tm' old. add_order tr fr t 0 lv ar num pr off user fs ts tm = Inr tm' \<and>
    fetch_transaction_data i tm' = Inr txn \<and>
    fetch_queue (split_mix64_hash tr) off tm = Inr old \<and>
    fetch_queue (split_mix64_hash tr) off tm' = Inr (old @ [(i, Suc (length old))])"
proof -
  obtain i tm' where a: "add_order tr fr t 0 lv ar num pr off user fs ts tm = Inr tm'"
    "fetch_transaction_data i tm' = Inr txn" "queue_of (split_mix64_hash tr) off (qs @ [i]) tm'"
    using add_order_effect [OF assms(1-4)] assms(5,6) by blast
  let ?old = "map (\<lambda>k. (qs ! (k - 1), k)) [1..<Suc (length qs)]"
  have "map (\<lambda>k. ((qs @ [i]) ! (k - 1), k)) [1..<Suc (length (qs @ [i]))] = ?old @ [(i, Suc (length ?old))]"
  proof -
    have "[1..<Suc (length (qs @ [i]))] = [1..<Suc (length qs)] @ [Suc (length qs)]" by simp
    then show ?thesis by (auto simp: nth_append simp del: upt_Suc)
  qed
  then show ?thesis
    using a fetch_queue_of [OF a(3)] fetch_queue_of [OF assms(5)]
    by (intro exI [of _ i] exI [of _ tm'] exI [of _ ?old]) simp
qed

theorem queue_is_first_in_first_out_witness:
  "\<exists>i tm' old. add_order ''G1'' ''A'' ''B'' 0 5 9 2 20 1 ''ann'' 0 1 tm_example = Inr tm' \<and>
    fetch_queue (split_mix64_hash ''G1'') 1 tm_example = Inr old \<and>
    fetch_queue (split_mix64_hash ''G1'') 1 tm' = Inr (old @ [(i, Suc (length old))])"
proof -
  obtain txn where "make_txn ''G1'' ''A'' ''B'' 0 5 9 2 20 1 0 1 = Inr txn"
    by (simp add: make_txn_def strcpy_def c_str_def)
  from queue_is_first_in_first_out [OF tm_example_ok(1) this tm_example_ok(2) _ tm_example_ok(3)]
  show ?thesis by auto
qed

text \<open>\<^verbatim>\<open>RemoveOrderFromQueue\<close> does not lower the counter, so \<^verbatim>\<open>FetchQueue\<close> of a
  queue from which an order was removed ends with the pair (0, 0): data id 0, which no order has,
  and id 0, the key of the counter itself.\<close>

theorem removed_order_leaves_null_entry:
  assumes "queue_of t d ds tm" "1 \<le> j" "j \<le> length ds"
  shows "fetch_queue t d (remove_order_from_queue t d j tm) =
    Inr (map (\<lambda>i. (ds ! (i - 1), i)) (filter (\<lambda>i. i \<noteq> j) [1..<Suc (length ds)]) @ [(0, 0)])"
proof -
  let ?is = "filter (\<lambda>i. i \<noteq> j) [1..<Suc (length ds)]"
  let ?q = "idx_remove (<) (Queue_index t d j) (queue_indexer tm)"
  have q: "idx_inv (<) (queue_indexer tm)" "length ds < 2147483648"
    "idx_get (<) (Queue_index t d queue_special_id) (queue_indexer tm) = Some (length ds)"
    "\<And>i. i < length ds \<Longrightarrow> idx_get (<) (Queue_index t d (Suc i)) (queue_indexer tm) = Some (ds ! i)"
    "\<And>i v. idx_get (<) (Queue_index t d i) (queue_indexer tm) = Some v \<Longrightarrow> i = 0 \<or> (\<exists>j < length ds. i = Suc j)"
    using assms(1) by (auto simp: queue_of_def counted_def queue_special_id_def)
  have "set ?is = {1..<Suc (length ds)} - {j}" by auto
  then have "card (set ?is) + 1 = length ds" using assms(2,3) by (simp only:) simp
  then have "length ?is + 1 = length ds" 
    by (subst (asm) distinct_card) (simp_all del: upt_Suc)
  then have n: "length ?is = length ds - 1" "length ?is \<le> length ds" "length ds - length ?is = 1"
    by linarith+
  have "fetch_queue t d (remove_order_from_queue t d j tm) =
      Inr (map (\<lambda>i. (ds ! (i - 1), i)) ?is @ replicate (length ds - length ?is) (0, 0))"
  proof (rule fetch_queue_run)
    show "idx_inv (<) (queue_indexer (remove_order_from_queue t d j tm))"
      "idx_get (<) (Queue_index t d queue_special_id) (queue_indexer (remove_order_from_queue t d j tm)) =
        Some (length ds)"
      using q(1,3) assms(2)
      by (simp_all add: remove_order_from_queue_def total_index_simps queue_special_id_def)
    show "sorted_wrt (<) ?is" by (rule sorted_wrt_filter) (simp del: upt_Suc)
    show "idx_get (<) (Queue_index t d i) (queue_indexer (remove_order_from_queue t d j tm)) = Some (ds ! (i - 1))"
      if "i \<in> set ?is" for i
    proof -
      have "i = Suc (i - 1)" "i - 1 < length ds" "i \<noteq> j" using that by auto
      then show ?thesis
        using q(4) [of "i - 1"] q(1) by (simp add: remove_order_from_queue_def total_index_simps)
    qed
    show "i = 0 \<or> i \<in> set ?is"
      if "idx_get (<) (Queue_index t d i) (queue_indexer (remove_order_from_queue t d j tm)) = Some v" for i v
      using that q(1) q(5) [of i v]
      by (auto simp: remove_order_from_queue_def total_index_simps split: if_splits)
  qed (use q(2) n(2) in auto)
  then show ?thesis using n(3) by simp
qed

theorem removed_order_leaves_null_entry_witness:
  "\<exists>tm. queue_of (split_mix64_hash ''G1'') 1 [28] tm \<and>
     fetch_queue (split_mix64_hash ''G1'') 1 (remove_order_from_queue (split_mix64_hash ''G1'') 1 1 tm) = Inr [(0, 0)]"
proof -
  obtain ix' where "counted (Queue_index (split_mix64_hash ''G1'') 1 queue_special_id)
      (Queue_index (split_mix64_hash ''G1'') 1)
      (\<lambda>k. qi_train k = split_mix64_hash ''G1'' \<and> qi_offset k = 1) [28] ix'"
    using queue.push [OF tm_example_ok(3) [unfolded queue_of_def], of 28] by auto
  then have q: "queue_of (split_mix64_hash ''G1'') 1 [28] (tm_example\<lparr>queue_indexer := ix'\<rparr>)"
    by (simp add: queue_of_def)
  then show ?thesis
    using removed_order_leaves_null_entry [OF q, of 1] by (intro exI [of _ "tm_example\<lparr>queue_indexer := ix'\<rparr>"]) simp
qed

end
