(* ===== verification/Engine_State.thy ===== *)
theory Engine_State
  imports Stop_Register Transactions "HOL-Library.Product_Lexorder"
begin

text \<open>
  \<^verbatim>\<open>src/include/data.h\<close> and the state of \<^verbatim>\<open>TicketSystemEngine\<close> (\<^verbatim>\<open>src/include/engine.h\<close>),
  with what all command handlers share: a handler parses its arguments, works on the engine and
  answers with the command id in front. A handler that throws leaves the engine as it was at that
  point. An array member that the code never wrote is \<open>None\<close> at that index; copying it is
  harmless, computing with it or branching on it is \<open>Undefined\<close>.
\<close>

section \<open>Stored data\<close>

record full_user_data =
  fu_username :: string
  fu_password_hash :: hash_t
  fu_name :: string
  fu_mailAddr :: string
  fu_privilege :: nat

type_synonym 'a cells = "nat \<Rightarrow> 'a option"

type_synonym station_name_data = "string cells"

record ticket_price_data =
  tp_trainID :: string
  tp_price :: "nat cells"

record core_train_data =
  ct_trainID :: string
  ct_stationNum :: nat
  ct_stations_hash :: "hash_t cells"
  ct_seatNum :: nat
  ct_startTime :: nat
  ct_saleDate_beg :: nat
  ct_saleDate_end :: nat
  ct_type :: nat
  ct_is_released :: bool
  ct_travelTime :: "nat cells"
  ct_stopoverTime :: "nat cells"

record seats_data =
  sd_seat :: "nat cells"
  sd_max_seats :: nat

section \<open>The engine\<close>

record engine =
  its_time_to_exit :: bool
  online_users :: "hash_t \<rightharpoonup> nat"
  user_data :: "(hash_t, full_user_data) disk_map"
  station_name_data_storage :: "(hash_t, station_name_data) disk_map"
  ticket_price_data_storage :: "(hash_t, ticket_price_data) disk_map"
  core_train_data_storage :: "(hash_t, core_train_data) disk_map"
  seats_data_storage :: "(hash_t \<times> nat, seats_data) disk_map"
  stop_register :: register
  transaction_manager :: txn_manager

definition engine_new :: engine where
  "engine_new = \<lparr>its_time_to_exit = False, online_users = Map.empty, user_data = dm_new 42,
     station_name_data_storage = dm_new 1, ticket_price_data_storage = dm_new 9,
     core_train_data_storage = dm_new 3, seats_data_storage = dm_new 10,
     stop_register = idx_new, transaction_manager = tm_new\<rparr>"

section \<open>Handlers\<close>

type_synonym 'a step = "'a result \<times> engine"

text \<open>Run a fallible part on the engine as it is, then go on.\<close>

definition attempt :: "'a result \<Rightarrow> engine \<Rightarrow> ('a \<Rightarrow> 'b step) \<Rightarrow> 'b step" where
  "attempt r e f = (case r of Inl err \<Rightarrow> (Inl err, e) | Inr x \<Rightarrow> f x)"

lemma attempt_simps [simp]:
  "attempt (Inl err) e f = (Inl err, e)" "attempt (Inr x) e f = f x"
  by (simp_all add: attempt_def)

text \<open>\<^verbatim>\<open>'[' << command_id << "] " << text\<close>; an unset \<^verbatim>\<open>command_id\<close> has no value to print.\<close>

definition respond :: "nat option \<Rightarrow> string \<Rightarrow> string result" where
  "respond command_id text =
     (case command_id of None \<Rightarrow> Inl Undefined
      | Some n \<Rightarrow> Inr (''['' @ show_nat n @ ''] '' @ text))"

definition run_handler :: "'a arg_action \<Rightarrow> 'a \<Rightarrow> ('a \<Rightarrow> engine \<Rightarrow> string step) \<Rightarrow> string \<Rightarrow> engine \<Rightarrow> string step" where
  "run_handler act a0 body command e =
     attempt (parse_args act a0 command) e
       (\<lambda>a. case body a e of (r, e') \<Rightarrow> (rbind r (respond (scan_command_id command)), e'))"

text \<open>\<^verbatim>\<open>-d MM-DD\<close>: \<^verbatim>\<open>sscanf(date_raw.c_str(), "%d-%d", &mm, &dd)\<close> and \<^verbatim>\<open>GetCompactDate\<close>. A switch
  without a \<^verbatim>\<open>default\<close> leaves an unknown option to the next iteration.\<close>

definition take_date :: "args arg_action" where
  "take_date c a st =
     (case read_word st of (w, st') \<Rightarrow>
        (case scan_ints ''-'' (c_str (case w of None \<Rightarrow> [] | Some s \<Rightarrow> s)) of
           [Some mm, Some dd] \<Rightarrow>
             rbind (get_compact_date mm dd)
               (\<lambda>d. Inr (a\<lparr>int_arg := (int_arg a)(c := Some d)\<rparr>, st'))
         | _ \<Rightarrow> Inl Undefined))"

definition ignore_option :: "args arg_action" where
  "ignore_option c a st = Inr (a, st)"

text \<open>Reading an array of \<open>n\<close> elements.\<close>

definition cell :: "nat \<Rightarrow> 'a cells \<Rightarrow> nat \<Rightarrow> 'a result" where
  "cell n a i = (if i < n then of_option Undefined (a i) else Inl Undefined)"

lemma cell_Inr [simp]: "cell n a i = Inr x \<longleftrightarrow> i < n \<and> a i = Some x"
  by (simp add: cell_def)

text \<open>\<^verbatim>\<open>int\<close> addition of an \<^verbatim>\<open>int\<close> and an unsigned value: modulo \<^verbatim>\<open>2 ^ 32\<close>, read as signed.\<close>

definition add_price :: "int \<Rightarrow> nat \<Rightarrow> int" where
  "add_price acc p = i32 (acc + int p)"

text \<open>The sum of the prices from one stop to another, and the least number of free seats on the
  way, as \<^verbatim>\<open>query_ticket\<close>, \<^verbatim>\<open>buy_ticket\<close> and the transfer search compute them. A stop
  number is a \<^verbatim>\<open>uint8_t\<close>; the arrays have 99 elements.\<close>

fun price_sum :: "nat cells \<Rightarrow> nat list \<Rightarrow> int \<Rightarrow> int result" where
  "price_sum price [] acc = Inr acc"
| "price_sum price (j # js) acc =
     rbind (cell 99 price j) (\<lambda>p. price_sum price js (add_price acc p))"

fun least_seats :: "nat cells \<Rightarrow> nat list \<Rightarrow> int \<Rightarrow> int result" where
  "least_seats seat [] seats = Inr seats"
| "least_seats seat (j # js) seats =
     rbind (cell 99 seat j) (\<lambda>s. least_seats seat js (min seats (i32 (int s))))"

definition available :: "nat cells \<Rightarrow> nat \<Rightarrow> nat \<Rightarrow> int result" where
  "available seat from_id to_id =
     rbind (cell 99 seat from_id) (\<lambda>s. least_seats seat [from_id + 1..<to_id] (i32 (int s)))"

section \<open>The map contracts\<close>

text \<open>Every disk map of the engine is consistent.\<close>

definition maps_inv :: "engine \<Rightarrow> bool" where
  "maps_inv e \<longleftrightarrow> dm_inv (<) (user_data e) \<and> dm_inv (<) (station_name_data_storage e) \<and>
     dm_inv (<) (ticket_price_data_storage e) \<and> dm_inv (<) (core_train_data_storage e) \<and>
     dm_inv (<) (seats_data_storage e)"

abbreviation lookup :: "('k::linorder, 'v) disk_map \<Rightarrow> 'k \<Rightarrow> 'v option" where
  "lookup \<equiv> dm_abs (<)"

lemma maps_inv_new: "maps_inv engine_new"
  by (simp add: maps_inv_def engine_new_def total.dm_new_inv)

text \<open>The facts handlers use: \<^verbatim>\<open>Put\<close> of a map with the invariant succeeds.\<close>

lemma put_Some:
  fixes k :: "'k::linorder"
  assumes "dm_inv (<) m"
  obtains m' where "dm_put (<) k v m = Inr (lookup m k = None, m')" "dm_inv (<) m'"
    "lookup m' = (lookup m)(k := Some v)"
  using total.dm.put [OF assms, of k v] by blast

lemma remove_Some:
  fixes k :: "'k::linorder"
  assumes "dm_inv (<) m"
  obtains m' where "dm_remove (<) k m = (lookup m k \<noteq> None, m')" "dm_inv (<) m'"
    "lookup m' = (lookup m)(k := None)"
  using total.dm.remove [OF assms, of k] by blast

lemma get_lookup: "dm_inv (<) m \<Longrightarrow> dm_get (<) k m = of_option Runtime_error (lookup m k)"
  for k :: "'k::linorder"
  by (rule total.dm.get)

lemma has_lookup: "dm_inv (<) m \<Longrightarrow> dm_has_key (<) k m \<longleftrightarrow> lookup m k \<noteq> None"
  for k :: "'k::linorder"
  by (rule total.dm.has)

lemma size_lookup: "dm_inv (<) m \<Longrightarrow> dm_size m = 0 \<longleftrightarrow> lookup m = (\<lambda>_. None)"
  for m :: "('k::linorder, 'v) disk_map"
  by (rule total.dm.sz)

lemma lookup_new [simp]: "lookup (dm_new m) k = None"
  by (rule total.dm_new_abs)

end
