(* ===== verification/User_System.thy ===== *)
theory User_System
  imports Engine_State
begin

text \<open>
  \<^verbatim>\<open>src/user_system.cpp\<close>: \<^verbatim>\<open>AddUser\<close>, \<^verbatim>\<open>LoginUser\<close>, \<^verbatim>\<open>LogoutUser\<close>, \<^verbatim>\<open>QueryProfile\<close>
  and \<^verbatim>\<open>ModifyProfile\<close>. Each handler is its switch over the option letters and its body; the
  body gets the local variables by letter. The lemmas show what each command does on every branch,
  in terms of the finite map of users and the map of online users: who may create, read and change
  whom, that a failed command changes nothing, and that the privilege a session acts with is the
  one of its login.
\<close>

section \<open>The handlers\<close>

definition add_user_switch :: "args arg_action" where
  "add_user_switch c a st =
     (if c \<in> set ''cupnm'' then take_word c a st
      else if c = CHR ''g'' then take_byte c a st
      else Inl Invalid_argument)"

definition make_user :: "string \<Rightarrow> string \<Rightarrow> string \<Rightarrow> string \<Rightarrow> nat \<Rightarrow> full_user_data result" where
  "make_user username password name mailAddr privilege =
     rbind (strcpy 21 username) (\<lambda>u. rbind (strcpy 21 name) (\<lambda>n. rbind (strcpy 31 mailAddr) (\<lambda>m.
       Inr \<lparr>fu_username = u, fu_password_hash = split_mix64_hash password, fu_name = n,
            fu_mailAddr = m, fu_privilege = privilege\<rparr>)))"

text \<open>\<^verbatim>\<open>user_data.Put\<close> and \<^verbatim>\<open>PrepareUserInfo\<close>, the end of both branches that succeed.\<close>

definition store_user :: "string \<Rightarrow> full_user_data \<Rightarrow> engine \<Rightarrow> string step" where
  "store_user username dat e =
     attempt (dm_put (<) (split_mix64_hash username) dat (user_data e)) e
       (\<lambda>(_, ud). (Inr ''0'', e\<lparr>user_data := ud,
          transaction_manager := prepare_user_info (split_mix64_hash username) (transaction_manager e)\<rparr>))"

definition add_user_body :: "args \<Rightarrow> engine \<Rightarrow> string step" where
  "add_user_body a e =
     (let cur_username = word_arg a (CHR ''c''); username = word_arg a (CHR ''u'');
          password = word_arg a (CHR ''p''); name = word_arg a (CHR ''n'');
          mailAddr = word_arg a (CHR ''m''); privilege = int_arg a (CHR ''g'')
      in if dm_size (user_data e) = 0
         then attempt (make_user username password name mailAddr 10) e (\<lambda>dat. store_user username dat e)
         else case online_users e (split_mix64_hash cur_username) of
                None \<Rightarrow> (Inr ''-1'', e)
              | Some current \<Rightarrow>
                  attempt (of_option Undefined privilege) e (\<lambda>p.
                    if int current \<le> p then (Inr ''-1'', e)
                    else if dm_has_key (<) (split_mix64_hash username) (user_data e) then (Inr ''-1'', e)
                    else attempt (make_user username password name mailAddr (nat p)) e
                           (\<lambda>dat. store_user username dat e)))"

definition add_user :: "string \<Rightarrow> engine \<Rightarrow> string step" where
  "add_user = run_handler add_user_switch no_args add_user_body"

definition login_switch :: "args arg_action" where
  "login_switch c a st = (if c \<in> set ''up'' then take_word c a st else Inl Invalid_argument)"

text \<open>\<^verbatim>\<open>catch (std::runtime_error &e)\<close> around \<^verbatim>\<open>Get\<close>.\<close>

definition login_body :: "args \<Rightarrow> engine \<Rightarrow> string step" where
  "login_body a e =
     (let user_name_hash = split_mix64_hash (word_arg a (CHR ''u''));
          password_hash = split_mix64_hash (word_arg a (CHR ''p''))
      in if online_users e user_name_hash \<noteq> None then (Inr ''-1'', e)
         else case dm_get (<) user_name_hash (user_data e) of
                Inl err \<Rightarrow> if err = Runtime_error then (Inr ''-1'', e) else (Inl err, e)
              | Inr dat \<Rightarrow>
                  if fu_password_hash dat \<noteq> password_hash then (Inr ''-1'', e)
                  else (Inr ''0'', e\<lparr>online_users := (online_users e)(user_name_hash \<mapsto> fu_privilege dat)\<rparr>))"

definition login :: "string \<Rightarrow> engine \<Rightarrow> string step" where
  "login = run_handler login_switch no_args login_body"

definition logout_switch :: "args arg_action" where
  "logout_switch c a st = (if c = CHR ''u'' then take_word c a st else Inl Invalid_argument)"

definition logout_body :: "args \<Rightarrow> engine \<Rightarrow> string step" where
  "logout_body a e =
     (let user_name_hash = split_mix64_hash (word_arg a (CHR ''u''))
      in if online_users e user_name_hash = None then (Inr ''-1'', e)
         else (Inr ''0'', e\<lparr>online_users := (online_users e)(user_name_hash := None)\<rparr>))"

definition logout :: "string \<Rightarrow> engine \<Rightarrow> string step" where
  "logout = run_handler logout_switch no_args logout_body"

definition query_profile_switch :: "args arg_action" where
  "query_profile_switch c a st = (if c \<in> set ''cu'' then take_word c a st else Inl Invalid_argument)"

definition show_profile :: "full_user_data \<Rightarrow> string" where
  "show_profile dat = fu_username dat @ '' '' @ fu_name dat @ '' '' @ fu_mailAddr dat @ '' '' @
     show_nat (fu_privilege dat)"

text \<open>The access rule \<^verbatim>\<open>QueryProfile\<close> and \<^verbatim>\<open>ModifyProfile\<close> share: one's own record, or that of
  a user whose stored privilege is below the privilege of the session. \<open>Inr None\<close> is the answer
  \<^verbatim>\<open>-1\<close>.\<close>

definition fetch_profile :: "hash_t \<Rightarrow> nat \<Rightarrow> hash_t \<Rightarrow> engine \<Rightarrow> full_user_data option result" where
  "fetch_profile current current_privilege user e =
     (if current \<noteq> user
      then case dm_get (<) user (user_data e) of
             Inl err \<Rightarrow> if err = Runtime_error then Inr None else Inl err
           | Inr dat \<Rightarrow> if current_privilege \<le> fu_privilege dat then Inr None else Inr (Some dat)
      else rbind (dm_get (<) user (user_data e)) (\<lambda>dat. Inr (Some dat)))"

definition query_profile_body :: "args \<Rightarrow> engine \<Rightarrow> string step" where
  "query_profile_body a e =
     (let current = split_mix64_hash (word_arg a (CHR ''c''));
          user = split_mix64_hash (word_arg a (CHR ''u''))
      in case online_users e current of
           None \<Rightarrow> (Inr ''-1'', e)
         | Some privilege \<Rightarrow>
             attempt (fetch_profile current privilege user e) e
               (\<lambda>r. case r of None \<Rightarrow> (Inr ''-1'', e) | Some dat \<Rightarrow> (Inr (show_profile dat), e)))"

definition query_profile :: "string \<Rightarrow> engine \<Rightarrow> string step" where
  "query_profile = run_handler query_profile_switch no_args query_profile_body"

text \<open>\<^verbatim>\<open>uint8_t privilege = 11\<close> marks an option that is not given.\<close>

definition modify_profile_args :: args where
  "modify_profile_args = no_args\<lparr>int_arg := (\<lambda>_. Some 11)\<rparr>"

definition change_profile :: "string \<Rightarrow> string \<Rightarrow> string \<Rightarrow> nat \<Rightarrow> full_user_data \<Rightarrow> full_user_data result" where
  "change_profile password name mailAddr privilege dat =
     (let dat1 = (if privilege \<noteq> 11 then dat\<lparr>fu_privilege := privilege\<rparr> else dat);
          dat2 = (if password \<noteq> [] then dat1\<lparr>fu_password_hash := split_mix64_hash password\<rparr> else dat1)
      in rbind (if name \<noteq> [] then rbind (strcpy 21 name) (\<lambda>n. Inr (dat2\<lparr>fu_name := n\<rparr>)) else Inr dat2)
           (\<lambda>dat3. if mailAddr \<noteq> [] then rbind (strcpy 31 mailAddr) (\<lambda>m. Inr (dat3\<lparr>fu_mailAddr := m\<rparr>))
                   else Inr dat3))"

definition modify_profile_body :: "args \<Rightarrow> engine \<Rightarrow> string step" where
  "modify_profile_body a e =
     (let current = split_mix64_hash (word_arg a (CHR ''c''));
          user = split_mix64_hash (word_arg a (CHR ''u''));
          password = word_arg a (CHR ''p''); name = word_arg a (CHR ''n'');
          mailAddr = word_arg a (CHR ''m'')
      in case online_users e current of
           None \<Rightarrow> (Inr ''-1'', e)
         | Some current_privilege \<Rightarrow>
             attempt (fetch_profile current current_privilege user e) e (\<lambda>r. case r of
               None \<Rightarrow> (Inr ''-1'', e)
             | Some dat \<Rightarrow>
                 attempt (of_option Undefined (int_arg a (CHR ''g''))) e (\<lambda>privilege.
                   if privilege \<noteq> 11 \<and> int current_privilege \<le> privilege then (Inr ''-1'', e)
                   else attempt (change_profile password name mailAddr (nat privilege) dat) e (\<lambda>dat'.
                     attempt (dm_put (<) user dat' (user_data e)) e
                       (\<lambda>(_, ud). (Inr (show_profile dat'), e\<lparr>user_data := ud\<rparr>))))))"

definition modify_profile :: "string \<Rightarrow> engine \<Rightarrow> string step" where
  "modify_profile = run_handler add_user_switch modify_profile_args modify_profile_body"

section \<open>What the bodies do\<close>

lemma store_user_effect:
  assumes "maps_inv e"
  obtains ud where "store_user username dat e = (Inr ''0'', e\<lparr>user_data := ud,
      transaction_manager := prepare_user_info (split_mix64_hash username) (transaction_manager e)\<rparr>)"
    "dm_inv (<) ud" "lookup ud = (lookup (user_data e))(split_mix64_hash username := Some dat)"
proof -
  have "dm_inv (<) (user_data e)" using assms by (simp add: maps_inv_def)
  then obtain ud where "dm_put (<) (split_mix64_hash username) dat (user_data e) =
      Inr (lookup (user_data e) (split_mix64_hash username) = None, ud)"
    "dm_inv (<) ud" "lookup ud = (lookup (user_data e))(split_mix64_hash username := Some dat)"
    by (rule put_Some)
  then show ?thesis by (intro that) (simp_all add: store_user_def)
qed

text \<open>The answers of \<^verbatim>\<open>AddUser\<close> when users exist: who may create whom.\<close>

definition may_add_user :: "args \<Rightarrow> engine \<Rightarrow> full_user_data \<Rightarrow> bool" where
  "may_add_user a e dat \<longleftrightarrow>
     (\<exists>q p. online_users e (split_mix64_hash (word_arg a (CHR ''c''))) = Some q \<and>
        int_arg a (CHR ''g'') = Some p \<and> p < int q \<and>
        lookup (user_data e) (split_mix64_hash (word_arg a (CHR ''u''))) = None \<and>
        make_user (word_arg a (CHR ''u'')) (word_arg a (CHR ''p'')) (word_arg a (CHR ''n''))
          (word_arg a (CHR ''m'')) (nat p) = Inr dat)"

lemma add_user_cases:
  assumes "maps_inv e" "lookup (user_data e) \<noteq> (\<lambda>_. None)"
  shows "(\<exists>dat ud. may_add_user a e dat \<and> dm_inv (<) ud \<and>
      lookup ud = (lookup (user_data e))(split_mix64_hash (word_arg a (CHR ''u'')) := Some dat) \<and>
      add_user_body a e = (Inr ''0'', e\<lparr>user_data := ud, transaction_manager :=
        prepare_user_info (split_mix64_hash (word_arg a (CHR ''u''))) (transaction_manager e)\<rparr>)) \<or>
    ((\<forall>dat. \<not> may_add_user a e dat) \<and>
     (\<exists>r. add_user_body a e = (r, e) \<and> (r = Inr ''-1'' \<or> r = Inl Undefined)))"
    (is "?A \<or> ?B")
proof -
  let ?h = "split_mix64_hash (word_arg a (CHR ''u''))"
  have inv: "dm_inv (<) (user_data e)" using assms(1) by (simp add: maps_inv_def)
  have sz: "dm_size (user_data e) \<noteq> 0" using assms(2) size_lookup [OF inv] by simp
  note body = add_user_body_def Let_def sz has_lookup [OF inv]
  show ?thesis
  proof (cases "online_users e (split_mix64_hash (word_arg a (CHR ''c'')))")
    case None
    then have ?B by (simp add: body may_add_user_def)
    then show ?thesis ..
  next
    case q: (Some q)
    show ?thesis
    proof (cases "int_arg a (CHR ''g'')")
      case None
      with q have ?B by (simp add: body may_add_user_def)
      then show ?thesis ..
    next
      case p: (Some p)
      show ?thesis
      proof (cases "int q \<le> p \<or> lookup (user_data e) ?h \<noteq> None")
        case True
        with q p have ?B by (auto simp: body may_add_user_def)
        then show ?thesis ..
      next
        case False
        show ?thesis
        proof (cases "make_user (word_arg a (CHR ''u'')) (word_arg a (CHR ''p''))
            (word_arg a (CHR ''n'')) (word_arg a (CHR ''m'')) (nat p)")
          case (Inl err)
          then have "err = Undefined"
            by (auto simp: make_user_def strcpy_def split: if_splits)
          with q p False Inl have ?B by (simp add: body may_add_user_def)
          then show ?thesis ..
        next
          case (Inr dat)
          then have m: "may_add_user a e dat" using q p False by (auto simp: may_add_user_def)
          obtain ud where ud: "store_user (word_arg a (CHR ''u'')) dat e = (Inr ''0'', e\<lparr>user_data := ud,
              transaction_manager := prepare_user_info ?h (transaction_manager e)\<rparr>)"
            "dm_inv (<) ud" "lookup ud = (lookup (user_data e))(?h := Some dat)"
            using store_user_effect [OF assms(1)] by metis
          have "add_user_body a e = (Inr ''0'', e\<lparr>user_data := ud,
              transaction_manager := prepare_user_info ?h (transaction_manager e)\<rparr>)"
            using q p False Inr ud(1) by (simp add: body)
          then have ?A using m ud(2,3) by blast
          then show ?thesis ..
        qed
      qed
    qed
  qed
qed

lemma login_effect:
  assumes "maps_inv e"
  shows "login_body a e =
    (let h = split_mix64_hash (word_arg a (CHR ''u''))
     in case (online_users e h, lookup (user_data e) h) of
          (None, Some dat) \<Rightarrow>
            if fu_password_hash dat = split_mix64_hash (word_arg a (CHR ''p''))
            then (Inr ''0'', e\<lparr>online_users := (online_users e)(h \<mapsto> fu_privilege dat)\<rparr>)
            else (Inr ''-1'', e)
        | _ \<Rightarrow> (Inr ''-1'', e))"
  using assms
  by (auto simp: login_body_def Let_def get_lookup maps_inv_def split: option.splits)

lemma fetch_profile_eq:
  assumes "maps_inv e"
  shows "fetch_profile c q u e =
    (case lookup (user_data e) u of
       None \<Rightarrow> if c = u then Inl Runtime_error else Inr None
     | Some dat \<Rightarrow> if c = u \<or> fu_privilege dat < q then Inr (Some dat) else Inr None)"
  using assms by (auto simp: fetch_profile_def get_lookup maps_inv_def split: option.splits)

definition may_modify :: "args \<Rightarrow> engine \<Rightarrow> full_user_data \<Rightarrow> full_user_data \<Rightarrow> bool" where
  "may_modify a e dat dat' \<longleftrightarrow>
     (let current = split_mix64_hash (word_arg a (CHR ''c'')); user = split_mix64_hash (word_arg a (CHR ''u''))
      in \<exists>q p. online_users e current = Some q \<and> lookup (user_data e) user = Some dat \<and>
           (current = user \<or> fu_privilege dat < q) \<and> int_arg a (CHR ''g'') = Some p \<and>
           (p = 11 \<or> p < int q) \<and>
           change_profile (word_arg a (CHR ''p'')) (word_arg a (CHR ''n'')) (word_arg a (CHR ''m''))
             (nat p) dat = Inr dat')"

lemma change_profile_privilege:
  assumes "change_profile pw n m p dat = Inr dat'"
  shows "fu_privilege dat' = (if p = 11 then fu_privilege dat else p)" "fu_username dat' = fu_username dat"
  using assms by (auto simp: change_profile_def Let_def strcpy_def split: if_splits)

lemma modify_profile_cases:
  assumes "maps_inv e"
  shows "(\<exists>dat dat' ud. may_modify a e dat dat' \<and> dm_inv (<) ud \<and>
      lookup ud = (lookup (user_data e))(split_mix64_hash (word_arg a (CHR ''u'')) := Some dat') \<and>
      modify_profile_body a e = (Inr (show_profile dat'), e\<lparr>user_data := ud\<rparr>)) \<or>
    ((\<forall>dat dat'. \<not> may_modify a e dat dat') \<and>
     (\<exists>r. modify_profile_body a e = (r, e) \<and> (r = Inr ''-1'' \<or> r = Inl Runtime_error \<or> r = Inl Undefined)))"
    (is "?A \<or> ?B")
proof -
  let ?c = "split_mix64_hash (word_arg a (CHR ''c''))" and ?u = "split_mix64_hash (word_arg a (CHR ''u''))"
  have inv: "dm_inv (<) (user_data e)" using assms by (simp add: maps_inv_def)
  note defs = modify_profile_body_def may_modify_def Let_def fetch_profile_eq [OF assms]
  consider (offline) "online_users e ?c = None"
    | (absent) q where "online_users e ?c = Some q" "lookup (user_data e) ?u = None"
    | (denied) q dat where "online_users e ?c = Some q" "lookup (user_data e) ?u = Some dat"
        "\<not> (?c = ?u \<or> fu_privilege dat < q)"
    | (bad) q dat where "online_users e ?c = Some q" "lookup (user_data e) ?u = Some dat"
        "?c = ?u \<or> fu_privilege dat < q" "\<nexists>p. int_arg a (CHR ''g'') = Some p \<and> (p = 11 \<or> p < int q)"
    | (allowed) q dat p where "online_users e ?c = Some q" "lookup (user_data e) ?u = Some dat"
        "?c = ?u \<or> fu_privilege dat < q" "int_arg a (CHR ''g'') = Some p" "p = 11 \<or> p < int q"
    by (metis option.exhaust)
  then show ?thesis
  proof cases
    case offline
    then have ?B by (simp add: defs)
    then show ?thesis ..
  next
    case absent
    then have ?B by (simp add: defs)
    then show ?thesis ..
  next
    case denied
    then have ?B by (simp add: defs)
    then show ?thesis ..
  next
    case bad
    then have ?B by (cases "int_arg a (CHR ''g'')") (auto simp: defs)
    then show ?thesis ..
  next
    case allowed
    then have access: "modify_profile_body a e =
        attempt (change_profile (word_arg a (CHR ''p'')) (word_arg a (CHR ''n'')) (word_arg a (CHR ''m'')) (nat p) dat) e
          (\<lambda>dat'. attempt (dm_put (<) ?u dat' (user_data e)) e
             (\<lambda>(_, ud). (Inr (show_profile dat'), e\<lparr>user_data := ud\<rparr>)))"
      by (auto simp: defs)
    show ?thesis
    proof (cases "change_profile (word_arg a (CHR ''p'')) (word_arg a (CHR ''n'')) (word_arg a (CHR ''m'')) (nat p) dat")
      case (Inl err)
      then have "err = Undefined"
        by (auto simp: change_profile_def strcpy_def Let_def split: if_splits)
      then have ?B using Inl allowed by (simp add: access may_modify_def Let_def)
      then show ?thesis ..
    next
      case (Inr dat')
      then have "may_modify a e dat dat'" using allowed by (auto simp: may_modify_def Let_def)
      moreover obtain ud where "dm_put (<) ?u dat' (user_data e) = Inr (lookup (user_data e) ?u = None, ud)"
        "dm_inv (<) ud" "lookup ud = (lookup (user_data e))(?u := Some dat')"
        using inv by (rule put_Some)
      ultimately have ?A using Inr by (auto simp: access)
      then show ?thesis ..
    qed
  qed
qed

section \<open>The invariant of users and sessions\<close>

text \<open>No stored or acting privilege exceeds 10, and everybody online is a registered user.\<close>

definition user_inv :: "engine \<Rightarrow> bool" where
  "user_inv e \<longleftrightarrow> maps_inv e \<and>
     (\<forall>h dat. lookup (user_data e) h = Some dat \<longrightarrow> fu_privilege dat \<le> 10) \<and>
     (\<forall>h q. online_users e h = Some q \<longrightarrow> q \<le> 10 \<and> lookup (user_data e) h \<noteq> None)"

lemma maps_inv_update [simp]:
  "maps_inv (e\<lparr>online_users := o'\<rparr>) = maps_inv e"
  "maps_inv (e\<lparr>transaction_manager := t'\<rparr>) = maps_inv e"
  "maps_inv (e\<lparr>stop_register := r'\<rparr>) = maps_inv e"
  "maps_inv (e\<lparr>its_time_to_exit := b'\<rparr>) = maps_inv e"
  by (simp_all add: maps_inv_def)

lemma user_inv_put:
  assumes "user_inv e" "dm_inv (<) ud" "lookup ud = (lookup (user_data e))(h := Some dat)" "fu_privilege dat \<le> 10"
  shows "user_inv (e\<lparr>user_data := ud\<rparr>)" "user_inv (e\<lparr>user_data := ud, transaction_manager := t'\<rparr>)"
  using assms by (auto simp: user_inv_def maps_inv_def)

lemma make_user_privilege: "make_user u p n m g = Inr dat \<Longrightarrow> fu_privilege dat = g"
  by (auto simp: make_user_def rbind_Inr)

lemma add_user_body_inv:
  assumes "user_inv e"
  shows "user_inv (snd (add_user_body a e))"
proof -
  let ?h = "split_mix64_hash (word_arg a (CHR ''u''))"
  have maps: "maps_inv e" using assms by (simp add: user_inv_def)
  show ?thesis
  proof (cases "lookup (user_data e) = (\<lambda>_. None)")
    case True
    then have sz: "dm_size (user_data e) = 0" 
      using maps size_lookup [of "user_data e"] by (simp add: maps_inv_def)
    show ?thesis
    proof (cases "make_user (word_arg a (CHR ''u'')) (word_arg a (CHR ''p'')) (word_arg a (CHR ''n''))
        (word_arg a (CHR ''m'')) 10")
      case (Inl err)
      with assms sz show ?thesis by (simp add: add_user_body_def Let_def)
    next
      case (Inr dat)
      obtain ud where "store_user (word_arg a (CHR ''u'')) dat e = (Inr ''0'', e\<lparr>user_data := ud,
          transaction_manager := prepare_user_info ?h (transaction_manager e)\<rparr>)"
        "dm_inv (<) ud" "lookup ud = (lookup (user_data e))(?h := Some dat)"
        using store_user_effect [OF maps] by metis
      with Inr sz assms make_user_privilege [OF Inr] show ?thesis
        by (simp add: add_user_body_def Let_def user_inv_put)
    qed
  next
    case False
    then consider dat ud where "may_add_user a e dat" "dm_inv (<) ud" "lookup ud = (lookup (user_data e))(?h := Some dat)"
        "add_user_body a e = (Inr ''0'', e\<lparr>user_data := ud, transaction_manager :=
          prepare_user_info ?h (transaction_manager e)\<rparr>)"
      | r where "add_user_body a e = (r, e)"
      using add_user_cases [OF maps False, of a] by blast
    then show ?thesis
    proof cases
      case (1 dat ud)
      then obtain q p where "online_users e (split_mix64_hash (word_arg a (CHR ''c''))) = Some q" "p < int q"
        "fu_privilege dat = nat p"
        unfolding may_add_user_def using make_user_privilege by metis
      moreover from this have "q \<le> 10" using assms by (auto simp: user_inv_def)
      ultimately have "fu_privilege dat \<le> 10" by auto
      with 1 assms show ?thesis by (simp add: user_inv_put)
    next
      case 2
      with assms show ?thesis by simp
    qed
  qed
qed

lemma login_body_inv: "user_inv e \<Longrightarrow> user_inv (snd (login_body a e))"
  by (auto simp: login_effect user_inv_def Let_def split: option.splits)

lemma logout_body_inv: "user_inv e \<Longrightarrow> user_inv (snd (logout_body a e))"
  by (auto simp: logout_body_def user_inv_def Let_def)

lemma query_profile_body_same: "snd (query_profile_body a e) = e"
  by (auto simp: query_profile_body_def Let_def attempt_def split: option.splits sum.splits)

lemma modify_profile_body_inv:
  assumes "user_inv e"
  shows "user_inv (snd (modify_profile_body a e))"
proof -
  have maps: "maps_inv e" using assms by (simp add: user_inv_def)
  consider dat dat' ud where "may_modify a e dat dat'" "dm_inv (<) ud"
      "lookup ud = (lookup (user_data e))(split_mix64_hash (word_arg a (CHR ''u'')) := Some dat')"
      "modify_profile_body a e = (Inr (show_profile dat'), e\<lparr>user_data := ud\<rparr>)"
    | r where "modify_profile_body a e = (r, e)"
    using modify_profile_cases [OF maps, of a] by blast
  then show ?thesis
  proof cases
    case (1 dat dat' ud)
    then obtain q p where "online_users e (split_mix64_hash (word_arg a (CHR ''c''))) = Some q"
      "lookup (user_data e) (split_mix64_hash (word_arg a (CHR ''u''))) = Some dat" "p = 11 \<or> p < int q"
      "fu_privilege dat' = (if nat p = 11 then fu_privilege dat else nat p)"
      unfolding may_modify_def Let_def using change_profile_privilege by metis
    moreover from this have "q \<le> 10" "fu_privilege dat \<le> 10" using assms by (auto simp: user_inv_def)
    ultimately have "fu_privilege dat' \<le> 10" by (auto split: if_splits)
    with 1 assms show ?thesis by (simp add: user_inv_put)
  next
    case 2
    with assms show ?thesis by simp
  qed
qed

lemma run_handler_snd:
  "snd (run_handler act a0 body cmd e) =
    (case parse_args act a0 cmd of Inl err \<Rightarrow> e | Inr a \<Rightarrow> snd (body a e))"
  by (simp add: run_handler_def attempt_def split: sum.splits prod.splits)

lemma run_handler_inv: "P e \<Longrightarrow> (\<And>a. P (snd (body a e))) \<Longrightarrow> P (snd (run_handler act a0 body cmd e))"
  by (simp add: run_handler_snd split: sum.splits)

lemmas user_handlers_inv = add_user_body_inv login_body_inv logout_body_inv modify_profile_body_inv

lemma user_system_inv:
  assumes "user_inv e"
  shows "user_inv (snd (add_user cmd e))" "user_inv (snd (login cmd e))" "user_inv (snd (logout cmd e))"
    "user_inv (snd (query_profile cmd e))" "user_inv (snd (modify_profile cmd e))"
  using assms user_handlers_inv query_profile_body_same
  by (simp_all add: add_user_def login_def logout_def query_profile_def modify_profile_def run_handler_inv)

section \<open>Properties\<close>

text \<open>C11: once a user exists, \<^verbatim>\<open>AddUser\<close> adds exactly the requested record when an online user
  with a strictly larger session privilege asks for an unused name, and changes nothing in any
  other case.\<close>

theorem add_user_needs_authority:
  assumes "maps_inv e" "lookup (user_data e) \<noteq> (\<lambda>_. None)"
  shows "(\<exists>dat ud. may_add_user a e dat \<and>
      lookup ud = (lookup (user_data e))(split_mix64_hash (word_arg a (CHR ''u'')) := Some dat) \<and>
      add_user_body a e = (Inr ''0'', e\<lparr>user_data := ud, transaction_manager :=
        prepare_user_info (split_mix64_hash (word_arg a (CHR ''u''))) (transaction_manager e)\<rparr>)) \<or>
    ((\<forall>dat. \<not> may_add_user a e dat) \<and> snd (add_user_body a e) = e \<and> fst (add_user_body a e) \<noteq> Inr ''0'')"
  using add_user_cases [OF assms, of a] by fastforce

definition root_data :: full_user_data where
  "root_data = \<lparr>fu_username = ''root'', fu_password_hash = split_mix64_hash ''pw'', fu_name = ''R'',
     fu_mailAddr = ''r@x'', fu_privilege = 10\<rparr>"

text \<open>An engine with the user \<open>root\<close> online.\<close>

definition engine_root :: engine where
  "engine_root = snd (login_body (no_args\<lparr>word_arg := (\<lambda>c. if c = CHR ''u'' then ''root'' else ''pw'')\<rparr>)
     (snd (store_user ''root'' root_data engine_new)))"

definition add_ann_args :: args where
  "add_ann_args = \<lparr>word_arg = (\<lambda>c. if c = CHR ''c'' then ''root'' else ''ann''),
     int_arg = (\<lambda>_. Some 3)\<rparr>"

lemma engine_root_facts:
  "user_inv engine_root" "lookup (user_data engine_root) = [split_mix64_hash ''root'' \<mapsto> root_data]"
  "online_users engine_root = [split_mix64_hash ''root'' \<mapsto> 10]"
proof -
  obtain ud where st: "store_user ''root'' root_data engine_new = (Inr ''0'', engine_new\<lparr>user_data := ud,
      transaction_manager := prepare_user_info (split_mix64_hash ''root'') (transaction_manager engine_new)\<rparr>)"
    "dm_inv (<) ud" "lookup ud = (lookup (user_data engine_new))(split_mix64_hash ''root'' := Some root_data)"
    using store_user_effect [OF maps_inv_new] by metis
  let ?e = "snd (store_user ''root'' root_data engine_new)"
  have new: "lookup (user_data engine_new) = Map.empty" "online_users engine_new = Map.empty"
    by (auto simp: engine_new_def)
  have inv: "user_inv ?e"
    using st maps_inv_new new by (auto simp: user_inv_def maps_inv_def root_data_def)
  have users: "lookup (user_data ?e) = [split_mix64_hash ''root'' \<mapsto> root_data]" "online_users ?e = Map.empty"
    using st new by simp_all
  have eq: "engine_root = ?e\<lparr>online_users := [split_mix64_hash ''root'' \<mapsto> 10]\<rparr>"
    using inv users by (simp add: engine_root_def login_effect user_inv_def Let_def root_data_def)
  show "user_inv engine_root" unfolding engine_root_def by (rule login_body_inv [OF inv])
  show "lookup (user_data engine_root) = [split_mix64_hash ''root'' \<mapsto> root_data]"
    "online_users engine_root = [split_mix64_hash ''root'' \<mapsto> 10]"
    using users by (simp_all add: eq)
qed

lemma ann_not_root: "split_mix64_hash ''ann'' \<noteq> split_mix64_hash ''root''"
  by code_simp

theorem add_user_needs_authority_witness:
  "fst (add_user_body add_ann_args engine_root) = Inr ''0''"
proof -
  have "maps_inv engine_root" "lookup (user_data engine_root) \<noteq> (\<lambda>_. None)"
    using engine_root_facts by (auto simp: user_inv_def fun_eq_iff)
  note authority = add_user_needs_authority [OF this, of add_ann_args]
  have "\<exists>dat. may_add_user add_ann_args engine_root dat"
    using engine_root_facts(2,3) ann_not_root
    by (simp add: may_add_user_def add_ann_args_def make_user_def strcpy_def c_str_def)
  with authority show ?thesis by auto
qed

text \<open>\<^verbatim>\<open>LoginUser\<close> opens a session exactly for a registered user who is offline and gives the
  right password; the session takes the stored privilege, and \<^verbatim>\<open>LogoutUser\<close> afterwards gives
  back the engine from before the login.\<close>

theorem login_logout:
  assumes "maps_inv e"
  shows "(fst (login_body a e) = Inr ''0'' \<longleftrightarrow>
      online_users e (split_mix64_hash (word_arg a (CHR ''u''))) = None \<and>
      (\<exists>dat. lookup (user_data e) (split_mix64_hash (word_arg a (CHR ''u''))) = Some dat \<and>
         fu_password_hash dat = split_mix64_hash (word_arg a (CHR ''p'')))) \<and>
    (fst (login_body a e) = Inr ''0'' \<longrightarrow>
      online_users (snd (login_body a e)) (split_mix64_hash (word_arg a (CHR ''u''))) =
        map_option fu_privilege (lookup (user_data e) (split_mix64_hash (word_arg a (CHR ''u'')))) \<and>
      logout_body a (snd (login_body a e)) = (Inr ''0'', e)) \<and>
    (fst (login_body a e) \<noteq> Inr ''0'' \<longrightarrow> snd (login_body a e) = e)"
  by (auto simp: login_effect [OF assms] logout_body_def Let_def fun_upd_idem split: option.splits)

theorem login_logout_witness:
  "fst (login_body (no_args\<lparr>word_arg := (\<lambda>c. if c = CHR ''u'' then ''root'' else ''pw'')\<rparr>)
     (engine_root\<lparr>online_users := Map.empty\<rparr>)) = Inr ''0''"
proof -
  have "maps_inv (engine_root\<lparr>online_users := Map.empty\<rparr>)"
    using engine_root_facts(1) by (simp add: user_inv_def)
  from login_logout [OF this, of "no_args\<lparr>word_arg := (\<lambda>c. if c = CHR ''u'' then ''root'' else ''pw'')\<rparr>"]
  show ?thesis using engine_root_facts(2) by (simp add: root_data_def)
qed

text \<open>C12: \<^verbatim>\<open>ModifyProfile\<close> changes only the record of the named user, and only for the user
  itself or a session with a larger privilege than the stored one, and never hands out a privilege
  as large as that of the session (11 stands for \<open>not given\<close>). The map of sessions is not touched:
  a user who is online goes on with the privilege of the login.\<close>

theorem modify_profile_needs_authority:
  assumes "maps_inv e"
  shows "(\<exists>dat dat' ud. may_modify a e dat dat' \<and>
      lookup ud = (lookup (user_data e))(split_mix64_hash (word_arg a (CHR ''u'')) := Some dat') \<and>
      modify_profile_body a e = (Inr (show_profile dat'), e\<lparr>user_data := ud\<rparr>)) \<or>
    ((\<forall>dat dat'. \<not> may_modify a e dat dat') \<and> snd (modify_profile_body a e) = e)"
  using modify_profile_cases [OF assms, of a] by fastforce

theorem modify_profile_needs_authority_witness:
  "online_users (snd (modify_profile_body (add_ann_args\<lparr>word_arg := (\<lambda>_. ''root'')\<rparr>) engine_root)) =
     [split_mix64_hash ''root'' \<mapsto> 10]"
proof -
  have "maps_inv engine_root" using engine_root_facts(1) by (simp add: user_inv_def)
  from modify_profile_needs_authority [OF this, of "add_ann_args\<lparr>word_arg := (\<lambda>_. ''root'')\<rparr>"]
  show ?thesis using engine_root_facts(3) by auto
qed

text \<open>The five user commands keep the invariant that no stored or acting privilege exceeds 10
  and that everybody online is registered.\<close>

theorem user_commands_keep_invariant:
  assumes "user_inv e"
  shows "user_inv (snd (add_user cmd e)) \<and> user_inv (snd (login cmd e)) \<and> user_inv (snd (logout cmd e)) \<and>
    user_inv (snd (query_profile cmd e)) \<and> user_inv (snd (modify_profile cmd e))"
  using user_system_inv [OF assms] by blast

theorem user_commands_keep_invariant_witness:
  "user_inv (snd (logout ''[1] logout -u root'' engine_root))"
  using user_commands_keep_invariant [OF engine_root_facts(1)] by blast

end
