(* ===== verification/Train_System.thy ===== *)
theory Train_System
  imports User_System
begin

text \<open>
  \<^verbatim>\<open>src/train_system.cpp\<close>: \<^verbatim>\<open>AddTrain\<close>, \<^verbatim>\<open>DeleteTrain\<close>, \<^verbatim>\<open>ReleaseTrain\<close> and
  \<^verbatim>\<open>QueryTrain\<close>. The lemmas describe the life of a train (absent, added, released), the stored
  data of an added train, that deleting undoes adding, and that releasing a train keeps the stop
  register in order.
\<close>

section \<open>The arguments of \<^verbatim>\<open>add_train\<close>\<close>

record train_args =
  ta_trainID :: string
  ta_stationNum :: "int option"
  ta_seatNum :: "int option"
  ta_stations :: "nat \<Rightarrow> string"
  ta_prices :: "int cells"
  ta_startTime :: "int option"
  ta_travelTimes :: "int cells"
  ta_stopoverTimes :: "int cells"
  ta_saleDate :: "(int \<times> int) option"
  ta_type :: "char option"

definition no_train_args :: train_args where
  "no_train_args = \<lparr>ta_trainID = [], ta_stationNum = None, ta_seatNum = None, ta_stations = (\<lambda>_. []),
     ta_prices = (\<lambda>_. None), ta_startTime = None, ta_travelTimes = (\<lambda>_. None),
     ta_stopoverTimes = (\<lambda>_. None), ta_saleDate = None, ta_type = None\<rparr>"

text \<open>\<^verbatim>\<open>std::string raw; command_stream >> raw;\<close>\<close>

definition read_raw :: "istream \<Rightarrow> string \<times> istream" where
  "read_raw st = (case read_word st of (w, st') \<Rightarrow> ((case w of None \<Rightarrow> [] | Some s \<Rightarrow> s), st'))"

text \<open>\<^verbatim>\<open>getline\<close> into \<^verbatim>\<open>stations[i]\<close> for \<^verbatim>\<open>i\<close> from 0: the array has 100 strings.\<close>

fun set_stations :: "nat \<Rightarrow> string list \<Rightarrow> bool \<Rightarrow> (nat \<Rightarrow> string) \<Rightarrow> (nat \<Rightarrow> string) result" where
  "set_stations i [] clears s =
     (if clears then if i < 100 then Inr (s(i := [])) else Inl Undefined else Inr s)"
| "set_stations i (p # ps) clears s =
     (if i < 100 then set_stations (Suc i) ps clears (s(i := p)) else Inl Undefined)"

text \<open>\<^verbatim>\<open>sscanf(tmp.c_str(), "%d", &a[i])\<close> for each piece.\<close>

fun scan_cells :: "nat \<Rightarrow> string list \<Rightarrow> int cells \<Rightarrow> int cells result" where
  "scan_cells i [] a = Inr a"
| "scan_cells i (p # ps) a =
     (if i < 100
      then scan_cells (Suc i) ps (case scan_int (c_str p) of None \<Rightarrow> a | Some (v, _) \<Rightarrow> a(i := Some v))
      else Inl Undefined)"

definition bars :: char where
  "bars = CHR ''|''"

definition scan_sale_dates :: "string \<Rightarrow> (int \<times> int) result" where
  "scan_sale_dates raw =
     (case scan_ints ''-|-'' (c_str raw) of
        [beg_mm, beg_dd, end_mm, end_dd] \<Rightarrow>
          rbind (of_option Undefined beg_mm) (\<lambda>bm.
            if bm < 6 then Inl Runtime_error
            else rbind (of_option Undefined end_mm) (\<lambda>em.
              if 8 < em then Inl Runtime_error
              else rbind (of_option Undefined beg_dd) (\<lambda>bd. rbind (of_option Undefined end_dd) (\<lambda>ed.
                rbind (get_compact_date bm bd) (\<lambda>b. rbind (get_compact_date em ed) (\<lambda>e. Inr (b, e)))))))
      | _ \<Rightarrow> Inl Undefined)"

definition add_train_switch :: "train_args arg_action" where
  "add_train_switch c a st =
     (if c = CHR ''i'' then
        (case read_word st of (w, st') \<Rightarrow>
           Inr (case w of None \<Rightarrow> a | Some s \<Rightarrow> a\<lparr>ta_trainID := s\<rparr>, st'))
      else if c = CHR ''n'' then
        (case read_int st of (v, st') \<Rightarrow>
           Inr (case v of None \<Rightarrow> a | Some _ \<Rightarrow> a\<lparr>ta_stationNum := v\<rparr>, st'))
      else if c = CHR ''m'' then
        (case read_int st of (v, st') \<Rightarrow>
           Inr (case v of None \<Rightarrow> a | Some _ \<Rightarrow> a\<lparr>ta_seatNum := v\<rparr>, st'))
      else if c = CHR ''s'' then
        (case read_raw st of (raw, st') \<Rightarrow> (case getline_pieces bars raw of (ps, clears) \<Rightarrow>
           rbind (set_stations 0 ps clears (ta_stations a)) (\<lambda>s. Inr (a\<lparr>ta_stations := s\<rparr>, st'))))
      else if c = CHR ''p'' then
        (case read_raw st of (raw, st') \<Rightarrow>
           rbind (scan_cells 0 (fst (getline_pieces bars raw)) (ta_prices a))
             (\<lambda>p. Inr (a\<lparr>ta_prices := p\<rparr>, st')))
      else if c = CHR ''x'' then
        (case read_raw st of (raw, st') \<Rightarrow>
           (case scan_ints '':'' (c_str raw) of
              [Some hh, Some mm] \<Rightarrow>
                if - 2147483648 \<le> hh * 60 + mm \<and> hh * 60 + mm < 2147483648
                then Inr (a\<lparr>ta_startTime := Some (hh * 60 + mm)\<rparr>, st')
                else Inl Undefined
            | _ \<Rightarrow> Inl Undefined))
      else if c = CHR ''t'' then
        (case read_raw st of (raw, st') \<Rightarrow>
           rbind (scan_cells 0 (fst (getline_pieces bars raw)) (ta_travelTimes a))
             (\<lambda>t. Inr (a\<lparr>ta_travelTimes := t\<rparr>, st')))
      else if c = CHR ''o'' then
        (case read_raw st of (raw, st') \<Rightarrow>
           rbind (scan_cells 1 (fst (getline_pieces bars raw)) (ta_stopoverTimes a))
             (\<lambda>t. Inr (a\<lparr>ta_stopoverTimes := t\<rparr>, st')))
      else if c = CHR ''d'' then
        (case read_raw st of (raw, st') \<Rightarrow>
           rbind (scan_sale_dates raw) (\<lambda>d. Inr (a\<lparr>ta_saleDate := Some d\<rparr>, st')))
      else if c = CHR ''y'' then
        (case read_char2 st of (y, st') \<Rightarrow>
           Inr (case y of None \<Rightarrow> a | Some _ \<Rightarrow> a\<lparr>ta_type := y\<rparr>, st'))
      else Inl Runtime_error)"

section \<open>Adding a train\<close>

text \<open>The first \<open>n\<close> cells of an array, converted by \<open>f\<close>.\<close>

definition copy_cells :: "int \<Rightarrow> (int \<Rightarrow> nat) \<Rightarrow> int cells \<Rightarrow> nat cells" where
  "copy_cells n f a i = (if int i < n then map_option f (a i) else None)"

definition make_ticket_prices :: "string \<Rightarrow> int \<Rightarrow> int cells \<Rightarrow> ticket_price_data result" where
  "make_ticket_prices trainID n prices =
     rbind (strcpy 21 trainID) (\<lambda>t. Inr \<lparr>tp_trainID = t, tp_price = copy_cells (n - 1) (to_u 32) prices\<rparr>)"

definition make_core_train :: "train_args \<Rightarrow> int \<Rightarrow> core_train_data result" where
  "make_core_train a n =
     rbind (strcpy 21 (ta_trainID a)) (\<lambda>t.
       case (ta_seatNum a, ta_startTime a, ta_saleDate a, ta_type a) of
         (Some seatNum, Some startTime, Some (sale_beg, sale_end), Some y) \<Rightarrow>
           Inr \<lparr>ct_trainID = t, ct_stationNum = to_u 8 n,
                ct_stations_hash = (\<lambda>i. if int i < n then Some (split_mix64_hash (ta_stations a i)) else None),
                ct_seatNum = to_u 18 seatNum, ct_startTime = to_u 12 startTime,
                ct_saleDate_beg = to_u 10 sale_beg, ct_saleDate_end = to_u 10 sale_end,
                ct_type = to_u 6 (of_char y - 65), ct_is_released = False,
                ct_travelTime = copy_cells (n - 1) (to_u 16) (ta_travelTimes a),
                ct_stopoverTime = copy_cells (n - 1) (to_u 16) (ta_stopoverTimes a)\<rparr>
       | _ \<Rightarrow> Inl Undefined)"

definition make_station_names :: "int \<Rightarrow> (nat \<Rightarrow> string) \<Rightarrow> station_name_data result" where
  "make_station_names n stations =
     (if \<forall>i \<in> set [0..<nat n]. length (stations i) \<le> 40
      then Inr (\<lambda>i. if int i < n then Some (c_str (stations i)) else None)
      else Inl Undefined)"

definition make_seats :: "core_train_data \<Rightarrow> seats_data" where
  "make_seats core =
     \<lparr>sd_seat = (\<lambda>i. if int i < int (ct_stationNum core) - 1 then Some (ct_seatNum core) else None),
      sd_max_seats = ct_seatNum core\<rparr>"

definition day_count :: "core_train_data \<Rightarrow> nat" where
  "day_count core = nat (int (ct_saleDate_end core) - int (ct_saleDate_beg core) + 1)"

fun put_seats :: "hash_t \<Rightarrow> seats_data \<Rightarrow> nat list \<Rightarrow> (hash_t \<times> nat, seats_data) disk_map
    \<Rightarrow> (hash_t \<times> nat, seats_data) disk_map result" where
  "put_seats train sd [] m = Inr m"
| "put_seats train sd (i # is) m =
     rbind (dm_put (<) (train, to_u 8 (int i)) sd m) (\<lambda>(_, m'). put_seats train sd is m')"

text \<open>Loops to \<^verbatim>\<open>stationNum\<close> come before and after the check for the name; the arrays have 100
  and 99 elements.\<close>

definition add_train_body :: "train_args \<Rightarrow> engine \<Rightarrow> string step" where
  "add_train_body a e =
     (let train = split_mix64_hash (ta_trainID a)
      in attempt (of_option Undefined (ta_stationNum a)) e (\<lambda>n.
         if dm_has_key (<) train (ticket_price_data_storage e) then (Inr ''-1'', e)
         else if 100 < n \<or> 100 < to_u 8 n then (Inl Undefined, e)
         else attempt (make_ticket_prices (ta_trainID a) n (ta_prices a)) e (\<lambda>prices.
           attempt (dm_put (<) train prices (ticket_price_data_storage e)) e (\<lambda>(_, tp).
             let e1 = e\<lparr>ticket_price_data_storage := tp\<rparr>
             in attempt (make_core_train a n) e1 (\<lambda>core.
               attempt (dm_put (<) train core (core_train_data_storage e1)) e1 (\<lambda>(_, ct).
                 let e2 = e1\<lparr>core_train_data_storage := ct\<rparr>
                 in attempt (make_station_names n (ta_stations a)) e2 (\<lambda>names.
                   attempt (dm_put (<) train names (station_name_data_storage e2)) e2 (\<lambda>(_, sn).
                     let e3 = e2\<lparr>station_name_data_storage := sn\<rparr>
                     in attempt (put_seats train (make_seats core) [0..<day_count core] (seats_data_storage e3)) e3
                          (\<lambda>sd. (Inr ''0'', e3\<lparr>seats_data_storage := sd\<rparr>))))))))))"

definition add_train :: "string \<Rightarrow> engine \<Rightarrow> string step" where
  "add_train = run_handler add_train_switch no_train_args add_train_body"

section \<open>Deleting and releasing\<close>

definition train_id_switch :: "args arg_action" where
  "train_id_switch c a st = (if c = CHR ''i'' then take_word c a st else ignore_option c a st)"

text \<open>The check both handlers start with: \<open>None\<close> is the answer \<^verbatim>\<open>-1\<close>.\<close>

definition unreleased_train :: "hash_t \<Rightarrow> engine \<Rightarrow> core_train_data option result" where
  "unreleased_train train e =
     (case dm_get (<) train (core_train_data_storage e) of
        Inl err \<Rightarrow> if err = Runtime_error then Inr None else Inl err
      | Inr core \<Rightarrow> Inr (if ct_is_released core then None else Some core))"

fun remove_seats :: "hash_t \<Rightarrow> nat list \<Rightarrow> (hash_t \<times> nat, seats_data) disk_map
    \<Rightarrow> (hash_t \<times> nat, seats_data) disk_map" where
  "remove_seats train [] m = m"
| "remove_seats train (i # is) m = remove_seats train is (snd (dm_remove (<) (train, to_u 8 (int i)) m))"

definition delete_train_body :: "args \<Rightarrow> engine \<Rightarrow> string step" where
  "delete_train_body a e =
     (let train = split_mix64_hash (word_arg a (CHR ''i''))
      in attempt (unreleased_train train e) e (\<lambda>r. case r of
           None \<Rightarrow> (Inr ''-1'', e)
         | Some core \<Rightarrow>
             (Inr ''0'', e\<lparr>core_train_data_storage := snd (dm_remove (<) train (core_train_data_storage e)),
                ticket_price_data_storage := snd (dm_remove (<) train (ticket_price_data_storage e)),
                station_name_data_storage := snd (dm_remove (<) train (station_name_data_storage e)),
                seats_data_storage := remove_seats train [0..<day_count core] (seats_data_storage e)\<rparr>)))"

definition delete_train :: "string \<Rightarrow> engine \<Rightarrow> string step" where
  "delete_train = run_handler train_id_switch no_args delete_train_body"

text \<open>The loop over the stops; \<open>vis\<close> is \<^verbatim>\<open>vis_time_offset\<close>.\<close>

fun release_stops :: "core_train_data \<Rightarrow> hash_t \<Rightarrow> nat list \<Rightarrow> int \<Rightarrow> register \<Rightarrow> register result" where
  "release_stops core train [] vis reg = Inr reg"
| "release_stops core train (i # is) vis reg =
     rbind (if i \<noteq> 0 then rbind (cell 100 (ct_travelTime core) (i - 1)) (\<lambda>t. Inr (vis + int t)) else Inr vis)
       (\<lambda>vis1. rbind (if i \<noteq> 0 \<and> int i \<noteq> int (ct_stationNum core) - 1
                     then rbind (cell 100 (ct_stopoverTime core) i) (\<lambda>s. Inr (vis1 + int s)) else Inr vis1)
          (\<lambda>vis2. rbind (cell 100 (ct_stations_hash core) i)
             (\<lambda>station. release_stops core train is vis2
                (add_stop_info station train (ct_saleDate_beg core) (ct_saleDate_end core) (ct_startTime core)
                   (if i \<noteq> 0 then to_u 16 vis1 else no_offset)
                   (if int i \<noteq> int (ct_stationNum core) - 1 then to_u 16 vis2 else no_offset)
                   i reg))))"

definition release_train_body :: "args \<Rightarrow> engine \<Rightarrow> string step" where
  "release_train_body a e =
     (let train = split_mix64_hash (word_arg a (CHR ''i''))
      in attempt (unreleased_train train e) e (\<lambda>r. case r of
           None \<Rightarrow> (Inr ''-1'', e)
         | Some core0 \<Rightarrow>
             let core = core0\<lparr>ct_is_released := True\<rparr>
             in attempt (dm_put (<) train core (core_train_data_storage e)) e (\<lambda>(_, ct).
               let e1 = e\<lparr>core_train_data_storage := ct\<rparr>
               in attempt (release_stops core train [0..<ct_stationNum core] 0 (stop_register e1)) e1 (\<lambda>reg.
                 (Inr ''0'', e1\<lparr>stop_register := reg,
                    transaction_manager := prepare_train_info train (day_count core) (transaction_manager e1)\<rparr>)))))"

definition release_train :: "string \<Rightarrow> engine \<Rightarrow> string step" where
  "release_train = run_handler train_id_switch no_args release_train_body"

section \<open>Querying a train\<close>

definition query_train_switch :: "args arg_action" where
  "query_train_switch c a st =
     (if c = CHR ''i'' then take_word c a st else if c = CHR ''d'' then take_date c a st
      else ignore_option c a st)"

text \<open>The lines of the answer. The travel time added after the last stop is not used.\<close>

fun train_lines :: "core_train_data \<Rightarrow> station_name_data \<Rightarrow> nat cells \<Rightarrow> nat cells \<Rightarrow> nat list \<Rightarrow> int \<Rightarrow> int
    \<Rightarrow> string result" where
  "train_lines core names price seat [] cur_time total_price = Inr []"
| "train_lines core names price seat (i # is) cur_time total_price =
     rbind (cell 100 names i) (\<lambda>name. rbind (print_full_time_stamp cur_time) (\<lambda>stamp.
       rbind (if i = 0 then
                rbind (cell 99 seat i) (\<lambda>s.
                  Inr (cur_time, '' xx-xx xx:xx -> '' @ stamp @ '' '' @ show_int total_price @ '' '' @ show_nat s))
              else if int i < int (ct_stationNum core) - 1 then
                rbind (cell 100 (ct_stopoverTime core) i) (\<lambda>w.
                  rbind (print_full_time_stamp (cur_time + int w)) (\<lambda>leave. rbind (cell 99 seat i) (\<lambda>s.
                    Inr (cur_time + int w,
                         '' '' @ stamp @ '' -> '' @ leave @ '' '' @ show_int total_price @ '' '' @ show_nat s))))
              else Inr (cur_time, '' '' @ stamp @ '' -> xx-xx xx:xx '' @ show_int total_price @ '' x''))
         (\<lambda>(cur1, line).
            if int i \<noteq> int (ct_stationNum core) - 1 then
              rbind (cell 99 price i) (\<lambda>p. rbind (cell 100 (ct_travelTime core) i) (\<lambda>t.
                rbind (train_lines core names price seat is (cur1 + int t) (add_price total_price p))
                  (\<lambda>more. Inr (name @ line @ [char_of (10 :: nat)] @ more))))
            else rbind (train_lines core names price seat is cur1 total_price) (\<lambda>more. Inr (name @ line @ more)))))"

definition query_train_body :: "args \<Rightarrow> engine \<Rightarrow> string step" where
  "query_train_body a e =
     (let trainID = word_arg a (CHR ''i''); train = split_mix64_hash trainID
      in case dm_get (<) train (core_train_data_storage e) of
           Inl err \<Rightarrow> (if err = Runtime_error then Inr ''-1'' else Inl err, e)
         | Inr core \<Rightarrow>
             (rbind (of_option Undefined (int_arg a (CHR ''d''))) (\<lambda>date.
                if date < int (ct_saleDate_beg core) \<or> date > int (ct_saleDate_end core) then Inr ''-1''
                else rbind (dm_get (<) train (station_name_data_storage e)) (\<lambda>names.
                  rbind (dm_get (<) train (ticket_price_data_storage e)) (\<lambda>prices.
                    rbind (dm_get (<) (train, to_u 8 (date - int (ct_saleDate_beg core))) (seats_data_storage e)) (\<lambda>seats.
                      rbind (train_lines core names (tp_price prices) (sd_seat seats) [0..<ct_stationNum core]
                               (date * 1440 + int (ct_startTime core)) 0)
                        (\<lambda>lines. Inr (trainID @ '' '' @ [char_of (ct_type core + 65)] @
                           [char_of (10 :: nat)] @ lines)))))), e))"

definition query_train :: "string \<Rightarrow> engine \<Rightarrow> string step" where
  "query_train = run_handler query_train_switch no_args query_train_body"

section \<open>Seats of all running days\<close>

text \<open>The second components of the keys under which the seats of a train are stored.\<close>

definition run_days :: "core_train_data \<Rightarrow> nat set" where
  "run_days core = (\<lambda>i. to_u 8 (int i)) ` {0..<day_count core}"

lemma put_seats_effect:
  assumes "dm_inv (<) m"
  shows "\<exists>m'. put_seats train sd is m = Inr m' \<and> dm_inv (<) m' \<and>
    lookup m' = (\<lambda>k. if fst k = train \<and> snd k \<in> (\<lambda>i. to_u 8 (int i)) ` set is then Some sd else lookup m k)"
  using assms
proof (induction "is" arbitrary: m)
  case (Cons i "is")
  obtain m1 where m1: "dm_put (<) (train, to_u 8 (int i)) sd m = Inr (lookup m (train, to_u 8 (int i)) = None, m1)"
    "dm_inv (<) m1" "lookup m1 = (lookup m)((train, to_u 8 (int i)) := Some sd)"
    using Cons.prems by (rule put_Some)
  obtain m' where "put_seats train sd is m1 = Inr m'" "dm_inv (<) m'"
    "lookup m' = (\<lambda>k. if fst k = train \<and> snd k \<in> (\<lambda>i. to_u 8 (int i)) ` set is then Some sd else lookup m1 k)"
    using Cons.IH [OF m1(2)] by blast
  with m1 show ?case by (auto simp: fun_eq_iff)
qed simp

lemma put_run_days:
  assumes "dm_inv (<) m"
  shows "\<exists>m'. put_seats train sd [0..<day_count core] m = Inr m' \<and> dm_inv (<) m' \<and>
    lookup m' = (\<lambda>k. if fst k = train \<and> snd k \<in> run_days core then Some sd else lookup m k)"
  using put_seats_effect [OF assms, of train sd "[0..<day_count core]"] unfolding run_days_def by simp

lemma remove_seats_effect:
  assumes "dm_inv (<) m"
  shows "dm_inv (<) (remove_seats train is m) \<and>
    lookup (remove_seats train is m) =
      (\<lambda>k. if fst k = train \<and> snd k \<in> (\<lambda>i. to_u 8 (int i)) ` set is then None else lookup m k)"
  using assms
proof (induction "is" arbitrary: m)
  case (Cons i "is")
  obtain m1 where m1: "dm_remove (<) (train, to_u 8 (int i)) m = (lookup m (train, to_u 8 (int i)) \<noteq> None, m1)"
    "dm_inv (<) m1" "lookup m1 = (lookup m)((train, to_u 8 (int i)) := None)"
    using Cons.prems by (rule remove_Some)
  then show ?case using Cons.IH [OF m1(2)] by (auto simp: fun_eq_iff)
qed simp

section \<open>What the bodies do\<close>

definition add_train_data :: "train_args \<Rightarrow> ticket_price_data \<Rightarrow> core_train_data \<Rightarrow> station_name_data \<Rightarrow> bool" where
  "add_train_data a prices core names \<longleftrightarrow>
     (\<exists>n. ta_stationNum a = Some n \<and> n \<le> 100 \<and> to_u 8 n \<le> 100 \<and>
        make_ticket_prices (ta_trainID a) n (ta_prices a) = Inr prices \<and>
        make_core_train a n = Inr core \<and> make_station_names n (ta_stations a) = Inr names)"

text \<open>The four maps of the train data, seen as functions.\<close>

definition train_maps :: "engine \<Rightarrow> (hash_t \<rightharpoonup> ticket_price_data) \<times> (hash_t \<rightharpoonup> core_train_data) \<times>
    (hash_t \<rightharpoonup> station_name_data) \<times> (hash_t \<times> nat \<rightharpoonup> seats_data)" where
  "train_maps e = (lookup (ticket_price_data_storage e), lookup (core_train_data_storage e),
     lookup (station_name_data_storage e), lookup (seats_data_storage e))"

text \<open>What is not train data.\<close>

definition same_rest :: "engine \<Rightarrow> engine \<Rightarrow> bool" where
  "same_rest e e' \<longleftrightarrow> its_time_to_exit e' = its_time_to_exit e \<and> online_users e' = online_users e \<and>
     user_data e' = user_data e"

lemma add_train_effect:
  assumes "maps_inv e"
  shows "(\<exists>prices core names e'. lookup (ticket_price_data_storage e) (split_mix64_hash (ta_trainID a)) = None \<and>
      add_train_data a prices core names \<and> add_train_body a e = (Inr ''0'', e') \<and> maps_inv e' \<and> same_rest e e' \<and>
      stop_register e' = stop_register e \<and> transaction_manager e' = transaction_manager e \<and>
      (let h = split_mix64_hash (ta_trainID a)
       in train_maps e' = ((lookup (ticket_price_data_storage e))(h := Some prices),
            (lookup (core_train_data_storage e))(h := Some core),
            (lookup (station_name_data_storage e))(h := Some names),
            (\<lambda>k. if fst k = h \<and> snd k \<in> run_days core then Some (make_seats core)
                 else lookup (seats_data_storage e) k)))) \<or>
    (lookup (ticket_price_data_storage e) (split_mix64_hash (ta_trainID a)) \<noteq> None \<and>
      add_train_body a e = (Inr ''-1'', e)) \<or>
    fst (add_train_body a e) = Inl Undefined"
proof -
  let ?h = "split_mix64_hash (ta_trainID a)"
  have inv: "dm_inv (<) (ticket_price_data_storage e)" "dm_inv (<) (core_train_data_storage e)"
    "dm_inv (<) (station_name_data_storage e)" "dm_inv (<) (seats_data_storage e)"
    using assms by (simp_all add: maps_inv_def)
  have undef: "make_ticket_prices t n p = Inl err \<Longrightarrow> err = Undefined"
    "make_core_train a n = Inl err \<Longrightarrow> err = Undefined"
    "make_station_names n s = Inl err \<Longrightarrow> err = Undefined" for t n p s err
    by (auto simp: make_ticket_prices_def make_core_train_def make_station_names_def strcpy_def
        split: if_splits option.splits prod.splits)
  show ?thesis
  proof (cases "ta_stationNum a")
    case None
    then show ?thesis by (simp add: add_train_body_def Let_def)
  next
    case (Some n)
    show ?thesis
    proof (cases "lookup (ticket_price_data_storage e) ?h")
      case taken: (Some p)
      with Some show ?thesis by (simp add: add_train_body_def Let_def has_lookup [OF inv(1)])
    next
      case free: None
      note body = add_train_body_def Let_def has_lookup [OF inv(1)] Some free
      show ?thesis
      proof (cases "100 < n \<or> 100 < to_u 8 n")
        case True
        then show ?thesis by (auto simp: body)
      next
        case small: False
        show ?thesis
        proof (cases "make_ticket_prices (ta_trainID a) n (ta_prices a)")
          case (Inl err)
          with undef(1) [OF Inl] small show ?thesis by (simp add: body)
        next
          case prices: (Inr prices)
          obtain tp where tp: "dm_put (<) ?h prices (ticket_price_data_storage e) =
              Inr (lookup (ticket_price_data_storage e) ?h = None, tp)"
            "dm_inv (<) tp" "lookup tp = (lookup (ticket_price_data_storage e))(?h := Some prices)"
            using inv(1) by (rule put_Some)
          show ?thesis
          proof (cases "make_core_train a n")
            case (Inl err)
            with undef(2) [OF Inl] small prices tp(1) show ?thesis by (simp add: body)
          next
            case core: (Inr core)
            obtain ct where ct: "dm_put (<) ?h core (core_train_data_storage e) =
                Inr (lookup (core_train_data_storage e) ?h = None, ct)"
              "dm_inv (<) ct" "lookup ct = (lookup (core_train_data_storage e))(?h := Some core)"
              using inv(2) by (rule put_Some)
            show ?thesis
            proof (cases "make_station_names n (ta_stations a)")
              case (Inl err)
              with undef(3) [OF Inl] small prices core tp(1) ct(1) show ?thesis by (simp add: body)
            next
              case names: (Inr names)
              obtain sn where sn: "dm_put (<) ?h names (station_name_data_storage e) =
                  Inr (lookup (station_name_data_storage e) ?h = None, sn)"
                "dm_inv (<) sn" "lookup sn = (lookup (station_name_data_storage e))(?h := Some names)"
                using inv(3) by (rule put_Some)
              obtain sd where sd: "put_seats ?h (make_seats core) [0..<day_count core] (seats_data_storage e) = Inr sd"
                "dm_inv (<) sd" "lookup sd = (\<lambda>k. if fst k = ?h \<and> snd k \<in> run_days core
                   then Some (make_seats core) else lookup (seats_data_storage e) k)"
                using put_run_days [OF inv(4)] by blast
              let ?e' = "e\<lparr>ticket_price_data_storage := tp, core_train_data_storage := ct,
                  station_name_data_storage := sn, seats_data_storage := sd\<rparr>"
              have "add_train_body a e = (Inr ''0'', ?e')"
                using small prices core names tp(1) ct(1) sn(1) sd(1) by (simp add: body)
              moreover have "maps_inv ?e'" using assms tp ct sn sd by (simp add: maps_inv_def)
              moreover have "add_train_data a prices core names"
                using small prices core names Some by (simp add: add_train_data_def)
              ultimately show ?thesis
                using free tp(3) ct(3) sn(3) sd(3)
                by (intro disjI1 exI [of _ prices] exI [of _ core] exI [of _ names] exI [of _ ?e'])
                  (simp add: same_rest_def train_maps_def Let_def)
            qed
          qed
        qed
      qed
    qed
  qed
qed

lemma unreleased_train_eq:
  assumes "maps_inv e"
  shows "unreleased_train h e = Inr (case lookup (core_train_data_storage e) h of None \<Rightarrow> None
    | Some core \<Rightarrow> if ct_is_released core then None else Some core)"
  using assms by (auto simp: unreleased_train_def get_lookup maps_inv_def split: option.splits)

lemma delete_train_effect:
  assumes "maps_inv e"
  shows "(\<exists>core e'. lookup (core_train_data_storage e) (split_mix64_hash (word_arg a (CHR ''i''))) = Some core \<and>
      \<not> ct_is_released core \<and> delete_train_body a e = (Inr ''0'', e') \<and> maps_inv e' \<and> same_rest e e' \<and>
      stop_register e' = stop_register e \<and> transaction_manager e' = transaction_manager e \<and>
      (let h = split_mix64_hash (word_arg a (CHR ''i''))
       in train_maps e' = ((lookup (ticket_price_data_storage e))(h := None),
            (lookup (core_train_data_storage e))(h := None),
            (lookup (station_name_data_storage e))(h := None),
            (\<lambda>k. if fst k = h \<and> snd k \<in> run_days core then None else lookup (seats_data_storage e) k)))) \<or>
    ((\<forall>core. lookup (core_train_data_storage e) (split_mix64_hash (word_arg a (CHR ''i''))) = Some core \<longrightarrow>
        ct_is_released core) \<and> delete_train_body a e = (Inr ''-1'', e))"
proof -
  let ?h = "split_mix64_hash (word_arg a (CHR ''i''))"
  have inv: "dm_inv (<) (ticket_price_data_storage e)" "dm_inv (<) (core_train_data_storage e)"
    "dm_inv (<) (station_name_data_storage e)" "dm_inv (<) (seats_data_storage e)"
    using assms by (simp_all add: maps_inv_def)
  show ?thesis
  proof (cases "\<exists>core. lookup (core_train_data_storage e) ?h = Some core \<and> \<not> ct_is_released core")
    case False
    then show ?thesis
      by (auto simp: delete_train_body_def Let_def unreleased_train_eq [OF assms] split: option.splits)
  next
    case True
    then obtain core where core: "lookup (core_train_data_storage e) ?h = Some core" "\<not> ct_is_released core"
      by blast
    obtain tp where tp: "dm_remove (<) ?h (ticket_price_data_storage e) =
        (lookup (ticket_price_data_storage e) ?h \<noteq> None, tp)"
      "dm_inv (<) tp" "lookup tp = (lookup (ticket_price_data_storage e))(?h := None)"
      using inv(1) by (rule remove_Some)
    obtain ct where ct: "dm_remove (<) ?h (core_train_data_storage e) =
        (lookup (core_train_data_storage e) ?h \<noteq> None, ct)"
      "dm_inv (<) ct" "lookup ct = (lookup (core_train_data_storage e))(?h := None)"
      using inv(2) by (rule remove_Some)
    obtain sn where sn: "dm_remove (<) ?h (station_name_data_storage e) =
        (lookup (station_name_data_storage e) ?h \<noteq> None, sn)"
      "dm_inv (<) sn" "lookup sn = (lookup (station_name_data_storage e))(?h := None)"
      using inv(3) by (rule remove_Some)
    let ?sd = "remove_seats ?h [0..<day_count core] (seats_data_storage e)"
    have sd: "dm_inv (<) ?sd" "lookup ?sd = (\<lambda>k. if fst k = ?h \<and> snd k \<in> run_days core then None
        else lookup (seats_data_storage e) k)"
      using remove_seats_effect [OF inv(4), of ?h "[0..<day_count core]"] unfolding run_days_def by simp_all
    let ?e' = "e\<lparr>core_train_data_storage := ct, ticket_price_data_storage := tp,
        station_name_data_storage := sn, seats_data_storage := ?sd\<rparr>"
    have "delete_train_body a e = (Inr ''0'', ?e')"
      using core tp(1) ct(1) sn(1) by (simp add: delete_train_body_def Let_def unreleased_train_eq [OF assms])
    moreover have "maps_inv ?e'" using assms tp ct sn sd by (simp add: maps_inv_def)
    ultimately show ?thesis
      using core tp(3) ct(3) sn(3) sd(2)
      by (intro disjI1 exI [of _ core] exI [of _ ?e']) (simp add: same_rest_def train_maps_def Let_def)
  qed
qed

lemma release_train_effect:
  assumes "maps_inv e" "release_train_body a e = (Inr r, e')"
  defines "h \<equiv> split_mix64_hash (word_arg a (CHR ''i''))"
  shows "(\<exists>core. r = ''0'' \<and> lookup (core_train_data_storage e) h = Some core \<and> \<not> ct_is_released core \<and>
      maps_inv e' \<and> same_rest e e' \<and>
      release_stops (core\<lparr>ct_is_released := True\<rparr>) h [0..<ct_stationNum core] 0 (stop_register e) =
        Inr (stop_register e') \<and>
      transaction_manager e' = prepare_train_info h (day_count core) (transaction_manager e) \<and>
      train_maps e' = (lookup (ticket_price_data_storage e),
        (lookup (core_train_data_storage e))(h := Some (core\<lparr>ct_is_released := True\<rparr>)),
        lookup (station_name_data_storage e), lookup (seats_data_storage e))) \<or>
    (r = ''-1'' \<and> e' = e \<and> (\<forall>core. lookup (core_train_data_storage e) h = Some core \<longrightarrow> ct_is_released core))"
proof (cases "\<exists>core. lookup (core_train_data_storage e) h = Some core \<and> \<not> ct_is_released core")
  case False
  then have "release_train_body a e = (Inr ''-1'', e)"
    unfolding release_train_body_def h_def
    by (auto simp: Let_def unreleased_train_eq [OF assms(1)] split: option.splits)
  with assms(2) False show ?thesis by auto
next
  case True
  then obtain core where core: "lookup (core_train_data_storage e) h = Some core" "\<not> ct_is_released core"
    by blast
  let ?core = "core\<lparr>ct_is_released := True\<rparr>"
  have "dm_inv (<) (core_train_data_storage e)" using assms(1) by (simp add: maps_inv_def)
  then obtain ct where ct: "dm_put (<) h ?core (core_train_data_storage e) =
      Inr (lookup (core_train_data_storage e) h = None, ct)"
    "dm_inv (<) ct" "lookup ct = (lookup (core_train_data_storage e))(h := Some ?core)"
    by (rule put_Some)
  have body: "release_train_body a e =
      attempt (release_stops ?core h [0..<ct_stationNum core] 0 (stop_register e)) (e\<lparr>core_train_data_storage := ct\<rparr>)
        (\<lambda>reg. (Inr ''0'', e\<lparr>core_train_data_storage := ct, stop_register := reg,
           transaction_manager := prepare_train_info h (day_count core) (transaction_manager e)\<rparr>))"
    using core ct(1) unfolding release_train_body_def h_def
    by (simp add: Let_def unreleased_train_eq [OF assms(1)] day_count_def)
  then obtain reg where "release_stops ?core h [0..<ct_stationNum core] 0 (stop_register e) = Inr reg"
    using assms(2) by (cases "release_stops ?core h [0..<ct_stationNum core] 0 (stop_register e)") auto
  with body assms core ct show ?thesis
    by (auto simp: same_rest_def train_maps_def maps_inv_def)
qed

section \<open>The invariant of the train data\<close>

text \<open>The three maps by train agree on their domain, the seats exist for exactly the running days
  of the stored trains, and the register holds released trains only.\<close>

definition train_inv :: "engine \<Rightarrow> bool" where
  "train_inv e \<longleftrightarrow> maps_inv e \<and>
     (let (tp, ct, sn, sd) = train_maps e
      in dom tp = dom ct \<and> dom sn = dom ct \<and>
         dom sd = {(h, d). \<exists>c. ct h = Some c \<and> d \<in> run_days c} \<and>
         (\<forall>en \<in> set (chain (stop_register e)). \<exists>c. ct (train_ID_hash (fst en)) = Some c \<and> ct_is_released c)) \<and>
     register_inv (stop_register e)"

datatype train_status = Absent | Added | Released

definition train_status :: "hash_t \<Rightarrow> engine \<Rightarrow> train_status" where
  "train_status h e =
     (case lookup (core_train_data_storage e) h of None \<Rightarrow> Absent
      | Some c \<Rightarrow> if ct_is_released c then Released else Added)"

text \<open>New entries of the register belong to the train that is released.\<close>

lemma add_stop_trains:
  assumes "register_inv reg" "one_start train start reg"
    "en \<in> set (chain (add_stop_info station train b e start ao lo stop reg))"
  shows "train_ID_hash (fst en) = train \<or> en \<in> set (chain reg)"
proof -
  define key where "key t = \<lparr>station_ID_hash = station, train_ID_hash = train, stop_type = t,
      sk_startTime = to_u 12 (int start), stop_id = stop\<rparr>" for t
  have step: "(register_inv r \<and> one_start train start r) \<Longrightarrow>
      en' \<in> set (chain (idx_put stop_less (key t) (pack_record b e off) r)) \<Longrightarrow>
      train_ID_hash (fst en') = train \<or> en' \<in> set (chain r)" for r en' t off
  proof -
    assume r: "register_inv r \<and> one_start train start r"
      and en': "en' \<in> set (chain (idx_put stop_less (key t) (pack_record b e off) r))"
    have "sk_startTime (fst x) = sk_startTime (key t)" if "x \<in> set (chain r)" "same_stop (fst x) (key t)" for x
      using that r by (simp add: one_start_def same_stop_def key_def)
    moreover have "packed (key t, pack_record b e off)" by (simp add: key_def packed_record)
    ultimately have "en' \<in> {(k', pack_record b e off) | k'. same_stop k' (key t) \<and>
        sk_startTime k' = sk_startTime (key t)} \<union> set (chain r)"
      using put_register_inv(2) [of r "key t" "pack_record b e off"] r en' by blast
    then show ?thesis by (auto simp: same_stop_def key_def)
  qed
  let ?r1 = "if ao \<noteq> no_offset then idx_put stop_less (key 0) (pack_record b e ao) reg else reg"
  have one: "register_inv ?r1 \<and> one_start train start ?r1"
    using put_one_start [OF assms(1,2), of "key 0"] assms(1,2) by (auto simp: key_def packed_record)
  have add: "add_stop_info station train b e start ao lo stop reg =
      (if lo \<noteq> no_offset then idx_put stop_less (key 1) (pack_record b e lo) ?r1 else ?r1)"
    by (simp add: add_stop_info_def key_def Let_def)
  have "train_ID_hash (fst en) = train \<or> en \<in> set (chain ?r1)"
    using assms(3) step [OF one] unfolding add by (auto split: if_splits)
  then show ?thesis using step [of reg en 0 ao] assms(1,2) by (auto split: if_splits)
qed

lemma release_stops_register:
  assumes "register_inv reg" "one_start train (ct_startTime core) reg"
    "release_stops core train is vis reg = Inr reg'"
  shows "register_inv reg' \<and> (\<forall>en \<in> set (chain reg'). train_ID_hash (fst en) = train \<or> en \<in> set (chain reg))"
  using assms
proof (induction "is" arbitrary: vis reg)
  case (Cons i "is")
  then obtain vis2 station ao lo where st: "release_stops core train is vis2
      (add_stop_info station train (ct_saleDate_beg core) (ct_saleDate_end core) (ct_startTime core) ao lo i reg) = Inr reg'"
    by (auto simp: rbind_Inr simp del: cell_Inr)
  note keeps = add_stop_keeps [OF Cons.prems(1,2), of station "ct_saleDate_beg core" "ct_saleDate_end core" ao lo i]
  show ?case
    using Cons.IH [OF _ _ st] keeps add_stop_trains [OF Cons.prems(1,2)] by blast
qed simp

lemma train_invI:
  assumes "maps_inv e" "train_maps e = (tp, ct, sn, sd)" "register_inv (stop_register e)"
    "dom tp = dom ct" "dom sn = dom ct" "dom sd = {(h, d). \<exists>c. ct h = Some c \<and> d \<in> run_days c}"
    "\<And>en. en \<in> set (chain (stop_register e)) \<Longrightarrow> \<exists>c. ct (train_ID_hash (fst en)) = Some c \<and> ct_is_released c"
  shows "train_inv e"
  using assms by (simp add: train_inv_def)

lemma train_invD:
  assumes "train_inv e"
  shows "maps_inv e" "register_inv (stop_register e)"
    "dom (lookup (ticket_price_data_storage e)) = dom (lookup (core_train_data_storage e))"
    "dom (lookup (station_name_data_storage e)) = dom (lookup (core_train_data_storage e))"
    "dom (lookup (seats_data_storage e)) =
      {(h, d). \<exists>c. lookup (core_train_data_storage e) h = Some c \<and> d \<in> run_days c}"
    "\<And>en. en \<in> set (chain (stop_register e)) \<Longrightarrow>
      \<exists>c. lookup (core_train_data_storage e) (train_ID_hash (fst en)) = Some c \<and> ct_is_released c"
  using assms by (simp_all add: train_inv_def train_maps_def)

lemma make_core_unreleased: "make_core_train a n = Inr core \<Longrightarrow> \<not> ct_is_released core"
  by (auto simp: make_core_train_def strcpy_def split: option.splits prod.splits if_splits)

lemma train_seats_None:
  assumes "train_inv e"
  shows "lookup (seats_data_storage e) (h, d) = None \<longleftrightarrow>
    (\<forall>c. lookup (core_train_data_storage e) h = Some c \<longrightarrow> d \<notin> run_days c)"
proof -
  have "(h, d) \<in> dom (lookup (seats_data_storage e)) \<longleftrightarrow>
      (\<exists>c. lookup (core_train_data_storage e) h = Some c \<and> d \<in> run_days c)"
    unfolding train_invD(5) [OF assms] by simp
  then show ?thesis by (auto simp: dom_def)
qed

lemma add_train_inv:
  assumes inv: "train_inv e" and run: "add_train_body a e = (Inr r, e')"
  defines "h \<equiv> split_mix64_hash (ta_trainID a)"
  shows "train_inv e' \<and>
    ((r = ''0'' \<and> train_status h e = Absent \<and> train_status h e' = Added \<and>
      (\<forall>h'. h' \<noteq> h \<longrightarrow> train_status h' e' = train_status h' e)) \<or>
     (r = ''-1'' \<and> e' = e \<and> train_status h e \<noteq> Absent))"
proof -
  note d = train_invD [OF inv]
  from add_train_effect [OF d(1), of a] run consider
    (added) prices core names where "lookup (ticket_price_data_storage e) h = None" "r = ''0''"
      "add_train_data a prices core names" "maps_inv e'" "stop_register e' = stop_register e"
      "train_maps e' = ((lookup (ticket_price_data_storage e))(h := Some prices),
            (lookup (core_train_data_storage e))(h := Some core),
            (lookup (station_name_data_storage e))(h := Some names),
            (\<lambda>k. if fst k = h \<and> snd k \<in> run_days core then Some (make_seats core)
                 else lookup (seats_data_storage e) k))"
    | (taken) "lookup (ticket_price_data_storage e) h \<noteq> None" "r = ''-1''" "e' = e"
    unfolding h_def Let_def by auto
  then show ?thesis
  proof cases
    case added
    have ct: "lookup (core_train_data_storage e) h = None" using added(1) d(3) by (metis domIff)
    have released: "\<not> ct_is_released core"
      using added(3) make_core_unreleased by (auto simp: add_train_data_def)
    have ct': "lookup (core_train_data_storage e') = (lookup (core_train_data_storage e))(h := Some core)"
      using added(6) by (simp add: train_maps_def)
    have "train_inv e'"
    proof (rule train_invI [OF added(4) added(6)])
      show "register_inv (stop_register e')" using added(5) d(2) by simp
      show "\<exists>c. ((lookup (core_train_data_storage e))(h \<mapsto> core)) (train_ID_hash (fst en)) = Some c \<and> ct_is_released c"
        if "en \<in> set (chain (stop_register e'))" for en
        using d(6) [of en] that ct added(5) by auto
      show "dom (\<lambda>k. if fst k = h \<and> snd k \<in> run_days core then Some (make_seats core)
              else lookup (seats_data_storage e) k) =
          {(h', d). \<exists>c. ((lookup (core_train_data_storage e))(h \<mapsto> core)) h' = Some c \<and> d \<in> run_days c}"
        (is "?A = ?B")
      proof (rule set_eqI)
        show "k \<in> ?A \<longleftrightarrow> k \<in> ?B" for k
          using train_seats_None [OF inv, of "fst k" "snd k"] ct
          by (cases k; cases "lookup (seats_data_storage e) k") (auto split: if_splits)
      qed
    qed (use d(3,4) in auto)
    moreover have "train_status h e = Absent" "train_status h e' = Added"
      "\<And>h'. h' \<noteq> h \<Longrightarrow> train_status h' e' = train_status h' e"
      using ct ct' released by (simp_all add: train_status_def)
    ultimately show ?thesis using added(2) by blast
  next
    case taken
    then have "lookup (core_train_data_storage e) h \<noteq> None" using d(3) by (metis domIff)
    then have "train_status h e \<noteq> Absent" by (auto simp: train_status_def split: if_splits)
    with taken inv show ?thesis by simp
  qed
qed

lemma delete_train_inv:
  assumes inv: "train_inv e" and run: "delete_train_body a e = (Inr r, e')"
  defines "h \<equiv> split_mix64_hash (word_arg a (CHR ''i''))"
  shows "train_inv e' \<and>
    ((r = ''0'' \<and> train_status h e = Added \<and> train_status h e' = Absent \<and>
      (\<forall>h'. h' \<noteq> h \<longrightarrow> train_status h' e' = train_status h' e)) \<or>
     (r = ''-1'' \<and> e' = e \<and> train_status h e \<noteq> Added))"
proof -
  note d = train_invD [OF inv]
  from delete_train_effect [OF d(1), of a] run consider
    (deleted) core where "lookup (core_train_data_storage e) h = Some core" "\<not> ct_is_released core" "r = ''0''"
      "maps_inv e'" "stop_register e' = stop_register e"
      "train_maps e' = ((lookup (ticket_price_data_storage e))(h := None),
            (lookup (core_train_data_storage e))(h := None),
            (lookup (station_name_data_storage e))(h := None),
            (\<lambda>k. if fst k = h \<and> snd k \<in> run_days core then None else lookup (seats_data_storage e) k))"
    | (refused) "\<forall>core. lookup (core_train_data_storage e) h = Some core \<longrightarrow> ct_is_released core" "r = ''-1''" "e' = e"
    unfolding h_def Let_def by auto
  then show ?thesis
  proof cases
    case deleted
    have ct': "lookup (core_train_data_storage e') = (lookup (core_train_data_storage e))(h := None)"
      using deleted(6) by (simp add: train_maps_def)
    have "train_inv e'"
    proof (rule train_invI [OF deleted(4) deleted(6)])
      show "register_inv (stop_register e')" using deleted(5) d(2) by simp
      show "\<exists>c. ((lookup (core_train_data_storage e))(h := None)) (train_ID_hash (fst en)) = Some c \<and> ct_is_released c"
        if "en \<in> set (chain (stop_register e'))" for en
        using d(6) [of en] that deleted(1,2,5) by auto
      show "dom (\<lambda>k. if fst k = h \<and> snd k \<in> run_days core then None else lookup (seats_data_storage e) k) =
          {(h', d). \<exists>c. ((lookup (core_train_data_storage e))(h := None)) h' = Some c \<and> d \<in> run_days c}"
        (is "?A = ?B")
      proof (rule set_eqI)
        show "k \<in> ?A \<longleftrightarrow> k \<in> ?B" for k
          using train_seats_None [OF inv, of "fst k" "snd k"] deleted(1)
          by (cases k; cases "lookup (seats_data_storage e) k") (auto split: if_splits)
      qed
    qed (use d(3,4) in auto)
    moreover have "train_status h e = Added" "train_status h e' = Absent"
      "\<And>h'. h' \<noteq> h \<Longrightarrow> train_status h' e' = train_status h' e"
      using deleted(1,2) ct' by (simp_all add: train_status_def)
    ultimately show ?thesis using deleted(3) by blast
  next
    case refused
    then have "train_status h e \<noteq> Added" by (auto simp: train_status_def split: option.splits)
    with refused inv show ?thesis by simp
  qed
qed

lemma release_train_inv:
  assumes inv: "train_inv e" and run: "release_train_body a e = (Inr r, e')"
  defines "h \<equiv> split_mix64_hash (word_arg a (CHR ''i''))"
  shows "train_inv e' \<and>
    ((r = ''0'' \<and> train_status h e = Added \<and> train_status h e' = Released \<and>
      (\<forall>h'. h' \<noteq> h \<longrightarrow> train_status h' e' = train_status h' e)) \<or>
     (r = ''-1'' \<and> e' = e \<and> train_status h e \<noteq> Added))"
proof -
  note d = train_invD [OF inv]
  from release_train_effect [OF d(1) run] consider
    (released) core where "lookup (core_train_data_storage e) h = Some core" "\<not> ct_is_released core" "r = ''0''"
      "maps_inv e'" "release_stops (core\<lparr>ct_is_released := True\<rparr>) h [0..<ct_stationNum core] 0 (stop_register e) =
        Inr (stop_register e')"
      "train_maps e' = (lookup (ticket_price_data_storage e),
        (lookup (core_train_data_storage e))(h := Some (core\<lparr>ct_is_released := True\<rparr>)),
        lookup (station_name_data_storage e), lookup (seats_data_storage e))"
    | (refused) "\<forall>core. lookup (core_train_data_storage e) h = Some core \<longrightarrow> ct_is_released core" "r = ''-1''" "e' = e"
    unfolding h_def by blast
  then show ?thesis
  proof cases
    case released
    let ?core = "core\<lparr>ct_is_released := True\<rparr>"
    have days: "run_days ?core = run_days core" by (simp add: run_days_def day_count_def)
    have ct': "lookup (core_train_data_storage e') = (lookup (core_train_data_storage e))(h := Some ?core)"
      using released(6) by (simp add: train_maps_def)
    have "one_start h (ct_startTime ?core) (stop_register e)"
      using d(6) released(1,2) by (force simp: one_start_def)
    note reg = release_stops_register [OF d(2) this released(5)]
    have "train_inv e'"
    proof (rule train_invI [OF released(4) released(6)])
      show "register_inv (stop_register e')" using reg by blast
      show "\<exists>c. ((lookup (core_train_data_storage e))(h \<mapsto> ?core)) (train_ID_hash (fst en)) = Some c \<and> ct_is_released c"
        if "en \<in> set (chain (stop_register e'))" for en
        using d(6) [of en] that reg by (cases "train_ID_hash (fst en) = h") auto
      show "dom (lookup (seats_data_storage e)) =
          {(h', d). \<exists>c. ((lookup (core_train_data_storage e))(h \<mapsto> ?core)) h' = Some c \<and> d \<in> run_days c}"
        using d(5) released(1) days by (auto simp: set_eq_iff)
    qed (use d(3,4) released(1) in \<open>auto simp: dom_def\<close>)
    moreover have "train_status h e = Added" "train_status h e' = Released"
      "\<And>h'. h' \<noteq> h \<Longrightarrow> train_status h' e' = train_status h' e"
      using released(1,2) ct' by (simp_all add: train_status_def)
    ultimately show ?thesis using released(3) by blast
  next
    case refused
    then have "train_status h e \<noteq> Added" by (auto simp: train_status_def split: option.splits)
    with refused inv show ?thesis by simp
  qed
qed

lemma train_inv_new: "train_inv engine_new"
proof (rule train_invI)
  show "train_maps engine_new = (Map.empty, Map.empty, Map.empty, Map.empty)"
    by (auto simp: train_maps_def engine_new_def fun_eq_iff)
  show "register_inv (stop_register engine_new)"
    by (simp add: engine_new_def register_inv_def stop.ix.new) (simp add: idx_new_def)
qed (use maps_inv_new in \<open>simp_all add: engine_new_def idx_new_def\<close>)

section \<open>Seats of a new train\<close>

lemma least_seats_const:
  assumes "\<forall>j \<in> set js. j < 99 \<and> seat j = Some s" "v \<le> int s" "s < 2147483648"
  shows "least_seats seat js v = Inr v"
  using assms by (induction js arbitrary: v) (simp_all add: cell_def i32_id)

lemma make_seats_available:
  assumes "from_id < to_id" "int to_id < int (ct_stationNum core)" "ct_stationNum core \<le> 100"
    "ct_seatNum core < 2147483648"
  shows "available (sd_seat (make_seats core)) from_id to_id = Inr (int (ct_seatNum core))"
proof -
  have "least_seats (sd_seat (make_seats core)) [Suc from_id..<to_id] (int (ct_seatNum core)) =
      Inr (int (ct_seatNum core))"
    by (rule least_seats_const [where s = "ct_seatNum core"]) (use assms in \<open>auto simp: make_seats_def\<close>)
  moreover have "cell 99 (sd_seat (make_seats core)) from_id = Inr (ct_seatNum core)"
    using assms by (simp add: make_seats_def)
  ultimately show ?thesis using assms(4) by (simp add: available_def i32_id cell_def)
qed

lemma make_core_fields:
  assumes "make_core_train a n = Inr core"
  shows "ct_seatNum core = to_u 18 (the (ta_seatNum a))" "ct_stationNum core = to_u 8 n"
    "ct_seatNum core < 262144"
  using assms to_u_less [of 18]
  by (auto simp: make_core_train_def strcpy_def split: option.splits prod.splits if_splits simp del: to_u_less)

section \<open>Properties\<close>

text \<open>C13: the life of a train. \<^verbatim>\<open>AddTrain\<close> takes an absent train to added, \<^verbatim>\<open>ReleaseTrain\<close> an
  added one to released, \<^verbatim>\<open>DeleteTrain\<close> an added one to absent; in every other case the answer is
  \<^verbatim>\<open>-1\<close> and the engine stays as it is. No command takes a released train anywhere else, and no
  other train changes its status. The three keep the invariant that ties the train maps, the seats
  and the stop register together.\<close>

theorem train_life_cycle:
  assumes "train_inv e"
  shows "(\<forall>r e'. add_train_body ta e = (Inr r, e') \<longrightarrow> train_inv e' \<and>
      ((r = ''0'' \<and> train_status (split_mix64_hash (ta_trainID ta)) e = Absent \<and>
        train_status (split_mix64_hash (ta_trainID ta)) e' = Added \<and>
        (\<forall>h'. h' \<noteq> split_mix64_hash (ta_trainID ta) \<longrightarrow> train_status h' e' = train_status h' e)) \<or>
       (r = ''-1'' \<and> e' = e \<and> train_status (split_mix64_hash (ta_trainID ta)) e \<noteq> Absent))) \<and>
    (\<forall>r e'. release_train_body a e = (Inr r, e') \<longrightarrow> train_inv e' \<and>
      ((r = ''0'' \<and> train_status (split_mix64_hash (word_arg a (CHR ''i''))) e = Added \<and>
        train_status (split_mix64_hash (word_arg a (CHR ''i''))) e' = Released \<and>
        (\<forall>h'. h' \<noteq> split_mix64_hash (word_arg a (CHR ''i'')) \<longrightarrow> train_status h' e' = train_status h' e)) \<or>
       (r = ''-1'' \<and> e' = e \<and> train_status (split_mix64_hash (word_arg a (CHR ''i''))) e \<noteq> Added))) \<and>
    (\<forall>r e'. delete_train_body a e = (Inr r, e') \<longrightarrow> train_inv e' \<and>
      ((r = ''0'' \<and> train_status (split_mix64_hash (word_arg a (CHR ''i''))) e = Added \<and>
        train_status (split_mix64_hash (word_arg a (CHR ''i''))) e' = Absent \<and>
        (\<forall>h'. h' \<noteq> split_mix64_hash (word_arg a (CHR ''i'')) \<longrightarrow> train_status h' e' = train_status h' e)) \<or>
       (r = ''-1'' \<and> e' = e \<and> train_status (split_mix64_hash (word_arg a (CHR ''i''))) e \<noteq> Added)))"
  using add_train_inv [OF assms] release_train_inv [OF assms] delete_train_inv [OF assms] by blast

text \<open>A train with three stations, and the engine after it was added.\<close>

definition train_example :: train_args where
  "train_example = \<lparr>ta_trainID = ''G1'', ta_stationNum = Some 3, ta_seatNum = Some 50,
     ta_stations = (\<lambda>i. if i = 0 then ''A'' else if i = 1 then ''B'' else if i = 2 then ''C'' else []),
     ta_prices = [0 \<mapsto> 10, 1 \<mapsto> 20], ta_startTime = Some 600,
     ta_travelTimes = [0 \<mapsto> 30, 1 \<mapsto> 50], ta_stopoverTimes = [1 \<mapsto> 5],
     ta_saleDate = Some (152, 153), ta_type = Some (CHR ''G'')\<rparr>"

definition engine_g1 :: engine where
  "engine_g1 = snd (add_train_body train_example engine_new)"

lemma add_train_example: "add_train_body train_example engine_new = (Inr ''0'', engine_g1)"
proof -
  have "fst (add_train_body train_example engine_new) \<noteq> Inl Undefined" by code_simp
  moreover have "lookup (ticket_price_data_storage engine_new) h = None" for h by (simp add: engine_new_def)
  ultimately show ?thesis
    using add_train_effect [OF maps_inv_new, of train_example] by (auto simp: engine_g1_def)
qed

theorem train_life_cycle_witness:
  "train_inv engine_g1 \<and> train_status (split_mix64_hash ''G1'') engine_g1 = Added"
proof -
  have "ta_trainID train_example = ''G1''" by (simp add: train_example_def)
  then show ?thesis
    using train_life_cycle [OF train_inv_new, of train_example no_args] add_train_example by auto
qed

text \<open>Deleting a train right after adding it gives back the four maps of train data as they were
  before, and leaves users, sessions, stop register and orders alone.\<close>

theorem delete_undoes_add:
  assumes "train_inv e" "add_train_body ta e = (Inr ''0'', e1)" "word_arg a (CHR ''i'') = ta_trainID ta"
  shows "\<exists>e2. delete_train_body a e1 = (Inr ''0'', e2) \<and> train_maps e2 = train_maps e \<and> same_rest e e2 \<and>
    stop_register e2 = stop_register e \<and> transaction_manager e2 = transaction_manager e"
proof -
  let ?h = "split_mix64_hash (ta_trainID ta)"
  note d = train_invD [OF assms(1)]
  obtain prices core names where add: "lookup (ticket_price_data_storage e) ?h = None"
    "add_train_data ta prices core names" "maps_inv e1" "same_rest e e1"
    "stop_register e1 = stop_register e" "transaction_manager e1 = transaction_manager e"
    "train_maps e1 = ((lookup (ticket_price_data_storage e))(?h := Some prices),
            (lookup (core_train_data_storage e))(?h := Some core),
            (lookup (station_name_data_storage e))(?h := Some names),
            (\<lambda>k. if fst k = ?h \<and> snd k \<in> run_days core then Some (make_seats core)
                 else lookup (seats_data_storage e) k))"
    using add_train_effect [OF d(1), of ta] assms(2) unfolding Let_def by auto
  have none: "lookup (core_train_data_storage e) ?h = None" "lookup (station_name_data_storage e) ?h = None"
    using add(1) d(3,4) by (metis domIff)+
  have seats: "lookup (seats_data_storage e) (?h, x) = None" for x
    using train_seats_None [OF assms(1)] none(1) by simp
  have core: "lookup (core_train_data_storage e1) ?h = Some core" "\<not> ct_is_released core"
    using add(2,7) make_core_unreleased by (auto simp: train_maps_def add_train_data_def)
  obtain e2 where del: "delete_train_body a e1 = (Inr ''0'', e2)" "same_rest e1 e2"
    "stop_register e2 = stop_register e1" "transaction_manager e2 = transaction_manager e1"
    "train_maps e2 = ((lookup (ticket_price_data_storage e1))(?h := None),
            (lookup (core_train_data_storage e1))(?h := None),
            (lookup (station_name_data_storage e1))(?h := None),
            (\<lambda>k. if fst k = ?h \<and> snd k \<in> run_days core then None else lookup (seats_data_storage e1) k))"
    using delete_train_effect [OF add(3), of a] core unfolding assms(3) Let_def by auto
  have "train_maps e2 = train_maps e"
    using del(5) add(1,7) none seats by (auto simp: train_maps_def fun_eq_iff)
  then show ?thesis using del(1-4) add(4-6) by (auto simp: same_rest_def)
qed

theorem delete_undoes_add_witness:
  "\<exists>e2. delete_train_body (no_args\<lparr>word_arg := (\<lambda>_. ''G1'')\<rparr>) engine_g1 = (Inr ''0'', e2) \<and>
     train_maps e2 = train_maps engine_new"
  using delete_undoes_add [OF train_inv_new add_train_example, of "no_args\<lparr>word_arg := (\<lambda>_. ''G1'')\<rparr>"]
  by (auto simp: train_example_def)

text \<open>C14: after \<^verbatim>\<open>AddTrain\<close> every running day of the train has its seat record, and on every
  section of the route the number of free seats is the seat number given (within 18 bits).\<close>

theorem added_train_has_all_seats:
  assumes "train_inv e" "add_train_body ta e = (Inr ''0'', e1)"
    and "ta_stationNum ta = Some n" "ta_seatNum ta = Some s" "0 \<le> n" "0 \<le> s" "s < 262144"
    and "from_id < to_id" "int to_id < n"
  shows "\<exists>core. lookup (core_train_data_storage e1) (split_mix64_hash (ta_trainID ta)) = Some core \<and>
    (\<forall>d \<in> run_days core. \<exists>sd. lookup (seats_data_storage e1) (split_mix64_hash (ta_trainID ta), d) = Some sd \<and>
       available (sd_seat sd) from_id to_id = Inr s)"
proof -
  let ?h = "split_mix64_hash (ta_trainID ta)"
  obtain prices core names where add: "add_train_data ta prices core names"
    "train_maps e1 = ((lookup (ticket_price_data_storage e))(?h := Some prices),
            (lookup (core_train_data_storage e))(?h := Some core),
            (lookup (station_name_data_storage e))(?h := Some names),
            (\<lambda>k. if fst k = ?h \<and> snd k \<in> run_days core then Some (make_seats core)
                 else lookup (seats_data_storage e) k))"
    using add_train_effect [OF train_invD(1) [OF assms(1)], of ta] assms(2) unfolding Let_def by auto
  have n: "n \<le> 100" "make_core_train ta n = Inr core"
    using add(1) assms(3) by (auto simp: add_train_data_def)
  have "int (ct_stationNum core) = n" "int (ct_seatNum core) = s"
    using make_core_fields [OF n(2)] n(1) assms(4-7) by (simp_all add: to_u_id)
  then have "available (sd_seat (make_seats core)) from_id to_id = Inr s"
    using make_seats_available [of from_id to_id core] assms(6-9) n(1) by simp
  then show ?thesis using add(2) by (auto simp: train_maps_def)
qed

theorem added_train_has_all_seats_witness:
  "\<exists>core. lookup (core_train_data_storage engine_g1) (split_mix64_hash ''G1'') = Some core \<and>
    (\<forall>d \<in> run_days core. \<exists>sd. lookup (seats_data_storage engine_g1) (split_mix64_hash ''G1'', d) = Some sd \<and>
       available (sd_seat sd) 0 2 = Inr 50)"
proof -
  have "ta_trainID train_example = ''G1''" "ta_stationNum train_example = Some 3" "ta_seatNum train_example = Some 50"
    by (simp_all add: train_example_def)
  then show ?thesis
    using added_train_has_all_seats [OF train_inv_new add_train_example, of 3 50 0 2] by simp
qed

end
