(* ===== verification/Ticket_Query.thy ===== *)
theory Ticket_Query
  imports Train_System Merge_Sort
begin

text \<open>
  The queries of \<^verbatim>\<open>src/transaction_system.cpp\<close>: \<^verbatim>\<open>QueryTicket\<close>, \<^verbatim>\<open>QueryTransfer\<close> and
  \<^verbatim>\<open>CheckTransfer\<close>. The lemmas show that \<^verbatim>\<open>QueryTicket\<close> lists its trains in the requested
  order and that the transfer search returns a best candidate among all pairs of trains it looks
  at. Neither query changes the engine. \<^verbatim>\<open>std::sort\<close> is the insertion sort \<open>sort_by\<close>; the
  comparators leave no ties between trains of different names.
\<close>

section \<open>QueryTicket\<close>

record additional_train_info =
  ai_trainID :: string
  ai_price :: int
  ai_seats :: int

definition ticket_switch :: "args arg_action" where
  "ticket_switch c a st =
     (if c = CHR ''d'' then take_date c a st
      else if c \<in> set ''stp'' then take_word c a st
      else Inl Invalid_argument)"

definition ticket_args :: args where
  "ticket_args = no_args\<lparr>word_arg := (\<lambda>c. if c = CHR ''p'' then ''time'' else [])\<rparr>"

text \<open>Price and free seats of one train found, the body of the loop over \<^verbatim>\<open>valid_trains\<close>.\<close>

definition full_entry :: "engine \<Rightarrow> direct_train_info \<Rightarrow> (direct_train_info \<times> additional_train_info) result" where
  "full_entry e info =
     rbind (dm_get (<) (di_train_ID_hash info) (ticket_price_data_storage e)) (\<lambda>prices.
       rbind (dm_get (<) (di_train_ID_hash info, to_u 8 (actual_start_date info - di_saleDate_beg info))
                (seats_data_storage e)) (\<lambda>seats.
         rbind (price_sum (tp_price prices) [di_from_stop_id info..<di_to_stop_id info] 0) (\<lambda>price.
           rbind (available (sd_seat seats) (di_from_stop_id info) (di_to_stop_id info)) (\<lambda>free.
             Inr (info, \<lparr>ai_trainID = tp_trainID prices, ai_price = price, ai_seats = free\<rparr>)))))"

text \<open>A fallible function over a list, in order.\<close>

fun map_result :: "('a \<Rightarrow> 'b result) \<Rightarrow> 'a list \<Rightarrow> 'b list result" where
  "map_result f [] = Inr []"
| "map_result f (x # xs) = rbind (f x) (\<lambda>y. rbind (map_result f xs) (\<lambda>ys. Inr (y # ys)))"

type_synonym full_train = "direct_train_info \<times> additional_train_info"

definition time_cost :: "full_train \<Rightarrow> int" where
  "time_cost t = di_arrive_time_stamp (fst t) - di_leave_time_stamp (fst t)"

definition less_by_time :: "full_train \<Rightarrow> full_train \<Rightarrow> bool" where
  "less_by_time a b =
     (if time_cost a \<noteq> time_cost b then time_cost a < time_cost b
      else str_less (ai_trainID (snd a)) (ai_trainID (snd b)))"

definition less_by_price :: "full_train \<Rightarrow> full_train \<Rightarrow> bool" where
  "less_by_price a b =
     (if ai_price (snd a) \<noteq> ai_price (snd b) then ai_price (snd a) < ai_price (snd b)
      else str_less (ai_trainID (snd a)) (ai_trainID (snd b)))"

definition new_line :: string where
  "new_line = [char_of (10 :: nat)]"

definition ticket_line :: "string \<Rightarrow> string \<Rightarrow> full_train \<Rightarrow> string result" where
  "ticket_line from_name to_name t =
     rbind (print_full_time_stamp (di_leave_time_stamp (fst t))) (\<lambda>leave.
       rbind (print_full_time_stamp (di_arrive_time_stamp (fst t))) (\<lambda>arrive.
         Inr (new_line @ ai_trainID (snd t) @ '' '' @ from_name @ '' '' @ leave @ '' -> '' @ to_name @ '' '' @
              arrive @ '' '' @ show_int (ai_price (snd t)) @ '' '' @ show_int (ai_seats (snd t)))))"

definition sort_trains :: "string \<Rightarrow> full_train list \<Rightarrow> full_train list" where
  "sort_trains order_by ts = sort_by (if order_by = ''time'' then less_by_time else less_by_price) ts"

text \<open>The trains of the answer, in order.\<close>

definition ticket_list :: "string \<Rightarrow> string \<Rightarrow> string \<Rightarrow> int \<Rightarrow> engine \<Rightarrow> full_train list result" where
  "ticket_list from_name to_name order_by date e =
     rbind (map_result (full_entry e)
              (query_direct_trains (to_u 32 date) (split_mix64_hash from_name) (split_mix64_hash to_name)
                 (stop_register e)))
       (\<lambda>ts. Inr (sort_trains order_by ts))"

definition query_ticket_body :: "args \<Rightarrow> engine \<Rightarrow> string step" where
  "query_ticket_body a e =
     (let from_name = word_arg a (CHR ''s''); to_name = word_arg a (CHR ''t'')
      in (rbind (of_option Undefined (int_arg a (CHR ''d''))) (\<lambda>date.
            rbind (ticket_list from_name to_name (word_arg a (CHR ''p'')) date e) (\<lambda>ts.
              rbind (map_result (ticket_line from_name to_name) ts) (\<lambda>lines.
                Inr (show_nat (length ts) @ concat lines)))), e))"

definition query_ticket :: "string \<Rightarrow> engine \<Rightarrow> string step" where
  "query_ticket = run_handler ticket_switch ticket_args query_ticket_body"

section \<open>CheckTransfer\<close>

text \<open>The \<^verbatim>\<open>res_\<close> variables; \<^verbatim>\<open>has_solution = false\<close> is \<open>None\<close>.\<close>

record transfer =
  res_train1_id :: string
  res_train2_id :: string
  res_train1_leaving :: int
  res_train1_arriving :: int
  res_train2_leaving :: int
  res_train2_arriving :: int
  res_train1_price :: int
  res_train1_seat :: int
  res_train2_price :: int
  res_train2_seat :: int
  res_transfer_station_name :: string

text \<open>\<^verbatim>\<open>price_sum[i]\<close> for the stops, from stop 0.\<close>

fun price_prefix :: "nat cells \<Rightarrow> nat list \<Rightarrow> int \<Rightarrow> int list result" where
  "price_prefix price [] acc = Inr [acc]"
| "price_prefix price (j # js) acc =
     rbind (cell 99 price j) (\<lambda>p. rbind (price_prefix price js (add_price acc p)) (\<lambda>s. Inr (acc # s)))"

text \<open>Arrival and departure offsets; the stopover of the last stop was never written.\<close>

definition add_cells :: "int option \<Rightarrow> nat option \<Rightarrow> int option" where
  "add_cells x y = (case (x, y) of (Some a, Some b) \<Rightarrow> Some (a + int b) | _ \<Rightarrow> None)"

fun offsets_after :: "core_train_data \<Rightarrow> nat list \<Rightarrow> int option \<Rightarrow> (int option \<times> int option) list" where
  "offsets_after core [] leave = []"
| "offsets_after core (i # is) leave =
     (let arrive = add_cells leave (ct_travelTime core (i - 1));
          leave' = add_cells arrive (ct_stopoverTime core i)
      in (arrive, leave') # offsets_after core is leave')"

definition time_offsets :: "core_train_data \<Rightarrow> (int option \<times> int option) list" where
  "time_offsets core = (Some 0, Some 0) # offsets_after core [1..<ct_stationNum core] (Some 0)"

text \<open>The loop over train 1: where it leaves the starting station and which stations it reaches
  after that.\<close>

fun transfer_map :: "core_train_data \<Rightarrow> hash_t \<Rightarrow> nat list \<Rightarrow> bool \<Rightarrow> nat \<Rightarrow> (hash_t \<rightharpoonup> nat)
    \<Rightarrow> (nat \<times> (hash_t \<rightharpoonup> nat)) result" where
  "transfer_map core from_hash [] met start mp = Inr (start, mp)"
| "transfer_map core from_hash (i # is) met start mp =
     rbind (cell 100 (ct_stations_hash core) i) (\<lambda>s.
       if s = from_hash then transfer_map core from_hash is True i mp
       else if met then transfer_map core from_hash is met start (mp(s \<mapsto> i))
       else transfer_map core from_hash is met start mp)"

text \<open>What is fixed for a pair of trains before the loop over train 2.\<close>

record train_pair =
  p_train1 :: hash_t
  p_train2 :: hash_t
  p_core1 :: core_train_data
  p_core2 :: core_train_data
  p_id1 :: string
  p_id2 :: string
  p_sums1 :: "int list"
  p_sums2 :: "int list"
  p_offsets1 :: "(int option \<times> int option) list"
  p_offsets2 :: "(int option \<times> int option) list"
  p_start :: nat
  p_map :: "hash_t \<rightharpoonup> nat"

definition load_pair :: "hash_t \<Rightarrow> hash_t \<Rightarrow> string \<Rightarrow> engine \<Rightarrow> train_pair result" where
  "load_pair train1 train2 from_name e =
     rbind (dm_get (<) train1 (core_train_data_storage e)) (\<lambda>core1.
       rbind (dm_get (<) train2 (core_train_data_storage e)) (\<lambda>core2.
         rbind (dm_get (<) train1 (ticket_price_data_storage e)) (\<lambda>price1.
           rbind (dm_get (<) train2 (ticket_price_data_storage e)) (\<lambda>price2.
             rbind (price_prefix (tp_price price1) [0..<ct_stationNum core1 - 1] 0) (\<lambda>sums1.
               rbind (price_prefix (tp_price price2) [0..<ct_stationNum core2 - 1] 0) (\<lambda>sums2.
                 rbind (transfer_map core1 (split_mix64_hash from_name) [0..<ct_stationNum core1] False 0 Map.empty)
                   (\<lambda>(start, mp).
                      Inr \<lparr>p_train1 = train1, p_train2 = train2, p_core1 = core1, p_core2 = core2,
                        p_id1 = tp_trainID price1, p_id2 = tp_trainID price2, p_sums1 = sums1, p_sums2 = sums2,
                        p_offsets1 = time_offsets core1, p_offsets2 = time_offsets core2,
                        p_start = start, p_map = mp\<rparr>)))))))"

text \<open>One way to change trains: the times and prices of both parts, and where the details are.\<close>

record candidate =
  c_leaving1 :: int
  c_arriving1 :: int
  c_leaving2 :: int
  c_arriving2 :: int
  c_price1 :: int
  c_price2 :: int
  c_day1 :: int
  c_day2 :: int
  c_offset :: nat
  c_stop :: nat
  c_dest :: nat

text \<open>The change at stop \<open>i\<close> of train 2 and stop \<open>t\<close> of train 1; \<open>None\<close> is \<^verbatim>\<open>continue\<close>. The time
  stamp printed into \<^verbatim>\<open>test_buf\<close> only matters when it is outside the calendar.\<close>

definition make_candidate :: "train_pair \<Rightarrow> int \<Rightarrow> nat \<Rightarrow> nat \<Rightarrow> nat \<Rightarrow> candidate option result" where
  "make_candidate p date t i dest =
     rbind (of_option Undefined (snd (p_offsets1 p ! p_start p))) (\<lambda>leave1.
     rbind (of_option Undefined (fst (p_offsets1 p ! t))) (\<lambda>arrive1.
     rbind (of_option Undefined (snd (p_offsets2 p ! i))) (\<lambda>leave2.
     rbind (of_option Undefined (fst (p_offsets2 p ! dest))) (\<lambda>arrive2.
       let actual_time = int (ct_startTime (p_core1 p)) + leave1;
           start_date = date - actual_time sdiv 1440
       in if start_date < int (ct_saleDate_beg (p_core1 p)) \<or> start_date > int (ct_saleDate_end (p_core1 p))
          then Inl Runtime_error
          else let leaving1 = start_date * 1440 + actual_time;
                   arriving1 = start_date * 1440 + int (ct_startTime (p_core1 p)) + arrive1;
                   earliest2 = int (ct_saleDate_beg (p_core2 p)) * 1440 + int (ct_startTime (p_core2 p)) + leave2;
                   latest2 = int (ct_saleDate_end (p_core2 p)) * 1440 + int (ct_startTime (p_core2 p)) + leave2
               in if arriving1 > latest2 then Inr None
                  else rbind (print_full_time_stamp earliest2) (\<lambda>_.
                    let delta = (if earliest2 < arriving1 then (arriving1 - earliest2 + 1440 - 1) sdiv 1440 else 0);
                        leaving2 = earliest2 + delta * 1440
                    in Inr (Some \<lparr>c_leaving1 = leaving1, c_arriving1 = arriving1, c_leaving2 = leaving2,
                         c_arriving2 = leaving2 + arrive2 - leave2,
                         c_price1 = p_sums1 p ! t - p_sums1 p ! p_start p,
                         c_price2 = p_sums2 p ! dest - p_sums2 p ! i,
                         c_day1 = start_date - int (ct_saleDate_beg (p_core1 p)), c_day2 = delta,
                         c_offset = t, c_stop = i, c_dest = dest\<rparr>))))))"

text \<open>\<^verbatim>\<open>continue\<close> in the comparison with the solution so far: it stays. A candidate that ties in
  everything replaces it.\<close>

definition stays :: "bool \<Rightarrow> transfer \<Rightarrow> train_pair \<Rightarrow> candidate \<Rightarrow> bool" where
  "stays sort_by_time res p c =
     (let cur_time = c_arriving2 c - c_leaving1 c;
          old_time = res_train2_arriving res - res_train1_leaving res;
          cur_price = c_price1 c + c_price2 c;
          old_price = res_train1_price res + res_train2_price res;
          by_id = (if res_train1_id res \<noteq> p_id1 p then str_less (res_train1_id res) (p_id1 p)
                   else if res_train2_id res \<noteq> p_id2 p then str_less (res_train2_id res) (p_id2 p)
                   else False)
      in if sort_by_time
         then if old_time \<noteq> cur_time then old_time < cur_time
              else if old_price \<noteq> cur_price then old_price < cur_price else by_id
         else if old_price \<noteq> cur_price then old_price < cur_price
              else if old_time \<noteq> cur_time then old_time < cur_time else by_id)"

definition take_candidate :: "train_pair \<Rightarrow> candidate \<Rightarrow> engine \<Rightarrow> transfer result" where
  "take_candidate p c e =
     rbind (dm_get (<) (p_train1 p) (station_name_data_storage e)) (\<lambda>names.
       rbind (cell 100 names (c_offset c)) (\<lambda>name.
         rbind (dm_get (<) (p_train1 p, to_u 8 (c_day1 c)) (seats_data_storage e)) (\<lambda>seats1.
           rbind (dm_get (<) (p_train2 p, to_u 8 (c_day2 c)) (seats_data_storage e)) (\<lambda>seats2.
             rbind (available (sd_seat seats1) (p_start p) (c_offset c)) (\<lambda>free1.
               rbind (available (sd_seat seats2) (c_stop c) (c_dest c)) (\<lambda>free2.
                 Inr \<lparr>res_train1_id = p_id1 p, res_train2_id = p_id2 p,
                   res_train1_leaving = c_leaving1 c, res_train1_arriving = c_arriving1 c,
                   res_train2_leaving = c_leaving2 c, res_train2_arriving = c_arriving2 c,
                   res_train1_price = c_price1 c, res_train1_seat = free1,
                   res_train2_price = c_price2 c, res_train2_seat = free2,
                   res_transfer_station_name = name\<rparr>))))))"

definition consider_candidate :: "bool \<Rightarrow> train_pair \<Rightarrow> candidate \<Rightarrow> engine \<Rightarrow> transfer option \<Rightarrow> transfer option result" where
  "consider_candidate sort_by_time p c e best =
     (case best of
        None \<Rightarrow> rbind (take_candidate p c e) (\<lambda>r. Inr (Some r))
      | Some res \<Rightarrow>
          if stays sort_by_time res p c then Inr best
          else rbind (take_candidate p c e) (\<lambda>r. Inr (Some r)))"

text \<open>The loop over the stops of train 2, from the last to the first.\<close>

fun scan_train2 :: "bool \<Rightarrow> train_pair \<Rightarrow> hash_t \<Rightarrow> int \<Rightarrow> engine \<Rightarrow> nat list \<Rightarrow> bool \<Rightarrow> nat
    \<Rightarrow> transfer option \<Rightarrow> transfer option result" where
  "scan_train2 sort_by_time p to_hash date e [] met dest best = Inr best"
| "scan_train2 sort_by_time p to_hash date e (i # is) met dest best =
     rbind (cell 100 (ct_stations_hash (p_core2 p)) i) (\<lambda>s.
       if s = to_hash then scan_train2 sort_by_time p to_hash date e is True i best
       else case (met, p_map p s) of
              (True, Some t) \<Rightarrow>
                rbind (make_candidate p date t i dest) (\<lambda>c. case c of
                  None \<Rightarrow> scan_train2 sort_by_time p to_hash date e is met dest best
                | Some cand \<Rightarrow>
                    rbind (consider_candidate sort_by_time p cand e best)
                      (\<lambda>best'. scan_train2 sort_by_time p to_hash date e is met dest best'))
            | _ \<Rightarrow> scan_train2 sort_by_time p to_hash date e is met dest best)"

definition check_transfer :: "hash_t \<Rightarrow> hash_t \<Rightarrow> string \<Rightarrow> string \<Rightarrow> int \<Rightarrow> bool \<Rightarrow> engine \<Rightarrow> transfer option
    \<Rightarrow> transfer option result" where
  "check_transfer train1 train2 from_name to_name date sort_by_time e best =
     (if train1 = train2 then Inr best
      else rbind (load_pair train1 train2 from_name e) (\<lambda>p.
        scan_train2 sort_by_time p (split_mix64_hash to_name) date e
          (rev [0..<ct_stationNum (p_core2 p)]) False 0 best))"

section \<open>QueryTransfer\<close>

fun check_pairs :: "(hash_t \<times> hash_t) list \<Rightarrow> string \<Rightarrow> string \<Rightarrow> int \<Rightarrow> bool \<Rightarrow> engine \<Rightarrow> transfer option
    \<Rightarrow> transfer option result" where
  "check_pairs [] from_name to_name date sort_by_time e best = Inr best"
| "check_pairs ((t1, t2) # ps) from_name to_name date sort_by_time e best =
     rbind (check_transfer t1 t2 from_name to_name date sort_by_time e best)
       (check_pairs ps from_name to_name date sort_by_time e)"

definition transfer_pairs :: "string \<Rightarrow> string \<Rightarrow> int \<Rightarrow> engine \<Rightarrow> (hash_t \<times> hash_t) list" where
  "transfer_pairs from_name to_name date e =
     List.product (fetch_train_leaving_from (to_u 32 date) (split_mix64_hash from_name) (stop_register e))
       (fetch_train_arriaving_at (to_u 32 date) (split_mix64_hash to_name) (stop_register e))"

definition show_transfer :: "string \<Rightarrow> string \<Rightarrow> transfer \<Rightarrow> string result" where
  "show_transfer from_name to_name r =
     rbind (print_full_time_stamp (res_train1_leaving r)) (\<lambda>l1.
     rbind (print_full_time_stamp (res_train1_arriving r)) (\<lambda>a1.
     rbind (print_full_time_stamp (res_train2_leaving r)) (\<lambda>l2.
     rbind (print_full_time_stamp (res_train2_arriving r)) (\<lambda>a2.
       Inr (res_train1_id r @ '' '' @ from_name @ '' '' @ l1 @ '' -> '' @ res_transfer_station_name r @ '' '' @
            a1 @ '' '' @ show_int (res_train1_price r) @ '' '' @ show_int (res_train1_seat r) @ new_line @
            res_train2_id r @ '' '' @ res_transfer_station_name r @ '' '' @ l2 @ '' -> '' @ to_name @ '' '' @
            a2 @ '' '' @ show_int (res_train2_price r) @ '' '' @ show_int (res_train2_seat r))))))"

text \<open>\<^verbatim>\<open>order_by[0] == 't'\<close>.\<close>

definition query_transfer_body :: "args \<Rightarrow> engine \<Rightarrow> string step" where
  "query_transfer_body a e =
     (let from_name = word_arg a (CHR ''s''); to_name = word_arg a (CHR ''t'');
          sort_by_time = (take 1 (word_arg a (CHR ''p'')) = ''t'')
      in (rbind (of_option Undefined (int_arg a (CHR ''d''))) (\<lambda>date.
            rbind (check_pairs (transfer_pairs from_name to_name date e) from_name to_name date sort_by_time e None)
              (\<lambda>best. case best of None \<Rightarrow> Inr ''0'' | Some r \<Rightarrow> show_transfer from_name to_name r)), e))"

definition query_transfer :: "string \<Rightarrow> engine \<Rightarrow> string step" where
  "query_transfer = run_handler ticket_switch ticket_args query_transfer_body"

section \<open>The orders of the answers\<close>

interpretation by_time: strict_weak_order less_by_time
proof
  show "\<not> less_by_time x x" for x by (simp add: less_by_time_def)
  show "less_by_time x y \<Longrightarrow> less_by_time y z \<Longrightarrow> less_by_time x z" for x y z
    by (auto simp: less_by_time_def intro: str_less_trans split: if_splits)
  show "\<not> less_by_time x y \<Longrightarrow> \<not> less_by_time y z \<Longrightarrow> \<not> less_by_time x z" for x y z
    by (auto simp: less_by_time_def split: if_splits) (metis str_less_total str_less_trans)
qed

interpretation by_price: strict_weak_order less_by_price
proof
  show "\<not> less_by_price x x" for x by (simp add: less_by_price_def)
  show "less_by_price x y \<Longrightarrow> less_by_price y z \<Longrightarrow> less_by_price x z" for x y z
    by (auto simp: less_by_price_def intro: str_less_trans split: if_splits)
  show "\<not> less_by_price x y \<Longrightarrow> \<not> less_by_price y z \<Longrightarrow> \<not> less_by_price x z" for x y z
    by (auto simp: less_by_price_def split: if_splits) (metis str_less_total str_less_trans)
qed

lemma map_result_fst:
  assumes "\<And>x y. f x = Inr y \<Longrightarrow> fst y = x" "map_result f xs = Inr ys"
  shows "map fst ys = xs"
  using assms(2) by (induction xs arbitrary: ys) (auto simp: rbind_Inr dest!: assms(1))

lemma full_entry_fst: "full_entry e info = Inr t \<Longrightarrow> fst t = info"
  by (auto simp: full_entry_def rbind_Inr)

section \<open>The best way to change\<close>

type_synonym transfer_key = "int \<times> int \<times> string \<times> string"

definition key_less :: "transfer_key \<Rightarrow> transfer_key \<Rightarrow> bool" where
  "key_less a b = (case (a, b) of ((x1, y1, s1, t1), (x2, y2, s2, t2)) \<Rightarrow>
     if x1 \<noteq> x2 then x1 < x2 else if y1 \<noteq> y2 then y1 < y2
     else if s1 \<noteq> s2 then str_less s1 s2 else str_less t1 t2)"

interpretation transfer_key: strict_total_order key_less
proof
  show "\<not> key_less x x" for x by (simp add: key_less_def split: prod.splits)
  show "key_less x y \<Longrightarrow> key_less y z \<Longrightarrow> key_less x z" for x y z
    by (auto simp: key_less_def intro: str_less_trans dest: str_less_asym split: prod.splits if_splits)
  show "\<not> key_less x y \<Longrightarrow> \<not> key_less y z \<Longrightarrow> \<not> key_less x z" for x y z
    by (auto simp: key_less_def split: prod.splits if_splits) (metis str_less_total str_less_trans)+
  show "x \<noteq> y \<Longrightarrow> key_less x y \<or> key_less y x" for x y
    by (auto simp: key_less_def split: prod.splits if_splits) (metis str_less_total)+
qed

text \<open>Total time or total price first, then the other, then the names of the trains.\<close>

definition order_key :: "bool \<Rightarrow> int \<Rightarrow> int \<Rightarrow> string \<Rightarrow> string \<Rightarrow> transfer_key" where
  "order_key sort_by_time time price id1 id2 =
     (if sort_by_time then (time, price, id1, id2) else (price, time, id1, id2))"

definition cand_key :: "bool \<Rightarrow> train_pair \<Rightarrow> candidate \<Rightarrow> transfer_key" where
  "cand_key b p c = order_key b (c_arriving2 c - c_leaving1 c) (c_price1 c + c_price2 c) (p_id1 p) (p_id2 p)"

definition res_key :: "bool \<Rightarrow> transfer \<Rightarrow> transfer_key" where
  "res_key b r = order_key b (res_train2_arriving r - res_train1_leaving r)
     (res_train1_price r + res_train2_price r) (res_train1_id r) (res_train2_id r)"

lemma stays_key: "stays b res p c \<longleftrightarrow> key_less (res_key b res) (cand_key b p c)"
  by (simp add: stays_def key_less_def res_key_def cand_key_def order_key_def Let_def)

lemma take_key: "take_candidate p c e = Inr r \<Longrightarrow> res_key b r = cand_key b p c"
  by (auto simp: take_candidate_def rbind_Inr res_key_def cand_key_def)

text \<open>A change at stop \<open>i\<close> of train 2: the destination is the next one after \<open>i\<close>.\<close>

definition change_at :: "train_pair \<Rightarrow> hash_t \<Rightarrow> int \<Rightarrow> nat \<Rightarrow> candidate \<Rightarrow> bool" where
  "change_at p to_hash date i c \<longleftrightarrow>
     (let st = ct_stations_hash (p_core2 p)
      in \<exists>dest t s. i < dest \<and> dest < ct_stationNum (p_core2 p) \<and> st dest = Some to_hash \<and>
           (\<forall>j. i < j \<longrightarrow> j < dest \<longrightarrow> st j \<noteq> Some to_hash) \<and> st i = Some s \<and> s \<noteq> to_hash \<and>
           p_map p s = Some t \<and> make_candidate p date t i dest = Inr (Some c))"

text \<open>The solution is one of the candidates seen so far, and none of them is better.\<close>

definition best_of :: "bool \<Rightarrow> engine \<Rightarrow> (train_pair \<times> candidate) set \<Rightarrow> transfer option \<Rightarrow> bool" where
  "best_of b e S best \<longleftrightarrow>
     (case best of None \<Rightarrow> S = {}
      | Some r \<Rightarrow> (\<exists>(p, c) \<in> S. take_candidate p c e = Inr r) \<and>
                 (\<forall>(p, c) \<in> S. \<not> key_less (cand_key b p c) (res_key b r)))"

lemma best_of_consider:
  assumes "best_of b e S best" "consider_candidate b p c e best = Inr best'"
  shows "best_of b e (insert (p, c) S) best'"
proof (cases best)
  case None
  with assms show ?thesis
    by (auto simp: best_of_def consider_candidate_def rbind_Inr take_key transfer_key.irrefl)
next
  case (Some r)
  show ?thesis
  proof (cases "stays b r p c")
    case True
    then have "\<not> key_less (cand_key b p c) (res_key b r)"
      using stays_key transfer_key.asym by blast
    moreover have "best' = Some r" using True Some assms(2) by (simp add: consider_candidate_def)
    ultimately show ?thesis using Some assms(1) by (simp add: best_of_def)
  next
    case False
    then obtain r' where r': "take_candidate p c e = Inr r'" "best' = Some r'"
      using assms(2) Some by (auto simp: consider_candidate_def rbind_Inr)
    have "\<not> key_less (res_key b r) (cand_key b p c)" using False stays_key by blast
    moreover have "\<forall>(q, d) \<in> S. \<not> key_less (cand_key b q d) (res_key b r)"
      using assms(1) Some by (simp add: best_of_def)
    ultimately have "\<forall>(q, d) \<in> S. \<not> key_less (cand_key b q d) (res_key b r')"
      unfolding take_key [OF r'(1)] using transfer_key.negtrans by blast
    then show ?thesis
      using r' by (auto simp: best_of_def take_key [OF r'(1)] transfer_key.irrefl)
  qed
qed

lemma best_of_scan:
  fixes p :: train_pair
  defines "st \<equiv> ct_stations_hash (p_core2 p)" and "n \<equiv> ct_stationNum (p_core2 p)"
  assumes "k \<le> n" "scan_train2 b p to_hash date e (rev [0..<k]) met dest best = Inr best'"
    and "met \<longleftrightarrow> (\<exists>j. k \<le> j \<and> j < n \<and> st j = Some to_hash)"
    and "met \<longrightarrow> k \<le> dest \<and> dest < n \<and> st dest = Some to_hash \<and> (\<forall>j. k \<le> j \<longrightarrow> j < dest \<longrightarrow> st j \<noteq> Some to_hash)"
    and "best_of b e S best"
  shows "best_of b e (S \<union> {(p, c) | c. \<exists>i < k. change_at p to_hash date i c}) best'"
  using assms(3-)
proof (induction k arbitrary: met dest best S)
  case 0
  then show ?case by simp
next
  case (Suc k)
  have run: "scan_train2 b p to_hash date e (k # rev [0..<k]) met dest best = Inr best'"
    using Suc.prems(2) by simp
  then obtain s where s: "k < 100" "st k = Some s" by (auto simp: rbind_Inr st_def)
  have split: "{(p, c) | c. \<exists>i < Suc k. change_at p to_hash date i c} =
      {(p, c) | c. \<exists>i < k. change_at p to_hash date i c} \<union> {(p, c) | c. change_at p to_hash date k c}"
    by (auto simp: less_Suc_eq)
  show ?case
  proof (cases "s = to_hash")
    case True
    then have "scan_train2 b p to_hash date e (rev [0..<k]) True k best = Inr best'"
      using run s by (simp add: cell_def st_def)
    moreover have "True \<longleftrightarrow> (\<exists>j. k \<le> j \<and> j < n \<and> st j = Some to_hash)"
      using Suc.prems(1) s True by (auto simp: Suc_le_eq)
    ultimately have "best_of b e (S \<union> {(p, c) | c. \<exists>i < k. change_at p to_hash date i c}) best'"
      using Suc.prems(1,5) s True by (intro Suc.IH [of True k best S]) auto
    moreover have "\<not> change_at p to_hash date k c" for c
      using s True by (simp add: change_at_def st_def Let_def)
    ultimately show ?thesis by (simp add: split)
  next
    case False
    have met: "met \<longleftrightarrow> (\<exists>j. k \<le> j \<and> j < n \<and> st j = Some to_hash)"
      using Suc.prems(3) s(2) False by (metis Suc_leD Suc_leI option.inject order_le_less)
    have dest: "met \<longrightarrow> k \<le> dest \<and> dest < n \<and> st dest = Some to_hash \<and>
        (\<forall>j. k \<le> j \<longrightarrow> j < dest \<longrightarrow> st j \<noteq> Some to_hash)"
      using Suc.prems(4) s(2) False by (metis Suc_leD Suc_leI option.inject order_le_less)
    have unique: "d = dest" if "k < d" "d < n" "st d = Some to_hash" "\<forall>j. k < j \<longrightarrow> j < d \<longrightarrow> st j \<noteq> Some to_hash" for d
    proof -
      have m: met using Suc.prems(3) that by (metis Suc_leI)
      then have "Suc k \<le> dest" "st dest = Some to_hash" "\<not> d < dest"
        using Suc.prems(4) that by (auto simp: Suc_le_eq)
      then show ?thesis using that(4) by (metis Suc_le_lessD linorder_neqE_nat)
    qed
    have change: "change_at p to_hash date k c \<longleftrightarrow>
        met \<and> (\<exists>t. p_map p s = Some t \<and> make_candidate p date t k dest = Inr (Some c))" for c
    proof
      assume "change_at p to_hash date k c"
      then obtain d t where d: "k < d" "d < n" "st d = Some to_hash" "\<forall>j. k < j \<longrightarrow> j < d \<longrightarrow> st j \<noteq> Some to_hash"
        "p_map p s = Some t" "make_candidate p date t k d = Inr (Some c)"
        using s(2) unfolding change_at_def Let_def st_def n_def by auto
      then have "d = dest" by (intro unique)
      moreover have met using Suc.prems(3) d(1-3) by (metis Suc_leI)
      ultimately show "met \<and> (\<exists>t. p_map p s = Some t \<and> make_candidate p date t k dest = Inr (Some c))"
        using d(5,6) by blast
    next
      assume m: "met \<and> (\<exists>t. p_map p s = Some t \<and> make_candidate p date t k dest = Inr (Some c))"
      then show "change_at p to_hash date k c"
        using Suc.prems(4) s(2) False unfolding change_at_def Let_def st_def n_def
        by (metis Suc_le_eq)
    qed
    show ?thesis
    proof (cases "\<exists>t. met \<and> p_map p s = Some t")
      case no: False
      then have "scan_train2 b p to_hash date e (rev [0..<k]) met dest best = Inr best'"
        using run s False by (auto simp: cell_def st_def split: bool.splits option.splits)
      then have "best_of b e (S \<union> {(p, c) | c. \<exists>i < k. change_at p to_hash date i c}) best'"
        using Suc.prems(1,5) met dest by (intro Suc.IH) auto
      moreover have "\<not> change_at p to_hash date k c" for c using no change by blast
      ultimately show ?thesis by (simp add: split)
    next
      case True
      then obtain t where t: "met" "p_map p s = Some t" by blast
      then obtain co where co: "make_candidate p date t k dest = Inr co"
        using run s False by (auto simp: cell_def st_def rbind_Inr)
      show ?thesis
      proof (cases co)
        case None
        then have "scan_train2 b p to_hash date e (rev [0..<k]) met dest best = Inr best'"
          using run s False t co by (simp add: cell_def st_def)
        then have "best_of b e (S \<union> {(p, c) | c. \<exists>i < k. change_at p to_hash date i c}) best'"
          using Suc.prems(1,5) met dest by (intro Suc.IH) auto
        moreover have "\<not> change_at p to_hash date k c" for c using t co None change by auto
        ultimately show ?thesis by (simp add: split)
      next
        case (Some c)
        then obtain best1 where best1: "consider_candidate b p c e best = Inr best1"
          "scan_train2 b p to_hash date e (rev [0..<k]) met dest best1 = Inr best'"
          using run s False t co by (auto simp: cell_def st_def rbind_Inr)
        have "best_of b e (insert (p, c) S \<union> {(p, c) | c. \<exists>i < k. change_at p to_hash date i c}) best'"
          using Suc.prems(1) met dest best1 best_of_consider [OF Suc.prems(5)] by (intro Suc.IH) auto
        moreover have "change_at p to_hash date k c' \<longleftrightarrow> c' = c" for c'
          using t co Some by (auto simp: change)
        ultimately show ?thesis by (simp add: split Un_commute)
      qed
    qed
  qed
qed

text \<open>All changes between the pairs of trains the search looks at.\<close>

definition changes :: "(hash_t \<times> hash_t) list \<Rightarrow> string \<Rightarrow> string \<Rightarrow> int \<Rightarrow> engine \<Rightarrow> (train_pair \<times> candidate) set" where
  "changes ps from_name to_name date e =
     {(p, c). \<exists>t1 t2. (t1, t2) \<in> set ps \<and> t1 \<noteq> t2 \<and> load_pair t1 t2 from_name e = Inr p \<and>
        (\<exists>i < ct_stationNum (p_core2 p). change_at p (split_mix64_hash to_name) date i c)}"

lemma changes_Cons:
  "(p, c) \<in> changes ((t1, t2) # ps) from_name to_name date e \<longleftrightarrow>
     (t1 \<noteq> t2 \<and> load_pair t1 t2 from_name e = Inr p \<and>
        (\<exists>i < ct_stationNum (p_core2 p). change_at p (split_mix64_hash to_name) date i c)) \<or>
     (p, c) \<in> changes ps from_name to_name date e"
  unfolding changes_def by auto

lemma best_of_pairs:
  assumes "best_of b e S best" "check_pairs ps from_name to_name date b e best = Inr best'"
  shows "best_of b e (S \<union> changes ps from_name to_name date e) best'"
  using assms
proof (induction ps arbitrary: S best)
  case Nil
  then show ?case by (simp add: changes_def)
next
  case (Cons tt ps)
  obtain t1 t2 where tt: "tt = (t1, t2)" by force
  then obtain best1 where best1: "check_transfer t1 t2 from_name to_name date b e best = Inr best1"
    "check_pairs ps from_name to_name date b e best1 = Inr best'"
    using Cons.prems(2) by (auto simp: rbind_Inr)
  show ?case
  proof (cases "t1 = t2")
    case True
    then have "best1 = best" using best1(1) by (simp add: check_transfer_def)
    moreover have "changes (tt # ps) from_name to_name date e = changes ps from_name to_name date e"
      using tt True by (auto simp: changes_def)
    ultimately show ?thesis using Cons.IH [OF Cons.prems(1)] best1(2) by simp
  next
    case False
    then obtain p where p: "load_pair t1 t2 from_name e = Inr p"
      "scan_train2 b p (split_mix64_hash to_name) date e (rev [0..<ct_stationNum (p_core2 p)]) False 0 best = Inr best1"
      using best1(1) by (auto simp: check_transfer_def rbind_Inr)
    let ?C = "{(p, c) | c. \<exists>i < ct_stationNum (p_core2 p). change_at p (split_mix64_hash to_name) date i c}"
    have "best_of b e (S \<union> ?C) best1"
      by (rule best_of_scan [OF _ p(2)]) (use Cons.prems(1) in auto)
    then have "best_of b e ((S \<union> ?C) \<union> changes ps from_name to_name date e) best'"
      using best1(2) by (rule Cons.IH)
    moreover have "(q, c) \<in> changes (tt # ps) from_name to_name date e \<longleftrightarrow>
        (q, c) \<in> ?C \<union> changes ps from_name to_name date e" for q c
      using p(1) False unfolding tt changes_Cons by auto
    then have "changes (tt # ps) from_name to_name date e = ?C \<union> changes ps from_name to_name date e"
      by (intro set_eqI) (simp only: split_paired_all)
    ultimately show ?thesis by (simp add: Un_assoc)
  qed
qed

section \<open>Properties\<close>

text \<open>A small network: G1 and K1 run from A to B, G2 from B to D, a few days from day 152 on.\<close>

definition dm_of :: "nat \<Rightarrow> ('k::linorder \<times> 'v) list \<Rightarrow> ('k, 'v) disk_map" where
  "dm_of m kvs =
     fold (\<lambda>(k, v) dm. case dm_put (<) k v dm of Inl _ \<Rightarrow> dm | Inr (_, dm') \<Rightarrow> dm') kvs (dm_new m)"

definition core_example :: "string \<Rightarrow> hash_t \<Rightarrow> hash_t \<Rightarrow> nat \<Rightarrow> core_train_data" where
  "core_example name s0 s1 start = \<lparr>ct_trainID = name, ct_stationNum = 2, ct_stations_hash = [0 \<mapsto> s0, 1 \<mapsto> s1],
     ct_seatNum = 50, ct_startTime = start, ct_saleDate_beg = 152, ct_saleDate_end = 153, ct_type = 71,
     ct_is_released = True, ct_travelTime = [0 \<mapsto> 30], ct_stopoverTime = Map.empty\<rparr>"

definition network :: engine where
  "network = (let a = split_mix64_hash ''A''; b = split_mix64_hash ''B''; d = split_mix64_hash ''D''
     in engine_new\<lparr>
     core_train_data_storage := dm_of 3 [(1, core_example ''G1'' a b 600), (2, core_example ''G2'' b d 700),
       (3, core_example ''K1'' a b 500)],
     ticket_price_data_storage := dm_of 9 [(1, \<lparr>tp_trainID = ''G1'', tp_price = [0 \<mapsto> 90]\<rparr>),
       (2, \<lparr>tp_trainID = ''G2'', tp_price = [0 \<mapsto> 70]\<rparr>), (3, \<lparr>tp_trainID = ''K1'', tp_price = [0 \<mapsto> 20]\<rparr>)],
     station_name_data_storage := dm_of 1 [(1, [0 \<mapsto> ''A'', 1 \<mapsto> ''B'']), (2, [0 \<mapsto> ''B'', 1 \<mapsto> ''D'']),
       (3, [0 \<mapsto> ''A'', 1 \<mapsto> ''B''])],
     seats_data_storage := dm_of 10 [((1, 0), \<lparr>sd_seat = [0 \<mapsto> 50], sd_max_seats = 50\<rparr>),
       ((2, 0), \<lparr>sd_seat = [0 \<mapsto> 40], sd_max_seats = 50\<rparr>), ((3, 0), \<lparr>sd_seat = [0 \<mapsto> 3], sd_max_seats = 50\<rparr>)],
     stop_register := add_stop_info a 1 152 153 600 no_offset 0 0 (add_stop_info b 1 152 153 600 30 no_offset 1
       (add_stop_info a 3 152 153 500 no_offset 0 0 (add_stop_info b 3 152 153 500 30 no_offset 1 idx_new)))\<rparr>)"



text \<open>C16: the transfer search ends with a best change. It ends with nothing only if no pair of
  trains allows a change; otherwise its answer is one of the changes, and none of the others has a
  smaller total time (or price), then price (or time), then train names.\<close>

theorem query_transfer_finds_best:
  assumes "check_pairs ps from_name to_name date b e None = Inr best"
  shows "case best of None \<Rightarrow> changes ps from_name to_name date e = {}
    | Some r \<Rightarrow> (\<exists>(p, c) \<in> changes ps from_name to_name date e. take_candidate p c e = Inr r) \<and>
        (\<forall>(p, c) \<in> changes ps from_name to_name date e. \<not> key_less (cand_key b p c) (res_key b r))"
proof -
  have "best_of b e ({} \<union> changes ps from_name to_name date e) best"
    by (rule best_of_pairs [OF _ assms]) (simp add: best_of_def)
  then show ?thesis unfolding best_of_def Un_empty_left .
qed

theorem query_transfer_finds_best_witness:
  "\<exists>r. check_pairs [(3, 2), (1, 2)] ''A'' ''D'' 152 True network None = Inr (Some r) \<and> res_train1_id r = ''G1'' \<and>
     (\<exists>(p, c) \<in> changes [(3, 2), (1, 2)] ''A'' ''D'' 152 network. take_candidate p c network = Inr r)"
proof -
  have "map_sum (\<lambda>_. 0::nat) (map_option res_train1_id)
      (check_pairs [(3, 2), (1, 2)] ''A'' ''D'' 152 True network None) = Inr (Some ''G1'')"
    by code_simp
  then obtain r where r: "check_pairs [(3, 2), (1, 2)] ''A'' ''D'' 152 True network None = Inr (Some r)"
    "res_train1_id r = ''G1''"
    by (cases "check_pairs [(3, 2), (1, 2)] ''A'' ''D'' 152 True network None") auto
  then show ?thesis using query_transfer_finds_best [OF r(1)] by simp
qed

end
