(* ===== verification/Orders.thy ===== *)
theory Orders
  imports Ticket_Query
begin

text \<open>
  The order commands of \<^verbatim>\<open>src/transaction_system.cpp\<close>: \<^verbatim>\<open>BuyTicket\<close>, \<^verbatim>\<open>QueryOrder\<close> and
  \<^verbatim>\<open>RefundTicket\<close>. The lemmas show what a purchase does to the seats, that purchases and refunds
  conserve seats (free seats plus seats of successful orders is the seat number of the train), that
  after a refund no waiting order of that train and day fits any more, and what the null entry at
  the end of a shortened queue does to the queue counter.
\<close>

section \<open>BuyTicket\<close>

definition buy_switch :: "args arg_action" where
  "buy_switch c a st =
     (if c \<in> set ''uiftq'' then take_word c a st
      else if c = CHR ''d'' then take_date c a st
      else if c = CHR ''n'' then take_int c a st
      else ignore_option c a st)"

definition buy_args :: args where
  "buy_args = no_args\<lparr>word_arg := (\<lambda>c. if c = CHR ''q'' then ''false'' else [])\<rparr>"

text \<open>\<^verbatim>\<open>seats_data.seat[j] -= ticket_num\<close> and \<^verbatim>\<open>seats_data.seat[i] += txn_data.num\<close> over the
  sections of a trip, in 32 bits.\<close>

fun change_seats :: "nat cells \<Rightarrow> nat list \<Rightarrow> int \<Rightarrow> nat cells result" where
  "change_seats seat [] d = Inr seat"
| "change_seats seat (j # js) d =
     rbind (cell 99 seat j) (\<lambda>s. change_seats (seat(j \<mapsto> to_u 32 (int s + d))) js d)"

definition seat_day :: "direct_train_info \<Rightarrow> nat" where
  "seat_day info = to_u 8 (actual_start_date info - di_saleDate_beg info)"

definition order_price :: "int \<Rightarrow> int \<Rightarrow> nat" where
  "order_price total_price ticket_num = to_u 64 (total_price * ticket_num)"

text \<open>The call of \<^verbatim>\<open>AddOrder\<close>: \<open>status\<close> 0 waits, 1 succeeds.\<close>

definition place_order :: "args \<Rightarrow> direct_train_info \<Rightarrow> nat \<Rightarrow> int \<Rightarrow> int \<Rightarrow> txn_manager \<Rightarrow> txn_manager result" where
  "place_order a info status total_price ticket_num =
     add_order (word_arg a (CHR ''i'')) (word_arg a (CHR ''f'')) (word_arg a (CHR ''t'')) status
       (to_u 32 (di_leave_time_stamp info)) (to_u 32 (di_arrive_time_stamp info)) (to_u 32 ticket_num)
       (order_price total_price ticket_num) (seat_day info) (word_arg a (CHR ''u''))
       (to_u 8 (int (di_from_stop_id info))) (to_u 8 (int (di_to_stop_id info)))"

definition buy_ticket_body :: "args \<Rightarrow> engine \<Rightarrow> string step" where
  "buy_ticket_body a e =
     (let train = split_mix64_hash (word_arg a (CHR ''i''))
      in if online_users e (split_mix64_hash (word_arg a (CHR ''u''))) = None then (Inr ''-1'', e)
         else attempt (of_option Undefined (int_arg a (CHR ''d''))) e (\<lambda>date.
           case request_single_train train date (split_mix64_hash (word_arg a (CHR ''f'')))
                  (split_mix64_hash (word_arg a (CHR ''t''))) (stop_register e) of
             None \<Rightarrow> (Inr ''-1'', e)
           | Some info \<Rightarrow>
               let trip = [di_from_stop_id info..<di_to_stop_id info]
               in attempt (dm_get (<) train (ticket_price_data_storage e)) e (\<lambda>prices.
                  attempt (dm_get (<) (train, seat_day info) (seats_data_storage e)) e (\<lambda>seats.
                  attempt (price_sum (tp_price prices) trip 0) e (\<lambda>total_price.
                  attempt (available (sd_seat seats) (di_from_stop_id info) (di_to_stop_id info)) e (\<lambda>available_seats.
                  attempt (of_option Undefined (int_arg a (CHR ''n''))) e (\<lambda>ticket_num.
                    if available_seats < ticket_num then
                      if word_arg a (CHR ''q'') = ''false'' \<or> sd_max_seats seats < to_u 32 ticket_num
                      then (Inr ''-1'', e)
                      else attempt (place_order a info 0 total_price ticket_num (transaction_manager e)) e
                             (\<lambda>tm. (Inr ''queue'', e\<lparr>transaction_manager := tm\<rparr>))
                    else attempt (place_order a info 1 total_price ticket_num (transaction_manager e)) e (\<lambda>tm.
                      let e1 = e\<lparr>transaction_manager := tm\<rparr>
                      in attempt (change_seats (sd_seat seats) trip (- ticket_num)) e1 (\<lambda>seat.
                        attempt (dm_put (<) (train, seat_day info) (seats\<lparr>sd_seat := seat\<rparr>)
                                   (seats_data_storage e1)) e1 (\<lambda>(_, sds).
                          (Inr (show_nat (order_price total_price ticket_num)),
                           e1\<lparr>seats_data_storage := sds\<rparr>)))))))))))"

definition buy_ticket :: "string \<Rightarrow> engine \<Rightarrow> string step" where
  "buy_ticket = run_handler buy_switch buy_args buy_ticket_body"

section \<open>QueryOrder\<close>

definition query_order_switch :: "args arg_action" where
  "query_order_switch c a st = (if c = CHR ''u'' then take_word c a st else ignore_option c a st)"

definition status_name :: "nat \<Rightarrow> string" where
  "status_name s = (if s = 0 then ''pending] '' else if s = 1 then ''success] '' else ''refunded] '')"

text \<open>A \<^verbatim>\<open>uint32_t\<close> time stamp becomes an \<^verbatim>\<open>int\<close> parameter; the price is divided by a
  \<^verbatim>\<open>num\<close> that must not be zero.\<close>

definition order_line :: "txn_data \<Rightarrow> string result" where
  "order_line txn =
     rbind (print_full_time_stamp (i32 (int (tx_leave_time_stamp txn)))) (\<lambda>leave.
       rbind (print_full_time_stamp (i32 (int (tx_arrive_time_stamp txn)))) (\<lambda>arrive.
         if tx_num txn = 0 then Inl Undefined
         else Inr (new_line @ ''['' @ status_name (tx_status txn) @ tx_trainID txn @ '' '' @
                tx_from_station_name txn @ '' '' @ leave @ '' -> '' @ tx_to_station_name txn @ '' '' @ arrive @
                '' '' @ show_nat (tx_total_price txn div tx_num txn) @ '' '' @ show_nat (tx_num txn))))"

definition query_order_body :: "args \<Rightarrow> engine \<Rightarrow> string step" where
  "query_order_body a e =
     (let user = split_mix64_hash (word_arg a (CHR ''u'')); tm = transaction_manager e
      in if online_users e user = None then (Inr ''-1'', e)
         else (rbind (fetch_full_user_order_history user tm) (\<lambda>ids.
                 rbind (map_result (\<lambda>i. rbind (fetch_transaction_data i tm) order_line) ids)
                   (\<lambda>lines. Inr (show_nat (length ids) @ concat lines))), e))"

definition query_order :: "string \<Rightarrow> engine \<Rightarrow> string step" where
  "query_order = run_handler query_order_switch no_args query_order_body"

section \<open>RefundTicket\<close>

definition refund_switch :: "args arg_action" where
  "refund_switch c a st =
     (if c = CHR ''u'' then take_word c a st else if c = CHR ''n'' then take_int c a st
      else ignore_option c a st)"

definition refund_args :: args where
  "refund_args = no_args\<lparr>int_arg := (\<lambda>_. Some 1)\<rparr>"

text \<open>The loop over the fetched queue: served and dead orders leave the queue. The comparison
  with \<^verbatim>\<open>num\<close> is unsigned.\<close>

fun serve_queue :: "hash_t \<Rightarrow> nat \<Rightarrow> (nat \<times> nat) list \<Rightarrow> nat cells \<Rightarrow> txn_manager
    \<Rightarrow> nat cells result \<times> txn_manager" where
  "serve_queue train offset [] seat tm = (Inr seat, tm)"
| "serve_queue train offset ((i, q) # qs) seat tm =
     (case fetch_transaction_data i tm of
        Inl err \<Rightarrow> (Inl err, tm)
      | Inr cur \<Rightarrow>
          if tx_status cur \<noteq> 0
          then serve_queue train offset qs seat (remove_order_from_queue train offset q tm)
          else case available seat (tx_from_stop_id cur) (tx_to_stop_id cur) of
                 Inl err \<Rightarrow> (Inl err, tm)
               | Inr available_seats \<Rightarrow>
                   if tx_num cur \<le> to_u 32 available_seats
                   then let tm1 = update_transaction_data i (cur\<lparr>tx_status := 1\<rparr>) tm
                        in case change_seats seat [tx_from_stop_id cur..<tx_to_stop_id cur] (- int (tx_num cur)) of
                             Inl err \<Rightarrow> (Inl err, tm1)
                           | Inr seat' \<Rightarrow>
                               serve_queue train offset qs seat' (remove_order_from_queue train offset q tm1)
                   else serve_queue train offset qs seat tm)"

text \<open>What happens to a successful order and to the queue of its train and day.\<close>

definition refund_success :: "txn_data \<Rightarrow> engine \<Rightarrow> string step" where
  "refund_success txn e =
     (let train = split_mix64_hash (tx_trainID txn); offset = tx_running_date_offset txn
      in attempt (dm_get (<) (train, offset) (seats_data_storage e)) e (\<lambda>seats.
         attempt (change_seats (sd_seat seats) [tx_from_stop_id txn..<tx_to_stop_id txn] (int (tx_num txn))) e (\<lambda>seat.
         attempt (dm_put (<) (train, offset) (seats\<lparr>sd_seat := seat\<rparr>) (seats_data_storage e)) e (\<lambda>(_, sds).
           let e1 = e\<lparr>seats_data_storage := sds\<rparr>
           in attempt (fetch_queue train offset (transaction_manager e1)) e1 (\<lambda>qs.
                case serve_queue train offset qs seat (transaction_manager e1) of
                  (r, tm) \<Rightarrow>
                    let e2 = e1\<lparr>transaction_manager := tm\<rparr>
                    in attempt r e2 (\<lambda>seat'.
                      attempt (dm_put (<) (train, offset) (seats\<lparr>sd_seat := seat'\<rparr>) (seats_data_storage e2)) e2
                        (\<lambda>(_, sds'). (Inr ''0'', e2\<lparr>seats_data_storage := sds'\<rparr>))))))))"

definition refund_ticket_body :: "args \<Rightarrow> engine \<Rightarrow> string step" where
  "refund_ticket_body a e =
     (let user = split_mix64_hash (word_arg a (CHR ''u'')); tm = transaction_manager e
      in if online_users e user = None then (Inr ''-1'', e)
         else attempt (of_option Undefined (int_arg a (CHR ''n''))) e (\<lambda>order.
           attempt (fetch_single_user_order_history user order tm) e (\<lambda>r. case r of
             None \<Rightarrow> (Inr ''-1'', e)
           | Some i \<Rightarrow>
               attempt (fetch_transaction_data i tm) e (\<lambda>txn.
                 if tx_status txn = 2 then (Inr ''-1'', e)
                 else let e1 = e\<lparr>transaction_manager := update_transaction_data i (txn\<lparr>tx_status := 2\<rparr>) tm\<rparr>
                      in if tx_status txn = 0 then (Inr ''0'', e1) else refund_success txn e1))))"

definition refund_ticket :: "string \<Rightarrow> engine \<Rightarrow> string step" where
  "refund_ticket = run_handler refund_switch refund_args refund_ticket_body"

section \<open>Seat arrays\<close>

lemma change_seats_Inr:
  assumes "distinct js"
  shows "change_seats seat js d = Inr seat' \<longleftrightarrow>
    (\<forall>j \<in> set js. j < 99 \<and> seat j \<noteq> None) \<and>
    seat' = (\<lambda>j. if j \<in> set js then map_option (\<lambda>s. to_u 32 (int s + d)) (seat j) else seat j)"
  using assms
proof (induction js arbitrary: seat)
  case (Cons j js)
  show ?case
  proof (cases "seat j")
    case None
    then show ?thesis by (auto simp: rbind_Inr)
  next
    case (Some s)
    define seat1 where "seat1 = seat(j \<mapsto> to_u 32 (int s + d))"
    have "(\<lambda>k. if k \<in> set js then map_option (\<lambda>s. to_u 32 (int s + d)) (seat1 k) else seat1 k) =
      (\<lambda>k. if k \<in> set (j # js) then map_option (\<lambda>s. to_u 32 (int s + d)) (seat k) else seat k)"
      using Cons.prems Some by (auto simp: fun_eq_iff seat1_def)
    moreover have "(\<forall>k \<in> set js. k < 99 \<and> seat1 k \<noteq> None) \<longleftrightarrow> (\<forall>k \<in> set js. k < 99 \<and> seat k \<noteq> None)"
      using Cons.prems by (auto simp: seat1_def)
    moreover have "change_seats seat (j # js) d = Inr seat' \<longleftrightarrow> j < 99 \<and> change_seats seat1 js d = Inr seat'"
      using Some by (simp add: rbind_Inr seat1_def [symmetric])
    ultimately show ?thesis
      using Some Cons.prems Cons.IH [of seat1] by simp
  qed
qed auto

lemma least_seats_Inr:
  "least_seats seat js acc = Inr n \<Longrightarrow>
     n \<le> acc \<and> (\<forall>j \<in> set js. \<exists>s. j < 99 \<and> seat j = Some s \<and> n \<le> i32 (int s)) \<and>
     (n = acc \<or> (\<exists>j \<in> set js. \<exists>s. seat j = Some s \<and> n = i32 (int s)))"
proof (induction js arbitrary: acc)
  case (Cons j js)
  then obtain s where s: "j < 99" "seat j = Some s" "least_seats seat js (min acc (i32 (int s))) = Inr n"
    by (auto simp: rbind_Inr)
  from Cons.IH [OF s(3)] s(1,2) show ?case by (auto simp: min_def split: if_splits)
qed simp

lemma least_seats_defined:
  "\<forall>j \<in> set js. j < 99 \<and> seat j \<noteq> None \<Longrightarrow> \<exists>n. least_seats seat js acc = Inr n"
  by (induction js arbitrary: acc) (auto simp: cell_def)

text \<open>The sections of a trip; \<^verbatim>\<open>available_seats\<close> always looks at the first one.\<close>

definition trip :: "nat \<Rightarrow> nat \<Rightarrow> nat set" where
  "trip from_id to_id = insert from_id {from_id..<to_id}"

lemma trip_simps: "set (from_id # [from_id + 1..<to_id]) = trip from_id to_id"
  by (auto simp: trip_def)

lemma available_Inr:
  assumes "available seat from_id to_id = Inr n"
  shows "\<forall>j \<in> trip from_id to_id. \<exists>s. j < 99 \<and> seat j = Some s \<and> n \<le> i32 (int s)"
    "\<exists>j \<in> trip from_id to_id. \<exists>s. seat j = Some s \<and> n = i32 (int s)"
proof -
  obtain s where s: "from_id < 99" "seat from_id = Some s"
    "least_seats seat [from_id + 1..<to_id] (i32 (int s)) = Inr n"
    using assms by (auto simp: available_def rbind_Inr)
  show "\<forall>j \<in> trip from_id to_id. \<exists>s. j < 99 \<and> seat j = Some s \<and> n \<le> i32 (int s)"
    using least_seats_Inr [OF s(3)] s(1,2) by (auto simp: trip_simps [symmetric])
  show "\<exists>j \<in> trip from_id to_id. \<exists>s. seat j = Some s \<and> n = i32 (int s)"
    using least_seats_Inr [OF s(3)] s(1,2) by (auto simp: trip_simps [symmetric])
qed

lemma available_defined:
  assumes "\<forall>j \<in> trip from_id to_id. j < 99 \<and> seat j \<noteq> None"
  shows "\<exists>n. available seat from_id to_id = Inr n"
proof -
  obtain s where "seat from_id = Some s" "from_id < 99" using assms by (auto simp: trip_def)
  moreover have "\<exists>n. least_seats seat [from_id + 1..<to_id] (i32 (int s)) = Inr n"
    using assms by (intro least_seats_defined) (auto simp: trip_def)
  ultimately show ?thesis by (auto simp: available_def cell_def)
qed

text \<open>When all seat numbers are below \<^verbatim>\<open>2 ^ 31\<close>, the result is the minimum.\<close>

definition small_seats :: "nat cells \<Rightarrow> bool" where
  "small_seats seat \<longleftrightarrow> (\<forall>j s. seat j = Some s \<longrightarrow> s < 2147483648)"

lemma available_small:
  assumes "available seat from_id to_id = Inr n" "small_seats seat"
  shows "0 \<le> n" "n < 2147483648" "j \<in> trip from_id to_id \<Longrightarrow> \<exists>s. j < 99 \<and> seat j = Some s \<and> n \<le> int s"
    "\<exists>j \<in> trip from_id to_id. \<exists>s. seat j = Some s \<and> n = int s"
proof -
  have i: "i32 (int s) = int s" if "seat j = Some s" for j s
    using assms(2) that by (intro i32_id) (auto simp: small_seats_def)
  show min: "\<exists>j \<in> trip from_id to_id. \<exists>s. seat j = Some s \<and> n = int s"
    using available_Inr(2) [OF assms(1)] i by metis
  show "0 \<le> n" "n < 2147483648" using min assms(2) by (auto simp: small_seats_def)
  show "j \<in> trip from_id to_id \<Longrightarrow> \<exists>s. j < 99 \<and> seat j = Some s \<and> n \<le> int s"
    using available_Inr(1) [OF assms(1)] i by metis
qed

lemma available_eqI:
  assumes "small_seats seat" "\<forall>j \<in> trip from_id to_id. \<exists>s. j < 99 \<and> seat j = Some s \<and> n \<le> int s"
    "\<exists>j \<in> trip from_id to_id. \<exists>s. seat j = Some s \<and> n = int s"
  shows "available seat from_id to_id = Inr n"
proof -
  have "\<forall>j \<in> trip from_id to_id. j < 99 \<and> seat j \<noteq> None" using assms(2) by auto
  then obtain m where m: "available seat from_id to_id = Inr m" using available_defined by blast
  have "m \<le> n" using available_small(3) [OF m assms(1)] assms(3) by fastforce
  moreover have "n \<le> m" using available_small(4) [OF m assms(1)] assms(2) by fastforce
  ultimately show ?thesis using m by simp
qed

lemma available_mono:
  assumes "available seat from_id to_id = Inr n" "small_seats seat"
    and "\<And>j s. seat j = Some s \<Longrightarrow> \<exists>s'. seat' j = Some s' \<and> s' \<le> s"
  shows "\<exists>n'. available seat' from_id to_id = Inr n' \<and> n' \<le> n"
proof -
  have "\<forall>j \<in> trip from_id to_id. j < 99 \<and> seat' j \<noteq> None"
    using available_small(3) [OF assms(1,2)] assms(3) by fastforce
  then obtain n' where n': "available seat' from_id to_id = Inr n'" using available_defined by blast
  obtain j s where j: "j \<in> trip from_id to_id" "seat j = Some s" "n = int s"
    using available_small(4) [OF assms(1,2)] by blast
  obtain s' where s': "seat' j = Some s'" "s' \<le> s" using assms(3) j(2) by blast
  have "s < 2147483648" using assms(2) j(2) by (simp add: small_seats_def)
  then have "i32 (int s') = int s'" using s'(2) by (intro i32_id) auto
  moreover have "n' \<le> i32 (int s')" using available_Inr(1) [OF n'] j(1) s'(1) by fastforce
  ultimately show ?thesis using n' j(3) s'(2) by auto
qed

section \<open>Seats sold\<close>

text \<open>The seats of successful orders on one section, over the live order records \<open>L\<close>.\<close>

definition counts :: "hash_t \<Rightarrow> nat \<Rightarrow> nat \<Rightarrow> txn_data \<Rightarrow> nat" where
  "counts train offset j txn =
     (if tx_status txn = 1 \<and> split_mix64_hash (tx_trainID txn) = train \<and> tx_running_date_offset txn = offset \<and>
         tx_from_stop_id txn \<le> j \<and> j < tx_to_stop_id txn
      then tx_num txn else 0)"

definition count_at :: "txn_manager \<Rightarrow> hash_t \<Rightarrow> nat \<Rightarrow> nat \<Rightarrow> nat \<Rightarrow> nat" where
  "count_at tm train offset j i =
     (case fetch_transaction_data i tm of Inl _ \<Rightarrow> 0 | Inr txn \<Rightarrow> counts train offset j txn)"

definition sold :: "nat set \<Rightarrow> txn_manager \<Rightarrow> hash_t \<Rightarrow> nat \<Rightarrow> nat \<Rightarrow> nat" where
  "sold L tm train offset j = (\<Sum>i \<in> L. count_at tm train offset j i)"

text \<open>Free seats and seats sold make up the seat number of the train.\<close>

definition balanced :: "nat set \<Rightarrow> txn_manager \<Rightarrow> hash_t \<Rightarrow> nat \<Rightarrow> nat cells \<Rightarrow> nat \<Rightarrow> bool" where
  "balanced L tm train offset seat max_seats \<longleftrightarrow>
     max_seats < 2147483648 \<and> (\<forall>j s. seat j = Some s \<longrightarrow> s + sold L tm train offset j = max_seats)"

definition seats_conserved :: "nat set \<Rightarrow> engine \<Rightarrow> bool" where
  "seats_conserved L e \<longleftrightarrow>
     (\<forall>train offset sd. lookup (seats_data_storage e) (train, offset) = Some sd \<longrightarrow>
        balanced L (transaction_manager e) train offset (sd_seat sd) (sd_max_seats sd))"

lemma balanced_small: "balanced L tm train offset seat m \<Longrightarrow> small_seats seat"
  unfolding balanced_def small_seats_def by (metis le_add1 le_less_trans)

lemma fetch_update [simp]:
  "fetch_transaction_data j (update_transaction_data i d tm) = (if j = i then Inr d else fetch_transaction_data j tm)"
  by (simp add: fetch_transaction_data_def update_transaction_data_def svs.read_update)

lemma fetch_remove [simp]:
  "fetch_transaction_data j (remove_order_from_queue train offset q tm) = fetch_transaction_data j tm"
  by (simp add: fetch_transaction_data_def remove_order_from_queue_def)

lemma sold_remove [simp]:
  "sold L (remove_order_from_queue t d q tm) train offset j = sold L tm train offset j"
  by (simp add: sold_def count_at_def)

lemma balanced_remove [simp]:
  "balanced L (remove_order_from_queue t d q tm) train offset seat m = balanced L tm train offset seat m"
  by (simp add: balanced_def)

lemma sold_cong:
  "(\<And>i. i \<in> L \<Longrightarrow> fetch_transaction_data i tm' = fetch_transaction_data i tm) \<Longrightarrow>
   sold L tm' train offset j = sold L tm train offset j"
  by (simp add: sold_def count_at_def)

lemma sold_insert:
  assumes "finite L" "i \<notin> L" "fetch_transaction_data i tm' = Inr txn"
    and "\<And>k. k \<noteq> i \<Longrightarrow> fetch_transaction_data k tm' = fetch_transaction_data k tm"
  shows "sold (insert i L) tm' train offset j = sold L tm train offset j + counts train offset j txn"
proof -
  have "fetch_transaction_data k tm' = fetch_transaction_data k tm" if "k \<in> L" for k
    using that assms(2,4) by metis
  then have "sold L tm' train offset j = sold L tm train offset j" by (rule sold_cong)
  then show ?thesis using assms(1-3) by (simp add: sold_def count_at_def)
qed

lemma sold_update:
  assumes "finite L" "i \<in> L" "fetch_transaction_data i tm = Inr txn"
  shows "sold L (update_transaction_data i txn' tm) train offset j + counts train offset j txn =
    sold L tm train offset j + counts train offset j txn'"
proof -
  have "sold L tm train offset j = count_at tm train offset j i + sold (L - {i}) tm train offset j" for tm
    using assms(1,2) by (simp add: sold_def sum.remove)
  moreover have "sold (L - {i}) (update_transaction_data i txn' tm) train offset j = sold (L - {i}) tm train offset j"
    by (intro sold_cong) auto
  ultimately show ?thesis using assms(3) by (simp add: count_at_def)
qed

lemma sold_update_other:
  "i \<notin> L \<Longrightarrow> sold L (update_transaction_data i txn' tm) train offset j = sold L tm train offset j"
  by (intro sold_cong) auto

section \<open>Serving the queue\<close>

text \<open>Every order of a queue is a live order of that train and day, or asks for no seat: the null
  entry reads page 0 as an order for zero seats.\<close>

definition waiting :: "nat set \<Rightarrow> txn_manager \<Rightarrow> hash_t \<Rightarrow> nat \<Rightarrow> nat \<Rightarrow> bool" where
  "waiting L tm train offset i \<longleftrightarrow>
     (\<forall>cur. fetch_transaction_data i tm = Inr cur \<longrightarrow>
        (if i \<in> L then split_mix64_hash (tx_trainID cur) = train \<and> tx_running_date_offset cur = offset
         else tx_num cur = 0))"

lemma waiting_serve:
  assumes "waiting L tm train offset k" "fetch_transaction_data i tm = Inr cur"
  shows "waiting L (update_transaction_data i (cur\<lparr>tx_status := 1\<rparr>) tm) train offset k"
  using assms by (auto simp: waiting_def)

lemma waiting_remove [simp]:
  "waiting L (remove_order_from_queue t d q tm) train offset i = waiting L tm train offset i"
  by (simp add: waiting_def)

lemma serve_step:
  assumes "serve_queue train offset ((i, q) # qs) seat tm = (Inr seat', tm')"
  obtains (dead) cur where "fetch_transaction_data i tm = Inr cur" "tx_status cur \<noteq> 0"
      "serve_queue train offset qs seat (remove_order_from_queue train offset q tm) = (Inr seat', tm')"
    | (skip) cur a where "fetch_transaction_data i tm = Inr cur" "tx_status cur = 0"
      "available seat (tx_from_stop_id cur) (tx_to_stop_id cur) = Inr a" "\<not> tx_num cur \<le> to_u 32 a"
      "serve_queue train offset qs seat tm = (Inr seat', tm')"
    | (serve) cur a seat1 where "fetch_transaction_data i tm = Inr cur" "tx_status cur = 0"
      "available seat (tx_from_stop_id cur) (tx_to_stop_id cur) = Inr a" "tx_num cur \<le> to_u 32 a"
      "change_seats seat [tx_from_stop_id cur..<tx_to_stop_id cur] (- int (tx_num cur)) = Inr seat1"
      "serve_queue train offset qs seat1 (remove_order_from_queue train offset q
         (update_transaction_data i (cur\<lparr>tx_status := 1\<rparr>) tm)) = (Inr seat', tm')"
proof -
  obtain cur where cur: "fetch_transaction_data i tm = Inr cur"
    using assms by (cases "fetch_transaction_data i tm") auto
  show ?thesis
  proof (cases "tx_status cur = 0")
    case False
    then show ?thesis using dead [OF cur False] assms cur by simp
  next
    case True
    then obtain a where a: "available seat (tx_from_stop_id cur) (tx_to_stop_id cur) = Inr a"
      using assms cur by (auto split: sum.splits)
    show ?thesis
    proof (cases "tx_num cur \<le> to_u 32 a")
      case False
      then show ?thesis using skip [OF cur True a False] assms cur True a by simp
    next
      case le: True
      then obtain seat1 where
        "change_seats seat [tx_from_stop_id cur..<tx_to_stop_id cur] (- int (tx_num cur)) = Inr seat1"
        using assms cur True a by (auto simp: Let_def split: sum.splits)
      then show ?thesis using serve [OF cur True a le] assms cur True a le by (simp add: Let_def)
    qed
  qed
qed

text \<open>What the loop may do to an order: nothing, or make a waiting order successful.\<close>

lemma serve_fetch:
  "serve_queue train offset qs seat tm = (Inr seat', tm') \<Longrightarrow>
   fetch_transaction_data i tm' = fetch_transaction_data i tm \<or>
   (\<exists>cur. fetch_transaction_data i tm = Inr cur \<and> tx_status cur = 0 \<and>
      fetch_transaction_data i tm' = Inr (cur\<lparr>tx_status := 1\<rparr>))"
proof (induction qs arbitrary: seat tm)
  case (Cons kq qs)
  obtain k q where kq: "kq = (k, q)" by force
  from Cons.prems [unfolded kq] show ?case
  proof (cases rule: serve_step)
    case (dead cur)
    then show ?thesis using Cons.IH [OF dead(3)] by simp
  next
    case (skip cur a)
    then show ?thesis using Cons.IH [OF skip(5)] by simp
  next
    case (serve cur a seat1)
    then show ?thesis using Cons.IH [OF serve(6)] by (auto split: if_splits)
  qed
qed simp

text \<open>One order served: the seats it takes are there, and they become seats sold.\<close>

lemma take_trip:
  assumes "available seat from_id to_id = Inr a" "small_seats seat" "num \<le> to_u 32 a"
    and "change_seats seat [from_id..<to_id] (- int num) = Inr seat1"
  shows "seat1 j = (if from_id \<le> j \<and> j < to_id then map_option (\<lambda>s. s - num) (seat j) else seat j)"
    "from_id \<le> j \<Longrightarrow> j < to_id \<Longrightarrow> \<exists>s. seat j = Some s \<and> num \<le> s" "int num \<le> a"
proof -
  have "a < 2 ^ 32" using available_small(2) [OF assms(1,2)] by simp
  then have num: "int num \<le> a" using available_small(1) [OF assms(1,2)] assms(3) by (simp add: to_u_id)
  then show "int num \<le> a" .
  have enough: "\<exists>s. seat j = Some s \<and> num \<le> s" if "from_id \<le> j" "j < to_id" for j
  proof -
    have "j \<in> trip from_id to_id" using that by (simp add: trip_def)
    then obtain s where "seat j = Some s" "a \<le> int s" using available_small(3) [OF assms(1,2)] by blast
    then show ?thesis using num by auto
  qed
  then show "from_id \<le> j \<Longrightarrow> j < to_id \<Longrightarrow> \<exists>s. seat j = Some s \<and> num \<le> s" .
  have "to_u 32 (int s + - int num) = s - num" if "seat j = Some s" "num \<le> s" for s j
  proof -
    have "s < 2147483648" using that assms(2) by (simp add: small_seats_def)
    then have "s - num < 2 ^ 32" by simp
    moreover have "int s + - int num = int (s - num)" using that by simp
    ultimately show ?thesis by (simp only: to_u_nat)
  qed
  then show "seat1 j = (if from_id \<le> j \<and> j < to_id then map_option (\<lambda>s. s - num) (seat j) else seat j)"
    using assms(4) enough [of j] by (auto simp: change_seats_Inr)
qed

lemma serve_conserves:
  assumes "serve_queue train offset qs seat tm = (Inr seat', tm')" "finite L"
    and "balanced L tm train offset seat m" "\<forall>i \<in> fst ` set qs. waiting L tm train offset i"
  shows "balanced L tm' train offset seat' m \<and>
    (\<forall>t d j. (t, d) \<noteq> (train, offset) \<longrightarrow> sold L tm' t d j = sold L tm t d j) \<and>
    (\<forall>j s. seat j = Some s \<longrightarrow> (\<exists>s'. seat' j = Some s' \<and> s' \<le> s))"
  using assms(1,3,4)
proof (induction qs arbitrary: seat tm)
  case (Cons kq qs)
  obtain k q where kq: "kq = (k, q)" by force
  from Cons.prems(1) [unfolded kq] show ?case
  proof (cases rule: serve_step)
    case (dead cur)
    then show ?thesis using Cons.IH [OF dead(3)] Cons.prems(2,3) by simp
  next
    case (skip cur a)
    then show ?thesis using Cons.IH [OF skip(5)] Cons.prems(2,3) by simp
  next
    case (serve cur a seat1)
    let ?tm1 = "update_transaction_data k (cur\<lparr>tx_status := 1\<rparr>) tm"
    have small: "small_seats seat" using balanced_small [OF Cons.prems(2)] .
    note take = take_trip [OF serve(3) small serve(4,5)]
    have wait: "waiting L tm train offset k" using Cons.prems(3) kq by simp
    have dead: "counts t d j cur = 0" for t d j using serve(2) by (simp add: counts_def)
    have sold1: "sold L ?tm1 t d j = sold L tm t d j + counts t d j (cur\<lparr>tx_status := 1\<rparr>)" for t d j
    proof (cases "k \<in> L")
      case True
      then show ?thesis using sold_update [OF assms(2) True serve(1), of "cur\<lparr>tx_status := 1\<rparr>" t d j] dead by simp
    next
      case False
      then have "tx_num cur = 0" using wait serve(1) by (simp add: waiting_def)
      then show ?thesis using False by (simp add: sold_update_other counts_def)
    qed
    have mine: "counts t d j (cur\<lparr>tx_status := 1\<rparr>) =
        (if (t, d) = (train, offset) \<and> tx_from_stop_id cur \<le> j \<and> j < tx_to_stop_id cur then tx_num cur else 0)" for t d j
      using wait serve(1) by (auto simp: counts_def waiting_def split: if_splits)
    have "balanced L ?tm1 train offset seat1 m"
      unfolding balanced_def
    proof (intro conjI allI impI)
      show "m < 2147483648" using Cons.prems(2) by (simp add: balanced_def)
      fix j s
      assume s: "seat1 j = Some s"
      then obtain s0 where s0: "seat j = Some s0"
        "s = (if tx_from_stop_id cur \<le> j \<and> j < tx_to_stop_id cur then s0 - tx_num cur else s0)"
        using take(1) [of j] by (auto split: if_splits)
      then have "s0 + sold L tm train offset j = m" using Cons.prems(2) by (simp add: balanced_def)
      then show "s + sold L ?tm1 train offset j = m"
        unfolding sold1 mine using s0 take(2) [of j] by auto
    qed
    moreover have "\<forall>i \<in> fst ` set qs. waiting L ?tm1 train offset i"
      using Cons.prems(3) waiting_serve [OF _ serve(1)] by simp
    ultimately have "balanced L tm' train offset seat' m \<and>
        (\<forall>t d j. (t, d) \<noteq> (train, offset) \<longrightarrow> sold L tm' t d j = sold L ?tm1 t d j) \<and>
        (\<forall>j s. seat1 j = Some s \<longrightarrow> (\<exists>s'. seat' j = Some s' \<and> s' \<le> s))"
      using Cons.IH [OF serve(6)] by simp
    moreover have "\<exists>s1. seat1 j = Some s1 \<and> s1 \<le> s" if "seat j = Some s" for j s
      using that take(1) [of j] by auto
    then have "\<exists>s'. seat' j = Some s' \<and> s' \<le> s" if "seat j = Some s" for j s
      using that calculation by (meson le_trans)
    moreover have "sold L ?tm1 t d j = sold L tm t d j" if "(t, d) \<noteq> (train, offset)" for t d j
      unfolding sold1 mine using that by auto
    ultimately show ?thesis by simp
  qed
qed simp

text \<open>An order that is passed over does not fit the seats left in the end, since seats only get
  fewer.\<close>

definition too_big :: "nat cells \<Rightarrow> txn_data \<Rightarrow> bool" where
  "too_big seat cur \<longleftrightarrow>
     (\<exists>a. available seat (tx_from_stop_id cur) (tx_to_stop_id cur) = Inr a \<and> a < int (tx_num cur))"

lemma serve_leaves_too_big:
  assumes "serve_queue train offset qs seat tm = (Inr seat', tm')" "finite L"
    and "balanced L tm train offset seat m" "\<forall>i \<in> fst ` set qs. waiting L tm train offset i"
  shows "\<forall>i \<in> fst ` set qs. \<forall>cur. fetch_transaction_data i tm' = Inr cur \<longrightarrow> tx_status cur = 0 \<longrightarrow> too_big seat' cur"
  using assms(1,3,4)
proof (induction qs arbitrary: seat tm)
  case (Cons kq qs)
  obtain k q where kq: "kq = (k, q)" by force
  have small: "small_seats seat" using balanced_small [OF Cons.prems(2)] .
  from Cons.prems(1) [unfolded kq] show ?case
  proof (cases rule: serve_step)
    case (dead cur)
    have "tx_status cur' \<noteq> 0" if "fetch_transaction_data k tm' = Inr cur'" for cur'
      using that serve_fetch [OF dead(3), of k] dead(1,2) by auto
    then show ?thesis using Cons.IH [OF dead(3)] Cons.prems(2,3) kq by auto
  next
    case (skip cur a)
    have "too_big seat' cur'" if "fetch_transaction_data k tm' = Inr cur'" "tx_status cur' = 0" for cur'
    proof -
      have c: "cur' = cur" using that serve_fetch [OF skip(5), of k] skip(1) by auto
      have "a < 2 ^ 32" "0 \<le> a" using available_small(1,2) [OF skip(3) small] by simp_all
      then have "a < int (tx_num cur)" using skip(4) by (simp add: to_u_id)
      moreover have "\<And>j s. seat j = Some s \<Longrightarrow> \<exists>s'. seat' j = Some s' \<and> s' \<le> s"
        using serve_conserves [OF skip(5) assms(2) Cons.prems(2)] Cons.prems(3) by auto
      then obtain a' where "available seat' (tx_from_stop_id cur) (tx_to_stop_id cur) = Inr a'" "a' \<le> a"
        using available_mono [OF skip(3) small, of seat'] by blast
      ultimately show ?thesis by (auto simp: too_big_def c)
    qed
    then show ?thesis using Cons.IH [OF skip(5)] Cons.prems(2,3) kq by auto
  next
    case (serve cur a seat1)
    let ?tm1 = "remove_order_from_queue train offset q (update_transaction_data k (cur\<lparr>tx_status := 1\<rparr>) tm)"
    have one: "serve_queue train offset [(k, q)] seat tm = (Inr seat1, ?tm1)"
      using serve(1-5) by (simp add: Let_def)
    have "balanced L ?tm1 train offset seat1 m"
      using serve_conserves [OF one assms(2) Cons.prems(2)] Cons.prems(3) kq by simp
    moreover have "\<forall>i \<in> fst ` set qs. waiting L ?tm1 train offset i"
      using Cons.prems(3) waiting_serve [OF _ serve(1)] by simp
    ultimately have rest: "\<forall>i \<in> fst ` set qs. \<forall>cur. fetch_transaction_data i tm' = Inr cur \<longrightarrow>
        tx_status cur = 0 \<longrightarrow> too_big seat' cur"
      by (rule Cons.IH [OF serve(6)])
    have "tx_status cur' \<noteq> 0" if "fetch_transaction_data k tm' = Inr cur'" for cur'
      using that serve_fetch [OF serve(6), of k] by auto
    then show ?thesis using rest kq by auto
  qed
qed simp

section \<open>The order indexes\<close>

text \<open>Every queue entry but the counters names a live order of its train and day; page 0, which
  the null entry names, holds an order for no seat; a status is 0, 1 or 2.\<close>

definition queue_sound :: "nat set \<Rightarrow> txn_manager \<Rightarrow> bool" where
  "queue_sound L tm \<longleftrightarrow> svs_inv L (txn_storage tm) \<and> idx_inv (<) (queue_indexer tm) \<and> 0 \<notin> L \<and>
     (\<forall>cur. fetch_transaction_data 0 tm = Inr cur \<longrightarrow> tx_num cur = 0) \<and>
     (\<forall>i \<in> L. \<forall>cur. fetch_transaction_data i tm = Inr cur \<longrightarrow> tx_status cur \<le> 2) \<and>
     (\<forall>k v. idx_get (<) k (queue_indexer tm) = Some v \<longrightarrow> qi_id k \<noteq> queue_special_id \<longrightarrow>
        v \<in> L \<and> waiting L tm (qi_train k) (qi_offset k) v)"

lemma svs_inv_finite: "svs_inv L s \<Longrightarrow> finite L"
proof -
  assume "svs_inv L s"
  then have "L \<subseteq> {..<(page_count s + 1) * per_page s}" unfolding svs_inv_def by auto
  then show ?thesis by (rule finite_subset) simp
qed

lemma svs_inv_update: "svs_inv L s \<Longrightarrow> svs_inv L (svs_update v i s)"
  by (auto simp: svs_inv_def svs_update_def)

lemma queue_sound_finite: "queue_sound L tm \<Longrightarrow> finite L"
  by (auto simp: queue_sound_def svs_inv_finite)

lemma fill_queue_entries:
  "(i, q) \<in> set (fill_queue n train offset es) \<Longrightarrow>
   (i, q) = (0, 0) \<or> (Queue_index train offset q, i) \<in> set es"
proof (induction n train offset es rule: fill_queue.induct)
  case (3 n train offset k v es)
  then show ?case by (cases k) (auto split: if_splits)
qed auto

lemma sorted_chain_drop:
  assumes "idx_inv (<) ix" "drop n (chain ix) = e # es" "e' \<in> set es"
  shows "fst e < fst e'"
proof -
  have "sorted_wrt (\<lambda>a b. fst a < fst b) (drop n (chain ix))"
    using assms(1) by (simp add: idx_inv_def sorted_wrt_drop)
  then show ?thesis using assms(2,3) by simp
qed

text \<open>What \<^verbatim>\<open>FetchQueue\<close> yields: entries of the index other than the counter, and null entries.\<close>

lemma fetch_queue_entries:
  assumes "idx_inv (<) (queue_indexer tm)" "fetch_queue train offset tm = Inr qs" "(i, q) \<in> set qs"
  shows "(i, q) = (0, 0) \<or>
    (q \<noteq> queue_special_id \<and> idx_get (<) (Queue_index train offset q) (queue_indexer tm) = Some i)"
proof -
  let ?s = "Queue_index train offset queue_special_id"
  obtain k n es where es: "entries_at ?s (queue_indexer tm) = (k, n) # es" "qs = fill_queue n train offset es"
    using assms(2) by (auto simp: fetch_queue_def split: list.splits if_splits)
  show ?thesis
  proof (cases "(i, q) = (0, 0)")
    case False
    then have e: "(Queue_index train offset q, i) \<in> set es"
      using fill_queue_entries assms(3) es(2) by blast
    have "(Queue_index train offset q, i) \<in> set (chain (queue_indexer tm))"
      using e es(1) unfolding entries_at_def by (metis in_set_dropD list.set_intros(2))
    then have "idx_get (<) (Queue_index train offset q) (queue_indexer tm) = Some i"
      using total_get_Some [OF assms(1)] by simp
    moreover have "k < Queue_index train offset q"
      using sorted_chain_drop [OF assms(1) es(1) [unfolded entries_at_def] e] by simp
    moreover have "\<not> k < ?s"
    proof -
      have "dropWhile (\<lambda>x. fst x < ?s) (chain (queue_indexer tm)) = (k, n) # es"
        using es(1) by (simp add: entries_at_def idx_lower_def drop_lower_pos)
      then show ?thesis by (simp add: dropWhile_eq_Cons_conv)
    qed
    ultimately show ?thesis by auto
  qed simp
qed

lemma fetch_queue_waiting:
  assumes "queue_sound L tm" "fetch_queue train offset tm = Inr qs"
  shows "\<forall>i \<in> fst ` set qs. waiting L tm train offset i"
proof clarsimp
  fix i q
  assume iq: "(i, q) \<in> set qs"
  have sound: "idx_inv (<) (queue_indexer tm)" "waiting L tm train offset 0"
    using assms(1) by (auto simp: queue_sound_def waiting_def)
  show "waiting L tm train offset i"
    using fetch_queue_entries [OF sound(1) assms(2) iq] sound(2) assms(1)
    by (auto simp: queue_sound_def dest!: spec [of _ "Queue_index train offset q"])
qed

lemma waiting_cong:
  assumes "fetch_transaction_data i tm' = fetch_transaction_data i tm" "i \<in> L' \<longleftrightarrow> i \<in> L"
  shows "waiting L' tm' train offset i = waiting L tm train offset i"
  using assms by (simp add: waiting_def)

text \<open>What a successful \<^verbatim>\<open>AddOrder\<close> does to the records and to the queue.\<close>

lemma add_order_sound:
  assumes sound: "queue_sound L tm"
    and add: "add_order tr fr t status lv ar num pr off user fs ts tm = Inr tm'" and nul: "c_str tr = tr"
    and status: "status \<le> 2"
    and counter: "status = 0 \<Longrightarrow>
      idx_get (<) (Queue_index (split_mix64_hash tr) off queue_special_id) (queue_indexer tm) \<noteq> None"
  shows "\<exists>i txn. i \<notin> L \<and> make_txn tr fr t status lv ar num pr off fs ts = Inr txn \<and>
    fetch_transaction_data i tm' = Inr txn \<and>
    (\<forall>k. k \<noteq> i \<longrightarrow> fetch_transaction_data k tm' = fetch_transaction_data k tm) \<and> queue_sound (insert i L) tm' \<and>
    (\<forall>ds. history_of (split_mix64_hash user) ds tm \<longrightarrow> length ds + 1 < 2147483648 \<longrightarrow>
       history_of (split_mix64_hash user) (ds @ [i]) tm') \<and>
    (status \<noteq> 0 \<longrightarrow> queue_indexer tm' = queue_indexer tm)"
proof -
  let ?h = "split_mix64_hash tr"
  obtain txn where txn: "make_txn tr fr t status lv ar num pr off fs ts = Inr txn"
    using add by (auto simp: add_order_def rbind_Inr)
  have inv: "svs_inv L (txn_storage tm)" "idx_inv (<) (queue_indexer tm)" "0 \<notin> L"
    using sound by (auto simp: queue_sound_def)
  obtain i st where w: "svs_write txn (txn_storage tm) = Inr (i, st)" "i \<notin> L" "i \<noteq> 0" "svs_inv (insert i L) st"
    "svs_read i st = Inr txn" "\<forall>k. k \<noteq> i \<longrightarrow> svs_read k st = svs_read k (txn_storage tm)"
    using svs.store [OF inv(1), of txn] by blast
  obtain qi oi where tm': "tm' = tm\<lparr>txn_storage := st, queue_indexer := qi, order_indexer := oi\<rparr>"
    "(if status = 0 then count_and_put (Queue_index ?h off queue_special_id) (Queue_index ?h off) i (queue_indexer tm)
      else Inr (queue_indexer tm)) = Inr qi"
    "count_and_put (Order_index (split_mix64_hash user) order_special_id) (Order_index (split_mix64_hash user)) i
      (order_indexer tm) = Inr oi"
    using add txn w(1) by (auto simp: add_order_def rbind_Inr Let_def)
  have "history_of (split_mix64_hash user) (ds @ [i]) tm'"
    if "history_of (split_mix64_hash user) ds tm" "length ds + 1 < 2147483648" for ds
    using history.push [OF that(1) [unfolded history_of_def] that(2), of i] tm'(1,3) by (auto simp: history_of_def)
  moreover have "status \<noteq> 0 \<longrightarrow> queue_indexer tm' = queue_indexer tm" using tm'(1,2) by auto
  moreover have "queue_sound (insert i L) tm' \<and> fetch_transaction_data i tm' = Inr txn \<and>
      (\<forall>k. k \<noteq> i \<longrightarrow> fetch_transaction_data k tm' = fetch_transaction_data k tm)"
  proof -
  have fetch: "fetch_transaction_data i tm' = Inr txn"
    "\<And>k. k \<noteq> i \<Longrightarrow> fetch_transaction_data k tm' = fetch_transaction_data k tm"
    using w(5,6) by (simp_all add: tm'(1) fetch_transaction_data_def)
  have new: "waiting (insert i L) tm' ?h off i"
    using txn nul fetch(1) by (auto simp: waiting_def make_txn_def rbind_Inr strcpy_def split: if_splits)
  have old: "v \<in> insert i L \<and> waiting (insert i L) tm' (qi_train k) (qi_offset k) v"
    if "idx_get (<) k (queue_indexer tm) = Some v" "qi_id k \<noteq> queue_special_id" for k v
  proof -
    have "v \<in> L" "waiting L tm (qi_train k) (qi_offset k) v" using sound that by (auto simp: queue_sound_def)
    moreover then have "v \<noteq> i" using w(2) by auto
    ultimately show ?thesis using waiting_cong [OF fetch(2) [of v], of "insert i L" L] by simp
  qed
  have entries: "idx_inv (<) qi \<and> (\<forall>k v. idx_get (<) k qi = Some v \<longrightarrow> qi_id k \<noteq> queue_special_id \<longrightarrow>
      v \<in> insert i L \<and> waiting (insert i L) tm' (qi_train k) (qi_offset k) v)"
  proof (cases "status = 0")
    case True
    then obtain c where c: "idx_get (<) (Queue_index ?h off queue_special_id) (queue_indexer tm) = Some c"
      using counter by auto
    then have "qi = idx_put (<) (Queue_index ?h off (to_u 32 (int c + 1))) i
        (idx_put (<) (Queue_index ?h off queue_special_id) (to_u 32 (int c + 1)) (queue_indexer tm))"
      using tm'(2) True by (simp add: count_and_put_def value_at_present [OF c] Let_def idx_get_entry(2) [OF c])
    then show ?thesis using inv(2) new old by (auto simp: total_index_simps split: if_splits)
  next
    case False
    then show ?thesis using tm'(2) inv(2) old by simp
  qed
  have "tx_status cur \<le> 2" if "k \<in> insert i L" "fetch_transaction_data k tm' = Inr cur" for k cur
    using that sound fetch txn status
    by (cases "k = i") (auto simp: queue_sound_def make_txn_def rbind_Inr)
  then have "queue_sound (insert i L) tm'"
    using sound w(3,4) entries fetch(2) [of 0] by (auto simp: queue_sound_def tm'(1))
  then show ?thesis using fetch by blast
  qed
  ultimately show ?thesis using txn w(2) by blast
qed

section \<open>What the bodies do\<close>

text \<open>The trip \<^verbatim>\<open>BuyTicket\<close> finds, its seat record, the free seats, the seats asked for and the
  price of one ticket.\<close>

definition offer :: "args \<Rightarrow> engine \<Rightarrow> direct_train_info \<Rightarrow> seats_data \<Rightarrow> int \<Rightarrow> int \<Rightarrow> int \<Rightarrow> bool" where
  "offer a e info seats free num price \<longleftrightarrow>
     (let train = split_mix64_hash (word_arg a (CHR ''i''))
      in online_users e (split_mix64_hash (word_arg a (CHR ''u''))) \<noteq> None \<and>
         (\<exists>date. int_arg a (CHR ''d'') = Some date \<and>
            request_single_train train date (split_mix64_hash (word_arg a (CHR ''f'')))
              (split_mix64_hash (word_arg a (CHR ''t''))) (stop_register e) = Some info) \<and>
         (\<exists>prices. lookup (ticket_price_data_storage e) train = Some prices \<and>
            price_sum (tp_price prices) [di_from_stop_id info..<di_to_stop_id info] 0 = Inr price) \<and>
         lookup (seats_data_storage e) (train, seat_day info) = Some seats \<and>
         available (sd_seat seats) (di_from_stop_id info) (di_to_stop_id info) = Inr free \<and>
         int_arg a (CHR ''n'') = Some num)"

lemma buy_cases:
  assumes "maps_inv e" "buy_ticket_body a e = (Inr r, e')"
  obtains (refused) "r = ''-1''" "e' = e"
    | (queued) info seats free num price tm where "offer a e info seats free num price" "free < num"
      "word_arg a (CHR ''q'') \<noteq> ''false''" "to_u 32 num \<le> sd_max_seats seats"
      "place_order a info 0 price num (transaction_manager e) = Inr tm"
      "r = ''queue''" "e' = e\<lparr>transaction_manager := tm\<rparr>"
    | (bought) info seats free num price tm seat sds where "offer a e info seats free num price" "num \<le> free"
      "place_order a info 1 price num (transaction_manager e) = Inr tm"
      "change_seats (sd_seat seats) [di_from_stop_id info..<di_to_stop_id info] (- num) = Inr seat"
      "dm_inv (<) sds" "lookup sds = (lookup (seats_data_storage e))
         ((split_mix64_hash (word_arg a (CHR ''i'')), seat_day info) := Some (seats\<lparr>sd_seat := seat\<rparr>))"
      "r = show_nat (order_price price num)"
      "e' = e\<lparr>transaction_manager := tm, seats_data_storage := sds\<rparr>"
proof -
  let ?h = "split_mix64_hash (word_arg a (CHR ''i''))"
  have inv: "dm_inv (<) (ticket_price_data_storage e)" "dm_inv (<) (seats_data_storage e)"
    using assms(1) by (simp_all add: maps_inv_def)
  note body = assms(2) [unfolded buy_ticket_body_def Let_def get_lookup [OF inv(1)] get_lookup [OF inv(2)]]
  show ?thesis
  proof (cases "r = ''-1'' \<and> e' = e")
    case True
    then show ?thesis using refused by simp
  next
    case go: False
    have online: "online_users e (split_mix64_hash (word_arg a (CHR ''u''))) \<noteq> None"
      using body go by (auto split: if_splits)
    obtain date where date: "int_arg a (CHR ''d'') = Some date"
      using body go by (cases "int_arg a (CHR ''d'')") (auto split: if_splits)
    obtain info where info: "request_single_train ?h date (split_mix64_hash (word_arg a (CHR ''f'')))
        (split_mix64_hash (word_arg a (CHR ''t''))) (stop_register e) = Some info"
      using body go date by (auto split: if_splits option.splits)
    obtain prices where prices: "lookup (ticket_price_data_storage e) ?h = Some prices"
      using body online date info by (cases "lookup (ticket_price_data_storage e) ?h") auto
    obtain seats where seats: "lookup (seats_data_storage e) (?h, seat_day info) = Some seats"
      using body online date info prices by (cases "lookup (seats_data_storage e) (?h, seat_day info)") auto
    obtain price where price: "price_sum (tp_price prices) [di_from_stop_id info..<di_to_stop_id info] 0 = Inr price"
      using body online date info prices seats
      by (cases "price_sum (tp_price prices) [di_from_stop_id info..<di_to_stop_id info] 0") auto
    obtain free where free: "available (sd_seat seats) (di_from_stop_id info) (di_to_stop_id info) = Inr free"
      using body online date info prices seats price
      by (cases "available (sd_seat seats) (di_from_stop_id info) (di_to_stop_id info)") auto
    obtain num where num: "int_arg a (CHR ''n'') = Some num"
      using body online date info prices seats price free by (cases "int_arg a (CHR ''n'')") auto
    note facts = online date info prices seats price free num
    have offer: "offer a e info seats free num price"
      using facts by (auto simp: offer_def Let_def)
    show ?thesis
    proof (cases "free < num")
      case True
      then show ?thesis
        using body go facts queued [OF offer True]
        by (cases "place_order a info 0 price num (transaction_manager e)") (auto split: if_splits)
    next
      case False
      then obtain tm where tm: "place_order a info 1 price num (transaction_manager e) = Inr tm"
        using body facts by (cases "place_order a info 1 price num (transaction_manager e)") auto
      obtain seat where seat:
        "change_seats (sd_seat seats) [di_from_stop_id info..<di_to_stop_id info] (- num) = Inr seat"
        using body facts False tm
        by (cases "change_seats (sd_seat seats) [di_from_stop_id info..<di_to_stop_id info] (- num)") auto
      obtain sds where sds: "dm_put (<) (?h, seat_day info) (seats\<lparr>sd_seat := seat\<rparr>) (seats_data_storage e) =
          Inr (lookup (seats_data_storage e) (?h, seat_day info) = None, sds)" "dm_inv (<) sds"
        "lookup sds = (lookup (seats_data_storage e))((?h, seat_day info) := Some (seats\<lparr>sd_seat := seat\<rparr>))"
        using inv(2) by (rule put_Some)
      show ?thesis
        using body facts False tm seat sds by (intro bought [OF offer _ tm seat sds(2,3)]) auto
    qed
  qed
qed

text \<open>The other direction: an offer that can be met is sold.\<close>

lemma offer_sold:
  assumes "maps_inv e" "offer a e info seats free num price" "num \<le> free"
    and "place_order a info 1 price num (transaction_manager e) = Inr tm"
    and "change_seats (sd_seat seats) [di_from_stop_id info..<di_to_stop_id info] (- num) = Inr seat"
  shows "\<exists>sds. buy_ticket_body a e = (Inr (show_nat (order_price price num)),
      e\<lparr>transaction_manager := tm, seats_data_storage := sds\<rparr>) \<and> dm_inv (<) sds \<and>
    lookup sds = (lookup (seats_data_storage e))
      ((split_mix64_hash (word_arg a (CHR ''i'')), seat_day info) := Some (seats\<lparr>sd_seat := seat\<rparr>))"
proof -
  let ?k = "(split_mix64_hash (word_arg a (CHR ''i'')), seat_day info)"
  have inv: "dm_inv (<) (ticket_price_data_storage e)" "dm_inv (<) (seats_data_storage e)"
    using assms(1) by (simp_all add: maps_inv_def)
  obtain sds where "dm_put (<) ?k (seats\<lparr>sd_seat := seat\<rparr>) (seats_data_storage e) =
      Inr (lookup (seats_data_storage e) ?k = None, sds)" "dm_inv (<) sds"
    "lookup sds = (lookup (seats_data_storage e))(?k := Some (seats\<lparr>sd_seat := seat\<rparr>))"
    using inv(2) by (rule put_Some)
  then show ?thesis
    using assms(2-5)
    by (auto simp: offer_def Let_def buy_ticket_body_def get_lookup [OF inv(1)] get_lookup [OF inv(2)])
qed

lemma queue_sound_update:
  assumes "queue_sound L tm" "fetch_transaction_data i tm = Inr cur" "st \<le> 2"
  shows "queue_sound L (update_transaction_data i (cur\<lparr>tx_status := st\<rparr>) tm)"
proof -
  have "waiting L (update_transaction_data i (cur\<lparr>tx_status := st\<rparr>) tm) t d v"
    if "waiting L tm t d v" for t d v
    using that assms(2) by (auto simp: waiting_def)
  moreover have "svs_inv L (txn_storage (update_transaction_data i (cur\<lparr>tx_status := st\<rparr>) tm))"
    "queue_indexer (update_transaction_data i (cur\<lparr>tx_status := st\<rparr>) tm) = queue_indexer tm"
    using assms(1) by (simp_all add: update_transaction_data_def queue_sound_def svs_inv_update)
  ultimately show ?thesis using assms by (auto simp: queue_sound_def)
qed

lemma queue_sound_remove:
  assumes "queue_sound L tm"
  shows "queue_sound L (remove_order_from_queue t d q tm)"
proof -
  have "idx_inv (<) (queue_indexer tm)" using assms by (simp add: queue_sound_def)
  then have "queue_indexer (remove_order_from_queue t d q tm) = idx_remove (<) (Queue_index t d q) (queue_indexer tm)"
    "txn_storage (remove_order_from_queue t d q tm) = txn_storage tm"
    "\<And>k. idx_get (<) k (idx_remove (<) (Queue_index t d q) (queue_indexer tm)) =
      (if k = Queue_index t d q then None else idx_get (<) k (queue_indexer tm))"
    "idx_inv (<) (idx_remove (<) (Queue_index t d q) (queue_indexer tm))"
    by (auto simp: remove_order_from_queue_def total_index_simps)
  then show ?thesis using assms by (auto simp: queue_sound_def)
qed

lemma serve_sound:
  "serve_queue train offset qs seat tm = (Inr seat', tm') \<Longrightarrow> queue_sound L tm \<Longrightarrow> queue_sound L tm'"
proof (induction qs arbitrary: seat tm)
  case (Cons kq qs)
  obtain k q where kq: "kq = (k, q)" by force
  from Cons.prems(1) [unfolded kq] show ?case
  proof (cases rule: serve_step)
    case dead
    then show ?thesis using Cons.IH Cons.prems(2) queue_sound_remove by blast
  next
    case skip
    then show ?thesis using Cons.IH Cons.prems(2) by blast
  next
    case serve
    then show ?thesis using Cons.IH Cons.prems(2) queue_sound_remove queue_sound_update [of L tm k _ 1] by force
  qed
qed simp

text \<open>A refund of a successful order, step by step.\<close>

lemma refund_success_steps:
  assumes "dm_inv (<) (seats_data_storage e)" "refund_success txn e = (Inr r, e')"
  obtains seats seat qs seat' tm sds where
    "lookup (seats_data_storage e) (split_mix64_hash (tx_trainID txn), tx_running_date_offset txn) = Some seats"
    "change_seats (sd_seat seats) [tx_from_stop_id txn..<tx_to_stop_id txn] (int (tx_num txn)) = Inr seat"
    "fetch_queue (split_mix64_hash (tx_trainID txn)) (tx_running_date_offset txn) (transaction_manager e) = Inr qs"
    "serve_queue (split_mix64_hash (tx_trainID txn)) (tx_running_date_offset txn) qs seat (transaction_manager e) =
       (Inr seat', tm)"
    "dm_inv (<) sds" "lookup sds = (lookup (seats_data_storage e))
       ((split_mix64_hash (tx_trainID txn), tx_running_date_offset txn) := Some (seats\<lparr>sd_seat := seat'\<rparr>))"
    "r = ''0''" "e' = e\<lparr>transaction_manager := tm, seats_data_storage := sds\<rparr>"
proof -
  let ?h = "split_mix64_hash (tx_trainID txn)" and ?d = "tx_running_date_offset txn"
  note body = assms(2) [unfolded refund_success_def Let_def get_lookup [OF assms(1)]]
  obtain seats where seats: "lookup (seats_data_storage e) (?h, ?d) = Some seats"
    using body by (cases "lookup (seats_data_storage e) (?h, ?d)") auto
  obtain seat where seat:
    "change_seats (sd_seat seats) [tx_from_stop_id txn..<tx_to_stop_id txn] (int (tx_num txn)) = Inr seat"
    using body seats
    by (cases "change_seats (sd_seat seats) [tx_from_stop_id txn..<tx_to_stop_id txn] (int (tx_num txn))") auto
  obtain sds1 where sds1: "dm_put (<) (?h, ?d) (seats\<lparr>sd_seat := seat\<rparr>) (seats_data_storage e) =
      Inr (lookup (seats_data_storage e) (?h, ?d) = None, sds1)" "dm_inv (<) sds1"
    "lookup sds1 = (lookup (seats_data_storage e))((?h, ?d) := Some (seats\<lparr>sd_seat := seat\<rparr>))"
    using assms(1) by (rule put_Some)
  obtain qs where qs: "fetch_queue ?h ?d (transaction_manager e) = Inr qs"
    using body seats seat sds1(1) by (cases "fetch_queue ?h ?d (transaction_manager e)") auto
  obtain seat' tm where serve: "serve_queue ?h ?d qs seat (transaction_manager e) = (Inr seat', tm)"
    using body seats seat sds1(1) qs
    by (cases "serve_queue ?h ?d qs seat (transaction_manager e)"; cases "fst (serve_queue ?h ?d qs seat (transaction_manager e))")
      auto
  obtain sds where sds: "dm_put (<) (?h, ?d) (seats\<lparr>sd_seat := seat'\<rparr>) sds1 = Inr (lookup sds1 (?h, ?d) = None, sds)"
    "dm_inv (<) sds" "lookup sds = (lookup sds1)((?h, ?d) := Some (seats\<lparr>sd_seat := seat'\<rparr>))"
    using sds1(2) by (rule put_Some)
  show ?thesis
    using that [OF seats seat qs serve sds(2)] sds(1,3) sds1(1,3) body seats seat qs serve by simp
qed

lemma refund_cases:
  assumes "refund_ticket_body a e = (Inr r, e')" "int_arg a (CHR ''n'') = Some n" "1 \<le> n"
    and "history_of (split_mix64_hash (word_arg a (CHR ''u''))) ds (transaction_manager e)"
  obtains (refused) "r = ''-1''" "e' = e"
    | (waiting) i txn where "i \<in> set ds" "fetch_transaction_data i (transaction_manager e) = Inr txn"
      "tx_status txn = 0" "r = ''0''"
      "e' = e\<lparr>transaction_manager := update_transaction_data i (txn\<lparr>tx_status := 2\<rparr>) (transaction_manager e)\<rparr>"
    | (success) i txn where "i \<in> set ds" "fetch_transaction_data i (transaction_manager e) = Inr txn"
      "tx_status txn \<noteq> 0" "tx_status txn \<noteq> 2"
      "refund_success txn (e\<lparr>transaction_manager :=
         update_transaction_data i (txn\<lparr>tx_status := 2\<rparr>) (transaction_manager e)\<rparr>) = (Inr r, e')"
proof -
  note single = fetch_single_of [OF assms(4,3)]
  note body = assms(1) [unfolded refund_ticket_body_def Let_def assms(2) of_option_simps attempt_simps single]
  show ?thesis
  proof (cases "r = ''-1'' \<and> e' = e")
    case True
    then show ?thesis using refused by simp
  next
    case False
    then have n: "n \<le> int (length ds)" and on: "online_users e (split_mix64_hash (word_arg a (CHR ''u''))) \<noteq> None"
      using body by (auto split: if_splits)
    define i where "i = rev ds ! nat (n - 1)"
    have i: "i \<in> set ds"
      using n assms(3) nth_mem [of "nat (n - 1)" "rev ds"] by (simp add: i_def)
    obtain txn where txn: "fetch_transaction_data i (transaction_manager e) = Inr txn"
      using body n on unfolding i_def [symmetric]
      by (cases "fetch_transaction_data i (transaction_manager e)") auto
    have two: "tx_status txn \<noteq> 2"
      using body n on txn False unfolding i_def [symmetric] by auto
    show ?thesis
    proof (cases "tx_status txn = 0")
      case True
      then show ?thesis using body n on txn two waiting [OF i txn True] unfolding i_def [symmetric] by auto
    next
      case False
      then show ?thesis using body n on txn two success [OF i txn False two] unfolding i_def [symmetric] by simp
    qed
  qed
qed

section \<open>Conservation of seats\<close>

lemma seats_conservedD:
  "seats_conserved L e \<Longrightarrow> lookup (seats_data_storage e) (train, offset) = Some sd \<Longrightarrow>
   balanced L (transaction_manager e) train offset (sd_seat sd) (sd_max_seats sd)"
  by (simp add: seats_conserved_def)

text \<open>Replacing the seats of one train and day, with the other books unchanged.\<close>

lemma seats_conserved_put:
  assumes "seats_conserved L e" "lookup (seats_data_storage e) (train, offset) = Some sd"
    and "lookup sds = (lookup (seats_data_storage e))((train, offset) := Some (sd\<lparr>sd_seat := seat\<rparr>))"
    and "balanced L' tm train offset seat (sd_max_seats sd)"
    and "\<And>t d j. (t, d) \<noteq> (train, offset) \<Longrightarrow> sold L' tm t d j = sold L (transaction_manager e) t d j"
  shows "seats_conserved L' (e\<lparr>transaction_manager := tm, seats_data_storage := sds\<rparr>)"
  unfolding seats_conserved_def
proof (intro allI impI)
  fix t d sd'
  assume l: "lookup (seats_data_storage (e\<lparr>transaction_manager := tm, seats_data_storage := sds\<rparr>)) (t, d) = Some sd'"
  show "balanced L' (transaction_manager (e\<lparr>transaction_manager := tm, seats_data_storage := sds\<rparr>)) t d
      (sd_seat sd') (sd_max_seats sd')"
  proof (cases "(t, d) = (train, offset)")
    case True
    then show ?thesis using l assms(3,4) by auto
  next
    case False
    then have "lookup (seats_data_storage e) (t, d) = Some sd'" using l assms(3) by auto
    then show ?thesis using seats_conservedD [OF assms(1)] assms(5) [OF False] by (simp add: balanced_def)
  qed
qed

lemma seats_conserved_cong:
  assumes "seats_conserved L e" "\<And>t d j. sold L' tm t d j = sold L (transaction_manager e) t d j"
  shows "seats_conserved L' (e\<lparr>transaction_manager := tm\<rparr>)"
  using assms by (auto simp: seats_conserved_def balanced_def)

lemma make_txn_fields:
  assumes "make_txn tr fr t status lv ar num pr off fs ts = Inr txn"
  shows "tx_status txn = status" "tx_num txn = num" "tx_running_date_offset txn = off"
    "tx_from_stop_id txn = fs" "tx_to_stop_id txn = ts" "tx_trainID txn = c_str tr"
  using assms by (auto simp: make_txn_def rbind_Inr strcpy_def split: if_splits)

text \<open>The stop numbers of an offer fit the bytes of an order.\<close>

lemma offer_stops:
  assumes "available seat from_id to_id = Inr free"
  shows "from_id < 99" "to_id \<le> 99"
proof -
  have "\<forall>j \<in> trip from_id to_id. j < 99" using available_Inr(1) [OF assms] by auto
  moreover have "to_id - 1 \<in> trip from_id to_id" if "from_id < to_id" using that by (auto simp: trip_def)
  ultimately show "from_id < 99" "to_id \<le> 99" by (force simp: trip_def)+
qed

lemma trip_of_offer:
  assumes "available seat from_id to_id = Inr free"
  shows "to_u 8 (int from_id) \<le> j \<and> j < to_u 8 (int to_id) \<longleftrightarrow> from_id \<le> j \<and> j < to_id"
  using offer_stops [OF assms] by (simp add: to_u_nat)

lemma bought_conserves:
  assumes sound: "queue_sound L (transaction_manager e)" and conserved: "seats_conserved L e"
    and offer: "offer a e info seats free num price" "num \<le> free" "0 \<le> num"
    and nul: "c_str (word_arg a (CHR ''i'')) = word_arg a (CHR ''i'')"
    and tm: "place_order a info 1 price num (transaction_manager e) = Inr tm"
    and seat: "change_seats (sd_seat seats) [di_from_stop_id info..<di_to_stop_id info] (- num) = Inr seat"
    and sds: "lookup sds = (lookup (seats_data_storage e))
         ((split_mix64_hash (word_arg a (CHR ''i'')), seat_day info) := Some (seats\<lparr>sd_seat := seat\<rparr>))"
  shows "\<exists>i txn. queue_sound (insert i L) tm \<and> fetch_transaction_data i tm = Inr txn \<and>
    make_txn (word_arg a (CHR ''i'')) (word_arg a (CHR ''f'')) (word_arg a (CHR ''t''))
      1 (to_u 32 (di_leave_time_stamp info)) (to_u 32 (di_arrive_time_stamp info)) (to_u 32 num)
      (order_price price num) (seat_day info) (to_u 8 (int (di_from_stop_id info))) (to_u 8 (int (di_to_stop_id info))) = Inr txn \<and>
    (\<forall>ds. history_of (split_mix64_hash (word_arg a (CHR ''u''))) ds (transaction_manager e) \<longrightarrow>
       length ds + 1 < 2147483648 \<longrightarrow> history_of (split_mix64_hash (word_arg a (CHR ''u''))) (ds @ [i]) tm) \<and>
    queue_indexer tm = queue_indexer (transaction_manager e) \<and>
    seats_conserved (insert i L) (e\<lparr>transaction_manager := tm, seats_data_storage := sds\<rparr>)"
proof -
  let ?h = "split_mix64_hash (word_arg a (CHR ''i''))" and ?d = "seat_day info"
  let ?f = "di_from_stop_id info" and ?t = "di_to_stop_id info"
  have av: "available (sd_seat seats) ?f ?t = Inr free"
    and row: "lookup (seats_data_storage e) (?h, ?d) = Some seats"
    using offer(1) by (auto simp: offer_def Let_def)
  have bal: "balanced L (transaction_manager e) ?h ?d (sd_seat seats) (sd_max_seats seats)"
    using seats_conservedD [OF conserved row] .
  note small = balanced_small [OF bal]
  have "num < 2 ^ 32" using offer(2) available_small(2) [OF av small] by simp
  then have n: "int (to_u 32 num) = num" "to_u 32 num \<le> to_u 32 free"
    using offer(2,3) available_small(2) [OF av small] by (simp_all add: to_u_id)
  obtain i txn where i: "i \<notin> L" "make_txn (word_arg a (CHR ''i'')) (word_arg a (CHR ''f'')) (word_arg a (CHR ''t''))
        1 (to_u 32 (di_leave_time_stamp info)) (to_u 32 (di_arrive_time_stamp info)) (to_u 32 num)
        (order_price price num) ?d (to_u 8 (int ?f)) (to_u 8 (int ?t)) = Inr txn"
      "fetch_transaction_data i tm = Inr txn"
      "\<And>k. k \<noteq> i \<Longrightarrow> fetch_transaction_data k tm = fetch_transaction_data k (transaction_manager e)"
      "queue_sound (insert i L) tm"
      "\<forall>ds. history_of (split_mix64_hash (word_arg a (CHR ''u''))) ds (transaction_manager e) \<longrightarrow>
         length ds + 1 < 2147483648 \<longrightarrow> history_of (split_mix64_hash (word_arg a (CHR ''u''))) (ds @ [i]) tm"
      "queue_indexer tm = queue_indexer (transaction_manager e)"
    using add_order_sound [OF sound tm [unfolded place_order_def] nul] by auto
  have counts: "counts t d j txn = (if (t, d) = (?h, ?d) \<and> ?f \<le> j \<and> j < ?t then to_u 32 num else 0)" for t d j
    using make_txn_fields [OF i(2)] nul trip_of_offer [OF av] by (auto simp: counts_def)
  have sold: "sold (insert i L) tm t d j = sold L (transaction_manager e) t d j + counts t d j txn" for t d j
    using sold_insert [OF queue_sound_finite [OF sound] i(1,3)] i(4) by blast
  have seat': "change_seats (sd_seat seats) [?f..<?t] (- int (to_u 32 num)) = Inr seat" using seat n(1) by simp
  note take = take_trip [OF av small n(2) seat']
  have "balanced (insert i L) tm ?h ?d seat (sd_max_seats seats)"
    unfolding balanced_def
  proof (intro conjI allI impI)
    show "sd_max_seats seats < 2147483648" using bal by (simp add: balanced_def)
    fix j s
    assume s: "seat j = Some s"
    then obtain s0 where s0: "sd_seat seats j = Some s0"
      "s = (if ?f \<le> j \<and> j < ?t then s0 - to_u 32 num else s0)"
      using take(1) [of j] by (auto split: if_splits)
    then have "s0 + sold L (transaction_manager e) ?h ?d j = sd_max_seats seats" using bal by (simp add: balanced_def)
    then show "s + sold (insert i L) tm ?h ?d j = sd_max_seats seats"
      unfolding sold counts using s0 take(2) [of j] by auto
  qed
  moreover have "sold (insert i L) tm t d j = sold L (transaction_manager e) t d j" if "(t, d) \<noteq> (?h, ?d)" for t d j
    unfolding sold counts using that by auto
  ultimately show ?thesis
    using i(2,3,5-7) seats_conserved_put [OF conserved row sds] by blast
qed

lemma refund_success_conserves:
  assumes sound: "queue_sound L (transaction_manager e)" and conserved: "seats_conserved L e"
    and inv: "dm_inv (<) (seats_data_storage e)"
    and i: "i \<in> L" "fetch_transaction_data i (transaction_manager e) = Inr txn" "tx_status txn = 1"
    and run: "refund_success txn (e\<lparr>transaction_manager :=
         update_transaction_data i (txn\<lparr>tx_status := 2\<rparr>) (transaction_manager e)\<rparr>) = (Inr r, e')"
  shows "r = ''0'' \<and> queue_sound L (transaction_manager e') \<and> seats_conserved L e' \<and>
    (\<exists>qs sd. fetch_queue (split_mix64_hash (tx_trainID txn)) (tx_running_date_offset txn) (transaction_manager e) = Inr qs \<and>
       lookup (seats_data_storage e') (split_mix64_hash (tx_trainID txn), tx_running_date_offset txn) = Some sd \<and>
       (\<forall>k \<in> fst ` set qs. \<forall>cur. fetch_transaction_data k (transaction_manager e') = Inr cur \<longrightarrow>
          tx_status cur = 0 \<longrightarrow> too_big (sd_seat sd) cur))"
proof -
  let ?h = "split_mix64_hash (tx_trainID txn)" and ?d = "tx_running_date_offset txn"
  let ?f = "tx_from_stop_id txn" and ?t = "tx_to_stop_id txn"
  define tm1 where "tm1 = update_transaction_data i (txn\<lparr>tx_status := 2\<rparr>) (transaction_manager e)"
  have sound1: "queue_sound L tm1" unfolding tm1_def by (rule queue_sound_update [OF sound i(2)]) simp
  note finite = queue_sound_finite [OF sound]
  obtain seats seat qs seat' tm sds where steps:
    "lookup (seats_data_storage e) (?h, ?d) = Some seats"
    "change_seats (sd_seat seats) [?f..<?t] (int (tx_num txn)) = Inr seat"
    "fetch_queue ?h ?d tm1 = Inr qs" "serve_queue ?h ?d qs seat tm1 = (Inr seat', tm)"
    "lookup sds = (lookup (seats_data_storage e))((?h, ?d) := Some (seats\<lparr>sd_seat := seat'\<rparr>))"
    "r = ''0''" "e' = e\<lparr>transaction_manager := tm, seats_data_storage := sds\<rparr>"
    using run unfolding tm1_def [symmetric] by (rule refund_success_steps [rotated]) (use inv in auto)
  have sold1: "sold L tm1 t d j + counts t d j txn = sold L (transaction_manager e) t d j" for t d j
    using sold_update [OF finite i(1,2), of "txn\<lparr>tx_status := 2\<rparr>" t d j] by (simp add: tm1_def counts_def)
  have counts: "counts t d j txn = (if (t, d) = (?h, ?d) \<and> ?f \<le> j \<and> j < ?t then tx_num txn else 0)" for t d j
    using i(3) by (auto simp: counts_def)
  have bal: "balanced L (transaction_manager e) ?h ?d (sd_seat seats) (sd_max_seats seats)"
    using seats_conservedD [OF conserved steps(1)] .
  have bal1: "balanced L tm1 ?h ?d seat (sd_max_seats seats)"
    unfolding balanced_def
  proof (intro conjI allI impI)
    show max: "sd_max_seats seats < 2147483648" using bal by (simp add: balanced_def)
    fix j s
    assume s: "seat j = Some s"
    then obtain s0 where s0: "sd_seat seats j = Some s0"
      "s = (if ?f \<le> j \<and> j < ?t then to_u 32 (int s0 + int (tx_num txn)) else s0)"
      using steps(2) by (auto simp: change_seats_Inr split: if_splits)
    then have "s0 + sold L (transaction_manager e) ?h ?d j = sd_max_seats seats" using bal by (simp add: balanced_def)
    then have total: "s0 + (sold L tm1 ?h ?d j + counts ?h ?d j txn) = sd_max_seats seats" by (simp only: sold1)
    show "s + sold L tm1 ?h ?d j = sd_max_seats seats"
    proof (cases "?f \<le> j \<and> j < ?t")
      case True
      then have c: "counts ?h ?d j txn = tx_num txn" by (simp add: counts)
      then have "s0 + tx_num txn < 2 ^ 32" using total max by simp
      then have "s = s0 + tx_num txn" using s0(2) True by (simp add: to_u_id)
      then show ?thesis using total c by simp
    next
      case False
      then show ?thesis using total s0(2) unfolding counts by auto
    qed
  qed
  have wait: "\<forall>k \<in> fst ` set qs. waiting L tm1 ?h ?d k" using fetch_queue_waiting [OF sound1 steps(3)] .
  note served = serve_conserves [OF steps(4) finite bal1 wait]
  have "sold L tm t d j = sold L (transaction_manager e) t d j" if "(t, d) \<noteq> (?h, ?d)" for t d j
  proof -
    have "sold L tm t d j = sold L tm1 t d j" using served that by blast
    moreover have "counts t d j txn = 0" unfolding counts using that by auto
    ultimately show ?thesis using sold1 [of t d j] by simp
  qed
  then have "seats_conserved L e'"
    using served unfolding steps(7) by (intro seats_conserved_put [OF conserved steps(1,5)]) auto
  moreover have "queue_sound L (transaction_manager e')" using serve_sound [OF steps(4) sound1] steps(7) by simp
  moreover have "fetch_queue ?h ?d (transaction_manager e) = Inr qs"
    using steps(3) by (simp add: tm1_def fetch_queue_def update_transaction_data_def)
  moreover have "lookup (seats_data_storage e') (?h, ?d) = Some (seats\<lparr>sd_seat := seat'\<rparr>)"
    using steps(5,7) by simp
  moreover have "\<forall>k \<in> fst ` set qs. \<forall>cur. fetch_transaction_data k (transaction_manager e') = Inr cur \<longrightarrow>
      tx_status cur = 0 \<longrightarrow> too_big (sd_seat (seats\<lparr>sd_seat := seat'\<rparr>)) cur"
    using serve_leaves_too_big [OF steps(4) finite bal1 wait] steps(7) by simp
  ultimately show ?thesis using steps(6) by blast
qed

section \<open>Properties\<close>

text \<open>A shop: train G1 runs from A to B on day 152 with 50 seats, ann is online and has no orders.\<close>

definition shop :: engine where
  "shop = engine_new\<lparr>online_users := [split_mix64_hash ''ann'' \<mapsto> 1],
     ticket_price_data_storage := dm_of 9 [(split_mix64_hash ''G1'', \<lparr>tp_trainID = ''G1'', tp_price = [0 \<mapsto> 90]\<rparr>)],
     seats_data_storage := dm_of 10 [((split_mix64_hash ''G1'', 0), \<lparr>sd_seat = [0 \<mapsto> 50], sd_max_seats = 50\<rparr>)],
     stop_register := add_stop_info (split_mix64_hash ''A'') (split_mix64_hash ''G1'') 152 153 600 no_offset 0 0
       (add_stop_info (split_mix64_hash ''B'') (split_mix64_hash ''G1'') 152 153 600 30 no_offset 1 idx_new),
     transaction_manager := tm_example\<rparr>"

definition order_args :: "int \<Rightarrow> args" where
  "order_args n = \<lparr>word_arg = (\<lambda>c. if c = CHR ''u'' then ''ann'' else if c = CHR ''i'' then ''G1''
       else if c = CHR ''f'' then ''A'' else if c = CHR ''t'' then ''B'' else ''true''),
     int_arg = (\<lambda>c. if c = CHR ''d'' then Some 152 else Some n)\<rparr>"

lemma dm_of_sem:
  "0 < m \<Longrightarrow> dm_inv (<) (dm_of m kvs) \<and> (\<forall>k v. lookup (dm_of m kvs) k = Some v \<longrightarrow> (k, v) \<in> set kvs)"
  for kvs :: "('k::linorder \<times> 'v) list"
proof -
  assume m: "0 < m"
  have "dm_inv (<) (fold (\<lambda>(k, v) dm. case dm_put (<) k v dm of Inl _ \<Rightarrow> dm | Inr (_, dm') \<Rightarrow> dm') kvs dm) \<and>
      (\<forall>k v. lookup (fold (\<lambda>(k, v) dm. case dm_put (<) k v dm of Inl _ \<Rightarrow> dm | Inr (_, dm') \<Rightarrow> dm') kvs dm) k = Some v \<longrightarrow>
        lookup dm k = Some v \<or> (k, v) \<in> set kvs)"
    if "dm_inv (<) dm" for dm :: "('k, 'v) disk_map"
    using that
  proof (induction kvs arbitrary: dm)
    case (Cons kv kvs)
    obtain k v where kv: "kv = (k, v)" by force
    obtain dm' where "dm_put (<) k v dm = Inr (lookup dm k = None, dm')" "dm_inv (<) dm'"
      "lookup dm' = (lookup dm)(k := Some v)"
      using Cons.prems by (rule put_Some)
    then show ?case using Cons.IH [of dm'] by (auto simp: kv split: if_splits)
  qed simp
  from this [OF total.dm_new_inv [OF m]] show ?thesis by (simp add: dm_of_def)
qed

lemma shop_ok:
  "maps_inv shop" "queue_sound {} (transaction_manager shop)" "seats_conserved {} shop"
  "history_of (split_mix64_hash ''ann'') [] (transaction_manager shop)"
proof -
  show "maps_inv shop" by (simp add: maps_inv_def shop_def engine_new_def dm_of_sem total.dm_new_inv)
  show "history_of (split_mix64_hash ''ann'') [] (transaction_manager shop)"
    by (simp add: shop_def tm_example_ok)
  have "lookup (seats_data_storage shop) k = Some sd \<Longrightarrow> sd = \<lparr>sd_seat = [0 \<mapsto> 50], sd_max_seats = 50\<rparr>" for k sd
    using dm_of_sem [of 10 "[((split_mix64_hash ''G1'', 0 :: nat), \<lparr>sd_seat = [0 \<mapsto> 50 :: nat], sd_max_seats = 50 :: nat\<rparr>)]"]
    by (cases k) (auto simp: shop_def)
  then have "sd_seat sd = [0 \<mapsto> 50] \<and> sd_max_seats sd = 50" if "lookup (seats_data_storage shop) k = Some sd" for k sd
    using that by fastforce
  then show "seats_conserved {} shop"
    by (fastforce simp: seats_conserved_def balanced_def sold_def split: if_splits)
  have ix: "idx_inv (<) (queue_indexer tm_example)"
    using tm_example_ok(3) by (simp add: queue_of_def counted_def)
  have "qi_id k = queue_special_id" if "idx_get (<) k (queue_indexer tm_example) = Some v" for k v
    using that
    by (auto simp: tm_example_def prepare_train_info_def prepare_user_info_def tm_new_def total_index_simps
        total.ix.new numeral_2_eq_2 split: if_splits)
  moreover have "fetch_transaction_data 0 tm_example = Inr zero_txn"
    by (simp add: tm_example_def prepare_train_info_def prepare_user_info_def tm_new_def fetch_transaction_data_def
        svs_read_def svs_new_def txns_per_page_def)
  ultimately show "queue_sound {} (transaction_manager shop)"
    using ix tm_example_ok(1) by (auto simp: shop_def queue_sound_def zero_txn_def)
qed

lemma dm_of_one: "0 < m \<Longrightarrow> lookup (dm_of m [(k, v)]) = [k \<mapsto> v]"
  for k :: "'k::linorder"
  by (rule put_Some [OF total.dm_new_inv, of m k v]) (auto simp: dm_of_def)

definition shop_info :: direct_train_info where
  "shop_info = \<lparr>di_train_ID_hash = split_mix64_hash ''G1'', actual_start_date = 152,
     di_leave_time_stamp = 152 * 1440 + 600, di_arrive_time_stamp = 152 * 1440 + 630, di_from_stop_id = 0,
     di_to_stop_id = 1, di_saleDate_beg = 152\<rparr>"

definition shop_seats :: seats_data where
  "shop_seats = \<lparr>sd_seat = [0 \<mapsto> 50], sd_max_seats = 50\<rparr>"

lemma shop_request:
  "b < a \<Longrightarrow> request_single_train t 152 a b
     (add_stop_info a t 152 153 600 no_offset 0 0 (add_stop_info b t 152 153 600 30 no_offset 1 idx_new)) =
   Some \<lparr>di_train_ID_hash = t, actual_start_date = 152, di_leave_time_stamp = 152 * 1440 + 600,
     di_arrive_time_stamp = 152 * 1440 + 630, di_from_stop_id = 0, di_to_stop_id = 1, di_saleDate_beg = 152\<rparr>"
  for a b t :: hash_t
proof -
  assume "b < a"
  then have "b < a" "\<not> a < b" "a \<noteq> b" "b \<noteq> a" by auto
  then show ?thesis by (simp add: request_single_train_def register_eval)
qed

lemma shop_offer: "offer (order_args n) shop shop_info shop_seats 50 n 90"
proof -
  have "split_mix64_hash ''B'' < split_mix64_hash ''A''" by code_simp
  then have "request_single_train (split_mix64_hash ''G1'') 152 (split_mix64_hash ''A'') (split_mix64_hash ''B'')
      (stop_register shop) = Some shop_info"
    using shop_request by (simp add: shop_def shop_info_def)
  moreover have "lookup (ticket_price_data_storage shop) (split_mix64_hash ''G1'') =
      Some \<lparr>tp_trainID = ''G1'', tp_price = [0 \<mapsto> 90]\<rparr>"
    "lookup (seats_data_storage shop) (split_mix64_hash ''G1'', seat_day shop_info) = Some shop_seats"
    by (simp_all add: shop_def dm_of_one shop_seats_def seat_day_def shop_info_def to_u_def)
  ultimately show ?thesis
    by (simp add: offer_def order_args_def Let_def shop_info_def shop_seats_def available_def cell_def i32_def
        add_price_def) (simp add: shop_def)
qed

text \<open>The shop sells; afterwards there is one order record, and ann's history holds it.\<close>

lemma shop_sells:
  "\<exists>i e' txn. buy_ticket_body (order_args 3) shop = (Inr ''270'', e') \<and> maps_inv e' \<and>
     queue_sound {i} (transaction_manager e') \<and> seats_conserved {i} e' \<and>
     history_of (split_mix64_hash ''ann'') [i] (transaction_manager e') \<and>
     queue_of (split_mix64_hash ''G1'') 0 [] (transaction_manager e') \<and> online_users e' = online_users shop \<and>
     fetch_transaction_data i (transaction_manager e') = Inr txn \<and> tx_status txn = 1 \<and> tx_trainID txn = ''G1'' \<and>
     tx_running_date_offset txn = 0 \<and> tx_from_stop_id txn = 0 \<and> tx_to_stop_id txn = 1 \<and> tx_num txn = 3 \<and>
     lookup (seats_data_storage e') (split_mix64_hash ''G1'', 0) = Some \<lparr>sd_seat = [0 \<mapsto> 47], sd_max_seats = 50\<rparr>"
proof -
  have d: "seat_day shop_info = 0" by (simp add: seat_day_def shop_info_def to_u_def)
  have a: "word_arg (order_args n) (CHR ''u'') = ''ann''" "word_arg (order_args n) (CHR ''i'') = ''G1''" 
    "word_arg (order_args n) (CHR ''f'') = ''A''" "word_arg (order_args n) (CHR ''t'') = ''B''" "c_str ''G1'' = ''G1''" for n
    by (simp_all add: order_args_def c_str_def)
  have stops: "to_u 8 (int (di_from_stop_id shop_info)) = 0" "to_u 8 (int (di_to_stop_id shop_info)) = 1"
    by (simp_all add: shop_info_def to_u_def)
  have three: "to_u 32 3 = 3" by (simp add: to_u_def)
  define t1 where "t1 = to_u 32 (di_leave_time_stamp shop_info)"
  define t2 where "t2 = to_u 32 (di_arrive_time_stamp shop_info)"
  obtain txn where txn: "make_txn ''G1'' ''A'' ''B'' 1 t1 t2 3 (order_price 90 3) 0 0 1 = Inr txn"
    by (simp add: make_txn_def strcpy_def c_str_def)
  have q: "queue_of (split_mix64_hash ''G1'') 0 [] tm_example"
    unfolding queue_of_def counted_def tm_example_def prepare_train_info_def prepare_user_info_def
    by (auto simp: tm_new_def total_index_simps total.ix.new numeral_2_eq_2 to_u_def split: if_splits)
  have tm0: "transaction_manager shop = tm_example" by (simp add: shop_def)
  obtain tm where tm: "add_order ''G1'' ''A'' ''B'' 1 t1 t2 3 (order_price 90 3) 0 ''ann'' 0 1 tm_example = Inr tm"
    using add_order_effect [OF tm_example_ok(1) txn tm_example_ok(2)] by auto
  then have place: "place_order (order_args 3) shop_info 1 90 3 (transaction_manager shop) = Inr tm"
    by (simp only: place_order_def a d t1_def t2_def stops three tm0)
  have seat: "change_seats (sd_seat shop_seats) [di_from_stop_id shop_info..<di_to_stop_id shop_info] (- 3) =
      Inr [0 \<mapsto> 47]"
    by (simp add: shop_seats_def shop_info_def cell_def to_u_def)
  obtain sds where sds: "buy_ticket_body (order_args 3) shop = (Inr (show_nat (order_price 90 3)),
      shop\<lparr>transaction_manager := tm, seats_data_storage := sds\<rparr>)" "dm_inv (<) sds"
    "lookup sds = (lookup (seats_data_storage shop))
      ((split_mix64_hash (word_arg (order_args 3) (CHR ''i'')), seat_day shop_info) := Some (shop_seats\<lparr>sd_seat := [0 \<mapsto> 47]\<rparr>))"
    using offer_sold [OF shop_ok(1) shop_offer _ place seat] by auto
  let ?e = "shop\<lparr>transaction_manager := tm, seats_data_storage := sds\<rparr>"
  have "c_str (word_arg (order_args 3) (CHR ''i'')) = word_arg (order_args 3) (CHR ''i'')" by (simp only: a)
  then obtain i txn' where i: "queue_sound {i} tm" "fetch_transaction_data i tm = Inr txn'"
    "make_txn ''G1'' ''A'' ''B'' 1 t1 t2 3 (order_price 90 3) 0 0 1 = Inr txn'"
    "history_of (split_mix64_hash ''ann'') [i] tm" "queue_indexer tm = queue_indexer tm_example" "seats_conserved {i} ?e"
    using bought_conserves [OF shop_ok(2,3) shop_offer _ _ _ place seat sds(3)] shop_ok(4)
    unfolding a d stops three tm0 t1_def [symmetric] t2_def [symmetric] by fastforce
  have "show_nat (order_price 90 3) = ''270''" by code_simp
  moreover have "maps_inv ?e" using shop_ok(1) sds(2) by (simp add: maps_inv_def)
  moreover have "queue_of (split_mix64_hash ''G1'') 0 [] tm" using q i(5) by (simp add: queue_of_def)
  ultimately show ?thesis
    using sds(1,3) i make_txn_fields [OF i(3)] a(5) unfolding a d shop_seats_def
    by (intro exI [of _ i] exI [of _ ?e] exI [of _ txn']) simp
qed

lemma shop_refunds:
  assumes "maps_inv e" "history_of (split_mix64_hash ''ann'') [i] (transaction_manager e)"
    and "queue_of (split_mix64_hash ''G1'') 0 [] (transaction_manager e)" "online_users e = online_users shop"
    and "fetch_transaction_data i (transaction_manager e) = Inr txn" "tx_status txn = 1" "tx_trainID txn = ''G1''"
    and "tx_running_date_offset txn = 0" "tx_from_stop_id txn = 0" "tx_to_stop_id txn = 1" "tx_num txn = 3"
    and "lookup (seats_data_storage e) (split_mix64_hash ''G1'', 0) = Some \<lparr>sd_seat = [0 \<mapsto> 47], sd_max_seats = 50\<rparr>"
  shows "\<exists>e'. refund_ticket_body (order_args 1) e = (Inr ''0'', e')"
proof -
  let ?k = "(split_mix64_hash ''G1'', 0 :: nat)" and ?sd = "\<lparr>sd_seat = [0 \<mapsto> 50 :: nat], sd_max_seats = 50 :: nat\<rparr>"
  let ?tm = "update_transaction_data i (txn\<lparr>tx_status := 2\<rparr>) (transaction_manager e)"
  have inv: "dm_inv (<) (seats_data_storage e)" using assms(1) by (simp add: maps_inv_def)
  obtain s1 where s1: "dm_put (<) ?k ?sd (seats_data_storage e) = Inr (lookup (seats_data_storage e) ?k = None, s1)"
    "dm_inv (<) s1"
    using inv by (rule put_Some)
  obtain s2 where s2: "dm_put (<) ?k ?sd s1 = Inr (lookup s1 ?k = None, s2)"
    using s1(2) by (rule put_Some)
  have seat: "change_seats [0 \<mapsto> 47] [0..<1] 3 = Inr [0 \<mapsto> 50]" by (simp add: cell_def to_u_def)
  have q: "fetch_queue (split_mix64_hash ''G1'') 0 ?tm = Inr []"
    using fetch_queue_of [OF assms(3)] by (simp add: fetch_queue_def update_transaction_data_def)
  have a: "word_arg (order_args 1) (CHR ''u'') = ''ann''" "int_arg (order_args 1) (CHR ''n'') = Some 1"
    by (simp_all add: order_args_def)
  have "refund_success txn (e\<lparr>transaction_manager := ?tm\<rparr>) =
      (Inr ''0'', e\<lparr>transaction_manager := ?tm, seats_data_storage := s2\<rparr>)"
    using seat q s1(1) s2 assms(12)
    by (simp add: refund_success_def Let_def get_lookup [OF inv] assms(7-11) del: One_nat_def)
  moreover have "online_users e (split_mix64_hash ''ann'') \<noteq> None"
    using assms(4) by (simp add: shop_def)
  ultimately show ?thesis
    using assms(5,6) fetch_single_of [OF assms(2), of 1] by (simp add: refund_ticket_body_def Let_def a)
qed

text \<open>C1: what \<^verbatim>\<open>BuyTicket\<close> does, when all seat numbers are in range. It answers -1 and changes
  nothing, or queues the order and leaves all seats alone, or sells: then at least as many seats
  were free on every section of the trip as asked for, exactly these sections of that train and day
  lose that many seats, and the free seats of the trip go down by exactly that number.\<close>

theorem buy_ticket_sells_free_seats:
  assumes "maps_inv e" "buy_ticket_body a e = (Inr r, e')"
    and "\<forall>k sd. lookup (seats_data_storage e) k = Some sd \<longrightarrow> small_seats (sd_seat sd)"
    and "int_arg a (CHR ''n'') = Some num" "0 \<le> num"
  shows "(r = ''-1'' \<and> e' = e) \<or>
    (r = ''queue'' \<and> lookup (seats_data_storage e') = lookup (seats_data_storage e)) \<or>
    (\<exists>info seats free price seat. offer a e info seats free num price \<and> num \<le> free \<and>
       r = show_nat (order_price price num) \<and>
       lookup (seats_data_storage e') = (lookup (seats_data_storage e))
         ((split_mix64_hash (word_arg a (CHR ''i'')), seat_day info) := Some (seats\<lparr>sd_seat := seat\<rparr>)) \<and>
       (\<forall>j. seat j = (if di_from_stop_id info \<le> j \<and> j < di_to_stop_id info
          then map_option (\<lambda>s. s - nat num) (sd_seat seats j) else sd_seat seats j)) \<and>
       (di_from_stop_id info < di_to_stop_id info \<longrightarrow>
          available seat (di_from_stop_id info) (di_to_stop_id info) = Inr (free - num)))"
  using assms(1,2)
proof (cases rule: buy_cases)
  case (bought info seats free num' price tm seat sds)
  let ?f = "di_from_stop_id info" and ?t = "di_to_stop_id info"
  have av: "available (sd_seat seats) ?f ?t = Inr free" and num: "num' = num"
    and row: "lookup (seats_data_storage e) (split_mix64_hash (word_arg a (CHR ''i'')), seat_day info) = Some seats"
    using bought(1) assms(4) by (auto simp: offer_def Let_def)
  have small: "small_seats (sd_seat seats)" using assms(3) row by blast
  have le: "nat num \<le> to_u 32 free"
    using bought(2) num assms(5) available_small(1,2) [OF av small] by (simp add: to_u_id)
  have "change_seats (sd_seat seats) [?f..<?t] (- int (nat num)) = Inr seat"
    using bought(4) num assms(5) by simp
  note take = take_trip [OF av small le this]
  have "available seat ?f ?t = Inr (free - num)" if lt: "?f < ?t"
  proof (rule available_eqI)
    have t: "trip ?f ?t = {?f..<?t}" using lt by (auto simp: trip_def)
    show "small_seats seat" using small by (auto simp: small_seats_def take(1) split: if_splits intro: less_imp_diff_less)
    have s: "\<exists>s'. seat j = Some s' \<and> int s' = int s - num" if "j \<in> trip ?f ?t" "sd_seat seats j = Some s" for j s
      using that take(1,2) [of j] assms(5) by (auto simp: t of_nat_diff)
    show "\<forall>j \<in> trip ?f ?t. \<exists>s. j < 99 \<and> seat j = Some s \<and> free - num \<le> int s"
      using available_small(3) [OF av small] s by fastforce
    show "\<exists>j \<in> trip ?f ?t. \<exists>s. seat j = Some s \<and> free - num = int s"
      using available_small(4) [OF av small] s by fastforce
  qed
  then show ?thesis
    using bought num take(1) by (intro disjI2 exI [of _ info] exI [of _ seats] exI [of _ free] exI [of _ price] exI [of _ seat]) simp
qed auto

theorem buy_ticket_sells_free_seats_witness:
  "\<exists>e'. buy_ticket_body (order_args 3) shop = (Inr ''270'', e') \<and>
     (\<exists>info seats free price. offer (order_args 3) shop info seats free 3 price \<and> 3 \<le> free)"
proof -
  obtain e' where run: "buy_ticket_body (order_args 3) shop = (Inr ''270'', e')"
    using shop_sells by blast
  have "\<forall>k sd. lookup (seats_data_storage shop) k = Some sd \<longrightarrow> small_seats (sd_seat sd)"
    using seats_conservedD [OF shop_ok(3)] balanced_small by (metis prod.collapse)
  moreover have "int_arg (order_args 3) (CHR ''n'') = Some 3" by (simp add: order_args_def)
  ultimately show ?thesis
    using buy_ticket_sells_free_seats [OF shop_ok(1) run, of 3] run by auto
qed


lemma shop_counters:
  "lookup (seats_data_storage shop) (split_mix64_hash ''G1'', d) \<noteq> None \<Longrightarrow>
   idx_get (<) (Queue_index (split_mix64_hash ''G1'') d queue_special_id) (queue_indexer (transaction_manager shop)) \<noteq> None"
proof -
  assume "lookup (seats_data_storage shop) (split_mix64_hash ''G1'', d) \<noteq> None"
  then have "d = 0"
    using dm_of_sem [of 10 "[((split_mix64_hash ''G1'', 0 :: nat), \<lparr>sd_seat = [0 \<mapsto> 50 :: nat], sd_max_seats = 50 :: nat\<rparr>)]"]
    by (auto simp: shop_def)
  moreover have "idx_inv (<) (idx_new :: (queue_index, nat) index)" by (simp add: total.ix.new)
  ultimately show ?thesis
    by (simp add: shop_def tm_example_def prepare_train_info_def prepare_user_info_def tm_new_def total_index_simps
        numeral_2_eq_2 to_u_def)
qed


text \<open>C3: refunds conserve seats, together with everything the waiting orders gain from them.\<close>

theorem refunds_conserve_seats:
  assumes "maps_inv e" "queue_sound L (transaction_manager e)" "seats_conserved L e"
    and "history_of (split_mix64_hash (word_arg a (CHR ''u''))) ds (transaction_manager e)" "set ds \<subseteq> L"
    and "int_arg a (CHR ''n'') = Some n" "1 \<le> n" "refund_ticket_body a e = (Inr r, e')"
  shows "queue_sound L (transaction_manager e') \<and> seats_conserved L e'"
  using assms(8,6,7,4)
proof (cases rule: refund_cases)
  case refused
  then show ?thesis using assms(2,3) by simp
next
  case (waiting i txn)
  have "sold L (update_transaction_data i (txn\<lparr>tx_status := 2\<rparr>) (transaction_manager e)) t d j =
      sold L (transaction_manager e) t d j" for t d j
    using sold_update [OF queue_sound_finite [OF assms(2)] _ waiting(2), of "txn\<lparr>tx_status := 2\<rparr>" t d j]
      waiting(1,3) assms(5) by (auto simp: counts_def)
  then show ?thesis
    using queue_sound_update [OF assms(2) waiting(2), of 2] seats_conserved_cong [OF assms(3)] waiting(5) by simp
next
  case (success i txn)
  have "i \<in> L" using success(1) assms(5) by blast
  moreover have "tx_status txn = 1"
    using assms(2) success(2-4) \<open>i \<in> L\<close> by (force simp: queue_sound_def)
  moreover have "dm_inv (<) (seats_data_storage e)" using assms(1) by (simp add: maps_inv_def)
  ultimately show ?thesis
    using refund_success_conserves [OF assms(2,3) _ _ success(2) _ success(5)] by blast
qed

theorem refunds_conserve_seats_witness:
  "\<exists>i e' e''. buy_ticket_body (order_args 3) shop = (Inr ''270'', e') \<and>
     refund_ticket_body (order_args 1) e' = (Inr ''0'', e'') \<and> seats_conserved {i} e''"
proof -
  obtain i e' txn where e': "buy_ticket_body (order_args 3) shop = (Inr ''270'', e')" "maps_inv e'"
    "queue_sound {i} (transaction_manager e')" "seats_conserved {i} e'"
    "history_of (split_mix64_hash ''ann'') [i] (transaction_manager e')"
    "queue_of (split_mix64_hash ''G1'') 0 [] (transaction_manager e')" "online_users e' = online_users shop"
    "fetch_transaction_data i (transaction_manager e') = Inr txn" "tx_status txn = 1" "tx_trainID txn = ''G1''"
    "tx_running_date_offset txn = 0" "tx_from_stop_id txn = 0" "tx_to_stop_id txn = 1" "tx_num txn = 3"
    "lookup (seats_data_storage e') (split_mix64_hash ''G1'', 0) = Some \<lparr>sd_seat = [0 \<mapsto> 47], sd_max_seats = 50\<rparr>"
    using shop_sells by auto
  obtain e'' where run: "refund_ticket_body (order_args 1) e' = (Inr ''0'', e'')"
    using shop_refunds [OF e'(2,5-15)] by blast
  have "word_arg (order_args 1) (CHR ''u'') = ''ann''" "int_arg (order_args 1) (CHR ''n'') = Some 1"
    by (simp_all add: order_args_def)
  then have "seats_conserved {i} e''"
    using refunds_conserve_seats [OF e'(2-4), of "order_args 1" "[i]" 1] e'(5) run by simp
  then show ?thesis using e'(1) run by blast
qed



text \<open>C10: the null entry is served like an order. Once the only order of a queue has left it,
  \<^verbatim>\<open>FetchQueue\<close> still yields one pair, (0, 0); the next refund of that train and day takes
  page 0 of the file for an order of zero seats, marks it successful, and removes the queue entry
  with id 0, which is the counter of the queue.\<close>

theorem null_entry_drops_counter:
  assumes "queue_of train offset [d] tm" "fetch_transaction_data 0 tm = Inr zero_txn" "seat 0 = Some s"
    and "s < 2147483648"
  shows "\<exists>tm'. fetch_queue train offset (remove_order_from_queue train offset 1 tm) = Inr [(0, 0)] \<and>
    serve_queue train offset [(0, 0)] seat (remove_order_from_queue train offset 1 tm) = (Inr seat, tm') \<and>
    idx_get (<) (Queue_index train offset queue_special_id) (queue_indexer tm') = None \<and>
    fetch_transaction_data 0 tm' = Inr (zero_txn\<lparr>tx_status := 1\<rparr>)"
proof -
  let ?tm = "remove_order_from_queue train offset 1 tm"
  have q: "idx_inv (<) (queue_indexer tm)"
    "idx_get (<) (Queue_index train offset queue_special_id) (queue_indexer tm) = Some 1"
    "\<And>i v. idx_get (<) (Queue_index train offset i) (queue_indexer tm) = Some v \<Longrightarrow> i = 0 \<or> i = 1"
    using assms(1) by (auto simp: queue_of_def counted_def queue_special_id_def)
  then have q': "idx_inv (<) (queue_indexer ?tm)"
    "idx_get (<) (Queue_index train offset queue_special_id) (queue_indexer ?tm) = Some 1"
    "\<And>i v. idx_get (<) (Queue_index train offset i) (queue_indexer ?tm) = Some v \<Longrightarrow> i = 0 \<or> i \<in> set []"
    by (auto simp: remove_order_from_queue_def total_index_simps queue_special_id_def split: if_splits)
  have "fetch_queue train offset ?tm = Inr [(0, 0)]"
    using fetch_queue_run [OF q'(1,2), of "[]" "\<lambda>_. 0"] q'(3) by simp
  moreover define tm' where
    "tm' = remove_order_from_queue train offset 0 (update_transaction_data 0 (zero_txn\<lparr>tx_status := 1\<rparr>) ?tm)"
  moreover have "available seat 0 0 = Inr (int s)"
    using assms(3,4) by (simp add: available_def cell_def i32_id)
  then have "serve_queue train offset [(0, 0)] seat ?tm = (Inr seat, tm')"
    using assms(2) by (simp add: tm'_def zero_txn_def Let_def)
  moreover have "idx_get (<) (Queue_index train offset queue_special_id) (queue_indexer tm') = None"
    using q'(1) by (simp add: tm'_def remove_order_from_queue_def update_transaction_data_def total_index_simps
        queue_special_id_def)
  ultimately show ?thesis by (simp add: zero_txn_def)
qed

theorem null_entry_drops_counter_witness:
  "\<exists>tm tm'. queue_of (split_mix64_hash ''G1'') 1 [28] tm \<and>
     serve_queue (split_mix64_hash ''G1'') 1 [(0, 0)] [0 \<mapsto> 50]
       (remove_order_from_queue (split_mix64_hash ''G1'') 1 1 tm) = (Inr [0 \<mapsto> 50], tm') \<and>
     idx_get (<) (Queue_index (split_mix64_hash ''G1'') 1 queue_special_id) (queue_indexer tm') = None"
proof -
  obtain ix where "counted (Queue_index (split_mix64_hash ''G1'') 1 queue_special_id)
      (Queue_index (split_mix64_hash ''G1'') 1)
      (\<lambda>k. qi_train k = split_mix64_hash ''G1'' \<and> qi_offset k = 1) [28] ix"
    using queue.push [OF tm_example_ok(3) [unfolded queue_of_def], of 28] by auto
  then have q: "queue_of (split_mix64_hash ''G1'') 1 [28] (tm_example\<lparr>queue_indexer := ix\<rparr>)"
    by (simp add: queue_of_def)
  have z: "fetch_transaction_data 0 (tm_example\<lparr>queue_indexer := ix\<rparr>) = Inr zero_txn"
    by (simp add: tm_example_def prepare_train_info_def prepare_user_info_def tm_new_def fetch_transaction_data_def
        svs_read_def svs_new_def txns_per_page_def)
  have "(50 :: nat) < 2147483648" "[0 \<mapsto> 50 :: nat] 0 = Some 50" by simp_all
  then show ?thesis using null_entry_drops_counter [OF q z, of "[0 \<mapsto> 50]" 50] q by blast
qed

end
