(* ===== verification/Command_Names.thy ===== *)
theory Command_Names
  imports Utils
begin

text \<open>
  The constants at the top of \<^verbatim>\<open>src/engine.cpp\<close>: the hashes by which \<^verbatim>\<open>Execute\<close> tells the
  commands apart. The lemmas show that each constant is the \<^verbatim>\<open>SplitMix64Hash\<close> of the name its
  comment gives.
\<close>

section \<open>The constants\<close>

definition add_user_hash :: hash_t where "add_user_hash = 1294763820278197867"
definition login_hash :: hash_t where "login_hash = 2711532776857333909"
definition logout_hash :: hash_t where "logout_hash = 654844766916416630"
definition query_profile_hash :: hash_t where "query_profile_hash = 2497292575416072607"
definition modify_profile_hash :: hash_t where "modify_profile_hash = 11664297803074461165"
definition add_train_hash :: hash_t where "add_train_hash = 4928024213250587878"
definition delete_train_hash :: hash_t where "delete_train_hash = 13574898832952622188"
definition release_train_hash :: hash_t where "release_train_hash = 3024733565973464225"
definition query_train_hash :: hash_t where "query_train_hash = 8200860784912964124"
definition query_ticket_hash :: hash_t where "query_ticket_hash = 11565392281772224130"
definition query_transfer_hash :: hash_t where "query_transfer_hash = 17604853834584868005"
definition buy_ticket_hash :: hash_t where "buy_ticket_hash = 16906761384093040506"
definition query_order_hash :: hash_t where "query_order_hash = 8097745745927766409"
definition refund_ticket_hash :: hash_t where "refund_ticket_hash = 14136625827132030759"
definition clean_hash :: hash_t where "clean_hash = 13563833734274431010"
definition exit_hash :: hash_t where "exit_hash = 5825494509148032335"

section \<open>They are the hashes of the names\<close>

text \<open>The steps of the hash on numerals, one multiplication at a time.\<close>

definition hash_stage :: "nat \<Rightarrow> hash_t \<Rightarrow> hash_t \<Rightarrow> hash_t" where
  "hash_stage k c x = (x XOR drop_bit k x) * c"

lemma hash_mix_stages:
  "hash_mix r = hash_stage 31 1 (hash_stage 27 0x94d049bb133111eb
     (hash_stage 30 0xbf58476d1ce4e5b9 (r + 0x9e3779b97f4a7c15)))"
  by (simp add: hash_mix_def hash_stage_def Let_def)

lemma hash_stage_numeral:
  "hash_stage k c (numeral n) = (numeral n XOR drop_bit k (numeral n)) * c"
  by (simp add: hash_stage_def)

lemmas hash_eval = split_mix64_hash_def hash_blocks.simps hash_mix_stages hash_stage_numeral char_u64_def
  inner_salt_def

lemma add_user_hash_eq:
  "split_mix64_hash ''add_user'' = add_user_hash"
  "split_mix64_hash ''login'' = login_hash"
  by (simp_all add: hash_eval add_user_hash_def login_hash_def)

lemma logout_hash_eq:
  "split_mix64_hash ''logout'' = logout_hash"
  "split_mix64_hash ''add_train'' = add_train_hash"
  by (simp_all add: hash_eval logout_hash_def add_train_hash_def)

lemma query_profile_hash_eq:
  "split_mix64_hash ''query_profile'' = query_profile_hash"
  by (simp add: hash_eval query_profile_hash_def)

lemma modify_profile_hash_eq:
  "split_mix64_hash ''modify_profile'' = modify_profile_hash"
  by (simp add: hash_eval modify_profile_hash_def)

lemma delete_train_hash_eq:
  "split_mix64_hash ''delete_train'' = delete_train_hash"
  by (simp add: hash_eval delete_train_hash_def)

lemma release_train_hash_eq:
  "split_mix64_hash ''release_train'' = release_train_hash"
  by (simp add: hash_eval release_train_hash_def)

lemma query_train_hash_eq:
  "split_mix64_hash ''query_train'' = query_train_hash"
  by (simp add: hash_eval query_train_hash_def)

lemma query_ticket_hash_eq:
  "split_mix64_hash ''query_ticket'' = query_ticket_hash"
  by (simp add: hash_eval query_ticket_hash_def)

lemma query_transfer_hash_eq:
  "split_mix64_hash ''query_transfer'' = query_transfer_hash"
  by (simp add: hash_eval query_transfer_hash_def)

lemma buy_ticket_hash_eq:
  "split_mix64_hash ''buy_ticket'' = buy_ticket_hash"
  "split_mix64_hash ''clean'' = clean_hash"
  by (simp_all add: hash_eval buy_ticket_hash_def clean_hash_def)

lemma query_order_hash_eq:
  "split_mix64_hash ''query_order'' = query_order_hash"
  "split_mix64_hash ''exit'' = exit_hash"
  by (simp_all add: hash_eval query_order_hash_def exit_hash_def)

lemma refund_ticket_hash_eq:
  "split_mix64_hash ''refund_ticket'' = refund_ticket_hash"
  by (simp add: hash_eval refund_ticket_hash_def)

lemmas command_hashes = add_user_hash_eq logout_hash_eq query_profile_hash_eq modify_profile_hash_eq
  delete_train_hash_eq release_train_hash_eq query_train_hash_eq query_ticket_hash_eq
  query_transfer_hash_eq buy_ticket_hash_eq query_order_hash_eq refund_ticket_hash_eq

lemmas hash_constants = add_user_hash_def login_hash_def logout_hash_def query_profile_hash_def
  modify_profile_hash_def add_train_hash_def delete_train_hash_def release_train_hash_def query_train_hash_def
  query_ticket_hash_def query_transfer_hash_def buy_ticket_hash_def query_order_hash_def refund_ticket_hash_def
  clean_hash_def exit_hash_def

end
