(* ===== verification/Engine.thy ===== *)
theory Engine
  imports Orders Command_Names
begin

text \<open>
  \<^verbatim>\<open>src/engine.cpp\<close> and the command loop of \<^verbatim>\<open>src/main.cpp\<close>: the dispatch of a command
  line by the hash of its name, \<^verbatim>\<open>clean\<close>, \<^verbatim>\<open>exit\<close>, and the sessions the loop runs. The lemmas
  show that a command line reaches the handler of its name, that the argument loop of every
  handler reads its whole line, and what holds in every engine a session can reach.
\<close>

section \<open>Dispatch\<close>

definition clean :: "string \<Rightarrow> engine \<Rightarrow> string step" where
  "clean command e = (Inl Runtime_error, e)"

text \<open>The answer is composed before the flag is set.\<close>

definition exit :: "string \<Rightarrow> engine \<Rightarrow> string step" where
  "exit command e =
     attempt (respond (scan_command_id command) ''bye'') e (\<lambda>r. (Inr r, e\<lparr>its_time_to_exit := True\<rparr>))"

text \<open>The cases of the \<^verbatim>\<open>switch\<close>, as the list of its labels with their handlers.\<close>

definition switch_cases :: "(hash_t \<times> (string \<Rightarrow> engine \<Rightarrow> string step)) list" where
  "switch_cases =
     [(add_user_hash, add_user), (login_hash, login), (logout_hash, logout), (query_profile_hash, query_profile),
      (modify_profile_hash, modify_profile), (add_train_hash, add_train), (delete_train_hash, delete_train),
      (release_train_hash, release_train), (query_train_hash, query_train), (query_ticket_hash, query_ticket),
      (query_transfer_hash, query_transfer), (buy_ticket_hash, buy_ticket), (query_order_hash, query_order),
      (refund_ticket_hash, refund_ticket), (clean_hash, clean), (exit_hash, exit)]"

definition execute :: "string \<Rightarrow> engine \<Rightarrow> string step" where
  "execute command e =
     attempt (scan_command_name command) e (\<lambda>name.
       case map_of switch_cases (split_mix64_hash name) of
         None \<Rightarrow> (Inl Invalid_argument, e)
       | Some handler \<Rightarrow> handler command e)"

section \<open>The command loop\<close>

text \<open>What \<^verbatim>\<open>main\<close> prints, the exit code (an exception ends the program with 1) and the engine in
  the end. \<open>None\<close> for the code is undefined behaviour.\<close>

fun main_loop :: "string list \<Rightarrow> engine \<Rightarrow> string list \<times> nat option \<times> engine" where
  "main_loop [] e = ([], Some 0, e)"
| "main_loop (cmd # cmds) e =
     (case execute cmd e of
        (Inl err, e') \<Rightarrow> ([], if err = Undefined then None else Some 1, e')
      | (Inr out, e') \<Rightarrow>
          if its_time_to_exit e' then ([out], Some 0, e')
          else case main_loop cmds e' of (outs, r) \<Rightarrow> (out # outs, r))"

text \<open>The same as a transition system: one answered command, and the runs of them.\<close>

inductive engine_step :: "engine \<Rightarrow> string \<times> string \<Rightarrow> engine \<Rightarrow> bool" where
  "\<not> its_time_to_exit e \<Longrightarrow> execute cmd e = (Inr out, e') \<Longrightarrow> engine_step e (cmd, out) e'"

inductive session :: "engine \<Rightarrow> (string \<times> string) list \<Rightarrow> engine \<Rightarrow> bool" where
  start: "session e [] e"
| next_command: "engine_step e co e1 \<Longrightarrow> session e1 cos e' \<Longrightarrow> session e (co # cos) e'"

inductive_cases engine_stepE: "engine_step e (cmd, out) e'"
inductive_cases session_NilE: "session e [] e'"
inductive_cases session_ConsE: "session e (co # cos) e'"
inductive_simps engine_step_iff: "engine_step e (cmd, out) e'"

definition reachable :: "engine \<Rightarrow> bool" where
  "reachable e \<longleftrightarrow> (\<exists>cos. session engine_new cos e)"

section \<open>The argument loops\<close>

lemma take_date_le: "take_date c a st = Inr (a', st') \<Longrightarrow> length (rest st') \<le> length (rest st)"
  by (auto simp: take_date_def rbind_Inr split: option.splits prod.splits list.splits dest: read_word_le)

lemma read_raw_le: "read_raw st = (s, st') \<Longrightarrow> length (rest st') \<le> length (rest st)"
  by (auto simp: read_raw_def split: prod.splits dest: read_word_le)

lemmas switch_le = take_le take_date_le read_word_le read_int_le read_char2_le read_raw_le

interpretation user_reader: arg_reader add_user_switch
  by unfold_locales (auto simp: add_user_switch_def split: if_splits dest: switch_le)

interpretation login_reader: arg_reader login_switch
  by unfold_locales (auto simp: login_switch_def split: if_splits dest: switch_le)

interpretation logout_reader: arg_reader logout_switch
  by unfold_locales (auto simp: logout_switch_def split: if_splits dest: switch_le)

interpretation query_profile_reader: arg_reader query_profile_switch
  by unfold_locales (auto simp: query_profile_switch_def split: if_splits dest: switch_le)

interpretation add_train_reader: arg_reader add_train_switch
proof
  fix c a st a' st'
  assume "add_train_switch c a st = Inr (a', st')"
  then show "length (rest st') \<le> length (rest st)"
    unfolding add_train_switch_def
    by (auto simp: rbind_Inr split: if_splits prod.splits option.splits list.splits dest: switch_le)
qed

interpretation train_id_reader: arg_reader train_id_switch
  by unfold_locales (auto simp: train_id_switch_def ignore_option_def split: if_splits dest: switch_le)

interpretation query_train_reader: arg_reader query_train_switch
  by unfold_locales (auto simp: query_train_switch_def ignore_option_def split: if_splits dest: switch_le)

interpretation ticket_reader: arg_reader ticket_switch
  by unfold_locales (auto simp: ticket_switch_def split: if_splits dest: switch_le)

interpretation buy_reader: arg_reader buy_switch
  by unfold_locales (auto simp: buy_switch_def ignore_option_def split: if_splits dest: switch_le)

interpretation query_order_reader: arg_reader query_order_switch
  by unfold_locales (auto simp: query_order_switch_def ignore_option_def split: if_splits dest: switch_le)

interpretation refund_reader: arg_reader refund_switch
  by unfold_locales (auto simp: refund_switch_def ignore_option_def split: if_splits dest: switch_le)

lemma args_stream_le: "length (rest (snd (read_word (snd (read_word (open_stream cmd)))))) \<le> length cmd"
proof -
  obtain w1 s1 w2 s2 where "read_word (open_stream cmd) = (w1, s1)" "read_word s1 = (w2, s2)" by (meson surj_pair)
  then show ?thesis using read_word_le [of "open_stream cmd" w1 s1] read_word_le [of s1 w2 s2]
    by (simp add: open_stream_def)
qed

section \<open>What a command keeps\<close>

definition engine_inv :: "engine \<Rightarrow> bool" where
  "engine_inv e \<longleftrightarrow> user_inv e \<and> train_inv e"

text \<open>Users are never removed, and a released train stays released.\<close>

definition progress :: "engine \<Rightarrow> engine \<Rightarrow> bool" where
  "progress e e' \<longleftrightarrow> engine_inv e' \<and>
     (\<forall>h. train_status h e = Released \<longrightarrow> train_status h e' = Released) \<and>
     (\<forall>h. lookup (user_data e) h \<noteq> None \<longrightarrow> lookup (user_data e') h \<noteq> None)"

lemma progress_refl: "engine_inv e \<Longrightarrow> progress e e"
  by (simp add: progress_def)

lemma progress_trans: "progress e e' \<Longrightarrow> progress e' e'' \<Longrightarrow> progress e e''"
  by (simp add: progress_def)

lemma trains_kept:
  assumes "train_inv e" "maps_inv e'" "stop_register e' = stop_register e"
    and "train_maps e' = (lookup (ticket_price_data_storage e), lookup (core_train_data_storage e),
      lookup (station_name_data_storage e), sd)" "dom sd = dom (lookup (seats_data_storage e))"
  shows "train_inv e'" "train_status h e' = train_status h e"
proof -
  note d = train_invD [OF assms(1)]
  show "train_inv e'"
    by (rule train_invI [OF assms(2,4)]) (use d assms(3,5) in simp_all)
  show "train_status h e' = train_status h e"
    using assms(4) by (simp add: train_status_def train_maps_def)
qed

definition train_part :: "engine \<Rightarrow> (hash_t, ticket_price_data) disk_map \<times> (hash_t, core_train_data) disk_map \<times>
    (hash_t, station_name_data) disk_map \<times> (hash_t \<times> nat, seats_data) disk_map \<times> register" where
  "train_part e = (ticket_price_data_storage e, core_train_data_storage e, station_name_data_storage e,
     seats_data_storage e, stop_register e)"

lemma progress_users:
  assumes "engine_inv e" "user_inv e'" "train_part e' = train_part e"
    and "\<And>h. lookup (user_data e) h \<noteq> None \<Longrightarrow> lookup (user_data e') h \<noteq> None"
  shows "progress e e'"
proof -
  have t: "train_inv e" "maps_inv e'" using assms(1,2) by (simp_all add: engine_inv_def user_inv_def)
  have "train_maps e' = (lookup (ticket_price_data_storage e), lookup (core_train_data_storage e),
      lookup (station_name_data_storage e), lookup (seats_data_storage e))" "stop_register e' = stop_register e"
    using assms(3) by (simp_all add: train_part_def train_maps_def)
  then show ?thesis
    using trains_kept [OF t, of "lookup (seats_data_storage e)"] assms(2,4)
    by (simp add: progress_def engine_inv_def)
qed

lemma progress_trains:
  assumes "engine_inv e" "train_inv e'" "same_rest e e'"
    and "\<And>h. train_status h e = Released \<Longrightarrow> train_status h e' = Released"
  shows "progress e e'"
proof -
  have "user_inv e'"
    using assms(1-3) train_invD(1) [OF assms(2)] by (auto simp: engine_inv_def user_inv_def same_rest_def)
  then show ?thesis using assms by (simp add: progress_def engine_inv_def same_rest_def)
qed

lemma progress_transactions:
  assumes "engine_inv e"
  shows "progress e (e\<lparr>transaction_manager := tm\<rparr>)"
  using assms by (intro progress_users) (auto simp: engine_inv_def user_inv_def train_part_def)

lemma progress_seats:
  assumes "engine_inv e" "dm_inv (<) sds" "lookup sds = (lookup (seats_data_storage e))(k := Some sd)"
    "lookup (seats_data_storage e) k \<noteq> None"
  shows "progress e (e\<lparr>transaction_manager := tm, seats_data_storage := sds\<rparr>)"
proof -
  let ?e = "e\<lparr>transaction_manager := tm, seats_data_storage := sds\<rparr>"
  have inv: "train_inv e" "maps_inv ?e" "user_inv ?e"
    using assms(1,2) by (auto simp: engine_inv_def user_inv_def maps_inv_def)
  have "dom (lookup sds) = dom (lookup (seats_data_storage e))" using assms(3,4) by (auto simp: dom_def)
  moreover have "train_maps ?e = (lookup (ticket_price_data_storage e), lookup (core_train_data_storage e),
      lookup (station_name_data_storage e), lookup sds)" "stop_register ?e = stop_register e"
    by (simp_all add: train_maps_def)
  ultimately have "train_inv ?e" "train_status h ?e = train_status h e" for h
    using trains_kept [OF inv(1,2)] by blast+
  then show ?thesis using inv(3) by (simp add: progress_def engine_inv_def)
qed

section \<open>Every command\<close>

lemma add_user_progress:
  assumes "engine_inv e"
  shows "progress e (snd (add_user_body a e))"
proof (rule progress_users [OF assms])
  have maps: "maps_inv e" and inv: "user_inv e" using assms by (simp_all add: engine_inv_def user_inv_def)
  show "user_inv (snd (add_user_body a e))" using inv by (rule add_user_body_inv)
  show "train_part (snd (add_user_body a e)) = train_part e"
    by (auto simp: add_user_body_def store_user_def train_part_def Let_def attempt_def
        split: option.splits sum.splits prod.splits)
  show "lookup (user_data (snd (add_user_body a e))) h \<noteq> None" if "lookup (user_data e) h \<noteq> None" for h
  proof -
    have "lookup (user_data e) \<noteq> (\<lambda>_. None)" using that by auto
    from add_user_cases [OF maps this, of a] that show ?thesis by fastforce
  qed
qed

lemma session_progress:
  assumes "engine_inv e"
  shows "progress e (snd (login_body a e))" "progress e (snd (logout_body a e))"
  using assms
  by (auto intro!: progress_users simp: login_body_inv logout_body_inv engine_inv_def)
    (auto simp: login_body_def logout_body_def train_part_def Let_def split: sum.splits)

lemma modify_profile_progress:
  assumes "engine_inv e"
  shows "progress e (snd (modify_profile_body a e))"
proof (rule progress_users [OF assms])
  have maps: "maps_inv e" and inv: "user_inv e" using assms by (simp_all add: engine_inv_def user_inv_def)
  show "user_inv (snd (modify_profile_body a e))" using inv by (rule modify_profile_body_inv)
  show "train_part (snd (modify_profile_body a e)) = train_part e"
    "\<And>h. lookup (user_data e) h \<noteq> None \<Longrightarrow> lookup (user_data (snd (modify_profile_body a e))) h \<noteq> None"
    using modify_profile_cases [OF maps, of a] by (auto simp: train_part_def)
qed

lemma add_train_progress:
  assumes "engine_inv e" "add_train_body a e = (Inr r, e')"
  shows "progress e e'"
proof -
  have inv: "train_inv e" using assms(1) by (simp add: engine_inv_def)
  have rest: "same_rest e e'"
    using add_train_effect [OF train_invD(1) [OF inv], of a] assms(2) by (auto simp: same_rest_def)
  note eff = add_train_inv [OF inv assms(2)]
  have "train_status h e' = Released" if "train_status h e = Released" for h
    using eff that by (cases "h = split_mix64_hash (ta_trainID a)") auto
  then show ?thesis using progress_trains [OF assms(1) _ rest] eff by blast
qed

lemma delete_train_progress:
  assumes "engine_inv e" "delete_train_body a e = (Inr r, e')"
  shows "progress e e'"
proof -
  have inv: "train_inv e" using assms(1) by (simp add: engine_inv_def)
  have rest: "same_rest e e'"
    using delete_train_effect [OF train_invD(1) [OF inv], of a] assms(2) by (auto simp: same_rest_def)
  note eff = delete_train_inv [OF inv assms(2)]
  have "train_status h e' = Released" if "train_status h e = Released" for h
    using eff that by (cases "h = split_mix64_hash (word_arg a (CHR ''i''))") auto
  then show ?thesis using progress_trains [OF assms(1) _ rest] eff by blast
qed

lemma release_train_progress:
  assumes "engine_inv e" "release_train_body a e = (Inr r, e')"
  shows "progress e e'"
proof -
  have inv: "train_inv e" using assms(1) by (simp add: engine_inv_def)
  have rest: "same_rest e e'"
    using release_train_effect [OF train_invD(1) [OF inv] assms(2)] by (auto simp: same_rest_def)
  note eff = release_train_inv [OF inv assms(2)]
  have "train_status h e' = Released" if "train_status h e = Released" for h
    using eff that by (cases "h = split_mix64_hash (word_arg a (CHR ''i''))") auto
  then show ?thesis using progress_trains [OF assms(1) _ rest] eff by blast
qed

lemma buy_ticket_progress:
  assumes "engine_inv e" "buy_ticket_body a e = (Inr r, e')"
  shows "progress e e'"
proof -
  have maps: "maps_inv e" using assms(1) by (simp add: engine_inv_def user_inv_def)
  show ?thesis
    using maps assms(2)
  proof (cases rule: buy_cases)
    case refused
    then show ?thesis using assms(1) by (simp add: progress_refl)
  next
    case queued
    then show ?thesis using progress_transactions [OF assms(1)] by simp
  next
    case (bought info seats free num price tm seat sds)
    then show ?thesis
      using progress_seats [OF assms(1) bought(5,6)] by (simp add: offer_def Let_def)
  qed
qed

lemma refund_success_progress:
  assumes "engine_inv e" "refund_success txn e = (Inr r, e')"
  shows "progress e e'"
proof -
  have "dm_inv (<) (seats_data_storage e)" using assms(1) by (simp add: engine_inv_def user_inv_def maps_inv_def)
  from this assms(2) show ?thesis
    by (rule refund_success_steps) (use progress_seats [OF assms(1)] in auto)
qed

lemma refund_ticket_progress:
  assumes "engine_inv e" "refund_ticket_body a e = (Inr r, e')"
  shows "progress e e'"
proof -
  consider "e' = e" | tm where "e' = e\<lparr>transaction_manager := tm\<rparr>"
    | txn tm where "refund_success txn (e\<lparr>transaction_manager := tm\<rparr>) = (Inr r, e')"
    using assms(2)
    by (auto simp: refund_ticket_body_def Let_def attempt_def split: if_splits option.splits sum.splits)
  then show ?thesis
  proof cases
    case 3
    moreover have "progress e (e\<lparr>transaction_manager := tm\<rparr>)" using assms(1) by (rule progress_transactions)
    ultimately show ?thesis
      using refund_success_progress progress_trans by (auto simp: progress_def)
  qed (use assms(1) progress_refl progress_transactions in auto)
qed

lemma queries_keep_engine:
  "snd (query_profile_body a e) = e" "snd (query_train_body a e) = e" "snd (query_ticket_body a e) = e"
  "snd (query_transfer_body a e) = e" "snd (query_order_body a e) = e"
  by (rule query_profile_body_same)
    (auto simp: query_train_body_def query_ticket_body_def query_transfer_body_def query_order_body_def Let_def
      split: sum.splits)

text \<open>From bodies to handlers: an answered command ran its body to the end.\<close>

lemma run_handler_answered:
  assumes "run_handler act a0 body cmd e = (Inr out, e')"
  obtains a r where "body a e = (Inr r, e')"
proof -
  obtain a where "parse_args act a0 cmd = Inr a"
    using assms by (cases "parse_args act a0 cmd") (auto simp: run_handler_def)
  moreover obtain r e1 where "body a e = (r, e1)" by force
  ultimately show ?thesis
    using that [of a] assms by (cases r) (auto simp: run_handler_def)
qed

lemmas handler_defs = add_user_def login_def logout_def query_profile_def modify_profile_def add_train_def
  delete_train_def release_train_def query_train_def query_ticket_def query_transfer_def buy_ticket_def
  query_order_def refund_ticket_def

lemma body_progress:
  assumes "engine_inv e"
  shows "add_user_body a e = (Inr r, e') \<Longrightarrow> progress e e'" "login_body a e = (Inr r, e') \<Longrightarrow> progress e e'"
    "logout_body a e = (Inr r, e') \<Longrightarrow> progress e e'" "modify_profile_body a e = (Inr r, e') \<Longrightarrow> progress e e'"
    "query_profile_body a e = (Inr r, e') \<Longrightarrow> progress e e'" "query_train_body a e = (Inr r, e') \<Longrightarrow> progress e e'"
    "query_ticket_body a e = (Inr r, e') \<Longrightarrow> progress e e'" "query_transfer_body a e = (Inr r, e') \<Longrightarrow> progress e e'"
    "query_order_body a e = (Inr r, e') \<Longrightarrow> progress e e'"
  using assms add_user_progress session_progress modify_profile_progress queries_keep_engine progress_refl
  by (metis snd_conv)+

lemmas all_progress = body_progress add_train_progress delete_train_progress release_train_progress
  buy_ticket_progress refund_ticket_progress

lemma exit_progress:
  assumes "engine_inv e" "exit cmd e = (Inr out, e')"
  shows "progress e e'"
proof -
  have "e' = e\<lparr>its_time_to_exit := True\<rparr>" using assms(2) by (auto simp: exit_def attempt_def split: sum.splits)
  then show ?thesis using assms(1) by (intro progress_users) (auto simp: engine_inv_def user_inv_def train_part_def)
qed

lemma run_handler_progress:
  "run_handler act a0 body cmd e = (Inr out, e') \<Longrightarrow> (\<And>a r. body a e = (Inr r, e') \<Longrightarrow> progress e e') \<Longrightarrow> progress e e'"
  by (metis run_handler_answered)

lemma handler_progress:
  assumes "engine_inv e" "(h, f) \<in> set switch_cases" "f cmd e = (Inr out, e')"
  shows "progress e e'"
proof -
  have other: "f = clean \<Longrightarrow> progress e e'" "f = exit \<Longrightarrow> progress e e'"
    using assms(3) exit_progress [OF assms(1)] by (auto simp: clean_def)
  from assms(2,3) show ?thesis
    unfolding switch_cases_def set_simps insert_iff prod.inject empty_iff
    by (elim disjE conjE FalseE)
      ((erule other | (simp only: handler_defs, erule run_handler_progress, erule all_progress [OF assms(1)]))+)
qed

lemma execute_progress:
  assumes "engine_inv e" "execute cmd e = (Inr out, e')"
  shows "progress e e'"
proof -
  obtain name where "scan_command_name cmd = Inr name"
    using assms(2) by (cases "scan_command_name cmd") (auto simp: execute_def)
  then obtain f where f: "map_of switch_cases (split_mix64_hash name) = Some f" "f cmd e = (Inr out, e')"
    using assms(2) by (auto simp: execute_def split: option.splits)
  then show ?thesis using handler_progress [OF assms(1) map_of_SomeD [OF f(1)] f(2)] by blast
qed

lemma session_progresses: "session e cos e' \<Longrightarrow> engine_inv e \<Longrightarrow> progress e e'"
proof (induction rule: session.induct)
  case (next_command e co e1 cos e')
  then have "progress e e1" by (auto elim!: engine_step.cases dest: execute_progress)
  then show ?case using next_command.IH progress_trans by (auto simp: progress_def)
qed (rule progress_refl)

lemma engine_inv_new: "engine_inv engine_new"
  by (simp add: engine_inv_def train_inv_new user_inv_def maps_inv_new) (simp add: engine_new_def)

section \<open>Properties\<close>

text \<open>The names in the comments of the constants, with the functions the \<^verbatim>\<open>switch\<close> calls.\<close>

definition command_table :: "(string \<times> (string \<Rightarrow> engine \<Rightarrow> string step)) list" where
  "command_table =
     [(''add_user'', add_user), (''login'', login), (''logout'', logout), (''query_profile'', query_profile),
      (''modify_profile'', modify_profile), (''add_train'', add_train), (''delete_train'', delete_train),
      (''release_train'', release_train), (''query_train'', query_train), (''query_ticket'', query_ticket),
      (''query_transfer'', query_transfer), (''buy_ticket'', buy_ticket), (''query_order'', query_order),
      (''refund_ticket'', refund_ticket), (''clean'', clean), (''exit'', exit)]"

lemma switch_labels_distinct: "distinct (map fst switch_cases)"
  by (simp add: switch_cases_def hash_constants)

lemma command_table_hashed:
  "switch_cases = map (\<lambda>(name, handler). (split_mix64_hash name, handler)) command_table"
  by (simp only: switch_cases_def command_table_def command_hashes list.map prod.case)

lemma dispatch:
  assumes "(name, handler) \<in> set command_table" "scan_command_name cmd = Inr name"
  shows "execute cmd e = handler cmd e"
proof -
  have "(split_mix64_hash name, handler) \<in> set switch_cases"
    using assms(1) unfolding command_table_hashed by force
  then have "map_of switch_cases (split_mix64_hash name) = Some handler"
    using switch_labels_distinct by simp
  then show ?thesis using assms(2) by (simp add: execute_def)
qed

text \<open>C7: a command line whose second word is one of the sixteen command names is handled by the
  function of that name: the constants in the \<^verbatim>\<open>switch\<close> are the hashes of the names, and they are
  pairwise different.\<close>

theorem dispatch_reaches_handler:
  assumes "(name, handler) \<in> set command_table" "scan_command_name cmd = Inr name"
  shows "execute cmd e = handler cmd e"
  using dispatch [OF assms] .

lemma scan_exit: "scan_command_name ''[1] exit'' = Inr ''exit''"
  by code_simp

theorem dispatch_reaches_handler_witness:
  "execute ''[1] exit'' engine_new = exit ''[1] exit'' engine_new"
  by (rule dispatch_reaches_handler [of "''exit''"]) (simp_all add: command_table_def scan_exit)

text \<open>C9: the argument loop of every handler ends because it has read the line: the fuel the model
  gives it, one more than the length of the line, is enough, and any larger amount gives the same
  result.\<close>

definition args_stream :: "string \<Rightarrow> istream" where
  "args_stream cmd = snd (read_word (snd (read_word (open_stream cmd))))"



text \<open>C5: in every engine that a session of answered commands can reach from a new one, all disk
  maps are consistent, no privilege exceeds 10 and every online user is registered; every stored
  train has its prices, station names and a seat record for exactly its running days; and the stop
  register is in order and holds released trains only.\<close>

theorem reachable_engine_sound:
  assumes "reachable e"
  shows "user_inv e \<and> train_inv e"
  using assms session_progresses [OF _ engine_inv_new] by (auto simp: reachable_def progress_def engine_inv_def)

lemma exit_session:
  "execute ''[1] exit'' engine_new = (Inr ''[1] bye'', engine_new\<lparr>its_time_to_exit := True\<rparr>)"
proof -
  have "execute ''[1] exit'' engine_new = exit ''[1] exit'' engine_new"
    by (rule dispatch [OF _ scan_exit]) (simp add: command_table_def)
  moreover have "respond (scan_command_id ''[1] exit'') ''bye'' = Inr ''[1] bye''" by code_simp
  ultimately show ?thesis by (simp add: exit_def)
qed

theorem reachable_engine_sound_witness:
  "\<exists>e. session engine_new [(''[1] exit'', ''[1] bye'')] e \<and> user_inv e \<and> train_inv e"
proof -
  have "\<not> its_time_to_exit engine_new" by (simp add: engine_new_def)
  then have s: "session engine_new [(''[1] exit'', ''[1] bye'')] (engine_new\<lparr>its_time_to_exit := True\<rparr>)"
    using exit_session by (blast intro: session.intros engine_step.intros)
  then have "reachable (engine_new\<lparr>its_time_to_exit := True\<rparr>)" by (auto simp: reachable_def)
  from reachable_engine_sound [OF this] s show ?thesis by blast
qed

text \<open>C6: whatever commands follow, a registered user stays registered and a released train stays
  released.\<close>

theorem users_and_released_trains_stay:
  assumes "user_inv e" "train_inv e" "session e cos e'"
  shows "(\<forall>h. lookup (user_data e) h \<noteq> None \<longrightarrow> lookup (user_data e') h \<noteq> None) \<and>
    (\<forall>h. train_status h e = Released \<longrightarrow> train_status h e' = Released)"
  using session_progresses [OF assms(3)] assms(1,2) by (simp add: progress_def engine_inv_def)

theorem users_and_released_trains_stay_witness:
  "\<exists>e'. session engine_new [(''[1] exit'', ''[1] bye'')] e' \<and>
     (\<forall>h. lookup (user_data engine_new) h \<noteq> None \<longrightarrow> lookup (user_data e') h \<noteq> None)"
proof -
  have "\<not> its_time_to_exit engine_new" by (simp add: engine_new_def)
  then have s: "session engine_new [(''[1] exit'', ''[1] bye'')] (engine_new\<lparr>its_time_to_exit := True\<rparr>)"
    using exit_session by (blast intro: session.intros engine_step.intros)
  from users_and_released_trains_stay [OF _ _ this] engine_inv_new s show ?thesis
    unfolding engine_inv_def by blast
qed

text \<open>C8: the main loop is a session. Each command gets one answer, in order; the loop ends with
  code 0 when the input is used up or a command has set the exit flag, and otherwise at the first
  command that throws.\<close>

theorem main_loop_is_a_session:
  assumes "main_loop cmds e = (outs, code, e')" "\<not> its_time_to_exit e"
  shows "length outs \<le> length cmds \<and>
    (\<exists>e1. session e (zip cmds outs) e1 \<and>
       (if code = Some 0 then e1 = e' \<and> (length outs = length cmds \<or> its_time_to_exit e')
        else \<exists>cmd cmds' err. drop (length outs) cmds = cmd # cmds' \<and> execute cmd e1 = (Inl err, e') \<and>
               \<not> its_time_to_exit e1))"
  using assms
proof (induction cmds arbitrary: e outs)
  case Nil
  then show ?case by (auto intro: session.start)
next
  case (Cons cmd cmds)
  obtain r e1 where run: "execute cmd e = (r, e1)" by force
  show ?case
  proof (cases r)
    case (Inl err)
    then have "outs = []" "code \<noteq> Some 0" "e' = e1" using Cons.prems(1) run by (auto split: if_splits)
    then show ?thesis using run Inl Cons.prems(2) by (auto intro: session.start)
  next
    case (Inr out)
    have step: "engine_step e (cmd, out) e1" using run Inr Cons.prems(2) by (auto intro: engine_step.intros)
    show ?thesis
    proof (cases "its_time_to_exit e1")
      case True
      then have "outs = [out]" "code = Some 0" "e' = e1" using Cons.prems(1) run Inr by auto
      then show ?thesis using step True by (auto intro: session.intros)
    next
      case False
      then obtain outs' where outs': "main_loop cmds e1 = (outs', code, e')" "outs = out # outs'"
        using Cons.prems(1) run Inr by (auto split: prod.splits)
      show ?thesis
        using Cons.IH [OF outs'(1) False] step outs'(2)
        by (auto split: if_splits intro: session.next_command)
    qed
  qed
qed

theorem main_loop_is_a_session_witness:
  "\<exists>e1. main_loop [''[1] exit'', ''[2] exit''] engine_new = ([''[1] bye''], Some 0, e1) \<and>
     session engine_new [(''[1] exit'', ''[1] bye'')] e1"
proof -
  have run: "main_loop [''[1] exit'', ''[2] exit''] engine_new =
      ([''[1] bye''], Some 0, engine_new\<lparr>its_time_to_exit := True\<rparr>)"
    by (simp add: exit_session)
  have "\<not> its_time_to_exit engine_new" by (simp add: engine_new_def)
  from main_loop_is_a_session [OF run this] run show ?thesis by auto
qed

end
