(* ===== verification/Replacer.thy ===== *)
theory Replacer
  imports Prelude
begin

text \<open>
  The LRU-K page replacer of \<^verbatim>\<open>storage/src/replacer.cpp\<close>. The two doubly linked chains
  are lists without their guard nodes; a node is named by the clock value at which it was
  created, which is unique in its chain because every access advances the clock and
  creates at most one node of each kind. Pointers to nodes (\<^verbatim>\<open>head_node_in_main_chain\<close>,
  \<^verbatim>\<open>next_self_record\<close>, \<^verbatim>\<open>node_in_LRU_chain\<close>) are such names, \<open>None\<close> is
  the null pointer. The second half of the theory states the LRU-K policy on complete
  access histories and shows that the chains implement it.
\<close>

section \<open>State\<close>

record lru_node =
  ln_addr :: nat
  ln_frame :: nat

record main_node =
  mn_frame :: nat
  mn_time :: nat
  mn_next_self :: "nat option"

record lru_record =
  lr_evitable :: bool
  lr_visits :: nat
  lr_active :: bool
  lr_head :: "nat option"
  lr_tail :: "nat option"
  lr_node :: "nat option"

record replacer =
  rp_lru :: "lru_node list"
  rp_main :: "main_node list"
  rp_clock :: nat
  rp_count :: nat
  rp_k :: nat
  rp_records :: "lru_record list"

text \<open>
  The constructor; \<open>garbage\<close> is the uninitialised content of the new record array, of
  which only the flag \<^verbatim>\<open>active\<close> is set.
\<close>

definition new_replacer :: "lru_record list \<Rightarrow> nat \<Rightarrow> replacer" where
  "new_replacer garbage k = \<lparr>rp_lru = [], rp_main = [], rp_clock = 0, rp_count = 0, rp_k = k,
     rp_records = map (\<lambda>r. r\<lparr>lr_active := False\<rparr>) garbage\<rparr>"

section \<open>Operations\<close>

definition set_record :: "nat \<Rightarrow> lru_record \<Rightarrow> replacer \<Rightarrow> replacer" where
  "set_record f rec r = r\<lparr>rp_records := (rp_records r)[f := rec]\<rparr>"

definition set_evictable :: "nat \<Rightarrow> bool \<Rightarrow> replacer \<Rightarrow> replacer result" where
  "set_evictable f b r = (if length (rp_records r) \<le> f then Inl Undefined else
     let rec = rp_records r ! f in
     if \<not> lr_active rec then Inr r
     else if lr_evitable rec = b then Inr r
     else Inr ((set_record f (rec\<lparr>lr_evitable := b\<rparr>) r)
       \<lparr>rp_count := (if b then rp_count r + 1 else rp_count r - 1)\<rparr>))"

definition lru_unlink :: "nat \<Rightarrow> lru_node list \<Rightarrow> lru_node list" where
  "lru_unlink a xs = filter (\<lambda>x. ln_addr x \<noteq> a) xs"

definition main_unlink :: "nat \<Rightarrow> main_node list \<Rightarrow> main_node list" where
  "main_unlink a xs = filter (\<lambda>x. mn_time x \<noteq> a) xs"

definition main_at :: "nat \<Rightarrow> main_node list \<Rightarrow> main_node option" where
  "main_at a xs = find (\<lambda>x. mn_time x = a) xs"

lemma main_at_Some: "main_at a xs = Some x \<Longrightarrow> x \<in> set xs \<and> mn_time x = a"
  by (auto simp: main_at_def find_Some_iff)

lemma length_main_unlink: "main_at a xs = Some x \<Longrightarrow> length (main_unlink a xs) < length xs"
  unfolding main_unlink_def by (rule length_filter_less [where x = x]) (auto dest: main_at_Some)

text \<open>
  \<^verbatim>\<open>RemoveWholeFrameFromLRUKChain\<close> follows \<^verbatim>\<open>next_self_record\<close> and unlinks every node
  it meets; the dangling pointer has no node in the chain.
\<close>

function remove_whole_frame :: "nat option \<Rightarrow> main_node list \<Rightarrow> main_node list result" where
  "remove_whole_frame p xs = (case p of None \<Rightarrow> Inr xs
     | Some a \<Rightarrow> (case main_at a xs of None \<Rightarrow> Inl Undefined
         | Some x \<Rightarrow> remove_whole_frame (mn_next_self x) (main_unlink a xs)))"
  by pat_completeness auto

termination remove_whole_frame
  by (relation "measure (\<lambda>(p, xs). length xs)") (auto simp: length_main_unlink)

declare remove_whole_frame.simps [simp del]

text \<open>\<^verbatim>\<open>AddRecordToMainChain\<close>: the new node is linked from the frame's last one.\<close>

definition add_main :: "nat \<Rightarrow> nat \<Rightarrow> nat option \<Rightarrow> main_node list \<Rightarrow> main_node list" where
  "add_main f t last_node xs =
     map (\<lambda>x. if Some (mn_time x) = last_node then x\<lparr>mn_next_self := Some t\<rparr> else x) xs
     @ [\<lparr>mn_frame = f, mn_time = t, mn_next_self = None\<rparr>]"

definition try_evict_exact :: "nat \<Rightarrow> replacer \<Rightarrow> (bool \<times> replacer) result" where
  "try_evict_exact f r = (if length (rp_records r) \<le> f then Inl Undefined else
     let rec = rp_records r ! f in
     if \<not> lr_active rec then Inr (False, r)
     else if \<not> lr_evitable rec then Inr (False, r)
     else rbind (remove_whole_frame (lr_head rec) (rp_main r)) (\<lambda>ms.
       Inr (True, (set_record f (rec\<lparr>lr_node := None, lr_active := False\<rparr>) r)
         \<lparr>rp_lru := (case lr_node rec of None \<Rightarrow> rp_lru r | Some a \<Rightarrow> lru_unlink a (rp_lru r)),
          rp_main := ms, rp_count := rp_count r - 1\<rparr>)))"

definition evitable_at :: "replacer \<Rightarrow> nat \<Rightarrow> bool" where
  "evitable_at r f = lr_evitable (rp_records r ! f)"

text \<open>
  \<^verbatim>\<open>TryEvictLeastImportant\<close>: the first evictable frame of the chain of young frames,
  then of the main chain. (The out parameter, which the code also overwrites with the
  last frame it looked at when nothing is found, is the \<open>Some\<close> of the result.)
\<close>

definition try_evict_least :: "replacer \<Rightarrow> (nat option \<times> replacer) result" where
  "try_evict_least r = (if rp_count r = 0 then Inr (None, r) else
     (case find (\<lambda>x. evitable_at r (ln_frame x)) (rp_lru r) of
        Some x \<Rightarrow> rbind (try_evict_exact (ln_frame x) r)
          (\<lambda>(ok, r'). Inr (if ok then Some (ln_frame x) else None, r'))
      | None \<Rightarrow> (case find (\<lambda>x. evitable_at r (mn_frame x)) (rp_main r) of
          Some x \<Rightarrow> rbind (try_evict_exact (mn_frame x) r)
            (\<lambda>(ok, r'). Inr (if ok then Some (mn_frame x) else None, r'))
        | None \<Rightarrow> Inr (None, r))))"

definition first_access :: "nat \<Rightarrow> replacer \<Rightarrow> replacer" where
  "first_access f r = (let t = rp_clock r in
     (set_record f \<lparr>lr_evitable = False, lr_visits = 1, lr_active = True,
        lr_head = Some t, lr_tail = Some t, lr_node = Some t\<rparr> r)
     \<lparr>rp_main := add_main f t None (rp_main r),
      rp_lru := rp_lru r @ [\<lparr>ln_addr = t, ln_frame = f\<rparr>]\<rparr>)"

definition next_access :: "nat \<Rightarrow> replacer \<Rightarrow> replacer result" where
  "next_access f r =
    (let t = rp_clock r; rec = rp_records r ! f; v = lr_visits rec + 1;
         ms = add_main f t (lr_tail rec) (rp_main r);
         young = v < rp_k r;
         ls = (case lr_node rec of None \<Rightarrow> rp_lru r | Some a \<Rightarrow> lru_unlink a (rp_lru r));
         r1 = r\<lparr>rp_lru := (if young then ls @ [\<lparr>ln_addr = t, ln_frame = f\<rparr>] else ls)\<rparr>;
         rec1 = rec\<lparr>lr_visits := v, lr_tail := Some t,
                    lr_node := (if young then Some t else None)\<rparr>
     in if rp_k r < v
        then (case lr_head rec of None \<Rightarrow> Inl Undefined
          | Some a \<Rightarrow> (case main_at a ms of None \<Rightarrow> Inl Undefined
            | Some x \<Rightarrow> Inr ((set_record f (rec1\<lparr>lr_head := mn_next_self x\<rparr>) r1)
                \<lparr>rp_main := main_unlink a ms\<rparr>)))
        else Inr ((set_record f rec1 r1)\<lparr>rp_main := ms\<rparr>))"

definition record_access :: "nat \<Rightarrow> replacer \<Rightarrow> replacer result" where
  "record_access f r = (if length (rp_records r) \<le> f then Inl Undefined else
     let r1 = r\<lparr>rp_clock := rp_clock r + 1\<rparr> in
     if \<not> lr_active (rp_records r ! f) then Inr (first_access f r1) else next_access f r1)"

definition current_evitable_count :: "replacer \<Rightarrow> nat" where
  "current_evitable_count r = rp_count r"

section \<open>The policy\<close>

text \<open>
  A frame's complete history since it became tracked, oldest access first, and whether it
  may be evicted. The victim is, among the evictable frames with fewer than \<open>k\<close> accesses,
  the one whose last access is oldest; if there is none, the evictable frame whose
  \<open>k\<close>-th most recent access is oldest.
\<close>

type_synonym histories = "nat \<Rightarrow> (nat list \<times> bool) option"

definition may_go :: "histories \<Rightarrow> nat \<Rightarrow> bool" where
  "may_go m f = (case m f of None \<Rightarrow> False | Some (ts, e) \<Rightarrow> e)"

definition accesses :: "histories \<Rightarrow> nat \<Rightarrow> nat list" where
  "accesses m f = (case m f of None \<Rightarrow> [] | Some (ts, e) \<Rightarrow> ts)"

definition kth_last :: "nat \<Rightarrow> nat list \<Rightarrow> nat" where
  "kth_last k ts = ts ! (length ts - k)"

definition spec_victim :: "nat \<Rightarrow> nat \<Rightarrow> histories \<Rightarrow> nat option" where
  "spec_victim n k m =
    (let cands = filter (may_go m) [0..<n];
         young = filter (\<lambda>f. length (accesses m f) < k) cands
     in if cands = [] then None
        else if young \<noteq> [] then Some (arg_min_list (\<lambda>f. last (accesses m f)) young)
        else Some (arg_min_list (\<lambda>f. kth_last k (accesses m f)) cands))"

datatype lru_op = Access nat | Allow nat bool | Evict_frame nat | Evict

text \<open>Operations report the evicted frame, if any.\<close>

fun spec_op :: "nat \<Rightarrow> nat \<Rightarrow> lru_op \<Rightarrow> nat \<times> histories \<Rightarrow> nat option \<times> nat \<times> histories" where
  "spec_op n k (Access f) (t, m) =
     (None, t + 1, m(f \<mapsto> (accesses m f @ [t + 1], may_go m f)))"
| "spec_op n k (Allow f b) (t, m) =
     (None, t, case m f of None \<Rightarrow> m | Some (ts, e) \<Rightarrow> m(f \<mapsto> (ts, b)))"
| "spec_op n k (Evict_frame f) (t, m) =
     (if may_go m f then (Some f, t, m(f := None)) else (None, t, m))"
| "spec_op n k Evict (t, m) =
     (case spec_victim n k m of None \<Rightarrow> (None, t, m) | Some f \<Rightarrow> (Some f, t, m(f := None)))"

fun lru_apply :: "lru_op \<Rightarrow> replacer \<Rightarrow> (nat option \<times> replacer) result" where
  "lru_apply (Access f) r = rbind (record_access f r) (\<lambda>r'. Inr (None, r'))"
| "lru_apply (Allow f b) r = rbind (set_evictable f b r) (\<lambda>r'. Inr (None, r'))"
| "lru_apply (Evict_frame f) r = rbind (try_evict_exact f r)
     (\<lambda>(ok, r'). Inr (if ok then Some f else None, r'))"
| "lru_apply Evict r = try_evict_least r"

fun spec_run :: "nat \<Rightarrow> nat \<Rightarrow> lru_op list \<Rightarrow> nat \<times> histories \<Rightarrow> nat option list" where
  "spec_run n k [] s = []"
| "spec_run n k (c # cs) s = (case spec_op n k c s of (v, s') \<Rightarrow> v # spec_run n k cs s')"

fun lru_run :: "lru_op list \<Rightarrow> replacer \<Rightarrow> nat option list result" where
  "lru_run [] r = Inr []"
| "lru_run (c # cs) r = rbind (lru_apply c r)
     (\<lambda>(v, r'). rbind (lru_run cs r') (\<lambda>vs. Inr (v # vs)))"

fun op_frame :: "lru_op \<Rightarrow> nat" where
  "op_frame (Access f) = f"
| "op_frame (Allow f b) = f"
| "op_frame (Evict_frame f) = f"
| "op_frame Evict = 0"

section \<open>The chains as sets of nodes\<close>

lemma main_at_unique:
  "distinct (map mn_time xs) \<Longrightarrow> x \<in> set xs \<Longrightarrow> main_at (mn_time x) xs = Some x"
  by (induction xs) (auto simp: main_at_def)

definition node_of :: "nat \<Rightarrow> nat list \<Rightarrow> nat \<Rightarrow> main_node" where
  "node_of f ts i = \<lparr>mn_frame = f, mn_time = ts ! i,
     mn_next_self = (if Suc i < length ts then Some (ts ! Suc i) else None)\<rparr>"

definition frame_nodes :: "nat \<Rightarrow> nat list \<Rightarrow> nat \<Rightarrow> main_node set" where
  "frame_nodes f ts j = node_of f ts ` {j..<length ts}"

definition chain_nodes :: "nat \<Rightarrow> histories \<Rightarrow> main_node set" where
  "chain_nodes k m =
     (\<Union>f\<in>dom m. frame_nodes f (accesses m f) (length (accesses m f) - k))"

definition young_nodes :: "nat \<Rightarrow> histories \<Rightarrow> lru_node set" where
  "young_nodes k m = (\<lambda>f. \<lparr>ln_addr = last (accesses m f), ln_frame = f\<rparr>) `
     {f \<in> dom m. length (accesses m f) < k}"

lemma accesses_upd [simp]:
  "accesses (m(f \<mapsto> (ts, e))) g = (if g = f then ts else accesses m g)"
  "accesses (m(f := None)) g = (if g = f then [] else accesses m g)"
  by (simp_all add: accesses_def)

lemma may_go_upd [simp]:
  "may_go (m(f \<mapsto> (ts, e))) g = (if g = f then e else may_go m g)"
  "may_go (m(f := None)) g = (g \<noteq> f \<and> may_go m g)"
  by (simp_all add: may_go_def)

lemma accesses_out: "g \<notin> dom m \<Longrightarrow> accesses m g = []"
  by (auto simp: accesses_def split: option.splits)

lemma history_simps: "m f = Some (ts, e) \<Longrightarrow> accesses m f = ts \<and> may_go m f = e"
  by (simp add: accesses_def may_go_def)

lemma chain_nodes_upd [simp]:
  "chain_nodes k (m(f \<mapsto> (ts, e))) =
     frame_nodes f ts (length ts - k) \<union> chain_nodes k (m(f := None))"
  by (auto simp: chain_nodes_def split: if_splits)

lemma chain_nodes_split:
  "m f = Some (ts, e) \<Longrightarrow>
   chain_nodes k m = frame_nodes f ts (length ts - k) \<union> chain_nodes k (m(f := None))"
  using chain_nodes_upd [of k m f ts e] by (simp add: fun_upd_idem)

lemma chain_nodes_none: "m f = None \<Longrightarrow> chain_nodes k (m(f := None)) = chain_nodes k m"
  by (simp add: fun_upd_idem)

lemma young_nodes_iff:
  "x \<in> young_nodes k m \<longleftrightarrow> ln_frame x \<in> dom m
     \<and> ln_addr x = last (accesses m (ln_frame x)) \<and> length (accesses m (ln_frame x)) < k"
proof (cases x)
  case (fields a f)
  then show ?thesis by (auto simp: young_nodes_def simp del: domIff)
qed

lemma young_nodes_upd [simp]:
  "young_nodes k (m(f \<mapsto> (ts, e))) =
     (if length ts < k then {\<lparr>ln_addr = last ts, ln_frame = f\<rparr>} else {})
     \<union> young_nodes k (m(f := None))"
proof (rule set_eqI)
  fix x :: lru_node
  show "x \<in> young_nodes k (m(f \<mapsto> (ts, e))) \<longleftrightarrow>
    x \<in> (if length ts < k then {\<lparr>ln_addr = last ts, ln_frame = f\<rparr>} else {})
      \<union> young_nodes k (m(f := None))"
    by (cases x) (auto simp: young_nodes_iff)
qed

lemma young_nodes_split:
  "m f = Some (ts, e) \<Longrightarrow> young_nodes k m =
     (if length ts < k then {\<lparr>ln_addr = last ts, ln_frame = f\<rparr>} else {})
     \<union> young_nodes k (m(f := None))"
  using young_nodes_upd [of k m f ts e] by (simp add: fun_upd_idem)

lemma young_nodes_none: "m f = None \<Longrightarrow> young_nodes k (m(f := None)) = young_nodes k m"
  by (simp add: fun_upd_idem)

lemma frame_nodes_time: "x \<in> frame_nodes f ts j \<Longrightarrow> mn_time x \<in> set ts \<and> mn_frame x = f"
  by (auto simp: frame_nodes_def node_of_def)

lemma frame_nodes_index:
  "x \<in> frame_nodes f ts j \<Longrightarrow> \<exists>i. j \<le> i \<and> i < length ts \<and> mn_time x = ts ! i"
  by (auto simp: frame_nodes_def node_of_def)

lemma chain_nodes_time:
  "x \<in> chain_nodes k m \<Longrightarrow>
   mn_frame x \<in> dom m \<and> mn_time x \<in> set (accesses m (mn_frame x))"
  by (auto simp: chain_nodes_def dest: frame_nodes_time)

lemma young_nodes_addr:
  "x \<in> young_nodes k m \<Longrightarrow>
   ln_frame x \<in> dom m \<and> ln_addr x = last (accesses m (ln_frame x))
   \<and> length (accesses m (ln_frame x)) < k"
  by (simp add: young_nodes_iff)

section \<open>The simulation\<close>

definition histories_ok :: "nat \<Rightarrow> nat \<Rightarrow> histories \<Rightarrow> bool" where
  "histories_ok n t m \<longleftrightarrow> dom m \<subseteq> {..<n}
     \<and> (\<forall>f\<in>dom m. accesses m f \<noteq> [] \<and> sorted_wrt (<) (accesses m f)
          \<and> (\<forall>x\<in>set (accesses m f). x \<le> t))
     \<and> (\<forall>f\<in>dom m. \<forall>g\<in>dom m. f \<noteq> g \<longrightarrow>
          set (accesses m f) \<inter> set (accesses m g) = {})"

definition record_ok :: "nat \<Rightarrow> (nat list \<times> bool) option \<Rightarrow> lru_record \<Rightarrow> bool" where
  "record_ok k h rec = (case h of None \<Rightarrow> \<not> lr_active rec
     | Some (ts, e) \<Rightarrow> lr_active rec \<and> lr_evitable rec = e \<and> lr_visits rec = length ts
         \<and> lr_head rec = Some (kth_last k ts) \<and> lr_tail rec = Some (last ts)
         \<and> lr_node rec = (if length ts < k then Some (last ts) else None))"

definition simulates :: "nat \<Rightarrow> nat \<Rightarrow> nat \<times> histories \<Rightarrow> replacer \<Rightarrow> bool" where
  "simulates n k s r = (case s of (t, m) \<Rightarrow> histories_ok n t m
     \<and> rp_clock r = t \<and> rp_k r = k \<and> length (rp_records r) = n
     \<and> (\<forall>f<n. record_ok k (m f) (rp_records r ! f))
     \<and> rp_count r = card (Collect (may_go m))
     \<and> sorted_wrt (<) (map ln_addr (rp_lru r)) \<and> set (rp_lru r) = young_nodes k m
     \<and> sorted_wrt (<) (map mn_time (rp_main r)) \<and> set (rp_main r) = chain_nodes k m)"

lemma new_replacer_simulates:
  "simulates (length garbage) k (0, Map.empty) (new_replacer garbage k)"
proof -
  have "may_go Map.empty = (\<lambda>f. False)" by (simp add: may_go_def fun_eq_iff)
  then show ?thesis
    by (simp add: simulates_def new_replacer_def histories_ok_def record_ok_def
        young_nodes_def chain_nodes_def)
qed

lemma histories_okD:
  assumes "histories_ok n t m" "m f = Some (ts, e)"
  shows "f < n" "ts \<noteq> []" "sorted_wrt (<) ts" "\<And>x. x \<in> set ts \<Longrightarrow> x \<le> t"
    "\<And>g x. g \<noteq> f \<Longrightarrow> g \<in> dom m \<Longrightarrow> x \<in> set (accesses m g) \<Longrightarrow> x \<notin> set ts"
proof -
  have f: "f \<in> dom m" "accesses m f = ts"
    using assms(2) by (auto simp: history_simps)
  show "f < n" "ts \<noteq> []" "sorted_wrt (<) ts" "\<And>x. x \<in> set ts \<Longrightarrow> x \<le> t"
    using assms(1) f unfolding histories_ok_def by blast+
  show "x \<notin> set ts" if "g \<noteq> f" "g \<in> dom m" "x \<in> set (accesses m g)" for g x
    using assms(1) f that unfolding histories_ok_def by blast
qed

lemma may_go_dom: "may_go m f \<Longrightarrow> f \<in> dom m"
  by (auto simp: may_go_def split: option.splits)

lemma finite_may_go: "histories_ok n t m \<Longrightarrow> finite (Collect (may_go m))"
  by (rule finite_subset [of _ "{..<n}"]) (auto simp: histories_ok_def dest: may_go_dom)

lemma other_node_time:
  assumes "histories_ok n t m" "m f = Some (ts, e)"
    and "x \<in> chain_nodes k (m(f := None))"
  shows "mn_time x \<notin> set ts"
proof -
  have x: "mn_frame x \<in> dom (m(f := None))" "mn_time x \<in> set (accesses (m(f := None)) (mn_frame x))"
    using chain_nodes_time [OF assms(3)] by auto
  then have "mn_frame x \<noteq> f" "mn_frame x \<in> dom m" by (auto split: if_splits)
  then show ?thesis using histories_okD(5) [OF assms(1,2)] x(2) by auto
qed

lemma other_node_addr:
  assumes "histories_ok n t m" "m f = Some (ts, e)"
    and "x \<in> young_nodes k (m(f := None))"
  shows "ln_addr x \<notin> set ts"
proof -
  have x: "ln_frame x \<in> dom m" "ln_frame x \<noteq> f" "ln_addr x = last (accesses m (ln_frame x))"
    using young_nodes_addr [OF assms(3)] by (auto split: if_splits)
  then have "accesses m (ln_frame x) \<noteq> []"
    using assms(1) unfolding histories_ok_def by blast
  then show ?thesis using histories_okD(5) [OF assms(1,2) x(2,1)] x(3) by auto
qed

lemma histories_ok_remove: "histories_ok n t m \<Longrightarrow> histories_ok n t (m(f := None))"
  unfolding histories_ok_def by (auto split: if_splits)

lemma histories_ok_flag:
  "histories_ok n t m \<Longrightarrow> m f = Some (ts, e) \<Longrightarrow> histories_ok n t (m(f \<mapsto> (ts, b)))"
proof -
  assume h: "histories_ok n t m" "m f = Some (ts, e)"
  then have "dom (m(f \<mapsto> (ts, b))) = dom m" "accesses (m(f \<mapsto> (ts, b))) = accesses m"
    by (auto simp: history_simps)
  then show ?thesis using h(1) unfolding histories_ok_def by (simp only:) blast
qed

lemma histories_ok_access:
  assumes h: "histories_ok n t m" and f: "f < n"
  shows "histories_ok n (Suc t) (m(f \<mapsto> (accesses m f @ [Suc t], e)))"
proof -
  have le: "x \<le> t" if "x \<in> set (accesses m g)" for x g
  proof (cases "g \<in> dom m")
    case True
    then show ?thesis using h that unfolding histories_ok_def by blast
  next
    case False
    then have "accesses m g = []" by (rule accesses_out)
    then show ?thesis using that by simp
  qed
  have srt: "sorted_wrt (<) (accesses m g)" for g
    using h accesses_out [of g m] unfolding histories_ok_def
    by (cases "g \<in> dom m") (blast, simp)
  have dis: "set (accesses m g) \<inter> set (accesses m g') = {}" if "g \<noteq> g'" for g g'
  proof (cases "g \<in> dom m \<and> g' \<in> dom m")
    case True
    then show ?thesis using h that unfolding histories_ok_def by blast
  next
    case False
    then have "accesses m g = [] \<or> accesses m g' = []" using accesses_out by blast
    then show ?thesis by auto
  qed
  have old: "accesses m g \<noteq> []" if "g \<in> dom m" for g
    using h that unfolding histories_ok_def by blast
  have new: "Suc t \<notin> set (accesses m g)" for g using le [of "Suc t" g] by auto
  let ?m = "m(f \<mapsto> (accesses m f @ [Suc t], e))"
  have acc: "accesses ?m g = (if g = f then accesses m f @ [Suc t] else accesses m g)" for g
    by simp
  have 1: "dom ?m \<subseteq> {..<n}" using h f unfolding histories_ok_def by auto
  have own: "sorted_wrt (<) (accesses m f @ [Suc t])"
    using srt [of f] le [of _ f] by (auto simp: sorted_wrt_append less_Suc_eq_le)
  have 2: "accesses ?m g \<noteq> [] \<and> sorted_wrt (<) (accesses ?m g)
      \<and> (\<forall>x\<in>set (accesses ?m g). x \<le> Suc t)" if "g \<in> dom ?m" for g
  proof (cases "g = f")
    case True
    then show ?thesis using own le [of _ f] by (auto simp: le_SucI)
  next
    case False
    then show ?thesis using that old [of g] srt [of g] le [of _ g] by (auto simp: le_SucI)
  qed
  have 3: "set (accesses ?m g) \<inter> set (accesses ?m g') = {}" if "g \<noteq> g'" for g g'
    using that dis [of g g'] new [of g] new [of g'] unfolding acc
    by (cases "g = f"; cases "g' = f") auto
  show ?thesis unfolding histories_ok_def using 1 2 3 by blast
qed

lemma simulatesD:
  assumes "simulates n k (t, m) r"
  shows "histories_ok n t m" "rp_clock r = t" "rp_k r = k" "length (rp_records r) = n"
    "\<And>f. f < n \<Longrightarrow> record_ok k (m f) (rp_records r ! f)"
    "rp_count r = card (Collect (may_go m))"
    "sorted_wrt (<) (map ln_addr (rp_lru r))" "set (rp_lru r) = young_nodes k m"
    "sorted_wrt (<) (map mn_time (rp_main r))" "set (rp_main r) = chain_nodes k m"
  using assms by (auto simp: simulates_def)

lemma simulatesI:
  assumes "histories_ok n t m" "rp_clock r = t" "rp_k r = k" "length (rp_records r) = n"
    "\<And>f. f < n \<Longrightarrow> record_ok k (m f) (rp_records r ! f)"
    "rp_count r = card (Collect (may_go m))"
    "sorted_wrt (<) (map ln_addr (rp_lru r))" "set (rp_lru r) = young_nodes k m"
    "sorted_wrt (<) (map mn_time (rp_main r))" "set (rp_main r) = chain_nodes k m"
  shows "simulates n k (t, m) r"
  using assms by (simp add: simulates_def)

lemma evitable_at_may_go:
  assumes "simulates n k (t, m) r" "f < n" "f \<in> dom m"
  shows "evitable_at r f = may_go m f"
  using simulatesD(5) [OF assms(1,2)] assms(3)
  by (auto simp: record_ok_def evitable_at_def may_go_def split: option.splits)

subsection \<open>Permission\<close>

lemma set_evictable_simulates:
  assumes sim: "simulates n k (t, m) r" and f: "f < n"
  shows "\<exists>r'. set_evictable f b r = Inr r'
    \<and> simulates n k (t, case m f of None \<Rightarrow> m | Some (ts, e) \<Rightarrow> m(f \<mapsto> (ts, b))) r'"
proof (cases "m f")
  case None
  then have "\<not> lr_active (rp_records r ! f)"
    using simulatesD(5) [OF sim f] by (simp add: record_ok_def)
  then show ?thesis using sim f None simulatesD(4) [OF sim] by (simp add: set_evictable_def Let_def)
next
  case (Some h)
  then obtain ts e where h: "m f = Some (ts, e)" by (cases h) auto
  have rec: "lr_active (rp_records r ! f)" "lr_evitable (rp_records r ! f) = e"
    using simulatesD(5) [OF sim f] h by (auto simp: record_ok_def)
  note d = simulatesD [OF sim]
  show ?thesis
  proof (cases "e = b")
    case True
    then show ?thesis using sim f h rec d(4) by (simp add: set_evictable_def Let_def fun_upd_idem)
  next
    case False
    let ?rec = "(rp_records r ! f)\<lparr>lr_evitable := b\<rparr>"
    let ?r = "(set_record f ?rec r)\<lparr>rp_count := (if b then rp_count r + 1 else rp_count r - 1)\<rparr>"
    let ?m = "m(f \<mapsto> (ts, b))"
    have run: "set_evictable f b r = Inr ?r"
      using f d(4) rec False by (simp add: set_evictable_def Let_def)
    have fin: "finite (Collect (may_go m))" using finite_may_go [OF d(1)] .
    have cnt: "rp_count ?r = card (Collect (may_go ?m))"
    proof (cases b)
      case True
      have "Collect (may_go ?m) = insert f (Collect (may_go m))" using True by auto
      moreover have "\<not> may_go m f" using h False True by (simp add: may_go_def)
      ultimately show ?thesis using fin True d(6) by simp
    next
      case nb: False
      have "Collect (may_go ?m) = Collect (may_go m) - {f}" using nb by (auto split: if_splits)
      moreover have "may_go m f" using h False nb by (simp add: may_go_def)
      ultimately show ?thesis using fin nb d(6) by simp
    qed
    have recs: "record_ok k (?m g) (rp_records ?r ! g)" if "g < n" for g
      using d(5) [OF that] d(5) [OF f] h d(4) that
      by (cases "g = f") (auto simp: set_record_def record_ok_def)
    have "simulates n k (t, ?m) ?r"
    proof (rule simulatesI [OF histories_ok_flag [OF d(1) h] _ _ _ recs cnt])
      show "set (rp_lru ?r) = young_nodes k ?m"
        using d(8) young_nodes_split [of m f ts e k, OF h] by (simp add: set_record_def)
      show "set (rp_main ?r) = chain_nodes k ?m"
        using d(10) chain_nodes_split [of m f ts e k, OF h] by (simp add: set_record_def)
    qed (use d in \<open>simp_all add: set_record_def\<close>)
    then show ?thesis using run h by auto
  qed
qed

subsection \<open>Eviction\<close>

lemma remove_whole_frame_run:
  assumes "sorted_wrt (<) ts" "i < length ts" "distinct (map mn_time xs)"
    and "frame_nodes f ts i \<subseteq> set xs"
  shows "remove_whole_frame (Some (ts ! i)) xs
    = Inr (filter (\<lambda>x. mn_time x \<notin> set (drop i ts)) xs)"
  using assms
proof (induction "length ts - i" arbitrary: i xs)
  case 0
  then show ?case by simp
next
  case (Suc d)
  let ?x = "node_of f ts i"
  let ?ys = "main_unlink (ts ! i) xs"
  have x: "?x \<in> set xs" "mn_time ?x = ts ! i"
  proof -
    have "?x \<in> frame_nodes f ts i" using Suc.prems(2) by (simp add: frame_nodes_def)
    then show "?x \<in> set xs" using Suc.prems(4) by blast
  qed (simp add: node_of_def)
  have step: "remove_whole_frame (Some (ts ! i)) xs = remove_whole_frame (mn_next_self ?x) ?ys"
    using main_at_unique [OF Suc.prems(3) x(1)] x(2)
    by (subst remove_whole_frame.simps) (simp add: main_unlink_def)
  have drp: "drop i ts = ts ! i # drop (Suc i) ts" using Suc.prems(2) by (simp add: Cons_nth_drop_Suc)
  show ?case
  proof (cases "Suc i < length ts")
    case False
    then have "mn_next_self ?x = None" "drop (Suc i) ts = []" by (auto simp: node_of_def)
    then show ?thesis using step drp
      by (simp add: remove_whole_frame.simps main_unlink_def)
  next
    case True
    then have nxt: "mn_next_self ?x = Some (ts ! Suc i)" by (simp add: node_of_def)
    have "ts ! i < ts ! j" if "Suc i \<le> j" "j < length ts" for j
      using that Suc.prems(1) by (simp add: sorted_wrt_iff_nth_less)
    then have "mn_time y \<noteq> ts ! i" if "y \<in> frame_nodes f ts (Suc i)" for y
      using that by (fastforce simp: frame_nodes_def node_of_def)
    then have sub: "frame_nodes f ts (Suc i) \<subseteq> set ?ys"
      using Suc.prems(4) by (fastforce simp: frame_nodes_def main_unlink_def)
    have "distinct (map mn_time ?ys)"
      using Suc.prems(3) by (simp add: main_unlink_def distinct_map_filter)
    then have "remove_whole_frame (Some (ts ! Suc i)) ?ys
        = Inr (filter (\<lambda>x. mn_time x \<notin> set (drop (Suc i) ts)) ?ys)"
      using Suc.hyps Suc.prems(1) True sub by (intro Suc.hyps(1)) auto
    then show ?thesis using step nxt drp
      by (simp add: main_unlink_def conj_commute)
  qed
qed

lemma nth_in_set_drop: "i \<le> j \<Longrightarrow> j < length ts \<Longrightarrow> ts ! j \<in> set (drop i ts)"
  using nth_mem [of "j - i" "drop i ts"] by simp

lemma sorted_times_distinct: "sorted_wrt (<) (map (h :: 'a \<Rightarrow> nat) xs) \<Longrightarrow> distinct (map h xs)"
  by (simp add: strict_sorted_iff)

lemma sorted_times_filter:
  "sorted_wrt (<) (map (h :: 'a \<Rightarrow> nat) xs) \<Longrightarrow> sorted_wrt (<) (map h (filter P xs))"
  by (induction xs) auto

lemma keep_others:
  assumes "\<And>x. x \<in> A \<Longrightarrow> g x \<in> S" "\<And>x. x \<in> B \<Longrightarrow> g x \<notin> S" "set xs = A \<union> B"
  shows "set (filter (\<lambda>x. g x \<notin> S) xs) = B"
  using assms by auto

lemma kth_last_index:
  "0 < k \<Longrightarrow> ts \<noteq> [] \<Longrightarrow> length ts - k < length ts"
  by (cases ts) auto

lemma try_evict_exact_simulates:
  assumes sim: "simulates n k (t, m) r" and f: "f < n" and k: "0 < k"
  shows "\<exists>r'. try_evict_exact f r = Inr (may_go m f, r')
    \<and> simulates n k (t, if may_go m f then m(f := None) else m) r'"
proof (cases "may_go m f")
  case False
  then have "\<not> lr_active (rp_records r ! f) \<or> \<not> lr_evitable (rp_records r ! f)"
    using simulatesD(5) [OF sim f]
    by (auto simp: record_ok_def may_go_def split: option.splits)
  then show ?thesis using sim f False simulatesD(4) [OF sim]
    by (auto simp: try_evict_exact_def Let_def)
next
  case True
  then obtain ts where h: "m f = Some (ts, True)"
    by (auto simp: may_go_def split: option.splits)
  note d = simulatesD [OF sim]
  note o = histories_okD [OF d(1) h]
  let ?rec = "rp_records r ! f"
  have rec: "lr_active ?rec" "lr_evitable ?rec" "lr_head ?rec = Some (kth_last k ts)"
    "lr_node ?rec = (if length ts < k then Some (last ts) else None)"
    using d(5) [OF f] h by (auto simp: record_ok_def)
  let ?i = "length ts - k"
  have i: "?i < length ts" using kth_last_index [OF k o(2)] .
  let ?ms = "filter (\<lambda>x. mn_time x \<notin> set (drop ?i ts)) (rp_main r)"
  have main: "set (rp_main r) = frame_nodes f ts ?i \<union> chain_nodes k (m(f := None))"
    using d(10) chain_nodes_split [of m f ts True, OF h] by simp
  have rem: "remove_whole_frame (lr_head ?rec) (rp_main r) = Inr ?ms"
    unfolding rec(3) kth_last_def
    by (rule remove_whole_frame_run [OF o(3) i sorted_times_distinct [OF d(9)]]) (use main in auto)
  have own: "mn_time x \<in> set (drop ?i ts)" if "x \<in> frame_nodes f ts ?i" for x
    using that by (auto simp: frame_nodes_def node_of_def nth_in_set_drop)
  have oth: "mn_time x \<notin> set (drop ?i ts)" if "x \<in> chain_nodes k (m(f := None))" for x
    using other_node_time [OF d(1) h that] in_set_dropD by metis
  have ms: "set ?ms = chain_nodes k (m(f := None))"
    by (rule keep_others [OF own oth main])
  let ?ls = "case lr_node ?rec of None \<Rightarrow> rp_lru r | Some a \<Rightarrow> lru_unlink a (rp_lru r)"
  have lst: "last ts \<in> set ts" using o(2) by simp
  have "ln_addr x \<noteq> last ts" if "x \<in> young_nodes k (m(f := None))" for x
    using other_node_addr [OF d(1) h that] lst by auto
  then have ls: "set ?ls = young_nodes k (m(f := None))"
    using d(8) rec(4) unfolding young_nodes_split [of m f ts True, OF h] lru_unlink_def
    by (auto split: if_splits)
  have ls_srt: "sorted_wrt (<) (map ln_addr ?ls)"
    using d(7) by (auto simp: lru_unlink_def sorted_times_filter split: option.splits)
  let ?r = "(set_record f (?rec\<lparr>lr_node := None, lr_active := False\<rparr>) r)
    \<lparr>rp_lru := ?ls, rp_main := ?ms, rp_count := rp_count r - 1\<rparr>"
  have run: "try_evict_exact f r = Inr (True, ?r)"
    using f d(4) rec(1,2) rem by (simp add: try_evict_exact_def Let_def)
  have "Collect (may_go (m(f := None))) = Collect (may_go m) - {f}" by auto
  then have cnt: "rp_count ?r = card (Collect (may_go (m(f := None))))"
    using finite_may_go [OF d(1)] d(6) True by simp
  have recs: "record_ok k ((m(f := None)) g) (rp_records ?r ! g)" if "g < n" for g
    using d(5) [OF that] d(4) that by (cases "g = f") (simp_all add: set_record_def record_ok_def)
  have "simulates n k (t, m(f := None)) ?r"
    using ms ls ls_srt sorted_times_filter [OF d(9)] d(2,3,4)
    by (intro simulatesI [OF histories_ok_remove [OF d(1)] _ _ _ recs cnt])
      (simp_all add: set_record_def)
  then show ?thesis using run True by simp
qed

subsection \<open>The victim\<close>

lemma member_not_Nil: "x \<in> set xs \<Longrightarrow> xs \<noteq> []"
  by auto

lemma arg_min_list_unique:
  fixes g :: "'a \<Rightarrow> nat"
  assumes "xs \<noteq> []" "inj_on g (set xs)" "x \<in> set xs" "\<And>y. y \<in> set xs \<Longrightarrow> g x \<le> g y"
  shows "arg_min_list g xs = x"
proof -
  have a: "arg_min_list g xs \<in> set xs" using assms(1) by (rule arg_min_list_in)
  have "g (arg_min_list g xs) = Min (g ` set xs)" using assms(1) by (rule f_arg_min_list_f)
  also have "\<dots> \<le> g x" using assms(3) by simp
  finally have "g (arg_min_list g xs) = g x" using assms(4) [OF a] by simp
  then show ?thesis using assms(2,3) a by (auto dest: inj_onD)
qed

text \<open>The first element of a chain in time order that meets a test is the earliest one.\<close>

lemma find_sorted:
  fixes g :: "'a \<Rightarrow> nat"
  assumes "sorted_wrt (<) (map g xs)" "find P xs = Some x"
  shows "x \<in> set xs" "P x" "\<And>y. y \<in> set xs \<Longrightarrow> P y \<Longrightarrow> g x \<le> g y"
  using assms by (induction xs) (auto split: if_splits)

lemma history_of_dom:
  assumes "histories_ok n t m" "f \<in> dom m"
  shows "m f = Some (accesses m f, may_go m f)" "f < n" "accesses m f \<noteq> []"
  using assms by (auto simp: history_simps histories_ok_def)

lemma accesses_inj:
  assumes "histories_ok n t m" "f \<in> dom m" "g \<in> dom m"
    and "x \<in> set (accesses m f)" "x \<in> set (accesses m g)"
  shows "f = g"
  using assms unfolding histories_ok_def by blast

lemma young_chain_victim:
  assumes sim: "simulates n k (t, m) r"
    and x: "find (\<lambda>x. evitable_at r (ln_frame x)) (rp_lru r) = Some x"
  shows "spec_victim n k m = Some (ln_frame x)" "may_go m (ln_frame x)"
proof -
  note d = simulatesD [OF sim]
  let ?f = "ln_frame x"
  let ?cands = "filter (may_go m) [0..<n]"
  let ?young = "filter (\<lambda>f. length (accesses m f) < k) ?cands"
  let ?key = "\<lambda>f. last (accesses m f)"
  have y: "ln_frame y \<in> dom m" "ln_addr y = ?key (ln_frame y)"
    "length (accesses m (ln_frame y)) < k" "ln_frame y < n" if "y \<in> set (rp_lru r)" for y
    using young_nodes_addr [of y k m] that d(1,8) by (auto simp: histories_ok_def)
  note fs = find_sorted [OF d(7) x]
  show go: "may_go m ?f"
    using fs(1,2) y [OF fs(1)] evitable_at_may_go [OF sim] by simp
  have inj: "inj_on ?key (set ?young)"
  proof (rule inj_onI)
    fix a b assume ab: "a \<in> set ?young" "b \<in> set ?young" "?key a = ?key b"
    then have dm: "a \<in> dom m" "b \<in> dom m" using may_go_dom by auto
    then have "?key a \<in> set (accesses m a)" "?key b \<in> set (accesses m b)"
      using history_of_dom(3) [OF d(1)] last_in_set by blast+
    then show "a = b" using accesses_inj [OF d(1) dm, of "?key a"] ab(3) by simp
  qed
  have f: "?f \<in> set ?young" using y [OF fs(1)] go by simp
  have least: "?key ?f \<le> ?key g" if "g \<in> set ?young" for g
  proof -
    have g: "g < n" "may_go m g" "length (accesses m g) < k" using that by auto
    then have dm: "g \<in> dom m" using may_go_dom by simp
    let ?y = "\<lparr>ln_addr = ?key g, ln_frame = g\<rparr>"
    have "?y \<in> set (rp_lru r)" using d(8) dm g(3) by (simp add: young_nodes_iff)
    moreover have "evitable_at r (ln_frame ?y)"
      using evitable_at_may_go [OF sim g(1) dm] g(2) by simp
    ultimately show ?thesis using fs(3) [of ?y] y(2) [OF fs(1)] by simp
  qed
  have "arg_min_list ?key ?young = ?f"
    by (rule arg_min_list_unique [OF member_not_Nil [OF f] inj f least])
  moreover have "?young \<noteq> []" by (rule member_not_Nil [OF f])
  moreover have "?f \<in> set ?cands" using f by simp
  then have "?cands \<noteq> []" by (rule member_not_Nil)
  ultimately show "spec_victim n k m = Some ?f" unfolding spec_victim_def Let_def by simp
qed

lemma main_chain_victim:
  assumes sim: "simulates n k (t, m) r" and k: "0 < k"
    and none: "find (\<lambda>x. evitable_at r (ln_frame x)) (rp_lru r) = None"
    and x: "find (\<lambda>x. evitable_at r (mn_frame x)) (rp_main r) = Some x"
  shows "spec_victim n k m = Some (mn_frame x)" "may_go m (mn_frame x)"
proof -
  note d = simulatesD [OF sim]
  let ?f = "mn_frame x"
  let ?cands = "filter (may_go m) [0..<n]"
  let ?key = "\<lambda>f. kth_last k (accesses m f)"
  note fs = find_sorted [OF d(9) x]
  have fd: "?f \<in> dom m" "mn_time x \<in> set (accesses m ?f)"
    using chain_nodes_time [of x k m] fs(1) d(10) by auto
  note hf = history_of_dom [OF d(1) fd(1)]
  show go: "may_go m ?f" using fs(2) evitable_at_may_go [OF sim hf(2) fd(1)] by simp
  have old: "\<not> length (accesses m g) < k" if "may_go m g" for g
  proof
    assume l: "length (accesses m g) < k"
    have g: "g \<in> dom m" "g < n"
      using may_go_dom [OF that] history_of_dom(2) [OF d(1) may_go_dom [OF that]] by auto
    let ?y = "\<lparr>ln_addr = last (accesses m g), ln_frame = g\<rparr>"
    have "?y \<in> set (rp_lru r)" using d(8) g(1) l by (simp add: young_nodes_iff)
    moreover have "evitable_at r (ln_frame ?y)"
      using evitable_at_may_go [OF sim g(2,1)] that by simp
    ultimately show False using none by (auto simp: find_None_iff)
  qed
  have first: "?key g \<in> set (accesses m g)"
    "node_of g (accesses m g) (length (accesses m g) - k) \<in> set (rp_main r)"
    if "g \<in> dom m" for g
  proof -
    have i: "length (accesses m g) - k < length (accesses m g)"
      using kth_last_index [OF k history_of_dom(3) [OF d(1) that]] .
    then show "?key g \<in> set (accesses m g)" unfolding kth_last_def by (rule nth_mem)
    show "node_of g (accesses m g) (length (accesses m g) - k) \<in> set (rp_main r)"
      using d(10) that i unfolding chain_nodes_def frame_nodes_def by fastforce
  qed
  have le: "mn_time x \<le> ?key g" if g: "may_go m g" "g \<in> dom m" for g
  proof -
    let ?y = "node_of g (accesses m g) (length (accesses m g) - k)"
    have "evitable_at r (mn_frame ?y)"
      using evitable_at_may_go [OF sim history_of_dom(2) [OF d(1) g(2)] g(2)] g(1)
      by (simp add: node_of_def)
    then have "mn_time x \<le> mn_time ?y" using fs(3) first(2) [OF g(2)] by blast
    then show ?thesis by (simp add: node_of_def kth_last_def)
  qed
  have ge: "?key ?f \<le> mn_time x"
  proof -
    have "x \<in> frame_nodes ?f (accesses m ?f) (length (accesses m ?f) - k)"
      using fs(1) d(10) by (auto simp: chain_nodes_def dest: frame_nodes_time)
    then obtain i where i: "length (accesses m ?f) - k \<le> i" "i < length (accesses m ?f)"
      "mn_time x = accesses m ?f ! i"
      using frame_nodes_index by blast
    have "sorted_wrt (<) (accesses m ?f)" using d(1) fd(1) unfolding histories_ok_def by blast
    then show ?thesis using i unfolding kth_last_def
      by (cases "length (accesses m ?f) - k = i") (auto simp: sorted_wrt_iff_nth_less less_imp_le)
  qed
  have inj: "inj_on ?key (set ?cands)"
  proof (rule inj_onI)
    fix a b assume ab: "a \<in> set ?cands" "b \<in> set ?cands" "?key a = ?key b"
    then have "a \<in> dom m" "b \<in> dom m" using may_go_dom by auto
    then show "a = b" using accesses_inj [OF d(1), of a b "?key a"] first(1) ab(3) by metis
  qed
  have f: "?f \<in> set ?cands" using go hf(2) by simp
  have "arg_min_list ?key ?cands = ?f"
  proof (rule arg_min_list_unique [OF member_not_Nil [OF f] inj f])
    fix g assume "g \<in> set ?cands"
    then have "may_go m g" by simp
    then show "?key ?f \<le> ?key g" using order_trans [OF ge le] may_go_dom by blast
  qed
  moreover have "filter (\<lambda>f. length (accesses m f) < k) ?cands = []"
    using old by (auto simp: filter_empty_conv)
  moreover have "?cands \<noteq> []" by (rule member_not_Nil [OF f])
  ultimately show "spec_victim n k m = Some ?f" unfolding spec_victim_def Let_def by simp
qed

lemma no_victim:
  assumes sim: "simulates n k (t, m) r" and k: "0 < k"
    and "rp_count r = 0 \<or> find (\<lambda>x. evitable_at r (mn_frame x)) (rp_main r) = None"
  shows "spec_victim n k m = None"
proof -
  note d = simulatesD [OF sim]
  have "\<not> may_go m g" for g
  proof
    assume g: "may_go m g"
    have dm: "g \<in> dom m" "g < n"
      using may_go_dom [OF g] history_of_dom(2) [OF d(1) may_go_dom [OF g]] by auto
    let ?ts = "accesses m g"
    let ?y = "node_of g ?ts (length ?ts - k)"
    have "length ?ts - k < length ?ts"
      using kth_last_index [OF k history_of_dom(3) [OF d(1) dm(1)]] .
    then have "?y \<in> set (rp_main r)"
      using d(10) dm(1) unfolding chain_nodes_def frame_nodes_def by fastforce
    moreover have "evitable_at r (mn_frame ?y)"
      using evitable_at_may_go [OF sim dm(2,1)] g by (simp add: node_of_def)
    moreover have "rp_count r \<noteq> 0"
      using d(6) finite_may_go [OF d(1)] g by auto
    ultimately show False using assms(3) by (auto simp: find_None_iff)
  qed
  then show ?thesis by (simp add: spec_victim_def)
qed

lemma try_evict_least_simulates:
  assumes sim: "simulates n k (t, m) r" and k: "0 < k"
  shows "\<exists>r'. try_evict_least r = Inr (spec_victim n k m, r')
    \<and> simulates n k (t, case spec_victim n k m of None \<Rightarrow> m | Some f \<Rightarrow> m(f := None)) r'"
proof -
  have evict: "\<exists>r'. rbind (try_evict_exact f r) (\<lambda>(ok, r'). Inr (if ok then Some f else None, r'))
      = Inr (Some f, r') \<and> simulates n k (t, m(f := None)) r'" if "may_go m f" for f
  proof -
    have "f < n" using may_go_dom [OF that] simulatesD(1) [OF sim] by (auto simp: histories_ok_def)
    from try_evict_exact_simulates [OF sim this k] show ?thesis using that by auto
  qed
  consider (zero) "rp_count r = 0"
    | (young) x where "rp_count r \<noteq> 0"
        "find (\<lambda>x. evitable_at r (ln_frame x)) (rp_lru r) = Some x"
    | (main) x where "rp_count r \<noteq> 0"
        "find (\<lambda>x. evitable_at r (ln_frame x)) (rp_lru r) = None"
        "find (\<lambda>x. evitable_at r (mn_frame x)) (rp_main r) = Some x"
    | (none) "rp_count r \<noteq> 0" "find (\<lambda>x. evitable_at r (ln_frame x)) (rp_lru r) = None"
        "find (\<lambda>x. evitable_at r (mn_frame x)) (rp_main r) = None"
    by fastforce
  then show ?thesis
  proof cases
    case zero
    then show ?thesis using no_victim [OF sim k] sim by (simp add: try_evict_least_def)
  next
    case young
    note v = young_chain_victim [OF sim young(2)]
    show ?thesis using young evict [OF v(2)] v(1) by (simp add: try_evict_least_def)
  next
    case main
    note v = main_chain_victim [OF sim k main(2,3)]
    show ?thesis using main evict [OF v(2)] v(1) by (simp add: try_evict_least_def)
  next
    case none
    then show ?thesis using no_victim [OF sim k] sim by (simp add: try_evict_least_def)
  qed
qed

subsection \<open>Accesses\<close>

text \<open>Appending an access: the last own node is linked to the new one.\<close>

definition link_main :: "nat option \<Rightarrow> nat \<Rightarrow> main_node \<Rightarrow> main_node" where
  "link_main last_node t x =
     (if Some (mn_time x) = last_node then x\<lparr>mn_next_self := Some t\<rparr> else x)"

lemma set_add_main:
  "set (add_main f t p xs) = link_main p t ` set xs \<union> {node_of f [t] 0}"
  by (auto simp: add_main_def link_main_def node_of_def)

lemma times_add_main: "map mn_time (add_main f t p xs) = map mn_time xs @ [t]"
  by (simp add: add_main_def)

lemma link_own_nodes:
  assumes "sorted_wrt (<) ts" "ts \<noteq> []"
  shows "link_main (Some (last ts)) t ` frame_nodes f ts j
    = node_of f (ts @ [t]) ` {j..<length ts}"
proof -
  have "link_main (Some (last ts)) t (node_of f ts i) = node_of f (ts @ [t]) i"
    if "i < length ts" for i
  proof (cases "Suc i = length ts")
    case True
    then have "last ts = ts ! i" using assms(2) by (metis last_conv_nth diff_Suc_1)
    then show ?thesis using True by (simp add: link_main_def node_of_def nth_append)
  next
    case False
    then have i: "Suc i < length ts" using that by simp
    have "ts ! i < ts ! (length ts - 1)" using assms(1) i by (simp add: sorted_wrt_iff_nth_less)
    then have "last ts \<noteq> ts ! i" using assms(2) by (simp add: last_conv_nth)
    then show ?thesis using i by (simp add: link_main_def node_of_def nth_append)
  qed
  then show ?thesis unfolding frame_nodes_def by (simp add: image_image)
qed

lemma link_other_nodes: "(\<And>x. x \<in> A \<Longrightarrow> mn_time x \<noteq> a) \<Longrightarrow> link_main (Some a) t ` A = A"
  by (force simp: link_main_def)

lemma frame_nodes_append:
  "j \<le> length ts \<Longrightarrow> frame_nodes f (ts @ [t]) j
    = node_of f (ts @ [t]) ` {j..<length ts} \<union> {node_of f [t] 0}"
  by (auto simp: frame_nodes_def node_of_def less_Suc_eq atLeastLessThanSuc)

lemma frame_nodes_drop_first:
  assumes "sorted_wrt (<) ts" "j < length ts"
  shows "{x \<in> frame_nodes f ts j. mn_time x \<noteq> ts ! j} = frame_nodes f ts (Suc j)"
proof -
  have "ts ! i = ts ! j \<longleftrightarrow> i = j" if "j \<le> i" "i < length ts" for i
    using assms that by (metis le_neq_implies_less nat_neq_iff sorted_wrt_nth_less)
  then show ?thesis unfolding frame_nodes_def node_of_def
    by (auto simp: Suc_le_eq le_neq_implies_less image_iff)
qed

lemma first_access_simulates:
  assumes sim: "simulates n k (t, m) r" and f: "f < n" and k: "1 < k" and h: "m f = None"
  shows "simulates n k (Suc t, m(f \<mapsto> ([Suc t], False)))
    (first_access f (r\<lparr>rp_clock := rp_clock r + 1\<rparr>))"
proof -
  note d = simulatesD [OF sim]
  let ?m = "m(f \<mapsto> ([Suc t], False))"
  have acc: "accesses m f = []" using h by (simp add: accesses_def)
  have hs: "histories_ok n (Suc t) ?m"
    using histories_ok_access [OF d(1) f, of False] acc by simp
  have "Collect (may_go ?m) = Collect (may_go m)"
    using h by (auto simp: may_go_def split: if_splits)
  then have cnt: "rp_count r = card (Collect (may_go ?m))" using d(6) by simp
  have recs: "record_ok k (?m g) (rp_records (first_access f (r\<lparr>rp_clock := rp_clock r + 1\<rparr>)) ! g)"
    if "g < n" for g
    using d(2,4) d(5) [OF that] that k
    by (cases "g = f") (simp_all add: first_access_def Let_def set_record_def record_ok_def kth_last_def)
  have old_t: "mn_time x < Suc t" if "x \<in> set (rp_main r)" for x
    using chain_nodes_time [of x k m] that d(1,10) unfolding histories_ok_def by fastforce
  have old_a: "ln_addr x < Suc t" if "x \<in> set (rp_lru r)" for x
  proof -
    have "ln_frame x \<in> dom m" "ln_addr x = last (accesses m (ln_frame x))"
      using that d(8) by (simp_all add: young_nodes_iff)
    then show ?thesis using d(1) unfolding histories_ok_def by (metis last_in_set le_imp_less_Suc)
  qed
  have "link_main None (Suc t) ` A = A" for A by (simp add: link_main_def)
  then have ms: "set (add_main f (Suc t) None (rp_main r)) = chain_nodes k ?m"
    using d(10) k by (simp add: set_add_main frame_nodes_def chain_nodes_none h Un_commute)
  show ?thesis
  proof (rule simulatesI [OF hs _ _ _ recs])
    show "sorted_wrt (<) (map ln_addr (rp_lru (first_access f (r\<lparr>rp_clock := rp_clock r + 1\<rparr>))))"
      using d(2,7) old_a by (auto simp: first_access_def Let_def set_record_def sorted_wrt_append)
    show "set (rp_lru (first_access f (r\<lparr>rp_clock := rp_clock r + 1\<rparr>))) = young_nodes k ?m"
      using d(2,8) k young_nodes_none [of m f k, OF h]
      by (simp add: first_access_def Let_def set_record_def)
    show "sorted_wrt (<) (map mn_time (rp_main (first_access f (r\<lparr>rp_clock := rp_clock r + 1\<rparr>))))"
      using d(2,9) old_t by (auto simp: first_access_def Let_def set_record_def sorted_wrt_append
          times_add_main)
    show "rp_count (first_access f (r\<lparr>rp_clock := rp_clock r + 1\<rparr>)) = card (Collect (may_go ?m))"
      using cnt unfolding first_access_def Let_def set_record_def by simp
    show "set (rp_main (first_access f (r\<lparr>rp_clock := rp_clock r + 1\<rparr>))) = chain_nodes k ?m"
      using ms d(2) unfolding first_access_def Let_def set_record_def by simp
  qed (use d in \<open>simp_all add: first_access_def Let_def set_record_def\<close>)
qed

lemma chain_times_le:
  assumes "simulates n k (t, m) r"
  shows "x \<in> set (rp_main r) \<Longrightarrow> mn_time x \<le> t" "y \<in> set (rp_lru r) \<Longrightarrow> ln_addr y \<le> t"
proof -
  note d = simulatesD [OF assms]
  show "mn_time x \<le> t" if "x \<in> set (rp_main r)"
    using chain_nodes_time [of x k m] that d(1,10) unfolding histories_ok_def by fastforce
  show "ln_addr y \<le> t" if "y \<in> set (rp_lru r)"
  proof -
    have "ln_frame y \<in> dom m" "ln_addr y = last (accesses m (ln_frame y))"
      using that d(8) by (simp_all add: young_nodes_iff)
    then show ?thesis using d(1) unfolding histories_ok_def by (metis last_in_set)
  qed
qed

text \<open>The chains after a further access of a tracked frame, before the oldest node goes.\<close>

lemma next_main_chain:
  assumes sim: "simulates n k (t, m) r" and h: "m f = Some (ts, e)" and k: "0 < k"
  defines "ms \<equiv> add_main f (Suc t) (Some (last ts)) (rp_main r)"
  shows "set ms = frame_nodes f (ts @ [Suc t]) (length ts - k) \<union> chain_nodes k (m(f := None))"
    and "sorted_wrt (<) (map mn_time ms)"
proof -
  note d = simulatesD [OF sim]
  note o = histories_okD [OF d(1) h]
  let ?j = "length ts - k"
  let ?link = "link_main (Some (last ts)) (Suc t)"
  have "last ts \<in> set ts" using o(2) by simp
  then have oth: "?link ` chain_nodes k (m(f := None)) = chain_nodes k (m(f := None))"
    by (intro link_other_nodes) (use other_node_time [OF d(1) h] in metis)
  have "set ms = ?link ` (frame_nodes f ts ?j \<union> chain_nodes k (m(f := None))) \<union> {node_of f [Suc t] 0}"
    unfolding ms_def set_add_main d(10) chain_nodes_split [of m f ts e k, OF h] ..
  also have "\<dots> = (node_of f (ts @ [Suc t]) ` {?j..<length ts} \<union> {node_of f [Suc t] 0})
      \<union> chain_nodes k (m(f := None))"
    unfolding image_Un oth link_own_nodes [OF o(3,2)] by blast
  also have "\<dots> = frame_nodes f (ts @ [Suc t]) ?j \<union> chain_nodes k (m(f := None))"
    by (simp add: frame_nodes_append)
  finally show "set ms = frame_nodes f (ts @ [Suc t]) ?j \<union> chain_nodes k (m(f := None))" .
  show "sorted_wrt (<) (map mn_time ms)"
    using d(9) chain_times_le(1) [OF sim]
    by (auto simp: ms_def times_add_main sorted_wrt_append less_Suc_eq_le)
qed

lemma next_young_chain:
  assumes sim: "simulates n k (t, m) r" and h: "m f = Some (ts, e)" and f: "f < n"
  defines "ls \<equiv> (case lr_node (rp_records r ! f) of None \<Rightarrow> rp_lru r
    | Some a \<Rightarrow> lru_unlink a (rp_lru r))"
  shows "set ls = young_nodes k (m(f := None))" "sorted_wrt (<) (map ln_addr ls)"
    "sorted_wrt (<) (map ln_addr (ls @ [\<lparr>ln_addr = Suc t, ln_frame = f\<rparr>]))"
proof -
  note d = simulatesD [OF sim]
  note o = histories_okD [OF d(1) h]
  have node: "lr_node (rp_records r ! f) = (if length ts < k then Some (last ts) else None)"
    using d(5) [OF f] h by (simp add: record_ok_def)
  have "last ts \<in> set ts" using o(2) by simp
  then have "ln_addr x \<noteq> last ts" if "x \<in> young_nodes k (m(f := None))" for x
    using other_node_addr [OF d(1) h that] by auto
  then show "set ls = young_nodes k (m(f := None))"
    using d(8) young_nodes_split [of m f ts e k, OF h] node
    by (auto simp: ls_def lru_unlink_def split: if_splits)
  show srt: "sorted_wrt (<) (map ln_addr ls)"
    using d(7) by (auto simp: ls_def lru_unlink_def sorted_times_filter split: option.splits)
  have "set ls \<subseteq> set (rp_lru r)" by (auto simp: ls_def lru_unlink_def split: option.splits)
  then show "sorted_wrt (<) (map ln_addr (ls @ [\<lparr>ln_addr = Suc t, ln_frame = f\<rparr>]))"
    using srt chain_times_le(2) [OF sim] by (auto simp: sorted_wrt_append less_Suc_eq_le)
qed

lemma next_access_simulates:
  assumes sim: "simulates n k (t, m) r" and f: "f < n" and k: "0 < k" and h: "m f = Some (ts, e)"
  shows "\<exists>r'. next_access f (r\<lparr>rp_clock := Suc t\<rparr>) = Inr r'
    \<and> simulates n k (Suc t, m(f \<mapsto> (ts @ [Suc t], e))) r'"
proof -
  note d = simulatesD [OF sim]
  note o = histories_okD [OF d(1) h]
  let ?ts = "ts @ [Suc t]"
  let ?m = "m(f \<mapsto> (?ts, e))"
  let ?rec = "rp_records r ! f"
  let ?j = "length ts - k"
  let ?young = "Suc (length ts) < k"
  let ?ms = "add_main f (Suc t) (Some (last ts)) (rp_main r)"
  let ?ls = "case lr_node ?rec of None \<Rightarrow> rp_lru r | Some a \<Rightarrow> lru_unlink a (rp_lru r)"
  let ?ls' = "if ?young then ?ls @ [\<lparr>ln_addr = Suc t, ln_frame = f\<rparr>] else ?ls"
  let ?rec1 = "?rec\<lparr>lr_visits := Suc (length ts), lr_tail := Some (Suc t),
     lr_node := (if ?young then Some (Suc t) else None)\<rparr>"
  have rec: "lr_active ?rec" "lr_evitable ?rec = e" "lr_visits ?rec = length ts"
    "lr_head ?rec = Some (kth_last k ts)" "lr_tail ?rec = Some (last ts)"
    using d(5) [OF f] h by (auto simp: record_ok_def)
  have hs: "histories_ok n (Suc t) ?m"
    using histories_ok_access [OF d(1) f, of e] h by (simp add: history_simps)
  have "may_go ?m = may_go m" using h by (simp add: may_go_def fun_eq_iff)
  then have cnt: "rp_count r = card (Collect (may_go ?m))" using d(6) by simp
  note mc = next_main_chain [OF sim h k]
  note yc = next_young_chain [OF sim h f]
  have lru: "set ?ls' = young_nodes k ?m" using yc(1) by simp
  have lru_srt: "sorted_wrt (<) (map ln_addr ?ls')" using yc(2,3) by simp
  let ?keep = "r\<lparr>rp_clock := Suc t, rp_lru := ?ls'\<rparr>"
  have done_sim: "simulates n k (Suc t, ?m) ((set_record f rec' ?keep)\<lparr>rp_main := ms'\<rparr>)"
    if "record_ok k (Some (?ts, e)) rec'" "set ms' = chain_nodes k ?m"
      "sorted_wrt (<) (map mn_time ms')" for rec' ms'
  proof (rule simulatesI [OF hs])
    fix g assume "g < n"
    then show "record_ok k (?m g) (rp_records ((set_record f rec' ?keep)\<lparr>rp_main := ms'\<rparr>) ! g)"
      using that(1) d(4) d(5) [of g] by (cases "g = f") (simp_all add: set_record_def)
  next
    show "rp_count ((set_record f rec' ?keep)\<lparr>rp_main := ms'\<rparr>) = card (Collect (may_go ?m))"
      using cnt unfolding set_record_def by simp
    show "set (rp_lru ((set_record f rec' ?keep)\<lparr>rp_main := ms'\<rparr>)) = young_nodes k ?m"
      using lru unfolding set_record_def by simp
    show "set (rp_main ((set_record f rec' ?keep)\<lparr>rp_main := ms'\<rparr>)) = chain_nodes k ?m"
      using that(2) unfolding set_record_def by simp
    show "sorted_wrt (<) (map ln_addr (rp_lru ((set_record f rec' ?keep)\<lparr>rp_main := ms'\<rparr>)))"
      using lru_srt unfolding set_record_def by simp
  qed (use d that in \<open>simp_all add: set_record_def\<close>)
  show ?thesis
  proof (cases "k < Suc (length ts)")
    case False
    have run: "next_access f (r\<lparr>rp_clock := Suc t\<rparr>) = Inr ((set_record f ?rec1 ?keep)\<lparr>rp_main := ?ms\<rparr>)"
      using False d(3) rec(3,5)
      by (cases "lr_node ?rec") (simp_all add: next_access_def Let_def set_record_def)
    have "kth_last k ts = kth_last k ?ts"
      using False o(2) by (simp add: kth_last_def nth_append)
    then have "record_ok k (Some (?ts, e)) ?rec1" using rec by (simp add: record_ok_def)
    moreover have "set ?ms = chain_nodes k ?m" using mc(1) False by simp
    ultimately have "simulates n k (Suc t, ?m) ((set_record f ?rec1 ?keep)\<lparr>rp_main := ?ms\<rparr>)"
      by (rule done_sim [OF _ _ mc(2)])
    then show ?thesis using run by blast
  next
    case True
    have j: "?j < length ts" using True o(2) k by (cases ts) auto
    have addr: "kth_last k ts = ?ts ! ?j" using j by (simp add: kth_last_def nth_append)
    let ?x = "node_of f ?ts ?j"
    have "?x \<in> set ?ms" using mc(1) j by (simp add: frame_nodes_def)
    then have at: "main_at (?ts ! ?j) ?ms = Some ?x"
      using main_at_unique [OF sorted_times_distinct [OF mc(2)], of ?x] by (simp add: node_of_def)
    have nxt: "mn_next_self ?x = Some (kth_last k ?ts)"
      using j True by (simp add: node_of_def kth_last_def Suc_diff_le)
    let ?rec2 = "?rec1\<lparr>lr_head := mn_next_self ?x\<rparr>"
    let ?ms2 = "main_unlink (?ts ! ?j) ?ms"
    have run: "next_access f (r\<lparr>rp_clock := Suc t\<rparr>) = Inr ((set_record f ?rec2 ?keep)\<lparr>rp_main := ?ms2\<rparr>)"
      using True d(3) rec(3,4,5) at addr
      by (cases "lr_node ?rec") (simp_all add: next_access_def Let_def set_record_def)
    have srt: "sorted_wrt (<) ?ts" using o(3,4) by (auto simp: sorted_wrt_append less_Suc_eq_le)
    have "?ts ! ?j \<in> set ts" using j by (simp add: nth_append)
    then have "mn_time x \<noteq> ?ts ! ?j" if "x \<in> chain_nodes k (m(f := None))" for x
      using other_node_time [OF d(1) h that] by metis
    then have "set ?ms2 = {x \<in> frame_nodes f ?ts ?j. mn_time x \<noteq> ?ts ! ?j} \<union> chain_nodes k (m(f := None))"
      using mc(1) by (auto simp: main_unlink_def)
    also have "\<dots> = chain_nodes k ?m"
      using frame_nodes_drop_first [OF srt, of ?j f] j True by (simp add: Suc_diff_le)
    finally have ms: "set ?ms2 = chain_nodes k ?m" .
    have "record_ok k (Some (?ts, e)) ?rec2" using rec nxt by (simp add: record_ok_def)
    moreover have "sorted_wrt (<) (map mn_time ?ms2)"
      using sorted_times_filter [OF mc(2)] by (simp add: main_unlink_def)
    ultimately have "simulates n k (Suc t, ?m) ((set_record f ?rec2 ?keep)\<lparr>rp_main := ?ms2\<rparr>)"
      using ms by (intro done_sim)
    then show ?thesis using run by blast
  qed
qed

lemma record_access_simulates:
  assumes sim: "simulates n k (t, m) r" and f: "f < n" and k: "1 < k"
  shows "\<exists>r'. record_access f r = Inr r'
    \<and> simulates n k (Suc t, m(f \<mapsto> (accesses m f @ [Suc t], may_go m f))) r'"
proof (cases "m f")
  case None
  then have "\<not> lr_active (rp_records r ! f)" "accesses m f = []" "\<not> may_go m f"
    using simulatesD(5) [OF sim f] by (simp_all add: record_ok_def accesses_def may_go_def)
  then show ?thesis
    using first_access_simulates [OF sim f k None] f simulatesD(4) [OF sim]
    by (simp add: record_access_def)
next
  case (Some h)
  then obtain ts e where h: "m f = Some (ts, e)" by (cases h) auto
  then have "lr_active (rp_records r ! f)"
    using simulatesD(5) [OF sim f] by (simp add: record_ok_def)
  moreover have "0 < k" using k by simp
  ultimately show ?thesis
    using next_access_simulates [OF sim f _ h] f simulatesD(2,4) [OF sim] h
    by (simp add: record_access_def history_simps)
qed

section \<open>The interface of an eviction policy\<close>

text \<open>
  What the buffer pool relies on, without the policy: which frames are tracked, which of
  them may be evicted, and that an eviction takes one of these.
\<close>

locale eviction_policy =
  fixes ok :: "nat \<Rightarrow> 'r \<Rightarrow> bool" and tracked :: "'r \<Rightarrow> nat set" and evictable :: "'r \<Rightarrow> nat set"
    and access :: "nat \<Rightarrow> 'r \<Rightarrow> 'r result" and allow :: "nat \<Rightarrow> bool \<Rightarrow> 'r \<Rightarrow> 'r result"
    and evict_frame :: "nat \<Rightarrow> 'r \<Rightarrow> (bool \<times> 'r) result"
    and evict :: "'r \<Rightarrow> (nat option \<times> 'r) result"
  assumes evictable_tracked: "ok n r \<Longrightarrow> evictable r \<subseteq> tracked r \<and> tracked r \<subseteq> {..<n}"
    and access_ok: "ok n r \<Longrightarrow> f < n \<Longrightarrow> \<exists>r'. access f r = Inr r' \<and> ok n r'
      \<and> tracked r' = insert f (tracked r) \<and> evictable r' = evictable r"
    and allow_ok: "ok n r \<Longrightarrow> f < n \<Longrightarrow> \<exists>r'. allow f b r = Inr r' \<and> ok n r'
      \<and> tracked r' = tracked r \<and> evictable r' =
        (if f \<notin> tracked r then evictable r else if b then insert f (evictable r) else evictable r - {f})"
    and evict_frame_ok: "ok n r \<Longrightarrow> f < n \<Longrightarrow> \<exists>r'. evict_frame f r = Inr (f \<in> evictable r, r') \<and> ok n r'
      \<and> tracked r' = (if f \<in> evictable r then tracked r - {f} else tracked r)
      \<and> evictable r' = evictable r - {f}"
    and evict_ok: "ok n r \<Longrightarrow> \<exists>v r'. evict r = Inr (v, r') \<and> ok n r'
      \<and> (case v of None \<Rightarrow> evictable r = {} \<and> tracked r' = tracked r \<and> evictable r' = {}
         | Some f \<Rightarrow> f \<in> evictable r \<and> tracked r' = tracked r - {f}
             \<and> evictable r' = evictable r - {f})"
begin

lemma pin_ok:
  assumes "ok n r" "f < n"
  shows "\<exists>r'. rbind (access f r) (allow f False) = Inr r' \<and> ok n r'
    \<and> tracked r' = insert f (tracked r) \<and> evictable r' = evictable r - {f}"
proof -
  obtain r1 where r1: "access f r = Inr r1" "ok n r1" "tracked r1 = insert f (tracked r)"
    "evictable r1 = evictable r"
    using access_ok [OF assms] by blast
  show ?thesis using allow_ok [OF r1(2) assms(2), of False] r1 by auto
qed

text \<open>Evicting a frame and pinning it again leaves the set of tracked frames unchanged.\<close>

lemma evict_pin_ok:
  assumes "ok n r" "evict r = Inr (Some f, r')"
  shows "f \<in> evictable r \<and> f < n \<and> (\<exists>r''. rbind (access f r') (allow f False) = Inr r'' \<and> ok n r''
    \<and> tracked r'' = tracked r \<and> evictable r'' = evictable r - {f})"
proof -
  have e: "ok n r'" "f \<in> evictable r" "tracked r' = tracked r - {f}" "evictable r' = evictable r - {f}"
    using evict_ok [OF assms(1)] assms(2) by auto
  then have f: "f < n" "f \<in> tracked r" using evictable_tracked [OF assms(1)] by auto
  then have "insert f (tracked r - {f}) = tracked r" "evictable r - {f} - {f} = evictable r - {f}"
    by auto
  then show ?thesis using pin_ok [OF e(1) f(1)] e f(1) by metis
qed

end

definition replacer_ok :: "nat \<Rightarrow> replacer \<Rightarrow> bool" where
  "replacer_ok n r \<longleftrightarrow> (\<exists>k s. 1 < k \<and> simulates n k s r)"

definition tracked_frames :: "replacer \<Rightarrow> nat set" where
  "tracked_frames r = {f. f < length (rp_records r) \<and> lr_active (rp_records r ! f)}"

definition evictable_frames :: "replacer \<Rightarrow> nat set" where
  "evictable_frames r = {f \<in> tracked_frames r. lr_evitable (rp_records r ! f)}"

lemma tracked_frames_sim:
  assumes "simulates n k (t, m) r"
  shows "tracked_frames r = dom m"
proof -
  have "dom m \<subseteq> {..<n}" using simulatesD(1) [OF assms] by (simp add: histories_ok_def)
  moreover have "lr_active (rp_records r ! f) \<longleftrightarrow> f \<in> dom m" if "f < n" for f
    using simulatesD(5) [OF assms that] by (auto simp: record_ok_def split: option.splits)
  ultimately show ?thesis
    using simulatesD(4) [OF assms] unfolding tracked_frames_def by blast
qed

lemma evictable_frames_sim:
  assumes "simulates n k (t, m) r"
  shows "evictable_frames r = Collect (may_go m)"
proof -
  have "dom m \<subseteq> {..<n}" using simulatesD(1) [OF assms] by (simp add: histories_ok_def)
  then have "lr_evitable (rp_records r ! f) = may_go m f" if "f \<in> dom m" for f
    using evitable_at_may_go [OF assms _ that] that by (auto simp: evitable_at_def)
  then show ?thesis
    using may_go_dom [of m] by (auto simp: evictable_frames_def tracked_frames_sim [OF assms])
qed

lemma spec_victim_cases:
  assumes "dom m \<subseteq> {..<n}"
  shows "case spec_victim n k m of None \<Rightarrow> Collect (may_go m) = {} | Some f \<Rightarrow> may_go m f"
proof -
  have sub: "may_go m f \<Longrightarrow> f < n" for f using may_go_dom assms by blast
  show ?thesis
    unfolding spec_victim_def Let_def
    using sub arg_min_list_in [of "filter (\<lambda>f. length (accesses m f) < k) (filter (may_go m) [0..<n])"
        "\<lambda>f. last (accesses m f)"]
      arg_min_list_in [of "filter (may_go m) [0..<n]" "\<lambda>f. kth_last k (accesses m f)"]
    by (auto simp: filter_empty_conv)
qed

interpretation lru: eviction_policy replacer_ok tracked_frames evictable_frames
  record_access set_evictable try_evict_exact try_evict_least
proof
  fix n r f b
  assume "replacer_ok n r"
  then obtain k t m where k: "1 < k" and sim: "simulates n k (t, m) r"
    by (auto simp: replacer_ok_def)
  have k0: "0 < k" using k by simp
  note sets = tracked_frames_sim evictable_frames_sim
  have dm: "dom m \<subseteq> {..<n}" using simulatesD(1) [OF sim] by (simp add: histories_ok_def)
  have okI: "replacer_ok n r'" if "simulates n k s r'" for s r'
    using that k unfolding replacer_ok_def by blast
  show "evictable_frames r \<subseteq> tracked_frames r \<and> tracked_frames r \<subseteq> {..<n}"
    using dm by (auto simp: tracked_frames_sim [OF sim] evictable_frames_def)
  show "\<exists>r'. record_access f r = Inr r' \<and> replacer_ok n r'
      \<and> tracked_frames r' = insert f (tracked_frames r) \<and> evictable_frames r' = evictable_frames r"
    if f: "f < n"
  proof -
    obtain r' where r': "record_access f r = Inr r'"
      "simulates n k (Suc t, m(f \<mapsto> (accesses m f @ [Suc t], may_go m f))) r'"
      using record_access_simulates [OF sim f k] by blast
    have "Collect (may_go (m(f \<mapsto> (accesses m f @ [Suc t], may_go m f)))) = Collect (may_go m)"
      by (auto split: if_splits)
    then show ?thesis using r' okI [OF r'(2)] sets(1) [OF r'(2)] sets(2) [OF r'(2)] sets [OF sim]
      by simp
  qed
  show "\<exists>r'. set_evictable f b r = Inr r' \<and> replacer_ok n r' \<and> tracked_frames r' = tracked_frames r
      \<and> evictable_frames r' = (if f \<notin> tracked_frames r then evictable_frames r
          else if b then insert f (evictable_frames r) else evictable_frames r - {f})"
    if f: "f < n"
  proof -
    let ?m = "case m f of None \<Rightarrow> m | Some (ts, e) \<Rightarrow> m(f \<mapsto> (ts, b))"
    obtain r' where r': "set_evictable f b r = Inr r'" "simulates n k (t, ?m) r'"
      using set_evictable_simulates [OF sim f] by blast
    have "dom ?m = dom m" by (auto split: option.splits if_splits)
    moreover have "Collect (may_go ?m) = (if f \<notin> dom m then Collect (may_go m)
        else if b then insert f (Collect (may_go m)) else Collect (may_go m) - {f})"
      by (auto split: option.splits if_splits)
    ultimately show ?thesis
      using r' okI [OF r'(2)] sets(1) [OF r'(2)] sets(2) [OF r'(2)] sets [OF sim] by simp
  qed
  show "\<exists>r'. try_evict_exact f r = Inr (f \<in> evictable_frames r, r') \<and> replacer_ok n r'
      \<and> tracked_frames r' = (if f \<in> evictable_frames r then tracked_frames r - {f} else tracked_frames r)
      \<and> evictable_frames r' = evictable_frames r - {f}"
    if f: "f < n"
  proof -
    obtain r' where r': "try_evict_exact f r = Inr (may_go m f, r')"
      "simulates n k (t, if may_go m f then m(f := None) else m) r'"
      using try_evict_exact_simulates [OF sim f k0] by blast
    have "Collect (may_go (m(f := None))) = Collect (may_go m) - {f}" by (auto split: if_splits)
    then show ?thesis
      using r' okI [OF r'(2)] sets(1) [OF r'(2)] sets(2) [OF r'(2)] sets [OF sim]
      by (auto split: if_splits)
  qed
  show "\<exists>v r'. try_evict_least r = Inr (v, r') \<and> replacer_ok n r'
      \<and> (case v of None \<Rightarrow> evictable_frames r = {} \<and> tracked_frames r' = tracked_frames r
            \<and> evictable_frames r' = {}
         | Some f \<Rightarrow> f \<in> evictable_frames r \<and> tracked_frames r' = tracked_frames r - {f}
             \<and> evictable_frames r' = evictable_frames r - {f})"
  proof -
    obtain r' where r': "try_evict_least r = Inr (spec_victim n k m, r')"
      "simulates n k (t, case spec_victim n k m of None \<Rightarrow> m | Some f \<Rightarrow> m(f := None)) r'"
      using try_evict_least_simulates [OF sim k0] by blast
    have "Collect (may_go (m(f := None))) = Collect (may_go m) - {f}" for f
      by (auto split: if_splits)
    then show ?thesis
      using r' okI [OF r'(2)] sets(1) [OF r'(2)] sets(2) [OF r'(2)] sets [OF sim]
        spec_victim_cases [OF dm, of k]
      by (cases "spec_victim n k m") auto
  qed
qed

lemma new_replacer_ok:
  "1 < k \<Longrightarrow> replacer_ok (length garbage) (new_replacer garbage k)
    \<and> tracked_frames (new_replacer garbage k) = {}"
  using new_replacer_simulates [of garbage k]
    tracked_frames_sim [OF new_replacer_simulates [of garbage k]]
  by (auto simp: replacer_ok_def)

section \<open>Traces\<close>

lemma lru_apply_simulates:
  assumes "simulates n k s r" "1 < k" "op_frame c < n"
  shows "\<exists>r'. lru_apply c r = Inr (fst (spec_op n k c s), r')
    \<and> simulates n k (snd (spec_op n k c s)) r'"
proof -
  obtain t m where s: "s = (t, m)" by (cases s)
  note sim = assms(1) [unfolded s]
  have k: "0 < k" using assms(2) by simp
  show ?thesis
  proof (cases c)
    case (Access f)
    then show ?thesis using record_access_simulates [OF sim _ assms(2), of f] assms(3) s by auto
  next
    case (Allow f b)
    then show ?thesis using set_evictable_simulates [OF sim, of f b] assms(3) s by auto
  next
    case (Evict_frame f)
    then show ?thesis using try_evict_exact_simulates [OF sim _ k, of f] assms(3) s by auto
  next
    case Evict
    then show ?thesis using try_evict_least_simulates [OF sim k] s
      by (cases "spec_victim n k m") auto
  qed
qed

lemma lru_run_simulates:
  assumes "1 < k"
  shows "simulates n k s r \<Longrightarrow> \<forall>c\<in>set cs. op_frame c < n \<Longrightarrow>
    lru_run cs r = Inr (spec_run n k cs s)"
proof (induction cs arbitrary: s r)
  case (Cons c cs)
  obtain v s' where sp: "spec_op n k c s = (v, s')" by (cases "spec_op n k c s")
  obtain r' where "lru_apply c r = Inr (v, r')" "simulates n k s' r'"
    using lru_apply_simulates [OF Cons.prems(1) assms, of c] Cons.prems(2) sp by auto
  then show ?case using Cons.IH [of s' r'] Cons.prems(2) sp by simp
qed simp

text \<open>
  C35: The replacer implements LRU-K: for every sequence of accesses, permissions and
  evictions on frames of the pool, the chains of the code report exactly the victims
  that the policy on complete access histories chooses, no dangling node is followed,
  and no counter or index goes out of range (\<open>2 \<le> k\<close>; the pools of the program use 5).
\<close>

theorem replacer_implements_lru_k:
  assumes "1 < k" "\<forall>c\<in>set cs. op_frame c < length garbage"
  shows "lru_run cs (new_replacer garbage k)
    = Inr (spec_run (length garbage) k cs (0, Map.empty))"
  using lru_run_simulates [OF assms(1) new_replacer_simulates assms(2)] .

definition blank_record :: lru_record where
  "blank_record = \<lparr>lr_evitable = False, lr_visits = 0, lr_active = False,
     lr_head = None, lr_tail = None, lr_node = None\<rparr>"

lemma replacer_implements_lru_k_witness:
  "lru_run [Access 0, Access 1, Access 2, Access 0, Access 1, Allow 0 True, Allow 1 True,
      Evict, Allow 2 True, Evict, Evict_frame 0, Evict]
     (new_replacer (replicate 3 blank_record) 2)
   = Inr [None, None, None, None, None, None, None, Some 0, None, Some 2, None, Some 1]"
  by (subst replacer_implements_lru_k) (simp, simp, code_simp)

end
