(* ===== verification/Disk_Manager.thy ===== *)
theory Disk_Manager
  imports Prelude
begin

text \<open>
  The page file of \<^verbatim>\<open>storage/src/disk_manager.cpp\<close>: an internal page with the metadata and
  the raw data of the client, followed by the pages, numbered from 1, with the list of empty
  pages threaded through their first four bytes. Every access of the code is one page at a
  page offset, so the file is a list of pages; a write behind the end leaves zeros between
  (\<^verbatim>\<open>fseek\<close> past the end). The lemmas show that the allocator never hands out a page
  that is in use, that no operation touches the other pages, and that closing and opening
  the file restores the state.
\<close>

section \<open>Little-endian numbers\<close>

type_synonym page = "8 word list"

definition page_size :: nat where "page_size = 4096"

definition metadata_size :: nat where "metadata_size = 20"

definition enc :: "nat \<Rightarrow> nat \<Rightarrow> 8 word list" where
  "enc w x = map (\<lambda>i. of_nat (x div 256 ^ i)) [0..<w]"

fun dec :: "8 word list \<Rightarrow> nat" where
  "dec [] = 0"
| "dec (b # bs) = unat b + 256 * dec bs"

lemma length_enc [simp]: "length (enc w x) = w"
  by (simp add: enc_def)

lemma enc_Suc: "enc (Suc w) x = of_nat x # enc w (x div 256)"
  unfolding enc_def by (simp add: upt_conv_Cons map_Suc_upt [symmetric] div_mult2_eq del: upt_Suc)

lemma dec_enc: "dec (enc w x) = x mod 256 ^ w"
proof (induction w arbitrary: x)
  case 0
  show ?case by (simp add: enc_def)
next
  case (Suc w)
  have "x mod (256 * 256 ^ w) = 256 * (x div 256 mod 256 ^ w) + x mod 256"
    by (rule mod_mult2_eq)
  then show ?case using Suc.IH [of "x div 256"]
    by (simp add: enc_Suc unat_of_nat take_bit_eq_mod)
qed

lemma dec_enc_id: "x < 256 ^ w \<Longrightarrow> dec (enc w x) = x"
  by (simp add: dec_enc)

section \<open>State and operations\<close>

record disk =
  dk_first :: nat
  dk_total :: nat
  dk_used :: nat
  dk_raw :: "8 word list"
  dk_file :: "page list"
  dk_open :: bool
  dk_new :: bool
  dk_buf :: page

definition zero_page :: page where
  "zero_page = replicate page_size 0"

definition put_page :: "nat \<Rightarrow> page \<Rightarrow> page list \<Rightarrow> page list" where
  "put_page p data file = (if p < length file then file[p := data]
     else file @ replicate (p - length file) zero_page @ [data])"

text \<open>\<open>DiskManager::ReadPage\<close> leaves the buffer alone where the file holds no such page.\<close>

definition read_page :: "nat \<Rightarrow> page \<Rightarrow> disk \<Rightarrow> page" where
  "read_page p old d = (if dk_open d \<and> p < length (dk_file d) then dk_file d ! p else old)"

definition write_page :: "nat \<Rightarrow> page \<Rightarrow> disk \<Rightarrow> disk" where
  "write_page p data d = (if dk_open d then d\<lparr>dk_file := put_page p data (dk_file d)\<rparr> else d)"

definition fully_flush :: "disk \<Rightarrow> disk" where
  "fully_flush d = (if \<not> dk_open d then d else
     d\<lparr>dk_file := put_page 0
         (enc 4 (dk_first d) @ enc 8 (dk_total d) @ enc 8 (dk_used d) @ dk_raw d) (dk_file d)\<rparr>)"

definition close_disk :: "disk \<Rightarrow> disk" where
  "close_disk d = (if dk_open d then (fully_flush d)\<lparr>dk_open := False\<rparr> else d)"

text \<open>
  The constructor: \<open>stored\<close> is the file found under the path (at least the internal page),
  \<open>buf\<close> the uninitialised page buffer.
\<close>

definition new_disk :: "bool \<Rightarrow> page list option \<Rightarrow> page \<Rightarrow> disk" where
  "new_disk renew stored buf = (case (if renew then None else stored) of
     None \<Rightarrow> (fully_flush \<lparr>dk_first = 0, dk_total = 0, dk_used = 0,
         dk_raw = replicate (page_size - metadata_size) 0,
         dk_file = [], dk_open = True, dk_new = True, dk_buf = buf\<rparr>)
   | Some file \<Rightarrow> (let h = hd file in
       \<lparr>dk_first = dec (take 4 h), dk_total = dec (take 8 (drop 4 h)),
        dk_used = dec (take 8 (drop 12 h)), dk_raw = drop metadata_size h,
        dk_file = file, dk_open = True, dk_new = False, dk_buf = buf\<rparr>))"

definition alloc_page :: "disk \<Rightarrow> (nat \<times> disk) result" where
  "alloc_page d = (if dk_first d = 0
     then (if dk_open d
       then Inr ((dk_total d + 1) mod 2 ^ 32, d\<lparr>dk_total := dk_total d + 1,
              dk_file := dk_file d @ [dk_buf d], dk_used := dk_used d + 1\<rparr>)
       else Inl Undefined)
     else (let b = read_page (dk_first d) (dk_buf d) d
       in Inr (dk_first d, d\<lparr>dk_buf := b, dk_first := dec (take 4 b), dk_used := dk_used d + 1\<rparr>)))"

definition dealloc_page :: "nat \<Rightarrow> disk \<Rightarrow> disk" where
  "dealloc_page p d = (let b = enc 4 (dk_first d) @ drop 4 (dk_buf d)
     in (write_page p b (d\<lparr>dk_buf := b\<rparr>))\<lparr>dk_first := p, dk_used := dk_used d - 1\<rparr>)"

section \<open>The list of empty pages\<close>

text \<open>\<open>empty_chain file p ids\<close>: following the links from \<open>p\<close> visits exactly \<open>ids\<close>.\<close>

fun empty_chain :: "page list \<Rightarrow> nat \<Rightarrow> nat list \<Rightarrow> bool" where
  "empty_chain file p [] = (p = 0)"
| "empty_chain file p (x # xs) =
     (p = x \<and> 0 < x \<and> x < length file \<and> empty_chain file (dec (take 4 (file ! x))) xs)"

text \<open>The empty pages, read off the file by following the links (\<open>n\<close> bounds the steps).\<close>

fun walk_empty :: "nat \<Rightarrow> page list \<Rightarrow> nat \<Rightarrow> nat list" where
  "walk_empty 0 file p = []"
| "walk_empty (Suc n) file p =
     (if p = 0 then [] else p # walk_empty n file (dec (take 4 (file ! p))))"

definition empty_pages :: "disk \<Rightarrow> nat list" where
  "empty_pages d = walk_empty (dk_total d) (dk_file d) (dk_first d)"

definition live_pages :: "disk \<Rightarrow> nat set" where
  "live_pages d = {1..dk_total d} - set (empty_pages d)"

definition disk_ok :: "disk \<Rightarrow> nat list \<Rightarrow> bool" where
  "disk_ok d ids \<longleftrightarrow> dk_open d \<and> length (dk_file d) = Suc (dk_total d) \<and> dk_total d < 2 ^ 32
     \<and> empty_chain (dk_file d) (dk_first d) ids \<and> distinct ids
     \<and> dk_used d + length ids = dk_total d
     \<and> (\<forall>x\<in>set (dk_file d). length x = page_size) \<and> length (dk_buf d) = page_size
     \<and> length (dk_raw d) = page_size - metadata_size"

definition disk_inv :: "disk \<Rightarrow> bool" where
  "disk_inv d \<longleftrightarrow> disk_ok d (empty_pages d)"

lemma empty_chain_set: "empty_chain file p ids \<Longrightarrow> set ids \<subseteq> {1..<length file}"
  by (induction ids arbitrary: p) auto

lemma walk_empty_chain: "empty_chain file p ids \<Longrightarrow> length ids \<le> n \<Longrightarrow> walk_empty n file p = ids"
proof (induction ids arbitrary: p n)
  case Nil
  then show ?case by (cases n) auto
next
  case (Cons x xs)
  then show ?case by (cases n) auto
qed

lemma disk_ok_empty_pages: "disk_ok d ids \<Longrightarrow> empty_pages d = ids"
  unfolding empty_pages_def by (rule walk_empty_chain) (auto simp: disk_ok_def)

lemma disk_okI: "disk_ok d ids \<Longrightarrow> disk_inv d"
  by (simp add: disk_inv_def disk_ok_empty_pages)

lemma empty_chain_update:
  "empty_chain file p ids \<Longrightarrow> q \<notin> set ids \<Longrightarrow> empty_chain (file[q := x]) p ids"
  by (induction ids arbitrary: p) auto

lemma empty_chain_append: "empty_chain file p ids \<Longrightarrow> empty_chain (file @ xs) p ids"
  by (induction ids arbitrary: p) (auto simp: nth_append)

lemma live_bound: "disk_inv d \<Longrightarrow> p \<in> live_pages d \<Longrightarrow>
    0 < p \<and> p < length (dk_file d) \<and> p \<le> dk_total d \<and> p \<notin> set (empty_pages d)"
  by (auto simp: live_pages_def disk_inv_def disk_ok_def)

lemma in_set_listupdate: "x \<in> set (xs[i := y]) \<Longrightarrow> x \<in> set xs \<or> x = y"
  using set_update_subset_insert by fastforce

section \<open>Operations keep the file well formed\<close>

lemma new_disk_ok:
  assumes "length buf = page_size"
  shows "disk_ok (new_disk True stored buf) []" "live_pages (new_disk True stored buf) = {}"
proof -
  show "disk_ok (new_disk True stored buf) []"
    using assms by (simp add: new_disk_def fully_flush_def put_page_def disk_ok_def
        metadata_size_def page_size_def)
  show "live_pages (new_disk True stored buf) = {}"
    by (simp add: live_pages_def new_disk_def fully_flush_def)
qed

lemma write_page_ok:
  assumes d: "disk_ok d ids" and p: "p \<le> dk_total d" "p \<notin> set ids" and l: "length data = page_size"
  shows "disk_ok (write_page p data d) ids"
    "dk_file (write_page p data d) = (dk_file d)[p := data]"
proof -
  have len: "p < length (dk_file d)" using d p by (simp add: disk_ok_def)
  then show f: "dk_file (write_page p data d) = (dk_file d)[p := data]"
    using d by (simp add: write_page_def put_page_def disk_ok_def)
  show "disk_ok (write_page p data d) ids"
    using d p l len empty_chain_update [of "dk_file d" "dk_first d" ids p data]
    unfolding disk_ok_def by (auto simp: write_page_def put_page_def dest: in_set_listupdate)
qed

text \<open>
  The main facts on the allocator: a new page was not in use, the pages in use keep their
  content, and a page given back is the next one handed out.
\<close>

lemma alloc_page_ok:
  assumes d: "disk_ok d ids" and room: "dk_total d + 1 < 2 ^ 32"
  obtains p d' where "alloc_page d = Inr (p, d')" "p \<notin> live_pages d" "0 < p" "p < 2 ^ 32"
    "live_pages d' = insert p (live_pages d)" "disk_ok d' (tl ids)"
    "ids \<noteq> [] \<Longrightarrow> p = hd ids" "\<And>q. q \<in> live_pages d \<Longrightarrow> dk_file d' ! q = dk_file d ! q"
proof (cases ids)
  case Nil
  have z: "dk_first d = 0" using d Nil by (simp add: disk_ok_def)
  let ?d = "d\<lparr>dk_total := dk_total d + 1, dk_file := dk_file d @ [dk_buf d],
    dk_used := dk_used d + 1\<rparr>"
  have ok: "disk_ok ?d (tl ids)"
    using d room z Nil by (auto simp: disk_ok_def)
  have ep: "empty_pages d = []" "empty_pages ?d = []"
    using disk_ok_empty_pages [OF d] disk_ok_empty_pages [OF ok] Nil by auto
  have a: "alloc_page d = Inr (dk_total d + 1, ?d)"
    using d z room by (simp add: alloc_page_def disk_ok_def)
  have lv: "live_pages d = {1..dk_total d}" "live_pages ?d = {1..dk_total d + 1}"
    using ep by (simp_all add: live_pages_def)
  show thesis
  proof (rule that [OF a])
    show "disk_ok ?d (tl ids)" by (rule ok)
    show "dk_file ?d ! q = dk_file d ! q" if "q \<in> live_pages d" for q
      using that d lv(1) by (simp add: nth_append disk_ok_def)
  qed (use lv room Nil in auto)
next
  case (Cons x xs)
  have x: "dk_first d = x" "0 < x" "x < length (dk_file d)" "dk_open d"
    "empty_chain (dk_file d) (dec (take 4 (dk_file d ! x))) xs"
    using d Cons by (auto simp: disk_ok_def)
  let ?b = "dk_file d ! x"
  let ?d = "d\<lparr>dk_buf := ?b, dk_first := dec (take 4 ?b), dk_used := dk_used d + 1\<rparr>"
  have a: "alloc_page d = Inr (x, ?d)"
    using x by (simp add: alloc_page_def read_page_def Let_def)
  have ok: "disk_ok ?d xs"
    using d x Cons by (auto simp: disk_ok_def)
  have ep: "empty_pages d = x # xs" "empty_pages ?d = xs"
    using disk_ok_empty_pages [OF d] disk_ok_empty_pages [OF ok] Cons by auto
  have dst: "x \<notin> set xs" "x \<le> dk_total d" "dk_total d < 2 ^ 32"
    using d Cons x by (auto simp: disk_ok_def)
  show thesis
  proof (rule that [OF a])
    show "disk_ok ?d (tl ids)" using ok Cons by simp
    show "live_pages ?d = insert x (live_pages d)"
      using ep dst x(2) by (auto simp: live_pages_def)
  qed (use ep dst x(2) Cons in \<open>auto simp: live_pages_def\<close>)
qed

lemma dealloc_page_ok:
  assumes d: "disk_ok d ids" and p: "p \<in> live_pages d"
  shows "disk_ok (dealloc_page p d) (p # ids)"
    "live_pages (dealloc_page p d) = live_pages d - {p}"
    "\<And>q. q \<noteq> p \<Longrightarrow> dk_file (dealloc_page p d) ! q = dk_file d ! q"
proof -
  have ep: "empty_pages d = ids" by (rule disk_ok_empty_pages [OF d])
  have b: "0 < p" "p < length (dk_file d)" "p \<le> dk_total d" "p \<notin> set ids"
    using live_bound [OF disk_okI [OF d] p] ep by auto
  let ?b = "enc 4 (dk_first d) @ drop 4 (dk_buf d)"
  have lb: "length ?b = page_size" using d by (simp add: disk_ok_def page_size_def)
  have fl: "dk_file (dealloc_page p d) = (dk_file d)[p := ?b]"
    using d b by (simp add: dealloc_page_def Let_def write_page_def put_page_def disk_ok_def)
  have other: "dk_first (dealloc_page p d) = p" "dk_total (dealloc_page p d) = dk_total d"
    "dk_used (dealloc_page p d) = dk_used d - 1" "dk_open (dealloc_page p d)"
    "dk_buf (dealloc_page p d) = ?b" "dk_raw (dealloc_page p d) = dk_raw d"
    using d by (simp_all add: dealloc_page_def Let_def write_page_def disk_ok_def)
  have "dk_first d < 256 ^ 4"
    using d empty_chain_set [of "dk_file d" "dk_first d" ids]
    by (cases ids) (auto simp: disk_ok_def)
  then have link: "dec (take 4 ?b) = dk_first d" by (simp add: dec_enc)
  have chain: "empty_chain ((dk_file d)[p := ?b]) p (p # ids)"
    using b link d empty_chain_update [of "dk_file d" "dk_first d" ids p ?b]
    by (simp add: disk_ok_def)
  have "set (p # ids) \<subseteq> {1..dk_total d}"
    using b d empty_chain_set [of "dk_file d" "dk_first d" ids] by (auto simp: disk_ok_def)
  then have "card (set (p # ids)) \<le> dk_total d"
    using card_mono [of "{1..dk_total d}" "set (p # ids)"] by simp
  then have cnt: "length (p # ids) \<le> dk_total d"
    using d b distinct_card [of "p # ids"] by (simp add: disk_ok_def)
  show ok: "disk_ok (dealloc_page p d) (p # ids)"
    using d b lb fl other chain cnt unfolding disk_ok_def
    by (auto dest!: in_set_listupdate simp del: empty_chain.simps)
  show "live_pages (dealloc_page p d) = live_pages d - {p}"
    using disk_ok_empty_pages [OF ok] ep other by (auto simp: live_pages_def)
  show "dk_file (dealloc_page p d) ! q = dk_file d ! q" if "q \<noteq> p" for q
    using that fl by simp
qed

lemma write_page_live:
  assumes d: "disk_inv d" and p: "p \<in> live_pages d" and l: "length data = page_size"
  shows "disk_inv (write_page p data d)" "live_pages (write_page p data d) = live_pages d"
    "read_page q old (write_page p data d) = (if q = p then data else read_page q old d)"
proof -
  have b: "p \<le> dk_total d" "p \<notin> set (empty_pages d)" "p < length (dk_file d)"
    using live_bound [OF d p] by auto
  note w = write_page_ok [OF d [unfolded disk_inv_def] b(1,2) l]
  show "disk_inv (write_page p data d)" using disk_okI [OF w(1)] .
  have op: "dk_open (write_page p data d)" "dk_total (write_page p data d) = dk_total d" "dk_open d"
    using d by (simp_all add: write_page_def disk_inv_def disk_ok_def)
  show "live_pages (write_page p data d) = live_pages d"
    using disk_ok_empty_pages [OF w(1)] op by (simp add: live_pages_def)
  show "read_page q old (write_page p data d) = (if q = p then data else read_page q old d)"
    using w(2) op b(3) by (simp add: read_page_def)
qed

section \<open>Closing and opening again\<close>

definition reopen_disk :: "page \<Rightarrow> disk \<Rightarrow> disk" where
  "reopen_disk buf d = new_disk False (Some (dk_file (close_disk d))) buf"

definition disk_header :: "disk \<Rightarrow> page" where
  "disk_header d = enc 4 (dk_first d) @ enc 8 (dk_total d) @ enc 8 (dk_used d) @ dk_raw d"

lemma reopen_disk_restores:
  assumes d: "disk_ok d ids"
  shows "reopen_disk buf d = d\<lparr>dk_file := (dk_file d)[0 := disk_header d],
    dk_new := False, dk_buf := buf\<rparr>"
proof -
  have first: "dk_first d < 256 ^ 4"
    using d empty_chain_set [of "dk_file d" "dk_first d" ids]
    by (cases ids) (auto simp: disk_ok_def)
  have cnts: "dk_total d < 256 ^ 8" "dk_used d < 256 ^ 8"
    using d by (auto simp: disk_ok_def)
  have ne: "dk_file d \<noteq> []" using d by (auto simp: disk_ok_def)
  have fl: "dk_file (close_disk d) = (dk_file d)[0 := disk_header d]"
    using d ne by (simp add: close_disk_def fully_flush_def put_page_def disk_ok_def disk_header_def)
  have hd: "hd ((dk_file d)[0 := disk_header d]) = disk_header d"
    using ne by (cases "dk_file d") auto
  have "dec (take 4 (disk_header d)) = dk_first d"
    "dec (take 8 (drop 4 (disk_header d))) = dk_total d"
    "dec (take 8 (drop 12 (disk_header d))) = dk_used d"
    "drop metadata_size (disk_header d) = dk_raw d"
    using first cnts by (simp_all add: disk_header_def dec_enc metadata_size_def)
  moreover have "dk_open d" using d by (simp add: disk_ok_def)
  ultimately show ?thesis
    by (intro disk.equality) (simp_all add: reopen_disk_def new_disk_def Let_def fl hd)
qed

lemma reopen_disk_ok:
  assumes d: "disk_ok d ids" and l: "length buf = page_size"
  shows "disk_ok (reopen_disk buf d) ids" "live_pages (reopen_disk buf d) = live_pages d"
    "p \<noteq> 0 \<Longrightarrow> read_page p old (reopen_disk buf d) = read_page p old d"
proof -
  have "0 \<notin> set ids" using d empty_chain_set by (fastforce simp: disk_ok_def)
  then have chain: "empty_chain ((dk_file d)[0 := disk_header d]) (dk_first d) ids"
    using d empty_chain_update by (simp add: disk_ok_def)
  have "length (disk_header d) = page_size"
    using d by (simp add: disk_header_def disk_ok_def page_size_def metadata_size_def)
  then show ok: "disk_ok (reopen_disk buf d) ids"
    unfolding reopen_disk_restores [OF d]
    using d l chain by (auto simp: disk_ok_def dest!: in_set_listupdate)
  show "live_pages (reopen_disk buf d) = live_pages d"
    using disk_ok_empty_pages [OF ok] disk_ok_empty_pages [OF d]
    by (simp add: live_pages_def reopen_disk_restores [OF d])
  show "p \<noteq> 0 \<Longrightarrow> read_page p old (reopen_disk buf d) = read_page p old d"
    unfolding reopen_disk_restores [OF d] by (simp add: read_page_def)
qed

lemma fully_flush_ok:
  assumes d: "disk_inv d"
  shows "disk_inv (fully_flush d)" "live_pages (fully_flush d) = live_pages d"
    "0 < p \<Longrightarrow> read_page p old (fully_flush d) = read_page p old d"
proof -
  let ?ids = "empty_pages d"
  have ok: "disk_ok d ?ids" using d by (simp add: disk_inv_def)
  have fl: "fully_flush d = write_page 0 (disk_header d) d"
    using ok by (simp add: fully_flush_def write_page_def disk_header_def disk_ok_def)
  have "length (disk_header d) = page_size"
    using ok by (simp add: disk_header_def disk_ok_def page_size_def metadata_size_def)
  moreover have "0 \<notin> set ?ids" using ok empty_chain_set by (fastforce simp: disk_ok_def)
  ultimately have w: "disk_ok (fully_flush d) ?ids"
    "dk_file (fully_flush d) = (dk_file d)[0 := disk_header d]"
    using write_page_ok [OF ok, of 0 "disk_header d"] fl by simp_all
  show "disk_inv (fully_flush d)" using disk_okI [OF w(1)] .
  have op: "dk_open (fully_flush d) = dk_open d" "dk_total (fully_flush d) = dk_total d"
    by (simp_all add: fully_flush_def)
  show "live_pages (fully_flush d) = live_pages d"
    using disk_ok_empty_pages [OF w(1)] op by (simp add: live_pages_def)
  show "0 < p \<Longrightarrow> read_page p old (fully_flush d) = read_page p old d"
    using w(2) op by (simp add: read_page_def)
qed

section \<open>The interface of a page allocator\<close>

text \<open>
  What the buffer pool relies on: \<open>live\<close> are the pages in use, \<open>get\<close> what is stored in
  one of them, \<open>room\<close> says that the page numbers are not exhausted.
\<close>

locale page_store =
  fixes inv :: "'d \<Rightarrow> bool" and room :: "'d \<Rightarrow> bool" and live :: "'d \<Rightarrow> nat set"
    and alloc :: "'d \<Rightarrow> (nat \<times> 'd) result" and free :: "nat \<Rightarrow> 'd \<Rightarrow> 'd"
    and get :: "nat \<Rightarrow> 'd \<Rightarrow> page" and put :: "nat \<Rightarrow> page \<Rightarrow> 'd \<Rightarrow> 'd"
  assumes alloc_ok: "inv d \<Longrightarrow> room d \<Longrightarrow> \<exists>p d'. alloc d = Inr (p, d') \<and> inv d'
      \<and> 0 < p \<and> p \<notin> live d \<and> live d' = insert p (live d) \<and> (\<forall>q\<in>live d. get q d' = get q d)"
    and free_ok: "inv d \<Longrightarrow> p \<in> live d \<Longrightarrow> inv (free p d) \<and> live (free p d) = live d - {p}
      \<and> (\<forall>q. q \<noteq> p \<longrightarrow> get q (free p d) = get q d)"
    and put_ok: "inv d \<Longrightarrow> p \<in> live d \<Longrightarrow> length x = page_size \<Longrightarrow> inv (put p x d)
      \<and> live (put p x d) = live d \<and> (\<forall>q. get q (put p x d) = (if q = p then x else get q d))"
    and get_size: "inv d \<Longrightarrow> p \<in> live d \<Longrightarrow> length (get p d) = page_size"
begin

lemma alloc_new:
  assumes "inv d" "room d" "alloc d = Inr (p, d')"
  shows "inv d'" "0 < p" "p \<notin> live d" "live d' = insert p (live d)"
    "q \<in> live d \<Longrightarrow> get q d' = get q d"
  using alloc_ok [OF assms(1,2)] assms(3) by auto

lemma two_allocs_differ:
  assumes "inv d" "room d" "alloc d = Inr (p, d')" "room d'" "alloc d' = Inr (q, d'')"
  shows "p \<noteq> q" "q \<notin> live d"
  using alloc_new [OF assms(1-3)] alloc_new(3) [OF alloc_new(1) [OF assms(1-3)] assms(4,5)] by auto

text \<open>Writing a page in use back when its content did not change is invisible.\<close>

lemma put_same:
  "inv d \<Longrightarrow> p \<in> live d \<Longrightarrow> get q (put p (get p d) d) = get q d"
  using put_ok [of d p "get p d"] get_size by auto

end

definition stored_page :: "nat \<Rightarrow> disk \<Rightarrow> page" where
  "stored_page p d = read_page p zero_page d"

definition disk_room :: "disk \<Rightarrow> bool" where
  "disk_room d \<longleftrightarrow> dk_total d + 1 < 2 ^ 32"

lemma disk_inv_open: "disk_inv d \<Longrightarrow> dk_open d"
  by (simp add: disk_inv_def disk_ok_def)

lemma alloc_page_store:
  assumes "disk_inv d" "disk_room d"
  shows "\<exists>p d'. alloc_page d = Inr (p, d') \<and> disk_inv d' \<and> 0 < p \<and> p \<notin> live_pages d
    \<and> live_pages d' = insert p (live_pages d)
    \<and> (\<forall>q\<in>live_pages d. stored_page q d' = stored_page q d)"
proof -
  obtain p d' where a: "alloc_page d = Inr (p, d')" "p \<notin> live_pages d" "0 < p"
    "live_pages d' = insert p (live_pages d)" "disk_ok d' (tl (empty_pages d))"
    "\<And>q. q \<in> live_pages d \<Longrightarrow> dk_file d' ! q = dk_file d ! q"
    using alloc_page_ok [OF assms(1) [unfolded disk_inv_def], of thesis] assms(2)
    by (auto simp: disk_room_def)
  have inv: "disk_inv d'" using disk_okI [OF a(5)] .
  have "stored_page q d' = stored_page q d" if q: "q \<in> live_pages d" for q
    using a(6) [OF q] live_bound [OF assms(1) q] live_bound [OF inv, of q] a(4) q
      disk_inv_open [OF assms(1)] disk_inv_open [OF inv]
    by (simp add: stored_page_def read_page_def)
  then show ?thesis using a inv by blast
qed

lemma dealloc_page_store:
  assumes "disk_inv d" "p \<in> live_pages d"
  shows "disk_inv (dealloc_page p d) \<and> live_pages (dealloc_page p d) = live_pages d - {p}
    \<and> (\<forall>q. q \<noteq> p \<longrightarrow> stored_page q (dealloc_page p d) = stored_page q d)"
proof -
  note f = dealloc_page_ok [OF assms(1) [unfolded disk_inv_def] assms(2)]
  have inv: "disk_inv (dealloc_page p d)" using disk_okI [OF f(1)] .
  have "dk_total (dealloc_page p d) = dk_total d"
    by (simp add: dealloc_page_def Let_def write_page_def)
  then have "length (dk_file (dealloc_page p d)) = length (dk_file d)"
    using assms(1) inv by (simp add: disk_inv_def disk_ok_def)
  then show ?thesis
    using f(2,3) inv disk_inv_open [OF assms(1)] disk_inv_open [OF inv]
    by (simp add: stored_page_def read_page_def)
qed

interpretation dk: page_store disk_inv disk_room live_pages alloc_page dealloc_page
  stored_page write_page
proof unfold_locales
  fix d p
  assume "disk_inv d" "p \<in> live_pages d"
  then show "length (stored_page p d) = page_size"
    using live_bound [of d p]
    by (auto simp: stored_page_def read_page_def disk_inv_def disk_ok_def zero_page_def)
qed (use alloc_page_store dealloc_page_store write_page_live in \<open>auto simp: stored_page_def\<close>)

section \<open>Histories of a page file\<close>

text \<open>
  \<open>page_history d m\<close>: \<open>d\<close> is reached from a new file by allocating pages, giving back or
  writing pages in use, and closing and opening; \<open>m\<close> maps the pages in use to what was
  last written to them (\<open>None\<close> after the allocation).
\<close>

inductive page_history :: "disk \<Rightarrow> (nat \<rightharpoonup> page option) \<Rightarrow> bool" where
  created: "length buf = page_size \<Longrightarrow> page_history (new_disk True stored buf) Map.empty"
| allocated: "page_history d m \<Longrightarrow> disk_room d \<Longrightarrow> alloc_page d = Inr (p, d') \<Longrightarrow>
    page_history d' (m(p \<mapsto> None))"
| given_back: "page_history d m \<Longrightarrow> p \<in> dom m \<Longrightarrow>
    page_history (dealloc_page p d) (m(p := None))"
| written: "page_history d m \<Longrightarrow> p \<in> dom m \<Longrightarrow> length x = page_size \<Longrightarrow>
    page_history (write_page p x d) (m(p \<mapsto> Some x))"
| opened_again: "page_history d m \<Longrightarrow> length buf = page_size \<Longrightarrow>
    page_history (reopen_disk buf d) m"

lemma page_history_sound:
  assumes "page_history d m"
  shows "disk_inv d \<and> live_pages d = dom m
    \<and> (\<forall>p x. m p = Some (Some x) \<longrightarrow> stored_page p d = x)"
  using assms
proof (induction rule: page_history.induct)
  case (created buf stored)
  then show ?case using new_disk_ok [of buf stored] disk_okI by auto
next
  case (allocated d m p d')
  then have "p \<notin> dom m" using dk.alloc_new(3) by blast
  note a = dk.alloc_new [OF _ allocated.hyps(2,3)]
  have "stored_page q d' = x" if "m q = Some (Some x)" for q x
    using a(5) [of q] that allocated.IH by auto
  then show ?case using allocated.IH a(1,4) by auto
next
  case (given_back d m p)
  then show ?case using dk.free_ok [of d p] by (auto split: if_splits)
next
  case (written d m p x)
  then show ?case using dk.put_ok [of d p x] by (auto split: if_splits)
next
  case (opened_again d m buf)
  then have d: "disk_ok d (empty_pages d)" "live_pages d = dom m" by (auto simp: disk_inv_def)
  note r = reopen_disk_ok [OF d(1) opened_again.hyps(2)]
  have "0 \<notin> dom m" using live_bound [of d 0] opened_again.IH by auto
  then have "stored_page p (reopen_disk buf d) = stored_page p d" if "m p \<noteq> None" for p
    using r(3) that by (cases "p = 0") (auto simp: stored_page_def)
  then show ?case using opened_again.IH r(2) disk_okI [OF r(1)] by auto
qed

text \<open>
  C37: Whatever is allocated, given back and written, and however often the file is closed
  and opened, a page in use reads back what was last written to it.
\<close>

theorem pages_keep_their_data:
  assumes "page_history d m" "m p = Some (Some x)"
  shows "read_page p old d = x"
proof -
  have "disk_inv d" "p \<in> live_pages d" "stored_page p d = x"
    using page_history_sound [OF assms(1)] assms(2) by auto
  then show ?thesis
    using live_bound [of d p] disk_inv_open [of d] by (simp add: stored_page_def read_page_def)
qed

text \<open>The allocator hands out a page that is not in use and is not the internal page.\<close>

theorem allocated_page_is_unused:
  assumes "page_history d m" "disk_room d"
  shows "\<exists>p d'. alloc_page d = Inr (p, d') \<and> 0 < p \<and> p \<notin> dom m \<and> live_pages d' = insert p (dom m)"
  using dk.alloc_ok [of d] page_history_sound [OF assms(1)] assms(2) by blast

section \<open>Concrete histories\<close>

text \<open>A file with the pages 1 and 2, page 1 given back and taken again.\<close>

definition filled :: "8 word \<Rightarrow> page" where
  "filled b = replicate page_size b"

definition sample_file :: "disk \<times> (nat \<rightharpoonup> page option) \<Rightarrow> bool" where
  "sample_file s = (case s of (d, m) \<Rightarrow> page_history d m \<and> disk_room d
     \<and> m 1 = Some None \<and> m 2 = Some (Some (filled 7)))"

lemma length_filled [simp]: "length (filled b) = page_size" "length zero_page = page_size"
  by (simp_all add: filled_def zero_page_def)

lemma history_append:
  assumes "page_history d m" "dk_first d = 0" "dk_total d = n" "Suc n < 2 ^ 32"
  shows "\<exists>d'. page_history d' (m(Suc n \<mapsto> None)) \<and> dk_first d' = 0 \<and> dk_total d' = Suc n"
proof -
  have r: "disk_room d" "dk_open d"
    using assms page_history_sound [OF assms(1)] disk_inv_open by (auto simp: disk_room_def)
  then obtain d' where a: "alloc_page d = Inr (Suc n, d')" "dk_first d' = 0" "dk_total d' = Suc n"
    using assms by (simp add: alloc_page_def)
  show ?thesis using allocated [OF assms(1) r(1) a(1)] a(2,3) by blast
qed

lemma history_reuse:
  assumes "page_history d m" "dk_first d = p" "0 < p" "disk_room d"
  shows "\<exists>d'. page_history d' (m(p \<mapsto> None)) \<and> dk_total d' = dk_total d"
proof -
  obtain d' where a: "alloc_page d = Inr (p, d')" "dk_total d' = dk_total d"
    using assms by (simp add: alloc_page_def Let_def)
  show ?thesis using allocated [OF assms(1,4) a(1)] a(2) by blast
qed

lemma sample_file_exists: "\<exists>s. sample_file s"
proof -
  let ?d0 = "new_disk True None zero_page"
  have h0: "page_history ?d0 Map.empty" by (rule created) simp
  have t0: "dk_first ?d0 = 0" "dk_total ?d0 = 0"
    by (simp_all add: new_disk_def fully_flush_def)
  obtain d1 where d1: "page_history d1 [Suc 0 \<mapsto> None]" "dk_first d1 = 0" "dk_total d1 = Suc 0"
    using history_append [OF h0 t0] by auto
  obtain d2 where d2: "page_history d2 [Suc 0 \<mapsto> None, 2 \<mapsto> None]" "dk_total d2 = 2"
    using history_append [OF d1] by (simp add: numeral_2_eq_2 [symmetric]) blast
  let ?d3 = "write_page 2 (filled 7) d2"
  have d3: "page_history ?d3 [Suc 0 \<mapsto> None, 2 \<mapsto> Some (filled 7)]" "dk_total ?d3 = 2"
    using written [OF d2(1), of 2 "filled 7"] d2(2) by (simp_all add: write_page_def)
  let ?d4 = "dealloc_page (Suc 0) ?d3"
  have "[Suc 0 \<mapsto> None, 2 \<mapsto> Some (filled 7)] (Suc 0 := None) = [2 \<mapsto> Some (filled 7)]"
    by (simp add: fun_eq_iff)
  then have d4: "page_history ?d4 [2 \<mapsto> Some (filled 7)]" "dk_total ?d4 = 2" "dk_first ?d4 = Suc 0"
    using given_back [OF d3(1), of "Suc 0"] d3(2)
    by (simp_all add: dealloc_page_def Let_def write_page_def)
  then obtain d5 where d5: "page_history d5 [2 \<mapsto> Some (filled 7), Suc 0 \<mapsto> None]" "dk_total d5 = 2"
    using history_reuse [OF d4(1,3)] by (auto simp: disk_room_def)
  then have "sample_file (d5, [2 \<mapsto> Some (filled 7), Suc 0 \<mapsto> None])"
    by (simp add: sample_file_def disk_room_def)
  then show ?thesis ..
qed

lemma pages_keep_their_data_witness: "\<exists>d m. page_history d m \<and> m 2 = Some (Some (filled 7))
    \<and> (\<forall>old. read_page 2 old d = filled 7)"
proof -
  obtain d m where "page_history d m" "m 2 = Some (Some (filled 7))"
    using sample_file_exists by (auto simp: sample_file_def)
  then show ?thesis using pages_keep_their_data [of d m 2 "filled 7"] by blast
qed

lemma allocated_page_is_unused_witness: "\<exists>d m p d'. page_history d m \<and> m 2 \<noteq> None
    \<and> alloc_page d = Inr (p, d') \<and> p \<notin> dom m \<and> p \<noteq> 2"
proof -
  obtain d m where s: "page_history d m" "disk_room d" "m 2 = Some (Some (filled 7))"
    using sample_file_exists by (auto simp: sample_file_def)
  then show ?thesis using allocated_page_is_unused [OF s(1,2)] by fastforce
qed

text \<open>Closing the file and opening it again restores the metadata and every page.\<close>

theorem reopened_file_is_the_same:
  assumes "page_history d m" "length buf = page_size"
  shows "dk_first (reopen_disk buf d) = dk_first d \<and> dk_total (reopen_disk buf d) = dk_total d
    \<and> dk_used (reopen_disk buf d) = dk_used d \<and> dk_raw (reopen_disk buf d) = dk_raw d
    \<and> (\<forall>p old. p \<noteq> 0 \<longrightarrow> read_page p old (reopen_disk buf d) = read_page p old d)"
proof -
  have d: "disk_ok d (empty_pages d)"
    using page_history_sound [OF assms(1)] by (simp add: disk_inv_def)
  then show ?thesis
    using reopen_disk_restores [OF d, of buf] reopen_disk_ok(3) [OF d assms(2)] by simp
qed

lemma reopened_file_is_the_same_witness:
  "\<exists>d m. page_history d m \<and> m 2 \<noteq> None \<and> dk_used (reopen_disk zero_page d) = dk_used d"
proof -
  obtain d m where s: "page_history d m" "m 2 = Some (Some (filled 7))"
    using sample_file_exists by (auto simp: sample_file_def)
  then show ?thesis using reopened_file_is_the_same [OF s(1), of zero_page] by fastforce
qed

end
