(* ===== verification/Buffer_Pool.thy ===== *)
theory Buffer_Pool
  imports Replacer Disk_Manager
begin

text \<open>
  The buffer pool of \<^verbatim>\<open>storage/src/buffer_pool_manager.cpp\<close> with its page guards, on the
  replacer and the page file. The second half states what a client of guards sees: whatever
  is evicted, fetched again and flushed in between, a page reads back what was last written
  through a guard. The latches of \<^verbatim>\<open>ENABLE_ADVANCED_FEATURE\<close> are not modelled.
\<close>

section \<open>State\<close>

record frame =
  fr_mem :: page
  fr_dirty :: bool
  fr_pins :: nat
  fr_id :: nat

text \<open>The page table is a \<^verbatim>\<open>sjtu::map\<close>: pairs in the order of their keys.\<close>

type_synonym page_table = "(nat \<times> nat) list"

record pool =
  bp_frames :: "frame list"
  bp_replacer :: replacer
  bp_disk :: disk
  bp_table :: page_table
  bp_free :: "nat list"

definition table_insert :: "nat \<Rightarrow> nat \<Rightarrow> page_table \<Rightarrow> page_table" where
  "table_insert p f t = (if map_of t p = None then insort_key fst (p, f) t else t)"

definition table_erase :: "nat \<Rightarrow> page_table \<Rightarrow> page_table" where
  "table_erase p t = filter (\<lambda>x. fst x \<noteq> p) t"

text \<open>\<^verbatim>\<open>page_table_[p]\<close> creates the entry \<open>(p, 0)\<close> when there is none.\<close>

definition table_index :: "nat \<Rightarrow> page_table \<Rightarrow> nat \<times> page_table" where
  "table_index p t = (case map_of t p of Some f \<Rightarrow> (f, t) | None \<Rightarrow> (0, table_insert p 0 t))"

text \<open>The constructor; the frames start with uninitialised fields.\<close>

definition new_pool :: "frame list \<Rightarrow> lru_record list \<Rightarrow> nat \<Rightarrow> disk \<Rightarrow> pool" where
  "new_pool garbage records k d = \<lparr>bp_frames = garbage, bp_replacer = new_replacer records k,
     bp_disk = d, bp_table = [], bp_free = [0..<length garbage]\<rparr>"

section \<open>Operations\<close>

definition pin_frame :: "nat \<Rightarrow> replacer \<Rightarrow> replacer result" where
  "pin_frame f r = rbind (record_access f r) (set_evictable f False)"

definition set_frame :: "nat \<Rightarrow> frame \<Rightarrow> pool \<Rightarrow> pool" where
  "set_frame f fr bp = bp\<lparr>bp_frames := (bp_frames bp)[f := fr]\<rparr>"

text \<open>Write-back of a victim whose page was modified.\<close>

definition write_back :: "frame \<Rightarrow> disk \<Rightarrow> disk" where
  "write_back fr d = (if fr_dirty fr then write_page (fr_id fr) (fr_mem fr) d else d)"

text \<open>
  \<open>NewPage\<close> and \<open>FetchPage\<close> return the frame of the page, or \<open>None\<close> for the null
  pointer when every frame is pinned; \<open>NewPage\<close> also returns the number of the new page.
\<close>

definition new_page :: "pool \<Rightarrow> ((nat \<times> nat) option \<times> pool) result" where
  "new_page bp = (case bp_free bp of
     f # fs \<Rightarrow> rbind (alloc_page (bp_disk bp)) (\<lambda>(p, d).
       rbind (pin_frame f (bp_replacer bp)) (\<lambda>r.
         Inr (Some (f, p), (set_frame f ((bp_frames bp ! f)
             \<lparr>fr_dirty := False, fr_id := p, fr_pins := 1\<rparr>) bp)
           \<lparr>bp_free := fs, bp_disk := d, bp_replacer := r,
            bp_table := table_insert p f (bp_table bp)\<rparr>)))
   | [] \<Rightarrow> rbind (try_evict_least (bp_replacer bp)) (\<lambda>(v, r1). case v of
       None \<Rightarrow> Inr (None, bp\<lparr>bp_replacer := r1\<rparr>)
     | Some f \<Rightarrow> (let fr = bp_frames bp ! f in
         rbind (alloc_page (write_back fr (bp_disk bp))) (\<lambda>(p, d).
         rbind (pin_frame f r1) (\<lambda>r.
           Inr (Some (f, p), (set_frame f \<lparr>fr_mem = zero_page, fr_dirty = False,
                 fr_pins = 1, fr_id = p\<rparr> bp)
             \<lparr>bp_disk := d, bp_replacer := r,
              bp_table := table_insert p f (table_erase (fr_id fr) (bp_table bp))\<rparr>))))))"

definition fetch_page :: "nat \<Rightarrow> pool \<Rightarrow> (nat option \<times> pool) result" where
  "fetch_page p bp = (case map_of (bp_table bp) p of
     Some f \<Rightarrow> (let fr = bp_frames bp ! f in
       rbind (pin_frame f (bp_replacer bp)) (\<lambda>r.
         Inr (Some f, (set_frame f (fr\<lparr>fr_pins := fr_pins fr + 1\<rparr>) bp)\<lparr>bp_replacer := r\<rparr>)))
   | None \<Rightarrow> (case bp_free bp of
       f # fs \<Rightarrow> rbind (pin_frame f (bp_replacer bp)) (\<lambda>r.
         Inr (Some f, (set_frame f \<lparr>fr_mem = read_page p (fr_mem (bp_frames bp ! f)) (bp_disk bp),
               fr_dirty = False, fr_pins = 1, fr_id = p\<rparr> bp)
           \<lparr>bp_free := fs, bp_replacer := r, bp_table := table_insert p f (bp_table bp)\<rparr>))
     | [] \<Rightarrow> rbind (try_evict_least (bp_replacer bp)) (\<lambda>(v, r1). case v of
         None \<Rightarrow> Inr (None, bp\<lparr>bp_replacer := r1\<rparr>)
       | Some f \<Rightarrow> (let fr = bp_frames bp ! f; d = write_back fr (bp_disk bp) in
           rbind (pin_frame f r1) (\<lambda>r.
             Inr (Some f, (set_frame f \<lparr>fr_mem = read_page p (fr_mem fr) d, fr_dirty = False,
                   fr_pins = 1, fr_id = p\<rparr> bp)
               \<lparr>bp_disk := d, bp_replacer := r,
                bp_table := table_insert p f (table_erase (fr_id fr) (bp_table bp))\<rparr>))))))"

definition unpin_page :: "nat \<Rightarrow> bool \<Rightarrow> pool \<Rightarrow> (bool \<times> pool) result" where
  "unpin_page p dirty bp = (case map_of (bp_table bp) p of None \<Rightarrow> Inr (False, bp)
   | Some f \<Rightarrow> (let fr = bp_frames bp ! f in
       if fr_pins fr \<le> 0 then Inr (False, bp) else
       rbind (if fr_pins fr - 1 = 0 then set_evictable f True (bp_replacer bp)
              else Inr (bp_replacer bp)) (\<lambda>r.
         Inr (True, (set_frame f (fr\<lparr>fr_pins := fr_pins fr - 1,
             fr_dirty := (if dirty then True else fr_dirty fr)\<rparr>) bp)\<lparr>bp_replacer := r\<rparr>))))"

text \<open>\<open>FlushPage\<close> indexes the page table before it looks the page up.\<close>

definition flush_page :: "nat \<Rightarrow> pool \<Rightarrow> bool \<times> pool" where
  "flush_page p bp = (let (f, t) = table_index p (bp_table bp) in
     if map_of t p = None then (False, bp\<lparr>bp_table := t\<rparr>)
     else (let fr = bp_frames bp ! f in
       (True, (set_frame f (fr\<lparr>fr_dirty := False\<rparr>) bp)
         \<lparr>bp_disk := write_page p (fr_mem fr) (bp_disk bp), bp_table := t\<rparr>)))"

definition flush_all_pages :: "pool \<Rightarrow> pool" where
  "flush_all_pages bp =
     (let bp' = fold (\<lambda>x b. snd (flush_page (fst x) b)) (bp_table bp) bp
      in bp'\<lparr>bp_disk := fully_flush (bp_disk bp')\<rparr>)"

definition delete_page :: "nat \<Rightarrow> pool \<Rightarrow> (bool \<times> pool) result" where
  "delete_page p bp = (case map_of (bp_table bp) p of None \<Rightarrow> Inr (True, bp)
   | Some f \<Rightarrow> (let fr = bp_frames bp ! f in
       if 0 < fr_pins fr then Inr (False, bp)
       else rbind (try_evict_exact f (bp_replacer bp)) (\<lambda>(_, r).
         Inr (True, (set_frame f \<lparr>fr_mem = zero_page, fr_dirty = False, fr_pins = 0, fr_id = 0\<rparr> bp)
           \<lparr>bp_table := table_erase p (bp_table bp), bp_replacer := r,
            bp_free := bp_free bp @ [f], bp_disk := dealloc_page p (bp_disk bp)\<rparr>))))"

section \<open>Page guards\<close>

text \<open>
  \<open>BasicPageGuard\<close>, which \<open>ReadPageGuard\<close> and \<open>WritePageGuard\<close> wrap: the frame it
  holds, if any, and whether it was written through.
\<close>

record guard =
  gd_frame :: "nat option"
  gd_dirty :: bool

definition empty_guard :: guard where
  "empty_guard = \<lparr>gd_frame = None, gd_dirty = False\<rparr>"

definition guard_of :: "nat option \<Rightarrow> guard result" where
  "guard_of v = (case v of None \<Rightarrow> Inl Runtime_error
     | Some f \<Rightarrow> Inr \<lparr>gd_frame = Some f, gd_dirty = False\<rparr>)"

definition fetch_guarded :: "nat \<Rightarrow> pool \<Rightarrow> (guard \<times> pool) result" where
  "fetch_guarded p bp = rbind (fetch_page p bp) (\<lambda>(v, bp').
     rbind (guard_of v) (\<lambda>g. Inr (g, bp')))"

definition new_page_guarded :: "pool \<Rightarrow> (guard \<times> nat \<times> pool) result" where
  "new_page_guarded bp = rbind (new_page bp) (\<lambda>(v, bp').
     rbind (guard_of (map_option fst v)) (\<lambda>g. case v of
       None \<Rightarrow> Inl Runtime_error | Some (f, p) \<Rightarrow> Inr (g, p, bp')))"

definition guard_drop :: "guard \<Rightarrow> pool \<Rightarrow> (guard \<times> pool) result" where
  "guard_drop g bp = (case gd_frame g of None \<Rightarrow> Inr (g, bp)
     | Some f \<Rightarrow> rbind (unpin_page (fr_id (bp_frames bp ! f)) (gd_dirty g) bp)
         (\<lambda>(_, bp'). Inr (empty_guard, bp')))"

text \<open>\<^verbatim>\<open>g = std::move(h)\<close>: the new \<open>g\<close>, the moved-from \<open>h\<close> and the pool.\<close>

definition guard_assign :: "guard \<Rightarrow> guard \<Rightarrow> pool \<Rightarrow> (guard \<times> guard \<times> pool) result" where
  "guard_assign g h bp = rbind (guard_drop g bp) (\<lambda>(_, bp'). Inr (h, empty_guard, bp'))"

definition guard_data :: "guard \<Rightarrow> pool \<Rightarrow> page result" where
  "guard_data g bp = (case gd_frame g of None \<Rightarrow> Inl Undefined
     | Some f \<Rightarrow> Inr (fr_mem (bp_frames bp ! f)))"

text \<open>A write of the whole page through the pointer of \<open>GetDataMut\<close> (or \<open>AsMut\<close>).\<close>

definition guard_write :: "guard \<Rightarrow> page \<Rightarrow> pool \<Rightarrow> (guard \<times> pool) result" where
  "guard_write g x bp = (case gd_frame g of None \<Rightarrow> Inl Undefined
     | Some f \<Rightarrow> Inr (g\<lparr>gd_dirty := True\<rparr>,
         set_frame f ((bp_frames bp ! f)\<lparr>fr_mem := x\<rparr>) bp))"

definition guard_page_id :: "guard \<Rightarrow> pool \<Rightarrow> nat result" where
  "guard_page_id g bp = (case gd_frame g of None \<Rightarrow> Inl Undefined
     | Some f \<Rightarrow> Inr (fr_id (bp_frames bp ! f)))"

section \<open>The page table\<close>

definition table_ok :: "page_table \<Rightarrow> nat list \<Rightarrow> nat \<Rightarrow> bool" where
  "table_ok t fs n \<longleftrightarrow> distinct (map fst t) \<and> distinct (map snd t @ fs)
     \<and> snd ` set t \<union> set fs = {..<n}"

lemma table_okD:
  assumes "table_ok t fs n"
  shows "map_of t p = Some f \<longleftrightarrow> (p, f) \<in> set t"
    "(p, f) \<in> set t \<Longrightarrow> (q, f) \<in> set t \<Longrightarrow> p = q"
    "(p, f) \<in> set t \<Longrightarrow> (p, g) \<in> set t \<Longrightarrow> f = g"
    "(p, f) \<in> set t \<Longrightarrow> f < n" "(p, f) \<in> set t \<Longrightarrow> f \<notin> set fs" "f \<in> set fs \<Longrightarrow> f < n"
proof -
  have d: "distinct (map fst t)" "distinct (map snd t)" "snd ` set t \<inter> set fs = {}"
    using assms by (auto simp: table_ok_def)
  show "map_of t p = Some f \<longleftrightarrow> (p, f) \<in> set t" using d(1) by simp
  show "(p, f) \<in> set t \<Longrightarrow> (q, f) \<in> set t \<Longrightarrow> p = q"
    using d(2) by (metis distinct_map inj_onD snd_conv prod.inject)
  show "(p, f) \<in> set t \<Longrightarrow> (p, g) \<in> set t \<Longrightarrow> f = g"
    using d(1) by (metis distinct_map inj_onD fst_conv prod.inject)
  have "(p, f) \<in> set t \<Longrightarrow> f \<in> snd ` set t" by force
  then show "(p, f) \<in> set t \<Longrightarrow> f < n" "(p, f) \<in> set t \<Longrightarrow> f \<notin> set fs" "f \<in> set fs \<Longrightarrow> f < n"
    using assms d(3) unfolding table_ok_def by blast+
qed

lemma map_of_table_None: "map_of t p = None \<longleftrightarrow> p \<notin> fst ` set t"
  by (simp add: map_of_eq_None_iff)

lemma table_insert_ok:
  assumes "table_ok t (f # fs) n" "p \<notin> fst ` set t"
  shows "table_ok (table_insert p f t) fs n"
    "set (table_insert p f t) = insert (p, f) (set t)"
proof -
  have ins: "table_insert p f t = insort_key fst (p, f) t"
    using assms(2) by (simp add: table_insert_def map_of_table_None)
  have m: "mset (map fst (table_insert p f t)) = mset (p # map fst t)"
    "mset (map snd (table_insert p f t) @ fs) = mset (map snd t @ f # fs)"
    unfolding ins by (simp_all add: mset_insort)
  show s: "set (table_insert p f t) = insert (p, f) (set t)" by (simp add: ins set_insort_key)
  have "distinct (map fst (table_insert p f t))"
    using assms unfolding mset_eq_imp_distinct_iff [OF m(1)] by (simp add: table_ok_def)
  moreover have "distinct (map snd (table_insert p f t) @ fs)"
    using assms unfolding mset_eq_imp_distinct_iff [OF m(2)] by (simp add: table_ok_def)
  ultimately show "table_ok (table_insert p f t) fs n"
    using assms(1) by (auto simp: table_ok_def s)
qed

lemma table_erase_ok:
  assumes t: "table_ok t fs n" and pf: "(p, f) \<in> set t"
  shows "table_ok (table_erase p t) (fs @ [f]) n"
    "set (table_erase p t) = set t - {(p, f)}"
proof -
  show s: "set (table_erase p t) = set t - {(p, f)}"
    using table_okD(3) [OF t] pf by (auto simp: table_erase_def)
  have f: "f \<notin> snd ` set (table_erase p t)" "f \<notin> set fs"
    using s table_okD(2,5) [OF t] pf by auto
  have d: "distinct (map snd (table_erase p t))" "distinct (map fst (table_erase p t))" "distinct fs"
    "snd ` set (table_erase p t) \<inter> set fs = {}"
    using t s by (auto simp: table_ok_def table_erase_def distinct_map_filter)
  have "snd ` set (table_erase p t) \<union> set (fs @ [f]) = insert f (snd ` set (table_erase p t)) \<union> set fs"
    by simp
  also have "insert f (snd ` set (table_erase p t)) = snd ` set t" using s pf by force
  also have "\<dots> \<union> set fs = {..<n}" using t by (simp add: table_ok_def)
  finally show "table_ok (table_erase p t) (fs @ [f]) n"
    using d f by (simp add: table_ok_def disjoint_iff)
qed

section \<open>What a pool keeps\<close>

text \<open>
  \<open>pool_ok n bp gs m\<close>: a pool of \<open>n\<close> frames with the outstanding guards \<open>gs\<close>; \<open>m\<close>
  maps the pages in use to what was last written to them. The pins of a page are its
  guards, the evictable frames are the unpinned ones, and the content of a page is in its
  frame if it has one, where it is safe: also on disk, marked dirty, or about to be marked
  by a guard it was written through.
\<close>

definition guards_on :: "guard multiset \<Rightarrow> nat \<Rightarrow> guard multiset" where
  "guards_on gs f = filter_mset (\<lambda>g. gd_frame g = Some f) gs"

definition page_kept :: "pool \<Rightarrow> guard multiset \<Rightarrow> nat \<Rightarrow> page \<Rightarrow> bool" where
  "page_kept bp gs p x = (case map_of (bp_table bp) p of
     None \<Rightarrow> stored_page p (bp_disk bp) = x
   | Some f \<Rightarrow> fr_mem (bp_frames bp ! f) = x \<and> (fr_dirty (bp_frames bp ! f)
       \<or> stored_page p (bp_disk bp) = x \<or> (\<exists>g\<in>#guards_on gs f. gd_dirty g)))"

definition pool_ok :: "nat \<Rightarrow> pool \<Rightarrow> guard multiset \<Rightarrow> (nat \<rightharpoonup> page option) \<Rightarrow> bool" where
  "pool_ok n bp gs m \<longleftrightarrow> length (bp_frames bp) = n \<and> replacer_ok n (bp_replacer bp)
     \<and> disk_inv (bp_disk bp) \<and> live_pages (bp_disk bp) = dom m
     \<and> (\<forall>f<n. length (fr_mem (bp_frames bp ! f)) = page_size)
     \<and> table_ok (bp_table bp) (bp_free bp) n
     \<and> fst ` set (bp_table bp) \<subseteq> dom m
     \<and> (\<forall>p f. (p, f) \<in> set (bp_table bp) \<longrightarrow>
          fr_id (bp_frames bp ! f) = p \<and> fr_pins (bp_frames bp ! f) = size (guards_on gs f))
     \<and> tracked_frames (bp_replacer bp) = snd ` set (bp_table bp)
     \<and> evictable_frames (bp_replacer bp) =
         {f \<in> snd ` set (bp_table bp). fr_pins (bp_frames bp ! f) = 0}
     \<and> (\<forall>g\<in>#gs. \<exists>f\<in>snd ` set (bp_table bp). gd_frame g = Some f)
     \<and> (\<forall>p x. m p = Some (Some x) \<longrightarrow> page_kept bp gs p x)"

lemma pool_okD:
  assumes "pool_ok n bp gs m"
  shows "length (bp_frames bp) = n" "replacer_ok n (bp_replacer bp)" "disk_inv (bp_disk bp)"
    "live_pages (bp_disk bp) = dom m"
    "\<And>f. f < n \<Longrightarrow> length (fr_mem (bp_frames bp ! f)) = page_size"
    "table_ok (bp_table bp) (bp_free bp) n"
    "fst ` set (bp_table bp) \<subseteq> dom m"
    "\<And>p f. (p, f) \<in> set (bp_table bp) \<Longrightarrow> fr_id (bp_frames bp ! f) = p"
    "\<And>p f. (p, f) \<in> set (bp_table bp) \<Longrightarrow> fr_pins (bp_frames bp ! f) = size (guards_on gs f)"
    "tracked_frames (bp_replacer bp) = snd ` set (bp_table bp)"
    "evictable_frames (bp_replacer bp) =
       {f \<in> snd ` set (bp_table bp). fr_pins (bp_frames bp ! f) = 0}"
    "\<And>g. g \<in># gs \<Longrightarrow> \<exists>f\<in>snd ` set (bp_table bp). gd_frame g = Some f"
    "\<And>p x. m p = Some (Some x) \<Longrightarrow> page_kept bp gs p x"
  using assms unfolding pool_ok_def Ball_def by iprover+

lemma pool_okI:
  assumes "length (bp_frames bp) = n" "replacer_ok n (bp_replacer bp)" "disk_inv (bp_disk bp)"
    "live_pages (bp_disk bp) = dom m"
    "\<And>f. f < n \<Longrightarrow> length (fr_mem (bp_frames bp ! f)) = page_size"
    "table_ok (bp_table bp) (bp_free bp) n"
    "fst ` set (bp_table bp) \<subseteq> dom m"
    "\<And>p f. (p, f) \<in> set (bp_table bp) \<Longrightarrow> fr_id (bp_frames bp ! f) = p"
    "\<And>p f. (p, f) \<in> set (bp_table bp) \<Longrightarrow> fr_pins (bp_frames bp ! f) = size (guards_on gs f)"
    "tracked_frames (bp_replacer bp) = snd ` set (bp_table bp)"
    "evictable_frames (bp_replacer bp) =
       {f \<in> snd ` set (bp_table bp). fr_pins (bp_frames bp ! f) = 0}"
    "\<And>g. g \<in># gs \<Longrightarrow> \<exists>f\<in>snd ` set (bp_table bp). gd_frame g = Some f"
    "\<And>p x. m p = Some (Some x) \<Longrightarrow> page_kept bp gs p x"
  shows "pool_ok n bp gs m"
  unfolding pool_ok_def by (intro conjI allI impI ballI; (rule assms; assumption))

lemma guards_on_add [simp]:
  "guards_on (add_mset g gs) f =
     (if gd_frame g = Some f then add_mset g (guards_on gs f) else guards_on gs f)"
  by (simp add: guards_on_def)

lemma guards_on_unmapped:
  assumes "pool_ok n bp gs m" "f \<notin> snd ` set (bp_table bp)"
  shows "guards_on gs f = {#}"
proof -
  have "gd_frame g \<noteq> Some f" if "g \<in># gs" for g
    using pool_okD(12) [OF assms(1) that] assms(2) by (metis option.inject)
  then show ?thesis by (auto simp: guards_on_def)
qed

section \<open>The steps of fetching and creating a page\<close>

definition install :: "nat \<Rightarrow> nat list \<Rightarrow> nat \<Rightarrow> page \<Rightarrow> replacer \<Rightarrow> pool \<Rightarrow> pool" where
  "install f fs p x r bp = (set_frame f \<lparr>fr_mem = x, fr_dirty = False, fr_pins = 1, fr_id = p\<rparr> bp)
     \<lparr>bp_free := fs, bp_replacer := r, bp_table := table_insert p f (bp_table bp)\<rparr>"

definition fresh_guard :: "nat \<Rightarrow> guard" where
  "fresh_guard f = \<lparr>gd_frame = Some f, gd_dirty = False\<rparr>"

lemma page_kept_cong:
  assumes "bp_table bp' = bp_table bp" "bp_frames bp' = bp_frames bp"
    and "stored_page p (bp_disk bp') = stored_page p (bp_disk bp)"
  shows "page_kept bp' gs p x = page_kept bp gs p x"
  unfolding page_kept_def assms ..

lemma page_kept_other:
  assumes "table_ok (bp_table bp) fs n" "table_ok (bp_table bp') fs' n"
    and "\<And>f. (q, f) \<in> set (bp_table bp) \<Longrightarrow> (q, f) \<in> set (bp_table bp')
      \<and> bp_frames bp' ! f = bp_frames bp ! f \<and> guards_on gs' f = guards_on gs f"
    and "q \<notin> fst ` set (bp_table bp) \<Longrightarrow> q \<notin> fst ` set (bp_table bp')"
    and "stored_page q (bp_disk bp') = stored_page q (bp_disk bp)"
    and "page_kept bp gs q x"
  shows "page_kept bp' gs' q x"
proof (cases "map_of (bp_table bp) q")
  case None
  then have "map_of (bp_table bp') q = None" using assms(4) by (simp add: map_of_table_None)
  then show ?thesis using None assms(5,6) by (simp add: page_kept_def)
next
  case (Some f)
  then have "(q, f) \<in> set (bp_table bp)" using table_okD(1) [OF assms(1)] by simp
  note f = assms(3) [OF this]
  then have "map_of (bp_table bp') q = Some f" using table_okD(1) [OF assms(2)] by simp
  then show ?thesis using Some f assms(5,6) by (simp add: page_kept_def)
qed

lemma snd_setI: "(p, f) \<in> A \<Longrightarrow> f \<in> snd ` A"
  by force

lemma snd_bexI: "(p, f) \<in> A \<Longrightarrow> \<exists>h\<in>A. f = snd h"
  by force

lemma install_ok:
  assumes ok: "pool_ok n bp gs m" and free: "bp_free bp = f # fs"
    and p: "p \<in> dom m" "p \<notin> fst ` set (bp_table bp)" and l: "length x = page_size"
    and same: "\<And>y. m p = Some (Some y) \<Longrightarrow> x = y"
  shows "\<exists>r. pin_frame f (bp_replacer bp) = Inr r
    \<and> pool_ok n (install f fs p x r bp) (add_mset (fresh_guard f) gs) m"
proof -
  note d = pool_okD [OF ok]
  have t: "table_ok (bp_table bp) (f # fs) n" using d(6) free by simp
  have f: "f < n" "f \<notin> snd ` set (bp_table bp)"
    using table_okD(6) [OF t, of f] t by (auto simp: table_ok_def)
  obtain r where r: "pin_frame f (bp_replacer bp) = Inr r" "replacer_ok n r"
    "tracked_frames r = insert f (tracked_frames (bp_replacer bp))"
    "evictable_frames r = evictable_frames (bp_replacer bp) - {f}"
    using lru.pin_ok [OF d(2) f(1)] by (auto simp: pin_frame_def)
  note ti = table_insert_ok [OF t p(2)]
  let ?bp = "install f fs p x r bp"
  let ?gs = "add_mset (fresh_guard f) gs"
  let ?fr = "\<lparr>fr_mem = x, fr_dirty = False, fr_pins = 1, fr_id = p\<rparr>"
  have tab: "bp_table ?bp = table_insert p f (bp_table bp)"
    and frs: "bp_frames ?bp = (bp_frames bp)[f := ?fr]"
    and rest: "bp_free ?bp = fs" "bp_replacer ?bp = r" "bp_disk ?bp = bp_disk bp"
    by (simp_all add: install_def set_frame_def)
  have at: "bp_frames ?bp ! f = ?fr" "\<And>g. g \<noteq> f \<Longrightarrow> bp_frames ?bp ! g = bp_frames bp ! g"
    using f d(1) by (simp_all add: frs)
  have none: "guards_on gs f = {#}" using guards_on_unmapped [OF ok f(2)] .
  have old: "g \<noteq> f" if "(q, g) \<in> set (bp_table bp)" for q g
    using snd_setI [OF that] f(2) by auto
  have "pool_ok n ?bp ?gs m"
  proof (rule pool_okI)
    show "length (bp_frames ?bp) = n" using d(1) frs by simp
    show "length (fr_mem (bp_frames ?bp ! g)) = page_size" if "g < n" for g
      using at d(5) [OF that] l by (cases "g = f") auto
    show "table_ok (bp_table ?bp) (bp_free ?bp) n" using ti(1) tab rest by simp
    show "fst ` set (bp_table ?bp) \<subseteq> dom m" using d(7) ti(2) tab p(1) by simp
    show "fr_id (bp_frames ?bp ! g) = q" "fr_pins (bp_frames ?bp ! g) = size (guards_on ?gs g)"
      if "(q, g) \<in> set (bp_table ?bp)" for q g
    proof -
      have qg: "(q, g) = (p, f) \<or> (q, g) \<in> set (bp_table bp)" using that ti(2) tab by simp
      have "fr_id (bp_frames ?bp ! g) = q \<and> fr_pins (bp_frames ?bp ! g) = size (guards_on ?gs g)"
      proof (cases "g = f")
        case True
        then have "q = p" using qg old [of q g] by blast
        then show ?thesis using True at(1) none by (simp add: fresh_guard_def)
      next
        case False
        then have "(q, g) \<in> set (bp_table bp)" using qg by blast
        from d(8) [OF this] d(9) [OF this] show ?thesis
          using False at(2) [OF False] by (simp add: fresh_guard_def)
      qed
      then show "fr_id (bp_frames ?bp ! g) = q"
        "fr_pins (bp_frames ?bp ! g) = size (guards_on ?gs g)" by blast+
    qed
    show "tracked_frames (bp_replacer ?bp) = snd ` set (bp_table ?bp)"
      using r(3) d(10) rest ti(2) tab by simp
    show "evictable_frames (bp_replacer ?bp) =
        {g \<in> snd ` set (bp_table ?bp). fr_pins (bp_frames ?bp ! g) = 0}"
    proof (rule set_eqI)
      fix g
      show "g \<in> evictable_frames (bp_replacer ?bp) \<longleftrightarrow>
          g \<in> {g \<in> snd ` set (bp_table ?bp). fr_pins (bp_frames ?bp ! g) = 0}"
      proof (cases "g = f")
        case True
        then show ?thesis using r(4) rest at(1) by simp
      next
        case False
        then show ?thesis using r(4) d(11) rest ti(2) tab at(2) [OF False] by simp
      qed
    qed
    show "\<exists>h\<in>snd ` set (bp_table ?bp). gd_frame g = Some h" if "g \<in># ?gs" for g
      using that d(12) [of g] ti(2) tab by (auto simp: fresh_guard_def)
    show "page_kept ?bp ?gs q y" if q: "m q = Some (Some y)" for q y
    proof (cases "q = p")
      case True
      have "map_of (bp_table bp) p = None" using p(2) by (simp add: map_of_table_None)
      then have "stored_page p (bp_disk bp) = y" using d(13) [of p y] q True
        by (simp add: page_kept_def)
      moreover have "map_of (bp_table ?bp) p = Some f"
        using table_okD(1) [OF ti(1)] ti(2) tab by simp
      ultimately show ?thesis using True at(1) rest same [of y] q by (simp add: page_kept_def)
    next
      case False
      show ?thesis
      proof (rule page_kept_other [OF t ti(1) [folded tab] _ _ _ d(13) [OF q]])
        show "(q, g) \<in> set (bp_table ?bp) \<and> bp_frames ?bp ! g = bp_frames bp ! g
            \<and> guards_on ?gs g = guards_on gs g" if "(q, g) \<in> set (bp_table bp)" for g
          using that ti(2) tab at(2) old [OF that] by (auto simp: fresh_guard_def)
      qed (use False ti(2) tab rest in auto)
    qed
  qed (use d rest r in simp_all)
  then show ?thesis using r(1) by blast
qed

lemma alloc_ok:
  assumes ok: "pool_ok n bp gs m" and room: "disk_room (bp_disk bp)"
  shows "\<exists>p d. alloc_page (bp_disk bp) = Inr (p, d) \<and> m p = None
    \<and> pool_ok n (bp\<lparr>bp_disk := d\<rparr>) gs (m(p \<mapsto> None))"
proof -
  note d = pool_okD [OF ok]
  obtain p dk where a: "alloc_page (bp_disk bp) = Inr (p, dk)" "disk_inv dk" "p \<notin> dom m"
    "live_pages dk = insert p (dom m)"
    "\<And>q. q \<in> dom m \<Longrightarrow> stored_page q dk = stored_page q (bp_disk bp)"
    using dk.alloc_ok [OF d(3) room] unfolding d(4) by blast
  let ?m = "m(p \<mapsto> None)" let ?bp = "bp\<lparr>bp_disk := dk\<rparr>"
  have "pool_ok n ?bp gs ?m"
  proof (rule pool_okI)
    show "live_pages (bp_disk ?bp) = dom ?m" using a(4) by simp
    show "fst ` set (bp_table ?bp) \<subseteq> dom ?m" using d(7) by auto
    show "page_kept ?bp gs q y" if q: "?m q = Some (Some y)" for q y
    proof -
      have "m q = Some (Some y)" using q by (simp split: if_splits)
      then have "page_kept bp gs q y" "stored_page q dk = stored_page q (bp_disk bp)"
        using d(13) [of q y] a(5) [of q] by auto
      then show ?thesis by (subst page_kept_cong [of _ bp]) simp_all
    qed
  qed (use d a(2) in simp_all)
  moreover have "m p = None" using a(3) by (simp add: domIff)
  ultimately show ?thesis using a(1) by blast
qed

text \<open>Evicting a frame and writing its page back leaves a pool with this one frame free.\<close>

definition vacated :: "nat \<Rightarrow> replacer \<Rightarrow> pool \<Rightarrow> pool" where
  "vacated f r bp = bp\<lparr>bp_free := [f], bp_replacer := r,
     bp_disk := write_back (bp_frames bp ! f) (bp_disk bp),
     bp_table := table_erase (fr_id (bp_frames bp ! f)) (bp_table bp)\<rparr>"

lemma write_back_ok:
  assumes "disk_inv d" "fr_id fr \<in> live_pages d" "length (fr_mem fr) = page_size"
  shows "disk_inv (write_back fr d)" "live_pages (write_back fr d) = live_pages d"
    "stored_page q (write_back fr d) = (if q = fr_id fr \<and> fr_dirty fr then fr_mem fr else stored_page q d)"
  using dk.put_ok [OF assms] assms(1) by (auto simp: write_back_def)

lemma vacated_ok:
  assumes ok: "pool_ok n bp gs m" and free: "bp_free bp = []"
    and v: "try_evict_least (bp_replacer bp) = Inr (Some f, r)"
  shows "pool_ok n (vacated f r bp) gs m"
proof -
  note d = pool_okD [OF ok]
  let ?fr = "bp_frames bp ! f" let ?p = "fr_id ?fr" let ?bp = "vacated f r bp"
  have t: "table_ok (bp_table bp) [] n" using d(6) free by simp
  have r: "replacer_ok n r" "f \<in> evictable_frames (bp_replacer bp)"
    "tracked_frames r = tracked_frames (bp_replacer bp) - {f}"
    "evictable_frames r = evictable_frames (bp_replacer bp) - {f}"
    using lru.evict_ok [OF d(2)] v by auto
  then obtain p where pf: "(p, f) \<in> set (bp_table bp)" and pins: "fr_pins ?fr = 0"
    using d(11) by auto
  have id: "?p = p" using d(8) [OF pf] .
  then have pf': "(?p, f) \<in> set (bp_table bp)" using pf by simp
  have f: "f < n" using table_okD(4) [OF t pf] .
  have none: "guards_on gs f = {#}" using d(9) [OF pf] pins by simp
  have live: "?p \<in> live_pages (bp_disk bp)" using d(4,7) pf id by force
  note te = table_erase_ok [OF t pf']
  note wb = write_back_ok [OF d(3) live d(5) [OF f]]
  have simps: "bp_table ?bp = table_erase ?p (bp_table bp)" "bp_frames ?bp = bp_frames bp"
    "bp_free ?bp = [f]" "bp_replacer ?bp = r" "bp_disk ?bp = write_back ?fr (bp_disk bp)"
    by (simp_all add: vacated_def)
  have old: "(q, g) \<in> set (bp_table ?bp) \<longleftrightarrow> (q, g) \<in> set (bp_table bp) \<and> g \<noteq> f" for q g
    using te(2) simps(1) table_okD(2) [OF t pf'] by auto
  have snds: "snd ` set (bp_table ?bp) = snd ` set (bp_table bp) - {f}"
    using old by force
  show ?thesis
  proof (rule pool_okI)
    show "table_ok (bp_table ?bp) (bp_free ?bp) n" using te(1) simps by simp
    show "fst ` set (bp_table ?bp) \<subseteq> dom m" using d(7) old by force
    show "tracked_frames (bp_replacer ?bp) = snd ` set (bp_table ?bp)"
      using r(3) d(10) simps(4) snds by simp
    show "evictable_frames (bp_replacer ?bp) =
        {g \<in> snd ` set (bp_table ?bp). fr_pins (bp_frames ?bp ! g) = 0}"
      using r(4) d(11) simps(2,4) snds by auto
    show "\<exists>h\<in>snd ` set (bp_table ?bp). gd_frame g = Some h" if g: "g \<in># gs" for g
    proof -
      obtain h where h: "h \<in> snd ` set (bp_table bp)" "gd_frame g = Some h"
        using d(12) [OF g] by blast
      then have "h \<noteq> f" using none g by (auto simp: guards_on_def)
      then show ?thesis using h snds by blast
    qed
    show "page_kept ?bp gs q y" if q: "m q = Some (Some y)" for q y
    proof (cases "q = ?p")
      case True
      have "map_of (bp_table bp) ?p = Some f" using table_okD(1) [OF t] pf' by simp
      then have "fr_mem ?fr = y" "fr_dirty ?fr \<or> stored_page ?p (bp_disk bp) = y"
        using d(13) [OF q] True none by (auto simp: page_kept_def)
      moreover have "map_of (bp_table ?bp) q = None"
        using True by (auto simp: simps(1) table_erase_def map_of_table_None)
      ultimately show ?thesis using True wb(3) [of q] simps(5) by (auto simp: page_kept_def)
    next
      case False
      show ?thesis
      proof (rule page_kept_other [OF t te(1) [folded simps(1)] _ _ _ d(13) [OF q]])
        show "(q, g) \<in> set (bp_table ?bp) \<and> bp_frames ?bp ! g = bp_frames bp ! g
            \<and> guards_on gs g = guards_on gs g" if "(q, g) \<in> set (bp_table bp)" for g
          using that old False id table_okD(3) [OF t] d(8) [OF that] simps(2) by auto
        show "stored_page q (bp_disk ?bp) = stored_page q (bp_disk bp)"
          using False wb(3) [of q] simps(5) by simp
      qed (use old in force)
    qed
  qed (use d wb simps old r(1) in auto)
qed

section \<open>Operations keep the pool\<close>

text \<open>When no frame is free, an eviction fails exactly if every page is pinned.\<close>

definition all_pinned :: "pool \<Rightarrow> bool" where
  "all_pinned bp \<longleftrightarrow> bp_free bp = [] \<and> (\<forall>f\<in>snd ` set (bp_table bp). 0 < fr_pins (bp_frames bp ! f))"

lemma evict_cases:
  assumes ok: "pool_ok n bp gs m" and free: "bp_free bp = []"
  obtains (none) r where "try_evict_least (bp_replacer bp) = Inr (None, r)" "all_pinned bp"
      "pool_ok n (bp\<lparr>bp_replacer := r\<rparr>) gs m"
  | (some) f r where "try_evict_least (bp_replacer bp) = Inr (Some f, r)" "\<not> all_pinned bp"
      "pool_ok n (vacated f r bp) gs m"
proof -
  note d = pool_okD [OF ok]
  obtain v r where v: "try_evict_least (bp_replacer bp) = Inr (v, r)" "replacer_ok n r"
    "case v of None \<Rightarrow> evictable_frames (bp_replacer bp) = {}
        \<and> tracked_frames r = tracked_frames (bp_replacer bp) \<and> evictable_frames r = {}
      | Some f \<Rightarrow> f \<in> evictable_frames (bp_replacer bp)
        \<and> tracked_frames r = tracked_frames (bp_replacer bp) - {f}
        \<and> evictable_frames r = evictable_frames (bp_replacer bp) - {f}"
    using lru.evict_ok [OF d(2)] by blast
  show thesis
  proof (cases v)
    case None
    then have e: "evictable_frames (bp_replacer bp) = {}" "evictable_frames r = {}"
      "tracked_frames r = tracked_frames (bp_replacer bp)" using v(3) by auto
    then have "all_pinned bp" using d(11) free by (auto simp: all_pinned_def)
    moreover have "pool_ok n (bp\<lparr>bp_replacer := r\<rparr>) gs m"
    proof (rule pool_okI)
      show "page_kept (bp\<lparr>bp_replacer := r\<rparr>) gs p x" if "m p = Some (Some x)" for p x
        using d(13) [OF that] by (subst page_kept_cong [of _ bp]) simp_all
    qed (use d v(2) e in simp_all)
    ultimately show thesis using none v(1) None by blast
  next
    case (Some f)
    then have "\<not> all_pinned bp" using v(3) d(11) by (auto simp: all_pinned_def)
    then show thesis using some [OF _ _ vacated_ok [OF ok free]] v(1) Some by blast
  qed
qed

lemma vacated_parts:
  "bp_free (vacated f r bp) = [f]" "bp_replacer (vacated f r bp) = r"
  "bp_frames (vacated f r bp) = bp_frames bp"
  "bp_disk (vacated f r bp) = write_back (bp_frames bp ! f) (bp_disk bp)"
  by (simp_all add: vacated_def)

lemma new_page_free:
  assumes "bp_free bp = f # fs" "alloc_page (bp_disk bp) = Inr (p, d)"
    and "pin_frame f (bp_replacer bp) = Inr r"
  shows "new_page bp = Inr (Some (f, p),
    install f fs p (fr_mem (bp_frames bp ! f)) r (bp\<lparr>bp_disk := d\<rparr>))"
  using assms by (cases "bp_frames bp ! f") (simp add: new_page_def install_def set_frame_def)

lemma new_page_evict:
  assumes "bp_free bp = []" "try_evict_least (bp_replacer bp) = Inr (Some f, r1)"
    and "alloc_page (bp_disk (vacated f r1 bp)) = Inr (p, d)" "pin_frame f r1 = Inr r"
  shows "new_page bp = Inr (Some (f, p),
    install f [] p zero_page r ((vacated f r1 bp)\<lparr>bp_disk := d\<rparr>))"
  using assms by (simp add: new_page_def install_def set_frame_def vacated_def)

lemma disk_room_write_back: "disk_room (write_back fr d) = disk_room d"
  by (simp add: write_back_def write_page_def disk_room_def)

text \<open>
  The outcomes of \<open>NewPage\<close>: the null pointer, and the pool unchanged but for the
  replacer, when every page is pinned; else a page that was not in use.
\<close>

lemma new_page_ok:
  assumes ok: "pool_ok n bp gs m" and room: "disk_room (bp_disk bp)"
  shows "(all_pinned bp \<and> (\<exists>bp'. new_page bp = Inr (None, bp') \<and> pool_ok n bp' gs m))
    \<or> (\<not> all_pinned bp \<and> (\<exists>f p bp'. new_page bp = Inr (Some (f, p), bp') \<and> m p = None
        \<and> bp_frames bp' ! f = \<lparr>fr_mem = fr_mem (bp_frames bp' ! f), fr_dirty = False, fr_pins = 1, fr_id = p\<rparr>
        \<and> pool_ok n bp' (add_mset (fresh_guard f) gs) (m(p \<mapsto> None))))"
proof -
  have step: "\<exists>p d r. alloc_page (bp_disk b) = Inr (p, d) \<and> pin_frame f (bp_replacer b) = Inr r
      \<and> m p = None
      \<and> bp_frames (install f fs p x r (b\<lparr>bp_disk := d\<rparr>)) ! f
          = \<lparr>fr_mem = x, fr_dirty = False, fr_pins = 1, fr_id = p\<rparr>
      \<and> pool_ok n (install f fs p x r (b\<lparr>bp_disk := d\<rparr>)) (add_mset (fresh_guard f) gs) (m(p \<mapsto> None))"
    if b: "pool_ok n b gs m" "bp_free b = f # fs" "disk_room (bp_disk b)" "length x = page_size"
    for b f fs x
  proof -
    obtain p d where a: "alloc_page (bp_disk b) = Inr (p, d)" "m p = None"
      "pool_ok n (b\<lparr>bp_disk := d\<rparr>) gs (m(p \<mapsto> None))"
      using alloc_ok [OF b(1,3)] by blast
    have "p \<notin> fst ` set (bp_table b)" using pool_okD(7) [OF b(1)] a(2) by (auto simp: domIff)
    then obtain r where "pin_frame f (bp_replacer b) = Inr r"
      "pool_ok n (install f fs p x r (b\<lparr>bp_disk := d\<rparr>)) (add_mset (fresh_guard f) gs) (m(p \<mapsto> None))"
      using install_ok [OF a(3), of f fs p x] b(2,4) by auto
    moreover have "f < length (bp_frames b)"
      using table_okD(6) [OF pool_okD(6) [OF b(1)], of f] b(2) pool_okD(1) [OF b(1)] by simp
    ultimately show ?thesis using a(1,2) by (auto simp: install_def set_frame_def)
  qed
  show ?thesis
  proof (cases "bp_free bp")
    case (Cons f fs)
    have "f < n" using table_okD(6) [OF pool_okD(6) [OF ok], of f] Cons by simp
    then have l: "length (fr_mem (bp_frames bp ! f)) = page_size" using pool_okD(5) [OF ok] by blast
    have "\<not> all_pinned bp" using Cons by (simp add: all_pinned_def)
    then show ?thesis using step [OF ok Cons room l] new_page_free [OF Cons] by fastforce
  next
    case Nil
    show ?thesis
      using ok Nil
    proof (cases rule: evict_cases)
      case (none r)
      then have "new_page bp = Inr (None, bp\<lparr>bp_replacer := r\<rparr>)" using Nil by (simp add: new_page_def)
      then show ?thesis using none by blast
    next
      case (some f r)
      have r: "disk_room (bp_disk (vacated f r bp))"
        using room by (simp add: vacated_parts disk_room_write_back)
      show ?thesis using step [OF some(3) vacated_parts(1) r, of zero_page]
        new_page_evict [OF Nil some(1)] some(2) by (fastforce simp: vacated_parts)
    qed
  qed
qed

text \<open>The outcomes of \<open>FetchPage\<close> on a page in use.\<close>

lemma fetch_resident:
  assumes ok: "pool_ok n bp gs m" and pf: "(p, f) \<in> set (bp_table bp)"
  shows "\<exists>bp'. fetch_page p bp = Inr (Some f, bp') \<and> fr_id (bp_frames bp' ! f) = p
    \<and> pool_ok n bp' (add_mset (fresh_guard f) gs) m"
proof -
  note d = pool_okD [OF ok]
  let ?fr = "bp_frames bp ! f"
  have f: "f < n" "f \<in> snd ` set (bp_table bp)"
    using table_okD(4) [OF d(6) pf] snd_setI [OF pf] by auto
  obtain r where r: "pin_frame f (bp_replacer bp) = Inr r" "replacer_ok n r"
    "tracked_frames r = insert f (tracked_frames (bp_replacer bp))"
    "evictable_frames r = evictable_frames (bp_replacer bp) - {f}"
    using lru.pin_ok [OF d(2) f(1)] by (auto simp: pin_frame_def)
  define bp' where "bp' = (set_frame f (?fr\<lparr>fr_pins := fr_pins ?fr + 1\<rparr>) bp)\<lparr>bp_replacer := r\<rparr>"
  let ?gs = "add_mset (fresh_guard f) gs"
  have run: "fetch_page p bp = Inr (Some f, bp')"
    using table_okD(1) [OF d(6), of p f] pf r(1) by (simp add: fetch_page_def Let_def bp'_def)
  have simps: "bp_table bp' = bp_table bp" "bp_free bp' = bp_free bp" "bp_disk bp' = bp_disk bp"
    "bp_replacer bp' = r"
    by (simp_all add: set_frame_def bp'_def)
  have at: "bp_frames bp' ! g = (if g = f then ?fr\<lparr>fr_pins := fr_pins ?fr + 1\<rparr> else bp_frames bp ! g)" for g
    using f(1) d(1) by (simp add: set_frame_def bp'_def)
  have len: "length (bp_frames bp') = n" using d(1) by (simp add: set_frame_def bp'_def)
  have pins: "fr_pins ?fr = size (guards_on gs f)" using d(9) [OF pf] .
  have "pool_ok n bp' ?gs m"
  proof (rule pool_okI)
    show "length (fr_mem (bp_frames bp' ! g)) = page_size" if "g < n" for g
      using d(5) [OF that] d(5) [OF f(1)] by (simp add: at)
    show "fr_id (bp_frames bp' ! g) = q" "fr_pins (bp_frames bp' ! g) = size (guards_on ?gs g)"
      if qg: "(q, g) \<in> set (bp_table bp')" for q g
      using d(8,9) [OF qg [unfolded simps]] pins by (auto simp: at fresh_guard_def)
    show "evictable_frames (bp_replacer bp') =
        {g \<in> snd ` set (bp_table bp'). fr_pins (bp_frames bp' ! g) = 0}"
      using r(4) d(11) simps by (auto simp: at)
    show "page_kept bp' ?gs q y" if q: "m q = Some (Some y)" for q y
    proof -
      have "guards_on ?gs g = guards_on gs g \<or> guards_on ?gs g = add_mset (fresh_guard f) (guards_on gs g)"
        for g by simp
      then show ?thesis using d(13) [OF q] unfolding page_kept_def simps
        by (auto simp: at fresh_guard_def split: option.splits)
    qed
    show "\<exists>h\<in>snd ` set (bp_table bp'). gd_frame g = Some h" if "g \<in># ?gs" for g
      using that d(12) [of g] pf by (auto simp: fresh_guard_def simps intro: snd_bexI)
  qed (use d r simps f len in \<open>simp_all add: insert_absorb\<close>)
  moreover have "fr_id (bp_frames bp' ! f) = p" using d(8) [OF pf] by (simp add: at)
  ultimately show ?thesis using run by blast
qed

lemma fetch_page_free:
  assumes "map_of (bp_table bp) p = None" "bp_free bp = f # fs" "pin_frame f (bp_replacer bp) = Inr r"
  shows "fetch_page p bp = Inr (Some f,
    install f fs p (read_page p (fr_mem (bp_frames bp ! f)) (bp_disk bp)) r bp)"
  using assms by (simp add: fetch_page_def install_def set_frame_def)

lemma fetch_page_evict:
  assumes "map_of (bp_table bp) p = None" "bp_free bp = []"
    and "try_evict_least (bp_replacer bp) = Inr (Some f, r1)" "pin_frame f r1 = Inr r"
  shows "fetch_page p bp = Inr (Some f, install f [] p
    (read_page p (fr_mem (bp_frames (vacated f r1 bp) ! f)) (bp_disk (vacated f r1 bp))) r (vacated f r1 bp))"
  using assms by (simp add: fetch_page_def install_def set_frame_def vacated_def Let_def)

lemma read_live_page:
  assumes "disk_inv d" "p \<in> live_pages d"
  shows "read_page p old d = stored_page p d" "length (stored_page p d) = page_size"
  using live_bound [OF assms] disk_inv_open [OF assms(1)] dk.get_size [OF assms]
  by (simp_all add: stored_page_def read_page_def)

definition resident :: "pool \<Rightarrow> nat \<Rightarrow> bool" where
  "resident bp p \<longleftrightarrow> p \<in> fst ` set (bp_table bp)"

lemma resident_map_of: "resident bp p \<longleftrightarrow> map_of (bp_table bp) p \<noteq> None"
  by (simp add: resident_def map_of_table_None)

lemma fetch_page_ok:
  assumes ok: "pool_ok n bp gs m" and p: "p \<in> dom m"
  shows "(all_pinned bp \<and> \<not> resident bp p
        \<and> (\<exists>bp'. fetch_page p bp = Inr (None, bp') \<and> pool_ok n bp' gs m))
    \<or> (\<not> (all_pinned bp \<and> \<not> resident bp p)
        \<and> (\<exists>f bp'. fetch_page p bp = Inr (Some f, bp') \<and> fr_id (bp_frames bp' ! f) = p
            \<and> pool_ok n bp' (add_mset (fresh_guard f) gs) m))"
proof (cases "resident bp p")
  case True
  then obtain f where "(p, f) \<in> set (bp_table bp)" by (auto simp: resident_def)
  then show ?thesis using fetch_resident [OF ok] True by blast
next
  case False
  then have out: "p \<notin> fst ` set (bp_table bp)" and none: "map_of (bp_table bp) p = None"
    by (simp_all add: resident_def map_of_table_None)
  have step: "\<exists>r. pin_frame f (bp_replacer b) = Inr r
      \<and> fr_id (bp_frames (install f fs p (read_page p old (bp_disk b)) r b) ! f) = p
      \<and> pool_ok n (install f fs p (read_page p old (bp_disk b)) r b) (add_mset (fresh_guard f) gs) m"
    if b: "pool_ok n b gs m" "bp_free b = f # fs" "p \<notin> fst ` set (bp_table b)" for b f fs old
  proof -
    note db = pool_okD [OF b(1)]
    have rd: "read_page p old (bp_disk b) = stored_page p (bp_disk b)"
      "length (stored_page p (bp_disk b)) = page_size"
      using read_live_page [OF db(3)] db(4) p by auto
    have "map_of (bp_table b) p = None" using b(3) by (simp add: map_of_table_None)
    then have same: "stored_page p (bp_disk b) = y" if "m p = Some (Some y)" for y
      using db(13) [OF that] by (simp add: page_kept_def)
    have "f < length (bp_frames b)"
      using table_okD(6) [OF db(6), of f] b(2) db(1) by simp
    then have "fr_id (bp_frames (install f fs p (stored_page p (bp_disk b)) r b) ! f) = p" for r
      by (simp add: install_def set_frame_def)
    then show ?thesis using install_ok [OF b(1,2) p b(3) rd(2) same] rd(1) by metis
  qed
  show ?thesis
  proof (cases "bp_free bp")
    case (Cons f fs)
    have "\<not> all_pinned bp" using Cons by (simp add: all_pinned_def)
    then show ?thesis using step [OF ok Cons out] fetch_page_free [OF none Cons] by fastforce
  next
    case Nil
    show ?thesis
      using ok Nil
    proof (cases rule: evict_cases)
      case (none r)
      then have "fetch_page p bp = Inr (None, bp\<lparr>bp_replacer := r\<rparr>)"
        using Nil \<open>map_of (bp_table bp) p = None\<close> by (simp add: fetch_page_def)
      then show ?thesis using none False by blast
    next
      case (some f r)
      have "fst ` set (bp_table (vacated f r bp)) \<subseteq> fst ` set (bp_table bp)"
        by (auto simp: vacated_def table_erase_def)
      then have o: "p \<notin> fst ` set (bp_table (vacated f r bp))" using out by blast
      show ?thesis using step [OF some(3) vacated_parts(1) o]
        fetch_page_evict [OF none Nil some(1)] some(2) by (fastforce simp: vacated_parts)
    qed
  qed
qed

text \<open>Changing the content, the dirty mark or the pins of one mapped frame.\<close>

lemma change_frame_ok:
  assumes ok: "pool_ok n bp gs m" and pf: "(p, f) \<in> set (bp_table bp)"
    and fr: "length (fr_mem fr) = page_size" "fr_id fr = p" "fr_pins fr = size (guards_on gs' f)"
    and gs: "\<And>g. g \<noteq> f \<Longrightarrow> guards_on gs' g = guards_on gs g"
      "\<And>g. g \<in># gs' \<Longrightarrow> \<exists>h\<in>snd ` set (bp_table bp). gd_frame g = Some h"
    and r: "replacer_ok n r" "tracked_frames r = tracked_frames (bp_replacer bp)"
      "evictable_frames r = (if fr_pins fr = 0 then insert f (evictable_frames (bp_replacer bp))
         else evictable_frames (bp_replacer bp) - {f})"
    and d': "disk_inv d'" "live_pages d' = live_pages (bp_disk bp)"
      "\<And>q. q \<noteq> p \<Longrightarrow> stored_page q d' = stored_page q (bp_disk bp)"
    and m': "\<And>q. q \<noteq> p \<Longrightarrow> m' q = m q" "p \<in> dom m'"
      "\<And>x. m' p = Some (Some x) \<Longrightarrow> fr_mem fr = x \<and> (fr_dirty fr \<or> stored_page p d' = x
         \<or> (\<exists>g\<in>#guards_on gs' f. gd_dirty g))"
  shows "pool_ok n ((set_frame f fr bp)\<lparr>bp_replacer := r, bp_disk := d'\<rparr>) gs' m'"
proof -
  note d = pool_okD [OF ok]
  define bp' where "bp' = (set_frame f fr bp)\<lparr>bp_replacer := r, bp_disk := d'\<rparr>"
  have f: "f < n" "f \<in> snd ` set (bp_table bp)"
    using table_okD(4) [OF d(6) pf] snd_setI [OF pf] by auto
  have simps: "bp_table bp' = bp_table bp" "bp_free bp' = bp_free bp" "bp_disk bp' = d'"
    "bp_replacer bp' = r" "length (bp_frames bp') = n"
    using d(1) by (simp_all add: set_frame_def bp'_def)
  have at: "bp_frames bp' ! g = (if g = f then fr else bp_frames bp ! g)" for g
    using f(1) d(1) by (simp add: set_frame_def bp'_def)
  have only: "g \<noteq> f" if "(q, g) \<in> set (bp_table bp)" "q \<noteq> p" for q g
    using that table_okD(2) [OF d(6)] pf by blast
  have dm: "dom m' = dom m"
  proof (rule set_eqI)
    fix q
    show "q \<in> dom m' \<longleftrightarrow> q \<in> dom m"
      using m'(1) [of q] m'(2) d(7) pf by (cases "q = p") (force simp: domIff)+
  qed
  have "pool_ok n bp' gs' m'"
  proof (rule pool_okI)
    show "length (fr_mem (bp_frames bp' ! g)) = page_size" if "g < n" for g
      using d(5) [OF that] fr(1) by (simp add: at)
    show "fr_id (bp_frames bp' ! g) = q" "fr_pins (bp_frames bp' ! g) = size (guards_on gs' g)"
      if qg: "(q, g) \<in> set (bp_table bp')" for q g
    proof -
      note t = qg [unfolded simps]
      have "g = f \<Longrightarrow> q = p" using t table_okD(2) [OF d(6)] pf by blast
      then show "fr_id (bp_frames bp' ! g) = q" "fr_pins (bp_frames bp' ! g) = size (guards_on gs' g)"
        using d(8) [OF t] d(9) [OF t] fr(2,3) gs(1) by (simp_all add: at)
    qed
    show "evictable_frames (bp_replacer bp') =
        {g \<in> snd ` set (bp_table bp'). fr_pins (bp_frames bp' ! g) = 0}"
    proof (rule set_eqI)
      fix g
      show "g \<in> evictable_frames (bp_replacer bp') \<longleftrightarrow>
          g \<in> {g \<in> snd ` set (bp_table bp'). fr_pins (bp_frames bp' ! g) = 0}"
        using r(3) d(11) simps(1,4) f(2) by (cases "g = f") (simp_all add: at)
    qed
    show "page_kept bp' gs' q x" if q: "m' q = Some (Some x)" for q x
    proof (cases "q = p")
      case True
      have "map_of (bp_table bp) p = Some f" using pf table_okD(1) [OF d(6)] by simp
      then show ?thesis using m'(3) [of x] q True simps by (simp add: page_kept_def at)
    next
      case False
      have "m q = Some (Some x)" using q m'(1) [OF False] by simp
      then show ?thesis
        using False d'(3) [OF False] simps gs(1) only at
        by (intro page_kept_other [OF d(6) d(6) [folded simps(1,2)] _ _ _ d(13)]) auto
    qed
    show "\<exists>h\<in>snd ` set (bp_table bp'). gd_frame g = Some h" if "g \<in># gs'" for g
      using gs(2) [OF that] simps by simp
  qed (use d d' r(1,2) simps dm in simp_all)
  then show ?thesis by (simp add: bp'_def)
qed

lemma set_frame_same [simp]:
  "(set_frame f fr bp)\<lparr>bp_replacer := bp_replacer bp\<rparr> = set_frame f fr bp"
  "(set_frame f fr bp)\<lparr>bp_disk := bp_disk bp\<rparr> = set_frame f fr bp"
  "(set_frame f fr bp)\<lparr>bp_replacer := bp_replacer bp, bp_disk := d\<rparr>
    = (set_frame f fr bp)\<lparr>bp_disk := d\<rparr>"
  by (simp_all add: set_frame_def)

lemma guard_mapped:
  assumes "pool_ok n bp (add_mset g gs) m"
  obtains f p where "gd_frame g = Some f" "(p, f) \<in> set (bp_table bp)"
    "fr_id (bp_frames bp ! f) = p" "f < n" "p \<in> dom m"
    "fr_pins (bp_frames bp ! f) = Suc (size (guards_on gs f))"
proof -
  note d = pool_okD [OF assms]
  obtain f p where f: "gd_frame g = Some f" "(p, f) \<in> set (bp_table bp)"
    using d(12) [of g] by auto
  show thesis
    by (rule that [OF f d(8) [OF f(2)] table_okD(4) [OF d(6) f(2)]])
      (use f d(9) [OF f(2)] d(7) in force)+
qed

lemma guard_write_ok:
  assumes ok: "pool_ok n bp (add_mset g gs) m" and l: "length x = page_size"
  shows "\<exists>p bp'. guard_page_id g bp = Inr p
    \<and> guard_write g x bp = Inr (g\<lparr>gd_dirty := True\<rparr>, bp')
    \<and> pool_ok n bp' (add_mset (g\<lparr>gd_dirty := True\<rparr>) gs) (m(p \<mapsto> Some x))"
proof -
  obtain f p where g: "gd_frame g = Some f" "(p, f) \<in> set (bp_table bp)"
    "fr_id (bp_frames bp ! f) = p" "f < n" "p \<in> dom m"
    "fr_pins (bp_frames bp ! f) = Suc (size (guards_on gs f))"
    using guard_mapped [OF ok] by blast
  note d = pool_okD [OF ok]
  let ?fr = "(bp_frames bp ! f)\<lparr>fr_mem := x\<rparr>"
  have "f \<notin> evictable_frames (bp_replacer bp)" using d(11) g(6) by simp
  then have "pool_ok n ((set_frame f ?fr bp)\<lparr>bp_replacer := bp_replacer bp, bp_disk := bp_disk bp\<rparr>)
      (add_mset (g\<lparr>gd_dirty := True\<rparr>) gs) (m(p \<mapsto> Some x))"
    using g l d(2,3,12)
    by (intro change_frame_ok [OF ok g(2)]) (auto intro: snd_bexI)
  then show ?thesis using g(1,3) by (simp add: guard_page_id_def guard_write_def)
qed

lemma guard_drop_ok:
  assumes ok: "pool_ok n bp (add_mset g gs) m"
  shows "\<exists>bp'. guard_drop g bp = Inr (empty_guard, bp') \<and> pool_ok n bp' gs m"
proof -
  obtain f p where g: "gd_frame g = Some f" "(p, f) \<in> set (bp_table bp)"
    "fr_id (bp_frames bp ! f) = p" "f < n" "p \<in> dom m"
    "fr_pins (bp_frames bp ! f) = Suc (size (guards_on gs f))"
    using guard_mapped [OF ok] by blast
  note d = pool_okD [OF ok]
  let ?fr = "bp_frames bp ! f"
  let ?fr' = "?fr\<lparr>fr_pins := fr_pins ?fr - 1, fr_dirty := (if gd_dirty g then True else fr_dirty ?fr)\<rparr>"
  let ?allow = "if fr_pins ?fr - 1 = 0 then set_evictable f True (bp_replacer bp) else Inr (bp_replacer bp)"
  have track: "f \<in> tracked_frames (bp_replacer bp)" "f \<notin> evictable_frames (bp_replacer bp)"
    using d(10,11) snd_setI [OF g(2)] g(6) by auto
  obtain r where r: "?allow = Inr r" "replacer_ok n r"
    "tracked_frames r = tracked_frames (bp_replacer bp)"
    "evictable_frames r = (if fr_pins ?fr' = 0 then insert f (evictable_frames (bp_replacer bp))
       else evictable_frames (bp_replacer bp) - {f})"
    using lru.allow_ok [OF d(2) g(4), of True] d(2) track by (cases "fr_pins ?fr - 1 = 0") auto
  have mp: "map_of (bp_table bp) p = Some f" using g(2) table_okD(1) [OF d(6)] by simp
  have gs: "\<exists>h\<in>snd ` set (bp_table bp). gd_frame y = Some h" if "y \<in># gs" for y
    using that d(12) by simp
  have others: "guards_on gs h = guards_on (add_mset g gs) h" if "h \<noteq> f" for h
    using that g(1) by simp
  have kept: "fr_mem ?fr' = x \<and> (fr_dirty ?fr' \<or> stored_page p (bp_disk bp) = x
      \<or> (\<exists>g\<in>#guards_on gs f. gd_dirty g))" if "m p = Some (Some x)" for x
    using d(13) [OF that] mp g(1) by (auto simp: page_kept_def)
  let ?bp = "(set_frame f ?fr' bp)\<lparr>bp_replacer := r, bp_disk := bp_disk bp\<rparr>"
  have "pool_ok n ?bp gs m"
    using g(3,5,6) d(3) d(5) [OF g(4)] kept
    by (intro change_frame_ok [OF ok g(2) _ _ _ others gs r(2-4)]) auto
  moreover have "unpin_page p (gd_dirty g) bp = Inr (True, ?bp)"
    using mp g(6) r(1) by (simp add: unpin_page_def Let_def set_frame_def)
  ultimately show ?thesis using g(1,3) by (simp add: guard_drop_def)
qed

lemma flush_page_ok:
  assumes ok: "pool_ok n bp gs m" and pf: "(p, f) \<in> set (bp_table bp)"
  shows "\<exists>bp'. flush_page p bp = (True, bp') \<and> pool_ok n bp' gs m
    \<and> bp_table bp' = bp_table bp \<and> map fr_mem (bp_frames bp') = map fr_mem (bp_frames bp)
    \<and> stored_page p (bp_disk bp') = fr_mem (bp_frames bp ! f)
    \<and> (\<forall>q. q \<noteq> p \<longrightarrow> stored_page q (bp_disk bp') = stored_page q (bp_disk bp))"
proof -
  note d = pool_okD [OF ok]
  let ?fr = "bp_frames bp ! f"
  let ?fr' = "?fr\<lparr>fr_dirty := False\<rparr>"
  let ?d = "write_page p (fr_mem ?fr) (bp_disk bp)"
  have f: "f < n" "f \<in> snd ` set (bp_table bp)"
    using table_okD(4) [OF d(6) pf] snd_setI [OF pf] by auto
  have mp: "map_of (bp_table bp) p = Some f" using pf table_okD(1) [OF d(6)] by simp
  have p: "p \<in> dom m" using d(7) pf by force
  note put = dk.put_ok [OF d(3) _ d(5) [OF f(1)], of p, unfolded d(4), OF p]
  have evict: "evictable_frames (bp_replacer bp) =
      (if fr_pins ?fr' = 0 then insert f (evictable_frames (bp_replacer bp))
       else evictable_frames (bp_replacer bp) - {f})"
    using d(11) f(2) by auto
  have kept: "fr_mem ?fr' = x" if "m p = Some (Some x)" for x
    using d(13) [OF that] mp by (simp add: page_kept_def)
  let ?bp = "(set_frame f ?fr' bp)\<lparr>bp_replacer := bp_replacer bp, bp_disk := ?d\<rparr>"
  have "pool_ok n ?bp gs m"
    using put p kept d(2,4,12) d(5) [OF f(1)] d(8) [OF pf] d(9) [OF pf]
    by (intro change_frame_ok [OF ok pf _ _ _ _ _ _ _ evict]) simp_all
  moreover have "flush_page p bp = (True, ?bp)"
    using mp by (simp add: flush_page_def table_index_def Let_def set_frame_def)
  moreover have "map fr_mem (bp_frames ?bp) = map fr_mem (bp_frames bp)"
    using f(1) d(1) by (simp add: set_frame_def list_eq_iff_nth_eq nth_list_update)
  moreover have "bp_table ?bp = bp_table bp" "bp_disk ?bp = ?d" by (simp_all add: set_frame_def)
  ultimately show ?thesis using put by metis
qed

lemma flush_pages_ok:
  assumes "pool_ok n bp gs m" "set xs \<subseteq> set (bp_table bp)"
  shows "\<exists>bp'. fold (\<lambda>x b. snd (flush_page (fst x) b)) xs bp = bp' \<and> pool_ok n bp' gs m
    \<and> bp_table bp' = bp_table bp \<and> map fr_mem (bp_frames bp') = map fr_mem (bp_frames bp)
    \<and> (\<forall>(p, f)\<in>set xs. stored_page p (bp_disk bp') = fr_mem (bp_frames bp ! f))
    \<and> (\<forall>q. q \<notin> fst ` set xs \<longrightarrow> stored_page q (bp_disk bp') = stored_page q (bp_disk bp))"
  using assms
proof (induction xs arbitrary: bp)
  case (Cons x xs)
  obtain p f where x: "x = (p, f)" by (cases x)
  have pf: "(p, f) \<in> set (bp_table bp)" using Cons.prems(2) x by simp
  obtain b where b: "flush_page p bp = (True, b)" "pool_ok n b gs m" "bp_table b = bp_table bp"
    "map fr_mem (bp_frames b) = map fr_mem (bp_frames bp)"
    "stored_page p (bp_disk b) = fr_mem (bp_frames bp ! f)"
    "\<And>q. q \<noteq> p \<Longrightarrow> stored_page q (bp_disk b) = stored_page q (bp_disk bp)"
    using flush_page_ok [OF Cons.prems(1) pf] by metis
  have mem: "fr_mem (bp_frames b ! g) = fr_mem (bp_frames bp ! g)" if "g < n" for g
    using b(4) that pool_okD(1) [OF b(2)] pool_okD(1) [OF Cons.prems(1)] by (metis nth_map)
  have tab: "table_ok (bp_table bp) (bp_free bp) n" using pool_okD(6) [OF Cons.prems(1)] .
  obtain b' where b': "fold (\<lambda>x b. snd (flush_page (fst x) b)) xs b = b'" "pool_ok n b' gs m"
    "bp_table b' = bp_table b" "map fr_mem (bp_frames b') = map fr_mem (bp_frames b)"
    "\<And>q g. (q, g) \<in> set xs \<Longrightarrow> stored_page q (bp_disk b') = fr_mem (bp_frames b ! g)"
    "\<And>q. q \<notin> fst ` set xs \<Longrightarrow> stored_page q (bp_disk b') = stored_page q (bp_disk b)"
    using Cons.IH [OF b(2)] Cons.prems(2) b(3) by fastforce
  have "stored_page q (bp_disk b') = fr_mem (bp_frames bp ! g)" if "(q, g) \<in> set (x # xs)" for q g
  proof (cases "q \<in> fst ` set xs")
    case True
    then obtain h where h: "(q, h) \<in> set xs" by auto
    have "(q, h) \<in> set (bp_table bp)" "(q, g) \<in> set (bp_table bp)"
      using h that Cons.prems(2) by auto
    then have "h = g" "g < n" using table_okD(3,4) [OF tab] by blast+
    then show ?thesis using b'(5) [OF h] mem by simp
  next
    case False
    then have "q = p" "g = f" using that x by (auto intro: rev_image_eqI)
    then show ?thesis using b'(6) [OF False] b(5) by simp
  qed
  moreover have "stored_page q (bp_disk b') = stored_page q (bp_disk bp)"
    if "q \<notin> fst ` set (x # xs)" for q
    using that b(6) b'(6) x by simp
  ultimately show ?case using b b' x by auto
qed auto

text \<open>After \<open>FlushAllPages\<close> every page in use is on disk.\<close>

lemma flush_all_ok:
  assumes ok: "pool_ok n bp gs m"
  shows "pool_ok n (flush_all_pages bp) gs m"
    "m p = Some (Some x) \<Longrightarrow> stored_page p (bp_disk (flush_all_pages bp)) = x"
proof -
  obtain b where b: "fold (\<lambda>x b. snd (flush_page (fst x) b)) (bp_table bp) bp = b" "pool_ok n b gs m"
    "bp_table b = bp_table bp" "map fr_mem (bp_frames b) = map fr_mem (bp_frames bp)"
    "\<And>p f. (p, f) \<in> set (bp_table bp) \<Longrightarrow> stored_page p (bp_disk b) = fr_mem (bp_frames bp ! f)"
    "\<And>q. q \<notin> fst ` set (bp_table bp) \<Longrightarrow> stored_page q (bp_disk b) = stored_page q (bp_disk bp)"
    using flush_pages_ok [OF ok subset_refl] by fastforce
  have fl: "flush_all_pages bp = b\<lparr>bp_disk := fully_flush (bp_disk b)\<rparr>"
    using b(1) by (simp add: flush_all_pages_def)
  note d = pool_okD [OF b(2)]
  let ?d = "fully_flush (bp_disk b)"
  have full: "disk_inv ?d" "live_pages ?d = dom m" "\<And>q. 0 < q \<Longrightarrow> stored_page q ?d = stored_page q (bp_disk b)"
    using fully_flush_ok [OF d(3)] d(4) by (auto simp: stored_page_def)
  have pos: "0 < q" if "q \<in> dom m" for q using live_bound [OF d(3)] d(4) that by blast
  show "pool_ok n (flush_all_pages bp) gs m"
    unfolding fl
  proof (rule pool_okI)
    show "page_kept (b\<lparr>bp_disk := ?d\<rparr>) gs q y" if "m q = Some (Some y)" for q y
      using d(13) [OF that] full(3) [OF pos] that by (subst page_kept_cong [of _ b]) auto
  qed (use d full in simp_all)
  show "stored_page p (bp_disk (flush_all_pages bp)) = x" if "m p = Some (Some x)"
  proof -
    have p: "stored_page p ?d = stored_page p (bp_disk b)" using full(3) pos that by blast
    have "page_kept bp gs p x" using pool_okD(13) [OF ok that] .
    then have "stored_page p (bp_disk b) = x"
      using b(5,6) table_okD(1) [OF pool_okD(6) [OF ok]]
      by (cases "map_of (bp_table bp) p") (auto simp: page_kept_def map_of_table_None)
    then show ?thesis using p fl by simp
  qed
qed

lemma delete_page_ok:
  assumes ok: "pool_ok n bp gs m" and pf: "(p, f) \<in> set (bp_table bp)"
    and pins: "fr_pins (bp_frames bp ! f) = 0"
  shows "\<exists>bp'. delete_page p bp = Inr (True, bp') \<and> pool_ok n bp' gs (m(p := None))"
proof -
  note d = pool_okD [OF ok]
  have f: "f < n" "f \<in> snd ` set (bp_table bp)"
    using table_okD(4) [OF d(6) pf] snd_setI [OF pf] by auto
  have mp: "map_of (bp_table bp) p = Some f" using pf table_okD(1) [OF d(6)] by simp
  have "f \<in> evictable_frames (bp_replacer bp)" using d(11) f(2) pins by simp
  then obtain r where r: "try_evict_exact f (bp_replacer bp) = Inr (True, r)" "replacer_ok n r"
    "tracked_frames r = tracked_frames (bp_replacer bp) - {f}"
    "evictable_frames r = evictable_frames (bp_replacer bp) - {f}"
    using lru.evict_frame_ok [OF d(2) f(1)] by auto
  let ?fr = "\<lparr>fr_mem = zero_page, fr_dirty = False, fr_pins = 0, fr_id = 0\<rparr>"
  define bp' where "bp' = (set_frame f ?fr bp)\<lparr>bp_table := table_erase p (bp_table bp),
    bp_replacer := r, bp_free := bp_free bp @ [f], bp_disk := dealloc_page p (bp_disk bp)\<rparr>"
  have run: "delete_page p bp = Inr (True, bp')"
    using mp pins r(1) by (simp add: delete_page_def bp'_def set_frame_def)
  note te = table_erase_ok [OF d(6) pf]
  have p: "p \<in> live_pages (bp_disk bp)" using d(4,7) pf by force
  note fr = dk.free_ok [OF d(3) p]
  have simps: "bp_table bp' = table_erase p (bp_table bp)" "bp_free bp' = bp_free bp @ [f]"
    "bp_replacer bp' = r" "bp_disk bp' = dealloc_page p (bp_disk bp)" "length (bp_frames bp') = n"
    using d(1) by (simp_all add: bp'_def set_frame_def)
  have at: "bp_frames bp' ! g = (if g = f then ?fr else bp_frames bp ! g)" for g
    using f(1) d(1) by (simp add: bp'_def set_frame_def)
  have old: "(q, g) \<in> set (bp_table bp') \<longleftrightarrow> (q, g) \<in> set (bp_table bp) \<and> q \<noteq> p \<and> g \<noteq> f" for q g
    using te(2) simps(1) table_okD(2,3) [OF d(6)] pf by auto
  have snds: "snd ` set (bp_table bp') = snd ` set (bp_table bp) - {f}"
  proof (rule set_eqI)
    fix g
    have "(\<exists>q. (q, g) \<in> set (bp_table bp')) \<longleftrightarrow> (\<exists>q. (q, g) \<in> set (bp_table bp)) \<and> g \<noteq> f"
      unfolding old using table_okD(3) [OF d(6) pf] by blast
    then show "g \<in> snd ` set (bp_table bp') \<longleftrightarrow> g \<in> snd ` set (bp_table bp) - {f}"
      by (simp add: image_iff Bex_def)
  qed
  have "pool_ok n bp' gs (m(p := None))"
  proof (rule pool_okI)
    show "length (fr_mem (bp_frames bp' ! g)) = page_size" if "g < n" for g
      using d(5) [OF that] by (simp add: at)
    show "fst ` set (bp_table bp') \<subseteq> dom (m(p := None))"
    proof
      fix q assume "q \<in> fst ` set (bp_table bp')"
      then obtain g where "(q, g) \<in> set (bp_table bp')" by auto
      then have "(q, g) \<in> set (bp_table bp)" "q \<noteq> p" using old by blast+
      then show "q \<in> dom (m(p := None))" using d(7) by force
    qed
    show "fr_id (bp_frames bp' ! g) = q" "fr_pins (bp_frames bp' ! g) = size (guards_on gs g)"
      if "(q, g) \<in> set (bp_table bp')" for q g
      using that [unfolded old] d(8) [of q g] d(9) [of q g] by (simp_all add: at)
    show "evictable_frames (bp_replacer bp') =
        {g \<in> snd ` set (bp_table bp'). fr_pins (bp_frames bp' ! g) = 0}"
      using r(4) d(11) snds simps(3) by (auto simp: at)
    show "\<exists>h\<in>snd ` set (bp_table bp'). gd_frame g = Some h" if g: "g \<in># gs" for g
    proof -
      obtain h where h: "h \<in> snd ` set (bp_table bp)" "gd_frame g = Some h"
        using d(12) [OF g] by blast
      have "guards_on gs f = {#}" using d(9) [OF pf] pins by simp
      then have "h \<noteq> f" using h(2) g by (auto simp: guards_on_def)
      then show ?thesis using h snds by blast
    qed
    show "page_kept bp' gs q y" if q: "(m(p := None)) q = Some (Some y)" for q y
    proof -
      have qp: "q \<noteq> p" "m q = Some (Some y)" using q by (auto split: if_splits)
      show ?thesis
      proof (rule page_kept_other [OF d(6) te(1) [folded simps(1)] _ _ _ d(13) [OF qp(2)]])
        show "(q, g) \<in> set (bp_table bp') \<and> bp_frames bp' ! g = bp_frames bp ! g
            \<and> guards_on gs g = guards_on gs g" if "(q, g) \<in> set (bp_table bp)" for g
        proof -
          have "g \<noteq> f" using that qp(1) table_okD(2) [OF d(6)] pf by blast
          then show ?thesis using that old qp(1) by (simp add: at)
        qed
        show "q \<notin> fst ` set (bp_table bp')" if "q \<notin> fst ` set (bp_table bp)"
          using that te(2) simps(1) by auto
        show "stored_page q (bp_disk bp') = stored_page q (bp_disk bp)"
          using fr qp(1) simps(4) by simp
      qed
    qed
  qed (use d fr r te simps snds in simp_all)
  then show ?thesis using run by blast
qed

text \<open>Move assignment releases the page the target held and takes the guard over.\<close>

lemma guard_assign_ok:
  assumes "pool_ok n bp (add_mset g (add_mset h gs)) m"
  shows "\<exists>bp'. guard_assign g h bp = Inr (h, empty_guard, bp') \<and> pool_ok n bp' (add_mset h gs) m"
  using guard_drop_ok [OF assms] by (auto simp: guard_assign_def)

section \<open>Histories of a pool\<close>

text \<open>
  \<open>pool_history n bp gs m\<close>: a pool of \<open>n\<close> frames, opened on a page file and used through
  guards; \<open>gs\<close> are the guards that are held and \<open>m\<close> maps the pages in use to what was
  last written to them, on the file or through a guard.
\<close>

inductive pool_history :: "nat \<Rightarrow> pool \<Rightarrow> guard multiset \<Rightarrow> (nat \<rightharpoonup> page option) \<Rightarrow> bool"
  for n :: nat where
  opened: "page_history d m \<Longrightarrow> 1 < k \<Longrightarrow> length records = n \<Longrightarrow> length garbage = n \<Longrightarrow>
    (\<forall>fr\<in>set garbage. length (fr_mem fr) = page_size) \<Longrightarrow>
    pool_history n (new_pool garbage records k d) {#} m"
| page_made: "pool_history n bp gs m \<Longrightarrow> disk_room (bp_disk bp) \<Longrightarrow>
    new_page_guarded bp = Inr (g, p, bp') \<Longrightarrow> pool_history n bp' (add_mset g gs) (m(p \<mapsto> None))"
| fetched: "pool_history n bp gs m \<Longrightarrow> p \<in> dom m \<Longrightarrow> fetch_guarded p bp = Inr (g, bp') \<Longrightarrow>
    pool_history n bp' (add_mset g gs) m"
| modified: "pool_history n bp (add_mset g gs) m \<Longrightarrow> length x = page_size \<Longrightarrow>
    guard_page_id g bp = Inr p \<Longrightarrow> guard_write g x bp = Inr (g', bp') \<Longrightarrow>
    pool_history n bp' (add_mset g' gs) (m(p \<mapsto> Some x))"
| dropped: "pool_history n bp (add_mset g gs) m \<Longrightarrow> guard_drop g bp = Inr (g', bp') \<Longrightarrow>
    pool_history n bp' gs m"
| deleted: "pool_history n bp gs m \<Longrightarrow> delete_page p bp = Inr (True, bp') \<Longrightarrow>
    resident bp p \<Longrightarrow> pool_history n bp' gs (m(p := None))"
| not_deleted: "pool_history n bp gs m \<Longrightarrow> delete_page p bp = Inr (ok, bp') \<Longrightarrow>
    \<not> resident bp p \<or> \<not> ok \<Longrightarrow> pool_history n bp' gs m"
| flushed: "pool_history n bp gs m \<Longrightarrow> resident bp p \<Longrightarrow>
    pool_history n (snd (flush_page p bp)) gs m"
| all_flushed: "pool_history n bp gs m \<Longrightarrow> pool_history n (flush_all_pages bp) gs m"

lemma new_pool_holds:
  assumes d: "disk_inv d" "live_pages d = dom m" "\<And>p x. m p = Some (Some x) \<Longrightarrow> stored_page p d = x"
    and k: "1 < k" and l: "length records = n" "length garbage = n"
    and mem: "\<forall>fr\<in>set garbage. length (fr_mem fr) = page_size"
  shows "pool_ok n (new_pool garbage records k d) {#} m"
proof -
  have r: "replacer_ok n (new_replacer records k)" "tracked_frames (new_replacer records k) = {}"
    using new_replacer_ok [OF k, of records] l by auto
  then have "evictable_frames (new_replacer records k) = {}"
    using lru.evictable_tracked [OF r(1)] by auto
  then show ?thesis
    using d r l mem
    by (intro pool_okI)
      (simp_all add: new_pool_def table_ok_def page_kept_def lessThan_atLeast0)
qed

lemma new_pool_ok:
  assumes "page_history d m" "1 < k" "length records = n" "length garbage = n"
    "\<forall>fr\<in>set garbage. length (fr_mem fr) = page_size"
  shows "pool_ok n (new_pool garbage records k d) {#} m"
  using page_history_sound [OF assms(1)] assms(2-5) by (intro new_pool_holds) auto

lemma fetch_guarded_cases:
  assumes "pool_ok n bp gs m" "p \<in> dom m"
  shows "(fetch_guarded p bp = Inl Runtime_error \<and> all_pinned bp \<and> \<not> resident bp p)
    \<or> (\<exists>f bp'. fetch_guarded p bp = Inr (fresh_guard f, bp')
        \<and> \<not> (all_pinned bp \<and> \<not> resident bp p)
        \<and> fr_id (bp_frames bp' ! f) = p \<and> pool_ok n bp' (add_mset (fresh_guard f) gs) m)"
  using fetch_page_ok [OF assms]
  by (auto simp: fetch_guarded_def guard_of_def fresh_guard_def)

lemma new_page_guarded_cases:
  assumes "pool_ok n bp gs m" "disk_room (bp_disk bp)"
  shows "(new_page_guarded bp = Inl Runtime_error \<and> all_pinned bp)
    \<or> (\<exists>f p bp'. new_page_guarded bp = Inr (fresh_guard f, p, bp') \<and> \<not> all_pinned bp
        \<and> m p = None \<and> pool_ok n bp' (add_mset (fresh_guard f) gs) (m(p \<mapsto> None)))"
  using new_page_ok [OF assms]
  by (auto simp: new_page_guarded_def guard_of_def fresh_guard_def)

lemma pool_history_ok: "pool_history n bp gs m \<Longrightarrow> pool_ok n bp gs m"
proof (induction rule: pool_history.induct)
  case (opened d m k records garbage)
  then show ?case by (intro new_pool_ok)
next
  case (page_made bp gs m g p bp')
  then show ?case using new_page_guarded_cases [of n bp gs m] by (auto simp del: fun_upd_apply)
next
  case (fetched bp gs m p g bp')
  then show ?case using fetch_guarded_cases [of n bp gs m p] by auto
next
  case (modified bp g gs m x p g' bp')
  then show ?case
    using guard_write_ok [OF modified.IH modified.hyps(2)] by (auto simp del: fun_upd_apply)
next
  case (dropped bp g gs m g' bp')
  then show ?case using guard_drop_ok [OF dropped.IH] by auto
next
  case (deleted bp gs m p bp')
  then obtain f where f: "(p, f) \<in> set (bp_table bp)" by (auto simp: resident_def)
  then have "map_of (bp_table bp) p = Some f"
    using table_okD(1) [OF pool_okD(6) [OF deleted.IH]] by simp
  then have "fr_pins (bp_frames bp ! f) = 0"
    using deleted.hyps(2) by (simp add: delete_page_def Let_def split: if_splits)
  then show ?case
    using delete_page_ok [OF deleted.IH f] deleted.hyps(2) by (auto simp del: fun_upd_apply)
next
  case (not_deleted bp gs m p ok bp')
  have "bp' = bp"
  proof (cases "map_of (bp_table bp) p")
    case None
    then show ?thesis using not_deleted.hyps(2) by (simp add: delete_page_def)
  next
    case (Some f)
    then have "\<not> ok" using not_deleted.hyps(3) by (simp add: resident_map_of)
    then show ?thesis
      using not_deleted.hyps(2) Some
      by (auto simp: delete_page_def Let_def rbind_Inr split: if_splits)
  qed
  then show ?case using not_deleted.IH by simp
next
  case (flushed bp gs m p)
  then obtain f where "(p, f) \<in> set (bp_table bp)" by (auto simp: resident_def)
  then show ?case using flush_page_ok [OF flushed.IH] by fastforce
next
  case (all_flushed bp gs m)
  then show ?case by (intro flush_all_ok)
qed

lemma guard_reads:
  assumes ok: "pool_ok n bp gs m" and g: "g \<in># gs" "guard_page_id g bp = Inr p"
    and x: "m p = Some (Some x)"
  shows "guard_data g bp = Inr x"
proof -
  obtain hs where "gs = add_mset g hs" using g(1) by (metis insert_DiffM)
  then obtain f q where f: "gd_frame g = Some f" "(q, f) \<in> set (bp_table bp)"
    "fr_id (bp_frames bp ! f) = q"
    using guard_mapped ok by metis
  then have "q = p" using g(2) by (simp add: guard_page_id_def)
  then have "map_of (bp_table bp) p = Some f"
    using f(2) table_okD(1) [OF pool_okD(6) [OF ok]] by simp
  then show ?thesis using pool_okD(13) [OF ok x] f(1) by (simp add: guard_data_def page_kept_def)
qed

section \<open>Properties\<close>


text \<open>
  Fetching a page in use fails, with the exception ``Buffer Pool is full'', exactly
  when it is not in the pool, no frame is free and every page in the pool is pinned; it
  has no other error.
\<close>

theorem fetch_fails_iff_all_pinned:
  assumes "pool_history n bp gs m" "p \<in> dom m"
  shows "(fetch_guarded p bp = Inl e) =
    (e = Runtime_error \<and> all_pinned bp \<and> \<not> resident bp p)"
  using fetch_guarded_cases [OF pool_history_ok [OF assms(1)] assms(2)] by auto

text \<open>
  After \<open>FlushAllPages\<close> (which the destructor calls) every page is in the file:
  closing it and opening it again gives what was last written through any guard.
\<close>

theorem flushed_pages_survive_reopening:
  assumes "pool_history n bp gs m" "m p = Some (Some x)" "length buf = page_size"
  shows "read_page p old (reopen_disk buf (bp_disk (flush_all_pages bp))) = x"
proof -
  have ok: "pool_ok n bp gs m" using pool_history_ok [OF assms(1)] .
  let ?d = "bp_disk (flush_all_pages bp)"
  note d = pool_okD [OF flush_all_ok(1) [OF ok]]
  have p: "p \<in> live_pages ?d" using d(4) assms(2) by auto
  have "stored_page p ?d = x" using flush_all_ok(2) [OF ok assms(2)] .
  then have "read_page p old ?d = x" using read_live_page [OF d(3) p] by simp
  then show ?thesis
    using reopen_disk_ok(3) [OF d(3) [unfolded disk_inv_def] assms(3), of p old]
      live_bound [OF d(3) p] by simp
qed

text \<open>
  \<open>FlushPage\<close> of a page that is not in the pool does not fail as documented: the
  index operator has entered the page with frame 0 before the lookup, so it overwrites the
  page on disk with the content of frame 0.
\<close>

theorem flush_of_absent_page_overwrites_it:
  assumes "pool_history n bp gs m" "p \<in> dom m" "\<not> resident bp p" "0 < n"
  shows "fst (flush_page p bp)
    \<and> read_page p old (bp_disk (snd (flush_page p bp))) = fr_mem (bp_frames bp ! 0)"
proof -
  note d = pool_okD [OF pool_history_ok [OF assms(1)]]
  have none: "map_of (bp_table bp) p = None" using assms(3) by (simp add: resident_map_of)
  then have "(p, 0) \<in> set (table_insert p 0 (bp_table bp))"
    by (simp add: table_insert_def set_insort_key)
  then have "map_of (table_insert p 0 (bp_table bp)) p \<noteq> None"
    by (metis weak_map_of_SomeI option.distinct(1))
  then have run: "flush_page p bp = (True, (set_frame 0 ((bp_frames bp ! 0)\<lparr>fr_dirty := False\<rparr>) bp)
      \<lparr>bp_disk := write_page p (fr_mem (bp_frames bp ! 0)) (bp_disk bp),
       bp_table := table_insert p 0 (bp_table bp)\<rparr>)"
    using none by (simp add: flush_page_def table_index_def Let_def)
  have p: "p \<in> live_pages (bp_disk bp)" using d(4) assms(2) by simp
  have "read_page p old (write_page p (fr_mem (bp_frames bp ! 0)) (bp_disk bp)) = fr_mem (bp_frames bp ! 0)"
    using write_page_live(3) [OF d(3) p d(5) [OF assms(4)]] by simp
  then show ?thesis using run by simp
qed

section \<open>A pool of one frame\<close>

definition blank_frame :: frame where
  "blank_frame = \<lparr>fr_mem = zero_page, fr_dirty = False, fr_pins = 0, fr_id = 0\<rparr>"

lemma single_frame_free: "pool_ok 1 bp {#} m \<Longrightarrow> \<not> all_pinned bp"
proof
  assume ok: "pool_ok 1 bp {#} m" and all: "all_pinned bp"
  note d = pool_okD [OF ok]
  have "snd ` set (bp_table bp) = {..<1}" using d(6) all by (simp add: table_ok_def all_pinned_def)
  then have "0 \<in> snd ` set (bp_table bp)" by simp
  then obtain p where "(p, 0) \<in> set (bp_table bp)" by fastforce
  then have "fr_pins (bp_frames bp ! 0) = 0" "0 \<in> snd ` set (bp_table bp)"
    using d(9) [of p 0] snd_setI by (simp_all add: guards_on_def)
  then show False using all unfolding all_pinned_def by (metis less_irrefl)
qed

lemma single_frame_held:
  assumes ok: "pool_ok 1 bp {#g#} m" and p: "guard_page_id g bp = Inr p"
  shows "all_pinned bp" "resident bp q \<longleftrightarrow> q = p"
proof -
  note d = pool_okD [OF ok]
  obtain f z where f: "gd_frame g = Some f" "(z, f) \<in> set (bp_table bp)"
    "fr_id (bp_frames bp ! f) = z" "f < 1" "fr_pins (bp_frames bp ! f) = Suc (size (guards_on {#} f))"
    using guard_mapped [OF ok] by metis
  then have q: "z = p" "f = 0" using p by (simp_all add: guard_page_id_def)
  have only: "x = p \<and> h = 0" if "(x, h) \<in> set (bp_table bp)" for x h
  proof -
    have "h = 0" using table_okD(4) [OF d(6) that] by simp
    then show ?thesis using table_okD(2) [OF d(6), of x 0 p] that f(2) q by simp
  qed
  then have "q \<in> fst ` set (bp_table bp) \<Longrightarrow> q = p" by auto
  moreover have "p \<in> fst ` set (bp_table bp)" using f(2) q(1) by (auto intro: rev_image_eqI)
  ultimately show "resident bp q \<longleftrightarrow> q = p" unfolding resident_def by blast
  have "h \<notin> set (bp_free bp)" for h
    using table_okD(6) [OF d(6), of h] table_okD(5) [OF d(6) f(2)] q(2) by auto
  then have "bp_free bp = []" by (cases "bp_free bp") auto
  moreover have "0 < fr_pins (bp_frames bp ! h)" if "h \<in> snd ` set (bp_table bp)" for h
  proof -
    obtain x where "(x, h) \<in> set (bp_table bp)" using \<open>h \<in> snd ` set (bp_table bp)\<close> by auto
    then have "h = 0" using only by blast
    then show ?thesis using f(5) q(2) by simp
  qed
  ultimately show "all_pinned bp" by (simp add: all_pinned_def)
qed

lemma history_fetch:
  assumes h: "pool_history 1 bp {#} m" and p: "p \<in> dom m"
  shows "\<exists>g bp'. pool_history 1 bp' {#g#} m \<and> guard_page_id g bp' = Inr p"
proof -
  obtain f bp' where f: "fetch_guarded p bp = Inr (fresh_guard f, bp')" "fr_id (bp_frames bp' ! f) = p"
    using fetch_guarded_cases [OF pool_history_ok [OF h] p] single_frame_free pool_history_ok [OF h]
    by blast
  then have "guard_page_id (fresh_guard f) bp' = Inr p"
    by (simp add: guard_page_id_def fresh_guard_def)
  then show ?thesis using fetched [OF h p f(1)] by auto
qed

text \<open>Page 1 is fetched, written and dropped, then page 2 takes its frame.\<close>

lemma history_swap:
  "\<exists>bp g m. pool_history 1 bp {#g#} m \<and> guard_page_id g bp = Inr 2
    \<and> m 1 = Some (Some (filled 9)) \<and> m 2 = Some (Some (filled 7))"
proof -
  obtain d m where s: "page_history d m" "m 1 = Some None" "m 2 = Some (Some (filled 7))"
    using sample_file_exists by (auto simp: sample_file_def)
  let ?b0 = "new_pool [blank_frame] [blank_record] 2 d"
  have h0: "pool_history 1 ?b0 {#} m"
    by (rule opened [OF s(1)]) (simp_all add: blank_frame_def)
  have "1 \<in> dom m" using s(2) by auto
  then obtain g b1 where h1: "pool_history 1 b1 {#g#} m" "guard_page_id g b1 = Inr 1"
    using history_fetch [OF h0] by blast
  obtain b2 where b2: "guard_write g (filled 9) b1 = Inr (g\<lparr>gd_dirty := True\<rparr>, b2)"
    using guard_write_ok [of 1 b1 g "{#}" m "filled 9"] pool_history_ok [OF h1(1)] by auto
  let ?m = "m(1 \<mapsto> Some (filled 9))"
  have h2: "pool_history 1 b2 {#g\<lparr>gd_dirty := True\<rparr>#} ?m"
    using modified [OF h1(1) _ h1(2) b2] by simp
  obtain b3 where "guard_drop (g\<lparr>gd_dirty := True\<rparr>) b2 = Inr (empty_guard, b3)"
    using guard_drop_ok [OF pool_history_ok [OF h2]] by blast
  then have h3: "pool_history 1 b3 {#} ?m" using dropped h2 by blast
  have "2 \<in> dom ?m" using s(3) by auto
  then obtain g' b4 where "pool_history 1 b4 {#g'#} ?m" "guard_page_id g' b4 = Inr 2"
    using history_fetch [OF h3] by blast
  then show ?thesis using s(3) by fastforce
qed

lemma history_swap_back:
  "\<exists>bp g m. pool_history 1 bp {#g#} m \<and> guard_page_id g bp = Inr 1 \<and> m 1 = Some (Some (filled 9))"
proof -
  obtain bp g m where h: "pool_history 1 bp {#g#} m" "m 1 = Some (Some (filled 9))"
    using history_swap by blast
  obtain b where "guard_drop g bp = Inr (empty_guard, b)"
    using guard_drop_ok [of 1 bp g "{#}" m] pool_history_ok [OF h(1)] by auto
  then have "pool_history 1 b {#} m" using dropped [of 1 bp g "{#}" m] h(1) by simp
  then show ?thesis using history_fetch [of b m 1] h(2) by blast
qed


lemma fetch_fails_iff_all_pinned_witness:
  "\<exists>bp g m. pool_history 1 bp {#g#} m \<and> m 1 \<noteq> None \<and> fetch_guarded 1 bp = Inl Runtime_error
    \<and> (\<exists>r. fetch_guarded 2 bp = Inr r)"
proof -
  obtain bp g m where h: "pool_history 1 bp {#g#} m" "guard_page_id g bp = Inr 2"
    "m 1 = Some (Some (filled 9))" "m 2 = Some (Some (filled 7))"
    using history_swap by blast
  note b = single_frame_held [OF pool_history_ok [OF h(1)] h(2)]
  have 1: "fetch_guarded 1 bp = Inl Runtime_error"
    using fetch_fails_iff_all_pinned [OF h(1), of 1 Runtime_error] h(3) b by auto
  have "fetch_guarded 2 bp \<noteq> Inl e" for e
    using fetch_fails_iff_all_pinned [OF h(1), of 2 e] h(4) b by auto
  then have 2: "\<exists>r. fetch_guarded 2 bp = Inr r" by (cases "fetch_guarded 2 bp") auto
  have "m 1 \<noteq> None" using h(3) by simp
  then show ?thesis using h(1) 1 2 by blast
qed

lemma flushed_pages_survive_reopening_witness:
  "\<exists>bp g m. pool_history 1 bp {#g#} m
    \<and> read_page 1 zero_page (reopen_disk zero_page (bp_disk (flush_all_pages bp))) = filled 9"
proof -
  obtain bp g m where h: "pool_history 1 bp {#g#} m" "m 1 = Some (Some (filled 9))"
    using history_swap by blast
  then show ?thesis
    using flushed_pages_survive_reopening [OF h, of zero_page zero_page] by auto
qed

lemma flush_of_absent_page_overwrites_it_witness:
  "\<exists>bp g m. pool_history 1 bp {#g#} m \<and> m 1 = Some (Some (filled 9))
    \<and> read_page 1 zero_page (bp_disk (snd (flush_page 1 bp))) = filled 7"
proof -
  obtain bp g m where h: "pool_history 1 bp {#g#} m" "guard_page_id g bp = Inr 2"
    "m 1 = Some (Some (filled 9))" "m 2 = Some (Some (filled 7))"
    using history_swap by blast
  note ok = pool_history_ok [OF h(1)]
  have out: "\<not> resident bp 1" using single_frame_held(2) [OF ok h(2)] by simp
  have "guard_data g bp = Inr (filled 7)" using guard_reads [OF ok _ h(2,4)] by simp
  moreover obtain f where "gd_frame g = Some f" "f < 1"
    using guard_mapped [of 1 bp g "{#}" m] ok by auto
  ultimately have "fr_mem (bp_frames bp ! 0) = filled 7" by (simp add: guard_data_def)
  then show ?thesis
    using flush_of_absent_page_overwrites_it [OF h(1) _ out, of zero_page] h(1,3) by auto
qed

end
