(* ===== verification/Snapshot_Diff.thy ===== *)
theory Snapshot_Diff
  imports Prelude
begin

text \<open>
  Differences of data files, \<open>GenerateDiff\<close> and \<open>ApplyPatch\<close> of
  \<^verbatim>\<open>dataguard/src/snapshot.cpp\<close>. A file is its list of bytes; \<open>uint8_t_reader\<close> and
  \<open>uint8_t_writer\<close> buffer a file and are read and written in sequence. The compression
  (zstd) is a parameter of the file-level functions. The main lemma is that a difference
  applied forward to the old file gives the new one, and backward to the new one the old.
\<close>

type_synonym byte = "8 word"
type_synonym bytes = "byte list"

section \<open>The difference\<close>

text \<open>Four bytes of a 32-bit number, most significant first.\<close>

definition be32 :: "nat \<Rightarrow> bytes" where
  "be32 n = [of_nat (n div 2 ^ 24), of_nat (n div 2 ^ 16), of_nat (n div 2 ^ 8), of_nat n]"

text \<open>One differing stretch: flag 0, its length and position, the old and the new bytes.\<close>

definition hunk :: "nat \<Rightarrow> nat \<Rightarrow> bytes \<Rightarrow> bytes \<Rightarrow> bytes" where
  "hunk len pos old_buf new_buf = 0 # be32 len @ be32 pos @ old_buf @ new_buf"

record diff_state =
  df_buf :: bytes
  df_is_diff :: bool
  df_len :: nat
  df_pos :: nat
  df_old :: bytes
  df_new :: bytes

definition flush_hunk :: "diff_state \<Rightarrow> diff_state" where
  "flush_hunk s = s\<lparr>df_buf := df_buf s @ hunk (df_len s) (df_pos s) (df_old s) (df_new s),
     df_is_diff := False, df_len := 0, df_old := [], df_new := []\<rparr>"

definition diff_byte :: "nat \<Rightarrow> byte \<Rightarrow> byte \<Rightarrow> diff_state \<Rightarrow> diff_state" where
  "diff_byte i o_c n_c s =
     (if o_c = n_c then (if df_is_diff s then flush_hunk s else s)
      else if df_is_diff s
        then s\<lparr>df_old := df_old s @ [o_c], df_new := df_new s @ [n_c], df_len := df_len s + 1\<rparr>
        else s\<lparr>df_is_diff := True, df_len := 1, df_pos := i,
               df_old := df_old s @ [o_c], df_new := df_new s @ [n_c]\<rparr>)"

text \<open>The loop over the shared bytes.\<close>

fun diff_loop :: "nat \<Rightarrow> bytes \<Rightarrow> bytes \<Rightarrow> diff_state \<Rightarrow> diff_state" where
  "diff_loop i (o_c # os) (n_c # ns) s = diff_loop (i + 1) os ns (diff_byte i o_c n_c s)"
| "diff_loop i _ _ s = s"

definition diff_start :: diff_state where
  "diff_start = \<lparr>df_buf = [], df_is_diff = False, df_len = 0, df_pos = 0, df_old = [], df_new = []\<rparr>"

definition diff_stream :: "bytes \<Rightarrow> bytes \<Rightarrow> bytes" where
  "diff_stream old new =
     (let shared = min (length old) (length new);
          s = diff_loop 0 (take shared old) (take shared new) diff_start;
          b1 = (if df_is_diff s
                then df_buf s @ hunk (df_len s) (df_pos s) (df_old s) (df_new s) else df_buf s);
          b2 = (if shared < length old then b1 @ 1 # drop shared old else b1);
          b3 = (if shared < length new then b2 @ 2 # drop shared new else b2)
      in if b3 = [] then [3] else b3)"

section \<open>Applying a difference\<close>

text \<open>\<^verbatim>\<open>uint8_t_reader\<close> returns EOF behind the end, which is byte 255.\<close>

definition read_bytes :: "nat \<Rightarrow> bytes \<Rightarrow> bytes" where
  "read_bytes n inp = take n inp @ replicate (n - length inp) 255"

definition of_be32 :: "bytes \<Rightarrow> nat" where
  "of_be32 bs = fold (\<lambda>b n. n * 256 + unat b) bs 0"

text \<open>
  The reading position: the rest of the input, the number of bytes read, and what was
  written. \<open>copy_to n\<close> copies until \<open>n\<close> bytes are read.
\<close>

record patch_state =
  pt_in :: bytes
  pt_cursor :: nat
  pt_out :: bytes

definition copy_to :: "nat \<Rightarrow> patch_state \<Rightarrow> patch_state" where
  "copy_to n s = (let k = n - pt_cursor s in
     s\<lparr>pt_in := drop k (pt_in s), pt_cursor := pt_cursor s + k,
       pt_out := pt_out s @ read_bytes k (pt_in s)\<rparr>)"

definition put_bytes :: "bytes \<Rightarrow> patch_state \<Rightarrow> patch_state" where
  "put_bytes bs s = s\<lparr>pt_out := pt_out s @ bs\<rparr>"

definition skip_bytes :: "nat \<Rightarrow> patch_state \<Rightarrow> patch_state" where
  "skip_bytes n s = s\<lparr>pt_in := drop n (pt_in s), pt_cursor := pt_cursor s + n\<rparr>"

text \<open>\<^verbatim>\<open>size_t\<close> subtraction.\<close>

definition size_minus :: "nat \<Rightarrow> nat \<Rightarrow> nat" where
  "size_minus a b = (a + 2 ^ 64 - b) mod 2 ^ 64"

text \<open>
  The loop over the difference; \<open>sz\<close> is the length of the file that is patched. A hunk
  cut short would read behind the decompressed buffer.
\<close>

function patch_loop :: "bool \<Rightarrow> nat \<Rightarrow> bytes \<Rightarrow> patch_state \<Rightarrow> bytes result" where
  "patch_loop rv sz [] s = Inr (pt_out (copy_to sz s))"
| "patch_loop rv sz (flag # ds) s =
     (if flag = 3 then Inr (pt_out (copy_to sz s))
      else if flag = 0 then
        (let len = of_be32 (take 4 ds); pos = of_be32 (take 4 (drop 4 ds)); body = drop 8 ds in
         if length ds < 8 + len + len then Inl Undefined
         else patch_loop rv sz (drop (len + len) body)
           (skip_bytes len (put_bytes (if rv then take len body else take len (drop len body))
             (copy_to pos s))))
      else if flag = 1 then
        (if \<not> rv then Inr (pt_out (copy_to (size_minus sz (length ds)) s))
         else Inr (pt_out (put_bytes ds (copy_to sz s))))
      else if flag = 2 then
        (if rv then Inr (pt_out (copy_to (size_minus sz (length ds)) s))
         else Inr (pt_out (put_bytes ds (copy_to sz s))))
      else patch_loop rv sz ds s)"
  by pat_completeness auto

termination patch_loop
  by (relation "measure (\<lambda>(rv, sz, ds, s). length ds)") auto

declare patch_loop.simps [simp del]

definition patch_stream :: "bool \<Rightarrow> bytes \<Rightarrow> bytes \<Rightarrow> bytes result" where
  "patch_stream rv old ds =
     patch_loop rv (length old) ds \<lparr>pt_in = old, pt_cursor = 0, pt_out = []\<rparr>"

section \<open>The stretches of a difference\<close>

lemma of_be32_be32: "n < 2 ^ 32 \<Longrightarrow> of_be32 (be32 n) = n"
proof -
  assume n: "n < 2 ^ 32"
  have 1: "n div 16777216 mod 256 = n div 16777216" using n by (simp add: less_mult_imp_div_less)
  have 2: "n div 16777216 * 256 + n div 65536 mod 256 = n div 65536"
    using div_mult_mod_eq [of "n div 65536" 256] by (simp add: div_mult2_eq [symmetric])
  have 3: "n div 65536 * 256 + n div 256 mod 256 = n div 256"
    using div_mult_mod_eq [of "n div 256" 256] by (simp add: div_mult2_eq [symmetric])
  have 4: "n div 256 * 256 + n mod 256 = n" by simp
  show ?thesis
    by (simp add: of_be32_def be32_def unat_of_nat take_bit_eq_mod 1 2 3 4)
qed

lemma length_be32 [simp]: "length (be32 n) = 4"
  by (simp add: be32_def)

lemma patch_hunk:
  assumes "len < 2 ^ 32" "pos < 2 ^ 32" "length os = len" "length ns = len"
  shows "patch_loop rv sz (hunk len pos os ns @ ds) s = patch_loop rv sz ds
    (skip_bytes len (put_bytes (if rv then os else ns) (copy_to pos s)))"
  using assms
  by (simp add: hunk_def patch_loop.simps(2) of_be32_be32 Let_def)

text \<open>
  The state of the difference loop as a position in both files: \<open>df_len\<close> differing bytes
  end at index \<open>i\<close>.
\<close>

definition diff_at :: "nat \<Rightarrow> diff_state \<Rightarrow> bool" where
  "diff_at i s \<longleftrightarrow> length (df_old s) = df_len s \<and> length (df_new s) = df_len s
     \<and> (df_is_diff s \<longrightarrow> df_pos s + df_len s = i) \<and> (\<not> df_is_diff s \<longrightarrow> df_len s = 0)"

text \<open>
  \<open>patches rv bs frm to\<close>: applying \<open>bs\<close> to a file that starts with \<open>frm\<close> writes
  \<open>to\<close>, up to a stretch that was only compared; what follows sees the reader there.
\<close>

definition patches :: "bool \<Rightarrow> bytes \<Rightarrow> bytes \<Rightarrow> bytes \<Rightarrow> bool" where
  "patches rv bs frm to \<longleftrightarrow> (\<forall>sz ds rest. \<exists>pend done_in done_out. frm = done_in @ pend
     \<and> to = done_out @ pend
     \<and> patch_loop rv sz (bs @ ds) \<lparr>pt_in = frm @ rest, pt_cursor = 0, pt_out = []\<rparr>
       = patch_loop rv sz ds \<lparr>pt_in = pend @ rest, pt_cursor = length done_in, pt_out = done_out\<rparr>)"

lemma patches_nil: "patches rv [] [] []"
  by (simp add: patches_def)

lemma patches_copy: "patches rv bs a b \<Longrightarrow> patches rv bs (a @ cs) (b @ cs)"
  unfolding patches_def
proof (intro allI)
  fix sz ds rest
  assume "\<forall>sz ds rest. \<exists>pend done_in done_out. a = done_in @ pend \<and> b = done_out @ pend
    \<and> patch_loop rv sz (bs @ ds) \<lparr>pt_in = a @ rest, pt_cursor = 0, pt_out = []\<rparr>
      = patch_loop rv sz ds \<lparr>pt_in = pend @ rest, pt_cursor = length done_in, pt_out = done_out\<rparr>"
  then obtain pend done_in done_out where p: "a = done_in @ pend" "b = done_out @ pend"
    "patch_loop rv sz (bs @ ds) \<lparr>pt_in = a @ cs @ rest, pt_cursor = 0, pt_out = []\<rparr>
      = patch_loop rv sz ds \<lparr>pt_in = pend @ cs @ rest, pt_cursor = length done_in, pt_out = done_out\<rparr>"
    by blast
  show "\<exists>pend done_in done_out. a @ cs = done_in @ pend \<and> b @ cs = done_out @ pend
    \<and> patch_loop rv sz (bs @ ds) \<lparr>pt_in = (a @ cs) @ rest, pt_cursor = 0, pt_out = []\<rparr>
      = patch_loop rv sz ds \<lparr>pt_in = pend @ rest, pt_cursor = length done_in, pt_out = done_out\<rparr>"
    using p by (intro exI [of _ "pend @ cs"] exI [of _ done_in] exI [of _ done_out]) simp
qed

lemma copy_pending:
  "copy_to (length done_in + length pend)
     \<lparr>pt_in = pend @ rest, pt_cursor = length done_in, pt_out = done_out\<rparr>
   = \<lparr>pt_in = rest, pt_cursor = length done_in + length pend, pt_out = done_out @ pend\<rparr>"
  by (simp add: copy_to_def Let_def read_bytes_def)

lemma patches_hunk:
  assumes p: "patches rv bs a b" and len: "length os = len" "length ns = len" "len < 2 ^ 32"
    and pos: "length a = pos" "pos < 2 ^ 32"
  shows "patches rv (bs @ hunk len pos os ns) (a @ (if rv then ns else os)) (b @ (if rv then os else ns))"
  unfolding patches_def
proof (intro allI)
  fix sz ds rest
  let ?x = "if rv then ns else os" and ?y = "if rv then os else ns"
  obtain pend done_in done_out where q: "a = done_in @ pend" "b = done_out @ pend"
    "patch_loop rv sz (bs @ hunk len pos os ns @ ds) \<lparr>pt_in = a @ ?x @ rest, pt_cursor = 0, pt_out = []\<rparr>
      = patch_loop rv sz (hunk len pos os ns @ ds)
          \<lparr>pt_in = pend @ ?x @ rest, pt_cursor = length done_in, pt_out = done_out\<rparr>"
    using p unfolding patches_def by blast
  have pos': "pos = length done_in + length pend" using pos(1) q(1) by simp
  have x: "length ?x = len" using len by simp
  have "skip_bytes len (put_bytes ?y (copy_to pos
      \<lparr>pt_in = pend @ ?x @ rest, pt_cursor = length done_in, pt_out = done_out\<rparr>))
    = \<lparr>pt_in = [] @ rest, pt_cursor = length (a @ ?x), pt_out = b @ ?y\<rparr>"
    unfolding pos' copy_pending using q(1,2) x by (simp add: skip_bytes_def put_bytes_def)
  then have run: "patch_loop rv sz ((bs @ hunk len pos os ns) @ ds)
      \<lparr>pt_in = (a @ ?x) @ rest, pt_cursor = 0, pt_out = []\<rparr>
    = patch_loop rv sz ds \<lparr>pt_in = [] @ rest, pt_cursor = length (a @ ?x), pt_out = b @ ?y\<rparr>"
    using q(3) patch_hunk [OF len(3) pos(2) len(1,2)] by simp
  show "\<exists>pend done_in done_out. a @ ?x = done_in @ pend \<and> b @ ?y = done_out @ pend
    \<and> patch_loop rv sz ((bs @ hunk len pos os ns) @ ds)
        \<lparr>pt_in = (a @ ?x) @ rest, pt_cursor = 0, pt_out = []\<rparr>
      = patch_loop rv sz ds \<lparr>pt_in = pend @ rest, pt_cursor = length done_in, pt_out = done_out\<rparr>"
    by (intro exI [of _ "[]"] exI [of _ "a @ ?x"] exI [of _ "b @ ?y"]) (use run in simp)
qed

text \<open>
  The invariant of the difference loop: what is written covers the part before the open
  stretch, in both directions.
\<close>

definition covers :: "diff_state \<Rightarrow> bytes \<Rightarrow> bytes \<Rightarrow> bool" where
  "covers s os ns \<longleftrightarrow> diff_at (length os) s \<and> length ns = length os
     \<and> (\<exists>a b. os = a @ df_old s \<and> ns = b @ df_new s \<and> length a = length b
         \<and> patches False (df_buf s) a b \<and> patches True (df_buf s) b a)"

lemma covers_flushed:
  assumes c: "covers s os ns" and l: "length os < 2 ^ 32"
  shows "patches False (df_buf (if df_is_diff s then flush_hunk s else s)) os ns"
    "patches True (df_buf (if df_is_diff s then flush_hunk s else s)) ns os"
proof -
  obtain a b where ab: "os = a @ df_old s" "ns = b @ df_new s" "length a = length b"
    "patches False (df_buf s) a b" "patches True (df_buf s) b a"
    using c by (auto simp: covers_def)
  have at: "length (df_old s) = df_len s" "length (df_new s) = df_len s"
    "df_is_diff s \<Longrightarrow> df_pos s = length a" "\<not> df_is_diff s \<Longrightarrow> df_len s = 0"
    using c ab(1) by (auto simp: covers_def diff_at_def)
  have le: "df_len s < 2 ^ 32" "length a < 2 ^ 32" using l ab(1) at(1) by auto
  have "patches False (df_buf (if df_is_diff s then flush_hunk s else s)) os ns
    \<and> patches True (df_buf (if df_is_diff s then flush_hunk s else s)) ns os"
  proof (cases "df_is_diff s")
    case True
    then show ?thesis
      using patches_hunk [OF ab(4) at(1,2) le(1) _ le(2)] patches_hunk [OF ab(5) at(1,2) le(1)] 
        at(3) le ab by (simp add: flush_hunk_def)
  next
    case False
    then have "df_old s = []" "df_new s = []" using at by auto
    then show ?thesis using False ab by simp
  qed
  then show "patches False (df_buf (if df_is_diff s then flush_hunk s else s)) os ns"
    "patches True (df_buf (if df_is_diff s then flush_hunk s else s)) ns os" by blast+
qed

lemma covers_step:
  assumes c: "covers s os ns" and l: "length os < 2 ^ 32"
  shows "covers (diff_byte (length os) x y s) (os @ [x]) (ns @ [y])"
proof (cases "x = y")
  case True
  let ?s = "if df_is_diff s then flush_hunk s else s"
  note f = covers_flushed [OF c l]
  have empty: "df_old ?s = []" "df_new ?s = []" "df_len ?s = 0" "\<not> df_is_diff ?s"
    using c by (auto simp: covers_def diff_at_def flush_hunk_def)
  have "patches False (df_buf ?s) (os @ [y]) (ns @ [y])" "patches True (df_buf ?s) (ns @ [y]) (os @ [y])"
    using f patches_copy by blast+
  then have "covers ?s (os @ [y]) (ns @ [y])"
    using empty c unfolding covers_def diff_at_def by simp
  then show ?thesis using True by (simp add: diff_byte_def split: if_splits)
next
  case False
  then show ?thesis using c by (auto simp: covers_def diff_at_def diff_byte_def)
qed

lemma covers_loop:
  assumes "covers s os ns" "length xs = length ys" "length os + length xs < 2 ^ 32"
  shows "covers (diff_loop (length os) xs ys s) (os @ xs) (ns @ ys)"
  using assms
proof (induction xs ys arbitrary: s os ns rule: list_induct2')
  case (4 x xs y ys)
  have "length os < 2 ^ 32" using "4.prems"(3) by simp
  from "4.IH" [OF covers_step [OF "4.prems"(1) this, of x y]]
  show ?case using "4.prems"(2,3) by simp
qed auto

lemma covers_start: "covers diff_start [] []"
  by (simp add: covers_def diff_at_def diff_start_def patches_nil)

section \<open>Round trips\<close>

text \<open>Finishing: the rest of the difference after the shared part.\<close>

lemma patches_finish:
  assumes "patches rv bs a b"
  obtains pend done_in done_out where "a = done_in @ pend" "b = done_out @ pend"
    "patch_stream rv (a @ rest) (bs @ ds) = patch_loop rv (length (a @ rest)) ds
      \<lparr>pt_in = pend @ rest, pt_cursor = length done_in, pt_out = done_out\<rparr>"
  using assms [unfolded patches_def, THEN spec [of _ "length (a @ rest)"], THEN spec [of _ ds],
      THEN spec [of _ rest]]
  by (elim exE conjE) (rule that, auto simp: patch_stream_def)

lemma finish_equal:
  assumes "patches rv bs a b" "ds = [] \<or> ds = [3]"
  shows "patch_stream rv a (bs @ ds) = Inr b"
proof -
  obtain pend done_in done_out where p: "a = done_in @ pend" "b = done_out @ pend"
    "patch_stream rv a (bs @ ds) = patch_loop rv (length a) ds
      \<lparr>pt_in = pend, pt_cursor = length done_in, pt_out = done_out\<rparr>"
    using patches_finish [OF assms(1), of "[]" ds thesis] by auto
  then show ?thesis
    using assms(2) copy_pending [of done_in pend "[]" done_out] by (auto simp: patch_loop.simps)
qed

lemma size_minus_le: "b \<le> a \<Longrightarrow> a < 2 ^ 64 \<Longrightarrow> size_minus a b = a - b"
proof -
  assume h: "b \<le> a" "a < 2 ^ 64"
  then have "a + 2 ^ 64 - b = (a - b) + 2 ^ 64" by simp
  then show ?thesis using h unfolding size_minus_def by (simp only: mod_add_self2) simp
qed

lemma finish_cut:
  assumes "patches rv bs a b" "flag = (if rv then 2 else 1)" "length (a @ rest) < 2 ^ 32"
  shows "patch_stream rv (a @ rest) (bs @ flag # rest) = Inr b"
proof -
  obtain pend done_in done_out where p: "a = done_in @ pend" "b = done_out @ pend"
    "patch_stream rv (a @ rest) (bs @ flag # rest) = patch_loop rv (length (a @ rest)) (flag # rest)
      \<lparr>pt_in = pend @ rest, pt_cursor = length done_in, pt_out = done_out\<rparr>"
    using patches_finish [OF assms(1)] by blast
  have "size_minus (length (a @ rest)) (length rest) = length done_in + length pend"
    using assms(3) p(1) by (simp add: size_minus_le)
  then show ?thesis
    using p assms(2) copy_pending [of done_in pend rest done_out] by (simp add: patch_loop.simps)
qed

lemma finish_extend:
  assumes "patches rv bs a b" "flag = (if rv then 1 else 2)"
  shows "patch_stream rv a (bs @ flag # ds) = Inr (b @ ds)"
proof -
  obtain pend done_in done_out where p: "a = done_in @ pend" "b = done_out @ pend"
    "patch_stream rv a (bs @ flag # ds) = patch_loop rv (length a) (flag # ds)
      \<lparr>pt_in = pend, pt_cursor = length done_in, pt_out = done_out\<rparr>"
    using patches_finish [OF assms(1), of "[]" "flag # ds" thesis] by auto
  then show ?thesis
    using assms(2) copy_pending [of done_in pend "[]" done_out]
    by (simp add: patch_loop.simps put_bytes_def)
qed

lemma diff_patch:
  assumes "length old < 2 ^ 32" "length new < 2 ^ 32"
  shows "patch_stream False old (diff_stream old new) = Inr new"
    "patch_stream True new (diff_stream old new) = Inr old"
proof -
  let ?n = "min (length old) (length new)"
  let ?o = "take ?n old" and ?w = "take ?n new"
  let ?s = "diff_loop 0 ?o ?w diff_start"
  let ?b = "df_buf (if df_is_diff ?s then flush_hunk ?s else ?s)"
  have c: "covers ?s ?o ?w" using covers_loop [OF covers_start, of ?o ?w] assms by simp
  have lo: "length ?o < 2 ^ 32" using assms by simp
  note p = covers_flushed [OF c lo]
  have b: "?b = (if df_is_diff ?s
      then df_buf ?s @ hunk (df_len ?s) (df_pos ?s) (df_old ?s) (df_new ?s) else df_buf ?s)"
    by (simp add: flush_hunk_def)
  consider "length old = length new" | "length new < length old" | "length old < length new"
    by linarith
  then have "patch_stream False old (diff_stream old new) = Inr new
      \<and> patch_stream True new (diff_stream old new) = Inr old"
  proof cases
    case 1
    then have "diff_stream old new = ?b @ (if ?b = [] then [3] else [])"
      unfolding diff_stream_def Let_def b by simp
    then show ?thesis
      using finish_equal [OF p(1), of "if ?b = [] then [3] else []"]
        finish_equal [OF p(2), of "if ?b = [] then [3] else []"] 1 by auto
  next
    case 2
    let ?r = "drop (length new) old"
    have "diff_stream old new = ?b @ 1 # ?r"
      using 2 unfolding diff_stream_def Let_def b by simp
    then show ?thesis
      using finish_cut [OF p(1), of 1 ?r] finish_extend [OF p(2), of 1 ?r] 2 assms by simp
  next
    case 3
    let ?r = "drop (length old) new"
    have "diff_stream old new = ?b @ 2 # ?r"
      using 3 unfolding diff_stream_def Let_def b by simp
    then show ?thesis
      using finish_extend [OF p(1), of 2 ?r] finish_cut [OF p(2), of 2 ?r] 3 assms by simp
  qed
  then show "patch_stream False old (diff_stream old new) = Inr new"
    "patch_stream True new (diff_stream old new) = Inr old" by blast+
qed

section \<open>Files\<close>

text \<open>
  The files by name, and the compression as \<open>cp\<close> with its inverse \<open>dc\<close>. An
  input that cannot be opened ends in the exception of \<open>GetFileSize\<close> or of
  \<open>CopyFile\<close>.
\<close>

type_synonym files = "string \<rightharpoonup> bytes"

definition get_file :: "string \<Rightarrow> files \<Rightarrow> bytes result" where
  "get_file name fs = of_option Runtime_error (fs name)"

definition generate_diff ::
  "(bytes \<Rightarrow> bytes) \<Rightarrow> string \<Rightarrow> string \<Rightarrow> string \<Rightarrow> files \<Rightarrow> files result" where
  "generate_diff cp old_file new_file diff_file fs =
     rbind (get_file old_file fs) (\<lambda>old. rbind (get_file new_file fs) (\<lambda>new.
       Inr (fs(diff_file \<mapsto> cp (diff_stream old new)))))"

definition apply_patch ::
  "(bytes \<Rightarrow> bytes option) \<Rightarrow> string \<Rightarrow> string \<Rightarrow> string \<Rightarrow> bool \<Rightarrow> files \<Rightarrow> files result" where
  "apply_patch dc old_file diff_file new_file rv fs =
     rbind (get_file diff_file fs) (\<lambda>packed. rbind (of_option Runtime_error (dc packed)) (\<lambda>ds.
       rbind (get_file old_file fs) (\<lambda>old. rbind (patch_stream rv old ds) (\<lambda>new.
         Inr (fs(new_file \<mapsto> new))))))"

definition copy_file :: "string \<Rightarrow> string \<Rightarrow> files \<Rightarrow> files result" where
  "copy_file src dst fs = rbind (get_file src fs) (\<lambda>b. Inr (fs(dst \<mapsto> b)))"

text \<open>
  What the code relies on: decompressing gives back what was compressed. It is the whole
  contract used of zstd.
\<close>

definition codec :: "(bytes \<Rightarrow> bytes) \<Rightarrow> (bytes \<Rightarrow> bytes option) \<Rightarrow> bool" where
  "codec cp dc \<longleftrightarrow> (\<forall>bs. dc (cp bs) = Some bs)"

text \<open>
  C38: A difference file applied forward to the old file writes the new file, and applied
  backward to the new file writes the old one, for files below 4 GiB, the range of its
  32-bit lengths and positions.
\<close>

theorem difference_round_trip:
  assumes "codec cp dc" "fs old_file = Some old" "fs new_file = Some new"
    and "length old < 2 ^ 32" "length new < 2 ^ 32"
    and "diff_file \<noteq> old_file" "diff_file \<noteq> new_file"
  shows "\<exists>fs'. generate_diff cp old_file new_file diff_file fs = Inr fs'
    \<and> apply_patch dc old_file diff_file out False fs' = Inr (fs'(out \<mapsto> new))
    \<and> apply_patch dc new_file diff_file out True fs' = Inr (fs'(out \<mapsto> old))"
  using assms diff_patch [OF assms(4,5)]
  by (simp add: generate_diff_def apply_patch_def get_file_def codec_def)

text \<open>A codec that stores its input behind a mark.\<close>

definition stored_copy :: "bytes \<Rightarrow> bytes" where
  "stored_copy bs = 40 # bs"

definition read_copy :: "bytes \<Rightarrow> bytes option" where
  "read_copy bs = (case bs of [] \<Rightarrow> None | b # rest \<Rightarrow> if b = 40 then Some rest else None)"

lemma codec_stored: "codec stored_copy read_copy"
  by (simp add: codec_def stored_copy_def read_copy_def)

lemma difference_round_trip_witness:
  "\<exists>fs'. generate_diff stored_copy ''old'' ''new'' ''d'' [''old'' \<mapsto> [1, 2, 3, 4], ''new'' \<mapsto> [1, 9, 3]] = Inr fs'
    \<and> fs' ''d'' = Some [40, 0, 0, 0, 0, 1, 0, 0, 0, 1, 2, 9, 1, 4]
    \<and> apply_patch read_copy ''new'' ''d'' ''old2'' True fs' = Inr (fs'(''old2'' \<mapsto> [1, 2, 3, 4]))"
proof -
  let ?fs = "[''old'' \<mapsto> [1, 2, 3, 4], ''new'' \<mapsto> [1, 9, 3]] :: files"
  have "diff_stream [1, 2, 3, 4] [1, 9, 3] = [0, 0, 0, 0, 1, 0, 0, 0, 1, 2, 9, 1, 4]"
    by code_simp
  then have "fs' ''d'' = Some [40, 0, 0, 0, 0, 1, 0, 0, 0, 1, 2, 9, 1, 4]"
    if "generate_diff stored_copy ''old'' ''new'' ''d'' ?fs = Inr fs'" for fs'
    using that by (auto simp: generate_diff_def get_file_def stored_copy_def)
  then show ?thesis
    using difference_round_trip [OF codec_stored, of ?fs "''old''" "[1, 2, 3, 4]" "''new''" "[1, 9, 3]"
        "''d''" "''old2''"] by auto
qed

end
