(* ===== verification/Snapshot_Manager.thy ===== *)
theory Snapshot_Manager
  imports Snapshot_Diff Text_Input
begin

text \<open>
  \<open>SnapShotManager\<close> of \<^verbatim>\<open>dataguard/include/dataguard/snapshot.h\<close> and
  \<^verbatim>\<open>dataguard/src/snapshot.cpp\<close>: a tree of snapshots, whose meta file names the current one
  and the ancestor of each, with one difference file per data file and snapshot and a
  \<^verbatim>\<open>frontier\<close> copy of each data file at the current snapshot. The data files are taken as
  the drivers leave them after \<^verbatim>\<open>Flush\<close>; log output is left out.
\<close>

section \<open>The meta file\<close>

text \<open>The words \<^verbatim>\<open>>>\<close> reads from a text.\<close>

function words :: "string \<Rightarrow> string list" where
  "words s = (let t = dropWhile is_space s in
     if t = [] then [] else takeWhile (\<lambda>c. \<not> is_space c) t # words (dropWhile (\<lambda>c. \<not> is_space c) t))"
  by pat_completeness auto

lemma length_dropWhile_less: "t \<noteq> [] \<Longrightarrow> P (hd t) \<Longrightarrow> length (dropWhile P t) < length t"
  using length_dropWhile_le [of P "tl t"] by (cases t) (simp_all add: less_Suc_eq_le)

termination words
proof (relation "measure length", simp)
  fix s :: string and t
  assume t: "t = dropWhile is_space s" "t \<noteq> []"
  then have "\<not> is_space (hd t)" by (metis hd_dropWhile)
  then have "length (dropWhile (\<lambda>c. \<not> is_space c) t) < length t"
    by (intro length_dropWhile_less [OF t(2)]) simp
  also have "\<dots> \<le> length s" using t(1) by (simp add: length_dropWhile_le)
  finally show "(dropWhile (\<lambda>c. \<not> is_space c) t, s) \<in> measure length" by simp
qed

declare words.simps [simp del]

text \<open>A relation line names a snapshot and its ancestor.\<close>

type_synonym relation = "(string \<times> string) list"

fun pair_up :: "string list \<Rightarrow> relation" where
  "pair_up (a # b # ws) = (a, b) # pair_up ws"
| "pair_up _ = []"

definition parse_meta :: "string \<Rightarrow> string \<times> relation" where
  "parse_meta t = (case words t of [] \<Rightarrow> ([], []) | h # ws \<Rightarrow> (h, pair_up ws))"

definition print_meta :: "string \<Rightarrow> relation \<Rightarrow> string" where
  "print_meta head rel = head @ [CHR 0x0A]
     @ concat (map (\<lambda>(a, b). a @ '' '' @ b @ [CHR 0x0A]) rel)"

text \<open>
  Writing through a stream opened with \<^verbatim>\<open>in | out\<close> replaces the front of the file and
  keeps what is longer.
\<close>

definition overwrite :: "string \<Rightarrow> string \<Rightarrow> string" where
  "overwrite old new = new @ drop (length new) old"

section \<open>State\<close>

record snapshots =
  sn_files :: files
  sn_meta :: string
  sn_drivers :: "string list list"
  sn_connected :: bool
  sn_meta_set :: bool

definition frontier_of :: "string \<Rightarrow> string" where
  "frontier_of p = p @ ''.frontier''"

definition diff_of :: "string \<Rightarrow> string \<Rightarrow> string" where
  "diff_of p s = p @ ''.'' @ s @ ''.diff''"

definition tmp_of :: "string \<Rightarrow> string" where
  "tmp_of p = p @ ''.tmp''"

text \<open>A loop over all data files of all drivers that stops at the first exception.\<close>

fun rfold :: "('a \<Rightarrow> 's \<Rightarrow> 's result) \<Rightarrow> 'a list \<Rightarrow> 's \<Rightarrow> 's result" where
  "rfold f [] s = Inr s"
| "rfold f (x # xs) s = rbind (f x s) (rfold f xs)"

definition each_file :: "(string \<Rightarrow> files \<Rightarrow> files result) \<Rightarrow> snapshots \<Rightarrow> snapshots result" where
  "each_file f st = rbind (rfold (\<lambda>paths. rfold f paths) (sn_drivers st) (sn_files st))
     (\<lambda>fs. Inr (st\<lparr>sn_files := fs\<rparr>))"

definition ready :: "snapshots \<Rightarrow> bool" where
  "ready st \<longleftrightarrow> sn_meta_set st \<and> sn_connected st"

text \<open>\<open>son_list\<close> and \<open>get_anc\<close>: the later line wins.\<close>

definition sons_of :: "relation \<Rightarrow> string \<Rightarrow> string list" where
  "sons_of rel a = map fst (filter (\<lambda>x. snd x = a) rel)"

definition anc_of :: "relation \<Rightarrow> string \<Rightarrow> string option" where
  "anc_of rel c = map_of (rev rel) c"

definition known :: "relation \<Rightarrow> string \<Rightarrow> bool" where
  "known rel s \<longleftrightarrow> sons_of rel s \<noteq> [] \<or> anc_of rel s \<noteq> None"

section \<open>Connecting and initialising\<close>

definition new_snapshots :: snapshots where
  "new_snapshots = \<lparr>sn_files = Map.empty, sn_meta = [], sn_drivers = [], sn_connected = False,
     sn_meta_set = False\<rparr>"

definition connect :: "string list list \<Rightarrow> snapshots \<Rightarrow> snapshots result" where
  "connect drivers st = (if sn_connected st then Inl Runtime_error
     else Inr (st\<lparr>sn_drivers := drivers, sn_connected := True\<rparr>))"

definition initialize_repository :: "snapshots \<Rightarrow> snapshots result" where
  "initialize_repository st =
     each_file (\<lambda>p fs. Inr (fs(frontier_of p \<mapsto> []))) (st\<lparr>sn_meta := ''INIT'' @ [CHR 0x0A]\<rparr>)"

text \<open>\<open>found\<close> is the meta file that exists already, if any.\<close>

definition set_meta_file :: "string option \<Rightarrow> snapshots \<Rightarrow> snapshots result" where
  "set_meta_file found st = (if sn_meta_set st then Inl Runtime_error else
     let st' = st\<lparr>sn_meta_set := True\<rparr> in
     case found of Some t \<Rightarrow> Inr (st'\<lparr>sn_meta := t\<rparr>)
     | None \<Rightarrow> if \<not> sn_connected st then Inl Runtime_error else initialize_repository st')"

section \<open>Creating and checking out\<close>

definition create_snapshot ::
  "(bytes \<Rightarrow> bytes) \<Rightarrow> string \<Rightarrow> snapshots \<Rightarrow> snapshots result" where
  "create_snapshot cp s st = (if \<not> ready st then Inl Runtime_error else
     let (head, rel) = parse_meta (sn_meta st) in
     if known rel s then Inl Runtime_error
     else each_file (\<lambda>p fs. rbind (generate_diff cp (frontier_of p) p (diff_of p s) fs)
            (copy_file p (frontier_of p)))
          (st\<lparr>sn_meta := overwrite (sn_meta st) (print_meta s (rel @ [(s, head)]))\<rparr>))"

definition check_out_frontier :: "snapshots \<Rightarrow> snapshots result" where
  "check_out_frontier st = (if \<not> ready st then Inl Runtime_error else
     let head = fst (parse_meta (sn_meta st)) in
     each_file (\<lambda>p fs. if head = ''INIT'' then Inr (fs(p := None))
                       else copy_file (frontier_of p) p fs) st)"

section \<open>Finding the way\<close>

record way_entry =
  we_snap :: string
  we_diff :: string
  we_reverse :: bool

text \<open>The neighbours of a snapshot in the order the search tries them, with the step back.\<close>

definition neighbours :: "relation \<Rightarrow> string \<Rightarrow> (string \<times> way_entry) list" where
  "neighbours rel cur =
     (case anc_of rel cur of None \<Rightarrow> []
      | Some v \<Rightarrow> [(v, \<lparr>we_snap = cur, we_diff = cur, we_reverse = False\<rparr>)])
     @ map (\<lambda>v. (v, \<lparr>we_snap = cur, we_diff = v, we_reverse = True\<rparr>)) (sons_of rel cur)"

text \<open>Recording the neighbours; the first component tells that \<open>HEAD\<close> was met.\<close>

fun visit :: "string \<Rightarrow> (string \<times> way_entry) list \<Rightarrow> string list \<Rightarrow> (string \<rightharpoonup> way_entry)
    \<Rightarrow> bool \<times> string list \<times> (string \<rightharpoonup> way_entry)" where
  "visit head [] q vis = (False, q, vis)"
| "visit head ((v, e) # ns) q vis =
     (if vis v \<noteq> None then visit head ns q vis
      else if v = head then (True, q, vis(v \<mapsto> e))
      else visit head ns (q @ [v]) (vis(v \<mapsto> e)))"

definition rel_nodes :: "relation \<Rightarrow> string set" where
  "rel_nodes rel = set (map fst rel) \<union> set (map snd rel)"

definition unvisited :: "relation \<Rightarrow> (string \<rightharpoonup> way_entry) \<Rightarrow> nat" where
  "unvisited rel vis = card (rel_nodes rel - dom vis)"

lemma finite_rel_nodes [simp]: "finite (rel_nodes rel)"
  by (simp add: rel_nodes_def)

lemma anc_of_mem: "anc_of rel c = Some a \<Longrightarrow> (c, a) \<in> set rel"
  unfolding anc_of_def by (drule map_of_SomeD) simp

lemma sons_of_mem: "c \<in> set (sons_of rel a) \<longleftrightarrow> (c, a) \<in> set rel"
  by (force simp: sons_of_def)

lemma rel_nodes_mem: "(c, a) \<in> set rel \<Longrightarrow> c \<in> rel_nodes rel \<and> a \<in> rel_nodes rel"
  by (force simp: rel_nodes_def)

lemma neighbours_mem:
  "(v, e) \<in> set (neighbours rel cur) \<longleftrightarrow>
    (anc_of rel cur = Some v \<and> e = \<lparr>we_snap = cur, we_diff = cur, we_reverse = False\<rparr>)
    \<or> ((v, cur) \<in> set rel \<and> e = \<lparr>we_snap = cur, we_diff = v, we_reverse = True\<rparr>)"
  by (cases "anc_of rel cur") (auto simp: neighbours_def sons_of_mem)

lemma neighbours_nodes: "(v, e) \<in> set (neighbours rel cur) \<Longrightarrow> v \<in> rel_nodes rel"
  using anc_of_mem rel_nodes_mem unfolding neighbours_mem by blast

lemma unvisited_step:
  assumes "v \<in> rel_nodes rel" "vis v = None"
  shows "unvisited rel (vis(v \<mapsto> e)) + 1 = unvisited rel vis"
proof -
  have "rel_nodes rel - dom vis = insert v (rel_nodes rel - dom (vis(v \<mapsto> e)))"
    using assms by (auto simp: domIff)
  moreover have "v \<notin> rel_nodes rel - dom (vis(v \<mapsto> e))" by simp
  ultimately show ?thesis unfolding unvisited_def by (metis Suc_eq_plus1 card_insert_disjoint
      finite_Diff finite_rel_nodes)
qed

lemma visit_measure:
  assumes "visit head ns q vis = (b, q', vis')" "\<And>v e. (v, e) \<in> set ns \<Longrightarrow> v \<in> rel_nodes rel"
  shows "2 * unvisited rel vis' + length q' \<le> 2 * unvisited rel vis + length q"
  using assms
proof (induction ns arbitrary: q vis)
  case (Cons x ns)
  obtain v e where x: "x = (v, e)" by (cases x)
  have v: "v \<in> rel_nodes rel" using Cons.prems(2) x by auto
  have mem: "\<And>v e. (v, e) \<in> set ns \<Longrightarrow> v \<in> rel_nodes rel" using Cons.prems(2) by auto
  consider "vis v \<noteq> None" | "vis v = None" "v = head" | "vis v = None" "v \<noteq> head" by blast
  then show ?case
  proof cases
    case 1
    then have "visit head ns q vis = (b, q', vis')" using Cons.prems(1) x by simp
    then show ?thesis by (rule Cons.IH) (rule mem)
  next
    case 2
    then show ?thesis using Cons.prems(1) x unvisited_step [of v rel vis e] v by auto
  next
    case 3
    then have "visit head ns (q @ [v]) (vis(v \<mapsto> e)) = (b, q', vis')" using Cons.prems(1) x by simp
    then have "2 * unvisited rel vis' + length q'
        \<le> 2 * unvisited rel (vis(v \<mapsto> e)) + length (q @ [v])"
      by (rule Cons.IH) (rule mem)
    then show ?thesis using unvisited_step [of v rel vis e, OF v 3(1)] by simp
  qed
qed simp

function bfs :: "relation \<Rightarrow> string \<Rightarrow> string list \<Rightarrow> (string \<rightharpoonup> way_entry) \<Rightarrow> (string \<rightharpoonup> way_entry)" where
  "bfs rel head [] vis = vis"
| "bfs rel head (cur # q) vis =
     (case visit head (neighbours rel cur) q vis of
        (found, q', vis') \<Rightarrow> if found then vis' else bfs rel head q' vis')"
  by pat_completeness auto

termination bfs
proof (relation "measure (\<lambda>(rel, head, q, vis). 2 * unvisited rel vis + length q)", goal_cases)
  case 1
  show ?case by simp
next
  case (2 rel head cur q vis found y q' vis')
  then have "visit head (neighbours rel cur) q vis = (found, q', vis')" by simp
  from visit_measure [OF this, of rel] neighbours_nodes
  have "2 * unvisited rel vis' + length q' \<le> 2 * unvisited rel vis + length q" by blast
  then show ?case by simp
qed

text \<open>
  Following the records from \<open>HEAD\<close> to the destination. A missing record is created
  empty by \<^verbatim>\<open>visit_record[tmp]\<close> and the loop does not end; \<open>n\<close> bounds the steps.
\<close>

fun follow :: "nat \<Rightarrow> (string \<rightharpoonup> way_entry) \<Rightarrow> string \<Rightarrow> string \<Rightarrow> way_entry list result" where
  "follow 0 vis dest tmp = Inl Undefined"
| "follow (Suc n) vis dest tmp = (if tmp = dest then Inr []
     else (case vis tmp of None \<Rightarrow> Inl Undefined
       | Some e \<Rightarrow> rbind (follow n vis dest (we_snap e)) (\<lambda>w. Inr (e # w))))"

definition find_way :: "string \<Rightarrow> snapshots \<Rightarrow> way_entry list result" where
  "find_way dest st = (if \<not> ready st then Inl Runtime_error else
     let (head, rel) = parse_meta (sn_meta st) in
     if \<not> known rel dest then Inl Runtime_error
     else if head = dest then Inr []
     else follow (Suc (2 * length rel)) (bfs rel head [dest] Map.empty) dest head)"

section \<open>Switching and removing\<close>

definition apply_step ::
  "(bytes \<Rightarrow> bytes option) \<Rightarrow> string \<Rightarrow> string \<Rightarrow> way_entry \<Rightarrow> files \<Rightarrow> files result" where
  "apply_step dc new_file base e fs =
     rbind (apply_patch dc new_file (diff_of base (we_diff e)) (tmp_of new_file) (we_reverse e) fs)
       (\<lambda>fs'. Inr ((fs'(new_file := fs' (tmp_of new_file)))(tmp_of new_file := None)))"

definition apply_long_change ::
  "(bytes \<Rightarrow> bytes option) \<Rightarrow> string \<Rightarrow> string \<Rightarrow> way_entry list \<Rightarrow> string \<Rightarrow> files \<Rightarrow> files result" where
  "apply_long_change dc old_file new_file way base fs =
     rbind (copy_file old_file new_file fs) (rfold (apply_step dc new_file base) way)"

definition switch_file ::
  "(bytes \<Rightarrow> bytes option) \<Rightarrow> way_entry list \<Rightarrow> string \<Rightarrow> files \<Rightarrow> files result" where
  "switch_file dc way p fs = (let fr = frontier_of p in
     rbind (apply_long_change dc fr (tmp_of fr) way p fs) (\<lambda>fs'.
       Inr ((fs'(fr := fs' (tmp_of fr)))(tmp_of fr := None))))"

definition switch_to_snapshot ::
  "(bytes \<Rightarrow> bytes option) \<Rightarrow> string \<Rightarrow> snapshots \<Rightarrow> snapshots result" where
  "switch_to_snapshot dc s st = (if \<not> ready st then Inl Runtime_error else
     rbind (find_way s st) (\<lambda>way.
     rbind (each_file (switch_file dc way) st) (\<lambda>st'.
     let rel = snd (parse_meta (sn_meta st')) in
     Inr (st'\<lparr>sn_meta := overwrite (sn_meta st') (print_meta s rel)\<rparr>))))"

text \<open>Removing a snapshot with sons recomputes the difference of every son.\<close>

definition rebase_son ::
  "(bytes \<Rightarrow> bytes) \<Rightarrow> (bytes \<Rightarrow> bytes option) \<Rightarrow> string \<Rightarrow> way_entry list \<Rightarrow> string
    \<Rightarrow> string \<Rightarrow> files \<Rightarrow> files result" where
  "rebase_son cp dc s way son p fs =
     (let fr = frontier_of p; tmp = tmp_of fr; at_son = tmp @ ''.'' @ son; at_anc = tmp @ ''.anctmp'' in
      rbind (apply_long_change dc fr tmp way p fs) (\<lambda>fs1.
      rbind (apply_patch dc tmp (diff_of p son) at_son False fs1) (\<lambda>fs2.
      rbind (apply_patch dc tmp (diff_of p s) at_anc True fs2) (\<lambda>fs3.
      rbind (generate_diff cp at_anc at_son (diff_of p son) (fs3(diff_of p son := None))) (\<lambda>fs4.
        Inr (fs4(tmp := None, at_son := None, at_anc := None)))))))"

definition remove_snapshot ::
  "(bytes \<Rightarrow> bytes) \<Rightarrow> (bytes \<Rightarrow> bytes option) \<Rightarrow> string \<Rightarrow> snapshots \<Rightarrow> snapshots result" where
  "remove_snapshot cp dc s st = (if \<not> ready st \<or> s = ''INIT'' then Inl Runtime_error else
     let (head, rel) = parse_meta (sn_meta st) in
     if s = head \<or> \<not> known rel s then Inl Runtime_error
     else if sons_of rel s = [] then
       rbind (each_file (\<lambda>p fs. Inr (fs(diff_of p s := None))) st) (\<lambda>st'.
         Inr (st'\<lparr>sn_meta := overwrite (sn_meta st')
           (print_meta head (filter (\<lambda>x. fst x \<noteq> s) rel))\<rparr>))
     else (case anc_of rel s of None \<Rightarrow> Inl Runtime_error
       | Some anc \<Rightarrow>
         rbind (find_way s st) (\<lambda>way.
         rbind (rfold (\<lambda>son. each_file (rebase_son cp dc s way son)) (sons_of rel s) st) (\<lambda>st'.
           Inr (st'\<lparr>sn_meta := print_meta head
             (filter (\<lambda>x. fst x \<noteq> s \<and> snd x \<noteq> s) rel @ map (\<lambda>c. (c, anc)) (sons_of rel s))\<rparr>)))))"

section \<open>The search finds a way\<close>

definition step_ok :: "relation \<Rightarrow> string \<Rightarrow> way_entry \<Rightarrow> bool" where
  "step_ok rel x e \<longleftrightarrow> (x, e) \<in> set (neighbours rel (we_snap e))"

fun way_ok :: "relation \<Rightarrow> string \<Rightarrow> string \<Rightarrow> way_entry list \<Rightarrow> bool" where
  "way_ok rel dest x [] = (x = dest)"
| "way_ok rel dest x (e # w) = (step_ok rel x e \<and> way_ok rel dest (we_snap e) w)"

text \<open>\<open>recorded vis dest x w\<close>: the records lead from \<open>x\<close> along \<open>w\<close> to the destination.\<close>

fun recorded :: "(string \<rightharpoonup> way_entry) \<Rightarrow> string \<Rightarrow> string \<Rightarrow> way_entry list \<Rightarrow> bool" where
  "recorded vis dest x [] = (x = dest)"
| "recorded vis dest x (e # w) = (x \<noteq> dest \<and> vis x = Some e \<and> recorded vis dest (we_snap e) w)"

lemma recorded_extend:
  "recorded vis dest x w \<Longrightarrow> vis v = None \<Longrightarrow> recorded (vis(v \<mapsto> e)) dest x w"
  by (induction w arbitrary: x) auto

lemma recorded_follow: "recorded vis dest x w \<Longrightarrow> length w < n \<Longrightarrow> follow n vis dest x = Inr w"
proof (induction w arbitrary: x n)
  case Nil
  then show ?case by (cases n) auto
next
  case (Cons e w)
  then show ?case by (cases n) auto
qed

lemma recorded_way:
  "recorded vis dest x w \<Longrightarrow> \<forall>v e. vis v = Some e \<longrightarrow> step_ok rel v e \<Longrightarrow> way_ok rel dest x w"
  by (induction w arbitrary: x) auto

definition tree_ok :: "relation \<Rightarrow> string \<Rightarrow> (string \<rightharpoonup> way_entry) \<Rightarrow> bool" where
  "tree_ok rel dest vis \<longleftrightarrow> (\<forall>v e. vis v = Some e \<longrightarrow> step_ok rel v e) \<and> dom vis \<subseteq> rel_nodes rel
     \<and> (\<forall>v\<in>insert dest (dom vis). \<exists>w. recorded vis dest v w \<and> length w \<le> card (dom vis))"

lemma tree_ok_insert:
  assumes t: "tree_ok rel dest vis" and v: "vis v = None" "(v, e) \<in> set (neighbours rel cur)"
    and cur: "we_snap e = cur" "cur \<in> insert dest (dom vis)"
  shows "tree_ok rel dest (vis(v \<mapsto> e))"
proof -
  have fin: "finite (dom vis)"
    using t finite_subset [OF _ finite_rel_nodes] unfolding tree_ok_def by blast
  have card: "card (dom (vis(v \<mapsto> e))) = Suc (card (dom vis))"
    using fin v(1) by (simp add: domIff)
  have old: "\<exists>w. recorded (vis(v \<mapsto> e)) dest x w \<and> length w \<le> card (dom vis)"
    if "x \<in> insert dest (dom vis)" for x
    using t that recorded_extend [of vis dest x _ v e] v(1) unfolding tree_ok_def by blast
  have "\<exists>w. recorded (vis(v \<mapsto> e)) dest x w \<and> length w \<le> Suc (card (dom vis))"
    if x: "x \<in> insert dest (dom (vis(v \<mapsto> e)))" for x
  proof (cases "x = v \<and> v \<noteq> dest")
    case True
    obtain w where "recorded (vis(v \<mapsto> e)) dest cur w" "length w \<le> card (dom vis)"
      using old [OF cur(2)] by blast
    then show ?thesis using True cur(1) by (intro exI [of _ "e # w"]) simp
  next
    case False
    then have "x \<in> insert dest (dom vis)" using x by auto
    from old [OF this] show ?thesis by (auto intro: le_SucI)
  qed
  then show ?thesis
    using t v neighbours_nodes [OF v(2)] cur(1) card unfolding tree_ok_def step_ok_def by auto
qed

lemma visit_ok:
  assumes "visit head ns q vis = (found, q', vis')" "tree_ok rel dest vis"
    and "set ns \<subseteq> set (neighbours rel cur)" "cur \<in> insert dest (dom vis)" "head \<notin> dom vis"
  shows "tree_ok rel dest vis' \<and> dom vis \<subseteq> dom vis' \<and> set q \<subseteq> set q'
    \<and> dom vis' \<subseteq> dom vis \<union> insert head (set q') \<and> set q' \<subseteq> set q \<union> dom vis'
    \<and> (found \<longrightarrow> head \<in> dom vis')
    \<and> (\<not> found \<longrightarrow> head \<notin> dom vis' \<and> fst ` set ns \<subseteq> dom vis')"
  using assms
proof (induction ns arbitrary: q vis)
  case Nil
  then show ?case by auto
next
  case (Cons x ns)
  obtain v e where x: "x = (v, e)" by (cases x)
  have mem: "(v, e) \<in> set (neighbours rel cur)" using Cons.prems(3) x by simp
  then have snap: "we_snap e = cur" by (auto simp: neighbours_mem)
  consider "vis v \<noteq> None" | "vis v = None" "v = head" | "vis v = None" "v \<noteq> head" by blast
  then show ?case
  proof cases
    case 1
    then have "visit head ns q vis = (found, q', vis')" using Cons.prems(1) x by simp
    from Cons.IH [OF this Cons.prems(2) _ Cons.prems(4,5)] show ?thesis
      using Cons.prems(3) x 1 by auto
  next
    case 2
    then have "found" "q' = q" "vis' = vis(v \<mapsto> e)" using Cons.prems(1) x by simp_all
    then show ?thesis
      using tree_ok_insert [OF Cons.prems(2) 2(1) mem snap Cons.prems(4)] 2
      by (auto simp del: fun_upd_apply)
  next
    case 3
    let ?vis = "vis(v \<mapsto> e)"
    have run: "visit head ns (q @ [v]) ?vis = (found, q', vis')" using 3 Cons.prems(1) x by simp
    have t: "tree_ok rel dest ?vis"
      using tree_ok_insert [OF Cons.prems(2) 3(1) mem snap Cons.prems(4)] .
    have "set ns \<subseteq> set (neighbours rel cur)" "cur \<in> insert dest (dom ?vis)" "head \<notin> dom ?vis"
      using Cons.prems(3-5) 3(2) by auto
    note ih = Cons.IH [OF run t this]
    have "dom ?vis = insert v (dom vis)" by simp
    note ih = ih [unfolded this]
    then show ?thesis using x by (auto simp del: domIff)
  qed
qed

definition adjacent :: "relation \<Rightarrow> string \<Rightarrow> string \<Rightarrow> bool" where
  "adjacent rel x y \<longleftrightarrow> y \<in> fst ` set (neighbours rel x)"

definition closed_at :: "relation \<Rightarrow> (string \<rightharpoonup> way_entry) \<Rightarrow> string \<Rightarrow> bool" where
  "closed_at rel vis x \<longleftrightarrow> fst ` set (neighbours rel x) \<subseteq> dom vis"

lemma bfs_ok:
  assumes "tree_ok rel dest vis" "head \<notin> dom vis" "set q \<subseteq> insert dest (dom vis)"
    and "\<forall>x\<in>insert dest (dom vis). x \<in> set q \<or> closed_at rel vis x"
  shows "tree_ok rel dest (bfs rel head q vis) \<and> (head \<in> dom (bfs rel head q vis)
    \<or> (\<forall>x\<in>insert dest (dom (bfs rel head q vis)). closed_at rel (bfs rel head q vis) x))"
  using assms
proof (induction rel head q vis rule: bfs.induct)
  case (1 rel head vis)
  then show ?case by auto
next
  case (2 rel head cur q vis)
  obtain found q' vis' where run: "visit head (neighbours rel cur) q vis = (found, q', vis')"
    by (metis prod_cases3)
  have cur: "cur \<in> insert dest (dom vis)" using "2.prems"(3) by simp
  note v = visit_ok [OF run "2.prems"(1) subset_refl cur "2.prems"(2)]
  show ?case
  proof (cases found)
    case True
    then show ?thesis using v run by simp
  next
    case False
    then have h: "head \<notin> dom vis'" "closed_at rel vis' cur" using v by (auto simp: closed_at_def)
    have sub: "dom vis \<subseteq> dom vis'" "set q \<subseteq> set q'" "set q' \<subseteq> set q \<union> dom vis'"
      "dom vis' \<subseteq> dom vis \<union> insert head (set q')"
      using v by iprover+
    have "set q \<subseteq> insert dest (dom vis)" using "2.prems"(3) by simp
    then have q: "set q' \<subseteq> insert dest (dom vis')"
      using sub(1,3) by (meson Un_least insert_mono order_trans subset_insertI)
    have cl: "x \<in> set q' \<or> closed_at rel vis' x" if x: "x \<in> insert dest (dom vis')" for x
    proof (cases "x \<in> insert dest (dom vis)")
      case True
      then consider "x = cur" | "x \<in> set q" | "closed_at rel vis x" using "2.prems"(4) by auto
      then show ?thesis
      proof cases
        case 3
        then show ?thesis using order_trans [OF _ sub(1)] by (simp add: closed_at_def)
      qed (use h(2) sub(2) in auto)
    next
      case False
      then show ?thesis using x sub(4) h(1) by blast
    qed
    have "tree_ok rel dest vis'" using v by blast
    from "2.IH" [OF run [symmetric] refl False this h(1) q] cl
    show ?thesis using run False by simp
  qed
qed

lemma find_way_ok:
  assumes st: "ready st" "parse_meta (sn_meta st) = (head, rel)" "known rel dest"
    and linked: "(adjacent rel)\<^sup>*\<^sup>* dest head"
  shows "\<exists>w. find_way dest st = Inr w \<and> way_ok rel dest head w"
proof (cases "head = dest")
  case True
  then show ?thesis using st by (simp add: find_way_def)
next
  case False
  define vis where "vis = bfs rel head [dest] Map.empty"
  have "tree_ok rel dest Map.empty" by (auto simp: tree_ok_def intro: exI [of _ "[]"])
  then have t: "tree_ok rel dest vis" and c: "head \<in> dom vis
      \<or> (\<forall>x\<in>insert dest (dom vis). closed_at rel vis x)"
    using bfs_ok [of rel dest Map.empty head "[dest]"] unfolding vis_def by auto
  have "head \<in> insert dest (dom vis)"
  proof (rule ccontr)
    assume n: "head \<notin> insert dest (dom vis)"
    then have cl: "\<forall>x\<in>insert dest (dom vis). closed_at rel vis x" using c by blast
    from linked have "head \<in> insert dest (dom vis)"
    proof (induction rule: rtranclp_induct)
      case (step y z)
      then show ?case using cl unfolding adjacent_def closed_at_def by blast
    qed simp
    then show False using n by blast
  qed
  then obtain w where w: "recorded vis dest head w" "length w \<le> card (dom vis)"
    using t unfolding tree_ok_def by blast
  have "card (dom vis) \<le> card (rel_nodes rel)"
    using t by (intro card_mono) (simp_all add: tree_ok_def)
  also have "\<dots> \<le> card (set (map fst rel)) + card (set (map snd rel))"
    unfolding rel_nodes_def by (rule card_Un_le)
  also have "\<dots> \<le> 2 * length rel"
    using card_length [of "map fst rel"] card_length [of "map snd rel"] by simp
  finally have "length w < Suc (2 * length rel)" using w(2) by simp
  then have "find_way dest st = Inr w"
    using recorded_follow [OF w(1)] False st by (simp add: find_way_def vis_def del: bfs.simps follow.simps)
  moreover have "way_ok rel dest head w"
    using recorded_way [OF w(1)] t unfolding tree_ok_def by blast
  ultimately show ?thesis by blast
qed

section \<open>File names\<close>

text \<open>
  The names the manager makes are a data file's name, a dot and a suffix; they are told
  apart when no data file's name is another one's, a dot and more.
\<close>

definition names_ok :: "string list \<Rightarrow> bool" where
  "names_ok ps \<longleftrightarrow> distinct ps \<and> (\<forall>p\<in>set ps. \<forall>q\<in>set ps. \<forall>x. q \<noteq> p @ ''.'' @ x)"

definition aux :: "string \<Rightarrow> string \<Rightarrow> string" where
  "aux p x = p @ ''.'' @ x"

lemma aux_names:
  "frontier_of p = aux p ''frontier''" "tmp_of (aux p x) = aux p (x @ ''.tmp'')"
  "diff_of p s = aux p (s @ ''.diff'')"
  by (simp_all add: frontier_of_def tmp_of_def diff_of_def aux_def)

lemma aux_inject:
  assumes "names_ok ps" "p \<in> set ps" "q \<in> set ps"
  shows "aux p x = aux q y \<longleftrightarrow> p = q \<and> x = y"
proof
  assume eq: "aux p x = aux q y"
  then obtain us where us: "p = q @ us \<and> us @ ''.'' @ x = ''.'' @ y \<or> p @ us = q \<and> ''.'' @ x = us @ ''.'' @ y"
    unfolding aux_def append_eq_append_conv2 by (elim exE)
  have "us = []"
  proof (cases us)
    case (Cons c vs)
    then have "c = CHR ''.''" using us by auto
    then have "p = q @ ''.'' @ vs \<or> q = p @ ''.'' @ vs" using us Cons by auto
    then show ?thesis using assms unfolding names_ok_def by blast
  qed simp
  then show "p = q \<and> x = y" using us by auto
qed simp

lemma aux_not_data: "names_ok ps \<Longrightarrow> p \<in> set ps \<Longrightarrow> q \<in> set ps \<Longrightarrow> aux p x \<noteq> q"
  by (auto simp: names_ok_def aux_def)

lemma suffixes_differ:
  "''frontier'' \<noteq> s @ ''.diff''" "''frontier'' @ x @ ''.tmp'' \<noteq> s @ ''.diff''"
  "''frontier.tmp'' \<noteq> s @ ''.diff''" "''frontier.tmp.tmp'' \<noteq> s @ ''.diff''"
  by (auto dest: arg_cong [where f = last])

section \<open>Applying a way\<close>

text \<open>\<open>C s p\<close> is the content of data file \<open>p\<close> in snapshot \<open>s\<close>.\<close>

definition diffs_ok ::
  "(bytes \<Rightarrow> bytes) \<Rightarrow> relation \<Rightarrow> (string \<Rightarrow> string \<Rightarrow> bytes) \<Rightarrow> string \<Rightarrow> files \<Rightarrow> bool" where
  "diffs_ok cp rel C p fs \<longleftrightarrow>
     (\<forall>(c, a)\<in>set rel. fs (diff_of p c) = Some (cp (diff_stream (C a p) (C c p))))"

lemma step_ok_iff:
  "step_ok rel x e \<longleftrightarrow>
    (if we_reverse e then (x, we_snap e) \<in> set rel \<and> we_diff e = x
     else anc_of rel (we_snap e) = Some x \<and> we_diff e = we_snap e)"
  by (cases e) (auto simp: step_ok_def neighbours_mem)

lemma apply_step_ok:
  assumes cd: "codec cp dc" and sz: "\<And>s. length (C s p) < 2 ^ 32"
    and d: "diffs_ok cp rel C p fs" and st: "step_ok rel x e"
    and f: "fs new = Some (C x p)" and nm: "tmp_of new \<noteq> new"
  shows "apply_step dc new p e fs = Inr (fs(new \<mapsto> C (we_snap e) p, tmp_of new := None))"
proof -
  have anc: "(c, a) \<in> set rel" if "anc_of rel c = Some a" for c a using anc_of_mem that .
  have packed: "fs (diff_of p c) = Some (cp (diff_stream (C a p) (C c p)))" if "(c, a) \<in> set rel" for c a
    using d that by (auto simp: diffs_ok_def)
  have "apply_patch dc new (diff_of p (we_diff e)) (tmp_of new) (we_reverse e) fs
      = Inr (fs(tmp_of new \<mapsto> C (we_snap e) p))"
  proof (cases "we_reverse e")
    case True
    then have e: "(x, we_snap e) \<in> set rel" "we_diff e = x"
      using st by (auto simp: step_ok_iff)
    then show ?thesis using packed [OF e(1)] cd f diff_patch(2) [OF sz sz] True
      by (simp add: apply_patch_def get_file_def codec_def)
  next
    case False
    then have e: "anc_of rel (we_snap e) = Some x" "we_diff e = we_snap e"
      using st by (auto simp: step_ok_iff)
    then show ?thesis using packed [OF anc [OF e(1)]] cd f diff_patch(1) [OF sz sz] False
      by (simp add: apply_patch_def get_file_def codec_def)
  qed
  then show ?thesis using nm by (simp add: apply_step_def fun_upd_twist)
qed

lemma diffs_ok_upd:
  "diffs_ok cp rel C p fs \<Longrightarrow> \<forall>c. n \<noteq> diff_of p c \<Longrightarrow> diffs_ok cp rel C p (fs(n := v))"
  by (auto simp: diffs_ok_def)

lemma apply_way_ok:
  assumes cd: "codec cp dc" and sz: "\<And>s. length (C s p) < 2 ^ 32"
    and nm: "tmp_of new \<noteq> new" "\<forall>c. new \<noteq> diff_of p c" "\<forall>c. tmp_of new \<noteq> diff_of p c"
  shows "diffs_ok cp rel C p fs \<Longrightarrow> way_ok rel dest x w \<Longrightarrow> fs new = Some (C x p) \<Longrightarrow>
    \<exists>fs'. rfold (apply_step dc new p) w fs = Inr fs' \<and> fs' new = Some (C dest p)
      \<and> (\<forall>n. n \<noteq> new \<longrightarrow> n \<noteq> tmp_of new \<longrightarrow> fs' n = fs n)"
proof (induction w arbitrary: fs x)
  case (Cons e w)
  let ?fs = "fs(new \<mapsto> C (we_snap e) p, tmp_of new := None)"
  have st: "step_ok rel x e" "way_ok rel dest (we_snap e) w" using Cons.prems(2) by auto
  have "apply_step dc new p e fs = Inr ?fs"
    using apply_step_ok [OF cd sz Cons.prems(1) st(1) Cons.prems(3) nm(1)] .
  moreover have "diffs_ok cp rel C p ?fs" using Cons.prems(1) nm by (intro diffs_ok_upd) auto
  moreover have "?fs new = Some (C (we_snap e) p)" using nm(1) by simp
  ultimately show ?case using Cons.IH [OF _ st(2)] by fastforce
qed simp

lemma frontier_names:
  "tmp_of (frontier_of p) \<noteq> frontier_of p" "tmp_of (tmp_of (frontier_of p)) \<noteq> frontier_of p"
  "tmp_of (tmp_of (frontier_of p)) \<noteq> tmp_of (frontier_of p)"
  "frontier_of p \<noteq> diff_of p c" "tmp_of (frontier_of p) \<noteq> diff_of p c"
  "tmp_of (tmp_of (frontier_of p)) \<noteq> diff_of p c"
  using suffixes_differ by (auto simp: tmp_of_def frontier_of_def diff_of_def)

text \<open>The names that belong to a data file.\<close>

definition switch_names :: "string \<Rightarrow> string set" where
  "switch_names p = {frontier_of p, tmp_of (frontier_of p), tmp_of (tmp_of (frontier_of p))}"

lemma switch_file_ok:
  assumes cd: "codec cp dc" and sz: "\<And>s. length (C s p) < 2 ^ 32"
    and d: "diffs_ok cp rel C p fs" and w: "way_ok rel dest x w"
    and f: "fs (frontier_of p) = Some (C x p)"
  shows "\<exists>fs'. switch_file dc w p fs = Inr fs' \<and> fs' (frontier_of p) = Some (C dest p)
    \<and> (\<forall>n. n \<notin> switch_names p \<longrightarrow> fs' n = fs n)"
proof -
  let ?fr = "frontier_of p" let ?t = "tmp_of ?fr"
  have copy: "copy_file ?fr ?t fs = Inr (fs(?t \<mapsto> C x p))"
    using f by (simp add: copy_file_def get_file_def)
  have "diffs_ok cp rel C p (fs(?t \<mapsto> C x p))"
    using d frontier_names by (intro diffs_ok_upd) auto
  then obtain fs' where fs': "rfold (apply_step dc ?t p) w (fs(?t \<mapsto> C x p)) = Inr fs'"
    "fs' ?t = Some (C dest p)" "\<forall>n. n \<noteq> ?t \<longrightarrow> n \<noteq> tmp_of ?t \<longrightarrow> fs' n = (fs(?t \<mapsto> C x p)) n"
    using apply_way_ok [where C = C and p = p and new = ?t and dest = dest, OF cd sz] w frontier_names
    by (metis fun_upd_same)
  then have "switch_file dc w p fs = Inr ((fs'(?fr := fs' ?t))(?t := None))"
    using copy by (simp add: switch_file_def apply_long_change_def Let_def)
  then show ?thesis
    using fs'(2,3) frontier_names(1-3) [of p] frontier_names(1) [of p, symmetric]
    by (auto simp: switch_names_def)
qed

section \<open>Loops over the data files\<close>

lemma rfold_append: "rfold f (xs @ ys) s = rbind (rfold f xs s) (rfold f ys)"
proof (induction xs arbitrary: s)
  case (Cons x xs)
  then show ?case by (cases "f x s") auto
qed simp

lemma rfold_concat: "rfold (\<lambda>ps. rfold f ps) pss s = rfold f (concat pss) s"
proof (induction pss arbitrary: s)
  case (Cons ps pss)
  then show ?case by (cases "rfold f ps s") (auto simp: rfold_append)
qed simp

lemma each_file_concat:
  "each_file f st = rbind (rfold f (concat (sn_drivers st)) (sn_files st))
     (\<lambda>fs. Inr (st\<lparr>sn_files := fs\<rparr>))"
  by (simp add: each_file_def rfold_concat)

text \<open>
  A loop whose step for \<open>p\<close> needs \<open>R p\<close>, gives \<open>G p\<close> and changes only the names in
  \<open>N p\<close>, where \<open>R q\<close> and \<open>G q\<close> depend only on the names in \<open>D q\<close>.
\<close>

lemma rfold_files:
  assumes step: "\<And>p fs. p \<in> set ps \<Longrightarrow> R p fs \<Longrightarrow> \<exists>fs'. f p fs = Inr fs' \<and> G p fs'
      \<and> (\<forall>n. n \<notin> N p \<longrightarrow> fs' n = fs n)"
    and loc: "\<And>q fs fs'. \<forall>n\<in>D q. fs' n = fs n \<Longrightarrow> R q fs \<Longrightarrow> R q fs'"
      "\<And>q fs fs'. \<forall>n\<in>D q. fs' n = fs n \<Longrightarrow> G q fs \<Longrightarrow> G q fs'"
    and dis: "\<And>p q. p \<in> set ps \<Longrightarrow> q \<in> set ps \<Longrightarrow> p \<noteq> q \<Longrightarrow> N p \<inter> D q = {}"
    and d: "distinct ps" and R: "\<And>p. p \<in> set ps \<Longrightarrow> R p fs"
  shows "\<exists>fs'. rfold f ps fs = Inr fs' \<and> (\<forall>p\<in>set ps. G p fs')
    \<and> (\<forall>n. (\<forall>p\<in>set ps. n \<notin> N p) \<longrightarrow> fs' n = fs n)"
  using step dis d R
proof (induction ps arbitrary: fs)
  case (Cons p ps)
  have p: "p \<in> set (p # ps)" "p \<notin> set ps" using Cons.prems(3) by simp_all
  obtain f1 where f1: "f p fs = Inr f1" "G p f1" "\<forall>n. n \<notin> N p \<longrightarrow> f1 n = fs n"
    using Cons.prems(1) [OF p(1) Cons.prems(4) [OF p(1)]] by blast
  have R1: "R q f1" if q: "q \<in> set ps" for q
  proof (rule loc(1))
    show "\<forall>n\<in>D q. f1 n = fs n" using Cons.prems(2) [OF p(1), of q] q p(2) f1(3) by auto
    show "R q fs" using Cons.prems(4) q by simp
  qed
  obtain f2 where f2: "rfold f ps f1 = Inr f2" "\<forall>q\<in>set ps. G q f2"
    "\<forall>n. (\<forall>q\<in>set ps. n \<notin> N q) \<longrightarrow> f2 n = f1 n"
  proof -
    have "\<exists>fs'. rfold f ps f1 = Inr fs' \<and> (\<forall>q\<in>set ps. G q fs')
        \<and> (\<forall>n. (\<forall>q\<in>set ps. n \<notin> N q) \<longrightarrow> fs' n = f1 n)"
      by (rule Cons.IH) (use Cons.prems R1 in auto)
    then show thesis using that by blast
  qed
  have "\<forall>n\<in>D p. f2 n = f1 n"
  proof
    fix n assume n: "n \<in> D p"
    have "n \<notin> N q" if "q \<in> set ps" for q
      using Cons.prems(2) [OF _ p(1), of q] that p(2) n by auto
    then show "f2 n = f1 n" using f2(3) by blast
  qed
  then have "G p f2" using loc(2) f1(2) by blast
  then show ?case using f1 f2 by auto
qed simp

end
