(* ===== verification/Snapshot_History.thy ===== *)
theory Snapshot_History
  imports Snapshot_Manager
begin

text \<open>
  The histories of a snapshot repository and the promise of \<open>SnapShotManager\<close>: whatever
  was recorded by \<open>CreateSnapShot\<close> can be brought back. The theory shows that the meta
  file reads back as it was printed, defines the invariant of a repository, shows that
  creating, switching, checking out and removing keep it, and ends with the promise.
  The uses in which the code breaks it are in \<open>Snapshot_Losses\<close>.
\<close>

section \<open>The meta file reads back\<close>

definition valid_name :: "string \<Rightarrow> bool" where
  "valid_name s \<longleftrightarrow> s \<noteq> [] \<and> (\<forall>c\<in>set s. \<not> is_space c)"

lemma space_chars [simp]: "is_space (CHR '' '')" "is_space (CHR 0x0A)"
  by (simp_all add: is_space_def)

lemma words_Nil [simp]: "words [] = []"
  by (simp add: words.simps)

lemma words_space: "is_space c \<Longrightarrow> words (c # r) = words r"
  by (simp add: words.simps [of "c # r"] words.simps [of r])

lemma words_cons:
  assumes "valid_name w" "is_space c"
  shows "words (w @ c # r) = w # words r"
proof -
  have w: "w \<noteq> []" "\<forall>x\<in>set w. \<not> is_space x" using assms(1) by (auto simp: valid_name_def)
  then have "dropWhile is_space (w @ c # r) = w @ c # r" by (cases w) auto
  moreover have "takeWhile (\<lambda>c. \<not> is_space c) (w @ c # r) = w"
    "dropWhile (\<lambda>c. \<not> is_space c) (w @ c # r) = c # r"
    using w(2) assms(2) by (simp_all add: takeWhile_append2 dropWhile_append2)
  ultimately have "words (w @ c # r) = w # words (c # r)"
    using w(1) by (subst words.simps) (simp add: Let_def)
  then show ?thesis using words_space [OF assms(2)] by simp
qed

definition valid_rel :: "relation \<Rightarrow> bool" where
  "valid_rel rel \<longleftrightarrow> (\<forall>(a, b)\<in>set rel. valid_name a \<and> valid_name b)"

lemma words_lines:
  "valid_rel rel \<Longrightarrow> words (concat (map (\<lambda>(a, b). a @ CHR '' '' # b @ [CHR 0x0A]) rel))
    = concat (map (\<lambda>(a, b). [a, b]) rel)"
  by (induction rel) (auto simp: valid_rel_def words_cons)

lemma pair_up_pairs: "pair_up (concat (map (\<lambda>(a, b). [a, b]) rel)) = rel"
  by (induction rel) auto

lemma parse_print_meta [simp]:
  "valid_name h \<Longrightarrow> valid_rel rel \<Longrightarrow> parse_meta (print_meta h rel) = (h, rel)"
  by (simp add: parse_meta_def print_meta_def words_cons words_lines pair_up_pairs)

lemma parse_first: "valid_name h \<Longrightarrow> fst (parse_meta (h @ CHR 0x0A # r)) = h"
  by (simp add: parse_meta_def words_cons)

text \<open>Printing over the old text leaves nothing of it when the new text is not shorter.\<close>

lemma overwrite_longer: "length old \<le> length new \<Longrightarrow> overwrite old new = new"
  by (simp add: overwrite_def)

lemma parse_overwritten: "valid_name h \<Longrightarrow> fst (parse_meta (overwrite old (print_meta h rel))) = h"
  by (simp add: overwrite_def print_meta_def parse_first)

section \<open>The invariant of a repository\<close>

text \<open>
  Snapshot names without dots, other than \<^verbatim>\<open>anctmp\<close>, keep the names of difference files
  and of temporary files apart.
\<close>

definition plain_name :: "string \<Rightarrow> bool" where
  "plain_name s \<longleftrightarrow> valid_name s \<and> CHR ''.'' \<notin> set s \<and> s \<noteq> ''anctmp''"

type_synonym contents = "string \<Rightarrow> bytes"

definition content :: "(string \<rightharpoonup> contents) \<Rightarrow> string \<Rightarrow> string \<Rightarrow> bytes" where
  "content m s p = (case m s of None \<Rightarrow> [] | Some D \<Rightarrow> D p)"

definition file_ok ::
  "(bytes \<Rightarrow> bytes) \<Rightarrow> relation \<Rightarrow> string \<Rightarrow> (string \<rightharpoonup> contents) \<Rightarrow> string \<Rightarrow> files \<Rightarrow> bool" where
  "file_ok cp rel head m p fs \<longleftrightarrow> diffs_ok cp rel (content m) p fs
     \<and> fs (frontier_of p) = Some (content m head p)
     \<and> (\<forall>s. length (content m s p) < 2 ^ 32) \<and> (\<forall>b. fs p = Some b \<longrightarrow> length b < 2 ^ 32)"

definition tree_names :: "relation \<Rightarrow> string \<Rightarrow> (string \<rightharpoonup> contents) \<Rightarrow> bool" where
  "tree_names rel head m \<longleftrightarrow> distinct (map fst rel) \<and> head \<in> dom m
     \<and> dom m = insert ''INIT'' (set (map fst rel)) \<and> ''INIT'' \<notin> set (map fst rel)
     \<and> set (map snd rel) \<subseteq> dom m \<and> (\<forall>s\<in>dom m. plain_name s)
     \<and> (\<forall>s\<in>dom m. (s, ''INIT'') \<in> (set rel)\<^sup>*)"

definition paths_of :: "snapshots \<Rightarrow> string list" where
  "paths_of st = concat (sn_drivers st)"

definition repo_ok ::
  "(bytes \<Rightarrow> bytes) \<Rightarrow> snapshots \<Rightarrow> relation \<Rightarrow> string \<Rightarrow> (string \<rightharpoonup> contents) \<Rightarrow> bool" where
  "repo_ok cp st rel head m \<longleftrightarrow> ready st \<and> names_ok (paths_of st)
     \<and> sn_meta st = print_meta head rel \<and> tree_names rel head m
     \<and> (\<forall>p\<in>set (paths_of st). file_ok cp rel head m p (sn_files st))"

lemma repo_okD:
  assumes "repo_ok cp st rel head m"
  shows "ready st" "names_ok (paths_of st)" "sn_meta st = print_meta head rel" "tree_names rel head m"
    "\<And>p. p \<in> set (paths_of st) \<Longrightarrow> file_ok cp rel head m p (sn_files st)"
  using assms by (simp_all add: repo_ok_def)

lemma tree_namesD:
  assumes "tree_names rel head m"
  shows "distinct (map fst rel)" "head \<in> dom m" "dom m = insert ''INIT'' (set (map fst rel))"
    "''INIT'' \<notin> set (map fst rel)" "set (map snd rel) \<subseteq> dom m" "\<And>s. s \<in> dom m \<Longrightarrow> plain_name s"
    "\<And>s. s \<in> dom m \<Longrightarrow> (s, ''INIT'') \<in> (set rel)\<^sup>*"
proof -
  note all = assms [unfolded tree_names_def]
  show "distinct (map fst rel)" "head \<in> dom m" "dom m = insert ''INIT'' (set (map fst rel))"
    "''INIT'' \<notin> set (map fst rel)" "set (map snd rel) \<subseteq> dom m"
    using all by iprover+
  have "\<forall>s\<in>dom m. plain_name s" "\<forall>s\<in>dom m. (s, ''INIT'') \<in> (set rel)\<^sup>*"
    using all by iprover+
  then show "s \<in> dom m \<Longrightarrow> plain_name s" "s \<in> dom m \<Longrightarrow> (s, ''INIT'') \<in> (set rel)\<^sup>*" for s
    by (iprover elim: bspec)+
qed

lemma tree_son: "tree_names rel head m \<Longrightarrow> (c, a) \<in> set rel \<Longrightarrow> c \<in> dom m \<and> a \<in> dom m \<and> c \<noteq> ''INIT''"
proof -
  assume t: "tree_names rel head m" and ca: "(c, a) \<in> set rel"
  have "c \<in> set (map fst rel)" "a \<in> set (map snd rel)" using ca by force+
  moreover have "c \<in> dom m" unfolding tree_namesD(3) [OF t] using calculation(1) by blast
  ultimately show ?thesis using tree_namesD(4,5) [OF t] by blast
qed

lemma tree_valid:
  assumes "tree_names rel head m"
  shows "valid_name head" "valid_rel rel"
proof -
  note t = tree_namesD [OF assms]
  have v: "\<And>s. s \<in> dom m \<Longrightarrow> valid_name s" using t(6) by (simp add: plain_name_def)
  show "valid_name head" using v t(2) .
  show "valid_rel rel" unfolding valid_rel_def
  proof (intro ballI, clarify, intro conjI)
    fix a b assume ab: "(a, b) \<in> set rel"
    show "valid_name a" "valid_name b" using tree_son [OF assms ab] v by blast+
  qed
qed

lemma repo_meta: "repo_ok cp st rel head m \<Longrightarrow> parse_meta (sn_meta st) = (head, rel)"
  using tree_valid [OF repo_okD(4)] by (simp add: repo_okD(3))

text \<open>The ancestor of a son is the one its only line names.\<close>

lemma tree_anc:
  assumes "tree_names rel head m"
  shows "anc_of rel c = Some a \<longleftrightarrow> (c, a) \<in> set rel"
  using tree_namesD(1) [OF assms] unfolding anc_of_def
  by (subst map_of_eq_Some_iff) (simp_all add: rev_map [symmetric])

lemma tree_adjacent:
  assumes "tree_names rel head m"
  shows "adjacent rel x y \<longleftrightarrow> (x, y) \<in> set rel \<or> (y, x) \<in> set rel"
proof
  assume "adjacent rel x y"
  then obtain e where "(y, e) \<in> set (neighbours rel x)" by (auto simp: adjacent_def)
  then show "(x, y) \<in> set rel \<or> (y, x) \<in> set rel"
    using tree_anc [OF assms] by (auto simp: neighbours_mem)
next
  assume "(x, y) \<in> set rel \<or> (y, x) \<in> set rel"
  then have "\<exists>e. (y, e) \<in> set (neighbours rel x)"
    using tree_anc [OF assms] by (auto simp: neighbours_mem)
  then show "adjacent rel x y" by (force simp: adjacent_def)
qed

lemma tree_linked:
  assumes t: "tree_names rel head m" and x: "x \<in> dom m" and y: "y \<in> dom m"
  shows "(adjacent rel)\<^sup>*\<^sup>* x y"
proof -
  have sym: "(adjacent rel)\<^sup>*\<^sup>* ''INIT'' s \<and> (adjacent rel)\<^sup>*\<^sup>* s ''INIT''"
    if "(s, ''INIT'') \<in> (set rel)\<^sup>*" for s
    using that
  proof (induction rule: converse_rtrancl_induct)
    case (step a b)
    have "adjacent rel a b" "adjacent rel b a" using step(1) tree_adjacent [OF t] by blast+
    then show ?case using step(3)
      by (meson converse_rtranclp_into_rtranclp rtranclp.rtrancl_into_rtrancl)
  qed simp
  have "(adjacent rel)\<^sup>*\<^sup>* x ''INIT''" "(adjacent rel)\<^sup>*\<^sup>* ''INIT'' y"
    using sym tree_namesD(7) [OF t] x y by blast+
  then show ?thesis by (rule rtranclp_trans)
qed

lemma tree_known:
  assumes t: "tree_names rel head m"
  shows "s \<in> dom m \<Longrightarrow> s \<noteq> ''INIT'' \<Longrightarrow> known rel s" "known rel s \<Longrightarrow> s \<in> dom m"
proof -
  assume "s \<in> dom m" "s \<noteq> ''INIT''"
  then have "s \<in> set (map fst rel)" using tree_namesD(3) [OF t] by simp
  then obtain a where "(s, a) \<in> set rel" by force
  then have "anc_of rel s = Some a" using tree_anc [OF t] by simp
  then show "known rel s" by (simp add: known_def)
next
  assume "known rel s"
  then consider a where "(a, s) \<in> set rel" | a where "(s, a) \<in> set rel"
    unfolding known_def using sons_of_mem [of _ rel s] tree_anc [OF t]
    by (metis list.set_intros(1) neq_Nil_conv not_None_eq)
  then show "s \<in> dom m"
  proof cases
    case 1
    then show ?thesis using tree_son [OF t] by blast
  next
    case 2
    then show ?thesis using tree_son [OF t] by blast
  qed
qed

text \<open>The search succeeds for every recorded snapshot.\<close>

lemma repo_way:
  assumes r: "repo_ok cp st rel head m" and s: "s \<in> dom m" "known rel s"
  shows "\<exists>w. find_way s st = Inr w \<and> way_ok rel s head w"
proof (rule find_way_ok)
  have t: "tree_names rel head m" using repo_okD(4) [OF r] .
  show "(adjacent rel)\<^sup>*\<^sup>* s head" using tree_linked [OF t s(1) tree_namesD(2) [OF t]] .
qed (use repo_okD(1) [OF r] repo_meta [OF r] s(2) in simp_all)

section \<open>What belongs to a data file\<close>

definition names_of :: "string \<Rightarrow> string set" where
  "names_of p = insert p (range (aux p))"

lemma names_of_aux [simp]: "aux p x \<in> names_of p" "p \<in> names_of p"
  by (simp_all add: names_of_def)

lemma names_of_disjoint:
  "names_ok ps \<Longrightarrow> p \<in> set ps \<Longrightarrow> q \<in> set ps \<Longrightarrow> p \<noteq> q \<Longrightarrow> names_of p \<inter> names_of q = {}"
  using aux_inject [of ps p q] aux_not_data [of ps p q] aux_not_data [of ps q p]
  by (fastforce simp: names_of_def)

definition same_at :: "string \<Rightarrow> files \<Rightarrow> files \<Rightarrow> bool" where
  "same_at p fs fs' \<longleftrightarrow> (\<forall>n\<in>names_of p. fs' n = fs n)"

lemma file_ok_local: "same_at p fs fs' \<Longrightarrow> file_ok cp rel head m p fs \<Longrightarrow> file_ok cp rel head m p fs'"
  by (auto simp: same_at_def file_ok_def diffs_ok_def aux_names split_beta)

lemma file_okD:
  assumes "file_ok cp rel head m p fs"
  shows "diffs_ok cp rel (content m) p fs" "fs (frontier_of p) = Some (content m head p)"
    "length (content m s p) < 2 ^ 32" "fs p = Some b \<Longrightarrow> length b < 2 ^ 32"
  using assms by (simp_all add: file_ok_def)

text \<open>A loop over all data files whose step works for each.\<close>

lemma each_file_ok:
  assumes nm: "names_ok (paths_of st)"
    and step: "\<And>p fs. p \<in> set (paths_of st) \<Longrightarrow> R p fs \<Longrightarrow>
      \<exists>fs'. f p fs = Inr fs' \<and> G p fs' \<and> (\<forall>n. n \<notin> names_of p \<longrightarrow> fs' n = fs n)"
    and loc: "\<And>p fs fs'. same_at p fs fs' \<Longrightarrow> R p fs \<Longrightarrow> R p fs'"
      "\<And>p fs fs'. same_at p fs fs' \<Longrightarrow> G p fs \<Longrightarrow> G p fs'"
    and R: "\<And>p. p \<in> set (paths_of st) \<Longrightarrow> R p (sn_files st)"
  shows "\<exists>fs'. each_file f st = Inr (st\<lparr>sn_files := fs'\<rparr>) \<and> (\<forall>p\<in>set (paths_of st). G p fs')"
proof -
  have "\<exists>fs'. rfold f (paths_of st) (sn_files st) = Inr fs' \<and> (\<forall>p\<in>set (paths_of st). G p fs')
    \<and> (\<forall>n. (\<forall>p\<in>set (paths_of st). n \<notin> names_of p) \<longrightarrow> fs' n = sn_files st n)"
  proof (rule rfold_files [where R = R and D = names_of])
    show "distinct (paths_of st)" using nm by (simp add: names_ok_def)
  qed (use assms names_of_disjoint [OF nm] in \<open>simp_all add: same_at_def\<close>)
  then show ?thesis unfolding each_file_concat paths_of_def [symmetric] by fastforce
qed

lemma no_dot_suffix:
  assumes "CHR ''.'' \<notin> set x" "CHR ''.'' \<notin> set y" "x @ ''.'' @ r = y @ ''.'' @ t"
  shows "x = y \<and> r = t"
proof -
  have take: "takeWhile (\<lambda>c. c \<noteq> CHR ''.'') (z @ ''.'' @ r) = z" if "CHR ''.'' \<notin> set z" for z r
  proof -
    have "\<forall>c\<in>set z. c \<noteq> CHR ''.''" using that by auto
    then show ?thesis by (simp add: takeWhile_append2)
  qed
  then have "x = y" using assms by metis
  then show ?thesis using assms(3) by simp
qed

lemma diff_of_inject: "diff_of p s = diff_of p c \<longleftrightarrow> s = c"
  by (simp add: diff_of_def)

section \<open>Creating a snapshot\<close>

lemma content_upd:
  "content (m(s \<mapsto> D)) c p = (if c = s then D p else content m c p)"
  by (simp add: content_def)

lemma diffs_ok_cong:
  assumes "diffs_ok cp rel C p fs" "\<And>c a. (c, a) \<in> set rel \<Longrightarrow> fs' (diff_of p c) = fs (diff_of p c)"
    and "\<And>c a. (c, a) \<in> set rel \<Longrightarrow> C' c p = C c p \<and> C' a p = C a p"
  shows "diffs_ok cp rel C' p fs'"
  using assms unfolding diffs_ok_def by fastforce

lemma create_file_ok:
  assumes t: "tree_names rel head m" and s: "s \<notin> dom m"
    and f: "file_ok cp rel head m p fs" "fs p = Some (D p)"
    and nm: "names_ok ps" "p \<in> set ps"
  shows "\<exists>fs'. rbind (generate_diff cp (frontier_of p) p (diff_of p s) fs) (copy_file p (frontier_of p)) = Inr fs'
    \<and> (file_ok cp (rel @ [(s, head)]) s (m(s \<mapsto> D)) p fs' \<and> fs' p = Some (D p))
    \<and> (\<forall>n. n \<notin> names_of p \<longrightarrow> fs' n = fs n)"
proof -
  let ?fs = "fs(diff_of p s \<mapsto> cp (diff_stream (content m head p) (D p)), frontier_of p \<mapsto> D p)"
  have ne: "frontier_of p \<noteq> p" "diff_of p s \<noteq> p" "\<And>c. frontier_of p \<noteq> diff_of p c"
    using aux_not_data [OF nm nm(2)] frontier_names(4) by (simp_all add: aux_names)
  have sh: "head \<noteq> s" using tree_namesD(2) [OF t] s by blast
  have run: "rbind (generate_diff cp (frontier_of p) p (diff_of p s) fs) (copy_file p (frontier_of p)) = Inr ?fs"
    using f(2) file_okD(2) [OF f(1)] ne by (simp add: generate_diff_def copy_file_def get_file_def)
  have old: "c \<noteq> s \<and> a \<noteq> s" if "(c, a) \<in> set rel" for c a using tree_son [OF t that] s by blast
  have "diffs_ok cp rel (content (m(s \<mapsto> D))) p ?fs"
  proof (rule diffs_ok_cong [OF file_okD(1) [OF f(1)]])
    fix c a assume ca: "(c, a) \<in> set rel"
    show "?fs (diff_of p c) = fs (diff_of p c)"
      using old [OF ca] ne(3) [of c] by (simp add: diff_of_inject)
    show "content (m(s \<mapsto> D)) c p = content m c p \<and> content (m(s \<mapsto> D)) a p = content m a p"
      using old [OF ca] by (simp add: content_upd)
  qed
  then have "diffs_ok cp (rel @ [(s, head)]) (content (m(s \<mapsto> D))) p ?fs"
    using sh ne(3) [of s] ne(3) [of s, symmetric] by (simp add: diffs_ok_def content_upd)
  then have "file_ok cp (rel @ [(s, head)]) s (m(s \<mapsto> D)) p ?fs"
    using ne f(2) file_okD(3,4) [OF f(1)] by (simp add: file_ok_def content_upd)
  then show ?thesis using run ne f(2) by (auto simp: aux_names)
qed

lemma tree_names_create:
  assumes t: "tree_names rel head m" and s: "s \<notin> dom m" "plain_name s"
  shows "tree_names (rel @ [(s, head)]) s (m(s \<mapsto> D))"
proof -
  note n = tree_namesD [OF t]
  have mono: "(x, ''INIT'') \<in> (set (rel @ [(s, head)]))\<^sup>*" if "x \<in> dom m" for x
    by (rule rtrancl_mono [THEN subsetD, OF _ n(7) [OF that]]) auto
  have "(s, ''INIT'') \<in> (set (rel @ [(s, head)]))\<^sup>*"
    using mono [OF n(2)] by (intro converse_rtrancl_into_rtrancl [of s head]) auto
  moreover have "s \<notin> set (map fst rel)" "s \<noteq> ''INIT''" using s(1) unfolding n(3) by auto
  moreover have "dom (m(s \<mapsto> D)) = insert ''INIT'' (set (map fst (rel @ [(s, head)])))"
    using n(3) by auto
  moreover have "set (map snd (rel @ [(s, head)])) \<subseteq> dom (m(s \<mapsto> D))" using n(2,5) by auto
  moreover have "plain_name x" if "x \<in> dom (m(s \<mapsto> D))" for x
    using that n(6) s(2) by (auto simp: domIff split: if_splits)
  moreover have "(x, ''INIT'') \<in> (set (rel @ [(s, head)]))\<^sup>*" if "x \<in> dom (m(s \<mapsto> D))" for x
    using that mono calculation(1) by (auto split: if_splits)
  ultimately show ?thesis using n(1,4) unfolding tree_names_def by simp
qed

lemma create_ok:
  assumes r: "repo_ok cp st rel head m" and s: "s \<notin> dom m" "plain_name s"
    and D: "\<And>p. p \<in> set (paths_of st) \<Longrightarrow> sn_files st p = Some (D p)"
  shows "\<exists>st'. create_snapshot cp s st = Inr st' \<and> repo_ok cp st' (rel @ [(s, head)]) s (m(s \<mapsto> D))
    \<and> sn_drivers st' = sn_drivers st \<and> (\<forall>p\<in>set (paths_of st). sn_files st' p = Some (D p))"
proof -
  note k = repo_okD [OF r]
  have kn: "\<not> known rel s" using tree_known(2) [OF k(4)] s(1) by blast
  define st1 where "st1 = st\<lparr>sn_meta := overwrite (sn_meta st) (print_meta s (rel @ [(s, head)]))\<rparr>"
  have p1: "paths_of st1 = paths_of st" "sn_files st1 = sn_files st" by (simp_all add: st1_def paths_of_def)
  let ?f = "\<lambda>p fs. rbind (generate_diff cp (frontier_of p) p (diff_of p s) fs) (copy_file p (frontier_of p))"
  have "\<exists>fs'. each_file ?f st1 = Inr (st1\<lparr>sn_files := fs'\<rparr>) \<and> (\<forall>p\<in>set (paths_of st1).
      file_ok cp (rel @ [(s, head)]) s (m(s \<mapsto> D)) p fs' \<and> fs' p = Some (D p))"
  proof (rule each_file_ok [where R = "\<lambda>p fs. file_ok cp rel head m p fs \<and> fs p = Some (D p)"])
    show "names_ok (paths_of st1)" using k(2) p1 by simp
    show "\<exists>fs'. ?f p fs = Inr fs'
        \<and> (file_ok cp (rel @ [(s, head)]) s (m(s \<mapsto> D)) p fs' \<and> fs' p = Some (D p))
        \<and> (\<forall>n. n \<notin> names_of p \<longrightarrow> fs' n = fs n)"
      if "p \<in> set (paths_of st1)" "file_ok cp rel head m p fs \<and> fs p = Some (D p)" for p fs
      using that p1 by (intro create_file_ok [OF k(4) s(1) _ _ k(2)]) auto
  qed (use k(5) D p1 file_ok_local in \<open>auto simp: same_at_def\<close>)
  then obtain fs' where fs': "each_file ?f st1 = Inr (st1\<lparr>sn_files := fs'\<rparr>)"
    "\<forall>p\<in>set (paths_of st). file_ok cp (rel @ [(s, head)]) s (m(s \<mapsto> D)) p fs'"
    "\<forall>p\<in>set (paths_of st). fs' p = Some (D p)"
    using p1 by auto
  have run: "create_snapshot cp s st = Inr (st1\<lparr>sn_files := fs'\<rparr>)"
    using fs'(1) k(1) kn repo_meta [OF r] by (simp add: create_snapshot_def st1_def)
  have "length (print_meta head rel) \<le> length (print_meta s (rel @ [(s, head)]))"
    by (simp add: print_meta_def)
  then have "sn_meta st1 = print_meta s (rel @ [(s, head)])"
    by (simp add: st1_def k(3) overwrite_longer)
  then have "repo_ok cp (st1\<lparr>sn_files := fs'\<rparr>) (rel @ [(s, head)]) s (m(s \<mapsto> D))"
    using fs'(2) k(1,2) tree_names_create [OF k(4) s]
    by (simp add: repo_ok_def paths_of_def ready_def st1_def)
  then show ?thesis using run fs'(3) by (simp add: st1_def)
qed

section \<open>Switching and checking out\<close>

lemma switch_files_ok:
  assumes cd: "codec cp dc" and r: "repo_ok cp st rel head m" and s: "s \<in> dom m" "known rel s"
  shows "\<exists>fs'. switch_to_snapshot dc s st
      = Inr (st\<lparr>sn_files := fs', sn_meta := overwrite (sn_meta st) (print_meta s rel)\<rparr>)
    \<and> (\<forall>p\<in>set (paths_of st). file_ok cp rel s m p fs')"
proof -
  note k = repo_okD [OF r]
  obtain w where w: "find_way s st = Inr w" "way_ok rel s head w" using repo_way [OF r s] by blast
  have "\<exists>fs'. each_file (switch_file dc w) st = Inr (st\<lparr>sn_files := fs'\<rparr>)
    \<and> (\<forall>p\<in>set (paths_of st). file_ok cp rel s m p fs')"
  proof (rule each_file_ok [where R = "file_ok cp rel head m"])
    fix p fs assume p: "p \<in> set (paths_of st)" and f: "file_ok cp rel head m p fs"
    obtain fs' where fs': "switch_file dc w p fs = Inr fs'" "fs' (frontier_of p) = Some (content m s p)"
      "\<forall>n. n \<notin> switch_names p \<longrightarrow> fs' n = fs n"
      using switch_file_ok [where C = "content m", OF cd file_okD(3) [OF f] file_okD(1) [OF f] w(2) file_okD(2) [OF f]]
      by blast
    have "\<And>c. diff_of p c \<notin> switch_names p"
      using frontier_names(4-6) [of p, symmetric] by (simp add: switch_names_def)
    then have "diffs_ok cp rel (content m) p fs'"
      using fs'(3) by (intro diffs_ok_cong [OF file_okD(1) [OF f]]) auto
    moreover have "p \<notin> switch_names p"
      using aux_not_data [OF k(2) p p, symmetric] by (simp add: switch_names_def aux_names)
    ultimately have "file_ok cp rel s m p fs'" using fs' f by (simp add: file_ok_def)
    moreover have "switch_names p \<subseteq> names_of p" by (auto simp: switch_names_def aux_names)
    ultimately show "\<exists>fs'. switch_file dc w p fs = Inr fs' \<and> file_ok cp rel s m p fs'
        \<and> (\<forall>n. n \<notin> names_of p \<longrightarrow> fs' n = fs n)" using fs'(1,3) by blast
  qed (use k in \<open>simp_all add: file_ok_local\<close>)
  then show ?thesis
    using w(1) k(1) repo_meta [OF r] by (auto simp: switch_to_snapshot_def)
qed

lemma switch_ok:
  assumes cd: "codec cp dc" and r: "repo_ok cp st rel head m" and s: "s \<in> dom m" "known rel s"
    and len: "length head \<le> length s"
  shows "\<exists>st'. switch_to_snapshot dc s st = Inr st' \<and> repo_ok cp st' rel s m
    \<and> sn_drivers st' = sn_drivers st"
proof -
  note k = repo_okD [OF r]
  obtain fs' where fs': "switch_to_snapshot dc s st
      = Inr (st\<lparr>sn_files := fs', sn_meta := overwrite (sn_meta st) (print_meta s rel)\<rparr>)"
    "\<forall>p\<in>set (paths_of st). file_ok cp rel s m p fs'"
    using switch_files_ok [OF cd r s] by blast
  have "overwrite (sn_meta st) (print_meta s rel) = print_meta s rel"
    using len by (simp add: k(3) overwrite_longer print_meta_def)
  moreover have "tree_names rel s m" using k(4) s(1) unfolding tree_names_def by iprover
  ultimately show ?thesis
    using fs' k(1,2) by (simp add: repo_ok_def ready_def paths_of_def)
qed

lemma check_out_ok:
  assumes st: "ready st" "names_ok (paths_of st)" "fst (parse_meta (sn_meta st)) = s"
    and f: "\<And>p. p \<in> set (paths_of st) \<Longrightarrow> file_ok cp rel s m p (sn_files st)"
  shows "\<exists>fs'. check_out_frontier st = Inr (st\<lparr>sn_files := fs'\<rparr>)
    \<and> (\<forall>p\<in>set (paths_of st). file_ok cp rel s m p fs'
      \<and> fs' p = (if s = ''INIT'' then None else Some (content m s p)))"
proof -
  let ?f = "\<lambda>p fs. if s = ''INIT'' then Inr (fs(p := None)) else copy_file (frontier_of p) p fs"
  have "\<exists>fs'. each_file ?f st = Inr (st\<lparr>sn_files := fs'\<rparr>) \<and> (\<forall>p\<in>set (paths_of st).
      file_ok cp rel s m p fs' \<and> fs' p = (if s = ''INIT'' then None else Some (content m s p)))"
  proof (rule each_file_ok [where R = "file_ok cp rel s m"])
    fix p fs assume p: "p \<in> set (paths_of st)" and f: "file_ok cp rel s m p fs"
    define v where "v = (if s = ''INIT'' then None else Some (content m s p))"
    have ne: "aux p x \<noteq> p" for x using aux_not_data [OF st(2) p p] .
    have "?f p fs = Inr (fs(p := v))"
      using file_okD(2) [OF f] by (simp add: v_def copy_file_def get_file_def)
    moreover have "file_ok cp rel s m p (fs(p := v))"
      using f ne ne [symmetric] by (auto simp: file_ok_def diffs_ok_def aux_names v_def split: if_splits)
    ultimately show "\<exists>fs'. ?f p fs = Inr fs' \<and> (file_ok cp rel s m p fs'
        \<and> fs' p = (if s = ''INIT'' then None else Some (content m s p)))
        \<and> (\<forall>n. n \<notin> names_of p \<longrightarrow> fs' n = fs n)" by (auto simp: v_def)
  qed (use st f file_ok_local in \<open>auto simp: same_at_def\<close>)
  then show ?thesis using st by (simp add: check_out_frontier_def)
qed

section \<open>Removing a snapshot that has one son\<close>

definition bypass :: "relation \<Rightarrow> string \<Rightarrow> string \<Rightarrow> string \<Rightarrow> relation" where
  "bypass rel s c a = filter (\<lambda>x. fst x \<noteq> s \<and> snd x \<noteq> s) rel @ [(c, a)]"

lemma plain_no_dot: "plain_name c \<Longrightarrow> CHR ''.'' \<notin> set c"
  by (simp add: plain_name_def)

lemma aux_eq: "aux p x = aux p y \<longleftrightarrow> x = y"
  by (simp add: aux_def)

text \<open>The temporary files beside a frontier have names of their own.\<close>

lemma temp_names:
  assumes "plain_name c"
  shows "aux p (''frontier.tmp.'' @ c) \<noteq> aux p ''frontier.tmp''"
    "aux p (''frontier.tmp.'' @ c) \<noteq> aux p ''frontier''"
    "aux p (''frontier.tmp.'' @ c) \<noteq> aux p ''frontier.tmp.anctmp''"
  using assms by (auto simp: aux_def plain_name_def)

lemma diff_not_temp:
  assumes "plain_name x"
  shows "aux p (''frontier.tmp.'' @ y) \<noteq> diff_of p x" "aux p ''frontier.tmp'' \<noteq> diff_of p x"
    "aux p ''frontier.tmp.tmp'' \<noteq> diff_of p x" "aux p ''frontier'' \<noteq> diff_of p x"
proof -
  have "x @ ''.'' @ ''diff'' \<noteq> ''frontier'' @ ''.'' @ ''tmp'' @ z" for z
  proof
    assume "x @ ''.'' @ ''diff'' = ''frontier'' @ ''.'' @ ''tmp'' @ z"
    from no_dot_suffix [OF plain_no_dot [OF assms] _ this] show False by simp
  qed
  from this [of "CHR ''.'' # y"] this [of "[]"] this [of "''.tmp''"]
  show "aux p (''frontier.tmp.'' @ y) \<noteq> diff_of p x" "aux p ''frontier.tmp'' \<noteq> diff_of p x"
    "aux p ''frontier.tmp.tmp'' \<noteq> diff_of p x"
    by (auto simp: aux_def diff_of_def)
  show "aux p ''frontier'' \<noteq> diff_of p x" using frontier_names(4) [of p x] by (simp add: aux_names)
qed

lemma rebase_run:
  assumes cd: "codec cp dc" and t: "tree_names rel head m" and f: "file_ok cp rel head m p fs"
    and w: "way_ok rel s head w" and e: "(c, s) \<in> set rel" "(s, a) \<in> set rel"
    and nm: "names_ok ps" "p \<in> set ps"
  shows "\<exists>fs'. rebase_son cp dc s w c p fs = Inr fs'
    \<and> fs' (diff_of p c) = Some (cp (diff_stream (content m a p) (content m c p)))
    \<and> (\<forall>x. plain_name x \<longrightarrow> x \<noteq> c \<longrightarrow> fs' (diff_of p x) = fs (diff_of p x))
    \<and> fs' (frontier_of p) = fs (frontier_of p) \<and> fs' p = fs p
    \<and> (\<forall>n. n \<notin> names_of p \<longrightarrow> fs' n = fs n)"
proof -
  let ?tmp = "tmp_of (frontier_of p)"
  let ?son = "aux p (''frontier.tmp.'' @ c)" and ?anc = "aux p ''frontier.tmp.anctmp''"
  have pl: "plain_name c" "plain_name s" using tree_son [OF t] tree_namesD(6) [OF t] e by blast+
  have tmp: "?tmp = aux p ''frontier.tmp''" by (simp add: aux_names)
  have at: "?tmp @ ''.'' @ c = ?son" "?tmp @ ''.anctmp'' = ?anc" by (simp_all add: tmp aux_def)
  have sz: "\<And>s. length (content m s p) < 2 ^ 32" using file_okD(3) [OF f] .
  have copy: "copy_file (frontier_of p) ?tmp fs = Inr (fs(?tmp \<mapsto> content m head p))"
    using file_okD(2) [OF f] by (simp add: copy_file_def get_file_def)
  have "diffs_ok cp rel (content m) p (fs(?tmp \<mapsto> content m head p))"
    using frontier_names(5) by (intro diffs_ok_upd [OF file_okD(1) [OF f]]) blast
  then obtain fs1 where fs1: "rfold (apply_step dc ?tmp p) w (fs(?tmp \<mapsto> content m head p)) = Inr fs1"
    "fs1 ?tmp = Some (content m s p)"
    "\<forall>n. n \<noteq> ?tmp \<longrightarrow> n \<noteq> tmp_of ?tmp \<longrightarrow> fs1 n = (fs(?tmp \<mapsto> content m head p)) n"
    using apply_way_ok [where C = "content m" and p = p and new = ?tmp and dest = s, OF cd sz]
      w frontier_names by (metis fun_upd_same)
  have same1: "fs1 n = fs n" if "n \<noteq> aux p ''frontier.tmp''" "n \<noteq> aux p ''frontier.tmp.tmp''" for n
    using fs1(3) that by (simp add: aux_names)
  have d: "fs1 (diff_of p x) = fs (diff_of p x)" if "plain_name x" for x
    using diff_not_temp [OF that, of p, symmetric] by (intro same1)
  have packed: "fs1 (diff_of p c) = Some (cp (diff_stream (content m s p) (content m c p)))"
    "fs1 (diff_of p s) = Some (cp (diff_stream (content m a p) (content m s p)))"
    using file_okD(1) [OF f] e unfolding d [OF pl(1)] d [OF pl(2)] by (auto simp: diffs_ok_def)
  define new where "new = cp (diff_stream (content m a p) (content m c p))"
  define tm sn an dc' ds' where names: "tm = ?tmp" "sn = ?son" "an = ?anc" "dc' = diff_of p c" "ds' = diff_of p s"
  have ne: "sn \<noteq> tm" "an \<noteq> tm" "sn \<noteq> an" "sn \<noteq> dc'" "sn \<noteq> ds'" "an \<noteq> dc'" "an \<noteq> ds'" "tm \<noteq> dc'"
    using temp_names [OF pl(1), of p] diff_not_temp [OF pl(1), of p] diff_not_temp [OF pl(2), of p]
      diff_not_temp(1) [OF pl(1), of p "''anctmp''"] diff_not_temp(1) [OF pl(2), of p "''anctmp''"]
    by (simp_all add: names tmp aux_eq)
  have vals: "fs1 tm = Some (content m s p)" "fs1 dc' = Some (cp (diff_stream (content m s p) (content m c p)))"
    "fs1 ds' = Some (cp (diff_stream (content m a p) (content m s p)))"
    using fs1(2) packed by (simp_all add: names)
  let ?fs2 = "fs1(sn \<mapsto> content m c p)" let ?fs3 = "?fs2(an \<mapsto> content m a p)"
  have 2: "apply_patch dc tm dc' sn False fs1 = Inr ?fs2"
    using vals cd diff_patch(1) [OF sz sz] by (simp add: apply_patch_def get_file_def codec_def)
  have 3: "apply_patch dc tm ds' an True ?fs2 = Inr ?fs3"
    using vals cd diff_patch(2) [OF sz sz] ne ne(5,1) [symmetric]
    by (simp add: apply_patch_def get_file_def codec_def)
  have 4: "generate_diff cp an sn dc' (?fs3(dc' := None)) = Inr (?fs3(dc' \<mapsto> new))"
    using ne by (simp add: generate_diff_def get_file_def new_def)
  define fs5 where "fs5 = (?fs3(dc' \<mapsto> new))(tm := None, sn := None, an := None)"
  have run: "rebase_son cp dc s w c p fs = Inr fs5"
    using copy [folded names] fs1(1) [folded names] 2 3 4 at [folded names]
    unfolding rebase_son_def apply_long_change_def Let_def names(1,4,5) [symmetric] fs5_def
    by (simp del: fun_upd_apply)
  have out: "fs5 n = fs n" if "n \<noteq> diff_of p c" "n \<noteq> ?tmp" "n \<noteq> ?son" "n \<noteq> ?anc" "n \<noteq> aux p ''frontier.tmp.tmp''" for n
    using that same1 [of n] by (simp add: fs5_def names tmp)
  have mine: "diff_of p c \<in> names_of p" by (simp add: aux_names)
  have "fs5 dc' = Some new" using ne ne(4,6,8) [symmetric] by (simp add: fs5_def)
  then have "fs5 (diff_of p c) = Some (cp (diff_stream (content m a p) (content m c p)))"
    by (simp add: names new_def)
  moreover have "fs5 (diff_of p x) = fs (diff_of p x)" if "plain_name x" "x \<noteq> c" for x
    using that diff_not_temp [OF that(1), of p, symmetric] diff_not_temp(1) [OF that(1), of p "''anctmp''", symmetric]
    by (intro out) (simp_all add: diff_of_inject tmp)
  moreover have "fs5 (frontier_of p) = fs (frontier_of p)"
    using diff_not_temp(4) [OF pl(1), of p] by (intro out) (simp_all add: aux_names aux_eq)
  moreover have "fs5 p = fs p"
    using aux_not_data [OF nm nm(2), symmetric] by (intro out) (simp_all add: aux_names)
  moreover have "fs5 n = fs n" if "n \<notin> names_of p" for n
    using that mine by (intro out) (auto simp: tmp)
  ultimately show ?thesis using run by blast
qed

lemma bypass_mem:
  "(x, y) \<in> set (bypass rel s c a) \<longleftrightarrow> (x, y) \<in> set rel \<and> x \<noteq> s \<and> y \<noteq> s \<or> x = c \<and> y = a"
  by (auto simp: bypass_def)

lemma tree_anc_unique: "tree_names rel head m \<Longrightarrow> (c, a) \<in> set rel \<Longrightarrow> (c, b) \<in> set rel \<Longrightarrow> a = b"
  using tree_namesD(1) by (metis eq_key_imp_eq_value)

lemma sons_one: "sons_of rel s = [c] \<Longrightarrow> (x, s) \<in> set rel \<longleftrightarrow> x = c"
  using sons_of_mem [of x rel s] by auto

lemma tree_names_bypass:
  assumes t: "tree_names rel head m" and e: "sons_of rel s = [c]" "(s, a) \<in> set rel"
    and s: "s \<noteq> head" "s \<noteq> ''INIT''" "c \<noteq> s" "a \<noteq> s"
  shows "tree_names (bypass rel s c a) head (m(s := None))"
proof -
  note n = tree_namesD [OF t]
  let ?rel = "bypass rel s c a"
  have cs: "(c, s) \<in> set rel" using sons_one [OF e(1)] by blast
  have fil: "map fst (filter (\<lambda>x. fst x \<noteq> s \<and> snd x \<noteq> s) rel) = filter (\<lambda>x. x \<noteq> s \<and> x \<noteq> c) (map fst rel)"
  proof -
    have "(fst x \<noteq> s \<and> snd x \<noteq> s) = (fst x \<noteq> s \<and> fst x \<noteq> c)" if "x \<in> set rel" for x
    proof -
      have x: "(fst x, snd x) \<in> set rel" using that by simp
      have "snd x = s \<longleftrightarrow> fst x = c"
      proof
        assume "snd x = s"
        then show "fst x = c" using x sons_one [OF e(1)] by simp
      next
        assume "fst x = c"
        then show "snd x = s" using x tree_anc_unique [OF t _ cs] by simp
      qed
      then show ?thesis by simp
    qed
    then have "filter (\<lambda>x. fst x \<noteq> s \<and> snd x \<noteq> s) rel = filter (\<lambda>x. fst x \<noteq> s \<and> fst x \<noteq> c) rel"
      by (rule filter_cong [OF refl])
    then show ?thesis by (simp add: filter_map o_def)
  qed
  have fst': "map fst ?rel = filter (\<lambda>x. x \<noteq> s \<and> x \<noteq> c) (map fst rel) @ [c]"
    unfolding bypass_def map_append fil by simp
  have "distinct (map fst ?rel)" using n(1) unfolding fst' by auto
  moreover have "head \<in> dom (m(s := None))" using n(2) s(1) by auto
  moreover have c: "c \<in> set (map fst rel)" "s \<in> set (map fst rel)" using cs e(2) by force+
  then have "dom (m(s := None)) = insert ''INIT'' (set (map fst ?rel))"
  proof -
    define F I where "F = set (map fst rel)" and "I = ''INIT''"
    have "set (map fst ?rel) = insert c (F - {s, c})" unfolding fst' F_def by auto
    moreover have "insert I F - {s} = insert I (insert c (F - {s, c}))"
      using c s(2,3) unfolding F_def [symmetric] I_def [symmetric] by blast
    moreover have "dom (m(s := None)) = insert I F - {s}" using n(3) by (simp add: F_def I_def)
    ultimately show ?thesis by (simp only: I_def)
  qed
  moreover have "''INIT'' \<notin> set (map fst ?rel)"
    using n(4) tree_son [OF t cs] unfolding fst' by auto
  moreover have "set (map snd ?rel) \<subseteq> dom (m(s := None))"
  proof
    fix y assume "y \<in> set (map snd ?rel)"
    then obtain x where x: "(x, y) \<in> set ?rel" by auto
    then have "y \<noteq> s" "y \<in> dom m" using s(4) tree_son [OF t] e(2) by (auto simp: bypass_mem)
    then show "y \<in> dom (m(s := None))" by auto
  qed
  moreover have "\<forall>x\<in>dom (m(s := None)). plain_name x" using n(6) by auto
  moreover have "\<forall>x\<in>dom (m(s := None)). (x, ''INIT'') \<in> (set ?rel)\<^sup>*"
  proof
    fix x assume x: "x \<in> dom (m(s := None))"
    have "(if x = s then (a, ''INIT'') \<in> (set ?rel)\<^sup>* else (x, ''INIT'') \<in> (set ?rel)\<^sup>*)"
      if "(x, ''INIT'') \<in> (set rel)\<^sup>*" for x
      using that
    proof (induction rule: converse_rtrancl_induct)
      case base
      then show ?case using s(2) by simp
    next
      case (step x y)
      show ?case
      proof (cases "x = s")
        case True
        then have "y = a" using step(1) tree_anc_unique [OF t _ e(2)] by blast
        then show ?thesis using True step(3) s(4) by simp
      next
        case x: False
        show ?thesis
        proof (cases "y = s")
          case True
          then have "x = c" using step(1) sons_one [OF e(1)] by blast
          then have "(x, a) \<in> set ?rel" by (simp add: bypass_mem)
          then show ?thesis using step(3) x True by (simp add: converse_rtrancl_into_rtrancl)
        next
          case False
          then have "(x, y) \<in> set ?rel" using step(1) x by (simp add: bypass_mem)
          then show ?thesis using step(3) x False by (simp add: converse_rtrancl_into_rtrancl)
        qed
      qed
    qed
    then show "(x, ''INIT'') \<in> (set ?rel)\<^sup>*" using n(7) [of x] x by (auto split: if_splits)
  qed
  ultimately show ?thesis unfolding tree_names_def by iprover
qed

lemma remove_ok:
  assumes cd: "codec cp dc" and r: "repo_ok cp st rel head m"
    and s: "s \<in> dom m" "s \<noteq> ''INIT''" "s \<noteq> head" "sons_of rel s = [c]"
  shows "\<exists>st' a. remove_snapshot cp dc s st = Inr st'
    \<and> repo_ok cp st' (bypass rel s c a) head (m(s := None)) \<and> sn_drivers st' = sn_drivers st"
proof -
  note k = repo_okD [OF r]
  have kn: "known rel s" using tree_known(1) [OF k(4) s(1,2)] .
  obtain w where w: "find_way s st = Inr w" "way_ok rel s head w" using repo_way [OF r s(1) kn] by blast
  have "s \<in> set (map fst rel)" using s(1,2) unfolding tree_namesD(3) [OF k(4)] by blast
  then obtain a where a: "(s, a) \<in> set rel" by auto
  have cs: "(c, s) \<in> set rel" using sons_one [OF s(4)] by blast
  have noloop: "x \<noteq> y" if xy: "(x, y) \<in> set rel" for x y
  proof
    assume "x = y"
    have "x \<noteq> ''INIT''" "x \<in> dom m" using tree_son [OF k(4) xy] by blast+
    have stay: "z = x" if "(x, z) \<in> (set rel)\<^sup>*" for z
      using that
    proof (induction rule: rtrancl_induct)
      case (step u v)
      then show ?case using tree_anc_unique [OF k(4)] xy \<open>x = y\<close> by blast
    qed simp
    then show False using tree_namesD(7) [OF k(4) \<open>x \<in> dom m\<close>] \<open>x \<noteq> ''INIT''\<close> by metis
  qed
  let ?rel = "bypass rel s c a" let ?m = "m(s := None)"
  have "\<exists>fs'. each_file (rebase_son cp dc s w c) st = Inr (st\<lparr>sn_files := fs'\<rparr>)
    \<and> (\<forall>p\<in>set (paths_of st). file_ok cp ?rel head ?m p fs')"
  proof (rule each_file_ok [where R = "file_ok cp rel head m"])
    fix p fs assume p: "p \<in> set (paths_of st)" and f: "file_ok cp rel head m p fs"
    obtain fs' where fs': "rebase_son cp dc s w c p fs = Inr fs'"
      "fs' (diff_of p c) = Some (cp (diff_stream (content m a p) (content m c p)))"
      "\<forall>x. plain_name x \<longrightarrow> x \<noteq> c \<longrightarrow> fs' (diff_of p x) = fs (diff_of p x)"
      "fs' (frontier_of p) = fs (frontier_of p)" "fs' p = fs p" "\<forall>n. n \<notin> names_of p \<longrightarrow> fs' n = fs n"
      using rebase_run [OF cd k(4) f w(2) cs a k(2) p] by blast
    have cont: "content ?m x p = content m x p" if "x \<noteq> s" for x using that by (simp add: content_def)
    have "fs' (diff_of p x) = Some (cp (diff_stream (content ?m y p) (content ?m x p)))"
      if xy: "(x, y) \<in> set ?rel" for x y
    proof (cases "x = c \<and> y = a")
      case True
      then show ?thesis using fs'(2) cont noloop [OF cs] noloop [OF a] by simp
    next
      case False
      then have e: "(x, y) \<in> set rel" "x \<noteq> s" "y \<noteq> s" using xy by (auto simp: bypass_mem)
      then have "x \<noteq> c" using tree_anc_unique [OF k(4) _ cs] by blast
      moreover have "plain_name x" using tree_son [OF k(4) e(1)] tree_namesD(6) [OF k(4)] by blast
      ultimately show ?thesis
        using file_okD(1) [OF f] e cont fs'(3) by (auto simp: diffs_ok_def)
    qed
    then have "diffs_ok cp ?rel (content ?m) p fs'" by (auto simp: diffs_ok_def)
    then have "file_ok cp ?rel head ?m p fs'"
      using f fs'(4,5) cont [of head] s(3) by (auto simp: file_ok_def content_def)
    then show "\<exists>fs'. rebase_son cp dc s w c p fs = Inr fs' \<and> file_ok cp ?rel head ?m p fs'
        \<and> (\<forall>n. n \<notin> names_of p \<longrightarrow> fs' n = fs n)" using fs'(1,6) by blast
  qed (use k in \<open>simp_all add: file_ok_local\<close>)
  then obtain fs' where fs': "each_file (rebase_son cp dc s w c) st = Inr (st\<lparr>sn_files := fs'\<rparr>)"
    "\<forall>p\<in>set (paths_of st). file_ok cp ?rel head ?m p fs'" by blast
  have "anc_of rel s = Some a" using tree_anc [OF k(4)] a by simp
  then have run: "remove_snapshot cp dc s st = Inr (st\<lparr>sn_files := fs', sn_meta := print_meta head ?rel\<rparr>)"
    using k(1) kn s w(1) fs'(1) repo_meta [OF r] by (simp add: remove_snapshot_def bypass_def)
  have "tree_names ?rel head ?m"
    using tree_names_bypass [OF k(4) s(4) a s(3,2)] noloop [OF cs] noloop [OF a] by blast
  then have "repo_ok cp (st\<lparr>sn_files := fs', sn_meta := print_meta head ?rel\<rparr>) ?rel head ?m"
    using k(1,2) fs'(2) by (simp add: repo_ok_def ready_def paths_of_def)
  then show ?thesis using run by (intro exI [of _ "st\<lparr>sn_files := fs', sn_meta := print_meta head ?rel\<rparr>"] exI [of _ a]) simp
qed

section \<open>Histories\<close>

text \<open>
  What a client may do with a repository whose data files are \<open>ps\<close>, with the contents
  recorded under each snapshot that still exists. Data files change in any way between the
  commands. Three uses in which the code loses snapshots are left out here and treated in \<open>Snapshot_Losses\<close>:
  switching to a name shorter than that of the current snapshot, removing a snapshot
  without sons, and removing one with several sons.
\<close>

inductive snap_history ::
  "(bytes \<Rightarrow> bytes) \<Rightarrow> (bytes \<Rightarrow> bytes option) \<Rightarrow> string list list \<Rightarrow> snapshots
    \<Rightarrow> (string \<rightharpoonup> contents) \<Rightarrow> bool" for cp dc drivers where
  start: "names_ok (concat drivers) \<Longrightarrow> connect drivers new_snapshots = Inr st0 \<Longrightarrow>
    set_meta_file None st0 = Inr st \<Longrightarrow> snap_history cp dc drivers st [''INIT'' \<mapsto> \<lambda>_. []]"
| edit: "snap_history cp dc drivers st m \<Longrightarrow> p \<in> set (concat drivers) \<Longrightarrow>
    (case v of None \<Rightarrow> True | Some b \<Rightarrow> length b < 2 ^ 32) \<Longrightarrow>
    snap_history cp dc drivers (st\<lparr>sn_files := (sn_files st)(p := v)\<rparr>) m"
| create: "snap_history cp dc drivers st m \<Longrightarrow> plain_name s \<Longrightarrow> s \<noteq> ''INIT'' \<Longrightarrow>
    (\<And>p. p \<in> set (concat drivers) \<Longrightarrow> sn_files st p = Some (D p)) \<Longrightarrow>
    create_snapshot cp s st = Inr st' \<Longrightarrow> snap_history cp dc drivers st' (m(s \<mapsto> D))"
| switch: "snap_history cp dc drivers st m \<Longrightarrow>
    length (fst (parse_meta (sn_meta st))) \<le> length s \<Longrightarrow>
    switch_to_snapshot dc s st = Inr st' \<Longrightarrow> snap_history cp dc drivers st' m"
| checkout: "snap_history cp dc drivers st m \<Longrightarrow> check_out_frontier st = Inr st' \<Longrightarrow>
    snap_history cp dc drivers st' m"
| remove: "snap_history cp dc drivers st m \<Longrightarrow> sons_of (snd (parse_meta (sn_meta st))) s = [c] \<Longrightarrow>
    remove_snapshot cp dc s st = Inr st' \<Longrightarrow> snap_history cp dc drivers st' (m(s := None))"

lemma init_ok:
  assumes nm: "names_ok (concat drivers)" and c: "connect drivers new_snapshots = Inr st0"
    and i: "set_meta_file None st0 = Inr st"
  shows "repo_ok cp st [] ''INIT'' [''INIT'' \<mapsto> \<lambda>_. []] \<and> sn_drivers st = drivers"
proof -
  define st1 where "st1 = \<lparr>sn_files = Map.empty, sn_meta = ''INIT'' @ [CHR 0x0A], sn_drivers = drivers,
    sn_connected = True, sn_meta_set = True\<rparr>"
  let ?f = "\<lambda>p (fs :: files). (Inr (fs(frontier_of p \<mapsto> [])) :: files result)"
  let ?m = "[''INIT'' \<mapsto> (\<lambda>_. [])] :: string \<rightharpoonup> contents"
  have p1: "paths_of st1 = concat drivers" "sn_files st1 = Map.empty" by (simp_all add: st1_def paths_of_def)
  have run: "set_meta_file None st0 = each_file ?f st1"
    using c by (auto simp: connect_def new_snapshots_def set_meta_file_def initialize_repository_def Let_def st1_def)
  have "\<exists>fs'. each_file ?f st1 = Inr (st1\<lparr>sn_files := fs'\<rparr>) \<and> (\<forall>p\<in>set (paths_of st1). file_ok cp [] ''INIT'' ?m p fs')"
  proof (rule each_file_ok [where R = "\<lambda>p fs. fs p = None"])
    fix p and fs :: files
    assume p: "p \<in> set (paths_of st1)" and f: "fs p = None"
    have "file_ok cp [] ''INIT'' ?m p (fs(frontier_of p \<mapsto> []))"
      using f aux_not_data [OF nm, of p p] p p1 by (auto simp: file_ok_def diffs_ok_def content_def aux_names)
    then show "\<exists>fs'. ?f p fs = Inr fs' \<and> file_ok cp [] ''INIT'' ?m p fs' \<and> (\<forall>n. n \<notin> names_of p \<longrightarrow> fs' n = fs n)"
      by (auto simp: aux_names)
  qed (use nm p1 file_ok_local in \<open>auto simp: same_at_def\<close>)
  then obtain fs' where fs': "st = st1\<lparr>sn_files := fs'\<rparr>" "\<forall>p\<in>set (concat drivers). file_ok cp [] ''INIT'' ?m p fs'"
    using run i p1 by auto
  have "tree_names [] ''INIT'' ?m"
    by (auto simp: tree_names_def plain_name_def valid_name_def is_space_def)
  then show ?thesis
    using fs' nm by (simp add: repo_ok_def ready_def paths_of_def st1_def print_meta_def)
qed

lemma snap_history_ok:
  assumes "snap_history cp dc drivers st m" "codec cp dc"
  shows "\<exists>rel head. repo_ok cp st rel head m \<and> sn_drivers st = drivers"
  using assms
proof (induction rule: snap_history.induct)
  case (start st0 st)
  then show ?case using init_ok by blast
next
  case (edit st m p v)
  then obtain rel head where r: "repo_ok cp st rel head m" "sn_drivers st = drivers" by blast
  have ps: "paths_of st = concat drivers" using r(2) by (simp add: paths_of_def)
  have "file_ok cp rel head m q ((sn_files st)(p := v))" if q: "q \<in> set (paths_of st)" for q
    using repo_okD(5) [OF r(1) q] edit.hyps(2,3) aux_not_data [OF repo_okD(2) [OF r(1)] q, of p] ps
    by (auto simp: file_ok_def diffs_ok_def aux_names split: option.splits if_splits)
  then have "repo_ok cp (st\<lparr>sn_files := (sn_files st)(p := v)\<rparr>) rel head m"
    using r(1) by (simp add: repo_ok_def ready_def paths_of_def)
  then show ?case using r(2) by auto
next
  case (create st m s D st')
  then obtain rel head where r: "repo_ok cp st rel head m" "sn_drivers st = drivers" by blast
  have ps: "paths_of st = concat drivers" using r(2) by (simp add: paths_of_def)
  have "\<not> known rel s" using create.hyps(5) repo_meta [OF r(1)]
    by (auto simp: create_snapshot_def split: if_splits)
  then have n: "s \<notin> dom m" using tree_known(1) [OF repo_okD(4) [OF r(1)]] create.hyps(3) by blast
  have D: "\<And>p. p \<in> set (paths_of st) \<Longrightarrow> sn_files st p = Some (D p)" using create.hyps(4) ps by simp
  obtain st2 where "create_snapshot cp s st = Inr st2" "repo_ok cp st2 (rel @ [(s, head)]) s (m(s \<mapsto> D))"
    "sn_drivers st2 = sn_drivers st"
    using create_ok [OF r(1) n create.hyps(2) D] by blast
  then show ?case using create.hyps(5) r(2) by (intro exI [of _ "rel @ [(s, head)]"] exI [of _ s]) (simp del: fun_upd_apply)
next
  case (switch st m s st')
  then obtain rel head where r: "repo_ok cp st rel head m" "sn_drivers st = drivers" by blast
  have kn: "known rel s" using switch.hyps(3) repo_meta [OF r(1)]
    by (auto simp: switch_to_snapshot_def find_way_def Let_def split: if_splits)
  have len: "length head \<le> length s" using switch.hyps(2) repo_meta [OF r(1)] by simp
  from switch_ok [OF switch.prems r(1) tree_known(2) [OF repo_okD(4) [OF r(1)] kn] kn len]
  show ?case using switch.hyps(3) r(2) by auto
next
  case (checkout st m st')
  then obtain rel head where r: "repo_ok cp st rel head m" "sn_drivers st = drivers" by blast
  have head: "fst (parse_meta (sn_meta st)) = head" using repo_meta [OF r(1)] by simp
  obtain fs' where fs': "st' = st\<lparr>sn_files := fs'\<rparr>" "\<forall>p\<in>set (paths_of st). file_ok cp rel head m p fs'"
    using check_out_ok [OF repo_okD(1,2) [OF r(1)] head, of cp rel m] repo_okD(5) [OF r(1)] checkout.hyps(2)
    by auto
  then have "repo_ok cp st' rel head m" using r(1) by (simp add: repo_ok_def ready_def paths_of_def)
  then show ?case using fs'(1) r(2) by auto
next
  case (remove st m s c st')
  then obtain rel head where r: "repo_ok cp st rel head m" "sn_drivers st = drivers" by blast
  have sons: "sons_of rel s = [c]" using remove.hyps(2) repo_meta [OF r(1)] by simp
  have g: "s \<noteq> ''INIT''" "s \<noteq> head" "known rel s" using remove.hyps(3) repo_meta [OF r(1)]
    by (auto simp: remove_snapshot_def split: if_splits)
  from remove_ok [OF remove.prems r(1) tree_known(2) [OF repo_okD(4) [OF r(1)] g(3)] g(1,2) sons]
  show ?case using remove.hyps(3) r(2) by (auto simp del: fun_upd_apply)
qed

lemma restore_run:
  assumes cd: "codec cp dc" and r: "repo_ok cp st rel head m" and s: "m s = Some D" "s \<noteq> ''INIT''"
  shows "\<exists>st1 st2. switch_to_snapshot dc s st = Inr st1 \<and> check_out_frontier st1 = Inr st2
    \<and> (\<forall>p\<in>set (paths_of st). sn_files st2 p = Some (D p))"
proof -
  note k = repo_okD [OF r]
  have dom: "s \<in> dom m" using s(1) by blast
  obtain fs1 where fs1: "switch_to_snapshot dc s st
      = Inr (st\<lparr>sn_files := fs1, sn_meta := overwrite (sn_meta st) (print_meta s rel)\<rparr>)"
    "\<forall>p\<in>set (paths_of st). file_ok cp rel s m p fs1"
    using switch_files_ok [OF cd r dom tree_known(1) [OF k(4) dom s(2)]] by blast
  let ?st = "st\<lparr>sn_files := fs1, sn_meta := overwrite (sn_meta st) (print_meta s rel)\<rparr>"
  have v: "valid_name s" using tree_namesD(6) [OF k(4) dom] by (simp add: plain_name_def)
  have "\<exists>fs'. check_out_frontier ?st = Inr (?st\<lparr>sn_files := fs'\<rparr>) \<and> (\<forall>p\<in>set (paths_of ?st).
      file_ok cp rel s m p fs' \<and> fs' p = (if s = ''INIT'' then None else Some (content m s p)))"
  proof (rule check_out_ok)
    show "fst (parse_meta (sn_meta ?st)) = s" using parse_overwritten [OF v] by simp
  qed (use k(1,2) fs1(2) in \<open>auto simp: ready_def paths_of_def\<close>)
  then obtain fs2 where "check_out_frontier ?st = Inr (?st\<lparr>sn_files := fs2\<rparr>)"
    "\<forall>p\<in>set (paths_of st). fs2 p = Some (content m s p)"
    using s(2) by (auto simp: paths_of_def)
  then show ?thesis using fs1(1) s(1) by (simp add: content_def)
qed


text \<open>
  A new snapshot needs a new name. With all data files present, \<open>CreateSnapShot\<close>
  succeeds for a name no snapshot has, and otherwise refuses with an exception.
\<close>

theorem create_needs_new_name:
  assumes "codec cp dc" "snap_history cp dc drivers st m" "plain_name s" "s \<noteq> ''INIT''"
    and "\<forall>p\<in>set (concat drivers). sn_files st p = Some (D p)"
  shows "if s \<in> dom m then create_snapshot cp s st = Inl Runtime_error
    else \<exists>st'. create_snapshot cp s st = Inr st' \<and> snap_history cp dc drivers st' (m(s \<mapsto> D))"
proof -
  obtain rel head where r: "repo_ok cp st rel head m" "sn_drivers st = drivers"
    using snap_history_ok [OF assms(2,1)] by blast
  have D: "\<And>p. p \<in> set (paths_of st) \<Longrightarrow> sn_files st p = Some (D p)"
    using assms(5) r(2) by (auto simp: paths_of_def)
  show ?thesis
  proof (cases "s \<in> dom m")
    case True
    then show ?thesis
      using tree_known(1) [OF repo_okD(4) [OF r(1)] True assms(4)] repo_meta [OF r(1)] repo_okD(1) [OF r(1)]
      by (simp add: create_snapshot_def)
  next
    case False
    obtain st' where "create_snapshot cp s st = Inr st'" using create_ok [OF r(1) False assms(3) D] by blast
    then show ?thesis
      using False snap_history.create [OF assms(2-4), of D st'] assms(5) by (auto simp del: fun_upd_apply)
  qed
qed

section \<open>Clients with one data file\<close>

text \<open>One data file \<^verbatim>\<open>d\<close>: start, and record a content under a new name.\<close>

abbreviation one_file :: "string list list" where
  "one_file \<equiv> [[''d'']]"

abbreviation client :: "snapshots \<Rightarrow> relation \<Rightarrow> string \<Rightarrow> (string \<rightharpoonup> contents) \<Rightarrow> bool" where
  "client st rel head m \<equiv> snap_history stored_copy read_copy one_file st m
     \<and> repo_ok stored_copy st rel head m \<and> sn_drivers st = one_file"

lemma client_start: "\<exists>st. client st [] ''INIT'' [''INIT'' \<mapsto> \<lambda>_. []]"
proof -
  have nm: "names_ok (concat one_file)" by (simp add: names_ok_def)
  obtain st0 where st0: "connect one_file new_snapshots = Inr st0" "sn_meta_set st0 = False"
    "sn_connected st0 = True" "sn_drivers st0 = one_file"
    by (simp add: connect_def new_snapshots_def)
  then obtain st where st: "set_meta_file None st0 = Inr st"
    by (auto simp: set_meta_file_def initialize_repository_def each_file_def Let_def)
  show ?thesis
    using snap_history.start [OF nm st0(1) st] init_ok [OF nm st0(1) st] by blast
qed

lemma client_record:
  assumes c: "client st rel head m" and s: "s \<notin> dom m" "plain_name s" "s \<noteq> ''INIT''" and b: "length b < 2 ^ 32"
  shows "\<exists>st'. client st' (rel @ [(s, head)]) s (m(s \<mapsto> \<lambda>_. b)) \<and> sn_files st' ''d'' = Some b"
proof -
  define st1 where "st1 = st\<lparr>sn_files := (sn_files st)(''d'' \<mapsto> b)\<rparr>"
  have h: "snap_history stored_copy read_copy one_file st1 m"
    unfolding st1_def using c b by (intro snap_history.edit) simp_all
  have paths: "paths_of st = [''d'']" using c by (simp add: paths_of_def)
  have nm: "names_ok [''d'']" using repo_okD(2) c paths by metis
  have "file_ok stored_copy rel head m ''d'' (sn_files st)" using c repo_okD(5) paths by simp
  then have "file_ok stored_copy rel head m ''d'' (sn_files st1)"
    using b aux_not_data [OF nm, of "''d''" "''d''"] by (auto simp: st1_def file_ok_def diffs_ok_def aux_names)
  then have r: "repo_ok stored_copy st1 rel head m" using c paths nm
    by (simp add: repo_ok_def st1_def ready_def paths_of_def)
  have paths1: "paths_of st1 = [''d'']" using c by (simp add: st1_def paths_of_def)
  then have D: "\<And>p. p \<in> set (paths_of st1) \<Longrightarrow> sn_files st1 p = Some b" by (simp add: st1_def)
  obtain st' where st': "create_snapshot stored_copy s st1 = Inr st'"
    "repo_ok stored_copy st' (rel @ [(s, head)]) s (m(s \<mapsto> \<lambda>_. b))" "sn_drivers st' = sn_drivers st1"
    "\<forall>p\<in>set (paths_of st1). sn_files st' p = Some b"
    using create_ok [where D = "\<lambda>_. b", OF r s(1,2) D] by blast
  have dr: "sn_drivers st1 = one_file" using c by (simp add: st1_def)
  have "snap_history stored_copy read_copy one_file st' (m(s \<mapsto> \<lambda>_. b))"
    using D st'(1) paths1 by (intro snap_history.create [OF h s(2,3)]) simp_all
  then show ?thesis using st' dr paths1 by auto
qed

lemma client_switch:
  assumes c: "client st rel head m" and s: "s \<in> dom m" "s \<noteq> ''INIT''" "length head \<le> length s"
  shows "\<exists>st'. client st' rel s m"
proof -
  have r: "repo_ok stored_copy st rel head m" using c by blast
  have kn: "known rel s" using tree_known(1) [OF repo_okD(4) [OF r] s(1,2)] .
  obtain st' where st': "switch_to_snapshot read_copy s st = Inr st'" "repo_ok stored_copy st' rel s m"
    "sn_drivers st' = sn_drivers st"
    using switch_ok [OF codec_stored r s(1) kn s(3)] by blast
  have h: "snap_history stored_copy read_copy one_file st m" and dr: "sn_drivers st = one_file" using c by simp_all
  have "length (fst (parse_meta (sn_meta st))) \<le> length s" using s(3) repo_meta [OF r] by simp
  from snap_history.switch [OF h this st'(1)] show ?thesis using st'(2,3) dr by auto
qed

lemma plain_letters: "plain_name ''a''" "plain_name ''s''" "plain_name ''c''" "plain_name ''e''"
  by (simp_all add: plain_name_def valid_name_def is_space_def)


lemma create_needs_new_name_witness:
  "\<exists>st m. snap_history stored_copy read_copy one_file st m \<and> ''a'' \<in> dom m \<and> ''s'' \<notin> dom m
    \<and> create_snapshot stored_copy ''a'' st = Inl Runtime_error
    \<and> (\<exists>st'. create_snapshot stored_copy ''s'' st = Inr st')"
proof -
  let ?i = "[''INIT'' \<mapsto> \<lambda>_. []] :: string \<rightharpoonup> contents"
  let ?a = "?i(''a'' \<mapsto> \<lambda>_. [1])"
  obtain st0 where "client st0 [] ''INIT'' ?i" using client_start by blast
  from client_record [OF this, of "''a''" "[1]"]
  obtain st where c: "client st [(''a'', ''INIT'')] ''a'' ?a" "sn_files st ''d'' = Some [1]"
    using plain_letters by auto
  then have h: "snap_history stored_copy read_copy one_file st ?a" by blast
  have D: "\<forall>p\<in>set (concat one_file). sn_files st p = Some [1]" using c(2) by simp
  note use = create_needs_new_name [OF codec_stored h _ _ D]
  have "create_snapshot stored_copy ''a'' st = Inl Runtime_error"
    using use [of "''a''"] plain_letters by simp
  moreover have "\<exists>st'. create_snapshot stored_copy ''s'' st = Inr st'"
    using use [of "''s''"] plain_letters by auto
  ultimately show ?thesis using h by (intro exI [of _ st] exI [of _ ?a]) simp
qed

end
