(* ===== verification/Snapshot_Losses.thy ===== *)
theory Snapshot_Losses
  imports Snapshot_History
begin

text \<open>
  Uses of \<open>SnapShotManager\<close> that lose snapshots: \<open>RemoveSnapShot\<close> of a snapshot without
  sons rewrites the meta file without truncating it, switching to a shorter name leaves the
  end of the old meta file behind the new one, and \<open>RemoveSnapShot\<close> of a snapshot with two
  sons rebases the second son on a way that the first one has changed already.
\<close>

section \<open>Removing a snapshot without sons\<close>

lemma print_meta_append: "print_meta h (r1 @ r2) = print_meta h r1 @ drop (length h + 1) (print_meta h r2)"
  by (simp add: print_meta_def)

lemma overwrite_prefix: "overwrite (new @ t) new = new @ t"
  by (simp add: overwrite_def)

lemma remove_leaf_run:
  assumes r: "repo_ok cp st (rel @ [(s, a)]) head m" and s: "s \<noteq> head" "sons_of (rel @ [(s, a)]) s = []"
  shows "\<exists>st'. remove_snapshot cp dc s st = Inr st' \<and> sn_meta st' = sn_meta st
    \<and> (\<forall>p\<in>set (paths_of st). sn_files st' (diff_of p s) = None)"
proof -
  let ?rel = "rel @ [(s, a)]"
  note k = repo_okD [OF r]
  have "s \<notin> set (map fst rel)" using tree_namesD(1) [OF k(4)] by simp
  then have keep: "filter (\<lambda>x. fst x \<noteq> s) ?rel = rel" by (auto simp: filter_id_conv image_iff)
  have "(s, a) \<in> set ?rel" by simp
  then have g: "s \<noteq> ''INIT''" "known ?rel s"
    using tree_son [OF k(4)] tree_anc [OF k(4)] unfolding known_def by blast+
  let ?f = "\<lambda>p (fs :: files). (Inr (fs(diff_of p s := None)) :: files result)"
  have "\<exists>fs'. each_file ?f st = Inr (st\<lparr>sn_files := fs'\<rparr>) \<and> (\<forall>p\<in>set (paths_of st). fs' (diff_of p s) = None)"
  proof (rule each_file_ok [where R = "\<lambda>_ _. True"])
    fix p and fs :: files
    show "\<exists>fs'. ?f p fs = Inr fs' \<and> fs' (diff_of p s) = None \<and> (\<forall>n. n \<notin> names_of p \<longrightarrow> fs' n = fs n)"
      by (auto simp: aux_names)
  qed (use k(2) in \<open>simp_all add: same_at_def aux_names\<close>)
  then obtain fs' where fs': "each_file ?f st = Inr (st\<lparr>sn_files := fs'\<rparr>)"
    "\<forall>p\<in>set (paths_of st). fs' (diff_of p s) = None" by blast
  have "overwrite (sn_meta st) (print_meta head rel) = sn_meta st"
    unfolding k(3) print_meta_append overwrite_prefix ..
  then have "remove_snapshot cp dc s st = Inr (st\<lparr>sn_files := fs'\<rparr>)"
    using fs'(1) k(1) g s repo_meta [OF r] keep by (simp add: remove_snapshot_def del: filter_append)
  then show ?thesis using fs'(2) by simp
qed

text \<open>
  Removing the newest snapshot does not remove it. When the snapshot named by the last
  line of the meta file has no sons and is not the current one, \<open>RemoveSnapShot\<close> returns
  normally and deletes the difference files, but the meta file, rewritten in place without
  its last line and not truncated, still lists the snapshot as before.
\<close>

theorem removed_leaf_stays_listed:
  assumes "codec cp dc" "snap_history cp dc drivers st m"
    and "parse_meta (sn_meta st) = (head, rel @ [(s, a)])" "s \<noteq> head" "sons_of (rel @ [(s, a)]) s = []"
  shows "\<exists>st'. remove_snapshot cp dc s st = Inr st'
    \<and> (\<forall>p\<in>set (concat drivers). sn_files st' (diff_of p s) = None)
    \<and> parse_meta (sn_meta st') = (head, rel @ [(s, a)])"
proof -
  obtain rel' head' where r: "repo_ok cp st rel' head' m" "sn_drivers st = drivers"
    using snap_history_ok [OF assms(2,1)] by blast
  then have "repo_ok cp st (rel @ [(s, a)]) head m" using repo_meta [OF r(1)] assms(3) by simp
  from remove_leaf_run [OF this assms(4,5), of dc] show ?thesis
    using assms(3) r(2) by (auto simp: paths_of_def)
qed

lemma removed_leaf_stays_listed_witness:
  "\<exists>st st' m. snap_history stored_copy read_copy one_file st m \<and> m ''s'' = Some (\<lambda>_. [2])
    \<and> remove_snapshot stored_copy read_copy ''s'' st = Inr st' \<and> sn_files st' (diff_of ''d'' ''s'') = None
    \<and> parse_meta (sn_meta st') = (''a'', [(''a'', ''INIT''), (''s'', ''a'')])"
proof -
  let ?i = "[''INIT'' \<mapsto> \<lambda>_. []] :: string \<rightharpoonup> contents"
  let ?a = "?i(''a'' \<mapsto> \<lambda>_. [1])" let ?s = "?a(''s'' \<mapsto> \<lambda>_. [2])"
  let ?rel = "[(''a'', ''INIT'')] @ [(''s'', ''a'')]"
  obtain st0 where "client st0 [] ''INIT'' ?i" using client_start by blast
  from client_record [OF this, of "''a''" "[1]"]
  obtain sta where "client sta [(''a'', ''INIT'')] ''a'' ?a" using plain_letters by auto
  from client_record [OF this, of "''s''" "[2]"]
  obtain sts where "client sts ?rel ''s'' ?s" using plain_letters by auto
  from client_switch [OF this, of "''a''"]
  obtain st where c: "client st ?rel ''a'' ?s" by auto
  then have h: "snap_history stored_copy read_copy one_file st ?s" by blast
  have "parse_meta (sn_meta st) = (''a'', ?rel)" using c repo_meta by blast
  from removed_leaf_stays_listed [OF codec_stored h this]
  obtain st' where "remove_snapshot stored_copy read_copy ''s'' st = Inr st'"
    "sn_files st' (diff_of ''d'' ''s'') = None" "parse_meta (sn_meta st') = (''a'', ?rel)"
    by (auto simp: sons_of_def)
  then show ?thesis using h by (intro exI [of _ st] exI [of _ st'] exI [of _ ?s] conjI) simp_all
qed

section \<open>Switching to a shorter name\<close>

text \<open>
  The meta file after a switch to a shorter name: the new text and the end of the old one.
\<close>

lemma switch_shorter_meta:
  assumes cd: "codec cp dc" and r: "repo_ok cp st rel head m" and s: "s \<in> dom m" "known rel s"
    and len: "length s \<le> length head"
  shows "\<exists>st'. switch_to_snapshot dc s st = Inr st'
    \<and> sn_meta st' = print_meta s rel @ drop (length (print_meta s rel)) (print_meta head rel)"
  using switch_files_ok [OF cd r s] len repo_okD(3) [OF r] by (auto simp: overwrite_def)

section \<open>Removing a snapshot with two sons\<close>

text \<open>
  A fork: \<^verbatim>\<open>a\<close> with the son \<^verbatim>\<open>s\<close>, which has the sons \<^verbatim>\<open>c\<close> and \<^verbatim>\<open>e\<close>; \<^verbatim>\<open>c\<close> is current.
\<close>

definition fork_rel :: relation where
  "fork_rel = [(''a'', ''INIT''), (''s'', ''a''), (''c'', ''s''), (''e'', ''s'')]"

definition fork_contents :: "byte \<Rightarrow> string \<rightharpoonup> contents" where
  "fork_contents b = [''INIT'' \<mapsto> \<lambda>_. [], ''a'' \<mapsto> \<lambda>_. [1], ''s'' \<mapsto> \<lambda>_. [2],
     ''c'' \<mapsto> \<lambda>_. [3], ''e'' \<mapsto> \<lambda>_. [b]]"

lemma fork_client: "\<exists>st. client st fork_rel ''c'' (fork_contents 2)"
proof -
  let ?i = "[''INIT'' \<mapsto> \<lambda>_. []] :: string \<rightharpoonup> contents"
  let ?a = "?i(''a'' \<mapsto> \<lambda>_. [1])" let ?s = "?a(''s'' \<mapsto> \<lambda>_. [2])"
  let ?c = "?s(''c'' \<mapsto> \<lambda>_. [3])" let ?e = "?c(''e'' \<mapsto> \<lambda>_. [2])"
  let ?ra = "[(''a'', ''INIT'')]" let ?rs = "?ra @ [(''s'', ''a'')]" let ?rc = "?rs @ [(''c'', ''s'')]"
  obtain st0 where "client st0 [] ''INIT'' ?i" using client_start by blast
  from client_record [OF this, of "''a''" "[1]"]
  obtain sta where "client sta ?ra ''a'' ?a" using plain_letters by auto
  from client_record [OF this, of "''s''" "[2]"]
  obtain sts where "client sts ?rs ''s'' ?s" using plain_letters by auto
  from client_record [OF this, of "''c''" "[3]"]
  obtain stc where "client stc ?rc ''c'' ?c" using plain_letters by auto
  from client_switch [OF this, of "''s''"]
  obtain stb where "client stb ?rc ''s'' ?c" by auto
  from client_record [OF this, of "''e''" "[2]"]
  obtain ste where "client ste (?rc @ [(''e'', ''s'')]) ''e'' ?e" using plain_letters by auto
  from client_switch [OF this, of "''c''"]
  obtain st where "client st (?rc @ [(''e'', ''s'')]) ''c'' ?e" by auto
  then show ?thesis by (intro exI [of _ st]) (simp add: fork_rel_def fork_contents_def del: fun_upd_apply)
qed

text \<open>The way from \<^verbatim>\<open>c\<close> to \<^verbatim>\<open>s\<close> goes back along the difference of \<^verbatim>\<open>c\<close>.\<close>

definition fork_way :: "way_entry list" where
  "fork_way = [\<lparr>we_snap = ''s'', we_diff = ''c'', we_reverse = True\<rparr>]"

lemma fork_follow:
  "follow (Suc (2 * length fork_rel)) (bfs fork_rel ''c'' [''s''] Map.empty) ''s'' ''c'' = Inr fork_way"
  by code_simp

lemma fork_tree:
  "sons_of fork_rel ''s'' = [''c'', ''e'']" "anc_of fork_rel ''s'' = Some ''a''"
  by (simp_all add: fork_rel_def sons_of_def anc_of_def)

lemma fork_patches:
  "patch_stream False [1] (diff_stream [2] [2]) = Inr [1]"
  "patch_stream True [1] (diff_stream [1] [2]) = Inr [1]"
  "patch_stream True [3] (diff_stream [1] [3]) = Inr [1]"
  by code_simp+

text \<open>
  Rebasing \<^verbatim>\<open>e\<close> after the difference of \<^verbatim>\<open>c\<close> was rebased: the way leads to the content of
  \<^verbatim>\<open>a\<close>, not to that of \<^verbatim>\<open>s\<close>.
\<close>

lemma rebase_second:
  assumes fs: "fs (frontier_of p) = Some [3]" "fs (diff_of p ''c'') = Some (stored_copy (diff_stream [1] [3]))"
    "fs (diff_of p ''s'') = Some (stored_copy (diff_stream [1] [2]))"
    "fs (diff_of p ''e'') = Some (stored_copy (diff_stream [2] [2]))"
    and nm: "names_ok [p]"
  shows "\<exists>fs'. rebase_son stored_copy read_copy ''s'' fork_way ''e'' p fs = Inr fs'
    \<and> fs' (diff_of p ''e'') = Some (stored_copy (diff_stream [1] [1]))
    \<and> (\<forall>x\<in>{''a'', ''c'', ''s''}. fs' (diff_of p x) = fs (diff_of p x))
    \<and> fs' (frontier_of p) = fs (frontier_of p) \<and> fs' p = fs p"
proof -
  have dc: "read_copy (stored_copy bs) = Some bs" for bs using codec_stored by (simp add: codec_def)
  define fr tm tt sn an where names: "fr = aux p ''frontier''" "tm = aux p ''frontier.tmp''"
    "tt = aux p ''frontier.tmp.tmp''" "sn = aux p ''frontier.tmp.e''" "an = aux p ''frontier.tmp.anctmp''"
  define da dcc ds de where dnames: "da = aux p ''a.diff''" "dcc = aux p ''c.diff''"
    "ds = aux p ''s.diff''" "de = aux p ''e.diff''"
  have eqs: "frontier_of p = fr" "tmp_of fr = tm" "tmp_of tm = tt" "tm @ CHR ''.'' # ''e'' = sn" "tm @ ''.anctmp'' = an"
    "diff_of p ''a'' = da" "diff_of p ''c'' = dcc" "diff_of p ''s'' = ds" "diff_of p ''e'' = de"
    by (simp_all add: names dnames aux_names) (simp_all add: aux_def)
  have dist: "distinct [p, fr, tm, tt, sn, an, da, dcc, ds, de]"
    using aux_not_data [OF nm, of p p] by (simp add: names dnames aux_eq) metis
  have dist': "distinct [de, ds, dcc, da, an, sn, tt, tm, fr, p]" using dist by auto
  have d: "fs fr = Some [3]" "fs dcc = Some (stored_copy (diff_stream [1] [3]))"
    "fs ds = Some (stored_copy (diff_stream [1] [2]))" "fs de = Some (stored_copy (diff_stream [2] [2]))"
    using fs by (simp_all add: eqs)
  define f1 where "f1 = fs(tm \<mapsto> [1], tt := None)"
  have 1: "apply_long_change read_copy fr tm fork_way p fs = Inr f1"
    using d dist dist' fork_patches(3) dc
    by (simp add: apply_long_change_def apply_step_def apply_patch_def copy_file_def get_file_def
        fork_way_def eqs f1_def fun_upd_twist)
  define f2 where "f2 = f1(sn \<mapsto> [1])"
  have 2: "apply_patch read_copy tm de sn False f1 = Inr f2"
    using d dist dist' fork_patches(1) dc by (simp add: apply_patch_def get_file_def f1_def f2_def)
  define f3 where "f3 = f2(an \<mapsto> [1])"
  have 3: "apply_patch read_copy tm ds an True f2 = Inr f3"
    using d dist dist' fork_patches(2) dc by (simp add: apply_patch_def get_file_def f1_def f2_def f3_def)
  define f4 where "f4 = f3(de \<mapsto> stored_copy (diff_stream [1] [1]))"
  have 4: "generate_diff stored_copy an sn de (f3(de := None)) = Inr f4"
    using dist dist' by (simp add: generate_diff_def get_file_def f2_def f3_def f4_def)
  have "rebase_son stored_copy read_copy ''s'' fork_way ''e'' p fs = Inr (f4(tm := None, sn := None, an := None))"
    using 1 2 3 4 by (simp add: rebase_son_def Let_def eqs del: fun_upd_apply)
  then show ?thesis
    using dist dist' by (simp add: eqs f1_def f2_def f3_def f4_def)
qed

text \<open>
  The repository after the removal is as if \<^verbatim>\<open>e\<close> had been recorded with the content of \<^verbatim>\<open>a\<close>.
\<close>

definition fork_removed :: relation where
  "fork_removed = [(''a'', ''INIT''), (''c'', ''a''), (''e'', ''a'')]"

lemma fork_removed_tree: "tree_names fork_removed ''c'' ((fork_contents b)(''s'' := None))"
proof -
  let ?r = "set fork_removed"
  have a: "(''a'', ''INIT'') \<in> ?r" "(''c'', ''a'') \<in> ?r" "(''e'', ''a'') \<in> ?r" by (simp_all add: fork_removed_def)
  have "(''a'', ''INIT'') \<in> ?r\<^sup>*" using a(1) by blast
  moreover have "(''c'', ''INIT'') \<in> ?r\<^sup>*" "(''e'', ''INIT'') \<in> ?r\<^sup>*" using a by (meson converse_rtrancl_into_rtrancl rtrancl.rtrancl_refl)+
  moreover have dom: "dom ((fork_contents b)(''s'' := None)) = {''INIT'', ''a'', ''c'', ''e''}"
    by (auto simp: fork_contents_def split: if_splits)
  moreover have "plain_name ''INIT''" by (simp add: plain_name_def valid_name_def is_space_def)
  moreover have "distinct (map fst fork_removed)" "set (map fst fork_removed) = {''a'', ''c'', ''e''}"
    "set (map snd fork_removed) = {''INIT'', ''a''}"
    by (auto simp: fork_removed_def)
  ultimately show ?thesis unfolding tree_names_def using plain_letters by simp
qed

lemma fork_remove:
  assumes c: "client st fork_rel ''c'' (fork_contents 2)"
  shows "\<exists>st'. remove_snapshot stored_copy read_copy ''s'' st = Inr st'
    \<and> repo_ok stored_copy st' fork_removed ''c'' ((fork_contents 1)(''s'' := None)) \<and> sn_drivers st' = one_file"
proof -
  have r: "repo_ok stored_copy st fork_rel ''c'' (fork_contents 2)" and dr: "sn_drivers st = one_file" using c by simp_all
  note k = repo_okD [OF r]
  let ?p = "''d''" let ?m = "(fork_contents 1)(''s'' := None)"
  have ps: "paths_of st = [?p]" using dr by (simp add: paths_of_def)
  have f: "file_ok stored_copy fork_rel ''c'' (fork_contents 2) ?p (sn_files st)" using k(5) ps by simp
  have nm: "names_ok [?p]" using k(2) ps by simp
  have kn: "known fork_rel ''s''" by (simp add: known_def fork_tree)
  have way: "find_way ''s'' st = Inr fork_way"
    using fork_follow kn k(1) repo_meta [OF r] by (simp add: find_way_def del: bfs.simps follow.simps)
  then have w: "way_ok fork_rel ''s'' ''c'' fork_way"
    using repo_way [OF r _ kn] tree_known(2) [OF k(4) kn] by auto
  have e: "(''c'', ''s'') \<in> set fork_rel" "(''s'', ''a'') \<in> set fork_rel" "(''e'', ''s'') \<in> set fork_rel"
    "(''a'', ''INIT'') \<in> set fork_rel"
    by (simp_all add: fork_rel_def)
  have cont: "content (fork_contents b) ''a'' ?p = [1]" "content (fork_contents b) ''s'' ?p = [2]"
    "content (fork_contents b) ''c'' ?p = [3]" "content (fork_contents b) ''e'' ?p = [b]"
    "content (fork_contents b) ''INIT'' ?p = []" for b
    by (simp_all add: content_def fork_contents_def)
  have old: "sn_files st (diff_of ?p x) = Some (stored_copy (diff_stream (content (fork_contents 2) y ?p) (content (fork_contents 2) x ?p)))"
    if "(x, y) \<in> set fork_rel" for x y
    using file_okD(1) [OF f] that by (auto simp: diffs_ok_def)
  obtain f1 where f1: "rebase_son stored_copy read_copy ''s'' fork_way ''c'' ?p (sn_files st) = Inr f1"
    "f1 (diff_of ?p ''c'') = Some (stored_copy (diff_stream [1] [3]))"
    "\<forall>x. plain_name x \<longrightarrow> x \<noteq> ''c'' \<longrightarrow> f1 (diff_of ?p x) = sn_files st (diff_of ?p x)"
    "f1 (frontier_of ?p) = sn_files st (frontier_of ?p)" "f1 ?p = sn_files st ?p"
    using rebase_run [OF codec_stored k(4) f w e(1,2) nm] by (auto simp: cont)
  have g: "f1 (frontier_of ?p) = Some [3]" "f1 (diff_of ?p ''s'') = Some (stored_copy (diff_stream [1] [2]))"
    "f1 (diff_of ?p ''e'') = Some (stored_copy (diff_stream [2] [2]))"
    "f1 (diff_of ?p ''a'') = Some (stored_copy (diff_stream [] [1]))"
    using f1(3,4) old [OF e(2)] old [OF e(3)] old [OF e(4)] file_okD(2) [OF f] plain_letters by (simp_all add: cont)
  obtain f2 where f2: "rebase_son stored_copy read_copy ''s'' fork_way ''e'' ?p f1 = Inr f2"
    "f2 (diff_of ?p ''e'') = Some (stored_copy (diff_stream [1] [1]))"
    "f2 (diff_of ?p ''a'') = f1 (diff_of ?p ''a'')" "f2 (diff_of ?p ''c'') = f1 (diff_of ?p ''c'')"
    "f2 (frontier_of ?p) = f1 (frontier_of ?p)" "f2 ?p = f1 ?p"
    using rebase_second [OF g(1) f1(2) g(2,3) nm] by blast
  let ?st = "st\<lparr>sn_files := f2, sn_meta := print_meta ''c'' fork_removed\<rparr>"
  have "each_file (rebase_son stored_copy read_copy ''s'' fork_way ''c'') st = Inr (st\<lparr>sn_files := f1\<rparr>)"
    "each_file (rebase_son stored_copy read_copy ''s'' fork_way ''e'') (st\<lparr>sn_files := f1\<rparr>) = Inr (st\<lparr>sn_files := f2\<rparr>)"
    using f1(1) f2(1) dr by (simp_all add: each_file_def)
  moreover have "filter (\<lambda>x. fst x \<noteq> ''s'' \<and> snd x \<noteq> ''s'') fork_rel @ map (\<lambda>c. (c, ''a'')) [''c'', ''e''] = fork_removed"
    by (simp add: fork_rel_def fork_removed_def)
  ultimately have run: "remove_snapshot stored_copy read_copy ''s'' st = Inr ?st"
    using k(1) kn way repo_meta [OF r] fork_tree by (simp add: remove_snapshot_def)
  have cont': "content ?m x ?p = content (fork_contents 1) x ?p" if "x \<noteq> ''s''" for x
    using that by (simp add: content_def)
  have "diffs_ok stored_copy fork_removed (content ?m) ?p f2"
    using f1(2) f2(2-4) g(4) by (simp add: diffs_ok_def fork_removed_def cont' cont)
  moreover have "length (content ?m x ?p) < 2 ^ 32" for x
    by (simp add: content_def fork_contents_def)
  ultimately have "file_ok stored_copy fork_removed ''c'' ?m ?p f2"
    using f2(5,6) f1(5) g(1) file_okD(4) [OF f] by (simp add: file_ok_def cont' cont del: fun_upd_apply)
  then have "repo_ok stored_copy ?st fork_removed ''c'' ?m"
    using k(1,2) ps dr fork_removed_tree [of 1] by (simp add: repo_ok_def ready_def paths_of_def del: fun_upd_apply)
  then show ?thesis using run dr by (intro exI [of _ ?st]) simp
qed

text \<open>
  C40: Removing a snapshot with two sons can destroy one of them. In the fork, where the
  current snapshot is below the first son, the removal succeeds, the second son stays
  listed, and switching to it and checking it out succeeds with a wrong content.
\<close>

theorem removal_destroys_sibling:
  "\<exists>st m st1 st2 st3. snap_history stored_copy read_copy one_file st m \<and> m ''e'' = Some (\<lambda>_. [2])
    \<and> remove_snapshot stored_copy read_copy ''s'' st = Inr st1
    \<and> switch_to_snapshot read_copy ''e'' st1 = Inr st2 \<and> check_out_frontier st2 = Inr st3
    \<and> sn_files st3 ''d'' = Some [1]"
proof -
  obtain st where c: "client st fork_rel ''c'' (fork_contents 2)" using fork_client by blast
  obtain st1 where st1: "remove_snapshot stored_copy read_copy ''s'' st = Inr st1"
    "repo_ok stored_copy st1 fork_removed ''c'' ((fork_contents 1)(''s'' := None))" "sn_drivers st1 = one_file"
    using fork_remove [OF c] by blast
  have "((fork_contents 1)(''s'' := None)) ''e'' = Some (\<lambda>_. [1])" by (simp add: fork_contents_def)
  from restore_run [OF codec_stored st1(2) this]
  obtain st2 st3 where "switch_to_snapshot read_copy ''e'' st1 = Inr st2" "check_out_frontier st2 = Inr st3"
    "sn_files st3 ''d'' = Some [1]" using st1(3) by (auto simp: paths_of_def)
  moreover have "fork_contents 2 ''e'' = Some (\<lambda>_. [2])" by (simp add: fork_contents_def)
  ultimately show ?thesis using c st1(1) by blast
qed

end
