(* ===== verification/Bpt_Pages.thy ===== *)
theory Bpt_Pages
  imports Key_Index
begin

text \<open>
  The pages of \<^verbatim>\<open>BPlusTreeIndexer\<close> (\<^verbatim>\<open>storage/include/storage/bpt.hpp\<close>, \<^verbatim>\<open>bpt_page.hpp\<close>). A page
  is its header and its array of \<^verbatim>\<open>kMaxKeyCount\<close> entries; the buffer pool is a store from page
  numbers to pages with the stack of empty pages of the disk manager, as the theory
  \<open>Buffer_Pool\<close> justifies (a guard reads what was last written to its page). A page that is
  still guarded is not deleted. An access outside the array is \<open>Undefined\<close>.
\<close>

section \<open>Pages\<close>

record 'k bpage =
  pg_next :: nat
  pg_leaf :: bool
  pg_internal :: bool
  pg_root :: bool
  pg_count :: nat
  pg_data :: "('k \<times> nat) list"

text \<open>
  The parameters of the template: the comparator, \<^verbatim>\<open>kMaxKeyCount\<close>, \<^verbatim>\<open>KeyType()\<close>, and the content
  a new page happens to have.
\<close>

record 'k tree_type =
  tt_less :: "'k \<Rightarrow> 'k \<Rightarrow> bool"
  tt_max :: nat
  tt_key :: 'k
  tt_stale :: "'k bpage"

definition tt_min :: "'k tree_type \<Rightarrow> nat" where
  "tt_min E = (tt_max E + 1) div 2"

record 'k bpt =
  bt_pages :: "nat \<rightharpoonup> 'k bpage"
  bt_free :: "nat list"
  bt_total :: nat
  bt_root :: nat
  bt_siz :: nat

definition load :: "nat \<Rightarrow> 'k bpt \<Rightarrow> 'k bpage result" where
  "load p S = of_option Undefined (bt_pages S p)"

definition store :: "nat \<Rightarrow> 'k bpage \<Rightarrow> 'k bpt \<Rightarrow> 'k bpt" where
  "store p pg S = S\<lparr>bt_pages := (bt_pages S)(p \<mapsto> pg)\<rparr>"

definition new_bpage :: "'k tree_type \<Rightarrow> 'k bpt \<Rightarrow> nat \<times> 'k bpt" where
  "new_bpage E S = (case bt_free S of
     p # ps \<Rightarrow> (p, store p (tt_stale E) (S\<lparr>bt_free := ps\<rparr>))
   | [] \<Rightarrow> (bt_total S + 1, store (bt_total S + 1) (tt_stale E) (S\<lparr>bt_total := bt_total S + 1\<rparr>)))"

text \<open>\<open>pinned\<close> are the pages the guards in scope hold.\<close>

definition delete_bpage :: "nat list \<Rightarrow> nat \<Rightarrow> 'k bpt \<Rightarrow> 'k bpt" where
  "delete_bpage pinned p S = (if p \<in> set pinned then S
     else S\<lparr>bt_pages := (bt_pages S)(p := None), bt_free := p # bt_free S\<rparr>)"

section \<open>The array of a page\<close>

text \<open>\<^verbatim>\<open>memmove\<close> of \<open>n\<close> entries from index \<open>si\<close> of one array to index \<open>di\<close> of another.\<close>

definition blit :: "'a list \<Rightarrow> nat \<Rightarrow> 'a list \<Rightarrow> nat \<Rightarrow> nat \<Rightarrow> 'a list result" where
  "blit src si dst di n =
     (if n = 0 then Inr dst
      else if si + n \<le> length src \<and> di + n \<le> length dst
      then Inr (take di dst @ take n (drop si src) @ drop (di + n) dst)
      else Inl Undefined)"

definition minus_at :: "nat \<Rightarrow> nat \<Rightarrow> nat result" where
  "minus_at a b = (if b \<le> a then Inr (a - b) else Inl Undefined)"

definition move_entries :: "nat \<Rightarrow> nat \<Rightarrow> nat \<Rightarrow> 'k bpage \<Rightarrow> 'k bpage result" where
  "move_entries di si n pg = rbind (blit (pg_data pg) si (pg_data pg) di n) (\<lambda>d. Inr (pg\<lparr>pg_data := d\<rparr>))"

definition copy_entries :: "'k bpage \<Rightarrow> nat \<Rightarrow> nat \<Rightarrow> nat \<Rightarrow> 'k bpage \<Rightarrow> 'k bpage result" where
  "copy_entries src si di n pg = rbind (blit (pg_data src) si (pg_data pg) di n) (\<lambda>d. Inr (pg\<lparr>pg_data := d\<rparr>))"

definition get_entry :: "nat \<Rightarrow> 'k bpage \<Rightarrow> ('k \<times> nat) result" where
  "get_entry i pg = (if i < length (pg_data pg) then Inr (pg_data pg ! i) else Inl Undefined)"

definition set_entry :: "nat \<Rightarrow> 'k \<times> nat \<Rightarrow> 'k bpage \<Rightarrow> 'k bpage result" where
  "set_entry i e pg = (if i < length (pg_data pg) then Inr (pg\<lparr>pg_data := (pg_data pg)[i := e]\<rparr>)
     else Inl Undefined)"

definition set_key :: "nat \<Rightarrow> 'k \<Rightarrow> 'k bpage \<Rightarrow> 'k bpage result" where
  "set_key i k pg = rbind (get_entry i pg) (\<lambda>e. set_entry i (k, snd e) pg)"

definition set_ptr :: "nat \<Rightarrow> nat \<Rightarrow> 'k bpage \<Rightarrow> 'k bpage result" where
  "set_ptr i v pg = rbind (get_entry i pg) (\<lambda>e. set_entry i (fst e, v) pg)"

text \<open>\<^verbatim>\<open>p_data[key_count - 1].first\<close>\<close>

definition last_key :: "'k bpage \<Rightarrow> 'k result" where
  "last_key pg = rbind (minus_at (pg_count pg) 1) (\<lambda>i. rbind (get_entry i pg) (\<lambda>e. Inr (fst e)))"

text \<open>The pointer with index \<open>i\<close>: behind the last entry of a full array it is \<^verbatim>\<open>p_n\<close>.\<close>

definition get_child :: "'k tree_type \<Rightarrow> nat \<Rightarrow> 'k bpage \<Rightarrow> nat result" where
  "get_child E i pg = (if i < tt_max E then rbind (get_entry i pg) (\<lambda>e. Inr (snd e)) else Inr (pg_next pg))"

text \<open>\<^verbatim>\<open>std::lower_bound\<close> over the entries of a page.\<close>

definition page_lower :: "'k tree_type \<Rightarrow> 'k \<Rightarrow> 'k bpage \<Rightarrow> nat" where
  "page_lower E key pg = lower_pos (\<lambda>e k. tt_less E (fst e) k) (take (pg_count pg) (pg_data pg)) key"

section \<open>Finding a position\<close>

text \<open>
  \<^verbatim>\<open>PositionSignType\<close>: the path of guarded pages with an index in each, the leaf first (the
  code pushes at the back), and whether the position is the end. The descent takes at most
  one page per page number; \<open>n\<close> bounds its steps.
\<close>

type_synonym path = "(nat \<times> nat) list"

fun descend :: "'k tree_type \<Rightarrow> 'k \<Rightarrow> nat \<Rightarrow> nat \<Rightarrow> path \<Rightarrow> 'k bpt \<Rightarrow> (path \<times> bool) result" where
  "descend E key 0 p path S = Inl Undefined"
| "descend E key (Suc n) p path S = rbind (load p S) (\<lambda>pg.
     let i = page_lower E key pg; path' = (p, i) # path in
     if pg_leaf pg then Inr (path', i = pg_count pg)
     else rbind (get_child E i pg) (\<lambda>c. descend E key n c path' S))"

definition find_position :: "'k tree_type \<Rightarrow> 'k \<Rightarrow> 'k bpt \<Rightarrow> (path \<times> bool) result" where
  "find_position E key S = (if bt_root S = 0 then Inr ([], True)
     else descend E key (Suc (bt_total S)) (bt_root S) [] S)"

section \<open>Inserting\<close>

text \<open>An entry is inserted into the array at \<open>j\<close> and the count goes up.\<close>

definition insert_in_page :: "nat \<Rightarrow> 'k \<times> nat \<Rightarrow> 'k bpage \<Rightarrow> 'k bpage result" where
  "insert_in_page j e pg = rbind (minus_at (pg_count pg) j) (\<lambda>n.
     rbind (move_entries (j + 1) j n pg) (\<lambda>pg1.
     rbind (set_entry j e pg1) (\<lambda>pg2. Inr (pg2\<lparr>pg_count := pg_count pg2 + 1\<rparr>))))"

text \<open>Splitting a full page: the old page, the fresh one and what \<open>InsertEntryAt\<close> puts into them.\<close>

definition split_page ::
  "'k tree_type \<Rightarrow> bool \<Rightarrow> nat \<Rightarrow> 'k \<times> nat \<Rightarrow> nat \<Rightarrow> 'k bpage \<Rightarrow> 'k bpage \<Rightarrow> ('k bpage \<times> 'k bpage) result" where
  "split_page E recursive j e q pg fresh =
     (let m = tt_min E; left = tt_max E - m;
          new = fresh\<lparr>pg_leaf := \<not> recursive, pg_internal := recursive, pg_root := False,
                      pg_count := m, pg_next := (if recursive then pg_next fresh else pg_next pg)\<rparr>;
          old = pg\<lparr>pg_next := (if recursive then pg_next pg else q)\<rparr>
      in rbind (minus_at (pg_count pg) m) (\<lambda>c. let old = old\<lparr>pg_count := c\<rparr> in
         if j \<le> left then
           rbind (copy_entries old left 0 m new) (\<lambda>new1.
           rbind (insert_in_page j e old) (\<lambda>old1. Inr (old1, new1)))
         else
           let b = left + 1 in
           rbind (copy_entries old b 0 (j - b) new) (\<lambda>new1.
           rbind (set_entry (j - b) e new1) (\<lambda>new2.
           rbind (minus_at (tt_max E) j) (\<lambda>n.
           rbind (copy_entries old j (j - b + 1) n new2) (\<lambda>new3.
             Inr (old\<lparr>pg_count := pg_count old + 1\<rparr>, new3)))))))"

text \<open>A new root over the two halves of the old one.\<close>

definition grow_root :: "'k tree_type \<Rightarrow> nat \<Rightarrow> nat \<Rightarrow> 'k bpt \<Rightarrow> 'k bpt result" where
  "grow_root E p q S = rbind (load p S) (\<lambda>pg.
     let pg' = pg\<lparr>pg_root := False\<rparr>; (r, S1) = new_bpage E (store p pg' S) in
     rbind (load r S1) (\<lambda>root. rbind (last_key pg') (\<lambda>k.
     rbind (set_entry 0 (k, p) (root\<lparr>pg_leaf := False, pg_internal := False, pg_root := True, pg_count := 1\<rparr>)) (\<lambda>r1.
     rbind (set_entry 1 (tt_key E, q) r1) (\<lambda>r2. Inr (store r r2 (S1\<lparr>bt_root := r\<rparr>)))))))"

text \<open>\<open>InsertFixUpLoopPartA\<close> on a parent with room: the new page goes behind index \<open>j - 1\<close>.\<close>

definition insert_child :: "'k tree_type \<Rightarrow> nat \<Rightarrow> 'k \<Rightarrow> 'k \<times> nat \<Rightarrow> 'k bpage \<Rightarrow> 'k bpage result" where
  "insert_child E j k e par =
     rbind (minus_at j 1) (\<lambda>i. rbind (set_key i k par) (\<lambda>p1.
     rbind (get_entry (pg_count p1) p1) (\<lambda>past.
     rbind (if pg_count p1 + 1 = tt_max E then Inr (p1\<lparr>pg_next := snd past\<rparr>)
            else set_ptr (pg_count p1 + 1) (snd past) p1) (\<lambda>p2.
     rbind (if j < pg_count p2 then move_entries (j + 1) j (pg_count p2 - j) p2 else Inr p2) (\<lambda>p3.
     rbind (if j < tt_max E then set_entry j e p3 else Inr (p3\<lparr>pg_next := snd e\<rparr>)) (\<lambda>p4.
       Inr (p4\<lparr>pg_count := pg_count p4 + 1\<rparr>)))))))"

text \<open>
  \<open>InsertFixUpLoopPartB\<close>: a full page of the right edge is split. The loop fills the new
  page from behind, \<open>src\<close> being the next entry of the old one.
\<close>

fun fill_down :: "nat \<Rightarrow> 'k \<times> nat \<Rightarrow> 'k bpage \<Rightarrow> nat \<Rightarrow> nat \<Rightarrow> bool \<Rightarrow> 'k bpage \<Rightarrow> 'k bpage result" where
  "fill_down j e old 0 src processed new = Inr new"
| "fill_down j e old (Suc dest) src processed new =
     (if \<not> processed \<and> j = src + 1
      then rbind (set_entry dest e new) (fill_down j e old dest src True)
      else rbind (get_entry src old) (\<lambda>x. rbind (set_entry dest x new)
             (fill_down j e old dest (src - 1) processed)))"

definition split_edge ::
  "'k tree_type \<Rightarrow> nat \<Rightarrow> 'k \<Rightarrow> 'k \<times> nat \<Rightarrow> 'k bpage \<Rightarrow> 'k bpage \<Rightarrow> ('k bpage \<times> 'k bpage) result" where
  "split_edge E j k e old fresh =
     (let m = tt_min E; new = fresh\<lparr>pg_leaf := False, pg_internal := True, pg_root := False\<rparr> in
      rbind (minus_at (pg_count old) (m - 1)) (\<lambda>c.
      if j = tt_max E + 1 then
        rbind (copy_entries old (tt_max E - (m - 1)) 0 (m - 1) new) (\<lambda>n1.
        rbind (set_entry (m - 1) (k, pg_next old) n1) (\<lambda>n2.
        rbind (set_ptr m (snd e) n2) (\<lambda>n3.
          Inr (old\<lparr>pg_count := c\<rparr>, n3\<lparr>pg_count := m\<rparr>))))
      else
        rbind (minus_at j 1) (\<lambda>i. rbind (set_key i k old) (\<lambda>o1.
        rbind (set_ptr m (pg_next o1) new) (\<lambda>n1.
        rbind (fill_down j e o1 m (tt_max E - 1) False n1) (\<lambda>n2.
        rbind (if j \<le> tt_max E - m
               then rbind (move_entries (j + 1) j (tt_max E - m - j) o1) (set_entry j e)
               else Inr o1) (\<lambda>o2.
          Inr (o2\<lparr>pg_count := c\<rparr>, n2\<lparr>pg_count := m\<rparr>))))))))"

text \<open>
  \<open>insert_fix_edge\<close> is the loop of parts A and B: page \<open>p\<close> was split and its right half is
  \<open>q\<close>; the path starts with the parent, which is on the right edge.
\<close>

fun insert_fix_edge :: "'k tree_type \<Rightarrow> nat \<Rightarrow> nat \<Rightarrow> path \<Rightarrow> 'k bpt \<Rightarrow> 'k bpt result" where
  "insert_fix_edge E p q [] S = Inl Undefined"
| "insert_fix_edge E p q ((pp, i) # rest) S =
     (let j = i + 1 in
      rbind (load pp S) (\<lambda>par. rbind (load p S) (\<lambda>page. rbind (load q S) (\<lambda>new.
      rbind (last_key page) (\<lambda>k. rbind (last_key new) (\<lambda>kn.
      if pg_count par < tt_max E then
        rbind (insert_child E j k (kn, q) par) (\<lambda>par'. Inr (store pp par' S))
      else
        let (r, S1) = new_bpage E S in
        rbind (load r S1) (\<lambda>fresh. rbind (split_edge E j k (kn, q) par fresh) (\<lambda>(par', new').
        let S2 = store r new' (store pp par' S1) in
        if rest = [] then grow_root E pp r S2 else insert_fix_edge E pp r rest S2))))))))"

definition on_edge :: "path \<Rightarrow> 'k bpt \<Rightarrow> bool result" where
  "on_edge up S = (case up of [] \<Rightarrow> Inr True
     | (g, gi) # _ \<Rightarrow> rbind (load g S) (\<lambda>pg. Inr (gi = pg_count pg)))"

fun insert_entry_at :: "'k tree_type \<Rightarrow> bool \<Rightarrow> path \<Rightarrow> 'k \<Rightarrow> nat \<Rightarrow> 'k bpt \<Rightarrow> 'k bpt result" where
  "insert_entry_at E recursive [] key value S = Inl Undefined"
| "insert_entry_at E recursive ((p, j) # path) key value S = rbind (load p S) (\<lambda>pg.
     if pg_count pg < tt_max E then
       rbind (insert_in_page j (key, value) pg) (\<lambda>pg'. Inr (store p pg' S))
     else
       let (q, S1) = new_bpage E S in
       rbind (load q S1) (\<lambda>fresh. rbind (split_page E recursive j (key, value) q pg fresh) (\<lambda>(old, new).
       let S2 = store q new (store p old S1) in
       if pg_root old then grow_root E p q S2
       else (case path of [] \<Rightarrow> Inl Undefined
         | (pp, i) # up \<Rightarrow> rbind (on_edge up S2) (\<lambda>edge.
             if edge then insert_fix_edge E p q path S2
             else rbind (load pp S2) (\<lambda>par. rbind (last_key old) (\<lambda>k. rbind (last_key new) (\<lambda>kn.
               rbind (set_key i k par) (\<lambda>par'.
                 insert_entry_at E True ((pp, i + 1) # up) kn q (store pp par' S2))))))))))"

text \<open>The first entry makes the root.\<close>

definition first_entry :: "'k tree_type \<Rightarrow> 'k \<Rightarrow> nat \<Rightarrow> 'k bpt \<Rightarrow> 'k bpt result" where
  "first_entry E key value S = (let (p, S1) = new_bpage E S in
     rbind (load p S1) (\<lambda>pg. rbind (set_entry 0 (key, value)
       (pg\<lparr>pg_leaf := True, pg_internal := False, pg_root := True, pg_count := 1, pg_next := 0\<rparr>)) (\<lambda>pg'.
     Inr (store p pg' (S1\<lparr>bt_root := p\<rparr>)))))"

section \<open>Removing\<close>

text \<open>An entry is removed from the array and the count goes down.\<close>

definition remove_in_page :: "nat \<Rightarrow> 'k bpage \<Rightarrow> 'k bpage result" where
  "remove_in_page i pg = rbind (minus_at (pg_count pg) (i + 1)) (\<lambda>n.
     rbind (move_entries i (i + 1) n pg) (\<lambda>pg'. Inr (pg'\<lparr>pg_count := pg_count pg' - 1\<rparr>)))"

definition enough_keys :: "'k tree_type \<Rightarrow> 'k bpage \<Rightarrow> bool" where
  "enough_keys E pg \<longleftrightarrow> tt_min E < pg_count pg \<or> pg_root pg"

text \<open>An emptied root gives way to its only child.\<close>

definition shrink_root :: "nat \<Rightarrow> 'k bpt \<Rightarrow> 'k bpt result" where
  "shrink_root p S = rbind (load p S) (\<lambda>pg. rbind (get_entry 0 pg) (\<lambda>e.
     rbind (load (snd e) S) (\<lambda>root.
       Inr (delete_bpage [snd e] p (store (snd e) (root\<lparr>pg_root := True\<rparr>) (S\<lparr>bt_root := snd e\<rparr>))))))"

definition drop_edge_entry :: "'k tree_type \<Rightarrow> nat \<Rightarrow> 'k bpage \<Rightarrow> 'k bpage result" where
  "drop_edge_entry E i pg =
     (if i = pg_count pg then rbind (minus_at (pg_count pg) 1) (\<lambda>c. Inr (pg\<lparr>pg_count := c\<rparr>))
      else rbind (remove_in_page i pg) (\<lambda>pg'.
        if pg_count pg' + 1 < tt_max E
        then rbind (get_entry (pg_count pg' + 1) pg') (\<lambda>e. set_ptr (pg_count pg') (snd e) pg')
        else set_ptr (pg_count pg') (pg_next pg') pg'))"

text \<open>A page of the right edge takes the last entry of the page before it.\<close>

definition borrow_edge :: "'k bpage \<Rightarrow> 'k bpage \<Rightarrow> ('k bpage \<times> 'k bpage) result" where
  "borrow_edge prev page =
     rbind (get_entry (pg_count page) page) (\<lambda>past.
     rbind (set_ptr (pg_count page + 1) (snd past) page) (\<lambda>g1.
     rbind (move_entries 1 0 (pg_count g1) g1) (\<lambda>g2.
     rbind (minus_at (pg_count prev) 1) (\<lambda>c. rbind (get_entry c prev) (\<lambda>e.
     rbind (set_entry 0 e g2) (\<lambda>g3.
       Inr (prev\<lparr>pg_count := c\<rparr>, g3\<lparr>pg_count := pg_count g3 + 1\<rparr>)))))))"

text \<open>A page of the right edge is merged into the page before it.\<close>

definition merge_edge :: "'k tree_type \<Rightarrow> 'k bpage \<Rightarrow> 'k bpage \<Rightarrow> 'k bpage result" where
  "merge_edge E prev page =
     rbind (copy_entries page 0 (pg_count prev) (pg_count page) prev) (\<lambda>v1.
     let v2 = v1\<lparr>pg_count := pg_count v1 + pg_count page\<rparr> in
     rbind (if pg_count page < tt_max E then rbind (get_entry (pg_count page) page) (\<lambda>e. Inr (snd e))
            else Inr (pg_next page)) (\<lambda>past.
     if pg_count v2 < tt_max E then set_ptr (pg_count v2) past v2
     else Inr (v2\<lparr>pg_next := past\<rparr>)))"

fun remove_on_edge :: "'k tree_type \<Rightarrow> path \<Rightarrow> 'k bpt \<Rightarrow> 'k bpt result" where
  "remove_on_edge E [] S = Inl Undefined"
| "remove_on_edge E ((p, i) # path) S = rbind (load p S) (\<lambda>pg.
     rbind (drop_edge_entry E i pg) (\<lambda>pg'. let S1 = store p pg' S in
     if enough_keys E pg then
       (if pg_root pg' \<and> pg_count pg' = 0 then shrink_root p S1 else Inr S1)
     else (case path of [] \<Rightarrow> Inl Undefined
       | (pp, ii) # up \<Rightarrow> rbind (load pp S1) (\<lambda>par. rbind (minus_at ii 1) (\<lambda>iv.
           rbind (get_entry iv par) (\<lambda>e. rbind (load (snd e) S1) (\<lambda>prev.
           if tt_min E < pg_count prev then
             rbind (borrow_edge prev pg') (\<lambda>(prev', pg2). rbind (last_key prev') (\<lambda>k.
             rbind (set_key iv k par) (\<lambda>par'.
               Inr (store pp par' (store (snd e) prev' (store p pg2 S1))))))
           else
             rbind (merge_edge E prev pg') (\<lambda>prev'. rbind (last_key prev') (\<lambda>k.
             rbind (set_key iv k par) (\<lambda>par'.
               remove_on_edge E path (store pp par' (store (snd e) prev' S1))))))))))))"

fun try_update_till_root :: "path \<Rightarrow> 'k bpt \<Rightarrow> 'k bpt result" where
  "try_update_till_root ((p, i) # (pp, ii) # up) S = rbind (load p S) (\<lambda>pg.
     if i + 1 \<noteq> pg_count pg then Inr S
     else rbind (load pp S) (\<lambda>par.
       if pg_count par \<le> ii then Inr S
       else rbind (last_key pg) (\<lambda>k. rbind (set_key ii k par) (\<lambda>par'.
         try_update_till_root ((pp, ii) # up) (store pp par' S)))))"
| "try_update_till_root _ S = Inr S"

text \<open>The last entry was removed: the bound in the parent follows.\<close>

definition update_bound :: "nat \<Rightarrow> 'k bpage \<Rightarrow> path \<Rightarrow> 'k bpt \<Rightarrow> (bool \<times> 'k bpt) result" where
  "update_bound i pg path S = (case path of [] \<Rightarrow> Inr (False, S)
     | (pp, ii) # _ \<Rightarrow>
         if pg_count pg \<noteq> i then Inr (False, S)
         else rbind (load pp S) (\<lambda>par.
           if ii < pg_count par
           then rbind (last_key pg) (\<lambda>k. rbind (set_key ii k par) (\<lambda>par'. Inr (True, store pp par' S)))
           else Inr (False, S)))"

text \<open>The pages beside a page, 0 when there is none.\<close>

definition next_sibling :: "'k tree_type \<Rightarrow> bool \<Rightarrow> nat \<Rightarrow> 'k bpage \<Rightarrow> nat result" where
  "next_sibling E edge ii par =
     (if edge then (if ii < pg_count par then get_child E (ii + 1) par else Inr 0)
      else if ii + 1 < pg_count par then rbind (get_entry (ii + 1) par) (\<lambda>e. Inr (snd e)) else Inr 0)"

definition prev_sibling :: "nat \<Rightarrow> 'k bpage \<Rightarrow> nat result" where
  "prev_sibling ii par = (if 0 < ii then rbind (get_entry (ii - 1) par) (\<lambda>e. Inr (snd e)) else Inr 0)"

definition borrow_prev :: "'k bpage \<Rightarrow> 'k bpage \<Rightarrow> ('k bpage \<times> 'k bpage) result" where
  "borrow_prev prev page =
     rbind (move_entries 1 0 (pg_count page) page) (\<lambda>g1.
     rbind (minus_at (pg_count prev) 1) (\<lambda>c. rbind (get_entry c prev) (\<lambda>e.
     rbind (set_entry 0 e g1) (\<lambda>g2.
       Inr (prev\<lparr>pg_count := c\<rparr>, g2\<lparr>pg_count := pg_count g2 + 1\<rparr>)))))"

text \<open>\<open>past\<close>: the next page has a pointer behind its last entry.\<close>

definition borrow_next :: "'k tree_type \<Rightarrow> bool \<Rightarrow> 'k bpage \<Rightarrow> 'k bpage \<Rightarrow> ('k bpage \<times> 'k bpage) result" where
  "borrow_next E past page nxt =
     rbind (get_entry 0 nxt) (\<lambda>e. rbind (set_entry (pg_count page) e page) (\<lambda>g1.
     rbind (minus_at (pg_count nxt) 1) (\<lambda>c.
     rbind (move_entries 0 1 c nxt) (\<lambda>n1. let n2 = n1\<lparr>pg_count := c\<rparr> in
     rbind (if \<not> past then Inr n2
            else if c + 1 = tt_max E then set_ptr c (pg_next n2) n2
            else rbind (get_entry (c + 1) n2) (\<lambda>x. set_ptr c (snd x) n2)) (\<lambda>n3.
       Inr (g1\<lparr>pg_count := pg_count g1 + 1\<rparr>, n3))))))"

definition merge_into_prev :: "'k bpage \<Rightarrow> 'k bpage \<Rightarrow> 'k bpage result" where
  "merge_into_prev prev page =
     rbind (copy_entries page 0 (pg_count prev) (pg_count page) prev) (\<lambda>v.
       Inr (v\<lparr>pg_next := pg_next page, pg_count := pg_count v + pg_count page\<rparr>))"

definition merge_next :: "'k tree_type \<Rightarrow> bool \<Rightarrow> bool \<Rightarrow> 'k bpage \<Rightarrow> 'k bpage \<Rightarrow> 'k bpage result" where
  "merge_next E recursive past page nxt =
     (let dest = pg_count nxt + pg_count page in
      rbind (if recursive \<and> past then rbind (get_entry (pg_count nxt) nxt) (\<lambda>e.
               if dest = tt_max E then Inr (page\<lparr>pg_next := snd e\<rparr>) else set_ptr dest (snd e) page)
             else Inr page) (\<lambda>g1.
      let g2 = (if recursive then g1 else g1\<lparr>pg_next := pg_next nxt\<rparr>) in
      rbind (copy_entries nxt 0 (pg_count g2) (pg_count nxt) g2) (\<lambda>g3.
        Inr (g3\<lparr>pg_count := dest\<rparr>))))"

fun remove_entry_at :: "'k tree_type \<Rightarrow> bool \<Rightarrow> path \<Rightarrow> 'k bpt \<Rightarrow> 'k bpt result" where
  "remove_entry_at E recursive [] S = Inl Undefined"
| "remove_entry_at E recursive ((p, i) # path) S =
    (if bt_siz S = 1 then Inr ((delete_bpage (map fst ((p, i) # path)) (bt_root S) S)\<lparr>bt_root := 0\<rparr>)
     else rbind (load p S) (\<lambda>pg. rbind (remove_in_page i pg) (\<lambda>pg1.
     rbind (update_bound i pg1 path (store p pg1 S)) (\<lambda>(need, S1).
     if enough_keys E pg then
       rbind (if pg_root pg1 \<and> pg_count pg1 = 0 then shrink_root p S1 else Inr S1) (\<lambda>S2.
         if need then try_update_till_root path S2 else Inr S2)
     else (case path of [] \<Rightarrow> Inl Undefined
       | (pp, ii) # up \<Rightarrow> rbind (on_edge up S1) (\<lambda>edge. rbind (load pp S1) (\<lambda>par.
         rbind (next_sibling E edge ii par) (\<lambda>nx. rbind (prev_sibling ii par) (\<lambda>pv.
         rbind (if pv \<noteq> 0 then rbind (load pv S1) (\<lambda>prev. Inr (tt_min E < pg_count prev)) else Inr False) (\<lambda>from_prev.
         rbind (if nx \<noteq> 0 then rbind (load nx S1) (\<lambda>nxt. Inr (tt_min E < pg_count nxt)) else Inr False) (\<lambda>from_next.
         if from_prev then
           rbind (load pv S1) (\<lambda>prev. rbind (borrow_prev prev pg1) (\<lambda>(prev', pg2).
           rbind (last_key prev') (\<lambda>k. rbind (set_key (ii - 1) k par) (\<lambda>par'.
           let S2 = store pp par' (store pv prev' (store p pg2 S1)) in
           if need then try_update_till_root path S2 else Inr S2))))
         else if from_next then
           rbind (load nx S1) (\<lambda>nxt.
           rbind (borrow_next E (recursive \<and> ii + 1 = pg_count par) pg1 nxt) (\<lambda>(pg2, nxt').
           rbind (last_key pg2) (\<lambda>k. rbind (set_key ii k par) (\<lambda>par'.
             try_update_till_root path (store pp par' (store nx nxt' (store p pg2 S1)))))))
         else if pv \<noteq> 0 then
           rbind (load pv S1) (\<lambda>prev. rbind (merge_into_prev prev pg1) (\<lambda>prev'.
           rbind (last_key prev') (\<lambda>k. rbind (set_key (ii - 1) k par) (\<lambda>par'.
           let S2 = delete_bpage (pv # map fst path) p (store pp par' (store pv prev' S1)) in
           if edge then remove_on_edge E path S2 else remove_entry_at E True path S2))))
         else if nx \<noteq> 0 then
           rbind (load nx S1) (\<lambda>nxt.
           rbind (merge_next E recursive (ii + 1 = pg_count par) pg1 nxt) (\<lambda>pg2.
           rbind (last_key pg2) (\<lambda>k. rbind (set_key ii k par) (\<lambda>par'.
           let S2 = delete_bpage (nx # map fst path) nx (store pp par' (store p pg2 S1)) in
           if edge then remove_on_edge E ((pp, ii + 1) # up) S2
           else remove_entry_at E True ((pp, ii + 1) # up) S2))))
         else Inl Runtime_error)))))))))))"

section \<open>The operations\<close>

text \<open>Dereferencing the position of the leaf.\<close>

definition entry_at :: "path \<Rightarrow> 'k bpt \<Rightarrow> ('k \<times> nat) result" where
  "entry_at path S = (case path of [] \<Rightarrow> Inl Undefined
     | (p, i) # _ \<Rightarrow> rbind (load p S) (get_entry i))"

definition bpt_get :: "'k tree_type \<Rightarrow> 'k \<Rightarrow> 'k bpt \<Rightarrow> nat option result" where
  "bpt_get E key S = rbind (find_position E key S) (\<lambda>(path, is_end).
     if is_end then Inr None else rbind (entry_at path S) (\<lambda>e.
     if tt_less E key (fst e) then Inr None else Inr (Some (snd e))))"

definition bpt_put :: "'k tree_type \<Rightarrow> 'k \<Rightarrow> nat \<Rightarrow> 'k bpt \<Rightarrow> (bool \<times> 'k bpt) result" where
  "bpt_put E key value S = rbind (find_position E key S) (\<lambda>(path, is_end).
     rbind (if is_end then Inr False else rbind (entry_at path S) (\<lambda>e. Inr (\<not> tt_less E key (fst e)))) (\<lambda>present.
     if present then (case path of [] \<Rightarrow> Inl Undefined
       | (p, i) # _ \<Rightarrow> rbind (load p S) (\<lambda>pg. rbind (set_ptr i value pg) (\<lambda>pg'. Inr (False, store p pg' S))))
     else rbind (if bt_siz S = 0 then first_entry E key value S
                 else insert_entry_at E False path key value S) (\<lambda>S'.
       Inr (True, S'\<lparr>bt_siz := bt_siz S' + 1\<rparr>))))"

definition bpt_remove :: "'k tree_type \<Rightarrow> 'k \<Rightarrow> 'k bpt \<Rightarrow> (nat option \<times> 'k bpt) result" where
  "bpt_remove E key S = rbind (find_position E key S) (\<lambda>(path, is_end).
     if is_end then Inr (None, S) else rbind (entry_at path S) (\<lambda>e.
     if tt_less E key (fst e) then Inr (None, S)
     else rbind (remove_entry_at E False path S) (\<lambda>S'.
       Inr (Some (snd e), S'\<lparr>bt_siz := bt_siz S' - 1\<rparr>))))"

text \<open>Iterators: a page and an offset, or the end.\<close>

definition bpt_lower :: "'k tree_type \<Rightarrow> 'k \<Rightarrow> 'k bpt \<Rightarrow> (nat \<times> nat) option result" where
  "bpt_lower E key S = rbind (find_position E key S) (\<lambda>(path, is_end).
     if is_end then Inr None else (case path of [] \<Rightarrow> Inl Undefined | x # _ \<Rightarrow> Inr (Some x)))"

definition bpt_next :: "(nat \<times> nat) option \<Rightarrow> 'k bpt \<Rightarrow> (nat \<times> nat) option result" where
  "bpt_next it S = (case it of None \<Rightarrow> Inr None
     | Some (p, i) \<Rightarrow> rbind (load p S) (\<lambda>pg.
         if i + 1 = pg_count pg
         then (if pg_next pg = 0 then Inr None else Inr (Some (pg_next pg, 0)))
         else Inr (Some (p, i + 1))))"

definition new_bpt :: "'k bpt" where
  "new_bpt = \<lparr>bt_pages = Map.empty, bt_free = [], bt_total = 0, bt_root = 0, bt_siz = 0\<rparr>"

end
