(* ===== verification/Bpt_Tree.thy ===== *)
theory Bpt_Tree
  imports Bpt_Pages
begin

text \<open>
  The tree the pages of the B+ tree hold. A page of the right edge has one pointer more than
  keys, every other inner page one pointer per key, and each key is the greatest key of its
  subtree. The theory defines the shape of such trees, when pages represent one, contexts (a
  tree with a hole, as a path of pages leaves it), and shows that the descent finds the leaf
  and the index where a key stands in the chain of leaves.
\<close>

section \<open>Trees\<close>

datatype 'k tr = Lf nat "('k \<times> nat) list" | Nd nat "'k list" "'k tr list"

fun pid :: "'k tr \<Rightarrow> nat" where
  "pid (Lf p es) = p"
| "pid (Nd p ks cs) = p"

fun entries :: "'k tr \<Rightarrow> ('k \<times> nat) list" where
  "entries (Lf p es) = es"
| "entries (Nd p ks cs) = concat (map entries cs)"

fun leaf_ids :: "'k tr \<Rightarrow> nat list" where
  "leaf_ids (Lf p es) = [p]"
| "leaf_ids (Nd p ks cs) = concat (map leaf_ids cs)"

fun pids :: "'k tr \<Rightarrow> nat list" where
  "pids (Lf p es) = [p]"
| "pids (Nd p ks cs) = p # concat (map pids cs)"

lemma pid_mem [simp]: "pid t \<in> set (pids t)"
  by (cases t) auto

lemma leaf_ids_pids: "set (leaf_ids t) \<subseteq> set (pids t)"
  by (induction t) auto

section \<open>Shape\<close>

text \<open>\<open>ok_type\<close>: what the template parameters must satisfy.\<close>

definition ok_type :: "'k tree_type \<Rightarrow> bool" where
  "ok_type E \<longleftrightarrow> strict_weak_order (tt_less E) \<and> 3 \<le> tt_max E \<and> length (pg_data (tt_stale E)) = tt_max E"

lemma ok_typeD:
  assumes "ok_type E"
  shows "strict_weak_order (tt_less E)" "3 \<le> tt_max E" "length (pg_data (tt_stale E)) = tt_max E"
    "2 \<le> tt_min E" "tt_min E < tt_max E" "2 * tt_min E \<le> tt_max E + 1" "tt_max E \<le> 2 * tt_min E"
  using assms by (auto simp: ok_type_def tt_min_def)

definition fill :: "'k tree_type \<Rightarrow> bool \<Rightarrow> nat \<Rightarrow> bool" where
  "fill E r n \<longleftrightarrow> (if r then 1 else tt_min E) \<le> n \<and> n \<le> tt_max E"

text \<open>The bounds of the children: their keys, and none for the last child on the right edge.\<close>

definition bnds :: "'k option \<Rightarrow> 'k list \<Rightarrow> 'k option list" where
  "bnds b ks = map Some ks @ (if b = None then [None] else [])"

definition top_is :: "'k option \<Rightarrow> 'k list \<Rightarrow> bool" where
  "top_is b ks \<longleftrightarrow> (case b of None \<Rightarrow> True | Some k \<Rightarrow> last ks = k)"

fun shape :: "'k tree_type \<Rightarrow> bool \<Rightarrow> nat \<Rightarrow> 'k option \<Rightarrow> 'k tr \<Rightarrow> bool" where
  "shape E r 0 b (Lf p es) = (fill E r (length es) \<and> top_is b (map fst es))"
| "shape E r (Suc h) b (Nd p ks cs) =
     (fill E r (length ks) \<and> top_is b ks \<and> list_all2 (shape E False h) (bnds b ks) cs)"
| "shape E r h b t = False"

lemma shape_leaf [simp]:
  "shape E r h b (Lf p es) \<longleftrightarrow> h = 0 \<and> fill E r (length es) \<and> top_is b (map fst es)"
  by (cases h) simp_all

lemma shape_node:
  "shape E r h b (Nd p ks cs) \<longleftrightarrow> (\<exists>h'. h = Suc h' \<and> fill E r (length ks) \<and> top_is b ks
     \<and> list_all2 (shape E False h') (bnds b ks) cs)"
  by (cases h) simp_all

lemma top_is_simps [simp]: "top_is None ks" "top_is (Some k) ks \<longleftrightarrow> last ks = k"
  by (simp_all add: top_is_def)

lemma fill_pos: "ok_type E \<Longrightarrow> fill E r n \<Longrightarrow> 0 < n"
  using ok_typeD(4) [of E] by (simp add: fill_def split: if_splits)

lemma fill_root: "ok_type E \<Longrightarrow> fill E r n \<Longrightarrow> fill E True n"
  using fill_pos [of E r n] by (simp add: fill_def Suc_le_eq)

lemma length_bnds [simp]: "length (bnds b ks) = length ks + (if b = None then 1 else 0)"
  by (simp add: bnds_def)

lemma last_bnds: "ks \<noteq> [] \<Longrightarrow> last (bnds b ks) = (case b of None \<Rightarrow> None | Some _ \<Rightarrow> Some (last ks))"
  by (auto simp: bnds_def last_map split: option.splits)

lemma nth_bnds: "i < length ks \<Longrightarrow> bnds b ks ! i = Some (ks ! i)"
  by (simp add: bnds_def nth_append)

lemma nth_bnds_last: "b = None \<Longrightarrow> bnds b ks ! length ks = None"
  by (simp add: bnds_def nth_append)

lemma node_kids:
  assumes "ok_type E" "shape E r (Suc h) b (Nd p ks cs)"
  shows "ks \<noteq> []" "cs \<noteq> []" "length cs = length ks + (if b = None then 1 else 0)"
    "i < length cs \<Longrightarrow> shape E False h (bnds b ks ! i) (cs ! i)"
    "shape E False h (case b of None \<Rightarrow> None | Some _ \<Rightarrow> b) (last cs)"
proof -
  have s: "fill E r (length ks)" "top_is b ks" "list_all2 (shape E False h) (bnds b ks) cs" using assms(2) by simp_all
  show ks: "ks \<noteq> []" using fill_pos [OF assms(1) s(1)] by auto
  show len: "length cs = length ks + (if b = None then 1 else 0)" using list_all2_lengthD [OF s(3)] by simp
  then show cs: "cs \<noteq> []" using ks by auto
  show i: "i < length cs \<Longrightarrow> shape E False h (bnds b ks ! i) (cs ! i)" for i
    using list_all2_nthD [OF s(3)] len by simp
  have "last (bnds b ks) = bnds b ks ! (length cs - 1)"
    using len ks by (subst last_conv_nth) (auto simp: bnds_def)
  then show "shape E False h (case b of None \<Rightarrow> None | Some _ \<Rightarrow> b) (last cs)"
    using i [of "length cs - 1"] cs s(2) last_bnds [OF ks, of b] by (auto simp: last_conv_nth split: option.splits)
qed

lemma last_concat: "xs \<noteq> [] \<Longrightarrow> last xs \<noteq> [] \<Longrightarrow> last (concat xs) = last (last xs)"
  by (cases xs rule: rev_cases) auto

text \<open>A bounded subtree ends with its bound.\<close>

lemma shape_top:
  assumes "ok_type E"
  shows "shape E r h b t \<Longrightarrow> entries t \<noteq> [] \<and> (\<forall>k. b = Some k \<longrightarrow> fst (last (entries t)) = k)"
proof (induction h arbitrary: r b t)
  case 0
  then obtain p es where t: "t = Lf p es" by (cases t) (auto simp: shape_node)
  then have "es \<noteq> []" using 0 fill_pos [OF assms] by fastforce
  then show ?case using 0 t by (auto simp: last_map)
next
  case (Suc h)
  then obtain p ks cs where t: "t = Nd p ks cs" by (cases t) auto
  note k = node_kids [OF assms Suc.prems [unfolded t]]
  have l: "entries (last cs) \<noteq> []" "\<forall>k. b = Some k \<longrightarrow> fst (last (entries (last cs))) = k"
    using Suc.IH [OF k(5)] by (auto split: option.splits)
  have "last (entries t) = last (entries (last cs))" "entries t \<noteq> []"
    using k(2) l(1) by (auto simp: t last_concat last_map)
  then show ?case using l(2) by simp
qed

lemma shape_pids: "ok_type E \<Longrightarrow> shape E r h b t \<Longrightarrow> h < length (pids t)"
proof (induction h arbitrary: r b t)
  case 0
  then show ?case by (cases t) auto
next
  case (Suc h)
  then obtain p ks cs where t: "t = Nd p ks cs" by (cases t) auto
  note k = node_kids [OF Suc.prems(1) Suc.prems(2) [unfolded t]]
  have "h < length (pids (hd cs))" using Suc.IH [OF Suc.prems(1) k(4) [of 0]] k(2) by (simp add: hd_conv_nth)
  also have "\<dots> \<le> length (concat (map pids cs))" using k(2) by (cases cs) auto
  finally show ?case by (simp add: t)
qed

section \<open>Pages that represent a tree\<close>

definition ptrs :: "'k bpage \<Rightarrow> nat list" where
  "ptrs pg = map snd (pg_data pg) @ [pg_next pg]"

definition leaf_rep :: "'k tree_type \<Rightarrow> bool \<Rightarrow> ('k \<times> nat) list \<Rightarrow> 'k bpage \<Rightarrow> bool" where
  "leaf_rep E r es pg \<longleftrightarrow> pg_leaf pg \<and> pg_root pg = r \<and> length (pg_data pg) = tt_max E
     \<and> pg_count pg = length es \<and> take (length es) (pg_data pg) = es"

definition node_rep :: "'k tree_type \<Rightarrow> bool \<Rightarrow> 'k list \<Rightarrow> nat list \<Rightarrow> 'k bpage \<Rightarrow> bool" where
  "node_rep E r ks ps pg \<longleftrightarrow> \<not> pg_leaf pg \<and> pg_root pg = r \<and> length (pg_data pg) = tt_max E
     \<and> pg_count pg = length ks \<and> take (length ks) (map fst (pg_data pg)) = ks
     \<and> take (length ps) (ptrs pg) = ps"

fun rep :: "'k tree_type \<Rightarrow> (nat \<rightharpoonup> 'k bpage) \<Rightarrow> bool \<Rightarrow> 'k tr \<Rightarrow> bool" where
  "rep E P r (Lf p es) = (\<exists>pg. P p = Some pg \<and> leaf_rep E r es pg)"
| "rep E P r (Nd p ks cs) = ((\<exists>pg. P p = Some pg \<and> node_rep E r ks (map pid cs) pg)
     \<and> list_all (rep E P False) cs)"

lemma rep_cong: "rep E P r t \<Longrightarrow> \<forall>p\<in>set (pids t). Q p = P p \<Longrightarrow> rep E Q r t"
proof (induction t arbitrary: r)
  case (Nd p ks cs)
  then show ?case by (fastforce simp: list_all_iff)
qed auto

text \<open>The chain of leaves.\<close>

definition next_of :: "(nat \<rightharpoonup> 'k bpage) \<Rightarrow> nat \<Rightarrow> nat" where
  "next_of P p = (case P p of None \<Rightarrow> 0 | Some pg \<Rightarrow> pg_next pg)"

definition linked :: "(nat \<Rightarrow> nat) \<Rightarrow> nat list \<Rightarrow> bool" where
  "linked f ps \<longleftrightarrow> successively (\<lambda>p q. f p = q) ps \<and> (ps \<noteq> [] \<longrightarrow> f (last ps) = 0)"

lemma linked_cong: "linked f ps \<Longrightarrow> \<forall>p\<in>set ps. g p = f p \<Longrightarrow> linked g ps"
  unfolding linked_def by (auto elim: successively_mono [rotated])

section \<open>Contexts\<close>

text \<open>
  A frame is a page on a path with its keys, the children before and the children behind the
  one the path continues with; a context lists the frames from the hole to the root.
\<close>

type_synonym 'k frame_of = "nat \<times> 'k list \<times> 'k tr list \<times> 'k tr list"

fun plug :: "'k frame_of list \<Rightarrow> 'k tr \<Rightarrow> 'k tr" where
  "plug [] t = t"
| "plug ((p, ks, l, r) # fs) t = plug fs (Nd p ks (l @ t # r))"

definition path_of :: "'k frame_of list \<Rightarrow> path" where
  "path_of fs = map (\<lambda>(p, ks, l, r). (p, length l)) fs"

fun lft :: "('k tr \<Rightarrow> 'a list) \<Rightarrow> 'k frame_of list \<Rightarrow> 'a list" where
  "lft f [] = []"
| "lft f ((p, ks, l, r) # fs) = lft f fs @ concat (map f l)"

fun rgt :: "('k tr \<Rightarrow> 'a list) \<Rightarrow> 'k frame_of list \<Rightarrow> 'a list" where
  "rgt f [] = []"
| "rgt f ((p, ks, l, r) # fs) = concat (map f r) @ rgt f fs"

fun ctx_ids :: "'k frame_of list \<Rightarrow> nat list" where
  "ctx_ids [] = []"
| "ctx_ids ((p, ks, l, r) # fs) = p # concat (map pids l) @ concat (map pids r) @ ctx_ids fs"

lemma entries_plug: "entries (plug fs t) = lft entries fs @ entries t @ rgt entries fs"
  by (induction fs t rule: plug.induct) auto

lemma leaf_ids_plug: "leaf_ids (plug fs t) = lft leaf_ids fs @ leaf_ids t @ rgt leaf_ids fs"
  by (induction fs t rule: plug.induct) auto

lemma mset_pids_plug: "mset (pids (plug fs t)) = mset (pids t) + mset (ctx_ids fs)"
  by (induction fs t rule: plug.induct) auto

lemma distinct_plug: "distinct (pids (plug fs t)) \<longleftrightarrow> distinct (pids t @ ctx_ids fs)"
  using mset_pids_plug [of fs t] by (metis mset_append mset_eq_imp_distinct_iff)

lemma set_pids_plug: "set (pids (plug fs t)) = set (pids t) \<union> set (ctx_ids fs)"
  using mset_pids_plug [of fs t] by (metis mset_append set_append set_mset_mset)

fun ctx_rep :: "'k tree_type \<Rightarrow> (nat \<rightharpoonup> 'k bpage) \<Rightarrow> 'k frame_of list \<Rightarrow> nat \<Rightarrow> bool" where
  "ctx_rep E P [] hp = True"
| "ctx_rep E P ((p, ks, l, r) # fs) hp =
     ((\<exists>pg. P p = Some pg \<and> node_rep E (fs = []) ks (map pid l @ hp # map pid r) pg)
      \<and> list_all (rep E P False) l \<and> list_all (rep E P False) r \<and> ctx_rep E P fs p)"

lemma rep_plug: "rep E P True (plug fs t) \<longleftrightarrow> ctx_rep E P fs (pid t) \<and> rep E P (fs = []) t"
  by (induction fs t rule: plug.induct) auto

lemma ctx_rep_cong:
  "ctx_rep E P fs hp \<Longrightarrow> \<forall>p\<in>set (ctx_ids fs). Q p = P p \<Longrightarrow> ctx_rep E Q fs hp"
proof (induction E P fs hp rule: ctx_rep.induct)
  case (2 E P p ks l r fs hp)
  have "list_all (rep E Q False) l" "list_all (rep E Q False) r"
    using 2(2,3) rep_cong [where Q = Q] by (fastforce simp: list_all_iff)+
  moreover have "ctx_rep E Q fs p" using 2 by auto
  ultimately show ?case using 2(2,3) by auto
qed simp

fun ctx_shape :: "'k tree_type \<Rightarrow> nat \<Rightarrow> 'k frame_of list \<Rightarrow> 'k option \<Rightarrow> bool" where
  "ctx_shape E h [] b = (b = None)"
| "ctx_shape E h ((p, ks, l, r) # fs) b =
     (\<exists>b'. ctx_shape E (Suc h) fs b' \<and> fill E (fs = []) (length ks) \<and> top_is b' ks
        \<and> (\<exists>bl br. bnds b' ks = bl @ b # br \<and> list_all2 (shape E False h) bl l
             \<and> list_all2 (shape E False h) br r))"

lemma list_all2_Cons_mid:
  "list_all2 P bs (l @ t # r) \<longleftrightarrow> (\<exists>bl b br. bs = bl @ b # br \<and> list_all2 P bl l \<and> P b t \<and> list_all2 P br r)"
proof
  assume "list_all2 P bs (l @ t # r)"
  then show "\<exists>bl b br. bs = bl @ b # br \<and> list_all2 P bl l \<and> P b t \<and> list_all2 P br r"
    by (auto simp: list_all2_append2 list_all2_Cons2)
qed (auto intro: list_all2_appendI)

lemma shape_plug:
  "shape E True (h + length fs) None (plug fs t) \<longleftrightarrow> (\<exists>b. ctx_shape E h fs b \<and> shape E (fs = []) h b t)"
proof (induction fs arbitrary: h t)
  case (Cons f fs)
  obtain p ks l r where f: "f = (p, ks, l, r)" by (cases f)
  have "shape E True (h + length (f # fs)) None (plug (f # fs) t) \<longleftrightarrow>
      (\<exists>b'. ctx_shape E (Suc h) fs b' \<and> shape E (fs = []) (Suc h) b' (Nd p ks (l @ t # r)))"
    using Cons.IH [of "Suc h"] by (simp add: f)
  then show ?case unfolding f by (auto simp: list_all2_Cons_mid)
qed simp

lemma plug_append: "plug (fs' @ fs) t = plug fs (plug fs' t)"
  by (induction fs' t rule: plug.induct) auto

lemma path_of_Nil [simp]: "path_of [] = []"
  by (simp add: path_of_def)

lemma path_of_append [simp]: "path_of (fs' @ fs) = path_of fs' @ path_of fs"
  by (simp add: path_of_def)

lemma lft_append: "lft f (fs' @ fs) = lft f fs @ lft f fs'"
  by (induction f fs' rule: lft.induct) auto

lemma rgt_append: "rgt f (fs' @ fs) = rgt f fs' @ rgt f fs"
  by (induction f fs' rule: rgt.induct) auto

section \<open>Finding a position\<close>

abbreviation sorted_entries :: "'k tree_type \<Rightarrow> ('k \<times> nat) list \<Rightarrow> bool" where
  "sorted_entries E \<equiv> sorted_wrt (\<lambda>a b. tt_less E (fst a) (fst b))"

lemma sorted_concat_nth:
  "sorted_wrt R (concat xss) \<Longrightarrow> i < length xss \<Longrightarrow> sorted_wrt R (xss ! i)"
  "sorted_wrt R (concat xss) \<Longrightarrow> i < j \<Longrightarrow> j < length xss \<Longrightarrow> x \<in> set (xss ! i) \<Longrightarrow> y \<in> set (xss ! j) \<Longrightarrow> R x y"
proof (induction xss arbitrary: i j)
  case (Cons xs xss)
  {
    case 1
    then show ?case using Cons.IH(1) by (cases i) (auto simp: sorted_wrt_append)
  next
    case 2
    then show ?case
    proof (cases i)
      case 0
      then have "xss ! (j - 1) \<in> set xss" "y \<in> set (xss ! (j - 1))" using 2 by (cases j; simp)+
      then have "y \<in> set (concat xss)" by auto
      then show ?thesis using 2 0 by (auto simp: sorted_wrt_append)
    next
      case (Suc i')
      then show ?thesis using 2 Cons.IH(2) [of i' "j - 1"] by (cases j) (auto simp: sorted_wrt_append)
    qed
  }
qed auto

lemma mem_concat_take:
  assumes "x \<in> set (concat (take i xss))"
  shows "\<exists>j<i. j < length xss \<and> x \<in> set (xss ! j)"
proof -
  obtain xs where "xs \<in> set (take i xss)" "x \<in> set xs" using assms by auto
  then obtain j where "j < length (take i xss)" "xs = take i xss ! j" by (metis in_set_conv_nth)
  then show ?thesis using \<open>x \<in> set xs\<close> by (intro exI [of _ j]) simp
qed

lemma mem_concat_drop:
  assumes "x \<in> set (concat (drop i xss))"
  shows "\<exists>j\<ge>i. j < length xss \<and> x \<in> set (xss ! j)"
proof -
  obtain xs where "xs \<in> set (drop i xss)" "x \<in> set xs" using assms by auto
  then obtain j where "j < length (drop i xss)" "xs = drop i xss ! j" by (metis in_set_conv_nth)
  then show ?thesis using \<open>x \<in> set xs\<close> by (intro exI [of _ "i + j"]) simp
qed

lemma sorted_last: "sorted_wrt R xs \<Longrightarrow> x \<in> set xs \<Longrightarrow> x = last xs \<or> R x (last xs)"
  by (cases xs rule: rev_cases) (auto simp: sorted_wrt_append)

lemma lower_pos_le: "lower_pos f xs k \<le> length xs"
  by (simp add: lower_pos_def length_takeWhile_le)

lemma lower_pos_before: "i < lower_pos f xs k \<Longrightarrow> f (xs ! i) k"
  unfolding lower_pos_def by (metis nth_mem set_takeWhileD takeWhile_nth)

lemma lower_pos_at: "lower_pos f xs k < length xs \<Longrightarrow> \<not> f (xs ! lower_pos f xs k) k"
  unfolding lower_pos_def by (rule nth_length_takeWhile)

lemma lower_pos_fst: "lower_pos (\<lambda>e k. f (fst e) k) xs k = lower_pos f (map fst xs) k"
  by (simp add: lower_pos_def takeWhile_map o_def)

lemma lower_pos_bound: "xs \<noteq> [] \<Longrightarrow> \<not> f (last xs) k \<Longrightarrow> lower_pos f xs k < length xs"
  using lower_pos_before [of "length xs - 1" f xs k] lower_pos_le [of f xs k]
  by (cases "lower_pos f xs k = length xs") (auto simp: last_conv_nth)

lemma node_lower:
  assumes E: "ok_type E" and sh: "shape E r (Suc h) b (Nd p ks cs)"
    and so: "sorted_entries E (entries (Nd p ks cs))"
    and bd: "\<And>k'. b = Some k' \<Longrightarrow> \<not> tt_less E k' key"
    and i: "i = lower_pos (tt_less E) ks key"
  shows "i < length cs" "\<forall>e\<in>set (concat (map entries (take i cs))). tt_less E (fst e) key"
    "\<forall>e\<in>set (concat (map entries (drop (Suc i) cs))). \<not> tt_less E (fst e) key"
    "bnds b ks ! i = Some k' \<Longrightarrow> \<not> tt_less E k' key"
    "bnds b ks ! i = None \<Longrightarrow> b = None \<and> drop (Suc i) cs = []"
proof -
  note lt = ok_typeD(1) [OF E] and k = node_kids [OF E sh]
  have top: "top_is b ks" using sh by simp
  have so': "sorted_wrt (\<lambda>a b. tt_less E (fst a) (fst b)) (concat (map entries cs))" using so by simp
  have some: "i < length ks" if "b = Some k'" for k'
    using lower_pos_bound [OF k(1), of "tt_less E" key] that top bd by (auto simp: i)
  show len: "i < length cs" using some lower_pos_le [of "tt_less E" ks key] k(3)
    by (cases b) (auto simp: i)
  have tops: "fst (last (entries (cs ! j))) = ks ! j" "entries (cs ! j) \<noteq> []"
    if "j < length cs" "j < length ks" for j
    using shape_top [OF E k(4) [OF that(1)]] nth_bnds [OF that(2), of b] by auto
  show "\<forall>e\<in>set (concat (map entries (take i cs))). tt_less E (fst e) key"
  proof
    fix e assume "e \<in> set (concat (map entries (take i cs)))"
    then have "e \<in> set (concat (take i (map entries cs)))" by (simp add: take_map)
    then obtain j where j: "j < i" "j < length cs" "e \<in> set (entries (cs ! j))"
      using mem_concat_take [of e i "map entries cs"] by auto
    have jk: "j < length ks" using j(1) lower_pos_le [of "tt_less E" ks key] by (simp add: i)
    have "tt_less E (ks ! j) key" using lower_pos_before j(1) by (simp add: i)
    moreover have "e = last (entries (cs ! j)) \<or> tt_less E (fst e) (fst (last (entries (cs ! j))))"
      using sorted_last [of _ "entries (cs ! j)" e] sorted_concat_nth(1) [OF so', of j] j(2,3) by simp
    ultimately show "tt_less E (fst e) key"
      using tops(1) [OF j(2) jk] strict_weak_order.trans [OF lt, of "fst e" "ks ! j" key] by auto
  qed
  have at: "\<not> tt_less E (ks ! i) key" if "i < length ks" using lower_pos_at that by (metis i)
  show "\<forall>e\<in>set (concat (map entries (drop (Suc i) cs))). \<not> tt_less E (fst e) key"
  proof
    fix e assume "e \<in> set (concat (map entries (drop (Suc i) cs)))"
    then have "e \<in> set (concat (drop (Suc i) (map entries cs)))" by (simp add: drop_map)
    then obtain j where j: "Suc i \<le> j" "j < length cs" "e \<in> set (entries (cs ! j))"
      using mem_concat_drop [of e "Suc i" "map entries cs"] by auto
    have ik: "i < length ks" using j k(3) by (auto split: if_splits)
    have "last (entries (cs ! i)) \<in> set (entries (cs ! i))" using tops(2) len ik by simp
    then have "tt_less E (fst (last (entries (cs ! i)))) (fst e)"
      using sorted_concat_nth(2) [OF so', of i j] j len by auto
    then show "\<not> tt_less E (fst e) key"
      using at [OF ik] tops(1) [OF len ik] strict_weak_order.trans [OF lt, of "ks ! i" "fst e" key] by auto
  qed
  show "\<not> tt_less E k' key" if "bnds b ks ! i = Some k'"
  proof (cases "i < length ks")
    case True
    then show ?thesis using that at by (simp add: nth_bnds)
  next
    case False
    then have "b = None" "i = length ks" using some lower_pos_le [of "tt_less E" ks key]
      by (cases b; force simp: i)+
    then show ?thesis using that nth_bnds_last by force
  qed
  show "b = None \<and> drop (Suc i) cs = []" if "bnds b ks ! i = None"
  proof -
    have "\<not> i < length ks" using that nth_bnds by force
    then have "b = None" "i = length ks" using some lower_pos_le [of "tt_less E" ks key]
      by (cases b; force simp: i)+
    then show ?thesis using k(3) by simp
  qed
qed

text \<open>The pages of a node give the index and the child.\<close>

lemma node_page_lower:
  assumes "node_rep E r ks ps pg"
  shows "page_lower E key pg = lower_pos (tt_less E) ks key"
proof -
  have "map fst (take (length ks) (pg_data pg)) = ks" using assms by (simp add: node_rep_def take_map)
  then show ?thesis using assms by (simp add: page_lower_def node_rep_def lower_pos_fst)
qed

lemma leaf_page_lower:
  assumes "leaf_rep E r es pg"
  shows "page_lower E key pg = lower_pos (tt_less E) (map fst es) key"
  using assms by (simp add: page_lower_def leaf_rep_def lower_pos_fst)

lemma nth_ptrs: "length (pg_data pg) = n \<Longrightarrow> i \<le> n \<Longrightarrow>
    ptrs pg ! i = (if i < n then snd (pg_data pg ! i) else pg_next pg)"
  by (simp add: ptrs_def nth_append)

lemma node_child:
  assumes "node_rep E r ks ps pg" "i < length ps"
  shows "get_child E i pg = Inr (ps ! i)"
proof -
  have l: "length (pg_data pg) = tt_max E" and t: "take (length ps) (ptrs pg) = ps"
    using assms(1) by (simp_all add: node_rep_def)
  have "length ps \<le> length (ptrs pg)" using t by (metis length_take min.absorb_iff2 min.commute nle_le)
  then have i: "i \<le> tt_max E" using assms(2) l by (simp add: ptrs_def)
  have "ps ! i = ptrs pg ! i" using t assms(2) by (metis nth_take)
  then show ?thesis using nth_ptrs [OF l i] i l by (auto simp: get_child_def get_entry_def)
qed

lemma descend_ok:
  assumes E: "ok_type E" and P: "P = bt_pages S"
  shows "shape E (fs = []) h b t \<Longrightarrow> rep E P (fs = []) t \<Longrightarrow> h < n \<Longrightarrow> sorted_entries E (entries t) \<Longrightarrow>
    (\<And>k'. b = Some k' \<Longrightarrow> \<not> tt_less E k' key) \<Longrightarrow>
    \<exists>fs' lp es. let j = lower_pos (tt_less E) (map fst es) key in
      descend E key n (pid t) (path_of fs) S = Inr ((lp, j) # path_of (fs' @ fs), j = length es)
      \<and> plug fs' (Lf lp es) = t \<and> length fs' = h
      \<and> (\<forall>e\<in>set (lft entries fs'). tt_less E (fst e) key)
      \<and> (\<forall>e\<in>set (rgt entries fs'). \<not> tt_less E (fst e) key)
      \<and> (j = length es \<longrightarrow> rgt entries fs' = [] \<and> b = None)"
proof (induction h arbitrary: n b t fs)
  case 0
  then obtain lp es where t: "t = Lf lp es" by (cases t) (auto simp: shape_node)
  obtain n' where n: "n = Suc n'" using 0 by (cases n) auto
  obtain pg where pg: "P lp = Some pg" "leaf_rep E (fs = []) es pg" using 0 t by auto
  have es: "es \<noteq> []" "top_is b (map fst es)" using 0 t fill_pos [OF E] by fastforce+
  have "lower_pos (tt_less E) (map fst es) key < length es" if "b = Some k'" for k'
    using lower_pos_bound [of "map fst es" "tt_less E" key] 0(5) [OF that] es that by auto
  then have "b = None" if "lower_pos (tt_less E) (map fst es) key = length es"
    using that by (cases b) auto
  moreover have "descend E key n (pid t) (path_of fs) S
      = Inr ((lp, lower_pos (tt_less E) (map fst es) key) # path_of fs, lower_pos (tt_less E) (map fst es) key = length es)"
    using pg leaf_page_lower [OF pg(2), of key] by (simp add: n t load_def P [symmetric] Let_def leaf_rep_def)
  ultimately show ?case by (intro exI [of _ "[]"] exI [of _ lp] exI [of _ es]) (simp add: t Let_def)
next
  case (Suc h)
  obtain p ks cs where t: "t = Nd p ks cs" using Suc.prems(1) by (cases t) auto
  obtain n' where n: "n = Suc n'" using Suc.prems by (cases n) auto
  obtain pg where pg: "P p = Some pg" "node_rep E (fs = []) ks (map pid cs) pg" using Suc.prems(2) t by auto
  define i where "i = lower_pos (tt_less E) ks key"
  note nl = node_lower [OF E Suc.prems(1) [unfolded t] Suc.prems(4) [unfolded t] Suc.prems(5) i_def]
  let ?l = "take i cs" and ?c = "cs ! i" and ?r = "drop (Suc i) cs"
  have cs: "cs = ?l @ ?c # ?r" using nl(1) by (simp add: id_take_nth_drop)
  let ?fs = "(p, ks, ?l, ?r) # fs"
  have "shape E (?fs = []) h (bnds b ks ! i) ?c"
    using node_kids(4) [OF E Suc.prems(1) [unfolded t] nl(1)] by simp
  moreover have "rep E P (?fs = []) ?c" using Suc.prems(2) t nl(1) by (simp add: list_all_length)
  moreover have "sorted_entries E (entries ?c)"
    using sorted_concat_nth(1) [of _ "map entries cs" i] Suc.prems(4) t nl(1) by simp
  ultimately obtain fs' lp es where ih: "let j = lower_pos (tt_less E) (map fst es) key in
      descend E key n' (pid ?c) (path_of ?fs) S = Inr ((lp, j) # path_of (fs' @ ?fs), j = length es)
      \<and> plug fs' (Lf lp es) = ?c \<and> length fs' = h
      \<and> (\<forall>e\<in>set (lft entries fs'). tt_less E (fst e) key)
      \<and> (\<forall>e\<in>set (rgt entries fs'). \<not> tt_less E (fst e) key)
      \<and> (j = length es \<longrightarrow> rgt entries fs' = [] \<and> bnds b ks ! i = None)"
    using Suc.IH [of ?fs "bnds b ks ! i" ?c n'] Suc.prems(3) n nl(4) by fastforce
  have "page_lower E key pg = i" using node_page_lower [OF pg(2)] by (simp add: i_def)
  moreover have "get_child E i pg = Inr (pid ?c)" using node_child [OF pg(2), of i] nl(1) by simp
  ultimately have step: "descend E key n (pid t) (path_of fs) S = descend E key n' (pid ?c) (path_of ?fs) S"
    using pg nl(1) by (simp add: n t load_def P [symmetric] Let_def node_rep_def path_of_def)
  show ?case
  proof (intro exI [of _ "fs' @ [(p, ks, ?l, ?r)]"] exI [of _ lp] exI [of _ es])
    have "plug [(p, ks, ?l, ?r)] ?c = t" using cs t by simp
    then show "let j = lower_pos (tt_less E) (map fst es) key in
      descend E key n (pid t) (path_of fs) S = Inr ((lp, j) # path_of ((fs' @ [(p, ks, ?l, ?r)]) @ fs), j = length es)
      \<and> plug (fs' @ [(p, ks, ?l, ?r)]) (Lf lp es) = t \<and> length (fs' @ [(p, ks, ?l, ?r)]) = Suc h
      \<and> (\<forall>e\<in>set (lft entries (fs' @ [(p, ks, ?l, ?r)])). tt_less E (fst e) key)
      \<and> (\<forall>e\<in>set (rgt entries (fs' @ [(p, ks, ?l, ?r)])). \<not> tt_less E (fst e) key)
      \<and> (j = length es \<longrightarrow> rgt entries (fs' @ [(p, ks, ?l, ?r)]) = [] \<and> b = None)"
      using ih step nl(2,3,5) by (auto simp: Let_def plug_append lft_append rgt_append)
  qed
qed

section \<open>The invariant\<close>

text \<open>The allocator: used and empty pages have numbers up to the page counter and are disjoint.\<close>

definition alloc_ok :: "'k bpt \<Rightarrow> bool" where
  "alloc_ok S \<longleftrightarrow> dom (bt_pages S) \<subseteq> {1..bt_total S} \<and> set (bt_free S) \<subseteq> {1..bt_total S}
     \<and> distinct (bt_free S) \<and> set (bt_free S) \<inter> dom (bt_pages S) = {}"

text \<open>\<open>tree_ok E S h t\<close>: the pages represent the tree \<open>t\<close> of height \<open>h\<close>.\<close>

definition tree_ok :: "'k tree_type \<Rightarrow> 'k bpt \<Rightarrow> nat \<Rightarrow> 'k tr \<Rightarrow> bool" where
  "tree_ok E S h t \<longleftrightarrow> bt_root S = pid t \<and> rep E (bt_pages S) True t \<and> shape E True h None t
     \<and> distinct (pids t) \<and> linked (next_of (bt_pages S)) (leaf_ids t)"

definition bpt_ok :: "'k tree_type \<Rightarrow> 'k bpt \<Rightarrow> ('k \<times> nat) list \<Rightarrow> bool" where
  "bpt_ok E S xs \<longleftrightarrow> alloc_ok S \<and> sorted_entries E xs \<and> bt_siz S = length xs
     \<and> (if xs = [] then bt_root S = 0 else \<exists>h t. tree_ok E S h t \<and> entries t = xs)"

lemma bpt_okI:
  "alloc_ok S \<Longrightarrow> sorted_entries E (entries t) \<Longrightarrow> bt_siz S = length (entries t) \<Longrightarrow> entries t \<noteq> [] \<Longrightarrow>
    tree_ok E S h t \<Longrightarrow> bpt_ok E S (entries t)"
  by (auto simp: bpt_ok_def)

lemma rep_dom: "rep E P r t \<Longrightarrow> set (pids t) \<subseteq> dom P"
  by (induction E P r t rule: rep.induct) (auto simp: list_all_iff)

lemma pid_pos: "alloc_ok S \<Longrightarrow> rep E (bt_pages S) r t \<Longrightarrow> pid t \<noteq> 0"
  using rep_dom [of E "bt_pages S" r t] pid_mem [of t] by (fastforce simp: alloc_ok_def)

text \<open>A tree has at most as many levels as there are page numbers.\<close>

lemma height_bound:
  assumes "ok_type E" "alloc_ok S" "rep E (bt_pages S) r t" "shape E r' h b t" "distinct (pids t)"
  shows "h < bt_total S"
proof -
  have "set (pids t) \<subseteq> {1..bt_total S}"
    using rep_dom [OF assms(3)] assms(2) unfolding alloc_ok_def by blast
  then have "card (set (pids t)) \<le> bt_total S" using card_mono [of "{1..bt_total S}"] by fastforce
  then have "length (pids t) \<le> bt_total S" using assms(5) by (simp add: distinct_card)
  then show ?thesis using shape_pids [OF assms(1,4)] by simp
qed

text \<open>
  Finding a position: a leaf in its context, with the index of the key in the leaf; every
  entry before it is less than the key, every entry from it on is not.
\<close>

lemma find_position_ok:
  assumes E: "ok_type E" and ok: "bpt_ok E S xs" and ne: "xs \<noteq> []"
  obtains h fs lp es j where
    "find_position E key S = Inr ((lp, j) # path_of fs, j = length es)"
    "tree_ok E S h (plug fs (Lf lp es))" "length fs = h" "xs = lft entries fs @ es @ rgt entries fs"
    "j = lower_pos (tt_less E) (map fst es) key" "j = length es \<longrightarrow> rgt entries fs = []"
    "lower_pos (\<lambda>e k. tt_less E (fst e) k) xs key = length (lft entries fs) + j"
proof -
  obtain h t where t: "tree_ok E S h t" "entries t = xs" using ok ne by (auto simp: bpt_ok_def)
  have a: "alloc_ok S" and so: "sorted_entries E xs" using ok by (simp_all add: bpt_ok_def)
  have r: "rep E (bt_pages S) True t" "shape E True h None t" "distinct (pids t)" "bt_root S = pid t"
    using t by (simp_all add: tree_ok_def)
  have h: "h < Suc (bt_total S)" using height_bound [OF E a r(1,2,3)] by simp
  have "\<exists>fs lp es. let j = lower_pos (tt_less E) (map fst es) key in
      descend E key (Suc (bt_total S)) (pid t) [] S = Inr ((lp, j) # path_of fs, j = length es)
      \<and> plug fs (Lf lp es) = t \<and> length fs = h
      \<and> (\<forall>e\<in>set (lft entries fs). tt_less E (fst e) key)
      \<and> (\<forall>e\<in>set (rgt entries fs). \<not> tt_less E (fst e) key)
      \<and> (j = length es \<longrightarrow> rgt entries fs = [])"
    using descend_ok [OF E refl, of "[]" h None t S "Suc (bt_total S)" key] r(1,2) h so t(2)
    by (simp del: descend.simps)
  then obtain fs lp es where d: "let j = lower_pos (tt_less E) (map fst es) key in
      descend E key (Suc (bt_total S)) (pid t) [] S = Inr ((lp, j) # path_of fs, j = length es)
      \<and> plug fs (Lf lp es) = t \<and> length fs = h
      \<and> (\<forall>e\<in>set (lft entries fs). tt_less E (fst e) key)
      \<and> (\<forall>e\<in>set (rgt entries fs). \<not> tt_less E (fst e) key)
      \<and> (j = length es \<longrightarrow> rgt entries fs = [])" by blast
  define j where "j = lower_pos (tt_less E) (map fst es) key"
  have root: "bt_root S \<noteq> 0" using pid_pos [OF a r(1)] r(4) by simp
  have f: "find_position E key S = Inr ((lp, j) # path_of fs, j = length es)"
    using d root r(4) by (simp add: find_position_def path_of_def Let_def j_def)
  have p: "plug fs (Lf lp es) = t" using d by (simp add: Let_def)
  have xs: "xs = lft entries fs @ es @ rgt entries fs" using t(2) p entries_plug [of fs "Lf lp es"] by simp
  have end': "j = length es \<Longrightarrow> rgt entries fs = []" using d by (simp add: Let_def j_def)
  have "takeWhile (\<lambda>e. tt_less E (fst e) key) (es @ rgt entries fs) = takeWhile (\<lambda>e. tt_less E (fst e) key) es"
  proof (cases "j = length es")
    case True
    then show ?thesis using end' by simp
  next
    case False
    then obtain e where "e \<in> set es" "\<not> tt_less E (fst e) key"
      using lower_pos_at [of "tt_less E" "map fst es" key] lower_pos_le [of "tt_less E" "map fst es" key]
      by (metis j_def le_neq_implies_less length_map nth_map nth_mem)
    then show ?thesis using takeWhile_append1 [where P = "\<lambda>e. tt_less E (fst e) key"] by simp
  qed
  moreover have "\<forall>e\<in>set (lft entries fs). tt_less E (fst e) key" using d by (simp add: Let_def)
  ultimately have "lower_pos (\<lambda>e k. tt_less E (fst e) k) xs key = length (lft entries fs) + j"
    by (simp add: xs lower_pos_def takeWhile_append2 j_def takeWhile_map o_def)
  then show thesis using that [of lp j fs es h] f t(1) p xs end' j_def d by (simp add: Let_def)
qed

end
