(* ===== verification/Bpt_Search.thy ===== *)
theory Bpt_Search
  imports Bpt_Tree
begin

text \<open>
  Reading the B+ tree: on pages that represent a tree, \<^verbatim>\<open>Get\<close> answers what the chain of leaves
  answers, and an iterator that starts at \<^verbatim>\<open>lower_bound\<close> visits the entries of the chain in
  order.
\<close>

definition index_of :: "('k \<times> nat) list \<Rightarrow> ('k, nat) index" where
  "index_of xs = \<lparr>chain = xs, siz = length xs\<rparr>"

lemma index_of_simps [simp]: "chain (index_of xs) = xs" "index.siz (index_of xs) = length xs"
  by (simp_all add: index_of_def)

lemma bpt_ok_inv: "bpt_ok E S xs \<Longrightarrow> idx_inv (tt_less E) (index_of xs)"
  by (simp add: bpt_ok_def idx_inv_def)

lemma find_empty: "bpt_ok E S [] \<Longrightarrow> find_position E key S = Inr ([], True)"
  by (simp add: bpt_ok_def find_position_def)

text \<open>The leaf in a tree is on its page.\<close>

lemma plugged_leaf:
  assumes "tree_ok E S h (plug fs (Lf lp es))"
  obtains pg where "bt_pages S lp = Some pg" "leaf_rep E (fs = []) es pg"
  using assms rep_plug [of E "bt_pages S" fs "Lf lp es"] unfolding tree_ok_def by auto

lemma leaf_entry:
  assumes "leaf_rep E r es pg" "j < length es"
  shows "get_entry j pg = Inr (es ! j)" "j < length (pg_data pg)"
proof -
  have t: "take (length es) (pg_data pg) = es" using assms(1) by (simp add: leaf_rep_def)
  then have "length es \<le> length (pg_data pg)" by (metis length_take min.absorb_iff2 min.commute)
  moreover have "pg_data pg ! j = es ! j" using t assms(2) by (metis nth_take)
  ultimately show "get_entry j pg = Inr (es ! j)" "j < length (pg_data pg)"
    using assms(2) by (auto simp: get_entry_def)
qed

lemma entry_at_leaf:
  assumes "tree_ok E S h (plug fs (Lf lp es))" "j < length es"
  shows "entry_at ((lp, j) # path) S = Inr (es ! j)"
proof -
  obtain pg where "bt_pages S lp = Some pg" "leaf_rep E (fs = []) es pg" using plugged_leaf [OF assms(1)] .
  then show ?thesis using leaf_entry(1) [OF _ assms(2)] by (simp add: entry_at_def load_def)
qed

section \<open>Looking up\<close>

lemma bpt_get_spec:
  assumes "ok_type E" "bpt_ok E S xs"
  shows "bpt_get E key S = Inr (idx_get (tt_less E) key (index_of xs))"
proof (cases "xs = []")
  case True
  then show ?thesis using find_empty [OF assms(2) [unfolded True]] by (simp add: bpt_get_def idx_get_def idx_entry_def)
next
  case False
  obtain h fs lp es j where f: "find_position E key S = Inr ((lp, j) # path_of fs, j = length es)"
    and t: "tree_ok E S h (plug fs (Lf lp es))" "length fs = h" and xs: "xs = lft entries fs @ es @ rgt entries fs"
    and j: "j = lower_pos (tt_less E) (map fst es) key" "j = length es \<longrightarrow> rgt entries fs = []"
    and low: "lower_pos (\<lambda>e k. tt_less E (fst e) k) xs key = length (lft entries fs) + j"
    by (rule find_position_ok [OF assms False, of key])
  show ?thesis
  proof (cases "j = length es")
    case True
    then show ?thesis using f xs j(2) low by (simp add: bpt_get_def idx_get_def idx_entry_def idx_lower_def)
  next
    case False
    then have jl: "j < length es" using j(1) lower_pos_le [of "tt_less E" "map fst es" key] by simp
    have "xs ! (length (lft entries fs) + j) = es ! j" using xs jl by (simp add: nth_append)
    then show ?thesis using f False entry_at_leaf [OF t(1) jl] xs jl low
      by (simp add: bpt_get_def idx_get_def idx_entry_def idx_lower_def split: prod.splits)
  qed
qed

section \<open>Iterating\<close>

fun leaves :: "'k tr \<Rightarrow> (nat \<times> ('k \<times> nat) list) list" where
  "leaves (Lf p es) = [(p, es)]"
| "leaves (Nd p ks cs) = concat (map leaves cs)"

definition flat :: "(nat \<times> ('k \<times> nat) list) list \<Rightarrow> ('k \<times> nat) list" where
  "flat ls = concat (map snd ls)"

lemma flat_simps [simp]: "flat [] = []" "flat (l # ls) = snd l @ flat ls" "flat (ls @ ls') = flat ls @ flat ls'"
  by (simp_all add: flat_def)

lemma flat_concat: "flat (concat lss) = concat (map flat lss)"
  by (induction lss) simp_all

lemma flat_leaves: "flat (leaves t) = entries t"
  by (induction t) (auto simp: flat_concat o_def intro!: arg_cong [of _ _ concat])

lemma fst_leaves: "map fst (leaves t) = leaf_ids t"
  by (induction t) (auto simp: map_concat o_def intro!: arg_cong [of _ _ concat])

lemma leaves_plug: "leaves (plug fs t) = lft leaves fs @ leaves t @ rgt leaves fs"
  by (induction fs t rule: plug.induct) auto

lemma flat_lft: "flat (lft leaves fs) = lft entries fs"
  by (induction fs) (auto simp: flat_concat o_def flat_leaves)

lemma mem_concat_nth: "x \<in> set (concat (map f cs)) \<Longrightarrow> \<exists>i < length cs. x \<in> set (f (cs ! i))"
  by simp (metis in_set_conv_nth)

lemma leaf_pages:
  assumes "ok_type E"
  shows "shape E r h b t \<Longrightarrow> rep E P r t \<Longrightarrow> (p, es) \<in> set (leaves t) \<Longrightarrow>
    es \<noteq> [] \<and> (\<exists>pg r'. P p = Some pg \<and> leaf_rep E r' es pg)"
proof (induction t arbitrary: r h b)
  case (Lf q fs)
  then show ?case using fill_pos [OF assms, of r "length fs"] by auto
next
  case (Nd q ks cs)
  obtain h' where h: "h = Suc h'" using Nd.prems by (cases h) auto
  obtain i where i: "i < length cs" "(p, es) \<in> set (leaves (cs ! i))"
    using Nd.prems(3) mem_concat_nth [of "(p, es)" leaves cs] by auto
  show ?case
    using Nd.IH [OF nth_mem [OF i(1)] node_kids(4) [OF assms Nd.prems(1) [unfolded h] i(1)] _ i(2)] Nd.prems(2) i(1)
    by (simp add: list_all_length)
qed

text \<open>The position of an iterator in the chain of leaves.\<close>

definition it_at :: "(nat \<times> ('k \<times> nat) list) list \<Rightarrow> nat \<Rightarrow> (nat \<times> nat) option \<Rightarrow> bool" where
  "it_at L m it \<longleftrightarrow> (case it of None \<Rightarrow> length (flat L) \<le> m
     | Some (p, i) \<Rightarrow> \<exists>L1 es L2. L = L1 @ (p, es) # L2 \<and> i < length es \<and> m = length (flat L1) + i)"

definition leaves_ok :: "'k tree_type \<Rightarrow> 'k bpt \<Rightarrow> (nat \<times> ('k \<times> nat) list) list \<Rightarrow> bool" where
  "leaves_ok E S L \<longleftrightarrow> linked (next_of (bt_pages S)) (map fst L) \<and>
     (\<forall>(p, es) \<in> set L. p \<noteq> 0 \<and> es \<noteq> [] \<and> (\<exists>pg r. bt_pages S p = Some pg \<and> leaf_rep E r es pg))"

lemma tree_leaves_ok:
  assumes "ok_type E" "tree_ok E S h t" "alloc_ok S"
  shows "leaves_ok E S (leaves t)"
proof -
  have "p \<noteq> 0" if "(p, es) \<in> set (leaves t)" for p es
  proof -
    have "p \<in> set (leaf_ids t)" using that fst_leaves [of t] by (metis fst_conv image_eqI list.set_map)
    then have "p \<in> dom (bt_pages S)"
      using leaf_ids_pids [of t] rep_dom [of E "bt_pages S" True t] assms(2) unfolding tree_ok_def by blast
    then show ?thesis using assms(3) by (auto simp: alloc_ok_def)
  qed
  then show ?thesis
    using leaf_pages [OF assms(1), of True h None t "bt_pages S"] assms(2)
    unfolding tree_ok_def leaves_ok_def by (fastforce simp: fst_leaves)
qed

lemma linked_step:
  "linked f (xs @ p # ys) \<Longrightarrow> f p = (case ys of [] \<Rightarrow> 0 | q # _ \<Rightarrow> q)"
  by (cases ys) (simp_all add: linked_def successively_append_iff)

lemma bpt_next_at:
  assumes L: "leaves_ok E S L" and it: "it_at L m it"
  shows "\<exists>it'. bpt_next it S = Inr it' \<and> it_at L (Suc m) it'"
proof (cases it)
  case None
  then show ?thesis using it by (simp add: bpt_next_def it_at_def)
next
  case (Some x)
  obtain p i where x: "x = (p, i)" by (cases x)
  obtain L1 es L2 where l: "L = L1 @ (p, es) # L2" "i < length es" "m = length (flat L1) + i"
    using it by (auto simp: it_at_def Some x)
  obtain pg r where pg: "bt_pages S p = Some pg" "leaf_rep E r es pg"
    using L l(1) by (auto simp: leaves_ok_def)
  have cnt: "pg_count pg = length es" using pg(2) by (simp add: leaf_rep_def)
  show ?thesis
  proof (cases "i + 1 = length es")
    case False
    then have "it_at L (Suc m) (Some (p, i + 1))" using l by (force simp: it_at_def)
    then show ?thesis using False pg(1) cnt by (simp add: bpt_next_def Some x load_def)
  next
    case True
    have n: "pg_next pg = (case map fst L2 of [] \<Rightarrow> 0 | q # _ \<Rightarrow> q)"
      using linked_step [of "next_of (bt_pages S)" "map fst L1" p "map fst L2"] L l(1) pg(1)
      by (simp add: leaves_ok_def next_of_def)
    show ?thesis
    proof (cases L2)
      case Nil
      then have "it_at L (Suc m) None" using l True by (simp add: it_at_def)
      then show ?thesis using True Nil n pg(1) cnt by (simp add: bpt_next_def Some x load_def)
    next
      case (Cons y L3)
      obtain q fs where y: "y = (q, fs)" by (cases y)
      have q: "q \<noteq> 0" "fs \<noteq> []" using L l(1) Cons y by (auto simp: leaves_ok_def)
      have "it_at L (Suc m) (Some (q, 0))"
        unfolding it_at_def option.case prod.case using l True Cons y q
        by (intro exI [of _ "L1 @ [(p, es)]"] exI [of _ fs] exI [of _ L3]) simp
      then show ?thesis using True Cons y n q pg(1) cnt by (simp add: bpt_next_def Some x load_def)
    qed
  qed
qed

text \<open>The loop of a client: \<open>n\<close> times \<^verbatim>\<open>++it\<close>, then \<^verbatim>\<open>GetKey\<close> and \<^verbatim>\<open>GetValue\<close>.\<close>

fun bpt_advance :: "nat \<Rightarrow> (nat \<times> nat) option \<Rightarrow> 'k bpt \<Rightarrow> (nat \<times> nat) option result" where
  "bpt_advance 0 it S = Inr it"
| "bpt_advance (Suc n) it S = rbind (bpt_next it S) (\<lambda>it'. bpt_advance n it' S)"

definition bpt_entry :: "(nat \<times> nat) option \<Rightarrow> 'k bpt \<Rightarrow> ('k \<times> nat) option result" where
  "bpt_entry it S = (case it of None \<Rightarrow> Inr None
     | Some (p, i) \<Rightarrow> rbind (load p S) (\<lambda>pg. rbind (get_entry i pg) (\<lambda>e. Inr (Some e))))"

lemma bpt_advance_at:
  assumes "leaves_ok E S L"
  shows "it_at L m it \<Longrightarrow> \<exists>it'. bpt_advance n it S = Inr it' \<and> it_at L (m + n) it'"
proof (induction n arbitrary: m it)
  case (Suc n)
  obtain it1 where "bpt_next it S = Inr it1" "it_at L (Suc m) it1" using bpt_next_at [OF assms Suc.prems] by blast
  then show ?case using Suc.IH [of "Suc m" it1] by simp
qed simp

lemma bpt_entry_at:
  assumes "leaves_ok E S L" "it_at L m it"
  shows "bpt_entry it S = Inr (idx_entry m (index_of (flat L)))"
proof (cases it)
  case None
  then show ?thesis using assms(2) by (simp add: bpt_entry_def it_at_def idx_entry_def)
next
  case (Some x)
  obtain p i where x: "x = (p, i)" by (cases x)
  obtain L1 es L2 where l: "L = L1 @ (p, es) # L2" "i < length es" "m = length (flat L1) + i"
    using assms(2) by (auto simp: it_at_def Some x)
  obtain pg r where pg: "bt_pages S p = Some pg" "leaf_rep E r es pg"
    using assms(1) l(1) by (auto simp: leaves_ok_def)
  show ?thesis using l pg(1) leaf_entry(1) [OF pg(2) l(2)]
    by (simp add: bpt_entry_def Some x load_def idx_entry_def nth_append)
qed

text \<open>
  An iterator that \<^verbatim>\<open>lower_bound\<close> returns, after \<open>n\<close> steps of \<^verbatim>\<open>++\<close>, stands at the entry of
  the sorted chain that comes \<open>n\<close> places behind the first one not less than the key, and is
  the end behind the last one. No step reads outside a page.
\<close>
theorem iterators_walk_the_chain:
  assumes "ok_type E" "bpt_ok E S xs"
  shows "rbind (bpt_lower E key S) (\<lambda>it. rbind (bpt_advance n it S) (\<lambda>it'. bpt_entry it' S))
    = Inr (idx_entry (idx_lower (tt_less E) key (index_of xs) + n) (index_of xs))"
proof (cases "xs = []")
  case True
  have "bpt_advance n None S = Inr None"
    by (induction n) (simp_all add: bpt_next_def)
  then show ?thesis using True find_empty [OF assms(2) [unfolded True]] by (simp add: bpt_lower_def bpt_entry_def idx_entry_def)
next
  case False
  obtain h fs lp es j where f: "find_position E key S = Inr ((lp, j) # path_of fs, j = length es)"
    and t: "tree_ok E S h (plug fs (Lf lp es))" "length fs = h" and xs: "xs = lft entries fs @ es @ rgt entries fs"
    and j: "j = lower_pos (tt_less E) (map fst es) key" "j = length es \<longrightarrow> rgt entries fs = []"
    and low: "lower_pos (\<lambda>e k. tt_less E (fst e) k) xs key = length (lft entries fs) + j"
    by (rule find_position_ok [OF assms False, of key])
  define L where "L = leaves (plug fs (Lf lp es))"
  have L: "leaves_ok E S L" using tree_leaves_ok [OF assms(1) t(1)] assms(2) by (simp add: bpt_ok_def L_def)
  have fl: "flat L = xs" by (simp add: L_def flat_leaves entries_plug xs)
  obtain it where it: "bpt_lower E key S = Inr it" "it_at L (idx_lower (tt_less E) key (index_of xs)) it"
  proof (cases "j = length es")
    case True
    then have "it_at L (idx_lower (tt_less E) key (index_of xs)) None"
      using xs j(2) low by (simp add: it_at_def fl idx_lower_def)
    then show thesis using that f True by (simp add: bpt_lower_def)
  next
    case False
    then have jl: "j < length es" using j(1) lower_pos_le [of "tt_less E" "map fst es" key] by simp
    have "it_at L (idx_lower (tt_less E) key (index_of xs)) (Some (lp, j))"
      unfolding it_at_def idx_lower_def option.case prod.case using jl low
      by (intro exI [of _ "lft leaves fs"] exI [of _ es] exI [of _ "rgt leaves fs"])
        (simp add: L_def leaves_plug flat_lft)
    then show thesis using that f False by (simp add: bpt_lower_def)
  qed
  obtain it' where "bpt_advance n it S = Inr it'" "it_at L (idx_lower (tt_less E) key (index_of xs) + n) it'"
    using bpt_advance_at [OF L it(2)] by blast
  then show ?thesis using it(1) bpt_entry_at [OF L] by (simp add: fl)
qed

section \<open>A tree of three pages\<close>

definition three_keys :: "nat tree_type" where
  "three_keys = \<lparr>tt_less = (<), tt_max = 3, tt_key = 0,
     tt_stale = \<lparr>pg_next = 0, pg_leaf = False, pg_internal = False, pg_root = False, pg_count = 0,
       pg_data = [(0, 0), (0, 0), (0, 0)]\<rparr>\<rparr>"

definition small_tree :: "nat bpt" where
  "small_tree = \<lparr>bt_pages = [
       1 \<mapsto> \<lparr>pg_next = 2, pg_leaf = True, pg_internal = False, pg_root = False, pg_count = 2,
         pg_data = [(1, 10), (2, 20), (0, 0)]\<rparr>,
       2 \<mapsto> \<lparr>pg_next = 0, pg_leaf = True, pg_internal = False, pg_root = False, pg_count = 3,
         pg_data = [(5, 50), (6, 60), (7, 70)]\<rparr>,
       3 \<mapsto> \<lparr>pg_next = 0, pg_leaf = False, pg_internal = False, pg_root = True, pg_count = 1,
         pg_data = [(2, 1), (0, 2), (0, 0)]\<rparr>],
     bt_free = [], bt_total = 3, bt_root = 3, bt_siz = 5\<rparr>"

definition small_entries :: "(nat \<times> nat) list" where
  "small_entries = [(1, 10), (2, 20), (5, 50), (6, 60), (7, 70)]"

lemma three_keys_ok: "ok_type three_keys"
proof -
  have "strict_weak_order ((<) :: nat \<Rightarrow> nat \<Rightarrow> bool)" by unfold_locales auto
  then show ?thesis by (simp add: ok_type_def three_keys_def)
qed

lemma small_tree_ok: "bpt_ok three_keys small_tree small_entries"
proof -
  let ?t = "Nd 3 [2] [Lf 1 [(1, 10), (2, 20)], Lf 2 [(5, 50), (6, 60), (7, 70)]] :: nat tr"
  have "alloc_ok small_tree" by (simp add: alloc_ok_def small_tree_def)
  moreover have "sorted_entries three_keys small_entries" by (simp add: three_keys_def small_entries_def)
  moreover have "tree_ok three_keys small_tree 1 ?t"
    by (simp add: tree_ok_def small_tree_def three_keys_def linked_def next_of_def leaf_rep_def
        node_rep_def ptrs_def fill_def tt_min_def bnds_def shape_node)
  moreover have e: "entries ?t = small_entries" by (simp add: small_entries_def)
  moreover have "bt_siz small_tree = length small_entries" "small_entries \<noteq> []"
    by (simp_all add: small_tree_def small_entries_def)
  ultimately show ?thesis using bpt_okI [of small_tree three_keys ?t 1] unfolding e by blast
qed

text \<open>
  On pages that represent a sorted chain of entries, \<^verbatim>\<open>Get\<close> runs through the tree without
  an error and answers as the contract of the index does on the chain.
\<close>
theorem bpt_get_refines:
  assumes "ok_type E" "bpt_ok E S xs"
  shows "bpt_get E key S = Inr (idx_get (tt_less E) key (index_of xs))"
  using assms by (rule bpt_get_spec)

lemma bpt_get_refines_witness:
  "bpt_get three_keys 5 small_tree = Inr (Some 50) \<and> bpt_get three_keys 4 small_tree = Inr None"
  using bpt_get_refines [OF three_keys_ok small_tree_ok, of 5] bpt_get_refines [OF three_keys_ok small_tree_ok, of 4]
  by (simp add: idx_get_def idx_entry_def idx_lower_def lower_pos_def three_keys_def small_entries_def)

lemma iterators_walk_the_chain_witness:
  "rbind (bpt_lower three_keys 2 small_tree)
     (\<lambda>it. rbind (bpt_advance 2 it small_tree) (\<lambda>it'. bpt_entry it' small_tree)) = Inr (Some (6, 60))"
  using iterators_walk_the_chain [OF three_keys_ok small_tree_ok, of 2 2]
  by (simp add: idx_entry_def idx_lower_def lower_pos_def three_keys_def small_entries_def)

end
