(* ===== verification/Bpt_Page_Ops.thy ===== *)
theory Bpt_Page_Ops
  imports Bpt_Tree
begin

text \<open>
  What each change of a page does to the keys and pointers it holds: the routines of
  insertion as list operations on the entries. A page of the right edge keeps one pointer more
  than keys, in the array or in \<^verbatim>\<open>p_n\<close>.
\<close>

section \<open>Changes of the array\<close>

lemma blit_run:
  "si + n \<le> length src \<Longrightarrow> di + n \<le> length dst \<Longrightarrow>
    blit src si dst di n = Inr (take di dst @ take n (drop si src) @ drop (di + n) dst)"
  by (simp add: blit_def)

lemma minus_at_run [simp]: "b \<le> a \<Longrightarrow> minus_at a b = Inr (a - b)"
  by (simp add: minus_at_def)

lemma get_entry_run [simp]: "i < length (pg_data pg) \<Longrightarrow> get_entry i pg = Inr (pg_data pg ! i)"
  by (simp add: get_entry_def)

lemma set_entry_run [simp]:
  "i < length (pg_data pg) \<Longrightarrow> set_entry i e pg = Inr (pg\<lparr>pg_data := (pg_data pg)[i := e]\<rparr>)"
  by (simp add: set_entry_def)

lemma set_key_run [simp]:
  "i < length (pg_data pg) \<Longrightarrow>
    set_key i k pg = Inr (pg\<lparr>pg_data := (pg_data pg)[i := (k, snd (pg_data pg ! i))]\<rparr>)"
  by (simp add: set_key_def)

lemma set_ptr_run [simp]:
  "i < length (pg_data pg) \<Longrightarrow>
    set_ptr i v pg = Inr (pg\<lparr>pg_data := (pg_data pg)[i := (fst (pg_data pg ! i), v)]\<rparr>)"
  by (simp add: set_ptr_def)

lemma last_key_run:
  "0 < pg_count pg \<Longrightarrow> pg_count pg \<le> length (pg_data pg) \<Longrightarrow>
    last_key pg = Inr (fst (pg_data pg ! (pg_count pg - 1)))"
  by (simp add: last_key_def Suc_le_eq)

lemma insert_in_page_run:
  assumes "pg_data pg = es @ x # rest" "pg_count pg = length es" "j \<le> length es"
  shows "insert_in_page j e pg
    = Inr (pg\<lparr>pg_data := take j es @ e # drop j es @ rest, pg_count := length es + 1\<rparr>)"
proof -
  let ?n = "length es - j"
  have b: "blit (pg_data pg) j (pg_data pg) (j + 1) ?n
      = Inr (take (j + 1) (es @ [x]) @ drop j es @ rest)"
    using assms by (cases "j = length es"; subst blit_run) (simp_all add: Suc_diff_le)
  have "(take (j + 1) (es @ [x]) @ drop j es @ rest)[j := e] = take j es @ e # drop j es @ rest"
  proof (cases "j < length es")
    case True
    then have "take (j + 1) (es @ [x]) = take j es @ [es ! j]" by (simp add: take_Suc_conv_app_nth)
    then show ?thesis using True by (simp add: list_update_append)
  next
    case False
    then show ?thesis using assms(3) by (simp add: list_update_append)
  qed
  then show ?thesis
    using assms b by (simp add: insert_in_page_def move_entries_def set_entry_def)
qed

text \<open>Splitting a full page around the new entry: the last \<^verbatim>\<open>kMinNumberOfKeysForLeaf\<close> entries move.\<close>

definition with_entry :: "nat \<Rightarrow> 'a \<Rightarrow> 'a list \<Rightarrow> 'a list" where
  "with_entry j e xs = take j xs @ e # drop j xs"

lemma length_with_entry [simp]: "length (with_entry j e xs) = Suc (length xs)"
  by (simp add: with_entry_def)

definition data_rep :: "'k tree_type \<Rightarrow> ('k \<times> nat) list \<Rightarrow> 'k bpage \<Rightarrow> bool" where
  "data_rep E es pg \<longleftrightarrow> length (pg_data pg) = tt_max E \<and> pg_count pg = length es
     \<and> (\<exists>rest. pg_data pg = es @ rest)"

lemma split_page_run:
  assumes E: "ok_type E" and pg: "pg_data pg = es" "length es = tt_max E" "pg_count pg = tt_max E"
    and fr: "length (pg_data fr) = tt_max E" and j: "j \<le> tt_max E"
  defines "c \<equiv> tt_max E + 1 - tt_min E"
  shows "\<exists>old new. split_page E rec j e q pg fr = Inr (old, new)
    \<and> data_rep E (take c (with_entry j e es)) old \<and> data_rep E (drop c (with_entry j e es)) new
    \<and> pg_leaf old = pg_leaf pg \<and> pg_root old = pg_root pg \<and> pg_next old = (if rec then pg_next pg else q)
    \<and> pg_leaf new = (\<not> rec) \<and> \<not> pg_root new
    \<and> pg_next new = (if rec then pg_next fr else pg_next pg)"
proof -
  note e = ok_typeD [OF E]
  define m where "m = tt_min E"
  define M where "M = tt_max E"
  have m: "2 \<le> m" "m < M" "c = M + 1 - m" "M - m + 1 = c" using e by (auto simp: m_def M_def c_def)
  show ?thesis
  proof (cases "j \<le> M - m")
    case True
    obtain x rest where x: "drop (M - m) es = x # rest"
      using pg(2) m by (cases "drop (M - m) es") (auto simp: M_def)
    have es: "es = take (M - m) es @ x # rest" using x by (metis append_take_drop_id)
    have len: "length (take (M - m) es) = M - m" using pg(2) m by (simp add: M_def)
    have ins: "insert_in_page j e p = Inr (p\<lparr>pg_data := take j (take (M - m) es) @ e # drop j (take (M - m) es) @ rest,
        pg_count := M - m + 1\<rparr>)" if "pg_data p = es" "pg_count p = M - m" for p
      using insert_in_page_run [of p "take (M - m) es" x rest j e] that es len True by simp
    have l: "take c (with_entry j e es) = take j (take (M - m) es) @ e # drop j (take (M - m) es)"
      using True m pg(2) by (simp add: with_entry_def M_def take_Cons' drop_take min_def Suc_diff_le)
    have r: "drop c (with_entry j e es) = x # rest"
      using True m pg(2) x by (simp add: with_entry_def M_def drop_Cons' Suc_diff_le)
    have bl: "blit es (M - m) (pg_data fr) 0 m = Inr (drop (M - m) es @ drop m (pg_data fr))"
      using pg(2) fr m by (subst blit_run) (simp_all add: M_def)
    have lr: "length (x # rest) = m" using x pg(2) m by (metis M_def diff_diff_cancel length_drop less_imp_le)
    have "data_rep E (drop c (with_entry j e es)) (p\<lparr>pg_data := drop (M - m) es @ drop m (pg_data fr)\<rparr>)"
      if "pg_count p = m" for p
      using that r x lr fr m by (auto simp: data_rep_def M_def)
    moreover have "data_rep E (take c (with_entry j e es)) (p\<lparr>pg_data := take j (take (M - m) es)
        @ e # drop j (take (M - m) es) @ rest, pg_count := M - m + 1\<rparr>)" for p
      using l lr len m True by (auto simp: data_rep_def M_def)
    ultimately show ?thesis
      using True pg bl ins m by (simp add: split_page_def Let_def copy_entries_def m_def [symmetric] M_def [symmetric])
  next
    case False
    define b where "b = M - m + 1"
    have b: "b = c" "b \<le> j" "j \<le> M" using False m j by (auto simp: b_def M_def)
    have l: "take c (with_entry j e es) = take b es"
      using b pg(2) by (simp add: with_entry_def M_def)
    have r: "drop c (with_entry j e es) = take (j - b) (drop b es) @ e # drop j es"
      using b pg(2) by (simp add: with_entry_def M_def drop_take)
    have b1: "blit es b (pg_data fr) 0 (j - b) = Inr (take (j - b) (drop b es) @ drop (j - b) (pg_data fr))"
      using pg(2) fr b m by (subst blit_run) (simp_all add: M_def)
    let ?d1 = "take (j - b) (drop b es) @ drop (j - b) (pg_data fr)"
    have jb: "length (take (j - b) (drop b es)) = j - b" "j - b < m" using b pg(2) m by (auto simp: M_def)
    have fr': "drop (j - b) (pg_data fr) = pg_data fr ! (j - b) # drop (Suc (j - b)) (pg_data fr)"
      using jb m fr by (intro Cons_nth_drop_Suc [symmetric]) (simp add: M_def)
    have up: "?d1[j - b := e] = take (j - b) (drop b es) @ e # drop (Suc (j - b)) (pg_data fr)"
      unfolding fr' using jb by (simp add: list_update_append)
    have ld: "length ?d1 = M" using jb fr m by (simp add: M_def)
    have b2: "blit es j (?d1[j - b := e]) (j - b + 1) (M - j)
        = Inr (take (j - b) (drop b es) @ e # drop j es @ drop (M - j) (drop (Suc (j - b)) (pg_data fr)))"
      unfolding up using pg(2) fr b m jb by (subst blit_run) (simp_all add: M_def Suc_diff_le)
    have "data_rep E (drop c (with_entry j e es)) (p\<lparr>pg_data := take (j - b) (drop b es) @ e # drop j es
        @ drop (M - j) (drop (Suc (j - b)) (pg_data fr))\<rparr>)" if "pg_count p = m" for p
      using that r jb pg(2) fr b m by (auto simp: data_rep_def M_def)
    moreover have "data_rep E (take c (with_entry j e es)) p" if "pg_data p = es" "pg_count p = b" for p
      using that l pg(2) b m by (auto simp: data_rep_def M_def intro: exI [of _ "drop b es"])
    ultimately show ?thesis
      using False pg fr b1 b2 b ld m jb
      by (simp add: split_page_def Let_def copy_entries_def m_def [symmetric] M_def [symmetric] b_def [symmetric] set_entry_def)
  qed
qed

section \<open>Entries of inner pages\<close>

lemma node_rep_flat:
  assumes "length ps = length ks"
  shows "node_rep E r ks ps pg \<longleftrightarrow> \<not> pg_leaf pg \<and> pg_root pg = r \<and> data_rep E (zip ks ps) pg"
proof -
  have "take (length ks) (map fst (pg_data pg)) = ks \<and> take (length ps) (ptrs pg) = ps
      \<longleftrightarrow> (\<exists>rest. pg_data pg = zip ks ps @ rest)" if "length ks \<le> length (pg_data pg)"
  proof
    assume a: "take (length ks) (map fst (pg_data pg)) = ks \<and> take (length ps) (ptrs pg) = ps"
    then have "map fst (take (length ks) (pg_data pg)) = ks" "map snd (take (length ks) (pg_data pg)) = ps"
      using that assms by (simp_all add: take_map ptrs_def)
    then have "take (length ks) (pg_data pg) = zip ks ps" by (metis zip_map_fst_snd)
    then show "\<exists>rest. pg_data pg = zip ks ps @ rest" by (metis append_take_drop_id)
  qed (use assms in \<open>auto simp: ptrs_def\<close>)
  moreover have "length ks \<le> length (pg_data pg)" if "take (length ks) (map fst (pg_data pg)) = ks"
    using that by (metis length_map length_take min.cobounded1 min.commute)
  moreover have "length ks \<le> length (pg_data pg)" if "pg_data pg = zip ks ps @ rest" for rest
    using that assms by simp
  ultimately show ?thesis using assms unfolding node_rep_def data_rep_def by auto
qed

lemma leaf_rep_data: "leaf_rep E r es pg \<longleftrightarrow> pg_leaf pg \<and> pg_root pg = r \<and> data_rep E es pg"
  unfolding leaf_rep_def data_rep_def by (metis append_eq_conv_conj append_take_drop_id)

text \<open>
  A page of the right edge has its last pointer behind the entries: in the array, or in
  \<^verbatim>\<open>p_n\<close> when the array is full.
\<close>

definition past_ptr :: "'k tree_type \<Rightarrow> 'k bpage \<Rightarrow> nat" where
  "past_ptr E pg = (if pg_count pg < tt_max E then snd (pg_data pg ! pg_count pg) else pg_next pg)"

lemma node_rep_edge:
  assumes "length ps = length ks" "length ks \<le> tt_max E"
  shows "node_rep E r ks (ps @ [q]) pg \<longleftrightarrow> node_rep E r ks ps pg \<and> past_ptr E pg = q"
proof -
  have "take (length (ps @ [q])) (ptrs pg) = ps @ [q] \<longleftrightarrow> take (length ps) (ptrs pg) = ps \<and> ptrs pg ! length ps = q"
    if "length (pg_data pg) = tt_max E"
  proof -
    have l: "length ps < length (ptrs pg)" using that assms by (simp add: ptrs_def)
    then have "take (length (ps @ [q])) (ptrs pg) = take (length ps) (ptrs pg) @ [ptrs pg ! length ps]"
      by (simp add: take_Suc_conv_app_nth)
    then show ?thesis using l by (metis append1_eq_conv)
  qed
  moreover have "ptrs pg ! length ps = past_ptr E pg" if "length (pg_data pg) = tt_max E" "pg_count pg = length ks"
    using that assms nth_ptrs [of pg "tt_max E" "length ps"] by (simp add: past_ptr_def)
  ultimately show ?thesis unfolding node_rep_def by auto
qed

lemma node_rep_edge_split:
  assumes "node_rep E r ks ps pg" "length ps = length ks + 1" "length ks \<le> tt_max E"
  shows "node_rep E r ks (butlast ps) pg" "past_ptr E pg = last ps"
    "\<exists>rest. pg_data pg = zip ks (butlast ps) @ rest" "pg_count pg = length ks" "length (pg_data pg) = tt_max E"
proof -
  have ps: "ps = butlast ps @ [last ps]" using assms(2) by (cases ps rule: rev_cases) auto
  have "node_rep E r ks (butlast ps @ [last ps]) pg" using assms(1) ps by simp
  then show n: "node_rep E r ks (butlast ps) pg" "past_ptr E pg = last ps"
    using node_rep_edge [of "butlast ps" ks E r "last ps" pg] assms(2,3) by simp_all
  then show "\<exists>rest. pg_data pg = zip ks (butlast ps) @ rest" "pg_count pg = length ks" "length (pg_data pg) = tt_max E"
    using node_rep_flat [of "butlast ps" ks E r pg] assms(2) by (auto simp: data_rep_def)
qed

lemma node_rep_edgeI:
  assumes "\<not> pg_leaf pg" "pg_root pg = r" "data_rep E (zip ks ps) pg" "past_ptr E pg = q"
    "length ps = length ks" "length ks \<le> tt_max E"
  shows "node_rep E r ks (ps @ [q]) pg"
  using assms node_rep_edge [of ps ks E r q pg] node_rep_flat [of ps ks E r pg] by simp

text \<open>Part A on a parent with room: the left page's key goes before, the new page behind.\<close>

lemma move_then_set:
  assumes "j \<le> pg_count pg"
  shows "rbind (if j < pg_count pg then move_entries (j + 1) j (pg_count pg - j) pg else Inr pg)
      (\<lambda>p3. rbind (set_entry j e p3) (\<lambda>p4. Inr (p4\<lparr>pg_count := pg_count p4 + 1\<rparr>))) = insert_in_page j e pg"
proof -
  have "move_entries (j + 1) j 0 pg = Inr pg" by (simp add: move_entries_def blit_def)
  then show ?thesis using assms by (cases "j = pg_count pg") (simp_all add: insert_in_page_def)
qed

lemma with_entry_zip:
  assumes "i < length ks" "length ps = length ks"
  shows "zip (with_entry i k ks) (with_entry (Suc i) p ps)
    = with_entry (Suc i) (ks ! i, p) (zip (ks[i := k]) ps)"
proof -
  have "take (Suc i) ps = take i ps @ [ps ! i]" "drop i ks = ks ! i # drop (Suc i) ks"
    "take (Suc i) (ks[i := k]) = take i ks @ [k]"
    using assms by (simp_all add: take_Suc_conv_app_nth Cons_nth_drop_Suc)
  then show ?thesis using assms by (simp add: with_entry_def take_zip drop_zip zip_append)
qed

lemma insert_child_run:
  assumes par: "node_rep E r ks ps par" and len: "length ps = length ks + 1" "length ks < tt_max E"
    and i: "i \<le> length ks" and kn: "i < length ks \<Longrightarrow> kn = ks ! i"
  shows "\<exists>par'. insert_child E (i + 1) k1 (kn, q) par = Inr par'
    \<and> node_rep E r (with_entry i k1 ks) (with_entry (i + 1) q ps) par'"
proof -
  obtain ps0 z where ps: "ps = ps0 @ [z]" "length ps0 = length ks" using len(1) by (cases ps rule: rev_cases) auto
  note n = node_rep_edge_split [OF par len(1) less_imp_le [OF len(2)]]
  obtain rest where rest: "pg_data par = zip ks ps0 @ rest" using n(3) ps by auto
  have lr: "length rest = tt_max E - length ks" using rest n(5) ps(2) by simp
  obtain x rest1 where x: "rest = x # rest1" using lr len(2) by (cases rest) auto
  have cnt: "pg_count par = length ks" using n(4) .
  have z: "snd x = z" using n(2) cnt len(2) rest x ps by (simp add: past_ptr_def nth_append)
  have fl: "\<not> pg_leaf par" "pg_root par = r" using par by (simp_all add: node_rep_def)
  have ld: "length (pg_data par) = tt_max E" using n(5) .
  show ?thesis
  proof (cases "i < length ks")
    case True
    define D where "D = zip (ks[i := k1]) ps0"
    have lD: "length D = length ks" using ps by (simp add: D_def)
    have "(zip ks ps0)[i := (k1, ps0 ! i)] = D"
      unfolding D_def using update_zip [of "ks" ps0 i "(k1, ps0 ! i)"] by simp
    then have d1: "(pg_data par)[i := (k1, snd (pg_data par ! i))] = D @ x # rest1"
      using True ps(2) by (simp add: rest x list_update_append nth_append)
    define p1 where "p1 = par\<lparr>pg_data := D @ x # rest1\<rparr>"
    have s1: "set_key i k1 par = Inr p1" using True len(2) ld d1 by (simp add: p1_def)
    define p2 where "p2 = (if length ks + 1 = tt_max E then p1\<lparr>pg_next := z\<rparr>
       else p1\<lparr>pg_data := D @ x # rest1[0 := (fst (rest1 ! 0), z)]\<rparr>)"
    have s2: "(if pg_count p1 + 1 = tt_max E then Inr (p1\<lparr>pg_next := z\<rparr>) else set_ptr (pg_count p1 + 1) z p1) = Inr p2"
      using lr x lD len(2) by (auto simp: p1_def p2_def cnt list_update_append nth_append)
    define R where "R = (if length ks + 1 = tt_max E then rest1 else rest1[0 := (fst (rest1 ! 0), z)])"
    have p2: "pg_data p2 = D @ x # R" "pg_count p2 = length D" "\<not> pg_leaf p2" "pg_root p2 = r"
      using lD fl cnt by (auto simp: p2_def p1_def R_def)
    define par' where "par' = p2\<lparr>pg_data := take (Suc i) D @ (kn, q) # drop (Suc i) D @ R, pg_count := length D + 1\<rparr>"
    have "insert_in_page (i + 1) (kn, q) p2 = Inr par'"
      using insert_in_page_run [OF p2(1,2), of "i + 1" "(kn, q)"] True lD by (simp add: par'_def)
    moreover have "get_entry (pg_count p1) p1 = Inr x" "pg_count p1 = length ks"
      using lD by (simp_all add: p1_def cnt nth_append)
    ultimately have "insert_child E (i + 1) k1 (kn, q) par = Inr par'"
      using s1 s2 z move_then_set [of "i + 1" p2 "(kn, q)"] p2(2) True lD len(2)
      by (cases "length ks + 1 = tt_max E"; cases "Suc i < length ks"; simp add: insert_child_def)
    moreover have "node_rep E r (with_entry i k1 ks) (with_entry (i + 1) q ps0 @ [z]) par'"
    proof (rule node_rep_edgeI)
      have "zip (with_entry i k1 ks) (with_entry (i + 1) q ps0) = take (Suc i) D @ (kn, q) # drop (Suc i) D"
        using with_entry_zip [OF True ps(2), of k1 q] kn [OF True] by (simp add: D_def with_entry_def)
      then show "data_rep E (zip (with_entry i k1 ks) (with_entry (i + 1) q ps0)) par'"
        using lD lr x True len(2) ps(2) by (auto simp: data_rep_def par'_def R_def)
      show "past_ptr E par' = z"
        using lr x lD len(2) True
        by (cases rest1) (auto simp: past_ptr_def par'_def R_def p2_def p1_def nth_append nth_Cons')
    qed (use p2 len ps lD in \<open>auto simp: par'_def\<close>)
    moreover have "with_entry (i + 1) q ps0 @ [z] = with_entry (i + 1) q ps"
      using True ps by (simp add: with_entry_def)
    ultimately show ?thesis by auto
  next
    case False
    then have i: "i = length ks" using i by simp
    define D where "D = zip ks ps0 @ [(k1, z)]"
    have lD: "length D = length ks + 1" using ps by (simp add: D_def)
    have d1: "(pg_data par)[i := (k1, snd (pg_data par ! i))] = D @ rest1"
      using ps(2) z by (simp add: rest x i D_def list_update_append nth_append)
    define p1 where "p1 = par\<lparr>pg_data := D @ rest1\<rparr>"
    have s1: "set_key i k1 par = Inr p1" using i len(2) ld d1 by (simp add: p1_def)
    have g: "get_entry (pg_count p1) p1 = Inr (k1, z)" using ps(2) by (simp add: p1_def cnt D_def nth_append)
    define par' where "par' = (if length ks + 1 = tt_max E then p1\<lparr>pg_next := q, pg_count := length ks + 1\<rparr>
       else p1\<lparr>pg_data := D @ rest1[0 := (kn, q)], pg_count := length ks + 1\<rparr>)"
    have "insert_child E (i + 1) k1 (kn, q) par = Inr par'"
    proof (cases "length ks + 1 = tt_max E")
      case True
      show ?thesis using s1 g cnt i by (simp add: insert_child_def par'_def p1_def True [symmetric])
    next
      case False
      then have "rest1 \<noteq> []" using lr x len(2) by auto
      then show ?thesis using False s1 g cnt i lD len(2)
        by (simp add: insert_child_def par'_def p1_def list_update_append)
    qed
    moreover have "node_rep E r (ks @ [k1]) (ps @ [q]) par'"
    proof (rule node_rep_edgeI)
      show "data_rep E (zip (ks @ [k1]) ps) par'"
        using lD lr x len(2) ps by (auto simp: data_rep_def par'_def p1_def D_def)
      show "past_ptr E par' = q"
        using lr x lD len(2) by (cases rest1) (auto simp: past_ptr_def par'_def p1_def nth_append)
    qed (use fl len ps lD in \<open>auto simp: par'_def p1_def\<close>)
    moreover have "ks @ [k1] = with_entry i k1 ks" "ps @ [q] = with_entry (i + 1) q ps"
      using i len(1) by (simp_all add: with_entry_def)
    ultimately show ?thesis by auto
  qed
qed


text \<open>Part B on a full parent: the loop copies from behind, with the new entry at its place.\<close>

lemma fill_down_run:
  assumes j: "0 < j" "j \<le> length D" and old: "pg_data old = D"
  shows "dest \<le> Suc t \<Longrightarrow> t \<le> length D \<Longrightarrow> dest \<le> length (pg_data new) \<Longrightarrow>
    (if processed then t = src \<and> t < j else t = Suc src \<and> j \<le> t) \<Longrightarrow>
    fill_down j e old dest src processed new
      = Inr (new\<lparr>pg_data := drop (Suc t - dest) (take (Suc t) (with_entry j e D)) @ drop dest (pg_data new)\<rparr>)"
proof (induction dest arbitrary: src processed t new)
  case 0
  then show ?case by (simp add: with_entry_def)
next
  case (Suc d)
  let ?L = "with_entry j e D"
  define x where "x = ?L ! t"
  let ?new = "new\<lparr>pg_data := (pg_data new)[d := x]\<rparr>"
  have tl: "t < length ?L" using Suc.prems by simp
  have dd: "drop d ((pg_data new)[d := x]) = x # drop (Suc d) (pg_data new)"
    using Suc.prems(3) by (metis Cons_nth_drop_Suc Suc_le_lessD drop_update_cancel length_list_update lessI nth_list_update_eq)
  have res: "drop (Suc t - Suc d) (take (Suc t) ?L) @ drop (Suc d) (pg_data new)
      = drop (t - d) (take t ?L) @ drop d ((pg_data new)[d := x])"
    using Suc.prems(1,2) unfolding dd take_Suc_conv_app_nth [OF tl] x_def [symmetric] by simp
  have rest: "fill_down j e old d s b ?new = Inr (?new\<lparr>pg_data := drop (t - d) (take t ?L) @ drop d ((pg_data new)[d := x])\<rparr>)"
    if "0 < d \<Longrightarrow> if b then t - 1 = s \<and> t - 1 < j else t - 1 = Suc s \<and> j \<le> t - 1" for s b
  proof (cases d)
    case 0
    then show ?thesis by simp
  next
    case (Suc d')
    then have "Suc (t - 1) = t" using Suc.prems(1) by simp
    then show ?thesis using Suc.IH [of "t - 1" ?new b s] that Suc.prems Suc by simp
  qed
  show ?case
  proof (cases "\<not> processed \<and> j = src + 1")
    case True
    then have "t = j" "x = e" using Suc.prems(4) j by (auto simp: x_def with_entry_def nth_append)
    then show ?thesis using True rest [of True src] Suc.prems(1-3) j unfolding res by simp
  next
    case False
    have src: "src < length D" "D ! src = x"
      using False Suc.prems j by (auto simp: x_def with_entry_def nth_append nth_Cons' split: if_splits)
    then show ?thesis using False rest [of processed "src - 1"] Suc.prems j old
      unfolding res by (auto split: if_splits)
  qed
qed

lemma split_edge_run:
  assumes E: "ok_type E" and old: "node_rep E r ks ps old"
    and len: "length ks = tt_max E" "length ps = length ks + 1"
    and fr: "length (pg_data fr) = tt_max E"
    and i: "i \<le> length ks" and kn: "i < length ks \<Longrightarrow> kn = ks ! i"
  defines "c \<equiv> tt_max E + 1 - tt_min E"
  shows "\<exists>old' new. split_edge E (i + 1) k1 (kn, q) old fr = Inr (old', new)
    \<and> node_rep E r (take c (with_entry i k1 ks)) (take c (with_entry (i + 1) q ps)) old'
    \<and> node_rep E False (drop c (with_entry i k1 ks)) (drop c (with_entry (i + 1) q ps)) new"
proof -
  note e = ok_typeD [OF E]
  define m where "m = tt_min E"
  define M where "M = tt_max E"
  have m: "2 \<le> m" "m < M" "c = M + 1 - m" "M - (m - 1) = c" "c \<le> M" using e by (auto simp: m_def M_def c_def)
  obtain ps0 z where ps: "ps = ps0 @ [z]" "length ps0 = length ks" using len(2) by (cases ps rule: rev_cases) auto
  have n: "pg_data old = zip ks ps0" "pg_next old = z" "pg_count old = M"
    using node_rep_edge_split [OF old len(2)] ps len(1) by (auto simp: past_ptr_def M_def)
  have fl: "\<not> pg_leaf old" "pg_root old = r" using old by (simp_all add: node_rep_def)
  show ?thesis
  proof (cases "i = length ks")
    case True
    define nd where "nd = drop c (zip ks ps0) @ (k1, z) # drop m (pg_data fr)"
    have b: "blit (pg_data old) c (pg_data fr) 0 (m - 1)
        = Inr (drop c (zip ks ps0) @ drop (m - 1) (pg_data fr))"
      using n(1) len(1) ps(2) fr m by (subst blit_run) (simp_all add: M_def)
    have lc: "length (drop c (zip ks ps0)) = m - 1" using len(1) ps(2) m by (simp add: M_def)
    have dr: "drop (m - 1) (pg_data fr) = pg_data fr ! (m - 1) # drop m (pg_data fr)"
      using fr m Cons_nth_drop_Suc [of "m - 1" "pg_data fr"] by (simp add: M_def)
    have u: "(drop c (zip ks ps0) @ drop (m - 1) (pg_data fr))[m - 1 := (k1, z)] = nd"
      unfolding dr nd_def using lc by (simp add: list_update_append)
    have lnd: "length nd = M" using lc fr m by (simp add: nd_def M_def)
    define new where "new = fr\<lparr>pg_leaf := False, pg_internal := True, pg_root := False,
      pg_data := nd[m := (fst (nd ! m), q)], pg_count := m\<rparr>"
    have "split_edge E (i + 1) k1 (kn, q) old fr = Inr (old\<lparr>pg_count := c\<rparr>, new)"
      using True len(1) n(2,3) b u m lnd lc fr
      by (simp add: split_edge_def Let_def m_def [symmetric] M_def [symmetric] copy_entries_def new_def)
    moreover have "node_rep E r (take c (ks @ [k1])) (take c ps) (old\<lparr>pg_count := c\<rparr>)"
      using fl n(1) len(1) ps m
      by (subst node_rep_flat) (auto simp: data_rep_def M_def take_zip [symmetric] intro!: exI [of _ "drop c (zip ks ps0)"])
    moreover have "node_rep E False (drop c (ks @ [k1])) (drop c ps @ [q]) new"
    proof (rule node_rep_edgeI)
      have "take m nd = drop c (zip ks ps0) @ [(k1, z)]" using lc m by (simp add: nd_def)
      moreover have "drop c (zip ks ps0) @ [(k1, z)] = zip (drop c (ks @ [k1])) (drop c ps)"
        using ps len(1) m by (simp add: drop_zip M_def)
      moreover have "nd[m := x] = take m nd @ drop m (nd[m := x])" for x by (metis append_take_drop_id take_update_cancel order_refl)
      ultimately show "data_rep E (zip (drop c (ks @ [k1])) (drop c ps)) new"
        using lnd len(1) ps m unfolding data_rep_def new_def by (auto simp: M_def)
      show "past_ptr E new = q" using m lnd by (simp add: past_ptr_def new_def M_def)
    qed (use len ps m in \<open>auto simp: new_def M_def\<close>)
    moreover have "ks @ [k1] = with_entry i k1 ks" "take c ps = take c (with_entry (i + 1) q ps)"
      "drop c ps @ [q] = drop c (with_entry (i + 1) q ps)"
      using True len m by (simp_all add: with_entry_def M_def)
    ultimately show ?thesis by auto
  next
    case False
    then have il: "i < length ks" using i by simp
    let ?j = "i + 1"
    define D where "D = zip (ks[i := k1]) ps0"
    define L where "L = with_entry ?j (kn, q) D"
    have lD: "length D = M" using ps len(1) by (simp add: D_def M_def)
    have Lz: "L = zip (with_entry i k1 ks) (with_entry ?j q ps0)"
      using with_entry_zip [OF il ps(2), of k1 q] kn [OF il] by (simp add: L_def D_def)
    have "(zip ks ps0)[i := (k1, ps0 ! i)] = D"
      unfolding D_def using update_zip [of "ks" ps0 i "(k1, ps0 ! i)"] by simp
    then have s1: "set_key i k1 old = Inr (old\<lparr>pg_data := D\<rparr>)"
      using il n(1) ps(2) by simp
    define o1 where "o1 = old\<lparr>pg_data := D\<rparr>"
    define fd where "fd = (pg_data fr)[m := (fst (pg_data fr ! m), z)]"
    define n1 where "n1 = fr\<lparr>pg_leaf := False, pg_internal := True, pg_root := False, pg_data := fd\<rparr>"
    have f1: "fill_down ?j (kn, q) o1 m (M - 1) False n1
        = Inr (n1\<lparr>pg_data := drop c L @ drop m fd\<rparr>)"
      using fill_down_run [of ?j D o1 m M n1 False "M - 1" "(kn, q)"] il len(1) lD m fr
      by (simp add: o1_def n1_def fd_def L_def M_def)
    define o2 where "o2 = (if ?j \<le> M - m then o1\<lparr>pg_data := take ?j D @ (kn, q) # drop ?j (take (M - m) D) @ drop c D\<rparr> else o1)"
    have f2: "(if ?j \<le> M - m then rbind (move_entries (?j + 1) ?j (M - m - ?j) o1) (set_entry ?j (kn, q)) else Inr o1) = Inr o2"
    proof (cases "?j \<le> M - m")
      case True
      have "blit D ?j D (?j + 1) (M - m - ?j) = Inr (take (?j + 1) D @ drop ?j (take (M - m) D) @ drop c D)"
      proof (cases "M - m - ?j = 0")
        case True
        then have "c = ?j + 1" using \<open>?j \<le> M - m\<close> m by simp
        then show ?thesis using True by (simp add: blit_def)
      next
        case False
        then have "Suc (Suc (M - Suc m)) = c" using m by simp
        then show ?thesis using True lD m by (subst blit_run) (simp_all add: drop_take)
      qed
      moreover have "(take (?j + 1) D @ w)[?j := (kn, q)] = take ?j D @ (kn, q) # w" for w
        using True lD m by (simp add: take_Suc_conv_app_nth list_update_append)
      ultimately show ?thesis using True lD m by (simp add: move_entries_def o1_def o2_def)
    qed (simp add: o2_def)
    define new where "new = n1\<lparr>pg_data := drop c L @ drop m fd, pg_count := m\<rparr>"
    have "split_edge E ?j k1 (kn, q) old fr = Inr (o2\<lparr>pg_count := c\<rparr>, new)"
    proof -
      have "pg_next o1 = z" "set_ptr m z (fr\<lparr>pg_leaf := False, pg_internal := True, pg_root := False\<rparr>) = Inr n1"
        using n(2) m fr by (simp_all add: o1_def n1_def fd_def M_def)
      then show ?thesis using il len(1) n(3) m s1 f1 f2
        by (cases "?j \<le> M - m") (simp_all add: split_edge_def Let_def m_def [symmetric] M_def [symmetric] o1_def [symmetric] new_def)
    qed
    moreover have "node_rep E r (take c (with_entry i k1 ks)) (take c (with_entry ?j q ps0)) (o2\<lparr>pg_count := c\<rparr>)"
    proof -
      have "\<exists>rest. pg_data o2 = take c L @ rest"
      proof (cases "?j \<le> M - m")
        case True
        then have "take c L = take ?j D @ (kn, q) # drop ?j (take (M - m) D)"
          using lD m by (simp add: L_def with_entry_def take_Cons' drop_take)
        then show ?thesis using True by (simp add: o2_def)
      next
        case False
        then have "take c L = take c D" using lD m il len(1) by (simp add: L_def with_entry_def M_def)
        then show ?thesis using False by (simp add: o2_def o1_def) (metis append_take_drop_id)
      qed
      moreover have "length (pg_data o2) = M" using lD m by (auto simp: o2_def o1_def)
      ultimately show ?thesis using fl len(1) ps m
        by (subst node_rep_flat) (auto simp: data_rep_def M_def Lz take_zip o2_def o1_def)
    qed
    moreover have "node_rep E False (drop c (with_entry i k1 ks)) (drop c (with_entry ?j q ps0) @ [z]) new"
    proof (rule node_rep_edgeI)
      have "length (drop c L) = m" using lD m by (simp add: L_def)
      then show "data_rep E (zip (drop c (with_entry i k1 ks)) (drop c (with_entry ?j q ps0))) new"
        using fr m len(1) ps by (simp add: data_rep_def new_def Lz drop_zip fd_def M_def)
      show "past_ptr E new = z" using m lD fr
        by (simp add: past_ptr_def new_def M_def nth_append L_def fd_def)
    qed (use len ps m in \<open>auto simp: new_def n1_def M_def\<close>)
    moreover have "take c (with_entry ?j q ps0) = take c (with_entry ?j q ps)"
      "drop c (with_entry ?j q ps0) @ [z] = drop c (with_entry ?j q ps)"
    proof -
      have "with_entry ?j q ps = with_entry ?j q ps0 @ [z]" using il ps by (simp add: with_entry_def)
      then show "take c (with_entry ?j q ps0) = take c (with_entry ?j q ps)"
        "drop c (with_entry ?j q ps0) @ [z] = drop c (with_entry ?j q ps)"
        using len ps m by (simp_all add: M_def)
    qed
    ultimately show ?thesis by auto
  qed
qed

end
