(* ===== verification/Bpt_Insert.thy ===== *)
theory Bpt_Insert
  imports Bpt_Page_Ops Bpt_Search
begin

text \<open>
  Insertion into the B+ tree: \<open>InsertEntryAt\<close> with its fix-up loops turns pages that represent a
  tree into pages that represent a tree with the new entry, and \<^verbatim>\<open>Put\<close> refines the contract of the
  index.
\<close>

section \<open>Storing and allocating pages\<close>

lemma store_simps [simp]:
  "bt_pages (store p pg S) = (bt_pages S)(p \<mapsto> pg)" "bt_free (store p pg S) = bt_free S"
  "bt_total (store p pg S) = bt_total S" "bt_root (store p pg S) = bt_root S" "bt_siz (store p pg S) = bt_siz S"
  by (simp_all add: store_def)

lemma store_alloc: "alloc_ok S \<Longrightarrow> p \<in> dom (bt_pages S) \<Longrightarrow> alloc_ok (store p pg S)"
  unfolding alloc_ok_def by auto

lemma load_store [simp]: "load p (store q pg S) = (if p = q then Inr pg else load p S)"
  by (simp add: load_def)

lemma load_Some: "bt_pages S p = Some pg \<Longrightarrow> load p S = Inr pg"
  by (simp add: load_def)

lemma new_bpage_ok:
  assumes "alloc_ok S"
  obtains r S1 where "new_bpage E S = (r, S1)" "r \<notin> dom (bt_pages S)" "r \<noteq> 0" "alloc_ok S1"
    "bt_pages S1 = (bt_pages S)(r \<mapsto> tt_stale E)" "bt_root S1 = bt_root S" "bt_siz S1 = bt_siz S"
proof (cases "bt_free S")
  case Nil
  let ?r = "bt_total S + 1"
  have d: "dom (bt_pages S) \<subseteq> {1..bt_total S}" using assms by (simp add: alloc_ok_def)
  have "?r \<notin> dom (bt_pages S)" using d by force
  moreover have "alloc_ok (store ?r (tt_stale E) (S\<lparr>bt_total := ?r\<rparr>))"
    using d Nil by (force simp: alloc_ok_def)
  ultimately show thesis using that [of ?r] Nil by (simp add: new_bpage_def)
next
  case (Cons p ps)
  have "p \<notin> dom (bt_pages S)" "p \<noteq> 0" using assms Cons by (auto simp: alloc_ok_def)
  moreover have "alloc_ok (store p (tt_stale E) (S\<lparr>bt_free := ps\<rparr>))"
    using assms Cons by (auto simp: alloc_ok_def)
  ultimately show thesis using that [of p] Cons by (simp add: new_bpage_def)
qed

lemma ctx_rep_dom: "ctx_rep E P fs p \<Longrightarrow> set (ctx_ids fs) \<subseteq> dom P"
proof (induction E P fs p rule: ctx_rep.induct)
  case (2 E P p ks l r fs hp)
  have "set (concat (map pids l)) \<subseteq> dom P" "set (concat (map pids r)) \<subseteq> dom P"
    using 2(2) rep_dom [of E P False] by (fastforce simp: list_all_iff)+
  then show ?case using 2 by auto
qed simp

lemma next_of_upd [simp]: "next_of (P(p \<mapsto> pg)) q = (if q = p then pg_next pg else next_of P q)"
  by (simp add: next_of_def)

section \<open>Holes\<close>

fun ctx_root :: "'k frame_of list \<Rightarrow> nat \<Rightarrow> nat" where
  "ctx_root [] p = p"
| "ctx_root ((q, ks, l, r) # fs) p = ctx_root fs q"

lemma pid_plug: "pid (plug fs t) = ctx_root fs (pid t)"
  by (induction fs t rule: plug.induct) auto

text \<open>
  \<open>hole E S h fs b p ids\<close>: the pages of \<open>S\<close> around page \<open>p\<close> form the context \<open>fs\<close> for a subtree of
  height \<open>h\<close> with bound \<open>b\<close>; \<open>ids\<close> are the pages below.
\<close>

definition hole :: "'k tree_type \<Rightarrow> 'k bpt \<Rightarrow> nat \<Rightarrow> 'k frame_of list \<Rightarrow> 'k option \<Rightarrow> nat \<Rightarrow> nat list \<Rightarrow> bool" where
  "hole E S h fs b p ids \<longleftrightarrow> alloc_ok S \<and> ctx_rep E (bt_pages S) fs p \<and> ctx_shape E h fs b
     \<and> bt_root S = ctx_root fs p \<and> distinct (ids @ ctx_ids fs) \<and> set ids \<subseteq> dom (bt_pages S)"

lemma holeD:
  assumes "hole E S h fs b p ids"
  shows "alloc_ok S" "ctx_rep E (bt_pages S) fs p" "ctx_shape E h fs b" "bt_root S = ctx_root fs p"
    "distinct (ids @ ctx_ids fs)" "set ids \<subseteq> dom (bt_pages S)"
  using assms by (simp_all add: hole_def)

lemma hole_change:
  assumes "hole E S h fs b p ids" "alloc_ok S'" "bt_root S' = bt_root S"
    "\<forall>x\<in>set (ctx_ids fs). bt_pages S' x = bt_pages S x" "distinct (ids' @ ctx_ids fs)" "set ids' \<subseteq> dom (bt_pages S')"
  shows "hole E S' h fs b p ids'"
  using assms ctx_rep_cong [of E "bt_pages S" fs p "bt_pages S'"] by (simp add: hole_def)

text \<open>\<open>grown\<close>: the pages form a tree with the given entries and leaves; the chain is as it was.\<close>

definition grown :: "'k tree_type \<Rightarrow> 'k bpt \<Rightarrow> 'k bpt \<Rightarrow> ('k \<times> nat) list \<Rightarrow> nat list \<Rightarrow> bool" where
  "grown E S S' es ls \<longleftrightarrow> alloc_ok S' \<and> bt_siz S' = bt_siz S
     \<and> (\<forall>p\<in>set ls. next_of (bt_pages S') p = next_of (bt_pages S) p)
     \<and> (\<exists>h t. bt_root S' = pid t \<and> rep E (bt_pages S') True t \<and> shape E True h None t
          \<and> distinct (pids t) \<and> entries t = es \<and> leaf_ids t = ls)"

lemma grown_trans:
  "grown E S1 S' es ls \<Longrightarrow> bt_siz S1 = bt_siz S \<Longrightarrow>
    \<forall>p\<in>set ls. next_of (bt_pages S1) p = next_of (bt_pages S) p \<Longrightarrow> grown E S S' es ls"
  by (simp add: grown_def)

lemma fill_hole:
  assumes "hole E S h fs b (pid t) (pids t)" "rep E (bt_pages S) (fs = []) t" "shape E (fs = []) h b t"
  shows "grown E S S (lft entries fs @ entries t @ rgt entries fs) (lft leaf_ids fs @ leaf_ids t @ rgt leaf_ids fs)"
proof -
  note d = holeD [OF assms(1)]
  have "rep E (bt_pages S) True (plug fs t)" using d(2) assms(2) by (simp add: rep_plug)
  moreover have "shape E True (h + length fs) None (plug fs t)" using d(3) assms(3) shape_plug by blast
  moreover have "distinct (pids (plug fs t))" using d(5) by (simp only: distinct_plug)
  moreover have "bt_root S = pid (plug fs t)" using d(4) by (simp add: pid_plug)
  ultimately show ?thesis
    unfolding grown_def using d(1) entries_plug [of fs t] leaf_ids_plug [of fs t] by blast
qed

text \<open>The last key on the page of a subtree is its bound.\<close>

lemma rep_last_key:
  assumes "ok_type E" "rep E P r t" "shape E r' h b t"
  obtains pg k where "P (pid t) = Some pg" "last_key pg = Inr k" "\<forall>k'. b = Some k' \<longrightarrow> k = k'"
proof (cases t)
  case (Lf p es)
  obtain pg where pg: "P p = Some pg" "leaf_rep E r es pg" using assms(2) Lf by auto
  have es: "0 < length es" "top_is b (map fst es)" using assms(3) fill_pos [OF assms(1)] Lf by auto
  have t: "take (length es) (pg_data pg) = es" "pg_count pg = length es" using pg(2) by (simp_all add: leaf_rep_def)
  have "length es \<le> length (pg_data pg)" using t(1) by (metis length_take min.absorb_iff2 min.commute)
  moreover have "pg_data pg ! (length es - 1) = last es"
    using t(1) es(1) by (metis diff_less last_conv_nth length_greater_0_conv nth_take zero_less_one)
  ultimately have "last_key pg = Inr (fst (last es))" using t(2) es(1) last_key_run [of pg] by simp
  moreover have "\<forall>k'. b = Some k' \<longrightarrow> fst (last es) = k'" using es by (cases b) (auto simp: last_map)
  ultimately show thesis using that [of pg] pg(1) by (simp add: Lf)
next
  case (Nd p ks cs)
  obtain pg where pg: "P p = Some pg" "node_rep E r ks (map pid cs) pg" using assms(2) Nd by auto
  have ks: "0 < length ks" "top_is b ks" using assms(3) fill_pos [OF assms(1)] Nd by (auto simp: shape_node)
  have t: "take (length ks) (map fst (pg_data pg)) = ks" "pg_count pg = length ks" using pg(2) by (simp_all add: node_rep_def)
  have l: "length ks \<le> length (pg_data pg)" using t(1) by (metis length_map length_take min.absorb_iff2 min.commute)
  have "map fst (pg_data pg) ! (length ks - 1) = last ks"
    using t(1) ks(1) by (metis diff_less last_conv_nth length_greater_0_conv nth_take zero_less_one)
  then have "fst (pg_data pg ! (length ks - 1)) = last ks" using l ks(1) by simp
  then have "last_key pg = Inr (last ks)" using t(2) ks(1) l last_key_run [of pg] by simp
  moreover have "\<forall>k'. b = Some k' \<longrightarrow> last ks = k'" using ks by (cases b) auto
  ultimately show thesis using that [of pg] pg(1) by (simp add: Nd)
qed

section \<open>Two halves in a hole\<close>

definition halves :: "'k tree_type \<Rightarrow> 'k bpt \<Rightarrow> nat \<Rightarrow> 'k frame_of list \<Rightarrow> 'k option \<Rightarrow> 'k tr \<Rightarrow> 'k tr \<Rightarrow> bool" where
  "halves E S h fs b t1 t2 \<longleftrightarrow> hole E S h fs b (pid t1) (pids t1 @ pids t2)
     \<and> rep E (bt_pages S) (fs = []) t1 \<and> rep E (bt_pages S) False t2
     \<and> (\<exists>k. shape E False h (Some k) t1) \<and> shape E False h b t2"

definition around :: "('k tr \<Rightarrow> 'a list) \<Rightarrow> 'k frame_of list \<Rightarrow> 'a list \<Rightarrow> 'a list" where
  "around f fs m = lft f fs @ m @ rgt f fs"

lemma around_simps [simp]:
  "around f [] m = m" "around f ((p, ks, l, r) # fs) m = around f fs (concat (map f l) @ m @ concat (map f r))"
  by (simp_all add: around_def)

lemma rep_set_root:
  assumes "rep E P r t" "P (pid t) = Some pg" "distinct (pids t)"
  shows "rep E (P(pid t \<mapsto> pg\<lparr>pg_root := r'\<rparr>)) r' t"
proof (cases t)
  case (Lf p es)
  then show ?thesis using assms by (auto simp: leaf_rep_def)
next
  case (Nd p ks cs)
  have "rep E (P(p \<mapsto> pg\<lparr>pg_root := r'\<rparr>)) False c" if "c \<in> set cs" for c
  proof (rule rep_cong)
    show "rep E P False c" using assms(1) that by (simp add: Nd list_all_iff)
    show "\<forall>q\<in>set (pids c). (P(p \<mapsto> pg\<lparr>pg_root := r'\<rparr>)) q = P q" using assms(3) that by (auto simp: Nd)
  qed
  moreover have "node_rep E r' ks (map pid cs) (pg\<lparr>pg_root := r'\<rparr>)"
    using assms(1,2) by (auto simp: Nd node_rep_def ptrs_def)
  ultimately show ?thesis by (simp add: Nd list_all_iff)
qed

text \<open>The root was split: a new root with one key over the halves.\<close>

lemma grow_root_ok:
  assumes E: "ok_type E" and hv: "halves E S h [] None t1 t2"
  shows "\<exists>S'. grow_root E (pid t1) (pid t2) S = Inr S'
    \<and> grown E S S' (entries t1 @ entries t2) (leaf_ids t1 @ leaf_ids t2)"
proof -
  obtain k where k: "shape E False h (Some k) t1" "shape E False h None t2"
    and r: "rep E (bt_pages S) True t1" "rep E (bt_pages S) False t2"
    and ho: "hole E S h [] None (pid t1) (pids t1 @ pids t2)" using hv by (auto simp: halves_def)
  note d = holeD [OF ho]
  obtain pg k' where pg: "bt_pages S (pid t1) = Some pg" "last_key pg = Inr k'" "\<forall>k''. Some k = Some k'' \<longrightarrow> k' = k''"
    by (rule rep_last_key [OF E r(1) k(1)])
  let ?pg = "pg\<lparr>pg_root := False\<rparr>"
  have lk: "last_key ?pg = Inr k" using pg(2,3) by (simp add: last_key_def get_entry_def cong: if_cong)
  define S0 where "S0 = store (pid t1) ?pg S"
  have a0: "alloc_ok S0" unfolding S0_def using d(1) pg(1) by (intro store_alloc) auto
  obtain q S1 where q: "new_bpage E S0 = (q, S1)" "q \<notin> dom (bt_pages S0)" "q \<noteq> 0" "alloc_ok S1"
    "bt_pages S1 = (bt_pages S0)(q \<mapsto> tt_stale E)" "bt_root S1 = bt_root S0" "bt_siz S1 = bt_siz S0"
    by (rule new_bpage_ok [OF a0])
  note st = ok_typeD(3) [OF E]
  note M = ok_typeD(2) [OF E]
  define root where "root = (tt_stale E)\<lparr>pg_leaf := False, pg_internal := False, pg_root := True, pg_count := 1,
     pg_data := (pg_data (tt_stale E))[0 := (k, pid t1), 1 := (tt_key E, pid t2)]\<rparr>"
  define S' where "S' = store q root (S1\<lparr>bt_root := q\<rparr>)"
  have run: "grow_root E (pid t1) (pid t2) S = Inr S'"
    using pg(1) q lk st M by (simp add: grow_root_def load_def Let_def S0_def [symmetric] root_def S'_def)
  have ids: "set (pids t1 @ pids t2) \<subseteq> dom (bt_pages S)" "distinct (pids t1 @ pids t2)" using d(5,6) by simp_all
  then have qn: "q \<notin> set (pids t1 @ pids t2)" using q(2) by (auto simp: S0_def)
  have P': "bt_pages S' = (bt_pages S)(pid t1 \<mapsto> ?pg, q \<mapsto> root)" using q(5) by (simp add: S'_def S0_def)
  have "rep E (bt_pages S') False t1"
    by (rule rep_cong [OF rep_set_root [OF r(1) pg(1), of False]]) (use ids qn in \<open>auto simp: P'\<close>)
  moreover have "rep E (bt_pages S') False t2"
  proof (rule rep_cong [OF r(2)])
    have "pid t1 \<notin> set (pids t2)" using ids(2) pid_mem [of t1] by (metis disjoint_iff distinct_append)
    then show "\<forall>p\<in>set (pids t2). bt_pages S' p = bt_pages S p" using qn by (auto simp: P')
  qed
  moreover obtain x y zs where "pg_data (tt_stale E) = x # y # zs" using st M
    by (metis Suc_le_length_iff numeral_3_eq_3)
  then have "node_rep E True [k] [pid t1, pid t2] root" using st M
    by (auto simp: node_rep_def root_def ptrs_def)
  ultimately have "rep E (bt_pages S') True (Nd q [k] [t1, t2])" by (simp add: P')
  moreover have "shape E True (Suc h) None (Nd q [k] [t1, t2])" using k M by (simp add: fill_def bnds_def)
  moreover have "distinct (pids (Nd q [k] [t1, t2]))" using ids qn by simp
  moreover have "alloc_ok S'" "bt_siz S' = bt_siz S" "bt_root S' = q"
    using store_alloc [OF q(4), of q root] q(5,7) by (simp_all add: S'_def S0_def alloc_ok_def)
  moreover have "\<forall>p\<in>set (leaf_ids t1 @ leaf_ids t2). next_of (bt_pages S') p = next_of (bt_pages S) p"
    using leaf_ids_pids [of t1] leaf_ids_pids [of t2] qn pg(1) by (auto simp: P' next_of_def)
  moreover have "entries (Nd q [k] [t1, t2]) = entries t1 @ entries t2" "leaf_ids (Nd q [k] [t1, t2]) = leaf_ids t1 @ leaf_ids t2"
    by simp_all
  ultimately show ?thesis using run unfolding grown_def by (metis pid.simps(2))
qed

section \<open>Splitting nodes\<close>

lemma bnds_split:
  assumes "c \<le> length K"
  shows "take c (bnds b K) = bnds (Some x) (take c K)" "drop c (bnds b K) = bnds b (drop c K)"
  using assms by (auto simp: bnds_def take_map drop_map)

lemma split_shape:
  assumes E: "ok_type E" and K: "length K = tt_max E + 1" "top_is b K" "list_all2 (shape E False h) (bnds b K) C"
  defines "c \<equiv> tt_max E + 1 - tt_min E"
  shows "shape E False (Suc h) (Some (last (take c K))) (Nd p (take c K) (take c C))"
    "shape E False (Suc h) b (Nd q (drop c K) (drop c C))"
proof -
  have c: "0 < c" "c < length K" "tt_min E \<le> c" "c \<le> tt_max E" "length K - c = tt_min E"
    using ok_typeD [OF E] K(1) by (auto simp: c_def)
  have "list_all2 (shape E False h) (take c (bnds b K)) (take c C)" using K(3) by (rule list_all2_takeI)
  then show "shape E False (Suc h) (Some (last (take c K))) (Nd p (take c K) (take c C))"
    using bnds_split(1) [of c K b "last (take c K)"] c by (simp add: fill_def)
  have "list_all2 (shape E False h) (drop c (bnds b K)) (drop c C)" using K(3) by (rule list_all2_dropI)
  moreover have "top_is b (drop c K)" using K(2) c by (cases b) simp_all
  ultimately show "shape E False (Suc h) b (Nd q (drop c K) (drop c C))"
    using bnds_split(2) [of c K b] c ok_typeD(5) [OF E] by (simp add: fill_def)
qed

text \<open>A key with its subtree is split in two.\<close>

lemma bnds_with_entry:
  assumes "bnds b ks = bl @ x # br" "i = length bl"
  shows "bnds b (with_entry i k ks) = bl @ Some k # x # br"
proof -
  have "length (bnds b ks) = i + 1 + length br" unfolding assms by simp
  then have i: "i \<le> length ks" by (simp split: if_splits)
  have "take i (bnds b ks) = bl" "drop i (bnds b ks) = x # br" using assms by simp_all
  then have "bl = map Some (take i ks)" "x # br = bnds b (drop i ks)"
    using bnds_split(1) [OF i, of b k] bnds_split(2) [OF i, of b] by (simp_all add: bnds_def)
  then show ?thesis by (simp add: bnds_def with_entry_def)
qed

lemma bnds_at:
  assumes "bnds b ks = bl @ x # br" "i = length bl"
  shows "i < length ks \<Longrightarrow> x = Some (ks ! i)" "i = length ks \<Longrightarrow> x = None \<and> b = None" "i \<le> length ks"
proof -
  have x: "x = bnds b ks ! i" "i < length (bnds b ks)" using assms by simp_all
  show "i < length ks \<Longrightarrow> x = Some (ks ! i)" using x nth_bnds by metis
  show "i = length ks \<Longrightarrow> x = None \<and> b = None" using x nth_bnds_last [of b ks] by (auto split: if_splits)
  show "i \<le> length ks" using x(2) by (simp split: if_splits)
qed

text \<open>What a frame says about its page.\<close>

lemma frame_facts:
  assumes "ctx_rep E P ((pp, ks, l, r) # fs) hp" "ctx_shape E h ((pp, ks, l, r) # fs) b"
  obtains par b' bl br where "P pp = Some par" "node_rep E (fs = []) ks (map pid l @ hp # map pid r) par"
    "list_all (rep E P False) l" "list_all (rep E P False) r" "ctx_rep E P fs pp" "ctx_shape E (Suc h) fs b'"
    "fill E (fs = []) (length ks)" "top_is b' ks" "bnds b' ks = bl @ b # br" "length bl = length l"
    "list_all2 (shape E False h) bl l" "list_all2 (shape E False h) br r"
proof -
  obtain par where par: "P pp = Some par" "node_rep E (fs = []) ks (map pid l @ hp # map pid r) par"
    using assms(1) by auto
  obtain b' bl br where b: "ctx_shape E (Suc h) fs b'" "fill E (fs = []) (length ks)" "top_is b' ks"
    "bnds b' ks = bl @ b # br" "list_all2 (shape E False h) bl l" "list_all2 (shape E False h) br r"
    using assms(2) by auto
  show thesis using that [OF par _ _ _ b(1-4) list_all2_lengthD [OF b(5)] b(5,6)] assms(1) by simp
qed

lemma top_with_entry:
  assumes "top_is b ks" "i < length ks \<or> b = None"
  shows "top_is b (with_entry i k ks)"
  using assms by (cases b) (auto simp: with_entry_def)

section \<open>The right edge\<close>

lemma distinct_frame:
  "distinct (ids @ ctx_ids ((pp, ks, l, r) # fs)) \<Longrightarrow>
    distinct ((pp # concat (map pids l) @ ids @ concat (map pids r)) @ ctx_ids fs)"
  by auto

lemma rep_list_cong:
  "list_all (rep E P False) cs \<Longrightarrow> \<forall>p\<in>set (concat (map pids cs)). Q p = P p \<Longrightarrow> list_all (rep E Q False) cs"
  using rep_cong [of E P False _ Q] by (fastforce simp: list_all_iff)

lemma leaf_ids_kids: "set (concat (map leaf_ids cs)) \<subseteq> set (concat (map pids cs))"
  using leaf_ids_pids by fastforce

lemma ctx_leaf_ids: "set (lft leaf_ids fs) \<subseteq> set (ctx_ids fs)" "set (rgt leaf_ids fs) \<subseteq> set (ctx_ids fs)"
proof (induction fs)
  case (Cons f fs)
  obtain p ks l r where f: "f = (p, ks, l, r)" by (cases f)
  {
    case 1
    then show ?case using Cons.IH(1) leaf_ids_kids [of l] by (auto simp: f)
  next
    case 2
    then show ?case using Cons.IH(2) leaf_ids_kids [of r] by (auto simp: f)
  }
qed simp_all

lemma around_leaf_ids:
  "set (around leaf_ids fs (concat (map leaf_ids cs))) \<subseteq> set (concat (map pids cs)) \<union> set (ctx_ids fs)"
  using ctx_leaf_ids [of fs] leaf_ids_kids [of cs] by (auto simp: around_def)

text \<open>The parent of two halves: its page, and the keys and children it is about to have.\<close>

definition parent_of :: "'k tree_type \<Rightarrow> 'k bpt \<Rightarrow> nat \<Rightarrow> 'k frame_of list \<Rightarrow> 'k option \<Rightarrow> nat \<Rightarrow> 'k list \<Rightarrow> 'k tr list \<Rightarrow> bool" where
  "parent_of E S h fs b pp K C \<longleftrightarrow> hole E S (Suc h) fs b pp (pp # concat (map pids C))
     \<and> top_is b K \<and> list_all2 (shape E False h) (bnds b K) C \<and> list_all (rep E (bt_pages S) False) C"

lemma halves_parent:
  assumes E: "ok_type E" and hv: "halves E S h ((pp, ks, l, r) # fs) b t1 t2"
  obtains par k1 kn pg1 pg2 b' where "bt_pages S pp = Some par" "node_rep E (fs = []) ks (map pid (l @ t1 # r)) par"
    "length (map pid (l @ t1 # r)) = length ks + (if b' = None then 1 else 0)"
    "length l \<le> length ks" "b' \<noteq> None \<longrightarrow> length l < length ks" "fill E (fs = []) (length ks)"
    "bt_pages S (pid t1) = Some pg1" "last_key pg1 = Inr k1" "bt_pages S (pid t2) = Some pg2" "last_key pg2 = Inr kn"
    "length l < length ks \<longrightarrow> kn = ks ! length l" "ctx_shape E (Suc h) fs b'"
    "parent_of E S h fs b' pp (with_entry (length l) k1 ks) (l @ t1 # t2 # r)"
    "with_entry (length l + 1) (pid t2) (map pid (l @ t1 # r)) = map pid (l @ t1 # t2 # r)"
proof -
  obtain k where k: "shape E False h (Some k) t1" "shape E False h b t2"
    and rp: "rep E (bt_pages S) False t1" "rep E (bt_pages S) False t2"
    and ho: "hole E S h ((pp, ks, l, r) # fs) b (pid t1) (pids t1 @ pids t2)" using hv by (auto simp: halves_def)
  note d = holeD [OF ho]
  obtain par b' bl br where f: "bt_pages S pp = Some par" "node_rep E (fs = []) ks (map pid l @ pid t1 # map pid r) par"
    "list_all (rep E (bt_pages S) False) l" "list_all (rep E (bt_pages S) False) r" "ctx_rep E (bt_pages S) fs pp"
    "ctx_shape E (Suc h) fs b'" "fill E (fs = []) (length ks)" "top_is b' ks" "bnds b' ks = bl @ b # br"
    "length bl = length l" "list_all2 (shape E False h) bl l" "list_all2 (shape E False h) br r"
    by (rule frame_facts [OF d(2,3)])
  note at = bnds_at [OF f(9) f(10) [symmetric]]
  obtain pg1 k1 where p1: "bt_pages S (pid t1) = Some pg1" "last_key pg1 = Inr k1" "\<forall>k'. Some k = Some k' \<longrightarrow> k1 = k'"
    by (rule rep_last_key [OF E rp(1) k(1)])
  obtain pg2 kn where p2: "bt_pages S (pid t2) = Some pg2" "last_key pg2 = Inr kn" "\<forall>k'. b = Some k' \<longrightarrow> kn = k'"
    by (rule rep_last_key [OF E rp(2) k(2)])
  have "length (bnds b' ks) = length (l @ t1 # r)" using list_all2_lengthD [OF f(12)] f(10) unfolding f(9) by simp
  then have len: "length (map pid (l @ t1 # r)) = length ks + (if b' = None then 1 else 0)" by simp
  have il: "length l < length ks" if "b' \<noteq> None" using at(2,3) that by fastforce
  have "list_all2 (shape E False h) (bnds b' (with_entry (length l) k1 ks)) (l @ t1 # t2 # r)"
    unfolding bnds_with_entry [OF f(9) f(10) [symmetric]] using k f(11,12) p1(3) by (auto intro: list_all2_appendI)
  moreover have "top_is b' (with_entry (length l) k1 ks)" using top_with_entry [OF f(8)] il by blast
  moreover have "list_all (rep E (bt_pages S) False) (l @ t1 # t2 # r)" using f(3,4) rp by simp
  moreover have "hole E S (Suc h) fs b' pp (pp # concat (map pids (l @ t1 # t2 # r)))"
  proof -
    have "set (concat (map pids l)) \<subseteq> dom (bt_pages S)" "set (concat (map pids r)) \<subseteq> dom (bt_pages S)"
      using f(3,4) rep_dom [of E "bt_pages S" False] by (fastforce simp: list_all_iff)+
    then have "set (pp # concat (map pids (l @ t1 # t2 # r))) \<subseteq> dom (bt_pages S)" using d(6) f(1) by auto
    moreover have "distinct ((pp # concat (map pids (l @ t1 # t2 # r))) @ ctx_ids fs)" using d(5) by auto
    ultimately show ?thesis unfolding hole_def using d(1,4) f(5,6) by simp
  qed
  ultimately have "parent_of E S h fs b' pp (with_entry (length l) k1 ks) (l @ t1 # t2 # r)" by (simp add: parent_of_def)
  moreover have "length l < length ks \<longrightarrow> kn = ks ! length l" using p2(3) at(1) by blast
  moreover have "with_entry (length l + 1) (pid t2) (map pid (l @ t1 # r)) = map pid (l @ t1 # t2 # r)"
    by (simp add: with_entry_def)
  ultimately show thesis using that [of par b' pg1 k1 pg2 kn] f(1,2,6,7) len at(3) il p1(1,2) p2(1,2) by simp
qed

lemma parent_ofD:
  assumes "parent_of E S h fs b pp K C"
  shows "hole E S (Suc h) fs b pp (pp # concat (map pids C))" "top_is b K"
    "list_all2 (shape E False h) (bnds b K) C" "list_all (rep E (bt_pages S) False) C"
  using assms by (simp_all add: parent_of_def)

text \<open>The parent has room for them.\<close>

lemma parent_room:
  assumes p: "parent_of E S h fs b pp K C" and fl: "fill E (fs = []) (length K)"
    and par: "node_rep E (fs = []) K (map pid C) par'"
  shows "grown E S (store pp par' S) (around entries fs (concat (map entries C))) (around leaf_ids fs (concat (map leaf_ids C)))"
proof -
  note q = parent_ofD [OF p]
  note d = holeD [OF q(1)]
  let ?S = "store pp par' S" and ?t = "Nd pp K C"
  have di: "pp \<notin> set (concat (map pids C))" "pp \<notin> set (ctx_ids fs)" using d(5) by auto
  have "hole E ?S (Suc h) fs b (pid ?t) (pids ?t)"
    unfolding pid.simps pids.simps
  proof (rule hole_change [OF q(1)])
    show "alloc_ok ?S" using store_alloc [OF d(1)] d(6) by simp
    show "\<forall>x\<in>set (ctx_ids fs). bt_pages ?S x = bt_pages S x" using di by auto
    show "set (pp # concat (map pids C)) \<subseteq> dom (bt_pages ?S)" using d(6) by auto
  qed (use d(5) in simp_all)
  moreover have "rep E (bt_pages ?S) (fs = []) ?t"
    using par rep_list_cong [OF q(4), of "bt_pages ?S"] di by auto
  moreover have "shape E (fs = []) (Suc h) b ?t" using q(2,3) fl by simp
  ultimately have g: "grown E ?S ?S (around entries fs (entries ?t)) (around leaf_ids fs (leaf_ids ?t))"
    unfolding around_def by (rule fill_hole)
  have "pp \<notin> set (around leaf_ids fs (leaf_ids ?t))" using around_leaf_ids [of fs C] di by auto
  then have "\<forall>p\<in>set (around leaf_ids fs (leaf_ids ?t)). next_of (bt_pages ?S) p = next_of (bt_pages S) p"
    by (auto simp: next_of_def)
  then show ?thesis using grown_trans [OF g, of S] by simp
qed

text \<open>The parent is full: it is split, its halves take its place.\<close>

lemma parent_split:
  assumes E: "ok_type E" and p: "parent_of E S h fs b pp K C" and len: "length K = tt_max E + 1"
    and r: "r \<notin> dom (bt_pages S)" and S': "alloc_ok S'" "bt_root S' = bt_root S" "bt_siz S' = bt_siz S"
      "bt_pages S' = (bt_pages S)(r \<mapsto> new, pp \<mapsto> par')"
  defines "c \<equiv> tt_max E + 1 - tt_min E"
  assumes n: "node_rep E (fs = []) (take c K) (map pid (take c C)) par'" "node_rep E False (drop c K) (map pid (drop c C)) new"
  shows "halves E S' (Suc h) fs b (Nd pp (take c K) (take c C)) (Nd r (drop c K) (drop c C))"
    "grown E S' S'' (around entries fs (concat (map entries C))) (around leaf_ids fs (concat (map leaf_ids C))) \<Longrightarrow>
     grown E S S'' (around entries fs (concat (map entries C))) (around leaf_ids fs (concat (map leaf_ids C)))"
proof -
  note q = parent_ofD [OF p]
  note d = holeD [OF q(1)]
  let ?t1 = "Nd pp (take c K) (take c C)" and ?t2 = "Nd r (drop c K) (drop c C)"
  have di: "pp \<notin> set (concat (map pids C))" "pp \<notin> set (ctx_ids fs)" "pp \<noteq> r" using d(5,6) r by auto
  have cd: "set (ctx_ids fs) \<subseteq> dom (bt_pages S)"
    using d(2) by (rule ctx_rep_dom)
  have ri: "r \<notin> set (concat (map pids C))" "r \<notin> set (ctx_ids fs)" using d(6) r cd by auto
  have ids: "mset (pids ?t1 @ pids ?t2) = add_mset r (mset (pp # concat (map pids C)))"
  proof -
    have "concat (map pids C) = concat (map pids (take c C)) @ concat (map pids (drop c C))"
      by (metis append_take_drop_id concat_append map_append)
    then show ?thesis by simp
  qed
  have "mset ((pids ?t1 @ pids ?t2) @ ctx_ids fs) = mset (r # (pp # concat (map pids C)) @ ctx_ids fs)"
    using ids by simp
  then have "distinct ((pids ?t1 @ pids ?t2) @ ctx_ids fs)" using d(5) ri di(3) by (metis distinct.simps(2) mset_eq_imp_distinct_iff Un_iff set_ConsD set_append)
  moreover have "set (pids ?t1 @ pids ?t2) = insert r (set (pp # concat (map pids C)))"
    using ids by (metis set_mset_add_mset_insert set_mset_mset)
  then have "set (pids ?t1 @ pids ?t2) \<subseteq> dom (bt_pages S')" using d(6) S'(4) by auto
  moreover have "\<forall>x\<in>set (ctx_ids fs). bt_pages S' x = bt_pages S x" using di ri by (auto simp: S'(4))
  ultimately have "hole E S' (Suc h) fs b pp (pids ?t1 @ pids ?t2)"
    using hole_change [OF q(1) S'(1,2)] by blast
  moreover have "\<forall>x\<in>set (concat (map pids C)). bt_pages S' x = bt_pages S x" using di ri by (auto simp: S'(4))
  then have "list_all (rep E (bt_pages S') False) C" by (rule rep_list_cong [OF q(4)])
  then have "list_all (rep E (bt_pages S') False) (take c C)" "list_all (rep E (bt_pages S') False) (drop c C)"
    by (auto simp: list_all_iff dest: in_set_takeD in_set_dropD)
  then have "rep E (bt_pages S') (fs = []) ?t1" "rep E (bt_pages S') False ?t2" using n di(3) by (simp_all add: S'(4))
  ultimately show "halves E S' (Suc h) fs b ?t1 ?t2"
    using split_shape(1) [OF E len q(2,3), of pp] split_shape(2) [OF E len q(2,3), of r] by (auto simp: halves_def c_def)
  have "x \<noteq> pp \<and> x \<noteq> r" if "x \<in> set (around leaf_ids fs (concat (map leaf_ids C)))" for x
    using around_leaf_ids [of fs C] di ri that by auto
  then have nx: "\<forall>x\<in>set (around leaf_ids fs (concat (map leaf_ids C))). next_of (bt_pages S') x = next_of (bt_pages S) x"
    by (simp add: S'(4) next_of_def)
  show "grown E S' S'' (around entries fs (concat (map entries C))) (around leaf_ids fs (concat (map leaf_ids C))) \<Longrightarrow>
     grown E S S'' (around entries fs (concat (map entries C))) (around leaf_ids fs (concat (map leaf_ids C)))"
    by (rule grown_trans [OF _ S'(3) nx])
qed

lemma path_of_Cons [simp]: "path_of ((p, ks, l, r) # fs) = (p, length l) # path_of fs"
  by (simp add: path_of_def)

lemma path_of_empty_iff [simp]: "path_of fs = [] \<longleftrightarrow> fs = []"
  by (simp add: path_of_def)

lemma ctx_shape_edge:
  assumes "ctx_shape E h ((pp, ks, l, r) # fs) b"
  shows "b = None \<longleftrightarrow> length l = length ks" "b = None \<Longrightarrow> ctx_shape E (Suc h) fs None"
proof -
  obtain b' bl br where f: "ctx_shape E (Suc h) fs b'" "bnds b' ks = bl @ b # br" "length bl = length l"
    using assms by (auto dest: list_all2_lengthD)
  note at = bnds_at [OF f(2) f(3) [symmetric]]
  show "b = None \<longleftrightarrow> length l = length ks" using at by fastforce
  then show "b = None \<Longrightarrow> ctx_shape E (Suc h) fs None" using at(2) f(1) by auto
qed

lemma ctx_shape_unique: "ctx_shape E h fs b \<Longrightarrow> ctx_shape E h fs b' \<Longrightarrow> b = b'"
proof (induction fs arbitrary: h b b')
  case (Cons f fs)
  obtain pp ks l r where f: "f = (pp, ks, l, r)" by (cases f)
  obtain c1 bl br where c1: "ctx_shape E (Suc h) fs c1" "bnds c1 ks = bl @ b # br" "length bl = length l"
    using Cons.prems(1) by (auto simp: f dest: list_all2_lengthD)
  obtain c2 bl' br' where c2: "ctx_shape E (Suc h) fs c2" "bnds c2 ks = bl' @ b' # br'" "length bl' = length l"
    using Cons.prems(2) by (auto simp: f dest: list_all2_lengthD)
  have "c1 = c2" using Cons.IH [OF c1(1) c2(1)] .
  then have "bl @ b # br = bl' @ b' # br'" using c1(2) c2(2) by simp
  then show ?case using c1(3) c2(3) by (metis append_eq_append_conv list.inject)
qed simp

text \<open>The loop of parts A and B, up the right edge.\<close>

lemma insert_fix_edge_ok:
  assumes E: "ok_type E"
  shows "halves E S h ((pp, ks, l, r) # fs) b t1 t2 \<Longrightarrow> ctx_shape E (Suc h) fs None \<Longrightarrow>
    \<exists>S'. insert_fix_edge E (pid t1) (pid t2) (path_of ((pp, ks, l, r) # fs)) S = Inr S'
      \<and> grown E S S' (around entries ((pp, ks, l, r) # fs) (entries t1 @ entries t2))
          (around leaf_ids ((pp, ks, l, r) # fs) (leaf_ids t1 @ leaf_ids t2))"
proof (induction fs arbitrary: S h pp ks l r b t1 t2 rule: measure_induct_rule [of length])
  case (less fs)
  note edge = less.prems(2)
  obtain par k1 kn pg1 pg2 b' where f: "bt_pages S pp = Some par" "node_rep E (fs = []) ks (map pid (l @ t1 # r)) par"
    "length (map pid (l @ t1 # r)) = length ks + (if b' = None then 1 else 0)"
    "length l \<le> length ks" "b' \<noteq> None \<longrightarrow> length l < length ks" "fill E (fs = []) (length ks)"
    "bt_pages S (pid t1) = Some pg1" "last_key pg1 = Inr k1" "bt_pages S (pid t2) = Some pg2" "last_key pg2 = Inr kn"
    "length l < length ks \<longrightarrow> kn = ks ! length l" "ctx_shape E (Suc h) fs b'"
    "parent_of E S h fs b' pp (with_entry (length l) k1 ks) (l @ t1 # t2 # r)"
    "with_entry (length l + 1) (pid t2) (map pid (l @ t1 # r)) = map pid (l @ t1 # t2 # r)"
    by (rule halves_parent [OF E less.prems(1)])
  have b': "b' = None" using ctx_shape_unique [OF f(12) edge] .
  have len: "length (map pid (l @ t1 # r)) = length ks + 1" using f(3) b' by simp
  let ?K = "with_entry (length l) k1 ks" and ?C = "l @ t1 # t2 # r"
  have cnt: "pg_count par = length ks" using f(2) by (simp add: node_rep_def)
  have es: "around g ((pp, ks, l, r) # fs) (g t1 @ g t2) = around g fs (concat (map g ?C))" for g :: "'a tr \<Rightarrow> 'c list"
    by simp
  show ?case
  proof (cases "length ks < tt_max E")
    case True
    obtain par' where par': "insert_child E (length l + 1) k1 (kn, pid t2) par = Inr par'"
      "node_rep E (fs = []) ?K (map pid ?C) par'"
      using insert_child_run [OF f(2) len True f(4), of kn k1 "pid t2"] f(11) unfolding f(14) by blast
    have "insert_fix_edge E (pid t1) (pid t2) (path_of ((pp, ks, l, r) # fs)) S = Inr (store pp par' S)"
      using f(1,7-10) True cnt par'(1) by (simp add: load_Some)
    moreover have "fill E (fs = []) (length ?K)" using f(6) True by (simp add: fill_def)
    ultimately show ?thesis using parent_room [OF f(13) _ par'(2)] unfolding es by blast
  next
    case False
    then have full: "length ks = tt_max E" using f(6) by (simp add: fill_def)
    have lK: "length ?K = tt_max E + 1" using full by simp
    have al: "alloc_ok S" using holeD(1) [OF parent_ofD(1) [OF f(13)]] .
    obtain q S1 where q: "new_bpage E S = (q, S1)" "q \<notin> dom (bt_pages S)" "q \<noteq> 0" "alloc_ok S1"
      "bt_pages S1 = (bt_pages S)(q \<mapsto> tt_stale E)" "bt_root S1 = bt_root S" "bt_siz S1 = bt_siz S"
      by (rule new_bpage_ok [OF al])
    define c where "c = tt_max E + 1 - tt_min E"
    obtain par' new where sp: "split_edge E (length l + 1) k1 (kn, pid t2) par (tt_stale E) = Inr (par', new)"
      "node_rep E (fs = []) (take c ?K) (take c (map pid ?C)) par'" "node_rep E False (drop c ?K) (drop c (map pid ?C)) new"
      using split_edge_run [OF E f(2) full len ok_typeD(3) [OF E] f(4), of kn k1 "pid t2"] f(11)
      unfolding f(14) c_def [symmetric] by blast
    define S2 where "S2 = store q new (store pp par' S1)"
    have qp: "q \<noteq> pp" using q(2) f(1) by auto
    have S2: "alloc_ok S2" "bt_root S2 = bt_root S" "bt_siz S2 = bt_siz S" "bt_pages S2 = (bt_pages S)(q \<mapsto> new, pp \<mapsto> par')"
      using q f(1) qp store_alloc [OF store_alloc [OF q(4), of pp par'], of q new] by (auto simp: S2_def)
    note ps = parent_split [OF E f(13) lK q(2) S2 sp(2,3) [unfolded take_map drop_map c_def]]
    let ?t1 = "Nd pp (take c ?K) (take c ?C)" and ?t2 = "Nd q (drop c ?K) (drop c ?C)"
    have hv: "halves E S2 (Suc h) fs b' ?t1 ?t2" using ps(1) by (simp add: c_def)
    have cs: "g ?t1 @ g ?t2 = concat (map g ?C)" if "g = entries" for g :: "'a tr \<Rightarrow> ('a \<times> nat) list"
      by (metis append_take_drop_id concat_append entries.simps(2) map_append that)
    have cl: "leaf_ids ?t1 @ leaf_ids ?t2 = concat (map leaf_ids ?C)"
      by (metis append_take_drop_id concat_append leaf_ids.simps(2) map_append)
    have run: "insert_fix_edge E (pid t1) (pid t2) (path_of ((pp, ks, l, r) # fs)) S
        = (if fs = [] then grow_root E pp q S2 else insert_fix_edge E pp q (path_of fs) S2)"
      using f(1,7-10) full cnt sp(1) q(1,5) by (simp add: load_Some Let_def S2_def)
    have "\<exists>S'. insert_fix_edge E (pid t1) (pid t2) (path_of ((pp, ks, l, r) # fs)) S = Inr S'
        \<and> grown E S2 S' (around entries fs (entries ?t1 @ entries ?t2)) (around leaf_ids fs (leaf_ids ?t1 @ leaf_ids ?t2))"
    proof (cases fs)
      case Nil
      then show ?thesis using grow_root_ok [OF E, of S2 "Suc h" ?t1 ?t2] hv b' unfolding run by simp
    next
      case (Cons g fs')
      obtain gp gk gl gr where g: "g = (gp, gk, gl, gr)" by (cases g)
      have "ctx_shape E (Suc (Suc h)) fs' None"
        using ctx_shape_edge(2) [of E "Suc h" gp gk gl gr fs' None] edge by (simp add: Cons g)
      have run': "insert_fix_edge E (pid t1) (pid t2) (path_of ((pp, ks, l, r) # fs)) S
          = insert_fix_edge E (pid ?t1) (pid ?t2) (path_of ((gp, gk, gl, gr) # fs')) S2"
        unfolding run by (simp del: insert_fix_edge.simps add: Cons g)
      show ?thesis unfolding run' unfolding Cons g
        by (rule less.IH) (use hv Cons g \<open>ctx_shape E (Suc (Suc h)) fs' None\<close> in \<open>simp_all del: insert_fix_edge.simps\<close>)
    qed
    then show ?thesis using ps(2) unfolding cs [OF refl] cl es by blast
  qed
qed

section \<open>Up the tree\<close>

lemma on_edge_ok:
  assumes "ctx_rep E (bt_pages S) fs hp" "ctx_shape E h fs b"
  shows "on_edge (path_of fs) S = Inr (b = None)"
proof (cases fs)
  case Nil
  then show ?thesis using assms(2) by (simp add: on_edge_def)
next
  case (Cons f fs')
  obtain pp ks l r where f: "f = (pp, ks, l, r)" by (cases f)
  obtain pg where "bt_pages S pp = Some pg" "node_rep E (fs' = []) ks (map pid l @ hp # map pid r) pg"
    using assms(1) by (auto simp: Cons f)
  moreover have "b = None \<longleftrightarrow> length l = length ks" using ctx_shape_edge(1) assms(2) by (simp add: Cons f)
  ultimately show ?thesis by (simp add: Cons f on_edge_def load_Some node_rep_def)
qed

lemma parent_of_store:
  assumes "parent_of E S h fs b pp K C"
  shows "parent_of E (store pp pg S) h fs b pp K C"
proof -
  note q = parent_ofD [OF assms]
  note d = holeD [OF q(1)]
  have di: "pp \<notin> set (concat (map pids C))" "pp \<notin> set (ctx_ids fs)" using d(5) by auto
  have "hole E (store pp pg S) (Suc h) fs b pp (pp # concat (map pids C))"
  proof (rule hole_change [OF q(1)])
    show "alloc_ok (store pp pg S)" using store_alloc [OF d(1)] d(6) by simp
    show "\<forall>x\<in>set (ctx_ids fs). bt_pages (store pp pg S) x = bt_pages S x" using di by auto
    show "set (pp # concat (map pids C)) \<subseteq> dom (bt_pages (store pp pg S))" using d(6) by auto
  qed (use d(5) in simp_all)
  moreover have "list_all (rep E (bt_pages (store pp pg S)) False) C"
    by (rule rep_list_cong [OF q(4)]) (use di in auto)
  ultimately show ?thesis using q(2,3) by (simp add: parent_of_def)
qed

lemma parent_next_of:
  assumes "parent_of E S h fs b pp K C"
  shows "\<forall>x\<in>set (around leaf_ids fs (concat (map leaf_ids C))). next_of (bt_pages (store pp pg S)) x = next_of (bt_pages S) x"
proof -
  have "pp \<notin> set (concat (map pids C))" "pp \<notin> set (ctx_ids fs)"
    using holeD(5) [OF parent_ofD(1) [OF assms]] by auto
  then have "pp \<notin> set (around leaf_ids fs (concat (map leaf_ids C)))" using around_leaf_ids [of fs C] by auto
  then show ?thesis by (auto simp: next_of_def)
qed

text \<open>
  \<open>pending\<close>: page \<open>p\<close>, an inner page off the right edge, is to get the entry \<open>e\<close> at \<open>j\<close>; then its
  keys are \<open>K\<close> and its children \<open>C\<close>.
\<close>

definition pending :: "'k tree_type \<Rightarrow> 'k bpt \<Rightarrow> nat \<Rightarrow> 'k frame_of list \<Rightarrow> 'k option \<Rightarrow> nat \<Rightarrow> nat \<Rightarrow> 'k \<times> nat
    \<Rightarrow> 'k list \<Rightarrow> 'k tr list \<Rightarrow> bool" where
  "pending E S h fs b p j e K C \<longleftrightarrow> parent_of E S h fs b p K C \<and> b \<noteq> None
     \<and> (\<exists>pg D. bt_pages S p = Some pg \<and> \<not> pg_leaf pg \<and> \<not> pg_root pg \<and> data_rep E D pg
          \<and> zip K (map pid C) = with_entry j e D \<and> j \<le> length D \<and> tt_min E \<le> length D \<and> length D \<le> tt_max E)"

text \<open>What \<open>InsertEntryAt\<close> does after a split, the recursion upwards given.\<close>

lemma after_split:
  assumes E: "ok_type E" and hv: "halves E S h ((pp, ks, l, r) # fs) b t1 t2"
    and pg: "bt_pages S (pid t1) = Some old" "bt_pages S (pid t2) = Some new"
    and IH: "\<And>S h b p j e K C. pending E S h fs b p j e K C \<Longrightarrow>
      \<exists>S'. insert_entry_at E True ((p, j) # path_of fs) (fst e) (snd e) S = Inr S'
        \<and> grown E S S' (around entries fs (concat (map entries C))) (around leaf_ids fs (concat (map leaf_ids C)))"
  shows "\<exists>S'. rbind (on_edge (path_of fs) S) (\<lambda>edge.
             if edge then insert_fix_edge E (pid t1) (pid t2) (path_of ((pp, ks, l, r) # fs)) S
             else rbind (load pp S) (\<lambda>par. rbind (last_key old) (\<lambda>k. rbind (last_key new) (\<lambda>kn.
               rbind (set_key (length l) k par) (\<lambda>par'.
                 insert_entry_at E True ((pp, length l + 1) # path_of fs) kn (pid t2) (store pp par' S)))))) = Inr S'
      \<and> grown E S S' (around entries ((pp, ks, l, r) # fs) (entries t1 @ entries t2))
          (around leaf_ids ((pp, ks, l, r) # fs) (leaf_ids t1 @ leaf_ids t2))"
proof -
  obtain par k1 kn pg1 pg2 b' where f: "bt_pages S pp = Some par" "node_rep E (fs = []) ks (map pid (l @ t1 # r)) par"
    "length (map pid (l @ t1 # r)) = length ks + (if b' = None then 1 else 0)"
    "length l \<le> length ks" "b' \<noteq> None \<longrightarrow> length l < length ks" "fill E (fs = []) (length ks)"
    "bt_pages S (pid t1) = Some pg1" "last_key pg1 = Inr k1" "bt_pages S (pid t2) = Some pg2" "last_key pg2 = Inr kn"
    "length l < length ks \<longrightarrow> kn = ks ! length l" "ctx_shape E (Suc h) fs b'"
    "parent_of E S h fs b' pp (with_entry (length l) k1 ks) (l @ t1 # t2 # r)"
    "with_entry (length l + 1) (pid t2) (map pid (l @ t1 # r)) = map pid (l @ t1 # t2 # r)"
    by (rule halves_parent [OF E hv])
  let ?K = "with_entry (length l) k1 ks" and ?C = "l @ t1 # t2 # r"
  have edge: "on_edge (path_of fs) S = Inr (b' = None)"
    using on_edge_ok holeD(2) [OF parent_ofD(1) [OF f(13)]] f(12) by blast
  show ?thesis
  proof (cases "b' = None")
    case True
    then show ?thesis using insert_fix_edge_ok [OF E hv] f(12) unfolding edge by simp
  next
    case False
    then have il: "length l < length ks" and ne: "fs \<noteq> []" using f(5,12) by auto
    have len: "length (map pid (l @ t1 # r)) = length ks" using f(3) False by simp
    define par1 where "par1 = par\<lparr>pg_data := (pg_data par)[length l := (k1, snd (pg_data par ! length l))]\<rparr>"
    have fl: "\<not> pg_leaf par" "\<not> pg_root par" and dr: "data_rep E (zip ks (map pid (l @ t1 # r))) par"
      using f(2) ne node_rep_flat [OF len] by auto
    obtain rest where rest: "pg_data par = zip ks (map pid (l @ t1 # r)) @ rest" using dr by (auto simp: data_rep_def)
    let ?D = "zip (ks[length l := k1]) (map pid (l @ t1 # r))"
    have "(zip ks (map pid (l @ t1 # r)))[length l := (k1, map pid (l @ t1 # r) ! length l)] = ?D"
      using update_zip [of ks "map pid (l @ t1 # r)" "length l" "(k1, map pid (l @ t1 # r) ! length l)"] by simp
    moreover have "snd (pg_data par ! length l) = map pid (l @ t1 # r) ! length l"
      using il len by (simp add: rest nth_append)
    ultimately have "pg_data par1 = ?D @ rest" using il len by (simp add: par1_def rest list_update_append)
    then have d1: "data_rep E ?D par1" using dr rest by (simp add: data_rep_def par1_def)
    have sk: "set_key (length l) k1 par = Inr par1"
      using il dr len by (auto simp: par1_def data_rep_def)
    have z: "zip ?K (map pid ?C) = with_entry (length l + 1) (kn, pid t2) ?D"
      using with_entry_zip [OF il len, of k1 "pid t2"] f(11) il unfolding f(14) [symmetric] by simp
    have "pending E (store pp par1 S) h fs b' pp (length l + 1) (kn, pid t2) ?K ?C"
      unfolding pending_def using parent_of_store [OF f(13)] False fl d1 z il f(6) ne len
      by (auto simp: par1_def fill_def)
    then obtain S' where S': "insert_entry_at E True ((pp, length l + 1) # path_of fs) kn (pid t2) (store pp par1 S) = Inr S'"
      "grown E (store pp par1 S) S' (around entries fs (concat (map entries ?C))) (around leaf_ids fs (concat (map leaf_ids ?C)))"
      using IH by fastforce
    have "grown E S S' (around entries fs (concat (map entries ?C))) (around leaf_ids fs (concat (map leaf_ids ?C)))"
      using grown_trans [OF S'(2), of S] parent_next_of [OF f(13)] by simp
    then show ?thesis using False f(1,7-10) pg sk S'(1) unfolding edge
      by (cases b') (simp_all add: load_Some del: insert_entry_at.simps insert_fix_edge.simps)
  qed
qed

text \<open>Inner pages off the right edge, up to the first one with room or on the edge.\<close>

lemma data_rep_room:
  assumes "data_rep E D pg" "length D < tt_max E" "j \<le> length D"
  shows "\<exists>pg'. insert_in_page j e pg = Inr pg' \<and> data_rep E (with_entry j e D) pg'
    \<and> pg_leaf pg' = pg_leaf pg \<and> pg_root pg' = pg_root pg \<and> pg_next pg' = pg_next pg"
proof -
  obtain rest where rest: "pg_data pg = D @ rest" using assms(1) by (auto simp: data_rep_def)
  then obtain x rest' where "rest = x # rest'" using assms(1,2) by (cases rest) (auto simp: data_rep_def)
  then have "insert_in_page j e pg
      = Inr (pg\<lparr>pg_data := take j D @ e # drop j D @ rest', pg_count := length D + 1\<rparr>)"
    using insert_in_page_run [of pg D x rest' j e] rest assms by (simp add: data_rep_def)
  then show ?thesis using assms rest \<open>rest = x # rest'\<close> by (auto simp: data_rep_def with_entry_def)
qed

lemma data_rep_full: "data_rep E D pg \<Longrightarrow> length D = tt_max E \<Longrightarrow> pg_data pg = D"
  by (auto simp: data_rep_def)

lemma insert_inner_ok:
  assumes E: "ok_type E"
  shows "pending E S h fs b p j e K C \<Longrightarrow>
    \<exists>S'. insert_entry_at E True ((p, j) # path_of fs) (fst e) (snd e) S = Inr S'
      \<and> grown E S S' (around entries fs (concat (map entries C))) (around leaf_ids fs (concat (map leaf_ids C)))"
proof (induction fs arbitrary: S h b p j e K C)
  case Nil
  then show ?case by (auto simp: pending_def parent_of_def hole_def)
next
  case (Cons g fs)
  obtain gp gk gl gr where g: "g = (gp, gk, gl, gr)" by (cases g)
  let ?fs = "(gp, gk, gl, gr) # fs"
  obtain pg D where p: "parent_of E S h ?fs b p K C" "b \<noteq> None" "bt_pages S p = Some pg" "\<not> pg_leaf pg" "\<not> pg_root pg"
    "data_rep E D pg" "zip K (map pid C) = with_entry j e D" "j \<le> length D" "tt_min E \<le> length D" "length D \<le> tt_max E"
    using Cons.prems by (auto simp: pending_def g)
  have lK: "length (map pid C) = length K"
    using list_all2_lengthD [OF parent_ofD(3) [OF p(1)]] p(2) by simp
  have lD: "length K = length D + 1" using lK arg_cong [OF p(7), of length] by simp
  have cnt: "pg_count pg = length D" using p(6) by (simp add: data_rep_def)
  show ?case
  proof (cases "length D < tt_max E")
    case True
    obtain pg' where pg': "insert_in_page j e pg = Inr pg'" "data_rep E (with_entry j e D) pg'"
      "pg_leaf pg' = pg_leaf pg" "pg_root pg' = pg_root pg"
      using data_rep_room [OF p(6) True p(8), of e] by blast
    have "node_rep E (?fs = []) K (map pid C) pg'" using node_rep_flat [OF lK] pg' p(4,5,7) by simp
    moreover have "fill E (?fs = []) (length K)" using p(9) True lD by (simp add: fill_def)
    ultimately have "grown E S (store p pg' S) (around entries ?fs (concat (map entries C))) (around leaf_ids ?fs (concat (map leaf_ids C)))"
      using parent_room [OF p(1)] by blast
    moreover have "insert_entry_at E True ((p, j) # path_of ?fs) (fst e) (snd e) S = Inr (store p pg' S)"
      using True p(3) cnt pg'(1) by (simp add: load_Some)
    ultimately show ?thesis unfolding g by blast
  next
    case False
    then have full: "length D = tt_max E" using p(10) by simp
    have lK1: "length K = tt_max E + 1" using lD full by simp
    have al: "alloc_ok S" using holeD(1) [OF parent_ofD(1) [OF p(1)]] .
    obtain q S1 where q: "new_bpage E S = (q, S1)" "q \<notin> dom (bt_pages S)" "q \<noteq> 0" "alloc_ok S1"
      "bt_pages S1 = (bt_pages S)(q \<mapsto> tt_stale E)" "bt_root S1 = bt_root S" "bt_siz S1 = bt_siz S"
      by (rule new_bpage_ok [OF al])
    define c where "c = tt_max E + 1 - tt_min E"
    obtain old new where sp: "split_page E True j e q pg (tt_stale E) = Inr (old, new)"
      "data_rep E (take c (with_entry j e D)) old" "data_rep E (drop c (with_entry j e D)) new"
      "pg_leaf old = pg_leaf pg" "pg_root old = pg_root pg" "\<not> pg_leaf new" "\<not> pg_root new"
      using split_page_run [OF E data_rep_full [OF p(6) full] full _ ok_typeD(3) [OF E], of j True e q] p(8) cnt full
      unfolding c_def by auto
    have lc: "length (map pid (take c C)) = length (take c K)" "length (map pid (drop c C)) = length (drop c K)"
      using lK by simp_all
    have zc: "take c (with_entry j e D) = zip (take c K) (map pid (take c C))"
      "drop c (with_entry j e D) = zip (drop c K) (map pid (drop c C))"
      unfolding p(7) [symmetric] by (simp_all add: take_zip drop_zip take_map drop_map)
    have n: "node_rep E (?fs = []) (take c K) (map pid (take c C)) old" "node_rep E False (drop c K) (map pid (drop c C)) new"
      using sp(2-7) p(4,5) unfolding zc node_rep_flat [OF lc(1)] node_rep_flat [OF lc(2)] by simp_all
    define S2 where "S2 = store q new (store p old S1)"
    have qp: "q \<noteq> p" using q(2) p(3) by auto
    have S2: "alloc_ok S2" "bt_root S2 = bt_root S" "bt_siz S2 = bt_siz S" "bt_pages S2 = (bt_pages S)(q \<mapsto> new, p \<mapsto> old)"
      using q p(3) qp store_alloc [OF store_alloc [OF q(4), of p old], of q new] by (auto simp: S2_def)
    note ps = parent_split [OF E p(1) lK1 q(2) S2 n [unfolded c_def]]
    let ?t1 = "Nd p (take c K) (take c C)" and ?t2 = "Nd q (drop c K) (drop c C)"
    have hv: "halves E S2 (Suc h) ?fs b ?t1 ?t2" using ps(1) by (simp add: c_def)
    have cs: "entries ?t1 @ entries ?t2 = concat (map entries C)"
      by (metis append_take_drop_id concat_append entries.simps(2) map_append)
    have cl: "leaf_ids ?t1 @ leaf_ids ?t2 = concat (map leaf_ids C)"
      by (metis append_take_drop_id concat_append leaf_ids.simps(2) map_append)
    have pages: "bt_pages S2 (pid ?t1) = Some old" "bt_pages S2 (pid ?t2) = Some new" using qp by (simp_all add: S2(4))
    have "\<exists>S'. rbind (on_edge (path_of fs) S2) (\<lambda>edge.
             if edge then insert_fix_edge E (pid ?t1) (pid ?t2) (path_of ?fs) S2
             else rbind (load gp S2) (\<lambda>par. rbind (last_key old) (\<lambda>k. rbind (last_key new) (\<lambda>kn.
               rbind (set_key (length gl) k par) (\<lambda>par'.
                 insert_entry_at E True ((gp, length gl + 1) # path_of fs) kn (pid ?t2) (store gp par' S2)))))) = Inr S'
      \<and> grown E S2 S' (around entries ?fs (concat (map entries C))) (around leaf_ids ?fs (concat (map leaf_ids C)))"
      by (rule after_split [OF E hv pages, unfolded cs cl]) (rule Cons.IH)
    then obtain S' where S': "rbind (on_edge (path_of fs) S2) (\<lambda>edge.
             if edge then insert_fix_edge E (pid ?t1) (pid ?t2) (path_of ?fs) S2
             else rbind (load gp S2) (\<lambda>par. rbind (last_key old) (\<lambda>k. rbind (last_key new) (\<lambda>kn.
               rbind (set_key (length gl) k par) (\<lambda>par'.
                 insert_entry_at E True ((gp, length gl + 1) # path_of fs) kn (pid ?t2) (store gp par' S2)))))) = Inr S'"
      "grown E S2 S' (around entries ?fs (concat (map entries C))) (around leaf_ids ?fs (concat (map leaf_ids C)))" by blast
    have "insert_entry_at E True ((p, j) # path_of ?fs) (fst e) (snd e) S = Inr S'"
      using S'(1) [unfolded pid.simps path_of_Cons S2_def] p(3,5) cnt full q(1,5) sp(1,5)
      by (simp add: load_Some Let_def del: insert_fix_edge.simps)
    then show ?thesis using ps(2) [OF S'(2)] unfolding g by blast
  qed
qed

section \<open>The leaf\<close>

lemma linked_insert:
  assumes "linked f (A @ p # B)" "\<forall>x\<in>set (A @ B). f' x = f x" "f' p = q" "f' q = f p"
  shows "linked f' (A @ p # q # B)"
proof -
  have f: "successively (\<lambda>x y. f x = y) A" "A \<noteq> [] \<longrightarrow> f (last A) = p" "successively (\<lambda>x y. f x = y) (p # B)"
    "f (last (p # B)) = 0"
    using assms(1) by (auto simp: linked_def successively_append_iff)
  have "successively (\<lambda>x y. f' x = y) A" using f(1) assms(2) by (auto elim: successively_mono [rotated])
  moreover have "A \<noteq> [] \<longrightarrow> f' (last A) = p" using f(2) assms(2) by simp
  moreover have "successively (\<lambda>x y. f x = y) B" using f(3) by (cases B) auto
  then have "successively (\<lambda>x y. f' x = y) B" using assms(2) by (auto elim: successively_mono [rotated])
  moreover have "B \<noteq> [] \<longrightarrow> f' q = hd B" using f(3) assms(4) by (cases B) auto
  moreover have "f' (last (q # B)) = 0" using f(4) assms(2,4) by (cases B rule: rev_cases) auto
  ultimately show ?thesis using assms(3) by (cases B) (auto simp: linked_def successively_append_iff)
qed

lemma no_right_no_bound:
  assumes "ok_type E"
  shows "ctx_shape E h fs b \<Longrightarrow> rgt entries fs = [] \<Longrightarrow> b = None"
proof (induction fs arbitrary: h b)
  case (Cons f fs)
  obtain pp ks l r where f: "f = (pp, ks, l, r)" by (cases f)
  obtain b' bl br where c: "ctx_shape E (Suc h) fs b'" "bnds b' ks = bl @ b # br" "list_all2 (shape E False h) br r"
    using Cons.prems(1) by (auto simp: f)
  have "r = []"
  proof (rule ccontr)
    assume "r \<noteq> []"
    then obtain t r' where r: "r = t # r'" by (cases r) auto
    then obtain x where "shape E False h x t" using c(3) by (cases br) auto
    then have "entries t \<noteq> []" using shape_top [OF assms] by blast
    then show False using Cons.prems(2) by (simp add: f r)
  qed
  then have "bnds b' ks = bl @ [b]" using c(2,3) by simp
  moreover have "b' = None" using Cons.IH [OF c(1)] Cons.prems(2) by (simp add: f)
  ultimately show ?case by (simp add: bnds_def)
qed simp

lemma leaf_hole:
  assumes "tree_ok E S h (plug fs (Lf lp es))" "length fs = h" "alloc_ok S"
  obtains b pg where "hole E S 0 fs b lp [lp]" "bt_pages S lp = Some pg" "leaf_rep E (fs = []) es pg"
    "fill E (fs = []) (length es)" "top_is b (map fst es)"
    "linked (next_of (bt_pages S)) (lft leaf_ids fs @ lp # rgt leaf_ids fs)"
proof -
  have t: "rep E (bt_pages S) True (plug fs (Lf lp es))" "shape E True (0 + length fs) None (plug fs (Lf lp es))"
    "distinct (pids (plug fs (Lf lp es)))" "bt_root S = pid (plug fs (Lf lp es))"
    "linked (next_of (bt_pages S)) (leaf_ids (plug fs (Lf lp es)))"
    using assms(1,2) by (simp_all add: tree_ok_def)
  have r: "ctx_rep E (bt_pages S) fs lp" "rep E (bt_pages S) (fs = []) (Lf lp es)" using t(1) unfolding rep_plug by auto
  obtain b where b: "ctx_shape E 0 fs b" "shape E (fs = []) 0 b (Lf lp es)" using t(2) unfolding shape_plug by auto
  obtain pg where pg: "bt_pages S lp = Some pg" "leaf_rep E (fs = []) es pg" using r(2) by auto
  have "hole E S 0 fs b lp [lp]"
    using assms(3) r(1) b(1) t(3,4) pg(1) by (auto simp: hole_def distinct_plug pid_plug)
  then show thesis using that pg b(2) t(5) by (simp add: leaf_ids_plug)
qed

text \<open>The result of an insertion: a tree with the new entry, its leaves linked.\<close>

definition tree_with :: "'k tree_type \<Rightarrow> 'k bpt \<Rightarrow> 'k bpt \<Rightarrow> ('k \<times> nat) list \<Rightarrow> bool" where
  "tree_with E S S' es \<longleftrightarrow> alloc_ok S' \<and> bt_siz S' = bt_siz S \<and> (\<exists>h t. tree_ok E S' h t \<and> entries t = es)"

lemma grown_tree_with:
  assumes "grown E S1 S' es ls" "linked (next_of (bt_pages S1)) ls" "bt_siz S1 = bt_siz S"
  shows "tree_with E S S' es"
  using assms linked_cong [OF assms(2), of "next_of (bt_pages S')"]
  unfolding grown_def tree_with_def tree_ok_def by auto

lemma insert_leaf_ok:
  assumes E: "ok_type E" and t: "tree_ok E S h (plug fs (Lf lp es))" "length fs = h" and al: "alloc_ok S"
    and j: "j \<le> length es" "j = length es \<longrightarrow> rgt entries fs = []"
  shows "\<exists>S'. insert_entry_at E False ((lp, j) # path_of fs) (fst e) (snd e) S = Inr S'
    \<and> tree_with E S S' (around entries fs (with_entry j e es))"
proof -
  obtain b pg where l: "hole E S 0 fs b lp [lp]" "bt_pages S lp = Some pg" "leaf_rep E (fs = []) es pg"
    "fill E (fs = []) (length es)" "top_is b (map fst es)"
    "linked (next_of (bt_pages S)) (lft leaf_ids fs @ lp # rgt leaf_ids fs)"
    by (rule leaf_hole [OF t al])
  note d = holeD [OF l(1)]
  have top: "top_is b (map fst (with_entry j e es))"
  proof (cases "j = length es")
    case True
    then show ?thesis using no_right_no_bound [OF E d(3)] j(2) by simp
  next
    case False
    then have "es \<noteq> []" using j(1) by auto
    then show ?thesis using False l(5) j(1) by (cases b) (auto simp: with_entry_def last_map)
  qed
  have pf: "pg_leaf pg" "pg_root pg = (fs = [])" and dr: "data_rep E es pg" using l(3) by (auto simp: leaf_rep_data)
  have cnt: "pg_count pg = length es" using dr by (simp add: data_rep_def)
  have lids: "lp \<notin> set (lft leaf_ids fs @ rgt leaf_ids fs)" using d(5) ctx_leaf_ids [of fs] by auto
  show ?thesis
  proof (cases "length es < tt_max E")
    case True
    obtain pg' where pg': "insert_in_page j e pg = Inr pg'" "data_rep E (with_entry j e es) pg'"
      "pg_leaf pg' = pg_leaf pg" "pg_root pg' = pg_root pg" "pg_next pg' = pg_next pg"
      using data_rep_room [OF dr True j(1), of e] by blast
    let ?S = "store lp pg' S" and ?t = "Lf lp (with_entry j e es)"
    have "hole E ?S 0 fs b (pid ?t) (pids ?t)" unfolding pid.simps pids.simps
    proof (rule hole_change [OF l(1)])
      show "alloc_ok ?S" using store_alloc [OF al] l(2) by auto
      show "\<forall>x\<in>set (ctx_ids fs). bt_pages ?S x = bt_pages S x" using d(5) by auto
    qed (use d(5) in simp_all)
    moreover have "rep E (bt_pages ?S) (fs = []) ?t" using pg' pf by (simp add: leaf_rep_data)
    moreover have "shape E (fs = []) 0 b ?t" using l(4) True top by (simp add: fill_def)
    ultimately have "grown E ?S ?S (around entries fs (with_entry j e es)) (lft leaf_ids fs @ lp # rgt leaf_ids fs)"
      using fill_hole by (fastforce simp: around_def)
    moreover have "linked (next_of (bt_pages ?S)) (lft leaf_ids fs @ lp # rgt leaf_ids fs)"
      using linked_cong [OF l(6)] l(2) pg'(5) by (simp add: next_of_def)
    ultimately have "tree_with E S ?S (around entries fs (with_entry j e es))"
      using grown_tree_with [of E ?S ?S] by simp
    moreover have "insert_entry_at E False ((lp, j) # path_of fs) (fst e) (snd e) S = Inr ?S"
      using True l(2) cnt pg'(1) by (simp add: load_Some)
    ultimately show ?thesis by blast
  next
    case False
    then have full: "length es = tt_max E" using l(4) by (simp add: fill_def)
    obtain q S1 where q: "new_bpage E S = (q, S1)" "q \<notin> dom (bt_pages S)" "q \<noteq> 0" "alloc_ok S1"
      "bt_pages S1 = (bt_pages S)(q \<mapsto> tt_stale E)" "bt_root S1 = bt_root S" "bt_siz S1 = bt_siz S"
      by (rule new_bpage_ok [OF al])
    define c where "c = tt_max E + 1 - tt_min E"
    obtain old new where sp: "split_page E False j e q pg (tt_stale E) = Inr (old, new)"
      "data_rep E (take c (with_entry j e es)) old" "data_rep E (drop c (with_entry j e es)) new"
      "pg_leaf old = pg_leaf pg" "pg_root old = pg_root pg" "pg_next old = q" "pg_leaf new" "\<not> pg_root new"
      "pg_next new = pg_next pg"
      using split_page_run [OF E data_rep_full [OF dr full] full _ ok_typeD(3) [OF E], of j False e q] j(1) cnt full
      unfolding c_def by auto
    define S2 where "S2 = store q new (store lp old S1)"
    have qp: "q \<noteq> lp" using q(2) l(2) by auto
    have S2: "alloc_ok S2" "bt_root S2 = bt_root S" "bt_siz S2 = bt_siz S" "bt_pages S2 = (bt_pages S)(q \<mapsto> new, lp \<mapsto> old)"
      using q l(2) qp store_alloc [OF store_alloc [OF q(4), of lp old], of q new] by (auto simp: S2_def)
    let ?t1 = "Lf lp (take c (with_entry j e es))" and ?t2 = "Lf q (drop c (with_entry j e es))"
    have qc: "q \<notin> set (ctx_ids fs)" using ctx_rep_dom [OF d(2)] q(2) by auto
    have hv: "halves E S2 0 fs b ?t1 ?t2"
    proof -
      have "hole E S2 0 fs b lp [lp, q]"
        by (rule hole_change [OF l(1) S2(1,2)]) (use d(5) qp qc in \<open>auto simp: S2(4)\<close>)
      moreover have "0 < c" "c \<le> tt_max E" "tt_min E \<le> c" "tt_max E + 1 - c = tt_min E"
        using ok_typeD [OF E] by (auto simp: c_def)
      moreover have "top_is b (map fst (drop c (with_entry j e es)))"
        using top full \<open>c \<le> tt_max E\<close> by (cases b) (simp_all add: drop_map [symmetric])
      ultimately show ?thesis using sp pf qp full ok_typeD(5) [OF E]
        by (auto simp: halves_def leaf_rep_data S2(4) fill_def)
    qed
    have lk: "linked (next_of (bt_pages S2)) (lft leaf_ids fs @ lp # q # rgt leaf_ids fs)"
    proof (rule linked_insert [OF l(6)])
      have "q \<notin> set (lft leaf_ids fs @ rgt leaf_ids fs)" using qc ctx_leaf_ids [of fs] by auto
      then show "\<forall>x\<in>set (lft leaf_ids fs @ rgt leaf_ids fs). next_of (bt_pages S2) x = next_of (bt_pages S) x"
        using lids by (auto simp: S2(4))
    qed (use qp sp l(2) in \<open>simp_all add: S2(4) next_of_def\<close>)
    have pages: "bt_pages S2 (pid ?t1) = Some old" "bt_pages S2 (pid ?t2) = Some new" using qp by (simp_all add: S2(4))
    have es': "entries ?t1 @ entries ?t2 = with_entry j e es" "leaf_ids ?t1 @ leaf_ids ?t2 = [lp, q]" by simp_all
    have "\<exists>S'. insert_entry_at E False ((lp, j) # path_of fs) (fst e) (snd e) S = Inr S'
        \<and> grown E S2 S' (around entries fs (with_entry j e es)) (around leaf_ids fs [lp, q])"
    proof (cases fs)
      case Nil
      have "b = None" using d(3) Nil by simp
      then obtain S' where "grow_root E (pid ?t1) (pid ?t2) S2 = Inr S'" "grown E S2 S' (with_entry j e es) [lp, q]"
        using grow_root_ok [OF E, of S2 0 ?t1 ?t2] hv unfolding Nil es' by blast
      then show ?thesis using l(2) cnt full q(1,5) sp(1,5) pf(2)
        by (simp add: Nil load_Some Let_def S2_def)
    next
      case (Cons g fs')
      obtain gp gk gl gr where g: "g = (gp, gk, gl, gr)" by (cases g)
      let ?fs = "(gp, gk, gl, gr) # fs'"
      have hv': "halves E S2 0 ?fs b ?t1 ?t2" using hv by (simp add: Cons g)
      have "\<exists>S'. rbind (on_edge (path_of fs') S2) (\<lambda>edge.
             if edge then insert_fix_edge E (pid ?t1) (pid ?t2) (path_of ?fs) S2
             else rbind (load gp S2) (\<lambda>par. rbind (last_key old) (\<lambda>k. rbind (last_key new) (\<lambda>kn.
               rbind (set_key (length gl) k par) (\<lambda>par'.
                 insert_entry_at E True ((gp, length gl + 1) # path_of fs') kn (pid ?t2) (store gp par' S2)))))) = Inr S'
        \<and> grown E S2 S' (around entries ?fs (with_entry j e es)) (around leaf_ids ?fs [lp, q])"
        by (rule after_split [OF E hv' pages, unfolded es']) (rule insert_inner_ok [OF E])
      then obtain S' where S': "rbind (on_edge (path_of fs') S2) (\<lambda>edge.
             if edge then insert_fix_edge E (pid ?t1) (pid ?t2) (path_of ?fs) S2
             else rbind (load gp S2) (\<lambda>par. rbind (last_key old) (\<lambda>k. rbind (last_key new) (\<lambda>kn.
               rbind (set_key (length gl) k par) (\<lambda>par'.
                 insert_entry_at E True ((gp, length gl + 1) # path_of fs') kn (pid ?t2) (store gp par' S2)))))) = Inr S'"
        "grown E S2 S' (around entries ?fs (with_entry j e es)) (around leaf_ids ?fs [lp, q])" by blast
      have "insert_entry_at E False ((lp, j) # path_of ?fs) (fst e) (snd e) S = Inr S'"
        using S'(1) [unfolded pid.simps path_of_Cons S2_def] l(2) cnt full q(1,5) sp(1,5) pf(2)
        by (simp add: load_Some Let_def Cons del: insert_fix_edge.simps)
      then show ?thesis using S'(2) unfolding Cons g by blast
    qed
    then show ?thesis using grown_tree_with [OF _ _ S2(3)] lk unfolding around_def by fastforce
  qed
qed

section \<open>Put\<close>

lemma first_entry_ok:
  assumes E: "ok_type E" and al: "alloc_ok S"
  shows "\<exists>S'. first_entry E k v S = Inr S' \<and> tree_with E S S' [(k, v)]"
proof -
  obtain q S1 where q: "new_bpage E S = (q, S1)" "q \<notin> dom (bt_pages S)" "q \<noteq> 0" "alloc_ok S1"
    "bt_pages S1 = (bt_pages S)(q \<mapsto> tt_stale E)" "bt_root S1 = bt_root S" "bt_siz S1 = bt_siz S"
    by (rule new_bpage_ok [OF al])
  note st = ok_typeD(2,3) [OF E]
  define pg where "pg = (tt_stale E)\<lparr>pg_leaf := True, pg_internal := False, pg_root := True, pg_count := 1, pg_next := 0,
    pg_data := (pg_data (tt_stale E))[0 := (k, v)]\<rparr>"
  define S' where "S' = store q pg (S1\<lparr>bt_root := q\<rparr>)"
  have run: "first_entry E k v S = Inr S'"
    using q(1,5) st by (simp add: first_entry_def load_def S'_def pg_def)
  have "leaf_rep E True [(k, v)] pg" using st by (cases "pg_data (tt_stale E)") (auto simp: leaf_rep_def pg_def)
  then have "tree_ok E S' 0 (Lf q [(k, v)])"
    using st q(5) by (simp add: tree_ok_def S'_def linked_def next_of_def pg_def fill_def)
  moreover have "alloc_ok S'" "bt_siz S' = bt_siz S"
    using q store_alloc [OF q(4), of q pg] by (simp_all add: S'_def alloc_ok_def)
  ultimately show ?thesis using run unfolding tree_with_def by (metis entries.simps(1))
qed

lemma set_value_ok:
  assumes "tree_ok E S h (plug fs (Lf lp es))" "length fs = h" "alloc_ok S" "j < length es"
    and pg: "bt_pages S lp = Some pg"
  shows "\<exists>pg'. set_ptr j v pg = Inr pg'
    \<and> tree_with E S (store lp pg' S) (around entries fs (es[j := (fst (es ! j), v)]))"
proof -
  obtain b where l: "hole E S 0 fs b lp [lp]" "leaf_rep E (fs = []) es pg" "fill E (fs = []) (length es)"
    "top_is b (map fst es)" "linked (next_of (bt_pages S)) (lft leaf_ids fs @ lp # rgt leaf_ids fs)"
    using leaf_hole [OF assms(1-3)] pg by (metis option.inject)
  note d = holeD [OF l(1)]
  let ?es = "es[j := (fst (es ! j), v)]"
  define pg' where "pg' = pg\<lparr>pg_data := (pg_data pg)[j := (fst (pg_data pg ! j), v)]\<rparr>"
  have dr: "data_rep E es pg" using l(2) by (simp add: leaf_rep_data)
  then obtain rest where rest: "pg_data pg = es @ rest" by (auto simp: data_rep_def)
  have jl: "j < length (pg_data pg)" using assms(4) rest by simp
  have "pg_data pg' = ?es @ rest" using assms(4) by (simp add: pg'_def rest list_update_append nth_append)
  then have "data_rep E ?es pg'" using dr rest by (simp add: data_rep_def pg'_def)
  then have lr: "leaf_rep E (fs = []) ?es pg'" using l(2) by (simp add: leaf_rep_data pg'_def)
  have keys: "map fst ?es = map fst es"
    by (metis assms(4) fst_conv list_update_id map_update nth_map)
  let ?S = "store lp pg' S" and ?t = "Lf lp ?es"
  have "hole E ?S 0 fs b (pid ?t) (pids ?t)" unfolding pid.simps pids.simps
  proof (rule hole_change [OF l(1)])
    show "alloc_ok ?S" using store_alloc [OF assms(3)] pg by auto
    show "\<forall>x\<in>set (ctx_ids fs). bt_pages ?S x = bt_pages S x" using d(5) by auto
  qed (use d(5) in simp_all)
  moreover have "rep E (bt_pages ?S) (fs = []) ?t" using lr by simp
  moreover have "shape E (fs = []) 0 b ?t" using l(3,4) keys by simp
  ultimately have "grown E ?S ?S (around entries fs ?es) (lft leaf_ids fs @ lp # rgt leaf_ids fs)"
    using fill_hole by (fastforce simp: around_def)
  moreover have "linked (next_of (bt_pages ?S)) (lft leaf_ids fs @ lp # rgt leaf_ids fs)"
    using linked_cong [OF l(5)] pg by (simp add: next_of_def pg'_def)
  ultimately have "tree_with E S ?S (around entries fs ?es)" using grown_tree_with [of E ?S ?S] by simp
  then show ?thesis using jl by (simp add: pg'_def)
qed

lemma tree_with_bpt_ok:
  assumes "tree_with E S S' es" "sorted_entries E es" "es \<noteq> []" "n = length es"
  shows "bpt_ok E (S'\<lparr>bt_siz := n\<rparr>) es"
proof -
  obtain h t where "alloc_ok S'" "tree_ok E S' h t" "entries t = es" using assms(1) by (auto simp: tree_with_def)
  then have "alloc_ok (S'\<lparr>bt_siz := n\<rparr>)" "tree_ok E (S'\<lparr>bt_siz := n\<rparr>) h t"
    by (simp_all add: alloc_ok_def tree_ok_def)
  then show ?thesis using bpt_okI [of "S'\<lparr>bt_siz := n\<rparr>" E t h] assms(2-4) \<open>entries t = es\<close> by simp
qed

text \<open>The contract, with the position inside the chain.\<close>

lemma idx_at:
  assumes il: "idx_lower lt key (index_of xs) = length L + j" and xs: "xs = L @ es @ R"
    and j: "j \<le> length es" "j = length es \<longrightarrow> R = []"
  defines "present \<equiv> j < length es \<and> \<not> lt key (fst (es ! j))"
  shows "idx_get lt key (index_of xs) = (if present then Some (snd (es ! j)) else None)"
    "chain (idx_put lt key v (index_of xs))
       = L @ (if present then es[j := (fst (es ! j), v)] else with_entry j (key, v) es) @ R"
    "chain (idx_remove lt key (index_of xs))
       = (if present then L @ (take j es @ drop (Suc j) es) @ R else xs)"
proof -
  have nth: "j < length es \<Longrightarrow> xs ! (length L + j) = es ! j" by (simp add: xs nth_append)
  have len: "length L + j < length xs \<longleftrightarrow> j < length es" using j by (auto simp: xs)
  have upd: "j < length es \<Longrightarrow> xs[length L + j := y] = L @ es[j := y] @ R" for y by (simp add: xs list_update_append)
  have tk: "take (length L + j) xs = L @ take j es" "drop (length L + j) xs = drop j es @ R"
    "j < length es \<Longrightarrow> drop (Suc (length L + j)) xs = drop (Suc j) es @ R"
    using j by (simp_all add: xs)
  show "idx_get lt key (index_of xs) = (if present then Some (snd (es ! j)) else None)"
    using nth len by (simp add: idx_get_def idx_entry_def il present_def split: prod.splits)
  show "chain (idx_put lt key v (index_of xs))
       = L @ (if present then es[j := (fst (es ! j), v)] else with_entry j (key, v) es) @ R"
    using nth len upd tk by (auto simp: idx_put_def il present_def with_entry_def Let_def)
  show "chain (idx_remove lt key (index_of xs))
       = (if present then L @ (take j es @ drop (Suc j) es) @ R else xs)"
    using nth len tk by (auto simp: idx_remove_def il present_def Let_def)
qed

lemma bpt_put_spec:
  assumes E: "ok_type E" and ok: "bpt_ok E S xs"
  shows "\<exists>S'. bpt_put E key v S = Inr (idx_get (tt_less E) key (index_of xs) = None, S')
    \<and> bpt_ok E S' (chain (idx_put (tt_less E) key v (index_of xs)))"
proof -
  let ?ix = "idx_put (tt_less E) key v (index_of xs)"
  have al: "alloc_ok S" and siz: "bt_siz S = length xs" using ok by (simp_all add: bpt_ok_def)
  have "idx_inv (tt_less E) ?ix"
    using strict_weak_order.idx_put_inv [OF ok_typeD(1) [OF E] bpt_ok_inv [OF ok]] .
  then have so: "sorted_entries E (chain ?ix)" by (simp add: idx_inv_def)
  show ?thesis
  proof (cases "xs = []")
    case True
    obtain S' where S': "first_entry E key v S = Inr S'" "tree_with E S S' [(key, v)]"
      using first_entry_ok [OF E al] by blast
    have c: "chain ?ix = [(key, v)]" "idx_get (tt_less E) key (index_of xs) = None"
      using True by (simp_all add: idx_put_def idx_get_def idx_entry_def Let_def)
    have "bt_siz S' = 0" using S'(2) siz True by (simp add: tree_with_def)
    then have "bpt_put E key v S = Inr (True, S'\<lparr>bt_siz := 1\<rparr>)"
      using find_empty [OF ok [unfolded True]] siz True S'(1) by (simp add: bpt_put_def)
    then show ?thesis using tree_with_bpt_ok [OF S'(2), of 1] c by simp
  next
    case False
    obtain h fs lp es j where f: "find_position E key S = Inr ((lp, j) # path_of fs, j = length es)"
      and t: "tree_ok E S h (plug fs (Lf lp es))" "length fs = h" and xs: "xs = lft entries fs @ es @ rgt entries fs"
      and j: "j = lower_pos (tt_less E) (map fst es) key" "j = length es \<longrightarrow> rgt entries fs = []"
      and low: "lower_pos (\<lambda>e k. tt_less E (fst e) k) xs key = length (lft entries fs) + j"
      by (rule find_position_ok [OF E ok False, of key])
    have jl: "j \<le> length es" using j(1) lower_pos_le [of "tt_less E" "map fst es" key] by simp
    have il: "idx_lower (tt_less E) key (index_of xs) = length (lft entries fs) + j" using low by (simp add: idx_lower_def)
    note at = idx_at [OF il xs jl j(2)]
    show ?thesis
    proof (cases "j < length es \<and> \<not> tt_less E key (fst (es ! j))")
      case True
      obtain pg where pg: "bt_pages S lp = Some pg" "leaf_rep E (fs = []) es pg" using plugged_leaf [OF t(1)] .
      obtain pg' where pg': "set_ptr j v pg = Inr pg'" "tree_with E S (store lp pg' S) (around entries fs (es[j := (fst (es ! j), v)]))"
        using set_value_ok [OF t al _ pg(1), of j v] True by blast
      have c: "chain ?ix = around entries fs (es[j := (fst (es ! j), v)])" "idx_get (tt_less E) key (index_of xs) \<noteq> None"
        using True at(1) at(2) [of v] by (simp_all add: around_def)
      have "bpt_put E key v S = Inr (False, store lp pg' S)"
        using f True entry_at_leaf [OF t(1)] pg(1) pg'(1) by (simp add: bpt_put_def load_Some)
      moreover have "bpt_ok E (store lp pg' S) (chain ?ix)"
      proof -
        have "around entries fs (es[j := (fst (es ! j), v)]) \<noteq> []" "bt_siz S = length (around entries fs (es[j := (fst (es ! j), v)]))"
          using True siz xs by (auto simp: around_def)
        then have "bpt_ok E ((store lp pg' S)\<lparr>bt_siz := bt_siz S\<rparr>) (chain ?ix)"
          using tree_with_bpt_ok [OF pg'(2)] so c(1) by simp
        moreover have "(store lp pg' S)\<lparr>bt_siz := bt_siz S\<rparr> = store lp pg' S" by (simp add: store_def)
        ultimately show ?thesis by simp
      qed
      ultimately show ?thesis using c(2) by auto
    next
      case False
      have ab: "chain ?ix = around entries fs (with_entry j (key, v) es)" "idx_get (tt_less E) key (index_of xs) = None"
        unfolding around_def at(1) at(2) [of v] using False by (simp_all only: if_False simp_thms)
      obtain S' where S': "insert_entry_at E False ((lp, j) # path_of fs) key v S = Inr S'"
        "tree_with E S S' (around entries fs (with_entry j (key, v) es))"
        using insert_leaf_ok [OF E t al jl j(2), of "(key, v)"] by auto
      have sz: "bt_siz S' = length xs" using S'(2) siz by (simp add: tree_with_def)
      have "bpt_put E key v S = Inr (True, S'\<lparr>bt_siz := bt_siz S' + 1\<rparr>)"
        using f False jl entry_at_leaf [OF t(1)] S'(1) siz \<open>xs \<noteq> []\<close>
        by (cases "j = length es") (simp_all add: bpt_put_def del: insert_entry_at.simps)
      moreover have "bpt_ok E (S'\<lparr>bt_siz := bt_siz S' + 1\<rparr>) (chain ?ix)"
        using tree_with_bpt_ok [OF S'(2), of "bt_siz S' + 1"] so ab(1) sz xs by (simp add: around_def with_entry_def)
      ultimately show ?thesis using ab(2) by auto
    qed
  qed
qed

text \<open>
  C30: \<^verbatim>\<open>Put\<close> on pages that represent a sorted chain ends without an error, says whether the key
  was new, and leaves pages that represent the chain the contract of the index promises: every
  page within its bounds, all leaves at one depth and linked in order.
\<close>
theorem bpt_put_refines:
  assumes E: "ok_type E" and ok: "bpt_ok E S xs"
  shows "\<exists>S'. bpt_put E key v S = Inr (idx_get (tt_less E) key (index_of xs) = None, S')
    \<and> bpt_ok E S' (chain (idx_put (tt_less E) key v (index_of xs)))"
  by (rule bpt_put_spec [OF E ok])

lemma bpt_put_refines_witness:
  "\<exists>S'. bpt_put three_keys 8 80 small_tree = Inr (True, S')
    \<and> bpt_ok three_keys S' [(1, 10), (2, 20), (5, 50), (6, 60), (7, 70), (8, 80)]"
  using bpt_put_refines [OF three_keys_ok small_tree_ok, of 8 80]
  by (simp add: idx_put_def idx_get_def idx_entry_def idx_lower_def lower_pos_def three_keys_def small_entries_def)

end
