(* ===== verification/Bpt_Items.thy ===== *)
theory Bpt_Items
  imports Bpt_Insert
begin

text \<open>
  One view of leaves and inner pages for removal: a page holds items, values in a leaf and
  subtrees in an inner page, and on the right edge one subtree past the last key. What the
  routines of removal do to one page or to two neighbours is stated on lists of items.
\<close>

section \<open>Items\<close>

datatype 'k item = Val nat | Sub "'k tr"

type_synonym 'k items = "('k \<times> 'k item) list"

fun iptr :: "'k item \<Rightarrow> nat" where
  "iptr (Val v) = v"
| "iptr (Sub t) = pid t"

fun itrees :: "'k item \<Rightarrow> 'k tr list" where
  "itrees (Val v) = []"
| "itrees (Sub t) = [t]"

definition flat_of :: "'k items \<Rightarrow> ('k \<times> nat) list" where
  "flat_of its = map (\<lambda>(k, x). (k, iptr x)) its"

definition subs :: "'k items \<Rightarrow> 'k tr list" where
  "subs its = concat (map (itrees \<circ> snd) its)"

fun mk :: "nat \<Rightarrow> nat \<Rightarrow> 'k items \<Rightarrow> 'k tr list \<Rightarrow> 'k tr" where
  "mk 0 p its past = Lf p (flat_of its)"
| "mk (Suc h) p its past = Nd p (map fst its) (subs its @ past)"

lemma flat_of_simps [simp]:
  "flat_of [] = []" "flat_of ((k, x) # its) = (k, iptr x) # flat_of its" "flat_of (xs @ ys) = flat_of xs @ flat_of ys"
  "length (flat_of its) = length its" "map fst (flat_of its) = map fst its"
  by (auto simp: flat_of_def)

lemma flat_of_take: "flat_of (take n its) = take n (flat_of its)" "flat_of (drop n its) = drop n (flat_of its)"
  by (simp_all add: flat_of_def take_map drop_map)

lemma subs_simps [simp]:
  "subs [] = []" "subs ((k, x) # its) = itrees x @ subs its" "subs (xs @ ys) = subs xs @ subs ys"
  by (simp_all add: subs_def)

lemma pid_mk [simp]: "pid (mk h p its past) = p"
  by (cases h) simp_all

text \<open>\<open>items_ok\<close>: values at height 0, bounded subtrees above; \<open>past_ok\<close>: the subtree on the edge.\<close>

fun item_ok :: "'k tree_type \<Rightarrow> nat \<Rightarrow> 'k \<times> 'k item \<Rightarrow> bool" where
  "item_ok E 0 (k, x) = (\<exists>v. x = Val v)"
| "item_ok E (Suc h) (k, x) = (\<exists>t. x = Sub t \<and> shape E False h (Some k) t)"

definition past_ok :: "'k tree_type \<Rightarrow> nat \<Rightarrow> 'k option \<Rightarrow> 'k tr list \<Rightarrow> bool" where
  "past_ok E h b past \<longleftrightarrow> (if h = 0 \<or> b \<noteq> None then past = [] else \<exists>z. past = [z] \<and> shape E False (h - 1) None z)"

lemma past_ok_flat [simp]: "past_ok E h (Some k) past \<longleftrightarrow> past = []" "past_ok E 0 b past \<longleftrightarrow> past = []"
  by (simp_all add: past_ok_def)

lemma items_subs:
  "list_all (item_ok E (Suc h)) its \<Longrightarrow> list_all2 (shape E False h) (map Some (map fst its)) (subs its)"
proof (induction its)
  case (Cons kx its)
  then show ?case by (cases kx) auto
qed simp

lemma length_subs: "list_all (item_ok E (Suc h)) its \<Longrightarrow> length (subs its) = length its"
  by (drule items_subs) (auto dest: list_all2_lengthD)

lemma zip_subs: "list_all (item_ok E (Suc h)) its \<Longrightarrow> zip (map fst its) (map pid (subs its)) = flat_of its"
proof (induction its)
  case (Cons kx its)
  then show ?case by (cases kx) auto
qed simp

lemma shape_mk:
  assumes "list_all (item_ok E h) its" "past_ok E h b past"
  shows "shape E r h b (mk h p its past) \<longleftrightarrow> fill E r (length its) \<and> top_is b (map fst its)"
proof (cases h)
  case (Suc h')
  have "list_all2 (shape E False h') (map Some (map fst its)) (subs its)" using items_subs assms(1) Suc by blast
  then have "list_all2 (shape E False h') (bnds b (map fst its)) (subs its @ past)"
    using assms(2) Suc by (auto simp: bnds_def past_ok_def intro: list_all2_appendI)
  then show ?thesis by (simp add: Suc)
qed simp

text \<open>Every tree of the right shape is made of items.\<close>

lemma shape_items:
  assumes "shape E r h b t"
  obtains its past where "t = mk h (pid t) its past" "list_all (item_ok E h) its" "past_ok E h b past"
    "fill E r (length its)" "top_is b (map fst its)"
proof (cases h)
  case 0
  then obtain p es where t: "t = Lf p es" using assms by (cases t) (auto simp: shape_node)
  define its :: "'a items" where "its = map (\<lambda>(k, v). (k, Val v)) es"
  have "flat_of its = es" unfolding its_def by (induction es) auto
  moreover have "list_all (item_ok E 0) its" "length its = length es" "map fst its = map fst es"
    by (auto simp: its_def list_all_iff o_def)
  ultimately have "flat_of its = es" "list_all (item_ok E 0) its" "length its = length es" "map fst its = map fst es" .
  then show thesis using that [of its "[]"] assms by (simp add: 0 t)
next
  case (Suc h')
  then obtain p ks cs where t: "t = Nd p ks cs" using assms by (cases t) auto
  have s: "fill E r (length ks)" "top_is b ks" "list_all2 (shape E False h') (bnds b ks) cs" using assms by (simp_all add: Suc t)
  define c1 where "c1 = take (length ks) cs"
  define past where "past = drop (length ks) cs"
  have cs: "cs = c1 @ past" by (simp add: c1_def past_def)
  have l: "list_all2 (shape E False h') (take (length ks) (bnds b ks)) c1" "list_all2 (shape E False h') (drop (length ks) (bnds b ks)) past"
    unfolding c1_def past_def using s(3) by (auto intro: list_all2_takeI list_all2_dropI)
  define its where "its = zip ks (map Sub c1)"
  have l1: "list_all2 (shape E False h') (map Some ks) c1" using l(1) by (simp add: bnds_def)
  then have lc: "length c1 = length ks" by (auto dest: list_all2_lengthD)
  have "list_all2 (shape E False h') (map Some k) c \<Longrightarrow>
      list_all (item_ok E (Suc h')) (zip k (map Sub c)) \<and> subs (zip k (map Sub c)) = c" for k c
    by (induction k arbitrary: c) (auto simp: list_all2_Cons1)
  then have "list_all (item_ok E (Suc h')) its" "subs its = c1" using l1 by (simp_all add: its_def)
  moreover have "map fst its = ks" "length its = length ks" using lc by (simp_all add: its_def)
  moreover have "past_ok E (Suc h') b past" using l(2) by (auto simp: past_ok_def bnds_def list_all2_Cons1)
  ultimately show thesis using that [of its past] s(1,2) by (simp add: Suc t cs)
qed

definition ents :: "'k items \<Rightarrow> ('k \<times> nat) list" where
  "ents its = concat (map (\<lambda>(k, x). case x of Val v \<Rightarrow> [(k, v)] | Sub t \<Rightarrow> entries t) its)"

lemma ents_simps [simp]:
  "ents [] = []" "ents (x # its) = ents [x] @ ents its" "ents (xs @ ys) = ents xs @ ents ys"
  "ents [(k, Val v)] = [(k, v)]" "ents [(k, Sub t)] = entries t"
  by (simp_all add: ents_def)

declare ents_simps(2) [simp del]

lemma ents_Cons: "ents (x # its) = ents [x] @ ents its"
  by (rule ents_simps)

lemma entries_mk:
  assumes "list_all (item_ok E h) its" "past_ok E h b past"
  shows "entries (mk h p its past) = ents its @ concat (map entries past)"
proof (cases h)
  case 0
  have "flat_of its = ents its" using assms(1) 0
    by (induction its) (auto simp: ents_def)
  then show ?thesis using assms(2) 0 by simp
next
  case (Suc h')
  have "concat (map entries (subs its)) = ents its" using assms(1) Suc
    by (induction its) (auto simp: ents_def)
  then show ?thesis by (simp add: Suc)
qed

definition ids_of :: "'k items \<Rightarrow> nat list" where
  "ids_of its = concat (map pids (subs its))"

lemma ids_of_simps [simp]:
  "ids_of [] = []" "ids_of (xs @ ys) = ids_of xs @ ids_of ys" "ids_of ((k, Sub t) # its) = pids t @ ids_of its"
  "ids_of ((k, Val v) # its) = ids_of its"
  by (simp_all add: ids_of_def)

lemma subs_flat: "list_all (item_ok E 0) its \<Longrightarrow> subs its = []"
  by (induction its) auto

lemma pids_mk:
  assumes "list_all (item_ok E h) its" "past_ok E h b past"
  shows "pids (mk h p its past) = p # ids_of its @ concat (map pids past)"
  using assms subs_flat [of E its] by (cases h) (auto simp: ids_of_def)

definition lids :: "nat \<Rightarrow> nat \<Rightarrow> 'k items \<Rightarrow> 'k tr list \<Rightarrow> nat list" where
  "lids h p its past = (if h = 0 then [p] else concat (map leaf_ids (subs its @ past)))"

lemma leaf_ids_mk: "leaf_ids (mk h p its past) = lids h p its past"
  by (cases h) (simp_all add: lids_def)

section \<open>Pages of items\<close>

definition page_rep :: "'k tree_type \<Rightarrow> bool \<Rightarrow> nat \<Rightarrow> 'k items \<Rightarrow> 'k tr list \<Rightarrow> 'k bpage \<Rightarrow> bool" where
  "page_rep E r h its past pg \<longleftrightarrow> pg_leaf pg = (h = 0) \<and> pg_root pg = r \<and> data_rep E (flat_of its) pg
     \<and> (past = [] \<or> past_ptr E pg = pid (hd past))"

lemma page_rep_node:
  assumes "list_all (item_ok E (Suc h)) its" "past_ok E (Suc h) b past" "length its \<le> tt_max E"
  shows "page_rep E r (Suc h) its past pg \<longleftrightarrow> node_rep E r (map fst its) (map pid (subs its @ past)) pg"
proof (cases b)
  case None
  then obtain z where z: "past = [z]" using assms(2) by (auto simp: past_ok_def)
  have l: "length (map pid (subs its)) = length (map fst its)" using length_subs [OF assms(1)] by simp
  show ?thesis using node_rep_edge [OF l, of E r "pid z" pg] node_rep_flat [OF l, of E r pg] assms(3) zip_subs [OF assms(1)]
    by (simp add: page_rep_def z)
next
  case (Some k)
  have l: "length (map pid (subs its)) = length (map fst its)" using length_subs [OF assms(1)] by simp
  show ?thesis using node_rep_flat [OF l, of E r pg] zip_subs [OF assms(1)] assms(2)
    by (simp add: page_rep_def Some)
qed

lemma rep_mk:
  assumes "list_all (item_ok E h) its" "past_ok E h b past" "length its \<le> tt_max E"
  shows "rep E P r (mk h p its past) \<longleftrightarrow> (\<exists>pg. P p = Some pg \<and> page_rep E r h its past pg)
    \<and> list_all (rep E P False) (subs its @ past)"
proof (cases h)
  case 0
  then show ?thesis using assms subs_flat [of E its] by (auto simp: page_rep_def leaf_rep_data)
next
  case (Suc h')
  then show ?thesis using page_rep_node [of E h' its b past r] assms by auto
qed

lemma page_rep_count: "page_rep E r h its past pg \<Longrightarrow> pg_count pg = length its"
  by (simp add: page_rep_def data_rep_def)

lemma page_rep_last:
  assumes "page_rep E r h its past pg" "its \<noteq> []"
  shows "last_key pg = Inr (fst (last its))"
proof -
  obtain rest where rest: "pg_data pg = flat_of its @ rest" "pg_count pg = length its"
    using assms(1) by (auto simp: page_rep_def data_rep_def)
  have "pg_data pg ! (length its - 1) = flat_of its ! (length its - 1)"
    using assms(2) by (simp add: rest(1) nth_append)
  also have "fst \<dots> = fst (last its)" using assms(2) by (simp add: flat_of_def last_conv_nth split: prod.splits)
  finally show ?thesis using rest assms(2) last_key_run [of pg] by simp
qed

section \<open>Removing one entry\<close>

definition drop_nth :: "nat \<Rightarrow> 'a list \<Rightarrow> 'a list" where
  "drop_nth i xs = take i xs @ drop (Suc i) xs"

lemma length_drop_nth [simp]: "i < length xs \<Longrightarrow> length (drop_nth i xs) = length xs - 1"
  by (simp add: drop_nth_def)

lemma zip_drop_nth: "length xs = length ys \<Longrightarrow> zip (drop_nth i xs) (drop_nth i ys) = drop_nth i (zip xs ys)"
  by (simp add: drop_nth_def take_zip drop_zip zip_append)

lemma drop_nth_append: "i < length xs \<Longrightarrow> drop_nth i (xs @ ys) = drop_nth i xs @ ys"
  by (simp add: drop_nth_def)

lemma remove_in_page_run:
  assumes "pg_data pg = D @ rest" "pg_count pg = length D" "i < length D"
  shows "remove_in_page i pg = Inr (pg\<lparr>pg_data := drop_nth i D @ last D # rest, pg_count := length D - 1\<rparr>)"
proof -
  let ?n = "length D - Suc i"
  have l: "drop (i + ?n) (D @ rest) = last D # rest"
  proof -
    have "D = butlast D @ [last D]" using assms(3) by (cases D rule: rev_cases) auto
    then have "drop (length D - 1) (D @ rest) = last D # rest" by (metis append.assoc append_Cons append_Nil append_eq_conv_conj length_butlast)
    then show ?thesis using assms(3) by simp
  qed
  have "blit (pg_data pg) (i + 1) (pg_data pg) i ?n = Inr (drop_nth i D @ last D # rest)"
  proof (cases "?n = 0")
    case True
    then have "i = length D - 1" using assms(3) by simp
    then have "drop_nth i D = butlast D" using assms(3) by (simp add: drop_nth_def butlast_conv_take)
    moreover have "D = butlast D @ [last D]" using assms(3) by (cases D rule: rev_cases) auto
    ultimately have "D @ rest = drop_nth i D @ last D # rest" by (metis append.assoc append_Cons append_Nil)
    then show ?thesis using True assms(1) by (simp add: blit_def)
  next
    case False
    then show ?thesis using assms l by (subst blit_run) (simp_all add: drop_nth_def)
  qed
  then show ?thesis using assms by (simp add: remove_in_page_def move_entries_def)
qed

lemma data_rep_remove:
  assumes "data_rep E D pg" "i < length D"
  shows "\<exists>pg'. remove_in_page i pg = Inr pg' \<and> data_rep E (drop_nth i D) pg'
    \<and> pg_leaf pg' = pg_leaf pg \<and> pg_root pg' = pg_root pg \<and> pg_next pg' = pg_next pg"
proof -
  obtain rest where rest: "pg_data pg = D @ rest" using assms(1) by (auto simp: data_rep_def)
  show ?thesis using remove_in_page_run [OF rest _ assms(2)] assms rest by (auto simp: data_rep_def)
qed

lemma drop_edge_entry_run:
  assumes pg: "node_rep E r ks ps pg" and len: "length ps = length ks + 1" "length ks \<le> tt_max E" "ks \<noteq> []"
    and j: "j \<le> length ks"
  shows "\<exists>pg'. drop_edge_entry E j pg = Inr pg'
    \<and> node_rep E r (if j < length ks then drop_nth j ks else butlast ks) (drop_nth j ps) pg'"
proof (cases "j = length ks")
  case True
  have "0 < pg_count pg" using pg len(3) by (simp add: node_rep_def)
  then have "drop_edge_entry E j pg = Inr (pg\<lparr>pg_count := pg_count pg - 1\<rparr>)"
    using pg True by (simp add: drop_edge_entry_def node_rep_def Suc_le_eq)
  moreover have "node_rep E r (butlast ks) (drop_nth j ps) (pg\<lparr>pg_count := pg_count pg - 1\<rparr>)"
  proof -
    have k: "take (length ks) (map fst (pg_data pg)) = ks" "take (length ps) (ptrs pg) = ps" "pg_count pg = length ks"
      "\<not> pg_leaf pg" "pg_root pg = r" "length (pg_data pg) = tt_max E" using pg by (simp_all add: node_rep_def)
    have "take (length ks - 1) (map fst (pg_data pg)) = butlast ks" using k(1) len(3)
      by (metis butlast_conv_take diff_le_self min.absorb1 take_take)
    moreover have "take (length ks) (ptrs pg) = drop_nth j ps" using k(2) len(1) True
      by (simp add: drop_nth_def) (metis le_add1 min.absorb1 plus_1_eq_Suc take_take add.commute)
    moreover have "length (drop_nth j ps) = length ks" using True len(1) by (simp add: drop_nth_def)
    ultimately show ?thesis using k(3-6) by (simp add: node_rep_def ptrs_def)
  qed
  ultimately show ?thesis using True by simp
next
  case False
  then have jl: "j < length ks" using j by simp
  note n = node_rep_edge_split [OF pg len(1,2)]
  obtain z where z: "ps = butlast ps @ [z]" "last ps = z" using len(1) by (cases ps rule: rev_cases) auto
  have lb: "length (butlast ps) = length ks" using len(1) by simp
  let ?D = "zip ks (butlast ps)"
  have lD: "length ?D = length ks" using lb by simp
  obtain rest where rest: "pg_data pg = ?D @ rest" using n(3) by auto
  define p1 where "p1 = pg\<lparr>pg_data := drop_nth j ?D @ last ?D # rest, pg_count := length ks - 1\<rparr>"
  have r1: "remove_in_page j pg = Inr p1" using remove_in_page_run [OF rest _] n(4) jl lD by (simp add: p1_def)
  have ld: "length (drop_nth j ?D) = length ks - 1" using jl lD by simp
  have lp: "length (pg_data p1) = tt_max E" using n(5) rest jl lD ld by (simp add: p1_def)
  have past: "(if length ks < tt_max E then snd (pg_data p1 ! length ks) else pg_next p1) = z"
    using n(2,4) z(2) rest lD ld jl by (auto simp: past_ptr_def p1_def nth_append nth_Cons' split: if_splits)
  define pg' where "pg' = p1\<lparr>pg_data := drop_nth j ?D @ (fst (last ?D), z) # rest\<rparr>"
  have sp: "set_ptr (length ks - 1) z p1 = Inr pg'"
    using lp ld jl len(2) by (simp add: pg'_def) (simp add: p1_def list_update_append nth_append)
  have c1: "Suc (pg_count p1) = length ks" using jl by (simp add: p1_def)
  have "drop_edge_entry E j pg = Inr pg'"
  proof (cases "length ks < tt_max E")
    case True
    then show ?thesis using False n(4) r1 c1 lp past sp jl
      by (simp add: drop_edge_entry_def) (simp add: p1_def)
  next
    case False
    then show ?thesis using \<open>j \<noteq> length ks\<close> n(4) r1 c1 past sp jl
      by (simp add: drop_edge_entry_def) (simp add: p1_def)
  qed
  moreover have "node_rep E r (drop_nth j ks) (drop_nth j (butlast ps) @ [z]) pg'"
  proof (rule node_rep_edgeI)
    show "data_rep E (zip (drop_nth j ks) (drop_nth j (butlast ps))) pg'"
      unfolding zip_drop_nth [OF lb [symmetric]] using ld lp jl by (simp add: data_rep_def pg'_def p1_def)
    have "length ks - 1 < tt_max E" using jl len(2) by simp
    then show "past_ptr E pg' = z" using ld by (simp add: past_ptr_def pg'_def p1_def nth_append)
  qed (use pg jl lb len(2) in \<open>auto simp: pg'_def p1_def node_rep_def\<close>)
  moreover have "drop_nth j (butlast ps) @ [z] = drop_nth j ps"
    using drop_nth_append [of j "butlast ps" "[z]"] jl lb z(1) by simp
  ultimately show ?thesis using jl by auto
qed

section \<open>Two neighbouring pages\<close>

definition same_kind :: "'k bpage \<Rightarrow> 'k bpage \<Rightarrow> bool" where
  "same_kind pg pg' \<longleftrightarrow> pg_leaf pg' = pg_leaf pg \<and> pg_root pg' = pg_root pg"

lemma data_repE:
  assumes "data_rep E D pg"
  obtains rest where "pg_data pg = D @ rest" "pg_count pg = length D" "length D + length rest = tt_max E"
  using assms by (auto simp: data_rep_def)

lemma push_front:
  assumes "length D < tt_max E" "pg_data pg = D @ rest" "length D + length rest = tt_max E" "pg_count pg = length D"
  shows "\<exists>g1. move_entries 1 0 (length D) pg = Inr g1
    \<and> set_entry 0 x g1 = Inr (pg\<lparr>pg_data := x # D @ tl rest\<rparr>)"
proof -
  obtain y rest' where r: "rest = y # rest'" using assms by (cases rest) auto
  have "blit (pg_data pg) 0 (pg_data pg) 1 (length D) = Inr (take 1 (pg_data pg) @ D @ rest')"
  proof (cases "D = []")
    case True
    then show ?thesis using assms by (simp add: blit_def r)
  next
    case False
    then show ?thesis using assms r by (subst blit_run) simp_all
  qed
  moreover have "take 1 (pg_data pg) = [hd (pg_data pg)]" using assms(2) r by (cases D) simp_all
  then have "(take 1 (pg_data pg) @ D @ rest')[0 := x] = x # D @ tl rest" "take 1 (pg_data pg) \<noteq> []"
    using r by simp_all
  ultimately show ?thesis by (simp add: move_entries_def)
qed

lemma borrow_prev_run:
  assumes "data_rep E (D0 @ [x]) prev" "data_rep E D page" "length D < tt_max E"
  shows "\<exists>prev' page'. borrow_prev prev page = Inr (prev', page') \<and> data_rep E D0 prev' \<and> data_rep E (x # D) page'
    \<and> same_kind prev prev' \<and> same_kind page page' \<and> pg_next prev' = pg_next prev \<and> pg_next page' = pg_next page"
proof -
  obtain r0 where r0: "pg_data prev = (D0 @ [x]) @ r0" "pg_count prev = length (D0 @ [x])" "length (D0 @ [x]) + length r0 = tt_max E"
    using data_repE [OF assms(1)] .
  obtain r where r: "pg_data page = D @ r" "pg_count page = length D" "length D + length r = tt_max E"
    using data_repE [OF assms(2)] .
  obtain g1 where g1: "move_entries 1 0 (length D) page = Inr g1" "set_entry 0 x g1 = Inr (page\<lparr>pg_data := x # D @ tl r\<rparr>)"
    using push_front [OF assms(3) r(1,3,2)] by blast
  have "borrow_prev prev page = Inr (prev\<lparr>pg_count := length D0\<rparr>, page\<lparr>pg_data := x # D @ tl r, pg_count := length D + 1\<rparr>)"
    using r0 r(2) g1 by (simp add: borrow_prev_def nth_append)
  then show ?thesis using r0 r assms(3) by (cases r) (auto simp: data_rep_def same_kind_def)
qed

lemma borrow_next_run:
  assumes "data_rep E D page" "data_rep E (x # D1) nxt" "length D < tt_max E"
  shows "\<exists>page' nxt'. borrow_next E past page nxt = Inr (page', nxt') \<and> data_rep E (D @ [x]) page' \<and> data_rep E D1 nxt'
    \<and> (past \<longrightarrow> past_ptr E nxt' = past_ptr E nxt)
    \<and> same_kind page page' \<and> same_kind nxt nxt' \<and> pg_next page' = pg_next page \<and> pg_next nxt' = pg_next nxt"
proof -
  obtain r where r: "pg_data page = D @ r" "pg_count page = length D" "length D + length r = tt_max E"
    using data_repE [OF assms(1)] .
  obtain r1 where r1: "pg_data nxt = (x # D1) @ r1" "pg_count nxt = length (x # D1)" "length (x # D1) + length r1 = tt_max E"
    using data_repE [OF assms(2)] .
  obtain y r' where r': "r = y # r'" using r assms(3) by (cases r) auto
  let ?c = "length D1"
  define w where "w = last (x # D1)"
  have dr: "drop ?c (pg_data nxt) = w # r1"
  proof -
    have "x # D1 = butlast (x # D1) @ [w]" by (simp add: w_def)
    then have "pg_data nxt = butlast (x # D1) @ w # r1" using r1(1) by (metis append.assoc append_Cons append_Nil)
    moreover have "length (butlast (x # D1)) = ?c" by simp
    ultimately show ?thesis by (metis append_eq_conv_conj)
  qed
  define n2 where "n2 = nxt\<lparr>pg_data := D1 @ w # r1, pg_count := ?c\<rparr>"
  have nn: "pg_next n2 = pg_next nxt" by (simp add: n2_def)
  have mv: "move_entries 0 1 ?c nxt = Inr (nxt\<lparr>pg_data := D1 @ w # r1\<rparr>)"
  proof (cases "?c = 0")
    case True
    then show ?thesis using r1(1) dr by (simp add: move_entries_def blit_def)
  next
    case False
    then show ?thesis using r1 dr by (simp add: move_entries_def blit_run)
  qed
  define z where "z = past_ptr E nxt"
  define n3 where "n3 = (if past then n2\<lparr>pg_data := D1 @ (fst w, z) # r1\<rparr> else n2)"
  have s3: "(if \<not> past then Inr n2 else if ?c + 1 = tt_max E then set_ptr ?c (pg_next n2) n2
       else rbind (get_entry (?c + 1) n2) (\<lambda>y. set_ptr ?c (snd y) n2)) = Inr n3"
  proof (cases "?c + 1 = tt_max E")
    case True
    then have "z = pg_next n2" using r1 by (simp add: z_def past_ptr_def n2_def)
    then show ?thesis using True by (simp add: n3_def n2_def list_update_append nth_append)
  next
    case False
    then obtain y1 r1' where "r1 = y1 # r1'" using r1 by (cases r1) auto
    then have "z = snd y1" using r1 False by (auto simp: z_def past_ptr_def nth_append)
    then show ?thesis using False \<open>r1 = y1 # r1'\<close> by (simp add: n3_def n2_def list_update_append nth_append)
  qed
  have "borrow_next E past page nxt = Inr (page\<lparr>pg_data := (D @ r)[length D := x], pg_count := length D + 1\<rparr>, n3)"
  proof (cases "Suc (length D1) = tt_max E")
    case True
    show ?thesis using r r1(1,2) r' mv s3 nn
      by (cases past) (simp_all add: borrow_next_def Let_def n2_def [symmetric] True [symmetric])
  next
    case False
    then show ?thesis using r r1 r' mv s3
      by (cases past) (simp_all add: borrow_next_def Let_def n2_def [symmetric])
  qed
  moreover have "(D @ r)[length D := x] = (D @ [x]) @ r'" by (simp add: r' list_update_append)
  moreover have "past \<longrightarrow> past_ptr E n3 = z" using r1 by (simp add: past_ptr_def n3_def n2_def)
  ultimately show ?thesis using r r1 r' by (auto simp: data_rep_def same_kind_def n3_def n2_def z_def)
qed

lemma copy_behind:
  assumes "data_rep E D dst" "data_rep E D1 src" "length D + length D1 \<le> tt_max E"
  shows "\<exists>rest. copy_entries src 0 (length D) (length D1) dst = Inr (dst\<lparr>pg_data := D @ D1 @ rest\<rparr>)
    \<and> rest = drop (length D + length D1) (pg_data dst)"
proof -
  obtain r where r: "pg_data dst = D @ r" "length D + length r = tt_max E" using data_repE [OF assms(1)] by metis
  obtain r1 where r1: "pg_data src = D1 @ r1" "length D1 + length r1 = tt_max E" using data_repE [OF assms(2)] by metis
  show ?thesis
  proof (cases "D1 = []")
    case True
    then show ?thesis using r by (simp add: copy_entries_def blit_def)
  next
    case False
    then show ?thesis using r r1 assms(3) by (simp add: copy_entries_def blit_run)
  qed
qed

lemma merge_into_prev_run:
  assumes "data_rep E D0 prev" "data_rep E D page" "length D0 + length D \<le> tt_max E"
  shows "\<exists>v. merge_into_prev prev page = Inr v \<and> data_rep E (D0 @ D) v \<and> same_kind prev v \<and> pg_next v = pg_next page"
proof -
  obtain rest where c: "copy_entries page 0 (length D0) (length D) prev = Inr (prev\<lparr>pg_data := D0 @ D @ rest\<rparr>)"
    "rest = drop (length D0 + length D) (pg_data prev)" using copy_behind [OF assms] by blast
  have "pg_count prev = length D0" "pg_count page = length D" "length (pg_data prev) = tt_max E"
    using assms by (simp_all add: data_rep_def)
  then show ?thesis using c assms(3) by (simp add: merge_into_prev_def data_rep_def same_kind_def)
qed

lemma merge_next_run:
  assumes "data_rep E D page" "data_rep E D1 nxt" "length D + length D1 \<le> tt_max E" "length D1 < tt_max E"
  shows "\<exists>v. merge_next E rec past page nxt = Inr v \<and> data_rep E (D @ D1) v \<and> same_kind page v
    \<and> (rec \<and> past \<longrightarrow> past_ptr E v = past_ptr E nxt) \<and> (\<not> rec \<longrightarrow> pg_next v = pg_next nxt)"
proof -
  have n: "pg_count page = length D" "pg_count nxt = length D1" "length (pg_data page) = tt_max E" "length (pg_data nxt) = tt_max E"
    using assms by (simp_all add: data_rep_def)
  define z where "z = past_ptr E nxt"
  have z: "snd (pg_data nxt ! length D1) = z" using n assms(4) by (simp add: z_def past_ptr_def)
  let ?dest = "length D1 + length D"
  define g1 where "g1 = (if rec \<and> past then if ?dest = tt_max E then page\<lparr>pg_next := z\<rparr>
      else page\<lparr>pg_data := (pg_data page)[?dest := (fst (pg_data page ! ?dest), z)]\<rparr> else page)"
  have s1: "(if rec \<and> past then rbind (get_entry (length D1) nxt) (\<lambda>e.
       if ?dest = tt_max E then Inr (page\<lparr>pg_next := snd e\<rparr>) else set_ptr ?dest (snd e) page) else Inr page) = Inr g1"
    using n assms(3,4) z by (simp add: g1_def)
  define g2 where "g2 = (if rec then g1 else g1\<lparr>pg_next := pg_next nxt\<rparr>)"
  have d2: "data_rep E D g2"
  proof -
    obtain r where "pg_data page = D @ r" using data_repE [OF assms(1)] by metis
    then show ?thesis using assms(1) by (auto simp: g2_def g1_def data_rep_def list_update_append)
  qed
  obtain rest where c: "copy_entries nxt 0 (length D) (length D1) g2 = Inr (g2\<lparr>pg_data := D @ D1 @ rest\<rparr>)"
    "rest = drop (length D + length D1) (pg_data g2)" using copy_behind [OF d2 assms(2,3)] by blast
  have g2c: "pg_count g2 = length D" "length (pg_data g2) = tt_max E" using d2 by (simp_all add: data_rep_def)
  define v where "v = g2\<lparr>pg_data := D @ D1 @ rest, pg_count := ?dest\<rparr>"
  have run: "merge_next E rec past page nxt = Inr v"
    using n s1 c(1) g2c by (cases rec; cases past) (simp_all add: merge_next_def Let_def v_def g2_def)
  have "past_ptr E v = z" if "rec \<and> past"
  proof (cases "?dest = tt_max E")
    case True
    then show ?thesis using that by (simp add: past_ptr_def v_def g2_def g1_def)
  next
    case False
    then have l: "?dest < tt_max E" using assms(3) by simp
    have "pg_data v ! ?dest = pg_data g2 ! ?dest" unfolding v_def c(2) using g2c l
      by (simp add: nth_append add.commute)
    then show ?thesis using l that n by (simp add: past_ptr_def v_def g2_def g1_def)
  qed
  moreover have "data_rep E (D @ D1) v" using c(2) g2c assms(3) by (simp add: data_rep_def v_def)
  moreover have "same_kind page v" "\<not> rec \<longrightarrow> pg_next v = pg_next nxt" by (simp_all add: same_kind_def v_def g2_def g1_def)
  ultimately show ?thesis using run by (auto simp: z_def)
qed

lemma borrow_edge_run:
  assumes "data_rep E (D0 @ [x]) prev" "data_rep E D page" "length D + 1 < tt_max E"
  shows "\<exists>prev' page'. borrow_edge prev page = Inr (prev', page') \<and> data_rep E D0 prev' \<and> data_rep E (x # D) page'
    \<and> past_ptr E page' = past_ptr E page \<and> same_kind prev prev' \<and> same_kind page page'"
proof -
  obtain r0 where r0: "pg_data prev = (D0 @ [x]) @ r0" "pg_count prev = length (D0 @ [x])" "length (D0 @ [x]) + length r0 = tt_max E"
    using data_repE [OF assms(1)] .
  obtain r where r: "pg_data page = D @ r" "pg_count page = length D" "length D + length r = tt_max E"
    using data_repE [OF assms(2)] .
  obtain y y' r' where r': "r = y # y' # r'" using r assms(3) by (cases r; cases "tl r") auto
  have past: "past_ptr E page = snd y" using r r' assms(3) by (simp add: past_ptr_def)
  define g1 where "g1 = page\<lparr>pg_data := D @ y # (fst y', snd y) # r'\<rparr>"
  have s1: "get_entry (length D) page = Inr y" "set_ptr (length D + 1) (snd y) page = Inr g1"
    using r r' by (simp_all add: g1_def list_update_append nth_append)
  obtain g2 where g2: "move_entries 1 0 (length D) g1 = Inr g2" "set_entry 0 x g2 = Inr (g1\<lparr>pg_data := x # D @ (fst y', snd y) # r'\<rparr>)"
    using push_front [of D E g1 "y # (fst y', snd y) # r'" x] r r' assms(3) by (auto simp: g1_def)
  have "borrow_edge prev page = Inr (prev\<lparr>pg_count := length D0\<rparr>,
      page\<lparr>pg_data := x # D @ (fst y', snd y) # r', pg_count := length D + 1\<rparr>)"
    using r0 r(2) s1 g2 by (simp add: borrow_edge_def nth_append) (simp add: g1_def)
  then show ?thesis using r0 r r' assms(3) past
    by (auto simp: data_rep_def same_kind_def past_ptr_def nth_append)
qed

lemma merge_edge_run:
  assumes "data_rep E D0 prev" "data_rep E D page" "length D0 + length D \<le> tt_max E" "length D < tt_max E"
  shows "\<exists>v. merge_edge E prev page = Inr v \<and> data_rep E (D0 @ D) v \<and> same_kind prev v \<and> past_ptr E v = past_ptr E page"
proof -
  obtain rest where c: "copy_entries page 0 (length D0) (length D) prev = Inr (prev\<lparr>pg_data := D0 @ D @ rest\<rparr>)"
    "rest = drop (length D0 + length D) (pg_data prev)" using copy_behind [OF assms(1-3)] by blast
  have n: "pg_count prev = length D0" "pg_count page = length D" "length (pg_data prev) = tt_max E" "length (pg_data page) = tt_max E"
    using assms by (simp_all add: data_rep_def)
  have past: "past_ptr E page = snd (pg_data page ! length D)" using n assms(4) by (simp add: past_ptr_def)
  show ?thesis
  proof (cases "length D0 + length D = tt_max E")
    case True
    then show ?thesis using c n assms(4) past
      by (simp add: merge_edge_def Let_def data_rep_def same_kind_def past_ptr_def)
  next
    case False
    have lr: "length D0 + (length D + length rest) = tt_max E" using c(2) n assms(3) by simp
    then have "rest \<noteq> []" using False by (cases rest) simp_all
    then obtain y rest' where "rest = y # rest'" by (cases rest) auto
    then show ?thesis using False c(1) lr n assms(3,4) past
      by (auto simp: merge_edge_def Let_def data_rep_def same_kind_def past_ptr_def list_update_append nth_append)
  qed
qed

end
