(* ===== verification/Bpt_Bounds.thy ===== *)
theory Bpt_Bounds
  imports Bpt_Items
begin

text \<open>
  Bounds after a removal: when the greatest key of a subtree changes, \<^verbatim>\<open>TryUpdateTillRoot\<close> writes
  the new one into the parents as far as the subtree is their last one.
\<close>

section \<open>Bounds in a context\<close>

fun set_bound :: "'k \<Rightarrow> 'k frame_of list \<Rightarrow> 'k frame_of list" where
  "set_bound k [] = []"
| "set_bound k ((p, ks, l, r) # fs) =
     (if length l < length ks
      then (p, ks[length l := k], l, r) # (if length l + 1 = length ks then set_bound k fs else fs)
      else (p, ks, l, r) # fs)"

lemma set_bound_same [simp]:
  "path_of (set_bound k fs) = path_of fs" "ctx_ids (set_bound k fs) = ctx_ids fs"
  "ctx_root (set_bound k fs) p = ctx_root fs p" "set_bound k fs = [] \<longleftrightarrow> fs = []"
  by (induction k fs arbitrary: p rule: set_bound.induct) auto

lemma around_set_bound [simp]: "around f (set_bound k fs) m = around f fs m"
  by (induction k fs arbitrary: m rule: set_bound.induct) auto

lemma set_bound_edge: "ctx_shape E h fs None \<Longrightarrow> set_bound k fs = fs"
proof (cases fs)
  case (Cons f fs')
  obtain p ks l r where f: "f = (p, ks, l, r)" by (cases f)
  assume "ctx_shape E h fs None"
  then have "length l = length ks" using ctx_shape_edge(1) [of E h p ks l r fs' None] by (simp add: Cons f)
  then show ?thesis by (simp add: Cons f)
qed simp

lemma last_update:
  "i + 1 = length ks \<Longrightarrow> last (ks[i := k]) = k" "i + 1 < length ks \<Longrightarrow> last (ks[i := k]) = last ks"
  by (cases ks rule: rev_cases; auto simp: list_update_append)+

lemma bnds_update: "i < length ks \<Longrightarrow> bnds b (ks[i := k]) = (bnds b ks)[i := Some k]"
  by (simp add: bnds_def map_update list_update_append)

lemma bnds_cong: "(b = None) = (b' = None) \<Longrightarrow> bnds b ks = bnds b' ks"
  by (auto simp: bnds_def)

lemma ctx_shape_set_bound: "ctx_shape E h fs (Some k0) \<Longrightarrow> ctx_shape E h (set_bound k fs) (Some k)"
proof (induction fs arbitrary: h k0)
  case (Cons f fs)
  obtain p ks l r where f: "f = (p, ks, l, r)" by (cases f)
  obtain b' bl br where c: "ctx_shape E (Suc h) fs b'" "fill E (fs = []) (length ks)" "top_is b' ks"
    "bnds b' ks = bl @ Some k0 # br" "list_all2 (shape E False h) bl l" "list_all2 (shape E False h) br r"
    using Cons.prems by (auto simp: f)
  have ll: "length bl = length l" using list_all2_lengthD [OF c(5)] .
  have il: "length l < length ks" using bnds_at [OF c(4) ll [symmetric]] by fastforce
  define fs' where "fs' = (if length l + 1 = length ks then set_bound k fs else fs)"
  define b'' where "b'' = (if length l + 1 = length ks \<and> b' \<noteq> None then Some k else b')"
  have "ctx_shape E (Suc h) fs' b''"
  proof (cases b')
    case None
    then show ?thesis using c(1) set_bound_edge [of E "Suc h" fs k] by (simp add: fs'_def b''_def)
  next
    case (Some k1)
    then show ?thesis using Cons.IH [of "Suc h" k1] c(1) by (simp add: fs'_def b''_def)
  qed
  moreover have "top_is b'' (ks[length l := k])"
  proof (cases "length l + 1 = length ks")
    case True
    then have "last (ks[length l := k]) = k" by (rule last_update(1))
    then show ?thesis using True by (cases b') (simp_all add: b''_def)
  next
    case False
    then show ?thesis using c(3) il last_update(2) [of "length l" ks k] by (cases b') (auto simp: b''_def)
  qed
  moreover have "bnds b'' (ks[length l := k]) = bl @ Some k # br"
  proof -
    have "bnds b'' (ks[length l := k]) = bnds b' (ks[length l := k])" by (rule bnds_cong) (auto simp: b''_def)
    also have "\<dots> = (bl @ Some k0 # br)[length l := Some k]" using bnds_update [OF il] c(4) by simp
    finally show ?thesis by (simp add: ll [symmetric])
  qed
  moreover have "fs' = [] \<longleftrightarrow> fs = []" by (simp add: fs'_def)
  moreover have "set_bound k (f # fs) = (p, ks[length l := k], l, r) # fs'" using il by (simp add: f fs'_def)
  ultimately show ?case using c(2,5,6) by auto
qed simp

section \<open>TryUpdateTillRoot\<close>

text \<open>\<open>only_in X S S'\<close>: only the pages in \<open>X\<close> differ, and neither the chain nor the allocator.\<close>

definition only_in :: "nat set \<Rightarrow> 'k bpt \<Rightarrow> 'k bpt \<Rightarrow> bool" where
  "only_in X S S' \<longleftrightarrow> (\<forall>x. x \<notin> X \<longrightarrow> bt_pages S' x = bt_pages S x) \<and> dom (bt_pages S') = dom (bt_pages S)
     \<and> bt_free S' = bt_free S \<and> bt_total S' = bt_total S \<and> bt_root S' = bt_root S \<and> bt_siz S' = bt_siz S
     \<and> (\<forall>x. next_of (bt_pages S') x = next_of (bt_pages S) x)"

lemma only_inD:
  assumes "only_in X S S'"
  shows "x \<notin> X \<Longrightarrow> bt_pages S' x = bt_pages S x" "dom (bt_pages S') = dom (bt_pages S)" "bt_root S' = bt_root S"
    "bt_siz S' = bt_siz S" "next_of (bt_pages S') = next_of (bt_pages S)" "alloc_ok S' = alloc_ok S"
  using assms by (auto simp: only_in_def alloc_ok_def)

lemma only_in_refl [simp]: "only_in X S S"
  by (simp add: only_in_def)

lemma only_in_trans: "only_in X S S1 \<Longrightarrow> only_in Y S1 S' \<Longrightarrow> X \<subseteq> Z \<Longrightarrow> Y \<subseteq> Z \<Longrightarrow> only_in Z S S'"
  unfolding only_in_def by (metis subsetD)

lemma only_in_store:
  assumes "bt_pages S p = Some pg" "pg_next pg' = pg_next pg"
  shows "only_in {p} S (store p pg' S)"
  using assms by (auto simp: only_in_def next_of_def)

lemma node_rep_set_key:
  assumes "node_rep E r ks ps pg" "i < length ks" "length ks \<le> tt_max E"
  shows "\<exists>pg'. set_key i k pg = Inr pg' \<and> node_rep E r (ks[i := k]) ps pg' \<and> pg_next pg' = pg_next pg"
proof -
  let ?pg = "pg\<lparr>pg_data := (pg_data pg)[i := (k, snd (pg_data pg ! i))]\<rparr>"
  have l: "length (pg_data pg) = tt_max E" using assms(1) by (simp add: node_rep_def)
  have "map snd ((pg_data pg)[i := (k, snd (pg_data pg ! i))]) = map snd (pg_data pg)"
    using l assms(2,3) by (simp add: map_update) (metis list_update_id nth_map order_less_le_trans)
  then have "ptrs ?pg = ptrs pg" by (simp add: ptrs_def)
  moreover have "take (length ks) (map fst (pg_data ?pg)) = ks[i := k]"
    using assms by (simp add: node_rep_def map_update take_update_swap)
  ultimately have "node_rep E r (ks[i := k]) ps ?pg" using assms(1) by (simp add: node_rep_def)
  then show ?thesis using l assms(2,3) by simp
qed

lemma node_rep_last:
  assumes "node_rep E r ks ps pg" "ks \<noteq> []" "length ks \<le> tt_max E"
  shows "last_key pg = Inr (last ks)"
proof -
  have t: "take (length ks) (map fst (pg_data pg)) = ks" "pg_count pg = length ks" "length (pg_data pg) = tt_max E"
    using assms(1) by (simp_all add: node_rep_def)
  have "map fst (pg_data pg) ! (length ks - 1) = last ks"
    using t(1) assms(2) by (metis diff_less last_conv_nth length_greater_0_conv nth_take zero_less_one)
  moreover have "length ks - 1 < length (pg_data pg)" using assms(2,3) t(3) by (cases ks) auto
  ultimately show ?thesis using t(2,3) assms(2,3) last_key_run [of pg] by simp
qed

lemma try_update_ok:
  "ctx_rep E (bt_pages S) fs p \<Longrightarrow> ctx_shape E h fs b \<Longrightarrow> distinct (p # ctx_ids fs) \<Longrightarrow>
    bt_pages S p = Some pg \<Longrightarrow> last_key pg = Inr k \<Longrightarrow>
    \<exists>S'. try_update_till_root ((p, i) # path_of fs) S = Inr S' \<and> only_in (set (ctx_ids fs)) S S'
      \<and> ctx_rep E (bt_pages S') (if i + 1 = pg_count pg then set_bound k fs else fs) p"
proof (induction fs arbitrary: p h b pg k i S)
  case (Cons f fs)
  obtain pp ks l r where f: "f = (pp, ks, l, r)" by (cases f)
  obtain par b' bl br where c: "bt_pages S pp = Some par" "node_rep E (fs = []) ks (map pid l @ p # map pid r) par"
    "list_all (rep E (bt_pages S) False) l" "list_all (rep E (bt_pages S) False) r" "ctx_rep E (bt_pages S) fs pp"
    "ctx_shape E (Suc h) fs b'" "fill E (fs = []) (length ks)" "top_is b' ks" "bnds b' ks = bl @ b # br"
    "length bl = length l" "list_all2 (shape E False h) bl l" "list_all2 (shape E False h) br r"
    by (rule frame_facts [OF Cons.prems(1,2) [unfolded f]])
  have cnt: "pg_count par = length ks" using c(2) by (simp add: node_rep_def)
  have lk: "length ks \<le> tt_max E" using c(7) by (simp add: fill_def)
  show ?case
  proof (cases "i + 1 = pg_count pg \<and> length l < length ks")
    case False
    then show ?thesis using Cons.prems(1,4) c(1) cnt
      by (intro exI [of _ S]) (auto simp: f load_Some simp del: ctx_rep.simps)
  next
    case True
    obtain par' where par': "set_key (length l) k par = Inr par'"
      "node_rep E (fs = []) (ks[length l := k]) (map pid l @ p # map pid r) par'" "pg_next par' = pg_next par"
      using node_rep_set_key [OF c(2) _ lk, of "length l" k] True by blast
    let ?S = "store pp par' S"
    have o1: "only_in {pp} S ?S" using only_in_store [OF c(1) par'(3)] .
    have d: "distinct (pp # ctx_ids fs)" "pp \<notin> set (concat (map pids l)) \<union> set (concat (map pids r))"
      "set (ctx_ids fs) \<inter> (set (concat (map pids l)) \<union> set (concat (map pids r))) = {}"
      using Cons.prems(3) by (auto simp: f)
    have cr: "ctx_rep E (bt_pages ?S) fs pp" by (rule ctx_rep_cong [OF c(5)]) (use d in auto)
    have pp': "bt_pages ?S pp = Some par'" by simp
    have "ks \<noteq> []" using True by auto
    then have lk': "last_key par' = Inr (last (ks[length l := k]))"
      using node_rep_last [OF par'(2)] lk by simp
    obtain S' where S': "try_update_till_root ((pp, length l) # path_of fs) ?S = Inr S'"
      "only_in (set (ctx_ids fs)) ?S S'"
      "ctx_rep E (bt_pages S') (if length l + 1 = pg_count par' then set_bound (last (ks[length l := k])) fs else fs) pp"
      using Cons.IH [OF cr c(6) d(1) pp' lk', of "length l"] by blast
    have cnt': "pg_count par' = length ks" using par'(2) by (simp add: node_rep_def)
    have top: "set_bound (last (ks[length l := k])) fs = set_bound k fs" if "length l + 1 = length ks"
      using last_update(1) [OF that, of k] by simp
    have same: "bt_pages S' x = bt_pages S x" if "x \<in> set (concat (map pids l)) \<union> set (concat (map pids r))" for x
    proof -
      have "x \<notin> set (ctx_ids fs)" "x \<noteq> pp" using that d(2,3) by blast+
      then show ?thesis using only_inD(1) [OF S'(2), of x] by simp
    qed
    have "bt_pages S' pp = Some par'" using only_inD(1) [OF S'(2), of pp] d(1) by simp
    moreover have "list_all (rep E (bt_pages S') False) l" "list_all (rep E (bt_pages S') False) r"
      using rep_list_cong [OF c(3)] rep_list_cong [OF c(4)] same by blast+
    moreover have "(if length l + 1 = length ks then set_bound k fs else fs) = [] \<longleftrightarrow> fs = []" by simp
    ultimately have "ctx_rep E (bt_pages S') (set_bound k (f # fs)) p"
      using S'(3) par'(2) True top cnt' by (auto simp: f)
    moreover have "only_in (set (ctx_ids (f # fs))) S S'"
      by (rule only_in_trans [OF o1 S'(2)]) (auto simp: f)
    moreover have "try_update_till_root ((p, i) # path_of (f # fs)) S = Inr S'"
      using S'(1) True Cons.prems(4,5) c(1) cnt par'(1) by (simp add: f load_Some)
    ultimately show ?thesis using True by auto
  qed
qed (auto simp: path_of_def)

text \<open>A subtree is put back and its bound made known above it.\<close>

lemma close_hole:
  assumes "hole E S h fs b (pid t) (pids t)" "rep E (bt_pages S) (fs = []) t" "shape E (fs = []) h b t"
    "linked (next_of (bt_pages S)) (around leaf_ids fs (leaf_ids t))" "bt_siz S = bt_siz S0"
  shows "tree_with E S0 S (around entries fs (entries t))"
  using grown_tree_with [OF fill_hole [OF assms(1-3)], folded around_def] assms(4,5) by simp

lemma settle:
  assumes ho: "hole E S h fs b (pid t) (pids t)" and rp: "rep E (bt_pages S) (fs = []) t"
    and pg: "bt_pages S (pid t) = Some pg" "last_key pg = Inr k"
    and sh: "shape E (fs = []) h (map_option (\<lambda>_. k) b) t"
    and li: "linked (next_of (bt_pages S)) (around leaf_ids fs (leaf_ids t))"
    and i: "i + 1 = pg_count pg \<or> b = map_option (\<lambda>_. k) b" and sz: "bt_siz S = bt_siz S0"
  shows "\<exists>S'. try_update_till_root ((pid t, i) # path_of fs) S = Inr S' \<and> tree_with E S0 S' (around entries fs (entries t))"
proof -
  note d = holeD [OF ho]
  have di: "distinct (pid t # ctx_ids fs)" using d(5) pid_mem [of t] by (metis disjoint_iff distinct.simps(2) distinct_append)
  define fs' where "fs' = (if i + 1 = pg_count pg then set_bound k fs else fs)"
  define b' where "b' = map_option (\<lambda>_. k) b"
  obtain S' where S': "try_update_till_root ((pid t, i) # path_of fs) S = Inr S'" "only_in (set (ctx_ids fs)) S S'"
    "ctx_rep E (bt_pages S') fs' (pid t)"
    using try_update_ok [OF d(2,3) di pg] unfolding fs'_def by blast
  note o = only_inD [OF S'(2)]
  have "ctx_shape E h fs' b'"
  proof (cases b)
    case None
    then show ?thesis using d(3) set_bound_edge [of E h fs k] by (simp add: fs'_def b'_def)
  next
    case (Some kb)
    then show ?thesis using d(3) i ctx_shape_set_bound [of E h fs kb k] by (auto simp: fs'_def b'_def)
  qed
  moreover have fs': "ctx_ids fs' = ctx_ids fs" "ctx_root fs' (pid t) = ctx_root fs (pid t)" "fs' = [] \<longleftrightarrow> fs = []"
    "around g fs' m = around g fs m" for g :: "'a tr \<Rightarrow> 'c list" and m by (simp_all add: fs'_def)
  moreover have "around leaf_ids fs' (leaf_ids t) = around leaf_ids fs (leaf_ids t)" by (simp add: fs'_def)
  ultimately have ho': "hole E S' h fs' b' (pid t) (pids t)" using d S'(3) o by (simp add: hole_def)
  have "rep E (bt_pages S') (fs' = []) t"
  proof -
    have "\<forall>x\<in>set (pids t). bt_pages S' x = bt_pages S x" using d(5) o(1) by auto
    then show ?thesis using rep_cong [OF rp] fs'(3) by simp
  qed
  moreover have "shape E (fs' = []) h b' t" using sh by (simp add: b'_def fs'_def)
  moreover have "linked (next_of (bt_pages S')) (around leaf_ids fs' (leaf_ids t))" using li o(5) by (simp add: fs'_def)
  ultimately have "tree_with E S0 S' (around entries fs' (entries t))" using close_hole [OF ho'] o(4) sz by simp
  moreover have "around entries fs' (entries t) = around entries fs (entries t)" by (simp add: fs'_def)
  ultimately show ?thesis using S'(1) by auto
qed

end
