(* ===== verification/Bpt_Edge.thy ===== *)
theory Bpt_Edge
  imports Bpt_Bounds
begin

text \<open>
  Removal on the right edge (\<^verbatim>\<open>RemoveEntryInRightSkewPath\<close>): a page of the edge loses a child; it
  borrows from the page before it, is merged into it, or, as a root without keys, gives way to
  its only child.
\<close>

lemma hole_part:
  assumes "hole E S h fs b p ids" "alloc_ok S'" "bt_root S' = bt_root S"
    "\<forall>x\<in>set (ctx_ids fs). bt_pages S' x = bt_pages S x" "mset ids = mset (ids' @ rest)" "set ids' \<subseteq> dom (bt_pages S')"
  shows "hole E S' h fs b p ids'"
proof (rule hole_change [OF assms(1-4)])
  have "mset (ids @ ctx_ids fs) = mset ((ids' @ ctx_ids fs) @ rest)" using assms(5) by simp
  then have "distinct ((ids' @ ctx_ids fs) @ rest)" using holeD(5) [OF assms(1)] by (metis mset_eq_imp_distinct_iff)
  then show "distinct (ids' @ ctx_ids fs)" by (simp only: distinct_append)
qed (rule assms)

lemma kids_items:
  assumes "list_all2 (shape E False h) (map Some ks) cs"
  obtains its where "list_all (item_ok E (Suc h)) its" "subs its = cs" "map fst its = ks" "ents its = concat (map entries cs)"
    "flat_of its = zip ks (map pid cs)" "length its = length cs"
proof -
  have "list_all (item_ok E (Suc h)) (zip ks (map Sub cs)) \<and> subs (zip ks (map Sub cs)) = cs
      \<and> map fst (zip ks (map Sub cs)) = ks \<and> ents (zip ks (map Sub cs)) = concat (map entries cs)
      \<and> flat_of (zip ks (map Sub cs)) = zip ks (map pid cs) \<and> length (zip ks (map Sub cs)) = length cs"
    using assms
  proof (induction ks arbitrary: cs)
    case (Cons k ks)
    then show ?case by (auto simp: list_all2_Cons1 ents_def)
  qed simp
  then show thesis using that by blast
qed

lemma ents_concat: "list_all (item_ok E (Suc h)) its \<Longrightarrow> ents its = concat (map entries (subs its))"
  by (induction its) (auto simp: ents_def)

lemma lids_sub: "0 < h \<Longrightarrow> set (lids h p its past) \<subseteq> set (ids_of its) \<union> set (concat (map pids past))"
  using leaf_ids_kids [of "subs its @ past"] by (auto simp: lids_def ids_of_def)

lemma store_over: "store p x (store p y S) = store p x S"
  by (simp add: store_def)

text \<open>A child of the right shape, as items with its page.\<close>

lemma child_items:
  assumes E: "ok_type E" and "shape E False h b a" "rep E P False a"
  obtains X past pg where "a = mk h (pid a) X past" "list_all (item_ok E h) X" "past_ok E h b past" "fill E False (length X)"
    "top_is b (map fst X)" "P (pid a) = Some pg" "page_rep E False h X past pg" "list_all (rep E P False) (subs X @ past)"
    "X \<noteq> []" "pids a = pid a # ids_of X @ concat (map pids past)" "entries a = ents X @ concat (map entries past)"
    "leaf_ids a = lids h (pid a) X past"
proof -
  obtain X past where a: "a = mk h (pid a) X past" "list_all (item_ok E h) X" "past_ok E h b past" "fill E False (length X)"
    "top_is b (map fst X)" by (rule shape_items [OF assms(2)])
  have "length X \<le> tt_max E" using a(4) by (simp add: fill_def)
  note r = rep_mk [OF a(2,3) this]
  have "rep E P False (mk h (pid a) X past)" using assms(3) a(1) by simp
  then obtain pg where "P (pid a) = Some pg" "page_rep E False h X past pg" "list_all (rep E P False) (subs X @ past)"
    unfolding r by blast
  moreover have "X \<noteq> []" using fill_pos [OF E a(4)] by auto
  moreover have "pids a = pid a # ids_of X @ concat (map pids past)" using a(1) pids_mk [OF a(2,3), of "pid a"] by simp
  moreover have "entries a = ents X @ concat (map entries past)" using a(1) entries_mk [OF a(2,3), of "pid a"] by simp
  moreover have "leaf_ids a = lids h (pid a) X past" using a(1) leaf_ids_mk [of h "pid a" X past] by simp
  ultimately show thesis using that a by blast
qed

lemma child_rep:
  assumes "list_all (item_ok E h) X" "past_ok E h b past" "length X \<le> tt_max E" "P p = Some pg" "page_rep E r h X past pg"
    "list_all (rep E P False) (subs X @ past)"
  shows "rep E P r (mk h p X past)"
  using rep_mk [OF assms(1-3)] assms(4-6) by blast

section \<open>The loop\<close>

definition edge_pending :: "'k tree_type \<Rightarrow> 'k bpt \<Rightarrow> nat \<Rightarrow> 'k frame_of list \<Rightarrow> nat \<Rightarrow> nat \<Rightarrow> 'k items \<Rightarrow> 'k tr \<Rightarrow> bool" where
  "edge_pending E S h fs p j its z \<longleftrightarrow> 0 < h \<and> hole E S h fs None p (p # ids_of its @ pids z)
     \<and> list_all (item_ok E h) its \<and> shape E False (h - 1) None z \<and> list_all (rep E (bt_pages S) False) (subs its @ [z])
     \<and> (\<exists>pg ks ps. bt_pages S p = Some pg \<and> node_rep E (fs = []) ks ps pg \<and> length ps = length ks + 1 \<and> j \<le> length ks
          \<and> fill E (fs = []) (length ks) \<and> (if j < length ks then drop_nth j ks else butlast ks) = map fst its
          \<and> drop_nth j ps = map pid (subs its @ [z]))
     \<and> linked (next_of (bt_pages S)) (around leaf_ids fs (lids h p its [z]))"

lemma shrink_root_ok:
  assumes E: "ok_type E" and hp: "0 < h" and ho: "hole E S h [] None p (p # pids z)"
    and z: "shape E False (h - 1) None z" "rep E (bt_pages S) False z"
    and pg: "bt_pages S p = Some pg" "page_rep E True h [] [z] pg"
    and li: "linked (next_of (bt_pages S)) (leaf_ids z)" and sz: "bt_siz S = bt_siz S0"
  shows "\<exists>S'. shrink_root p S = Inr S' \<and> tree_with E S0 S' (entries z)"
proof -
  note d = holeD [OF ho]
  have "pid z \<in> dom (bt_pages S)" using d(6) pid_mem [of z] by (meson list.set_intros(2) subsetD)
  then obtain zp where zp: "bt_pages S (pid z) = Some zp" by blast
  have ne: "p \<noteq> pid z" using d(5) pid_mem [of z] by auto
  have "past_ptr E pg = pid z" "pg_count pg = 0" "length (pg_data pg) = tt_max E"
    using pg(2) by (simp_all add: page_rep_def data_rep_def)
  then have e0: "0 < length (pg_data pg)" "snd (pg_data pg ! 0) = pid z"
    using ok_typeD(2) [OF E] by (auto simp: past_ptr_def)
  let ?zp = "zp\<lparr>pg_root := True\<rparr>"
  define S1 where "S1 = store (pid z) ?zp (S\<lparr>bt_root := pid z\<rparr>)"
  define S' where "S' = delete_bpage [pid z] p S1"
  have run: "shrink_root p S = Inr S'"
    using pg(1) e0 zp by (simp add: shrink_root_def load_Some S'_def S1_def)
  have P': "bt_pages S' = (bt_pages S)(pid z \<mapsto> ?zp, p := None)" "bt_free S' = p # bt_free S" "bt_total S' = bt_total S"
    using ne by (simp_all add: S'_def S1_def delete_bpage_def)
  have al: "alloc_ok S'" using d(1) pg(1) zp ne unfolding alloc_ok_def P' by auto
  have "rep E ((bt_pages S)(pid z \<mapsto> ?zp)) True z" by (rule rep_set_root [OF z(2) zp]) (use d(5) in auto)
  then have "rep E (bt_pages S') True z"
    by (rule rep_cong) (use d(5) in \<open>auto simp: P'\<close>)
  moreover have "shape E True (h - 1) None z"
  proof (cases z)
    case (Lf q es)
    then show ?thesis using z(1) fill_root [OF E] by auto
  next
    case (Nd q ks cs)
    then show ?thesis using z(1) fill_root [OF E] by (auto simp: shape_node)
  qed
  moreover have "linked (next_of (bt_pages S')) (leaf_ids z)"
  proof (rule linked_cong [OF li])
    have "p \<notin> set (leaf_ids z)" using d(5) leaf_ids_pids [of z] by auto
    then show "\<forall>x\<in>set (leaf_ids z). next_of (bt_pages S') x = next_of (bt_pages S) x"
      using zp by (auto simp: P' next_of_def)
  qed
  ultimately have "tree_ok E S' (h - 1) z" using d(5) by (simp add: tree_ok_def S'_def S1_def delete_bpage_def)
  moreover have "bt_siz S' = bt_siz S0" using sz by (simp add: S'_def S1_def delete_bpage_def)
  ultimately show ?thesis using run al unfolding tree_with_def by blast
qed

text \<open>The frame of a page on the right edge.\<close>

lemma edge_frame:
  assumes E: "ok_type E" and ho: "hole E S h ((pp, ks, l, r) # fs) None p ids"
  obtains par l' a where "bt_pages S pp = Some par" "l = l' @ [a]" "r = []" "length ks = length l" "ks \<noteq> []"
    "node_rep E (fs = []) ks (map pid l @ [p]) par" "fill E (fs = []) (length ks)"
    "list_all2 (shape E False h) (map Some (butlast ks)) l'" "shape E False h (Some (last ks)) a"
    "list_all (rep E (bt_pages S) False) l'" "rep E (bt_pages S) False a"
    "hole E S (Suc h) fs None pp (pp # concat (map pids l) @ ids)"
proof -
  note d = holeD [OF ho]
  obtain par b' bl br where f: "bt_pages S pp = Some par" "node_rep E (fs = []) ks (map pid l @ p # map pid r) par"
    "list_all (rep E (bt_pages S) False) l" "list_all (rep E (bt_pages S) False) r" "ctx_rep E (bt_pages S) fs pp"
    "ctx_shape E (Suc h) fs b'" "fill E (fs = []) (length ks)" "top_is b' ks" "bnds b' ks = bl @ None # br"
    "length bl = length l" "list_all2 (shape E False h) bl l" "list_all2 (shape E False h) br r"
    by (rule frame_facts [OF d(2,3)])
  have len: "length l = length ks" "b' = None" using bnds_at [OF f(9) f(10) [symmetric]] by fastforce+
  have ks: "ks \<noteq> []" using fill_pos [OF E f(7)] by auto
  have b: "bl = map Some ks" "br = []"
    using f(9,10) len by (auto simp: bnds_def append_eq_append_conv)
  have r: "r = []" using f(12) b(2) by simp
  have "l \<noteq> []" using len(1) ks by auto
  then obtain l' a where l: "l = l' @ [a]" by (cases l rule: rev_cases) auto
  have "map Some ks = map Some (butlast ks) @ [Some (last ks)]" using ks by (cases ks rule: rev_cases) auto
  then have sh: "list_all2 (shape E False h) (map Some (butlast ks)) l'" "shape E False h (Some (last ks)) a"
    using f(11) len(1) unfolding b(1) l by (simp_all add: list_all2_append)
  have "set (pp # concat (map pids l)) \<subseteq> dom (bt_pages S)"
    using f(1,3) rep_dom [of E "bt_pages S" False] by (fastforce simp: list_all_iff)
  then have "hole E S (Suc h) fs None pp (pp # concat (map pids l) @ ids)"
    using d f(5,6) len(2) by (auto simp: hole_def r)
  then show thesis using that [OF f(1) l r _ ks _ f(7) sh] f(2,3) len(1) r l by simp
qed

lemma around_frame_edge: "around f ((pp, ks, l, []) # fs) m = around f fs (concat (map f l) @ m)"
  by simp

text \<open>Neighbours on the edge: only their pages and the parent's change.\<close>

lemma three_pages:
  fixes x y z :: "'k bpage"
  assumes "alloc_ok S" "p \<in> dom (bt_pages S)" "q \<in> dom (bt_pages S)" "r \<in> dom (bt_pages S)"
  defines "S' \<equiv> store r z (store q y (store p x S))"
  shows "alloc_ok S'" "dom (bt_pages S') = dom (bt_pages S)" "bt_root S' = bt_root S" "bt_siz S' = bt_siz S"
    "a \<notin> {p, q, r} \<Longrightarrow> bt_pages S' a = bt_pages S a"
    "p \<noteq> q \<Longrightarrow> p \<noteq> r \<Longrightarrow> bt_pages S' p = Some x" "q \<noteq> r \<Longrightarrow> bt_pages S' q = Some y" "bt_pages S' r = Some z"
  using assms by (auto simp: alloc_ok_def)

lemma remove_on_edge_ok:
  assumes E: "ok_type E"
  shows "edge_pending E S h fs p j its z \<Longrightarrow> bt_siz S = bt_siz S0 \<Longrightarrow>
    \<exists>S'. remove_on_edge E ((p, j) # path_of fs) S = Inr S'
      \<and> tree_with E S0 S' (around entries fs (ents its @ entries z))"
proof (induction fs arbitrary: S h p j its z)
  case (Nil S h p j its z)
  obtain pg ks ps where p: "0 < h" "hole E S h [] None p (p # ids_of its @ pids z)" "list_all (item_ok E h) its"
    "shape E False (h - 1) None z" "list_all (rep E (bt_pages S) False) (subs its @ [z])"
    "bt_pages S p = Some pg" "node_rep E True ks ps pg" "length ps = length ks + 1" "j \<le> length ks"
    "fill E True (length ks)" "(if j < length ks then drop_nth j ks else butlast ks) = map fst its"
    "drop_nth j ps = map pid (subs its @ [z])" "linked (next_of (bt_pages S)) (lids h p its [z])"
    using Nil.prems(1) by (auto simp: edge_pending_def)
  note d = holeD [OF p(2)]
  obtain h' where h: "h = Suc h'" using p(1) by (cases h) auto
  have po: "past_ok E h None [z]" using p(1,4) by (simp add: past_ok_def)
  have ks: "ks \<noteq> []" "length ks \<le> tt_max E" using fill_pos [OF E p(10)] p(10) by (auto simp: fill_def)
  obtain pg' where pg': "drop_edge_entry E j pg = Inr pg'" "node_rep E True (map fst its) (map pid (subs its @ [z])) pg'"
    using drop_edge_entry_run [OF p(7,8) ks(2,1) p(9)] unfolding p(11,12) by blast
  have li: "length ks = length its + 1" using arg_cong [OF p(11), of length] ks(1) p(9) by (cases ks) (auto split: if_splits)
  then have lits: "length its \<le> tt_max E" using ks(2) by linarith
  have pr: "page_rep E True h its [z] pg'"
    using page_rep_node [of E h' its None "[z]" True pg'] p(3) po pg'(2) li ks by (simp add: h)
  let ?S = "store p pg' S"
  have ho: "hole E ?S h [] None p (p # ids_of its @ pids z)"
    by (rule hole_change [OF p(2)]) (use d store_alloc [OF d(1), of p pg'] in auto)
  have rp: "list_all (rep E (bt_pages ?S) False) (subs its @ [z])"
    by (rule rep_list_cong [OF p(5)]) (use d(5) in \<open>auto simp: ids_of_def\<close>)
  have pl: "p \<notin> set (lids h p its [z])" using lids_sub [of h p its "[z]"] p(1) d(5) by auto
  have lk: "linked (next_of (bt_pages ?S)) (lids h p its [z])"
    by (rule linked_cong [OF p(13)]) (use pl in \<open>auto simp: next_of_def\<close>)
  have root: "pg_root pg" "pg_root pg'" "pg_count pg' = length its"
    using p(7) pg'(2) by (simp_all add: node_rep_def)
  show ?case
  proof (cases "its = []")
    case True
    obtain S' where S': "shrink_root p ?S = Inr S'" "tree_with E S0 S' (entries z)"
    proof -
      have "hole E ?S h [] None p (p # pids z)" "rep E (bt_pages ?S) False z" "bt_pages ?S p = Some pg'"
        "page_rep E True h [] [z] pg'" "linked (next_of (bt_pages ?S)) (leaf_ids z)" "bt_siz ?S = bt_siz S0"
        using ho rp pr lk Nil.prems(2) p(1) by (simp_all add: True lids_def)
      then show thesis using that shrink_root_ok [OF E p(1) _ p(4)] by blast
    qed
    then show ?thesis using p(6) pg'(1) root by (simp add: load_Some enough_keys_def Let_def True)
  next
    case False
    let ?t = "mk h p its [z]"
    have "rep E (bt_pages ?S) True ?t" by (rule child_rep [OF p(3) po _ _ pr rp]) (use li ks in auto)
    moreover have "shape E True h None ?t" using shape_mk [OF p(3) po] False lits by (cases its) (simp_all add: fill_def)
    moreover have "hole E ?S h [] None (pid ?t) (pids ?t)" using ho pids_mk [OF p(3) po] by simp
    ultimately have "tree_with E S0 ?S (entries ?t)"
      using close_hole [of E ?S h "[]" None ?t S0] lk Nil.prems(2) by (simp add: leaf_ids_mk)
    then show ?thesis using p(6) pg'(1) root False entries_mk [OF p(3) po]
      by (simp add: load_Some enough_keys_def Let_def)
  qed
next
  case (Cons f fs S h p j its z)
  obtain pp kp l r where f: "f = (pp, kp, l, r)" by (cases f)
  obtain pg ks ps where p: "0 < h" "hole E S h (f # fs) None p (p # ids_of its @ pids z)" "list_all (item_ok E h) its"
    "shape E False (h - 1) None z" "list_all (rep E (bt_pages S) False) (subs its @ [z])"
    "bt_pages S p = Some pg" "node_rep E False ks ps pg" "length ps = length ks + 1" "j \<le> length ks"
    "fill E False (length ks)" "(if j < length ks then drop_nth j ks else butlast ks) = map fst its"
    "drop_nth j ps = map pid (subs its @ [z])" "linked (next_of (bt_pages S)) (around leaf_ids (f # fs) (lids h p its [z]))"
    using Cons.prems(1) unfolding edge_pending_def by (auto simp del: around_simps)
  note d = holeD [OF p(2)]
  note e = ok_typeD [OF E]
  obtain h' where h: "h = Suc h'" using p(1) by (cases h) auto
  have po: "past_ok E h None [z]" using p(1,4) by (simp add: past_ok_def)
  have ks: "ks \<noteq> []" "length ks \<le> tt_max E" using fill_pos [OF E p(10)] p(10) by (auto simp: fill_def)
  obtain pg' where pg': "drop_edge_entry E j pg = Inr pg'" "node_rep E False (map fst its) (map pid (subs its @ [z])) pg'"
    using drop_edge_entry_run [OF p(7,8) ks(2,1) p(9)] unfolding p(11,12) by blast
  have li: "length ks = length its + 1" using arg_cong [OF p(11), of length] ks(1) p(9) by (cases ks) (auto split: if_splits)
  have pr: "page_rep E False h its [z] pg'"
    using page_rep_node [of E h' its None "[z]" False pg'] p(3) po pg'(2) li ks by (simp add: h)
  have root: "\<not> pg_root pg" "\<not> pg_root pg'" "pg_count pg' = length its" "pg_count pg = length ks"
    using p(7) pg'(2) by (simp_all add: node_rep_def)
  have lidp: "p \<notin> set (around leaf_ids (f # fs) (lids h p its [z]))"
    using lids_sub [of h p its "[z]"] p(1) d(5) ctx_leaf_ids [of "f # fs"] by (auto simp: around_def)
  show ?case
  proof (cases "tt_min E < length ks")
    case True
    let ?S = "store p pg' S" and ?t = "mk h p its [z]"
    have "hole E ?S h (f # fs) None (pid ?t) (pids ?t)" unfolding pid_mk pids_mk [OF p(3) po]
      by (rule hole_change [OF p(2)]) (use d store_alloc [OF d(1), of p pg'] in auto)
    moreover have rp: "list_all (rep E (bt_pages ?S) False) (subs its @ [z])"
      by (rule rep_list_cong [OF p(5)]) (use d(5) in \<open>auto simp: ids_of_def\<close>)
    have "rep E (bt_pages ?S) (f # fs = []) ?t" by (rule child_rep [OF p(3) po]) (use li ks pr rp in auto)
    moreover have "shape E (f # fs = []) h None ?t" using shape_mk [OF p(3) po] True li ks by (simp add: fill_def)
    moreover have "linked (next_of (bt_pages ?S)) (around leaf_ids (f # fs) (leaf_ids ?t))"
      unfolding leaf_ids_mk by (rule linked_cong [OF p(13)]) (use lidp in \<open>auto simp: next_of_def\<close>)
    ultimately have "tree_with E S0 ?S (around entries (f # fs) (entries ?t))"
      using close_hole Cons.prems(2) by (metis store_simps(5))
    then show ?thesis using p(6) pg'(1) root True entries_mk [OF p(3) po]
      by (simp add: load_Some enough_keys_def Let_def del: around_simps)
  next
    case False
    then have full: "length ks = tt_min E" using p(10) by (simp add: fill_def)
    obtain par l' a where q: "bt_pages S pp = Some par" "l = l' @ [a]" "r = []" "length kp = length l" "kp \<noteq> []"
      "node_rep E (fs = []) kp (map pid l @ [p]) par" "fill E (fs = []) (length kp)"
      "list_all2 (shape E False h) (map Some (butlast kp)) l'" "shape E False h (Some (last kp)) a"
      "list_all (rep E (bt_pages S) False) l'" "rep E (bt_pages S) False a"
      "hole E S (Suc h) fs None pp (pp # concat (map pids l) @ p # ids_of its @ pids z)"
      by (rule edge_frame [OF E p(2) [unfolded f]])
    obtain X past prev where x: "a = mk h (pid a) X past" "list_all (item_ok E h) X" "past_ok E h (Some (last kp)) past"
      "fill E False (length X)" "top_is (Some (last kp)) (map fst X)" "bt_pages S (pid a) = Some prev"
      "page_rep E False h X past prev" "list_all (rep E (bt_pages S) False) (subs X @ past)"
      "X \<noteq> []" "pids a = pid a # ids_of X @ concat (map pids past)" "entries a = ents X @ concat (map entries past)"
      "leaf_ids a = lids h (pid a) X past"
      by (rule child_items [OF E q(9,11)])
    have past: "past = []" using x(3) by simp
    note d' = holeD [OF q(12)]
    let ?pa = "pid a"
    have ids: "pp # concat (map pids l) @ p # ids_of its @ pids z
        = pp # concat (map pids l') @ ?pa # ids_of X @ p # ids_of its @ pids z" using x(10) by (simp add: q(2) past)
    have dist: "distinct ((pp # concat (map pids l') @ ?pa # ids_of X @ p # ids_of its @ pids z) @ ctx_ids fs)"
      using d'(5) unfolding ids .
    have ne: "p \<noteq> ?pa" "p \<noteq> pp" "?pa \<noteq> pp" using dist by auto
    have out: "a' \<notin> {p, ?pa, pp}" if "a' \<in> set (concat (map pids l')) \<union> set (ids_of X) \<union> set (ids_of its) \<union> set (pids z) \<union> set (ctx_ids fs)" for a'
      using that dist by auto
    have dm: "p \<in> dom (bt_pages S)" "?pa \<in> dom (bt_pages S)" "pp \<in> dom (bt_pages S)" using p(6) q(1) x(6) by auto
    have lks: "length kp \<le> tt_max E" using q(7) by (simp add: fill_def)
    have cnt: "pg_count par = length kp" "pg_count prev = length X" using q(6) page_rep_count [OF x(7)] by (simp_all add: node_rep_def)
    have ll: "length l = Suc (length l')" by (simp add: q(2))
    have e1: "get_entry (length l') par = Inr (pg_data par ! length l')" "snd (pg_data par ! length l') = ?pa"
    proof -
      have "get_child E (length l') par = Inr ?pa" using node_child [OF q(6), of "length l'"] by (simp add: q(2) nth_append)
      moreover have lt: "length l' < tt_max E" using lks q(4) ll by simp
      ultimately show "snd (pg_data par ! length l') = ?pa" "get_entry (length l') par = Inr (pg_data par ! length l')"
        using q(6) by (simp_all add: get_child_def node_rep_def)
    qed
    have dX: "data_rep E (flat_of X) prev" and dY: "data_rep E (flat_of its) pg'" "past_ptr E pg' = pid z"
      using x(7) pr by (simp_all add: page_rep_def)
    have leafs: "around leaf_ids (f # fs) (lids h p its [z])
        = around leaf_ids fs (concat (map leaf_ids l') @ lids h ?pa X [] @ lids h p its [z])"
      by (simp add: f q(2,3) x(12) past)
    have LS: "set (around leaf_ids (f # fs) (lids h p its [z])) \<subseteq>
        set (concat (map pids l')) \<union> set (ids_of X) \<union> set (ids_of its) \<union> set (pids z) \<union> set (ctx_ids fs)"
    proof -
      have "set (lids h p its [z]) \<subseteq> set (ids_of its) \<union> set (pids z)" "set (lids h ?pa X []) \<subseteq> set (ids_of X)"
        using lids_sub [OF p(1), of p its "[z]"] lids_sub [OF p(1), of ?pa X "[]"] by simp_all
      then show ?thesis unfolding leafs unfolding around_def set_append
        using leaf_ids_kids [of l'] ctx_leaf_ids [of fs] by blast
    qed
    have nx: "next_of (bt_pages S2) y = next_of (bt_pages S) y"
      if "\<And>a'. a' \<notin> {p, ?pa, pp} \<Longrightarrow> bt_pages S2 a' = bt_pages S a'" "y \<in> set (around leaf_ids (f # fs) (lids h p its [z]))"
      for S2 y
    proof -
      have "y \<notin> {p, ?pa, pp}" using out LS that(2) by blast
      then show ?thesis using that(1) by (simp add: next_of_def)
    qed
    show ?thesis
    proof (cases "tt_min E < length X")
      case True
      obtain X0 kx where X0: "X = X0 @ [kx]" using x(9) by (cases X rule: rev_cases) auto
      obtain ky ix where kx: "kx = (ky, ix)" by (cases kx)
      have X0ne: "X0 \<noteq> []" using True e(4) X0 by auto
      have lY: "length (flat_of its) + 1 < tt_max E" using li full e(4,5) by simp
      obtain prev' pg2 where b: "borrow_edge prev pg' = Inr (prev', pg2)" "data_rep E (flat_of X0) prev'"
        "data_rep E ((ky, iptr ix) # flat_of its) pg2" "past_ptr E pg2 = past_ptr E pg'" "same_kind prev prev'" "same_kind pg' pg2"
        using borrow_edge_run [of E "flat_of X0" "(ky, iptr ix)" prev "flat_of its" pg'] dX dY lY X0 kx by auto
      have pr1: "page_rep E False h X0 [] prev'" "page_rep E False h (kx # its) [z] pg2"
        using b x(7) pr by (simp_all add: page_rep_def same_kind_def kx)
      define k where "k = fst (last X0)"
      have lk: "last_key prev' = Inr k" using page_rep_last [OF pr1(1) X0ne] by (simp add: k_def)
      obtain par' where par': "set_key (length l') k par = Inr par'"
        "node_rep E (fs = []) (kp[length l' := k]) (map pid l @ [p]) par'" "pg_next par' = pg_next par"
        using node_rep_set_key [OF q(6) _ lks, of "length l'" k] q(4) ll by auto
      define S2 where "S2 = store pp par' (store ?pa prev' (store p pg2 S))"
      note t3 = three_pages [OF d(1) dm, where x = pg2 and y = prev' and z = par', folded S2_def]
      let ?a = "mk h ?pa X0 []" and ?t = "mk h p (kx # its) [z]"
      let ?n = "Nd pp (kp[length l' := k]) (l' @ [?a, ?t])"
      have io: "list_all (item_ok E h) X0" "list_all (item_ok E h) (kx # its)" using x(2) p(3) X0 by simp_all
      have pids': "pids ?a = ?pa # ids_of X0" "pids ?t = p # ids_of (kx # its) @ pids z"
        using pids_mk [OF io(1), of "Some k" "[]"] pids_mk [OF io(2) po] by simp_all
      have idx: "ids_of X = ids_of X0 @ ids_of [kx]" "ids_of (kx # its) = ids_of [kx] @ ids_of its"
        by (simp_all add: X0 ids_of_def kx)
      have "hole E S2 (Suc h) fs None pp (pids ?n)"
      proof (rule hole_part [OF q(12), where rest = "[]"])
        show "\<forall>y\<in>set (ctx_ids fs). bt_pages S2 y = bt_pages S y" using t3(5) out by blast
        show "mset (pp # concat (map pids l) @ p # ids_of its @ pids z) = mset (pids ?n @ [])"
          unfolding ids by (simp add: pids' idx)
        have "set (pids ?n) = set (pp # concat (map pids l) @ p # ids_of its @ pids z)"
          unfolding ids by (auto simp: pids' idx)
        then show "set (pids ?n) \<subseteq> dom (bt_pages S2)" using d'(6) t3(2) by simp
      qed (use t3 in auto)
      moreover have "rep E (bt_pages S2) (fs = []) ?n"
      proof -
        have s: "list_all (rep E (bt_pages S2) False) l'" "list_all (rep E (bt_pages S2) False) (subs X)"
          "list_all (rep E (bt_pages S2) False) (subs its @ [z])"
        proof -
          show "list_all (rep E (bt_pages S2) False) l'" by (rule rep_list_cong [OF q(10)]) (use t3(5) out in blast)
          have "list_all (rep E (bt_pages S) False) (subs X)" using x(8) by simp
          then show "list_all (rep E (bt_pages S2) False) (subs X)"
            by (rule rep_list_cong) (use t3(5) out in \<open>auto simp: ids_of_def\<close>)
          show "list_all (rep E (bt_pages S2) False) (subs its @ [z])"
            by (rule rep_list_cong [OF p(5)]) (use t3(5) out in \<open>auto simp: ids_of_def\<close>)
        qed
        have "rep E (bt_pages S2) False ?a"
          by (rule child_rep [OF io(1), of "Some k" "[]"]) (use t3(7) ne pr1 s(2) x(4) X0 in \<open>auto simp: fill_def\<close>)
        moreover have "rep E (bt_pages S2) False ?t"
          by (rule child_rep [OF io(2) po]) (use t3(6) ne pr1 s(2,3) li full e X0 in \<open>auto simp: kx\<close>)
        moreover have "map pid l @ [p] = map pid (l' @ [?a, ?t])" by (simp add: q(2))
        ultimately show ?thesis using par'(2) t3(8) s(1) by simp
      qed
      moreover have "shape E (fs = []) (Suc h) None ?n"
      proof -
        have "shape E False h (Some k) ?a" using shape_mk [OF io(1), of "Some k" "[]"] X0ne True x(4) X0
          by (simp add: fill_def k_def last_map)
        moreover have "shape E False h None ?t" using shape_mk [OF io(2) po] li full e by (simp add: fill_def)
        moreover have "bnds None (kp[length l' := k]) = map Some (butlast kp) @ [Some k, None]"
        proof -
          have "kp = butlast kp @ [last kp]" "length (butlast kp) = length l'" using q(4,5) ll by simp_all
          then have "kp[length l' := k] = butlast kp @ [k]" by (metis list_update_length)
          then show ?thesis by (simp add: bnds_def)
        qed
        ultimately show ?thesis using q(7,8) by (auto intro: list_all2_appendI)
      qed
      moreover have "linked (next_of (bt_pages S2)) (around leaf_ids fs (leaf_ids ?n))"
      proof -
        have "around leaf_ids fs (leaf_ids ?n) = around leaf_ids (f # fs) (lids h p its [z])"
          unfolding leafs using X0 by (simp add: leaf_ids_mk) (simp add: lids_def h kx)
        moreover have "linked (next_of (bt_pages S2)) (around leaf_ids (f # fs) (lids h p its [z]))"
          by (rule linked_cong [OF p(13)]) (use nx [OF t3(5)] in blast)
        ultimately show ?thesis by simp
      qed
      ultimately have "tree_with E S0 S2 (around entries fs (entries ?n))"
        using close_hole [of E S2 "Suc h" fs None ?n S0] t3(4) Cons.prems(2) by simp
      moreover have "entries ?n = concat (map entries l) @ ents its @ entries z"
        using entries_mk [OF io(1), of "Some k" "[]"] entries_mk [OF io(2) po] x(11) past X0
        by (simp add: q(2) ents_Cons [of kx its])
      moreover have "remove_on_edge E ((p, j) # path_of (f # fs)) S = Inr S2"
        using p(6) pg'(1) root False q(1) ll e1 x(6) cnt(2) True b(1) lk par'(1) ne
        by (simp add: f load_Some enough_keys_def Let_def store_over S2_def)
      ultimately show ?thesis by (simp add: f q(3))
    next
      case False
      then have lX: "length X = tt_min E" using x(4) by (simp add: fill_def)
      have sum: "length X + length its \<le> tt_max E" "length its < tt_max E" "tt_min E \<le> length X + length its"
        using lX li full e(4-6) by linarith+
      obtain v where v: "merge_edge E prev pg' = Inr v" "data_rep E (flat_of X @ flat_of its) v" "same_kind prev v"
        "past_ptr E v = past_ptr E pg'"
        using merge_edge_run [of E "flat_of X" prev "flat_of its" pg'] dX dY sum by auto
      have prv: "page_rep E False h (X @ its) [z] v" using v x(7) dY(2) by (simp add: page_rep_def same_kind_def)
      define k where "k = fst (last (X @ its))"
      have lk: "last_key v = Inr k" using page_rep_last [OF prv] x(9) by (simp add: k_def)
      obtain par' where par': "set_key (length l') k par = Inr par'"
        "node_rep E (fs = []) (kp[length l' := k]) (map pid l @ [p]) par'" "pg_next par' = pg_next par"
        using node_rep_set_key [OF q(6) _ lks, of "length l'" k] q(4) ll by auto
      define S2 where "S2 = store pp par' (store ?pa v (store p pg' S))"
      note t3 = three_pages [OF d(1) dm, where x = pg' and y = v and z = par', folded S2_def]
      let ?z = "mk h ?pa (X @ its) [z]"
      have io: "list_all (item_ok E h) (X @ its)" using x(2) p(3) by simp
      obtain its2 where its2: "list_all (item_ok E (Suc h)) its2" "subs its2 = l'" "map fst its2 = butlast kp"
        "ents its2 = concat (map entries l')" using kids_items [OF q(8)] by metis
      have pz: "pids ?z = ?pa # (ids_of X @ ids_of its) @ pids z" using pids_mk [OF io po] by simp
      have i2: "ids_of its2 = concat (map pids l')" by (simp add: ids_of_def its2(2))
      have "hole E S2 (Suc h) fs None pp (pp # ids_of its2 @ pids ?z)"
      proof (rule hole_part [OF q(12), where rest = "[p]"])
        show "\<forall>y\<in>set (ctx_ids fs). bt_pages S2 y = bt_pages S y" using t3(5) out by blast
        show "mset (pp # concat (map pids l) @ p # ids_of its @ pids z) = mset ((pp # ids_of its2 @ pids ?z) @ [p])"
          unfolding ids by (simp add: pz i2)
        have "set (pp # ids_of its2 @ pids ?z) \<subseteq> set (pp # concat (map pids l) @ p # ids_of its @ pids z)"
          unfolding ids by (auto simp: pz i2)
        then show "set (pp # ids_of its2 @ pids ?z) \<subseteq> dom (bt_pages S2)" using d'(6) unfolding t3(2) by (rule order_trans)
      qed (use t3 in auto)
      moreover have "shape E False h None ?z" using shape_mk [OF io po] sum by (simp add: fill_def)
      moreover have "list_all (rep E (bt_pages S2) False) (subs its2 @ [?z])"
      proof -
        have "list_all (rep E (bt_pages S2) False) l'" by (rule rep_list_cong [OF q(10)]) (use t3(5) out in blast)
        moreover have "list_all (rep E (bt_pages S) False) (subs X)" using x(8) by simp
        then have "list_all (rep E (bt_pages S2) False) (subs X)"
          by (rule rep_list_cong) (use t3(5) out in \<open>auto simp: ids_of_def\<close>)
        moreover have "list_all (rep E (bt_pages S2) False) (subs its @ [z])"
          by (rule rep_list_cong [OF p(5)]) (use t3(5) out in \<open>auto simp: ids_of_def\<close>)
        ultimately show ?thesis
          using child_rep [OF io po _ _ prv, of "bt_pages S2" ?pa] t3(7) ne sum by (simp add: its2(2))
      qed
      moreover have "linked (next_of (bt_pages S2)) (around leaf_ids fs (lids (Suc h) pp its2 [?z]))"
      proof -
        have "around leaf_ids fs (lids (Suc h) pp its2 [?z]) = around leaf_ids (f # fs) (lids h p its [z])"
          unfolding leafs by (simp add: lids_def its2(2) leaf_ids_mk h)
        moreover have "linked (next_of (bt_pages S2)) (around leaf_ids (f # fs) (lids h p its [z]))"
          by (rule linked_cong [OF p(13)]) (use nx [OF t3(5)] in blast)
        ultimately show ?thesis by simp
      qed
      moreover have "\<exists>pg ks ps. bt_pages S2 pp = Some pg \<and> node_rep E (fs = []) ks ps pg \<and> length ps = length ks + 1
          \<and> length l \<le> length ks \<and> fill E (fs = []) (length ks)
          \<and> (if length l < length ks then drop_nth (length l) ks else butlast ks) = map fst its2
          \<and> drop_nth (length l) ps = map pid (subs its2 @ [?z])"
      proof (intro exI conjI)
        have "kp = butlast kp @ [last kp]" "length (butlast kp) = length l'" using q(4,5) ll by simp_all
        then have "kp[length l' := k] = butlast kp @ [k]" by (metis list_update_length)
        then have bl: "butlast (kp[length l' := k]) = map fst its2" by (simp add: its2(3))
        show "(if length l < length (kp[length l' := k]) then drop_nth (length l) (kp[length l' := k])
            else butlast (kp[length l' := k])) = map fst its2" using q(4) unfolding bl by simp
        show "drop_nth (length l) (map pid l @ [p]) = map pid (subs its2 @ [?z])"
          by (simp add: drop_nth_def q(2) its2(2))
      qed (use t3(8) par'(2) q(4,7) in simp_all)
      ultimately have "edge_pending E S2 (Suc h) fs pp (length l) its2 ?z"
        using its2(1) by (simp add: edge_pending_def)
      then obtain S' where S': "remove_on_edge E ((pp, length l) # path_of fs) S2 = Inr S'"
        "tree_with E S0 S' (around entries fs (ents its2 @ entries ?z))"
        using Cons.IH t3(4) Cons.prems(2) by metis
      have "ents its2 @ entries ?z = concat (map entries l) @ ents its @ entries z"
        using entries_mk [OF io po] x(11) past by (simp add: q(2) its2(4))
      moreover have "remove_on_edge E ((p, j) # path_of (f # fs)) S
          = remove_on_edge E ((pp, length l) # path_of fs) S2"
        using p(6) pg'(1) root False \<open>\<not> tt_min E < length ks\<close> q(1) ll e1 x(6) cnt(2) v(1) lk par'(1) ne
        by (subst remove_on_edge.simps) (simp add: f load_Some enough_keys_def Let_def S2_def del: remove_on_edge.simps)
      ultimately show ?thesis using S' by (simp add: f q(3) del: remove_on_edge.simps)
    qed
  qed
qed

end
