(* ===== verification/Bpt_Pairs.thy ===== *)
theory Bpt_Pairs
  imports Bpt_Edge
begin

text \<open>
  Two neighbouring children of a page: after one of them borrowed from the other the parent is
  whole again; after they were merged the parent is to lose one entry.
\<close>

section \<open>Neighbours\<close>

definition pair :: "'k tree_type \<Rightarrow> 'k bpt \<Rightarrow> nat \<Rightarrow> 'k frame_of list \<Rightarrow> 'k option \<Rightarrow> nat \<Rightarrow> 'k list \<Rightarrow> 'k tr list
    \<Rightarrow> nat \<Rightarrow> 'k items \<Rightarrow> nat \<Rightarrow> 'k items \<Rightarrow> 'k tr list \<Rightarrow> 'k tr list \<Rightarrow> bool" where
  "pair E S h fs b pp ks l p X q Y past r \<longleftrightarrow>
     hole E S (Suc h) fs b pp (pp # concat (map pids l) @ (p # ids_of X) @ (q # ids_of Y @ concat (map pids past)) @ concat (map pids r))
     \<and> fill E (fs = []) (length ks) \<and> length l + 1 < length (bnds b ks)
     \<and> list_all2 (shape E False h) (take (length l) (bnds b ks)) l
     \<and> list_all2 (shape E False h) (drop (length l + 2) (bnds b ks)) r
     \<and> list_all (rep E (bt_pages S) False) (l @ subs X @ subs Y @ past @ r)
     \<and> list_all (item_ok E h) X \<and> list_all (item_ok E h) Y \<and> past_ok E h (bnds b ks ! (length l + 1)) past
     \<and> Y \<noteq> [] \<and> top_is (bnds b ks ! (length l + 1)) (map fst Y)
     \<and> linked (next_of (bt_pages S)) (around leaf_ids fs
          (concat (map leaf_ids l) @ lids h p X [] @ lids h q Y past @ concat (map leaf_ids r)))"

lemma pairD:
  assumes "pair E S h fs b pp ks l p X q Y past r"
  shows "hole E S (Suc h) fs b pp (pp # concat (map pids l) @ (p # ids_of X) @ (q # ids_of Y @ concat (map pids past)) @ concat (map pids r))"
    "fill E (fs = []) (length ks)" "length l + 1 < length (bnds b ks)"
    "list_all2 (shape E False h) (take (length l) (bnds b ks)) l"
    "list_all2 (shape E False h) (drop (length l + 2) (bnds b ks)) r"
    "list_all (rep E (bt_pages S) False) (l @ subs X @ subs Y @ past @ r)"
    "list_all (item_ok E h) X" "list_all (item_ok E h) Y" "past_ok E h (bnds b ks ! (length l + 1)) past"
    "Y \<noteq> []" "top_is (bnds b ks ! (length l + 1)) (map fst Y)"
    "linked (next_of (bt_pages S)) (around leaf_ids fs
          (concat (map leaf_ids l) @ lids h p X [] @ lids h q Y past @ concat (map leaf_ids r)))"
  using assms unfolding pair_def by blast+

lemma pair_out:
  assumes "pair E S h fs b pp ks l p X q Y past r"
  shows "distinct [pp, p, q]" "pp \<in> dom (bt_pages S)" "p \<in> dom (bt_pages S)" "q \<in> dom (bt_pages S)"
    "x \<in> set (concat (map pids (l @ subs X @ subs Y @ past @ r))) \<union> set (ctx_ids fs) \<Longrightarrow> x \<notin> {p, q, pp}"
    "length l < length ks"
proof -
  note d = holeD [OF pairD(1) [OF assms]]
  show "distinct [pp, p, q]" "pp \<in> dom (bt_pages S)" "p \<in> dom (bt_pages S)" "q \<in> dom (bt_pages S)"
    using d(5,6) by auto
  show "x \<in> set (concat (map pids (l @ subs X @ subs Y @ past @ r))) \<union> set (ctx_ids fs) \<Longrightarrow> x \<notin> {p, q, pp}"
    using d(5) by (auto simp: ids_of_def)
  show "length l < length ks" using pairD(3) [OF assms] by (simp split: if_splits)
qed

text \<open>The state after the pages of the pair and of the parent were written.\<close>

definition wrote :: "'k bpt \<Rightarrow> 'k bpt \<Rightarrow> nat \<Rightarrow> nat \<Rightarrow> nat \<Rightarrow> bool" where
  "wrote S S' p q pp \<longleftrightarrow> alloc_ok S' \<and> bt_root S' = bt_root S \<and> bt_siz S' = bt_siz S
     \<and> (\<forall>x. x \<notin> {p, q, pp} \<longrightarrow> bt_pages S' x = bt_pages S x)"

lemma wrote_stores:
  assumes "alloc_ok S" "p \<in> dom (bt_pages S)" "q \<in> dom (bt_pages S)" "pp \<in> dom (bt_pages S)"
  shows "wrote S (store pp z (store q y (store p x S))) p q pp"
  using three_pages(1,3,4) [OF assms, of z y x] three_pages(5) [OF assms] by (simp add: wrote_def)

lemma wrote_sym: "wrote S S' p q pp \<Longrightarrow> wrote S S' q p pp"
  by (auto simp: wrote_def)

lemma wrote_reps:
  assumes "pair E S h fs b pp ks l p X q Y past r" "wrote S S' p q pp"
  shows "list_all (rep E (bt_pages S') False) (l @ subs X @ subs Y @ past @ r)"
proof (rule rep_list_cong [OF pairD(6) [OF assms(1)]])
  show "\<forall>x\<in>set (concat (map pids (l @ subs X @ subs Y @ past @ r))). bt_pages S' x = bt_pages S x"
    using pair_out(5) [OF assms(1)] assms(2) unfolding wrote_def by blast
qed

lemma bnds_mid:
  assumes "length l + 1 < length (bnds b ks)"
  defines "m \<equiv> length l"
  shows "bnds b (ks[m := k]) = take m (bnds b ks) @ Some k # (bnds b ks ! (m + 1)) # drop (m + 2) (bnds b ks)"
proof -
  have m: "m < length ks" using assms by (simp split: if_splits)
  have "bnds b (ks[m := k]) = (bnds b ks)[m := Some k]" using bnds_update [OF m] .
  also have "\<dots> = take m (bnds b ks) @ Some k # drop (Suc m) (bnds b ks)"
    using assms by (intro upd_conv_take_nth_drop) simp
  also have "drop (Suc m) (bnds b ks) = (bnds b ks ! (m + 1)) # drop (m + 2) (bnds b ks)"
    using assms Cons_nth_drop_Suc [of "Suc m" "bnds b ks"] by simp
  finally show ?thesis .
qed

section \<open>Borrowing\<close>

lemma ents_split:
  "X' @ Y' = X @ Y \<Longrightarrow> ents X' @ ents Y' = ents X @ ents Y"
  "X' @ Y' = X @ Y \<Longrightarrow> ids_of X' @ ids_of Y' = ids_of X @ ids_of Y"
  "X' @ Y' = X @ Y \<Longrightarrow> subs X' @ subs Y' = subs X @ subs Y"
  by (metis ents_simps(3)) (metis ids_of_simps(2), metis subs_simps(3))

lemma pair_leafs:
  assumes "pair E S h fs b pp ks l p X q Y past r" "wrote S S' p q pp"
    "h = 0 \<longrightarrow> next_of (bt_pages S') p = next_of (bt_pages S) p \<and> next_of (bt_pages S') q = next_of (bt_pages S) q"
    "x \<in> set (around leaf_ids fs (concat (map leaf_ids l) @ lids h p X [] @ lids h q Y past @ concat (map leaf_ids r)))"
  shows "next_of (bt_pages S') x = next_of (bt_pages S) x"
proof (cases "h = 0 \<and> x \<in> {p, q}")
  case True
  then show ?thesis using assms(3) by auto
next
  case False
  have "lids h p X [] = (if h = 0 then [p] else concat (map leaf_ids (subs X)))"
    "lids h q Y past = (if h = 0 then [q] else concat (map leaf_ids (subs Y @ past)))" by (simp_all add: lids_def)
  then have "x \<in> set (concat (map leaf_ids (l @ subs X @ subs Y @ past @ r))) \<union> set (lft leaf_ids fs) \<union> set (rgt leaf_ids fs)"
    using assms(4) False unfolding around_def by (auto split: if_splits)
  then have "x \<in> set (concat (map pids (l @ subs X @ subs Y @ past @ r))) \<union> set (ctx_ids fs)"
    using leaf_ids_kids [of "l @ subs X @ subs Y @ past @ r"] ctx_leaf_ids [of fs] by blast
  then show ?thesis using pair_out(5) [OF assms(1)] assms(2) unfolding wrote_def next_of_def by auto
qed

lemma pair_borrowed:
  assumes E: "ok_type E" and pr: "pair E S h fs b pp ks l p X q Y past r" and w: "wrote S S' p q pp"
    and pgs: "bt_pages S' p = Some pgp" "bt_pages S' q = Some pgq" "bt_pages S' pp = Some par'"
    and reps: "page_rep E False h X' [] pgp" "page_rep E False h Y' past pgq"
    and eq: "X' @ Y' = X @ Y" and fl: "fill E False (length X')" "fill E False (length Y')"
    and par': "node_rep E (fs = []) (ks[length l := fst (last X')]) (map pid l @ p # q # map pid r) par'"
    and nx: "h = 0 \<longrightarrow> next_of (bt_pages S') p = next_of (bt_pages S) p \<and> next_of (bt_pages S') q = next_of (bt_pages S) q"
  defines "n \<equiv> Nd pp (ks[length l := fst (last X')]) (l @ mk h p X' [] # mk h q Y' past # r)"
  shows "hole E S' (Suc h) fs b pp (pids n)" "rep E (bt_pages S') (fs = []) n"
    "list_all2 (shape E False h) (bnds b (ks[length l := fst (last X')])) (l @ mk h p X' [] # mk h q Y' past # r)"
    "linked (next_of (bt_pages S')) (around leaf_ids fs (leaf_ids n))"
    "entries n = concat (map entries l) @ (ents X @ ents Y @ concat (map entries past)) @ concat (map entries r)"
proof -
  note f = pairD [OF pr]
  note o = pair_out [OF pr]
  let ?k = "fst (last X')" and ?b2 = "bnds b ks ! (length l + 1)"
  have ne: "X' \<noteq> []" "Y' \<noteq> []" using fill_pos [OF E fl(1)] fill_pos [OF E fl(2)] by auto
  have "list_all (item_ok E h) (X' @ Y')" unfolding eq using f(7,8) by simp
  then have io: "list_all (item_ok E h) X'" "list_all (item_ok E h) Y'" by simp_all
  have lst: "last Y' = last Y" using arg_cong [OF eq, of last] ne f(10) by simp
  have p1: "pids (mk h p X' []) = p # ids_of X'" using pids_mk [OF io(1), of "Some ?k" "[]"] by simp
  have p2: "pids (mk h q Y' past) = q # ids_of Y' @ concat (map pids past)" using pids_mk [OF io(2) f(9)] .
  note d = holeD [OF f(1)]
  show "hole E S' (Suc h) fs b pp (pids n)"
  proof (rule hole_part [OF f(1), where rest = "[]"])
    show "\<forall>x\<in>set (ctx_ids fs). bt_pages S' x = bt_pages S x" using o(5) w unfolding wrote_def by blast
    have m: "mset (ids_of X') + (mset (ids_of Y') + Z) = mset (ids_of X) + (mset (ids_of Y) + Z)" for Z
      using arg_cong [OF ents_split(2) [OF eq], of mset] by (simp add: add.assoc [symmetric])
    have pn: "pids n = pp # concat (map pids l) @ (p # ids_of X') @ (q # ids_of Y' @ concat (map pids past)) @ concat (map pids r)"
      by (simp add: n_def p1 p2)
    show ms: "mset (pp # concat (map pids l) @ (p # ids_of X) @ (q # ids_of Y @ concat (map pids past)) @ concat (map pids r))
        = mset (pids n @ [])" unfolding pn by (simp add: m)
    have "set (pids n) = set (pp # concat (map pids l) @ (p # ids_of X) @ (q # ids_of Y @ concat (map pids past)) @ concat (map pids r))"
      using ms by (metis append_Nil2 set_mset_mset)
    moreover have "dom (bt_pages S) \<subseteq> dom (bt_pages S')"
    proof
      fix x assume x: "x \<in> dom (bt_pages S)"
      show "x \<in> dom (bt_pages S')"
      proof (cases "x \<in> {p, q, pp}")
        case True
        then show ?thesis using pgs by auto
      next
        case False
        then have "bt_pages S' x = bt_pages S x" using w unfolding wrote_def by blast
        then show ?thesis using x by auto
      qed
    qed
    ultimately show "set (pids n) \<subseteq> dom (bt_pages S')" using d(6) by blast
  qed (use w in \<open>simp_all add: wrote_def\<close>)
  have rs: "list_all (rep E (bt_pages S') False) (l @ subs X @ subs Y @ past @ r)" by (rule wrote_reps [OF pr w])
  then have "list_all (rep E (bt_pages S') False) ((subs X' @ subs Y') @ past)"
    unfolding ents_split(3) [OF eq] by simp
  then have rs': "list_all (rep E (bt_pages S') False) (subs X')" "list_all (rep E (bt_pages S') False) (subs Y' @ past)"
    by simp_all
  have "rep E (bt_pages S') False (mk h p X' [])"
    by (rule child_rep [OF io(1), of "Some ?k" "[]"]) (use pgs reps rs' fl in \<open>auto simp: fill_def\<close>)
  moreover have "rep E (bt_pages S') False (mk h q Y' past)"
    by (rule child_rep [OF io(2) f(9)]) (use pgs reps rs' fl in \<open>auto simp: fill_def\<close>)
  ultimately show "rep E (bt_pages S') (fs = []) n" using pgs(3) par' rs by (simp add: n_def)
  have "shape E False h (Some ?k) (mk h p X' [])"
    using shape_mk [OF io(1), of "Some ?k" "[]"] fl(1) ne(1) by (simp add: last_map)
  moreover have "top_is ?b2 (map fst Y')" using f(10,11) ne(2) lst by (cases ?b2) (simp_all add: last_map)
  then have "shape E False h ?b2 (mk h q Y' past)" using shape_mk [OF io(2) f(9)] fl(2) by simp
  ultimately show "list_all2 (shape E False h) (bnds b (ks[length l := ?k])) (l @ mk h p X' [] # mk h q Y' past # r)"
    unfolding bnds_mid [OF f(3)] using f(4,5) by (auto intro: list_all2_appendI)
  have leafs: "leaf_ids n = concat (map leaf_ids l) @ lids h p X [] @ lids h q Y past @ concat (map leaf_ids r)"
  proof (cases "h = 0")
    case True
    then show ?thesis by (simp add: n_def lids_def)
  next
    case False
    have "concat (map leaf_ids (subs X')) @ concat (map leaf_ids (subs Y')) = concat (map leaf_ids (subs X)) @ concat (map leaf_ids (subs Y))"
      using ents_split(3) [OF eq] by (metis concat_append map_append)
    then show ?thesis using False by (simp add: n_def leaf_ids_mk lids_def)
  qed
  show "linked (next_of (bt_pages S')) (around leaf_ids fs (leaf_ids n))"
    unfolding leafs by (rule linked_cong [OF f(12)]) (use pair_leafs [OF pr w nx] in blast)
  show "entries n = concat (map entries l) @ (ents X @ ents Y @ concat (map entries past)) @ concat (map entries r)"
    using entries_mk [OF io(1), of "Some ?k" "[]" p] entries_mk [OF io(2) f(9), of q] ents_split(1) [OF eq]
    by (simp add: n_def)
qed

section \<open>Merging\<close>

text \<open>
  \<open>pending\<close> of removal: page \<open>p\<close>, a leaf or an inner page off the right edge, is to lose entry \<open>j\<close>
  and to keep the items \<open>its\<close>. If it loses its last entry its bound may be out of date.
\<close>

definition losing :: "'k tree_type \<Rightarrow> 'k bpt \<Rightarrow> nat \<Rightarrow> 'k frame_of list \<Rightarrow> 'k option \<Rightarrow> nat \<Rightarrow> nat \<Rightarrow> 'k items \<Rightarrow> bool" where
  "losing E S h fs b p j its \<longleftrightarrow> hole E S h fs b p (p # ids_of its) \<and> list_all (item_ok E h) its \<and> its \<noteq> []
     \<and> list_all (rep E (bt_pages S) False) (subs its) \<and> (h = 0 \<or> b \<noteq> None)
     \<and> (\<forall>k. b = Some k \<longrightarrow> j < length its \<longrightarrow> fst (last its) = k)
     \<and> (\<exists>pg D. bt_pages S p = Some pg \<and> pg_leaf pg = (h = 0) \<and> pg_root pg = (fs = []) \<and> data_rep E D pg
          \<and> j < length D \<and> drop_nth j D = flat_of its \<and> fill E (fs = []) (length D))
     \<and> linked (next_of (bt_pages S)) (around leaf_ids fs (lids h p its []))"

lemma linked_remove:
  assumes "linked f (A @ p # q # B)" "\<forall>x\<in>set (A @ B). f' x = f x" "f' p = f q"
  shows "linked f' (A @ p # B)"
proof -
  have f: "successively (\<lambda>x y. f x = y) A" "A \<noteq> [] \<longrightarrow> f (last A) = p" "successively (\<lambda>x y. f x = y) B"
    "B \<noteq> [] \<longrightarrow> f q = hd B" "f (last (q # B)) = 0"
    using assms(1) by (cases B; auto simp: linked_def successively_append_iff)+
  have "successively (\<lambda>x y. f' x = y) A" using f(1) assms(2) by (auto elim: successively_mono [rotated])
  moreover have "A \<noteq> [] \<longrightarrow> f' (last A) = p" using f(2) assms(2) by simp
  moreover have "successively (\<lambda>x y. f' x = y) B" using f(3) assms(2) by (auto elim: successively_mono [rotated])
  moreover have "f' (last (p # B)) = 0" using f(5) assms(2,3) by (cases B rule: rev_cases) auto
  ultimately show ?thesis using f(4) assms(3) by (cases B) (auto simp: linked_def successively_append_iff)
qed

lemma pair_merged:
  assumes E: "ok_type E" and pr: "pair E S h fs b pp ks l p X q Y past r" and w: "wrote S S' p q pp"
    and pgs: "bt_pages S' p = Some v" "bt_pages S' pp = Some par'" and sz: "bt_siz S = bt_siz S0"
    and reps: "page_rep E False h (X @ Y) past v" and fl: "fill E False (length (X @ Y))"
    and par': "node_rep E (fs = []) (ks[length l := fst (last Y)]) (map pid l @ p # q # map pid r) par'"
    and nx: "h = 0 \<longrightarrow> next_of (bt_pages S') p = next_of (bt_pages S) q"
    and stale: "\<forall>k. b = Some k \<longrightarrow> length l + 2 < length ks \<longrightarrow> last ks = k"
    and IH: "\<And>its. losing E S' (Suc h) fs b pp (length l + 1) its \<Longrightarrow>
      \<exists>S''. remove_entry_at E True ((pp, length l + 1) # path_of fs) S' = Inr S''
        \<and> tree_with E S0 S'' (around entries fs (ents its))"
  shows "\<exists>S''. (if b = None then remove_on_edge E ((pp, length l + 1) # path_of fs) S'
        else remove_entry_at E True ((pp, length l + 1) # path_of fs) S') = Inr S''
    \<and> tree_with E S0 S'' (around entries fs
        (concat (map entries l) @ (ents X @ ents Y @ concat (map entries past)) @ concat (map entries r)))"
proof -
  note f = pairD [OF pr]
  note o = pair_out [OF pr]
  note d = holeD [OF f(1)]
  let ?m = "length l" and ?k = "fst (last Y)" and ?b2 = "bnds b ks ! (length l + 1)"
  let ?a = "mk h p (X @ Y) past"
  let ?C = "l @ ?a # r" and ?ps = "map pid l @ p # q # map pid r" and ?ks = "ks[length l := fst (last Y)]"
  have io: "list_all (item_ok E h) (X @ Y)" using f(7,8) by simp
  have pa: "pids ?a = p # ids_of X @ ids_of Y @ concat (map pids past)" using pids_mk [OF io f(9), of p] by simp
  have ea: "entries ?a = ents X @ ents Y @ concat (map entries past)" using entries_mk [OF io f(9), of p] by simp
  have sa: "shape E False h ?b2 ?a"
  proof -
    have "top_is ?b2 (map fst (X @ Y))" using f(10,11) by (cases ?b2) (simp_all add: last_map)
    then show ?thesis using shape_mk [OF io f(9)] fl by simp
  qed
  have rs: "list_all (rep E (bt_pages S') False) (l @ subs X @ subs Y @ past @ r)" by (rule wrote_reps [OF pr w])
  then have "rep E (bt_pages S') False ?a"
    by (intro child_rep [where P = "bt_pages S'" and r = False, OF io f(9) _ pgs(1) reps]) (use fl in \<open>auto simp: fill_def\<close>)
  then have rC: "list_all (rep E (bt_pages S') False) ?C" using rs by simp
  have sC: "list_all2 (shape E False h) (take ?m (bnds b ks) @ ?b2 # drop (?m + 2) (bnds b ks)) ?C"
    using f(4,5) sa by (auto intro: list_all2_appendI)
  have dom: "set (pp # concat (map pids ?C)) \<subseteq> dom (bt_pages S')"
  proof
    fix x assume x: "x \<in> set (pp # concat (map pids ?C))"
    show "x \<in> dom (bt_pages S')"
    proof (cases "x \<in> {p, pp}")
      case True
      then show ?thesis using pgs by auto
    next
      case False
      then have x1: "x \<in> set (concat (map pids (l @ subs X @ subs Y @ past @ r)))" using x pa by (auto simp: ids_of_def)
      then have "x \<in> dom (bt_pages S)" using d(6) by (auto simp: ids_of_def)
      moreover have "x \<notin> {p, q, pp}" using o(5) x1 by blast
      ultimately show ?thesis using w unfolding wrote_def by (metis domD domI)
    qed
  qed
  have ho: "hole E S' (Suc h) fs b pp (pp # concat (map pids ?C))"
  proof (rule hole_part [OF f(1), where rest = "[q]"])
    show "\<forall>x\<in>set (ctx_ids fs). bt_pages S' x = bt_pages S x" using o(5) w unfolding wrote_def by blast
    show "mset (pp # concat (map pids l) @ (p # ids_of X) @ (q # ids_of Y @ concat (map pids past)) @ concat (map pids r))
        = mset ((pp # concat (map pids ?C)) @ [q])" by (simp add: pa)
  qed (use w dom in \<open>simp_all add: wrote_def\<close>)
  have li: "linked (next_of (bt_pages S')) (around leaf_ids fs (concat (map leaf_ids ?C)))"
  proof (cases "h = 0")
    case True
    let ?A = "lft leaf_ids fs @ concat (map leaf_ids l)" and ?B = "concat (map leaf_ids r) @ rgt leaf_ids fs"
    have l0: "linked (next_of (bt_pages S)) (?A @ p # q # ?B)" using f(12) True by (simp add: lids_def around_def)
    have sub: "set ?A \<subseteq> set (concat (map pids l)) \<union> set (ctx_ids fs)" "set ?B \<subseteq> set (concat (map pids r)) \<union> set (ctx_ids fs)"
      using leaf_ids_kids [of l] leaf_ids_kids [of r] ctx_leaf_ids [of fs] by auto
    have "\<forall>x\<in>set (?A @ ?B). next_of (bt_pages S') x = next_of (bt_pages S) x"
    proof
      fix x assume "x \<in> set (?A @ ?B)"
      then have "x \<in> set (concat (map pids (l @ subs X @ subs Y @ past @ r))) \<union> set (ctx_ids fs)" using sub by auto
      then show "next_of (bt_pages S') x = next_of (bt_pages S) x" using o(5) w unfolding wrote_def next_of_def by auto
    qed
    moreover have "next_of (bt_pages S') p = next_of (bt_pages S) q" using nx True by simp
    ultimately have "linked (next_of (bt_pages S')) (?A @ p # ?B)"
      using linked_remove [OF l0] by blast
    then show ?thesis using True by (simp add: around_def)
  next
    case False
    have "concat (map leaf_ids ?C) = concat (map leaf_ids l) @ lids h p X [] @ lids h q Y past @ concat (map leaf_ids r)"
      using False by (simp add: leaf_ids_mk lids_def)
    then show ?thesis using linked_cong [OF f(12)] pair_leafs [OF pr w] False by simp
  qed
  have m: "?m < length ks" "?m + 1 \<le> length ks" using o(6) by simp_all
  have pk: "length ?ps = length ks + (if b = None then 1 else 0)"
  proof -
    have "length (drop (?m + 2) (bnds b ks)) = length r" using list_all2_lengthD [OF f(5)] .
    then show ?thesis using f(3) by (simp split: if_splits)
  qed
  have mC: "drop_nth (?m + 1) ?ps = map pid ?C" by (simp add: drop_nth_def)
  show ?thesis
  proof (cases b)
    case None
    let ?K = "if ?m + 1 < length ks then drop_nth (?m + 1) ?ks else butlast ?ks"
    have bK: "bnds None ?K = take ?m (bnds b ks) @ ?b2 # drop (?m + 2) (bnds b ks)"
    proof (cases "?m + 1 < length ks")
      case True
      have b2: "?b2 = Some (ks ! (?m + 1))" using True nth_bnds by blast
      then have "?k = ks ! (?m + 1)" using f(10,11) by (simp add: last_map)
      then have "drop_nth (?m + 1) ?ks = take ?m ks @ ks ! (?m + 1) # drop (?m + 2) ks"
        using m True by (simp add: drop_nth_def take_Suc_conv_app_nth)
      then show ?thesis using True m b2 by (simp add: None bnds_def take_map drop_map)
    next
      case False
      then have e: "length ks = ?m + 1" using m by simp
      then have "butlast ?ks = take ?m ks" by (cases ks rule: rev_cases) (auto simp: list_update_append)
      moreover have "?b2 = None" using nth_bnds_last [of b ks] e None by simp
      ultimately show ?thesis using False e by (simp add: None bnds_def take_map)
    qed
    have "list_all2 (shape E False h) (map Some ?K @ [None]) ?C" using sC unfolding bK [symmetric] by (simp only: bnds_def simp_thms if_True)
    then obtain C' z where C: "?C = C' @ [z]" "list_all2 (shape E False h) (map Some ?K) C'" "shape E False h None z"
      by (auto simp: list_all2_append1 list_all2_Cons1 simp del: map_append if_split_eq1)
    obtain its where its: "list_all (item_ok E (Suc h)) its" "subs its = C'" "map fst its = ?K" "ents its = concat (map entries C')"
      using kids_items [OF C(2)] by metis
    have "edge_pending E S' (Suc h) fs pp (?m + 1) its z"
      unfolding edge_pending_def
    proof (intro conjI)
      show "hole E S' (Suc h) fs None pp (pp # ids_of its @ pids z)"
        using ho unfolding C(1) by (simp add: None ids_of_def its(2))
      show "list_all (rep E (bt_pages S') False) (subs its @ [z])" using rC unfolding C(1) its(2) .
      show "\<exists>pg ks ps. bt_pages S' pp = Some pg \<and> node_rep E (fs = []) ks ps pg \<and> length ps = length ks + 1
          \<and> ?m + 1 \<le> length ks \<and> fill E (fs = []) (length ks)
          \<and> (if ?m + 1 < length ks then drop_nth (?m + 1) ks else butlast ks) = map fst its
          \<and> drop_nth (?m + 1) ps = map pid (subs its @ [z])"
      proof (intro exI conjI)
        show "(if ?m + 1 < length ?ks then drop_nth (?m + 1) ?ks else butlast ?ks) = map fst its" by (simp add: its(3))
        show "drop_nth (?m + 1) ?ps = map pid (subs its @ [z])" unfolding mC C(1) its(2) ..
        show "length ?ps = length ?ks + 1" using pk None by simp
      qed (use pgs(2) par' m f(2) in simp_all)
      show "linked (next_of (bt_pages S')) (around leaf_ids fs (lids (Suc h) pp its [z]))"
        using li unfolding C(1) by (simp add: lids_def its(2))
    qed (use its C(3) in simp_all)
    then obtain S'' where "remove_on_edge E ((pp, ?m + 1) # path_of fs) S' = Inr S''"
      "tree_with E S0 S'' (around entries fs (ents its @ entries z))"
      using remove_on_edge_ok [OF E] w sz unfolding wrote_def by metis
    moreover have "ents its @ entries z = concat (map entries ?C)" unfolding C(1) by (simp add: its(4))
    ultimately show ?thesis using ea by (simp add: None)
  next
    case (Some kb)
    have mk': "?m + 1 < length ks" using f(3) by (simp add: Some)
    let ?K = "drop_nth (?m + 1) ?ks"
    have b2: "?b2 = Some (ks ! (?m + 1))" using mk' nth_bnds by blast
    then have k: "?k = ks ! (?m + 1)" using f(10,11) by (simp add: last_map)
    then have K: "?K = take ?m ks @ ks ! (?m + 1) # drop (?m + 2) ks"
      using m mk' by (simp add: drop_nth_def take_Suc_conv_app_nth)
    have "map Some ?K = take ?m (bnds b ks) @ ?b2 # drop (?m + 2) (bnds b ks)"
      unfolding K using b2 mk' by (simp add: Some bnds_def take_map drop_map)
    then have "list_all2 (shape E False h) (map Some ?K) ?C" using sC by simp
    then obtain its where its: "list_all (item_ok E (Suc h)) its" "subs its = ?C" "map fst its = ?K" "ents its = concat (map entries ?C)"
      "flat_of its = zip ?K (map pid ?C)" "length its = length ?C"
      using kids_items by metis
    have pk': "length ?ps = length ?ks" using pk by (simp add: Some)
    have lC: "length ?C + 1 = length ks" using pk' by simp
    have fne: "fs \<noteq> []" using d(3) by (auto simp: Some)
    have "losing E S' (Suc h) fs b pp (?m + 1) its"
      unfolding losing_def
    proof (intro conjI)
      show "hole E S' (Suc h) fs b pp (pp # ids_of its)" using ho by (simp add: ids_of_def its(2))
      show "its \<noteq> []" using its(6) by auto
      show "\<forall>k. b = Some k \<longrightarrow> ?m + 1 < length its \<longrightarrow> fst (last its) = k"
      proof (intro allI impI)
        fix k assume kb: "b = Some k" "?m + 1 < length its"
        then have "?m + 2 < length ks" using its(6) lC by (cases r) auto
        then have "last ks = k" "last ?K = last ks" using stale kb(1) unfolding K by simp_all
        moreover have "fst (last its) = last ?K" unfolding its(3) [symmetric] using kb(2) by (subst last_map) auto
        ultimately show "fst (last its) = k" by simp
      qed
      show "\<exists>pg D. bt_pages S' pp = Some pg \<and> pg_leaf pg = (Suc h = 0) \<and> pg_root pg = (fs = []) \<and> data_rep E D pg
          \<and> ?m + 1 < length D \<and> drop_nth (?m + 1) D = flat_of its \<and> fill E (fs = []) (length D)"
      proof (intro exI conjI)
        show "data_rep E (zip ?ks ?ps) par'" "pg_leaf par' = (Suc h = 0)" "pg_root par' = (fs = [])"
          using par' node_rep_flat [OF pk'] by simp_all
        show "drop_nth (?m + 1) (zip ?ks ?ps) = flat_of its"
          unfolding its(5) mC [symmetric] using zip_drop_nth [OF pk' [symmetric]] by simp
      qed (use pgs(2) mk' pk' f(2) in simp_all)
      show "linked (next_of (bt_pages S')) (around leaf_ids fs (lids (Suc h) pp its []))"
        using li by (simp add: lids_def its(2))
    qed (use its rC Some in simp_all)
    then obtain S'' where "remove_entry_at E True ((pp, ?m + 1) # path_of fs) S' = Inr S''"
      "tree_with E S0 S'' (around entries fs (ents its))" using IH by blast
    then show ?thesis using ea by (simp add: Some its(4))
  qed
qed

end
