(* ===== verification/Bpt_Remove.thy ===== *)
theory Bpt_Remove
  imports Bpt_Pairs
begin

text \<open>
  Removal from the B+ tree: \<open>RemoveEntryAt\<close> with its borrowing and merging turns pages that represent
  a tree into pages that represent the tree without the entry, and \<^verbatim>\<open>Remove\<close> refines the contract
  of the index.
\<close>

section \<open>A page that lost an entry\<close>

lemma losingD:
  assumes "losing E S h fs b p j its"
  shows "hole E S h fs b p (p # ids_of its)" "list_all (item_ok E h) its" "its \<noteq> []"
    "list_all (rep E (bt_pages S) False) (subs its)" "h = 0 \<or> b \<noteq> None"
    "b = Some k \<Longrightarrow> j < length its \<Longrightarrow> fst (last its) = k"
    "linked (next_of (bt_pages S)) (around leaf_ids fs (lids h p its []))"
    "past_ok E h b []"
  using assms unfolding losing_def by (auto simp: past_ok_def)

lemma losing_page:
  assumes "losing E S h fs b p j its"
  obtains pg pg1 where "bt_pages S p = Some pg" "remove_in_page j pg = Inr pg1" "page_rep E (fs = []) h its [] pg1"
    "pg_next pg1 = pg_next pg" "pg_count pg = length its + 1" "pg_root pg = (fs = [])" "pg_root pg1 = (fs = [])"
    "fill E (fs = []) (length its + 1)" "j \<le> length its" "pg_count pg1 = length its"
proof -
  obtain pg D where pg: "bt_pages S p = Some pg" "pg_leaf pg = (h = 0)" "pg_root pg = (fs = [])" "data_rep E D pg"
    "j < length D" "drop_nth j D = flat_of its" "fill E (fs = []) (length D)"
    using assms unfolding losing_def by blast
  obtain pg1 where pg1: "remove_in_page j pg = Inr pg1" "data_rep E (drop_nth j D) pg1" "pg_leaf pg1 = pg_leaf pg"
    "pg_root pg1 = pg_root pg" "pg_next pg1 = pg_next pg" using data_rep_remove [OF pg(4,5)] by blast
  have "length D = length its + 1" using arg_cong [OF pg(6), of length] pg(5) by simp
  moreover have "page_rep E (fs = []) h its [] pg1" using pg1 pg(2,3,6) by (simp add: page_rep_def)
  ultimately show thesis using that [OF pg(1) pg1(1)] pg pg1 page_rep_count [of E "fs = []" h its "[]" pg1]
    by (simp add: data_rep_def)
qed

text \<open>The subtree under the page after the entry is gone.\<close>

lemma shortened:
  assumes lo: "losing E S h fs b p j its" and pg: "bt_pages S p = Some pg"
    and pg1: "page_rep E (fs = []) h its [] pg1" "pg_next pg1 = pg_next pg" and fl: "fill E (fs = []) (length its)"
  defines "S1 \<equiv> store p pg1 S" and "t \<equiv> mk h p its []"
  shows "hole E S1 h fs b (pid t) (pids t)" "rep E (bt_pages S1) (fs = []) t"
    "linked (next_of (bt_pages S1)) (around leaf_ids fs (leaf_ids t))" "entries t = ents its"
    "top_is b (map fst its) \<Longrightarrow> shape E (fs = []) h b t"
    "shape E (fs = []) h (map_option (\<lambda>_. fst (last its)) b) t"
proof -
  note l = losingD [OF lo]
  note d = holeD [OF l(1)]
  have P: "bt_pages S1 = (bt_pages S)(p \<mapsto> pg1)" by (simp add: S1_def)
  show "hole E S1 h fs b (pid t) (pids t)"
    unfolding t_def pid_mk pids_mk [OF l(2,8)] S1_def
    by (rule hole_change [OF l(1)]) (use d store_alloc [OF d(1), of p pg1] in auto)
  have "list_all (rep E (bt_pages S1) False) (subs its @ [])"
    unfolding append_Nil2 by (rule rep_list_cong [OF l(4)]) (use d(5) in \<open>auto simp: P ids_of_def\<close>)
  then show "rep E (bt_pages S1) (fs = []) t"
    unfolding t_def by (intro child_rep [OF l(2,8) _ _ pg1(1)]) (use fl in \<open>auto simp: P fill_def\<close>)
  have "next_of (bt_pages S1) x = next_of (bt_pages S) x" for x using pg pg1(2) by (simp add: P next_of_def)
  then show "linked (next_of (bt_pages S1)) (around leaf_ids fs (leaf_ids t))"
    using l(7) unfolding t_def leaf_ids_mk by (elim linked_cong) blast
  show "entries t = ents its" using entries_mk [OF l(2,8)] by (simp add: t_def)
  show "top_is b (map fst its) \<Longrightarrow> shape E (fs = []) h b t" using shape_mk [OF l(2,8)] fl by (simp add: t_def)
  have "past_ok E h (map_option (\<lambda>_. fst (last its)) b) []" using l(5) by (auto simp: past_ok_def)
  moreover have "top_is (map_option (\<lambda>_. fst (last its)) b) (map fst its)" using l(3) by (cases b) (simp_all add: last_map)
  ultimately show "shape E (fs = []) h (map_option (\<lambda>_. fst (last its)) b) t"
    using shape_mk [OF l(2)] fl by (simp add: t_def)
qed

section \<open>A page with too few entries\<close>

text \<open>
  \<open>deficit\<close>: page \<open>p\<close> keeps the items \<open>its\<close>, perhaps too few; \<open>ks\<close> are the keys of the parent after
  the bound of \<open>p\<close> was updated, \<open>l\<close> and \<open>r\<close> its other children.
\<close>

definition deficit :: "'k tree_type \<Rightarrow> 'k bpt \<Rightarrow> nat \<Rightarrow> 'k frame_of list \<Rightarrow> 'k option \<Rightarrow> nat \<Rightarrow> 'k list \<Rightarrow> 'k tr list
    \<Rightarrow> nat \<Rightarrow> 'k items \<Rightarrow> 'k tr list \<Rightarrow> bool" where
  "deficit E S h fs b pp ks l p its r \<longleftrightarrow>
     hole E S (Suc h) fs b pp (pp # concat (map pids l) @ (p # ids_of its) @ concat (map pids r))
     \<and> fill E (fs = []) (length ks) \<and> length l < length (bnds b ks)
     \<and> list_all2 (shape E False h) (take (length l) (bnds b ks)) l
     \<and> list_all2 (shape E False h) (drop (length l + 1) (bnds b ks)) r
     \<and> list_all (rep E (bt_pages S) False) (l @ subs its @ r)
     \<and> list_all (item_ok E h) its \<and> its \<noteq> []
     \<and> past_ok E h (bnds b ks ! length l) [] \<and> top_is (bnds b ks ! length l) (map fst its)
     \<and> linked (next_of (bt_pages S)) (around leaf_ids fs
          (concat (map leaf_ids l) @ lids h p its [] @ concat (map leaf_ids r)))"

lemma deficit_len:
  assumes "deficit E S h fs b pp ks l p its r"
  shows "length (bnds b ks) = length l + 1 + length r"
proof -
  have "length (drop (length l + 1) (bnds b ks)) = length r"
    by (rule list_all2_lengthD) (use assms in \<open>unfold deficit_def, blast\<close>)
  moreover have "length l < length (bnds b ks)" using assms unfolding deficit_def by blast
  ultimately show ?thesis unfolding length_drop by linarith
qed

lemma deficit_left:
  assumes E: "ok_type E" and df: "deficit E S h fs b pp ks (l @ [a]) p its r"
  obtains X prev where "bt_pages S (pid a) = Some prev" "page_rep E False h X [] prev" "fill E False (length X)" "X \<noteq> []"
    "entries a = ents X" "pair E S h fs b pp ks l (pid a) X p its [] r"
proof -
  note f = df [unfolded deficit_def]
  let ?b = "bnds b ks ! length l"
  have lt: "length l < length ks" using f by (auto split: if_splits)
  then have b: "?b = Some (ks ! length l)" by (rule nth_bnds)
  have tk: "take (length (l @ [a])) (bnds b ks) = take (length l) (bnds b ks) @ [?b]"
    using f by (simp add: take_Suc_conv_app_nth)
  have sh: "list_all2 (shape E False h) (take (length l) (bnds b ks)) l" "shape E False h (Some (ks ! length l)) a"
    using f unfolding tk b by (auto simp: list_all2_append)
  have rp: "rep E (bt_pages S) False a" using f by simp
  obtain X past pg where x: "a = mk h (pid a) X past" "list_all (item_ok E h) X" "past_ok E h (Some (ks ! length l)) past"
    "fill E False (length X)" "top_is (Some (ks ! length l)) (map fst X)" "bt_pages S (pid a) = Some pg"
    "page_rep E False h X past pg" "list_all (rep E (bt_pages S) False) (subs X @ past)" "X \<noteq> []"
    "pids a = pid a # ids_of X @ concat (map pids past)" "entries a = ents X @ concat (map entries past)"
    "leaf_ids a = lids h (pid a) X past" by (rule child_items [OF E sh(2) rp])
  have past: "past = []" using x(3) by simp
  have "pair E S h fs b pp ks l (pid a) X p its [] r"
    using f sh(1) x(2,8) unfolding pair_def by (simp add: x(10,12) past)
  then show thesis using that x past by simp
qed

lemma deficit_right:
  assumes E: "ok_type E" and df: "deficit E S h fs b pp ks l p its (a # r)"
  obtains Y past nxt where "bt_pages S (pid a) = Some nxt" "page_rep E False h Y past nxt" "fill E False (length Y)" "Y \<noteq> []"
    "entries a = ents Y @ concat (map entries past)" "pair E S h fs b pp ks l p its (pid a) Y past r"
    "past \<noteq> [] \<longleftrightarrow> 0 < h \<and> length l + 1 = length ks"
proof -
  note f = df [unfolded deficit_def]
  let ?b = "bnds b ks ! (length l + 1)"
  have len: "length (bnds b ks) = length l + 2 + length r" using f list_all2_lengthD [of "shape E False h" "drop (length l + 1) (bnds b ks)" "a # r"]
    by (simp split: if_splits)
  then have dr: "drop (length l + 1) (bnds b ks) = ?b # drop (length l + 2) (bnds b ks)"
    using Cons_nth_drop_Suc [of "length l + 1" "bnds b ks"] by simp
  have sh: "shape E False h ?b a" "list_all2 (shape E False h) (drop (length l + 2) (bnds b ks)) r"
    using f unfolding dr by simp_all
  have rp: "rep E (bt_pages S) False a" using f by simp
  obtain Y past pg where x: "a = mk h (pid a) Y past" "list_all (item_ok E h) Y" "past_ok E h ?b past"
    "fill E False (length Y)" "top_is ?b (map fst Y)" "bt_pages S (pid a) = Some pg"
    "page_rep E False h Y past pg" "list_all (rep E (bt_pages S) False) (subs Y @ past)" "Y \<noteq> []"
    "pids a = pid a # ids_of Y @ concat (map pids past)" "entries a = ents Y @ concat (map entries past)"
    "leaf_ids a = lids h (pid a) Y past" by (rule child_items [OF E sh(1) rp])
  have "pair E S h fs b pp ks l p its (pid a) Y past r"
    using f sh(2) x(2,3,5,8,9) len unfolding pair_def by (simp add: x(10,12))
  moreover have "?b = None \<longleftrightarrow> length l + 1 = length ks"
  proof
    assume "?b = None"
    then show "length l + 1 = length ks" using nth_bnds [of "length l + 1" ks b] len by (auto split: if_splits)
  next
    assume e: "length l + 1 = length ks"
    then have "b = None" using len by (simp split: if_splits)
    then show "?b = None" using nth_bnds_last [of b ks] e by simp
  qed
  then have "past \<noteq> [] \<longleftrightarrow> 0 < h \<and> length l + 1 = length ks" using x(3) by (cases "h = 0") (auto simp: past_ok_def)
  ultimately show thesis using that x by blast
qed

text \<open>The parent of a page that lost an entry, with the bound of the page brought up to date.\<close>

definition bound_keys :: "'k list \<Rightarrow> nat \<Rightarrow> nat \<Rightarrow> 'k items \<Rightarrow> 'k list" where
  "bound_keys ks m j its = (if j = length its \<and> m < length ks then ks[m := fst (last its)] else ks)"

lemma length_bound_keys [simp]: "length (bound_keys ks m j its) = length ks"
  by (simp add: bound_keys_def)

lemma losing_deficit:
  assumes lo: "losing E S h ((pp, ks, l, r) # fs) b p j its"
  defines "ks1 \<equiv> bound_keys ks (length l) j its"
  obtains par b' where "bt_pages S pp = Some par" "node_rep E (fs = []) ks (map pid l @ p # map pid r) par"
    "deficit E S h fs b' pp ks1 l p its r" "top_is b' ks" "on_edge (path_of fs) S = Inr (b' = None)"
    "b = bnds b' ks ! length l" "length ks \<le> tt_max E"
proof -
  note f = losingD [OF lo]
  note d = holeD [OF f(1)]
  obtain par b' bl br where c: "bt_pages S pp = Some par" "node_rep E (fs = []) ks (map pid l @ p # map pid r) par"
    "list_all (rep E (bt_pages S) False) l" "list_all (rep E (bt_pages S) False) r" "ctx_rep E (bt_pages S) fs pp"
    "ctx_shape E (Suc h) fs b'" "fill E (fs = []) (length ks)" "top_is b' ks" "bnds b' ks = bl @ b # br"
    "length bl = length l" "list_all2 (shape E False h) bl l" "list_all2 (shape E False h) br r"
    by (rule frame_facts [OF d(2,3)])
  have bn: "bnds b' ks1 = bl @ (if j = length its \<and> b \<noteq> None then Some (fst (last its)) else b) # br"
  proof (cases "j = length its \<and> length l < length ks")
    case True
    then have "bnds b' ks1 = (bnds b' ks)[length l := Some (fst (last its))]"
      unfolding ks1_def bound_keys_def by (simp only: simp_thms if_True bnds_update)
    moreover have "b \<noteq> None" using bnds_at(1) [OF c(9) c(10) [symmetric]] True by simp
    ultimately show ?thesis using True unfolding c(9) c(10) [symmetric] by simp
  next
    case False
    have "length l = length ks \<Longrightarrow> b = None" using bnds_at(2) [OF c(9) c(10) [symmetric]] by simp
    moreover have "length l \<le> length ks" using bnds_at(3) [OF c(9) c(10) [symmetric]] .
    ultimately show ?thesis using False c(9) by (auto simp: ks1_def bound_keys_def)
  qed
  have b: "bnds b' ks1 ! length l = (if j = length its \<and> b \<noteq> None then Some (fst (last its)) else b)"
    unfolding bn c(10) [symmetric] by simp
  have bt: "take (length l) (bnds b' ks1) = bl" "drop (length l + 1) (bnds b' ks1) = br"
    unfolding bn c(10) [symmetric] by simp_all
  have "set (pp # concat (map pids l) @ concat (map pids r)) \<subseteq> dom (bt_pages S)"
    using c(1,3,4) rep_dom [of E "bt_pages S" False] by (fastforce simp: list_all_iff)
  then have "hole E S (Suc h) fs b' pp (pp # concat (map pids l) @ (p # ids_of its) @ concat (map pids r))"
    using d c(5,6) by (auto simp: hole_def)
  moreover have "past_ok E h (bnds b' ks1 ! length l) []" using f(5) unfolding b by (auto simp: past_ok_def)
  moreover have "j \<le> length its" by (rule losing_page [OF lo])
  then have "top_is (bnds b' ks1 ! length l) (map fst its)"
    using f(3,6) unfolding b by (cases b) (auto simp: last_map)
  moreover have "length l < length (bnds b' ks1)" unfolding bn by (simp add: c(10) [symmetric])
  moreover have "fill E (fs = []) (length ks1)" using c(7) by (simp add: ks1_def)
  ultimately have "deficit E S h fs b' pp ks1 l p its r"
    using c(3,4,11,12) f(2,3,4,7) unfolding deficit_def bt by simp
  moreover have "on_edge (path_of fs) S = Inr (b' = None)" by (rule on_edge_ok [OF c(5,6)])
  moreover have "b = bnds b' ks ! length l" unfolding c(9) c(10) [symmetric] by simp
  ultimately show thesis using that [OF c(1,2) _ c(8)] c(7) by (simp add: fill_def)
qed

section \<open>What runs\<close>

text \<open>The bound in the parent after the last entry of a page was removed.\<close>

lemma update_bound_run:
  assumes "node_rep E r ks ps par" "bt_pages S pp = Some par" "pp \<noteq> p" "length ks \<le> tt_max E"
    "page_rep E r' h its [] pg1" "its \<noteq> []"
  obtains par1 where "update_bound j pg1 ((pp, m) # up) (store p pg1 S)
      = Inr (j = length its \<and> m < length ks, store pp par1 (store p pg1 S))"
    "node_rep E r (bound_keys ks m j its) ps par1" "pg_next par1 = pg_next par"
    "j = length its \<and> m < length ks \<Longrightarrow> set_key m (fst (last its)) par = Inr par1"
    "\<not> (j = length its \<and> m < length ks) \<Longrightarrow> store pp par1 (store p pg1 S) = store p pg1 S"
proof (cases "j = length its \<and> m < length ks")
  case True
  obtain par1 where p1: "set_key m (fst (last its)) par = Inr par1" "node_rep E r (ks[m := fst (last its)]) ps par1"
    "pg_next par1 = pg_next par" using node_rep_set_key [OF assms(1) _ assms(4)] True by blast
  moreover have "pg_count par = length ks" using assms(1) by (simp add: node_rep_def)
  ultimately have "update_bound j pg1 ((pp, m) # up) (store p pg1 S)
      = Inr (j = length its \<and> m < length ks, store pp par1 (store p pg1 S))"
    using True assms(2,3) page_rep_count [OF assms(5)] page_rep_last [OF assms(5,6)]
    by (simp add: update_bound_def load_Some)
  then show thesis using that [OF _ _ p1(3)] p1 True by (simp add: bound_keys_def)
next
  case False
  have "pg_count par = length ks" using assms(1) by (simp add: node_rep_def)
  moreover have same: "store pp par (store p pg1 S) = store p pg1 S"
    using assms(2,3) by (simp add: store_def fun_upd_twist fun_upd_idem)
  ultimately have "update_bound j pg1 ((pp, m) # up) (store p pg1 S)
      = Inr (j = length its \<and> m < length ks, store pp par (store p pg1 S))"
    using False assms(2,3) page_rep_count [OF assms(5)] by (auto simp: update_bound_def load_Some)
  then show thesis using that [of par] assms(1) False same by (simp add: bound_keys_def)
qed

lemma siblings_run:
  assumes nr: "node_rep E r' ks (map pid l @ p # map pid r) par" and lk: "length ks \<le> tt_max E"
    and len: "length (bnds b ks) = length l + 1 + length r"
  shows "prev_sibling (length l) par = Inr (if l = [] then 0 else pid (last l))"
    "next_sibling E (b = None) (length l) par = Inr (if r = [] then 0 else pid (hd r))"
proof -
  have n: "length (pg_data par) = tt_max E" "pg_count par = length ks" using nr by (simp_all add: node_rep_def)
  have e: "i < length ks \<Longrightarrow> i < length l + 1 + length r \<Longrightarrow>
      get_entry i par = Inr (pg_data par ! i) \<and> snd (pg_data par ! i) = (map pid l @ p # map pid r) ! i" for i
    using node_child [OF nr, of i] n lk by (simp add: get_child_def)
  show "prev_sibling (length l) par = Inr (if l = [] then 0 else pid (last l))"
  proof (cases l rule: rev_cases)
    case Nil
    then show ?thesis by (simp add: prev_sibling_def)
  next
    case (snoc l' a)
    have "length l' < length ks" using len snoc by (simp split: if_splits)
    then show ?thesis using e [of "length l'"] by (simp add: prev_sibling_def snoc nth_append)
  qed
  show "next_sibling E (b = None) (length l) par = Inr (if r = [] then 0 else pid (hd r))"
  proof (cases r)
    case Nil
    then show ?thesis using len n by (cases b) (simp_all add: next_sibling_def)
  next
    case (Cons a r')
    have "get_child E (length l + 1) par = Inr (pid a)"
      using node_child [OF nr, of "length l + 1"] by (simp add: Cons nth_append)
    moreover have "b \<noteq> None \<Longrightarrow> get_entry (length l + 1) par = Inr (pg_data par ! (length l + 1))
        \<and> snd (pg_data par ! (length l + 1)) = pid a"
      using e [of "length l + 1"] len by (cases b) (simp_all add: Cons nth_append)
    ultimately show ?thesis using len n by (cases b) (simp_all add: next_sibling_def Cons)
  qed
qed

text \<open>
  \<open>underfull\<close>: the routine has removed entry \<open>j\<close> of page \<open>p\<close>, which is not a root and now has too
  few entries, and has looked at the parent \<open>pp\<close> and at the neighbours \<open>nx\<close> and \<open>pv\<close>.
\<close>

definition underfull :: "'k tree_type \<Rightarrow> 'k bpt \<Rightarrow> nat \<Rightarrow> nat \<Rightarrow> 'k bpage \<Rightarrow> bool \<Rightarrow> 'k bpt \<Rightarrow> nat \<Rightarrow> nat \<Rightarrow> path \<Rightarrow> bool
    \<Rightarrow> 'k bpage \<Rightarrow> nat \<Rightarrow> nat \<Rightarrow> bool" where
  "underfull E S p j pg1 need S1 pp ii up edge par nx pv \<longleftrightarrow> bt_siz S \<noteq> 1
     \<and> (\<exists>pg. load p S = Inr pg \<and> remove_in_page j pg = Inr pg1 \<and> \<not> enough_keys E pg)
     \<and> update_bound j pg1 ((pp, ii) # up) (store p pg1 S) = Inr (need, S1)
     \<and> on_edge up S1 = Inr edge \<and> load pp S1 = Inr par \<and> next_sibling E edge ii par = Inr nx \<and> prev_sibling ii par = Inr pv"

lemma run_borrow_prev:
  assumes "underfull E S p j pg1 need S1 pp ii up edge par nx pv" "pv \<noteq> 0" "load pv S1 = Inr prev"
    "tt_min E < pg_count prev" "nx \<noteq> 0 \<longrightarrow> (\<exists>nxt. load nx S1 = Inr nxt)" "borrow_prev prev pg1 = Inr (prev', pg2)"
    "last_key prev' = Inr k" "set_key (ii - 1) k par = Inr par'"
  shows "remove_entry_at E rec ((p, j) # (pp, ii) # up) S
    = (let S2 = store pp par' (store pv prev' (store p pg2 S1)) in
       if need then try_update_till_root ((pp, ii) # up) S2 else Inr S2)"
  using assms by (subst remove_entry_at.simps) (auto simp: underfull_def simp del: remove_entry_at.simps)

lemma run_borrow_next:
  assumes "underfull E S p j pg1 need S1 pp ii up edge par nx pv" "nx \<noteq> 0" "load nx S1 = Inr nxt"
    "tt_min E < pg_count nxt" "pv \<noteq> 0 \<longrightarrow> (\<exists>prev. load pv S1 = Inr prev \<and> \<not> tt_min E < pg_count prev)"
    "borrow_next E (rec \<and> ii + 1 = pg_count par) pg1 nxt = Inr (pg2, nxt')"
    "last_key pg2 = Inr k" "set_key ii k par = Inr par'"
  shows "remove_entry_at E rec ((p, j) # (pp, ii) # up) S
    = try_update_till_root ((pp, ii) # up) (store pp par' (store nx nxt' (store p pg2 S1)))"
  using assms by (subst remove_entry_at.simps) (auto simp: underfull_def simp del: remove_entry_at.simps)

lemma run_merge_prev:
  assumes "underfull E S p j pg1 need S1 pp ii up edge par nx pv" "pv \<noteq> 0" "load pv S1 = Inr prev"
    "\<not> tt_min E < pg_count prev" "nx \<noteq> 0 \<longrightarrow> (\<exists>nxt. load nx S1 = Inr nxt \<and> \<not> tt_min E < pg_count nxt)"
    "merge_into_prev prev pg1 = Inr prev'" "last_key prev' = Inr k" "set_key (ii - 1) k par = Inr par'"
  shows "remove_entry_at E rec ((p, j) # (pp, ii) # up) S
    = (let S2 = delete_bpage (pv # map fst ((pp, ii) # up)) p (store pp par' (store pv prev' S1)) in
       if edge then remove_on_edge E ((pp, ii) # up) S2 else remove_entry_at E True ((pp, ii) # up) S2)"
  using assms
  by (subst remove_entry_at.simps) (auto simp: underfull_def Let_def simp del: remove_entry_at.simps remove_on_edge.simps)

lemma run_merge_next:
  assumes "underfull E S p j pg1 need S1 pp ii up edge par nx 0" "nx \<noteq> 0" "load nx S1 = Inr nxt"
    "\<not> tt_min E < pg_count nxt" "merge_next E rec (ii + 1 = pg_count par) pg1 nxt = Inr pg2"
    "last_key pg2 = Inr k" "set_key ii k par = Inr par'"
  shows "remove_entry_at E rec ((p, j) # (pp, ii) # up) S
    = (let S2 = store pp par' (store p pg2 S1) in
       if edge then remove_on_edge E ((pp, ii + 1) # up) S2 else remove_entry_at E True ((pp, ii + 1) # up) S2)"
  using assms
  by (subst remove_entry_at.simps)
    (auto simp: underfull_def delete_bpage_def Let_def simp del: remove_entry_at.simps remove_on_edge.simps)

section \<open>Borrowing\<close>

text \<open>
  \<open>starved\<close> bundles what is known when the routine turns to the neighbours; \<open>ks\<close> are the keys of
  the parent with the bound of \<open>p\<close> up to date.
\<close>

definition starved :: "'k tree_type \<Rightarrow> 'k bpt \<Rightarrow> nat \<Rightarrow> 'k frame_of list \<Rightarrow> 'k option \<Rightarrow> nat \<Rightarrow> 'k list \<Rightarrow> 'k tr list
    \<Rightarrow> nat \<Rightarrow> nat \<Rightarrow> 'k items \<Rightarrow> 'k tr list \<Rightarrow> bool \<Rightarrow> 'k bpage \<Rightarrow> 'k bpage \<Rightarrow> bool" where
  "starved E S h fs b pp ks l p j its r need pg1 par \<longleftrightarrow>
     underfull E S p j pg1 need (store pp par (store p pg1 S)) pp (length l) (path_of fs) (b = None) par
       (if r = [] then 0 else pid (hd r)) (if l = [] then 0 else pid (last l))
     \<and> page_rep E False h its [] pg1 \<and> pg_next pg1 = next_of (bt_pages S) p
     \<and> node_rep E (fs = []) ks (map pid l @ p # map pid r) par \<and> length ks \<le> tt_max E
     \<and> deficit E S h fs b pp ks l p its r
     \<and> (top_is b ks \<or> need \<and> length l + 1 = length ks) \<and> length its + 1 = tt_min E"

lemma starvedD:
  assumes "starved E S h fs b pp ks l p j its r need pg1 par"
  shows "underfull E S p j pg1 need (store pp par (store p pg1 S)) pp (length l) (path_of fs) (b = None) par
       (if r = [] then 0 else pid (hd r)) (if l = [] then 0 else pid (last l))"
    "page_rep E False h its [] pg1" "pg_next pg1 = next_of (bt_pages S) p"
    "node_rep E (fs = []) ks (map pid l @ p # map pid r) par" "length ks \<le> tt_max E"
    "deficit E S h fs b pp ks l p its r" "top_is b ks \<or> need \<and> length l + 1 = length ks" "length its + 1 = tt_min E"
  using assms unfolding starved_def by blast+

lemma losing_starved:
  assumes lo: "losing E S h ((pp, ks, l, r) # fs) b p j its" and few: "\<not> tt_min E < length its + 1" and sz: "bt_siz S \<noteq> 1"
  obtains b' pg1 par where "starved E S h fs b' pp (bound_keys ks (length l) j its) l p j its r
    (j = length its \<and> length l < length ks) pg1 par"
proof -
  let ?ks = "bound_keys ks (length l) j its"
  note f = losingD [OF lo]
  obtain pg pg1 where p: "bt_pages S p = Some pg" "remove_in_page j pg = Inr pg1" "page_rep E False h its [] pg1"
    "pg_next pg1 = pg_next pg" "pg_count pg = length its + 1" "\<not> pg_root pg" "\<not> pg_root pg1"
    "fill E False (length its + 1)" "j \<le> length its" "pg_count pg1 = length its"
    by (rule losing_page [OF lo]) auto
  obtain par0 b' where q: "bt_pages S pp = Some par0" "node_rep E (fs = []) ks (map pid l @ p # map pid r) par0"
    "deficit E S h fs b' pp ?ks l p its r" "top_is b' ks" "on_edge (path_of fs) S = Inr (b' = None)"
    "b = bnds b' ks ! length l" "length ks \<le> tt_max E" by (rule losing_deficit [OF lo])
  note g = q(3) [unfolded deficit_def]
  have ho: "hole E S (Suc h) fs b' pp (pp # concat (map pids l) @ (p # ids_of its) @ concat (map pids r))" using g by blast
  note d = holeD [OF ho]
  have ne: "pp \<noteq> p" using d(5) by auto
  obtain par where u: "update_bound j pg1 ((pp, length l) # path_of fs) (store p pg1 S)
      = Inr (j = length its \<and> length l < length ks, store pp par (store p pg1 S))"
    "node_rep E (fs = []) ?ks (map pid l @ p # map pid r) par"
    by (rule update_bound_run [OF q(2,1) ne q(7) p(3) f(3)])
  let ?S1 = "store pp par (store p pg1 S)"
  have "ctx_rep E (bt_pages ?S1) fs pp" by (rule ctx_rep_cong [OF d(2)]) (use d(5) in auto)
  then have oe: "on_edge (path_of fs) ?S1 = Inr (b' = None)" using on_edge_ok d(3) by blast
  note len = deficit_len [OF q(3)]
  have sib: "prev_sibling (length l) par = Inr (if l = [] then 0 else pid (last l))"
    "next_sibling E (b' = None) (length l) par = Inr (if r = [] then 0 else pid (hd r))"
    using siblings_run [OF u(2) _ len] q(7) by simp_all
  have uf: "underfull E S p j pg1 (j = length its \<and> length l < length ks) ?S1 pp (length l) (path_of fs) (b' = None) par
       (if r = [] then 0 else pid (hd r)) (if l = [] then 0 else pid (last l))"
    unfolding underfull_def using sz p(1,2,5,6) few u(1) oe sib by (auto simp: load_Some enough_keys_def)
  have "top_is b' ?ks \<or> (j = length its \<and> length l < length ks) \<and> length l + 1 = length ks"
  proof (cases "j = length its \<and> length l < length ks \<and> length l + 1 \<noteq> length ks")
    case True
    then show ?thesis using q(4) last_update(2) [of "length l" ks] by (cases b') (simp_all add: bound_keys_def)
  next
    case False
    then show ?thesis using q(4) by (auto simp: bound_keys_def)
  qed
  moreover have "pg_next pg1 = next_of (bt_pages S) p" using p(1,4) by (simp add: next_of_def)
  moreover have "length its + 1 = tt_min E" using p(8) few by (simp add: fill_def)
  ultimately show thesis using that [of b' pg1 par] uf p(3) u(2) q(3,7) unfolding starved_def by auto
qed

text \<open>The parent after its children exchanged entries.\<close>

lemma borrowed_done:
  assumes E: "ok_type E"
    and n: "hole E S2 (Suc h) fs b pp (pids (Nd pp ks C))" "rep E (bt_pages S2) (fs = []) (Nd pp ks C)"
    "list_all2 (shape E False h) (bnds b ks) C" "linked (next_of (bt_pages S2)) (around leaf_ids fs (leaf_ids (Nd pp ks C)))"
    "fill E (fs = []) (length ks)" "bt_siz S2 = bt_siz S0"
  shows "m + 1 = length ks \<or> top_is b ks \<Longrightarrow>
      \<exists>S'. try_update_till_root ((pp, m) # path_of fs) S2 = Inr S' \<and> tree_with E S0 S' (around entries fs (entries (Nd pp ks C)))"
    "top_is b ks \<Longrightarrow> tree_with E S0 S2 (around entries fs (entries (Nd pp ks C)))"
proof -
  let ?n = "Nd pp ks C" and ?b = "map_option (\<lambda>_. last ks) b"
  have kne: "ks \<noteq> []" using fill_pos [OF E n(5)] by auto
  obtain par where par: "bt_pages S2 pp = Some par" "node_rep E (fs = []) ks (map pid C) par" using n(2) by auto
  have lk: "last_key par = Inr (last ks)" using node_rep_last [OF par(2) kne] n(5) by (simp add: fill_def)
  have "bnds ?b ks = bnds b ks" by (rule bnds_cong) auto
  then have sh: "shape E (fs = []) (Suc h) ?b ?n" using n(3,5) by (cases b) simp_all
  have cnt: "pg_count par = length ks" using par(2) by (simp add: node_rep_def)
  have bt: "top_is b ks \<Longrightarrow> b = ?b" by (cases b) auto
  have ho: "hole E S2 (Suc h) fs b (pid ?n) (pids ?n)" using n(1) by simp
  show "m + 1 = length ks \<or> top_is b ks \<Longrightarrow>
      \<exists>S'. try_update_till_root ((pp, m) # path_of fs) S2 = Inr S' \<and> tree_with E S0 S' (around entries fs (entries ?n))"
    using settle [OF ho n(2) _ lk sh n(4) _ n(6), of m] par(1) cnt bt by auto
  show "top_is b ks \<Longrightarrow> tree_with E S0 S2 (around entries fs (entries ?n))"
    using close_hole [OF ho n(2) _ n(4,6)] sh bt by auto
qed

lemma top_update: "top_is b ks \<Longrightarrow> i + 1 < length ks \<or> b = None \<Longrightarrow> top_is b (ks[i := k])"
  using last_update(2) [of i ks k] by (cases b) auto

lemma borrow_prev_ok:
  assumes E: "ok_type E" and st: "starved E S h fs b pp ks (l @ [a]) p j its r need pg1 par"
    and prev: "bt_pages S (pid a) = Some prev" "tt_min E < pg_count prev"
    and nx: "r = [] \<or> pid (hd r) \<in> dom (bt_pages S)" and sz: "bt_siz S = bt_siz S0" and al: "alloc_ok S"
  shows "\<exists>S'. remove_entry_at E rc ((p, j) # (pp, length (l @ [a])) # path_of fs) S = Inr S'
    \<and> tree_with E S0 S' (around entries fs (concat (map entries (l @ [a])) @ ents its @ concat (map entries r)))"
proof -
  note t = starvedD [OF st]
  obtain X where x: "page_rep E False h X [] prev" "fill E False (length X)" "X \<noteq> []" "entries a = ents X"
    "pair E S h fs b pp ks l (pid a) X p its [] r"
    by (rule deficit_left [OF E t(6)]) (use prev(1) in auto)
  note o = pair_out [OF x(5)]
  note f = pairD [OF x(5)]
  obtain X0 kx where X0: "X = X0 @ [kx]" using x(3) by (cases X rule: rev_cases) auto
  have lX: "tt_min E < length X" using page_rep_count [OF x(1)] prev(2) by simp
  have X0ne: "X0 \<noteq> []" using lX ok_typeD(4) [OF E] X0 by auto
  have fl: "fill E False (length X0)" "fill E False (length (kx # its))"
    using lX x(2) X0 t(8) ok_typeD(5) [OF E] by (simp_all add: fill_def)
  obtain ky ix where kx: "kx = (ky, ix)" by (cases kx)
  obtain prev' pg2 where bo: "borrow_prev prev pg1 = Inr (prev', pg2)" "data_rep E (flat_of X0) prev'"
    "data_rep E ((ky, iptr ix) # flat_of its) pg2" "same_kind prev prev'" "same_kind pg1 pg2"
    "pg_next prev' = pg_next prev" "pg_next pg2 = pg_next pg1"
    using borrow_prev_run [of E "flat_of X0" "(ky, iptr ix)" prev "flat_of its" pg1] x(1) t(2,8) ok_typeD(5) [OF E]
    by (auto simp: page_rep_def X0 kx)
  have pr: "page_rep E False h X0 [] prev'" "page_rep E False h (kx # its) [] pg2"
    using bo x(1) t(2) by (simp_all add: page_rep_def same_kind_def kx)
  let ?k = "fst (last X0)"
  obtain par' where par': "set_key (length l) ?k par = Inr par'"
    "node_rep E (fs = []) (ks[length l := ?k]) (map pid l @ pid a # p # map pid r) par'"
    using node_rep_set_key [OF t(4) o(6) t(5), of ?k] by auto
  define S2 where "S2 = store pp par' (store (pid a) prev' (store p pg2 (store pp par (store p pg1 S))))"
  have d: "distinct [pp, pid a, p]" "{pp, pid a, p} \<subseteq> dom (bt_pages S)" using o(1-4) by auto
  have w: "wrote S S2 (pid a) p pp" unfolding wrote_def S2_def using d al by (auto simp: alloc_ok_def)
  have P2: "bt_pages S2 (pid a) = Some prev'" "bt_pages S2 p = Some pg2" "bt_pages S2 pp = Some par'"
    using d by (simp_all add: S2_def)
  have nexts: "h = 0 \<longrightarrow> next_of (bt_pages S2) (pid a) = next_of (bt_pages S) (pid a) \<and> next_of (bt_pages S2) p = next_of (bt_pages S) p"
    using P2 bo(6,7) t(3) prev(1) by (simp add: next_of_def)
  have eq: "X0 @ kx # its = X @ its" by (simp add: X0)
  note n = pair_borrowed [OF E x(5) w P2 pr eq fl par'(2) nexts]
  have sz2: "bt_siz S2 = bt_siz S0" using w sz by (simp add: wrote_def)
  have fk: "fill E (fs = []) (length (ks[length l := ?k]))" using f(2) by simp
  note fin = borrowed_done [OF E n(1-4) fk sz2, unfolded n(5)]
  have ent: "concat (map entries l) @ (ents X @ ents its @ concat (map entries [])) @ concat (map entries r)
      = concat (map entries (l @ [a])) @ ents its @ concat (map entries r)" by (simp add: x(4))
  have top: "top_is b (ks[length l := ?k]) \<or> need \<and> length l + 2 = length ks"
    using t(7) top_update [of b ks "length l" ?k] deficit_len [OF t(6)] by (cases b) auto
  let ?S1 = "store pp par (store p pg1 S)"
  have l1: "(if r = [] then 0 else pid (hd r)) \<noteq> 0 \<longrightarrow> (\<exists>nxt. load (if r = [] then 0 else pid (hd r)) ?S1 = Inr nxt)"
    using nx by (cases "r = []") (auto simp: load_Some)
  have l2: "(if l @ [a] = [] then 0 else pid (last (l @ [a]))) = pid a" by simp
  have "pid a \<noteq> 0" using d(2) al by (force simp: alloc_ok_def)
  moreover have "load (pid a) ?S1 = Inr prev" using prev(1) d(1) by (simp add: load_Some)
  moreover have "set_key (length (l @ [a]) - 1) ?k par = Inr par'" using par'(1) by simp
  ultimately have run: "remove_entry_at E rc ((p, j) # (pp, length (l @ [a])) # path_of fs) S
    = (if need then try_update_till_root ((pp, length (l @ [a])) # path_of fs) S2 else Inr S2)"
    using run_borrow_prev [OF t(1) [unfolded l2] _ _ prev(2) l1 bo(1) page_rep_last [OF pr(1) X0ne], of par' rc]
    unfolding S2_def Let_def by blast
  show ?thesis
  proof (cases need)
    case True
    then show ?thesis using run fin(1) [where m = "length (l @ [a])"] top unfolding ent by auto
  next
    case False
    then show ?thesis using run fin(2) top unfolding ent by auto
  qed
qed

lemma borrow_next_ok:
  assumes E: "ok_type E" and st: "starved E S h fs b pp ks l p j its (a # r) need pg1 par"
    and nxt: "bt_pages S (pid a) = Some nxt" "tt_min E < pg_count nxt"
    and pv: "l \<noteq> [] \<longrightarrow> (\<exists>prev. bt_pages S (pid (last l)) = Some prev \<and> pid (last l) \<notin> {p, pp} \<and> \<not> tt_min E < pg_count prev)"
    and sz: "bt_siz S = bt_siz S0" and al: "alloc_ok S"
  shows "\<exists>S'. remove_entry_at E (0 < h) ((p, j) # (pp, length l) # path_of fs) S = Inr S'
    \<and> tree_with E S0 S' (around entries fs (concat (map entries l) @ ents its @ concat (map entries (a # r))))"
proof -
  note t = starvedD [OF st]
  obtain Y past where x: "page_rep E False h Y past nxt" "fill E False (length Y)" "Y \<noteq> []"
    "entries a = ents Y @ concat (map entries past)"
    "pair E S h fs b pp ks l p its (pid a) Y past r" "past \<noteq> [] \<longleftrightarrow> 0 < h \<and> length l + 1 = length ks"
    by (rule deficit_right [OF E t(6)]) (use nxt(1) in auto)
  note o = pair_out [OF x(5)]
  note f = pairD [OF x(5)]
  obtain ky iy Y1 where Y: "Y = (ky, iy) # Y1" using x(3) by (cases Y) auto
  have lY: "tt_min E < length Y" using page_rep_count [OF x(1)] nxt(2) by simp
  have fl: "fill E False (length (its @ [(ky, iy)]))" "fill E False (length Y1)"
    using lY x(2) Y t(8) ok_typeD(5) [OF E] by (simp_all add: fill_def)
  let ?fl = "0 < h \<and> length l + 1 = pg_count par"
  have cnt: "pg_count par = length ks" using t(4) by (simp add: node_rep_def)
  obtain pg2 nxt' where bo: "borrow_next E ?fl pg1 nxt = Inr (pg2, nxt')" "data_rep E (flat_of its @ [(ky, iptr iy)]) pg2"
    "data_rep E (flat_of Y1) nxt'" "?fl \<longrightarrow> past_ptr E nxt' = past_ptr E nxt" "same_kind pg1 pg2" "same_kind nxt nxt'"
    "pg_next pg2 = pg_next pg1" "pg_next nxt' = pg_next nxt"
    using borrow_next_run [of E "flat_of its" pg1 "(ky, iptr iy)" "flat_of Y1" nxt ?fl] x(1) t(2,8) ok_typeD(5) [OF E]
    by (auto simp: page_rep_def Y)
  have pr: "page_rep E False h (its @ [(ky, iy)]) [] pg2" "page_rep E False h Y1 past nxt'"
    using bo x(1,6) t(2) cnt by (auto simp: page_rep_def same_kind_def)
  let ?k = "fst (last (its @ [(ky, iy)]))"
  obtain par' where par': "set_key (length l) ?k par = Inr par'"
    "node_rep E (fs = []) (ks[length l := ?k]) (map pid l @ p # pid a # map pid r) par'"
    using node_rep_set_key [OF t(4) o(6) t(5), of ?k] by auto
  define S2 where "S2 = store pp par' (store (pid a) nxt' (store p pg2 (store pp par (store p pg1 S))))"
  have d: "distinct [pp, p, pid a]" "{pp, p, pid a} \<subseteq> dom (bt_pages S)" using o(1-4) by auto
  have w: "wrote S S2 p (pid a) pp" unfolding wrote_def S2_def using d al by (auto simp: alloc_ok_def)
  have P2: "bt_pages S2 p = Some pg2" "bt_pages S2 (pid a) = Some nxt'" "bt_pages S2 pp = Some par'"
    using d by (simp_all add: S2_def)
  have nexts: "h = 0 \<longrightarrow> next_of (bt_pages S2) p = next_of (bt_pages S) p \<and> next_of (bt_pages S2) (pid a) = next_of (bt_pages S) (pid a)"
    using P2 bo(7,8) t(3) nxt(1) by (simp add: next_of_def)
  have eq: "(its @ [(ky, iy)]) @ Y1 = its @ Y" by (simp add: Y)
  note n = pair_borrowed [OF E x(5) w P2 pr eq fl par'(2) nexts]
  have sz2: "bt_siz S2 = bt_siz S0" using w sz by (simp add: wrote_def)
  have fk: "fill E (fs = []) (length (ks[length l := ?k]))" using f(2) by simp
  note fin = borrowed_done [OF E n(1-4) fk sz2, unfolded n(5)]
  have top: "length l + 1 = length (ks[length l := ?k]) \<or> top_is b (ks[length l := ?k])"
    using t(7) top_update [of b ks "length l" ?k] deficit_len [OF t(6)] by (cases b) auto
  let ?S1 = "store pp par (store p pg1 S)"
  have l1: "(if l = [] then 0 else pid (last l)) \<noteq> 0 \<longrightarrow>
      (\<exists>prev. load (if l = [] then 0 else pid (last l)) ?S1 = Inr prev \<and> \<not> tt_min E < pg_count prev)"
    using pv by (cases "l = []") (auto simp: load_Some)
  have l2: "(if a # r = [] then 0 else pid (hd (a # r))) = pid a" by simp
  have "pid a \<noteq> 0" using d(2) al by (force simp: alloc_ok_def)
  moreover have "load (pid a) ?S1 = Inr nxt" using nxt(1) d(1) by (simp add: load_Some)
  ultimately have run: "remove_entry_at E (0 < h) ((p, j) # (pp, length l) # path_of fs) S
    = try_update_till_root ((pp, length l) # path_of fs) S2"
    using run_borrow_next [OF t(1) [unfolded l2] _ _ nxt(2) l1 bo(1) page_rep_last [OF pr(1)], of par'] par'(1)
    unfolding S2_def by blast
  have "ents its @ ents Y @ concat (map entries past) = ents its @ entries a" by (simp add: x(4))
  then show ?thesis using run fin(1) [OF top] by simp
qed

section \<open>Merging\<close>

lemma merge_prev_ok:
  assumes E: "ok_type E" and st: "starved E S h fs b pp ks (l @ [a]) p j its r need pg1 par"
    and prev: "bt_pages S (pid a) = Some prev" "\<not> tt_min E < pg_count prev"
    and nx: "r \<noteq> [] \<longrightarrow> (\<exists>nxt. bt_pages S (pid (hd r)) = Some nxt \<and> pid (hd r) \<notin> {p, pp} \<and> \<not> tt_min E < pg_count nxt)"
    and sz: "bt_siz S = bt_siz S0" and al: "alloc_ok S"
    and IH: "\<And>S' its. losing E S' (Suc h) fs b pp (length l + 1) its \<Longrightarrow> bt_siz S' = bt_siz S0 \<Longrightarrow>
      \<exists>S''. remove_entry_at E True ((pp, length l + 1) # path_of fs) S' = Inr S''
        \<and> tree_with E S0 S'' (around entries fs (ents its))"
  shows "\<exists>S'. remove_entry_at E rc ((p, j) # (pp, length (l @ [a])) # path_of fs) S = Inr S'
    \<and> tree_with E S0 S' (around entries fs (concat (map entries (l @ [a])) @ ents its @ concat (map entries r)))"
proof -
  note t = starvedD [OF st]
  obtain X where x: "page_rep E False h X [] prev" "fill E False (length X)" "X \<noteq> []" "entries a = ents X"
    "pair E S h fs b pp ks l (pid a) X p its [] r"
    by (rule deficit_left [OF E t(6)]) (use prev(1) in auto)
  note o = pair_out [OF x(5)]
  note f = pairD [OF x(5)]
  have lX: "length X = tt_min E" using page_rep_count [OF x(1)] prev(2) x(2) by (simp add: fill_def)
  have fl: "fill E False (length (X @ its))" using lX t(8) ok_typeD(6) [OF E] by (simp add: fill_def)
  obtain v where v: "merge_into_prev prev pg1 = Inr v" "data_rep E (flat_of X @ flat_of its) v" "same_kind prev v"
    "pg_next v = pg_next pg1"
    using merge_into_prev_run [of E "flat_of X" prev "flat_of its" pg1] x(1) t(2) fl by (auto simp: page_rep_def fill_def)
  have pr: "page_rep E False h (X @ its) [] v" using v x(1) by (simp add: page_rep_def same_kind_def)
  let ?k = "fst (last its)"
  have lk: "last_key v = Inr ?k" using page_rep_last [OF pr] f(10) by simp
  obtain par' where par': "set_key (length l) ?k par = Inr par'"
    "node_rep E (fs = []) (ks[length l := ?k]) (map pid l @ pid a # p # map pid r) par'"
    using node_rep_set_key [OF t(4) o(6) t(5), of ?k] by auto
  let ?S1 = "store pp par (store p pg1 S)"
  define S2 where "S2 = delete_bpage (pid a # map fst ((pp, length (l @ [a])) # path_of fs)) p (store pp par' (store (pid a) v ?S1))"
  have d: "distinct [pp, pid a, p]" "{pp, pid a, p} \<subseteq> dom (bt_pages S)" using o(1-4) by auto
  have pin: "p \<notin> set (pid a # map fst ((pp, length (l @ [a])) # path_of fs))"
  proof -
    have "map fst (path_of fs) = map fst fs" by (auto simp: path_of_def)
    moreover have "set (map fst fs) \<subseteq> set (ctx_ids fs)" by (induction fs rule: ctx_ids.induct) auto
    ultimately show ?thesis using d(1) holeD(5) [OF f(1)] by auto
  qed
  then have S2: "bt_pages S2 = (bt_pages (store pp par' (store (pid a) v ?S1)))(p := None)" "bt_free S2 = p # bt_free S"
    "bt_total S2 = bt_total S" "bt_root S2 = bt_root S" "bt_siz S2 = bt_siz S"
    by (simp_all add: S2_def delete_bpage_def)
  have "alloc_ok S2" unfolding alloc_ok_def S2 using d al by (auto simp: alloc_ok_def)
  then have w: "wrote S S2 (pid a) p pp" unfolding wrote_def S2 using d by auto
  have P2: "bt_pages S2 (pid a) = Some v" "bt_pages S2 pp = Some par'" using d by (simp_all add: S2)
  have nexts: "h = 0 \<longrightarrow> next_of (bt_pages S2) (pid a) = next_of (bt_pages S) p" using P2 v(4) t(3) by (simp add: next_of_def)
  have stale: "\<forall>k. b = Some k \<longrightarrow> length l + 2 < length ks \<longrightarrow> last ks = k" using t(7) by auto
  have IH': "\<exists>S''. remove_entry_at E True ((pp, length l + 1) # path_of fs) S2 = Inr S''
      \<and> tree_with E S0 S'' (around entries fs (ents its'))" if "losing E S2 (Suc h) fs b pp (length l + 1) its'" for its'
    using IH [OF that] S2(5) sz by simp
  note m = pair_merged [OF E x(5) w P2 sz pr fl par'(2) nexts stale IH']
  have l1: "(if r = [] then 0 else pid (hd r)) \<noteq> 0 \<longrightarrow>
      (\<exists>nxt. load (if r = [] then 0 else pid (hd r)) ?S1 = Inr nxt \<and> \<not> tt_min E < pg_count nxt)"
    using nx by (cases "r = []") (auto simp: load_Some)
  have l2: "(if l @ [a] = [] then 0 else pid (last (l @ [a]))) = pid a" by simp
  have "pid a \<noteq> 0" using d(2) al by (force simp: alloc_ok_def)
  moreover have "load (pid a) ?S1 = Inr prev" using prev(1) d(1) by (simp add: load_Some)
  moreover have "set_key (length (l @ [a]) - 1) ?k par = Inr par'" using par'(1) by simp
  ultimately have run: "remove_entry_at E rc ((p, j) # (pp, length (l @ [a])) # path_of fs) S
    = (if b = None then remove_on_edge E ((pp, length (l @ [a])) # path_of fs) S2
       else remove_entry_at E True ((pp, length (l @ [a])) # path_of fs) S2)"
    using run_merge_prev [OF t(1) [unfolded l2] _ _ prev(2) l1 v(1) lk, of par' rc]
    unfolding S2_def Let_def by blast
  have ent: "concat (map entries (l @ [a])) @ ents its @ concat (map entries r)
      = concat (map entries l) @ (ents X @ ents its @ concat (map entries [])) @ concat (map entries r)" by (simp add: x(4))
  have len: "length (l @ [a]) = length l + 1" by simp
  show ?thesis unfolding run unfolding ent len by (rule m)
qed

lemma merge_next_ok:
  assumes E: "ok_type E" and st: "starved E S h fs b pp ks [] p j its (a # r) need pg1 par"
    and nxt: "bt_pages S (pid a) = Some nxt" "\<not> tt_min E < pg_count nxt"
    and sz: "bt_siz S = bt_siz S0" and al: "alloc_ok S"
    and IH: "\<And>S' its. losing E S' (Suc h) fs b pp 1 its \<Longrightarrow> bt_siz S' = bt_siz S0 \<Longrightarrow>
      \<exists>S''. remove_entry_at E True ((pp, 1) # path_of fs) S' = Inr S''
        \<and> tree_with E S0 S'' (around entries fs (ents its))"
  shows "\<exists>S'. remove_entry_at E (0 < h) ((p, j) # (pp, 0) # path_of fs) S = Inr S'
    \<and> tree_with E S0 S' (around entries fs (ents its @ concat (map entries (a # r))))"
proof -
  note t = starvedD [OF st]
  obtain Y past where x: "page_rep E False h Y past nxt" "fill E False (length Y)" "Y \<noteq> []"
    "entries a = ents Y @ concat (map entries past)"
    "pair E S h fs b pp ks [] p its (pid a) Y past r" "past \<noteq> [] \<longleftrightarrow> 0 < h \<and> 1 = length ks"
    by (rule deficit_right [OF E t(6)]) (use nxt(1) in auto)
  note o = pair_out [OF x(5)]
  note f = pairD [OF x(5)]
  have lY: "length Y = tt_min E" using page_rep_count [OF x(1)] nxt(2) x(2) by (simp add: fill_def)
  have fl: "fill E False (length (its @ Y))" using lY t(8) ok_typeD(6) [OF E] by (simp add: fill_def)
  have cnt: "pg_count par = length ks" using t(4) by (simp add: node_rep_def)
  obtain v where v: "merge_next E (0 < h) (0 + 1 = pg_count par) pg1 nxt = Inr v" "data_rep E (flat_of its @ flat_of Y) v"
    "same_kind pg1 v" "0 < h \<and> 0 + 1 = pg_count par \<longrightarrow> past_ptr E v = past_ptr E nxt" "\<not> 0 < h \<longrightarrow> pg_next v = pg_next nxt"
    using merge_next_run [of E "flat_of its" pg1 "flat_of Y" nxt "0 < h" "0 + 1 = pg_count par"] x(1) t(2) fl lY ok_typeD(5) [OF E]
    by (auto simp: page_rep_def fill_def)
  have pr: "page_rep E False h (its @ Y) past v" using v x(1,6) t(2) cnt by (auto simp: page_rep_def same_kind_def)
  let ?k = "fst (last Y)"
  have lk: "last_key v = Inr ?k" using page_rep_last [OF pr] x(3) by simp
  obtain par' where par': "set_key (length ([] :: 'a tr list)) ?k par = Inr par'"
    "node_rep E (fs = []) (ks[length ([] :: 'a tr list) := ?k]) (map pid ([] :: 'a tr list) @ p # pid a # map pid r) par'"
    using node_rep_set_key [OF t(4) o(6) t(5), of ?k] by auto
  let ?S1 = "store pp par (store p pg1 S)"
  define S2 where "S2 = store pp par' (store p v ?S1)"
  have d: "distinct [pp, p, pid a]" "{pp, p, pid a} \<subseteq> dom (bt_pages S)" using o(1-4) by auto
  have w: "wrote S S2 p (pid a) pp" unfolding wrote_def S2_def using d al by (auto simp: alloc_ok_def)
  have P2: "bt_pages S2 p = Some v" "bt_pages S2 pp = Some par'" using d by (simp_all add: S2_def)
  have nexts: "h = 0 \<longrightarrow> next_of (bt_pages S2) p = next_of (bt_pages S) (pid a)" using P2 v(5) nxt(1) by (simp add: next_of_def)
  have stale: "\<forall>k. b = Some k \<longrightarrow> length ([] :: 'a tr list) + 2 < length ks \<longrightarrow> last ks = k" using t(7) by auto
  have IH': "\<exists>S''. remove_entry_at E True ((pp, length ([] :: 'a tr list) + 1) # path_of fs) S2 = Inr S''
      \<and> tree_with E S0 S'' (around entries fs (ents its'))" if "losing E S2 (Suc h) fs b pp (length ([] :: 'a tr list) + 1) its'" for its'
    using IH [of S2 its'] that w sz by (simp add: wrote_def del: remove_entry_at.simps)
  note m = pair_merged [OF E x(5) w P2 sz pr fl par'(2) nexts stale IH']
  have l2: "(if a # r = [] then 0 else pid (hd (a # r))) = pid a" "(if [] = [] then 0 else pid (last [])) = 0" by simp_all
  have "pid a \<noteq> 0" using d(2) al by (force simp: alloc_ok_def)
  moreover have "load (pid a) ?S1 = Inr nxt" using nxt(1) d(1) by (simp add: load_Some)
  moreover have "set_key 0 ?k par = Inr par'" using par'(1) by simp
  ultimately have run: "remove_entry_at E (0 < h) ((p, j) # (pp, 0) # path_of fs) S
    = (if b = None then remove_on_edge E ((pp, 0 + 1) # path_of fs) S2
       else remove_entry_at E True ((pp, 0 + 1) # path_of fs) S2)"
    using run_merge_next [OF t(1) [unfolded l2 list.size(3)] _ _ nxt(2) v(1) lk, of par']
    unfolding S2_def Let_def by blast
  have ent: "ents its @ concat (map entries (a # r))
      = concat (map entries []) @ (ents its @ ents Y @ concat (map entries past)) @ concat (map entries r)" by (simp add: x(4))
  show ?thesis unfolding run unfolding ent using m unfolding list.size(3) .
qed

section \<open>RemoveEntryAt\<close>

text \<open>The page keeps enough entries, or is the root.\<close>

lemma remove_root_ok:
  assumes lo: "losing E S h [] b p j its" and sz: "bt_siz S = bt_siz S0" "bt_siz S0 \<noteq> 1"
  shows "\<exists>S'. remove_entry_at E rc [(p, j)] S = Inr S' \<and> tree_with E S0 S' (ents its)"
proof -
  note f = losingD [OF lo]
  obtain pg pg1 where p: "bt_pages S p = Some pg" "remove_in_page j pg = Inr pg1" "page_rep E True h its [] pg1"
    "pg_next pg1 = pg_next pg" "pg_count pg = length its + 1" "pg_root pg" "pg_root pg1"
    "fill E True (length its + 1)" "j \<le> length its" "pg_count pg1 = length its"
    by (rule losing_page [OF lo]) auto
  have fl: "fill E True (length its)" using p(8) f(3) by (cases its) (simp_all add: fill_def)
  have "b = None" using holeD(3) [OF f(1)] by simp
  then have top: "top_is b (map fst its)" by simp
  have "tree_with E S0 (store p pg1 S) (ents its)"
    using close_hole [of E "store p pg1 S" h "[]" b "mk h p its []" S0] shortened [OF lo p(1) _ p(4)] p(3) fl top sz by simp
  moreover have "remove_entry_at E rc [(p, j)] S = Inr (store p pg1 S)"
    using sz p f(3) by (simp add: load_Some update_bound_def enough_keys_def)
  ultimately show ?thesis by blast
qed

lemma remove_enough_ok:
  assumes E: "ok_type E" and lo: "losing E S h ((pp, ks, l, r) # fs) b p j its"
    and en: "tt_min E < length its + 1" and sz: "bt_siz S = bt_siz S0" "bt_siz S0 \<noteq> 1"
  shows "\<exists>S'. remove_entry_at E rc ((p, j) # path_of ((pp, ks, l, r) # fs)) S = Inr S'
    \<and> tree_with E S0 S' (around entries ((pp, ks, l, r) # fs) (ents its))"
proof -
  let ?fs = "(pp, ks, l, r) # fs" and ?t = "mk h p its []"
  note f = losingD [OF lo]
  obtain pg pg1 where p: "bt_pages S p = Some pg" "remove_in_page j pg = Inr pg1" "page_rep E (?fs = []) h its [] pg1"
    "pg_next pg1 = pg_next pg" "pg_count pg = length its + 1" "\<not> pg_root pg" "\<not> pg_root pg1"
    "fill E (?fs = []) (length its + 1)" "j \<le> length its" "pg_count pg1 = length its"
    by (rule losing_page [OF lo]) auto
  have fl: "fill E (?fs = []) (length its)" using p(8) en by (simp add: fill_def)
  note t = shortened [OF lo p(1,3,4) fl]
  let ?S = "store p pg1 S"
  obtain par0 b' where q: "bt_pages S pp = Some par0" "node_rep E (fs = []) ks (map pid l @ p # map pid r) par0"
    "deficit E S h fs b' pp (bound_keys ks (length l) j its) l p its r" "b = bnds b' ks ! length l" "length ks \<le> tt_max E"
    by (rule losing_deficit [OF lo]) blast
  have ne: "pp \<noteq> p" using holeD(5) [OF f(1)] by auto
  let ?need = "j = length its \<and> length l < length ks"
  obtain par where u: "update_bound j pg1 ((pp, length l) # path_of fs) ?S = Inr (?need, store pp par ?S)"
    "?need \<Longrightarrow> set_key (length l) (fst (last its)) par0 = Inr par" "\<not> ?need \<Longrightarrow> store pp par ?S = ?S"
    by (rule update_bound_run [OF q(2,1) ne q(5) p(3) f(3)]) blast
  have run: "remove_entry_at E rc ((p, j) # path_of ?fs) S
    = (if ?need then try_update_till_root (path_of ?fs) (store pp par ?S) else Inr ?S)"
    using sz p(1,2,5,7) en u(1,3) by (simp add: load_Some enough_keys_def)
  have lk: "last_key pg1 = Inr (fst (last its))" by (rule page_rep_last [OF p(3) f(3)])
  show ?thesis
  proof (cases ?need)
    case True
    have cnt: "pg_count par0 = length ks" using q(2) by (simp add: node_rep_def)
    have "length its - 1 + 1 = pg_count pg1" using p(10) f(3) by (cases its) simp_all
    then have i: "length its - 1 + 1 = pg_count pg1 \<or> b = map_option (\<lambda>_. fst (last its)) b" ..
    have "bt_pages ?S (pid ?t) = Some pg1" by simp
    from settle [OF t(1,2) this lk t(6,3) i] obtain S' where S': "try_update_till_root ((p, length its - 1) # path_of ?fs) ?S = Inr S'"
      "tree_with E S0 S' (around entries ?fs (ents its))" using sz t(4) by auto
    have "try_update_till_root ((p, length its - 1) # path_of ?fs) ?S = try_update_till_root (path_of ?fs) (store pp par ?S)"
      using True q(1) ne lk u(2) cnt p(10) f(3) by (cases its) (simp_all add: load_Some)
    then show ?thesis using S' True run by simp
  next
    case False
    have "top_is b (map fst its)"
    proof (cases "j = length its")
      case True
      then have "length ks \<le> length l" "length l < length (bnds b' ks)"
        using False deficit_len [OF q(3)] by simp_all
      then have "length l = length ks" "b' = None" by (simp_all split: if_splits)
      then have "b = None" using q(4) nth_bnds_last [of b' ks] by simp
      then show ?thesis by simp
    next
      case False
      then show ?thesis using f(3,6) p(9) by (cases b) (simp_all add: last_map)
    qed
    then have "tree_with E S0 ?S (around entries ?fs (entries ?t))"
      using close_hole [OF t(1,2) t(5) t(3), of S0] sz by simp
    then show ?thesis unfolding run if_not_P [OF False] t(4) by blast
  qed
qed

text \<open>A neighbour exists, with enough keys or with exactly the least number.\<close>

lemma sibling_page:
  assumes E: "ok_type E" and df: "deficit E S h fs b pp ks l p its r" and al: "alloc_ok S"
  shows "l \<noteq> [] \<Longrightarrow> \<exists>prev. bt_pages S (pid (last l)) = Some prev \<and> pid (last l) \<notin> {p, pp}"
    "r \<noteq> [] \<Longrightarrow> \<exists>nxt. bt_pages S (pid (hd r)) = Some nxt \<and> pid (hd r) \<notin> {p, pp}"
    "l \<noteq> [] \<or> r \<noteq> []"
proof -
  have ho: "hole E S (Suc h) fs b pp (pp # concat (map pids l) @ (p # ids_of its) @ concat (map pids r))"
    using df unfolding deficit_def by blast
  note d = holeD [OF ho]
  show "\<exists>prev. bt_pages S (pid (last l)) = Some prev \<and> pid (last l) \<notin> {p, pp}" if "l \<noteq> []"
  proof -
    have "pid (last l) \<in> set (concat (map pids l))" using pid_mem [of "last l"] last_in_set [OF that] by force
    then show ?thesis using d(5,6) by auto
  qed
  show "\<exists>nxt. bt_pages S (pid (hd r)) = Some nxt \<and> pid (hd r) \<notin> {p, pp}" if "r \<noteq> []"
  proof -
    have "pid (hd r) \<in> set (concat (map pids r))" using that pid_mem [of "hd r"] by (cases r) auto
    then show ?thesis using d(5,6) by auto
  qed
  have "fill E (fs = []) (length ks)" using df unfolding deficit_def by blast
  moreover have "fs = [] \<Longrightarrow> b = None" using d(3) by simp
  ultimately have "2 \<le> length (bnds b ks)" using ok_typeD(4) [OF E] by (cases fs) (auto simp: fill_def)
  then show "l \<noteq> [] \<or> r \<noteq> []" unfolding deficit_len [OF df] by auto
qed

lemma remove_entry_ok:
  assumes E: "ok_type E"
  shows "losing E S h fs b p j its \<Longrightarrow> bt_siz S = bt_siz S0 \<Longrightarrow> bt_siz S0 \<noteq> 1 \<Longrightarrow>
    \<exists>S'. remove_entry_at E (0 < h) ((p, j) # path_of fs) S = Inr S'
      \<and> tree_with E S0 S' (around entries fs (ents its))"
proof (induction fs arbitrary: S h b p j its)
  case Nil
  then show ?case using remove_root_ok [OF Nil.prems] by (simp del: remove_entry_at.simps)
next
  case (Cons g fs)
  obtain pp ks l r where g: "g = (pp, ks, l, r)" by (cases g)
  note lo = Cons.prems(1) [unfolded g]
  show ?case
  proof (cases "tt_min E < length its + 1")
    case True
    then show ?thesis unfolding g by (rule remove_enough_ok [OF E lo _ Cons.prems(2,3)])
  next
    case False
    obtain b' pg1 par where st: "starved E S h fs b' pp (bound_keys ks (length l) j its) l p j its r
      (j = length its \<and> length l < length ks) pg1 par"
      by (rule losing_starved [OF lo False]) (use Cons.prems in auto)
    have al: "alloc_ok S" using holeD(1) [OF losingD(1) [OF lo]] .
    have IH: "\<exists>S''. remove_entry_at E True ((pp, i) # path_of fs) S' = Inr S''
        \<and> tree_with E S0 S'' (around entries fs (ents its'))"
      if "losing E S' (Suc h) fs b' pp i its'" "bt_siz S' = bt_siz S0" for S' i its'
      using Cons.IH [OF that Cons.prems(3)] by (simp del: remove_entry_at.simps)
    note sib = sibling_page [OF E starvedD(6) [OF st] al]
    have "\<exists>S'. remove_entry_at E (0 < h) ((p, j) # (pp, length l) # path_of fs) S = Inr S'
      \<and> tree_with E S0 S' (around entries fs (concat (map entries l) @ ents its @ concat (map entries r)))"
    proof (cases l rule: rev_cases)
      case Nil
      then obtain a r' where r: "r = a # r'" using sib(3) by (cases r) auto
      obtain nxt where nxt: "bt_pages S (pid a) = Some nxt" using sib(2) r by auto
      note st' = st [unfolded Nil r list.size(3)]
      show ?thesis
      proof (cases "tt_min E < pg_count nxt")
        case True
        show ?thesis using borrow_next_ok [OF E st' nxt True _ Cons.prems(2) al] by (simp add: Nil r del: remove_entry_at.simps)
      next
        case False
        show ?thesis using merge_next_ok [OF E st' nxt False Cons.prems(2) al IH] by (simp add: Nil r del: remove_entry_at.simps)
      qed
    next
      case (snoc l' a)
      obtain prev where prev: "bt_pages S (pid a) = Some prev" "pid a \<notin> {p, pp}" using sib(1) snoc by auto
      show ?thesis
      proof (cases "tt_min E < pg_count prev")
        case True
        have "r = [] \<or> pid (hd r) \<in> dom (bt_pages S)" using sib(2) by auto
        then show ?thesis unfolding snoc by (rule borrow_prev_ok [OF E st [unfolded snoc] prev(1) True _ Cons.prems(2) al])
      next
        case few: False
        show ?thesis
        proof (cases "r \<noteq> [] \<and> (\<exists>nxt. bt_pages S (pid (hd r)) = Some nxt \<and> tt_min E < pg_count nxt)")
          case True
          then obtain c r' nxt where r: "r = c # r'" "bt_pages S (pid c) = Some nxt" "tt_min E < pg_count nxt"
            by (cases r) auto
          have "l \<noteq> [] \<longrightarrow> (\<exists>prev. bt_pages S (pid (last l)) = Some prev \<and> pid (last l) \<notin> {p, pp} \<and> \<not> tt_min E < pg_count prev)"
            using prev few by (simp add: snoc)
          then show ?thesis unfolding r(1)
            by (rule borrow_next_ok [OF E st [unfolded r(1)] r(2,3) _ Cons.prems(2) al])
        next
          case False
          then have "r \<noteq> [] \<longrightarrow> (\<exists>nxt. bt_pages S (pid (hd r)) = Some nxt \<and> pid (hd r) \<notin> {p, pp} \<and> \<not> tt_min E < pg_count nxt)"
            using sib(2) by auto
          then show ?thesis unfolding snoc
            by (rule merge_prev_ok [OF E st [unfolded snoc] prev(1) few _ Cons.prems(2) al IH])
        qed
      qed
    qed
    then show ?thesis by (simp add: g del: remove_entry_at.simps)
  qed
qed

section \<open>Remove\<close>

lemma last_drop_nth: "j + 1 < length xs \<Longrightarrow> last (drop_nth j xs) = last xs"
  by (simp add: drop_nth_def)

lemma value_items:
  defines "vals es \<equiv> map (\<lambda>(k, v). (k, Val v)) es"
  shows "flat_of (vals es) = es" "ents (vals es) = es" "list_all (item_ok E 0) (vals es)" "subs (vals es) = []" "ids_of (vals es) = []"
proof -
  show *: "flat_of (vals es) = es" unfolding vals_def by (induction es) auto
  show i: "list_all (item_ok E 0) (vals es)" by (auto simp: vals_def list_all_iff)
  show "ents (vals es) = es" unfolding vals_def by (induction es) (auto simp: ents_def)
  show "subs (vals es) = []" by (rule subs_flat [OF i])
  then show "ids_of (vals es) = []" by (simp add: ids_of_def)
qed

text \<open>An entry of a leaf is removed, and it is not the last one of the tree.\<close>

lemma remove_leaf_ok:
  assumes E: "ok_type E" and t: "tree_ok E S h (plug fs (Lf lp es))" "length fs = h" and al: "alloc_ok S"
    and j: "j < length es" and more: "fs = [] \<longrightarrow> 1 < length es" and sz: "bt_siz S \<noteq> 1"
  shows "\<exists>S'. remove_entry_at E False ((lp, j) # path_of fs) S = Inr S'
    \<and> tree_with E S S' (around entries fs (drop_nth j es))"
proof -
  obtain b pg where l: "hole E S 0 fs b lp [lp]" "bt_pages S lp = Some pg" "leaf_rep E (fs = []) es pg"
    "fill E (fs = []) (length es)" "top_is b (map fst es)"
    "linked (next_of (bt_pages S)) (lft leaf_ids fs @ lp # rgt leaf_ids fs)"
    by (rule leaf_hole [OF t al])
  let ?its = "map (\<lambda>(k, v). (k, Val v)) (drop_nth j es)"
  note v = value_items [where es = "drop_nth j es"]
  have len: "1 < length es" using more l(4) ok_typeD(4) [OF E] by (auto simp: fill_def)
  have li: "length ?its = length es - 1" using j by simp
  have "losing E S 0 fs b lp j ?its"
    unfolding losing_def
  proof (intro conjI)
    show "hole E S 0 fs b lp (lp # ids_of ?its)" using l(1) v(5) by simp
    show "?its \<noteq> []" using len li by (metis length_0_conv zero_less_diff less_irrefl)
    show "list_all (rep E (bt_pages S) False) (subs ?its)" unfolding v(4) by simp
    show "\<forall>k. b = Some k \<longrightarrow> j < length ?its \<longrightarrow> fst (last ?its) = k"
    proof (intro allI impI)
      fix k assume k: "b = Some k" "j < length ?its"
      then have "length (drop_nth j es) \<noteq> 0" using li by simp
      then have "last (drop_nth j es) = last es" "drop_nth j es \<noteq> []" using k(2) li last_drop_nth [of j es] by auto
      moreover have "fst (last es) = k" using l(5) k(1) len by (cases es) (simp_all add: last_map)
      ultimately show "fst (last ?its) = k" by (cases "last es") (simp add: last_map)
    qed
    show "\<exists>pg D. bt_pages S lp = Some pg \<and> pg_leaf pg = (0 = (0::nat)) \<and> pg_root pg = (fs = []) \<and> data_rep E D pg
        \<and> j < length D \<and> drop_nth j D = flat_of ?its \<and> fill E (fs = []) (length D)"
      using l(2,3,4) j v(1) by (auto simp: leaf_rep_data)
    show "linked (next_of (bt_pages S)) (around leaf_ids fs (lids 0 lp ?its []))"
      using l(6) by (simp add: lids_def around_def)
  qed (use v(3) in simp_all)
  from remove_entry_ok [OF E this refl sz] show ?thesis unfolding v(2) by (simp del: remove_entry_at.simps)
qed

text \<open>The last entry: the tree is given up, but its page, which is guarded, is not deleted.\<close>

lemma remove_last_run:
  assumes E: "ok_type E" and ok: "bpt_ok E S [(k, v)]" and eq: "\<not> tt_less E key k" "\<not> tt_less E k key"
  shows "bpt_remove E key S = Inr (Some v, S\<lparr>bt_root := 0, bt_siz := 0\<rparr>)"
proof -
  obtain h fs lp es j where f: "find_position E key S = Inr ((lp, j) # path_of fs, j = length es)"
    and t: "tree_ok E S h (plug fs (Lf lp es))" "length fs = h" and xs: "[(k, v)] = lft entries fs @ es @ rgt entries fs"
    and j: "j = lower_pos (tt_less E) (map fst es) key"
    by (rule find_position_ok [OF E ok, of key]) simp
  have al: "alloc_ok S" and siz: "bt_siz S = 1" using ok by (simp_all add: bpt_ok_def)
  obtain b pg where l: "hole E S 0 fs b lp [lp]" "fill E (fs = []) (length es)"
    by (rule leaf_hole [OF t al])
  have len: "length (lft entries fs) + length es + length (rgt entries fs) = 1" using arg_cong [OF xs, of length] by simp
  have fs: "fs = []"
  proof (rule ccontr)
    assume "fs \<noteq> []"
    then show False using l(2) len ok_typeD(4) [OF E] by (simp add: fill_def)
  qed
  then have es: "es = [(k, v)]" using xs by simp
  have "j = 0" using eq j by (simp add: es lower_pos_def)
  moreover have "bt_root S = lp" using t(1) by (simp add: fs tree_ok_def)
  moreover have "entry_at ((lp, 0) # path_of fs) S = Inr (k, v)" using entry_at_leaf [OF t(1), of 0] es by simp
  ultimately show ?thesis using f siz eq by (simp add: bpt_remove_def fs es delete_bpage_def)
qed

lemma index_singleton:
  assumes E: "ok_type E" and eq: "\<not> tt_less E key k" "\<not> tt_less E k key"
  shows "idx_get (tt_less E) key (index_of [(k, v)]) = Some v" "chain (idx_remove (tt_less E) key (index_of [(k, v)])) = []"
  using eq by (simp_all add: idx_get_def idx_remove_def idx_entry_def idx_lower_def lower_pos_def Let_def)

lemma bpt_remove_spec:
  assumes E: "ok_type E" and ok: "bpt_ok E S xs"
  shows "\<exists>S'. bpt_remove E key S = Inr (idx_get (tt_less E) key (index_of xs), S')
    \<and> bpt_ok E S' (chain (idx_remove (tt_less E) key (index_of xs)))"
proof (cases "xs = []")
  case True
  then show ?thesis using find_empty [OF ok [unfolded True]] ok
    by (simp add: bpt_remove_def idx_get_def idx_remove_def idx_entry_def Let_def)
next
  case False
  let ?ix = "idx_remove (tt_less E) key (index_of xs)"
  have al: "alloc_ok S" and siz: "bt_siz S = length xs" using ok by (simp_all add: bpt_ok_def)
  have "idx_inv (tt_less E) ?ix"
    using strict_weak_order.idx_remove_inv [OF ok_typeD(1) [OF E] bpt_ok_inv [OF ok]] .
  then have so: "sorted_entries E (chain ?ix)" by (simp add: idx_inv_def)
  obtain h fs lp es j where f: "find_position E key S = Inr ((lp, j) # path_of fs, j = length es)"
    and t: "tree_ok E S h (plug fs (Lf lp es))" "length fs = h" and xs: "xs = lft entries fs @ es @ rgt entries fs"
    and j: "j = lower_pos (tt_less E) (map fst es) key" "j = length es \<longrightarrow> rgt entries fs = []"
    and low: "lower_pos (\<lambda>e k. tt_less E (fst e) k) xs key = length (lft entries fs) + j"
    by (rule find_position_ok [OF E ok False, of key])
  have jl: "j \<le> length es" using j(1) lower_pos_le [of "tt_less E" "map fst es" key] by simp
  have il: "idx_lower (tt_less E) key (index_of xs) = length (lft entries fs) + j" using low by (simp add: idx_lower_def)
  note at = idx_at [OF il xs jl j(2)]
  show ?thesis
  proof (cases "j < length es \<and> \<not> tt_less E key (fst (es ! j))")
    case absent: False
    have "idx_get (tt_less E) key (index_of xs) = None" "chain ?ix = xs"
      unfolding at(1) at(3) using absent by (simp_all only: if_False simp_thms)
    moreover have "bpt_remove E key S = Inr (None, S)"
      using f absent jl entry_at_leaf [OF t(1)] by (cases "j = length es") (simp_all add: bpt_remove_def)
    ultimately show ?thesis using ok by simp
  next
    case True
    have get: "idx_get (tt_less E) key (index_of xs) = Some (snd (es ! j))" unfolding at(1) using True by simp
    have ch: "chain ?ix = around entries fs (drop_nth j es)" unfolding at(3) using True by (simp add: around_def drop_nth_def)
    show ?thesis
    proof (cases "length xs = 1")
      case one: True
      then obtain k v where kv: "xs = [(k, v)]" by (cases xs) auto
      have es: "es = [(k, v)]" using kv xs True by (cases "lft entries fs"; cases es) auto
      have j0: "j = 0" using True by (simp add: es)
      then have "\<not> tt_less E k key" using lower_pos_at [of "tt_less E" "map fst es" key] True j(1) by (simp add: es)
      moreover have "\<not> tt_less E key k" using True j0 by (simp add: es)
      ultimately have "bpt_remove E key S = Inr (Some v, S\<lparr>bt_root := 0, bt_siz := 0\<rparr>)"
        using remove_last_run [OF E ok [unfolded kv]] by blast
      moreover have "bpt_ok E (S\<lparr>bt_root := 0, bt_siz := 0\<rparr>) []" using al by (simp add: bpt_ok_def alloc_ok_def)
      moreover have "lft entries fs = [] \<and> rgt entries fs = []" using xs by (cases "lft entries fs") (simp_all add: kv es)
      then have "chain ?ix = []" using ch j0 by (simp add: es drop_nth_def around_def)
      ultimately show ?thesis using get True by (simp add: es)
    next
      case False
      have "fs = [] \<longrightarrow> 1 < length es" using xs False True by auto
      then obtain S' where S': "remove_entry_at E False ((lp, j) # path_of fs) S = Inr S'"
        "tree_with E S S' (around entries fs (drop_nth j es))"
        using remove_leaf_ok [OF E t al _ _ , of j] True siz False by auto
      have sz: "bt_siz S' = length xs" using S'(2) siz by (simp add: tree_with_def)
      have lc: "length (chain ?ix) = length xs - 1" unfolding ch using True xs by (simp add: around_def)
      then have "chain ?ix \<noteq> []" using False \<open>xs \<noteq> []\<close> by (metis Suc_pred' length_greater_0_conv list.size(3) One_nat_def)
      then have "bpt_ok E (S'\<lparr>bt_siz := bt_siz S' - 1\<rparr>) (chain ?ix)"
        using tree_with_bpt_ok [OF S'(2), of "bt_siz S' - 1"] so sz lc unfolding ch by simp
      moreover have "bpt_remove E key S = Inr (Some (snd (es ! j)), S'\<lparr>bt_siz := bt_siz S' - 1\<rparr>)"
        using f True entry_at_leaf [OF t(1)] S'(1) by (simp add: bpt_remove_def del: remove_entry_at.simps)
      ultimately show ?thesis using get by auto
    qed
  qed
qed

text \<open>
  C31: \<^verbatim>\<open>Remove\<close> on pages that represent a sorted chain ends without an error, answers with the value
  the key had, and leaves pages that represent the chain without the key: pages that run short
  borrow from a neighbour or are merged with it, up to the root.
\<close>
theorem bpt_remove_refines:
  assumes E: "ok_type E" and ok: "bpt_ok E S xs"
  shows "\<exists>S'. bpt_remove E key S = Inr (idx_get (tt_less E) key (index_of xs), S')
    \<and> bpt_ok E S' (chain (idx_remove (tt_less E) key (index_of xs)))"
  by (rule bpt_remove_spec [OF E ok])

lemma bpt_remove_refines_witness:
  "\<exists>S'. bpt_remove three_keys 1 small_tree = Inr (Some 10, S')
    \<and> bpt_ok three_keys S' [(2, 20), (5, 50), (6, 60), (7, 70)]"
  using bpt_remove_refines [OF three_keys_ok small_tree_ok, of 1]
  by (simp add: idx_remove_def idx_get_def idx_entry_def idx_lower_def lower_pos_def three_keys_def small_entries_def)

section \<open>The page of the last entry\<close>

text \<open>
  C33: removing the last entry loses its page: \<^verbatim>\<open>DeletePage\<close> is called while the position still guards
  the page and has no effect, then the root is reset. The page stays allocated, outside the tree
  and outside the list of empty pages.
\<close>
theorem last_removal_leaks_page:
  assumes "ok_type E" "bpt_ok E S [(k, v)]" "\<not> tt_less E key k" "\<not> tt_less E k key"
  shows "\<exists>S'. bpt_remove E key S = Inr (Some v, S') \<and> bpt_ok E S' [] \<and> bt_root S' = 0
    \<and> bt_root S \<in> dom (bt_pages S') \<and> bt_free S' = bt_free S"
proof -
  obtain h t where t: "tree_ok E S h t" "alloc_ok S" using assms(2) by (auto simp: bpt_ok_def)
  have "set (pids t) \<subseteq> dom (bt_pages S)" "bt_root S = pid t"
    using t(1) rep_dom [of E "bt_pages S" True t] by (simp_all add: tree_ok_def)
  then have "bt_root S \<in> dom (bt_pages S)" using pid_mem [of t] by (metis subsetD)
  moreover have "bpt_ok E (S\<lparr>bt_root := 0, bt_siz := 0\<rparr>) []" using t(2) by (simp add: bpt_ok_def alloc_ok_def)
  ultimately show ?thesis using remove_last_run [OF assms] by simp
qed

definition one_entry :: "nat bpt" where
  "one_entry = \<lparr>bt_pages = [1 \<mapsto> \<lparr>pg_next = 0, pg_leaf = True, pg_internal = False, pg_root = True, pg_count = 1,
     pg_data = [(4, 40), (0, 0), (0, 0)]\<rparr>], bt_free = [], bt_total = 1, bt_root = 1, bt_siz = 1\<rparr>"

lemma one_entry_ok: "bpt_ok three_keys one_entry [(4, 40)]"
proof -
  have "tree_ok three_keys one_entry 0 (Lf 1 [(4, 40)])"
    by (simp add: tree_ok_def one_entry_def three_keys_def linked_def next_of_def leaf_rep_def fill_def)
  then show ?thesis using bpt_okI [of one_entry three_keys "Lf 1 [(4, 40)]" 0]
    by (simp add: alloc_ok_def one_entry_def three_keys_def)
qed

lemma last_removal_leaks_page_witness:
  "\<exists>S'. bpt_remove three_keys 4 one_entry = Inr (Some 40, S') \<and> bt_root S' = 0 \<and> 1 \<in> dom (bt_pages S') \<and> bt_free S' = []"
  using last_removal_leaks_page [OF three_keys_ok one_entry_ok, of 4]
  by (auto simp: three_keys_def one_entry_def)

end
