(* ===== verification/Bpt_Sessions.thy ===== *)
theory Bpt_Sessions
  imports Bpt_Remove
begin

text \<open>
  The B+ tree as its clients see it: any sequence of operations on a new tree is answered as the
  contract of the index answers it, and a search touches few pages.
\<close>

section \<open>Sequences of operations\<close>

datatype 'k request = Get_req 'k | Put_req 'k nat | Remove_req 'k

datatype answer = Value "nat option" | Fresh bool

fun bpt_serve :: "'k tree_type \<Rightarrow> 'k request \<Rightarrow> 'k bpt \<Rightarrow> (answer \<times> 'k bpt) result" where
  "bpt_serve E (Get_req k) S = rbind (bpt_get E k S) (\<lambda>v. Inr (Value v, S))"
| "bpt_serve E (Put_req k v) S = rbind (bpt_put E k v S) (\<lambda>(b, S'). Inr (Fresh b, S'))"
| "bpt_serve E (Remove_req k) S = rbind (bpt_remove E k S) (\<lambda>(v, S'). Inr (Value v, S'))"

fun idx_serve :: "('k \<Rightarrow> 'k \<Rightarrow> bool) \<Rightarrow> 'k request \<Rightarrow> ('k, nat) index \<Rightarrow> answer \<times> ('k, nat) index" where
  "idx_serve lt (Get_req k) ix = (Value (idx_get lt k ix), ix)"
| "idx_serve lt (Put_req k v) ix = (Fresh (idx_get lt k ix = None), idx_put lt k v ix)"
| "idx_serve lt (Remove_req k) ix = (Value (idx_get lt k ix), idx_remove lt k ix)"

fun bpt_session :: "'k tree_type \<Rightarrow> 'k request list \<Rightarrow> 'k bpt \<Rightarrow> (answer list \<times> 'k bpt) result" where
  "bpt_session E [] S = Inr ([], S)"
| "bpt_session E (r # rs) S = rbind (bpt_serve E r S) (\<lambda>(a, S'). rbind (bpt_session E rs S') (\<lambda>(as, S''). Inr (a # as, S'')))"

fun idx_session :: "('k \<Rightarrow> 'k \<Rightarrow> bool) \<Rightarrow> 'k request list \<Rightarrow> ('k, nat) index \<Rightarrow> answer list \<times> ('k, nat) index" where
  "idx_session lt [] ix = ([], ix)"
| "idx_session lt (r # rs) ix = (let (a, ix') = idx_serve lt r ix; (as, ix'') = idx_session lt rs ix' in (a # as, ix''))"

lemma index_of_chain: "idx_inv lt ix \<Longrightarrow> index_of (chain ix) = ix"
  by (simp add: index_of_def idx_inv_def)

lemma idx_serve_inv: "ok_type E \<Longrightarrow> idx_inv (tt_less E) ix \<Longrightarrow> idx_inv (tt_less E) (snd (idx_serve (tt_less E) r ix))"
  using strict_weak_order.idx_put_inv [OF ok_typeD(1)] strict_weak_order.idx_remove_inv [OF ok_typeD(1)]
  by (cases r) auto

lemma bpt_serve_ok:
  assumes E: "ok_type E" and ok: "bpt_ok E S (chain ix)" and inv: "idx_inv (tt_less E) ix"
  shows "\<exists>S'. bpt_serve E r S = Inr (fst (idx_serve (tt_less E) r ix), S')
    \<and> bpt_ok E S' (chain (snd (idx_serve (tt_less E) r ix)))"
proof (cases r)
  case (Get_req k)
  then show ?thesis using bpt_get_spec [OF E ok, of k] ok by (simp add: index_of_chain [OF inv])
next
  case (Put_req k v)
  then show ?thesis using bpt_put_spec [OF E ok, of k v] by (auto simp: index_of_chain [OF inv])
next
  case (Remove_req k)
  then show ?thesis using bpt_remove_spec [OF E ok, of k] by (auto simp: index_of_chain [OF inv])
qed

lemma bpt_session_ok:
  assumes E: "ok_type E"
  shows "bpt_ok E S (chain ix) \<Longrightarrow> idx_inv (tt_less E) ix \<Longrightarrow>
    \<exists>S'. bpt_session E rs S = Inr (fst (idx_session (tt_less E) rs ix), S')
      \<and> bpt_ok E S' (chain (snd (idx_session (tt_less E) rs ix)))"
proof (induction rs arbitrary: S ix)
  case (Cons r rs)
  obtain S1 where 1: "bpt_serve E r S = Inr (fst (idx_serve (tt_less E) r ix), S1)"
    "bpt_ok E S1 (chain (snd (idx_serve (tt_less E) r ix)))" using bpt_serve_ok [OF E Cons.prems] by blast
  obtain S2 where "bpt_session E rs S1 = Inr (fst (idx_session (tt_less E) rs (snd (idx_serve (tt_less E) r ix))), S2)"
    "bpt_ok E S2 (chain (snd (idx_session (tt_less E) rs (snd (idx_serve (tt_less E) r ix)))))"
    using Cons.IH [OF 1(2) idx_serve_inv [OF E Cons.prems(2)]] by blast
  then show ?case using 1(1) by (simp add: Let_def case_prod_beta)
qed simp

text \<open>
  C29: every sequence of \<^verbatim>\<open>Get\<close>, \<^verbatim>\<open>Put\<close> and \<^verbatim>\<open>Remove\<close> on a new tree runs without an error, gives the
  answers of the contract of the index, and leaves pages that represent its chain.
\<close>
theorem bpt_sessions_refine:
  assumes "ok_type E"
  shows "\<exists>S'. bpt_session E rs new_bpt = Inr (fst (idx_session (tt_less E) rs idx_new), S')
    \<and> bpt_ok E S' (chain (snd (idx_session (tt_less E) rs idx_new)))"
  by (rule bpt_session_ok [OF assms])
    (simp_all add: new_bpt_def bpt_ok_def alloc_ok_def idx_new_def idx_inv_def)

definition some_requests :: "nat request list" where
  "some_requests = [Put_req 3 30, Put_req 1 10, Put_req 2 20, Put_req 4 40, Remove_req 3, Get_req 2, Get_req 3]"

lemma some_requests_run:
  "fst (idx_session (<) some_requests idx_new)
     = [Fresh True, Fresh True, Fresh True, Fresh True, Value (Some 30), Value (Some 20), Value None]"
  "chain (snd (idx_session (<) some_requests idx_new)) = [(1, 10), (2, 20), (4, 40)]"
  by code_simp+

lemma bpt_sessions_refine_witness:
  "\<exists>S'. bpt_session three_keys some_requests new_bpt
     = Inr ([Fresh True, Fresh True, Fresh True, Fresh True, Value (Some 30), Value (Some 20), Value None], S')
    \<and> bpt_ok three_keys S' [(1, 10), (2, 20), (4, 40)]"
  using bpt_sessions_refine [OF three_keys_ok, of some_requests] some_requests_run
  by (simp add: three_keys_def del: bpt_session.simps)

section \<open>The depth\<close>

lemma concat_length: "(\<And>c. c \<in> set cs \<Longrightarrow> m \<le> length (f c)) \<Longrightarrow> length cs * m \<le> length (concat (map f cs))"
  by (induction cs) (auto simp: add_mono)

lemma shape_entries:
  assumes E: "ok_type E"
  shows "shape E False h b t \<Longrightarrow> tt_min E ^ (h + 1) \<le> length (entries t)"
proof (induction h arbitrary: b t)
  case 0
  then show ?case by (cases t) (auto simp: fill_def shape_node)
next
  case (Suc h)
  then obtain p ks cs where t: "t = Nd p ks cs" by (cases t) auto
  have s: "tt_min E \<le> length ks" "list_all2 (shape E False h) (bnds b ks) cs" using Suc.prems by (simp_all add: t fill_def)
  have "tt_min E \<le> length cs" using s(1) list_all2_lengthD [OF s(2)] by simp
  then have "tt_min E * tt_min E ^ (h + 1) \<le> length cs * tt_min E ^ (h + 1)" by simp
  also have "\<dots> \<le> length (concat (map entries cs))"
  proof (rule concat_length)
    fix c assume "c \<in> set cs"
    then obtain b' where "shape E False h b' c" using s(2) by (auto simp: list_all2_conv_all_nth in_set_conv_nth)
    then show "tt_min E ^ (h + 1) \<le> length (entries c)" by (rule Suc.IH)
  qed
  finally show ?case by (simp add: t)
qed

lemma root_entries:
  assumes E: "ok_type E" and "shape E True h None t"
  shows "2 * tt_min E ^ h \<le> length (entries t) + 1"
proof (cases h)
  case 0
  then show ?thesis using assms(2) fill_pos [OF E] by (cases t) (auto simp: shape_node Suc_le_eq)
next
  case (Suc h')
  then obtain p ks cs where t: "t = Nd p ks cs" using assms(2) by (cases t) auto
  have s: "1 \<le> length ks" "list_all2 (shape E False h') (bnds None ks) cs" using assms(2) by (simp_all add: t Suc fill_def)
  have "2 \<le> length cs" using s(1) list_all2_lengthD [OF s(2)] by simp
  then have "2 * tt_min E ^ (h' + 1) \<le> length cs * tt_min E ^ (h' + 1)" by simp
  also have "\<dots> \<le> length (concat (map entries cs))"
  proof (rule concat_length)
    fix c assume "c \<in> set cs"
    then obtain b' where "shape E False h' b' c" using s(2) by (auto simp: list_all2_conv_all_nth in_set_conv_nth)
    then show "tt_min E ^ (h' + 1) \<le> length (entries c)" by (rule shape_entries [OF E])
  qed
  finally show ?thesis by (simp add: t Suc)
qed

text \<open>
  C32: a search goes through \<open>d\<close> pages where \<open>2 * tt_min E ^ (d - 1)\<close> is at most the number of
  entries plus one, that is, through logarithmically many.
\<close>
theorem search_depth_bound:
  assumes E: "ok_type E" and ok: "bpt_ok E S xs" and ne: "xs \<noteq> []"
  shows "\<exists>path b. find_position E key S = Inr (path, b) \<and> path \<noteq> [] \<and> 2 * tt_min E ^ (length path - 1) \<le> length xs + 1"
proof -
  obtain h fs lp es j where f: "find_position E key S = Inr ((lp, j) # path_of fs, j = length es)"
    and t: "tree_ok E S h (plug fs (Lf lp es))" "length fs = h" and xs: "xs = lft entries fs @ es @ rgt entries fs"
    by (rule find_position_ok [OF E ok ne, of key])
  have "2 * tt_min E ^ h \<le> length xs + 1"
    using root_entries [OF E, of h "plug fs (Lf lp es)"] t(1) entries_plug [of fs "Lf lp es"] by (simp add: tree_ok_def xs)
  moreover have "length (path_of fs) = h" using t(2) by (simp add: path_of_def)
  ultimately show ?thesis using f by auto
qed

lemma search_depth_bound_witness:
  "\<exists>path b. find_position three_keys 6 small_tree = Inr (path, b) \<and> path \<noteq> []
    \<and> 2 * tt_min three_keys ^ (length path - 1) \<le> length small_entries + 1"
  by (rule search_depth_bound [OF three_keys_ok small_tree_ok]) (simp add: small_entries_def)

end
