(* ===== verification/Data_Files.thy ===== *)
theory Data_Files
  imports Buffer_Pool
begin

text \<open>
  The data files of the engine, from their classes down to the page files: the constructors,
  \<^verbatim>\<open>Flush\<close>, \<^verbatim>\<open>ListFiles\<close>, \<^verbatim>\<open>LockDownForCheckOut\<close> and destructors of \<^verbatim>\<open>BPlusTreeIndexer\<close>,
  \<^verbatim>\<open>SingleValueStorage\<close>, \<^verbatim>\<open>DiskMap\<close>, \<^verbatim>\<open>StopRegister\<close> and \<^verbatim>\<open>TransactionManager\<close>. An index keeps its root and
  size, a value storage its first blank cell and its info fields in the raw memory of the
  internal page. A pointer is an option, null being \<open>None\<close>; a file that is open is in the state of its
  disk manager, and gets to the file system when this is closed.
\<close>

section \<open>The raw memory\<close>

definition raw_size :: nat where "raw_size = page_size - metadata_size"

definition raw_get :: "nat \<Rightarrow> nat \<Rightarrow> pool \<Rightarrow> nat" where
  "raw_get off w bp = dec (take w (drop off (dk_raw (bp_disk bp))))"

definition raw_put :: "nat \<Rightarrow> nat \<Rightarrow> nat \<Rightarrow> pool \<Rightarrow> pool" where
  "raw_put off w x bp = bp\<lparr>bp_disk := (bp_disk bp)\<lparr>dk_raw :=
     take off (dk_raw (bp_disk bp)) @ enc w x @ drop (off + w) (dk_raw (bp_disk bp))\<rparr>\<rparr>"

section \<open>Index files and value files\<close>

record index_file =
  xf_pool :: pool
  xf_root :: nat
  xf_siz :: nat

record value_file =
  vf_pool :: pool
  vf_first :: nat

text \<open>
  What \<^verbatim>\<open>new\<close> leaves in the frames, the records of the replacer and the page buffer; there are
  100 frames, and the replacer looks at five accesses.
\<close>

record memory =
  mem_frames :: "frame list"
  mem_records :: "lru_record list"
  mem_buf :: page

definition open_pool :: "memory \<Rightarrow> page list option \<Rightarrow> pool" where
  "open_pool mem stored = new_pool (mem_frames mem) (mem_records mem) 5 (new_disk False stored (mem_buf mem))"

definition close_pool :: "pool \<Rightarrow> page list" where
  "close_pool bp = dk_file (close_disk (bp_disk (flush_all_pages bp)))"

definition index_open :: "memory \<Rightarrow> page list option \<Rightarrow> index_file" where
  "index_open mem stored = (let bp = open_pool mem stored in
     \<lparr>xf_pool = bp, xf_root = raw_get 0 4 bp, xf_siz = raw_get 4 8 bp\<rparr>)"

definition index_flush :: "index_file \<Rightarrow> index_file" where
  "index_flush f = f\<lparr>xf_pool := flush_all_pages (raw_put 4 8 (xf_siz f) (raw_put 0 4 (xf_root f) (xf_pool f)))\<rparr>"

definition index_close :: "index_file \<Rightarrow> page list" where
  "index_close f = close_pool (xf_pool (index_flush f))"

definition value_open :: "memory \<Rightarrow> page list option \<Rightarrow> value_file" where
  "value_open mem stored = (let bp = open_pool mem stored in \<lparr>vf_pool = bp, vf_first = raw_get 0 8 bp\<rparr>)"

definition value_flush :: "value_file \<Rightarrow> value_file" where
  "value_flush f = f\<lparr>vf_pool := flush_all_pages (raw_put 0 8 (vf_first f) (vf_pool f))\<rparr>"

definition value_close :: "value_file \<Rightarrow> page list" where
  "value_close f = close_pool (vf_pool (value_flush f))"

text \<open>The info fields, \<open>il\<close> of them; only an index above \<open>il\<close> is refused.\<close>

definition get_info :: "nat \<Rightarrow> int \<Rightarrow> int \<Rightarrow> value_file \<Rightarrow> int result" where
  "get_info il tmp n f = (if int il < n then Inr tmp
     else if n + 2 < 0 \<or> int raw_size < (n + 2) * 4 + 4 then Inl Undefined
     else Inr (i32 (int (raw_get (nat ((n + 2) * 4)) 4 (vf_pool f)))))"

definition write_info :: "nat \<Rightarrow> int \<Rightarrow> int \<Rightarrow> value_file \<Rightarrow> value_file result" where
  "write_info il tmp n f = (if int il < n then Inr f
     else if n + 2 < 0 \<or> int raw_size < (n + 2) * 4 + 4 then Inl Undefined
     else Inr (f\<lparr>vf_pool := raw_put (nat ((n + 2) * 4)) 4 (to_u 32 tmp) (vf_pool f)\<rparr>))"

section \<open>The drivers\<close>

type_synonym file_system = "string \<rightharpoonup> page list"

text \<open>\<^verbatim>\<open>delete\<close> of the indexer or storage, its pool and its disk manager; of null pointers it does nothing.\<close>

definition drop_index :: "string \<Rightarrow> index_file option \<Rightarrow> file_system \<Rightarrow> file_system" where
  "drop_index path f fs = (case f of None \<Rightarrow> fs | Some x \<Rightarrow> fs(path \<mapsto> index_close x))"

definition drop_value :: "string \<Rightarrow> value_file option \<Rightarrow> file_system \<Rightarrow> file_system" where
  "drop_value path f fs = (case f of None \<Rightarrow> fs | Some x \<Rightarrow> fs(path \<mapsto> value_close x))"

record file_entry =
  fe_identifier :: string
  fe_path :: string
  fe_disk :: "disk option"

definition index_entry :: "string \<Rightarrow> string \<Rightarrow> index_file option \<Rightarrow> file_entry" where
  "index_entry ident path f = \<lparr>fe_identifier = ident, fe_path = path, fe_disk = map_option (\<lambda>x. bp_disk (xf_pool x)) f\<rparr>"

definition value_entry :: "string \<Rightarrow> string \<Rightarrow> value_file option \<Rightarrow> file_entry" where
  "value_entry ident path f = \<lparr>fe_identifier = ident, fe_path = path, fe_disk = map_option (\<lambda>x. bp_disk (vf_pool x)) f\<rparr>"

text \<open>\<^verbatim>\<open>DiskMap\<close>.\<close>

record map_files =
  mf_index_id :: string
  mf_index_path :: string
  mf_index :: "index_file option"
  mf_data_id :: string
  mf_data_path :: string
  mf_data :: "value_file option"

definition map_files_open :: "memory \<Rightarrow> memory \<Rightarrow> string \<Rightarrow> string \<Rightarrow> string \<Rightarrow> string \<Rightarrow> file_system \<Rightarrow> map_files" where
  "map_files_open m1 m2 xi xp di dp fs = \<lparr>mf_index_id = xi, mf_index_path = xp, mf_index = Some (index_open m1 (fs xp)),
     mf_data_id = di, mf_data_path = dp, mf_data = Some (value_open m2 (fs dp))\<rparr>"

definition map_files_drop :: "map_files \<Rightarrow> file_system \<Rightarrow> file_system" where
  "map_files_drop D fs = drop_value (mf_data_path D) (mf_data D) (drop_index (mf_index_path D) (mf_index D) fs)"

definition map_files_list :: "map_files \<Rightarrow> file_entry list" where
  "map_files_list D = [index_entry (mf_index_id D) (mf_index_path D) (mf_index D), value_entry (mf_data_id D) (mf_data_path D) (mf_data D)]"

definition map_files_lock :: "map_files \<Rightarrow> file_system \<Rightarrow> map_files \<times> file_system" where
  "map_files_lock D fs = (D\<lparr>mf_index := None, mf_data := None\<rparr>, map_files_drop D fs)"

definition map_files_flush :: "map_files \<Rightarrow> map_files result" where
  "map_files_flush D = (case mf_index D of None \<Rightarrow> Inr D
     | Some x \<Rightarrow> rbind (of_option Undefined (mf_data D)) (\<lambda>v.
         Inr (D\<lparr>mf_index := Some (index_flush x), mf_data := Some (value_flush v)\<rparr>)))"

text \<open>\<^verbatim>\<open>StopRegister\<close>.\<close>

record stop_files =
  sf_id :: string
  sf_path :: string
  sf_index :: "index_file option"

definition stop_files_open :: "memory \<Rightarrow> string \<Rightarrow> string \<Rightarrow> file_system \<Rightarrow> stop_files" where
  "stop_files_open mem i p fs = \<lparr>sf_id = i, sf_path = p, sf_index = Some (index_open mem (fs p))\<rparr>"

definition stop_files_drop :: "stop_files \<Rightarrow> file_system \<Rightarrow> file_system" where
  "stop_files_drop D = drop_index (sf_path D) (sf_index D)"

definition stop_files_list :: "stop_files \<Rightarrow> file_entry list" where
  "stop_files_list D = [index_entry (sf_id D) (sf_path D) (sf_index D)]"

definition stop_files_lock :: "stop_files \<Rightarrow> file_system \<Rightarrow> stop_files \<times> file_system" where
  "stop_files_lock D fs = (D\<lparr>sf_index := None\<rparr>, stop_files_drop D fs)"

definition stop_files_flush :: "stop_files \<Rightarrow> stop_files" where
  "stop_files_flush D = (case sf_index D of None \<Rightarrow> D | Some x \<Rightarrow> D\<lparr>sf_index := Some (index_flush x)\<rparr>)"

text \<open>\<^verbatim>\<open>TransactionManager\<close>.\<close>

record txn_files =
  tf_data_id :: string
  tf_data_path :: string
  tf_data :: "value_file option"
  tf_queue_id :: string
  tf_queue_path :: string
  tf_queue :: "index_file option"
  tf_history_id :: string
  tf_history_path :: string
  tf_history :: "index_file option"

definition txn_files_open :: "memory \<Rightarrow> memory \<Rightarrow> memory \<Rightarrow> string \<Rightarrow> string \<Rightarrow> string \<Rightarrow> string \<Rightarrow> string \<Rightarrow> string
    \<Rightarrow> file_system \<Rightarrow> txn_files" where
  "txn_files_open m1 m2 m3 di dp qi qp hi hp fs = \<lparr>tf_data_id = di, tf_data_path = dp, tf_data = Some (value_open m1 (fs dp)),
     tf_queue_id = qi, tf_queue_path = qp, tf_queue = Some (index_open m2 (fs qp)),
     tf_history_id = hi, tf_history_path = hp, tf_history = Some (index_open m3 (fs hp))\<rparr>"

definition txn_files_drop :: "txn_files \<Rightarrow> file_system \<Rightarrow> file_system" where
  "txn_files_drop D fs = drop_index (tf_history_path D) (tf_history D) (drop_index (tf_queue_path D) (tf_queue D)
     (drop_value (tf_data_path D) (tf_data D) fs))"

definition txn_files_list :: "txn_files \<Rightarrow> file_entry list" where
  "txn_files_list D = [value_entry (tf_data_id D) (tf_data_path D) (tf_data D), index_entry (tf_queue_id D) (tf_queue_path D) (tf_queue D),
     index_entry (tf_history_id D) (tf_history_path D) (tf_history D)]"

definition txn_files_lock :: "txn_files \<Rightarrow> file_system \<Rightarrow> txn_files \<times> file_system" where
  "txn_files_lock D fs = (D\<lparr>tf_data := None, tf_queue := None, tf_history := None\<rparr>, txn_files_drop D fs)"

definition txn_files_flush :: "txn_files \<Rightarrow> txn_files result" where
  "txn_files_flush D = (case tf_data D of None \<Rightarrow> Inr D
     | Some v \<Rightarrow> rbind (of_option Undefined (tf_queue D)) (\<lambda>q. rbind (of_option Undefined (tf_history D)) (\<lambda>h.
         Inr (D\<lparr>tf_data := Some (value_flush v), tf_queue := Some (index_flush q), tf_history := Some (index_flush h)\<rparr>))))"

section \<open>Numbers in the raw memory\<close>

lemma raw_length: "pool_ok n bp gs m \<Longrightarrow> length (dk_raw (bp_disk bp)) = raw_size"
  using pool_okD(3) [of n bp gs m] by (simp add: disk_inv_def disk_ok_def raw_size_def)

lemma raw_get_put:
  assumes "length (dk_raw (bp_disk bp)) = raw_size" "off + w \<le> raw_size"
  shows "raw_get off w (raw_put off w x bp) = x mod 256 ^ w"
    "off' + w' \<le> off \<or> off + w \<le> off' \<Longrightarrow> raw_get off' w' (raw_put off w x bp) = raw_get off' w' bp"
proof -
  let ?r = "dk_raw (bp_disk bp)"
  have "take w (drop off (take off ?r @ enc w x @ drop (off + w) ?r)) = enc w x" using assms by simp
  then show "raw_get off w (raw_put off w x bp) = x mod 256 ^ w" by (simp add: raw_get_def raw_put_def dec_enc)
  have "take w' (drop off' (take off ?r @ enc w x @ drop (off + w) ?r)) = take w' (drop off' ?r)" if "off' + w' \<le> off \<or> off + w \<le> off'"
    using that
  proof
    assume le: "off' + w' \<le> off"
    have "off' \<le> off" "off \<le> length ?r" "w' \<le> length (take (off - off') (drop off' ?r))" using le assms by simp_all
    then show ?thesis using le by (simp only: drop_append drop_take take_append length_take length_drop take_take)
        (simp add: min_absorb1)
  next
    assume "off + w \<le> off'"
    then show ?thesis using assms by simp
  qed
  then show "off' + w' \<le> off \<or> off + w \<le> off' \<Longrightarrow> raw_get off' w' (raw_put off w x bp) = raw_get off' w' bp"
    by (simp add: raw_get_def raw_put_def)
qed

lemma raw_put_ok:
  assumes ok: "pool_ok n bp gs m" and b: "off + w \<le> raw_size"
  shows "pool_ok n (raw_put off w x bp) gs m"
proof -
  let ?bp = "raw_put off w x bp"
  note d = pool_okD [OF ok]
  have e: "empty_pages (bp_disk ?bp) = empty_pages (bp_disk bp)" by (simp add: empty_pages_def raw_put_def)
  have "disk_inv (bp_disk ?bp)" using d(3) b e raw_length [OF ok]
    by (simp add: disk_inv_def disk_ok_def raw_size_def) (simp add: raw_put_def)
  moreover have "live_pages (bp_disk ?bp) = dom m" using d(4) e by (simp add: live_pages_def) (simp add: raw_put_def)
  moreover have "page_kept ?bp gs p x" if "m p = Some (Some x)" for p x
    using d(13) [OF that] by (subst page_kept_cong [of _ bp]) (simp_all add: raw_put_def stored_page_def read_page_def)
  moreover have "bp_frames ?bp = bp_frames bp" "bp_replacer ?bp = bp_replacer bp" "bp_table ?bp = bp_table bp" "bp_free ?bp = bp_free bp"
    by (simp_all add: raw_put_def)
  ultimately show ?thesis using ok unfolding pool_ok_def by simp
qed

lemma flush_page_raw: "dk_raw (bp_disk (snd (flush_page p b))) = dk_raw (bp_disk b)"
  by (simp add: flush_page_def table_index_def set_frame_def write_page_def Let_def split: prod.split)

lemma flush_all_raw: "dk_raw (bp_disk (flush_all_pages bp)) = dk_raw (bp_disk bp)"
proof -
  have "dk_raw (bp_disk (fold (\<lambda>x b. snd (flush_page (fst x) b)) t b)) = dk_raw (bp_disk b)" for t :: page_table and b
    by (induction t arbitrary: b) (simp_all add: flush_page_raw)
  then show ?thesis by (simp add: flush_all_pages_def fully_flush_def Let_def)
qed

section \<open>A file that is closed and opened again\<close>

definition mem_ok :: "nat \<Rightarrow> memory \<Rightarrow> bool" where
  "mem_ok n mem \<longleftrightarrow> length (mem_frames mem) = n \<and> length (mem_records mem) = n
     \<and> (\<forall>fr\<in>set (mem_frames mem). length (fr_mem fr) = page_size) \<and> length (mem_buf mem) = page_size"

lemma reopened_pool:
  assumes ok: "pool_ok n bp gs m" and mem: "mem_ok k mem"
  shows "pool_ok k (open_pool mem (Some (close_pool bp))) {#} m"
    "raw_get off w (open_pool mem (Some (close_pool bp))) = raw_get off w bp"
proof -
  let ?d = "bp_disk (flush_all_pages bp)" and ?b = "mem_buf mem"
  note d = pool_okD [OF flush_all_ok(1) [OF ok]]
  have b: "length ?b = page_size" using mem by (simp add: mem_ok_def)
  have D: "disk_ok ?d (empty_pages ?d)" using d(3) by (simp add: disk_inv_def)
  note R = reopen_disk_ok [OF D b]
  have o: "open_pool mem (Some (close_pool bp)) = new_pool (mem_frames mem) (mem_records mem) 5 (reopen_disk ?b ?d)"
    by (simp add: open_pool_def close_pool_def reopen_disk_def)
  have "stored_page p (reopen_disk ?b ?d) = x" if "m p = Some (Some x)" for p x
  proof -
    have "p \<in> live_pages ?d" using d(4) that by auto
    then have "p \<noteq> 0" using live_bound [OF d(3)] by fastforce
    then show ?thesis using R(3) [of p zero_page] flush_all_ok(2) [OF ok that] by (simp add: stored_page_def)
  qed
  then show "pool_ok k (open_pool mem (Some (close_pool bp))) {#} m"
    unfolding o using disk_okI [OF R(1)] R(2) d(4) mem by (intro new_pool_holds) (simp_all add: mem_ok_def)
  have "dk_raw (reopen_disk ?b ?d) = dk_raw (bp_disk bp)" by (simp add: reopen_disk_restores [OF D] flush_all_raw)
  then show "raw_get off w (open_pool mem (Some (close_pool bp))) = raw_get off w bp"
    by (simp add: o raw_get_def new_pool_def)
qed

lemma fresh_pool: "mem_ok k mem \<Longrightarrow> pool_ok k (open_pool mem None) {#} Map.empty"
  unfolding open_pool_def
  using page_history.created [of "mem_buf mem" None] by (intro new_pool_ok) (auto simp: mem_ok_def new_disk_def)

text \<open>The pages \<open>m\<close> behind an index or a value storage, and numbers that fit their fields.\<close>

definition index_holds :: "nat \<Rightarrow> index_file \<Rightarrow> guard multiset \<Rightarrow> (nat \<rightharpoonup> page option) \<Rightarrow> bool" where
  "index_holds n f gs m \<longleftrightarrow> pool_ok n (xf_pool f) gs m \<and> xf_root f < 2 ^ 32 \<and> xf_siz f < 2 ^ 64"

definition value_holds :: "nat \<Rightarrow> value_file \<Rightarrow> guard multiset \<Rightarrow> (nat \<rightharpoonup> page option) \<Rightarrow> bool" where
  "value_holds n f gs m \<longleftrightarrow> pool_ok n (vf_pool f) gs m \<and> vf_first f < 2 ^ 64"

lemma raw_fits [simp]: "12 \<le> raw_size"
  by (simp add: raw_size_def page_size_def metadata_size_def)

lemma index_flush_ok:
  assumes "index_holds n f gs m"
  shows "pool_ok n (xf_pool (index_flush f)) gs m" "raw_get 0 4 (xf_pool (index_flush f)) = xf_root f"
    "raw_get 4 8 (xf_pool (index_flush f)) = xf_siz f"
proof -
  let ?a = "raw_put 0 4 (xf_root f) (xf_pool f)"
  have ok: "pool_ok n (xf_pool f) gs m" and fit: "xf_root f < 256 ^ 4" "xf_siz f < 256 ^ 8" using assms by (simp_all add: index_holds_def)
  have b: "0 + 4 \<le> raw_size" "4 + 8 \<le> raw_size" using raw_fits by linarith+
  note a = raw_put_ok [OF ok b(1), of "xf_root f"]
  note c = raw_put_ok [OF a b(2), of "xf_siz f"]
  show "pool_ok n (xf_pool (index_flush f)) gs m" using flush_all_ok(1) [OF c] by (simp add: index_flush_def)
  have "raw_get off w (xf_pool (index_flush f)) = raw_get off w (raw_put 4 8 (xf_siz f) ?a)" for off w
    by (simp add: index_flush_def raw_get_def flush_all_raw)
  then show "raw_get 0 4 (xf_pool (index_flush f)) = xf_root f" "raw_get 4 8 (xf_pool (index_flush f)) = xf_siz f"
    using raw_get_put [OF raw_length [OF a] b(2)] raw_get_put(1) [OF raw_length [OF ok] b(1)] fit by simp_all
qed

lemma value_flush_ok:
  assumes "value_holds n f gs m"
  shows "pool_ok n (vf_pool (value_flush f)) gs m" "raw_get 0 8 (vf_pool (value_flush f)) = vf_first f"
    "8 \<le> off \<Longrightarrow> raw_get off w (vf_pool (value_flush f)) = raw_get off w (vf_pool f)"
proof -
  have ok: "pool_ok n (vf_pool f) gs m" and fit: "vf_first f < 256 ^ 8" using assms by (simp_all add: value_holds_def)
  have b: "0 + 8 \<le> raw_size" using raw_fits by linarith
  note a = raw_put_ok [OF ok b, of "vf_first f"]
  show "pool_ok n (vf_pool (value_flush f)) gs m" using flush_all_ok(1) [OF a] by (simp add: value_flush_def)
  have r: "raw_get off w (vf_pool (value_flush f)) = raw_get off w (raw_put 0 8 (vf_first f) (vf_pool f))" for off w
    by (simp add: value_flush_def raw_get_def flush_all_raw)
  show "raw_get 0 8 (vf_pool (value_flush f)) = vf_first f" using r raw_get_put(1) [OF raw_length [OF ok] b] fit by simp
  show "8 \<le> off \<Longrightarrow> raw_get off w (vf_pool (value_flush f)) = raw_get off w (vf_pool f)"
    using r raw_get_put(2) [OF raw_length [OF ok] b] by simp
qed

lemma index_comes_back:
  assumes "index_holds n f gs m" "mem_ok k mem"
  shows "index_holds k (index_open mem (Some (index_close f))) {#} m"
    "xf_root (index_open mem (Some (index_close f))) = xf_root f" "xf_siz (index_open mem (Some (index_close f))) = xf_siz f"
  using index_flush_ok [OF assms(1)] reopened_pool [OF index_flush_ok(1) [OF assms(1)] assms(2)] assms(1)
  by (simp_all add: index_open_def index_close_def index_holds_def Let_def)

lemma value_comes_back:
  assumes "value_holds n f gs m" "mem_ok k mem"
  shows "value_holds k (value_open mem (Some (value_close f))) {#} m"
    "vf_first (value_open mem (Some (value_close f))) = vf_first f"
    "0 \<le> j \<Longrightarrow> get_info il tmp j (value_open mem (Some (value_close f))) = get_info il tmp j f"
  using value_flush_ok [OF assms(1)] reopened_pool [OF value_flush_ok(1) [OF assms(1)] assms(2)] assms(1)
  by (simp_all add: value_open_def value_close_def value_holds_def get_info_def Let_def)

text \<open>The info fields are independent of each other and of the chain of blank cells.\<close>

lemma write_info_reads:
  assumes f: "value_holds n f gs m" and j: "0 \<le> j" "j \<le> int il" and il: "(il + 3) * 4 \<le> raw_size"
    and x: "- 2147483648 \<le> x" "x < 2147483648"
  shows "\<exists>f'. write_info il x j f = Inr f' \<and> value_holds n f' gs m \<and> vf_first f' = vf_first f
    \<and> (\<forall>i\<ge>0. get_info il tmp i f' = (if i = j then Inr x else get_info il tmp i f))"
proof -
  have ok: "pool_ok n (vf_pool f) gs m" using f by (simp add: value_holds_def)
  let ?o = "nat ((j + 2) * 4)"
  have "(j + 2) * 4 \<le> int ((il + 2) * 4)" using j by simp
  then have "?o \<le> (il + 2) * 4" by (simp only: nat_le_iff)
  then have fits: "?o + 4 \<le> raw_size" using il by simp
  have w: "write_info il x j f = Inr (f\<lparr>vf_pool := raw_put ?o 4 (to_u 32 x) (vf_pool f)\<rparr>)"
    using j fits by (simp add: write_info_def)
  have x': "i32 (int (to_u 32 x mod 256 ^ 4)) = x"
  proof -
    have "int (to_u 32 x mod 256 ^ 4) = x mod 4294967296" by (simp add: to_u_def nat_mod_distrib)
    then have "i32 (int (to_u 32 x mod 256 ^ 4)) = i32 x" by (simp add: i32_def mod_add_left_eq)
    then show ?thesis using x by (simp add: i32_id)
  qed
  have "get_info il tmp i (f\<lparr>vf_pool := raw_put ?o 4 (to_u 32 x) (vf_pool f)\<rparr>) = (if i = j then Inr x else get_info il tmp i f)"
    if nonneg: "0 \<le> i" for i
  proof (cases "i = j")
    case True
    then show ?thesis using j fits raw_get_put(1) [OF raw_length [OF ok] fits, of "to_u 32 x"] x' by (simp add: get_info_def)
  next
    case False
    obtain a where a: "i = int a" using nonneg by (rule nonneg_int_cases)
    obtain b where b: "j = int b" using j(1) by (rule nonneg_int_cases)
    have field: "nat ((int c + 2) * 4) = (c + 2) * 4" for c
    proof -
      have "(int c + 2) * 4 = int ((c + 2) * 4)" by simp
      then show ?thesis by (simp only: nat_int)
    qed
    have "nat ((i + 2) * 4) + 4 \<le> ?o \<or> ?o + 4 \<le> nat ((i + 2) * 4)" using False unfolding a b field by auto
    then show ?thesis using False raw_get_put(2) [OF raw_length [OF ok] fits, of "nat ((i + 2) * 4)" 4 "to_u 32 x"] by (simp add: get_info_def)
  qed
  then show ?thesis using w raw_put_ok [OF ok fits] f by (simp add: value_holds_def)
qed

section \<open>Checking out\<close>

lemma drop_index_some: "drop_index p (Some f) fs = fs(p \<mapsto> index_close f)"
  by (simp add: drop_index_def)

lemma drop_value_some: "drop_value p (Some f) fs = fs(p \<mapsto> value_close f)"
  by (simp add: drop_value_def)

text \<open>
  C36: locking the files of the transaction manager down and opening them again, as a check-out
  does around its copies, brings back every page, the chain of blank cells, the info fields and
  the roots and sizes of both indexes; other files are left alone, and once locked down the
  manager ignores further calls of \<^verbatim>\<open>Flush\<close> and \<^verbatim>\<open>LockDownForCheckOut\<close>.
\<close>
theorem locked_down_files_come_back:
  assumes "tf_data D = Some v" "value_holds n1 v gs1 m1" "tf_queue D = Some q" "index_holds n2 q gs2 m2"
    and "tf_history D = Some h" "index_holds n3 h gs3 m3" "distinct [tf_data_path D, tf_queue_path D, tf_history_path D]"
    and "mem_ok k1 M1" "mem_ok k2 M2" "mem_ok k3 M3" "txn_files_lock D fs = (D', fs')"
    and "E = txn_files_open M1 M2 M3 (tf_data_id D) (tf_data_path D) (tf_queue_id D) (tf_queue_path D) (tf_history_id D) (tf_history_path D) fs'"
  shows "(\<exists>v'. tf_data E = Some v' \<and> value_holds k1 v' {#} m1 \<and> vf_first v' = vf_first v
      \<and> (\<forall>j\<ge>0. get_info il tmp j v' = get_info il tmp j v))
    \<and> (\<exists>q'. tf_queue E = Some q' \<and> index_holds k2 q' {#} m2 \<and> xf_root q' = xf_root q \<and> xf_siz q' = xf_siz q)
    \<and> (\<exists>h'. tf_history E = Some h' \<and> index_holds k3 h' {#} m3 \<and> xf_root h' = xf_root h \<and> xf_siz h' = xf_siz h)
    \<and> (\<forall>p. p \<notin> {tf_data_path D, tf_queue_path D, tf_history_path D} \<longrightarrow> fs' p = fs p)
    \<and> txn_files_flush D' = Inr D' \<and> txn_files_lock D' fs' = (D', fs')"
proof -
  have D': "D' = D\<lparr>tf_data := None, tf_queue := None, tf_history := None\<rparr>"
    and fs': "fs' = fs(tf_data_path D \<mapsto> value_close v, tf_queue_path D \<mapsto> index_close q, tf_history_path D \<mapsto> index_close h)"
    using assms(1,3,5,11) by (simp_all add: txn_files_lock_def txn_files_drop_def drop_index_some drop_value_some)
  have at: "fs' (tf_data_path D) = Some (value_close v)" "fs' (tf_queue_path D) = Some (index_close q)"
    "fs' (tf_history_path D) = Some (index_close h)" using assms(7) by (simp_all add: fs')
  have E: "tf_data E = Some (value_open M1 (Some (value_close v)))" "tf_queue E = Some (index_open M2 (Some (index_close q)))"
    "tf_history E = Some (index_open M3 (Some (index_close h)))" using at by (simp_all add: assms(12) txn_files_open_def)
  have "txn_files_flush D' = Inr D'" "txn_files_lock D' fs' = (D', fs')"
    by (simp_all add: D' txn_files_flush_def txn_files_lock_def txn_files_drop_def drop_index_def drop_value_def)
  then show ?thesis
    using E value_comes_back [OF assms(2,8)] index_comes_back [OF assms(4,9)] index_comes_back [OF assms(6,10)] by (simp add: fs')
qed

text \<open>The same for a disk map and for the stop register.\<close>

lemma locked_map_comes_back:
  assumes "mf_index D = Some x" "index_holds n1 x gs1 m1" "mf_data D = Some v" "value_holds n2 v gs2 m2" "mf_index_path D \<noteq> mf_data_path D"
    and "mem_ok k1 M1" "mem_ok k2 M2" "map_files_lock D fs = (D', fs')"
    and "E = map_files_open M1 M2 (mf_index_id D) (mf_index_path D) (mf_data_id D) (mf_data_path D) fs'"
  shows "(\<exists>x'. mf_index E = Some x' \<and> index_holds k1 x' {#} m1 \<and> xf_root x' = xf_root x \<and> xf_siz x' = xf_siz x)
    \<and> (\<exists>v'. mf_data E = Some v' \<and> value_holds k2 v' {#} m2 \<and> vf_first v' = vf_first v)
    \<and> map_files_flush D' = Inr D' \<and> map_files_lock D' fs' = (D', fs')"
proof -
  have D': "D' = D\<lparr>mf_index := None, mf_data := None\<rparr>" and fs': "fs' = fs(mf_index_path D \<mapsto> index_close x, mf_data_path D \<mapsto> value_close v)"
    using assms(1,3,8) by (simp_all add: map_files_lock_def map_files_drop_def drop_index_some drop_value_some)
  have E: "mf_index E = Some (index_open M1 (Some (index_close x)))" "mf_data E = Some (value_open M2 (Some (value_close v)))"
    using assms(5) by (simp_all add: assms(9) map_files_open_def fs')
  have "map_files_flush D' = Inr D'" "map_files_lock D' fs' = (D', fs')"
    by (simp_all add: D' map_files_flush_def map_files_lock_def map_files_drop_def drop_index_def drop_value_def)
  then show ?thesis using E index_comes_back [OF assms(2,6)] value_comes_back(1,2) [OF assms(4,7)] by simp
qed

lemma locked_stops_come_back:
  assumes "sf_index D = Some x" "index_holds n x gs m" "mem_ok k M" "stop_files_lock D fs = (D', fs')"
    and "E = stop_files_open M (sf_id D) (sf_path D) fs'"
  shows "(\<exists>x'. sf_index E = Some x' \<and> index_holds k x' {#} m \<and> xf_root x' = xf_root x \<and> xf_siz x' = xf_siz x)
    \<and> stop_files_flush D' = D' \<and> stop_files_lock D' fs' = (D', fs')"
proof -
  have D': "D' = D\<lparr>sf_index := None\<rparr>" and fs': "fs' = fs(sf_path D \<mapsto> index_close x)"
    using assms(1,4) by (simp_all add: stop_files_lock_def stop_files_drop_def drop_index_some)
  have "sf_index E = Some (index_open M (Some (index_close x)))" by (simp add: assms(5) stop_files_open_def fs')
  moreover have "stop_files_flush D' = D'" "stop_files_lock D' fs' = (D', fs')"
    by (simp_all add: D' stop_files_flush_def stop_files_lock_def stop_files_drop_def drop_index_def)
  ultimately show ?thesis using index_comes_back [OF assms(2,3)] by simp
qed

text \<open>Flushing while the files are open keeps what they hold, and leaves it in the file as well.\<close>

lemma flushed_files_hold:
  "index_holds n x gs m \<Longrightarrow> index_holds n (index_flush x) gs m"
  "value_holds n v gs m \<Longrightarrow> value_holds n (value_flush v) gs m"
  using index_flush_ok(1) [of n x gs m] value_flush_ok(1) [of n v gs m]
  by (simp_all add: index_holds_def value_holds_def index_flush_def value_flush_def)

text \<open>Fresh files.\<close>

lemma fresh_raw: "raw_get off w (open_pool mem None) = 0"
proof -
  have "dec (replicate j 0) = 0" for j by (induction j) simp_all
  then show ?thesis by (simp add: raw_get_def open_pool_def new_pool_def new_disk_def fully_flush_def put_page_def)
qed

lemma fresh_files_hold:
  assumes "mem_ok n mem"
  shows "index_holds n (index_open mem None) {#} Map.empty" "value_holds n (value_open mem None) {#} Map.empty"
  using fresh_pool [OF assms] by (simp_all add: index_holds_def value_holds_def index_open_def value_open_def fresh_raw Let_def)

definition sample_memory :: memory where
  "sample_memory = \<lparr>mem_frames = [blank_frame], mem_records = [blank_record], mem_buf = zero_page\<rparr>"

lemma sample_memory_ok: "mem_ok 1 sample_memory"
  by (simp add: mem_ok_def sample_memory_def blank_frame_def)

definition sample_txn_files :: txn_files where
  "sample_txn_files = txn_files_open sample_memory sample_memory sample_memory
     ''txn.data'' ''data/txn.data'' ''queue.idx'' ''data/queue.idx'' ''order.idx'' ''data/order.idx'' Map.empty"

lemma locked_down_files_come_back_witness:
  "\<exists>D' fs'. txn_files_lock sample_txn_files Map.empty = (D', fs')
    \<and> (\<exists>q. tf_queue (txn_files_open sample_memory sample_memory sample_memory ''txn.data'' ''data/txn.data'' ''queue.idx'' ''data/queue.idx''
          ''order.idx'' ''data/order.idx'' fs') = Some q \<and> index_holds 1 q {#} Map.empty \<and> xf_root q = 0)
    \<and> txn_files_flush D' = Inr D'"
proof -
  note S = fresh_files_hold [OF sample_memory_ok]
  have D: "tf_data sample_txn_files = Some (value_open sample_memory None)" "tf_queue sample_txn_files = Some (index_open sample_memory None)"
    "tf_history sample_txn_files = Some (index_open sample_memory None)"
    "tf_data_id sample_txn_files = ''txn.data''" "tf_data_path sample_txn_files = ''data/txn.data''"
    "tf_queue_id sample_txn_files = ''queue.idx''" "tf_queue_path sample_txn_files = ''data/queue.idx''"
    "tf_history_id sample_txn_files = ''order.idx''" "tf_history_path sample_txn_files = ''data/order.idx''"
    by (simp_all add: sample_txn_files_def txn_files_open_def)
  obtain D' fs' where L: "txn_files_lock sample_txn_files Map.empty = (D', fs')" by fastforce
  have dist: "distinct [tf_data_path sample_txn_files, tf_queue_path sample_txn_files, tf_history_path sample_txn_files]" by (simp add: D)
  have "xf_root (index_open sample_memory None) = 0" by (simp add: index_open_def fresh_raw Let_def)
  then show ?thesis
    using locked_down_files_come_back [OF D(1) S(2) D(2) S(1) D(3) S(1) dist sample_memory_ok sample_memory_ok sample_memory_ok L refl, of 2 0] L
    by (auto simp: D)
qed

end
