(* ===== verification/Sequence.thy ===== *)
theory Sequence
  imports Prelude
begin

text \<open>
  The contract that the sequence containers of \<^verbatim>\<open>stlite\<close> share, with an abstraction to lists: a
  sequence grows and shrinks at its end, and a queue also shrinks at its front.
\<close>

primrec push_all :: "('a \<Rightarrow> 's \<Rightarrow> 's result) \<Rightarrow> 'a list \<Rightarrow> 's \<Rightarrow> 's result" where
  "push_all push [] s = Inr s"
| "push_all push (x # xs) s = rbind (push x s) (push_all push xs)"

primrec pop_times :: "('s \<Rightarrow> 's result) \<Rightarrow> nat \<Rightarrow> 's \<Rightarrow> 's result" where
  "pop_times pop 0 s = Inr s"
| "pop_times pop (Suc n) s = rbind (pop s) (pop_times pop n)"

locale sequence =
  fixes elems :: "'s \<Rightarrow> 'a list"
    and invar :: "'s \<Rightarrow> bool"
    and push :: "'a \<Rightarrow> 's \<Rightarrow> 's result"
    and pop :: "'s \<Rightarrow> 's result"
    and first_of :: "'s \<Rightarrow> 'a result"
    and last_of :: "'s \<Rightarrow> 'a result"
    and sz :: "'s \<Rightarrow> nat"
    and empty_error :: cxx_error
  assumes push_ok: "invar s \<Longrightarrow> \<exists>s'. push x s = Inr s' \<and> invar s' \<and> elems s' = elems s @ [x]"
    and pop_ok: "invar s \<Longrightarrow> elems s \<noteq> [] \<Longrightarrow> \<exists>s'. pop s = Inr s' \<and> invar s' \<and> elems s' = butlast (elems s)"
    and pop_empty: "invar s \<Longrightarrow> elems s = [] \<Longrightarrow> pop s = Inl empty_error"
    and front_ok: "invar s \<Longrightarrow> first_of s = (if elems s = [] then Inl empty_error else Inr (hd (elems s)))"
    and back_ok: "invar s \<Longrightarrow> last_of s = (if elems s = [] then Inl empty_error else Inr (last (elems s)))"
    and sz_ok: "invar s \<Longrightarrow> sz s = length (elems s)"
begin

lemma push_all_ok: "invar s \<Longrightarrow> \<exists>s'. push_all push xs s = Inr s' \<and> invar s' \<and> elems s' = elems s @ xs"
proof (induction xs arbitrary: s)
  case (Cons x xs)
  obtain s1 where "push x s = Inr s1" "invar s1" "elems s1 = elems s @ [x]" using push_ok [OF Cons.prems] by blast
  then show ?case using Cons.IH [of s1] by auto
qed simp

lemma pop_times_ok:
  "invar s \<Longrightarrow> n \<le> length (elems s) \<Longrightarrow>
    \<exists>s'. pop_times pop n s = Inr s' \<and> invar s' \<and> elems s' = take (length (elems s) - n) (elems s)"
proof (induction n arbitrary: s)
  case (Suc n)
  then have "elems s \<noteq> []" by auto
  then obtain s1 where "pop s = Inr s1" "invar s1" "elems s1 = butlast (elems s)" using pop_ok [OF Suc.prems(1)] by blast
  moreover have "take (length (elems s) - 1 - n) (butlast (elems s)) = take (length (elems s) - Suc n) (elems s)"
    by (simp add: butlast_conv_take min_def)
  ultimately show ?case using Suc.IH [of s1] Suc.prems(2) by auto
qed simp

lemma push_then_pop:
  assumes "invar s"
  shows "\<exists>s'. rbind (push_all push xs s) (pop_times pop (length xs)) = Inr s' \<and> invar s' \<and> elems s' = elems s"
proof -
  obtain s1 where "push_all push xs s = Inr s1" "invar s1" "elems s1 = elems s @ xs" using push_all_ok [OF assms] by blast
  then show ?thesis using pop_times_ok [of s1 "length xs"] by auto
qed

lemma back_of_push: "invar s \<Longrightarrow> rbind (push x s) last_of = Inr x"
  using push_ok [of s x] back_ok by auto

end

locale fifo = sequence +
  fixes pop_front :: "'s \<Rightarrow> 's result"
  assumes pop_front_ok: "invar s \<Longrightarrow> elems s \<noteq> [] \<Longrightarrow> \<exists>s'. pop_front s = Inr s' \<and> invar s' \<and> elems s' = tl (elems s)"
    and pop_front_empty: "invar s \<Longrightarrow> elems s = [] \<Longrightarrow> pop_front s = Inl empty_error"
begin

text \<open>What was pushed last comes to the front once everything before it was taken.\<close>

lemma pop_front_times:
  "invar s \<Longrightarrow> n \<le> length (elems s) \<Longrightarrow>
    \<exists>s'. pop_times pop_front n s = Inr s' \<and> invar s' \<and> elems s' = drop n (elems s)"
proof (induction n arbitrary: s)
  case (Suc n)
  then have "elems s \<noteq> []" by auto
  then obtain s1 where "pop_front s = Inr s1" "invar s1" "elems s1 = tl (elems s)" using pop_front_ok [OF Suc.prems(1)] by blast
  then show ?case using Suc.IH [of s1] Suc.prems(2) by (auto simp: drop_Suc)
qed simp

lemma first_in_first_out:
  assumes "invar s"
  shows "rbind (rbind (push x s) (pop_times pop_front (sz s))) first_of = Inr x"
proof -
  obtain s1 where 1: "push x s = Inr s1" "invar s1" "elems s1 = elems s @ [x]" using push_ok [OF assms] by blast
  obtain s2 where 2: "pop_times pop_front (length (elems s)) s1 = Inr s2" "invar s2" "elems s2 = [x]"
    using pop_front_times [OF 1(2), of "length (elems s)"] 1(3) by auto
  show ?thesis using 1(1) 2 front_ok [OF 2(2)] by (simp add: sz_ok [OF assms])
qed

end

end
