(* ===== verification/Vector.thy ===== *)
theory Vector
  imports Sequence
begin

text \<open>
  \<^verbatim>\<open>stlite/vector.hpp\<close>. The array of a vector is a list of cells, \<open>None\<close> for raw memory; what the
  allocator returns is an argument \<open>b\<close> of every operation that may call it, the name of the new
  array. Pointers into an array are its name with an offset. \<open>T()\<close> is the argument \<open>d\<close>.
\<close>

section \<open>Cells\<close>

definition read_cell :: "nat \<Rightarrow> 'a option list \<Rightarrow> 'a result" where
  "read_cell i mem = (if i < length mem then of_option Undefined (mem ! i) else Inl Undefined)"

definition construct :: "nat \<Rightarrow> 'a \<Rightarrow> 'a option list \<Rightarrow> 'a option list result" where
  "construct i x mem = (if i < length mem then Inr (mem[i := Some x]) else Inl Undefined)"

definition destroy :: "nat \<Rightarrow> 'a option list \<Rightarrow> 'a option list result" where
  "destroy i mem = rbind (read_cell i mem) (\<lambda>x. Inr (mem[i := None]))"

text \<open>The loops: \<open>n\<close> iterations from index \<open>i\<close> on.\<close>

fun fill_cells :: "'a \<Rightarrow> nat \<Rightarrow> nat \<Rightarrow> 'a option list \<Rightarrow> 'a option list result" where
  "fill_cells d i 0 mem = Inr mem"
| "fill_cells d i (Suc n) mem = rbind (construct i d mem) (fill_cells d (i + 1) n)"

fun destroy_cells :: "nat \<Rightarrow> nat \<Rightarrow> 'a option list \<Rightarrow> 'a option list result" where
  "destroy_cells i 0 mem = Inr mem"
| "destroy_cells i (Suc n) mem = rbind (destroy i mem) (destroy_cells (i + 1) n)"

fun copy_cells :: "nat \<Rightarrow> nat \<Rightarrow> 'a option list \<Rightarrow> 'a option list \<Rightarrow> 'a option list result" where
  "copy_cells i 0 src mem = Inr mem"
| "copy_cells i (Suc n) src mem = rbind (read_cell i src) (\<lambda>x. rbind (construct i x mem) (copy_cells (i + 1) n src))"

fun move_cells :: "nat \<Rightarrow> nat \<Rightarrow> 'a option list \<Rightarrow> 'a option list \<Rightarrow> 'a option list result" where
  "move_cells i 0 old new = Inr new"
| "move_cells i (Suc n) old new = rbind (read_cell i old) (\<lambda>x. rbind (construct i x new) (\<lambda>new'.
     rbind (destroy i old) (\<lambda>old'. move_cells (i + 1) n old' new')))"

fun shift_up :: "nat \<Rightarrow> nat \<Rightarrow> 'a option list \<Rightarrow> 'a option list result" where
  "shift_up i 0 mem = Inr mem"
| "shift_up i (Suc n) mem = rbind (read_cell (i - 1) mem) (\<lambda>x. rbind (construct i x mem) (\<lambda>mem'.
     rbind (destroy (i - 1) mem') (shift_up (i - 1) n)))"

fun shift_down :: "nat \<Rightarrow> nat \<Rightarrow> 'a option list \<Rightarrow> 'a option list result" where
  "shift_down i 0 mem = Inr mem"
| "shift_down i (Suc n) mem = rbind (read_cell (i + 1) mem) (\<lambda>x. rbind (construct i x mem) (\<lambda>mem'.
     rbind (destroy (i + 1) mem') (shift_down (i + 1) n)))"

section \<open>The vector\<close>

record 'a vec =
  vc_self :: nat
  vc_block :: nat
  vc_mem :: "'a option list"
  vc_alloc :: nat
  vc_len :: nat
  vc_end :: nat

text \<open>Iterators: the vector, and a pointer into an array.\<close>

record vec_it =
  vi_domain :: nat
  vi_block :: nat
  vi_pos :: int

definition vi_add :: "int \<Rightarrow> vec_it \<Rightarrow> vec_it" where
  "vi_add n it = it\<lparr>vi_pos := vi_pos it + n\<rparr>"

definition vi_diff :: "vec_it \<Rightarrow> vec_it \<Rightarrow> int result" where
  "vi_diff it rhs = (if vi_domain it \<noteq> vi_domain rhs then Inl Invalid_iterator
     else if vi_block it \<noteq> vi_block rhs then Inl Undefined else Inr (i32 (vi_pos it - vi_pos rhs)))"

definition vi_eq :: "vec_it \<Rightarrow> vec_it \<Rightarrow> bool" where
  "vi_eq it rhs \<longleftrightarrow> vi_block it = vi_block rhs \<and> vi_pos it = vi_pos rhs"

definition vi_less :: "vec_it \<Rightarrow> vec_it \<Rightarrow> bool result" where
  "vi_less it rhs = (if vi_block it \<noteq> vi_block rhs then Inl Undefined else Inr (vi_pos it < vi_pos rhs))"

definition vi_deref :: "vec_it \<Rightarrow> 'a vec \<Rightarrow> 'a result" where
  "vi_deref it v = (if vi_block it \<noteq> vc_block v \<or> vi_pos it < 0 then Inl Undefined
     else read_cell (nat (vi_pos it)) (vc_mem v))"

definition vec_begin :: "'a vec \<Rightarrow> vec_it" where
  "vec_begin v = \<lparr>vi_domain = vc_self v, vi_block = vc_block v, vi_pos = 0\<rparr>"

definition vec_end :: "'a vec \<Rightarrow> vec_it" where
  "vec_end v = \<lparr>vi_domain = vc_self v, vi_block = vc_block v, vi_pos = int (vc_end v)\<rparr>"

text \<open>Constructors, and the assignments.\<close>

definition vec_new :: "nat \<Rightarrow> nat \<Rightarrow> 'a vec" where
  "vec_new self b = \<lparr>vc_self = self, vc_block = b, vc_mem = [None], vc_alloc = 1, vc_len = 0, vc_end = 0\<rparr>"

definition vec_sized :: "nat \<Rightarrow> 'a \<Rightarrow> nat \<Rightarrow> nat \<Rightarrow> 'a vec result" where
  "vec_sized self d b len = rbind (fill_cells d 0 len (replicate (len * 2) None)) (\<lambda>mem.
     Inr \<lparr>vc_self = self, vc_block = b, vc_mem = mem, vc_alloc = len * 2, vc_len = len, vc_end = len\<rparr>)"

definition vec_copy :: "nat \<Rightarrow> nat \<Rightarrow> 'a vec \<Rightarrow> 'a vec result" where
  "vec_copy self b other = rbind (copy_cells 0 (vc_len other) (vc_mem other) (replicate (vc_alloc other) None)) (\<lambda>mem.
     Inr \<lparr>vc_self = self, vc_block = b, vc_mem = mem, vc_alloc = vc_alloc other, vc_len = vc_len other,
          vc_end = vc_len other\<rparr>)"

text \<open>A vector that was moved from has no array; its name is 0.\<close>

definition moved_from :: "'a vec \<Rightarrow> 'a vec" where
  "moved_from v = v\<lparr>vc_block := 0, vc_mem := [], vc_alloc := 0, vc_len := 0, vc_end := 0\<rparr>"

definition vec_move :: "nat \<Rightarrow> 'a vec \<Rightarrow> 'a vec \<times> 'a vec" where
  "vec_move self other = (other\<lparr>vc_self := self\<rparr>, moved_from other)"

definition release :: "'a vec \<Rightarrow> unit result" where
  "release v = (if vc_block v = 0 then Inr () else rbind (destroy_cells 0 (vc_len v) (vc_mem v)) (\<lambda>_. Inr ()))"

definition vec_assign :: "nat \<Rightarrow> 'a vec \<Rightarrow> 'a vec \<Rightarrow> 'a vec result" where
  "vec_assign b v other = (if vc_self v = vc_self other then Inr v
     else rbind (release v) (\<lambda>_. vec_copy (vc_self v) b other))"

definition vec_move_assign :: "'a vec \<Rightarrow> 'a vec \<Rightarrow> ('a vec \<times> 'a vec) result" where
  "vec_move_assign v other = (if vc_self v = vc_self other then Inr (v, other)
     else rbind (release v) (\<lambda>_. Inr (vec_move (vc_self v) other)))"

text \<open>Access.\<close>

definition vec_at :: "nat \<Rightarrow> 'a vec \<Rightarrow> 'a result" where
  "vec_at i v = (if vc_len v \<le> i then Inl Index_out_of_bound else read_cell i (vc_mem v))"

definition vec_set :: "nat \<Rightarrow> 'a \<Rightarrow> 'a vec \<Rightarrow> 'a vec result" where
  "vec_set i x v = (if vc_len v \<le> i then Inl Index_out_of_bound
     else rbind (read_cell i (vc_mem v)) (\<lambda>_. Inr (v\<lparr>vc_mem := (vc_mem v)[i := Some x]\<rparr>)))"

definition vec_front :: "'a vec \<Rightarrow> 'a result" where
  "vec_front v = (if vc_len v = 0 then Inl Container_is_empty else read_cell 0 (vc_mem v))"

definition vec_back :: "'a vec \<Rightarrow> 'a result" where
  "vec_back v = (if vc_len v = 0 then Inl Container_is_empty else read_cell (vc_end v - 1) (vc_mem v))"

definition vec_clear :: "nat \<Rightarrow> 'a vec \<Rightarrow> 'a vec result" where
  "vec_clear b v = rbind (release v) (\<lambda>_. Inr (vec_new (vc_self v) b))"

text \<open>Moving to an array of \<open>n\<close> cells.\<close>

definition reallocate :: "nat \<Rightarrow> nat \<Rightarrow> 'a vec \<Rightarrow> 'a vec result" where
  "reallocate b n v = rbind (move_cells 0 (vc_len v) (vc_mem v) (replicate n None)) (\<lambda>mem.
     Inr (v\<lparr>vc_block := b, vc_mem := mem, vc_alloc := n, vc_end := vc_len v\<rparr>))"

definition make_room :: "nat \<Rightarrow> 'a vec \<Rightarrow> 'a vec result" where
  "make_room b v = (if vc_len v = vc_alloc v then reallocate b (vc_alloc v * 2) v else Inr v)"

definition give_back :: "nat \<Rightarrow> 'a vec \<Rightarrow> 'a vec result" where
  "give_back b v = (if vc_len v \<noteq> 0 \<and> vc_len v \<le> vc_alloc v div 4 then reallocate b (vc_alloc v div 2) v else Inr v)"

definition open_gap :: "nat \<Rightarrow> 'a \<Rightarrow> 'a vec \<Rightarrow> 'a vec result" where
  "open_gap i x v = rbind (shift_up (vc_end v) (vc_end v - i) (vc_mem v)) (\<lambda>mem. rbind (construct i x mem) (\<lambda>mem'.
     Inr (v\<lparr>vc_mem := mem', vc_end := vc_end v + 1, vc_len := vc_len v + 1\<rparr>)))"

definition close_gap :: "nat \<Rightarrow> 'a vec \<Rightarrow> 'a vec result" where
  "close_gap i v = rbind (shift_down i (vc_end v - 1 - i) (vc_mem v)) (\<lambda>mem.
     Inr (v\<lparr>vc_mem := mem, vc_end := vc_end v - 1, vc_len := vc_len v - 1\<rparr>))"

text \<open>
  \<open>vec_insert\<close> and \<open>vec_erase\<close> take an iterator and return one; comparing a pointer into another
  array is not defined.
\<close>

definition vec_insert :: "nat \<Rightarrow> vec_it \<Rightarrow> 'a \<Rightarrow> 'a vec \<Rightarrow> (vec_it \<times> 'a vec) result" where
  "vec_insert b pos x v =
     (if vi_block pos \<noteq> vc_block v then Inl Undefined
      else if vi_pos pos < 0 \<or> vi_pos pos > int (vc_end v) then Inl Invalid_iterator
      else rbind (make_room b v) (\<lambda>v1. rbind (open_gap (nat (vi_pos pos)) x v1) (\<lambda>v2.
        Inr (pos\<lparr>vi_block := vc_block v1\<rparr>, v2))))"

definition vec_insert_at :: "nat \<Rightarrow> nat \<Rightarrow> 'a \<Rightarrow> 'a vec \<Rightarrow> (vec_it \<times> 'a vec) result" where
  "vec_insert_at b i x v = (if vc_len v < i then Inl Index_out_of_bound
     else rbind (make_room b v) (\<lambda>v1. rbind (open_gap i x v1) (\<lambda>v2. Inr (vi_add (int i) (vec_begin v2), v2))))"

definition vec_erase :: "nat \<Rightarrow> vec_it \<Rightarrow> 'a vec \<Rightarrow> (vec_it \<times> 'a vec) result" where
  "vec_erase b pos v =
     (if vi_block pos \<noteq> vc_block v then Inl Undefined
      else if vi_pos pos < 0 \<or> vi_pos pos \<ge> int (vc_end v) then Inl Invalid_iterator
      else rbind (close_gap (nat (vi_pos pos)) v) (\<lambda>v1. rbind (give_back b v1) (\<lambda>v2. Inr (pos, v2))))"

definition vec_erase_at :: "nat \<Rightarrow> nat \<Rightarrow> 'a vec \<Rightarrow> (vec_it \<times> 'a vec) result" where
  "vec_erase_at b i v = (if vc_len v \<le> i then Inl Index_out_of_bound
     else rbind (close_gap i v) (\<lambda>v1. rbind (give_back b v1) (\<lambda>v2. Inr (vi_add (int i) (vec_begin v2), v2))))"

definition vec_push :: "nat \<Rightarrow> 'a \<Rightarrow> 'a vec \<Rightarrow> 'a vec result" where
  "vec_push b x v = rbind (make_room b v) (\<lambda>v1. rbind (construct (vc_end v1) x (vc_mem v1)) (\<lambda>mem.
     Inr (v1\<lparr>vc_mem := mem, vc_end := vc_end v1 + 1, vc_len := vc_len v1 + 1\<rparr>)))"

definition vec_pop :: "'a vec \<Rightarrow> 'a vec result" where
  "vec_pop v = (if vc_len v = 0 then Inl Container_is_empty
     else rbind (destroy (vc_end v - 1) (vc_mem v)) (\<lambda>mem.
       Inr (v\<lparr>vc_mem := mem, vc_end := vc_end v - 1, vc_len := vc_len v - 1\<rparr>)))"

definition vec_resize :: "'a \<Rightarrow> nat \<Rightarrow> nat \<Rightarrow> 'a vec \<Rightarrow> 'a vec result" where
  "vec_resize d b len v =
     (if len < vc_len v then rbind (destroy_cells len (vc_len v - len) (vc_mem v)) (\<lambda>mem.
        Inr (v\<lparr>vc_mem := mem, vc_end := len, vc_len := len\<rparr>))
      else if vc_len v < len then
        rbind (if vc_alloc v < len then reallocate b (len * 2) v else Inr v) (\<lambda>v1.
        rbind (fill_cells d (vc_len v1) (len - vc_len v1) (vc_mem v1)) (\<lambda>mem.
          Inr (v1\<lparr>vc_mem := mem, vc_end := len, vc_len := len\<rparr>)))
      else Inr v)"

section \<open>Vectors hold lists\<close>

definition vec_rep :: "'a vec \<Rightarrow> 'a list \<Rightarrow> bool" where
  "vec_rep v xs \<longleftrightarrow> (\<exists>rest. vc_mem v = map Some xs @ rest) \<and> vc_alloc v = length (vc_mem v)
     \<and> vc_len v = length xs \<and> vc_end v = length xs \<and> 0 < vc_alloc v \<and> vc_block v \<noteq> 0"

lemma vec_repE:
  assumes "vec_rep v xs"
  obtains rest where "vc_mem v = map Some xs @ rest" "vc_alloc v = length xs + length rest" "vc_len v = length xs"
    "vc_end v = length xs" "0 < vc_alloc v" "vc_block v \<noteq> 0"
  using assms unfolding vec_rep_def by auto

text \<open>The loops on arrays of which a part is alive.\<close>

lemma read_cell_at [simp]: "read_cell (length P) (P @ Some x # Q) = Inr x"
  by (simp add: read_cell_def)

lemma read_live: "i < length xs \<Longrightarrow> read_cell i (map Some xs @ rest) = Inr (xs ! i)"
  by (simp add: read_cell_def nth_append)

lemma construct_at [simp]: "construct (length P) x (P @ c # Q) = Inr (P @ Some x # Q)"
  by (simp add: construct_def)

lemma destroy_at [simp]: "destroy (length P) (P @ Some x # Q) = Inr (P @ None # Q)"
  by (simp add: destroy_def)

lemma split_next: "P @ c # Q = (P @ [c]) @ Q" "Suc (length P) = length (P @ [c])"
  by simp_all

lemma fill_cells_run: "fill_cells d (length P) n (P @ replicate n c @ Q) = Inr (P @ replicate n (Some d) @ Q)"
proof (induction n arbitrary: P)
  case (Suc n)
  show ?case using Suc.IH [of "P @ [Some d]"] construct_at [of P d c "replicate n c @ Q"] by simp
qed simp

lemma fill_any: "length cs = n \<Longrightarrow> fill_cells d (length P) n (P @ cs @ Q) = Inr (P @ replicate n (Some d) @ Q)"
proof (induction n arbitrary: P cs)
  case (Suc n)
  then obtain c cs' where c: "cs = c # cs'" "length cs' = n" by (cases cs) auto
  show ?case using Suc.IH [of cs' "P @ [Some d]"] construct_at [of P d c "cs' @ Q"] c by simp
qed simp

lemma destroy_cells_run: "destroy_cells (length P) (length xs) (P @ map Some xs @ Q) = Inr (P @ replicate (length xs) None @ Q)"
proof (induction xs arbitrary: P)
  case (Cons x xs)
  show ?case using Cons.IH [of "P @ [None]"] destroy_at [of P x "map Some xs @ Q"] by simp
qed simp

lemma copy_cells_run:
  "length xs \<le> length N \<Longrightarrow> length R = length P \<Longrightarrow>
    copy_cells (length P) (length xs) (R @ map Some xs @ Q) (P @ N) = Inr (P @ map Some xs @ drop (length xs) N)"
proof (induction xs arbitrary: P R N)
  case (Cons x xs)
  obtain c N' where N: "N = c # N'" using Cons.prems(1) by (cases N) auto
  have r: "read_cell (length P) (R @ Some x # map Some xs @ Q) = Inr x"
    using read_cell_at [of R x "map Some xs @ Q"] Cons.prems(2) by simp
  show ?case using Cons.IH [of N' "R @ [Some x]" "P @ [Some x]"] Cons.prems r construct_at [of P x c N'] by (simp add: N)
qed simp

lemma move_cells_run:
  "length xs \<le> length N \<Longrightarrow> length R = length P \<Longrightarrow>
    move_cells (length P) (length xs) (R @ map Some xs @ Q) (P @ N) = Inr (P @ map Some xs @ drop (length xs) N)"
proof (induction xs arbitrary: P R N)
  case (Cons x xs)
  obtain c N' where N: "N = c # N'" using Cons.prems(1) by (cases N) auto
  have r: "read_cell (length P) (R @ Some x # map Some xs @ Q) = Inr x"
    "destroy (length P) (R @ Some x # map Some xs @ Q) = Inr (R @ None # map Some xs @ Q)"
    using read_cell_at [of R x "map Some xs @ Q"] destroy_at [of R x "map Some xs @ Q"] Cons.prems(2) by simp_all
  show ?case using Cons.IH [of N' "R @ [None]" "P @ [Some x]"] Cons.prems r construct_at [of P x c N'] by (simp add: N)
qed simp

lemma shift_up_run:
  "shift_up (length P + length ys) (length ys) (P @ map Some ys @ c # Q)
     = Inr (P @ (if ys = [] then c else None) # map Some ys @ Q)"
proof (induction ys arbitrary: c Q rule: rev_induct)
  case (snoc y ys)
  let ?P = "P @ map Some ys"
  have r: "read_cell (length P + length ys) (P @ map Some ys @ Some y # c # Q) = Inr y"
    using read_cell_at [of ?P y "c # Q"] by simp
  have k: "construct (Suc (length P + length ys)) y (P @ map Some ys @ Some y # c # Q) = Inr (P @ map Some ys @ Some y # Some y # Q)"
    using construct_at [of "?P @ [Some y]" y c Q] by simp
  have d: "destroy (length P + length ys) (P @ map Some ys @ Some y # Some y # Q) = Inr (P @ map Some ys @ None # Some y # Q)"
    using destroy_at [of ?P y "Some y # Q"] by simp
  show ?case using snoc.IH [of None "Some y # Q"] r k d by simp
qed simp

lemma shift_down_run:
  "shift_down (length P) (length ys) (P @ c # map Some ys @ Q)
     = Inr (P @ map Some ys @ (if ys = [] then c else None) # Q)"
proof (induction ys arbitrary: c P)
  case (Cons y ys)
  have r: "read_cell (Suc (length P)) (P @ c # Some y # map Some ys @ Q) = Inr y"
    using read_cell_at [of "P @ [c]" y "map Some ys @ Q"] by simp
  have k: "construct (length P) y (P @ c # Some y # map Some ys @ Q) = Inr (P @ Some y # Some y # map Some ys @ Q)"
    using construct_at [of P y c "Some y # map Some ys @ Q"] by simp
  have d: "destroy (Suc (length P)) (P @ Some y # Some y # map Some ys @ Q) = Inr (P @ Some y # None # map Some ys @ Q)"
    using destroy_at [of "P @ [Some y]" y "map Some ys @ Q"] by simp
  show ?case using Cons.IH [of "P @ [Some y]" None] r k d by simp
qed simp

section \<open>Every operation\<close>

lemma reallocate_ok:
  assumes "vec_rep v xs" "length xs \<le> n" "0 < n" "b \<noteq> 0"
  shows "\<exists>v'. reallocate b n v = Inr v' \<and> vec_rep v' xs \<and> vc_alloc v' = n \<and> vc_block v' = b \<and> vc_self v' = vc_self v"
proof -
  obtain rest where v: "vc_mem v = map Some xs @ rest" "vc_len v = length xs" by (rule vec_repE [OF assms(1)])
  have "move_cells 0 (length xs) (map Some xs @ rest) (replicate n None) = Inr (map Some xs @ drop (length xs) (replicate n None))"
    using move_cells_run [of xs "replicate n None" "[]" "[]" rest] assms(2) by simp
  then show ?thesis using v assms by (auto simp: reallocate_def vec_rep_def)
qed

lemma make_room_ok:
  assumes "vec_rep v xs" "b \<noteq> 0"
  shows "\<exists>v'. make_room b v = Inr v' \<and> vec_rep v' xs \<and> length xs < vc_alloc v' \<and> vc_self v' = vc_self v
    \<and> vc_alloc v' = (if length xs = vc_alloc v then 2 * length xs else vc_alloc v)
    \<and> vc_block v' = (if length xs = vc_alloc v then b else vc_block v)"
proof (cases "length xs = vc_alloc v")
  case True
  moreover have "vc_len v = length xs" "0 < vc_alloc v" using assms(1) by (auto elim: vec_repE)
  ultimately show ?thesis using reallocate_ok [OF assms(1) _ _ assms(2), of "vc_alloc v * 2"] by (auto simp: make_room_def)
next
  case False
  then show ?thesis using assms by (auto simp: make_room_def elim!: vec_repE)
qed

lemma give_back_ok:
  assumes "vec_rep v xs" "b \<noteq> 0"
  shows "\<exists>v'. give_back b v = Inr v' \<and> vec_rep v' xs \<and> vc_alloc v' \<le> vc_alloc v \<and> vc_self v' = vc_self v
    \<and> vc_block v' = (if xs \<noteq> [] \<and> length xs \<le> vc_alloc v div 4 then b else vc_block v)"
proof (cases "xs \<noteq> [] \<and> length xs \<le> vc_alloc v div 4")
  case True
  have "vc_len v = length xs" using assms(1) by (auto elim: vec_repE)
  moreover have "0 < length xs" using True by simp
  then have "length xs \<le> vc_alloc v div 2" "0 < vc_alloc v div 2" using True by linarith+
  ultimately show ?thesis using reallocate_ok [OF assms(1) _ _ assms(2), of "vc_alloc v div 2"] True by (auto simp: give_back_def)
next
  case False
  moreover have "vc_len v = length xs" using assms(1) by (auto elim: vec_repE)
  ultimately show ?thesis using assms by (auto simp: give_back_def)
qed

lemma open_gap_ok:
  assumes "vec_rep v xs" "i \<le> length xs" "length xs < vc_alloc v"
  shows "\<exists>v'. open_gap i x v = Inr v' \<and> vec_rep v' (take i xs @ x # drop i xs) \<and> vc_alloc v' = vc_alloc v
    \<and> vc_block v' = vc_block v \<and> vc_self v' = vc_self v"
proof -
  obtain rest where v: "vc_mem v = map Some xs @ rest" "vc_len v = length xs" "vc_end v = length xs"
    "vc_alloc v = length xs + length rest" "vc_block v \<noteq> 0" by (rule vec_repE [OF assms(1)])
  obtain c Q where rest: "rest = c # Q" using assms(3) v(4) by (cases rest) auto
  let ?P = "map Some (take i xs)" and ?ys = "drop i xs"
  have "map Some xs = ?P @ map Some ?ys" by (simp flip: map_append)
  then have m: "vc_mem v = ?P @ map Some ?ys @ c # Q" using v(1) by (simp add: rest)
  have l: "length ?P = i" "length ?P + length ?ys = length xs" using assms(2) by simp_all
  have s: "shift_up (length xs) (length xs - i) (vc_mem v) = Inr (?P @ (if ?ys = [] then c else None) # map Some ?ys @ Q)"
    using shift_up_run [of ?P ?ys c Q] unfolding l(2) unfolding m length_drop .
  have k: "construct i x (?P @ (if ?ys = [] then c else None) # map Some ?ys @ Q) = Inr (?P @ Some x # map Some ?ys @ Q)"
    using construct_at [of ?P x _ "map Some ?ys @ Q"] unfolding l by blast
  have "open_gap i x v = Inr (v\<lparr>vc_mem := ?P @ Some x # map Some ?ys @ Q, vc_end := length xs + 1, vc_len := length xs + 1\<rparr>)"
    unfolding open_gap_def v(2,3) s using k by simp
  then show ?thesis using v assms(2) by (auto simp: vec_rep_def rest)
qed

lemma close_gap_ok:
  assumes "vec_rep v xs" "i < length xs"
  shows "\<exists>v'. close_gap i v = Inr v' \<and> vec_rep v' (take i xs @ drop (Suc i) xs) \<and> vc_alloc v' = vc_alloc v
    \<and> vc_block v' = vc_block v \<and> vc_self v' = vc_self v"
proof -
  obtain rest where v: "vc_mem v = map Some xs @ rest" "vc_len v = length xs" "vc_end v = length xs"
    "vc_alloc v = length xs + length rest" "vc_block v \<noteq> 0" by (rule vec_repE [OF assms(1)])
  let ?P = "map Some (take i xs)" and ?ys = "drop (Suc i) xs"
  have xs: "xs = take i xs @ xs ! i # ?ys" using assms(2) by (rule id_take_nth_drop)
  have m: "vc_mem v = ?P @ Some (xs ! i) # map Some ?ys @ rest" using v(1) arg_cong [OF xs, of "map Some"] by simp
  have l: "length ?P = i" "length ?ys = length xs - 1 - i" using assms(2) by simp_all
  have s: "shift_down i (length xs - 1 - i) (vc_mem v)
      = Inr (?P @ map Some ?ys @ (if ?ys = [] then Some (xs ! i) else None) # rest)"
    using shift_down_run [of ?P ?ys "Some (xs ! i)" rest] unfolding m l .
  then show ?thesis using v assms(2) by (auto simp: vec_rep_def close_gap_def)
qed

lemma vec_new_ok: "b \<noteq> 0 \<Longrightarrow> vec_rep (vec_new self b) []"
  by (simp add: vec_rep_def vec_new_def)

lemma vec_at_ok: "vec_rep v xs \<Longrightarrow> vec_at i v = (if i < length xs then Inr (xs ! i) else Inl Index_out_of_bound)"
  by (auto simp: vec_at_def read_live elim: vec_repE)

lemma vec_front_ok: "vec_rep v xs \<Longrightarrow> vec_front v = (if xs = [] then Inl Container_is_empty else Inr (hd xs))"
  by (auto simp: vec_front_def read_live hd_conv_nth elim: vec_repE)

lemma vec_back_ok: "vec_rep v xs \<Longrightarrow> vec_back v = (if xs = [] then Inl Container_is_empty else Inr (last xs))"
  by (auto simp: vec_back_def read_live last_conv_nth elim!: vec_repE)

lemma vec_set_ok:
  assumes "vec_rep v xs" "i < length xs"
  shows "\<exists>v'. vec_set i x v = Inr v' \<and> vec_rep v' (xs[i := x]) \<and> vc_alloc v' = vc_alloc v \<and> vc_self v' = vc_self v"
proof -
  obtain rest where v: "vc_mem v = map Some xs @ rest" "vc_len v = length xs" by (rule vec_repE [OF assms(1)])
  have "(map Some xs @ rest)[i := Some x] = map Some (xs[i := x]) @ rest"
    using assms(2) by (simp add: list_update_append map_update)
  then show ?thesis using assms v by (auto simp: vec_set_def read_live vec_rep_def)
qed

lemma vec_push_ok:
  assumes "vec_rep v xs" "b \<noteq> 0"
  shows "\<exists>v'. vec_push b x v = Inr v' \<and> vec_rep v' (xs @ [x]) \<and> vc_alloc v' \<le> max (vc_alloc v) (2 * length (xs @ [x]))
    \<and> vc_self v' = vc_self v"
proof -
  obtain v1 where 1: "make_room b v = Inr v1" "vec_rep v1 xs" "length xs < vc_alloc v1" "vc_self v1 = vc_self v"
    "vc_alloc v1 = (if length xs = vc_alloc v then 2 * length xs else vc_alloc v)"
    using make_room_ok [OF assms] by blast
  obtain rest where v: "vc_mem v1 = map Some xs @ rest" "vc_len v1 = length xs" "vc_end v1 = length xs"
    "vc_alloc v1 = length xs + length rest" "vc_block v1 \<noteq> 0" by (rule vec_repE [OF 1(2)])
  obtain c Q where rest: "rest = c # Q" using 1(3) v(4) by (cases rest) auto
  have "construct (length xs) x (map Some xs @ c # Q) = Inr (map Some (xs @ [x]) @ Q)"
    using construct_at [of "map Some xs" x c Q] by simp
  then have "vec_push b x v = Inr (v1\<lparr>vc_mem := map Some (xs @ [x]) @ Q, vc_end := length xs + 1, vc_len := length xs + 1\<rparr>)"
    using 1(1) v by (simp add: vec_push_def rest)
  moreover have "vc_alloc v1 \<le> max (vc_alloc v) (2 * length (xs @ [x]))" using 1(5) by simp
  ultimately show ?thesis using v 1(4) by (auto simp: vec_rep_def rest)
qed

lemma vec_pop_ok:
  assumes "vec_rep v xs" "xs \<noteq> []"
  shows "\<exists>v'. vec_pop v = Inr v' \<and> vec_rep v' (butlast xs) \<and> vc_alloc v' = vc_alloc v \<and> vc_self v' = vc_self v"
proof -
  obtain ys y where xs: "xs = ys @ [y]" using assms(2) by (cases xs rule: rev_cases) auto
  obtain rest where v: "vc_mem v = map Some ys @ Some y # rest" "vc_len v = length xs" "vc_end v = length xs"
    "vc_alloc v = length xs + length rest" "vc_block v \<noteq> 0" using vec_repE [OF assms(1)] xs by auto
  have "destroy (length ys) (map Some ys @ Some y # rest) = Inr (map Some ys @ None # rest)"
    using destroy_at [of "map Some ys" y rest] by simp
  then have "vec_pop v = Inr (v\<lparr>vc_mem := map Some ys @ None # rest, vc_end := length ys, vc_len := length ys\<rparr>)"
    using v by (simp add: vec_pop_def xs)
  then show ?thesis using v by (auto simp: vec_rep_def xs)
qed

text \<open>Insertion at an iterator: the iterator that comes back refers to the new element.\<close>

lemma vec_insert_ok:
  assumes "vec_rep v xs" "b \<noteq> 0"
  shows "if i \<le> length xs
    then \<exists>it v'. vec_insert b (vi_add (int i) (vec_begin v)) x v = Inr (it, v') \<and> vec_rep v' (take i xs @ x # drop i xs)
      \<and> vi_deref it v' = Inr x \<and> vc_alloc v' \<le> max (vc_alloc v) (2 * length (x # xs)) \<and> vc_self v' = vc_self v
    else vec_insert b (vi_add (int i) (vec_begin v)) x v = Inl Invalid_iterator"
proof (cases "i \<le> length xs")
  case True
  obtain v1 where 1: "make_room b v = Inr v1" "vec_rep v1 xs" "length xs < vc_alloc v1" "vc_self v1 = vc_self v"
    "vc_alloc v1 = (if length xs = vc_alloc v then 2 * length xs else vc_alloc v)"
    using make_room_ok [OF assms] by blast
  obtain v2 where 2: "open_gap i x v1 = Inr v2" "vec_rep v2 (take i xs @ x # drop i xs)" "vc_alloc v2 = vc_alloc v1"
    "vc_block v2 = vc_block v1" "vc_self v2 = vc_self v1" using open_gap_ok [OF 1(2) True 1(3)] by blast
  let ?pos = "vi_add (int i) (vec_begin v)"
  have "vc_end v = length xs" using assms(1) by (auto elim: vec_repE)
  then have run: "vec_insert b ?pos x v = Inr (?pos\<lparr>vi_block := vc_block v1\<rparr>, v2)"
    using 1(1) 2(1) True by (simp add: vec_insert_def vi_add_def vec_begin_def)
  obtain rest where m: "vc_mem v2 = map Some (take i xs @ x # drop i xs) @ rest" by (rule vec_repE [OF 2(2)])
  have "read_cell i (vc_mem v2) = Inr x" unfolding m using read_live [of i "take i xs @ x # drop i xs" rest] True
    by (simp add: nth_append)
  then have "vi_deref (?pos\<lparr>vi_block := vc_block v1\<rparr>) v2 = Inr x"
    by (simp add: vi_deref_def vi_add_def vec_begin_def 2(4))
  then show ?thesis using True run 2(2,3,5) 1(4,5) by auto
next
  case False
  moreover have "vc_end v = length xs" using assms(1) by (auto elim: vec_repE)
  ultimately show ?thesis by (simp add: vec_insert_def vi_add_def vec_begin_def)
qed

lemma vec_insert_at_ok:
  assumes "vec_rep v xs" "b \<noteq> 0"
  shows "if i \<le> length xs
    then \<exists>it v'. vec_insert_at b i x v = Inr (it, v') \<and> vec_rep v' (take i xs @ x # drop i xs)
      \<and> vi_deref it v' = Inr x \<and> vc_alloc v' \<le> max (vc_alloc v) (2 * length (x # xs)) \<and> vc_self v' = vc_self v
    else vec_insert_at b i x v = Inl Index_out_of_bound"
proof (cases "i \<le> length xs")
  case True
  obtain v1 where 1: "make_room b v = Inr v1" "vec_rep v1 xs" "length xs < vc_alloc v1" "vc_self v1 = vc_self v"
    "vc_alloc v1 = (if length xs = vc_alloc v then 2 * length xs else vc_alloc v)"
    using make_room_ok [OF assms] by blast
  obtain v2 where 2: "open_gap i x v1 = Inr v2" "vec_rep v2 (take i xs @ x # drop i xs)" "vc_alloc v2 = vc_alloc v1"
    "vc_self v2 = vc_self v1" using open_gap_ok [OF 1(2) True 1(3)] by blast
  have "vc_len v = length xs" using assms(1) by (auto elim: vec_repE)
  then have run: "vec_insert_at b i x v = Inr (vi_add (int i) (vec_begin v2), v2)"
    using 1(1) 2(1) True by (simp add: vec_insert_at_def)
  obtain rest where m: "vc_mem v2 = map Some (take i xs @ x # drop i xs) @ rest" by (rule vec_repE [OF 2(2)])
  have "read_cell i (vc_mem v2) = Inr x" unfolding m using read_live [of i "take i xs @ x # drop i xs" rest] True
    by (simp add: nth_append)
  then have "vi_deref (vi_add (int i) (vec_begin v2)) v2 = Inr x" by (simp add: vi_deref_def vi_add_def vec_begin_def)
  then show ?thesis using True run 2(2,3,4) 1(4,5) by auto
next
  case False
  moreover have "vc_len v = length xs" using assms(1) by (auto elim: vec_repE)
  ultimately show ?thesis by (simp add: vec_insert_at_def)
qed

lemma vec_erase_ok:
  assumes "vec_rep v xs" "b \<noteq> 0"
  shows "if i < length xs
    then \<exists>it v'. vec_erase b (vi_add (int i) (vec_begin v)) v = Inr (it, v') \<and> vec_rep v' (take i xs @ drop (Suc i) xs)
      \<and> vi_pos it = int i \<and> vc_alloc v' \<le> vc_alloc v \<and> vc_self v' = vc_self v
    else vec_erase b (vi_add (int i) (vec_begin v)) v = Inl Invalid_iterator"
    "if i < length xs
    then \<exists>it v'. vec_erase_at b i v = Inr (it, v') \<and> vec_rep v' (take i xs @ drop (Suc i) xs)
      \<and> vi_pos it = int i \<and> vi_block it = vc_block v' \<and> vc_alloc v' \<le> vc_alloc v \<and> vc_self v' = vc_self v
    else vec_erase_at b i v = Inl Index_out_of_bound"
proof -
  have e: "vc_end v = length xs" "vc_len v = length xs" using assms(1) by (auto elim: vec_repE)
  have ok: "\<exists>v1 v2. close_gap i v = Inr v1 \<and> give_back b v1 = Inr v2 \<and> vec_rep v2 (take i xs @ drop (Suc i) xs)
      \<and> vc_alloc v2 \<le> vc_alloc v \<and> vc_self v2 = vc_self v" if i: "i < length xs"
  proof -
    obtain v1 where 1: "close_gap i v = Inr v1" "vec_rep v1 (take i xs @ drop (Suc i) xs)" "vc_alloc v1 = vc_alloc v"
      "vc_self v1 = vc_self v" using close_gap_ok [OF assms(1) i] by blast
    show "\<exists>v1 v2. close_gap i v = Inr v1 \<and> give_back b v1 = Inr v2 \<and> vec_rep v2 (take i xs @ drop (Suc i) xs)
      \<and> vc_alloc v2 \<le> vc_alloc v \<and> vc_self v2 = vc_self v" using give_back_ok [OF 1(2) assms(2)] 1 by auto
  qed
  show "if i < length xs
    then \<exists>it v'. vec_erase b (vi_add (int i) (vec_begin v)) v = Inr (it, v') \<and> vec_rep v' (take i xs @ drop (Suc i) xs)
      \<and> vi_pos it = int i \<and> vc_alloc v' \<le> vc_alloc v \<and> vc_self v' = vc_self v
    else vec_erase b (vi_add (int i) (vec_begin v)) v = Inl Invalid_iterator"
    using ok e by (auto simp: vec_erase_def vi_add_def vec_begin_def)
  show "if i < length xs
    then \<exists>it v'. vec_erase_at b i v = Inr (it, v') \<and> vec_rep v' (take i xs @ drop (Suc i) xs)
      \<and> vi_pos it = int i \<and> vi_block it = vc_block v' \<and> vc_alloc v' \<le> vc_alloc v \<and> vc_self v' = vc_self v
    else vec_erase_at b i v = Inl Index_out_of_bound"
    using ok e by (auto simp: vec_erase_at_def vi_add_def vec_begin_def)
qed

lemma vec_clear_ok:
  assumes "vec_rep v xs" "b \<noteq> 0"
  shows "release v = Inr ()" "vec_clear b v = Inr (vec_new (vc_self v) b)"
proof -
  obtain rest where "vc_mem v = map Some xs @ rest" "vc_len v = length xs" by (rule vec_repE [OF assms(1)])
  then show r: "release v = Inr ()" using destroy_cells_run [of "[]" xs rest] by (simp add: release_def)
  show "vec_clear b v = Inr (vec_new (vc_self v) b)" by (simp add: vec_clear_def r)
qed

lemma vec_resize_ok:
  assumes "vec_rep v xs" "b \<noteq> 0"
  shows "\<exists>v'. vec_resize d b len v = Inr v' \<and> vec_rep v' (take len xs @ replicate (len - length xs) d)
    \<and> vc_alloc v' \<le> max (vc_alloc v) (2 * len) \<and> vc_self v' = vc_self v"
proof -
  obtain rest where v: "vc_mem v = map Some xs @ rest" "vc_len v = length xs" "vc_end v = length xs"
    "vc_alloc v = length xs + length rest" "0 < vc_alloc v" "vc_block v \<noteq> 0" by (rule vec_repE [OF assms(1)])
  consider "len < length xs" | "len = length xs" | "length xs < len" by linarith
  then show ?thesis
  proof cases
    case 1
    have "map Some xs = map Some (take len xs) @ map Some (drop len xs)" by (simp flip: map_append)
    then have m: "vc_mem v = map Some (take len xs) @ map Some (drop len xs) @ rest" using v(1) by simp
    have "destroy_cells len (length xs - len) (vc_mem v) = Inr (map Some (take len xs) @ replicate (length xs - len) None @ rest)"
      using destroy_cells_run [of "map Some (take len xs)" "drop len xs" rest] 1 unfolding m by simp
    then show ?thesis using 1 v by (auto simp: vec_resize_def vec_rep_def)
  next
    case 2
    then show ?thesis using assms(1) v(2) by (auto simp: vec_resize_def)
  next
    case 3
    obtain v1 where 1: "(if vc_alloc v < len then reallocate b (len * 2) v else Inr v) = Inr v1" "vec_rep v1 xs" "len \<le> vc_alloc v1"
      "vc_alloc v1 \<le> max (vc_alloc v) (2 * len)" "vc_self v1 = vc_self v"
    proof (cases "vc_alloc v < len")
      case True
      then obtain v1 where "reallocate b (len * 2) v = Inr v1" "vec_rep v1 xs" "vc_alloc v1 = len * 2" "vc_self v1 = vc_self v"
        using reallocate_ok [OF assms(1), of "len * 2" b] 3 assms(2) by auto
      then show thesis using that True by auto
    next
      case False
      then show thesis using that assms(1) by auto
    qed
    obtain r where w: "vc_mem v1 = map Some xs @ r" "vc_len v1 = length xs" "vc_alloc v1 = length xs + length r" "vc_block v1 \<noteq> 0"
      by (rule vec_repE [OF 1(2)])
    have "vc_mem v1 = map Some xs @ take (len - length xs) r @ drop (len - length xs) r" using w(1) by simp
    moreover have "length (take (len - length xs) r) = len - length xs" using 1(3) w(3) 3 by simp
    note fill_any [OF this, of d "map Some xs" "drop (len - length xs) r"]
    ultimately have "fill_cells d (length xs) (len - length xs) (vc_mem v1)
        = Inr (map Some xs @ replicate (len - length xs) (Some d) @ drop (len - length xs) r)"
      by (simp del: append_take_drop_id)
    then have "vec_resize d b len v = Inr (v1\<lparr>vc_mem := map Some (xs @ replicate (len - length xs) d) @ drop (len - length xs) r,
        vc_end := len, vc_len := len\<rparr>)"
      using 3 v(2) 1(1) w(2) by (simp add: vec_resize_def)
    then show ?thesis using 3 w 1 by (auto simp: vec_rep_def)
  qed
qed

lemma vec_sized_ok: "b \<noteq> 0 \<Longrightarrow> 0 < len \<Longrightarrow> \<exists>v. vec_sized self d b len = Inr v \<and> vec_rep v (replicate len d) \<and> vc_self v = self"
  using fill_cells_run [of d "[]" len None "replicate len None"]
  by (auto simp: vec_sized_def vec_rep_def mult_2_right replicate_add)

lemma vec_copy_ok:
  assumes "vec_rep v xs" "b \<noteq> 0"
  shows "\<exists>v'. vec_copy self b v = Inr v' \<and> vec_rep v' xs \<and> vc_self v' = self \<and> vc_block v' = b \<and> vc_alloc v' = vc_alloc v"
proof -
  obtain rest where v: "vc_mem v = map Some xs @ rest" "vc_len v = length xs" "vc_alloc v = length xs + length rest"
    "0 < vc_alloc v" by (rule vec_repE [OF assms(1)])
  have "copy_cells 0 (length xs) (map Some xs @ rest) (replicate (vc_alloc v) None)
      = Inr (map Some xs @ drop (length xs) (replicate (vc_alloc v) None))"
    using copy_cells_run [of xs "replicate (vc_alloc v) None" "[]" "[]" rest] v(3) by simp
  then show ?thesis using v assms(2) by (auto simp: vec_copy_def vec_rep_def)
qed

lemma vec_assign_ok:
  assumes "vec_rep v xs" "vec_rep other ys" "b \<noteq> 0" "vc_self v = vc_self other \<longrightarrow> v = other"
  shows "\<exists>v'. vec_assign b v other = Inr v' \<and> vec_rep v' ys \<and> vc_self v' = vc_self v"
  using vec_copy_ok [OF assms(2,3), of "vc_self v"] vec_clear_ok(1) [OF assms(1,3)] assms(1,2,4)
  by (auto simp: vec_assign_def vec_rep_def)

lemma vec_move_assign_ok:
  assumes "vec_rep v xs" "vec_rep other ys" "vc_self v \<noteq> vc_self other"
  shows "\<exists>v'. vec_move_assign v other = Inr (v', moved_from other) \<and> vec_rep v' ys \<and> vc_self v' = vc_self v
    \<and> vc_len (moved_from other) = 0"
  using vec_clear_ok(1) [OF assms(1), of 1] assms by (auto simp: vec_move_assign_def vec_move_def vec_rep_def moved_from_def)

end
