(* ===== verification/Vector_Sessions.thy ===== *)
theory Vector_Sessions
  imports Vector
begin

text \<open>
  Vectors as their clients see them: any sequence of operations is answered as the same sequence on
  a list, exceptions included, and the array stays within twice the greatest length.
\<close>

section \<open>Requests\<close>

datatype 'a vec_request =
    Push_back 'a | Pop_back | At nat | Assign nat 'a | Front | Back | Size
  | Insert nat 'a | Insert_at nat 'a | Erase nat | Erase_at nat | Resize nat | Clear

datatype 'a vec_answer = Nothing | Element 'a | Number nat

fun list_serve :: "'a \<Rightarrow> 'a vec_request \<Rightarrow> 'a list \<Rightarrow> 'a vec_answer result \<times> 'a list" where
  "list_serve d (Push_back x) xs = (Inr Nothing, xs @ [x])"
| "list_serve d Pop_back xs = (if xs = [] then (Inl Container_is_empty, xs) else (Inr Nothing, butlast xs))"
| "list_serve d (At i) xs = (if i < length xs then Inr (Element (xs ! i)) else Inl Index_out_of_bound, xs)"
| "list_serve d (Assign i x) xs = (if i < length xs then (Inr Nothing, xs[i := x]) else (Inl Index_out_of_bound, xs))"
| "list_serve d Front xs = (if xs = [] then Inl Container_is_empty else Inr (Element (hd xs)), xs)"
| "list_serve d Back xs = (if xs = [] then Inl Container_is_empty else Inr (Element (last xs)), xs)"
| "list_serve d Size xs = (Inr (Number (length xs)), xs)"
| "list_serve d (Insert i x) xs = (if i \<le> length xs then (Inr (Element x), take i xs @ x # drop i xs) else (Inl Invalid_iterator, xs))"
| "list_serve d (Insert_at i x) xs = (if i \<le> length xs then (Inr (Element x), take i xs @ x # drop i xs) else (Inl Index_out_of_bound, xs))"
| "list_serve d (Erase i) xs = (if i < length xs then (Inr (Number i), take i xs @ drop (Suc i) xs) else (Inl Invalid_iterator, xs))"
| "list_serve d (Erase_at i) xs = (if i < length xs then (Inr (Number i), take i xs @ drop (Suc i) xs) else (Inl Index_out_of_bound, xs))"
| "list_serve d (Resize n) xs = (Inr Nothing, take n xs @ replicate (n - length xs) d)"
| "list_serve d Clear xs = (Inr Nothing, [])"

text \<open>
  The same on a vector; an exception leaves the vector as it was. After \<open>Insert\<close> the client reads
  through the iterator it got, after \<open>Erase\<close> it looks at its position.
\<close>

definition attempted :: "('b \<Rightarrow> 'a vec_answer result) \<Rightarrow> 'a vec \<Rightarrow> ('b \<times> 'a vec) result \<Rightarrow> 'a vec_answer result \<times> 'a vec" where
  "attempted f v r = (case r of Inl e \<Rightarrow> (Inl e, v) | Inr (x, v') \<Rightarrow> (f x, v'))"

definition changed :: "'a vec \<Rightarrow> 'a vec result \<Rightarrow> 'a vec_answer result \<times> 'a vec" where
  "changed v r = (case r of Inl e \<Rightarrow> (Inl e, v) | Inr v' \<Rightarrow> (Inr Nothing, v'))"

definition inserted :: "'a vec \<Rightarrow> (vec_it \<times> 'a vec) result \<Rightarrow> 'a vec_answer result \<times> 'a vec" where
  "inserted v r = (case r of Inl e \<Rightarrow> (Inl e, v)
     | Inr (it, v') \<Rightarrow> (rbind (vi_deref it v') (\<lambda>x. Inr (Element x)), v'))"

fun vec_serve :: "'a \<Rightarrow> nat \<Rightarrow> 'a vec_request \<Rightarrow> 'a vec \<Rightarrow> 'a vec_answer result \<times> 'a vec" where
  "vec_serve d b (Push_back x) v = changed v (vec_push b x v)"
| "vec_serve d b Pop_back v = changed v (vec_pop v)"
| "vec_serve d b (At i) v = (rbind (vec_at i v) (\<lambda>x. Inr (Element x)), v)"
| "vec_serve d b (Assign i x) v = changed v (vec_set i x v)"
| "vec_serve d b Front v = (rbind (vec_front v) (\<lambda>x. Inr (Element x)), v)"
| "vec_serve d b Back v = (rbind (vec_back v) (\<lambda>x. Inr (Element x)), v)"
| "vec_serve d b Size v = (Inr (Number (vc_len v)), v)"
| "vec_serve d b (Insert i x) v = inserted v (vec_insert b (vi_add (int i) (vec_begin v)) x v)"
| "vec_serve d b (Insert_at i x) v = inserted v (vec_insert_at b i x v)"
| "vec_serve d b (Erase i) v = attempted (\<lambda>it. Inr (Number (nat (vi_pos it)))) v (vec_erase b (vi_add (int i) (vec_begin v)) v)"
| "vec_serve d b (Erase_at i) v = attempted (\<lambda>it. Inr (Number (nat (vi_pos it)))) v (vec_erase_at b i v)"
| "vec_serve d b (Resize n) v = changed v (vec_resize d b n v)"
| "vec_serve d b Clear v = changed v (vec_clear b v)"

text \<open>A session: every request comes with the array the allocator would return.\<close>

fun vec_session :: "'a \<Rightarrow> (nat \<times> 'a vec_request) list \<Rightarrow> 'a vec \<Rightarrow> 'a vec_answer result list \<times> 'a vec" where
  "vec_session d [] v = ([], v)"
| "vec_session d ((b, r) # rs) v = (let (a, v1) = vec_serve d b r v; (as, v2) = vec_session d rs v1 in (a # as, v2))"

fun list_session :: "'a \<Rightarrow> 'a vec_request list \<Rightarrow> 'a list \<Rightarrow> 'a vec_answer result list \<times> 'a list" where
  "list_session d [] xs = ([], xs)"
| "list_session d (r # rs) xs = (let (a, ys) = list_serve d r xs; (as, zs) = list_session d rs ys in (a # as, zs))"

text \<open>The greatest length on the way.\<close>

fun peak :: "'a \<Rightarrow> 'a vec_request list \<Rightarrow> 'a list \<Rightarrow> nat" where
  "peak d [] xs = length xs"
| "peak d (r # rs) xs = max (length xs) (peak d rs (snd (list_serve d r xs)))"

lemma vec_serve_ok:
  assumes v: "vec_rep v xs" and b: "b \<noteq> 0"
  shows "\<exists>v'. vec_serve d b r v = (fst (list_serve d r xs), v') \<and> vec_rep v' (snd (list_serve d r xs))
    \<and> vc_alloc v' \<le> max (vc_alloc v) (2 * length (snd (list_serve d r xs))) \<and> vc_self v' = vc_self v"
proof (cases r)
  case (Push_back x)
  then show ?thesis using vec_push_ok [OF v b, of x] by (auto simp: changed_def)
next
  case Pop_back
  then show ?thesis using vec_pop_ok [OF v] v by (cases "xs = []") (auto simp: changed_def vec_pop_def vec_rep_def)
next
  case (At i)
  then show ?thesis using vec_at_ok [OF v, of i] v by auto
next
  case (Assign i x)
  then show ?thesis using vec_set_ok [OF v, of i x] v by (cases "i < length xs") (auto simp: changed_def vec_set_def vec_rep_def)
next
  case Front
  then show ?thesis using vec_front_ok [OF v] v by auto
next
  case Back
  then show ?thesis using vec_back_ok [OF v] v by auto
next
  case Size
  then show ?thesis using v by (auto simp: vec_rep_def)
next
  case (Insert i x)
  then show ?thesis using vec_insert_ok [OF v b, of i x] v by (cases "i \<le> length xs") (auto simp: inserted_def)
next
  case (Insert_at i x)
  then show ?thesis using vec_insert_at_ok [OF v b, of i x] v by (cases "i \<le> length xs") (auto simp: inserted_def)
next
  case (Erase i)
  then show ?thesis using vec_erase_ok(1) [OF v b, of i] v by (cases "i < length xs") (auto simp: attempted_def)
next
  case (Erase_at i)
  then show ?thesis using vec_erase_ok(2) [OF v b, of i] v by (cases "i < length xs") (auto simp: attempted_def)
next
  case (Resize n)
  have "length (take n xs @ replicate (n - length xs) d) = n" by simp
  then show ?thesis using vec_resize_ok [OF v b, of d n] by (auto simp: changed_def Resize)
next
  case Clear
  have "1 \<le> vc_alloc v" using v by (auto simp: vec_rep_def)
  then show ?thesis using vec_clear_ok(2) [OF v b] vec_new_ok [OF b, of "vc_self v"] by (simp add: changed_def Clear vec_new_def)
qed

lemma vec_session_ok:
  assumes "vec_rep v xs" "\<forall>b\<in>set (map fst rs). b \<noteq> 0"
  shows "\<exists>v'. vec_session d rs v = (fst (list_session d (map snd rs) xs), v') \<and> vec_rep v' (snd (list_session d (map snd rs) xs))
    \<and> vc_alloc v' \<le> max (vc_alloc v) (2 * peak d (map snd rs) xs)"
  using assms
proof (induction rs arbitrary: v xs)
  case (Cons br rs)
  obtain b r where br: "br = (b, r)" by (cases br)
  obtain v1 where 1: "vec_serve d b r v = (fst (list_serve d r xs), v1)" "vec_rep v1 (snd (list_serve d r xs))"
    "vc_alloc v1 \<le> max (vc_alloc v) (2 * length (snd (list_serve d r xs)))"
    using vec_serve_ok [OF Cons.prems(1), of b d r] Cons.prems(2) br by auto
  obtain v2 where 2: "vec_session d rs v1 = (fst (list_session d (map snd rs) (snd (list_serve d r xs))), v2)"
    "vec_rep v2 (snd (list_session d (map snd rs) (snd (list_serve d r xs))))"
    "vc_alloc v2 \<le> max (vc_alloc v1) (2 * peak d (map snd rs) (snd (list_serve d r xs)))"
    using Cons.IH [OF 1(2)] Cons.prems(2) by auto
  have "length ys \<le> peak d qs ys" for qs and ys :: "'a list" by (cases qs) auto
  then have "vc_alloc v2 \<le> max (vc_alloc v) (2 * peak d (r # map snd rs) xs)"
    using 1(3) 2(3) by (auto simp: max_def split: if_splits) (metis (no_types, opaque_lifting) dual_order.trans mult_le_mono2 nat_le_linear)+
  then show ?case using 1(1) 2(1,2) by (simp add: br case_prod_beta Let_def)
qed simp


definition vec_requests :: "(nat \<times> nat vec_request) list" where
  "vec_requests = [(2, Push_back 5), (3, Push_back 6), (4, Insert 1 9), (5, Erase 0), (6, Erase 7), (7, At 0), (8, Size)]"

lemma vec_requests_facts:
  "\<forall>c\<in>set (map fst vec_requests). c \<noteq> 0" "peak 0 (map snd vec_requests) [] = 3"
  "list_session 0 (map snd vec_requests) []
     = ([Inr Nothing, Inr Nothing, Inr (Element 9), Inr (Number 0), Inl Invalid_iterator, Inr (Element 9), Inr (Number 2)], [9, 6])"
  by (simp_all add: vec_requests_def)


text \<open>
  C23: the array of a vector never has more than twice as many cells as the vector had elements at
  its longest.
\<close>
theorem array_within_twice_the_peak:
  fixes d :: 'a
  assumes "b \<noteq> 0" "\<forall>c\<in>set (map fst rs). c \<noteq> 0"
  shows "vc_alloc (snd (vec_session d rs (vec_new self b))) \<le> max 1 (2 * peak d (map snd rs) [])"
proof -
  have "vc_alloc (vec_new self b :: 'a vec) = 1" by (simp add: vec_new_def)
  then show ?thesis using vec_session_ok [OF vec_new_ok [OF assms(1), of self] assms(2), of d] by (metis snd_conv)
qed

lemma array_within_twice_the_peak_witness: "vc_alloc (snd (vec_session 0 vec_requests (vec_new 1 1))) \<le> 6"
  using array_within_twice_the_peak [OF _ vec_requests_facts(1), of 1 0 1] by (simp add: vec_requests_facts(2))

section \<open>The contract\<close>

definition vec_elems :: "'a vec \<Rightarrow> 'a list" where
  "vec_elems v = map the (take (vc_len v) (vc_mem v))"

lemma vec_elems_rep: "vec_rep v xs \<Longrightarrow> vec_elems v = xs"
  by (auto simp: vec_rep_def vec_elems_def o_def)

interpretation vec: sequence vec_elems "\<lambda>v. vec_rep v (vec_elems v)" "vec_push (Suc b)" vec_pop vec_front vec_back vc_len Container_is_empty
  for b
proof (unfold_locales, goal_cases)
  case (1 v x)
  then obtain v' where "vec_push (Suc b) x v = Inr v'" "vec_rep v' (vec_elems v @ [x])"
    using vec_push_ok [of v "vec_elems v" "Suc b" x] by auto
  then show ?case using vec_elems_rep [of v'] by simp
next
  case (2 v)
  then obtain v' where "vec_pop v = Inr v'" "vec_rep v' (butlast (vec_elems v))"
    using vec_pop_ok [of v "vec_elems v"] by auto
  then show ?case using vec_elems_rep [of v'] by simp
next
  case (3 v)
  then show ?case by (simp add: vec_pop_def vec_rep_def)
next
  case (4 v)
  then show ?case by (rule vec_front_ok)
next
  case (5 v)
  then show ?case by (rule vec_back_ok)
next
  case (6 v)
  then show ?case by (simp add: vec_rep_def)
qed

text \<open>What was pushed is taken away again by as many pops.\<close>

lemma vec_push_then_pop:
  assumes "vec_rep v (vec_elems v)"
  shows "\<exists>v'. rbind (push_all (vec_push (Suc b)) xs v) (pop_times vec_pop (length xs)) = Inr v' \<and> vec_elems v' = vec_elems v"
  using vec.push_then_pop [OF assms] by blast

section \<open>What goes wrong\<close>

text \<open>
  \<^verbatim>\<open>vector(0)\<close> has an array of no cells, and twice nothing is nothing: the first \<^verbatim>\<open>push_back\<close>
  constructs outside the array. The same happens to a vector that was moved from.
\<close>

lemma empty_sized_vector_cannot_grow:
  "rbind (vec_sized self d b 0) (vec_push c x) = Inl Undefined"
  "vec_push c x (moved_from v) = Inl Undefined"
  by (simp_all add: vec_sized_def vec_push_def make_room_def reallocate_def construct_def moved_from_def)

text \<open>An erase that gives memory back returns an iterator into the old array.\<close>

lemma erase_dangles:
  assumes "vec_rep v xs" "c \<noteq> 0" "c \<noteq> vc_block v" "i < length xs" "1 < length xs" "length xs - 1 \<le> vc_alloc v div 4"
  shows "\<exists>it v'. vec_erase c (vi_add (int i) (vec_begin v)) v = Inr (it, v') \<and> vi_deref it v' = Inl Undefined"
proof -
  obtain v1 where 1: "close_gap i v = Inr v1" "vec_rep v1 (take i xs @ drop (Suc i) xs)" "vc_alloc v1 = vc_alloc v"
    "vc_block v1 = vc_block v" using close_gap_ok [OF assms(1,4)] by blast
  have "length (take i xs @ drop (Suc i) xs) = length xs - 1" using assms(4) by simp
  moreover have "take i xs @ drop (Suc i) xs \<noteq> []" using calculation assms(5) by (metis length_greater_0_conv zero_less_diff)
  ultimately obtain v2 where "give_back c v1 = Inr v2" "vc_block v2 = c" using give_back_ok [OF 1(2) assms(2)] 1(3) assms(6) by auto
  moreover have "vc_end v = length xs" using assms(1) by (auto simp: vec_rep_def)
  ultimately show ?thesis using 1(1) assms(3,4) by (auto simp: vec_erase_def vi_add_def vec_begin_def vi_deref_def)
qed

end
