(* ===== verification/Linked_List.thy ===== *)
theory Linked_List
  imports Sequence
begin

text \<open>
  \<^verbatim>\<open>stlite/list.hpp\<close>: doubly linked nodes in a store from addresses to nodes, 0 being the null
  pointer. What \<^verbatim>\<open>new\<close> returns is an argument \<open>b\<close> of the operations that call it.
\<close>

section \<open>Nodes\<close>

record 'a lnode =
  ln_val :: 'a
  ln_prev :: nat
  ln_next :: nat

type_synonym 'a nodes = "nat \<rightharpoonup> 'a lnode"

definition node_at :: "nat \<Rightarrow> 'a nodes \<Rightarrow> 'a lnode result" where
  "node_at p h = of_option Undefined (h p)"

definition set_next :: "nat \<Rightarrow> nat \<Rightarrow> 'a nodes \<Rightarrow> 'a nodes result" where
  "set_next p q h = rbind (node_at p h) (\<lambda>n. Inr (h(p \<mapsto> n\<lparr>ln_next := q\<rparr>)))"

definition set_prev :: "nat \<Rightarrow> nat \<Rightarrow> 'a nodes \<Rightarrow> 'a nodes result" where
  "set_prev p q h = rbind (node_at p h) (\<lambda>n. Inr (h(p \<mapsto> n\<lparr>ln_prev := q\<rparr>)))"

text \<open>The protected \<^verbatim>\<open>insert(node *, node *)\<close> and \<^verbatim>\<open>erase(node *)\<close>.\<close>

definition link_before :: "nat \<Rightarrow> nat \<Rightarrow> 'a nodes \<Rightarrow> 'a nodes result" where
  "link_before pos cur h = rbind (node_at pos h) (\<lambda>n.
     rbind (if ln_prev n \<noteq> 0 then set_next (ln_prev n) cur h else Inr h) (\<lambda>h1.
     rbind (set_prev cur (ln_prev n) h1) (\<lambda>h2. rbind (set_next cur pos h2) (set_prev pos cur))))"

definition unlink :: "nat \<Rightarrow> 'a nodes \<Rightarrow> 'a nodes result" where
  "unlink pos h = rbind (node_at pos h) (\<lambda>n.
     rbind (if ln_prev n \<noteq> 0 then set_next (ln_prev n) (ln_next n) h else Inr h) (\<lambda>h1.
     if ln_next n \<noteq> 0 then set_prev (ln_next n) (ln_prev n) h1 else Inr h1))"

section \<open>The list\<close>

record 'a lst =
  ls_nodes :: "'a nodes"
  ls_head :: nat
  ls_tail :: nat
  ls_count :: nat

record list_it =
  li_end :: bool
  li_cur :: nat

definition li_next :: "'a lst \<Rightarrow> list_it \<Rightarrow> list_it result" where
  "li_next L it = (if li_cur it = 0 then Inr it else rbind (node_at (li_cur it) (ls_nodes L)) (\<lambda>n.
     Inr (if ln_next n \<noteq> 0 then it\<lparr>li_cur := ln_next n\<rparr> else it\<lparr>li_end := True\<rparr>)))"

definition li_prev :: "'a lst \<Rightarrow> list_it \<Rightarrow> list_it result" where
  "li_prev L it = (if li_end it then Inr (it\<lparr>li_end := False\<rparr>)
     else if li_cur it \<noteq> 0 then rbind (node_at (li_cur it) (ls_nodes L)) (\<lambda>n. Inr (it\<lparr>li_cur := ln_prev n\<rparr>))
     else Inr it)"

definition li_deref :: "'a lst \<Rightarrow> list_it \<Rightarrow> 'a result" where
  "li_deref L it = (if li_cur it = 0 \<or> li_end it then Inl Std_exception
     else rbind (node_at (li_cur it) (ls_nodes L)) (\<lambda>n. Inr (ln_val n)))"

definition lst_new :: "'a lst" where
  "lst_new = \<lparr>ls_nodes = Map.empty, ls_head = 0, ls_tail = 0, ls_count = 0\<rparr>"

definition lst_begin :: "'a lst \<Rightarrow> list_it" where
  "lst_begin L = \<lparr>li_end = (ls_head L = 0), li_cur = ls_head L\<rparr>"

definition lst_end :: "'a lst \<Rightarrow> list_it" where
  "lst_end L = \<lparr>li_end = True, li_cur = ls_tail L\<rparr>"

definition lst_front :: "'a lst \<Rightarrow> 'a result" where
  "lst_front L = (if ls_count L = 0 then Inl Std_exception else rbind (node_at (ls_head L) (ls_nodes L)) (\<lambda>n. Inr (ln_val n)))"

definition lst_back :: "'a lst \<Rightarrow> 'a result" where
  "lst_back L = (if ls_count L = 0 then Inl Std_exception else rbind (node_at (ls_tail L) (ls_nodes L)) (\<lambda>n. Inr (ln_val n)))"

text \<open>\<^verbatim>\<open>clear\<close> follows the links; the loop gets one step per element.\<close>

fun delete_nodes :: "nat \<Rightarrow> nat \<Rightarrow> 'a nodes \<Rightarrow> 'a nodes result" where
  "delete_nodes k p h = (if p = 0 then Inr h else case k of 0 \<Rightarrow> Inl Undefined
     | Suc k' \<Rightarrow> rbind (node_at p h) (\<lambda>n. delete_nodes k' (ln_next n) (h(p := None))))"

declare delete_nodes.simps [simp del]

definition lst_clear :: "'a lst \<Rightarrow> 'a lst result" where
  "lst_clear L = rbind (delete_nodes (ls_count L) (ls_head L) (ls_nodes L)) (\<lambda>h. Inr (lst_new\<lparr>ls_nodes := h\<rparr>))"

text \<open>
  \<^verbatim>\<open>copy\<close> makes its nodes at the addresses \<open>bs\<close>; \<open>L\<close> is the list that is built, \<open>p\<close> the node of
  the other list that comes next.
\<close>

fun copy_nodes :: "nat list \<Rightarrow> nat \<Rightarrow> 'a nodes \<Rightarrow> 'a lst \<Rightarrow> 'a lst result" where
  "copy_nodes bs p h L = (if p = 0 then Inr L else case bs of [] \<Rightarrow> Inl Undefined
     | b # bs' \<Rightarrow> rbind (node_at p h) (\<lambda>n.
         rbind (set_next (ls_tail L) b ((ls_nodes L)(b \<mapsto> \<lparr>ln_val = ln_val n, ln_prev = ls_tail L, ln_next = 0\<rparr>))) (\<lambda>h'.
         copy_nodes bs' (ln_next n) h (L\<lparr>ls_nodes := h', ls_tail := b\<rparr>))))"

declare copy_nodes.simps [simp del]

definition lst_copy :: "nat list \<Rightarrow> 'a lst \<Rightarrow> 'a lst result" where
  "lst_copy bs other = (if ls_count other = 0 then Inr lst_new else case bs of [] \<Rightarrow> Inl Undefined
     | b # bs' \<Rightarrow> rbind (node_at (ls_head other) (ls_nodes other)) (\<lambda>n.
         rbind (copy_nodes bs' (ln_next n) (ls_nodes other)
           \<lparr>ls_nodes = [b \<mapsto> \<lparr>ln_val = ln_val n, ln_prev = 0, ln_next = 0\<rparr>], ls_head = b, ls_tail = b, ls_count = 0\<rparr>) (\<lambda>L.
         Inr (L\<lparr>ls_count := ls_count other\<rparr>))))"

definition lst_assign :: "nat list \<Rightarrow> 'a lst \<Rightarrow> 'a lst \<Rightarrow> 'a lst result" where
  "lst_assign bs L other = rbind (lst_clear L) (\<lambda>_. lst_copy bs other)"

definition lst_insert :: "nat \<Rightarrow> list_it \<Rightarrow> 'a \<Rightarrow> 'a lst \<Rightarrow> (list_it \<times> 'a lst) result" where
  "lst_insert b pos x L =
     (if \<not> li_end pos then
        rbind (link_before (li_cur pos) b ((ls_nodes L)(b \<mapsto> \<lparr>ln_val = x, ln_prev = 0, ln_next = 0\<rparr>))) (\<lambda>h.
        Inr (\<lparr>li_end = False, li_cur = b\<rparr>,
          L\<lparr>ls_nodes := h, ls_head := (if li_cur pos = ls_head L then b else ls_head L), ls_count := ls_count L + 1\<rparr>))
      else if ls_count L = 0 then
        Inr (\<lparr>li_end = False, li_cur = b\<rparr>,
          L\<lparr>ls_nodes := (ls_nodes L)(b \<mapsto> \<lparr>ln_val = x, ln_prev = 0, ln_next = 0\<rparr>), ls_head := b, ls_tail := b,
            ls_count := ls_count L + 1\<rparr>)
      else
        rbind (set_next (ls_tail L) b ((ls_nodes L)(b \<mapsto> \<lparr>ln_val = x, ln_prev = ls_tail L, ln_next = 0\<rparr>))) (\<lambda>h.
        Inr (\<lparr>li_end = False, li_cur = b\<rparr>, L\<lparr>ls_nodes := h, ls_tail := b, ls_count := ls_count L + 1\<rparr>)))"

definition lst_erase :: "list_it \<Rightarrow> 'a lst \<Rightarrow> (list_it \<times> 'a lst) result" where
  "lst_erase pos L =
     (if ls_count L = 0 \<or> li_end pos then Inl Std_exception
      else rbind (li_next L pos) (\<lambda>res.
        rbind (if li_cur pos = ls_head L then rbind (node_at (ls_head L) (ls_nodes L)) (\<lambda>n. Inr (ln_next n)) else Inr (ls_head L)) (\<lambda>hd'.
        rbind (if li_cur pos = ls_tail L then rbind (node_at (ls_tail L) (ls_nodes L)) (\<lambda>n. Inr (ln_prev n)) else Inr (ls_tail L)) (\<lambda>tl'.
        rbind (unlink (li_cur pos) (ls_nodes L)) (\<lambda>h.
          Inr (res, \<lparr>ls_nodes = h(li_cur pos := None), ls_head = hd', ls_tail = tl', ls_count = ls_count L - 1\<rparr>))))))"

definition lst_push_back :: "nat \<Rightarrow> 'a \<Rightarrow> 'a lst \<Rightarrow> 'a lst result" where
  "lst_push_back b x L = rbind (lst_insert b (lst_end L) x L) (\<lambda>(_, L'). Inr L')"

definition lst_pop_back :: "'a lst \<Rightarrow> 'a lst result" where
  "lst_pop_back L = (if ls_count L = 0 then Inl Std_exception
     else rbind (lst_erase \<lparr>li_end = False, li_cur = ls_tail L\<rparr> L) (\<lambda>(_, L'). Inr L'))"

definition lst_push_front :: "nat \<Rightarrow> 'a \<Rightarrow> 'a lst \<Rightarrow> 'a lst result" where
  "lst_push_front b x L = rbind (lst_insert b (lst_begin L) x L) (\<lambda>(_, L'). Inr L')"

definition lst_pop_front :: "'a lst \<Rightarrow> 'a lst result" where
  "lst_pop_front L = (if ls_count L = 0 then Inl Std_exception
     else rbind (lst_erase \<lparr>li_end = False, li_cur = ls_head L\<rparr> L) (\<lambda>(_, L'). Inr L'))"

section \<open>Segments\<close>

text \<open>\<open>seg h p ps xs q\<close>: the nodes \<open>ps\<close> hold \<open>xs\<close> and are linked in both ways, \<open>p\<close> before and \<open>q\<close> behind.\<close>

fun seg :: "'a nodes \<Rightarrow> nat \<Rightarrow> nat list \<Rightarrow> 'a list \<Rightarrow> nat \<Rightarrow> bool" where
  "seg h p [] [] q = True"
| "seg h p (a # as) (x # xs) q = (h a = Some \<lparr>ln_val = x, ln_prev = p, ln_next = hd (as @ [q])\<rparr> \<and> seg h a as xs q)"
| "seg h p as xs q = False"

lemma seg_length: "seg h p ps xs q \<Longrightarrow> length ps = length xs"
  by (induction h p ps xs q rule: seg.induct) auto

lemma seg_append:
  "length as = length xs \<Longrightarrow>
    seg h p (as @ bs) (xs @ ys) q \<longleftrightarrow> seg h p as xs (hd (bs @ [q])) \<and> seg h (last (p # as)) bs ys q"
proof (induction as xs arbitrary: p rule: list_induct2)
  case (Cons a as x xs)
  have "hd ((as @ bs) @ [q]) = hd (as @ [hd (bs @ [q])])" by (cases as) simp_all
  then show ?case using Cons.IH [of a] by auto
qed simp

lemma seg_dom: "seg h p ps xs q \<Longrightarrow> set ps \<subseteq> dom h"
  by (induction h p ps xs q rule: seg.induct) auto

lemma seg_cong: "seg h p ps xs q \<Longrightarrow> \<forall>a\<in>set ps. h' a = h a \<Longrightarrow> seg h' p ps xs q"
  by (induction h p ps xs q rule: seg.induct) auto

lemma seg_snoc:
  "seg h p (as @ [a]) (xs @ [x]) q \<longleftrightarrow> seg h p as xs a \<and> h a = Some \<lparr>ln_val = x, ln_prev = last (p # as), ln_next = q\<rparr>"
  if "length as = length xs"
  using seg_append [OF that, of h p "[a]" "[x]" q] by simp

text \<open>Changing what stands before or behind a segment.\<close>

lemma seg_new_next:
  assumes "seg h p ps xs q" "ps \<noteq> []" "distinct ps" "h (last ps) = Some n"
  shows "seg (h(last ps \<mapsto> n\<lparr>ln_next := q'\<rparr>)) p ps xs q'"
proof -
  obtain as a where ps: "ps = as @ [a]" using assms(2) by (cases ps rule: rev_cases) auto
  obtain ys y where xs: "xs = ys @ [y]" using seg_length [OF assms(1)] ps by (cases xs rule: rev_cases) auto
  have l: "length as = length ys" using seg_length [OF assms(1)] by (simp add: ps xs)
  have s: "seg h p as ys a" "n = \<lparr>ln_val = y, ln_prev = last (p # as), ln_next = q\<rparr>"
    using assms(1,4) seg_snoc [OF l, of h p a y q] by (simp_all add: ps xs)
  have "seg (h(a \<mapsto> n\<lparr>ln_next := q'\<rparr>)) p as ys a"
    by (rule seg_cong [OF s(1)]) (use assms(3) in \<open>auto simp: ps\<close>)
  then show ?thesis using seg_snoc [OF l] s(2) by (simp add: ps xs)
qed

lemma seg_new_prev:
  assumes "seg h p ps xs q" "ps \<noteq> []" "distinct ps" "h (hd ps) = Some n"
  shows "seg (h(hd ps \<mapsto> n\<lparr>ln_prev := p'\<rparr>)) p' ps xs q"
proof -
  obtain a as where ps: "ps = a # as" using assms(2) by (cases ps) auto
  obtain y ys where xs: "xs = y # ys" using assms(1) by (cases xs) (auto simp: ps)
  have "seg (h(a \<mapsto> n\<lparr>ln_prev := p'\<rparr>)) a as ys q"
    by (rule seg_cong [of h]) (use assms(1,3) in \<open>auto simp: ps xs\<close>)
  then show ?thesis using assms(1,4) by (auto simp: ps xs)
qed

section \<open>Lists hold lists\<close>

definition lst_at :: "'a lst \<Rightarrow> nat list \<Rightarrow> 'a list \<Rightarrow> bool" where
  "lst_at L ps xs \<longleftrightarrow> seg (ls_nodes L) 0 ps xs 0 \<and> distinct ps \<and> 0 \<notin> set ps \<and> dom (ls_nodes L) = set ps
     \<and> ls_head L = hd (ps @ [0]) \<and> ls_tail L = last (0 # ps) \<and> ls_count L = length xs"

definition lst_rep :: "'a lst \<Rightarrow> 'a list \<Rightarrow> bool" where
  "lst_rep L xs \<longleftrightarrow> (\<exists>ps. lst_at L ps xs)"

lemma lst_atD:
  assumes "lst_at L ps xs"
  shows "seg (ls_nodes L) 0 ps xs 0" "distinct ps" "0 \<notin> set ps" "dom (ls_nodes L) = set ps" "ls_head L = hd (ps @ [0])"
    "ls_tail L = last (0 # ps)" "ls_count L = length xs" "length ps = length xs"
proof -
  have a: "seg (ls_nodes L) 0 ps xs 0 \<and> distinct ps \<and> 0 \<notin> set ps \<and> dom (ls_nodes L) = set ps
     \<and> ls_head L = hd (ps @ [0]) \<and> ls_tail L = last (0 # ps) \<and> ls_count L = length xs"
    using assms unfolding lst_at_def .
  show "seg (ls_nodes L) 0 ps xs 0" "distinct ps" "0 \<notin> set ps" "dom (ls_nodes L) = set ps" "ls_head L = hd (ps @ [0])"
    "ls_tail L = last (0 # ps)" "ls_count L = length xs"
    using a by blast+
  then show "length ps = length xs" using seg_length by blast
qed

text \<open>The iterator at position \<open>i\<close>.\<close>

definition it_at :: "nat list \<Rightarrow> nat \<Rightarrow> list_it" where
  "it_at ps i = (if i < length ps then \<lparr>li_end = False, li_cur = ps ! i\<rparr> else \<lparr>li_end = True, li_cur = last (0 # ps)\<rparr>)"

lemma lst_begin_at: "lst_at L ps xs \<Longrightarrow> lst_begin L = it_at ps 0"
  using lst_atD(3,5) [of L ps xs] by (cases ps) (auto simp: lst_begin_def it_at_def)

lemma lst_end_at: "lst_at L ps xs \<Longrightarrow> lst_end L = it_at ps (length ps)"
  using lst_atD(6) [of L ps xs] by (simp add: lst_end_def it_at_def)

lemma lst_node:
  assumes "lst_at L ps xs" "i < length xs"
  shows "ls_nodes L (ps ! i) = Some \<lparr>ln_val = xs ! i, ln_prev = last (0 # take i ps), ln_next = hd (drop (Suc i) ps @ [0])\<rparr>"
proof -
  note d = lst_atD [OF assms(1)]
  have i: "i < length ps" using assms(2) d(8) by simp
  have "ps = take i ps @ ps ! i # drop (Suc i) ps" "xs = take i xs @ xs ! i # drop (Suc i) xs"
    using id_take_nth_drop i assms(2) by blast+
  then have "seg (ls_nodes L) 0 (take i ps @ ps ! i # drop (Suc i) ps) (take i xs @ xs ! i # drop (Suc i) xs) 0"
    using d(1) by simp
  then show ?thesis using seg_append [of "take i ps" "take i xs" "ls_nodes L" 0 "ps ! i # drop (Suc i) ps"] d(8) by simp
qed

lemma nth_nonzero: "lst_at L ps xs \<Longrightarrow> i < length ps \<Longrightarrow> 0 < ps ! i"
  using lst_atD(3) [of L ps xs] nth_mem [of i ps] by (cases "ps ! i = 0") simp_all

lemma li_next_at:
  assumes "lst_at L ps xs"
  shows "li_next L (it_at ps i) = Inr (it_at ps (Suc i))"
proof (cases "i < length ps")
  case True
  note n = lst_node [OF assms, of i]
  have len: "length ps = length xs" by (rule lst_atD(8) [OF assms])
  show ?thesis
  proof (cases "Suc i < length ps")
    case True
    then have "hd (drop (Suc i) ps @ [0]) = ps ! Suc i" by (simp add: hd_append hd_drop_conv_nth)
    then show ?thesis using n nth_nonzero [OF assms True] nth_nonzero [OF assms \<open>i < length ps\<close>] True len
      by (simp add: li_next_def it_at_def node_at_def)
  next
    case False
    then have si: "Suc i = length ps" using True by simp
    then have "ps \<noteq> []" "length ps - 1 = i" by auto
    then have "last (0 # ps) = ps ! i" "drop (Suc i) ps = []" using si by (simp_all add: last_conv_nth)
    then show ?thesis using n nth_nonzero [OF assms True] True False len by (simp add: li_next_def it_at_def node_at_def)
  qed
next
  case False
  show ?thesis
  proof (cases "ps = []")
    case True
    then show ?thesis by (simp add: li_next_def it_at_def)
  next
    case ne: False
    then have "last ps = ps ! (length ps - 1)" by (rule last_conv_nth)
    moreover have "length ps - 1 < length xs" using ne by (simp add: lst_atD(8) [OF assms, symmetric] diff_less)
    moreover have "drop (Suc (length ps - 1)) ps = []" using ne by simp
    moreover have last0: "last ps \<noteq> 0" using last_in_set [OF ne] lst_atD(3) [OF assms] by (cases "last ps = 0") simp_all
    ultimately have "ls_nodes L (last ps) = Some \<lparr>ln_val = xs ! (length ps - 1), ln_prev = last (0 # take (length ps - 1) ps), ln_next = 0\<rparr>"
      using lst_node [OF assms, of "length ps - 1"] by simp
    then show ?thesis using False ne last0 by (simp add: li_next_def it_at_def node_at_def)
  qed
qed

lemma li_prev_at:
  assumes "lst_at L ps xs" "0 < i" "i \<le> length ps"
  shows "li_prev L (it_at ps i) = Inr (it_at ps (i - 1))"
proof (cases "i = length ps")
  case True
  then have "last (0 # ps) = ps ! (i - 1)" using assms(2) by (auto simp: last_conv_nth)
  then show ?thesis using assms(2) True by (simp add: li_prev_def it_at_def)
next
  case False
  then have i: "i < length ps" using assms(3) by simp
  have "last (0 # take i ps) = ps ! (i - 1)" using assms(2) i by (cases i) (simp_all add: take_Suc_conv_app_nth)
  then show ?thesis using lst_node [OF assms(1), of i] i assms(2) lst_atD(8) [OF assms(1)] nth_nonzero [OF assms(1) i]
    by (auto simp: li_prev_def it_at_def node_at_def)
qed

lemma li_deref_at:
  assumes "lst_at L ps xs"
  shows "li_deref L (it_at ps i) = (if i < length xs then Inr (xs ! i) else Inl Std_exception)"
  using lst_node [OF assms, of i] lst_atD(8) [OF assms] nth_nonzero [OF assms, of i]
  by (auto simp: li_deref_def it_at_def node_at_def)

section \<open>Linking and unlinking\<close>

lemma link_before_ok:
  assumes s: "seg h 0 as xs c" "seg h (last (0 # as)) (c # cs) ys 0" "h b = Some \<lparr>ln_val = x, ln_prev = 0, ln_next = 0\<rparr>"
    and d: "distinct (as @ c # cs)" "0 \<notin> set (as @ c # cs)" "b \<notin> set (as @ c # cs)"
  shows "\<exists>h'. link_before c b h = Inr h' \<and> seg h' 0 as xs b
    \<and> h' b = Some \<lparr>ln_val = x, ln_prev = last (0 # as), ln_next = c\<rparr> \<and> seg h' b (c # cs) ys 0 \<and> dom h' = dom h"
proof -
  obtain nc where nc: "h c = Some nc" "ln_prev nc = last (0 # as)" using s(2) by (cases ys) auto
  define h1 where "h1 = (if as = [] then h else h(last as \<mapsto> (the (h (last as)))\<lparr>ln_next := b\<rparr>))"
  have la: "last as \<in> dom h \<and> last as \<noteq> 0 \<and> last as \<noteq> c \<and> last as \<noteq> b \<and> last as \<notin> set cs" if ne: "as \<noteq> []"
  proof -
    have "last as \<in> set as" using ne by simp
    moreover from this have "last as \<in> dom h" using seg_dom [OF s(1)] by blast
    ultimately show ?thesis using d by auto
  qed
  have h1: "h1 b = h b" "h1 c = h c" "dom h1 = dom h" using la by (auto simp: h1_def)
  have s1: "seg h1 0 as xs b"
  proof (cases "as = []")
    case False
    then show ?thesis using seg_new_next [OF s(1) False, of "the (h (last as))" b] la d(1) by (auto simp: h1_def)
  qed (use s(1) in \<open>cases xs; simp\<close>)
  have s2: "seg h1 (last (0 # as)) (c # cs) ys 0"
    by (rule seg_cong [OF s(2)]) (use la in \<open>auto simp: h1_def\<close>)
  let ?h' = "h1(b \<mapsto> \<lparr>ln_val = x, ln_prev = last (0 # as), ln_next = c\<rparr>, c \<mapsto> nc\<lparr>ln_prev := b\<rparr>)"
  have run: "link_before c b h = Inr ?h'"
    using nc la s(3) h1 d(3) by (auto simp: link_before_def node_at_def set_next_def set_prev_def h1_def split: if_splits)
  moreover have "seg ?h' 0 as xs b" by (rule seg_cong [OF s1]) (use d in auto)
  moreover have "seg ?h' b (c # cs) ys 0"
  proof -
    have "seg (h1(c \<mapsto> nc\<lparr>ln_prev := b\<rparr>)) b (c # cs) ys 0"
      using seg_new_prev [OF s2, of nc b] nc(1) h1(2) d(1) by simp
    then show ?thesis by (rule seg_cong) (use d(3) in auto)
  qed
  moreover have "dom ?h' = dom h" using h1(3) s(3) nc(1) by auto
  moreover have "?h' b = Some \<lparr>ln_val = x, ln_prev = last (0 # as), ln_next = c\<rparr>" using d(3) by auto
  ultimately show ?thesis by blast
qed

lemma unlink_ok:
  assumes s: "seg h 0 (as @ c # cs) (xs @ y # ys) 0" "length as = length xs" and d: "distinct (as @ c # cs)" "0 \<notin> set (as @ c # cs)"
  shows "\<exists>h'. unlink c h = Inr h' \<and> seg (h'(c := None)) 0 (as @ cs) (xs @ ys) 0 \<and> dom h' = dom h"
proof -
  let ?n = "hd (cs @ [0])" and ?p = "last (0 # as)"
  have t: "seg h 0 as xs c" "h c = Some \<lparr>ln_val = y, ln_prev = ?p, ln_next = ?n\<rparr>" "seg h c cs ys 0"
    using s(1) seg_append [OF s(2), of h 0 "c # cs" "y # ys" 0] by simp_all
  define h1 where "h1 = (if as = [] then h else h(last as \<mapsto> (the (h (last as)))\<lparr>ln_next := ?n\<rparr>))"
  define h2 where "h2 = (if cs = [] then h1 else h1(hd cs \<mapsto> (the (h1 (hd cs)))\<lparr>ln_prev := ?p\<rparr>))"
  have la: "last as \<in> dom h \<and> last as \<noteq> 0 \<and> last as \<noteq> c \<and> last as \<notin> set cs" if ne: "as \<noteq> []"
  proof -
    have "last as \<in> set as" using ne by simp
    moreover from this have "last as \<in> dom h" using seg_dom [OF t(1)] by blast
    ultimately show ?thesis using d by auto
  qed
  have hc: "hd cs \<in> dom h \<and> hd cs \<noteq> 0 \<and> hd cs \<noteq> c \<and> hd cs \<notin> set as" if ne: "cs \<noteq> []"
  proof -
    have "hd cs \<in> set cs" using ne by simp
    moreover from this have "hd cs \<in> dom h" using seg_dom [OF t(3)] by blast
    ultimately show ?thesis using d by auto
  qed
  have d1: "dom h1 = dom h" using la by (auto simp: h1_def)
  have s1: "seg h1 0 as xs ?n"
  proof (cases "as = []")
    case False
    then show ?thesis using seg_new_next [OF t(1) False, of "the (h (last as))" ?n] la d(1) by (auto simp: h1_def)
  qed (use t(1) in \<open>cases xs; simp\<close>)
  have s2: "seg h1 c cs ys 0" by (rule seg_cong [OF t(3)]) (use la in \<open>auto simp: h1_def\<close>)
  have s3: "seg h2 ?p cs ys 0"
  proof (cases "cs = []")
    case False
    then have "hd cs \<in> dom h1" using hc d1 by blast
    then have "h1 (hd cs) = Some (the (h1 (hd cs)))" by (auto simp: domIff)
    then show ?thesis using seg_new_prev [OF s2 False, of "the (h1 (hd cs))" ?p] False d(1) by (simp add: h2_def)
  qed (use s2 in \<open>cases ys; simp\<close>)
  have s4: "seg h2 0 as xs ?n" by (rule seg_cong [OF s1]) (use hc in \<open>auto simp: h2_def\<close>)
  have "seg (h2(c := None)) 0 (as @ cs) (xs @ ys) 0"
    unfolding seg_append [OF s(2)]
    by (intro conjI; rule seg_cong [OF s4] seg_cong [OF s3]) (use d(1) in auto)
  moreover have "dom h2 = dom h" using hc d1 by (auto simp: h2_def)
  moreover have "unlink c h = Inr h2"
  proof -
    have "hd (cs @ [0]) = 0 \<longleftrightarrow> cs = []" using hc by (cases cs) auto
    moreover have "last (0 # as) = 0 \<longleftrightarrow> as = []" using la by (cases "as = []") simp_all
    moreover have "as \<noteq> [] \<Longrightarrow> \<exists>n. h (last as) = Some n" using la by auto
    moreover have "cs \<noteq> [] \<Longrightarrow> \<exists>n. h1 (hd cs) = Some n" using hc d1 by auto
    ultimately show ?thesis using t(2) by (auto simp: unlink_def node_at_def set_next_def set_prev_def h1_def h2_def)
  qed
  ultimately show ?thesis by blast
qed

section \<open>Operations\<close>

lemma lst_new_ok: "lst_at lst_new [] []"
  by (simp add: lst_at_def lst_new_def)

lemma lst_front_ok: "lst_at L ps xs \<Longrightarrow> lst_front L = (if xs = [] then Inl Std_exception else Inr (hd xs))"
  using lst_node [of L ps xs 0] lst_atD(5,7,8) [of L ps xs]
  by (cases "xs = []"; cases ps) (auto simp: lst_front_def node_at_def hd_conv_nth)

lemma lst_back_ok:
  assumes "lst_at L ps xs"
  shows "lst_back L = (if xs = [] then Inl Std_exception else Inr (last xs))"
proof (cases "xs = []")
  case True
  then show ?thesis using lst_atD(7) [OF assms] by (simp add: lst_back_def)
next
  case False
  then have "ps \<noteq> []" using lst_atD(8) [OF assms] by auto
  then have "ls_tail L = ps ! (length xs - 1)" using lst_atD(6,8) [OF assms] by (simp add: last_conv_nth)
  then show ?thesis using lst_node [OF assms, of "length xs - 1"] False lst_atD(7) [OF assms]
    by (simp add: lst_back_def node_at_def last_conv_nth)
qed

lemma hd_append_Cons: "hd (as @ b # cs) = hd (as @ [b])"
  by (cases as) simp_all

text \<open>Before an element the two links are made; behind the last one the tail moves.\<close>

lemma lst_insert_inner:
  assumes L: "lst_at L ps xs" and i: "i < length xs" and b: "b \<noteq> 0" "b \<notin> set ps"
  shows "\<exists>L'. lst_insert b (it_at ps i) x L = Inr (it_at (take i ps @ b # drop i ps) i, L')
    \<and> lst_at L' (take i ps @ b # drop i ps) (take i xs @ x # drop i xs)"
proof -
  note d = lst_atD [OF L]
  let ?as = "take i ps" and ?c = "ps ! i" and ?cs = "drop (Suc i) ps"
  let ?h = "(ls_nodes L)(b \<mapsto> \<lparr>ln_val = x, ln_prev = 0, ln_next = 0\<rparr>)"
  have i': "i < length ps" using i d(8) by simp
  have ps: "ps = ?as @ ?c # ?cs" by (rule id_take_nth_drop [OF i'])
  have xs: "xs = take i xs @ xs ! i # drop (Suc i) xs" by (rule id_take_nth_drop [OF i])
  have l: "length ?as = length (take i xs)" using d(8) by simp
  have "seg ?h 0 ps xs 0" by (rule seg_cong [OF d(1)]) (use b in auto)
  then have "seg ?h 0 (?as @ ?c # ?cs) (take i xs @ xs ! i # drop (Suc i) xs) 0" using ps xs by simp
  then have s: "seg ?h 0 ?as (take i xs) ?c" "seg ?h (last (0 # ?as)) (?c # ?cs) (xs ! i # drop (Suc i) xs) 0"
    unfolding seg_append [OF l] by simp_all
  have D: "distinct (?as @ ?c # ?cs)" "0 \<notin> set (?as @ ?c # ?cs)" "b \<notin> set (?as @ ?c # ?cs)"
    using d(2,3) b(2) by (simp_all flip: ps)
  obtain h' where h': "link_before ?c b ?h = Inr h'" "seg h' 0 ?as (take i xs) b"
    "h' b = Some \<lparr>ln_val = x, ln_prev = last (0 # ?as), ln_next = ?c\<rparr>"
    "seg h' b (?c # ?cs) (xs ! i # drop (Suc i) xs) 0" "dom h' = dom ?h"
    using link_before_ok [OF s _ D, of x] by auto
  have drop: "drop i ps = ?c # ?cs" "drop i xs = xs ! i # drop (Suc i) xs" by (rule Cons_nth_drop_Suc [OF i', symmetric] Cons_nth_drop_Suc [OF i, symmetric])+
  let ?L = "L\<lparr>ls_nodes := h', ls_head := (if ?c = ls_head L then b else ls_head L), ls_count := ls_count L + 1\<rparr>"
  have "seg h' 0 (?as @ b # ?c # ?cs) (take i xs @ x # xs ! i # drop (Suc i) xs) 0"
    unfolding seg_append [OF l] using h'(2,3,4) by simp
  moreover have "ls_head ?L = hd (?as @ [b])"
  proof (cases i)
    case 0
    then show ?thesis using d(5) i' by (cases ps) auto
  next
    case (Suc j)
    have ne: "ps \<noteq> []" using i' by auto
    then have "?c \<noteq> ps ! 0" using d(2) i' Suc by (simp add: nth_eq_iff_index_eq)
    moreover have "ls_head L = ps ! 0" using d(5) ne by (cases ps) simp_all
    ultimately have "?c \<noteq> ls_head L" "hd ?as = ls_head L" using ne Suc by (simp_all add: hd_conv_nth)
    then show ?thesis using ne Suc by (simp add: hd_append)
  qed
  moreover have "last (?as @ b # ?c # ?cs) = last ps" using ps by (metis last.simps last_append list.distinct(1))
  moreover have "set (?as @ b # ?c # ?cs) = insert b (set ps)" using arg_cong [OF ps, of set] by auto
  moreover have "distinct (?as @ b # ?c # ?cs)" using D by auto
  moreover have "hd (?as @ b # ?c # ?cs @ [0]) = hd (?as @ [b])" by (rule hd_append_Cons)
  ultimately have "lst_at ?L (?as @ b # drop i ps) (take i xs @ x # drop i xs)"
    using d b h'(5) i' by (auto simp: lst_at_def drop)
  moreover have "lst_insert b (it_at ps i) x L = Inr (it_at (?as @ b # drop i ps) i, ?L)"
    using h'(1) i' by (simp add: lst_insert_def it_at_def nth_append)
  ultimately show ?thesis by blast
qed

lemma lst_insert_end:
  assumes L: "lst_at L ps xs" and b: "b \<noteq> 0" "b \<notin> set ps"
  shows "\<exists>L'. lst_insert b (it_at ps (length ps)) x L = Inr (it_at (ps @ [b]) (length ps), L') \<and> lst_at L' (ps @ [b]) (xs @ [x])"
proof (cases "xs = []")
  case True
  note d = lst_atD [OF L]
  have "ps = []" "ls_nodes L = Map.empty" using True d(4,8) by simp_all
  then show ?thesis using True d(7) b by (simp add: lst_insert_def it_at_def lst_at_def)
next
  case False
  note d = lst_atD [OF L]
  have ne: "ps \<noteq> []" using False d(8) by auto
  let ?h = "(ls_nodes L)(b \<mapsto> \<lparr>ln_val = x, ln_prev = ls_tail L, ln_next = 0\<rparr>)"
  have t: "ls_tail L = last ps" "last ps \<in> set ps" using d(6) ne by simp_all
  then have "last ps \<in> dom (ls_nodes L)" "last ps \<noteq> b" using d(4) b(2) by auto
  then obtain n where n: "?h (last ps) = Some n" by auto
  have "seg ?h 0 ps xs 0" by (rule seg_cong [OF d(1)]) (use b in auto)
  from seg_new_next [OF this ne d(2) n, of b] have "seg (?h(last ps \<mapsto> n\<lparr>ln_next := b\<rparr>)) 0 ps xs b" .
  then have "seg (?h(last ps \<mapsto> n\<lparr>ln_next := b\<rparr>)) 0 (ps @ [b]) (xs @ [x]) 0"
    unfolding seg_snoc [OF d(8)] using t(1) ne \<open>last ps \<noteq> b\<close> by simp
  moreover have "dom (?h(last ps \<mapsto> n\<lparr>ln_next := b\<rparr>)) = set (ps @ [b])" using d(4) t(2) by auto
  moreover have "lst_insert b (it_at ps (length ps)) x L = Inr (it_at (ps @ [b]) (length ps),
      L\<lparr>ls_nodes := ?h(last ps \<mapsto> n\<lparr>ln_next := b\<rparr>), ls_tail := b, ls_count := ls_count L + 1\<rparr>)"
    using n t(1) False d(7) ne by (simp add: lst_insert_def it_at_def set_next_def node_at_def)
  ultimately show ?thesis using d b ne by (simp add: lst_at_def hd_append)
qed

lemma lst_insert_ok:
  assumes L: "lst_at L ps xs" and i: "i \<le> length xs" and b: "b \<noteq> 0" "b \<notin> set ps"
  shows "\<exists>L'. lst_insert b (it_at ps i) x L = Inr (it_at (take i ps @ b # drop i ps) i, L')
    \<and> lst_at L' (take i ps @ b # drop i ps) (take i xs @ x # drop i xs)"
proof (cases "i < length xs")
  case True
  then show ?thesis by (rule lst_insert_inner [OF L _ b])
next
  case False
  then have "i = length ps" "i = length xs" using i lst_atD(8) [OF L] by simp_all
  then show ?thesis using lst_insert_end [OF L b, of x] by simp
qed

text \<open>Erasing; behind the last element there is the end, but the iterator that is returned keeps the erased node.\<close>

lemma lst_erase_ok:
  assumes L: "lst_at L ps xs" and i: "i < length xs"
  shows "\<exists>L'. lst_erase (it_at ps i) L = Inr (if Suc i < length xs then it_at (take i ps @ drop (Suc i) ps) i
      else \<lparr>li_end = True, li_cur = ps ! i\<rparr>, L')
    \<and> lst_at L' (take i ps @ drop (Suc i) ps) (take i xs @ drop (Suc i) xs)"
proof -
  note d = lst_atD [OF L]
  let ?as = "take i ps" and ?c = "ps ! i" and ?cs = "drop (Suc i) ps"
  have i': "i < length ps" using i d(8) by simp
  have ps: "ps = ?as @ ?c # ?cs" by (rule id_take_nth_drop [OF i'])
  have xs: "xs = take i xs @ xs ! i # drop (Suc i) xs" by (rule id_take_nth_drop [OF i])
  have l: "length ?as = length (take i xs)" using d(8) by simp
  have s: "seg (ls_nodes L) 0 (?as @ ?c # ?cs) (take i xs @ xs ! i # drop (Suc i) xs) 0" using d(1) ps xs by simp
  have D: "distinct (?as @ ?c # ?cs)" "0 \<notin> set (?as @ ?c # ?cs)" using d(2,3) by (simp_all flip: ps)
  obtain h' where h': "unlink ?c (ls_nodes L) = Inr h'" "seg (h'(?c := None)) 0 (?as @ ?cs) (take i xs @ drop (Suc i) xs) 0"
    "dom h' = dom (ls_nodes L)" using unlink_ok [OF s l D] by blast
  note n = lst_node [OF L i]
  have next_it: "li_next L (it_at ps i) = Inr (if Suc i < length xs then it_at (?as @ ?cs) i else \<lparr>li_end = True, li_cur = ?c\<rparr>)"
  proof (cases "Suc i < length xs")
    case True
    then have "(?as @ ?cs) ! i = ps ! Suc i" "i < length (?as @ ?cs)" using d(8) by (simp_all add: nth_append)
    then show ?thesis using li_next_at [OF L, of i] True d(8) by (simp add: it_at_def)
  next
    case False
    then have "Suc i = length ps" using i' d(8) by simp
    moreover from this have "ps \<noteq> []" "length ps - 1 = i" by auto
    ultimately have "last (0 # ps) = ?c" by (simp add: last_conv_nth)
    then show ?thesis using li_next_at [OF L, of i] False d(8) by (simp add: it_at_def)
  qed
  let ?hd = "hd ((?as @ ?cs) @ [0])" and ?tl = "last (0 # ?as @ ?cs)"
  have hd_eq: "?c = ls_head L \<longleftrightarrow> i = 0"
  proof -
    have "ps \<noteq> []" using i' by auto
    then have "ls_head L = ps ! 0" "0 < length ps" using d(5) by (simp_all add: hd_append hd_conv_nth)
    then show ?thesis using d(2) i' by (simp add: nth_eq_iff_index_eq)
  qed
  have "ls_tail L = ps ! (length ps - 1)" using d(6) i' by (auto simp: last_conv_nth)
  then have tl_eq: "?c = ls_tail L \<longleftrightarrow> Suc i = length ps" using d(2) i' by (auto simp: nth_eq_iff_index_eq)
  have head: "(if ?c = ls_head L then rbind (node_at (ls_head L) (ls_nodes L)) (\<lambda>n. Inr (ln_next n)) else Inr (ls_head L)) = Inr ?hd"
  proof (cases "i = 0")
    case True
    then show ?thesis using hd_eq n by (simp add: node_at_def)
  next
    case False
    then have "?as \<noteq> []" "hd ?as = hd ps" using i' by (auto simp: hd_take)
    then show ?thesis using hd_eq False d(5) by (cases ps) (simp_all add: hd_append)
  qed
  have tail: "(if ?c = ls_tail L then rbind (node_at (ls_tail L) (ls_nodes L)) (\<lambda>n. Inr (ln_prev n)) else Inr (ls_tail L)) = Inr ?tl"
  proof (cases "Suc i = length ps")
    case True
    then show ?thesis using tl_eq n by (simp add: node_at_def)
  next
    case False
    then have "?cs \<noteq> []" "last ?cs = last ps" using i' by (auto simp: last_drop)
    then show ?thesis using tl_eq False d(6) by (cases ps) simp_all
  qed
  let ?L = "\<lparr>ls_nodes = h'(?c := None), ls_head = ?hd, ls_tail = ?tl, ls_count = ls_count L - 1\<rparr>"
  have "set (?as @ ?c # ?cs) = set ps" by (simp only: ps [symmetric])
  then have "dom (h'(?c := None)) = set (?as @ ?cs)" using h'(3) d(4) D(1) by auto
  then have "lst_at ?L (?as @ ?cs) (take i xs @ drop (Suc i) xs)"
    using h'(2) D d(7) i by (simp add: lst_at_def)
  moreover have "li_cur (it_at ps i) = ?c" "\<not> li_end (it_at ps i)" "ls_count L \<noteq> 0" using i' d(7,8) by (auto simp: it_at_def)
  then have "lst_erase (it_at ps i) L = Inr (if Suc i < length xs then it_at (?as @ ?cs) i else \<lparr>li_end = True, li_cur = ?c\<rparr>, ?L)"
    by (simp add: lst_erase_def next_it head tail h'(1))
  ultimately show ?thesis by blast
qed

lemma lst_erase_end: "lst_at L ps xs \<Longrightarrow> lst_erase (it_at ps (length ps)) L = Inl Std_exception"
  by (simp add: lst_erase_def it_at_def)

lemma lst_push_back_ok:
  assumes "lst_at L ps xs" "b \<noteq> 0" "b \<notin> set ps"
  shows "\<exists>L'. lst_push_back b x L = Inr L' \<and> lst_at L' (ps @ [b]) (xs @ [x])"
  using lst_insert_end [OF assms, of x] by (auto simp: lst_push_back_def lst_end_at [OF assms(1)])

lemma lst_push_front_ok:
  assumes "lst_at L ps xs" "b \<noteq> 0" "b \<notin> set ps"
  shows "\<exists>L'. lst_push_front b x L = Inr L' \<and> lst_at L' (b # ps) (x # xs)"
  using lst_insert_ok [OF assms(1) _ assms(2,3), of 0 x] by (auto simp: lst_push_front_def lst_begin_at [OF assms(1)])

lemma lst_pop_back_ok:
  assumes "lst_at L ps xs" "xs \<noteq> []"
  shows "\<exists>L'. lst_pop_back L = Inr L' \<and> lst_at L' (butlast ps) (butlast xs)"
proof -
  note d = lst_atD [OF assms(1)]
  have ne: "ps \<noteq> []" "length xs - 1 < length xs" using assms(2) d(8) by auto
  then have "\<lparr>li_end = False, li_cur = ls_tail L\<rparr> = it_at ps (length xs - 1)" using d(6,8) by (simp add: it_at_def last_conv_nth)
  moreover have "take (length xs - 1) ps @ drop (Suc (length xs - 1)) ps = butlast ps"
    "take (length xs - 1) xs @ drop (Suc (length xs - 1)) xs = butlast xs"
    using ne d(8) by (simp_all add: butlast_conv_take)
  ultimately show ?thesis using lst_erase_ok [OF assms(1) ne(2)] d(7) assms(2) by (auto simp: lst_pop_back_def)
qed

lemma lst_pop_front_ok:
  assumes "lst_at L ps xs" "xs \<noteq> []"
  shows "\<exists>L'. lst_pop_front L = Inr L' \<and> lst_at L' (tl ps) (tl xs)"
proof -
  note d = lst_atD [OF assms(1)]
  have ne: "ps \<noteq> []" "0 < length xs" using assms(2) d(8) by auto
  then have "\<lparr>li_end = False, li_cur = ls_head L\<rparr> = it_at ps 0" using d(5) by (cases ps) (simp_all add: it_at_def)
  then show ?thesis using lst_erase_ok [OF assms(1) ne(2)] d(7) assms(2) by (auto simp: lst_pop_front_def drop_Suc)
qed

lemma lst_pop_empty: "lst_at L ps [] \<Longrightarrow> lst_pop_back L = Inl Std_exception \<and> lst_pop_front L = Inl Std_exception"
  using lst_atD(7) [of L ps "[]"] by (simp add: lst_pop_back_def lst_pop_front_def)

lemma delete_nodes_ok:
  "seg h p ps xs 0 \<Longrightarrow> distinct ps \<Longrightarrow> 0 \<notin> set ps \<Longrightarrow> length ps \<le> k \<Longrightarrow>
    delete_nodes k (hd (ps @ [0])) h = Inr (h |` (- set ps))"
proof (induction ps arbitrary: k p xs h)
  case Nil
  then show ?case by (simp add: delete_nodes.simps [of k 0])
next
  case (Cons a as)
  obtain y ys where xs: "xs = y # ys" using Cons.prems(1) by (cases xs) auto
  obtain k' where k: "k = Suc k'" using Cons.prems(4) by (cases k) auto
  have s: "h a = Some \<lparr>ln_val = y, ln_prev = p, ln_next = hd (as @ [0])\<rparr>" "seg h a as ys 0" using Cons.prems(1) xs by simp_all
  have del: "seg (h(a := None)) a as ys 0" by (rule seg_cong [OF s(2)]) (use Cons.prems(2) in auto)
  have "distinct as" "0 \<notin> set as" "length as \<le> k'" using Cons.prems(2-4) k by simp_all
  from Cons.IH [OF del this] have "delete_nodes k' (hd (as @ [0])) (h(a := None)) = Inr (h(a := None) |` (- set as))" .
  moreover have "h(a := None) |` (- set as) = h |` (- set (a # as))" by (auto simp: restrict_map_def)
  ultimately show ?case using s(1) Cons.prems(3) k by (subst delete_nodes.simps) (simp add: node_at_def)
qed

lemma lst_clear_ok:
  assumes "lst_at L ps xs"
  shows "lst_clear L = Inr lst_new"
proof -
  note d = lst_atD [OF assms]
  have "ls_nodes L |` (- set ps) = Map.empty" by (auto simp: restrict_map_def d(4) [symmetric])
  then show ?thesis using delete_nodes_ok [OF d(1-3), of "ls_count L"] d(5,7,8) by (simp add: lst_clear_def lst_new_def)
qed

text \<open>\<open>ps\<close> and \<open>xs\<close> are what was copied.\<close>

lemma copy_nodes_ok:
  assumes "seg h p qs ys 0" "0 \<notin> set qs" "seg (ls_nodes L) 0 ps xs 0" "ps \<noteq> []" "distinct (ps @ bs)" "dom (ls_nodes L) = set ps"
    "ls_tail L = last ps" "length bs = length qs"
  shows "\<exists>L'. copy_nodes bs (hd (qs @ [0])) h L = Inr L' \<and> seg (ls_nodes L') 0 (ps @ bs) (xs @ ys) 0
    \<and> dom (ls_nodes L') = set (ps @ bs) \<and> ls_head L' = ls_head L \<and> ls_tail L' = last (ps @ bs) \<and> ls_count L' = ls_count L"
  using assms
proof (induction qs arbitrary: p ys L ps xs bs)
  case Nil
  then have "ys = []" by (cases ys) auto
  then show ?case using Nil by (simp add: copy_nodes.simps [of _ 0])
next
  case (Cons q qs)
  obtain y ys' where ys: "ys = y # ys'" using Cons.prems(1) by (cases ys) auto
  obtain b bs' where bs: "bs = b # bs'" using Cons.prems(8) by (cases bs) auto
  have q: "h q = Some \<lparr>ln_val = y, ln_prev = p, ln_next = hd (qs @ [0])\<rparr>" "seg h q qs ys' 0" "q \<noteq> 0"
    using Cons.prems(1,2) ys by auto
  let ?h = "(ls_nodes L)(b \<mapsto> \<lparr>ln_val = y, ln_prev = last ps, ln_next = 0\<rparr>)"
  have b: "b \<notin> set ps" "last ps \<in> set ps" using Cons.prems(4,5) bs by auto
  then have "last ps \<in> dom (ls_nodes L)" "last ps \<noteq> b" using Cons.prems(6) by auto
  then obtain n where n: "?h (last ps) = Some n" by auto
  define h' where "h' = ?h(last ps \<mapsto> n\<lparr>ln_next := b\<rparr>)"
  have dps: "distinct ps" using Cons.prems(5) by simp
  have "seg ?h 0 ps xs 0" by (rule seg_cong [OF Cons.prems(3)]) (use b in auto)
  from seg_new_next [OF this Cons.prems(4) dps n, of b] have "seg h' 0 ps xs b" unfolding h'_def .
  then have s: "seg h' 0 (ps @ [b]) (xs @ [y]) 0"
    unfolding seg_snoc [OF seg_length [OF Cons.prems(3)]] using Cons.prems(4) \<open>last ps \<noteq> b\<close> by (simp add: h'_def)
  have "dom h' = set (ps @ [b])" using Cons.prems(6) b(2) by (auto simp: h'_def)
  then have "\<exists>L'. copy_nodes bs' (hd (qs @ [0])) h (L\<lparr>ls_nodes := h', ls_tail := b\<rparr>) = Inr L'
    \<and> seg (ls_nodes L') 0 ((ps @ [b]) @ bs') ((xs @ [y]) @ ys') 0 \<and> dom (ls_nodes L') = set ((ps @ [b]) @ bs')
    \<and> ls_head L' = ls_head L \<and> ls_tail L' = last ((ps @ [b]) @ bs') \<and> ls_count L' = ls_count L"
    using Cons.IH [OF q(2), of "L\<lparr>ls_nodes := h', ls_tail := b\<rparr>" "ps @ [b]" "xs @ [y]" bs'] s Cons.prems(2,5,8) bs by simp
  moreover have "copy_nodes bs (hd ((q # qs) @ [0])) h L = copy_nodes bs' (hd (qs @ [0])) h (L\<lparr>ls_nodes := h', ls_tail := b\<rparr>)"
    using q n Cons.prems(7) bs \<open>last ps \<noteq> b\<close> by (subst copy_nodes.simps) (simp add: node_at_def set_next_def h'_def)
  ultimately show ?case by (simp add: bs ys)
qed

lemma lst_copy_ok:
  assumes "lst_at L ps xs" "length bs = length xs" "distinct bs" "0 \<notin> set bs"
  shows "\<exists>L'. lst_copy bs L = Inr L' \<and> lst_at L' bs xs"
proof (cases xs)
  case Nil
  then show ?thesis using lst_atD(7) [OF assms(1)] lst_new_ok assms(2) by (simp add: lst_copy_def)
next
  case (Cons x ys)
  note d = lst_atD [OF assms(1)]
  obtain p qs where ps: "ps = p # qs" using d(8) Cons by (cases ps) auto
  obtain b cs where bs: "bs = b # cs" using assms(2) Cons by (cases bs) auto
  have p: "ls_nodes L p = Some \<lparr>ln_val = x, ln_prev = 0, ln_next = hd (qs @ [0])\<rparr>" "seg (ls_nodes L) p qs ys 0"
    using d(1) ps Cons by simp_all
  let ?L = "\<lparr>ls_nodes = [b \<mapsto> \<lparr>ln_val = x, ln_prev = 0, ln_next = 0\<rparr>], ls_head = b, ls_tail = b, ls_count = 0\<rparr>"
  have q: "0 \<notin> set qs" "length cs = length qs" using d(3,8) ps Cons assms(2) bs by auto
  obtain L' where L': "copy_nodes cs (hd (qs @ [0])) (ls_nodes L) ?L = Inr L'" "seg (ls_nodes L') 0 ([b] @ cs) ([x] @ ys) 0"
    "dom (ls_nodes L') = set ([b] @ cs)" "ls_head L' = b" "ls_tail L' = last ([b] @ cs)" "ls_count L' = 0"
    using copy_nodes_ok [OF p(2) q(1), of ?L "[b]" "[x]" cs] q(2) assms(3) bs by auto
  have "lst_copy bs L = Inr (L'\<lparr>ls_count := ls_count L\<rparr>)"
    using L'(1) p(1) d(5,7) ps Cons by (simp add: lst_copy_def bs node_at_def)
  moreover have "lst_at (L'\<lparr>ls_count := ls_count L\<rparr>) bs xs"
    using L' d(7) assms(3,4) bs Cons by (simp add: lst_at_def)
  ultimately show ?thesis by blast
qed

lemma lst_assign_ok:
  assumes "lst_at K qs ys" "lst_at L ps xs" "length bs = length xs" "distinct bs" "0 \<notin> set bs"
  shows "\<exists>L'. lst_assign bs K L = Inr L' \<and> lst_at L' bs xs"
  using lst_copy_ok [OF assms(2-5)] by (simp add: lst_assign_def lst_clear_ok [OF assms(1)])

end
