(* ===== verification/List_Sessions.thy ===== *)
theory List_Sessions
  imports Linked_List
begin

text \<open>
  Linked lists as their clients see them: any sequence of operations is answered as the same
  sequence on a list, exceptions included; a list is a first-in-first-out queue.
\<close>

section \<open>Requests\<close>

text \<open>\<open>it\<close> after \<open>n\<close> increments.\<close>

primrec li_steps :: "nat \<Rightarrow> 'a lst \<Rightarrow> list_it \<Rightarrow> list_it result" where
  "li_steps 0 L it = Inr it"
| "li_steps (Suc n) L it = rbind (li_steps n L it) (li_next L)"

lemma li_steps_at: "lst_at L ps xs \<Longrightarrow> li_steps n L (lst_begin L) = Inr (it_at ps n)"
  by (induction n) (simp_all add: lst_begin_at li_next_at)

text \<open>Going forward and back; the walk of a range-based loop.\<close>

fun li_walk :: "nat \<Rightarrow> 'a lst \<Rightarrow> list_it \<Rightarrow> 'a list result" where
  "li_walk k L it = (if it = lst_end L then Inr [] else case k of 0 \<Rightarrow> Inl Undefined
     | Suc k' \<Rightarrow> rbind (li_deref L it) (\<lambda>x. rbind (li_next L it) (\<lambda>it'. rbind (li_walk k' L it') (\<lambda>xs. Inr (x # xs)))))"

declare li_walk.simps [simp del]

lemma li_walk_at:
  assumes L: "lst_at L ps xs"
  shows "i + k = length xs \<Longrightarrow> li_walk k L (it_at ps i) = Inr (drop i xs)"
proof (induction k arbitrary: i)
  case 0
  then show ?case using lst_atD(8) [OF L] by (subst li_walk.simps) (simp add: lst_end_at [OF L])
next
  case (Suc k)
  then have "it_at ps i \<noteq> lst_end L" using lst_atD(8) [OF L] by (simp add: lst_end_at [OF L] it_at_def)
  moreover have "li_walk k L (it_at ps (Suc i)) = Inr (drop (Suc i) xs)" using Suc by simp
  ultimately show ?case using Suc.prems
    by (subst li_walk.simps) (simp add: li_deref_at [OF L] li_next_at [OF L] Cons_nth_drop_Suc)
qed

datatype 'a list_request =
    Add_back 'a | Add_front 'a | Take_back | Take_front | See_front | See_back | Count
  | Add_at nat 'a | Remove_at nat | Read_at nat | Read_all | Remove_all

datatype 'a list_answer = Ok | Seen 'a | Counted nat | All "'a list"

fun spec_serve :: "'a list_request \<Rightarrow> 'a list \<Rightarrow> 'a list_answer result \<times> 'a list" where
  "spec_serve (Add_back x) xs = (Inr Ok, xs @ [x])"
| "spec_serve (Add_front x) xs = (Inr Ok, x # xs)"
| "spec_serve Take_back xs = (if xs = [] then (Inl Std_exception, xs) else (Inr Ok, butlast xs))"
| "spec_serve Take_front xs = (if xs = [] then (Inl Std_exception, xs) else (Inr Ok, tl xs))"
| "spec_serve See_front xs = (if xs = [] then Inl Std_exception else Inr (Seen (hd xs)), xs)"
| "spec_serve See_back xs = (if xs = [] then Inl Std_exception else Inr (Seen (last xs)), xs)"
| "spec_serve Count xs = (Inr (Counted (length xs)), xs)"
| "spec_serve (Add_at i x) xs = (Inr (Seen x), take i xs @ x # drop i xs)"
| "spec_serve (Remove_at i) xs = (if i < length xs then (Inr Ok, take i xs @ drop (Suc i) xs) else (Inl Std_exception, xs))"
| "spec_serve (Read_at i) xs = (if i < length xs then Inr (Seen (xs ! i)) else Inl Std_exception, xs)"
| "spec_serve Read_all xs = (Inr (All xs), xs)"
| "spec_serve Remove_all xs = (Inr Ok, [])"

text \<open>The same on a linked list; positions are reached from \<^verbatim>\<open>begin()\<close>, \<open>b\<close> is what \<^verbatim>\<open>new\<close> would return.\<close>

definition altered :: "'a lst \<Rightarrow> 'a lst result \<Rightarrow> 'a list_answer result \<times> 'a lst" where
  "altered L r = (case r of Inl e \<Rightarrow> (Inl e, L) | Inr L' \<Rightarrow> (Inr Ok, L'))"

fun lst_serve :: "nat \<Rightarrow> 'a list_request \<Rightarrow> 'a lst \<Rightarrow> 'a list_answer result \<times> 'a lst" where
  "lst_serve b (Add_back x) L = altered L (lst_push_back b x L)"
| "lst_serve b (Add_front x) L = altered L (lst_push_front b x L)"
| "lst_serve b Take_back L = altered L (lst_pop_back L)"
| "lst_serve b Take_front L = altered L (lst_pop_front L)"
| "lst_serve b See_front L = (rbind (lst_front L) (\<lambda>x. Inr (Seen x)), L)"
| "lst_serve b See_back L = (rbind (lst_back L) (\<lambda>x. Inr (Seen x)), L)"
| "lst_serve b Count L = (Inr (Counted (ls_count L)), L)"
| "lst_serve b (Add_at i x) L =
     (case rbind (li_steps i L (lst_begin L)) (\<lambda>it. lst_insert b it x L) of Inl e \<Rightarrow> (Inl e, L)
      | Inr (it, L') \<Rightarrow> (rbind (li_deref L' it) (\<lambda>y. Inr (Seen y)), L'))"
| "lst_serve b (Remove_at i) L =
     altered L (rbind (li_steps i L (lst_begin L)) (\<lambda>it. rbind (lst_erase it L) (\<lambda>(_, L'). Inr L')))"
| "lst_serve b (Read_at i) L = (rbind (li_steps i L (lst_begin L)) (\<lambda>it. rbind (li_deref L it) (\<lambda>x. Inr (Seen x))), L)"
| "lst_serve b Read_all L = (rbind (li_walk (ls_count L) L (lst_begin L)) (\<lambda>xs. Inr (All xs)), L)"
| "lst_serve b Remove_all L = altered L (lst_clear L)"

fun lst_session :: "(nat \<times> 'a list_request) list \<Rightarrow> 'a lst \<Rightarrow> 'a list_answer result list \<times> 'a lst" where
  "lst_session [] L = ([], L)"
| "lst_session ((b, r) # rs) L = (let (a, L1) = lst_serve b r L; (as, L2) = lst_session rs L1 in (a # as, L2))"

fun spec_session :: "'a list_request list \<Rightarrow> 'a list \<Rightarrow> 'a list_answer result list \<times> 'a list" where
  "spec_session [] xs = ([], xs)"
| "spec_session (r # rs) xs = (let (a, ys) = spec_serve r xs; (as, zs) = spec_session rs ys in (a # as, zs))"

text \<open>The allocator never returns null nor the address of a node that is in use.\<close>

fun alloc_fresh :: "(nat \<times> 'a list_request) list \<Rightarrow> 'a lst \<Rightarrow> bool" where
  "alloc_fresh [] L = True"
| "alloc_fresh ((b, r) # rs) L = (b \<noteq> 0 \<and> ls_nodes L b = None \<and> alloc_fresh rs (snd (lst_serve b r L)))"

lemma lst_serve_ok:
  assumes L: "lst_at L ps xs" and b: "b \<noteq> 0" "ls_nodes L b = None"
  shows "\<exists>L' qs. lst_serve b r L = (fst (spec_serve r xs), L') \<and> lst_at L' qs (snd (spec_serve r xs))"
proof -
  note d = lst_atD [OF L]
  have b': "b \<notin> set ps" using b(2) d(4) by auto
  show ?thesis
  proof (cases r)
    case (Add_back x)
    then show ?thesis using lst_push_back_ok [OF L b(1) b', of x] by (auto simp: altered_def)
  next
    case (Add_front x)
    then show ?thesis using lst_push_front_ok [OF L b(1) b', of x] by (auto simp: altered_def)
  next
    case Take_back
    then show ?thesis using lst_pop_back_ok [OF L] lst_pop_empty [of L ps] L by (cases "xs = []") (auto simp: altered_def)
  next
    case Take_front
    then show ?thesis using lst_pop_front_ok [OF L] lst_pop_empty [of L ps] L by (cases "xs = []") (auto simp: altered_def)
  next
    case (Add_at i x)
    let ?i = "min i (length xs)"
    have "it_at ps i = it_at ps ?i" "take ?i xs = take i xs" "drop ?i xs = drop i xs" using d(8) by (simp_all add: it_at_def min_def)
    moreover obtain L' where "lst_insert b (it_at ps ?i) x L = Inr (it_at (take ?i ps @ b # drop ?i ps) ?i, L')"
      "lst_at L' (take ?i ps @ b # drop ?i ps) (take ?i xs @ x # drop ?i xs)"
      using lst_insert_ok [OF L _ b(1) b', of ?i x] by auto
    ultimately show ?thesis by (auto simp: Add_at li_steps_at [OF L] li_deref_at nth_append)
  next
    case (Remove_at i)
    show ?thesis
    proof (cases "i < length xs")
      case True
      then show ?thesis using lst_erase_ok [OF L True] by (auto simp: Remove_at li_steps_at [OF L] altered_def)
    next
      case False
      then have "lst_erase (it_at ps i) L = Inl Std_exception" using d(8) by (simp add: lst_erase_def it_at_def)
      then show ?thesis using L False by (auto simp: Remove_at li_steps_at [OF L] altered_def)
    qed
  next
    case (Read_at i)
    then show ?thesis using L by (auto simp: li_steps_at [OF L] li_deref_at [OF L])
  next
    case Read_all
    then show ?thesis using L li_walk_at [OF L, of 0 "length xs"] d(7) by (auto simp: lst_begin_at [OF L])
  next
    case Remove_all
    then show ?thesis using lst_clear_ok [OF L] lst_new_ok by (auto simp: altered_def)
  qed (use L d(7) in \<open>auto simp: lst_front_ok [OF L] lst_back_ok [OF L]\<close>)
qed

lemma lst_session_ok:
  "lst_at L ps xs \<Longrightarrow> alloc_fresh rs L \<Longrightarrow>
    \<exists>L' qs. lst_session rs L = (fst (spec_session (map snd rs) xs), L') \<and> lst_at L' qs (snd (spec_session (map snd rs) xs))"
proof (induction rs arbitrary: L ps xs)
  case (Cons br rs)
  obtain b r where br: "br = (b, r)" by (cases br)
  obtain L1 qs where 1: "lst_serve b r L = (fst (spec_serve r xs), L1)" "lst_at L1 qs (snd (spec_serve r xs))"
    using lst_serve_ok [OF Cons.prems(1), of b r] Cons.prems(2) br by auto
  obtain L2 qs' where 2: "lst_session rs L1 = (fst (spec_session (map snd rs) (snd (spec_serve r xs))), L2)"
    "lst_at L2 qs' (snd (spec_session (map snd rs) (snd (spec_serve r xs))))"
    using Cons.IH [OF 1(2)] Cons.prems(2) br 1(1) by auto
  then show ?case using 1(1) by (auto simp: br case_prod_beta Let_def)
qed auto


definition list_requests :: "(nat \<times> nat list_request) list" where
  "list_requests = [(3, Add_back 5), (7, Add_front 6), (4, Add_at 1 9), (9, Read_all), (9, Remove_at 0), (7, Add_back 8),
     (2, Take_front), (2, Read_all), (2, Take_back), (2, Take_back), (2, Take_back)]"

lemma list_requests_facts:
  "alloc_fresh list_requests lst_new"
  "spec_session (map snd list_requests) [] = ([Inr Ok, Inr Ok, Inr (Seen 9), Inr (All [6, 9, 5]), Inr Ok, Inr Ok, Inr Ok,
     Inr (All [5, 8]), Inr Ok, Inr Ok, Inl Std_exception], [])"
  by code_simp+


section \<open>Copies\<close>

text \<open>
  Copying a list with any fresh addresses gives a list with the same elements, and
  assigning over a list gives the same, whatever it held before.
\<close>
lemma list_copies_are_equal:
  assumes "lst_rep L xs" "lst_rep K ys" "length bs = length xs" "distinct bs" "0 \<notin> set bs"
  shows "\<exists>L'. lst_copy bs L = Inr L' \<and> lst_assign bs K L = Inr L' \<and> lst_rep L' xs"
proof -
  obtain ps qs where "lst_at L ps xs" "lst_at K qs ys" using assms(1,2) by (auto simp: lst_rep_def)
  then show ?thesis using lst_copy_ok [of L ps xs bs] assms(3-5) by (auto simp: lst_assign_def lst_clear_ok lst_rep_def)
qed

definition three :: "nat lst" where
  "three = snd (lst_session [(3, Add_back 5), (7, Add_front 6), (4, Add_at 1 9)] lst_new)"

lemma three_rep: "lst_rep three [6, 9, 5]"
proof -
  have "alloc_fresh [(3, Add_back 5), (7, Add_front 6), (4, Add_at 1 9)] (lst_new :: nat lst)" by code_simp
  from lst_session_ok [OF lst_new_ok this] show ?thesis by (auto simp: three_def lst_rep_def)
qed

lemma list_copies_are_equal_witness:
  "\<exists>L'. lst_copy [1, 2, 8] three = Inr L' \<and> lst_assign [1, 2, 8] lst_new three = Inr L' \<and> lst_rep L' [6, 9, 5]"
proof -
  have "lst_rep (lst_new :: nat lst) []" using lst_new_ok lst_rep_def by blast
  from list_copies_are_equal [OF three_rep this, of "[1, 2, 8]"] show ?thesis by simp
qed

section \<open>The contract\<close>

definition lst_elems :: "'a lst \<Rightarrow> 'a list" where
  "lst_elems L = (case li_walk (ls_count L) L (lst_begin L) of Inl e \<Rightarrow> [] | Inr xs \<Rightarrow> xs)"

lemma lst_elems_at: "lst_at L ps xs \<Longrightarrow> lst_elems L = xs"
  using li_walk_at [of L ps xs 0 "length xs"] lst_atD(7) [of L ps xs] by (simp add: lst_elems_def lst_begin_at)

text \<open>An allocator that goes on behind the highest node in use.\<close>

definition next_node :: "'a lst \<Rightarrow> nat" where
  "next_node L = Suc (Max (insert 0 (dom (ls_nodes L))))"

lemma next_node_fresh: "lst_at L ps xs \<Longrightarrow> next_node L \<noteq> 0 \<and> next_node L \<notin> set ps"
proof -
  assume L: "lst_at L ps xs"
  have "a < next_node L" if "a \<in> set ps" for a
  proof -
    have "a \<le> Max (insert 0 (set ps))" by (rule Max_ge) (use that in auto)
    then show ?thesis by (simp add: next_node_def lst_atD(4) [OF L])
  qed
  then show ?thesis by (auto simp: next_node_def)
qed

interpretation queue: fifo lst_elems "\<lambda>L. lst_rep L (lst_elems L)" "\<lambda>x L. lst_push_back (next_node L) x L" lst_pop_back
  lst_front lst_back ls_count Std_exception lst_pop_front
proof (unfold_locales, goal_cases)
  case (1 L x)
  then obtain ps where L: "lst_at L ps (lst_elems L)" by (auto simp: lst_rep_def)
  then obtain L' where "lst_push_back (next_node L) x L = Inr L'" "lst_at L' (ps @ [next_node L]) (lst_elems L @ [x])"
    using lst_push_back_ok [OF L, of "next_node L" x] next_node_fresh [OF L] by auto
  then show ?case using lst_elems_at [of L'] by (auto simp: lst_rep_def)
next
  case (2 L)
  then obtain ps where L: "lst_at L ps (lst_elems L)" by (auto simp: lst_rep_def)
  then obtain L' where "lst_pop_back L = Inr L'" "lst_at L' (butlast ps) (butlast (lst_elems L))"
    using lst_pop_back_ok [OF L 2(2)] by auto
  then show ?case using lst_elems_at [of L'] by (auto simp: lst_rep_def)
next
  case (3 L)
  then show ?case using lst_pop_empty [of L] by (auto simp: lst_rep_def)
next
  case (4 L)
  then show ?case using lst_front_ok [of L] by (auto simp: lst_rep_def)
next
  case (5 L)
  then show ?case using lst_back_ok [of L] by (auto simp: lst_rep_def)
next
  case (6 L)
  then show ?case using lst_atD(7) [of L] by (auto simp: lst_rep_def)
next
  case (7 L)
  then obtain ps where L: "lst_at L ps (lst_elems L)" by (auto simp: lst_rep_def)
  then obtain L' where "lst_pop_front L = Inr L'" "lst_at L' (tl ps) (tl (lst_elems L))"
    using lst_pop_front_ok [OF L 7(2)] by auto
  then show ?case using lst_elems_at [of L'] by (auto simp: lst_rep_def)
next
  case (8 L)
  then show ?case using lst_pop_empty [of L] by (auto simp: lst_rep_def)
qed

text \<open>An element that is pushed comes out after exactly the elements that were there.\<close>

lemma lst_first_in_first_out:
  assumes "lst_rep L (lst_elems L)"
  shows "rbind (rbind (lst_push_back (next_node L) x L) (pop_times lst_pop_front (ls_count L))) lst_front = Inr x"
  by (rule queue.first_in_first_out [OF assms])

section \<open>What goes wrong\<close>

text \<open>
  The iterator that \<^verbatim>\<open>erase\<close> returns for the last element still holds the deleted node: it differs
  from \<^verbatim>\<open>end()\<close>, and stepping it on reads the deleted node.
\<close>

lemma erase_last_is_not_end:
  assumes "lst_at L ps xs" "xs \<noteq> []"
  shows "\<exists>it L'. lst_erase (it_at ps (length xs - 1)) L = Inr (it, L') \<and> it \<noteq> lst_end L' \<and> li_next L' it = Inl Undefined"
proof -
  note d = lst_atD [OF assms(1)]
  have i: "length xs - 1 < length xs" "Suc (length xs - 1) = length xs" using assms(2) by auto
  let ?p = "ps ! (length xs - 1)" and ?qs = "take (length xs - 1) ps"
  obtain L' where L': "lst_erase (it_at ps (length xs - 1)) L = Inr (\<lparr>li_end = True, li_cur = ?p\<rparr>, L')"
    "lst_at L' ?qs (take (length xs - 1) xs)"
    using lst_erase_ok [OF assms(1) i(1)] i(2) d(8) by auto
  have "ps = ?qs @ ?p # []" using id_take_nth_drop [of "length xs - 1" ps] i d(8) by simp
  then have "?p \<notin> set ?qs" using d(2) by (metis distinct_append disjoint_iff list.set_intros(1))
  moreover have "?p \<noteq> 0" using nth_nonzero [OF assms(1), of "length xs - 1"] i(1) d(8) by simp
  moreover have "ls_tail L' \<in> insert 0 (set ?qs)"
    unfolding lst_atD(6) [OF L'(2)] using last_in_set [of "0 # ?qs"] by (simp only: list.set(2) list.distinct not_False_eq_True)
  ultimately have "ls_tail L' \<noteq> ?p" by (cases "ls_tail L' = ?p") simp_all
  then have "lst_end L' \<noteq> \<lparr>li_end = True, li_cur = ?p\<rparr>" by (simp add: lst_end_def)
  moreover have "ls_nodes L' ?p = None" using lst_atD(4) [OF L'(2)] \<open>?p \<notin> set ?qs\<close> by auto
  then have "li_next L' \<lparr>li_end = True, li_cur = ?p\<rparr> = Inl Undefined" using \<open>?p \<noteq> 0\<close> by (simp add: li_next_def node_at_def of_option_def)
  ultimately show ?thesis using L'(1) by auto
qed

end
