(* ===== verification/Rb_Nodes.thy ===== *)
theory Rb_Nodes
  imports Key_Index
begin

text \<open>
  \<^verbatim>\<open>stlite/map.hpp\<close>: a red-black tree of nodes with parent pointers, in a store from addresses to
  nodes; 0 is the null pointer. \<^verbatim>\<open>tree_root\<close> is passed by reference, so that it is a part of the
  state of every operation on nodes; a reference to a pointer (\<^verbatim>\<open>GetSelfPath\<close>) is a place. What
  \<^verbatim>\<open>new\<close> returns is an argument; \<open>lt\<close> is the comparer, \<open>d\<close> is \<^verbatim>\<open>T()\<close>. A recursion or loop along the
  tree gets a number of steps; using these up, like a failing assertion, is \<open>Undefined\<close>.
  The colours of both nephews are read before the cases of \<^verbatim>\<open>DeleteFixUp\<close> that look at them.
\<close>

section \<open>Nodes\<close>

datatype rb_color = Red | Black

record ('k, 'v) rnode =
  rn_key :: 'k
  rn_val :: 'v
  rn_left :: nat
  rn_right :: nat
  rn_parent :: nat
  rn_color :: rb_color

record ('k, 'v) rb =
  rb_nodes :: "nat \<rightharpoonup> ('k, 'v) rnode"
  rb_root :: nat

definition rb_node :: "nat \<Rightarrow> ('k, 'v) rb \<Rightarrow> ('k, 'v) rnode result" where
  "rb_node p R = of_option Undefined (rb_nodes R p)"

definition rb_mod :: "nat \<Rightarrow> (('k, 'v) rnode \<Rightarrow> ('k, 'v) rnode) \<Rightarrow> ('k, 'v) rb \<Rightarrow> ('k, 'v) rb result" where
  "rb_mod p f R = rbind (rb_node p R) (\<lambda>n. Inr (R\<lparr>rb_nodes := (rb_nodes R)(p \<mapsto> f n)\<rparr>))"

definition set_left :: "nat \<Rightarrow> nat \<Rightarrow> ('k, 'v) rb \<Rightarrow> ('k, 'v) rb result" where
  "set_left p q = rb_mod p (\<lambda>n. n\<lparr>rn_left := q\<rparr>)"

definition set_right :: "nat \<Rightarrow> nat \<Rightarrow> ('k, 'v) rb \<Rightarrow> ('k, 'v) rb result" where
  "set_right p q = rb_mod p (\<lambda>n. n\<lparr>rn_right := q\<rparr>)"

definition set_parent :: "nat \<Rightarrow> nat \<Rightarrow> ('k, 'v) rb \<Rightarrow> ('k, 'v) rb result" where
  "set_parent p q = rb_mod p (\<lambda>n. n\<lparr>rn_parent := q\<rparr>)"

definition paint :: "nat \<Rightarrow> rb_color \<Rightarrow> ('k, 'v) rb \<Rightarrow> ('k, 'v) rb result" where
  "paint p c = rb_mod p (\<lambda>n. n\<lparr>rn_color := c\<rparr>)"

definition new_node :: "nat \<Rightarrow> 'k \<Rightarrow> 'v \<Rightarrow> nat \<Rightarrow> rb_color \<Rightarrow> ('k, 'v) rb \<Rightarrow> ('k, 'v) rb" where
  "new_node b k v par c R = R\<lparr>rb_nodes := (rb_nodes R)(b \<mapsto>
     \<lparr>rn_key = k, rn_val = v, rn_left = 0, rn_right = 0, rn_parent = par, rn_color = c\<rparr>)\<rparr>"

definition free_node :: "nat \<Rightarrow> ('k, 'v) rb \<Rightarrow> ('k, 'v) rb result" where
  "free_node p R = (if p = 0 then Inr R else rbind (rb_node p R) (\<lambda>_. Inr (R\<lparr>rb_nodes := (rb_nodes R)(p := None)\<rparr>)))"

definition grand_parent :: "nat \<Rightarrow> ('k, 'v) rb \<Rightarrow> nat result" where
  "grand_parent p R = rbind (rb_node p R) (\<lambda>n.
     if rn_parent n = 0 then Inr 0 else rbind (rb_node (rn_parent n) R) (\<lambda>pn. Inr (rn_parent pn)))"

definition uncle :: "nat \<Rightarrow> ('k, 'v) rb \<Rightarrow> nat result" where
  "uncle p R = rbind (grand_parent p R) (\<lambda>g. if g = 0 then Inr 0
     else rbind (rb_node p R) (\<lambda>n. rbind (rb_node g R) (\<lambda>gn.
       Inr (if rn_parent n = rn_left gn then rn_right gn else rn_left gn))))"

definition sibling :: "nat \<Rightarrow> ('k, 'v) rb \<Rightarrow> nat result" where
  "sibling p R = rbind (rb_node p R) (\<lambda>n. if rn_parent n = 0 then Inr 0
     else rbind (rb_node (rn_parent n) R) (\<lambda>pn. Inr (if p = rn_left pn then rn_right pn else rn_left pn)))"

datatype place = The_root | Left_of nat | Right_of nat

definition self_path :: "nat \<Rightarrow> ('k, 'v) rb \<Rightarrow> place result" where
  "self_path p R = rbind (rb_node p R) (\<lambda>n. if rn_parent n = 0 then Inr The_root
     else rbind (rb_node (rn_parent n) R) (\<lambda>pn.
       Inr (if p = rn_left pn then Left_of (rn_parent n) else Right_of (rn_parent n))))"

fun set_place :: "place \<Rightarrow> nat \<Rightarrow> ('k, 'v) rb \<Rightarrow> ('k, 'v) rb result" where
  "set_place The_root q R = Inr (R\<lparr>rb_root := q\<rparr>)"
| "set_place (Left_of p) q R = set_left p q R"
| "set_place (Right_of p) q R = set_right p q R"

text \<open>\<^verbatim>\<open>SetChildrensParent\<close>.\<close>

definition adopt :: "nat \<Rightarrow> ('k, 'v) rb \<Rightarrow> ('k, 'v) rb result" where
  "adopt p R = rbind (rb_node p R) (\<lambda>n.
     rbind (if rn_left n \<noteq> 0 then set_parent (rn_left n) p R else Inr R) (\<lambda>R1.
     if rn_right n \<noteq> 0 then set_parent (rn_right n) p R1 else Inr R1))"

definition rotate_left :: "nat \<Rightarrow> ('k, 'v) rb \<Rightarrow> ('k, 'v) rb result" where
  "rotate_left p R = rbind (rb_node p R) (\<lambda>n. if rn_right n = 0 then Inl Undefined
     else rbind (self_path p R) (\<lambda>path. rbind (rb_node (rn_right n) R) (\<lambda>q.
       rbind (set_right p (rn_left q) R) (\<lambda>R1. rbind (set_left (rn_right n) p R1) (\<lambda>R2.
       rbind (adopt p R2) (\<lambda>R3. rbind (adopt (rn_right n) R3) (\<lambda>R4.
       rbind (set_place path (rn_right n) R4) (set_parent (rn_right n) (rn_parent n)))))))))"

definition rotate_right :: "nat \<Rightarrow> ('k, 'v) rb \<Rightarrow> ('k, 'v) rb result" where
  "rotate_right p R = rbind (rb_node p R) (\<lambda>n. if rn_left n = 0 then Inl Undefined
     else rbind (self_path p R) (\<lambda>path. rbind (rb_node (rn_left n) R) (\<lambda>q.
       rbind (set_left p (rn_right q) R) (\<lambda>R1. rbind (set_right (rn_left n) p R1) (\<lambda>R2.
       rbind (adopt p R2) (\<lambda>R3. rbind (adopt (rn_left n) R3) (\<lambda>R4.
       rbind (set_place path (rn_left n) R4) (set_parent (rn_left n) (rn_parent n)))))))))"

text \<open>\<open>p == nullptr || p->color == BLACK\<close>, and \<open>p != nullptr && p->color == RED\<close>.\<close>

definition none_or_black :: "nat \<Rightarrow> ('k, 'v) rb \<Rightarrow> bool result" where
  "none_or_black p R = (if p = 0 then Inr True else rbind (rb_node p R) (\<lambda>n. Inr (rn_color n = Black)))"

definition some_red :: "nat \<Rightarrow> ('k, 'v) rb \<Rightarrow> bool result" where
  "some_red p R = (if p = 0 then Inr False else rbind (rb_node p R) (\<lambda>n. Inr (rn_color n = Red)))"

section \<open>Insertion\<close>

definition father_of :: "nat \<Rightarrow> ('k, 'v) rb \<Rightarrow> nat result" where
  "father_of p R = rbind (rb_node p R) (\<lambda>n. Inr (rn_parent n))"

text \<open>\<^verbatim>\<open>assert(p->parent == q)\<close>.\<close>

definition assert_father :: "nat \<Rightarrow> nat \<Rightarrow> ('k, 'v) rb \<Rightarrow> ('k, 'v) rb result" where
  "assert_father p q R = rbind (father_of p R) (\<lambda>q'. if q' = q then Inr R else Inl Undefined)"

text \<open>The last rotation, at the grandparent \<open>g\<close> of \<open>p\<close>.\<close>

definition settle :: "(nat \<Rightarrow> ('k, 'v) rb \<Rightarrow> ('k, 'v) rb result) \<Rightarrow> nat \<Rightarrow> nat \<Rightarrow> ('k, 'v) rb \<Rightarrow> ('k, 'v) rb result" where
  "settle rot p g R = rbind (rot g R) (\<lambda>R1. rbind (father_of p R1) (\<lambda>q.
     rbind (assert_father g q R1) (\<lambda>R2. rbind (paint q Black R2) (paint g Red))))"

fun insert_fix_up :: "nat \<Rightarrow> nat \<Rightarrow> ('k, 'v) rb \<Rightarrow> ('k, 'v) rb result" where
  "insert_fix_up 0 p R = Inl Undefined"
| "insert_fix_up (Suc k) p R = rbind (rb_node p R) (\<lambda>n.
     if rn_parent n = 0 then paint p Black R
     else rbind (rb_node (rn_parent n) R) (\<lambda>pn.
       if rn_color pn = Black then Inr R
       else if rn_parent pn = 0 then paint (rn_parent n) Black R
       else rbind (uncle p R) (\<lambda>u. rbind (grand_parent p R) (\<lambda>g. rbind (some_red u R) (\<lambda>red.
         if red then
           rbind (paint (rn_parent n) Black R) (\<lambda>R1. rbind (paint u Black R1) (\<lambda>R2.
           rbind (paint g Red R2) (insert_fix_up k g)))
         else rbind (rb_node g R) (\<lambda>gn.
           if rn_left gn = rn_parent n then
             (if rn_right pn = p then rbind (rotate_left (rn_parent n) R) (\<lambda>R1. rbind (assert_father (rn_parent n) p R1) (insert_fix_up k (rn_parent n)))
              else settle rotate_right p g R)
           else
             (if rn_left pn = p then rbind (rotate_right (rn_parent n) R) (\<lambda>R1. rbind (assert_father (rn_parent n) p R1) (insert_fix_up k (rn_parent n)))
              else settle rotate_left p g R)))))))"

declare insert_fix_up.simps [simp del]

text \<open>\<open>f\<close> is the number of steps for \<^verbatim>\<open>InsertFixUp\<close>, \<open>b\<close> the address of a new node.\<close>

fun node_insert :: "('k \<Rightarrow> 'k \<Rightarrow> bool) \<Rightarrow> nat \<Rightarrow> nat \<Rightarrow> nat \<Rightarrow> 'k \<Rightarrow> 'v \<Rightarrow> bool \<Rightarrow> nat \<Rightarrow> ('k, 'v) rb \<Rightarrow> ((nat \<times> bool) \<times> ('k, 'v) rb) result" where
  "node_insert lt f 0 b k v allow p R = Inl Undefined"
| "node_insert lt f (Suc i) b k v allow p R = rbind (rb_node p R) (\<lambda>n.
     if lt k (rn_key n) then
       (if rn_left n = 0 then rbind (set_left p b (new_node b k v p Red R)) (\<lambda>R1.
          rbind (insert_fix_up f b R1) (\<lambda>R2. Inr ((b, True), R2)))
        else node_insert lt f i b k v allow (rn_left n) R)
     else if lt (rn_key n) k then
       (if rn_right n = 0 then rbind (set_right p b (new_node b k v p Red R)) (\<lambda>R1.
          rbind (insert_fix_up f b R1) (\<lambda>R2. Inr ((b, True), R2)))
        else node_insert lt f i b k v allow (rn_right n) R)
     else if allow then rbind (rb_mod p (\<lambda>n. n\<lparr>rn_val := v\<rparr>) R) (\<lambda>R1. Inr ((p, False), R1))
     else Inr ((p, False), R))"

declare node_insert.simps [simp del]

fun node_find :: "('k \<Rightarrow> 'k \<Rightarrow> bool) \<Rightarrow> nat \<Rightarrow> 'k \<Rightarrow> nat \<Rightarrow> ('k, 'v) rb \<Rightarrow> nat result" where
  "node_find lt 0 k p R = Inl Undefined"
| "node_find lt (Suc i) k p R = rbind (rb_node p R) (\<lambda>n.
     if lt k (rn_key n) then (if rn_left n = 0 then Inr 0 else node_find lt i k (rn_left n) R)
     else if lt (rn_key n) k then (if rn_right n = 0 then Inr 0 else node_find lt i k (rn_right n) R)
     else Inr p)"

declare node_find.simps [simp del]

section \<open>Removal\<close>

definition swap_with_successor :: "nat \<Rightarrow> nat \<Rightarrow> ('k, 'v) rb \<Rightarrow> ('k, 'v) rb result" where
  "swap_with_successor p s R =
     rbind (rb_node p R) (\<lambda>n. rbind (self_path p R) (\<lambda>path_n. rbind (rb_node s R) (\<lambda>m. rbind (self_path s R) (\<lambda>path_s.
     rbind (paint p (rn_color m) R) (\<lambda>R1. rbind (paint s (rn_color n) R1) (\<lambda>R2.
     if rn_parent m = p then
       rbind (set_left s (rn_left n) R2) (\<lambda>R3. rbind (set_right s p R3) (\<lambda>R4. rbind (adopt s R4) (\<lambda>R5.
       rbind (set_parent s (rn_parent n) R5) (\<lambda>R6. rbind (set_place path_n s R6) (\<lambda>R7.
       rbind (set_left p (rn_left m) R7) (\<lambda>R8. rbind (set_right p (rn_right m) R8) (adopt p)))))))
     else
       rbind (set_left s (rn_left n) R2) (\<lambda>R3. rbind (set_right s (rn_right n) R3) (\<lambda>R4. rbind (adopt s R4) (\<lambda>R5.
       rbind (set_parent s (rn_parent n) R5) (\<lambda>R6. rbind (set_place path_n s R6) (\<lambda>R7.
       rbind (set_left p (rn_left m) R7) (\<lambda>R8. rbind (set_right p (rn_right m) R8) (\<lambda>R9. rbind (adopt p R9) (\<lambda>R10.
       rbind (set_parent p (rn_parent m) R10) (set_place path_s p)))))))))))))))"

fun delete_fix_up :: "nat \<Rightarrow> nat \<Rightarrow> ('k, 'v) rb \<Rightarrow> ('k, 'v) rb result" where
  "delete_fix_up 0 p R = Inl Undefined"
| "delete_fix_up (Suc k) p R = rbind (rb_node p R) (\<lambda>n.
     if rn_color n \<noteq> Black then Inl Undefined
     else if p = rb_root R then Inr R
     else rbind (sibling p R) (\<lambda>s. rbind (rb_node s R) (\<lambda>sn. rbind (rb_node (rn_parent n) R) (\<lambda>pn.
       if rn_color sn = Red then
         rbind (paint (rn_parent n) Red R) (\<lambda>R1. rbind (paint s Black R1) (\<lambda>R2.
         rbind (if p = rn_left pn then rotate_left (rn_parent n) R2 else rotate_right (rn_parent n) R2) (delete_fix_up k p)))
       else let close = (if p = rn_left pn then rn_left sn else rn_right sn);
                distant = (if p = rn_left pn then rn_right sn else rn_left sn) in
         rbind (none_or_black close R) (\<lambda>close_black. rbind (none_or_black distant R) (\<lambda>distant_black.
           if rn_color pn = Red \<and> close_black \<and> distant_black then
             rbind (paint s Red R) (paint (rn_parent n) Black)
           else if rn_color pn = Black \<and> close_black \<and> distant_black then
             rbind (paint s Red R) (delete_fix_up k (rn_parent n))
           else if \<not> close_black then
             rbind (paint s Red R) (\<lambda>R1. rbind (paint close Black R1) (\<lambda>R2.
             rbind (if p = rn_left pn then rotate_right s R2 else rotate_left s R2) (delete_fix_up k p)))
           else
             rbind (paint s (rn_color pn) R) (\<lambda>R1. rbind (paint (rn_parent n) (rn_color sn) R1) (\<lambda>R2.
             rbind (paint distant Black R2) (\<lambda>R3.
             if p = rn_left pn then rotate_left (rn_parent n) R3 else rotate_right (rn_parent n) R3)))))))))"

declare delete_fix_up.simps [simp del]

text \<open>The loops \<^verbatim>\<open>while (p->left != nullptr) p = p->left\<close>, and to the right.\<close>

fun leftmost :: "nat \<Rightarrow> nat \<Rightarrow> ('k, 'v) rb \<Rightarrow> nat result" where
  "leftmost 0 p R = Inl Undefined"
| "leftmost (Suc k) p R = rbind (rb_node p R) (\<lambda>n. if rn_left n = 0 then Inr p else leftmost k (rn_left n) R)"

fun rightmost :: "nat \<Rightarrow> nat \<Rightarrow> ('k, 'v) rb \<Rightarrow> nat result" where
  "rightmost 0 p R = Inl Undefined"
| "rightmost (Suc k) p R = rbind (rb_node p R) (\<lambda>n. if rn_right n = 0 then Inr p else rightmost k (rn_right n) R)"

declare leftmost.simps [simp del] rightmost.simps [simp del]

text \<open>A node without two sons, and the recursion of \<^verbatim>\<open>DeleteNode\<close>; \<open>f\<close> bounds its loop and \<^verbatim>\<open>DeleteFixUp\<close>.\<close>

definition unhook :: "nat \<Rightarrow> nat \<Rightarrow> ('k, 'v) rb \<Rightarrow> ('k, 'v) rb result" where
  "unhook f p R = rbind (rb_node p R) (\<lambda>n.
     if rn_parent n = 0 \<and> rn_left n = 0 \<and> rn_right n = 0 then rbind (free_node p R) (\<lambda>R1. Inr (R1\<lparr>rb_root := 0\<rparr>))
     else if rn_left n = 0 \<and> rn_right n = 0 then
       rbind (if rn_color n = Black then delete_fix_up f p R else Inr R) (\<lambda>R1. rbind (self_path p R1) (\<lambda>path.
       rbind (set_place path 0 R1) (free_node p)))
     else let q = (if rn_left n \<noteq> 0 then rn_left n else rn_right n) in
       rbind (rb_node q R) (\<lambda>qn. if rn_color qn \<noteq> Red then Inl Undefined
       else rbind (self_path p R) (\<lambda>path. rbind (set_place path q R) (\<lambda>R1. rbind (set_parent q (rn_parent n) R1) (\<lambda>R2.
         rbind (paint q Black R2) (free_node p))))))"

fun delete_node :: "nat \<Rightarrow> nat \<Rightarrow> nat \<Rightarrow> ('k, 'v) rb \<Rightarrow> ('k, 'v) rb result" where
  "delete_node f 0 p R = Inl Undefined"
| "delete_node f (Suc i) p R = rbind (rb_node p R) (\<lambda>n.
     if rn_left n \<noteq> 0 \<and> rn_right n \<noteq> 0 then
       rbind (leftmost f (rn_right n) R) (\<lambda>s. rbind (swap_with_successor p s R) (delete_node f i p))
     else unhook f p R)"

declare delete_node.simps [simp del]

fun release_all :: "nat \<Rightarrow> nat \<Rightarrow> ('k, 'v) rb \<Rightarrow> ('k, 'v) rb result" where
  "release_all 0 p R = Inl Undefined"
| "release_all (Suc k) p R = rbind (rb_node p R) (\<lambda>n.
     rbind (if rn_left n \<noteq> 0 then release_all k (rn_left n) R else Inr R) (\<lambda>R1.
     rbind (if rn_right n \<noteq> 0 then release_all k (rn_right n) R1 else Inr R1) (\<lambda>R2.
     rbind (free_node (rn_left n) R2) (free_node (rn_right n)))))"

declare release_all.simps [simp del]

text \<open>
  \<^verbatim>\<open>CopyFrom\<close> from a tree \<open>S\<close> to the place that holds \<open>t\<close>, with the addresses \<open>bs\<close>: what the place
  holds then, and the addresses that are left.
\<close>

fun copy_from :: "nat \<Rightarrow> ('k, 'v) rb \<Rightarrow> nat \<Rightarrow> nat \<Rightarrow> nat list \<Rightarrow> ('k, 'v) rb \<Rightarrow> (nat \<times> nat list \<times> ('k, 'v) rb) result" where
  "copy_from k S t q bs R =
     (if q = 0 then Inr (t, bs, R) else case (k, bs) of
        (Suc k', b # bs') \<Rightarrow> rbind (rb_node q S) (\<lambda>n.
          rbind (copy_from k' S 0 (rn_left n) bs' (new_node b (rn_key n) (rn_val n) 0 (rn_color n) R)) (\<lambda>(l, bs1, R1).
          rbind (set_left b l R1) (\<lambda>R2. rbind (copy_from k' S 0 (rn_right n) bs1 R2) (\<lambda>(r, bs2, R3).
          rbind (set_right b r R3) (\<lambda>R4. rbind (adopt b R4) (\<lambda>R5. Inr (b, bs2, R5)))))))
      | _ \<Rightarrow> Inl Undefined)"

declare copy_from.simps [simp del]

section \<open>The map\<close>

record ('k, 'v) rmap =
  rm_tree :: "('k, 'v) rb"
  rm_count :: nat
  rm_self :: nat

text \<open>An iterator: a node, or null for the end, and the map it belongs to.\<close>

record rb_it =
  ri_ptr :: nat
  ri_domain :: nat

definition empty_rb :: "('k, 'v) rb" where
  "empty_rb = \<lparr>rb_nodes = Map.empty, rb_root = 0\<rparr>"

definition map_new :: "nat \<Rightarrow> ('k, 'v) rmap" where
  "map_new self = \<lparr>rm_tree = empty_rb, rm_count = 0, rm_self = self\<rparr>"

definition map_release :: "('k, 'v) rmap \<Rightarrow> ('k, 'v) rb result" where
  "map_release M = rbind (if rb_root (rm_tree M) \<noteq> 0 then release_all (rm_count M + 1) (rb_root (rm_tree M)) (rm_tree M)
     else Inr (rm_tree M)) (free_node (rb_root (rm_tree M)))"

definition map_copy :: "nat \<Rightarrow> nat list \<Rightarrow> ('k, 'v) rmap \<Rightarrow> ('k, 'v) rmap result" where
  "map_copy self bs other =
     rbind (copy_from (rm_count other + 1) (rm_tree other) 0 (rb_root (rm_tree other)) bs empty_rb) (\<lambda>(q, _, R).
     Inr \<lparr>rm_tree = R\<lparr>rb_root := q\<rparr>, rm_count = rm_count other, rm_self = self\<rparr>)"

definition map_assign :: "nat list \<Rightarrow> ('k, 'v) rmap \<Rightarrow> ('k, 'v) rmap \<Rightarrow> ('k, 'v) rmap result" where
  "map_assign bs M other = (if rm_self M = rm_self other then Inr M
     else rbind (map_release M) (\<lambda>R.
       rbind (copy_from (rm_count other + 1) (rm_tree other) (rb_root R) (rb_root (rm_tree other)) bs R) (\<lambda>(q, _, R1).
       Inr (M\<lparr>rm_tree := R1\<lparr>rb_root := q\<rparr>, rm_count := rm_count other\<rparr>))))"

text \<open>Moving: the new map, and what is left of the other one.\<close>

definition map_move :: "nat \<Rightarrow> ('k, 'v) rmap \<Rightarrow> ('k, 'v) rmap \<times> ('k, 'v) rmap" where
  "map_move self other = (other\<lparr>rm_self := self\<rparr>, map_new (rm_self other))"

definition map_move_assign :: "('k, 'v) rmap \<Rightarrow> ('k, 'v) rmap \<Rightarrow> (('k, 'v) rmap \<times> ('k, 'v) rmap) result" where
  "map_move_assign M other = (if rm_self M = rm_self other then Inr (M, other)
     else rbind (map_release M) (\<lambda>_. Inr (map_move (rm_self M) other)))"

definition map_clear :: "('k, 'v) rmap \<Rightarrow> ('k, 'v) rmap result" where
  "map_clear M = rbind (map_release M) (\<lambda>R. Inr (M\<lparr>rm_tree := R\<lparr>rb_root := 0\<rparr>, rm_count := 0\<rparr>))"

definition map_lookup :: "('k \<Rightarrow> 'k \<Rightarrow> bool) \<Rightarrow> 'k \<Rightarrow> ('k, 'v) rmap \<Rightarrow> nat result" where
  "map_lookup lt k M = node_find lt (rm_count M + 1) k (rb_root (rm_tree M)) (rm_tree M)"

definition map_at :: "('k \<Rightarrow> 'k \<Rightarrow> bool) \<Rightarrow> 'k \<Rightarrow> ('k, 'v) rmap \<Rightarrow> 'v result" where
  "map_at lt k M = (if rb_root (rm_tree M) = 0 then Inl Index_out_of_bound
     else rbind (map_lookup lt k M) (\<lambda>p. if p = 0 then Inl Index_out_of_bound
       else rbind (rb_node p (rm_tree M)) (\<lambda>n. Inr (rn_val n))))"

definition map_insert_node :: "('k \<Rightarrow> 'k \<Rightarrow> bool) \<Rightarrow> nat \<Rightarrow> 'k \<Rightarrow> 'v \<Rightarrow> ('k, 'v) rmap \<Rightarrow> ((nat \<times> bool) \<times> ('k, 'v) rmap) result" where
  "map_insert_node lt b k v M =
     rbind (node_insert lt (rm_count M + 2) (rm_count M + 1) b k v False (rb_root (rm_tree M)) (rm_tree M)) (\<lambda>((p, fresh), R).
     Inr ((p, fresh), M\<lparr>rm_tree := R, rm_count := (if fresh then rm_count M + 1 else rm_count M)\<rparr>))"

definition first_node :: "nat \<Rightarrow> 'k \<Rightarrow> 'v \<Rightarrow> ('k, 'v) rb \<Rightarrow> ('k, 'v) rb" where
  "first_node b k v R = (new_node b k v 0 Black R)\<lparr>rb_root := b\<rparr>"

text \<open>\<^verbatim>\<open>operator[]\<close> gives a reference: the node whose value it is.\<close>

definition map_sub :: "('k \<Rightarrow> 'k \<Rightarrow> bool) \<Rightarrow> 'v \<Rightarrow> nat \<Rightarrow> 'k \<Rightarrow> ('k, 'v) rmap \<Rightarrow> (nat \<times> ('k, 'v) rmap) result" where
  "map_sub lt d b k M =
     (if rm_count M = 0 then Inr (b, M\<lparr>rm_tree := first_node b k d (rm_tree M), rm_count := rm_count M + 1\<rparr>)
      else rbind (map_insert_node lt b k d M) (\<lambda>((p, _), M1). Inr (p, M1)))"

definition map_read :: "nat \<Rightarrow> ('k, 'v) rmap \<Rightarrow> 'v result" where
  "map_read p M = rbind (rb_node p (rm_tree M)) (\<lambda>n. Inr (rn_val n))"

definition map_write :: "nat \<Rightarrow> 'v \<Rightarrow> ('k, 'v) rmap \<Rightarrow> ('k, 'v) rmap result" where
  "map_write p v M = rbind (rb_mod p (\<lambda>n. n\<lparr>rn_val := v\<rparr>) (rm_tree M)) (\<lambda>R. Inr (M\<lparr>rm_tree := R\<rparr>))"

definition map_insert :: "('k \<Rightarrow> 'k \<Rightarrow> bool) \<Rightarrow> nat \<Rightarrow> 'k \<Rightarrow> 'v \<Rightarrow> ('k, 'v) rmap \<Rightarrow> ((rb_it \<times> bool) \<times> ('k, 'v) rmap) result" where
  "map_insert lt b k v M =
     (if rb_root (rm_tree M) = 0 then
        Inr ((\<lparr>ri_ptr = b, ri_domain = rm_self M\<rparr>, True), M\<lparr>rm_tree := first_node b k v (rm_tree M), rm_count := 1\<rparr>)
      else rbind (map_insert_node lt b k v M) (\<lambda>((p, fresh), M1). Inr ((\<lparr>ri_ptr = p, ri_domain = rm_self M\<rparr>, fresh), M1)))"

definition map_erase_node :: "nat \<Rightarrow> ('k, 'v) rmap \<Rightarrow> ('k, 'v) rmap result" where
  "map_erase_node p M = rbind (delete_node (rm_count M + 2) 2 p (rm_tree M)) (\<lambda>R.
     Inr (M\<lparr>rm_tree := R, rm_count := rm_count M - 1\<rparr>))"

definition map_erase_it :: "rb_it \<Rightarrow> ('k, 'v) rmap \<Rightarrow> ('k, 'v) rmap result" where
  "map_erase_it pos M = (if ri_domain pos \<noteq> rm_self M \<or> ri_ptr pos = 0 then Inl Invalid_iterator
     else map_erase_node (ri_ptr pos) M)"

definition map_erase :: "('k \<Rightarrow> 'k \<Rightarrow> bool) \<Rightarrow> 'k \<Rightarrow> ('k, 'v) rmap \<Rightarrow> ('k, 'v) rmap result" where
  "map_erase lt k M = rbind (map_lookup lt k M) (\<lambda>p. if p = 0 then Inr M else map_erase_node p M)"

definition map_count :: "('k \<Rightarrow> 'k \<Rightarrow> bool) \<Rightarrow> 'k \<Rightarrow> ('k, 'v) rmap \<Rightarrow> nat result" where
  "map_count lt k M = (if rb_root (rm_tree M) = 0 then Inr 0
     else rbind (map_lookup lt k M) (\<lambda>p. Inr (if p = 0 then 0 else 1)))"

definition map_end :: "('k, 'v) rmap \<Rightarrow> rb_it" where
  "map_end M = \<lparr>ri_ptr = 0, ri_domain = rm_self M\<rparr>"

definition map_find :: "('k \<Rightarrow> 'k \<Rightarrow> bool) \<Rightarrow> 'k \<Rightarrow> ('k, 'v) rmap \<Rightarrow> rb_it result" where
  "map_find lt k M = (if rb_root (rm_tree M) = 0 then Inr (map_end M)
     else rbind (map_lookup lt k M) (\<lambda>p. Inr \<lparr>ri_ptr = p, ri_domain = rm_self M\<rparr>))"

definition map_begin :: "('k, 'v) rmap \<Rightarrow> rb_it result" where
  "map_begin M = (if rb_root (rm_tree M) = 0 then Inr (map_end M)
     else rbind (leftmost (rm_count M + 1) (rb_root (rm_tree M)) (rm_tree M)) (\<lambda>p. Inr \<lparr>ri_ptr = p, ri_domain = rm_self M\<rparr>))"

section \<open>Iterators\<close>

text \<open>The climbing loops: the first ancestor that is not a right (left) son.\<close>

fun climb_right :: "nat \<Rightarrow> nat \<Rightarrow> ('k, 'v) rb \<Rightarrow> nat result" where
  "climb_right 0 p R = Inl Undefined"
| "climb_right (Suc k) p R = rbind (rb_node p R) (\<lambda>n. if rn_parent n = 0 then Inr p
     else rbind (rb_node (rn_parent n) R) (\<lambda>pn. if rn_right pn = p then climb_right k (rn_parent n) R else Inr p))"

fun climb_left :: "nat \<Rightarrow> nat \<Rightarrow> ('k, 'v) rb \<Rightarrow> nat result" where
  "climb_left 0 p R = Inl Undefined"
| "climb_left (Suc k) p R = rbind (rb_node p R) (\<lambda>n. if rn_parent n = 0 then Inr p
     else rbind (rb_node (rn_parent n) R) (\<lambda>pn. if rn_left pn = p then climb_left k (rn_parent n) R else Inr p))"

declare climb_right.simps [simp del] climb_left.simps [simp del]

definition ri_next :: "('k, 'v) rmap \<Rightarrow> rb_it \<Rightarrow> rb_it result" where
  "ri_next M it = (if ri_ptr it = 0 then Inl Invalid_iterator
     else rbind (rb_node (ri_ptr it) (rm_tree M)) (\<lambda>n.
       if rn_right n \<noteq> 0 then rbind (leftmost (rm_count M + 1) (rn_right n) (rm_tree M)) (\<lambda>p. Inr (it\<lparr>ri_ptr := p\<rparr>))
       else rbind (climb_right (rm_count M + 1) (ri_ptr it) (rm_tree M)) (\<lambda>p.
         rbind (father_of p (rm_tree M)) (\<lambda>q. Inr (it\<lparr>ri_ptr := q\<rparr>)))))"

text \<open>The domain of a default-constructed iterator is 0.\<close>

definition ri_prev :: "('k, 'v) rmap \<Rightarrow> rb_it \<Rightarrow> rb_it result" where
  "ri_prev M it = (if ri_ptr it = 0 then
       (if ri_domain it = 0 \<or> rb_root (rm_tree M) = 0 then Inl Invalid_iterator
        else rbind (rightmost (rm_count M + 1) (rb_root (rm_tree M)) (rm_tree M)) (\<lambda>p. Inr (it\<lparr>ri_ptr := p\<rparr>)))
     else rbind (rb_node (ri_ptr it) (rm_tree M)) (\<lambda>n.
       if rn_left n \<noteq> 0 then rbind (rightmost (rm_count M + 1) (rn_left n) (rm_tree M)) (\<lambda>p. Inr (it\<lparr>ri_ptr := p\<rparr>))
       else rbind (climb_left (rm_count M + 1) (ri_ptr it) (rm_tree M)) (\<lambda>p.
         rbind (father_of p (rm_tree M)) (\<lambda>q. if q = 0 then Inl Invalid_iterator else Inr (it\<lparr>ri_ptr := q\<rparr>)))))"

definition ri_deref :: "('k, 'v) rmap \<Rightarrow> rb_it \<Rightarrow> ('k \<times> 'v) result" where
  "ri_deref M it = (if ri_ptr it = 0 then Inl Invalid_iterator
     else rbind (rb_node (ri_ptr it) (rm_tree M)) (\<lambda>n. Inr (rn_key n, rn_val n)))"

end
