(* ===== verification/Rb_Tree.thy ===== *)
theory Rb_Tree
  imports Rb_Nodes
begin

text \<open>
  The tree that nodes represent, seen from one of its nodes: the subtree below and the frames of
  the way up. A frame says on which side it was left; most lemmas are about both sides at once.
\<close>

section \<open>Trees and frames\<close>

datatype ('k, 'v) rtree = Tip | Bin nat rb_color "('k, 'v) rtree" 'k 'v "('k, 'v) rtree"

datatype ('k, 'v) rb_frame = Fr (fr_left: bool) (fr_addr: nat) (fr_color: rb_color) (fr_key: 'k) (fr_val: 'v) (fr_sib: "('k, 'v) rtree")

text \<open>A node with \<open>t\<close> on the side \<open>l\<close> and \<open>s\<close> on the other.\<close>

definition bin :: "bool \<Rightarrow> nat \<Rightarrow> rb_color \<Rightarrow> ('k, 'v) rtree \<Rightarrow> 'k \<Rightarrow> 'v \<Rightarrow> ('k, 'v) rtree \<Rightarrow> ('k, 'v) rtree" where
  "bin l p c t k v s = (if l then Bin p c t k v s else Bin p c s k v t)"

fun addr :: "('k, 'v) rtree \<Rightarrow> nat" where
  "addr Tip = 0"
| "addr (Bin p c l k v r) = p"

fun addrs :: "('k, 'v) rtree \<Rightarrow> nat list" where
  "addrs Tip = []"
| "addrs (Bin p c l k v r) = p # addrs l @ addrs r"

fun inorder :: "('k, 'v) rtree \<Rightarrow> ('k \<times> 'v) list" where
  "inorder Tip = []"
| "inorder (Bin p c l k v r) = inorder l @ (k, v) # inorder r"

definition up :: "('k, 'v) rb_frame list \<Rightarrow> nat" where
  "up fs = (case fs of [] \<Rightarrow> 0 | f # _ \<Rightarrow> fr_addr f)"

lemma up_simps [simp]: "up [] = 0" "up (f # fs) = fr_addr f"
  by (simp_all add: up_def)

primrec root_of :: "('k, 'v) rb_frame list \<Rightarrow> nat \<Rightarrow> nat" where
  "root_of [] q = q"
| "root_of (f # fs) q = root_of fs (fr_addr f)"

primrec frame_addrs :: "('k, 'v) rb_frame list \<Rightarrow> nat list" where
  "frame_addrs [] = []"
| "frame_addrs (f # fs) = fr_addr f # addrs (fr_sib f) @ frame_addrs fs"

text \<open>The entries before and behind the subtree.\<close>

primrec pre :: "('k, 'v) rb_frame list \<Rightarrow> ('k \<times> 'v) list" where
  "pre [] = []"
| "pre (f # fs) = (if fr_left f then pre fs else pre fs @ inorder (fr_sib f) @ [(fr_key f, fr_val f)])"

primrec post :: "('k, 'v) rb_frame list \<Rightarrow> ('k \<times> 'v) list" where
  "post [] = []"
| "post (f # fs) = (if fr_left f then (fr_key f, fr_val f) # inorder (fr_sib f) @ post fs else post fs)"

lemma bin_simps [simp]:
  "addr (bin d p c t k v s) = p"
  "set (addrs (bin d p c t k v s)) = insert p (set (addrs t) \<union> set (addrs s))"
  "distinct (addrs (bin d p c t k v s)) \<longleftrightarrow> p \<notin> set (addrs t) \<and> p \<notin> set (addrs s) \<and> distinct (addrs t) \<and> distinct (addrs s)
     \<and> set (addrs t) \<inter> set (addrs s) = {}"
  "length (addrs (bin d p c t k v s)) = Suc (length (addrs t) + length (addrs s))"
  "bin d p c t k v s \<noteq> Tip"
  by (auto simp: bin_def)

lemma inorder_bin: "inorder (bin d p c t k v s) = (if d then inorder t @ (k, v) # inorder s else inorder s @ (k, v) # inorder t)"
  by (simp add: bin_def)

lemma bin_other: "bin (\<not> d) p c t k v s = bin d p c s k v t"
  by (simp add: bin_def)

lemma Bin_bin: "Bin p c l k v r = bin True p c l k v r" "Bin p c l k v r = bin False p c r k v l"
  by (simp_all add: bin_def)

lemma bin_cases:
  assumes "t \<noteq> Tip"
  obtains p c l k v r where "t = bin d p c l k v r"
  using assms by (cases t; cases d) (auto simp: bin_def)

section \<open>Nodes hold trees\<close>

definition mk_node :: "bool \<Rightarrow> 'k \<Rightarrow> 'v \<Rightarrow> nat \<Rightarrow> nat \<Rightarrow> nat \<Rightarrow> rb_color \<Rightarrow> ('k, 'v) rnode" where
  "mk_node d k v t s par c = \<lparr>rn_key = k, rn_val = v, rn_left = (if d then t else s), rn_right = (if d then s else t),
     rn_parent = par, rn_color = c\<rparr>"

lemma mk_node_simps [simp]:
  "rn_key (mk_node d k v t s par c) = k" "rn_val (mk_node d k v t s par c) = v"
  "rn_left (mk_node d k v t s par c) = (if d then t else s)" "rn_right (mk_node d k v t s par c) = (if d then s else t)"
  "rn_parent (mk_node d k v t s par c) = par" "rn_color (mk_node d k v t s par c) = c"
  "(mk_node d k v t s par c)\<lparr>rn_parent := q\<rparr> = mk_node d k v t s q c"
  "(mk_node d k v t s par c)\<lparr>rn_color := c'\<rparr> = mk_node d k v t s par c'"
  "(mk_node d k v t s par c)\<lparr>rn_val := w\<rparr> = mk_node d k w t s par c"
  "(mk_node d k v t s par c)\<lparr>rn_left := q\<rparr> = (if d then mk_node d k v q s par c else mk_node d k v t q par c)"
  "(mk_node d k v t s par c)\<lparr>rn_right := q\<rparr> = (if d then mk_node d k v t q par c else mk_node d k v q s par c)"
  by (simp_all add: mk_node_def)

primrec tree_at :: "(nat \<rightharpoonup> ('k, 'v) rnode) \<Rightarrow> nat \<Rightarrow> ('k, 'v) rtree \<Rightarrow> bool" where
  "tree_at h par Tip = True"
| "tree_at h par (Bin p c l k v r) = (p \<noteq> 0 \<and> h p = Some (mk_node True k v (addr l) (addr r) par c) \<and> tree_at h p l \<and> tree_at h p r)"

lemma tree_at_bin:
  "tree_at h par (bin d p c t k v s) \<longleftrightarrow> p \<noteq> 0 \<and> h p = Some (mk_node d k v (addr t) (addr s) par c) \<and> tree_at h p t \<and> tree_at h p s"
  by (auto simp: bin_def mk_node_def)

primrec frames_at :: "(nat \<rightharpoonup> ('k, 'v) rnode) \<Rightarrow> ('k, 'v) rb_frame list \<Rightarrow> nat \<Rightarrow> bool" where
  "frames_at h [] q = True"
| "frames_at h (f # fs) q = (fr_addr f \<noteq> 0
     \<and> h (fr_addr f) = Some (mk_node (fr_left f) (fr_key f) (fr_val f) q (addr (fr_sib f)) (up fs) (fr_color f))
     \<and> tree_at h (fr_addr f) (fr_sib f) \<and> frames_at h fs (fr_addr f))"

lemma tree_at_cong: "tree_at h par t \<Longrightarrow> \<forall>a\<in>set (addrs t). h' a = h a \<Longrightarrow> tree_at h' par t"
  by (induction t arbitrary: par) auto

lemma frames_at_cong: "frames_at h fs q \<Longrightarrow> \<forall>a\<in>set (frame_addrs fs). h' a = h a \<Longrightarrow> frames_at h' fs q"
  by (induction fs arbitrary: q) (auto intro: tree_at_cong)

lemma tree_at_nonzero: "tree_at h par t \<Longrightarrow> 0 \<notin> set (addrs t)"
  by (induction t arbitrary: par) auto

lemma frames_at_nonzero: "frames_at h fs q \<Longrightarrow> 0 \<notin> set (frame_addrs fs)"
  by (induction fs arbitrary: q) (auto dest: tree_at_nonzero)

lemma addr_in: "t \<noteq> Tip \<Longrightarrow> addr t \<in> set (addrs t)"
  by (cases t) auto

lemma addr_zero: "tree_at h par t \<Longrightarrow> addr t = 0 \<longleftrightarrow> t = Tip"
  by (cases t) auto

text \<open>The whole store, seen from the root of \<open>t\<close>.\<close>

definition focus :: "('k, 'v) rb \<Rightarrow> ('k, 'v) rb_frame list \<Rightarrow> ('k, 'v) rtree \<Rightarrow> bool" where
  "focus R fs t \<longleftrightarrow> tree_at (rb_nodes R) (up fs) t \<and> frames_at (rb_nodes R) fs (addr t) \<and> rb_root R = root_of fs (addr t)
     \<and> distinct (addrs t @ frame_addrs fs) \<and> dom (rb_nodes R) = set (addrs t @ frame_addrs fs)"

lemma focusD:
  assumes "focus R fs t"
  shows "tree_at (rb_nodes R) (up fs) t" "frames_at (rb_nodes R) fs (addr t)" "rb_root R = root_of fs (addr t)"
    "distinct (addrs t @ frame_addrs fs)" "dom (rb_nodes R) = set (addrs t @ frame_addrs fs)"
  using assms unfolding focus_def by blast+

text \<open>Going down and up.\<close>

lemma focus_down: "focus R (Fr d p c k v s # fs) t \<longleftrightarrow> focus R fs (bin d p c t k v s)"
  by (auto simp: focus_def tree_at_bin)

lemma focus_down_left: "focus R (Fr True p c k v r # fs) l \<longleftrightarrow> focus R fs (Bin p c l k v r)"
  by (simp add: focus_down bin_def)

lemma focus_down_right: "focus R (Fr False p c k v l # fs) r \<longleftrightarrow> focus R fs (Bin p c l k v r)"
  by (simp add: focus_down bin_def)

lemma focus_node: "focus R fs (bin d p c t k v s) \<Longrightarrow> rb_node p R = Inr (mk_node d k v (addr t) (addr s) (up fs) c)"
  by (simp add: focus_def tree_at_bin rb_node_def)

lemma focus_frame:
  "focus R (f # fs) t \<Longrightarrow> rb_node (fr_addr f) R = Inr (mk_node (fr_left f) (fr_key f) (fr_val f) (addr t) (addr (fr_sib f)) (up fs) (fr_color f))"
  by (simp add: focus_def rb_node_def)

lemma focus_nonzero: "focus R fs (bin d p c t k v s) \<Longrightarrow> p \<noteq> 0"
  by (simp add: focus_def tree_at_bin)

lemma focus_frame_nonzero: "focus R (f # fs) t \<Longrightarrow> fr_addr f \<noteq> 0"
  by (simp add: focus_def)

lemma focus_sib: "focus R (f # fs) t \<Longrightarrow> addr (fr_sib f) = 0 \<longleftrightarrow> fr_sib f = Tip"
  using addr_zero [of "rb_nodes R" "fr_addr f" "fr_sib f"] by (simp add: focus_def)

lemma focus_sub: "focus R fs (bin d p c t k v s) \<Longrightarrow> (addr t = 0 \<longleftrightarrow> t = Tip) \<and> (addr s = 0 \<longleftrightarrow> s = Tip)"
  using addr_zero [of "rb_nodes R" p t] addr_zero [of "rb_nodes R" p s] by (simp add: focus_def tree_at_bin)

lemma focus_sib_other: "focus R (f # fs) t \<Longrightarrow> t \<noteq> Tip \<Longrightarrow> addr (fr_sib f) \<noteq> addr t"
  by (cases t; cases "fr_sib f") (auto simp: focus_def)

section \<open>Changing one node\<close>

lemma paint_ok:
  assumes "focus R fs (bin d p c t k v s)"
  shows "\<exists>R'. paint p c' R = Inr R' \<and> focus R' fs (bin d p c' t k v s)"
proof -
  note F = focusD [OF assms]
  let ?h = "(rb_nodes R)(p \<mapsto> mk_node d k v (addr t) (addr s) (up fs) c')"
  have "tree_at ?h p t" by (rule tree_at_cong [of "rb_nodes R"]) (use F(1,4) in \<open>auto simp: tree_at_bin\<close>)
  moreover have "tree_at ?h p s" by (rule tree_at_cong [of "rb_nodes R"]) (use F(1,4) in \<open>auto simp: tree_at_bin\<close>)
  moreover have "frames_at ?h fs p" by (rule frames_at_cong [of "rb_nodes R"]) (use F(2,4) in auto)
  moreover have "paint p c' R = Inr (R\<lparr>rb_nodes := ?h\<rparr>)"
    using focus_node [OF assms] by (simp add: paint_def rb_mod_def)
  ultimately show ?thesis using F by (auto simp: focus_def tree_at_bin)
qed

lemma write_ok:
  assumes "focus R fs (bin d p c t k v s)"
  shows "\<exists>R'. rb_mod p (\<lambda>n. n\<lparr>rn_val := w\<rparr>) R = Inr R' \<and> focus R' fs (bin d p c t k w s)"
proof -
  note F = focusD [OF assms]
  let ?h = "(rb_nodes R)(p \<mapsto> mk_node d k w (addr t) (addr s) (up fs) c)"
  have "tree_at ?h p t" by (rule tree_at_cong [of "rb_nodes R"]) (use F(1,4) in \<open>auto simp: tree_at_bin\<close>)
  moreover have "tree_at ?h p s" by (rule tree_at_cong [of "rb_nodes R"]) (use F(1,4) in \<open>auto simp: tree_at_bin\<close>)
  moreover have "frames_at ?h fs p" by (rule frames_at_cong [of "rb_nodes R"]) (use F(2,4) in auto)
  moreover have "rb_mod p (\<lambda>n. n\<lparr>rn_val := w\<rparr>) R = Inr (R\<lparr>rb_nodes := ?h\<rparr>)"
    using focus_node [OF assms] by (simp add: rb_mod_def)
  ultimately show ?thesis using F by (auto simp: focus_def tree_at_bin)
qed

section \<open>Places and rotations\<close>

lemma set_parent_ok:
  assumes "tree_at (rb_nodes R) x t" "distinct (addrs t)" "t \<noteq> Tip"
  shows "\<exists>h'. set_parent (addr t) p R = Inr (R\<lparr>rb_nodes := h'\<rparr>) \<and> tree_at h' p t \<and> (\<forall>a. a \<notin> set (addrs t) \<longrightarrow> h' a = rb_nodes R a)
    \<and> dom h' = dom (rb_nodes R)"
proof -
  obtain q c l k v r where t: "t = Bin q c l k v r" using assms(3) by (cases t) auto
  let ?h = "(rb_nodes R)(q \<mapsto> mk_node True k v (addr l) (addr r) p c)"
  have "tree_at ?h q l" by (rule tree_at_cong [of "rb_nodes R"]) (use assms(1,2) in \<open>auto simp: t\<close>)
  moreover have "tree_at ?h q r" by (rule tree_at_cong [of "rb_nodes R"]) (use assms(1,2) in \<open>auto simp: t\<close>)
  moreover have "set_parent (addr t) p R = Inr (R\<lparr>rb_nodes := ?h\<rparr>)"
    using assms(1) by (simp add: t set_parent_def rb_mod_def rb_node_def)
  moreover have "dom ?h = dom (rb_nodes R)" using assms(1) by (auto simp: t)
  ultimately show ?thesis using assms(1) by (intro exI [of _ ?h]) (auto simp: t)
qed

lemma adopt_ok:
  assumes n: "rb_nodes R p = Some (mk_node d k v (addr t) (addr s) par c)"
    and t: "tree_at (rb_nodes R) x t" "tree_at (rb_nodes R) y s"
    and D: "p \<notin> set (addrs t)" "p \<notin> set (addrs s)" "distinct (addrs t)" "distinct (addrs s)" "set (addrs t) \<inter> set (addrs s) = {}"
  shows "\<exists>h'. adopt p R = Inr (R\<lparr>rb_nodes := h'\<rparr>) \<and> tree_at h' p t \<and> tree_at h' p s
    \<and> (\<forall>a. a \<notin> set (addrs t) \<union> set (addrs s) \<longrightarrow> h' a = rb_nodes R a) \<and> dom h' = dom (rb_nodes R)"
proof -
  have main: "\<exists>h'. rbind (if addr t \<noteq> 0 then set_parent (addr t) p R else Inr R) (\<lambda>R1. if addr s \<noteq> 0 then set_parent (addr s) p R1 else Inr R1)
      = Inr (R\<lparr>rb_nodes := h'\<rparr>) \<and> tree_at h' p t \<and> tree_at h' p s
    \<and> (\<forall>a. a \<notin> set (addrs t) \<union> set (addrs s) \<longrightarrow> h' a = rb_nodes R a) \<and> dom h' = dom (rb_nodes R)"
    if t: "tree_at (rb_nodes R) x t" "tree_at (rb_nodes R) y s" and D: "distinct (addrs t)" "distinct (addrs s)" "set (addrs t) \<inter> set (addrs s) = {}"
    for t s :: "('a, 'b) rtree" and x y
  proof -
    have z: "addr t = 0 \<longleftrightarrow> t = Tip" "addr s = 0 \<longleftrightarrow> s = Tip" using t by (simp_all add: addr_zero)
    obtain h1 where h1: "(if addr t \<noteq> 0 then set_parent (addr t) p R else Inr R) = Inr (R\<lparr>rb_nodes := h1\<rparr>)" "tree_at h1 p t"
      "\<forall>a. a \<notin> set (addrs t) \<longrightarrow> h1 a = rb_nodes R a" "dom h1 = dom (rb_nodes R)"
      by (cases "t = Tip") (use set_parent_ok [OF t(1) D(1), of p] z(1) in \<open>auto intro: that [of "rb_nodes R"]\<close>)
    have s1: "tree_at (rb_nodes (R\<lparr>rb_nodes := h1\<rparr>)) y s" by (simp, rule tree_at_cong [OF t(2)]) (use h1(3) D(3) in auto)
    obtain h2 where h2: "(if addr s \<noteq> 0 then set_parent (addr s) p (R\<lparr>rb_nodes := h1\<rparr>) else Inr (R\<lparr>rb_nodes := h1\<rparr>)) = Inr (R\<lparr>rb_nodes := h2\<rparr>)"
      "tree_at h2 p s" "\<forall>a. a \<notin> set (addrs s) \<longrightarrow> h2 a = h1 a" "dom h2 = dom h1"
      by (cases "s = Tip") (use set_parent_ok [OF s1 D(2), of p] z(2) in \<open>auto intro: that [of h1]\<close>)
    have "tree_at h2 p t" by (rule tree_at_cong [OF h1(2)]) (use h2(3) D(3) in auto)
    then show ?thesis using h1 h2 by (intro exI [of _ h2]) simp
  qed
  show ?thesis
  proof (cases d)
    case True
    have "adopt p R = rbind (if addr t \<noteq> 0 then set_parent (addr t) p R else Inr R) (\<lambda>R1. if addr s \<noteq> 0 then set_parent (addr s) p R1 else Inr R1)"
      using True n by (simp only: adopt_def rb_node_def of_option_simps rbind.simps mk_node_simps if_True)
    then show ?thesis using main [OF t D(3-5)] by (simp only:)
  next
    case False
    have eq: "adopt p R = rbind (if addr s \<noteq> 0 then set_parent (addr s) p R else Inr R) (\<lambda>R1. if addr t \<noteq> 0 then set_parent (addr t) p R1 else Inr R1)"
      using False n by (simp only: adopt_def rb_node_def of_option_simps rbind.simps mk_node_simps if_False)
    have "set (addrs s) \<inter> set (addrs t) = {}" using D(5) by blast
    then show ?thesis using main [OF t(2,1) D(4,3)] unfolding eq by (simp only: Un_commute) blast
  qed
qed

fun place_of :: "('k, 'v) rb_frame list \<Rightarrow> place" where
  "place_of [] = The_root"
| "place_of (f # fs) = (if fr_left f then Left_of (fr_addr f) else Right_of (fr_addr f))"

lemma self_path_ok:
  assumes "focus R fs (bin d p c t k v s)"
  shows "self_path p R = Inr (place_of fs)"
proof (cases fs)
  case Nil
  then show ?thesis using focus_node [OF assms] by (simp add: self_path_def)
next
  case (Cons f gs)
  then show ?thesis using focus_node [OF assms] focus_frame [of R f gs "bin d p c t k v s"] focus_frame_nonzero [of R f gs] assms
    focus_sib_other [of R f gs "bin d p c t k v s"] by (auto simp: self_path_def)
qed

lemma set_place_ok:
  assumes "frames_at (rb_nodes R) fs q" "distinct (frame_addrs fs)" "rb_root R = root_of fs q"
  shows "\<exists>R'. set_place (place_of fs) q' R = Inr R' \<and> frames_at (rb_nodes R') fs q' \<and> rb_root R' = root_of fs q'
    \<and> (\<forall>a. a \<notin> set (frame_addrs fs) \<longrightarrow> rb_nodes R' a = rb_nodes R a) \<and> dom (rb_nodes R') = dom (rb_nodes R)"
proof (cases fs)
  case Nil
  then show ?thesis by simp
next
  case (Cons f gs)
  let ?h = "(rb_nodes R)(fr_addr f \<mapsto> mk_node (fr_left f) (fr_key f) (fr_val f) q' (addr (fr_sib f)) (up gs) (fr_color f))"
  have "tree_at ?h (fr_addr f) (fr_sib f)" by (rule tree_at_cong [of "rb_nodes R"]) (use assms(1,2) in \<open>auto simp: Cons\<close>)
  moreover have "frames_at ?h gs (fr_addr f)" by (rule frames_at_cong [of "rb_nodes R"]) (use assms(1,2) in \<open>auto simp: Cons\<close>)
  moreover have "set_place (place_of fs) q' R = Inr (R\<lparr>rb_nodes := ?h\<rparr>)"
    using assms(1) by (cases "fr_left f") (simp_all add: Cons set_left_def set_right_def rb_mod_def rb_node_def)
  moreover have "dom ?h = dom (rb_nodes R)" using assms(1) by (auto simp: Cons)
  ultimately show ?thesis using assms(1,3) by (auto simp: Cons)
qed

text \<open>Both rotations: \<open>p\<close> goes down to the side \<open>d\<close>, its other son \<open>q\<close> comes up.\<close>

definition rotate_to :: "bool \<Rightarrow> nat \<Rightarrow> ('k, 'v) rb \<Rightarrow> ('k, 'v) rb result" where
  "rotate_to d = (if d then rotate_left else rotate_right)"

definition set_child :: "bool \<Rightarrow> nat \<Rightarrow> nat \<Rightarrow> ('k, 'v) rb \<Rightarrow> ('k, 'v) rb result" where
  "set_child d = (if d then set_left else set_right)"

lemma set_child_node:
  "rb_nodes R p = Some (mk_node d' k v t s par c) \<Longrightarrow> set_child d p q R =
     Inr (R\<lparr>rb_nodes := (rb_nodes R)(p \<mapsto> (if d = d' then mk_node d' k v q s par c else mk_node d' k v t q par c))\<rparr>)"
  by (cases d; cases d') (simp_all add: set_child_def set_left_def set_right_def rb_mod_def rb_node_def)

lemma rotate_steps:
  assumes "rb_node p R = Inr (mk_node (\<not> d) k v q o' par c)" "rb_node q R = Inr (mk_node d k2 v2 m e p c2)" "q \<noteq> 0"
    "self_path p R = Inr path"
  shows "rotate_to d p R = rbind (set_child (\<not> d) p m R) (\<lambda>R1. rbind (set_child d q p R1) (\<lambda>R2.
       rbind (adopt p R2) (\<lambda>R3. rbind (adopt q R3) (\<lambda>R4. rbind (set_place path q R4) (set_parent q par)))))"
  using assms by (cases d) (simp_all add: rotate_to_def rotate_left_def rotate_right_def set_child_def)

lemma rotate_ok:
  assumes "focus R fs (bin (\<not> d) p c (bin d q c2 m k2 v2 e) k v s)"
  shows "\<exists>R'. rotate_to d p R = Inr R' \<and> focus R' fs (bin d q c2 (bin d p c s k v m) k2 v2 e)"
proof -
  note F = focusD [OF assms]
  let ?h = "rb_nodes R"
  have T: "tree_at ?h q m" "tree_at ?h q e" "tree_at ?h p s" "q \<noteq> 0" "p \<noteq> 0"
    "?h q = Some (mk_node d k2 v2 (addr m) (addr e) p c2)" "?h p = Some (mk_node (\<not> d) k v q (addr s) (up fs) c)"
    using F(1) by (simp_all add: tree_at_bin)
  have D: "p \<noteq> q" "p \<notin> set (addrs m)" "p \<notin> set (addrs e)" "p \<notin> set (addrs s)" "q \<notin> set (addrs m)" "q \<notin> set (addrs e)" "q \<notin> set (addrs s)"
    "distinct (addrs m)" "distinct (addrs e)" "distinct (addrs s)" "set (addrs m) \<inter> set (addrs e) = {}" "set (addrs m) \<inter> set (addrs s) = {}"
    "set (addrs e) \<inter> set (addrs s) = {}" "p \<notin> set (frame_addrs fs)" "q \<notin> set (frame_addrs fs)"
    "set (addrs m) \<inter> set (frame_addrs fs) = {}" "set (addrs e) \<inter> set (frame_addrs fs) = {}" "set (addrs s) \<inter> set (frame_addrs fs) = {}"
    "distinct (frame_addrs fs)"
    using F(4) by auto
  let ?p = "mk_node (\<not> d) k v (addr m) (addr s) (up fs) c" and ?q = "mk_node d k2 v2 p (addr e) p c2"
  define h2 where "h2 = ?h(p \<mapsto> ?p, q \<mapsto> ?q)"
  have s12: "rbind (set_child (\<not> d) p (addr m) R) (set_child d q p) = Inr (R\<lparr>rb_nodes := h2\<rparr>)"
    using T(6,7) D(1) by (simp add: set_child_node h2_def)
  have t2: "tree_at h2 q m" "tree_at h2 q e" "tree_at h2 p s"
    by (rule tree_at_cong [of ?h]; use T D in \<open>auto simp: h2_def\<close>)+
  obtain h3 where h3: "adopt p (R\<lparr>rb_nodes := h2\<rparr>) = Inr (R\<lparr>rb_nodes := h3\<rparr>)" "tree_at h3 p m" "tree_at h3 p s"
    "\<forall>a. a \<notin> set (addrs m) \<union> set (addrs s) \<longrightarrow> h3 a = h2 a" "dom h3 = dom h2"
    using adopt_ok [of "R\<lparr>rb_nodes := h2\<rparr>" p "\<not> d" k v m s "up fs" c q p] t2 D by (auto simp: h2_def)
  have p3: "tree_at h3 (up fs) (bin (\<not> d) p c m k v s)" using h3(2-4) T(5) D by (simp add: tree_at_bin h2_def)
  have e3: "tree_at h3 q e" by (rule tree_at_cong [OF t2(2)]) (use h3(4) D in auto)
  have q3: "h3 q = Some ?q" using h3(4) D by (simp add: h2_def)
  obtain h4 where h4: "adopt q (R\<lparr>rb_nodes := h3\<rparr>) = Inr (R\<lparr>rb_nodes := h4\<rparr>)" "tree_at h4 q (bin (\<not> d) p c m k v s)" "tree_at h4 q e"
    "\<forall>a. a \<notin> insert p (set (addrs m) \<union> set (addrs s) \<union> set (addrs e)) \<longrightarrow> h4 a = h3 a" "dom h4 = dom h3"
    using adopt_ok [of "R\<lparr>rb_nodes := h3\<rparr>" q d k2 v2 "bin (\<not> d) p c m k v s" e p c2 "up fs" q] p3 e3 q3 D by auto
  have same: "\<forall>a\<in>set (frame_addrs fs). h4 a = ?h a" using h4(4) h3(4) D by (auto simp: h2_def)
  have f4: "frames_at h4 fs p" using F(2) by (intro frames_at_cong [OF _ same]) simp
  obtain R5 where R5: "set_place (place_of fs) q (R\<lparr>rb_nodes := h4\<rparr>) = Inr R5" "frames_at (rb_nodes R5) fs q" "rb_root R5 = root_of fs q"
    "\<forall>a. a \<notin> set (frame_addrs fs) \<longrightarrow> rb_nodes R5 a = h4 a" "dom (rb_nodes R5) = dom h4"
    using set_place_ok [of "R\<lparr>rb_nodes := h4\<rparr>" fs p q] f4 D(19) F(3) by auto
  have q5: "rb_nodes R5 q = Some ?q" using R5(4) h4(4) q3 D by auto
  have t5: "tree_at (rb_nodes R5) q (bin (\<not> d) p c m k v s)" "tree_at (rb_nodes R5) q e"
    by (rule tree_at_cong [OF h4(2)] tree_at_cong [OF h4(3)]; use R5(4) D in auto)+
  let ?R6 = "R5\<lparr>rb_nodes := (rb_nodes R5)(q \<mapsto> mk_node d k2 v2 p (addr e) (up fs) c2)\<rparr>"
  have "rotate_to d p R = Inr ?R6"
    using rotate_steps [of p R d k v q "addr s" "up fs" c k2 v2 "addr m" "addr e" c2 "place_of fs"] focus_node [OF assms] T(4,6)
      self_path_ok [OF assms] s12 h3(1) h4(1) R5(1) q5 by (auto simp: rb_node_def set_parent_def rb_mod_def rbind_Inr)
  moreover have "tree_at (rb_nodes ?R6) q (bin (\<not> d) p c m k v s)" by (rule tree_at_cong [OF t5(1)]) (use D in auto)
  moreover have "tree_at (rb_nodes ?R6) q e" by (rule tree_at_cong [OF t5(2)]) (use D in auto)
  moreover have "frames_at (rb_nodes ?R6) fs q" by (rule frames_at_cong [OF R5(2)]) (use D in auto)
  moreover have "dom (rb_nodes ?R6) = dom ?h" using R5(5) h4(5) h3(5) T(6,7) q5 by (auto simp: h2_def)
  ultimately have "focus ?R6 fs (bin d q c2 (bin (\<not> d) p c m k v s) k2 v2 e)"
    using R5(3) F(5) T(4) D by (auto simp: focus_def tree_at_bin)
  then show ?thesis using \<open>rotate_to d p R = Inr ?R6\<close> by (simp add: bin_other)
qed

end
