(* ===== verification/Rb_Insert.thy ===== *)
theory Rb_Insert
  imports Rb_Tree
begin

text \<open>
  The invariants of red-black trees, for trees and for the frames around a subtree, and insertion.
\<close>

section \<open>Red-black trees\<close>

fun color :: "('k, 'v) rtree \<Rightarrow> rb_color" where
  "color Tip = Black"
| "color (Bin p c l k v r) = c"

fun invc :: "('k, 'v) rtree \<Rightarrow> bool" where
  "invc Tip = True"
| "invc (Bin p c l k v r) = ((c = Red \<longrightarrow> color l = Black \<and> color r = Black) \<and> invc l \<and> invc r)"

fun bheight :: "('k, 'v) rtree \<Rightarrow> nat" where
  "bheight Tip = 0"
| "bheight (Bin p c l k v r) = (if c = Black then bheight l + 1 else bheight l)"

fun invh :: "('k, 'v) rtree \<Rightarrow> bool" where
  "invh Tip = True"
| "invh (Bin p c l k v r) = (bheight l = bheight r \<and> invh l \<and> invh r)"

text \<open>A subtree of black height \<open>n\<close>, and the frames around it, a black root of the subtree being assumed.\<close>

definition rb_ok :: "nat \<Rightarrow> ('k, 'v) rtree \<Rightarrow> bool" where
  "rb_ok n t \<longleftrightarrow> invc t \<and> invh t \<and> bheight t = n"

fun top_black :: "('k, 'v) rb_frame list \<Rightarrow> bool" where
  "top_black [] = False"
| "top_black (f # fs) = (fr_color f = Black)"

primrec frames_ok :: "nat \<Rightarrow> ('k, 'v) rb_frame list \<Rightarrow> bool" where
  "frames_ok n [] = True"
| "frames_ok n (f # fs) = (rb_ok n (fr_sib f) \<and> (fr_color f = Red \<longrightarrow> color (fr_sib f) = Black \<and> top_black fs)
     \<and> frames_ok (if fr_color f = Black then Suc n else n) fs)"

definition rb_tree :: "('k, 'v) rtree \<Rightarrow> bool" where
  "rb_tree t \<longleftrightarrow> invc t \<and> invh t \<and> color t = Black"

lemma not_Black [simp]: "c \<noteq> Black \<longleftrightarrow> c = Red"
  by (cases c) simp_all

lemma color_bin [simp]: "color (bin d p c t k v s) = c"
  by (simp add: bin_def)

lemma rb_ok_Tip [simp]: "rb_ok n Tip \<longleftrightarrow> n = 0"
  by (auto simp: rb_ok_def)

lemma rb_ok_red [simp]:
  "rb_ok n (bin d p Red t k v s) \<longleftrightarrow> rb_ok n t \<and> rb_ok n s \<and> color t = Black \<and> color s = Black"
  by (auto simp: rb_ok_def bin_def)

lemma rb_ok_black [simp]: "rb_ok (Suc n) (bin d p Black t k v s) \<longleftrightarrow> rb_ok n t \<and> rb_ok n s"
  by (auto simp: rb_ok_def bin_def)

lemma rb_ok_zero_black [simp]: "\<not> rb_ok 0 (bin d p Black t k v s)"
  by (auto simp: rb_ok_def bin_def)

lemma rb_ok_zero: "rb_ok 0 t \<Longrightarrow> color t = Black \<Longrightarrow> t = Tip"
  by (cases t) (auto simp: rb_ok_def)

lemma rb_ok_Suc: "rb_ok (Suc n) t \<Longrightarrow> t \<noteq> Tip"
  by auto

text \<open>Closing the frames around a subtree gives a red-black tree.\<close>

lemma close_frames:
  assumes "focus R fs t" "frames_ok n fs" "rb_ok n t" "color t = Black \<or> top_black fs"
  shows "\<exists>t'. focus R [] t' \<and> rb_tree t' \<and> inorder t' = pre fs @ inorder t @ post fs \<and> set (addrs t') = set (addrs t @ frame_addrs fs)"
  using assms
proof (induction fs arbitrary: n t)
  case Nil
  then show ?case by (auto simp: rb_tree_def rb_ok_def)
next
  case (Cons f fs)
  obtain d p c k v s where f: "f = Fr d p c k v s" by (cases f)
  let ?t = "bin d p c t k v s" and ?n = "if c = Black then Suc n else n"
  have "focus R fs ?t" using Cons.prems(1) by (simp add: f focus_down)
  moreover have "frames_ok ?n fs" using Cons.prems(2) by (simp add: f)
  moreover have "rb_ok ?n ?t" "c = Black \<or> top_black fs" using Cons.prems by (cases c; auto simp: f)+
  ultimately obtain t' where "focus R [] t'" "rb_tree t'" "inorder t' = pre fs @ inorder ?t @ post fs"
    "set (addrs t') = set (addrs ?t @ frame_addrs fs)"
    using Cons.IH [of ?t ?n] by auto
  then show ?case by (intro exI [of _ t']) (auto simp: f inorder_bin)
qed

text \<open>What an operation on the nodes has to leave behind.\<close>

definition left_behind :: "('k, 'v) rb \<Rightarrow> nat set \<Rightarrow> ('k \<times> 'v) list \<Rightarrow> bool" where
  "left_behind R A xs \<longleftrightarrow> (\<exists>t. focus R [] t \<and> rb_tree t \<and> inorder t = xs \<and> set (addrs t) = A)"

lemma left_behindI:
  "focus R fs t \<Longrightarrow> frames_ok n fs \<Longrightarrow> rb_ok n t \<Longrightarrow> color t = Black \<or> top_black fs \<Longrightarrow>
    left_behind R (set (addrs t @ frame_addrs fs)) (pre fs @ inorder t @ post fs)"
  unfolding left_behind_def using close_frames by blast

section \<open>Repairing after an insertion\<close>

lemma rb_mod_parent: "rb_node p R = Inr n \<Longrightarrow> father_of p R = Inr (rn_parent n)"
  by (simp add: father_of_def)

lemma assert_father_ok: "focus R (Fr d q c k v s # fs) (bin e p cp t kp vp r) \<Longrightarrow> assert_father p q R = Inr R"
  using focus_node [of R "Fr d q c k v s # fs" e p cp t kp vp r] rb_mod_parent [of p R] by (simp add: assert_father_def)

text \<open>The red node \<open>p\<close> is the outer son of its red parent, and the uncle is black.\<close>

lemma settle_ok:
  assumes F: "focus R (Fr d q Red kq vq sq # Fr d g Black kg vg sg # fs) (bin e p Red t k v s)"
    and B: "color t = Black" "color s = Black" "rb_ok n t" "rb_ok n s" "rb_ok n sq" "color sq = Black" "rb_ok n sg" "color sg = Black"
      "frames_ok (Suc n) fs"
  shows "\<exists>R'. settle (rotate_to (\<not> d)) p g R = Inr R' \<and>
    left_behind R' (set (addrs (bin e p Red t k v s) @ frame_addrs (Fr d q Red kq vq sq # Fr d g Black kg vg sg # fs)))
      (pre (Fr d q Red kq vq sq # Fr d g Black kg vg sg # fs) @ inorder (bin e p Red t k v s) @
       post (Fr d q Red kq vq sq # Fr d g Black kg vg sg # fs))"
proof -
  let ?p = "bin e p Red t k v s"
  have 1: "focus R fs (bin (\<not> \<not> d) g Black (bin (\<not> d) q Red sq kq vq ?p) kg vg sg)"
    using F by (simp add: focus_down bin_other)
  obtain R1 where R1: "rotate_to (\<not> d) g R = Inr R1" "focus R1 fs (bin (\<not> d) q Red (bin (\<not> d) g Black sg kg vg sq) kq vq ?p)"
    using rotate_ok [OF 1] by blast
  have "focus R1 (Fr d q Red kq vq (bin (\<not> d) g Black sg kg vg sq) # fs) ?p" using R1(2) by (simp add: focus_down bin_other)
  then have par: "father_of p R1 = Inr q" using focus_node [of R1 _ e p] rb_mod_parent [of p R1] by fastforce
  have "focus R1 (Fr (\<not> d) q Red kq vq ?p # fs) (bin (\<not> d) g Black sg kg vg sq)" using R1(2) by (simp add: focus_down)
  then have chk: "assert_father g q R1 = Inr R1" by (rule assert_father_ok)
  obtain R2 where R2: "paint q Black R1 = Inr R2" "focus R2 fs (bin (\<not> d) q Black (bin (\<not> d) g Black sg kg vg sq) kq vq ?p)"
    using paint_ok [OF R1(2)] by blast
  then have g2: "focus R2 (Fr (\<not> d) q Black kq vq ?p # fs) (bin (\<not> d) g Black sg kg vg sq)" by (simp add: focus_down bin_other)
  then obtain R3 where R3: "paint g Red R2 = Inr R3" "focus R3 (Fr (\<not> d) q Black kq vq ?p # fs) (bin (\<not> d) g Red sg kg vg sq)"
    using paint_ok [OF g2] by blast
  then have 3: "focus R3 fs (bin (\<not> d) q Black (bin (\<not> d) g Red sg kg vg sq) kq vq ?p)" by (simp add: focus_down bin_other)
  have "settle (rotate_to (\<not> d)) p g R = Inr R3" using R1(1) par chk R2(1) R3(1) by (simp add: settle_def)
  moreover have "left_behind R3 (set (addrs (bin (\<not> d) q Black (bin (\<not> d) g Red sg kg vg sq) kq vq ?p) @ frame_addrs fs))
    (pre fs @ inorder (bin (\<not> d) q Black (bin (\<not> d) g Red sg kg vg sq) kq vq ?p) @ post fs)"
    by (rule left_behindI [OF 3 B(9)]) (use B in simp_all)
  ultimately show ?thesis by (auto simp: inorder_bin insert_commute Un_ac split: if_splits)
qed

lemma paint_top:
  assumes "focus R (Fr d q c k v s # fs) t"
  shows "\<exists>R'. paint q c' R = Inr R' \<and> focus R' (Fr d q c' k v s # fs) t"
  using paint_ok [of R fs d q c t k v s] assms by (simp add: focus_down)

lemma focus_swap: "focus R (Fr d q c k v s # fs) t \<longleftrightarrow> focus R (Fr (\<not> d) q c k v t # fs) s"
  by (simp add: focus_down bin_other)

lemma paint_sib:
  assumes "focus R (Fr d q c k v (bin e s cs a ks vs b) # fs) t"
  shows "\<exists>R'. paint s c' R = Inr R' \<and> focus R' (Fr d q c k v (bin e s c' a ks vs b) # fs) t"
  using paint_ok [of R "Fr (\<not> d) q c k v t # fs" e s cs a ks vs b c'] assms focus_swap [of _ d] by metis

lemma some_red_ok: "tree_at (rb_nodes R) x t \<Longrightarrow> some_red (addr t) R = Inr (color t = Red)"
  by (cases t) (auto simp: some_red_def rb_node_def)

lemma none_or_black_ok: "tree_at (rb_nodes R) x t \<Longrightarrow> none_or_black (addr t) R = Inr (color t = Black)"
  by (cases t) (auto simp: none_or_black_def rb_node_def)

lemma bin_flip:
  obtains m s' where "bin e p c t k v s = bin d p c m k v s'" "m = t \<and> s' = s \<or> m = s \<and> s' = t"
  using bin_other [of d p c t k v s] by (cases "e = d") auto

lemma insert_fix_reads:
  assumes F: "focus R (Fr d q Red kq vq sq # Fr dg g Black kg vg sg # fs) (bin e p Red t k v s)"
  shows "rb_node p R = Inr (mk_node e k v (addr t) (addr s) q Red)" "q \<noteq> 0" "g \<noteq> 0"
    "rb_node q R = Inr (mk_node d kq vq p (addr sq) g Red)" "rb_node g R = Inr (mk_node dg kg vg q (addr sg) (up fs) Black)"
    "addr sq \<noteq> p" "addr sg \<noteq> q" "uncle p R = Inr (addr sg)" "grand_parent p R = Inr g" "some_red (addr sg) R = Inr (color sg = Red)"
proof -
  let ?fs = "Fr dg g Black kg vg sg # fs"
  have G: "focus R ?fs (bin d q Red (bin e p Red t k v s) kq vq sq)" using F by (simp add: focus_down)
  show p: "rb_node p R = Inr (mk_node e k v (addr t) (addr s) q Red)" using focus_node [OF F] by simp
  show q: "rb_node q R = Inr (mk_node d kq vq p (addr sq) g Red)" using focus_frame [OF F] by simp
  show g: "rb_node g R = Inr (mk_node dg kg vg q (addr sg) (up fs) Black)" using focus_frame [OF G] by simp
  show nz: "q \<noteq> 0" "g \<noteq> 0" using focus_frame_nonzero [OF F] focus_frame_nonzero [OF G] by simp_all
  show ne: "addr sq \<noteq> p" "addr sg \<noteq> q" using focus_sib_other [OF F] focus_sib_other [OF G] by simp_all
  show gp: "grand_parent p R = Inr g" using p q nz by (simp add: grand_parent_def)
  show "uncle p R = Inr (addr sg)" using gp p g nz ne by (simp add: uncle_def)
  show "some_red (addr sg) R = Inr (color sg = Red)" using focusD(2) [OF G] by (auto intro: some_red_ok)
qed

lemma insert_fix_black_uncle:
  assumes F: "focus R (Fr d q Red kq vq sq # Fr dg g Black kg vg sg # fs) (bin e p Red t k v s)" and sg: "color sg = Black"
  shows "insert_fix_up (Suc K) p R = (if d = dg then settle (rotate_to (\<not> dg)) p g R else rbind (rotate_to dg q R) (\<lambda>R1. rbind (assert_father q p R1) (insert_fix_up K q)))"
  using insert_fix_reads [OF F] sg by (simp add: insert_fix_up.simps rotate_to_def)

lemma insert_fix_outer:
  assumes F: "focus R (Fr d q Red kq vq sq # Fr d g Black kg vg sg # fs) (bin e p Red t k v s)"
    and B: "color t = Black" "color s = Black" "rb_ok n t" "rb_ok n s" "rb_ok n sq" "color sq = Black" "rb_ok n sg" "color sg = Black"
      "frames_ok (Suc n) fs"
  shows "\<exists>R'. insert_fix_up (Suc K) p R = Inr R' \<and>
    left_behind R' (set (addrs (bin e p Red t k v s) @ frame_addrs (Fr d q Red kq vq sq # Fr d g Black kg vg sg # fs)))
      (pre (Fr d q Red kq vq sq # Fr d g Black kg vg sg # fs) @ inorder (bin e p Red t k v s) @
       post (Fr d q Red kq vq sq # Fr d g Black kg vg sg # fs))"
  using settle_ok [OF F B] insert_fix_black_uncle [OF F B(8)] by simp

lemma insert_fix_inner:
  assumes F: "focus R (Fr d q Red kq vq sq # Fr dg g Black kg vg sg # fs) (bin e p Red t k v s)" and d: "d \<noteq> dg"
    and B: "color t = Black" "color s = Black" "rb_ok n t" "rb_ok n s" "rb_ok n sq" "color sq = Black" "rb_ok n sg" "color sg = Black"
      "frames_ok (Suc n) fs"
  shows "\<exists>R'. insert_fix_up (Suc (Suc K)) p R = Inr R' \<and>
    left_behind R' (set (addrs (bin e p Red t k v s) @ frame_addrs (Fr d q Red kq vq sq # Fr dg g Black kg vg sg # fs)))
      (pre (Fr d q Red kq vq sq # Fr dg g Black kg vg sg # fs) @ inorder (bin e p Red t k v s) @
       post (Fr d q Red kq vq sq # Fr dg g Black kg vg sg # fs))"
proof -
  obtain m z where p: "bin e p Red t k v s = bin dg p Red m k v z" and mz: "m = t \<and> z = s \<or> m = s \<and> z = t" by (rule bin_flip)
  have dn: "d = (\<not> dg)" using d by simp
  have G: "focus R (Fr dg g Black kg vg sg # fs) (bin (\<not> dg) q Red (bin dg p Red m k v z) kq vq sq)"
    using F unfolding p dn by (simp add: focus_down)
  obtain R1 where R1: "rotate_to dg q R = Inr R1" "focus R1 (Fr dg g Black kg vg sg # fs) (bin dg p Red (bin dg q Red sq kq vq m) k v z)"
    using rotate_ok [OF G] by blast
  have "focus R1 (Fr dg p Red k v z # Fr dg g Black kg vg sg # fs) (bin dg q Red sq kq vq m)" using R1(2) by (simp add: focus_down)
  from assert_father_ok [OF this] insert_fix_outer [OF this, of n K] obtain R2 where R2: "assert_father q p R1 = Inr R1" "insert_fix_up (Suc K) q R1 = Inr R2"
    "left_behind R2 (set (addrs (bin dg q Red sq kq vq m) @ frame_addrs (Fr dg p Red k v z # Fr dg g Black kg vg sg # fs)))
      (pre (Fr dg p Red k v z # Fr dg g Black kg vg sg # fs) @ inorder (bin dg q Red sq kq vq m) @
       post (Fr dg p Red k v z # Fr dg g Black kg vg sg # fs))"
    using B mz by auto
  have eqs: "set (addrs (bin dg q Red sq kq vq m) @ frame_addrs (Fr dg p Red k v z # Fr dg g Black kg vg sg # fs))
    = set (addrs (bin dg p Red m k v z) @ frame_addrs (Fr d q Red kq vq sq # Fr dg g Black kg vg sg # fs))" by auto
  have eqi: "pre (Fr dg p Red k v z # Fr dg g Black kg vg sg # fs) @ inorder (bin dg q Red sq kq vq m) @
       post (Fr dg p Red k v z # Fr dg g Black kg vg sg # fs)
    = pre (Fr d q Red kq vq sq # Fr dg g Black kg vg sg # fs) @ inorder (bin dg p Red m k v z) @
       post (Fr d q Red kq vq sq # Fr dg g Black kg vg sg # fs)" unfolding dn by (simp add: inorder_bin)
  have "insert_fix_up (Suc (Suc K)) p R = Inr R2" using R1(1) R2(1,2) insert_fix_black_uncle [OF F B(8), of "Suc K"] d by simp
  then show ?thesis using R2(3) unfolding p eqs eqi by blast
qed

lemma insert_fix_ok:
  "focus R fs (bin e p Red t k v s) \<Longrightarrow> color t = Black \<Longrightarrow> color s = Black \<Longrightarrow> rb_ok n t \<Longrightarrow> rb_ok n s \<Longrightarrow> frames_ok n fs \<Longrightarrow>
    length fs + 2 \<le> K \<Longrightarrow> \<exists>R'. insert_fix_up K p R = Inr R' \<and>
      left_behind R' (set (addrs (bin e p Red t k v s) @ frame_addrs fs)) (pre fs @ inorder (bin e p Red t k v s) @ post fs)"
proof (induction K arbitrary: R fs e p t k v s n)
  case (Suc K)
  note F = Suc.prems(1) and B = Suc.prems(2-6)
  show ?case
  proof (cases fs)
    case Nil
    obtain R' where R': "paint p Black R = Inr R'" "focus R' fs (bin e p Black t k v s)" using paint_ok [OF F] by blast
    have "left_behind R' (set (addrs (bin e p Black t k v s) @ frame_addrs fs)) (pre fs @ inorder (bin e p Black t k v s) @ post fs)"
      by (rule left_behindI [OF R'(2), of "Suc n"]) (use B Nil in simp_all)
    then show ?thesis using R'(1) focus_node [OF F] Nil by (simp add: insert_fix_up.simps inorder_bin)
  next
    case (Cons f gs)
    obtain d q c kq vq sq where f: "f = Fr d q c kq vq sq" by (cases f)
    have q: "rb_node q R = Inr (mk_node d kq vq p (addr sq) (up gs) c)" "q \<noteq> 0"
      using focus_frame [of R f gs "bin e p Red t k v s"] focus_frame_nonzero [of R f gs "bin e p Red t k v s"] F Cons f by simp_all
    show ?thesis
    proof (cases c)
      case Black
      have "left_behind R (set (addrs (bin e p Red t k v s) @ frame_addrs fs)) (pre fs @ inorder (bin e p Red t k v s) @ post fs)"
        by (rule left_behindI [OF F B(5)]) (use B Cons f Black in simp_all)
      then show ?thesis using focus_node [OF F] q Cons f Black by (simp add: insert_fix_up.simps)
    next
      case Red
      then have sq: "rb_ok n sq" "color sq = Black" "top_black gs" "frames_ok n gs" using B(5) Cons f by simp_all
      then obtain dg g kg vg sg hs where gs: "gs = Fr dg g Black kg vg sg # hs"
        by (cases gs) (auto, metis rb_frame.exhaust_sel)
      have sg: "rb_ok n sg" "frames_ok (Suc n) hs" using sq(4) gs by simp_all
      note F' = F [unfolded Cons f Red gs]
      show ?thesis
      proof (cases "color sg")
        case Black
        obtain K' where K: "K = Suc K'" using Suc.prems(7) by (cases K) auto
        show ?thesis
        proof (cases "d = dg")
          case True
          then show ?thesis using insert_fix_outer [OF F' [unfolded True] B(1-4) sq(1,2) sg(1) Black sg(2), of K]
            by (simp only: Cons f Red gs True)
        next
          case False
          then show ?thesis using insert_fix_inner [OF F' False B(1-4) sq(1,2) sg(1) Black sg(2), of K']
            by (simp only: Cons f Red gs K)
        qed
      next
        case (Red)
        then obtain u a ku vu b where u: "sg = bin True u Red a ku vu b" by (cases sg) (auto simp: bin_def)
        note reads = insert_fix_reads [OF F'] and G = F' [unfolded focus_down [of R d]]
        obtain R1 where R1: "paint q Black R = Inr R1" "focus R1 (Fr d q Black kq vq sq # Fr dg g Black kg vg sg # hs) (bin e p Red t k v s)"
          using paint_top [OF F'] by blast
        then have 1: "focus R1 (Fr dg g Black kg vg (bin True u Red a ku vu b) # hs) (bin d q Black (bin e p Red t k v s) kq vq sq)"
          by (simp add: focus_down u)
        obtain R2 where R2: "paint u Black R1 = Inr R2"
          "focus R2 (Fr dg g Black kg vg (bin True u Black a ku vu b) # hs) (bin d q Black (bin e p Red t k v s) kq vq sq)"
          using paint_sib [OF 1] by blast
        obtain R3 where R3: "paint g Red R2 = Inr R3"
          "focus R3 (Fr dg g Red kg vg (bin True u Black a ku vu b) # hs) (bin d q Black (bin e p Red t k v s) kq vq sq)"
          using paint_top [OF R2(2)] by blast
        then have 3: "focus R3 hs (bin dg g Red (bin d q Black (bin e p Red t k v s) kq vq sq) kg vg (bin True u Black a ku vu b))"
          by (simp add: focus_down)
        have ok: "rb_ok (Suc n) (bin d q Black (bin e p Red t k v s) kq vq sq)" "rb_ok (Suc n) (bin True u Black a ku vu b)"
          using B sq sg(1) by (simp_all add: u)
        obtain R4 where R4: "insert_fix_up K g R3 = Inr R4"
          "left_behind R4 (set (addrs (bin dg g Red (bin d q Black (bin e p Red t k v s) kq vq sq) kg vg (bin True u Black a ku vu b)) @ frame_addrs hs))
            (pre hs @ inorder (bin dg g Red (bin d q Black (bin e p Red t k v s) kq vq sq) kg vg (bin True u Black a ku vu b)) @ post hs)"
          using Suc.IH [OF 3 _ _ ok sg(2)] Suc.prems(7) Cons gs by auto
        have "insert_fix_up (Suc K) p R = Inr R4"
          using reads Red R1(1) R2(1) R3(1) R4(1) by (simp add: insert_fix_up.simps u)
        moreover have "set (addrs (bin dg g Red (bin d q Black (bin e p Red t k v s) kq vq sq) kg vg (bin True u Black a ku vu b)) @ frame_addrs hs)
          = set (addrs (bin e p Red t k v s) @ frame_addrs fs)" by (auto simp: Cons f gs u)
        moreover have "pre hs @ inorder (bin dg g Red (bin d q Black (bin e p Red t k v s) kq vq sq) kg vg (bin True u Black a ku vu b)) @ post hs
          = pre fs @ inorder (bin e p Red t k v s) @ post fs" by (simp add: Cons f gs u inorder_bin)
        ultimately show ?thesis using R4(2) by simp
      qed
    qed
  qed
qed simp

end
