(* ===== verification/Rb_Search.thy ===== *)
theory Rb_Search
  imports Rb_Insert
begin

text \<open>Descending in a red-black tree: views of the same tree from its nodes, lookup, and insertion.\<close>

section \<open>Views\<close>

text \<open>The entries \<open>xs\<close> are in the tree, seen from \<open>t\<close>.\<close>

definition view :: "('k, 'v) rb \<Rightarrow> ('k, 'v) rb_frame list \<Rightarrow> ('k, 'v) rtree \<Rightarrow> ('k \<times> 'v) list \<Rightarrow> bool" where
  "view R fs t xs \<longleftrightarrow> focus R fs t \<and> (\<exists>n. frames_ok n fs \<and> rb_ok n t) \<and> (color t = Black \<or> top_black fs)
     \<and> xs = pre fs @ inorder t @ post fs"

definition rb_holds :: "('k, 'v) rb \<Rightarrow> ('k \<times> 'v) list \<Rightarrow> bool" where
  "rb_holds R xs \<longleftrightarrow> (\<exists>t. view R [] t xs)"

lemma view_down: "view R fs (bin d p c t k v s) xs \<Longrightarrow> view R (Fr d p c k v s # fs) t xs"
proof -
  assume V: "view R fs (bin d p c t k v s) xs"
  then obtain n where n: "focus R fs (bin d p c t k v s)" "frames_ok n fs" "rb_ok n (bin d p c t k v s)" "c = Black \<or> top_black fs"
    "xs = pre fs @ inorder (bin d p c t k v s) @ post fs"
    by (auto simp: view_def)
  have "\<exists>m. frames_ok m (Fr d p c k v s # fs) \<and> rb_ok m t"
  proof (cases c)
    case Red
    then show ?thesis using n by auto
  next
    case Black
    then show ?thesis using n by (cases n) auto
  qed
  moreover have "color t = Black \<or> c = Black" using n(3) by (cases c) auto
  ultimately show ?thesis using n by (auto simp: view_def focus_down inorder_bin)
qed

lemma view_up: "view R fs t xs \<Longrightarrow> \<exists>t'. view R [] t' xs"
  using close_frames [of R fs t] by (fastforce simp: view_def rb_tree_def rb_ok_def)

lemma left_behind_holds: "left_behind R A xs \<longleftrightarrow> rb_holds R xs \<and> A = dom (rb_nodes R)"
  unfolding left_behind_def rb_holds_def view_def
  using focusD(5) [of R "[]"] by (fastforce simp: rb_tree_def rb_ok_def)

lemma rb_holdsE:
  assumes "rb_holds R xs"
  obtains t where "view R [] t xs" "rb_root R = addr t" "length (addrs t) = length xs" "inorder t = xs"
proof -
  obtain t where t: "view R [] t xs" using assms by (auto simp: rb_holds_def)
  have "length (addrs t) = length (inorder t)" for t :: "('a, 'b) rtree" by (induction t) auto
  then show ?thesis using that [OF t] t focusD(3) [of R "[]" t] by (simp add: view_def)
qed

lemma length_addrs: "length (addrs t) = length (inorder t)"
  by (induction t) auto

section \<open>Lookup\<close>

abbreviation sorted_keys :: "('k \<Rightarrow> 'k \<Rightarrow> bool) \<Rightarrow> ('k \<times> 'v) list \<Rightarrow> bool" where
  "sorted_keys lt \<equiv> sorted_wrt (\<lambda>a b. lt (fst a) (fst b))"

text \<open>A lookup takes at most as many steps as the tree is deep, which is logarithmic.\<close>

fun depth :: "('k, 'v) rtree \<Rightarrow> nat" where
  "depth Tip = 0"
| "depth (Bin p c l k v r) = Suc (max (depth l) (depth r))"

lemma depth_le_length: "depth t \<le> length (addrs t)"
  by (induction t) auto

lemma depth_bheight: "rb_ok n t \<Longrightarrow> depth t \<le> 2 * n + (if color t = Black then 0 else 1)"
proof (induction t arbitrary: n)
  case (Bin p c l k v r)
  show ?case
  proof (cases c)
    case Red
    then have "rb_ok n l" "rb_ok n r" "color l = Black" "color r = Black" using Bin.prems by (auto simp: rb_ok_def)
    then show ?thesis using Bin.IH(1) [of n] Bin.IH(2) [of n] Red by simp
  next
    case Black
    then obtain m where m: "n = Suc m" "rb_ok m l" "rb_ok m r" using Bin.prems by (cases n) (auto simp: rb_ok_def)
    then show ?thesis using Bin.IH(1) [of m] Bin.IH(2) [of m] Black by (auto split: if_splits)
  qed
qed simp

lemma bheight_size: "rb_ok n t \<Longrightarrow> 2 ^ n \<le> length (addrs t) + 1"
proof (induction t arbitrary: n)
  case (Bin p c l k v r)
  show ?case
  proof (cases c)
    case Red
    then show ?thesis using Bin.IH(1) [of n] Bin.prems by (auto simp: rb_ok_def)
  next
    case Black
    then obtain m where m: "n = Suc m" "rb_ok m l" "rb_ok m r" using Bin.prems by (cases n) (auto simp: rb_ok_def)
    then show ?thesis using Bin.IH(1) [of m] Bin.IH(2) [of m] by simp
  qed
qed simp

lemma node_find_mono: "node_find lt i k p R = Inr q \<Longrightarrow> i \<le> j \<Longrightarrow> node_find lt j k p R = Inr q"
proof (induction i arbitrary: j p)
  case (Suc i)
  obtain m where "j = Suc m" "i \<le> m" using Suc.prems(2) by (cases j) auto
  then show ?case using Suc.prems(1) Suc.IH [of _ m] by (auto simp: node_find.simps rbind_Inr split: if_splits)
qed (simp add: node_find.simps)

context strict_weak_order
begin

lemma node_find_ok:
  "view R fs t xs \<Longrightarrow> t \<noteq> Tip \<Longrightarrow> sorted_keys lt xs \<Longrightarrow> depth t \<le> i \<Longrightarrow>
    (node_find lt i k (addr t) R = Inr 0 \<and> (\<forall>e\<in>set (inorder t). lt k (fst e) \<or> lt (fst e) k)) \<or>
    (\<exists>gs p c l kp v r. node_find lt i k (addr t) R = Inr p \<and> view R gs (Bin p c l kp v r) xs \<and> \<not> lt k kp \<and> \<not> lt kp k)"
proof (induction t arbitrary: fs i)
  case (Bin p c l kp v r)
  obtain j where i: "i = Suc j" using Bin.prems(4) by (cases i) auto
  note V = Bin.prems(1)
  have F: "focus R fs (bin True p c l kp v r)" using V by (simp add: view_def bin_def)
  note n = focus_node [OF F] and sub = focus_sub [OF F]
  have VL: "view R (Fr True p c kp v r # fs) l xs" using view_down [of R fs True p c l kp v r xs] V by (simp add: bin_def)
  have VR: "view R (Fr False p c kp v l # fs) r xs" using view_down [of R fs False p c r kp v l xs] V by (simp add: bin_def)
  have S: "\<forall>e\<in>set (inorder l). lt (fst e) kp" "\<forall>e\<in>set (inorder r). lt kp (fst e)"
    using Bin.prems(3) V by (auto simp: view_def sorted_wrt_append)
  show ?case
  proof (cases "lt k kp")
    case True
    have far: "\<forall>e\<in>set (inorder r). lt k (fst e)" using S(2) True trans by blast
    show ?thesis
    proof (cases "l = Tip")
      case True
      then show ?thesis using n sub \<open>lt k kp\<close> far by (simp add: i node_find.simps)
    next
      case False
      have "depth l \<le> j" using Bin.prems(4) i by simp
      from Bin.IH(1) [OF VL False Bin.prems(3) this]
      show ?thesis using n sub False \<open>lt k kp\<close> far by (auto simp: i node_find.simps)
    qed
  next
    case nl: False
    show ?thesis
    proof (cases "lt kp k")
      case True
      have far: "\<forall>e\<in>set (inorder l). lt (fst e) k" using S(1) True trans by blast
      show ?thesis
      proof (cases "r = Tip")
        case True
        then show ?thesis using n sub \<open>lt kp k\<close> nl far by (simp add: i node_find.simps)
      next
        case False
        have "depth r \<le> j" using Bin.prems(4) i by simp
        from Bin.IH(2) [OF VR False Bin.prems(3) this]
        show ?thesis using n sub False \<open>lt kp k\<close> nl far by (auto simp: i node_find.simps)
      qed
    next
      case False
      then have "node_find lt i k (addr (Bin p c l kp v r)) R = Inr p" using n nl by (simp add: i node_find.simps)
      then show ?thesis using nl False V by blast
    qed
  qed
qed simp

section \<open>Insertion\<close>

lemma hang_node:
  assumes F: "focus R (Fr d p c kp vp s # fs) Tip" and b: "b \<noteq> 0" "b \<notin> dom (rb_nodes R)"
  shows "\<exists>R1. set_child d p b (new_node b k v p Red R) = Inr R1 \<and> focus R1 (Fr d p c kp vp s # fs) (bin True b Red Tip k v Tip)
    \<and> dom (rb_nodes R1) = insert b (dom (rb_nodes R))"
proof -
  note D = focusD [OF F]
  have bn: "b \<notin> set (addrs s)" "b \<notin> set (frame_addrs fs)" "b \<noteq> p" using b(2) unfolding D(5) by simp_all
  have pd: "p \<notin> set (addrs s)" "p \<notin> set (frame_addrs fs)" using D(4) by auto
  let ?h = "(rb_nodes R)(b \<mapsto> mk_node True k v 0 0 p Red, p \<mapsto> mk_node d kp vp b (addr s) (up fs) c)"
  have p: "rb_nodes R p = Some (mk_node d kp vp 0 (addr s) (up fs) c)" using D(2) by simp
  have "set_child d p b (new_node b k v p Red R) = Inr (R\<lparr>rb_nodes := ?h\<rparr>)"
    using p bn(3) set_child_node [of "new_node b k v p Red R" p d kp vp 0 "addr s" "up fs" c d b] by (simp add: new_node_def mk_node_def)
  moreover have "tree_at ?h p s" by (rule tree_at_cong [of "rb_nodes R"]) (use D(2) bn pd in auto)
  moreover have "frames_at ?h fs p" by (rule frames_at_cong [of "rb_nodes R"]) (use D(2) bn pd in auto)
  moreover have "dom ?h = insert b (dom (rb_nodes R))" using p by auto
  ultimately show ?thesis using D b bn p by (auto simp: focus_def bin_def)
qed

text \<open>The new node is repaired upward, wherever it was hung.\<close>

lemma hang_and_fix:
  assumes V: "view R (Fr d p c kp vp s # fs) Tip xs" and b: "b \<noteq> 0" "b \<notin> dom (rb_nodes R)" and f: "length fs + 3 \<le> f"
  shows "\<exists>R'. rbind (set_child d p b (new_node b k v p Red R)) (\<lambda>R1. rbind (insert_fix_up f b R1) (\<lambda>R2. Inr ((b, True), R2)))
      = Inr ((b, True), R')
    \<and> left_behind R' (insert b (dom (rb_nodes R))) (pre (Fr d p c kp vp s # fs) @ (k, v) # post (Fr d p c kp vp s # fs))"
proof -
  have n: "focus R (Fr d p c kp vp s # fs) Tip" "frames_ok 0 (Fr d p c kp vp s # fs)"
    using V unfolding view_def by auto
  obtain R1 where R1: "set_child d p b (new_node b k v p Red R) = Inr R1" "focus R1 (Fr d p c kp vp s # fs) (bin True b Red Tip k v Tip)"
    "dom (rb_nodes R1) = insert b (dom (rb_nodes R))" using hang_node [OF n(1) b] by blast
  obtain R2 where R2: "insert_fix_up f b R1 = Inr R2"
    "left_behind R2 (set (addrs (bin True b Red Tip k v Tip) @ frame_addrs (Fr d p c kp vp s # fs)))
      (pre (Fr d p c kp vp s # fs) @ inorder (bin True b Red Tip k v Tip) @ post (Fr d p c kp vp s # fs))"
    using insert_fix_ok [OF R1(2) _ _ _ _ n(2), of f] f by auto
  have "set (addrs (bin True b Red Tip k v Tip) @ frame_addrs (Fr d p c kp vp s # fs)) = insert b (dom (rb_nodes R))"
    using focusD(5) [OF R1(2)] R1(3) by simp
  moreover have "inorder (bin True b Red Tip k v Tip) = [(k, v)]" by (simp add: bin_def)
  ultimately show ?thesis using R1(1) R2 by simp
qed

lemma node_insert_ok:
  "view R fs t xs \<Longrightarrow> t \<noteq> Tip \<Longrightarrow> sorted_keys lt xs \<Longrightarrow> length (addrs t) \<le> i \<Longrightarrow> length fs + length (addrs t) + 2 \<le> f \<Longrightarrow>
    b \<noteq> 0 \<Longrightarrow> b \<notin> dom (rb_nodes R) \<Longrightarrow> \<forall>e\<in>set (pre fs). lt (fst e) k \<Longrightarrow> \<forall>e\<in>set (post fs). lt k (fst e) \<Longrightarrow>
    (\<exists>R' as bs. node_insert lt f i b k v False (addr t) R = Inr ((b, True), R') \<and> xs = as @ bs
       \<and> left_behind R' (insert b (dom (rb_nodes R))) (as @ (k, v) # bs) \<and> (\<forall>e\<in>set as. lt (fst e) k) \<and> (\<forall>e\<in>set bs. lt k (fst e))) \<or>
    (\<exists>gs p c l kp vp r. node_insert lt f i b k v False (addr t) R = Inr ((p, False), R)
       \<and> view R gs (Bin p c l kp vp r) xs \<and> \<not> lt k kp \<and> \<not> lt kp k)"
proof (induction t arbitrary: fs i)
  case (Bin p c l kp vp r)
  obtain j where i: "i = Suc j" using Bin.prems(4) by (cases i) auto
  note V = Bin.prems(1)
  have F: "focus R fs (bin True p c l kp vp r)" using V by (simp add: view_def bin_def)
  note n = focus_node [OF F] and sub = focus_sub [OF F]
  have VL: "view R (Fr True p c kp vp r # fs) l xs" using view_down [of R fs True p c l kp vp r xs] V by (simp add: bin_def)
  have VR: "view R (Fr False p c kp vp l # fs) r xs" using view_down [of R fs False p c r kp vp l xs] V by (simp add: bin_def)
  have S: "\<forall>e\<in>set (inorder l). lt (fst e) kp" "\<forall>e\<in>set (inorder r). lt kp (fst e)"
    using Bin.prems(3) V by (auto simp: view_def sorted_wrt_append)
  have f: "length fs + 3 \<le> f" using Bin.prems(5) by simp
  show ?case
  proof (cases "lt k kp")
    case True
    have out: "\<forall>e\<in>set (pre (Fr True p c kp vp r # fs)). lt (fst e) k" "\<forall>e\<in>set (post (Fr True p c kp vp r # fs)). lt k (fst e)"
      using S(2) True trans Bin.prems(8,9) by auto
    show ?thesis
    proof (cases "l = Tip")
      case True
      obtain R' where "rbind (set_left p b (new_node b k v p Red R)) (\<lambda>R1. rbind (insert_fix_up f b R1) (\<lambda>R2. Inr ((b, True), R2))) = Inr ((b, True), R')"
        "left_behind R' (insert b (dom (rb_nodes R))) (pre (Fr True p c kp vp r # fs) @ (k, v) # post (Fr True p c kp vp r # fs))"
        using hang_and_fix [OF VL [unfolded True] Bin.prems(6,7) f, of k v] by (auto simp: set_child_def)
      moreover have "xs = pre (Fr True p c kp vp r # fs) @ post (Fr True p c kp vp r # fs)" using VL True by (simp add: view_def)
      moreover have "node_insert lt f i b k v False (addr (Bin p c l kp vp r)) R
        = rbind (set_left p b (new_node b k v p Red R)) (\<lambda>R1. rbind (insert_fix_up f b R1) (\<lambda>R2. Inr ((b, True), R2)))"
        using n sub True \<open>lt k kp\<close> by (simp add: i node_insert.simps)
      ultimately show ?thesis using out by (intro disjI1) (simp only:, blast)
    next
      case False
      have len: "length (addrs l) \<le> j" "length (Fr True p c kp vp r # fs) + length (addrs l) + 2 \<le> f" using Bin.prems(4,5) i by simp_all
      have "node_insert lt f i b k v False (addr (Bin p c l kp vp r)) R = node_insert lt f j b k v False (addr l) R"
        using n sub False \<open>lt k kp\<close> by (simp add: i node_insert.simps)
      then show ?thesis using Bin.IH(1) [OF VL False Bin.prems(3) len Bin.prems(6,7) out] by (simp only:)
    qed
  next
    case nl: False
    show ?thesis
    proof (cases "lt kp k")
      case True
      have out: "\<forall>e\<in>set (pre (Fr False p c kp vp l # fs)). lt (fst e) k" "\<forall>e\<in>set (post (Fr False p c kp vp l # fs)). lt k (fst e)"
        using S(1) True trans Bin.prems(8,9) by auto
      show ?thesis
      proof (cases "r = Tip")
        case True
        obtain R' where "rbind (set_right p b (new_node b k v p Red R)) (\<lambda>R1. rbind (insert_fix_up f b R1) (\<lambda>R2. Inr ((b, True), R2))) = Inr ((b, True), R')"
          "left_behind R' (insert b (dom (rb_nodes R))) (pre (Fr False p c kp vp l # fs) @ (k, v) # post (Fr False p c kp vp l # fs))"
          using hang_and_fix [OF VR [unfolded True] Bin.prems(6,7) f, of k v] by (auto simp: set_child_def)
        moreover have "xs = pre (Fr False p c kp vp l # fs) @ post (Fr False p c kp vp l # fs)" using VR True by (simp add: view_def)
        moreover have "node_insert lt f i b k v False (addr (Bin p c l kp vp r)) R
          = rbind (set_right p b (new_node b k v p Red R)) (\<lambda>R1. rbind (insert_fix_up f b R1) (\<lambda>R2. Inr ((b, True), R2)))"
          using n sub True \<open>lt kp k\<close> nl by (simp add: i node_insert.simps)
        ultimately show ?thesis using out by (intro disjI1) (simp only:, blast)
      next
        case False
        have len: "length (addrs r) \<le> j" "length (Fr False p c kp vp l # fs) + length (addrs r) + 2 \<le> f" using Bin.prems(4,5) i by simp_all
        have "node_insert lt f i b k v False (addr (Bin p c l kp vp r)) R = node_insert lt f j b k v False (addr r) R"
          using n sub False \<open>lt kp k\<close> nl by (simp add: i node_insert.simps)
        then show ?thesis using Bin.IH(2) [OF VR False Bin.prems(3) len Bin.prems(6,7) out] by (simp only:)
      qed
    next
      case False
      have "node_insert lt f i b k v False (addr (Bin p c l kp vp r)) R = Inr ((p, False), R)"
        using n False nl by (simp add: i node_insert.simps)
      then show ?thesis using nl False V by blast
    qed
  qed
qed simp

end

end
