(* ===== verification/Rb_Delete.thy ===== *)
theory Rb_Delete
  imports Rb_Search
begin

text \<open>Removal: repairing the black height around a node, the exchange with the successor, and the node that goes.\<close>

section \<open>Repairing before a removal\<close>

text \<open>The frames around the subtree \<open>t\<close>, which does not change, are made right for one black node less below them.\<close>

definition lowered :: "nat \<Rightarrow> ('k, 'v) rb \<Rightarrow> ('k, 'v) rb_frame list \<Rightarrow> ('k, 'v) rtree \<Rightarrow> ('k, 'v) rb result \<Rightarrow> bool" where
  "lowered n R fs t res \<longleftrightarrow> (\<exists>R' fs'. res = Inr R' \<and> focus R' fs' t \<and> frames_ok n fs' \<and> pre fs' = pre fs \<and> post fs' = post fs
     \<and> dom (rb_nodes R') = dom (rb_nodes R) \<and> (fs' = [] \<longleftrightarrow> fs = []))"

lemma lowered_Inr:
  assumes "focus R1 fs1 t" "pre fs1 = pre fs" "post fs1 = post fs" "dom (rb_nodes R1) = dom (rb_nodes R)" "fs1 = [] \<longleftrightarrow> fs = []"
    "lowered n R1 fs1 t res"
  shows "lowered n R fs t res"
  using assms unfolding lowered_def by auto

lemma focus_close:
  "focus R (Fr d q c k v (bin e s cs m ks vs w) # fs) t \<longleftrightarrow> focus R (Fr e s cs ks vs w # Fr (\<not> d) q c k v t # fs) m"
  by (simp add: focus_down bin_other)

lemma focus_distant:
  "focus R (Fr d q c k v (bin e s cs m ks vs w) # fs) t \<longleftrightarrow> focus R (Fr (\<not> e) s cs ks vs m # Fr (\<not> d) q c k v t # fs) w"
  by (simp add: focus_down bin_other)

lemma paint_close:
  assumes "focus R (Fr d q c k v (bin e s cs (bin i w cw x kw vw y) ks vs b) # fs) t"
  shows "\<exists>R'. paint w c' R = Inr R' \<and> focus R' (Fr d q c k v (bin e s cs (bin i w c' x kw vw y) ks vs b) # fs) t"
  using assms unfolding focus_close by (rule paint_ok)

lemma paint_distant:
  assumes "focus R (Fr d q c k v (bin e s cs a ks vs (bin i w cw x kw vw y)) # fs) t"
  shows "\<exists>R'. paint w c' R = Inr R' \<and> focus R' (Fr d q c k v (bin e s cs a ks vs (bin i w c' x kw vw y)) # fs) t"
  using assms unfolding focus_distant by (rule paint_ok)

lemma root_of_in: "root_of (f # fs) q \<in> set (frame_addrs (f # fs))"
  by (induction fs arbitrary: f q) auto

lemma delete_fix_step:
  assumes F: "focus R (Fr d q c kq vq (bin d s cs m ks vs w) # fs) (bin e p Black a k v b)"
  shows "delete_fix_up (Suc K) p R =
    (if cs = Red then rbind (paint q Red R) (\<lambda>R1. rbind (paint s Black R1) (\<lambda>R2. rbind (rotate_to d q R2) (delete_fix_up K p)))
     else if c = Red \<and> color m = Black \<and> color w = Black then rbind (paint s Red R) (paint q Black)
     else if c = Black \<and> color m = Black \<and> color w = Black then rbind (paint s Red R) (delete_fix_up K q)
     else if color m = Red then rbind (paint s Red R) (\<lambda>R1. rbind (paint (addr m) Black R1) (\<lambda>R2.
       rbind (rotate_to (\<not> d) s R2) (delete_fix_up K p)))
     else rbind (paint s c R) (\<lambda>R1. rbind (paint q cs R1) (\<lambda>R2. rbind (paint (addr w) Black R2) (rotate_to d q))))"
proof -
  let ?S = "bin d s cs m ks vs w" and ?t = "bin e p Black a k v b"
  have p: "rb_node p R = Inr (mk_node e k v (addr a) (addr b) q Black)" using focus_node [OF F] by simp
  have q: "rb_node q R = Inr (mk_node d kq vq p s (up fs) c)" "q \<noteq> 0" using focus_frame [OF F] focus_frame_nonzero [OF F] by simp_all
  have s: "rb_node s R = Inr (mk_node d ks vs (addr m) (addr w) q cs)" "s \<noteq> p"
    using focus_node [OF F [unfolded focus_swap [of R d]]] focus_sib_other [OF F] by simp_all
  have sib: "sibling p R = Inr s" using p q s by (simp add: sibling_def)
  have "p \<noteq> rb_root R"
    using focusD(3,4) [OF F] root_of_in [of "Fr d q c kq vq ?S" fs "addr ?t"] by auto
  moreover have "tree_at (rb_nodes R) s m" "tree_at (rb_nodes R) s w" using focusD(2) [OF F] by (simp_all add: tree_at_bin)
  then have "none_or_black (addr m) R = Inr (color m = Black)" "none_or_black (addr w) R = Inr (color w = Black)"
    by (auto intro: none_or_black_ok)
  ultimately show ?thesis using p q s sib by (cases d) (auto simp: delete_fix_up.simps rotate_to_def Let_def)
qed

text \<open>Case 5, with the distant nephew red; its sons may have any color.\<close>

lemma delete_fix_distant:
  assumes F: "focus R (Fr d q c kq vq (bin d s Black m ks vs (bin i w Red x kw vw y)) # fs) (bin e p Black a k v b)"
    and B: "rb_ok n m" "color m = Black" "rb_ok n x" "rb_ok n y" "c = Red \<longrightarrow> top_black fs"
      "frames_ok (if c = Black then Suc (Suc n) else Suc n) fs"
  shows "lowered n R (Fr d q c kq vq (bin d s Black m ks vs (bin i w Red x kw vw y)) # fs) (bin e p Black a k v b) (delete_fix_up (Suc K) p R)"
proof -
  let ?t = "bin e p Black a k v b" and ?W = "bin i w Black x kw vw y"
  obtain R1 where R1: "paint s c R = Inr R1" "focus R1 (Fr d q c kq vq (bin d s c m ks vs (bin i w Red x kw vw y)) # fs) ?t"
    using paint_sib [OF F] by blast
  obtain R2 where R2: "paint q Black R1 = Inr R2" "focus R2 (Fr d q Black kq vq (bin d s c m ks vs (bin i w Red x kw vw y)) # fs) ?t"
    using paint_top [OF R1(2)] by blast
  obtain R3 where R3: "paint w Black R2 = Inr R3" "focus R3 (Fr d q Black kq vq (bin d s c m ks vs ?W) # fs) ?t"
    using paint_distant [OF R2(2)] by blast
  have 3: "focus R3 fs (bin (\<not> d) q Black (bin d s c m ks vs ?W) kq vq ?t)" using R3(2) by (simp add: focus_down bin_other)
  obtain R4 where R4: "rotate_to d q R3 = Inr R4" "focus R4 fs (bin d s c (bin d q Black ?t kq vq m) ks vs ?W)"
    using rotate_ok [OF 3] by blast
  let ?fs = "Fr d q Black kq vq m # Fr d s c ks vs ?W # fs"
  have 4: "focus R4 ?fs ?t" using R4(2) by (simp add: focus_down)
  have "delete_fix_up (Suc K) p R = Inr R4"
    using delete_fix_step [OF F, of K] B(2) R1(1) R2(1) R3(1) R4(1) by simp
  moreover have "frames_ok n ?fs" using B by simp
  moreover have "dom (rb_nodes R4) = dom (rb_nodes R)" unfolding focusD(5) [OF 4] focusD(5) [OF F] by auto
  ultimately show ?thesis using 4 unfolding lowered_def by (intro exI [of _ R4] exI [of _ ?fs]) (simp add: inorder_bin)
qed

text \<open>Case 4: the close nephew is red.\<close>

lemma delete_fix_close:
  assumes F: "focus R (Fr d q c kq vq (bin d s Black (bin (\<not> d) w Red x kw vw y) ks vs z) # fs) (bin e p Black a k v b)"
    and B: "rb_ok n x" "color x = Black" "rb_ok n y" "color y = Black" "rb_ok n z" "c = Red \<longrightarrow> top_black fs"
      "frames_ok (if c = Black then Suc (Suc n) else Suc n) fs"
  shows "lowered n R (Fr d q c kq vq (bin d s Black (bin (\<not> d) w Red x kw vw y) ks vs z) # fs) (bin e p Black a k v b)
    (delete_fix_up (Suc (Suc K)) p R)"
proof -
  let ?t = "bin e p Black a k v b"
  obtain R1 where R1: "paint s Red R = Inr R1" "focus R1 (Fr d q c kq vq (bin d s Red (bin (\<not> d) w Red x kw vw y) ks vs z) # fs) ?t"
    using paint_sib [OF F] by blast
  obtain R2 where R2: "paint w Black R1 = Inr R2" "focus R2 (Fr d q c kq vq (bin d s Red (bin (\<not> d) w Black x kw vw y) ks vs z) # fs) ?t"
    using paint_close [OF R1(2)] by blast
  have 2: "focus R2 (Fr (\<not> d) q c kq vq ?t # fs) (bin (\<not> \<not> d) s Red (bin (\<not> d) w Black x kw vw y) ks vs z)"
    using R2(2) focus_swap [of R2 d] by simp
  obtain R3 where R3: "rotate_to (\<not> d) s R2 = Inr R3"
    "focus R3 (Fr (\<not> d) q c kq vq ?t # fs) (bin (\<not> d) w Black (bin (\<not> d) s Red z ks vs x) kw vw y)"
    using rotate_ok [OF 2] by blast
  have 3: "focus R3 (Fr d q c kq vq (bin d w Black y kw vw (bin (\<not> d) s Red z ks vs x)) # fs) ?t"
    using R3(2) focus_swap [of R3 d] by (simp add: bin_other)
  have run: "delete_fix_up (Suc (Suc K)) p R = delete_fix_up (Suc K) p R3"
    using delete_fix_step [OF F, of "Suc K"] R1(1) R2(1) R3(1) by simp
  have "dom (rb_nodes R3) = dom (rb_nodes R)" unfolding focusD(5) [OF 3] focusD(5) [OF F] by auto
  then show ?thesis unfolding run
    by (intro lowered_Inr [OF 3 _ _ _ _ delete_fix_distant [OF 3 B(3,4,5,1,6,7)]]; cases d) (simp_all add: inorder_bin)
qed

text \<open>A black sibling one of whose sons is red.\<close>

lemma delete_fix_nephews:
  assumes F: "focus R (Fr d q c kq vq (bin d s Black m ks vs w) # fs) (bin e p Black a k v b)"
    and N: "color m = Red \<or> color w = Red"
    and B: "rb_ok n m" "rb_ok n w" "c = Red \<longrightarrow> top_black fs" "frames_ok (if c = Black then Suc (Suc n) else Suc n) fs"
  shows "lowered n R (Fr d q c kq vq (bin d s Black m ks vs w) # fs) (bin e p Black a k v b) (delete_fix_up (Suc (Suc K)) p R)"
proof (cases "color m")
  case Red
  then obtain u x ku vu y where m: "m = bin (\<not> d) u Red x ku vu y" by (cases m; cases d) (auto simp: bin_def)
  show ?thesis using delete_fix_close [of R d q c kq vq s u x ku vu y ks vs w fs e p a k v b n K] F B unfolding m by simp
next
  case Black
  then obtain u x ku vu y where w: "w = bin d u Red x ku vu y" using N by (cases w; cases d) (auto simp: bin_def)
  show ?thesis using delete_fix_distant [of R d q c kq vq s m ks vs d u x ku vu y fs e p a k v b n "Suc K"] F B Black unfolding w by simp
qed

text \<open>Case 2: a red parent takes the missing black node.\<close>

lemma delete_fix_red_parent:
  assumes F: "focus R (Fr d q Red kq vq S # fs) (bin e p Black a k v b)" and B: "frames_ok (Suc n) (Fr d q Red kq vq S # fs)"
  shows "lowered n R (Fr d q Red kq vq S # fs) (bin e p Black a k v b) (delete_fix_up (Suc (Suc K)) p R)"
proof -
  have "S \<noteq> Tip" using B by auto
  then obtain s cs m ks vs w where S: "S = bin d s cs m ks vs w" by (rule bin_cases)
  have [simp]: "cs = Black" using B S by simp
  have ok: "rb_ok n m" "rb_ok n w" "top_black fs" "frames_ok (Suc n) fs" using B S by simp_all
  show ?thesis
  proof (cases "color m = Red \<or> color w = Red")
    case True
    then show ?thesis using delete_fix_nephews [of R d q Red kq vq s m ks vs w fs e p a k v b n K] F ok by (simp add: S)
  next
    case False
    then have col: "color m = Black" "color w = Black" using not_Black by blast+
    obtain R1 where R1: "paint s Red R = Inr R1" "focus R1 (Fr d q Red kq vq (bin d s Red m ks vs w) # fs) (bin e p Black a k v b)"
      using paint_sib [OF F [unfolded S]] by blast
    obtain R2 where R2: "paint q Black R1 = Inr R2" "focus R2 (Fr d q Black kq vq (bin d s Red m ks vs w) # fs) (bin e p Black a k v b)"
      using paint_top [OF R1(2)] by blast
    have "delete_fix_up (Suc (Suc K)) p R = Inr R2"
      using delete_fix_step [OF F [unfolded S], of "Suc K"] col R1(1) R2(1) by simp
    moreover have "dom (rb_nodes R2) = dom (rb_nodes R)" unfolding focusD(5) [OF R2(2)] focusD(5) [OF F] by (simp add: S)
    ultimately show ?thesis using R2(2) ok col unfolding lowered_def
      by (intro exI [of _ R2] exI [of _ "Fr d q Black kq vq (bin d s Red m ks vs w) # fs"]) (simp add: S inorder_bin)
  qed
qed

lemma delete_fix_ok:
  "focus R fs (bin e p Black a k v b) \<Longrightarrow> frames_ok (Suc n) fs \<Longrightarrow> length fs + 3 \<le> K \<Longrightarrow>
    lowered n R fs (bin e p Black a k v b) (delete_fix_up K p R)"
proof (induction K arbitrary: R fs e p a k v b n)
  case (Suc K)
  note F = Suc.prems(1)
  let ?t = "bin e p Black a k v b"
  obtain K2 where K: "K = Suc (Suc K2)" by (rule that [of "K - 2"]) (use Suc.prems(3) in simp)
  show ?case
  proof (cases fs)
    case Nil
    then have "delete_fix_up (Suc K) p R = Inr R"
      using focus_node [OF F] focusD(3) [OF F] by (simp add: delete_fix_up.simps)
    then show ?thesis using F Nil by (auto simp: lowered_def)
  next
    case (Cons f gs)
    obtain d q c kq vq S where f: "f = Fr d q c kq vq S" by (cases f)
    show ?thesis
    proof (cases c)
      case Red
      then show ?thesis using delete_fix_red_parent [of R d q kq vq S gs e p a k v b n "Suc K2"] F Suc.prems(2) by (simp add: Cons f K)
    next
      case Black
      then have "S \<noteq> Tip" using Suc.prems(2) Cons f by auto
      then obtain s cs m ks vs w where S: "S = bin d s cs m ks vs w" by (rule bin_cases)
      note G = F [unfolded Cons f S Black]
      note step = delete_fix_step [OF G, of K]
      have gs: "frames_ok (Suc (Suc n)) gs" using Suc.prems(2) by (simp add: Cons f Black)
      show ?thesis
      proof (cases cs)
        case Red
        have ok: "rb_ok (Suc n) m" "rb_ok (Suc n) w" "color m = Black" "color w = Black" using Suc.prems(2) by (simp_all add: Cons f S Red)
        obtain R1 where R1: "paint q Red R = Inr R1" "focus R1 (Fr d q Red kq vq (bin d s Red m ks vs w) # gs) ?t"
          using paint_top [OF G [unfolded Red]] by blast
        obtain R2 where R2: "paint s Black R1 = Inr R2" "focus R2 (Fr d q Red kq vq (bin d s Black m ks vs w) # gs) ?t"
          using paint_sib [OF R1(2)] by blast
        have 2: "focus R2 gs (bin (\<not> d) q Red (bin d s Black m ks vs w) kq vq ?t)" using R2(2) by (simp add: focus_down bin_other)
        obtain R3 where R3: "rotate_to d q R2 = Inr R3" "focus R3 gs (bin d s Black (bin d q Red ?t kq vq m) ks vs w)"
          using rotate_ok [OF 2] by blast
        let ?fs = "Fr d q Red kq vq m # Fr d s Black ks vs w # gs"
        have 3: "focus R3 ?fs ?t" using R3(2) by (simp add: focus_down)
        have low: "lowered n R3 ?fs ?t (delete_fix_up K p R3)"
          unfolding K by (rule delete_fix_red_parent [OF 3]) (use ok gs in simp)
        have "delete_fix_up (Suc K) p R = delete_fix_up K p R3" using step R1(1) R2(1) R3(1) by (simp add: Red)
        moreover have "dom (rb_nodes R3) = dom (rb_nodes R)" unfolding focusD(5) [OF 3] focusD(5) [OF G] by auto
        ultimately show ?thesis using lowered_Inr [OF 3 _ _ _ _ low, of fs R] by (simp add: Cons f S inorder_bin)
      next
        case csB: Black
        have ok: "rb_ok n m" "rb_ok n w" using Suc.prems(2) by (simp_all add: Cons f S csB)
        show ?thesis
        proof (cases "color m = Red \<or> color w = Red")
          case True
          then show ?thesis using delete_fix_nephews [of R d q Black kq vq s m ks vs w gs e p a k v b n "Suc K2"] G ok gs
            by (simp add: Cons f S csB Black K)
        next
          case False
          then have col: "color m = Black" "color w = Black" using not_Black by blast+
          obtain R1 where R1: "paint s Red R = Inr R1" "focus R1 (Fr d q Black kq vq (bin d s Red m ks vs w) # gs) ?t"
            using paint_sib [OF G] by blast
          have 1: "focus R1 gs (bin d q Black ?t kq vq (bin d s Red m ks vs w))" using R1(2) by (simp add: focus_down)
          have "lowered (Suc n) R1 gs (bin d q Black ?t kq vq (bin d s Red m ks vs w)) (delete_fix_up K q R1)"
            by (rule Suc.IH [OF 1 gs]) (use Suc.prems(3) Cons in simp)
          then obtain R2 hs where R2: "delete_fix_up K q R1 = Inr R2" "focus R2 hs (bin d q Black ?t kq vq (bin d s Red m ks vs w))"
            "frames_ok (Suc n) hs" "pre hs = pre gs" "post hs = post gs" "dom (rb_nodes R2) = dom (rb_nodes R1)"
            unfolding lowered_def by blast
          let ?fs = "Fr d q Black kq vq (bin d s Red m ks vs w) # hs"
          have 2: "focus R2 ?fs ?t" using R2(2) by (simp add: focus_down)
          have "delete_fix_up (Suc K) p R = Inr R2" using step col R1(1) R2(1) by (simp add: csB)
          moreover have "frames_ok n ?fs" using R2(3) ok col by simp
          moreover have "dom (rb_nodes R2) = dom (rb_nodes R)"
            unfolding R2(6) focusD(5) [OF R1(2)] focusD(5) [OF G] by simp
          ultimately show ?thesis using 2 R2(4,5) unfolding lowered_def
            by (intro exI [of _ R2] exI [of _ ?fs]) (simp add: Cons f S inorder_bin)
        qed
      qed
    qed
  qed
qed simp

end
