(* ===== verification/Rb_Erase.thy ===== *)
theory Rb_Erase
  imports Rb_Delete
begin

text \<open>Unhooking a node, and the exchange of a node with its successor.\<close>

section \<open>Unhooking\<close>

text \<open>A node whose only subtree takes its place.\<close>

lemma splice_out:
  assumes F: "focus R fs (bin d p c u k v Tip)"
  shows "\<exists>R1. set_place (place_of fs) (addr u) R = Inr R1 \<and> tree_at (rb_nodes R1) p u \<and> frames_at (rb_nodes R1) fs (addr u)
    \<and> rb_root R1 = root_of fs (addr u) \<and> dom (rb_nodes R1) = dom (rb_nodes R)"
proof -
  note D = focusD [OF F]
  have fd: "frames_at (rb_nodes R) fs p" "distinct (frame_addrs fs)" "rb_root R = root_of fs p" "tree_at (rb_nodes R) p u"
    "set (addrs u) \<inter> set (frame_addrs fs) = {}"
    using D(1-4) by (auto simp: tree_at_bin)
  obtain R1 where R1: "set_place (place_of fs) (addr u) R = Inr R1" "frames_at (rb_nodes R1) fs (addr u)" "rb_root R1 = root_of fs (addr u)"
    "\<forall>a. a \<notin> set (frame_addrs fs) \<longrightarrow> rb_nodes R1 a = rb_nodes R a" "dom (rb_nodes R1) = dom (rb_nodes R)"
    using set_place_ok [OF fd(1-3)] by blast
  have "tree_at (rb_nodes R1) p u" by (rule tree_at_cong [OF fd(4)]) (use R1(4) fd(5) in auto)
  then show ?thesis using R1 by blast
qed

lemma free_ok:
  assumes "tree_at (rb_nodes R) (up fs) u" "frames_at (rb_nodes R) fs (addr u)" "rb_root R = root_of fs (addr u)"
    "distinct (p # addrs u @ frame_addrs fs)" "dom (rb_nodes R) = set (p # addrs u @ frame_addrs fs)" "p \<noteq> 0"
  shows "\<exists>R'. free_node p R = Inr R' \<and> focus R' fs u"
proof -
  let ?h = "(rb_nodes R)(p := None)"
  have "p \<in> dom (rb_nodes R)" using assms(5) by simp
  then have "free_node p R = Inr (R\<lparr>rb_nodes := ?h\<rparr>)" using assms(6) by (auto simp: free_node_def rb_node_def)
  moreover have "tree_at ?h (up fs) u" by (rule tree_at_cong [OF assms(1)]) (use assms(4) in auto)
  moreover have "frames_at ?h fs (addr u)" by (rule frames_at_cong [OF assms(2)]) (use assms(4) in auto)
  moreover have "dom ?h = set (addrs u @ frame_addrs fs)" using assms(4,5) by auto
  ultimately show ?thesis using assms(3,4) by (simp add: focus_def)
qed

lemma unhook_leaf:
  assumes F: "focus R fs (bin d p c Tip k v Tip)"
  shows "\<exists>R'. rbind (self_path p R) (\<lambda>path. rbind (set_place path 0 R) (free_node p)) = Inr R' \<and> focus R' fs Tip"
proof -
  obtain R1 where R1: "set_place (place_of fs) 0 R = Inr R1" "frames_at (rb_nodes R1) fs 0" "rb_root R1 = root_of fs 0"
    "dom (rb_nodes R1) = dom (rb_nodes R)" using splice_out [OF F] by auto
  have "distinct (p # frame_addrs fs)" "dom (rb_nodes R) = set (p # frame_addrs fs)" "p \<noteq> 0"
    using focusD(4,5) [OF F] focus_nonzero [OF F] by simp_all
  then obtain R2 where "free_node p R1 = Inr R2" "focus R2 fs Tip" using free_ok [of R1 fs Tip p] R1 by auto
  then show ?thesis using self_path_ok [OF F] R1(1) by simp
qed

lemma unhook_single:
  assumes F: "focus R fs (bin d p c (bin e q Red a kq vq b) k v Tip)"
  shows "\<exists>R'. unhook f p R = Inr R' \<and> focus R' fs (bin e q Black a kq vq b)"
proof -
  let ?u = "bin e q Red a kq vq b" and ?w = "bin e q Black a kq vq b"
  obtain R1 where R1: "set_place (place_of fs) q R = Inr R1" "tree_at (rb_nodes R1) p ?u" "frames_at (rb_nodes R1) fs q"
    "rb_root R1 = root_of fs q" "dom (rb_nodes R1) = dom (rb_nodes R)" using splice_out [OF F] by auto
  have D: "distinct (p # addrs ?u @ frame_addrs fs)" "dom (rb_nodes R) = set (p # addrs ?u @ frame_addrs fs)" "p \<noteq> 0"
    using focusD(4,5) [OF F] focus_nonzero [OF F] by auto
  have q: "rb_nodes R1 q = Some (mk_node e kq vq (addr a) (addr b) p Red)" "q \<noteq> 0" using R1(2) by (simp_all add: tree_at_bin)
  let ?h = "(rb_nodes R1)(q \<mapsto> mk_node e kq vq (addr a) (addr b) (up fs) Black)" and ?R3 = "R1\<lparr>rb_nodes :=
    (rb_nodes R1)(q \<mapsto> mk_node e kq vq (addr a) (addr b) (up fs) Black)\<rparr>"
  have steps: "rbind (set_parent q (up fs) R1) (paint q Black) = Inr ?R3"
    using q by (simp add: set_parent_def paint_def rb_mod_def rb_node_def)
  have "tree_at ?h q a" by (rule tree_at_cong [of "rb_nodes R1"]) (use R1(2) D(1) in \<open>auto simp: tree_at_bin\<close>)
  moreover have "tree_at ?h q b" by (rule tree_at_cong [of "rb_nodes R1"]) (use R1(2) D(1) in \<open>auto simp: tree_at_bin\<close>)
  ultimately have t3: "tree_at (rb_nodes ?R3) (up fs) ?w" using q by (simp add: tree_at_bin)
  have f3: "frames_at (rb_nodes ?R3) fs q" by (rule frames_at_cong [OF R1(3)]) (use D(1) in auto)
  have "dom (rb_nodes ?R3) = set (p # addrs ?w @ frame_addrs fs)" using R1(5) D(2) q(1) by auto
  then obtain R4 where R4: "free_node p ?R3 = Inr R4" "focus R4 fs ?w"
    using free_ok [of ?R3 fs ?w p] t3 f3 R1(4) D(1,3) by auto
  have n: "rb_node p R = Inr (mk_node d k v q 0 (up fs) c)" "rb_node q R = Inr (mk_node e kq vq (addr a) (addr b) p Red)"
    using focus_node [OF F] focusD(1) [OF F] by (simp_all add: tree_at_bin rb_node_def)
  have path: "self_path p R = Inr (place_of fs)" by (rule self_path_ok [OF F])
  have "unhook f p R = rbind (set_place (place_of fs) q R) (\<lambda>R1. rbind (set_parent q (up fs) R1) (\<lambda>R2. rbind (paint q Black R2) (free_node p)))"
    using n q(2) path by (cases d) (simp_all add: unhook_def Let_def)
  also have "\<dots> = rbind (rbind (set_parent q (up fs) R1) (paint q Black)) (free_node p)"
    using R1(1) by (cases "set_parent q (up fs) R1") simp_all
  also have "\<dots> = Inr R4" using steps R4(1) by simp
  finally show ?thesis using R4(2) by blast
qed

lemma unhook_ok:
  assumes V: "view R fs (bin d p c u k v Tip) xs" and f: "length fs + 3 \<le> f"
  shows "\<exists>R'. unhook f p R = Inr R' \<and> rb_holds R' (pre fs @ inorder u @ post fs)"
proof -
  obtain n where n: "focus R fs (bin d p c u k v Tip)" "frames_ok n fs" "rb_ok n (bin d p c u k v Tip)" "c = Black \<or> top_black fs"
    using V unfolding view_def color_bin by blast
  note F = n(1)
  have close: "rb_holds R' (pre gs @ inorder t @ post gs)" if "focus R' gs t" "frames_ok m gs" "rb_ok m t" "color t = Black" for R' gs t m
    using left_behindI [OF that(1-3)] that(4) by (simp add: left_behind_holds)
  show ?thesis
  proof (cases "u = Tip")
    case True
    note F = F [unfolded True] and node = focus_node [OF F [unfolded True]]
    show ?thesis
    proof (cases fs)
      case Nil
      obtain R1 where R1: "rbind (self_path p R) (\<lambda>path. rbind (set_place path 0 R) (free_node p)) = Inr R1" "focus R1 fs Tip"
        using unhook_leaf [OF F] by blast
      have sp: "self_path p R = Inr The_root" using self_path_ok [OF F] Nil by simp
      have "rbind (free_node p R) (\<lambda>R1. Inr (R1\<lparr>rb_root := 0\<rparr>)) = Inr R1"
        using R1(1) sp node focus_nonzero [OF F] by (auto simp: free_node_def rb_node_def)
      then have "unhook f p R = Inr R1" using node Nil by (cases d) (simp_all add: unhook_def)
      then show ?thesis using close [OF R1(2), of 0] Nil True by simp
    next
      case (Cons g gs)
      have nz: "up fs \<noteq> 0" using focus_frame_nonzero [of R g gs] F Cons by auto
      have run: "unhook f p R = rbind (if c = Black then delete_fix_up f p R else Inr R)
          (\<lambda>R1. rbind (self_path p R1) (\<lambda>path. rbind (set_place path 0 R1) (free_node p)))"
        using node nz by (cases d) (simp_all add: unhook_def)
      have "\<exists>R1 gs. (if c = Black then delete_fix_up f p R else Inr R) = Inr R1 \<and> focus R1 gs (bin d p c Tip k v Tip) \<and> frames_ok 0 gs
        \<and> pre gs = pre fs \<and> post gs = post fs"
      proof (cases c)
        case Red
        then show ?thesis using F n(2,3) True by auto
      next
        case Black
        then have "n = Suc 0" using n(3) True by (cases n) auto
        then have "frames_ok (Suc 0) fs" using n(2) by simp
        from delete_fix_ok [OF F [unfolded Black] this f] show ?thesis using Black unfolding lowered_def by auto
      qed
      then obtain R1 gs where R1: "(if c = Black then delete_fix_up f p R else Inr R) = Inr R1" "focus R1 gs (bin d p c Tip k v Tip)"
        "frames_ok 0 gs" "pre gs = pre fs" "post gs = post fs" by blast
      obtain R2 where "rbind (self_path p R1) (\<lambda>path. rbind (set_place path 0 R1) (free_node p)) = Inr R2" "focus R2 gs Tip"
        using unhook_leaf [OF R1(2)] by blast
      then show ?thesis using run R1 close [of R2 gs Tip 0] True by simp
    qed
  next
    case False
    then obtain q cq a kq vq b where u: "u = bin d q cq a kq vq b" by (rule bin_cases)
    have c: "c = Black"
    proof (cases c)
      case Red
      then have "rb_ok n u" "n = 0" "color u = Black" using n(3) by auto
      then show ?thesis using rb_ok_zero False by blast
    qed
    then have "n = Suc 0" using n(3) by (cases n) auto
    then have uok: "rb_ok 0 u" using n(3) c by simp
    have "cq = Red" using uok rb_ok_zero False u by (cases cq) auto
    then obtain R1 where R1: "unhook f p R = Inr R1" "focus R1 fs (bin d q Black a kq vq b)"
      using unhook_single [of R fs d p c d q a kq vq b k v f] F u by auto
    have "rb_ok n (bin d q Black a kq vq b)" using uok \<open>n = Suc 0\<close> u \<open>cq = Red\<close> by simp
    from close [OF R1(2) n(2) this] show ?thesis using R1(1) u by (simp add: inorder_bin)
  qed
qed

section \<open>The exchange with the successor\<close>

text \<open>The nodes of \<open>A\<close> get the parent \<open>q\<close>.\<close>

definition reparent :: "nat set \<Rightarrow> nat \<Rightarrow> (nat \<rightharpoonup> ('k, 'v) rnode) \<Rightarrow> nat \<rightharpoonup> ('k, 'v) rnode" where
  "reparent A q h = (\<lambda>a. if a \<in> A then map_option (\<lambda>n. n\<lparr>rn_parent := q\<rparr>) (h a) else h a)"

lemma reparent_out [simp]: "a \<notin> A \<Longrightarrow> reparent A q h a = h a"
  by (simp add: reparent_def)

lemma mk_node_False [simp]: "mk_node False k v t s par c = mk_node True k v s t par c"
  by (simp add: mk_node_def)

lemma dom_reparent [simp]: "dom (reparent A q h) = dom h"
  by (auto simp: reparent_def split: if_splits)

lemma adopt_run:
  assumes "rb_nodes R p = Some (mk_node d k v t s par c)" "t = 0 \<or> t \<in> dom (rb_nodes R)" "s = 0 \<or> s \<in> dom (rb_nodes R)"
  shows "adopt p R = Inr (R\<lparr>rb_nodes := reparent ({t, s} - {0}) p (rb_nodes R)\<rparr>)"
proof -
  have step: "(if a \<noteq> 0 then set_parent a p S else Inr S) = Inr (S\<lparr>rb_nodes := reparent ({a} - {0}) p (rb_nodes S)\<rparr>)"
    if "a = 0 \<or> a \<in> dom (rb_nodes S)" for a and S :: "('a, 'b) rb"
    using that by (auto simp: set_parent_def rb_mod_def rb_node_def reparent_def fun_eq_iff intro!: rb.equality)
  have two: "reparent ({b} - {0}) p (reparent ({a} - {0}) p h) = reparent ({a, b} - {0}) p h" for a b and h :: "nat \<rightharpoonup> ('a, 'b) rnode"
    by (auto simp: reparent_def fun_eq_iff option.map_comp o_def)
  have both: "rbind (if a \<noteq> 0 then set_parent a p R else Inr R) (\<lambda>R1. if b \<noteq> 0 then set_parent b p R1 else Inr R1)
      = Inr (R\<lparr>rb_nodes := reparent ({a, b} - {0}) p (rb_nodes R)\<rparr>)"
    if a: "a = 0 \<or> a \<in> dom (rb_nodes R)" and b: "b = 0 \<or> b \<in> dom (rb_nodes R)" for a b
  proof -
    have "b = 0 \<or> b \<in> dom (rb_nodes (R\<lparr>rb_nodes := reparent ({a} - {0}) p (rb_nodes R)\<rparr>))" using b by simp
    from step [OF this] have "(if b \<noteq> 0 then set_parent b p (R\<lparr>rb_nodes := reparent ({a} - {0}) p (rb_nodes R)\<rparr>)
        else Inr (R\<lparr>rb_nodes := reparent ({a} - {0}) p (rb_nodes R)\<rparr>)) = Inr (R\<lparr>rb_nodes := reparent ({a, b} - {0}) p (rb_nodes R)\<rparr>)"
      by (simp add: two)
    then show ?thesis unfolding step [OF a] by (simp only: rbind.simps)
  qed
  show ?thesis
  proof (cases d)
    case True
    have "adopt p R = rbind (if t \<noteq> 0 then set_parent t p R else Inr R) (\<lambda>R1. if s \<noteq> 0 then set_parent s p R1 else Inr R1)"
      using True assms(1) by (simp only: adopt_def rb_node_def of_option_simps rbind.simps mk_node_simps if_True)
    then show ?thesis using both [OF assms(2,3)] by (simp only:)
  next
    case False
    have "adopt p R = rbind (if s \<noteq> 0 then set_parent s p R else Inr R) (\<lambda>R1. if t \<noteq> 0 then set_parent t p R1 else Inr R1)"
      using False assms(1) by (simp only: adopt_def rb_node_def of_option_simps rbind.simps mk_node_simps if_False)
    then show ?thesis using both [OF assms(3,2)] by (simp only: insert_commute)
  qed
qed

lemma tree_reparent:
  assumes "tree_at h x t" "distinct (addrs t)" "t \<noteq> Tip \<Longrightarrow> addr t \<in> A" "A \<inter> set (addrs t) \<subseteq> {addr t}"
  shows "tree_at (reparent A q h) q t"
proof (cases t)
  case (Bin p c l k v r)
  have out: "\<forall>a\<in>set (addrs l) \<union> set (addrs r). a \<notin> A" using assms(2,4) by (auto simp: Bin)
  have "tree_at (reparent A q h) p l" by (rule tree_at_cong [of h]) (use assms(1) out in \<open>simp_all add: Bin\<close>)
  moreover have "tree_at (reparent A q h) p r" by (rule tree_at_cong [of h]) (use assms(1) out in \<open>simp_all add: Bin\<close>)
  ultimately show ?thesis using assms(1,3) by (simp add: Bin reparent_def)
qed simp

text \<open>A part of the way up, ending below the node \<open>par\<close>.\<close>

primrec part_at :: "(nat \<rightharpoonup> ('k, 'v) rnode) \<Rightarrow> ('k, 'v) rb_frame list \<Rightarrow> nat \<Rightarrow> nat \<Rightarrow> bool" where
  "part_at h [] q par = True"
| "part_at h (f # fs) q par = (fr_addr f \<noteq> 0
     \<and> h (fr_addr f) = Some (mk_node (fr_left f) (fr_key f) (fr_val f) q (addr (fr_sib f)) (if fs = [] then par else up fs) (fr_color f))
     \<and> tree_at h (fr_addr f) (fr_sib f) \<and> part_at h fs (fr_addr f) par)"

lemma up_append: "up (fs @ gs) = (if fs = [] then up gs else up fs)"
  by (cases fs) simp_all

lemma frame_addrs_append [simp]: "frame_addrs (fs @ gs) = frame_addrs fs @ frame_addrs gs"
  by (induction fs) simp_all

lemma root_of_append [simp]: "root_of (fs @ gs) q = root_of gs (root_of fs q)"
  by (induction fs arbitrary: q) simp_all

lemma frames_at_append: "frames_at h (fs @ gs) q \<longleftrightarrow> part_at h fs q (up gs) \<and> frames_at h gs (root_of fs q)"
  by (induction fs arbitrary: q) (auto simp: up_append)

lemma part_at_cong: "part_at h fs q par \<Longrightarrow> \<forall>a\<in>set (frame_addrs fs). h' a = h a \<Longrightarrow> part_at h' fs q par"
  by (induction fs arbitrary: q) (auto intro: tree_at_cong)

lemma part_reparent:
  "part_at h fs q par \<Longrightarrow> fs \<noteq> [] \<Longrightarrow> distinct (frame_addrs fs) \<Longrightarrow> A \<inter> set (frame_addrs fs) = {root_of fs q} \<Longrightarrow>
    part_at (reparent A par' h) fs q par'"
proof (induction fs arbitrary: q)
  case (Cons f fs)
  have sib: "tree_at (reparent A par' h) (fr_addr f) (fr_sib f)"
  proof (rule tree_at_cong [of h])
    have "root_of fs (fr_addr f) \<notin> set (addrs (fr_sib f))"
      using root_of_in [of "hd fs" "tl fs" "fr_addr f"] Cons.prems(3) by (cases fs) auto
    moreover have "a = root_of fs (fr_addr f)" if "a \<in> A" "a \<in> set (addrs (fr_sib f))" for a
    proof -
      have "a \<in> A \<inter> set (frame_addrs (f # fs))" using that by simp
      then show ?thesis unfolding Cons.prems(4) by simp
    qed
    ultimately have "\<forall>a\<in>set (addrs (fr_sib f)). a \<notin> A" by blast
    then show "\<forall>a\<in>set (addrs (fr_sib f)). reparent A par' h a = h a" by simp
  qed (use Cons.prems(1) in simp)
  show ?case
  proof (cases fs)
    case Nil
    then have "fr_addr f \<in> A" using Cons.prems(4) by auto
    then show ?thesis using Cons.prems(1) sib Nil by (simp add: reparent_def)
  next
    case (Cons g gs)
    have r: "root_of fs (fr_addr f) \<in> set (frame_addrs fs)" using root_of_in [of g gs] Cons by simp
    then have "fr_addr f \<notin> A" using Cons.prems(3,4) by auto
    moreover have "A \<inter> set (frame_addrs fs) = {root_of fs (fr_addr f)}" using Cons.prems(4) r by auto
    then have "part_at (reparent A par' h) fs (fr_addr f) par'" using Cons.IH [of "fr_addr f"] Cons.prems(1,3) Cons by simp
    ultimately show ?thesis using Cons.prems(1) sib Cons by simp
  qed
qed simp

lemma part_rehole:
  assumes "part_at h (f # fs) q par" "distinct (frame_addrs (f # fs))" "h (fr_addr f) = Some n" "fr_left f"
  shows "part_at (h(fr_addr f \<mapsto> n\<lparr>rn_left := q'\<rparr>)) (f # fs) q' par"
proof -
  let ?h = "h(fr_addr f \<mapsto> n\<lparr>rn_left := q'\<rparr>)"
  have "tree_at ?h (fr_addr f) (fr_sib f)" by (rule tree_at_cong [of h]) (use assms(1,2) in auto)
  moreover have "part_at ?h fs (fr_addr f) par" by (rule part_at_cong [of h]) (use assms(1,2) in auto)
  ultimately show ?thesis using assms(1,3,4) by auto
qed

text \<open>The successor is the son of \<open>p\<close> itself, or lies at the left end of the right subtree.\<close>

lemma swap_near:
  assumes F: "focus R (Fr False p c k v l # fs) (bin True s cs Tip ks vs sr)" and l: "l \<noteq> Tip"
  shows "\<exists>R'. swap_with_successor p s R = Inr R' \<and> focus R' (Fr False s c ks vs l # fs) (bin True p cs Tip k v sr)"
proof -
  note D = focusD [OF F]
  let ?h = "rb_nodes R"
  have P: "?h p = Some (mk_node False k v s (addr l) (up fs) c)" "?h s = Some (mk_node True ks vs 0 (addr sr) p cs)"
    "tree_at ?h p l" "tree_at ?h s sr" "frames_at ?h fs p" "p \<noteq> 0" "s \<noteq> 0"
    using D(1,2) by (simp_all add: tree_at_bin)
  have N: "distinct (addrs l)" "distinct (addrs sr)" "distinct (frame_addrs fs)" "p \<noteq> s" "p \<notin> set (addrs l)" "p \<notin> set (addrs sr)"
    "p \<notin> set (frame_addrs fs)" "s \<notin> set (addrs l)" "s \<notin> set (addrs sr)" "s \<notin> set (frame_addrs fs)"
    "set (addrs l) \<inter> set (addrs sr) = {}" "set (addrs l) \<inter> set (frame_addrs fs) = {}" "set (addrs sr) \<inter> set (frame_addrs fs) = {}"
    using D(4) by auto
  have al: "addr l \<in> set (addrs l)" "addr l \<noteq> 0" using l addr_in addr_zero [OF P(3)] by auto
  have asr: "addr sr = 0 \<or> addr sr \<in> set (addrs sr)" using addr_in [of sr] by (cases sr) auto
  have dom: "dom ?h = insert s (insert p (set (addrs l) \<union> set (addrs sr) \<union> set (frame_addrs fs)))" using D(5) by auto
  have G: "focus R fs (bin False p c (bin True s cs Tip ks vs sr) k v l)" using F by (simp add: focus_down)
  have pn: "self_path p R = Inr (place_of fs)" by (rule self_path_ok [OF G])
  have pm: "\<exists>x. self_path s R = Inr x" using self_path_ok [OF F] by simp
  define h2 where "h2 = ?h(p \<mapsto> mk_node False k v s (addr l) (up fs) cs, s \<mapsto> mk_node False ks vs p (addr l) p c)"
  define h3 where "h3 = reparent {p, addr l} s h2"
  define h4 where "h4 = h3(s \<mapsto> mk_node False ks vs p (addr l) (up fs) c)"
  have d2: "dom h2 = dom ?h" using dom by (auto simp: h2_def)
  have ad3: "adopt s (R\<lparr>rb_nodes := h2\<rparr>) = Inr (R\<lparr>rb_nodes := h3\<rparr>)"
    using adopt_run [of "R\<lparr>rb_nodes := h2\<rparr>" s False ks vs p "addr l" p c] al P(6) d2 dom by (auto simp: h2_def h3_def insert_Diff_if)
  have s3: "h3 s = Some (mk_node False ks vs p (addr l) p c)" using N(4,8) al(1) by (cases "s = addr l") (simp_all add: h3_def h2_def)
  have l3: "tree_at h3 s l" unfolding h3_def
    by (rule tree_reparent [of _ p]) (use P(3) N al in \<open>auto simp: h2_def intro: tree_at_cong\<close>)
  have p3: "h3 p = Some (mk_node False k v s (addr l) s cs)" using N(4) by (simp add: h3_def h2_def reparent_def)
  have f4: "frames_at h4 fs p" by (rule frames_at_cong [OF P(5)]) (use N al in \<open>auto simp: h4_def h3_def h2_def reparent_def\<close>)
  obtain R5 where R5: "set_place (place_of fs) s (R\<lparr>rb_nodes := h4\<rparr>) = Inr R5" "frames_at (rb_nodes R5) fs s" "rb_root R5 = root_of fs s"
    "\<forall>a. a \<notin> set (frame_addrs fs) \<longrightarrow> rb_nodes R5 a = h4 a" "dom (rb_nodes R5) = dom h4"
    using set_place_ok [of "R\<lparr>rb_nodes := h4\<rparr>" fs p s] f4 N(3) D(3) by auto
  have d5: "dom (rb_nodes R5) = dom ?h" using R5(5) d2 dom by (auto simp: h4_def h3_def)
  have p5: "rb_nodes R5 p = Some (mk_node False k v s (addr l) s cs)" using R5(4) N p3 by (simp add: h4_def)
  have s5: "rb_nodes R5 s = Some (mk_node False ks vs p (addr l) (up fs) c)" using R5(4) N by (simp add: h4_def)
  define h6 where "h6 = (rb_nodes R5)(p \<mapsto> mk_node True k v 0 (addr sr) s cs)"
  define h7 where "h7 = reparent ({0, addr sr} - {0}) p h6"
  have d6: "dom h6 = dom ?h" using d5 dom by (auto simp: h6_def)
  have ad7: "adopt p (R5\<lparr>rb_nodes := h6\<rparr>) = Inr (R5\<lparr>rb_nodes := h7\<rparr>)"
    using adopt_run [of "R5\<lparr>rb_nodes := h6\<rparr>" p True k v 0 "addr sr" s cs] asr d6 dom by (auto simp: h6_def h7_def)
  have "\<forall>a\<in>set (addrs sr). a \<notin> set (frame_addrs fs) \<and> a \<noteq> p \<and> a \<noteq> s \<and> a \<noteq> addr l" using N al by auto
  then have sr6: "tree_at h6 s sr"
    by (intro tree_at_cong [OF P(4)]) (use R5(4) in \<open>simp add: h6_def h4_def h3_def h2_def\<close>)
  have sr7: "tree_at h7 p sr" unfolding h7_def
    by (rule tree_reparent [OF sr6 N(2)]) (use asr addr_in [of sr] addr_zero [OF sr6] in auto)
  have "\<forall>a\<in>set (addrs l). a \<notin> set (frame_addrs fs) \<and> a \<noteq> p \<and> a \<noteq> s \<and> a \<notin> {0, addr sr} - {0}" using N asr by auto
  then have l7: "tree_at h7 s l" by (intro tree_at_cong [OF l3]) (use R5(4) in \<open>simp add: h7_def h6_def h4_def\<close>)
  have "\<forall>a\<in>set (frame_addrs fs). a \<noteq> p \<and> a \<notin> {0, addr sr} - {0}" using N asr by auto
  then have f7: "frames_at h7 fs s" by (intro frames_at_cong [OF R5(2)]) (simp add: h7_def h6_def)
  have out7: "p \<notin> {0, addr sr} - {0}" "s \<notin> {0, addr sr} - {0}" using N asr P(6,7) by auto
  have n7: "h7 p = Some (mk_node True k v 0 (addr sr) s cs)" "h7 s = Some (mk_node False ks vs p (addr l) (up fs) c)"
    using N(4) s5 unfolding h7_def reparent_out [OF out7(1)] reparent_out [OF out7(2)] by (simp_all add: h6_def)
  have run: "swap_with_successor p s R = Inr (R5\<lparr>rb_nodes := h7\<rparr>)"
    using P(1,2) pn pm N(4) ad3 s3 R5(1) p5 ad7
    by (auto simp: swap_with_successor_def rb_node_def paint_def set_left_def set_right_def set_parent_def rb_mod_def fun_upd_twist
        h2_def h4_def h6_def)
  have "focus (R5\<lparr>rb_nodes := h7\<rparr>) (Fr False s c ks vs l # fs) (bin True p cs Tip k v sr)"
    using sr7 l7 f7 n7 P(6,7) R5(3) N D(4) d6 dom by (auto simp: focus_def tree_at_bin h7_def)
  then show ?thesis using run by blast
qed

lemma self_path_at:
  assumes "rb_node p R = Inr (mk_node d k v t s (up fs) c)" "frames_at (rb_nodes R) fs p" "p \<notin> set (frame_addrs fs)" "p \<noteq> 0"
  shows "self_path p R = Inr (place_of fs)"
proof (cases fs)
  case Nil
  then show ?thesis using assms(1) by (simp add: self_path_def)
next
  case (Cons f gs)
  have "addr (fr_sib f) \<noteq> p" using assms(3,4) Cons by (cases "fr_sib f") auto
  then show ?thesis using assms(1,2) Cons by (auto simp: self_path_def rb_node_def)
qed

lemma swap_far:
  assumes F: "focus R (es @ Fr False p c k v l # fs) (bin True s cs Tip ks vs sr)" and l: "l \<noteq> Tip"
    and es: "es = d # ds" and left: "fr_left d"
  shows "\<exists>R'. swap_with_successor p s R = Inr R' \<and> focus R' (es @ Fr False s c ks vs l # fs) (bin True p cs Tip k v sr)"
proof -
  note D = focusD [OF F]
  let ?h = "rb_nodes R" and ?g = "fr_addr d"
  let ?rc = "root_of es s"
  have parts: "part_at ?h es s p" "frames_at ?h (Fr False p c k v l # fs) ?rc"
    using D(2) frames_at_append [of ?h es "Fr False p c k v l # fs" s] by simp_all
  have P: "?h p = Some (mk_node False k v ?rc (addr l) (up fs) c)" "?h s = Some (mk_node True ks vs 0 (addr sr) ?g cs)"
    "tree_at ?h p l" "tree_at ?h s sr" "frames_at ?h fs p" "p \<noteq> 0" "s \<noteq> 0"
    using D(1) parts(2) by (simp_all add: tree_at_bin up_append) (simp_all add: es)
  have N: "distinct (addrs l)" "distinct (addrs sr)" "distinct (frame_addrs fs)" "distinct (frame_addrs es)" "p \<noteq> s"
    using D(4) by auto
  have L: "\<forall>a\<in>set (addrs l). a \<noteq> p \<and> a \<noteq> s \<and> a \<notin> set (addrs sr) \<and> a \<notin> set (frame_addrs fs) \<and> a \<notin> set (frame_addrs es)"
    and SR: "\<forall>a\<in>set (addrs sr). a \<noteq> p \<and> a \<noteq> s \<and> a \<notin> set (frame_addrs fs) \<and> a \<notin> set (frame_addrs es)"
    and FS: "\<forall>a\<in>set (frame_addrs fs). a \<noteq> p \<and> a \<noteq> s \<and> a \<notin> set (frame_addrs es)"
    and DS: "\<forall>a\<in>set (frame_addrs es). a \<noteq> p \<and> a \<noteq> s"
    using D(4) by auto
  have rc: "?rc \<in> set (frame_addrs es)" "?g \<in> set (frame_addrs es)" using root_of_in [of d ds s] by (simp_all add: es)
  have nz: "0 \<notin> set (frame_addrs es)" using frames_at_nonzero [OF D(2)] by simp
  have al: "addr l \<in> set (addrs l)" "addr l \<noteq> 0" using l addr_in addr_zero [OF P(3)] by auto
  have asr: "addr sr = 0 \<or> addr sr \<in> set (addrs sr)" using addr_in [of sr] by (cases sr) auto
  have dom: "dom ?h = insert s (insert p (set (addrs l) \<union> set (addrs sr) \<union> set (frame_addrs fs) \<union> set (frame_addrs es)))"
    using D(5) by auto
  have pn: "self_path p R = Inr (place_of fs)"
    by (rule self_path_at [of p R False k v ?rc "addr l" fs c]) (use P(1,5,6) FS in \<open>auto simp: rb_node_def\<close>)
  have pm: "self_path s R = Inr (Left_of ?g)" using self_path_ok [OF F] left by (simp add: es)
  define h2 where "h2 = ?h(p \<mapsto> mk_node False k v ?rc (addr l) (up fs) cs, s \<mapsto> mk_node False ks vs ?rc (addr l) ?g c)"
  define h3 where "h3 = reparent {?rc, addr l} s h2"
  define h4 where "h4 = h3(s \<mapsto> mk_node False ks vs ?rc (addr l) (up fs) c)"
  have d2: "dom h2 = dom ?h" using dom by (auto simp: h2_def)
  have ad3: "adopt s (R\<lparr>rb_nodes := h2\<rparr>) = Inr (R\<lparr>rb_nodes := h3\<rparr>)"
    using adopt_run [of "R\<lparr>rb_nodes := h2\<rparr>" s False ks vs ?rc "addr l" ?g c] al rc nz d2 dom
    by (auto simp: h2_def h3_def insert_Diff_if)
  have rest: "h3 a = ?h a" if "a \<noteq> p" "a \<noteq> s" "a \<noteq> addr l" "a \<noteq> ?rc" for a using that by (simp add: h3_def h2_def)
  have rcn: "?rc \<noteq> p" "?rc \<noteq> s" using bspec [OF DS rc(1)] by (simp_all only: not_False_eq_True)
  have aln: "addr l \<noteq> p" "addr l \<noteq> s" using bspec [OF L al(1)] by (simp_all only: not_False_eq_True)
  have ne: "p \<notin> {?rc, addr l}" "s \<notin> {?rc, addr l}" using rcn aln by (simp_all only: insert_iff empty_iff) metis+
  have s3: "h3 s = Some (mk_node False ks vs ?rc (addr l) ?g c)" unfolding h3_def reparent_out [OF ne(2)] by (simp add: h2_def)
  have p3: "h3 p = Some (mk_node False k v ?rc (addr l) (up fs) cs)" unfolding h3_def reparent_out [OF ne(1)] using N(5) by (simp add: h2_def)
  have l3: "tree_at h3 s l"
  proof -
    have "tree_at h2 p l" by (rule tree_at_cong [OF P(3)]) (use L in \<open>auto simp: h2_def\<close>)
    then show ?thesis unfolding h3_def by (rule tree_reparent) (use N(1) L rc in auto)
  qed
  have ds3: "part_at h3 es s s"
  proof -
    have p2: "part_at h2 es s p" by (rule part_at_cong [OF parts(1)]) (use DS in \<open>simp add: h2_def\<close>)
    have A: "{?rc, addr l} \<inter> set (frame_addrs es) = {?rc}" using rc(1) L al(1) by auto
    show ?thesis unfolding h3_def by (rule part_reparent [OF p2 _ N(4) A]) (simp add: es)
  qed
  have "\<forall>a\<in>set (frame_addrs fs). h4 a = ?h a" using FS rc(1) L al(1) by (auto simp: h4_def intro!: rest)
  then have f4: "frames_at h4 fs p" by (rule frames_at_cong [OF P(5)])
  obtain R5 where R5: "set_place (place_of fs) s (R\<lparr>rb_nodes := h4\<rparr>) = Inr R5" "frames_at (rb_nodes R5) fs s" "rb_root R5 = root_of fs s"
    "\<forall>a. a \<notin> set (frame_addrs fs) \<longrightarrow> rb_nodes R5 a = h4 a" "dom (rb_nodes R5) = dom h4"
    using set_place_ok [of "R\<lparr>rb_nodes := h4\<rparr>" fs p s] f4 N(3) D(3) by auto
  have d5: "dom (rb_nodes R5) = dom ?h" using R5(5) d2 dom by (auto simp: h4_def h3_def)
  have out5: "p \<notin> set (frame_addrs fs)" "s \<notin> set (frame_addrs fs)" using FS by blast+
  have p5: "rb_nodes R5 p = Some (mk_node False k v ?rc (addr l) (up fs) cs)" using R5(4) out5 p3 N(5) by (simp add: h4_def)
  have s5: "rb_nodes R5 s = Some (mk_node False ks vs ?rc (addr l) (up fs) c)" using R5(4) out5 by (simp add: h4_def)
  define h6 where "h6 = (rb_nodes R5)(p \<mapsto> mk_node True k v 0 (addr sr) (up fs) cs)"
  define h7 where "h7 = reparent ({0, addr sr} - {0}) p h6"
  define h8 where "h8 = h7(p \<mapsto> mk_node True k v 0 (addr sr) ?g cs)"
  have d6: "dom h6 = dom ?h" using d5 dom by (auto simp: h6_def)
  have ad7: "adopt p (R5\<lparr>rb_nodes := h6\<rparr>) = Inr (R5\<lparr>rb_nodes := h7\<rparr>)"
    using adopt_run [of "R5\<lparr>rb_nodes := h6\<rparr>" p True k v 0 "addr sr" "up fs" cs] asr d6 dom by (auto simp: h6_def h7_def)
  have out7: "p \<notin> {0, addr sr} - {0}" "s \<notin> {0, addr sr} - {0}" using SR asr P(6,7) by auto
  have n7: "h7 p = Some (mk_node True k v 0 (addr sr) (up fs) cs)" "h7 s = Some (mk_node False ks vs ?rc (addr l) (up fs) c)"
    using N(5) s5 unfolding h7_def reparent_out [OF out7(1)] reparent_out [OF out7(2)] by (simp_all add: h6_def)
  have same8: "h8 a = h3 a" if "a \<notin> set (frame_addrs fs)" "a \<noteq> p" "a \<noteq> s" "a \<notin> set (addrs sr)" for a
    using that R5(4) asr by (cases "a = addr sr") (auto simp: h8_def h7_def h6_def h4_def reparent_def)
  have ds8: "part_at h8 es s s" by (rule part_at_cong [OF ds3]) (use DS SR FS in \<open>blast intro: same8\<close>)
  obtain n where n: "h8 ?g = Some n" using ds8 by (auto simp: es)
  define h9 where "h9 = h8(?g \<mapsto> n\<lparr>rn_left := p\<rparr>)"
  have ds9: "part_at h9 es p s" unfolding h9_def es by (rule part_rehole [OF ds8 [unfolded es] N(4) [unfolded es] n left])
  have g: "?g \<noteq> p" "?g \<noteq> s" using DS rc(2) by blast+
  have "\<forall>a\<in>set (addrs sr). h6 a = ?h a"
    using SR R5(4) rc(1) L al(1) by (auto simp: h6_def h4_def intro!: rest)
  then have sr6: "tree_at h6 s sr" by (rule tree_at_cong [OF P(4)])
  have sr7: "tree_at h7 p sr" unfolding h7_def
    by (rule tree_reparent [OF sr6 N(2)]) (use asr addr_in [of sr] addr_zero [OF sr6] in auto)
  have "\<forall>a\<in>set (addrs sr). h9 a = h7 a" using SR rc(2) by (auto simp: h9_def h8_def)
  then have sr9: "tree_at h9 p sr" by (rule tree_at_cong [OF sr7])
  have "\<forall>a\<in>set (addrs l). h9 a = h3 a" using L rc(2) by (auto simp: h9_def intro!: same8)
  then have l9: "tree_at h9 s l" by (rule tree_at_cong [OF l3])
  have "\<forall>a\<in>set (frame_addrs fs). h9 a = rb_nodes R5 a"
    using FS rc(2) SR asr by (auto simp: h9_def h8_def h7_def h6_def reparent_def)
  then have f9: "frames_at h9 fs s" by (rule frames_at_cong [OF R5(2)])
  have n9: "h9 p = Some (mk_node True k v 0 (addr sr) ?g cs)" "h9 s = Some (mk_node False ks vs ?rc (addr l) (up fs) c)"
    using g N(5) n7(2) by (auto simp: h9_def h8_def)
  have d9: "dom h9 = dom ?h" using d6 rc(2) dom by (auto simp: h9_def h8_def h7_def)
  have run: "swap_with_successor p s R = Inr (R5\<lparr>rb_nodes := h9\<rparr>)"
    using P(1,2) pn pm N(5) g ad3 s3 R5(1) p5 ad7 n7(1) n
    by (auto simp: swap_with_successor_def rb_node_def paint_def set_left_def set_right_def set_parent_def rb_mod_def fun_upd_twist
        h2_def h4_def h6_def h8_def h9_def)
  have rp: "root_of es p = ?rc" by (simp add: es)
  have "frames_at h9 (es @ Fr False s c ks vs l # fs) p"
    unfolding frames_at_append using ds9 n9 l9 f9 P(7) rp by simp
  moreover have "distinct (addrs (bin True p cs Tip k v sr) @ frame_addrs (es @ Fr False s c ks vs l # fs))"
    using D(4) by auto
  moreover have "dom h9 = set (addrs (bin True p cs Tip k v sr) @ frame_addrs (es @ Fr False s c ks vs l # fs))"
    unfolding d9 dom by auto
  ultimately have "focus (R5\<lparr>rb_nodes := h9\<rparr>) (es @ Fr False s c ks vs l # fs) (bin True p cs Tip k v sr)"
    using sr9 n9(1) P(6) R5(3) by (simp add: focus_def tree_at_bin up_append) (simp add: es)
  then show ?thesis using run by auto
qed

section \<open>Removing any node\<close>

lemma pre_append: "pre (fs @ gs) = pre gs @ pre fs"
  by (induction fs) simp_all

lemma post_append: "post (fs @ gs) = post fs @ post gs"
  by (induction fs) simp_all

lemma pre_left: "\<forall>d\<in>set ds. fr_left d \<Longrightarrow> pre ds = []"
  by (induction ds) simp_all

lemma length_frames: "length fs \<le> length (pre fs) + length (post fs)"
  by (induction fs) auto

lemma view_length: "view R fs t xs \<Longrightarrow> length fs + length (addrs t) \<le> length xs"
  using length_frames [of fs] by (simp add: view_def length_addrs)

text \<open>Both loops along one side.\<close>

definition end_of :: "bool \<Rightarrow> nat \<Rightarrow> nat \<Rightarrow> ('k, 'v) rb \<Rightarrow> nat result" where
  "end_of d = (if d then leftmost else rightmost)"

lemma end_of_step:
  "rb_node p R = Inr (mk_node d k v t s par c) \<Longrightarrow> end_of d (Suc i) p R = (if t = 0 then Inr p else end_of d i t R)"
  by (cases d) (simp_all add: end_of_def leftmost.simps rightmost.simps)

lemma end_of_ok:
  "view R gs t xs \<Longrightarrow> t \<noteq> Tip \<Longrightarrow> length (addrs t) \<le> i \<Longrightarrow>
    \<exists>ds s c k v r. end_of d i (addr t) R = Inr s \<and> view R (ds @ gs) (bin d s c Tip k v r) xs \<and> (\<forall>f\<in>set ds. fr_left f = d)"
proof (induction i arbitrary: gs t)
  case (Suc i)
  obtain p c l k v r where t: "t = bin d p c l k v r" by (rule bin_cases [OF Suc.prems(2)])
  note V = Suc.prems(1) [unfolded t]
  then have F: "focus R gs (bin d p c l k v r)" unfolding view_def by blast
  note n = focus_node [OF F] and sub = focus_sub [OF F]
  show ?case
  proof (cases "l = Tip")
    case True
    then have "end_of d (Suc i) (addr t) R = Inr p" using end_of_step [OF n, of i] by (simp add: t)
    then show ?thesis using V True by (intro exI [of _ "[]"]) auto
  next
    case False
    have "length (addrs l) \<le> i" using Suc.prems(3) by (simp add: t)
    from Suc.IH [OF view_down [OF V] False this] obtain ds s c' k' v' r' where
      "end_of d i (addr l) R = Inr s" "view R ((ds @ [Fr d p c k v r]) @ gs) (bin d s c' Tip k' v' r') xs" "\<forall>f\<in>set ds. fr_left f = d"
      by auto
    moreover have "end_of d (Suc i) (addr t) R = end_of d i (addr l) R" using end_of_step [OF n, of i] sub False by (simp add: t)
    ultimately show ?thesis by (intro exI [of _ "ds @ [Fr d p c k v r]"]) auto
  qed
next
  case 0
  then show ?case by (cases t) simp_all
qed

lemma frames_ok_rename: "frames_ok n (ds @ Fr e p c k v l # fs) \<longleftrightarrow> frames_ok n (ds @ Fr e' s c k' v' l # fs)"
proof (induction ds arbitrary: n)
  case (Cons d ds)
  have "top_black (ds @ Fr e p c k v l # fs) \<longleftrightarrow> top_black (ds @ Fr e' s c k' v' l # fs)" by (cases ds) simp_all
  then show ?case using Cons.IH by simp
qed simp

lemma top_black_rename: "top_black (ds @ Fr e p c k v l # fs) \<longleftrightarrow> top_black (ds @ Fr e' s c k' v' l # fs)"
  by (cases ds) simp_all

lemma delete_node_single:
  assumes "view R fs (bin d p c u k v Tip) xs" "length xs + 2 \<le> f"
  shows "\<exists>R'. delete_node f (Suc i) p R = Inr R' \<and> rb_holds R' (pre fs @ inorder u @ post fs)"
proof -
  have F: "focus R fs (bin d p c u k v Tip)" using assms(1) unfolding view_def by blast
  have "delete_node f (Suc i) p R = unhook f p R" using focus_node [OF F] by (simp add: delete_node.simps)
  moreover have "length fs + 3 \<le> f" using view_length [OF assms(1)] assms(2) by simp
  ultimately show ?thesis using unhook_ok [OF assms(1)] by simp
qed

lemma delete_node_ok:
  assumes V: "view R fs (Bin p c l k v r) xs" and f: "length xs + 2 \<le> f"
  shows "\<exists>R'. delete_node f 2 p R = Inr R' \<and> rb_holds R' (pre fs @ inorder l @ inorder r @ post fs)"
proof (cases "l = Tip \<or> r = Tip")
  case True
  then obtain d u where u: "Bin p c l k v r = bin d p c u k v Tip" "inorder u = inorder l @ inorder r"
  proof
    assume "l = Tip"
    then show thesis using that [of False r] by (simp add: bin_def)
  next
    assume "r = Tip"
    then show thesis using that [of True l] by (simp add: bin_def)
  qed
  show ?thesis using delete_node_single [OF V [unfolded u(1)] f, of 1] u(2) by (simp add: numeral_2_eq_2)
next
  case False
  have VB: "view R fs (bin False p c r k v l) xs" using V by (simp add: bin_def)
  have F: "focus R fs (bin False p c r k v l)" using VB unfolding view_def by blast
  note n = focus_node [OF F] and sub = focus_sub [OF F] and VR = view_down [OF VB]
  have "length (addrs r) \<le> f" using view_length [OF VR] f by simp
  then obtain ds s cs ks vs sr where s: "leftmost f (addr r) R = Inr s"
    "view R (ds @ Fr False p c k v l # fs) (bin True s cs Tip ks vs sr) xs" "\<forall>d\<in>set ds. fr_left d"
    using end_of_ok [OF VR _ \<open>length (addrs r) \<le> f\<close>, of True] False unfolding end_of_def by auto
  let ?gs = "ds @ Fr False s c ks vs l # fs"
  obtain m where m: "focus R (ds @ Fr False p c k v l # fs) (bin True s cs Tip ks vs sr)" "frames_ok m (ds @ Fr False p c k v l # fs)"
    "rb_ok m (bin True s cs Tip ks vs sr)" "cs = Black \<or> top_black (ds @ Fr False p c k v l # fs)"
    "xs = pre (ds @ Fr False p c k v l # fs) @ inorder (bin True s cs Tip ks vs sr) @ post (ds @ Fr False p c k v l # fs)"
    using s(2) unfolding view_def color_bin by blast
  have "\<exists>R1. swap_with_successor p s R = Inr R1 \<and> focus R1 ?gs (bin True p cs Tip k v sr)"
  proof (cases ds)
    case Nil
    then show ?thesis using swap_near [of R p c k v l fs s cs ks vs sr] m(1) False by simp
  next
    case (Cons d ds')
    then show ?thesis using swap_far [OF m(1) _ Cons] s(3) False by simp
  qed
  then obtain R1 where R1: "swap_with_successor p s R = Inr R1" "focus R1 ?gs (bin True p cs Tip k v sr)" by blast
  have b: "bin True p cs Tip k v sr = bin False p cs sr k v Tip" by (simp add: bin_def)
  have "rb_ok m (bin False p cs sr k v Tip)" using m(3) by (cases cs; cases m) (auto simp: rb_ok_def bin_def)
  moreover have "frames_ok m ?gs" using m(2) by (rule frames_ok_rename [THEN iffD1])
  moreover have "cs = Black \<or> top_black ?gs" using m(4) top_black_rename [of ds False p c k v l fs False s ks vs] by (simp only:)
  ultimately have V1: "view R1 ?gs (bin False p cs sr k v Tip) (pre ?gs @ inorder (bin False p cs sr k v Tip) @ post ?gs)"
    using R1(2) unfolding b view_def color_bin by blast
  have len: "length (pre ?gs @ inorder (bin False p cs sr k v Tip) @ post ?gs) + 2 \<le> f"
    using f m(5) by (simp add: pre_append post_append inorder_bin)
  have run: "delete_node f 2 p R = delete_node f (Suc 0) p R1"
    using n sub False s(1) R1(1) by (simp add: delete_node.simps numeral_2_eq_2)
  have "inorder r = (ks, vs) # inorder sr @ post ds"
  proof -
    have "xs = pre fs @ inorder l @ (k, v) # inorder r @ post fs" using V by (simp add: view_def)
    then show ?thesis using m(5) pre_left [OF s(3)] by (simp add: pre_append post_append inorder_bin)
  qed
  then have "pre ?gs @ inorder sr @ post ?gs = pre fs @ inorder l @ inorder r @ post fs"
    using pre_left [OF s(3)] by (simp add: pre_append post_append)
  then show ?thesis using delete_node_single [OF V1 len, of 0] by (simp only: run)
qed

end
