(* ===== verification/Rb_Iterators.thy ===== *)
theory Rb_Iterators
  imports Rb_Erase
begin

text \<open>Iterators are positions in the sequence of entries; copies; and the depth of the tree.\<close>

section \<open>Positions\<close>

definition at_pos :: "('k, 'v) rb \<Rightarrow> ('k \<times> 'v) list \<Rightarrow> nat \<Rightarrow> nat \<Rightarrow> bool" where
  "at_pos R xs p i \<longleftrightarrow> (\<exists>fs c l k v r. view R fs (Bin p c l k v r) xs \<and> length (pre fs @ inorder l) = i)"

text \<open>The node of an iterator at \<open>i\<close>; the end has the null pointer.\<close>

definition it_pos :: "('k, 'v) rb \<Rightarrow> ('k \<times> 'v) list \<Rightarrow> nat \<Rightarrow> nat \<Rightarrow> bool" where
  "it_pos R xs p i \<longleftrightarrow> (if i < length xs then at_pos R xs p i else i = length xs \<and> p = 0)"

lemma at_posI:
  assumes "view R fs (bin True p c l k v r) xs"
  shows "at_pos R xs p (length (pre fs @ inorder l))"
  using assms unfolding at_pos_def bin_def if_True by blast

lemma at_pos_bound: "at_pos R xs p i \<Longrightarrow> i < length xs"
  by (auto simp: at_pos_def view_def)

lemma at_pos_nonzero: "at_pos R xs p i \<Longrightarrow> p \<noteq> 0"
  by (auto simp: at_pos_def view_def focus_def)

lemma at_pos_it: "at_pos R xs p i \<Longrightarrow> it_pos R xs p i"
  using at_pos_bound by (auto simp: it_pos_def)

lemma at_pos_entry:
  assumes "at_pos R xs p i"
  shows "\<exists>n. rb_node p R = Inr n \<and> (rn_key n, rn_val n) = xs ! i"
proof -
  obtain fs c l k v r where V: "view R fs (Bin p c l k v r) xs" "length (pre fs @ inorder l) = i" using assms by (auto simp: at_pos_def)
  have "focus R fs (bin True p c l k v r)" using V(1) unfolding view_def bin_def by auto
  from focus_node [OF this] show ?thesis using V by (auto simp: view_def nth_append)
qed

text \<open>The two ends of a subtree.\<close>

lemma first_of_subtree:
  assumes "view R gs t xs" "t \<noteq> Tip" "length (addrs t) \<le> i"
  shows "\<exists>s. leftmost i (addr t) R = Inr s \<and> at_pos R xs s (length (pre gs))"
proof -
  obtain ds s c k v r where s: "leftmost i (addr t) R = Inr s" "view R (ds @ gs) (bin True s c Tip k v r) xs" "\<forall>f\<in>set ds. fr_left f"
    using end_of_ok [OF assms, of True] by (auto simp: end_of_def)
  then show ?thesis using at_posI [OF s(2)] pre_left [OF s(3)] by (simp add: pre_append)
qed

lemma post_right: "\<forall>f\<in>set fs. \<not> fr_left f \<Longrightarrow> post fs = []"
  by (induction fs) simp_all

lemma last_of_subtree:
  assumes "view R gs t xs" "t \<noteq> Tip" "length (addrs t) \<le> i"
  shows "\<exists>s j. rightmost i (addr t) R = Inr s \<and> at_pos R xs s j \<and> Suc j = length (pre gs @ inorder t)"
proof -
  obtain ds s c k v r where s: "rightmost i (addr t) R = Inr s" "view R (ds @ gs) (bin False s c Tip k v r) xs" "\<forall>f\<in>set ds. \<not> fr_left f"
    using end_of_ok [OF assms, of False] by (auto simp: end_of_def)
  have "at_pos R xs s (length (pre (ds @ gs) @ inorder r))"
    using at_posI [of R "ds @ gs" s c r k v Tip xs] s(2) by (simp add: bin_def)
  moreover have "xs = pre (ds @ gs) @ inorder (bin False s c Tip k v r) @ post (ds @ gs)" "xs = pre gs @ inorder t @ post gs"
    using s(2) assms(1) unfolding view_def by blast+
  then have "Suc (length (pre (ds @ gs) @ inorder r)) = length (pre gs @ inorder t)"
    using post_right [OF s(3)] by (simp add: pre_append post_append inorder_bin)
  ultimately show ?thesis using s(1) by blast
qed

text \<open>Climbing while the node is a son on the side \<open>d\<close>.\<close>

definition climb :: "bool \<Rightarrow> nat \<Rightarrow> nat \<Rightarrow> ('k, 'v) rb \<Rightarrow> nat result" where
  "climb d = (if d then climb_left else climb_right)"

lemma climb_top: "rb_node p R = Inr n \<Longrightarrow> rn_parent n = 0 \<Longrightarrow> climb d (Suc i) p R = Inr p"
  by (simp add: climb_def climb_left.simps climb_right.simps)

lemma climb_step:
  "rb_node p R = Inr n \<Longrightarrow> rn_parent n = q \<Longrightarrow> q \<noteq> 0 \<Longrightarrow> rb_node q R = Inr (mk_node e k v p s par c) \<Longrightarrow> s \<noteq> p \<Longrightarrow>
    climb d (Suc i) p R = (if e = d then climb d i q R else Inr p)"
  by (auto simp: climb_def climb_left.simps climb_right.simps)

lemma climb_ok:
  "view R fs t xs \<Longrightarrow> t \<noteq> Tip \<Longrightarrow> length fs < i \<Longrightarrow>
    \<exists>p q. climb d i (addr t) R = Inr p \<and> father_of p R = Inr q \<and>
      (q = 0 \<and> (if d then pre fs = [] else post fs = []) \<or>
       (\<exists>j. at_pos R xs q j \<and> (if d then Suc j = length (pre fs) else j = length (pre fs @ inorder t))))"
proof (induction fs arbitrary: t i)
  case Nil
  obtain p c l k v r where t: "t = bin True p c l k v r" by (rule bin_cases [OF Nil.prems(2)])
  have "focus R [] (bin True p c l k v r)" using Nil.prems(1) t unfolding view_def by blast
  from focus_node [OF this] show ?case using climb_top [of p R _ d "i - 1"] rb_mod_parent [of p R] Nil.prems(3) t by (cases i) auto
next
  case (Cons f fs)
  obtain j where i: "i = Suc j" using Cons.prems(3) by (cases i) auto
  obtain p c l k v r where t: "t = bin True p c l k v r" by (rule bin_cases [OF Cons.prems(2)])
  obtain e q cq kq vq s where f: "f = Fr e q cq kq vq s" by (cases f)
  have F: "focus R (f # fs) (bin True p c l k v r)" using Cons.prems(1) t unfolding view_def by blast
  have p: "rb_node p R = Inr (mk_node True k v (addr l) (addr r) q c)" using focus_node [OF F] f by simp
  have q: "rb_node q R = Inr (mk_node e kq vq p (addr s) (up fs) cq)" "q \<noteq> 0" "addr s \<noteq> p"
    using focus_frame [OF F] focus_frame_nonzero [OF F] focus_sib_other [OF F] f by simp_all
  have step: "climb d i p R = (if e = d then climb d j q R else Inr p)" using climb_step [OF p _ q(2,1,3)] i by simp
  have V: "view R fs (bin e q cq t kq vq s) xs"
  proof -
    obtain n where n: "frames_ok n (f # fs)" "rb_ok n t" "color t = Black \<or> cq = Black" using Cons.prems(1) f unfolding view_def by auto
    have "rb_ok (if cq = Black then Suc n else n) (bin e q cq t kq vq s)" using n f by (cases cq) auto
    moreover have "frames_ok (if cq = Black then Suc n else n) fs" "cq = Black \<or> top_black fs" using n(1) f by (cases cq; simp)+
    ultimately show ?thesis using Cons.prems(1) f unfolding view_def by (auto simp: focus_down inorder_bin)
  qed
  show ?case
  proof (cases "e = d")
    case True
    have "length fs < j" using Cons.prems(3) i by simp
    from Cons.IH [OF V _ this] show ?thesis using step True t f by (cases d) (simp_all add: inorder_bin)
  next
    case False
    have "\<exists>j. at_pos R xs q j \<and> (if d then Suc j = length (pre (f # fs)) else j = length (pre (f # fs) @ inorder t))"
    proof (cases d)
      case True
      then have "bin e q cq t kq vq s = bin True q cq s kq vq t" using False by (simp add: bin_def)
      then show ?thesis using at_posI [of R fs q cq s kq vq t xs] V True False f by auto
    next
      case F: False
      then show ?thesis using at_posI [of R fs q cq t kq vq s xs] V False f by auto
    qed
    then show ?thesis using step False t rb_mod_parent [OF p] by auto
  qed
qed

section \<open>Iterators\<close>

definition map_ok :: "('k, 'v) rmap \<Rightarrow> ('k \<times> 'v) list \<Rightarrow> bool" where
  "map_ok M xs \<longleftrightarrow> rb_holds (rm_tree M) xs \<and> rm_count M = length xs"

lemma map_ok_root:
  assumes "map_ok M xs"
  obtains t where "view (rm_tree M) [] t xs" "rb_root (rm_tree M) = addr t" "length (addrs t) = length xs" "inorder t = xs"
    "addr t = 0 \<longleftrightarrow> xs = []" "t = Tip \<longleftrightarrow> xs = []"
proof -
  have H: "rb_holds (rm_tree M) xs" using assms unfolding map_ok_def by blast
  obtain t where t: "view (rm_tree M) [] t xs" "rb_root (rm_tree M) = addr t" "length (addrs t) = length xs" "inorder t = xs"
    by (rule rb_holdsE [OF H])
  have tip: "t = Tip \<longleftrightarrow> xs = []" using t(4) by (cases t) auto
  have "tree_at (rb_nodes (rm_tree M)) 0 t" using t(1) focusD(1) [of "rm_tree M" "[]" t] unfolding view_def by simp
  then have "addr t = 0 \<longleftrightarrow> xs = []" using addr_zero [of "rb_nodes (rm_tree M)" 0 t] tip by simp
  then show thesis by (rule that [OF t _ tip])
qed

lemma map_begin_ok:
  assumes "map_ok M xs"
  shows "\<exists>p. map_begin M = Inr \<lparr>ri_ptr = p, ri_domain = rm_self M\<rparr> \<and> it_pos (rm_tree M) xs p 0"
proof -
  obtain t where t: "view (rm_tree M) [] t xs" "rb_root (rm_tree M) = addr t" "length (addrs t) = length xs"
    "addr t = 0 \<longleftrightarrow> xs = []" "t = Tip \<longleftrightarrow> xs = []" by (rule map_ok_root [OF assms])
  show ?thesis
  proof (cases "xs = []")
    case True
    then show ?thesis using t by (simp add: map_begin_def map_end_def it_pos_def)
  next
    case False
    have "length (addrs t) \<le> rm_count M + 1" using t(3) assms by (simp add: map_ok_def)
    then obtain s where "leftmost (rm_count M + 1) (addr t) (rm_tree M) = Inr s" "at_pos (rm_tree M) xs s 0"
      using first_of_subtree [OF t(1)] False t(5) by auto
    then show ?thesis using False t at_pos_it by (fastforce simp: map_begin_def)
  qed
qed

lemma map_end_ok: "map_ok M xs \<Longrightarrow> it_pos (rm_tree M) xs (ri_ptr (map_end M)) (length xs)"
  by (simp add: map_end_def it_pos_def)

lemma ri_deref_ok:
  "it_pos (rm_tree M) xs p i \<Longrightarrow> ri_deref M \<lparr>ri_ptr = p, ri_domain = d\<rparr> = (if i < length xs then Inr (xs ! i) else Inl Invalid_iterator)"
  using at_pos_entry [of "rm_tree M" xs p i] at_pos_nonzero [of "rm_tree M" xs p i]
  by (cases "i < length xs") (auto simp: it_pos_def ri_deref_def)

lemma ri_next_ok:
  assumes M: "map_ok M xs" and p: "it_pos (rm_tree M) xs p i"
  shows "if i < length xs then \<exists>q. ri_next M \<lparr>ri_ptr = p, ri_domain = d\<rparr> = Inr \<lparr>ri_ptr = q, ri_domain = d\<rparr> \<and> it_pos (rm_tree M) xs q (Suc i)
    else ri_next M \<lparr>ri_ptr = p, ri_domain = d\<rparr> = Inl Invalid_iterator"
proof (cases "i < length xs")
  case True
  then have a: "at_pos (rm_tree M) xs p i" using p by (simp add: it_pos_def)
  then obtain fs c l k v r where V: "view (rm_tree M) fs (bin True p c l k v r) xs" and i: "length (pre fs @ inorder l) = i"
    by (auto simp: at_pos_def bin_def)
  then have F: "focus (rm_tree M) fs (bin True p c l k v r)" unfolding view_def by blast
  note n = focus_node [OF F] and sub = focus_sub [OF F] and nz = at_pos_nonzero [OF a]
  have V': "view (rm_tree M) fs (bin False p c r k v l) xs" using V by (simp add: bin_def)
  note VR = view_down [OF V']
  have cnt: "rm_count M = length xs" using M by (simp add: map_ok_def)
  show ?thesis
  proof (cases "r = Tip")
    case False
    have "length (addrs r) \<le> rm_count M + 1" using view_length [OF VR] cnt by simp
    from first_of_subtree [OF VR False this] obtain s where
      s: "leftmost (rm_count M + 1) (addr r) (rm_tree M) = Inr s" "at_pos (rm_tree M) xs s (Suc i)" using i by auto
    then have "ri_next M \<lparr>ri_ptr = p, ri_domain = d\<rparr> = Inr \<lparr>ri_ptr = s, ri_domain = d\<rparr>"
      using n sub nz False by (simp add: ri_next_def)
    then show ?thesis using True at_pos_it [OF s(2)] by simp
  next
    case tip: True
    have "length fs < rm_count M + 1" using view_length [OF V] cnt by simp
    from climb_ok [OF V _ this, of False] obtain p1 q where
      c: "climb_right (rm_count M + 1) p (rm_tree M) = Inr p1" "father_of p1 (rm_tree M) = Inr q"
      "q = 0 \<and> post fs = [] \<or> (\<exists>j. at_pos (rm_tree M) xs q j \<and> j = length (pre fs @ inorder (bin True p c l k v r)))"
      by (auto simp: climb_def)
    have "ri_next M \<lparr>ri_ptr = p, ri_domain = d\<rparr> = Inr \<lparr>ri_ptr = q, ri_domain = d\<rparr>"
      using n sub nz tip c(1,2) by (simp add: ri_next_def)
    moreover have "it_pos (rm_tree M) xs q (Suc i)"
      using c(3)
    proof
      assume "q = 0 \<and> post fs = []"
      then show ?thesis using V i tip by (simp add: it_pos_def view_def inorder_bin)
    next
      assume "\<exists>j. at_pos (rm_tree M) xs q j \<and> j = length (pre fs @ inorder (bin True p c l k v r))"
      then have "at_pos (rm_tree M) xs q (Suc i)" using i tip by (simp add: inorder_bin)
      then show ?thesis by (rule at_pos_it)
    qed
    ultimately show ?thesis using True by simp
  qed
next
  case False
  then show ?thesis using p by (simp add: it_pos_def ri_next_def)
qed

lemma ri_prev_ok:
  assumes M: "map_ok M xs" and p: "it_pos (rm_tree M) xs p i" and d: "d \<noteq> 0"
  shows "if 0 < i then \<exists>q. ri_prev M \<lparr>ri_ptr = p, ri_domain = d\<rparr> = Inr \<lparr>ri_ptr = q, ri_domain = d\<rparr> \<and> it_pos (rm_tree M) xs q (i - 1)
    else ri_prev M \<lparr>ri_ptr = p, ri_domain = d\<rparr> = Inl Invalid_iterator"
proof (cases "i < length xs")
  case True
  then have a: "at_pos (rm_tree M) xs p i" using p by (simp add: it_pos_def)
  then obtain fs c l k v r where V: "view (rm_tree M) fs (bin True p c l k v r) xs" and i: "length (pre fs @ inorder l) = i"
    by (auto simp: at_pos_def bin_def)
  then have F: "focus (rm_tree M) fs (bin True p c l k v r)" unfolding view_def by blast
  note n = focus_node [OF F] and sub = focus_sub [OF F] and nz = at_pos_nonzero [OF a] and VL = view_down [OF V]
  have cnt: "rm_count M = length xs" using M by (simp add: map_ok_def)
  show ?thesis
  proof (cases "l = Tip")
    case False
    have "length (addrs l) \<le> rm_count M + 1" using view_length [OF VL] cnt by simp
    from last_of_subtree [OF VL False this] obtain s j where
      s: "rightmost (rm_count M + 1) (addr l) (rm_tree M) = Inr s" "at_pos (rm_tree M) xs s j" "Suc j = i" using i by auto
    then have "ri_prev M \<lparr>ri_ptr = p, ri_domain = d\<rparr> = Inr \<lparr>ri_ptr = s, ri_domain = d\<rparr>"
      using n sub nz False by (simp add: ri_prev_def)
    then show ?thesis using at_pos_it [OF s(2)] s(3) by auto
  next
    case tip: True
    have "length fs < rm_count M + 1" using view_length [OF V] cnt by simp
    from climb_ok [OF V _ this, of True] obtain p1 q where
      c: "climb_left (rm_count M + 1) p (rm_tree M) = Inr p1" "father_of p1 (rm_tree M) = Inr q"
      "q = 0 \<and> pre fs = [] \<or> (\<exists>j. at_pos (rm_tree M) xs q j \<and> Suc j = length (pre fs))"
      by (auto simp: climb_def)
    have run: "ri_prev M \<lparr>ri_ptr = p, ri_domain = d\<rparr> = (if q = 0 then Inl Invalid_iterator else Inr \<lparr>ri_ptr = q, ri_domain = d\<rparr>)"
      using n sub nz tip c(1,2) by (simp add: ri_prev_def)
    show ?thesis using c(3)
    proof
      assume "q = 0 \<and> pre fs = []"
      then show ?thesis using i tip run by simp
    next
      assume "\<exists>j. at_pos (rm_tree M) xs q j \<and> Suc j = length (pre fs)"
      then obtain j where j: "at_pos (rm_tree M) xs q j" "Suc j = i" using i tip by auto
      then show ?thesis using run at_pos_nonzero [OF j(1)] at_pos_it [OF j(1)] by auto
    qed
  qed
next
  case False
  then have e: "p = 0" "i = length xs" using p by (simp_all add: it_pos_def)
  obtain t where t: "view (rm_tree M) [] t xs" "rb_root (rm_tree M) = addr t" "length (addrs t) = length xs" "inorder t = xs"
    "addr t = 0 \<longleftrightarrow> xs = []" "t = Tip \<longleftrightarrow> xs = []" by (rule map_ok_root [OF M])
  show ?thesis
  proof (cases "xs = []")
    case True
    then show ?thesis using e t by (simp add: ri_prev_def)
  next
    case ne: False
    have "length (addrs t) \<le> rm_count M + 1" using t(3) M by (simp add: map_ok_def)
    then obtain s j where s: "rightmost (rm_count M + 1) (addr t) (rm_tree M) = Inr s" "at_pos (rm_tree M) xs s j" "Suc j = length xs"
      using last_of_subtree [OF t(1), of "rm_count M + 1"] ne t(4,6) by auto
    have "j = i - 1" using s(3) e(2) by simp
    then have "it_pos (rm_tree M) xs s (i - 1)" using at_pos_it [OF s(2)] by simp
    moreover have "ri_prev M \<lparr>ri_ptr = p, ri_domain = d\<rparr> = Inr \<lparr>ri_ptr = s, ri_domain = d\<rparr>"
      using e ne t(2,5) d s(1) by (simp add: ri_prev_def)
    ultimately show ?thesis using e ne by auto
  qed
qed

section \<open>Releasing and copying\<close>

lemma restrict_all [simp]: "m |` UNIV = m"
  by (simp add: restrict_map_def)

lemma keep_nodes [simp]: "R\<lparr>rb_nodes := rb_nodes R\<rparr> = R"
  by simp

text \<open>Releasing what is below a node, then the node.\<close>

lemma free_top:
  assumes "tree_at (rb_nodes R) par t" "if t = Tip then S = R else S = R\<lparr>rb_nodes := rb_nodes R |` (- (set (addrs t) - {addr t}))\<rparr>"
  shows "free_node (addr t) S = Inr (R\<lparr>rb_nodes := rb_nodes R |` (- set (addrs t))\<rparr>)"
proof (cases t)
  case Tip
  then show ?thesis using assms(2) by (simp add: free_node_def)
next
  case (Bin p c l k v r)
  have "(rb_nodes R |` (- (set (addrs t) - {p})))(p := None) = rb_nodes R |` (- set (addrs t))"
    by (auto simp: Bin restrict_map_def fun_eq_iff)
  then show ?thesis using assms Bin by (simp add: free_node_def rb_node_def restrict_map_def)
qed

lemma release_all_ok:
  "tree_at (rb_nodes R) par t \<Longrightarrow> t \<noteq> Tip \<Longrightarrow> distinct (addrs t) \<Longrightarrow> length (addrs t) \<le> k \<Longrightarrow>
    release_all k (addr t) R = Inr (R\<lparr>rb_nodes := rb_nodes R |` (- (set (addrs t) - {addr t}))\<rparr>)"
proof (induction t arbitrary: R par k)
  case (Bin p c l kp v r)
  obtain j where k: "k = Suc j" using Bin.prems(4) by (cases k) auto
  have P: "rb_nodes R p = Some (mk_node True kp v (addr l) (addr r) par c)" "tree_at (rb_nodes R) p l" "tree_at (rb_nodes R) p r"
    using Bin.prems(1) by simp_all
  have D: "distinct (addrs l)" "distinct (addrs r)" "set (addrs l) \<inter> set (addrs r) = {}" "p \<notin> set (addrs l)" "p \<notin> set (addrs r)"
    "length (addrs l) \<le> j" "length (addrs r) \<le> j" using Bin.prems(3,4) k by auto
  have z: "addr l = 0 \<longleftrightarrow> l = Tip" "addr r = 0 \<longleftrightarrow> r = Tip" using P(2,3) by (simp_all add: addr_zero)
  let ?A = "set (addrs l) - {addr l}" and ?B = "set (addrs r) - {addr r}"
  define h1 where "h1 = rb_nodes R |` (- ?A)"
  define h2 where "h2 = h1 |` (- ?B)"
  define h3 where "h3 = h2(addr l := (if l = Tip then h2 (addr l) else None))"
  have 1: "(if addr l \<noteq> 0 then release_all j (addr l) R else Inr R) = Inr (R\<lparr>rb_nodes := h1\<rparr>)"
    using Bin.IH(1) [OF P(2) _ D(1,6)] z(1) by (cases "l = Tip") (simp_all add: h1_def)
  have r1: "tree_at h1 p r" by (rule tree_at_cong [OF P(3)]) (use D(3) in \<open>auto simp: restrict_map_def h1_def\<close>)
  then have 2: "(if addr r \<noteq> 0 then release_all j (addr r) (R\<lparr>rb_nodes := h1\<rparr>) else Inr (R\<lparr>rb_nodes := h1\<rparr>)) = Inr (R\<lparr>rb_nodes := h2\<rparr>)"
    using Bin.IH(2) [of "R\<lparr>rb_nodes := h1\<rparr>" p j] D(2,7) z(2) by (cases "r = Tip") (simp_all add: h2_def)
  have al: "addr l \<in> set (addrs l)" "h2 (addr l) \<noteq> None" if "l \<noteq> Tip"
    using that P(2) D(3) by (cases l; auto simp: h2_def h1_def restrict_map_def)+
  have ar: "addr r \<in> set (addrs r)" "h3 (addr r) \<noteq> None" if "r \<noteq> Tip"
    using that P(3) D(3) by (cases r; cases l; auto simp: h3_def h2_def h1_def restrict_map_def)+
  have 3: "free_node (addr l) (R\<lparr>rb_nodes := h2\<rparr>) = Inr (R\<lparr>rb_nodes := h3\<rparr>)"
    using al(2) z(1) by (cases "l = Tip") (auto simp: free_node_def rb_node_def h3_def)
  have h4: "h3(addr r := (if r = Tip then h3 (addr r) else None)) = rb_nodes R |` (- (set (addrs l) \<union> set (addrs r)))"
    using al(1) ar(1) by (cases l; cases r) (auto simp: h3_def h2_def h1_def restrict_map_def fun_eq_iff)
  then have 4: "free_node (addr r) (R\<lparr>rb_nodes := h3\<rparr>) = Inr (R\<lparr>rb_nodes := rb_nodes R |` (- (set (addrs l) \<union> set (addrs r)))\<rparr>)"
    using ar(2) z(2) by (cases "r = Tip") (auto simp: free_node_def rb_node_def)
  have "set (addrs (Bin p c l kp v r)) - {p} = set (addrs l) \<union> set (addrs r)" using D(4,5) by auto
  moreover have "release_all k p R = rbind (if addr l \<noteq> 0 then release_all j (addr l) R else Inr R) (\<lambda>R1.
     rbind (if addr r \<noteq> 0 then release_all j (addr r) R1 else Inr R1) (\<lambda>R2. rbind (free_node (addr l) R2) (free_node (addr r))))"
    by (simp only: k release_all.simps rb_node_def P(1) of_option_simps rbind.simps mk_node_simps if_True)
  ultimately show ?case unfolding 1 by (simp only: addr.simps rbind.simps 2 3 4)
qed simp

lemma map_release_ok:
  assumes "map_ok M xs"
  shows "map_release M = Inr ((rm_tree M)\<lparr>rb_nodes := Map.empty\<rparr>)"
proof -
  obtain t where t: "view (rm_tree M) [] t xs" "rb_root (rm_tree M) = addr t" "length (addrs t) = length xs" "inorder t = xs"
    "addr t = 0 \<longleftrightarrow> xs = []" "t = Tip \<longleftrightarrow> xs = []" by (rule map_ok_root [OF assms])
  have F: "focus (rm_tree M) [] t" using t(1) unfolding view_def by blast
  note D = focusD [OF F]
  have "length (addrs t) \<le> rm_count M + 1" using t(3) assms by (simp add: map_ok_def)
  then have "free_node (addr t) S = Inr ((rm_tree M)\<lparr>rb_nodes := rb_nodes (rm_tree M) |` (- set (addrs t))\<rparr>)"
    if "(if addr t \<noteq> 0 then release_all (rm_count M + 1) (addr t) (rm_tree M) else Inr (rm_tree M)) = Inr S" for S
    using free_top [OF D(1), of S] release_all_ok [OF D(1), of "rm_count M + 1"] D(4) that t(5,6) by (cases "t = Tip") simp_all
  moreover have "\<exists>S. (if addr t \<noteq> 0 then release_all (rm_count M + 1) (addr t) (rm_tree M) else Inr (rm_tree M)) = Inr S"
    using release_all_ok [OF D(1), of "rm_count M + 1"] D(4) \<open>length (addrs t) \<le> rm_count M + 1\<close> t(5,6) by (cases "t = Tip") simp_all
  moreover have "rb_nodes (rm_tree M) |` (- set (addrs t)) = Map.empty"
    using D(5) by (auto simp: restrict_map_def fun_eq_iff domIff)
  ultimately show ?thesis using t(2) by (auto simp: map_release_def)
qed

text \<open>Copies have the same shape.\<close>

fun same :: "('k, 'v) rtree \<Rightarrow> ('k, 'v) rtree \<Rightarrow> bool" where
  "same Tip Tip = True"
| "same (Bin p c l k v r) (Bin p' c' l' k' v' r') = (c = c' \<and> k = k' \<and> v = v' \<and> same l l' \<and> same r r')"
| "same _ _ = False"

lemma same_facts:
  "same t t' \<Longrightarrow> inorder t' = inorder t \<and> color t' = color t \<and> bheight t' = bheight t \<and> invc t' = invc t \<and> invh t' = invh t
    \<and> (t' = Tip \<longleftrightarrow> t = Tip)"
  by (induction t t' rule: same.induct) auto

lemma copy_from_ok:
  "tree_at (rb_nodes S) par t \<Longrightarrow> length as = length (addrs t) \<Longrightarrow> distinct as \<Longrightarrow> 0 \<notin> set as \<Longrightarrow>
    set as \<inter> dom (rb_nodes R) = {} \<Longrightarrow> length (addrs t) \<le> k \<Longrightarrow>
    \<exists>R' t'. copy_from k S x (addr t) (as @ bs) R = Inr (if t = Tip then x else addr t', bs, R') \<and> same t t' \<and> addrs t' = as
      \<and> tree_at (rb_nodes R') 0 t' \<and> rb_root R' = rb_root R \<and> dom (rb_nodes R') = dom (rb_nodes R) \<union> set as
      \<and> (\<forall>a\<in>dom (rb_nodes R). rb_nodes R' a = rb_nodes R a)"
proof (induction t arbitrary: as bs R par k x)
  case Tip
  then show ?case by (intro exI [of _ R] exI [of _ Tip]) (simp add: copy_from.simps [of _ _ _ 0])
next
  case (Bin q c l kq v r)
  obtain j where k: "k = Suc j" using Bin.prems(6) by (cases k) auto
  obtain b as' where as: "as = b # as'" using Bin.prems(2) by (cases as) auto
  let ?al = "take (length (addrs l)) as'" and ?ar = "drop (length (addrs l)) as'"
  have len: "length ?al = length (addrs l)" "length ?ar = length (addrs r)" using Bin.prems(2) as by auto
  have spl: "as' = ?al @ ?ar" by simp
  have sets: "set as' = set ?al \<union> set ?ar" by (metis set_append append_take_drop_id)
  have dis: "distinct ?al" "distinct ?ar" "set ?al \<inter> set ?ar = {}" using Bin.prems(3) as spl by (metis distinct.simps(2) distinct_append)+
  have P: "rb_nodes S q = Some (mk_node True kq v (addr l) (addr r) par c)" "q \<noteq> 0" "tree_at (rb_nodes S) q l" "tree_at (rb_nodes S) q r"
    using Bin.prems(1) by simp_all
  define R0 where "R0 = new_node b kq v 0 c R"
  have b: "b \<noteq> 0" "b \<notin> dom (rb_nodes R)" "b \<notin> set as'" using Bin.prems(3-5) as by auto
  have n0: "rb_nodes R0 = (rb_nodes R)(b \<mapsto> mk_node True kq v 0 0 0 c)" "rb_root R0 = rb_root R" by (simp_all add: R0_def new_node_def mk_node_def)
  have "set ?al \<inter> dom (rb_nodes R0) = {}" "0 \<notin> set ?al" "length (addrs l) \<le> j"
    using Bin.prems(4-6) as b sets n0 k by auto
  then obtain R1 l' where L0: "copy_from j S 0 (addr l) (?al @ (?ar @ bs)) R0 = Inr (if l = Tip then 0 else addr l', ?ar @ bs, R1)"
    "same l l'" "addrs l' = ?al" "tree_at (rb_nodes R1) 0 l'" "rb_root R1 = rb_root R0" "dom (rb_nodes R1) = dom (rb_nodes R0) \<union> set ?al"
    "\<forall>a\<in>dom (rb_nodes R0). rb_nodes R1 a = rb_nodes R0 a"
    using Bin.IH(1) [OF P(3) len(1) dis(1), of R0 j 0 "?ar @ bs"] by blast
  have "(if l = Tip then 0 else addr l') = addr l'" using same_facts [OF L0(2)] by auto
  then have L: "copy_from j S 0 (addr l) (as' @ bs) R0 = Inr (addr l', ?ar @ bs, R1)" using L0(1) by (simp flip: append_assoc)
  have b1: "rb_nodes R1 b = Some (mk_node True kq v 0 0 0 c)" using L0(7) n0 by simp
  define R2 where "R2 = R1\<lparr>rb_nodes := (rb_nodes R1)(b \<mapsto> mk_node True kq v (addr l') 0 0 c)\<rparr>"
  have 2: "set_left b (addr l') R1 = Inr R2" using b1 by (simp add: R2_def set_left_def rb_mod_def rb_node_def)
  have d2: "dom (rb_nodes R2) = insert b (dom (rb_nodes R) \<union> set ?al)" using L0(6) n0 by (auto simp: R2_def)
  have "set ?ar \<inter> dom (rb_nodes R2) = {}" "0 \<notin> set ?ar" "length (addrs r) \<le> j"
    using Bin.prems(4-6) as b(3) sets dis(3) d2 k by auto
  then obtain R3 r' where R0: "copy_from j S 0 (addr r) (?ar @ bs) R2 = Inr (if r = Tip then 0 else addr r', bs, R3)"
    "same r r'" "addrs r' = ?ar" "tree_at (rb_nodes R3) 0 r'" "rb_root R3 = rb_root R2" "dom (rb_nodes R3) = dom (rb_nodes R2) \<union> set ?ar"
    "\<forall>a\<in>dom (rb_nodes R2). rb_nodes R3 a = rb_nodes R2 a"
    using Bin.IH(2) [OF P(4) len(2) dis(2), of R2 j 0 bs] by blast
  have "(if r = Tip then 0 else addr r') = addr r'" using same_facts [OF R0(2)] by auto
  then have Rr: "copy_from j S 0 (addr r) (?ar @ bs) R2 = Inr (addr r', bs, R3)" using R0(1) by simp
  have b3: "rb_nodes R3 b = Some (mk_node True kq v (addr l') 0 0 c)" using R0(7) d2 by (simp add: R2_def)
  have notin: "b \<notin> set (addrs l')" "b \<notin> set (addrs r')" "set (addrs l') \<inter> set (addrs r') = {}" "distinct (addrs l')" "distinct (addrs r')"
    using b(3) sets dis L0(3) R0(3) by auto
  have l3: "tree_at (rb_nodes R3) 0 l'"
  proof (rule tree_at_cong [OF L0(4)])
    show "\<forall>a\<in>set (addrs l'). rb_nodes R3 a = rb_nodes R1 a"
    proof
      fix a assume "a \<in> set (addrs l')"
      then have "a \<in> dom (rb_nodes R2)" "a \<noteq> b" using d2 L0(3) notin(1) by auto
      then have "rb_nodes R3 a = rb_nodes R2 a" using R0(7) by blast
      then show "rb_nodes R3 a = rb_nodes R1 a" using \<open>a \<noteq> b\<close> by (simp add: R2_def)
    qed
  qed
  define R4 where "R4 = R3\<lparr>rb_nodes := (rb_nodes R3)(b \<mapsto> mk_node True kq v (addr l') (addr r') 0 c)\<rparr>"
  have 4: "set_right b (addr r') R3 = Inr R4" using b3 by (simp add: R4_def set_right_def rb_mod_def rb_node_def)
  have t4: "tree_at (rb_nodes R4) 0 l'" "tree_at (rb_nodes R4) 0 r'"
    by (rule tree_at_cong [OF l3] tree_at_cong [OF R0(4)]; use notin in \<open>auto simp: R4_def\<close>)+
  have b4: "rb_nodes R4 b = Some (mk_node True kq v (addr l') (addr r') 0 c)" by (simp add: R4_def)
  obtain h5 where 5: "adopt b R4 = Inr (R4\<lparr>rb_nodes := h5\<rparr>)" "tree_at h5 b l'" "tree_at h5 b r'"
    "\<forall>a. a \<notin> set (addrs l') \<union> set (addrs r') \<longrightarrow> h5 a = rb_nodes R4 a" "dom h5 = dom (rb_nodes R4)"
    using adopt_ok [OF b4 t4 notin(1,2,4,5,3)] by blast
  have run: "copy_from k S x q (as @ bs) R = Inr (b, bs, R4\<lparr>rb_nodes := h5\<rparr>)"
    using P(1,2) L 2 Rr 4 5(1) by (subst copy_from.simps) (simp add: k as rb_node_def R0_def)
  have "dom h5 = dom (rb_nodes R) \<union> set as" using 5(5) R0(6) d2 sets as by (auto simp: R4_def)
  moreover have "\<forall>a\<in>dom (rb_nodes R). h5 a = rb_nodes R a"
  proof
    fix a assume a: "a \<in> dom (rb_nodes R)"
    then have "a \<notin> set as" using Bin.prems(5) by blast
    then have "a \<noteq> b" "a \<notin> set ?al" "a \<notin> set ?ar" using as sets by auto
    have "a \<in> dom (rb_nodes R2)" "a \<in> dom (rb_nodes R0)" using a d2 n0(1) by auto
    then have "rb_nodes R3 a = rb_nodes R2 a" "rb_nodes R1 a = rb_nodes R0 a" using R0(7) L0(7) by blast+
    moreover have "h5 a = rb_nodes R4 a" using 5(4) R0(3) L0(3) \<open>a \<notin> set ?al\<close> \<open>a \<notin> set ?ar\<close> by simp
    ultimately show "h5 a = rb_nodes R a" using \<open>a \<noteq> b\<close> n0(1) by (simp add: R4_def R2_def)
  qed
  moreover have "addrs (Bin b c l' kq v r') = as" using L0(3) R0(3) as by simp
  moreover have "tree_at h5 0 (Bin b c l' kq v r')" using 5(2-4) notin(1,2) b4 b(1) by simp
  moreover have "rb_root (R4\<lparr>rb_nodes := h5\<rparr>) = rb_root R" using L0(5) R0(5) n0 by (simp add: R4_def R2_def)
  ultimately show ?case using run L0(2) R0(2) by (intro exI [of _ "R4\<lparr>rb_nodes := h5\<rparr>"] exI [of _ "Bin b c l' kq v r'"]) simp
qed

text \<open>A copy holds the same entries.\<close>

lemma copy_map_ok:
  assumes M: "map_ok M xs" and as: "length as = length xs" "distinct as" "0 \<notin> set as" and R: "rb_nodes R = Map.empty"
    and ne: "xs \<noteq> [] \<or> x = 0"
  shows "\<exists>q R'. copy_from (rm_count M + 1) (rm_tree M) x (rb_root (rm_tree M)) as R = Inr (q, [], R') \<and> rb_holds (R'\<lparr>rb_root := q\<rparr>) xs"
proof -
  obtain t where t: "view (rm_tree M) [] t xs" "rb_root (rm_tree M) = addr t" "length (addrs t) = length xs" "inorder t = xs"
    "t = Tip \<longleftrightarrow> xs = []" by (rule map_ok_root [OF M])
  have F: "tree_at (rb_nodes (rm_tree M)) 0 t" using t(1) focusD(1) unfolding view_def by fastforce
  have len: "length as = length (addrs t)" "length (addrs t) \<le> rm_count M + 1" using t(3) as(1) M by (simp_all add: map_ok_def)
  obtain R' t' where c: "copy_from (rm_count M + 1) (rm_tree M) x (addr t) (as @ []) R = Inr (if t = Tip then x else addr t', [], R')"
    "same t t'" "addrs t' = as" "tree_at (rb_nodes R') 0 t'" "dom (rb_nodes R') = dom (rb_nodes R) \<union> set as"
    using copy_from_ok [OF F len(1) as(2,3) _ len(2), of R x "[]"] R by auto
  note sm = same_facts [OF c(2)]
  have q: "(if t = Tip then x else addr t') = addr t'" using ne t(5) sm by auto
  have "focus (R'\<lparr>rb_root := addr t'\<rparr>) [] t'" using c(3-5) as(2) R by (simp add: focus_def)
  then have "view (R'\<lparr>rb_root := addr t'\<rparr>) [] t' xs"
    using t(1) sm t(4) unfolding view_def rb_ok_def by simp
  then show ?thesis using c(1) q t(2) unfolding rb_holds_def by auto
qed

lemma map_copy_ok:
  assumes "map_ok M xs" "length as = length xs" "distinct as" "0 \<notin> set as"
  shows "\<exists>M'. map_copy self as M = Inr M' \<and> map_ok M' xs \<and> rm_self M' = self"
  using copy_map_ok [OF assms, of empty_rb 0] assms(1) by (auto simp: map_copy_def map_ok_def empty_rb_def)

lemma map_assign_ok:
  assumes M: "map_ok M xs" and K: "map_ok K ys" and as: "length as = length xs" "distinct as" "0 \<notin> set as"
    and ne: "xs \<noteq> []" "rm_self K \<noteq> rm_self M"
  shows "\<exists>K'. map_assign as K M = Inr K' \<and> map_ok K' xs"
proof -
  obtain q R' where "copy_from (rm_count M + 1) (rm_tree M) (rb_root (rm_tree K)) (rb_root (rm_tree M)) as ((rm_tree K)\<lparr>rb_nodes := Map.empty\<rparr>)
      = Inr (q, [], R')" "rb_holds (R'\<lparr>rb_root := q\<rparr>) xs"
    using copy_map_ok [OF M as, of "(rm_tree K)\<lparr>rb_nodes := Map.empty\<rparr>" "rb_root (rm_tree K)"] ne(1) by auto
  then show ?thesis using map_release_ok [OF K] ne(2) M by (simp add: map_assign_def map_ok_def)
qed

end
