(* ===== verification/Rb_Map.thy ===== *)
theory Rb_Map
  imports Rb_Iterators
begin

text \<open>
  The operations of the map change its entries as those of the sorted chain of \<open>Key_Index\<close> do, and
  keep the red-black tree.
\<close>

section \<open>Operations on the map\<close>

text \<open>The node \<open>p\<close> has the entry \<open>(kp, v)\<close>, between \<open>as\<close> and \<open>bs\<close>.\<close>

definition spot :: "('k, 'v) rb \<Rightarrow> nat \<Rightarrow> ('k \<times> 'v) list \<Rightarrow> 'k \<Rightarrow> 'v \<Rightarrow> ('k \<times> 'v) list \<Rightarrow> bool" where
  "spot R p as kp v bs \<longleftrightarrow> (\<exists>gs c l r. view R gs (Bin p c l kp v r) (as @ (kp, v) # bs) \<and> as = pre gs @ inorder l \<and> bs = inorder r @ post gs)"

lemma spotI:
  assumes V: "view R gs (Bin p c l kp v r) xs"
  shows "\<exists>as bs. xs = as @ (kp, v) # bs \<and> spot R p as kp v bs"
proof -
  have "xs = (pre gs @ inorder l) @ (kp, v) # (inorder r @ post gs)" using V by (simp add: view_def)
  moreover from this have "spot R p (pre gs @ inorder l) kp v (inorder r @ post gs)" using V unfolding spot_def by blast
  ultimately show ?thesis by blast
qed

lemma spotD:
  assumes "spot R p as kp v bs"
  shows "p \<noteq> 0" "\<exists>n. rb_node p R = Inr n \<and> rn_key n = kp \<and> rn_val n = v" "at_pos R (as @ (kp, v) # bs) p (length as)"
proof -
  obtain gs c l r where V: "view R gs (Bin p c l kp v r) (as @ (kp, v) # bs)" "as = pre gs @ inorder l" using assms by (auto simp: spot_def)
  show a: "at_pos R (as @ (kp, v) # bs) p (length as)" using V unfolding at_pos_def by blast
  show "p \<noteq> 0" by (rule at_pos_nonzero [OF a])
  show "\<exists>n. rb_node p R = Inr n \<and> rn_key n = kp \<and> rn_val n = v" using at_pos_entry [OF a] by (auto simp: nth_append)
qed

lemma spot_write:
  assumes "spot R p as kp v bs"
  shows "\<exists>R'. rb_mod p (\<lambda>n. n\<lparr>rn_val := w\<rparr>) R = Inr R' \<and> spot R' p as kp w bs \<and> rb_holds R' (as @ (kp, w) # bs)"
proof -
  obtain gs c l r where V: "view R gs (bin True p c l kp v r) (as @ (kp, v) # bs)" "as = pre gs @ inorder l" "bs = inorder r @ post gs"
    using assms by (auto simp: spot_def bin_def)
  then obtain n where n: "focus R gs (bin True p c l kp v r)" "frames_ok n gs" "rb_ok n (bin True p c l kp v r)" "c = Black \<or> top_black gs"
    unfolding view_def color_bin by blast
  obtain R' where R': "rb_mod p (\<lambda>n. n\<lparr>rn_val := w\<rparr>) R = Inr R'" "focus R' gs (bin True p c l kp w r)" using write_ok [OF n(1)] by blast
  have "rb_ok n (bin True p c l kp w r)" using n(3) by (auto simp: rb_ok_def bin_def)
  then have "view R' gs (bin True p c l kp w r) (as @ (kp, w) # bs)"
    using R'(2) n(2,4) V(2,3) unfolding view_def color_bin by (auto simp: inorder_bin)
  moreover from this have "rb_holds R' (as @ (kp, w) # bs)" using view_up unfolding rb_holds_def by blast
  ultimately show ?thesis using R'(1) V(2,3) unfolding spot_def bin_def if_True by blast
qed

lemma first_node_ok:
  assumes "rb_nodes R = Map.empty" "b \<noteq> 0"
  shows "view (first_node b k v R) [] (bin True b Black Tip k v Tip) [(k, v)]"
  using assms by (auto simp: view_def focus_def first_node_def new_node_def bin_def mk_node_def rb_ok_def)

lemma holds_empty: "rb_holds R [] \<Longrightarrow> rb_nodes R = Map.empty \<and> rb_root R = 0"
proof -
  assume "rb_holds R []"
  then obtain t where t: "view R [] t []" "rb_root R = addr t" "inorder t = []" by (rule rb_holdsE)
  then have "t = Tip" by (cases t) auto
  then show ?thesis using t(1,2) focusD(5) [of R "[]" t] by (simp add: view_def)
qed

lemma empty_holds: "rb_nodes R = Map.empty \<Longrightarrow> rb_root R = 0 \<Longrightarrow> rb_holds R []"
  unfolding rb_holds_def view_def focus_def by (intro exI [of _ Tip]) simp

lemma map_new_ok: "map_ok (map_new self) []"
  by (simp add: map_ok_def map_new_def empty_holds empty_rb_def)

lemma map_clear_ok: "map_ok M xs \<Longrightarrow> \<exists>M'. map_clear M = Inr M' \<and> map_ok M' [] \<and> rm_self M' = rm_self M"
  using map_release_ok [of M xs] by (simp add: map_clear_def map_ok_def empty_holds)

lemma map_erase_node_ok:
  assumes "map_ok M (as @ (kp, v) # bs)" "spot (rm_tree M) p as kp v bs"
  shows "\<exists>M'. map_erase_node p M = Inr M' \<and> map_ok M' (as @ bs) \<and> rm_self M' = rm_self M"
proof -
  obtain gs c l r where V: "view (rm_tree M) gs (Bin p c l kp v r) (as @ (kp, v) # bs)" "as = pre gs @ inorder l" "bs = inorder r @ post gs"
    using assms(2) by (auto simp: spot_def)
  have "length (as @ (kp, v) # bs) + 2 \<le> rm_count M + 2" using assms(1) by (simp add: map_ok_def)
  from delete_node_ok [OF V(1) this] obtain R' where "delete_node (rm_count M + 2) 2 p (rm_tree M) = Inr R'" "rb_holds R' (as @ bs)"
    using V(2,3) by auto
  then show ?thesis using assms(1) by (simp add: map_erase_node_def map_ok_def)
qed

text \<open>Keys and values stay at their addresses while the tree is repaired.\<close>

definition kept_entry :: "('k, 'v) rb \<Rightarrow> nat \<Rightarrow> ('k \<times> 'v) option" where
  "kept_entry R p = map_option (\<lambda>n. (rn_key n, rn_val n)) (rb_nodes R p)"

lemma rb_mod_entry:
  "rb_mod p f R = Inr R' \<Longrightarrow> (\<And>n. rn_key (f n) = rn_key n \<and> rn_val (f n) = rn_val n) \<Longrightarrow> kept_entry R' = kept_entry R"
  by (auto simp: kept_entry_def rb_mod_def rb_node_def rbind_Inr fun_eq_iff)

lemma link_entry:
  "set_left p q R = Inr R' \<Longrightarrow> kept_entry R' = kept_entry R"
  "set_right p q R = Inr R' \<Longrightarrow> kept_entry R' = kept_entry R"
  "set_parent p q R = Inr R' \<Longrightarrow> kept_entry R' = kept_entry R"
  "paint p c R = Inr R' \<Longrightarrow> kept_entry R' = kept_entry R"
  by (auto simp: set_left_def set_right_def set_parent_def paint_def intro: rb_mod_entry)

lemma set_place_entry: "set_place path q R = Inr R' \<Longrightarrow> kept_entry R' = kept_entry R"
  by (cases path) (auto simp: link_entry kept_entry_def)

lemma adopt_entry: "adopt p R = Inr R' \<Longrightarrow> kept_entry R' = kept_entry R"
  by (auto simp: adopt_def rbind_Inr link_entry split: if_splits)

lemma rotate_entry:
  "rotate_left p R = Inr R' \<Longrightarrow> kept_entry R' = kept_entry R"
  "rotate_right p R = Inr R' \<Longrightarrow> kept_entry R' = kept_entry R"
  by (auto simp: rotate_left_def rotate_right_def rbind_Inr link_entry set_place_entry adopt_entry split: if_splits)

lemma settle_entry:
  "settle rotate_right p g R = Inr R' \<Longrightarrow> kept_entry R' = kept_entry R"
  "settle rotate_left p g R = Inr R' \<Longrightarrow> kept_entry R' = kept_entry R"
  by (auto simp: settle_def assert_father_def rbind_Inr link_entry rotate_entry split: if_splits)

lemma assert_father_Inr: "assert_father p q R = Inr R' \<Longrightarrow> R' = R"
  by (auto simp: assert_father_def rbind_Inr split: if_splits)

lemma insert_fix_entry: "insert_fix_up k p R = Inr R' \<Longrightarrow> kept_entry R' = kept_entry R"
proof (induction k arbitrary: p R)
  case (Suc k)
  have turn: "kept_entry R' = kept_entry R"
    if "rbind (rot q R) (\<lambda>R1. rbind (assert_father q p R1) (insert_fix_up k q)) = Inr R'" "rot = rotate_left \<or> rot = rotate_right" for rot q
    using that Suc.IH by (auto simp: rbind_Inr dest!: assert_father_Inr rotate_entry)
  have push: "kept_entry R' = kept_entry R"
    if "rbind (paint q Black R) (\<lambda>R1. rbind (paint u Black R1) (\<lambda>R2. rbind (paint g Red R2) (insert_fix_up k g))) = Inr R'" for q u g
    using that Suc.IH by (auto simp: rbind_Inr dest!: link_entry(4))
  obtain n where n: "rb_node p R = Inr n" using Suc.prems by (auto simp: insert_fix_up.simps rbind_Inr)
  show ?case
  proof (cases "rn_parent n = 0")
    case True
    then show ?thesis using Suc.prems n link_entry(4) by (simp add: insert_fix_up.simps)
  next
    case False
    then obtain pn where pn: "rb_node (rn_parent n) R = Inr pn" using Suc.prems n by (auto simp: insert_fix_up.simps rbind_Inr)
    show ?thesis
    proof (cases "rn_color pn = Black \<or> rn_parent pn = 0")
      case True
      then show ?thesis using Suc.prems n pn False link_entry(4) by (auto simp: insert_fix_up.simps split: if_splits)
    next
      case F: False
      then obtain u g red where u: "uncle p R = Inr u" "grand_parent p R = Inr g" "some_red u R = Inr red"
        using Suc.prems n pn False by (auto simp: insert_fix_up.simps rbind_Inr)
      show ?thesis
      proof (cases red)
        case True
        then show ?thesis using push Suc.prems n pn False F u by (simp add: insert_fix_up.simps)
      next
        case R: False
        then obtain gn where "rb_node g R = Inr gn" using Suc.prems n pn False F u by (auto simp: insert_fix_up.simps rbind_Inr)
        then show ?thesis using Suc.prems n pn False F u R turn [of rotate_left] turn [of rotate_right] settle_entry
          by (simp add: insert_fix_up.simps split: if_splits)
      qed
    qed
  qed
qed (simp add: insert_fix_up.simps)

lemma new_node_entry [simp]: "kept_entry (new_node b k v par c R) b = Some (k, v)"
  by (simp add: kept_entry_def new_node_def)

lemma hang_entry:
  assumes "rbind H (\<lambda>R1. rbind (insert_fix_up f b R1) (\<lambda>R2. Inr ((b, True), R2))) = Inr ((b', fresh), R')"
    "\<And>R1. H = Inr R1 \<Longrightarrow> kept_entry R1 = kept_entry (new_node b k v p Red R)"
  shows "b' = b \<and> kept_entry R' b = Some (k, v)"
proof -
  obtain R1 where R1: "H = Inr R1" "insert_fix_up f b R1 = Inr R'" "b' = b" using assms(1) by (auto simp: rbind_Inr)
  then show ?thesis using assms(2) [OF R1(1)] insert_fix_entry [OF R1(2)] by simp
qed

lemma hang_left_entry:
  "rbind (set_left p b (new_node b k v p Red R)) (\<lambda>R1. rbind (insert_fix_up f b R1) (\<lambda>R2. Inr ((b, True), R2))) = Inr ((b', fresh), R')
    \<Longrightarrow> b' = b \<and> kept_entry R' b = Some (k, v)"
  by (erule hang_entry) (rule link_entry(1))

lemma hang_right_entry:
  "rbind (set_right p b (new_node b k v p Red R)) (\<lambda>R1. rbind (insert_fix_up f b R1) (\<lambda>R2. Inr ((b, True), R2))) = Inr ((b', fresh), R')
    \<Longrightarrow> b' = b \<and> kept_entry R' b = Some (k, v)"
  by (erule hang_entry) (rule link_entry(2))

lemma node_insert_entry: "node_insert lt f i b k v False p R = Inr ((b', True), R') \<Longrightarrow> b' = b \<and> kept_entry R' b = Some (k, v)"
proof (induction i arbitrary: p)
  case (Suc i)
  obtain n where n: "rb_node p R = Inr n" using Suc.prems by (auto simp: node_insert.simps rbind_Inr)
  show ?case
  proof (cases "lt k (rn_key n)")
    case True
    then show ?thesis using Suc.prems Suc.IH [of "rn_left n"] hang_left_entry [of p b k v R f b' True R'] n
      by (cases "rn_left n = 0") (simp_all add: node_insert.simps)
  next
    case False
    then show ?thesis using Suc.prems Suc.IH [of "rn_right n"] hang_right_entry [of p b k v R f b' True R'] n
      by (cases "lt (rn_key n) k"; cases "rn_right n = 0") (simp_all add: node_insert.simps)
  qed
qed (simp add: node_insert.simps)

lemma view_every_node:
  "view R fs t xs \<Longrightarrow> p \<in> set (addrs t) \<Longrightarrow> \<exists>gs c l k v r. view R gs (Bin p c l k v r) xs"
proof (induction t arbitrary: fs)
  case (Bin q c l k v r)
  have VL: "view R (Fr True q c k v r # fs) l xs" using view_down [of R fs True q c l k v r xs] Bin.prems(1) by (simp add: bin_def)
  have VR: "view R (Fr False q c k v l # fs) r xs" using view_down [of R fs False q c r k v l xs] Bin.prems(1) by (simp add: bin_def)
  consider "p = q" | "p \<in> set (addrs l)" | "p \<in> set (addrs r)" using Bin.prems(2) by auto
  then show ?case using Bin.prems(1) Bin.IH(1) [OF VL] Bin.IH(2) [OF VR] by cases blast+
qed simp

lemma spot_of_entry:
  assumes H: "rb_holds R xs" and e: "kept_entry R p = Some (k, v)"
  shows "\<exists>as bs. xs = as @ (k, v) # bs \<and> spot R p as k v bs"
proof -
  obtain t where t: "view R [] t xs" using H by (auto simp: rb_holds_def)
  then have "set (addrs t) = dom (rb_nodes R)" using focusD(5) [of R "[]" t] by (simp add: view_def)
  then have "p \<in> set (addrs t)" using e by (auto simp: kept_entry_def)
  from view_every_node [OF t this] obtain gs c l k' v' r where V: "view R gs (Bin p c l k' v' r) xs" by blast
  obtain as bs where s: "xs = as @ (k', v') # bs" "spot R p as k' v' bs" using spotI [OF V] by blast
  have "(k', v') = (k, v)" using spotD(2) [OF s(2)] e by (auto simp: kept_entry_def rb_node_def)
  then show ?thesis using s by auto
qed

text \<open>The nodes in order, with their entries.\<close>

fun items :: "('k, 'v) rtree \<Rightarrow> (nat \<times> 'k \<times> 'v) list" where
  "items Tip = []"
| "items (Bin p c l k v r) = items l @ (p, k, v) # items r"

lemma items_simps [simp]: "map snd (items t) = inorder t" "fst ` set (items t) = set (addrs t)"
  by (induction t) (auto simp: image_Un)

lemma items_entry: "tree_at (rb_nodes R) par t \<Longrightarrow> (a, e) \<in> set (items t) \<Longrightarrow> kept_entry R a = Some e"
  by (induction t arbitrary: par) (auto simp: kept_entry_def mk_node_def)

text \<open>The sorted chain with the entries \<open>xs\<close>, and the entry that a key finds there.\<close>

definition idx_of :: "('k \<times> 'v) list \<Rightarrow> ('k, 'v) index" where
  "idx_of xs = \<lparr>chain = xs, siz = length xs\<rparr>"

definition idx_hit :: "('k \<Rightarrow> 'k \<Rightarrow> bool) \<Rightarrow> 'k \<Rightarrow> ('k, 'v) index \<Rightarrow> ('k \<times> 'v) option" where
  "idx_hit lt k ix = (case idx_entry (idx_lower lt k ix) ix of None \<Rightarrow> None | Some e \<Rightarrow> if lt k (fst e) then None else Some e)"

lemma idx_get_hit: "idx_get lt k ix = map_option snd (idx_hit lt k ix)"
  by (auto simp: idx_get_def idx_hit_def split: option.splits)

lemma map_empty_ok: "map_ok M [] \<Longrightarrow> rb_root (rm_tree M) = 0 \<and> rb_nodes (rm_tree M) = Map.empty \<and> rm_count M = 0"
  by (simp add: map_ok_def holds_empty)

lemma map_nonempty_ok: "map_ok M xs \<Longrightarrow> xs \<noteq> [] \<Longrightarrow> rb_root (rm_tree M) \<noteq> 0 \<and> rm_count M \<noteq> 0"
  by (rule map_ok_root [of M xs]) (simp_all add: map_ok_def)

context strict_weak_order
begin

lemma lower_split:
  "\<forall>e\<in>set as. lt (fst e) k \<Longrightarrow> bs = [] \<or> \<not> lt (fst (hd bs)) k \<Longrightarrow> lower_pos (\<lambda>e k. lt (fst e) k) (as @ bs) k = length as"
  unfolding lower_pos_def by (cases bs) (simp_all add: takeWhile_append2 takeWhile_eq_all_conv [THEN iffD2])

lemma idx_absent:
  assumes "\<forall>e\<in>set as. lt (fst e) k" "\<forall>e\<in>set bs. lt k (fst e)"
  shows "idx_hit lt k (idx_of (as @ bs)) = None" "idx_put lt k v (idx_of (as @ bs)) = idx_of (as @ (k, v) # bs)"
    "idx_remove lt k (idx_of (as @ bs)) = idx_of (as @ bs)"
proof -
  have p: "lower_pos (\<lambda>e k. lt (fst e) k) (as @ bs) k = length as"
    by (rule lower_split [OF assms(1)]) (use assms(2) asym in \<open>cases bs; auto\<close>)
  show "idx_hit lt k (idx_of (as @ bs)) = None" "idx_put lt k v (idx_of (as @ bs)) = idx_of (as @ (k, v) # bs)"
    "idx_remove lt k (idx_of (as @ bs)) = idx_of (as @ bs)"
    using p assms(2) by (cases bs; auto simp: idx_hit_def idx_put_def idx_remove_def idx_entry_def idx_lower_def idx_of_def Let_def split: prod.splits)+
qed

lemma idx_present:
  assumes "\<forall>e\<in>set as. lt (fst e) kp" "\<not> lt k kp" "\<not> lt kp k"
  shows "idx_hit lt k (idx_of (as @ (kp, w) # bs)) = Some (kp, w)" "idx_put lt k v (idx_of (as @ (kp, w) # bs)) = idx_of (as @ (kp, v) # bs)"
    "idx_remove lt k (idx_of (as @ (kp, w) # bs)) = idx_of (as @ bs)"
proof -
  have "\<forall>e\<in>set as. lt (fst e) k" using assms(1,2) lt_ge_trans by blast
  then have p: "lower_pos (\<lambda>e k. lt (fst e) k) (as @ (kp, w) # bs) k = length as" by (rule lower_split) (use assms(3) in simp)
  show "idx_hit lt k (idx_of (as @ (kp, w) # bs)) = Some (kp, w)" "idx_put lt k v (idx_of (as @ (kp, w) # bs)) = idx_of (as @ (kp, v) # bs)"
    "idx_remove lt k (idx_of (as @ (kp, w) # bs)) = idx_of (as @ bs)"
    using assms(2) by (simp_all add: idx_hit_def idx_put_def idx_remove_def idx_entry_def idx_lower_def idx_of_def p Let_def list_update_append)
qed

lemma split_absent:
  assumes "sorted_keys lt xs" "\<forall>e\<in>set xs. lt k (fst e) \<or> lt (fst e) k"
  obtains as bs where "xs = as @ bs" "\<forall>e\<in>set as. lt (fst e) k" "\<forall>e\<in>set bs. lt k (fst e)"
proof -
  have "\<exists>as bs. xs = as @ bs \<and> (\<forall>e\<in>set as. lt (fst e) k) \<and> (\<forall>e\<in>set bs. lt k (fst e))"
    using assms
  proof (induction xs)
    case (Cons x xs)
    show ?case
    proof (cases "lt (fst x) k")
      case True
      from Cons obtain as bs where "xs = as @ bs" "\<forall>e\<in>set as. lt (fst e) k" "\<forall>e\<in>set bs. lt k (fst e)" by auto
      then show ?thesis using True by (intro exI [of _ "x # as"] exI [of _ bs]) simp
    next
      case False
      then have "lt k (fst x)" using Cons.prems(2) by auto
      then have "\<forall>e\<in>set (x # xs). lt k (fst e)" using Cons.prems(1) trans by auto
      then show ?thesis by (intro exI [of _ "[]"] exI [of _ "x # xs"]) simp
    qed
  qed simp
  then show thesis using that by blast
qed

text \<open>Looking a key up finds its place: an entry, or the gap between two.\<close>

lemma map_lookup_ok:
  assumes M: "map_ok M xs" and S: "sorted_keys lt xs" and ne: "xs \<noteq> []"
  obtains (absent) as bs where "map_lookup lt k M = Inr 0" "xs = as @ bs" "\<forall>e\<in>set as. lt (fst e) k" "\<forall>e\<in>set bs. lt k (fst e)"
  | (present) p as kp v bs where "map_lookup lt k M = Inr p" "xs = as @ (kp, v) # bs" "spot (rm_tree M) p as kp v bs"
    "\<forall>e\<in>set as. lt (fst e) kp" "\<not> lt k kp" "\<not> lt kp k"
proof -
  obtain t where t: "view (rm_tree M) [] t xs" "rb_root (rm_tree M) = addr t" "length (addrs t) = length xs" "inorder t = xs"
    "t = Tip \<longleftrightarrow> xs = []" by (rule map_ok_root [OF M])
  have "depth t \<le> rm_count M + 1" using depth_le_length [of t] t(3) M by (simp add: map_ok_def)
  from node_find_ok [OF t(1) _ S this, of k] ne t(5)
  consider "node_find lt (rm_count M + 1) k (addr t) (rm_tree M) = Inr 0" "\<forall>e\<in>set (inorder t). lt k (fst e) \<or> lt (fst e) k"
    | gs p c l kp v r where "node_find lt (rm_count M + 1) k (addr t) (rm_tree M) = Inr p" "view (rm_tree M) gs (Bin p c l kp v r) xs"
      "\<not> lt k kp" "\<not> lt kp k" by blast
  then show thesis
  proof cases
    case 1
    then show thesis using split_absent [OF S, of k] t(2,4) absent unfolding map_lookup_def by metis
  next
    case 2
    obtain as bs where s: "xs = as @ (kp, v) # bs" "spot (rm_tree M) p as kp v bs" using spotI [OF 2(2)] by blast
    have "\<forall>e\<in>set as. lt (fst e) kp" using S unfolding s(1) by (auto simp: sorted_wrt_append)
    then show thesis using present [OF _ s] 2(1,3,4) t(2) unfolding map_lookup_def by simp
  qed
qed

text \<open>An insertion that does not replace.\<close>

lemma map_insert_node_ok:
  assumes M: "map_ok M xs" and S: "sorted_keys lt xs" and ne: "xs \<noteq> []" and b: "b \<noteq> 0" "b \<notin> dom (rb_nodes (rm_tree M))"
  obtains (absent) as bs M' where "map_insert_node lt b k v M = Inr ((b, True), M')" "xs = as @ bs" "\<forall>e\<in>set as. lt (fst e) k"
    "\<forall>e\<in>set bs. lt k (fst e)" "map_ok M' (as @ (k, v) # bs)" "rm_self M' = rm_self M" "spot (rm_tree M') b as k v bs"
  | (present) p as kp w bs where "map_insert_node lt b k v M = Inr ((p, False), M)" "xs = as @ (kp, w) # bs"
    "spot (rm_tree M) p as kp w bs" "\<forall>e\<in>set as. lt (fst e) kp" "\<not> lt k kp" "\<not> lt kp k"
proof -
  obtain t where t: "view (rm_tree M) [] t xs" "rb_root (rm_tree M) = addr t" "length (addrs t) = length xs" "inorder t = xs"
    "t = Tip \<longleftrightarrow> xs = []" by (rule map_ok_root [OF M])
  have cnt: "rm_count M = length xs" using M by (simp add: map_ok_def)
  from node_insert_ok [OF t(1) _ S, of "rm_count M + 1" "rm_count M + 2" b k v] t(3,5) cnt ne b
  consider R' as bs where "node_insert lt (rm_count M + 2) (rm_count M + 1) b k v False (addr t) (rm_tree M) = Inr ((b, True), R')"
      "xs = as @ bs" "left_behind R' (insert b (dom (rb_nodes (rm_tree M)))) (as @ (k, v) # bs)"
      "\<forall>e\<in>set as. lt (fst e) k" "\<forall>e\<in>set bs. lt k (fst e)"
    | gs p c l kp w r where "node_insert lt (rm_count M + 2) (rm_count M + 1) b k v False (addr t) (rm_tree M) = Inr ((p, False), rm_tree M)"
      "view (rm_tree M) gs (Bin p c l kp w r) xs" "\<not> lt k kp" "\<not> lt kp k"
    by fastforce
  then show thesis
  proof cases
    case 1
    let ?M = "M\<lparr>rm_tree := R', rm_count := rm_count M + 1\<rparr>"
    have H: "rb_holds R' (as @ (k, v) # bs)" using 1(3) left_behind_holds by blast
    obtain as' bs' where s: "as @ (k, v) # bs = as' @ (k, v) # bs'" "spot R' b as' k v bs'"
      using spot_of_entry [OF H] node_insert_entry [OF 1(1)] by blast
    have "as' = as \<and> bs' = bs"
    proof -
      have out: "(k, v) \<notin> set as" "(k, v) \<notin> set bs" using 1(4,5) irrefl by fastforce+
      then show ?thesis using s(1) append_Cons_eq_iff [of "(k, v)" as bs as' bs'] by auto
    qed
    then show thesis using absent [of ?M as bs] 1 s(2) H cnt t(2) by (simp add: map_insert_node_def map_ok_def)
  next
    case 2
    obtain as bs where s: "xs = as @ (kp, w) # bs" "spot (rm_tree M) p as kp w bs" using spotI [OF 2(2)] by blast
    have "\<forall>e\<in>set as. lt (fst e) kp" using S unfolding s(1) by (auto simp: sorted_wrt_append)
    then show thesis using present [OF _ s] 2(1,3,4) t(2) by (simp add: map_insert_node_def)
  qed
qed

text \<open>The reading operations, and \<^verbatim>\<open>erase\<close> up to the node it deletes.\<close>

lemma map_reads_ok:
  assumes M: "map_ok M xs" and S: "sorted_keys lt xs"
  obtains (absent) "idx_hit lt k (idx_of xs) = None" "idx_remove lt k (idx_of xs) = idx_of xs" "map_find lt k M = Inr (map_end M)"
    "map_at lt k M = Inl Index_out_of_bound" "map_count lt k M = Inr 0" "xs \<noteq> [] \<Longrightarrow> map_erase lt k M = Inr M"
  | (present) p as kp v bs where "xs = as @ (kp, v) # bs" "spot (rm_tree M) p as kp v bs" "idx_hit lt k (idx_of xs) = Some (kp, v)"
    "idx_remove lt k (idx_of xs) = idx_of (as @ bs)" "map_find lt k M = Inr \<lparr>ri_ptr = p, ri_domain = rm_self M\<rparr>"
    "map_at lt k M = Inr v" "map_count lt k M = Inr 1" "map_erase lt k M = map_erase_node p M"
proof (cases "xs = []")
  case True
  then show thesis using map_empty_ok [of M] M idx_absent(1,3) [of "[]" k "[]"]
    by (intro absent) (simp_all add: map_find_def map_at_def map_count_def)
next
  case False
  note root = map_nonempty_ok [OF M False]
  show thesis
  proof (cases rule: map_lookup_ok [OF M S False, of k])
    case (1 as bs)
    then show thesis using root idx_absent(1,3) [OF 1(3,4)]
      by (intro absent) (simp_all add: map_find_def map_at_def map_count_def map_erase_def map_end_def)
  next
    case (2 p as kp v bs)
    note p = spotD(1,2) [OF 2(3)]
    from p(2) obtain n where n: "rb_node p (rm_tree M) = Inr n" "rn_val n = v" by blast
    show thesis
    proof (rule present [OF 2(2,3)])
      show "idx_hit lt k (idx_of xs) = Some (kp, v)" "idx_remove lt k (idx_of xs) = idx_of (as @ bs)"
        unfolding 2(2) by (rule idx_present(1,3) [OF 2(4-6)])+
      show "map_find lt k M = Inr \<lparr>ri_ptr = p, ri_domain = rm_self M\<rparr>" "map_at lt k M = Inr v" "map_count lt k M = Inr 1"
        "map_erase lt k M = map_erase_node p M"
        using 2(1) root p(1) n by (simp_all add: map_find_def map_at_def map_count_def map_erase_def)
    qed
  qed
qed

lemma map_sub_insert:
  "map_ok M xs \<Longrightarrow> map_sub lt d b k M = rbind (map_insert lt b k d M) (\<lambda>((it, _), M1). Inr (ri_ptr it, M1))"
  using map_empty_ok [of M] map_nonempty_ok [of M xs]
  by (cases "xs = []"; cases "map_insert_node lt b k d M") (auto simp: map_sub_def map_insert_def split: prod.splits)

lemma map_insert_ok:
  assumes M: "map_ok M xs" and S: "sorted_keys lt xs" and b: "b \<noteq> 0" "rb_nodes (rm_tree M) b = None"
  obtains (absent) as bs M' where "map_insert lt b k v M = Inr ((\<lparr>ri_ptr = b, ri_domain = rm_self M\<rparr>, True), M')"
    "idx_hit lt k (idx_of xs) = None" "\<And>w. idx_put lt k w (idx_of xs) = idx_of (as @ (k, w) # bs)"
    "map_ok M' (as @ (k, v) # bs)" "rm_self M' = rm_self M" "spot (rm_tree M') b as k v bs"
  | (present) p as kp w bs where "map_insert lt b k v M = Inr ((\<lparr>ri_ptr = p, ri_domain = rm_self M\<rparr>, False), M)"
    "xs = as @ (kp, w) # bs" "spot (rm_tree M) p as kp w bs" "idx_hit lt k (idx_of xs) = Some (kp, w)"
    "\<And>w'. idx_put lt k w' (idx_of xs) = idx_of (as @ (kp, w') # bs)"
proof (cases "xs = []")
  case True
  let ?M = "M\<lparr>rm_tree := first_node b k v (rm_tree M), rm_count := 1\<rparr>"
  have V: "view (first_node b k v (rm_tree M)) [] (Bin b Black Tip k v Tip) [(k, v)]"
    using first_node_ok [of "rm_tree M" b k v] map_empty_ok [of M] M True b by (simp add: bin_def)
  then have "spot (first_node b k v (rm_tree M)) b [] k v []" unfolding spot_def by force
  moreover have "map_ok ?M [(k, v)]" using V by (auto simp: map_ok_def rb_holds_def)
  ultimately show thesis using absent [of ?M "[]" "[]"] idx_absent(1,2) [of xs k "[]"] map_empty_ok [of M] M True
    by (simp add: map_insert_def)
next
  case False
  note root = map_nonempty_ok [OF M False]
  have b': "b \<notin> dom (rb_nodes (rm_tree M))" using b(2) by auto
  show thesis
  proof (cases rule: map_insert_node_ok [OF M S False b(1) b', of k v])
    case (1 as bs M')
    then show thesis using absent [of M' as bs] idx_absent(1,2) [OF 1(3,4)] root by (simp add: map_insert_def)
  next
    case (2 p as kp w bs)
    then show thesis using present [of p as kp w bs] idx_present(1,2) [OF 2(4-6)] root by (simp add: map_insert_def)
  qed
qed

text \<open>Iterators of the same map are equal exactly at equal positions.\<close>

lemma distinct_entries: "sorted_keys lt xs \<Longrightarrow> distinct xs"
  using irrefl by (induction xs) auto

lemma it_pos_unique:
  assumes S: "sorted_keys lt xs" and H: "rb_holds R xs" and p: "it_pos R xs p i" and q: "it_pos R xs q j"
  shows "p = q \<longleftrightarrow> i = j"
proof -
  note D = distinct_entries [OF S]
  have e: "i = length xs \<and> p = 0 \<or> i < length xs \<and> p \<noteq> 0 \<and> kept_entry R p = Some (xs ! i)" if "it_pos R xs p i" for p i
    using that at_pos_entry [of R xs p i] at_pos_nonzero [of R xs p i]
    by (auto simp: it_pos_def kept_entry_def rb_node_def split: if_splits)
  obtain t where t: "view R [] t xs" using H by (auto simp: rb_holds_def)
  then have F: "tree_at (rb_nodes R) 0 t" "set (addrs t) = dom (rb_nodes R)" and xs: "xs = map snd (items t)"
    using focusD(1,5) [of R "[]" t] by (simp_all add: view_def)
  have "p = q" if "kept_entry R p = Some e" "kept_entry R q = Some e" for e
  proof -
    have "(a, e) \<in> set (items t)" if "kept_entry R a = Some e" for a
    proof -
      have "a \<in> fst ` set (items t)" using that F(2) by (auto simp: kept_entry_def)
      then obtain e' where "(a, e') \<in> set (items t)" by (auto simp del: items_simps)
      then show ?thesis using items_entry [OF F(1)] that by fastforce
    qed
    moreover have "inj_on snd (set (items t))" using D unfolding xs distinct_map by blast
    ultimately show ?thesis using that inj_onD [of snd "set (items t)" "(p, e)" "(q, e)"] by simp
  qed
  then show ?thesis using e [OF p] e [OF q] D by (cases "xs ! j") (auto simp: nth_eq_iff_index_eq)
qed

end

lemma map_write_ok:
  assumes "map_ok M (as @ (kp, v) # bs)" "spot (rm_tree M) p as kp v bs"
  shows "\<exists>M'. map_write p w M = Inr M' \<and> map_ok M' (as @ (kp, w) # bs) \<and> rm_self M' = rm_self M"
  using spot_write [OF assms(2), of w] assms(1) by (auto simp: map_write_def map_ok_def)

lemma map_read_ok: "spot (rm_tree M) p as kp v bs \<Longrightarrow> map_read p M = Inr v"
  using spotD(2) [of "rm_tree M" p as kp v bs] by (auto simp: map_read_def)

lemma spot_deref: "spot (rm_tree M) p as kp v bs \<Longrightarrow> ri_deref M \<lparr>ri_ptr = p, ri_domain = d\<rparr> = Inr (kp, v)"
  using spotD(1,2) [of "rm_tree M" p as kp v bs] by (auto simp: ri_deref_def)

end
