(* ===== verification/Rb_Sessions.thy ===== *)
theory Rb_Sessions
  imports Rb_Map
begin

text \<open>
  The map as its clients see it: any sequence of operations is answered as the sorted chain of
  \<open>Key_Index\<close> answers it, exceptions included, and the tree stays red-black throughout.
\<close>

section \<open>Walking through a map\<close>

text \<open>\<^verbatim>\<open>for (it = begin(); it != end(); ++it)\<close>, and from \<^verbatim>\<open>end()\<close> back to \<^verbatim>\<open>begin()\<close> with \<^verbatim>\<open>--it\<close>.\<close>

fun rb_walk :: "nat \<Rightarrow> ('k, 'v) rmap \<Rightarrow> rb_it \<Rightarrow> ('k \<times> 'v) list result" where
  "rb_walk k M it = (if it = map_end M then Inr [] else case k of 0 \<Rightarrow> Inl Undefined
     | Suc k' \<Rightarrow> rbind (ri_deref M it) (\<lambda>e. rbind (ri_next M it) (\<lambda>it'. rbind (rb_walk k' M it') (\<lambda>es. Inr (e # es)))))"

fun rb_walk_back :: "nat \<Rightarrow> ('k, 'v) rmap \<Rightarrow> rb_it \<Rightarrow> rb_it \<Rightarrow> ('k \<times> 'v) list result" where
  "rb_walk_back k M first it = (if it = first then Inr [] else case k of 0 \<Rightarrow> Inl Undefined
     | Suc k' \<Rightarrow> rbind (ri_prev M it) (\<lambda>it'. rbind (ri_deref M it') (\<lambda>e.
         rbind (rb_walk_back k' M first it') (\<lambda>es. Inr (e # es)))))"

declare rb_walk.simps [simp del] rb_walk_back.simps [simp del]

lemma rb_walk_ok:
  assumes M: "map_ok M xs"
  shows "it_pos (rm_tree M) xs p i \<Longrightarrow> i + k = length xs \<Longrightarrow> rb_walk k M \<lparr>ri_ptr = p, ri_domain = rm_self M\<rparr> = Inr (drop i xs)"
proof (induction k arbitrary: p i)
  case 0
  then have "p = 0" by (simp add: it_pos_def)
  then show ?case using 0 by (subst rb_walk.simps) (simp add: map_end_def)
next
  case (Suc k)
  then have i: "i < length xs" by simp
  then have "p \<noteq> 0" using Suc.prems(1) at_pos_nonzero by (auto simp: it_pos_def)
  moreover obtain q where "ri_next M \<lparr>ri_ptr = p, ri_domain = rm_self M\<rparr> = Inr \<lparr>ri_ptr = q, ri_domain = rm_self M\<rparr>"
    "it_pos (rm_tree M) xs q (Suc i)" using ri_next_ok [OF M Suc.prems(1), of "rm_self M"] i by auto
  ultimately show ?case using Suc.IH [of q "Suc i"] Suc.prems(2) ri_deref_ok [OF Suc.prems(1), of "rm_self M"] i
    by (subst rb_walk.simps) (simp add: map_end_def Cons_nth_drop_Suc)
qed

context strict_weak_order
begin

lemma rb_walk_back_ok:
  assumes M: "map_ok M xs" and S: "sorted_keys lt xs" and self: "rm_self M \<noteq> 0" and first: "it_pos (rm_tree M) xs f 0"
  shows "it_pos (rm_tree M) xs p k \<Longrightarrow> rb_walk_back k M \<lparr>ri_ptr = f, ri_domain = rm_self M\<rparr> \<lparr>ri_ptr = p, ri_domain = rm_self M\<rparr>
    = Inr (rev (take k xs))"
proof (induction k arbitrary: p)
  case 0
  have "rb_holds (rm_tree M) xs" using M by (simp add: map_ok_def)
  from it_pos_unique [OF S this 0 first] show ?case by (subst rb_walk_back.simps) simp
next
  case (Suc k)
  have "rb_holds (rm_tree M) xs" using M by (simp add: map_ok_def)
  from it_pos_unique [OF S this Suc.prems first] have ne: "p \<noteq> f" by simp
  obtain q where q: "ri_prev M \<lparr>ri_ptr = p, ri_domain = rm_self M\<rparr> = Inr \<lparr>ri_ptr = q, ri_domain = rm_self M\<rparr>"
    "it_pos (rm_tree M) xs q k" using ri_prev_ok [OF M Suc.prems self] by auto
  have "k < length xs" using Suc.prems at_pos_bound by (fastforce simp: it_pos_def split: if_splits)
  then show ?case using ne q(1) Suc.IH [OF q(2)] ri_deref_ok [OF q(2), of "rm_self M"]
    by (subst rb_walk_back.simps) (simp add: take_Suc_conv_app_nth)
qed

end

section \<open>Requests\<close>

datatype ('k, 'v) map_request =
    Sub_get 'k | Sub_set 'k 'v | At_key 'k | Put_new 'k 'v | Erase_key 'k | Erase_found 'k
  | Count_of 'k | Look_up 'k | Walk | Walk_back | Map_size | Map_clear

datatype ('k, 'v) map_answer = Accepted | Value 'v | Entry "'k \<times> 'v" | Placed "'k \<times> 'v" bool | Entries "('k \<times> 'v) list" | How_many nat

text \<open>On the sorted chain. \<^verbatim>\<open>erase(key)\<close> follows the root without looking whether there is one.\<close>

fun index_serve :: "('k \<Rightarrow> 'k \<Rightarrow> bool) \<Rightarrow> 'v \<Rightarrow> ('k, 'v) map_request \<Rightarrow> ('k, 'v) index \<Rightarrow> ('k, 'v) map_answer result \<times> ('k, 'v) index" where
  "index_serve lt d (Sub_get k) ix =
     (case idx_get lt k ix of None \<Rightarrow> (Inr (Value d), idx_put lt k d ix) | Some v \<Rightarrow> (Inr (Value v), ix))"
| "index_serve lt d (Sub_set k v) ix = (Inr Accepted, idx_put lt k v ix)"
| "index_serve lt d (At_key k) ix = (case idx_get lt k ix of None \<Rightarrow> Inl Index_out_of_bound | Some v \<Rightarrow> Inr (Value v), ix)"
| "index_serve lt d (Put_new k v) ix =
     (case idx_hit lt k ix of None \<Rightarrow> (Inr (Placed (k, v) True), idx_put lt k v ix) | Some e \<Rightarrow> (Inr (Placed e False), ix))"
| "index_serve lt d (Erase_key k) ix = (if chain ix = [] then (Inl Undefined, ix) else (Inr Accepted, idx_remove lt k ix))"
| "index_serve lt d (Erase_found k) ix =
     (if idx_get lt k ix = None then (Inl Invalid_iterator, ix) else (Inr Accepted, idx_remove lt k ix))"
| "index_serve lt d (Count_of k) ix = (Inr (How_many (if idx_get lt k ix = None then 0 else 1)), ix)"
| "index_serve lt d (Look_up k) ix = (case idx_hit lt k ix of None \<Rightarrow> Inl Invalid_iterator | Some e \<Rightarrow> Inr (Entry e), ix)"
| "index_serve lt d Walk ix = (Inr (Entries (chain ix)), ix)"
| "index_serve lt d Walk_back ix = (Inr (Entries (rev (chain ix))), ix)"
| "index_serve lt d Map_size ix = (Inr (How_many (siz ix)), ix)"
| "index_serve lt d Map_clear ix = (Inr Accepted, idx_new)"

text \<open>On the map; \<open>b\<close> is what \<^verbatim>\<open>new\<close> would return.\<close>

definition edited :: "('k, 'v) rmap \<Rightarrow> ('k, 'v) rmap result \<Rightarrow> ('k, 'v) map_answer result \<times> ('k, 'v) rmap" where
  "edited M r = (case r of Inl e \<Rightarrow> (Inl e, M) | Inr M' \<Rightarrow> (Inr Accepted, M'))"

fun map_serve :: "('k \<Rightarrow> 'k \<Rightarrow> bool) \<Rightarrow> 'v \<Rightarrow> nat \<Rightarrow> ('k, 'v) map_request \<Rightarrow> ('k, 'v) rmap \<Rightarrow> ('k, 'v) map_answer result \<times> ('k, 'v) rmap" where
  "map_serve lt d b (Sub_get k) M = (case map_sub lt d b k M of Inl e \<Rightarrow> (Inl e, M)
     | Inr (p, M1) \<Rightarrow> (rbind (map_read p M1) (\<lambda>v. Inr (Value v)), M1))"
| "map_serve lt d b (Sub_set k v) M = edited M (rbind (map_sub lt d b k M) (\<lambda>(p, M1). map_write p v M1))"
| "map_serve lt d b (At_key k) M = (rbind (map_at lt k M) (\<lambda>v. Inr (Value v)), M)"
| "map_serve lt d b (Put_new k v) M = (case map_insert lt b k v M of Inl e \<Rightarrow> (Inl e, M)
     | Inr ((it, fresh), M1) \<Rightarrow> (rbind (ri_deref M1 it) (\<lambda>e. Inr (Placed e fresh)), M1))"
| "map_serve lt d b (Erase_key k) M = edited M (map_erase lt k M)"
| "map_serve lt d b (Erase_found k) M = edited M (rbind (map_find lt k M) (\<lambda>it. map_erase_it it M))"
| "map_serve lt d b (Count_of k) M = (rbind (map_count lt k M) (\<lambda>n. Inr (How_many n)), M)"
| "map_serve lt d b (Look_up k) M = (rbind (map_find lt k M) (\<lambda>it. rbind (ri_deref M it) (\<lambda>e. Inr (Entry e))), M)"
| "map_serve lt d b Walk M = (rbind (map_begin M) (\<lambda>it. rbind (rb_walk (rm_count M) M it) (\<lambda>es. Inr (Entries es))), M)"
| "map_serve lt d b Walk_back M =
     (rbind (map_begin M) (\<lambda>it. rbind (rb_walk_back (rm_count M) M it (map_end M)) (\<lambda>es. Inr (Entries es))), M)"
| "map_serve lt d b Map_size M = (Inr (How_many (rm_count M)), M)"
| "map_serve lt d b Map_clear M = edited M (map_clear M)"

fun map_session :: "('k \<Rightarrow> 'k \<Rightarrow> bool) \<Rightarrow> 'v \<Rightarrow> (nat \<times> ('k, 'v) map_request) list \<Rightarrow> ('k, 'v) rmap
    \<Rightarrow> ('k, 'v) map_answer result list \<times> ('k, 'v) rmap" where
  "map_session lt d [] M = ([], M)"
| "map_session lt d ((b, r) # rs) M = (let (a, M1) = map_serve lt d b r M; (as, M2) = map_session lt d rs M1 in (a # as, M2))"

fun index_session :: "('k \<Rightarrow> 'k \<Rightarrow> bool) \<Rightarrow> 'v \<Rightarrow> ('k, 'v) map_request list \<Rightarrow> ('k, 'v) index
    \<Rightarrow> ('k, 'v) map_answer result list \<times> ('k, 'v) index" where
  "index_session lt d [] ix = ([], ix)"
| "index_session lt d (r # rs) ix = (let (a, i1) = index_serve lt d r ix; (as, i2) = index_session lt d rs i1 in (a # as, i2))"

text \<open>The allocator never returns null nor the address of a node that is in use.\<close>

fun nodes_fresh :: "('k \<Rightarrow> 'k \<Rightarrow> bool) \<Rightarrow> 'v \<Rightarrow> (nat \<times> ('k, 'v) map_request) list \<Rightarrow> ('k, 'v) rmap \<Rightarrow> bool" where
  "nodes_fresh lt d [] M = True"
| "nodes_fresh lt d ((b, r) # rs) M =
     (b \<noteq> 0 \<and> rb_nodes (rm_tree M) b = None \<and> nodes_fresh lt d rs (snd (map_serve lt d b r M)))"

definition map_holds :: "('k \<Rightarrow> 'k \<Rightarrow> bool) \<Rightarrow> ('k, 'v) rmap \<Rightarrow> ('k, 'v) index \<Rightarrow> bool" where
  "map_holds lt M ix \<longleftrightarrow> map_ok M (chain ix) \<and> idx_inv lt ix"

lemma map_holds_of: "map_holds lt M ix \<Longrightarrow> ix = idx_of (chain ix) \<and> map_ok M (chain ix) \<and> sorted_keys lt (chain ix)"
  by (cases ix) (simp add: map_holds_def idx_inv_def idx_of_def)

lemma holds_idx_of: "map_ok M xs \<Longrightarrow> idx_inv lt (idx_of xs) \<Longrightarrow> map_holds lt M (idx_of xs)"
  by (simp add: map_holds_def idx_of_def)

section \<open>Every request\<close>

context strict_weak_order
begin

lemma idx_put_sorted: "sorted_keys lt xs \<Longrightarrow> idx_put lt k v (idx_of xs) = idx_of ys \<Longrightarrow> sorted_keys lt ys"
  using idx_put_inv [of "idx_of xs" k v] by (simp add: idx_inv_def idx_of_def)

lemma map_sub_ok:
  assumes M: "map_ok M xs" and S: "sorted_keys lt xs" and b: "b \<noteq> 0" "rb_nodes (rm_tree M) b = None"
  obtains p as kp v bs M1 where "map_sub lt d b k M = Inr (p, M1)" "map_ok M1 (as @ (kp, v) # bs)" "rm_self M1 = rm_self M"
    "spot (rm_tree M1) p as kp v bs" "\<forall>w. idx_put lt k w (idx_of xs) = idx_of (as @ (kp, w) # bs)"
    "idx_get lt k (idx_of xs) = None \<and> v = d \<or> idx_get lt k (idx_of xs) = Some v \<and> xs = as @ (kp, v) # bs"
proof (cases rule: map_insert_ok [OF M S b, of k d])
  case (1 as bs M')
  then show thesis using that [of b M' as k d bs] by (simp add: map_sub_insert [OF M] idx_get_hit)
next
  case (2 p as kp w bs)
  then show thesis using that [of p M as kp w bs] M by (simp add: map_sub_insert [OF M] idx_get_hit)
qed

lemma map_serve_update:
  assumes M: "map_ok M xs" and S: "sorted_keys lt xs" and b: "b \<noteq> 0" "rb_nodes (rm_tree M) b = None"
    and r: "r = Sub_get k \<or> r = Sub_set k v \<or> r = Put_new k v"
  shows "\<exists>M' ys. map_serve lt d b r M = (fst (index_serve lt d r (idx_of xs)), M') \<and> snd (index_serve lt d r (idx_of xs)) = idx_of ys
    \<and> map_ok M' ys \<and> sorted_keys lt ys \<and> rm_self M' = rm_self M"
proof (cases "r = Put_new k v")
  case True
  show ?thesis
  proof (cases rule: map_insert_ok [OF M S b, of k v])
    case (1 as bs M')
    then show ?thesis using True spot_deref [OF 1(6)] idx_put_sorted [OF S 1(3)] by auto
  next
    case (2 p as kp w bs)
    then show ?thesis using True spot_deref [OF 2(3)] M S by auto
  qed
next
  case False
  obtain p as kp w bs M1 where s: "map_sub lt d b k M = Inr (p, M1)" "map_ok M1 (as @ (kp, w) # bs)" "rm_self M1 = rm_self M"
    "spot (rm_tree M1) p as kp w bs" "\<forall>w. idx_put lt k w (idx_of xs) = idx_of (as @ (kp, w) # bs)"
    "idx_get lt k (idx_of xs) = None \<and> w = d \<or> idx_get lt k (idx_of xs) = Some w \<and> xs = as @ (kp, w) # bs"
    by (rule map_sub_ok [OF M S b, where d = d and k = k])
  note sorted = idx_put_sorted [OF S s(5) [rule_format]]
  consider "r = Sub_get k" | "r = Sub_set k v" using r False by blast
  then show ?thesis
  proof cases
    case 1
    then show ?thesis using s(1,2,3,5,6) map_read_ok [OF s(4)] sorted [of w] by auto
  next
    case 2
    obtain M' where "map_write p v M1 = Inr M'" "map_ok M' (as @ (kp, v) # bs)" "rm_self M' = rm_self M1"
      using map_write_ok [OF s(2,4)] by blast
    then show ?thesis using 2 s(1,3,5) sorted [of v] by (auto simp: edited_def)
  qed
qed

lemma map_serve_erase:
  assumes M: "map_ok M xs" and S: "sorted_keys lt xs" and r: "r = Erase_key k \<or> r = Erase_found k"
  shows "\<exists>M' ys. map_serve lt d b r M = (fst (index_serve lt d r (idx_of xs)), M') \<and> snd (index_serve lt d r (idx_of xs)) = idx_of ys
    \<and> map_ok M' ys \<and> sorted_keys lt ys \<and> rm_self M' = rm_self M"
proof (cases rule: map_reads_ok [OF M S, of k])
  case 1
  have "map_erase lt k M = Inl Undefined" if "xs = []"
    using map_empty_ok [of M] M that by (simp add: map_erase_def map_lookup_def node_find.simps rb_node_def of_option_def)
  then show ?thesis using r 1 M S
    by (cases "xs = []") (auto simp: edited_def idx_get_hit idx_of_def map_erase_it_def map_end_def)
next
  case (2 p as kp v bs)
  obtain M' where M': "map_erase_node p M = Inr M'" "map_ok M' (as @ bs)" "rm_self M' = rm_self M"
    using map_erase_node_ok [OF M [unfolded 2(1)] 2(2)] by blast
  have "sorted_keys lt (as @ bs)" using S unfolding 2(1) by (simp add: sorted_wrt_append)
  moreover have "idx_get lt k (idx_of xs) \<noteq> None" "chain (idx_of xs) \<noteq> []" using 2(1,3) by (simp_all add: idx_get_hit idx_of_def)
  ultimately show ?thesis using r 2 M' spotD(1) [OF 2(2)] by (auto simp: edited_def map_erase_it_def)
qed

lemma map_serve_read:
  assumes M: "map_ok M xs" and S: "sorted_keys lt xs" and r: "r = At_key k \<or> r = Count_of k \<or> r = Look_up k"
  shows "map_serve lt d b r M = (fst (index_serve lt d r (idx_of xs)), M) \<and> snd (index_serve lt d r (idx_of xs)) = idx_of xs"
proof (cases rule: map_reads_ok [OF M S, of k])
  case 1
  then show ?thesis using r by (auto simp: idx_get_hit ri_deref_def map_end_def)
next
  case (2 p as kp v bs)
  then show ?thesis using r spot_deref [OF 2(2)] by (auto simp: idx_get_hit)
qed

lemma map_serve_walk:
  assumes M: "map_ok M xs" and S: "sorted_keys lt xs" and self: "rm_self M \<noteq> 0" and r: "r = Walk \<or> r = Walk_back"
  shows "map_serve lt d b r M = (fst (index_serve lt d r (idx_of xs)), M) \<and> snd (index_serve lt d r (idx_of xs)) = idx_of xs"
proof -
  obtain p where p: "map_begin M = Inr \<lparr>ri_ptr = p, ri_domain = rm_self M\<rparr>" "it_pos (rm_tree M) xs p 0" using map_begin_ok [OF M] by blast
  have "rm_count M = length xs" using M by (simp add: map_ok_def)
  moreover have "rb_walk (length xs) M \<lparr>ri_ptr = p, ri_domain = rm_self M\<rparr> = Inr xs" using rb_walk_ok [OF M p(2)] by simp
  moreover have "rb_walk_back (length xs) M \<lparr>ri_ptr = p, ri_domain = rm_self M\<rparr> (map_end M) = Inr (rev xs)"
    using rb_walk_back_ok [OF M S self p(2) map_end_ok [OF M]] by (simp add: map_end_def)
  ultimately show ?thesis using r p(1) by (auto simp: idx_of_def)
qed

lemma map_serve_ok:
  assumes M: "map_ok M xs" and S: "sorted_keys lt xs" and self: "rm_self M \<noteq> 0" and b: "b \<noteq> 0" "rb_nodes (rm_tree M) b = None"
  shows "\<exists>M' ys. map_serve lt d b r M = (fst (index_serve lt d r (idx_of xs)), M') \<and> snd (index_serve lt d r (idx_of xs)) = idx_of ys
    \<and> map_ok M' ys \<and> sorted_keys lt ys \<and> rm_self M' = rm_self M"
proof -
  have still: ?thesis if "map_serve lt d b r M = (fst (index_serve lt d r (idx_of xs)), M) \<and> snd (index_serve lt d r (idx_of xs)) = idx_of xs"
    using that M S by blast
  consider k v where "r = Sub_get k \<or> r = Sub_set k v \<or> r = Put_new k v" | k where "r = Erase_key k \<or> r = Erase_found k"
    | k where "r = At_key k \<or> r = Count_of k \<or> r = Look_up k" | "r = Walk \<or> r = Walk_back" | "r = Map_size" | "r = Map_clear"
    by (cases r) blast+
  then show ?thesis
  proof cases
    case 1
    then show ?thesis by (rule map_serve_update [OF M S b])
  next
    case 2
    then show ?thesis by (rule map_serve_erase [OF M S])
  next
    case 3
    then show ?thesis by (rule still [OF map_serve_read [OF M S]])
  next
    case 4
    then show ?thesis by (rule still [OF map_serve_walk [OF M S self]])
  next
    case 5
    then show ?thesis using still M by (simp add: map_ok_def idx_of_def)
  next
    case 6
    then show ?thesis using map_clear_ok [OF M] by (auto simp: edited_def idx_new_def idx_of_def)
  qed
qed

lemma map_session_ok:
  "map_ok M xs \<Longrightarrow> sorted_keys lt xs \<Longrightarrow> rm_self M \<noteq> 0 \<Longrightarrow> nodes_fresh lt d rs M \<Longrightarrow>
    \<exists>M' ys. map_session lt d rs M = (fst (index_session lt d (map snd rs) (idx_of xs)), M')
      \<and> snd (index_session lt d (map snd rs) (idx_of xs)) = idx_of ys \<and> map_ok M' ys \<and> sorted_keys lt ys"
proof (induction rs arbitrary: M xs)
  case (Cons br rs)
  obtain b r where br: "br = (b, r)" by (cases br)
  have b: "b \<noteq> 0" "rb_nodes (rm_tree M) b = None" using Cons.prems(4) br by simp_all
  obtain M1 ys where 1: "map_serve lt d b r M = (fst (index_serve lt d r (idx_of xs)), M1)" "snd (index_serve lt d r (idx_of xs)) = idx_of ys"
    "map_ok M1 ys" "sorted_keys lt ys" "rm_self M1 = rm_self M" using map_serve_ok [OF Cons.prems(1-3) b] by blast
  have "nodes_fresh lt d rs M1" "rm_self M1 \<noteq> 0" using Cons.prems(3,4) br 1(1,5) by simp_all
  from Cons.IH [OF 1(3,4) this(2,1)] obtain M2 zs where "map_session lt d rs M1 = (fst (index_session lt d (map snd rs) (idx_of ys)), M2)"
    "snd (index_session lt d (map snd rs) (idx_of ys)) = idx_of zs" "map_ok M2 zs" "sorted_keys lt zs" by blast
  then show ?case using 1(1,2) by (auto simp: br case_prod_beta Let_def)
qed auto

end

text \<open>
  C25: every sequence of operations on a new map has the answers and exceptions of the same sequence
  on a sorted chain of entries, walking in both directions included; the tree stays red-black (no
  red node has a red son, all paths have the same number of black nodes, the root is black, the
  parent pointers are consistent), and no null or deleted node is followed other than by
  \<^verbatim>\<open>erase(key)\<close> on an empty map.
\<close>
theorem maps_are_indexes:
  assumes "strict_weak_order lt" "self \<noteq> 0" "nodes_fresh lt d rs (map_new self)"
  shows "fst (map_session lt d rs (map_new self)) = fst (index_session lt d (map snd rs) idx_new)
    \<and> map_holds lt (snd (map_session lt d rs (map_new self))) (snd (index_session lt d (map snd rs) idx_new))"
proof -
  have "rm_self (map_new self :: ('a, 'b) rmap) \<noteq> 0" using assms(2) by (simp add: map_new_def)
  from strict_weak_order.map_session_ok [OF assms(1) map_new_ok _ this assms(3)]
  obtain M' ys where s: "map_session lt d rs (map_new self) = (fst (index_session lt d (map snd rs) (idx_of [])), M')"
    "snd (index_session lt d (map snd rs) (idx_of [])) = idx_of ys" "map_ok M' ys" "sorted_keys lt ys" by auto
  have "idx_of [] = (idx_new :: ('a, 'b) index)" by (simp add: idx_of_def idx_new_def)
  moreover have "map_holds lt M' (idx_of ys)" using s(3,4) by (simp add: map_holds_def idx_inv_def idx_of_def)
  ultimately show ?thesis using s(1,2) by simp
qed

definition map_requests :: "(nat \<times> (nat, nat) map_request) list" where
  "map_requests = [(3, Sub_set 5 50), (4, Sub_set 2 20), (7, Put_new 8 80), (9, Put_new 5 55), (9, Sub_set 9 90), (1, Sub_get 7), (2, Erase_key 5),
     (3, At_key 5), (3, Walk), (3, Erase_found 6), (3, Walk_back), (3, Sub_set 1 10), (5, Erase_found 8), (5, Look_up 9), (5, Map_clear), (5, Erase_key 1)]"

lemma map_requests_facts:
  "nodes_fresh (<) 0 map_requests (map_new 1)"
  "index_session (<) 0 (map snd map_requests) idx_new = ([Inr Accepted, Inr Accepted, Inr (Placed (8, 80) True), Inr (Placed (5, 50) False),
     Inr Accepted, Inr (Value 0), Inr Accepted, Inl Index_out_of_bound, Inr (Entries [(2, 20), (7, 0), (8, 80), (9, 90)]), Inl Invalid_iterator,
     Inr (Entries [(9, 90), (8, 80), (7, 0), (2, 20)]), Inr Accepted, Inr Accepted, Inr (Entry (9, 90)), Inr Accepted, Inl Undefined], idx_new)"
  by code_simp+

lemma maps_are_indexes_witness:
  "fst (map_session (<) 0 map_requests (map_new 1)) = [Inr Accepted, Inr Accepted, Inr (Placed (8, 80) True), Inr (Placed (5, 50) False),
     Inr Accepted, Inr (Value 0), Inr Accepted, Inl Index_out_of_bound, Inr (Entries [(2, 20), (7, 0), (8, 80), (9, 90)]), Inl Invalid_iterator,
     Inr (Entries [(9, 90), (8, 80), (7, 0), (2, 20)]), Inr Accepted, Inr Accepted, Inr (Entry (9, 90)), Inr Accepted, Inl Undefined]
   \<and> map_holds (<) (snd (map_session (<) 0 map_requests (map_new 1))) idx_new"
  using maps_are_indexes [OF total.strict_weak_order_axioms _ map_requests_facts(1)] by (simp add: map_requests_facts(2))

section \<open>How long a lookup takes\<close>

text \<open>
  C26: in a map with fewer than \<open>2 ^ (j + 1) - 1\<close> entries every lookup looks at no more than \<open>2 * j\<close>
  nodes: with that many recursive calls \<^verbatim>\<open>Find\<close> has its result.
\<close>
theorem lookups_are_logarithmic:
  assumes "strict_weak_order lt" "map_holds lt M ix" "siz ix \<noteq> 0" "siz ix + 1 < 2 ^ (j + 1)"
  shows "\<exists>p. node_find lt (2 * j) k (rb_root (rm_tree M)) (rm_tree M) = Inr p \<and> map_lookup lt k M = Inr p"
proof -
  obtain xs where ix: "ix = idx_of xs" and M: "map_ok M xs" and S: "sorted_keys lt xs" using map_holds_of [OF assms(2)] by blast
  have n: "siz ix = length xs" "xs \<noteq> []" using assms(3) ix by (auto simp: idx_of_def)
  obtain t where t: "view (rm_tree M) [] t xs" "rb_root (rm_tree M) = addr t" "length (addrs t) = length xs" "t = Tip \<longleftrightarrow> xs = []"
    by (rule map_ok_root [OF M])
  obtain m where m: "rb_ok m t" "color t = Black" using t(1) by (auto simp: view_def)
  have "2 ^ m < (2 :: nat) ^ (j + 1)" using bheight_size [OF m(1)] t(3) n(1) assms(4) by simp
  then have "m \<le> j" by (simp only: power_strict_increasing_iff)
  then have d: "depth t \<le> 2 * j" using depth_bheight [OF m(1)] m(2) by simp
  have d': "depth t \<le> rm_count M + 1" using depth_le_length [of t] t(3) M by (simp add: map_ok_def)
  from strict_weak_order.node_find_ok [OF assms(1) t(1) _ S d, of k] t(4) n(2)
  obtain p where p: "node_find lt (2 * j) k (addr t) (rm_tree M) = Inr p" by blast
  from strict_weak_order.node_find_ok [OF assms(1) t(1) _ S order.refl, of k] t(4) n(2)
  obtain q where q: "node_find lt (depth t) k (addr t) (rm_tree M) = Inr q" by blast
  show ?thesis using p node_find_mono [OF q d] node_find_mono [OF q d'] t(2) by (simp add: map_lookup_def)
qed

definition seven_requests :: "(nat \<times> (nat, nat) map_request) list" where
  "seven_requests = [(1, Sub_set 1 10), (2, Sub_set 2 20), (3, Sub_set 3 30), (4, Sub_set 4 40), (5, Sub_set 5 50), (6, Sub_set 6 60), (7, Sub_set 7 70)]"

definition seven :: "(nat, nat) rmap" where
  "seven = snd (map_session (<) 0 seven_requests (map_new 1))"

definition seven_entries :: "(nat \<times> nat) list" where
  "seven_entries = [(1, 10), (2, 20), (3, 30), (4, 40), (5, 50), (6, 60), (7, 70)]"

lemma seven_requests_chain: "chain (snd (index_session (<) 0 (map snd seven_requests) idx_new)) = seven_entries"
  by (simp add: seven_requests_def seven_entries_def idx_new_def idx_put_def idx_lower_def lower_pos_def)

lemma seven_requests_fresh: "nodes_fresh (<) 0 seven_requests (map_new 1)"
  by code_simp

lemma seven_facts: "map_holds (<) seven (idx_of seven_entries)"
proof -
  have "map_ok (map_new 1 :: (nat, nat) rmap) []" "sorted_keys (<) ([] :: (nat \<times> nat) list)" "rm_self (map_new 1 :: (nat, nat) rmap) \<noteq> 0"
    using map_new_ok by (simp_all add: map_new_def)
  from total.map_session_ok [OF this seven_requests_fresh]
  obtain M' ys where s: "map_session (<) 0 seven_requests (map_new 1) = (fst (index_session (<) 0 (map snd seven_requests) (idx_of [])), M')"
    "snd (index_session (<) 0 (map snd seven_requests) (idx_of [])) = idx_of ys" "map_ok M' ys" "sorted_keys (<) ys" by blast
  have "idx_of [] = (idx_new :: (nat, nat) index)" by (simp add: idx_of_def idx_new_def)
  then have "ys = seven_entries" using s(2) seven_requests_chain by (simp add: idx_of_def)
  then show ?thesis using s(1,3,4) by (simp add: seven_def map_holds_def idx_inv_def idx_of_def)
qed

lemma seven_siz: "siz (idx_of seven_entries) = 7"
  by (simp add: idx_of_def seven_entries_def)

lemma lookups_are_logarithmic_witness:
  "\<exists>p. node_find (<) 6 5 (rb_root (rm_tree seven)) (rm_tree seven) = Inr p \<and> map_lookup (<) 5 seven = Inr p"
  using lookups_are_logarithmic [OF total.strict_weak_order_axioms seven_facts, of 3 5] by (simp add: seven_siz)

section \<open>Copies\<close>

text \<open>
  Copying a map with any fresh addresses, or assigning it to another map, gives a map with
  the same entries. Only the assignment of an empty map goes wrong.
\<close>

lemma map_copies_are_equal:
  assumes "map_holds lt M ix" "map_holds lt K iy" "length as = siz ix" "distinct as" "0 \<notin> set as"
  shows "\<exists>M'. map_copy self as M = Inr M' \<and> map_holds lt M' ix"
    and "siz ix \<noteq> 0 \<Longrightarrow> rm_self K \<noteq> rm_self M \<Longrightarrow> \<exists>K'. map_assign as K M = Inr K' \<and> map_holds lt K' ix"
proof -
  have ix: "map_ok M (chain ix)" "idx_inv lt ix" "length as = length (chain ix)" "map_ok K (chain iy)"
    using assms(1-3) by (simp_all add: map_holds_def idx_inv_def)
  show "\<exists>M'. map_copy self as M = Inr M' \<and> map_holds lt M' ix"
    using map_copy_ok [OF ix(1,3) assms(4,5)] ix(2) by (auto simp: map_holds_def)
  show "\<exists>K'. map_assign as K M = Inr K' \<and> map_holds lt K' ix" if "siz ix \<noteq> 0" "rm_self K \<noteq> rm_self M"
    using map_assign_ok [OF ix(1,4,3) assms(4,5)] that ix(2) by (auto simp: map_holds_def idx_inv_def)
qed

text \<open>
  Assigning an empty map to one with entries deletes the nodes and counts none, but keeps the
  old root: \<^verbatim>\<open>begin()\<close>, \<^verbatim>\<open>find\<close>, \<^verbatim>\<open>count\<close>, \<^verbatim>\<open>at\<close> and \<^verbatim>\<open>insert\<close> then read a deleted node.
\<close>
lemma assigning_an_empty_map_dangles:
  assumes "map_holds lt M ix" "siz ix \<noteq> 0" "rm_self M \<noteq> self"
  shows "\<exists>M'. map_assign as M (map_new self) = Inr M' \<and> rm_count M' = 0 \<and> map_begin M' = Inl Undefined \<and> map_find lt k M' = Inl Undefined
    \<and> map_count lt k M' = Inl Undefined \<and> map_at lt k M' = Inl Undefined \<and> map_insert lt b k v M' = Inl Undefined"
proof -
  have M: "map_ok M (chain ix)" "chain ix \<noteq> []" using assms(1,2) by (auto simp: map_holds_def idx_inv_def)
  have root: "rb_root (rm_tree M) \<noteq> 0" using map_nonempty_ok [OF M] by simp
  have a: "map_assign as M (map_new self) = Inr (M\<lparr>rm_tree := (rm_tree M)\<lparr>rb_nodes := Map.empty\<rparr>, rm_count := 0\<rparr>)"
    using map_release_ok [OF M(1)] assms(3) by (simp add: map_assign_def map_new_def empty_rb_def copy_from.simps)
  show ?thesis unfolding a using root
    by (simp add: map_begin_def map_find_def map_count_def map_at_def map_insert_def map_insert_node_def map_lookup_def
        leftmost.simps node_find.simps node_insert.simps rb_node_def of_option_def)
qed

lemma assigning_an_empty_map_dangles_witness:
  "\<exists>M'. map_assign [] seven (map_new 9) = Inr M' \<and> rm_count M' = 0 \<and> map_begin M' = Inl Undefined \<and> map_find (<) 5 M' = Inl Undefined
    \<and> map_count (<) 5 M' = Inl Undefined \<and> map_at (<) 5 M' = Inl Undefined \<and> map_insert (<) 8 5 50 M' = Inl Undefined"
proof -
  have "rm_self seven \<noteq> 9" by code_simp
  then show ?thesis using assigning_an_empty_map_dangles [OF seven_facts, where self = 9 and as = "[]" and k = 5 and b = 8 and v = 50] by (simp add: seven_siz)
qed

section \<open>The contract\<close>

text \<open>Reading, storing and removing, with an allocator that goes on behind the highest node in use.\<close>

definition fresh_node :: "('k, 'v) rmap \<Rightarrow> nat" where
  "fresh_node M = Suc (Max (insert 0 (dom (rb_nodes (rm_tree M)))))"

definition rb_get :: "('k \<Rightarrow> 'k \<Rightarrow> bool) \<Rightarrow> 'k \<Rightarrow> ('k, 'v) rmap \<Rightarrow> 'v option" where
  "rb_get lt k M = (case map_at lt k M of Inl _ \<Rightarrow> None | Inr v \<Rightarrow> Some v)"

definition rb_put :: "('k \<Rightarrow> 'k \<Rightarrow> bool) \<Rightarrow> 'k \<Rightarrow> 'v \<Rightarrow> ('k, 'v) rmap \<Rightarrow> ('k, 'v) rmap" where
  "rb_put lt k v M = snd (map_serve lt v (fresh_node M) (Sub_set k v) M)"

definition rb_remove :: "('k \<Rightarrow> 'k \<Rightarrow> bool) \<Rightarrow> 'k \<Rightarrow> ('k, 'v) rmap \<Rightarrow> ('k, 'v) rmap" where
  "rb_remove lt k M = (if rm_count M = 0 then M else snd (edited M (map_erase lt k M)))"

definition rb_valid :: "('k \<Rightarrow> 'k \<Rightarrow> bool) \<Rightarrow> ('k, 'v) rmap \<Rightarrow> bool" where
  "rb_valid lt M \<longleftrightarrow> (\<exists>ix. map_holds lt M ix)"

lemma map_holdsE:
  assumes "map_holds lt M ix"
  obtains xs where "ix = idx_of xs" "map_ok M xs" "sorted_keys lt xs"
  using map_holds_of [OF assms] by blast

lemma fresh_node_fresh:
  assumes "map_holds lt M ix"
  shows "fresh_node M \<noteq> 0" "rb_nodes (rm_tree M) (fresh_node M) = None"
proof -
  obtain t where t: "view (rm_tree M) [] t (chain ix)" using assms by (auto simp: map_holds_def map_ok_def rb_holds_def)
  then have D: "dom (rb_nodes (rm_tree M)) = set (addrs t)" using focusD(5) [of "rm_tree M" "[]" t] by (simp add: view_def)
  have "a < fresh_node M" if "a \<in> set (addrs t)" for a
  proof -
    have "a \<le> Max (insert 0 (set (addrs t)))" by (rule Max_ge) (use that in auto)
    then show ?thesis by (simp add: fresh_node_def D)
  qed
  then have "fresh_node M \<notin> dom (rb_nodes (rm_tree M))" using D by blast
  then show "rb_nodes (rm_tree M) (fresh_node M) = None" by auto
  show "fresh_node M \<noteq> 0" by (simp add: fresh_node_def)
qed

context strict_weak_order
begin

lemma rb_get_ok: "map_holds lt M ix \<Longrightarrow> rb_get lt k M = idx_get lt k ix"
proof (erule map_holdsE)
  fix xs assume ix: "ix = idx_of xs" and M: "map_ok M xs" "sorted_keys lt xs"
  show ?thesis unfolding ix by (cases rule: map_reads_ok [OF M, of k]) (simp_all add: rb_get_def idx_get_hit)
qed

lemma rb_put_ok: "map_holds lt M ix \<Longrightarrow> map_holds lt (rb_put lt k v M) (idx_put lt k v ix)"
proof -
  assume H: "map_holds lt M ix"
  then obtain xs where ix: "ix = idx_of xs" and M: "map_ok M xs" "sorted_keys lt xs" by (rule map_holdsE)
  have "Sub_set k v = Sub_get k \<or> Sub_set k v = Sub_set k v \<or> Sub_set k v = Put_new k v" by simp
  from map_serve_update [OF M fresh_node_fresh [OF H] this, of v]
  obtain ys where "map_ok (rb_put lt k v M) ys" "sorted_keys lt ys" "idx_put lt k v ix = idx_of ys"
    by (auto simp: rb_put_def ix)
  then show ?thesis by (simp add: map_holds_def idx_inv_def idx_of_def)
qed

lemma rb_remove_ok: "map_holds lt M ix \<Longrightarrow> map_holds lt (rb_remove lt k M) (idx_remove lt k ix)"
proof (erule map_holdsE)
  fix xs assume ix: "ix = idx_of xs" and M: "map_ok M xs" "sorted_keys lt xs"
  show ?thesis
  proof (cases "xs = []")
    case True
    then have "idx_remove lt k ix = ix" using idx_absent(3) [of xs k "[]"] by (simp add: ix)
    then show ?thesis using M True map_empty_ok [of M] by (simp add: rb_remove_def map_holds_def idx_inv_def idx_of_def ix)
  next
    case False
    have "Erase_key k = Erase_key k \<or> Erase_key k = Erase_found k" by simp
    from map_serve_erase [OF M this] map_nonempty_ok [OF M(1) False] False
    obtain ys where "map_ok (rb_remove lt k M) ys" "sorted_keys lt ys" "idx_remove lt k ix = idx_of ys"
      by (auto simp: rb_remove_def ix idx_of_def)
    then show ?thesis by (simp add: map_holds_def idx_inv_def idx_of_def)
  qed
qed

lemma rb_count_ok: "map_holds lt M ix \<Longrightarrow> rm_count M = siz ix"
  by (simp add: map_holds_def map_ok_def idx_inv_def)

end

sublocale strict_weak_order \<subseteq>
  rb: key_index lt "map_new 1" "rb_get lt" "rb_put lt" "rb_remove lt" rm_count "rb_valid lt"
proof (unfold_locales, goal_cases)
  case 1
  have "map_holds lt (map_new 1) idx_new" using map_new_ok by (simp add: map_holds_def idx_new_def idx_inv_def)
  then show ?case by (auto simp: rb_valid_def)
next
  case (2 k)
  show ?case by (simp add: rb_get_def map_at_def map_new_def empty_rb_def)
next
  case (3 M k v)
  then obtain ix where "map_holds lt M ix" by (auto simp: rb_valid_def)
  from rb_put_ok [OF this] show ?case by (auto simp: rb_valid_def)
next
  case (4 M k)
  then obtain ix where "map_holds lt M ix" by (auto simp: rb_valid_def)
  from rb_remove_ok [OF this] show ?case by (auto simp: rb_valid_def)
next
  case (5 M k' k v)
  then obtain ix where H: "map_holds lt M ix" by (auto simp: rb_valid_def)
  then have "idx_inv lt ix" by (simp add: map_holds_def)
  then show ?case unfolding rb_get_ok [OF H] rb_get_ok [OF rb_put_ok [OF H]] by (rule ix.get_put)
next
  case (6 M k' k)
  then obtain ix where H: "map_holds lt M ix" by (auto simp: rb_valid_def)
  then have "idx_inv lt ix" by (simp add: map_holds_def)
  then show ?case unfolding rb_get_ok [OF H] rb_get_ok [OF rb_remove_ok [OF H]] by (rule ix.get_remove)
next
  case (7 M k k')
  then obtain ix where H: "map_holds lt M ix" by (auto simp: rb_valid_def)
  then have "idx_inv lt ix" by (simp add: map_holds_def)
  then show ?case using rb_get_ok [OF H] ix.get_cong 7 by simp
next
  case (8 M)
  then obtain ix where H: "map_holds lt M ix" by (auto simp: rb_valid_def)
  then have "idx_inv lt ix" by (simp add: map_holds_def)
  then show ?case using rb_get_ok [OF H] rb_count_ok [OF H] ix.sz_zero by simp
qed

end
