(* ===== verification/Rb_Check.thy ===== *)
theory Rb_Check
  imports Rb_Sessions
begin

text \<open>
  \<^verbatim>\<open>RedBlackTreeStructureCheck\<close>, the map's own check of its tree for debugging builds, and that no
  session makes it fail.
\<close>

section \<open>The check\<close>

text \<open>
  The search in breadth: nodes without a left or a right son are recorded once for each; \<open>None\<close> when
  a red node has a red son.
\<close>

fun check_colors :: "nat \<Rightarrow> ('k, 'v) rb \<Rightarrow> nat list \<Rightarrow> nat list \<Rightarrow> nat \<Rightarrow> (nat list \<times> nat) option result" where
  "check_colors k R [] nils n = Inr (Some (nils, n))"
| "check_colors 0 R (p # ps) nils n = Inl Undefined"
| "check_colors (Suc k) R (p # ps) nils n = rbind (rb_node p R) (\<lambda>x.
     rbind (some_red (rn_left x) R) (\<lambda>lr. rbind (some_red (rn_right x) R) (\<lambda>rr.
     if rn_color x = Red \<and> (lr \<or> rr) then Inr None
     else check_colors k R (ps @ (if rn_left x \<noteq> 0 then [rn_left x] else []) @ (if rn_right x \<noteq> 0 then [rn_right x] else []))
       (nils @ (if rn_left x \<noteq> 0 then [] else [p]) @ (if rn_right x \<noteq> 0 then [] else [p])) (n + 1))))"

text \<open>Black nodes on the way up; whether there are \<open>b\<close> from all of the given nodes.\<close>

fun count_black :: "nat \<Rightarrow> nat \<Rightarrow> ('k, 'v) rb \<Rightarrow> nat \<Rightarrow> nat result" where
  "count_black k p R n = (if p = 0 then Inr n else case k of 0 \<Rightarrow> Inl Undefined
     | Suc k' \<Rightarrow> rbind (rb_node p R) (\<lambda>x. count_black k' (rn_parent x) R (if rn_color x = Black then n + 1 else n)))"

fun all_black :: "nat \<Rightarrow> nat \<Rightarrow> nat list \<Rightarrow> ('k, 'v) rb \<Rightarrow> bool result" where
  "all_black k b [] R = Inr True"
| "all_black k b (p # ps) R = rbind (count_black k p R 1) (\<lambda>c. if c \<noteq> b then Inr False else all_black k b ps R)"

text \<open>\<^verbatim>\<open>inorder_walk\<close>.\<close>

fun walk_keys :: "nat \<Rightarrow> nat \<Rightarrow> ('k, 'v) rb \<Rightarrow> 'k list result" where
  "walk_keys 0 p R = Inl Undefined"
| "walk_keys (Suc k) p R = rbind (rb_node p R) (\<lambda>x.
     rbind (if rn_left x \<noteq> 0 then walk_keys k (rn_left x) R else Inr []) (\<lambda>as.
     rbind (if rn_right x \<noteq> 0 then walk_keys k (rn_right x) R else Inr []) (\<lambda>bs. Inr (as @ rn_key x # bs))))"

declare count_black.simps [simp del]

definition structure_check :: "('k \<Rightarrow> 'k \<Rightarrow> bool) \<Rightarrow> ('k, 'v) rmap \<Rightarrow> bool result" where
  "structure_check lt M = (let T = rm_tree M; root = rb_root T; c = rm_count M in
     if root = 0 then Inr (c = 0) else if c = 0 then Inr False
     else rbind (check_colors (c + 1) T [root] [] 0) (\<lambda>r. case r of None \<Rightarrow> Inr False
       | Some (nils, n) \<Rightarrow> if n \<noteq> c then Inr False
         else rbind (rb_node root T) (\<lambda>x. if rn_color x \<noteq> Black \<or> rn_parent x \<noteq> 0 then Inr False
         else if length nils < 2 then Inl Undefined
         else rbind (count_black (c + 1) (hd nils) T 1) (\<lambda>b. rbind (all_black (c + 1) b nils T) (\<lambda>ok.
           if \<not> ok then Inr False
           else rbind (walk_keys (c + 1) root T) (\<lambda>ks.
             Inr (\<forall>i<length ks - 1. lt (ks ! i) (ks ! Suc i))))))))"

section \<open>It succeeds\<close>

primrec blacks :: "('k, 'v) rb_frame list \<Rightarrow> nat" where
  "blacks [] = 0"
| "blacks (f # fs) = (if fr_color f = Black then Suc (blacks fs) else blacks fs)"

text \<open>A node of the tree, seen with the same number of black nodes on every way down.\<close>

definition level :: "('k, 'v) rb \<Rightarrow> ('k \<times> 'v) list \<Rightarrow> nat \<Rightarrow> ('k, 'v) rb_frame list \<Rightarrow> ('k, 'v) rtree \<Rightarrow> bool" where
  "level R xs N fs t \<longleftrightarrow> view R fs t xs \<and> bheight t + blacks fs = N"

lemma level_down:
  assumes "level R xs N fs (Bin p c l k v r)"
  shows "level R xs N (Fr True p c k v r # fs) l" "level R xs N (Fr False p c k v l # fs) r"
proof -
  have V: "view R fs (Bin p c l k v r) xs" and N: "bheight (Bin p c l k v r) + blacks fs = N" using assms by (simp_all add: level_def)
  have "bheight l = bheight r" using V by (auto simp: view_def rb_ok_def)
  then show "level R xs N (Fr True p c k v r # fs) l" "level R xs N (Fr False p c k v l # fs) r"
    using view_down [of R fs True p c l k v r xs] view_down [of R fs False p c r k v l xs] V N by (auto simp: level_def bin_def)
qed

lemma level_node:
  assumes "level R xs N fs (Bin p c l k v r)"
  shows "rb_node p R = Inr (mk_node True k v (addr l) (addr r) (up fs) c)" "addr l = 0 \<longleftrightarrow> l = Tip" "addr r = 0 \<longleftrightarrow> r = Tip" "p \<noteq> 0"
    "some_red (addr l) R = Inr (color l = Red)" "some_red (addr r) R = Inr (color r = Red)" "c = Red \<longrightarrow> color l = Black \<and> color r = Black"
    "length fs < length xs"
proof -
  have V: "view R fs (Bin p c l k v r) xs" using assms by (simp add: level_def)
  then have F: "focus R fs (bin True p c l k v r)" by (simp add: view_def bin_def)
  show "rb_node p R = Inr (mk_node True k v (addr l) (addr r) (up fs) c)" by (rule focus_node [OF F])
  show "addr l = 0 \<longleftrightarrow> l = Tip" "addr r = 0 \<longleftrightarrow> r = Tip" "p \<noteq> 0" using focus_sub [OF F] focus_nonzero [OF F] by simp_all
  have "tree_at (rb_nodes R) p l" "tree_at (rb_nodes R) p r" using F by (simp_all add: focus_def bin_def)
  then show "some_red (addr l) R = Inr (color l = Red)" "some_red (addr r) R = Inr (color r = Red)" by (auto intro: some_red_ok)
  show "c = Red \<longrightarrow> color l = Black \<and> color r = Black" using V by (auto simp: view_def rb_ok_def)
  have "length fs \<le> length (pre fs @ post fs)" by (induction fs) (auto split: if_splits)
  then show "length fs < length xs" using V by (simp add: view_def)
qed

lemma check_colors_ok:
  "\<forall>(fs, t)\<in>set ts. t \<noteq> Tip \<and> level R xs N fs t \<Longrightarrow> sum_list (map (\<lambda>(fs, t). length (addrs t)) ts) \<le> k \<Longrightarrow>
    \<exists>nils'. check_colors k R (map (\<lambda>(fs, t). addr t) ts) nils n
        = Inr (Some (nils @ nils', n + sum_list (map (\<lambda>(fs, t). length (addrs t)) ts)))
      \<and> length nils' = sum_list (map (\<lambda>(fs, t). Suc (length (addrs t))) ts)
      \<and> (\<forall>p\<in>set nils'. \<exists>fs c l k v r. level R xs N fs (Bin p c l k v r) \<and> (l = Tip \<or> r = Tip))"
proof (induction k arbitrary: ts nils n)
  case 0
  then have "ts = []" by (cases ts) (auto elim: addrs.elims)
  then show ?case by simp
next
  case (Suc k)
  show ?case
  proof (cases ts)
    case Nil
    then show ?thesis by simp
  next
    case (Cons ft us)
    obtain fs t where ft: "ft = (fs, t)" by (cases ft)
    then obtain p c l kp v r where t: "t = Bin p c l kp v r" using Suc.prems(1) Cons by (cases t) auto
    have L: "level R xs N fs (Bin p c l kp v r)" using Suc.prems(1) Cons ft t by simp
    note node = level_node [OF L]
    define sons where "sons = (if l = Tip then [] else [(Fr True p c kp v r # fs, l)]) @ (if r = Tip then [] else [(Fr False p c kp v l # fs, r)])"
    define here where "here = (if l = Tip then [p] else []) @ (if r = Tip then [p] else [])"
    have sons: "\<forall>(fs, t)\<in>set sons. t \<noteq> Tip \<and> level R xs N fs t" using level_down [OF L] by (auto simp: sons_def)
    have size: "sum_list (map (\<lambda>(fs, t). length (addrs t)) sons) = length (addrs l) + length (addrs r)"
      "sum_list (map (\<lambda>(fs, t). Suc (length (addrs t))) sons) + length here = Suc (Suc (length (addrs l) + length (addrs r)))"
      by (auto simp: sons_def here_def)
    have "\<forall>(fs, t)\<in>set (us @ sons). t \<noteq> Tip \<and> level R xs N fs t" "sum_list (map (\<lambda>(fs, t). length (addrs t)) (us @ sons)) \<le> k"
      using Suc.prems sons size(1) Cons ft t by auto
    from Suc.IH [OF this, of "nils @ here" "n + 1"] obtain nils' where rest:
      "check_colors k R (map (\<lambda>(fs, t). addr t) (us @ sons)) (nils @ here) (n + 1)
        = Inr (Some ((nils @ here) @ nils', n + 1 + sum_list (map (\<lambda>(fs, t). length (addrs t)) (us @ sons))))"
      "length nils' = sum_list (map (\<lambda>(fs, t). Suc (length (addrs t))) (us @ sons))"
      "\<forall>p\<in>set nils'. \<exists>fs c l k v r. level R xs N fs (Bin p c l k v r) \<and> (l = Tip \<or> r = Tip)" by blast
    have "map (\<lambda>(fs, t). addr t) sons = (if addr l \<noteq> 0 then [addr l] else []) @ (if addr r \<noteq> 0 then [addr r] else [])"
      "here = (if addr l \<noteq> 0 then [] else [p]) @ (if addr r \<noteq> 0 then [] else [p])"
      using node(2,3) by (auto simp: sons_def here_def)
    then have "check_colors (Suc k) R (map (\<lambda>(fs, t). addr t) ts) nils n
        = check_colors k R (map (\<lambda>(fs, t). addr t) (us @ sons)) (nils @ here) (n + 1)"
      using node(1,5,6,7) by (auto simp: Cons ft t mk_node_def)
    moreover have "\<forall>q\<in>set here. \<exists>fs c l k v r. level R xs N fs (Bin q c l k v r) \<and> (l = Tip \<or> r = Tip)"
    proof
      fix q assume "q \<in> set here"
      then have "q = p" "l = Tip \<or> r = Tip" by (auto simp: here_def split: if_splits)
      then show "\<exists>fs c l k v r. level R xs N fs (Bin q c l k v r) \<and> (l = Tip \<or> r = Tip)" using L by blast
    qed
    ultimately show ?thesis using rest size Cons ft t by (intro exI [of _ "here @ nils'"]) auto
  qed
qed

text \<open>From a node, one has its colour and the black frames above.\<close>

lemma count_black_ok:
  "level R xs N fs (Bin p c l kp v r) \<Longrightarrow> length fs < k \<Longrightarrow>
    count_black k p R n = Inr (n + (if c = Black then 1 else 0) + blacks fs)"
proof (induction fs arbitrary: p c l kp v r k n)
  case Nil
  obtain j where "k = Suc j" using Nil.prems(2) by (cases k) auto
  then show ?case using level_node(1,4) [OF Nil.prems(1)]
    by (subst count_black.simps) (simp add: mk_node_def count_black.simps [of _ 0])
next
  case (Cons f fs)
  obtain j where k: "k = Suc j" using Cons.prems(2) by (cases k) auto
  obtain d q cq kq vq s where f: "f = Fr d q cq kq vq s" by (cases f)
  have V: "view R (Fr d q cq kq vq s # fs) (Bin p c l kp v r) xs" and N: "bheight (Bin p c l kp v r) + blacks (f # fs) = N"
    using Cons.prems(1) by (simp_all add: level_def f)
  obtain m where m: "frames_ok m (Fr d q cq kq vq s # fs)" "rb_ok m (Bin p c l kp v r)" "c = Black \<or> cq = Black"
    using V unfolding view_def by auto
  let ?t = "bin d q cq (Bin p c l kp v r) kq vq s"
  have "rb_ok (if cq = Black then Suc m else m) ?t" using m by (cases cq) auto
  moreover have "frames_ok (if cq = Black then Suc m else m) fs" "cq = Black \<or> top_black fs" using m(1) by (cases cq; simp)+
  ultimately have V': "view R fs ?t xs" using V unfolding view_def by (auto simp: focus_down inorder_bin)
  have "bheight ?t + blacks fs = N" using N m by (auto simp: f rb_ok_def bin_def)
  with V' have L: "level R xs N fs ?t" by (simp add: level_def)
  have "count_black j q R i = Inr (i + (if cq = Black then 1 else 0) + blacks fs)" for i
  proof (cases d)
    case True
    then show ?thesis using Cons.IH [of q cq "Bin p c l kp v r" kq vq s j i] L Cons.prems(2) k by (simp add: bin_def)
  next
    case False
    then show ?thesis using Cons.IH [of q cq s kq vq "Bin p c l kp v r" j i] L Cons.prems(2) k by (simp add: bin_def)
  qed
  then show ?case using level_node(1,4) [OF Cons.prems(1)] by (subst count_black.simps) (simp add: k f mk_node_def)
qed

lemma leaf_blacks:
  assumes "level R xs N fs (Bin p c l kp v r)" "l = Tip \<or> r = Tip"
  shows "count_black (length xs + 1) p R 1 = Inr (Suc N)"
proof -
  have "bheight l = 0" using assms by (auto simp: level_def view_def rb_ok_def)
  then have "N = (if c = Black then 1 else 0) + blacks fs" using assms(1) by (auto simp: level_def)
  then show ?thesis using count_black_ok [OF assms(1), of "length xs + 1" 1] level_node(8) [OF assms(1)] by simp
qed

lemma all_black_ok: "\<forall>p\<in>set ps. count_black k p R 1 = Inr b \<Longrightarrow> all_black k b ps R = Inr True"
  by (induction ps) auto

lemma walk_keys_ok:
  "tree_at (rb_nodes R) par t \<Longrightarrow> t \<noteq> Tip \<Longrightarrow> depth t \<le> k \<Longrightarrow> walk_keys k (addr t) R = Inr (map fst (inorder t))"
proof (induction t arbitrary: par k)
  case (Bin p c l kp v r)
  obtain j where k: "k = Suc j" using Bin.prems(3) by (cases k) auto
  have T: "rb_node p R = Inr (mk_node True kp v (addr l) (addr r) par c)" "tree_at (rb_nodes R) p l" "tree_at (rb_nodes R) p r"
    using Bin.prems(1) by (simp_all add: rb_node_def)
  have "l \<noteq> Tip \<Longrightarrow> walk_keys j (addr l) R = Inr (map fst (inorder l))" "r \<noteq> Tip \<Longrightarrow> walk_keys j (addr r) R = Inr (map fst (inorder r))"
    using Bin.IH(1) [OF T(2)] Bin.IH(2) [OF T(3)] Bin.prems(3) k by auto
  then show ?case using T addr_zero [OF T(2)] addr_zero [OF T(3)] by (auto simp: k mk_node_def)
qed simp

text \<open>
  The map's own check of its tree succeeds, without a failing assertion, on every map that
  a session can make.
\<close>
lemma structure_check_passes:
  assumes "map_holds lt M ix"
  shows "structure_check lt M = Inr True"
proof (cases "chain ix = []")
  case True
  then show ?thesis using assms map_empty_ok [of M] by (simp add: map_holds_def structure_check_def)
next
  case False
  have M: "map_ok M (chain ix)" and S: "sorted_keys lt (chain ix)" using assms by (simp_all add: map_holds_def idx_inv_def)
  let ?T = "rm_tree M" and ?xs = "chain ix"
  obtain t where t: "view ?T [] t ?xs" "rb_root ?T = addr t" "length (addrs t) = length ?xs" "inorder t = ?xs"
    "addr t = 0 \<longleftrightarrow> ?xs = []" "t = Tip \<longleftrightarrow> ?xs = []" by (rule map_ok_root [OF M])
  have c: "rm_count M = length ?xs" using M by (simp add: map_ok_def)
  obtain p cl l k v r where b: "t = Bin p cl l k v r" using t(6) False by (cases t) auto
  have L: "level ?T ?xs (bheight t) [] t" using t(1) by (simp add: level_def)
  obtain nils where nils: "check_colors (length ?xs + 1) ?T [addr t] [] 0 = Inr (Some (nils, length ?xs))" "length nils = Suc (length ?xs)"
    "\<forall>p\<in>set nils. \<exists>fs c l k v r. level ?T ?xs (bheight t) fs (Bin p c l k v r) \<and> (l = Tip \<or> r = Tip)"
    using check_colors_ok [of "[([], t)]" ?T ?xs "bheight t" "length ?xs + 1" "[]" 0] L t(3,6) False by auto
  have up: "\<forall>p\<in>set nils. count_black (length ?xs + 1) p ?T 1 = Inr (Suc (bheight t))"
  proof
    fix p assume "p \<in> set nils"
    then obtain fs c l k v r where "level ?T ?xs (bheight t) fs (Bin p c l k v r)" "l = Tip \<or> r = Tip" using nils(3) by blast
    then show "count_black (length ?xs + 1) p ?T 1 = Inr (Suc (bheight t))" by (rule leaf_blacks)
  qed
  have "length ?xs \<noteq> 0" using False by simp
  then have two: "\<not> length nils < 2" unfolding nils(2) by linarith
  then have "nils \<noteq> []" by (intro notI) simp
  then have first: "hd nils \<in> set nils" by simp
  have "cl = Black" using t(1) by (simp add: view_def b)
  then have top: "rb_node (addr t) ?T = Inr (mk_node True k v (addr l) (addr r) 0 Black)" using level_node(1) [OF L [unfolded b]] by (simp add: b)
  have "tree_at (rb_nodes ?T) 0 t" using t(1) focusD(1) [of ?T "[]" t] by (simp add: view_def)
  then have keys: "walk_keys (length ?xs + 1) (addr t) ?T = Inr (map fst ?xs)"
    using walk_keys_ok [of ?T 0 t "length ?xs + 1"] t(3,4,6) False depth_le_length [of t] by simp
  have sorted: "\<forall>i<length ?xs - 1. lt (fst (?xs ! i)) (fst (?xs ! Suc i))" using S by (simp add: sorted_wrt_iff_nth_less)
  have same: "count_black (length ?xs + 1) (hd nils) ?T 1 = Inr (Suc (bheight t))" using up first by blast
  have "(\<forall>i<length (map fst ?xs) - 1. lt (map fst ?xs ! i) (map fst ?xs ! Suc i)) = True" using sorted by simp
  then show ?thesis using False two
    by (simp only: structure_check_def Let_def t(2,5) c nils(1) top same all_black_ok [OF up] keys)
      (simp add: mk_node_def same all_black_ok [OF up] del: One_nat_def)
qed

lemma structure_check_passes_witness: "structure_check (<) seven = Inr True"
  by (rule structure_check_passes [OF seven_facts])

end
