(* ===== verification/Byte_Buffers.thy ===== *)
theory Byte_Buffers
  imports Prelude
begin

text \<open>
  \<^verbatim>\<open>uint8_t_reader\<close> and \<^verbatim>\<open>uint8_t_writer\<close> of \<^verbatim>\<open>dataguard/src/snapshot.cpp\<close>: buffered access to a file,
  byte by byte. The models of differences read and write byte lists; these lemmas say that the
  buffers make no difference. The buffer is the list of its bytes between the two pointers; a buffer
  without room is written outside its bounds.
\<close>

section \<open>Reading\<close>

record reader =
  rd_file :: "8 word list"
  rd_ahead :: "8 word list"
  rd_size :: nat

definition reader_new :: "8 word list \<Rightarrow> nat \<Rightarrow> reader" where
  "reader_new file n = \<lparr>rd_file = file, rd_ahead = [], rd_size = n\<rparr>"

text \<open>\<open>None\<close> is \<^verbatim>\<open>EOF\<close>.\<close>

definition next_byte :: "reader \<Rightarrow> 8 word option \<times> reader" where
  "next_byte r =
     (let r1 = (if rd_ahead r = [] then r\<lparr>rd_ahead := take (rd_size r) (rd_file r), rd_file := drop (rd_size r) (rd_file r)\<rparr> else r)
      in case rd_ahead r1 of [] \<Rightarrow> (None, r1) | b # bs \<Rightarrow> (Some b, r1\<lparr>rd_ahead := bs\<rparr>))"

fun read_bytes :: "nat \<Rightarrow> reader \<Rightarrow> 8 word option list \<times> reader" where
  "read_bytes 0 r = ([], r)"
| "read_bytes (Suc n) r = (let (b, r1) = next_byte r; (bs, r2) = read_bytes n r1 in (b # bs, r2))"

definition unread :: "reader \<Rightarrow> 8 word list" where
  "unread r = rd_ahead r @ rd_file r"

lemma next_byte_ok:
  assumes "0 < rd_size r"
  shows "fst (next_byte r) = (case unread r of [] \<Rightarrow> None | b # _ \<Rightarrow> Some b)" "unread (snd (next_byte r)) = tl (unread r)"
    "rd_size (snd (next_byte r)) = rd_size r"
proof -
  obtain n where n: "rd_size r = Suc n" using assms by (cases "rd_size r") auto
  show "fst (next_byte r) = (case unread r of [] \<Rightarrow> None | b # _ \<Rightarrow> Some b)" "unread (snd (next_byte r)) = tl (unread r)"
    "rd_size (snd (next_byte r)) = rd_size r"
    by (cases "rd_ahead r"; cases "rd_file r"; simp add: next_byte_def unread_def n)+
qed

text \<open>The bytes of the file in order, each once, then \<^verbatim>\<open>EOF\<close> for ever, whatever the size of the buffer.\<close>

lemma read_bytes_ok:
  "0 < rd_size r \<Longrightarrow> fst (read_bytes n r) = map Some (take n (unread r)) @ replicate (n - length (unread r)) None
    \<and> unread (snd (read_bytes n r)) = drop n (unread r)"
proof (induction n arbitrary: r)
  case (Suc n)
  note b = next_byte_ok [OF Suc.prems]
  have "0 < rd_size (snd (next_byte r))" using b(3) Suc.prems by simp
  note rest = Suc.IH [OF this]
  show ?case using b rest by (cases "unread r") (auto simp: case_prod_beta Let_def)
qed simp

lemma reader_reads_file:
  assumes "0 < n"
  shows "fst (read_bytes (length file + k) (reader_new file n)) = map Some file @ replicate k None"
  using read_bytes_ok [of "reader_new file n" "length file + k"] assms by (simp add: reader_new_def unread_def)

section \<open>Writing\<close>

record writer =
  wr_file :: "8 word list"
  wr_pending :: "8 word list"
  wr_size :: nat

definition writer_new :: "8 word list \<Rightarrow> nat \<Rightarrow> writer" where
  "writer_new file n = \<lparr>wr_file = file, wr_pending = [], wr_size = n\<rparr>"

definition writer_flush :: "writer \<Rightarrow> writer" where
  "writer_flush w = w\<lparr>wr_file := wr_file w @ wr_pending w, wr_pending := []\<rparr>"

definition write_byte :: "8 word \<Rightarrow> writer \<Rightarrow> writer result" where
  "write_byte b w = (let w1 = (if length (wr_pending w) = wr_size w then writer_flush w else w)
     in if length (wr_pending w1) < wr_size w1 then Inr (w1\<lparr>wr_pending := wr_pending w1 @ [b]\<rparr>) else Inl Undefined)"

text \<open>The destructor; it writes what is pending.\<close>

definition writer_close :: "writer \<Rightarrow> 8 word list" where
  "writer_close w = wr_file w @ wr_pending w"

fun write_bytes :: "8 word list \<Rightarrow> writer \<Rightarrow> writer result" where
  "write_bytes [] w = Inr w"
| "write_bytes (b # bs) w = rbind (write_byte b w) (write_bytes bs)"

lemma write_byte_ok:
  assumes "0 < wr_size w" "length (wr_pending w) \<le> wr_size w"
  shows "\<exists>w'. write_byte b w = Inr w' \<and> writer_close w' = writer_close w @ [b] \<and> wr_size w' = wr_size w \<and> length (wr_pending w') \<le> wr_size w'"
  using assms by (auto simp: write_byte_def writer_flush_def writer_close_def Let_def)

lemma write_bytes_ok:
  "0 < wr_size w \<Longrightarrow> length (wr_pending w) \<le> wr_size w \<Longrightarrow>
    \<exists>w'. write_bytes bs w = Inr w' \<and> writer_close w' = writer_close w @ bs"
proof (induction bs arbitrary: w)
  case (Cons b bs)
  obtain w1 where w1: "write_byte b w = Inr w1" "writer_close w1 = writer_close w @ [b]" "wr_size w1 = wr_size w" "length (wr_pending w1) \<le> wr_size w1"
    using write_byte_ok [OF Cons.prems] by blast
  then obtain w' where "write_bytes bs w1 = Inr w'" "writer_close w' = writer_close w1 @ bs"
    using Cons.IH [of w1] Cons.prems(1) by auto
  then show ?case using w1(1,2) by simp
qed simp

text \<open>Exactly the bytes that were written, and nothing is written twice by flushing before the end.\<close>

lemma writer_writes_file:
  assumes "0 < n"
  shows "\<exists>w. write_bytes bs (writer_new file n) = Inr w \<and> writer_close w = file @ bs \<and> writer_close (writer_flush w) = file @ bs"
  using write_bytes_ok [of "writer_new file n" bs] assms by (auto simp: writer_new_def writer_close_def writer_flush_def)

text \<open>What is written through one buffer is read back through another.\<close>

lemma buffers_round_trip:
  assumes "0 < m" "0 < n" "write_bytes bs (writer_new [] m) = Inr w"
  shows "fst (read_bytes (length bs + 1) (reader_new (writer_close w) n)) = map Some bs @ [None]"
proof -
  have "writer_close w = bs" using writer_writes_file [OF assms(1), of bs "[]"] assms(3) by auto
  then show ?thesis using reader_reads_file [OF assms(2), of bs 1] by simp
qed

end
